(* ===== verification/Prelude.thy ===== *)
theory Prelude
  imports Main "HOL-Library.Word"
begin

text \<open>
  Shared ground of the development: the fixed-width integer types of the kernel, C strings
  as byte lists, the array idioms the code repeats (the shift-down loop that every
  \<open>Vector\<close> client uses to delete an element, linear search with an early return) and the
  linked-list predicate for the two intrusive lists of the kernel (heap blocks, processes).
  Component theories reach these facts through \<open>simp\<close>, \<open>intro\<close> or the collections below.
\<close>

unbundle bit_operations_syntax

named_theorems vec_simps "list-level meaning of the array loops"
named_theorems word_facts "conversions between machine words and naturals"

type_synonym u8 = "8 word"
type_synonym u16 = "16 word"
type_synonym u32 = "32 word"
type_synonym u64 = "64 word"
type_synonym bytes = "u8 list"

text \<open>A string literal of the source as the bytes in front of its terminating NUL.\<close>

definition cstr :: "string \<Rightarrow> bytes" where
  "cstr s = map of_char s"

text \<open>A C++ pointer; \<open>nullptr\<close> is 0.\<close>

abbreviation nullptr :: u64 where
  "nullptr \<equiv> 0"

section \<open>Deleting from an array by shifting\<close>

text \<open>
  \<^verbatim>\<open>for (k = j; k < size - 1; k++) a[k] = a[k + 1];\<close> for a non-empty array, and the
  \<open>pop_back\<close> that always follows it.
\<close>

function shift_left :: "nat \<Rightarrow> 'a list \<Rightarrow> 'a list" where
  "shift_left k xs =
     (if Suc k < length xs then shift_left (Suc k) (xs[k := xs ! Suc k]) else xs)"
  by pat_completeness auto
termination
  by (relation "measure (\<lambda>(k, xs). length xs - k)") auto

declare shift_left.simps [simp del]

definition erase_at :: "nat \<Rightarrow> 'a list \<Rightarrow> 'a list" where
  "erase_at j xs = butlast (shift_left j xs)"

lemma length_shift_left [simp]: "length (shift_left k xs) = length xs"
proof (induction k xs rule: shift_left.induct)
  case (1 k xs)
  then show ?case by (cases "Suc k < length xs") (simp_all add: shift_left.simps [of k xs])
qed

lemma shift_left_eq:
  "k < length xs \<Longrightarrow> shift_left k xs = take k xs @ drop (Suc k) xs @ [last xs]"
proof (induction k xs rule: shift_left.induct)
  case (1 k xs)
  show ?case
  proof (cases "Suc k < length xs")
    case True
    let ?ys = "xs[k := xs ! Suc k]"
    have "shift_left k xs = take (Suc k) ?ys @ drop (Suc (Suc k)) ?ys @ [last ?ys]"
      using 1 True by (simp add: shift_left.simps [of k xs])
    also have "take (Suc k) ?ys = take k xs @ [xs ! Suc k]"
      using True by (simp add: take_Suc_conv_app_nth)
    also have "last ?ys = last xs"
      using True by (cases xs rule: rev_cases) (auto simp: list_update_append)
    also have "drop (Suc (Suc k)) ?ys = drop (Suc (Suc k)) xs"
      by simp
    finally show ?thesis
      using True by (simp add: Cons_nth_drop_Suc [symmetric])
  next
    case False
    with "1.prems" have k: "Suc k = length xs" by simp
    then have "xs = take k xs @ [last xs]"
      by (metis append_butlast_last_id butlast_conv_take diff_Suc_1 length_0_conv nat.distinct(1))
    then show ?thesis
      using k by (simp add: shift_left.simps [of k xs])
  qed
qed

lemma erase_at_eq [vec_simps]:
  "j < length xs \<Longrightarrow> erase_at j xs = take j xs @ drop (Suc j) xs"
  by (simp add: erase_at_def shift_left_eq butlast_append)

lemma length_erase_at [simp]: "length (erase_at j xs) = length xs - 1"
  by (simp add: erase_at_def)

lemma set_erase_at_subset: "j < length xs \<Longrightarrow> set (erase_at j xs) \<subseteq> set xs"
  by (auto simp: erase_at_eq dest: in_set_takeD in_set_dropD)

lemma distinct_erase_at: "j < length xs \<Longrightarrow> distinct xs \<Longrightarrow> distinct (erase_at j xs)"
  by (simp add: erase_at_eq set_take_disj_set_drop_if_distinct)

lemma set_erase_at_distinct:
  assumes "j < length xs" "distinct xs"
  shows "set (erase_at j xs) = set xs - {xs ! j}"
proof -
  have xs: "xs = take j xs @ xs ! j # drop (Suc j) xs"
    using assms(1) by (rule id_take_nth_drop)
  have "distinct (take j xs @ xs ! j # drop (Suc j) xs)"
    using xs assms(2) by simp
  moreover have "set xs = set (take j xs @ xs ! j # drop (Suc j) xs)"
    using xs by simp
  ultimately show ?thesis
    using assms(1) by (auto simp: erase_at_eq)
qed

lemma erase_at_0 [simp]: "erase_at 0 (x # xs) = xs"
  by (simp add: erase_at_eq)

section \<open>Linear search with an early return\<close>

text \<open>
  \<^verbatim>\<open>for (i = 0; i < size; i++) if (P(a[i])) return i;\<close>
\<close>

fun find_index :: "('a \<Rightarrow> bool) \<Rightarrow> 'a list \<Rightarrow> nat option" where
  "find_index P [] = None"
| "find_index P (x # xs) = (if P x then Some 0 else map_option Suc (find_index P xs))"

lemma find_index_None: "find_index P xs = None \<longleftrightarrow> (\<forall>x \<in> set xs. \<not> P x)"
  by (induction xs) auto

lemma find_index_Some:
  "find_index P xs = Some i \<longleftrightarrow> i < length xs \<and> P (xs ! i) \<and> (\<forall>j < i. \<not> P (xs ! j))"
proof (induction xs arbitrary: i)
  case Nil
  then show ?case by simp
next
  case (Cons x xs)
  show ?case
    by (cases i) (auto simp: Cons.IH less_Suc_eq_0_disj)
qed

lemmas find_index_SomeD = find_index_Some [THEN iffD1]

lemma find_index_first_unique:
  assumes "distinct xs" "i < length xs" "P (xs ! i)" "\<And>x. x \<in> set xs \<Longrightarrow> P x \<Longrightarrow> x = xs ! i"
  shows "find_index P xs = Some i"
proof -
  have "\<not> P (xs ! j)" if "j < i" for j
    using that assms by (metis nth_eq_iff_index_eq nth_mem order_less_trans less_irrefl)
  with assms show ?thesis by (simp add: find_index_Some)
qed

section \<open>Intrusive linked lists\<close>

text \<open>
  \<open>chain nxt p xs\<close>: following \<open>nxt\<close> from \<open>p\<close> visits exactly the nodes \<open>xs\<close> and then reaches
  \<open>nullptr\<close>.
\<close>

fun chain :: "(u64 \<Rightarrow> u64) \<Rightarrow> u64 \<Rightarrow> u64 list \<Rightarrow> bool" where
  "chain nxt p [] \<longleftrightarrow> p = nullptr"
| "chain nxt p (x # xs) \<longleftrightarrow> p = x \<and> x \<noteq> nullptr \<and> chain nxt (nxt x) xs"

lemma chain_null [simp]: "chain nxt 0 xs \<longleftrightarrow> xs = []"
  by (cases xs) auto

lemma chain_nonnull: "p \<noteq> 0 \<Longrightarrow> chain nxt p xs \<longleftrightarrow> (\<exists>ys. xs = p # ys \<and> chain nxt (nxt p) ys)"
  by (cases xs) auto

lemma chain_unique: "chain nxt p xs \<Longrightarrow> chain nxt p ys \<Longrightarrow> xs = ys"
  by (induction xs arbitrary: p ys) (auto simp: chain_nonnull)

lemma chain_append:
  "chain nxt p (xs @ y # ys) \<Longrightarrow> chain nxt y (y # ys)"
  by (induction xs arbitrary: p) auto

lemma chain_distinct: "chain nxt p xs \<Longrightarrow> distinct xs"
proof (induction xs arbitrary: p)
  case Nil
  then show ?case by simp
next
  case (Cons x xs)
  have "x \<notin> set xs"
  proof
    assume "x \<in> set xs"
    then obtain as bs where xs: "xs = as @ x # bs" by (auto simp: in_set_conv_decomp)
    with Cons.prems have "chain nxt (nxt x) (as @ x # bs)" by simp
    then have "chain nxt x (x # bs)" by (rule chain_append)
    moreover from Cons.prems have "chain nxt x (x # xs)" by simp
    ultimately have "x # bs = x # xs" by (rule chain_unique)
    with xs show False by (simp add: append_eq_Cons_conv)
  qed
  with Cons show ?case by auto
qed

lemma chain_cong:
  "(\<And>x. x \<in> set xs \<Longrightarrow> f x = g x) \<Longrightarrow> chain f p xs \<longleftrightarrow> chain g p xs"
  by (induction xs arbitrary: p) auto

lemma chain_upd_notin [simp]: "q \<notin> set xs \<Longrightarrow> chain (f(q := v)) p xs \<longleftrightarrow> chain f p xs"
  by (rule chain_cong) auto

lemma chain_nonzero: "chain nxt p xs \<Longrightarrow> 0 \<notin> set xs"
  by (induction xs arbitrary: p) auto

lemma chain_unlink_head: "chain nxt p (x # ys) \<Longrightarrow> chain nxt (nxt x) ys"
  by simp

lemma chain_unlink:
  assumes "chain nxt p (xs @ x # ys)" "xs \<noteq> []"
  shows "chain (nxt(last xs := nxt x)) p (xs @ ys)"
  using assms
proof (induction xs arbitrary: p)
  case (Cons a xs)
  show ?case
  proof (cases xs)
    case Nil
    have "a \<notin> set ys" using chain_distinct [OF Cons.prems(1)] Nil by auto
    with Cons.prems Nil show ?thesis by (simp add: fun_upd_same del: fun_upd_apply)
  next
    case (Cons b bs)
    have "last xs \<noteq> a" using chain_distinct [OF Cons.prems(1)] Cons by (metis append_Cons distinct.simps(2) in_set_conv_decomp last_in_set list.distinct(1) UnCI set_append)
    with Cons.IH [of "nxt a"] Cons.prems Cons show ?thesis
      by (simp add: fun_upd_other del: fun_upd_apply)
  qed
qed simp

section \<open>Words\<close>

lemma unat_u64_lt [simp]: "unat (w :: u64) < 18446744073709551616"
  using unsigned_less [of w, where ?'a = nat] by simp

lemma unat_u32_lt [simp]: "unat (w :: u32) < 4294967296"
  using unsigned_less [of w, where ?'a = nat] by simp

lemma unat_of_nat_u64 [word_facts]: "n < 18446744073709551616 \<Longrightarrow> unat (of_nat n :: u64) = n"
  by (simp add: unat_of_nat take_bit_nat_eq_self)

lemma unat_plus_u64 [word_facts]:
  "unat a + unat b < 18446744073709551616 \<Longrightarrow> unat (a + b :: u64) = unat a + unat b"
  by (simp add: unat_word_ariths)

lemma unat_minus_u64 [word_facts]: "b \<le> a \<Longrightarrow> unat (a - b :: u64) = unat a - unat b"
  by (rule unat_sub)

lemma unat_mult_u64 [word_facts]:
  "unat a * unat b < 18446744073709551616 \<Longrightarrow> unat (a * b :: u64) = unat a * unat b"
  by (simp add: unat_word_ariths)

lemma unat_Suc_u64 [word_facts]: "a < b \<Longrightarrow> unat (a + 1 :: u64) = Suc (unat a)"
proof -
  assume "a < b"
  then have "unat a < unat b" by (simp add: word_less_nat_alt)
  then have "unat a + 1 < 18446744073709551616"
    using unat_u64_lt [of b] by linarith
  then show ?thesis by (simp add: unat_plus_u64)
qed

lemma unat_drop_bit: "unat (drop_bit k (w :: 'a :: len word)) = unat w div 2 ^ k"
proof -
  have "unat (drop_bit k w) = drop_bit k (unat w)"
    by (simp add: unsigned_drop_bit_eq take_bit_nat_eq_self unsigned_less)
  then show ?thesis by (simp add: drop_bit_eq_div [of k "unat w"])
qed

lemma unat_and_mask: "unat (w AND mask n) = unat (w :: 'a :: len word) mod 2 ^ n"
proof -
  have "unat (take_bit n w) = take_bit n (unat w)" by (rule unsigned_take_bit_eq)
  then show ?thesis by (simp add: take_bit_eq_mask take_bit_eq_mod [symmetric])
qed

lemma of_nat_div_word: "of_nat (unat w div 2 ^ k) = drop_bit k (w :: 'a :: len word)"
  by (simp add: unat_drop_bit [symmetric])

lemma scast_of_nat_32: "n < 2 ^ 31 \<Longrightarrow> (scast (of_nat n :: 32 word) :: u64) = of_nat n"
proof -
  assume n: "n < 2 ^ 31"
  have "sint (of_nat n :: 32 word) = int n"
    using n by (simp add: signed_of_nat signed_take_bit_int_eq_self)
  moreover have "(scast (of_nat n :: 32 word) :: u64) = of_int (sint (of_nat n :: 32 word))"
    by (rule scast_eq)
  ultimately show ?thesis by simp
qed

lemma unat_plus_fit:
  "unat a + unat b < 2 ^ LENGTH('a) \<Longrightarrow> unat (a + b) = unat a + unat (b :: 'a :: len word)"
  by (simp add: unat_plus_if')

lemma unat_mult_fit:
  "unat a * unat b < 2 ^ LENGTH('a) \<Longrightarrow> unat (a * b) = unat a * unat (b :: 'a :: len word)"
  by (simp add: unat_word_ariths)

lemma unat_of_nat_fit: "n < 2 ^ LENGTH('a) \<Longrightarrow> unat (of_nat n :: 'a :: len word) = n"
  by (simp add: unat_of_nat take_bit_eq_mod)

lemma unat_minus_fit: "b \<le> a \<Longrightarrow> unat (a - b) = unat a - unat (b :: 'a :: len word)"
  by (rule unat_sub)

lemma unat_Suc_less:
  assumes "(c :: 'a :: len word) < d"
  shows "unat (c + 1) = Suc (unat c)"
proof -
  have "unat c < unat d" using assms by (simp add: word_less_nat_alt)
  moreover have "unat d < 2 ^ LENGTH('a)" by (rule unsigned_less)
  ultimately have lt: "Suc (unat c) < 2 ^ LENGTH('a)" by linarith
  have "unat (1 :: 'a word) \<le> 1" by simp
  with lt have "unat c + unat (1 :: 'a word) < 2 ^ LENGTH('a)" by linarith
  then have "unat (c + 1) = unat c + unat (1 :: 'a word)" by (rule unat_plus_fit)
  then show ?thesis by simp
qed

lemma unat_and_not_mask: "unat (w AND NOT (mask n)) = unat w - unat (w :: 'a :: len word) mod 2 ^ n"
proof -
  have "(w AND NOT (mask n)) + (w AND mask n) = w"
    by (subst disjunctive_add_eq_or) (auto simp: bit_eq_iff bit_simps)
  then have "w AND NOT (mask n) = w - (w AND mask n)" by (metis add_diff_cancel_right')
  moreover have "w AND mask n \<le> w" by (simp add: word_le_nat_alt unat_and_mask)
  ultimately show ?thesis by (simp add: unat_sub unat_and_mask)
qed

text \<open>
  The mask test the code writes as \<^verbatim>\<open>w & (1u << b)\<close>; the simplifier's normal form of
  \<open>push_bit b 1\<close> is a power of two.
\<close>

lemma and_mask_eq_0: "(w :: 'a :: len word) AND 2 ^ b = 0 \<longleftrightarrow> \<not> (b < LENGTH('a) \<and> bit w b)"
proof -
  have "w AND 2 ^ b = 0 \<longleftrightarrow> (\<forall>n. \<not> bit (w AND 2 ^ b) n)"
    by (auto simp: bit_eq_iff dest: bit_imp_le_length)
  also have "\<dots> \<longleftrightarrow> (\<forall>n. \<not> (n = b \<and> n < LENGTH('a) \<and> bit w n))"
    by (auto simp: bit_simps)
  finally show ?thesis by blast
qed

end
