(* ===== verification/Physical_Memory.thy ===== *)
theory Physical_Memory
  imports Prelude
begin

text \<open>
  The physical frame allocator, \<open>memory/physical_memory.cpp\<close>: a bitmap with one bit per
  4 KiB frame, a count of free frames, first-fit allocation.

  \<open>m_bitmap\<close> is the memory the pointer of the same name reaches, one 32-bit word per index:
  the static array \<open>initial_bitmap[16384]\<close>. The invariant \<open>pmm_ok\<close> keeps every index the
  code computes inside that array. The progress messages the code writes to VGA memory are
  not modelled.
\<close>

section \<open>State and operations\<close>

record pmm =
  m_bitmap :: "nat \<Rightarrow> u32"
  m_total_frames :: u64
  m_free_frames :: u64
  m_memory_start :: u64

definition PAGE_SIZE :: u64 where
  "PAGE_SIZE = 4096"

text \<open>The body every marking loop repeats: \<^verbatim>\<open>m_bitmap[i / 32] |= 1u << (i % 32); m_free_frames--;\<close>\<close>

definition mark_frame :: "nat \<Rightarrow> pmm \<Rightarrow> pmm" where
  "mark_frame i s =
     s\<lparr>m_bitmap := (m_bitmap s)(i div 32 := m_bitmap s (i div 32) OR push_bit (i mod 32) 1),
       m_free_frames := m_free_frames s - 1\<rparr>"

definition initialize :: "u64 \<Rightarrow> u64 \<Rightarrow> pmm \<Rightarrow> pmm" where
  "initialize memory_start memory_size s0 =
    (let total = memory_size div PAGE_SIZE;
         words = (total + 31) div 32;
         s1 = s0\<lparr>m_memory_start := memory_start,
                 m_total_frames := total,
                 m_free_frames := total,
                 m_bitmap := (\<lambda>i. if i < unat words then 0 else m_bitmap s0 i)\<rparr>;
         first_mb_frames = unat (0x100000 div PAGE_SIZE);
         s2 = fold mark_frame [0..<first_mb_frames] s1;
         heap_start_frame = unat ((memory_size - 16 * 1024 * 1024) div PAGE_SIZE);
         heap_frames = unat ((16 * 1024 * 1024) div PAGE_SIZE);
         s3 = fold mark_frame [heap_start_frame..<heap_start_frame + heap_frames] s2;
         page_table_frames = 5
     in fold mark_frame [first_mb_frames..<first_mb_frames + page_table_frames] s3)"

text \<open>The scan of \<open>allocate_frame\<close> from frame \<open>i\<close> on.\<close>

function allocate_scan :: "nat \<Rightarrow> pmm \<Rightarrow> u64 \<times> pmm" where
  "allocate_scan i s =
     (if i < unat (m_total_frames s) then
        if m_bitmap s (i div 32) AND push_bit (i mod 32) 1 = 0
        then (m_memory_start s + of_nat i * PAGE_SIZE, mark_frame i s)
        else allocate_scan (Suc i) s
      else (nullptr, s))"
  by pat_completeness auto
termination
  by (relation "measure (\<lambda>(i, s). unat (m_total_frames s) - i)") auto

declare allocate_scan.simps [simp del]

definition allocate_frame :: "pmm \<Rightarrow> u64 \<times> pmm" where
  "allocate_frame s = (if m_free_frames s = 0 then (nullptr, s) else allocate_scan 0 s)"

definition free_frame :: "u64 \<Rightarrow> pmm \<Rightarrow> pmm" where
  "free_frame addr s =
    (if addr < m_memory_start s then s
     else
       let frame_index = (addr - m_memory_start s) div PAGE_SIZE
       in if frame_index \<ge> m_total_frames s then s
          else
            let idx = unat frame_index div 32; b = unat frame_index mod 32
            in if m_bitmap s idx AND push_bit b 1 \<noteq> 0
               then s\<lparr>m_bitmap := (m_bitmap s)(idx := m_bitmap s idx AND NOT (push_bit b 1)),
                      m_free_frames := m_free_frames s + 1\<rparr>
               else s)"

definition get_free_frames :: "pmm \<Rightarrow> u64" where
  "get_free_frames s = m_free_frames s"

definition get_total_frames :: "pmm \<Rightarrow> u64" where
  "get_total_frames s = m_total_frames s"

section \<open>Frames as numbers and as addresses\<close>

definition BITMAP_WORDS :: nat where
  "BITMAP_WORDS = 16384"

definition n_frames :: "pmm \<Rightarrow> nat" where
  "n_frames s = unat (m_total_frames s)"

definition frame_used :: "pmm \<Rightarrow> nat \<Rightarrow> bool" where
  "frame_used s i = bit (m_bitmap s (i div 32)) (i mod 32)"

definition frame_addr :: "pmm \<Rightarrow> nat \<Rightarrow> u64" where
  "frame_addr s i = m_memory_start s + of_nat i * PAGE_SIZE"

definition free_indices :: "pmm \<Rightarrow> nat set" where
  "free_indices s = {i. i < n_frames s \<and> \<not> frame_used s i}"

definition pmm_frames :: "pmm \<Rightarrow> u64 set" where
  "pmm_frames s = frame_addr s ` {..<n_frames s}"

definition pmm_free :: "pmm \<Rightarrow> u64 set" where
  "pmm_free s = frame_addr s ` free_indices s"

text \<open>
  The invariant: the bitmap array is long enough, the managed range neither contains address
  0 nor wraps around, and the counter is the number of clear bits.
\<close>

definition pmm_ok :: "pmm \<Rightarrow> bool" where
  "pmm_ok s \<longleftrightarrow>
     n_frames s \<le> 32 * BITMAP_WORDS \<and>
     0 < unat (m_memory_start s) \<and>
     unat (m_memory_start s) + n_frames s * 4096 \<le> 18446744073709551616 \<and>
     unat (m_free_frames s) = card (free_indices s)"

lemma finite_free_indices [simp]: "finite (free_indices s)"
  by (simp add: free_indices_def)

lemma test_frame_bit: "m_bitmap s (i div 32) AND 2 ^ (i mod 32) = 0 \<longleftrightarrow> \<not> frame_used s i"
  by (simp add: and_mask_eq_0 frame_used_def)

lemma same_bit_iff: "i div 32 = j div 32 \<and> i mod 32 = j mod 32 \<longleftrightarrow> i = (j :: nat)"
  by (metis div_mult_mod_eq)

lemma frame_used_mark: "frame_used (mark_frame i s) j \<longleftrightarrow> j = i \<or> frame_used s j"
proof (cases "j div 32 = i div 32")
  case True
  then have "frame_used (mark_frame i s) j \<longleftrightarrow> frame_used s j \<or> j mod 32 = i mod 32"
    by (auto simp: frame_used_def mark_frame_def bit_simps)
  with True same_bit_iff [of j i] show ?thesis by blast
next
  case False
  then show ?thesis by (auto simp: frame_used_def mark_frame_def)
qed

lemma mark_frame_simps [simp]:
  "m_total_frames (mark_frame i s) = m_total_frames s"
  "m_memory_start (mark_frame i s) = m_memory_start s"
  "m_free_frames (mark_frame i s) = m_free_frames s - 1"
  by (simp_all add: mark_frame_def)

lemma n_frames_mark [simp]: "n_frames (mark_frame i s) = n_frames s"
  by (simp add: n_frames_def)

lemma frame_addr_mark [simp]: "frame_addr (mark_frame i s) = frame_addr s"
  by (rule ext) (simp add: frame_addr_def)

lemma free_indices_mark: "free_indices (mark_frame i s) = free_indices s - {i}"
  by (auto simp: free_indices_def frame_used_mark)

lemma pmm_ok_mark:
  assumes "pmm_ok s" "i \<in> free_indices s"
  shows "pmm_ok (mark_frame i s)"
proof -
  have c: "unat (m_free_frames s) = card (free_indices s)"
    using assms(1) by (simp add: pmm_ok_def)
  have pos: "0 < card (free_indices s)"
    using assms(2) by (auto simp: card_gt_0_iff)
  then have "unat (m_free_frames s - 1) = card (free_indices s) - 1"
    using c by (simp add: unat_minus_one flip: unat_gt_0)
  also have "\<dots> = card (free_indices s - {i})"
    using assms(2) by simp
  finally show ?thesis
    using assms(1) by (simp add: pmm_ok_def free_indices_mark)
qed

section \<open>Addresses do not collide\<close>

lemma unat_frame_addr:
  assumes "pmm_ok s" "i < n_frames s"
  shows "unat (frame_addr s i) = unat (m_memory_start s) + i * 4096"
proof -
  have bound: "unat (m_memory_start s) + n_frames s * 4096 \<le> 18446744073709551616"
    using assms(1) by (simp add: pmm_ok_def)
  have lt: "unat (m_memory_start s) + i * 4096 < 18446744073709551616"
    using bound assms(2) by linarith
  then have i: "unat (of_nat i :: u64) = i"
    by (intro unat_of_nat_u64) linarith
  have m: "unat (of_nat i * PAGE_SIZE) = i * 4096"
    using lt i by (subst unat_mult_u64) (simp_all add: PAGE_SIZE_def)
  show ?thesis
    unfolding frame_addr_def using lt m by (subst unat_plus_u64) simp_all
qed

lemma frame_addr_inject:
  assumes "pmm_ok s" "i < n_frames s" "j < n_frames s" "frame_addr s i = frame_addr s j"
  shows "i = j"
proof -
  have "unat (m_memory_start s) + i * 4096 = unat (m_memory_start s) + j * 4096"
    unfolding unat_frame_addr [OF assms(1,2), symmetric] unat_frame_addr [OF assms(1,3), symmetric]
    by (simp only: assms(4))
  then show ?thesis by simp
qed

lemma inj_on_frame_addr: "pmm_ok s \<Longrightarrow> inj_on (frame_addr s) {..<n_frames s}"
  by (rule inj_onI) (auto intro: frame_addr_inject)

lemma frame_addr_nonzero:
  assumes "pmm_ok s" "i < n_frames s"
  shows "frame_addr s i \<noteq> 0"
proof
  assume "frame_addr s i = 0"
  then have "unat (m_memory_start s) + i * 4096 = 0"
    using unat_frame_addr [OF assms] by simp
  with assms(1) show False by (simp add: pmm_ok_def)
qed

lemma pmm_free_subset: "pmm_free s \<subseteq> pmm_frames s"
  by (auto simp: pmm_free_def pmm_frames_def free_indices_def)

lemma zero_notin_pmm_frames: "pmm_ok s \<Longrightarrow> 0 \<notin> pmm_frames s"
  by (auto simp: pmm_frames_def dest: frame_addr_nonzero)

lemma card_pmm_free: "pmm_ok s \<Longrightarrow> card (pmm_free s) = unat (m_free_frames s)"
proof -
  assume ok: "pmm_ok s"
  have "inj_on (frame_addr s) (free_indices s)"
    by (rule inj_on_subset [OF inj_on_frame_addr [OF ok]]) (auto simp: free_indices_def)
  then show ?thesis
    using ok by (simp add: pmm_free_def card_image pmm_ok_def)
qed

lemma frame_addr_free_iff:
  assumes "pmm_ok s" "i < n_frames s"
  shows "frame_addr s i \<in> pmm_free s \<longleftrightarrow> \<not> frame_used s i"
proof
  assume "frame_addr s i \<in> pmm_free s"
  then obtain j where "j < n_frames s" "\<not> frame_used s j" "frame_addr s i = frame_addr s j"
    by (auto simp: pmm_free_def free_indices_def)
  with assms frame_addr_inject [of s i j] show "\<not> frame_used s i" by simp
next
  assume "\<not> frame_used s i"
  with assms(2) show "frame_addr s i \<in> pmm_free s"
    by (auto simp: pmm_free_def free_indices_def)
qed

section \<open>Allocation\<close>

lemma allocate_scan_spec:
  assumes "\<And>j. j < i \<Longrightarrow> frame_used s j"
  shows "allocate_scan i s =
    (if free_indices s = {} then (nullptr, s)
     else (frame_addr s (Min (free_indices s)), mark_frame (Min (free_indices s)) s))"
  using assms
proof (induction i s rule: allocate_scan.induct)
  case (1 i s)
  show ?case
  proof (cases "i < n_frames s \<and> frame_used s i")
    case True
    with 1 have "allocate_scan i s = allocate_scan (Suc i) s"
      by (simp add: allocate_scan.simps [of i s] test_frame_bit n_frames_def)
    moreover have "frame_used s j" if "j < Suc i" for j
      using that True "1.prems" by (cases "j = i") auto
    ultimately show ?thesis
      using 1 True by (simp add: test_frame_bit n_frames_def)
  next
    case False
    show ?thesis
    proof (cases "i < n_frames s")
      case True
      with False have i: "i \<in> free_indices s" by (simp add: free_indices_def)
      moreover have "i \<le> j" if "j \<in> free_indices s" for j
        using that "1.prems" by (auto simp: free_indices_def not_less [symmetric])
      ultimately have "Min (free_indices s) = i" by (intro Min_eqI) auto
      with True False i show ?thesis
        by (auto simp: allocate_scan.simps [of i s] test_frame_bit n_frames_def frame_addr_def)
    next
      case False
      with "1.prems" have "free_indices s = {}" by (auto simp: free_indices_def)
      with False show ?thesis
        by (simp add: allocate_scan.simps [of i s] n_frames_def)
    qed
  qed
qed

lemma allocate_frame_eq:
  assumes "pmm_ok s"
  shows "allocate_frame s =
    (if free_indices s = {} then (nullptr, s)
     else (frame_addr s (Min (free_indices s)), mark_frame (Min (free_indices s)) s))"
proof (cases "m_free_frames s = 0")
  case True
  with assms have "free_indices s = {}" by (simp add: pmm_ok_def)
  with True show ?thesis by (simp add: allocate_frame_def)
next
  case False
  then show ?thesis by (simp add: allocate_frame_def allocate_scan_spec)
qed

lemma allocate_frame_cases:
  assumes "pmm_ok s"
  obtains (none) "allocate_frame s = (nullptr, s)" "free_indices s = {}"
  | (some) i where "i \<in> free_indices s" "\<And>j. j < i \<Longrightarrow> j \<notin> free_indices s"
      "allocate_frame s = (frame_addr s i, mark_frame i s)"
proof (cases "free_indices s = {}")
  case True
  with assms show ?thesis by (intro none) (simp_all add: allocate_frame_eq)
next
  case False
  then have "Min (free_indices s) \<in> free_indices s" by simp
  moreover have "j \<notin> free_indices s" if "j < Min (free_indices s)" for j
    using that by (metis Min_le finite_free_indices not_le)
  ultimately show ?thesis
    using False assms by (intro some) (simp_all add: allocate_frame_eq)
qed

lemma allocate_frame_fixed:
  assumes "pmm_ok s"
  shows "m_memory_start (snd (allocate_frame s)) = m_memory_start s"
    and "n_frames (snd (allocate_frame s)) = n_frames s"
  using allocate_frame_eq [OF assms] by simp_all

section \<open>Release\<close>

lemma free_frame_at:
  assumes ok: "pmm_ok s" and i: "i < n_frames s"
    and a: "unat a = unat (m_memory_start s) + i * 4096 + off" and off: "off < 4096"
  shows "free_frame a s =
    (if frame_used s i
     then s\<lparr>m_bitmap := (m_bitmap s)(i div 32 := m_bitmap s (i div 32) AND NOT (2 ^ (i mod 32))),
            m_free_frames := m_free_frames s + 1\<rparr>
     else s)"
proof -
  have le: "m_memory_start s \<le> a" using a by (simp add: word_le_nat_alt)
  have "unat (a - m_memory_start s) = i * 4096 + off"
    using a by (simp add: unat_minus_u64 [OF le])
  then have idx: "unat ((a - m_memory_start s) div PAGE_SIZE) = i"
    using off by (simp add: unat_div PAGE_SIZE_def)
  have "\<not> m_total_frames s \<le> (a - m_memory_start s) div PAGE_SIZE"
    using i idx by (simp add: word_le_nat_alt n_frames_def)
  with le show ?thesis
    by (simp add: free_frame_def Let_def idx test_frame_bit not_less)
qed

lemma free_frame_outside:
  assumes "a < m_memory_start s \<or> m_total_frames s \<le> (a - m_memory_start s) div PAGE_SIZE"
  shows "free_frame a s = s"
  using assms by (auto simp: free_frame_def Let_def)

lemma free_frame_fixed [simp]:
  "m_total_frames (free_frame a s) = m_total_frames s"
  "m_memory_start (free_frame a s) = m_memory_start s"
  by (simp_all add: free_frame_def Let_def)

lemma n_frames_free [simp]: "n_frames (free_frame a s) = n_frames s"
  by (simp add: n_frames_def)

lemma frame_addr_free_frame [simp]: "frame_addr (free_frame a s) = frame_addr s"
  by (rule ext) (simp add: frame_addr_def)

lemma frame_used_clear:
  "frame_used (s\<lparr>m_bitmap := (m_bitmap s)(i div 32 := m_bitmap s (i div 32) AND NOT (2 ^ (i mod 32))),
                m_free_frames := c\<rparr>) j \<longleftrightarrow> j \<noteq> i \<and> frame_used s j"
proof (cases "j div 32 = i div 32")
  case True
  have "j mod 32 < 32" by simp
  with True same_bit_iff [of j i] show ?thesis
    by (auto simp: frame_used_def bit_simps)
next
  case False
  then show ?thesis by (auto simp: frame_used_def)
qed

lemma free_indices_free_frame:
  assumes "pmm_ok s" "i < n_frames s"
    and "unat a = unat (m_memory_start s) + i * 4096 + off" "off < 4096"
  shows "free_indices (free_frame a s) = insert i (free_indices s)"
proof -
  have eq: "free_frame a s =
    (if frame_used s i
     then s\<lparr>m_bitmap := (m_bitmap s)(i div 32 := m_bitmap s (i div 32) AND NOT (2 ^ (i mod 32))),
            m_free_frames := m_free_frames s + 1\<rparr>
     else s)"
    by (rule free_frame_at [OF assms])
  show ?thesis
  proof (cases "frame_used s i")
    case True
    with eq assms(2) show ?thesis
      by (auto simp: free_indices_def frame_used_clear n_frames_def)
  next
    case False
    with eq assms(2) show ?thesis by (auto simp: free_indices_def)
  qed
qed

lemma free_frame_mono: "i \<in> free_indices s \<Longrightarrow> i \<in> free_indices (free_frame a s)"
proof -
  assume "i \<in> free_indices s"
  moreover have "\<not> frame_used s i \<Longrightarrow> \<not> frame_used (free_frame a s) i"
    by (simp add: free_frame_def Let_def frame_used_clear)
  ultimately show ?thesis by (simp add: free_indices_def)
qed

lemma card_free_indices_le: "card (free_indices s) \<le> n_frames s"
proof -
  have "card (free_indices s) \<le> card {..<n_frames s}"
    by (rule card_mono) (auto simp: free_indices_def)
  then show ?thesis by simp
qed

lemma pmm_ok_free_frame:
  assumes ok: "pmm_ok s"
  shows "pmm_ok (free_frame a s)"
proof (cases "a < m_memory_start s \<or> m_total_frames s \<le> (a - m_memory_start s) div PAGE_SIZE")
  case True
  with ok show ?thesis by (simp add: free_frame_outside)
next
  case False
  define i where "i = unat ((a - m_memory_start s) div PAGE_SIZE)"
  define off where "off = unat (a - m_memory_start s) mod 4096"
  from False have le: "m_memory_start s \<le> a" by (simp add: not_less)
  have i: "i < n_frames s"
    using False by (simp add: i_def n_frames_def word_le_nat_alt not_le)
  have "unat (a - m_memory_start s) = i * 4096 + off"
    by (simp add: i_def off_def unat_div PAGE_SIZE_def div_mult_mod_eq)
  then have a: "unat a = unat (m_memory_start s) + i * 4096 + off"
    using le by (simp add: unat_minus_u64 word_le_nat_alt)
  have off: "off < 4096" by (simp add: off_def)
  show ?thesis
  proof (cases "frame_used s i")
    case True
    have c: "unat (m_free_frames s) = card (free_indices s)"
      using ok by (simp add: pmm_ok_def)
    have notin: "i \<notin> free_indices s" using True by (simp add: free_indices_def)
    have "unat (m_free_frames s) < 18446744073709551615"
      using c card_free_indices_le [of s] ok by (simp add: pmm_ok_def BITMAP_WORDS_def)
    then have "unat (m_free_frames s + 1) = card (insert i (free_indices s))"
      using c notin by (simp add: unat_plus_u64)
    moreover have "m_free_frames (free_frame a s) = m_free_frames s + 1"
      using True by (simp add: free_frame_at [OF ok i a off])
    ultimately show ?thesis
      using ok by (simp add: pmm_ok_def free_indices_free_frame [OF ok i a off])
  next
    case False
    with ok show ?thesis by (simp add: free_frame_at [OF ok i a off])
  qed
qed

lemma pmm_free_free_frame:
  assumes ok: "pmm_ok s" and f: "f \<in> pmm_frames s"
  shows "pmm_free (free_frame f s) = insert f (pmm_free s)"
proof -
  obtain i where i: "i < n_frames s" and fi: "f = frame_addr s i"
    using f by (auto simp: pmm_frames_def)
  have "unat f = unat (m_memory_start s) + i * 4096 + 0"
    using unat_frame_addr [OF ok i] fi by simp
  then have "free_indices (free_frame f s) = insert i (free_indices s)"
    by (rule free_indices_free_frame [OF ok i]) simp
  with fi show ?thesis by (simp add: pmm_free_def)
qed

section \<open>The interface: a pool of frames\<close>

text \<open>
  What the rest of the kernel relies on: \<open>alloc\<close> takes a frame out of the pool or returns
  \<open>nullptr\<close> when the pool is empty, \<open>free\<close> puts one back. The clients that take several
  frames in a loop (heap, stacks, shared memory, page tables) stop at the first failure.
\<close>

fun alloc_many :: "('s \<Rightarrow> u64 \<times> 's) \<Rightarrow> nat \<Rightarrow> 's \<Rightarrow> u64 list \<times> 's" where
  "alloc_many alloc 0 s = ([], s)"
| "alloc_many alloc (Suc n) s =
     (let (f, s') = alloc s
      in if f = nullptr then ([], s')
         else let (fs, s'') = alloc_many alloc n s' in (f # fs, s''))"

locale frame_pool =
  fixes alloc :: "'s \<Rightarrow> u64 \<times> 's"
    and free :: "u64 \<Rightarrow> 's \<Rightarrow> 's"
    and frames :: "'s \<Rightarrow> u64 set"
    and frees :: "'s \<Rightarrow> u64 set"
    and inv :: "'s \<Rightarrow> bool"
  assumes frees_frames: "frees s \<subseteq> frames s"
    and finite_frames: "finite (frames s)"
    and null_frames: "inv s \<Longrightarrow> 0 \<notin> frames s"
    and alloc_empty: "inv s \<Longrightarrow> frees s = {} \<Longrightarrow> alloc s = (0, s)"
    and alloc_frame: "inv s \<Longrightarrow> frees s \<noteq> {} \<Longrightarrow>
      fst (alloc s) \<in> frees s \<and> frees (snd (alloc s)) = frees s - {fst (alloc s)}"
    and alloc_frames: "inv s \<Longrightarrow> frames (snd (alloc s)) = frames s"
    and free_frees: "inv s \<Longrightarrow> f \<in> frames s \<Longrightarrow> frees (free f s) = insert f (frees s)"
    and free_frames: "inv s \<Longrightarrow> frames (free f s) = frames s"
    and inv_alloc: "inv s \<Longrightarrow> inv (snd (alloc s))"
    and inv_free: "inv s \<Longrightarrow> inv (free f s)"
begin

lemma alloc_null_iff: "inv s \<Longrightarrow> fst (alloc s) = 0 \<longleftrightarrow> frees s = {}"
  using alloc_empty alloc_frame null_frames frees_frames by fastforce

lemma finite_frees [simp]: "finite (frees s)"
  by (rule finite_subset [OF frees_frames finite_frames])

lemma alloc_many_spec:
  "inv s \<Longrightarrow> alloc_many alloc n s = (fs, s') \<Longrightarrow>
    distinct fs \<and> set fs \<subseteq> frees s \<and> frees s' = frees s - set fs \<and> inv s' \<and>
    frames s' = frames s \<and> length fs = min n (card (frees s))"
proof (induction n arbitrary: s fs s')
  case 0
  then show ?case by simp
next
  case (Suc n)
  obtain f t where ft: "alloc s = (f, t)" by (cases "alloc s")
  show ?case
  proof (cases "frees s = {}")
    case True
    with Suc.prems alloc_empty [of s] have "fs = []" "s' = s" by auto
    with True Suc.prems show ?thesis by simp
  next
    case False
    have f: "f \<in> frees s" "frees t = frees s - {f}" "inv t" "frames t = frames s"
      using alloc_frame [OF Suc.prems(1) False] inv_alloc [OF Suc.prems(1)]
        alloc_frames [OF Suc.prems(1)] ft by auto
    have f0: "f \<noteq> 0" using alloc_null_iff [OF Suc.prems(1)] False ft by simp
    obtain gs t' where gs: "alloc_many alloc n t = (gs, t')" by (cases "alloc_many alloc n t")
    have fs: "fs = f # gs" "s' = t'" using Suc.prems(2) ft f0 gs by auto
    have "length gs = min n (card (frees s) - 1)"
      using Suc.IH [OF f(3) gs] f(1,2) by simp
    moreover have "0 < card (frees s)" using False by (simp add: card_gt_0_iff)
    ultimately show ?thesis
      using Suc.IH [OF f(3) gs] fs f by auto
  qed
qed

lemma free_list_spec:
  "inv s \<Longrightarrow> set fs \<subseteq> frames s \<Longrightarrow>
    frees (fold free fs s) = frees s \<union> set fs \<and> inv (fold free fs s) \<and>
    frames (fold free fs s) = frames s"
proof (induction fs arbitrary: s)
  case Nil
  then show ?case by simp
next
  case (Cons f fs)
  then show ?case
    using Cons.IH [of "free f s"] by (auto simp: free_frees free_frames inv_free)
qed

lemma alloc_free_roundtrip:
  assumes "inv s" "alloc_many alloc n s = (fs, s')"
  shows "frees (fold free fs s') = frees s"
proof -
  have "set fs \<subseteq> frees s" "inv s'" "frames s' = frames s" "frees s' = frees s - set fs"
    using alloc_many_spec [OF assms] by auto
  then show ?thesis
    using free_list_spec [of s' fs] frees_frames [of s] by blast
qed

end

interpretation pool: frame_pool allocate_frame free_frame pmm_frames pmm_free pmm_ok
proof
  fix s :: pmm and f :: u64
  show "pmm_free s \<subseteq> pmm_frames s" by (rule pmm_free_subset)
  show "finite (pmm_frames s)" by (simp add: pmm_frames_def)
  assume ok: "pmm_ok s"
  show "0 \<notin> pmm_frames s" using ok by (rule zero_notin_pmm_frames)
  show "pmm_free s = {} \<Longrightarrow> allocate_frame s = (0, s)"
    using ok by (simp add: pmm_free_def allocate_frame_eq)
  show "pmm_frames (snd (allocate_frame s)) = pmm_frames s"
    using ok by (cases rule: allocate_frame_cases) (simp_all add: pmm_frames_def)
  show "pmm_ok (snd (allocate_frame s))"
    using ok by (cases rule: allocate_frame_cases) (simp_all add: ok pmm_ok_mark)
  show "pmm_frames (free_frame f s) = pmm_frames s"
    by (simp add: pmm_frames_def)
  show "pmm_ok (free_frame f s)" using ok by (rule pmm_ok_free_frame)
  show "f \<in> pmm_frames s \<Longrightarrow> pmm_free (free_frame f s) = insert f (pmm_free s)"
    using ok by (rule pmm_free_free_frame)
  assume ne: "pmm_free s \<noteq> {}"
  show "fst (allocate_frame s) \<in> pmm_free s \<and>
    pmm_free (snd (allocate_frame s)) = pmm_free s - {fst (allocate_frame s)}"
    using ok
  proof (cases rule: allocate_frame_cases)
    case none
    with ne show ?thesis by (simp add: pmm_free_def)
  next
    case (some i)
    have inj: "inj_on (frame_addr s) {..<n_frames s}" by (rule inj_on_frame_addr [OF ok])
    have sub: "free_indices s \<subseteq> {..<n_frames s}" by (auto simp: free_indices_def)
    have "frame_addr s ` (free_indices s - {i}) = frame_addr s ` free_indices s - {frame_addr s i}"
      using inj_on_image_set_diff [OF inj, of "free_indices s" "{i}"] sub some(1) by auto
    with some show ?thesis by (simp add: pmm_free_def free_indices_mark)
  qed
qed

section \<open>Boot\<close>

lemma fold_mark_frame:
  "pmm_ok s \<Longrightarrow> distinct is \<Longrightarrow> set is \<subseteq> free_indices s \<Longrightarrow>
    pmm_ok (fold mark_frame is s) \<and> free_indices (fold mark_frame is s) = free_indices s - set is"
proof (induction "is" arbitrary: s)
  case Nil
  then show ?case by simp
next
  case (Cons i "is")
  from Cons.prems have "pmm_ok (mark_frame i s)"
    by (auto intro: pmm_ok_mark)
  moreover have "set is \<subseteq> free_indices (mark_frame i s)"
    using Cons.prems by (auto simp: free_indices_mark)
  ultimately show ?case
    using Cons.IH [of "mark_frame i s"] Cons.prems by (auto simp: free_indices_mark)
qed

lemma fold_mark_frame_fixed [simp]:
  "n_frames (fold mark_frame is s) = n_frames s"
  "m_memory_start (fold mark_frame is s) = m_memory_start s"
  by (induction "is" arbitrary: s) simp_all

lemma initialize_cleared:
  fixes s0 :: pmm and sz :: u64 and start :: u64
  assumes "unat sz div 4096 \<le> 32 * BITMAP_WORDS" "0 < unat start"
    and "unat start + unat sz \<le> 18446744073709551616"
  defines "s1 \<equiv> s0\<lparr>m_memory_start := start, m_total_frames := sz div PAGE_SIZE,
      m_free_frames := sz div PAGE_SIZE,
      m_bitmap := (\<lambda>i. if i < unat ((sz div PAGE_SIZE + 31) div 32) then 0 else m_bitmap s0 i)\<rparr>"
  shows "pmm_ok s1" "free_indices s1 = {..<unat sz div 4096}"
    and "n_frames s1 = unat sz div 4096"
proof -
  have t: "unat (sz div PAGE_SIZE) = unat sz div 4096"
    by (simp add: unat_div PAGE_SIZE_def)
  then show n: "n_frames s1 = unat sz div 4096"
    by (simp add: s1_def n_frames_def)
  have "unat (sz div PAGE_SIZE + 31) = unat sz div 4096 + 31"
    using t assms(1) by (subst unat_plus_u64) (simp_all add: BITMAP_WORDS_def)
  then have w: "unat ((sz div PAGE_SIZE + 31) div 32) = (unat sz div 4096 + 31) div 32"
    by (simp add: unat_div)
  have "\<not> frame_used s1 i" if "i < unat sz div 4096" for i
  proof -
    have "i div 32 < (unat sz div 4096 + 31) div 32" using that by linarith
    then show ?thesis by (simp add: frame_used_def s1_def w)
  qed
  then show f: "free_indices s1 = {..<unat sz div 4096}"
    using n by (auto simp: free_indices_def)
  have m: "m_memory_start s1 = start" "m_free_frames s1 = sz div PAGE_SIZE"
    by (simp_all add: s1_def)
  have "unat sz div 4096 * 4096 \<le> unat sz" by simp
  then have "unat start + unat sz div 4096 * 4096 \<le> 18446744073709551616"
    using assms(3) by linarith
  then show "pmm_ok s1"
    using assms(1,2) by (simp add: pmm_ok_def n f t m)
qed

section \<open>Properties\<close>

text \<open>
  booting the allocator. For any memory size that leaves room for the three reserved
  ranges and fits the static bitmap, \<open>initialize\<close> establishes the invariant, and exactly the
  frames between the page-table reserve and the 16 MiB heap at the top are free.
\<close>

theorem initialize_correct:
  assumes sz: "4357 \<le> unat sz div 4096" "unat sz div 4096 \<le> 32 * BITMAP_WORDS"
    and start: "0 < unat start" "unat start + unat sz \<le> 18446744073709551616"
  shows "pmm_ok (initialize start sz s0) \<and>
         free_indices (initialize start sz s0) = {261..<unat sz div 4096 - 4096} \<and>
         unat (get_free_frames (initialize start sz s0)) = unat sz div 4096 - 4357"
proof (intro conjI)
  let ?n = "unat sz div 4096"
  let ?s1 = "s0\<lparr>m_memory_start := start, m_total_frames := sz div PAGE_SIZE,
      m_free_frames := sz div PAGE_SIZE,
      m_bitmap := (\<lambda>i. if i < unat ((sz div PAGE_SIZE + 31) div 32) then 0 else m_bitmap s0 i)\<rparr>"
  note s1 = initialize_cleared [OF sz(2) start, of s0]
  have hs: "unat ((sz - 16 * 1024 * 1024) div PAGE_SIZE) = ?n - 4096"
  proof -
    have "unat (16 * 1024 * 1024 :: u64) = 16777216" by simp
    moreover have ge: "16777216 \<le> unat sz" using sz(1) by linarith
    ultimately have "unat (sz - 16 * 1024 * 1024) = unat sz - 16777216"
      by (subst unat_minus_u64) (simp_all add: word_le_nat_alt)
    then show ?thesis using ge by (simp add: unat_div PAGE_SIZE_def)
  qed
  define res where "res = [0..<256] @ [?n - 4096..<?n - 4096 + 4096] @ [256..<261]"
  have c: "unat (0x100000 div PAGE_SIZE) = 256" "unat (16 * 1024 * 1024 div PAGE_SIZE) = 4096"
    by (simp_all add: PAGE_SIZE_def)
  have eq: "initialize start sz s0 = fold mark_frame res ?s1"
    unfolding initialize_def Let_def hs c res_def fold_append comp_def
    by (simp only: numeral_plus_numeral add_num_simps)
  have set_res: "set res = {0..<256} \<union> {?n - 4096..<?n} \<union> {256..<261}"
    using sz(1) unfolding res_def set_append set_upt by auto
  have "distinct res" "set res \<subseteq> free_indices ?s1"
    unfolding s1(2) set_res using sz(1)
    by (simp_all only: res_def distinct_append distinct_upt set_append set_upt) auto
  note marked = fold_mark_frame [OF s1(1) this]
  then show ok: "pmm_ok (initialize start sz s0)"
    unfolding eq by blast
  have "free_indices (initialize start sz s0) = {..<?n} - set res"
    unfolding eq using marked s1(2) by blast
  also have "\<dots> = {261..<?n - 4096}" unfolding set_res using sz(1) by auto
  finally show f: "free_indices (initialize start sz s0) = {261..<?n - 4096}" .
  show "unat (get_free_frames (initialize start sz s0)) = ?n - 4357"
    using ok f by (simp add: pmm_ok_def get_free_frames_def)
qed

text \<open>The state of a small machine with three frames from address 4096 on, the first in use.\<close>

definition pmm_example :: pmm where
  "pmm_example = \<lparr>m_bitmap = (\<lambda>i. if i = 0 then 1 else 0), m_total_frames = 3, m_free_frames = 2,
                  m_memory_start = 4096\<rparr>"

lemma pmm_example_used: "frame_used pmm_example i \<longleftrightarrow> i = 0"
  by (auto simp: frame_used_def pmm_example_def bit_simps)

lemma pmm_example_free: "free_indices pmm_example = {1, 2}"
proof -
  have "n_frames pmm_example = 3" by (simp add: n_frames_def pmm_example_def)
  then show ?thesis by (auto simp: free_indices_def pmm_example_used)
qed

lemma pmm_example_ok: "pmm_ok pmm_example"
  by (simp add: pmm_ok_def pmm_example_free n_frames_def BITMAP_WORDS_def)
    (simp add: pmm_example_def)

theorem initialize_correct_witness:
  "pmm_ok (initialize 0x100000 0x4000000 pmm_example) \<and>
   unat (get_free_frames (initialize 0x100000 0x4000000 pmm_example)) = 12027"
  using initialize_correct [of "0x4000000" "0x100000" pmm_example]
  by (simp add: BITMAP_WORDS_def)

text \<open>
  \<open>allocate_frame\<close> is first fit. It returns \<open>nullptr\<close> exactly when no frame is free, and
  then changes nothing; otherwise it returns the address of the lowest free frame, marks that
  frame and no other, and the counter drops by one. The invariant is kept.
\<close>

theorem allocate_frame_first_fit:
  assumes ok: "pmm_ok s" and call: "allocate_frame s = (f, s')"
  shows "pmm_ok s' \<and>
         (f = nullptr \<longleftrightarrow> get_free_frames s = 0) \<and>
         (f = nullptr \<longrightarrow> s' = s) \<and>
         (f \<noteq> nullptr \<longrightarrow> (\<exists>i < n_frames s. f = frame_addr s i \<and> \<not> frame_used s i \<and>
           (\<forall>j < i. frame_used s j) \<and> (\<forall>j. frame_used s' j \<longleftrightarrow> j = i \<or> frame_used s j) \<and>
           get_free_frames s' = get_free_frames s - 1))"
proof (intro conjI)
  show "pmm_ok s'" using pool.inv_alloc [OF ok] call by simp
  have "f = nullptr \<longleftrightarrow> pmm_free s = {}"
    using pool.alloc_null_iff [OF ok] call by simp
  also have "\<dots> \<longleftrightarrow> free_indices s = {}" by (simp add: pmm_free_def)
  also have "\<dots> \<longleftrightarrow> unat (m_free_frames s) = 0" using ok by (simp add: pmm_ok_def)
  finally show null: "f = nullptr \<longleftrightarrow> get_free_frames s = 0"
    by (simp add: get_free_frames_def unat_0_iff)
  from ok show "f = nullptr \<longrightarrow> s' = s"
  proof (cases rule: allocate_frame_cases)
    case (some i)
    then show ?thesis using call frame_addr_nonzero [OF ok, of i] by (simp add: free_indices_def)
  qed (use call in simp)
  from ok show "f \<noteq> nullptr \<longrightarrow> (\<exists>i < n_frames s. f = frame_addr s i \<and> \<not> frame_used s i \<and>
           (\<forall>j < i. frame_used s j) \<and> (\<forall>j. frame_used s' j \<longleftrightarrow> j = i \<or> frame_used s j) \<and>
           get_free_frames s' = get_free_frames s - 1)"
  proof (cases rule: allocate_frame_cases)
    case (some i)
    have "frame_used s j" if "j < i" for j
      using some(1) some(2) [OF that] that by (auto simp: free_indices_def)
    with some call show ?thesis
      by (auto simp: free_indices_def frame_used_mark get_free_frames_def)
  qed (use call in simp)
qed

theorem allocate_frame_first_fit_witness:
  "allocate_frame pmm_example = (8192, mark_frame 1 pmm_example) \<and>
   pmm_ok (mark_frame 1 pmm_example)"
proof -
  have "Min {1 :: nat, 2} = 1" by simp
  then have call: "allocate_frame pmm_example = (8192, mark_frame 1 pmm_example)"
    using allocate_frame_eq [OF pmm_example_ok]
    by (simp add: pmm_example_free frame_addr_def PAGE_SIZE_def) (simp add: pmm_example_def)
  show ?thesis
    using allocate_frame_first_fit [OF pmm_example_ok call] call by simp
qed

text \<open>
  C11: the frames handed out by a run of allocations are pairwise distinct, were all free, are
  as many as asked for or as there were, and releasing them restores the pool.
\<close>

theorem allocate_release_roundtrip:
  assumes "pmm_ok s" "alloc_many allocate_frame n s = (fs, s')"
  shows "distinct fs \<and> set fs \<subseteq> pmm_free s \<and> length fs = min n (unat (get_free_frames s)) \<and>
         pmm_free s' = pmm_free s - set fs \<and> pmm_ok s' \<and>
         pmm_free (fold free_frame fs s') = pmm_free s"
  using pool.alloc_many_spec [OF assms] pool.alloc_free_roundtrip [OF assms]
    card_pmm_free [OF assms(1)]
  by (simp add: get_free_frames_def)

theorem allocate_release_roundtrip_witness:
  "length (fst (alloc_many allocate_frame 5 pmm_example)) = 2"
  using allocate_release_roundtrip [OF pmm_example_ok, of 5]
  by (cases "alloc_many allocate_frame 5 pmm_example")
    (auto simp: get_free_frames_def pmm_example_def)

text \<open>
  \<open>free_frame\<close> tolerates any address. An address outside the managed range is ignored; one
  inside it releases the frame that contains it; a second release of the same address is
  ignored, so the counter cannot be pushed past the number of clear bits.
\<close>

theorem free_frame_safe:
  assumes "pmm_ok s"
  shows "pmm_ok (free_frame a s) \<and>
         free_frame a (free_frame a s) = free_frame a s \<and>
         (a < m_memory_start s \<or> m_total_frames s \<le> (a - m_memory_start s) div PAGE_SIZE
           \<longrightarrow> free_frame a s = s) \<and>
         (i < n_frames s \<and> off < 4096 \<and> a = frame_addr s i + of_nat off
           \<longrightarrow> free_indices (free_frame a s) = insert i (free_indices s))"
proof (intro conjI impI)
  show ok': "pmm_ok (free_frame a s)" by (rule pmm_ok_free_frame [OF assms])
  show "free_frame a s = s"
    if "a < m_memory_start s \<or> m_total_frames s \<le> (a - m_memory_start s) div PAGE_SIZE"
    using that by (rule free_frame_outside)
  show "free_frame a (free_frame a s) = free_frame a s"
    by (simp add: free_frame_def Let_def and.assoc)
  assume "i < n_frames s \<and> off < 4096 \<and> a = frame_addr s i + of_nat off"
  then have i: "i < n_frames s" and off: "off < 4096" and a: "a = frame_addr s i + of_nat off"
    by simp_all
  have "unat (m_memory_start s) + n_frames s * 4096 \<le> 18446744073709551616"
    using assms by (simp add: pmm_ok_def)
  then have lt: "unat (m_memory_start s) + i * 4096 + off < 18446744073709551616"
    using i off by linarith
  have "unat (of_nat off :: u64) = off" using off by (intro unat_of_nat_u64) simp
  then have "unat a = unat (m_memory_start s) + i * 4096 + off"
    using lt unat_frame_addr [OF assms i] a by (simp add: unat_plus_u64)
  then show "free_indices (free_frame a s) = insert i (free_indices s)"
    using off by (rule free_indices_free_frame [OF assms i])
qed

theorem free_frame_safe_witness:
  "free_indices (free_frame 4099 pmm_example) = {0, 1, 2} \<and> pmm_ok (free_frame 4099 pmm_example)"
  using free_frame_safe [OF pmm_example_ok, of 4099 0 3]
  by (simp add: pmm_example_free n_frames_def frame_addr_def)
    (simp add: pmm_example_def)

end
