(* ===== verification/Virtual_Memory.thy ===== *)
theory Virtual_Memory
  imports Physical_Memory "HOL-Library.Sublist"
begin

text \<open>
  Paging, \<open>memory/virtual_memory.cpp\<close>: page-table entries as 64-bit values, the four-level walk,
  mapping, unmapping and lookup, and the tables built at boot.

  Page tables live in physical memory. \<open>pt_mem\<close> is that memory, one 64-bit word per 8-byte
  aligned address; entry \<open>i\<close> of the table at \<open>t\<close> is the word at \<open>t + 8 * i\<close>. Debug output
  (\<open>write_debug\<close>, \<open>write_hex\<close>) is not modelled.
\<close>

section \<open>Page-table entries\<close>

type_synonym pte = u64

definition pte_flag :: "nat \<Rightarrow> pte \<Rightarrow> bool" where
  "pte_flag n v \<longleftrightarrow> v AND push_bit n 1 \<noteq> 0"

definition pte_present :: "pte \<Rightarrow> bool" where "pte_present = pte_flag 0"
definition pte_writable :: "pte \<Rightarrow> bool" where "pte_writable = pte_flag 1"
definition pte_user :: "pte \<Rightarrow> bool" where "pte_user = pte_flag 2"
definition pte_pwt :: "pte \<Rightarrow> bool" where "pte_pwt = pte_flag 3"
definition pte_pcd :: "pte \<Rightarrow> bool" where "pte_pcd = pte_flag 4"
definition pte_accessed :: "pte \<Rightarrow> bool" where "pte_accessed = pte_flag 5"
definition pte_dirty :: "pte \<Rightarrow> bool" where "pte_dirty = pte_flag 6"
definition pte_huge_page :: "pte \<Rightarrow> bool" where "pte_huge_page = pte_flag 7"
definition pte_global :: "pte \<Rightarrow> bool" where "pte_global = pte_flag 8"

definition pte_address :: "pte \<Rightarrow> u64" where
  "pte_address v = (if pte_huge_page v then v AND 0xFFFFFFFE00000 else v AND 0xFFFFFFFFF000)"

definition pte_set_flag :: "nat \<Rightarrow> bool \<Rightarrow> pte \<Rightarrow> pte" where
  "pte_set_flag n x v = (v AND NOT (push_bit n 1)) OR (if x then push_bit n 1 else 0)"

definition set_present :: "bool \<Rightarrow> pte \<Rightarrow> pte" where "set_present = pte_set_flag 0"
definition set_writable :: "bool \<Rightarrow> pte \<Rightarrow> pte" where "set_writable = pte_set_flag 1"
definition set_user :: "bool \<Rightarrow> pte \<Rightarrow> pte" where "set_user = pte_set_flag 2"
definition set_pwt :: "bool \<Rightarrow> pte \<Rightarrow> pte" where "set_pwt = pte_set_flag 3"
definition set_pcd :: "bool \<Rightarrow> pte \<Rightarrow> pte" where "set_pcd = pte_set_flag 4"
definition set_accessed :: "bool \<Rightarrow> pte \<Rightarrow> pte" where "set_accessed = pte_set_flag 5"
definition set_dirty :: "bool \<Rightarrow> pte \<Rightarrow> pte" where "set_dirty = pte_set_flag 6"
definition set_huge_page :: "bool \<Rightarrow> pte \<Rightarrow> pte" where "set_huge_page = pte_set_flag 7"
definition set_global :: "bool \<Rightarrow> pte \<Rightarrow> pte" where "set_global = pte_set_flag 8"

definition set_address :: "u64 \<Rightarrow> pte \<Rightarrow> pte" where
  "set_address addr v =
    (if pte_huge_page v then (v AND 0x1FFFFF) OR (addr AND NOT 0x1FFFFF)
     else (v AND 0xFFF) OR (addr AND NOT 0xFFF))"

lemmas pte_flag_defs = pte_present_def pte_writable_def pte_user_def pte_pwt_def pte_pcd_def
  pte_accessed_def pte_dirty_def pte_huge_page_def pte_global_def
  set_present_def set_writable_def set_user_def set_pwt_def set_pcd_def set_accessed_def
  set_dirty_def set_huge_page_def set_global_def

lemma pte_masks:
  "(0xFFF :: u64) = mask 12" "(0x1FFFFF :: u64) = mask 21"
  "(0xFFFFFFFFF000 :: u64) = mask 48 AND NOT (mask 12)"
  "(0xFFFFFFFE00000 :: u64) = mask 52 AND NOT (mask 21)"
  "(0xFFFFFFFFFFFFF000 :: u64) = NOT (mask 12)"
  by (simp_all add: mask_eq_exp_minus_1)

lemma pte_flag_bit: "n < 64 \<Longrightarrow> pte_flag n v \<longleftrightarrow> bit v n"
  by (simp add: pte_flag_def and_mask_eq_0)

lemma bit_pte_set_flag:
  "n < 64 \<Longrightarrow> bit (pte_set_flag n x v) k \<longleftrightarrow> (if k = n then x else bit v k)"
  using bit_imp_le_length [of v k]
  by (auto simp: pte_set_flag_def bit_simps simp del: push_bit_of_1)

lemma bit_set_address:
  "bit (set_address a v) k \<longleftrightarrow>
     (if k < (if bit v 7 then 21 else 12) then bit v k else bit a k)"
  using bit_imp_le_length [of v k] bit_imp_le_length [of a k]
  by (auto simp: set_address_def pte_huge_page_def pte_flag_bit pte_masks bit_simps)

lemma bit_pte_address:
  "bit (pte_address v) k \<longleftrightarrow>
     bit v k \<and> (if bit v 7 then 21 \<le> k \<and> k < 52 else 12 \<le> k \<and> k < 48)"
  using bit_imp_le_length [of v k]
  by (auto simp: pte_address_def pte_huge_page_def pte_flag_bit pte_masks bit_simps)

section \<open>State and operations\<close>

record vmm =
  vm_pmm :: pmm
  pt_mem :: "u64 \<Rightarrow> pte"
  m_pml4 :: u64

definition PAGE_MASK :: u64 where
  "PAGE_MASK = 0xFFFFFFFFFFFFF000"

definition ENTRIES_PER_TABLE :: nat where
  "ENTRIES_PER_TABLE = 512"

definition entry_at :: "u64 \<Rightarrow> nat \<Rightarrow> u64" where
  "entry_at table i = table + 8 * of_nat i"

text \<open>\<^verbatim>\<open>for (i = 0; i < n; i++) table[i].value = 0;\<close>\<close>

fun zero_entries :: "u64 \<Rightarrow> nat \<Rightarrow> (u64 \<Rightarrow> pte) \<Rightarrow> u64 \<Rightarrow> pte" where
  "zero_entries table 0 mem = mem"
| "zero_entries table (Suc n) mem = (zero_entries table n mem)(entry_at table n := 0)"

text \<open>
  The frame is used without a test for \<open>nullptr\<close>, as in the source: when the pool is empty the
  loop clears the words from address 0 on.
\<close>

definition create_page_table :: "vmm \<Rightarrow> u64 \<times> vmm" where
  "create_page_table s =
    (let (table, p) = allocate_frame (vm_pmm s)
     in (table, s\<lparr>vm_pmm := p, pt_mem := zero_entries table ENTRIES_PER_TABLE (pt_mem s)\<rparr>))"

definition get_next_level :: "u64 \<Rightarrow> nat \<Rightarrow> bool \<Rightarrow> vmm \<Rightarrow> u64 \<times> vmm" where
  "get_next_level table index create s =
    (let e = entry_at table index;
         s1 = (if \<not> pte_present (pt_mem s e) \<and> create then
                 let (next_table, t) = create_page_table s
                 in t\<lparr>pt_mem := (pt_mem t)(e :=
                      set_user False (set_writable True (set_present True
                        (set_address next_table (pt_mem t e)))))\<rparr>
               else s)
     in if \<not> pte_present (pt_mem s1 e) then (nullptr, s1)
        else (pte_address (pt_mem s1 e), s1))"

definition pml4_index :: "u64 \<Rightarrow> nat" where "pml4_index va = unat (drop_bit 39 va AND 0x1FF)"
definition pdpt_index :: "u64 \<Rightarrow> nat" where "pdpt_index va = unat (drop_bit 30 va AND 0x1FF)"
definition pd_index :: "u64 \<Rightarrow> nat" where "pd_index va = unat (drop_bit 21 va AND 0x1FF)"
definition pt_index :: "u64 \<Rightarrow> nat" where "pt_index va = unat (drop_bit 12 va AND 0x1FF)"

definition map_page :: "u64 \<Rightarrow> u64 \<Rightarrow> bool \<Rightarrow> vmm \<Rightarrow> vmm" where
  "map_page virtual_addr physical_addr writable s =
    (let va = virtual_addr AND PAGE_MASK;
         pa = physical_addr AND PAGE_MASK;
         (pdpt, s1) = get_next_level (m_pml4 s) (pml4_index va) True s
     in if pdpt = nullptr then s1 else
        let (pd, s2) = get_next_level pdpt (pdpt_index va) True s1
        in if pd = nullptr then s2 else
           let (pt, s3) = get_next_level pd (pd_index va) True s2
           in if pt = nullptr then s3 else
              let e = entry_at pt (pt_index va)
              in if \<not> pte_present (pt_mem s3 e)
                 then s3\<lparr>pt_mem := (pt_mem s3)(e :=
                        set_user False (set_writable writable (set_present True
                          (set_address pa (pt_mem s3 e)))))\<rparr>
                 else s3)"

definition unmap_page :: "u64 \<Rightarrow> vmm \<Rightarrow> vmm" where
  "unmap_page virtual_addr s =
    (let va = virtual_addr AND PAGE_MASK;
         (pdpt, s1) = get_next_level (m_pml4 s) (pml4_index va) False s
     in if pdpt = nullptr then s1 else
        let (pd, s2) = get_next_level pdpt (pdpt_index va) False s1
        in if pd = nullptr then s2 else
           let (pt, s3) = get_next_level pd (pd_index va) False s2
           in if pt = nullptr then s3 else
              s3\<lparr>pt_mem := (pt_mem s3)(entry_at pt (pt_index va) := 0)\<rparr>)"

definition get_physical_address :: "u64 \<Rightarrow> vmm \<Rightarrow> u64" where
  "get_physical_address virtual_addr s =
    (let va = virtual_addr AND PAGE_MASK;
         (pdpt, s1) = get_next_level (m_pml4 s) (pml4_index va) False s
     in if pdpt = nullptr then 0 else
        let (pd, s2) = get_next_level pdpt (pdpt_index va) False s1
        in if pd = nullptr then 0 else
           let (pt, s3) = get_next_level pd (pd_index va) False s2
           in if pt = nullptr then 0 else
              let v = pt_mem s3 (entry_at pt (pt_index va))
              in if \<not> pte_present v then 0
                 else (pte_address v AND PAGE_MASK) OR (va AND NOT PAGE_MASK))"

text \<open>
  The tables built at boot. The four early returns are the four failed allocations the code
  tests for; \<open>create_page_table\<close> has by then already written through the null pointer.
\<close>

definition set_entry :: "u64 \<Rightarrow> nat \<Rightarrow> (pte \<Rightarrow> pte) \<Rightarrow> vmm \<Rightarrow> vmm" where
  "set_entry table i f s =
     s\<lparr>pt_mem := (pt_mem s)(entry_at table i := f (pt_mem s (entry_at table i)))\<rparr>"

definition map_first_16mb :: "u64 \<Rightarrow> vmm \<Rightarrow> vmm" where
  "map_first_16mb pd s =
     fold (\<lambda>i. set_entry pd i (\<lambda>_. set_user False (set_writable True (set_present True
             (set_address (of_nat i * 0x200000) (set_huge_page True 0))))))
       [0..<8] s"

definition vm_initialize :: "vmm \<Rightarrow> vmm" where
  "vm_initialize s0 =
    (let (pml4, p) = allocate_frame (vm_pmm s0);
         s1 = s0\<lparr>vm_pmm := p, m_pml4 := pml4\<rparr>
     in if pml4 = nullptr then s1 else
        let s2 = s1\<lparr>pt_mem := zero_entries pml4 ENTRIES_PER_TABLE (pt_mem s1)\<rparr>;
            (pdpt, s3) = create_page_table s2
        in if pdpt = nullptr then s3 else
           let s4 = set_entry pml4 0 (\<lambda>_. set_user False (set_writable True (set_present True
                      (set_address pdpt 0)))) s3;
               (pd, s5) = create_page_table s4
           in if pd = nullptr then s5 else
              let s6 = set_entry pdpt 0 (\<lambda>_. set_address pd (set_accessed False (set_pcd False
                         (set_pwt False (set_user False (set_writable True
                           (set_present True 0))))))) s5;
                  s7 = map_first_16mb pd s6;
                  (kernel_pdpt, s8) = create_page_table s7
              in if kernel_pdpt = nullptr then s8 else
                 let s9 = set_entry pml4 511 (\<lambda>v. set_user False (set_writable True
                            (set_present True (set_address kernel_pdpt v)))) s8
                 in map_page 0xB8000 0xB8000 True s9)"

record control_regs =
  cr0 :: u64
  cr3 :: u64
  cr4 :: u64

definition load_page_directory :: "vmm \<Rightarrow> control_regs \<Rightarrow> control_regs" where
  "load_page_directory s r =
     r\<lparr>cr4 := (cr4 r OR push_bit 5 1) OR push_bit 4 1,
       cr0 := cr0 r OR push_bit 16 1,
       cr3 := m_pml4 s\<rparr>"

section \<open>Table geometry\<close>

definition page_aligned :: "u64 \<Rightarrow> bool" where
  "page_aligned a \<longleftrightarrow> unat a mod 4096 = 0"

lemma unat_entry_at:
  assumes "page_aligned t" "i < 512"
  shows "unat (entry_at t i) = unat t + 8 * i"
proof -
  define q where "q = unat t div 4096"
  have t: "unat t = 4096 * q"
    using assms(1) mult_div_mod_eq [of 4096 "unat t"] by (simp add: page_aligned_def q_def)
  then have "4096 * q < 4096 * 4503599627370496"
    using unat_u64_lt [of t] by simp
  then have lt: "unat t + 4096 \<le> 18446744073709551616" using t by simp
  have i: "unat (of_nat i :: u64) = i"
    using assms(2) by (intro unat_of_nat_u64) simp
  then have "unat (8 * of_nat i :: u64) = 8 * i"
    using assms(2) by (subst unat_mult_u64) simp_all
  then show ?thesis
    unfolding entry_at_def using lt assms(2) by (subst unat_plus_u64) simp_all
qed

lemma entry_at_inject:
  assumes "page_aligned t" "page_aligned t'" "i < 512" "j < 512" "entry_at t i = entry_at t' j"
  shows "t = t' \<and> i = j"
proof -
  have eq: "unat t + 8 * i = unat t' + 8 * j"
    unfolding unat_entry_at [OF assms(1,3), symmetric] unat_entry_at [OF assms(2,4), symmetric]
    by (simp only: assms(5))
  have m: "unat t mod 4096 = 0" "unat t' mod 4096 = 0"
    using assms(1,2) by (simp_all add: page_aligned_def)
  have "(unat t + 8 * i) mod 4096 = 8 * i" "(unat t' + 8 * j) mod 4096 = 8 * j"
    using m assms(3,4) by (simp_all add: mod_add_eq [symmetric, of "unat t"] mod_add_eq [symmetric, of "unat t'"])
  with eq have "i = j" by simp
  with eq show ?thesis by (simp add: word_unat_eq_iff)
qed

lemma zero_entries_notin:
  "(\<And>i. i < n \<Longrightarrow> a \<noteq> entry_at t i) \<Longrightarrow> zero_entries t n mem a = mem a"
  by (induction n) auto

lemma zero_entries_in: "i < n \<Longrightarrow> zero_entries t n mem (entry_at t i) = 0"
  by (induction n) (auto simp: less_Suc_eq)

lemma zero_entries_other:
  assumes "page_aligned t" "page_aligned t'" "t \<noteq> t'" "i < 512"
  shows "zero_entries t' 512 mem (entry_at t i) = mem (entry_at t i)"
  using assms entry_at_inject [of t t' i] by (intro zero_entries_notin) auto

lemma index_less [simp]:
  "pml4_index va < 512" "pdpt_index va < 512" "pd_index va < 512" "pt_index va < 512"
proof -
  have "unat (w AND 0x1FF :: u64) < 512" for w :: u64
  proof -
    have "w AND 0x1FF \<le> (0x1FF :: u64)" by (rule word_and_le1)
    then show ?thesis by (simp add: word_le_nat_alt)
  qed
  then show "pml4_index va < 512" "pdpt_index va < 512" "pd_index va < 512" "pt_index va < 512"
    by (simp_all add: pml4_index_def pdpt_index_def pd_index_def pt_index_def)
qed

lemma index_page_mask [simp]:
  "pml4_index (va AND PAGE_MASK) = pml4_index va"
  "pdpt_index (va AND PAGE_MASK) = pdpt_index va"
  "pd_index (va AND PAGE_MASK) = pd_index va"
  "pt_index (va AND PAGE_MASK) = pt_index va"
proof -
  have *: "drop_bit k (va AND PAGE_MASK) = drop_bit k va" if "12 \<le> k" for k
    using that
    by (intro bit_word_eqI) (auto simp: PAGE_MASK_def pte_masks bit_simps dest: bit_imp_le_length)
  show "pml4_index (va AND PAGE_MASK) = pml4_index va"
    "pdpt_index (va AND PAGE_MASK) = pdpt_index va"
    "pd_index (va AND PAGE_MASK) = pd_index va"
    "pt_index (va AND PAGE_MASK) = pt_index va"
    by (simp_all only: pml4_index_def pdpt_index_def pd_index_def pt_index_def * order.refl
        numeral_le_iff num.simps le_num_simps)
qed

section \<open>Entries the code writes\<close>

definition table_entry :: "u64 \<Rightarrow> pte" where
  "table_entry t = set_user False (set_writable True (set_present True (set_address t 0)))"

definition leaf_entry :: "u64 \<Rightarrow> bool \<Rightarrow> pte" where
  "leaf_entry a w = set_user False (set_writable w (set_present True (set_address a 0)))"

lemma bit_leaf_entry:
  "bit (leaf_entry a w) k \<longleftrightarrow>
     (if k = 0 then True else if k = 1 then w else if k < 12 then False else bit a k)"
  by (auto simp: leaf_entry_def set_user_def set_writable_def set_present_def bit_pte_set_flag
      bit_set_address)

lemma table_entry_leaf: "table_entry t = leaf_entry t True"
  by (simp add: table_entry_def leaf_entry_def)

lemma leaf_entry_flags [simp]:
  "pte_present (leaf_entry a w)" "\<not> pte_huge_page (leaf_entry a w)"
  "pte_writable (leaf_entry a w) = w" "\<not> pte_user (leaf_entry a w)"
  by (simp_all add: pte_flag_defs pte_flag_bit bit_leaf_entry)

lemma leaf_entry_address: "pte_address (leaf_entry a w) = a AND 0xFFFFFFFFF000"
  by (rule bit_word_eqI) (auto simp: bit_pte_address bit_leaf_entry pte_masks bit_simps)

lemma leaf_entry_address_frame:
  assumes "page_aligned a" "unat a < 2 ^ 48"
  shows "pte_address (leaf_entry a w) = a"
proof -
  note m = unat_and_mask [of a]
  have "unat (a AND mask 48) = unat a" unfolding m using assms(2) by simp
  then have "a AND mask 48 = a" by (simp add: word_unat_eq_iff)
  moreover have "a AND NOT (mask 12) = a"
  proof (rule bit_word_eqI)
    fix n assume "n < LENGTH(64)"
    have "a AND mask 12 = 0"
      using m [of 12] assms(1) by (simp add: page_aligned_def unat_0_iff)
    then have "\<not> bit (a AND mask 12) n" by simp
    then show "bit (a AND NOT (mask 12)) n = bit a n"
      using bit_imp_le_length [of a n] by (auto simp: bit_simps)
  qed
  ultimately show ?thesis
    by (simp add: leaf_entry_address pte_masks and.assoc [symmetric])
qed

lemma not_present_0 [simp]: "\<not> pte_present 0"
  by (simp add: pte_present_def pte_flag_def)

section \<open>The tree of tables\<close>

text \<open>
  The walk as a specification: it follows entries that are present, do not map a huge page and
  do not point to address 0. A path is the list of indices taken from the root.
\<close>

definition next_table :: "(u64 \<Rightarrow> pte) \<Rightarrow> u64 \<Rightarrow> nat \<Rightarrow> u64 option" where
  "next_table mem t i =
    (let v = mem (entry_at t i)
     in if pte_present v \<and> \<not> pte_huge_page v \<and> pte_address v \<noteq> 0 then Some (pte_address v)
        else None)"

fun table_at :: "(u64 \<Rightarrow> pte) \<Rightarrow> u64 \<Rightarrow> nat list \<Rightarrow> u64 option" where
  "table_at mem t [] = Some t"
| "table_at mem t (i # is) =
     (case next_table mem t i of None \<Rightarrow> None | Some t' \<Rightarrow> table_at mem t' is)"

lemma table_at_snoc:
  "table_at mem t (q @ [j]) =
     (case table_at mem t q of None \<Rightarrow> None | Some t' \<Rightarrow> next_table mem t' j)"
  by (induction q arbitrary: t) (auto split: option.splits)

lemma table_at_append_None: "table_at mem t q = None \<Longrightarrow> table_at mem t (q @ r) = None"
  by (induction q arbitrary: t) (auto split: option.splits)

lemma table_at_prefix_None: "prefix q r \<Longrightarrow> table_at mem t q = None \<Longrightarrow> table_at mem t r = None"
  by (auto simp: prefix_def table_at_append_None)

definition valid_path :: "nat list \<Rightarrow> bool" where
  "valid_path q \<longleftrightarrow> length q \<le> 3 \<and> set q \<subseteq> {..<512}"

lemma valid_path_snoc [simp]: "valid_path (q @ [j]) \<longleftrightarrow> valid_path q \<and> length q \<le> 2 \<and> j < 512"
  by (auto simp: valid_path_def)

lemma valid_path_Nil [simp]: "valid_path []"
  by (simp add: valid_path_def)

text \<open>
  The table tree is sound over a set \<open>F\<close> of frames: every reachable table is one of them, no two
  paths share a table, and entries that are not present are zero.
\<close>

definition frames_ok :: "u64 set \<Rightarrow> bool" where
  "frames_ok F \<longleftrightarrow> (\<forall>t \<in> F. page_aligned t \<and> t \<noteq> 0 \<and> unat t < 2 ^ 48)"

definition tree_ok :: "(u64 \<Rightarrow> pte) \<Rightarrow> u64 \<Rightarrow> u64 set \<Rightarrow> bool" where
  "tree_ok mem root F \<longleftrightarrow>
     (\<forall>q t. valid_path q \<longrightarrow> table_at mem root q = Some t \<longrightarrow>
        t \<in> F \<and> (\<forall>i < 512. \<not> pte_present (mem (entry_at t i)) \<longrightarrow> mem (entry_at t i) = 0)) \<and>
     (\<forall>q r t. valid_path q \<longrightarrow> valid_path r \<longrightarrow>
        table_at mem root q = Some t \<longrightarrow> table_at mem root r = Some t \<longrightarrow> q = r)"

definition path_clear :: "(u64 \<Rightarrow> pte) \<Rightarrow> u64 \<Rightarrow> nat list \<Rightarrow> bool" where
  "path_clear mem root q \<longleftrightarrow>
     (\<forall>n < length q. \<forall>t. table_at mem root (take n q) = Some t \<longrightarrow>
        pte_present (mem (entry_at t (q ! n))) \<longrightarrow> next_table mem t (q ! n) \<noteq> None)"

lemma tree_okD:
  assumes "tree_ok mem root F" "valid_path q" "table_at mem root q = Some t"
  shows "t \<in> F" "i < 512 \<Longrightarrow> \<not> pte_present (mem (entry_at t i)) \<Longrightarrow> mem (entry_at t i) = 0"
  using assms unfolding tree_ok_def by blast+

lemma tree_ok_inj:
  assumes "tree_ok mem root F" "valid_path q" "valid_path r"
    and "table_at mem root q = Some t" "table_at mem root r = Some t"
  shows "q = r"
  using assms unfolding tree_ok_def by blast

lemma tree_ok_entry_inj:
  assumes ok: "tree_ok mem root F" "frames_ok F" and q: "valid_path q" "table_at mem root q = Some t"
    and r: "valid_path r" "table_at mem root r = Some t'"
    and ij: "i < 512" "j < 512" "entry_at t i = entry_at t' j"
  shows "q = r \<and> i = j"
proof -
  have "page_aligned t" "page_aligned t'"
    using tree_okD(1) [OF ok(1) q] tree_okD(1) [OF ok(1) r] ok(2) by (auto simp: frames_ok_def)
  with ij have "t = t' \<and> i = j" by (intro entry_at_inject)
  with tree_ok_inj [OF ok(1) q(1) r(1)] q(2) r(2) show ?thesis by auto
qed

text \<open>Writing one entry only affects the tables below it.\<close>

lemma table_at_upd_entry:
  assumes ok: "tree_ok mem root F" "frames_ok F"
    and p: "valid_path p" "table_at mem root p = Some t" "i < 512"
  shows "valid_path q \<Longrightarrow> \<not> prefix (p @ [i]) q \<Longrightarrow>
    table_at (mem(entry_at t i := v)) root q = table_at mem root q"
proof (induction q rule: rev_induct)
  case Nil
  then show ?case by simp
next
  case (snoc j r)
  then have r: "valid_path r" "j < 512" and nr: "\<not> prefix (p @ [i]) r" "p @ [i] \<noteq> r @ [j]"
    by auto
  have IH: "table_at (mem(entry_at t i := v)) root r = table_at mem root r"
    by (rule snoc.IH [OF r(1) nr(1)])
  show ?case
  proof (cases "table_at mem root r")
    case None
    with IH show ?thesis by (simp add: table_at_snoc del: fun_upd_apply)
  next
    case (Some t')
    have "entry_at t' j \<noteq> entry_at t i"
      using tree_ok_entry_inj [OF ok r(1) Some p(1,2) r(2) p(3)] nr(2) by auto
    then have "next_table (mem(entry_at t i := v)) t' j = next_table mem t' j"
      by (simp add: next_table_def)
    with IH Some show ?thesis by (simp add: table_at_snoc del: fun_upd_apply)
  qed
qed

lemma table_at_zero_fresh:
  assumes ok: "tree_ok mem root F" "frames_ok F" and f: "f \<notin> F" "page_aligned f"
  shows "valid_path q \<Longrightarrow> table_at (zero_entries f 512 mem) root q = table_at mem root q"
proof (induction q rule: rev_induct)
  case Nil
  then show ?case by simp
next
  case (snoc j r)
  then have r: "valid_path r" "j < 512" by auto
  show ?case
  proof (cases "table_at mem root r")
    case None
    with snoc.IH [OF r(1)] show ?thesis by (simp add: table_at_snoc)
  next
    case (Some t')
    have "t' \<in> F" by (rule tree_okD(1) [OF ok(1) r(1) Some])
    then have "zero_entries f 512 mem (entry_at t' j) = mem (entry_at t' j)"
      using ok(2) f r(2) by (intro zero_entries_other) (auto simp: frames_ok_def)
    with snoc.IH [OF r(1)] Some show ?thesis by (simp add: table_at_snoc next_table_def)
  qed
qed

lemma tree_ok_zero_fresh:
  assumes ok: "tree_ok mem root F" "frames_ok F" and f: "f \<notin> F" "page_aligned f"
  shows "tree_ok (zero_entries f 512 mem) root F"
proof -
  have same: "zero_entries f 512 mem (entry_at t i) = mem (entry_at t i)"
    if "valid_path q" "table_at mem root q = Some t" "i < 512" for q t i
    using tree_okD(1) [OF ok(1) that(1,2)] ok(2) f that(3)
    by (intro zero_entries_other) (auto simp: frames_ok_def)
  show ?thesis
    using ok(1) unfolding tree_ok_def
    by (auto simp: table_at_zero_fresh [OF ok f] same)
qed

text \<open>Hanging a fresh, cleared table below an empty entry.\<close>

lemma extend_tree:
  fixes mem root t i f p
  defines "mem' \<equiv> (zero_entries f 512 mem)(entry_at t i := table_entry f)"
  assumes ok: "tree_ok mem root F" "frames_ok F"
    and p: "valid_path (p @ [i])" "table_at mem root p = Some t"
    and empty: "next_table mem t i = None"
    and f: "f \<notin> F" "frames_ok {f}"
  shows extend_tree_new: "table_at mem' root (p @ [i]) = Some f"
    and extend_tree_old: "\<And>q. valid_path q \<Longrightarrow> \<not> prefix (p @ [i]) q \<Longrightarrow>
      table_at mem' root q = table_at mem root q"
    and extend_tree_below: "\<And>q. valid_path q \<Longrightarrow> strict_prefix (p @ [i]) q \<Longrightarrow>
      table_at mem' root q = None \<and> table_at mem root q = None"
    and extend_tree_entry: "\<And>q t' j. valid_path q \<Longrightarrow> table_at mem root q = Some t' \<Longrightarrow> j < 512 \<Longrightarrow>
      (q, j) \<noteq> (p, i) \<Longrightarrow> mem' (entry_at t' j) = mem (entry_at t' j)"
    and extend_tree_fresh: "\<And>j. j < 512 \<Longrightarrow> mem' (entry_at f j) = 0"
proof -
  let ?z = "zero_entries f 512 mem"
  have pv: "valid_path p" "i < 512" using p(1) by auto
  have fa: "page_aligned f" "f \<noteq> 0" "unat f < 2 ^ 48" using f(2) by (auto simp: frames_ok_def)
  have tF: "t \<in> F" by (rule tree_okD(1) [OF ok(1) pv(1) p(2)])
  then have ta: "page_aligned t" "t \<noteq> f" using ok(2) f(1) by (auto simp: frames_ok_def)
  note z = table_at_zero_fresh [OF ok f(1) fa(1)]
  note zok = tree_ok_zero_fresh [OF ok f(1) fa(1)]
  have zp: "table_at ?z root p = Some t" using z [OF pv(1)] p(2) by simp
  show old: "table_at mem' root q = table_at mem root q"
    if "valid_path q" "\<not> prefix (p @ [i]) q" for q
    unfolding mem'_def
    using table_at_upd_entry [OF zok ok(2) pv(1) zp pv(2) that, of "table_entry f"] z [OF that(1)]
    by (simp del: fun_upd_apply)
  have "next_table mem' t i = Some f"
    using fa by (simp add: mem'_def next_table_def table_entry_leaf leaf_entry_address_frame)
  moreover have mp: "table_at mem' root p = Some t"
    using old [OF pv(1)] p(2) by simp
  ultimately show new: "table_at mem' root (p @ [i]) = Some f"
    by (simp add: table_at_snoc)
  show fresh: "mem' (entry_at f j) = 0" if "j < 512" for j
  proof -
    have "entry_at f j \<noteq> entry_at t i"
      using entry_at_inject [OF fa(1) ta(1) that pv(2)] ta(2) by auto
    with that show ?thesis by (simp add: mem'_def zero_entries_in)
  qed
  show "mem' (entry_at t' j) = mem (entry_at t' j)"
    if "valid_path q" "table_at mem root q = Some t'" "j < 512" "(q, j) \<noteq> (p, i)" for q t' j
  proof -
    have "entry_at t' j \<noteq> entry_at t i"
      using tree_ok_entry_inj [OF ok that(1,2) pv(1) p(2) that(3) pv(2)] that(4) by auto
    moreover have "t' \<in> F" by (rule tree_okD(1) [OF ok(1) that(1,2)])
    ultimately show ?thesis
      using zero_entries_other [of t' f j mem] ok(2) f(1) fa(1) that(3)
      by (auto simp: mem'_def frames_ok_def)
  qed
  show "table_at mem' root q = None \<and> table_at mem root q = None"
    if q: "valid_path q" "strict_prefix (p @ [i]) q" for q
  proof -
    from q(2) obtain j r where qj: "q = (p @ [i]) @ j # r" by (rule strict_prefixE')
    have j: "j < 512" using q(1) qj by (simp add: valid_path_def)
    have "table_at mem' root ((p @ [i]) @ [j]) = None"
      using fresh [OF j] new table_at_snoc [of mem' root "p @ [i]" j] by (simp add: next_table_def)
    then have "table_at mem' root (((p @ [i]) @ [j]) @ r) = None" by (rule table_at_append_None)
    moreover have "table_at mem root (p @ [i]) = None" using p(2) empty by (simp add: table_at_snoc)
    then have "table_at mem root ((p @ [i]) @ j # r) = None" by (rule table_at_append_None)
    ultimately show ?thesis by (simp add: qj)
  qed
qed

lemma prefix_trichotomy: "q = x \<or> strict_prefix x q \<or> \<not> prefix x q"
  by (auto simp: strict_prefix_def)

lemma tree_ok_extend:
  fixes mem root t i f p
  defines "mem' \<equiv> (zero_entries f 512 mem)(entry_at t i := table_entry f)"
  assumes ok: "tree_ok mem root F" "frames_ok F"
    and p: "valid_path (p @ [i])" "table_at mem root p = Some t"
    and empty: "next_table mem t i = None"
    and f: "f \<notin> F" "frames_ok {f}"
  shows "tree_ok mem' root (insert f F)"
proof -
  note ext = extend_tree [OF ok p empty f, folded mem'_def]
  have cases: "(q = p @ [i] \<and> u = f) \<or> (\<not> prefix (p @ [i]) q \<and> table_at mem root q = Some u)"
    if "valid_path q" "table_at mem' root q = Some u" for q u
    using prefix_trichotomy [of q "p @ [i]"] ext(1) ext(2,3) [OF that(1)] that(2) by auto
  have clean: "mem' (entry_at u j) = 0"
    if q: "valid_path q" "table_at mem' root q = Some u" and j: "j < 512"
      "\<not> pte_present (mem' (entry_at u j))" for q u j
    using cases [OF q]
  proof
    assume "q = p @ [i] \<and> u = f"
    with ext(5) j(1) show ?thesis by simp
  next
    assume old: "\<not> prefix (p @ [i]) q \<and> table_at mem root q = Some u"
    have "(q, j) \<noteq> (p, i)"
    proof
      assume "(q, j) = (p, i)"
      with old p(2) have "mem' (entry_at u j) = table_entry f" by (simp add: mem'_def)
      with j(2) show False by (simp add: table_entry_leaf)
    qed
    then have "mem' (entry_at u j) = mem (entry_at u j)" using ext(4) q(1) old j(1) by blast
    with j tree_okD(2) [OF ok(1) q(1) _ j(1), of u] old show ?thesis by simp
  qed
  have mem_F: "u \<in> insert f F" if "valid_path q" "table_at mem' root q = Some u" for q u
    using cases [OF that] tree_okD(1) [OF ok(1) that(1)] by auto
  have inj: "q = r" if "valid_path q" "valid_path r"
    "table_at mem' root q = Some u" "table_at mem' root r = Some u" for q r u
    using cases [OF that(1,3)] cases [OF that(2,4)] f(1) tree_okD(1) [OF ok(1) that(1), of u]
      tree_okD(1) [OF ok(1) that(2), of u] tree_ok_inj [OF ok(1) that(1,2), of u] by auto
  show ?thesis
    unfolding tree_ok_def using clean mem_F inj by blast
qed

lemma path_clear_extend:
  fixes mem root t i f p
  defines "mem' \<equiv> (zero_entries f 512 mem)(entry_at t i := table_entry f)"
  assumes ok: "tree_ok mem root F" "frames_ok F"
    and p: "valid_path (p @ [i])" "table_at mem root p = Some t"
    and empty: "next_table mem t i = None"
    and f: "f \<notin> F" "frames_ok {f}"
    and q: "valid_path q" "path_clear mem root q"
  shows "path_clear mem' root q"
  unfolding path_clear_def
proof (intro allI impI)
  note ext = extend_tree [OF ok p empty f, folded mem'_def]
  fix n u
  assume n: "n < length q" and u: "table_at mem' root (take n q) = Some u"
    and pres: "pte_present (mem' (entry_at u (q ! n)))"
  have tv: "valid_path (take n q)" and j: "q ! n < 512"
    using q(1) n by (auto simp: valid_path_def dest: in_set_takeD)
      (metis lessThan_iff nth_mem subsetD)
  consider (new) "take n q = p @ [i]" | (old) "\<not> prefix (p @ [i]) (take n q)"
    using prefix_trichotomy [of "take n q" "p @ [i]"] ext(3) [OF tv] u by auto
  then show "next_table mem' u (q ! n) \<noteq> None"
  proof cases
    case new
    with ext(1) u ext(5) [OF j] pres show ?thesis by simp
  next
    case old
    then have uq: "table_at mem root (take n q) = Some u" using ext(2) [OF tv] u by simp
    show ?thesis
    proof (cases "(take n q, q ! n) = (p, i)")
      case True
      then have "next_table mem' u (q ! n) = Some f"
        using ext(1) u by (simp add: table_at_snoc)
      then show ?thesis by simp
    next
      case False
      have "mem' (entry_at u (q ! n)) = mem (entry_at u (q ! n))"
        by (rule ext(4) [OF tv uq j False])
      with q(2) n uq pres show ?thesis by (simp add: path_clear_def next_table_def)
    qed
  qed
qed

text \<open>Writing an entry of a last-level table leaves the tree as it is.\<close>

lemma table_at_leaf:
  assumes "tree_ok mem root F" "frames_ok F" "valid_path p" "length p = 3"
    "table_at mem root p = Some t" "i < 512" "valid_path q"
  shows "table_at (mem(entry_at t i := v)) root q = table_at mem root q"
proof (rule table_at_upd_entry [OF assms(1,2,3,5,6,7)])
  show "\<not> prefix (p @ [i]) q"
    using assms(4,7) by (auto simp: valid_path_def dest: prefix_length_le)
qed

lemma tree_ok_leaf:
  assumes ok: "tree_ok mem root F" "frames_ok F" and p: "valid_path p" "length p = 3"
    "table_at mem root p = Some t" "i < 512" and v: "\<not> pte_present v \<Longrightarrow> v = 0"
  shows "tree_ok (mem(entry_at t i := v)) root F"
  using ok(1) v unfolding tree_ok_def by (auto simp: table_at_leaf [OF ok p])

lemma path_clear_leaf:
  assumes ok: "tree_ok mem root F" "frames_ok F" and p: "valid_path p" "length p = 3"
    "table_at mem root p = Some t" "i < 512" and q: "valid_path q" "path_clear mem root q"
  shows "path_clear (mem(entry_at t i := v)) root q"
  unfolding path_clear_def
proof (intro allI impI)
  fix n u
  assume n: "n < length q" and u: "table_at (mem(entry_at t i := v)) root (take n q) = Some u"
    and pres: "pte_present ((mem(entry_at t i := v)) (entry_at u (q ! n)))"
  have tv: "valid_path (take n q)" and j: "q ! n < 512" and l: "length (take n q) \<le> 2"
    using q(1) n by (auto simp: valid_path_def dest: in_set_takeD)
      (metis lessThan_iff nth_mem subsetD)
  have uq: "table_at mem root (take n q) = Some u"
    using u table_at_leaf [OF ok p tv] by simp
  have "entry_at u (q ! n) \<noteq> entry_at t i"
    using tree_ok_entry_inj [OF ok tv uq p(1,3) j p(4)] l p(2) by auto
  with q(2) n uq pres show "next_table (mem(entry_at t i := v)) u (q ! n) \<noteq> None"
    by (simp add: path_clear_def next_table_def)
qed


section \<open>The address space\<close>

text \<open>
  \<open>leaf_path\<close> is the way to the last-level table of a virtual address, \<open>vm_leaf\<close> the entry that
  maps it. The frames a table may sit in are those the allocator has handed out.
\<close>

definition leaf_path :: "u64 \<Rightarrow> nat list" where
  "leaf_path va = [pml4_index va, pdpt_index va, pd_index va]"

definition vm_table :: "vmm \<Rightarrow> nat list \<Rightarrow> u64 option" where
  "vm_table s = table_at (pt_mem s) (m_pml4 s)"

definition vm_leaf :: "vmm \<Rightarrow> u64 \<Rightarrow> pte option" where
  "vm_leaf s va =
    (case vm_table s (leaf_path va) of
       None \<Rightarrow> None
     | Some t \<Rightarrow> let v = pt_mem s (entry_at t (pt_index va)) in if pte_present v then Some v else None)"

definition vm_clear :: "vmm \<Rightarrow> nat list \<Rightarrow> bool" where
  "vm_clear s = path_clear (pt_mem s) (m_pml4 s)"

definition vm_used :: "vmm \<Rightarrow> u64 set" where
  "vm_used s = pmm_frames (vm_pmm s) - pmm_free (vm_pmm s)"

definition vm_ok :: "vmm \<Rightarrow> bool" where
  "vm_ok s \<longleftrightarrow>
     pmm_ok (vm_pmm s) \<and> page_aligned (m_memory_start (vm_pmm s)) \<and>
     unat (m_memory_start (vm_pmm s)) + n_frames (vm_pmm s) * 4096 \<le> 2 ^ 48 \<and>
     tree_ok (pt_mem s) (m_pml4 s) (vm_used s)"

lemma valid_leaf_path [simp]: "valid_path (leaf_path va)"
  by (simp add: valid_path_def leaf_path_def)

lemma frames_ok_pool:
  assumes ok: "pmm_ok p" and al: "page_aligned (m_memory_start p)"
    and bd: "unat (m_memory_start p) + n_frames p * 4096 \<le> 2 ^ 48"
  shows "frames_ok (pmm_frames p)"
  unfolding frames_ok_def
proof
  fix t assume "t \<in> pmm_frames p"
  then obtain i where i: "i < n_frames p" and t: "t = frame_addr p i"
    by (auto simp: pmm_frames_def)
  note u = unat_frame_addr [OF ok i, folded t]
  have "unat t < 2 ^ 48" unfolding u using bd i by linarith
  moreover have "page_aligned t" using al by (simp add: page_aligned_def u)
  moreover have "t \<noteq> 0" unfolding t by (rule frame_addr_nonzero [OF ok i])
  ultimately show "page_aligned t \<and> t \<noteq> 0 \<and> unat t < 2 ^ 48" by blast
qed

lemma frames_ok_pmm: "vm_ok s \<Longrightarrow> frames_ok (pmm_frames (vm_pmm s))"
  by (rule frames_ok_pool) (simp_all add: vm_ok_def)

lemma frames_ok_used: "vm_ok s \<Longrightarrow> frames_ok (vm_used s)"
  using frames_ok_pmm [of s] by (auto simp: vm_used_def frames_ok_def)

text \<open>
  Present entries of the frames in use are never overwritten, so every table stays reachable and every huge page mapped.
\<close>

definition vm_keeps :: "vmm \<Rightarrow> vmm \<Rightarrow> bool" where
  "vm_keeps s s' \<longleftrightarrow> m_pml4 s' = m_pml4 s \<and> vm_used s \<subseteq> vm_used s' \<and>
     (\<forall>t \<in> vm_used s. \<forall>j < 512. pte_present (pt_mem s (entry_at t j)) \<longrightarrow> pt_mem s' (entry_at t j) = pt_mem s (entry_at t j))"

lemma vm_keeps_refl [simp]: "vm_keeps s s"
  by (simp add: vm_keeps_def)

lemma vm_keeps_trans: "vm_keeps s s1 \<Longrightarrow> vm_keeps s1 s2 \<Longrightarrow> vm_keeps s s2"
  unfolding vm_keeps_def by (metis subset_eq)

lemma vm_keeps_table:
  assumes "vm_keeps s s'" "vm_ok s" "valid_path q" "vm_table s q = Some t"
  shows "vm_table s' q = Some t"
  using assms(3,4)
proof (induction q arbitrary: t rule: rev_induct)
  case Nil
  then show ?case using assms(1) by (simp add: vm_table_def vm_keeps_def)
next
  case (snoc j q)
  then obtain u where u: "vm_table s q = Some u" "next_table (pt_mem s) u j = Some t"
    by (auto simp: vm_table_def table_at_snoc split: option.splits)
  have "u \<in> vm_used s"
    using tree_okD(1) [of "pt_mem s" "m_pml4 s" "vm_used s" q u] assms(2) snoc.prems u(1) by (simp add: vm_ok_def vm_table_def)
  then have "next_table (pt_mem s') u j = Some t"
    using assms(1) u(2) snoc.prems(1) by (auto simp: vm_keeps_def next_table_def Let_def split: if_splits)
  then show ?case using snoc u by (simp add: vm_table_def table_at_snoc)
qed

text \<open>
  The states \<open>map_page\<close> passes through: at most \<open>n\<close> frames spent, the same mappings, no table
  lost and no path blocked.
\<close>

definition vm_ext :: "nat \<Rightarrow> vmm \<Rightarrow> vmm \<Rightarrow> bool" where
  "vm_ext n s s' \<longleftrightarrow>
     vm_ok s' \<and> m_pml4 s' = m_pml4 s \<and>
     (\<forall>va. vm_leaf s' va = vm_leaf s va) \<and>
     (\<forall>q. valid_path q \<and> vm_clear s q \<longrightarrow> vm_clear s' q) \<and> vm_keeps s s' \<and>
     card (pmm_free (vm_pmm s)) \<le> card (pmm_free (vm_pmm s')) + n"

lemma vm_ext_refl: "vm_ok s \<Longrightarrow> vm_ext n s s"
  by (simp add: vm_ext_def)

lemma vm_ext_trans: "vm_ext m s s1 \<Longrightarrow> vm_ext n s1 s2 \<Longrightarrow> vm_ext (m + n) s s2"
  by (auto simp: vm_ext_def intro: vm_keeps_trans)

lemma vm_leaf_cong:
  assumes "vm_table s' (leaf_path va) = vm_table s (leaf_path va)"
    and "\<And>t. vm_table s (leaf_path va) = Some t \<Longrightarrow>
      pt_mem s' (entry_at t (pt_index va)) = pt_mem s (entry_at t (pt_index va))"
  shows "vm_leaf s' va = vm_leaf s va"
  using assms by (auto simp: vm_leaf_def split: option.splits)

text \<open>One level of the walk, without and with the creation of a missing table.\<close>

lemma get_next_level_lookup:
  assumes "pte_present (pt_mem s (entry_at t i)) \<Longrightarrow> next_table (pt_mem s) t i \<noteq> None"
  shows "get_next_level t i False s =
    (case next_table (pt_mem s) t i of None \<Rightarrow> nullptr | Some t' \<Rightarrow> t', s)"
  using assms
  by (auto simp: get_next_level_def next_table_def Let_def split: if_splits option.splits)

lemma get_next_level_present:
  assumes "next_table (pt_mem s) t i = Some t'"
  shows "get_next_level t i c s = (t', s)" "t' \<noteq> 0"
  using assms
  by (auto simp: get_next_level_def next_table_def Let_def split: if_splits)

lemma create_page_table_spec:
  assumes ok: "vm_ok s" and card: "1 \<le> card (pmm_free (vm_pmm s))"
    and call: "create_page_table s = (f, s1)"
  shows "f \<notin> vm_used s" "frames_ok {f}" "vm_used s1 = insert f (vm_used s)"
    "pt_mem s1 = zero_entries f 512 (pt_mem s)" "m_pml4 s1 = m_pml4 s" "pmm_ok (vm_pmm s1)"
    "m_memory_start (vm_pmm s1) = m_memory_start (vm_pmm s)"
    "n_frames (vm_pmm s1) = n_frames (vm_pmm s)"
    "card (pmm_free (vm_pmm s)) = Suc (card (pmm_free (vm_pmm s1)))"
proof -
  have pok: "pmm_ok (vm_pmm s)" using ok by (simp add: vm_ok_def)
  have free: "pmm_free (vm_pmm s) \<noteq> {}" using card by auto
  obtain q where al: "allocate_frame (vm_pmm s) = (f, q)"
    and s1: "s1 = s\<lparr>vm_pmm := q, pt_mem := zero_entries f 512 (pt_mem s)\<rparr>"
    using call by (auto simp: create_page_table_def ENTRIES_PER_TABLE_def split: prod.splits)
  have f: "f \<in> pmm_free (vm_pmm s)" "pmm_free q = pmm_free (vm_pmm s) - {f}"
    "pmm_frames q = pmm_frames (vm_pmm s)" "pmm_ok q"
    using pool.alloc_frame [OF pok free] pool.alloc_frames [OF pok] pool.inv_alloc [OF pok] al by auto
  have fr: "f \<in> pmm_frames (vm_pmm s)" using f(1) pmm_free_subset by (rule subsetD [rotated])
  show "f \<notin> vm_used s" "vm_used s1 = insert f (vm_used s)"
    using f fr by (auto simp: vm_used_def s1)
  show "frames_ok {f}" using fr frames_ok_pmm [OF ok] by (simp add: frames_ok_def)
  show "pt_mem s1 = zero_entries f 512 (pt_mem s)" "m_pml4 s1 = m_pml4 s" "pmm_ok (vm_pmm s1)"
    using f(4) by (simp_all add: s1)
  show "m_memory_start (vm_pmm s1) = m_memory_start (vm_pmm s)"
    "n_frames (vm_pmm s1) = n_frames (vm_pmm s)"
    using allocate_frame_fixed [OF pok] by (simp_all add: al s1)
  show "card (pmm_free (vm_pmm s)) = Suc (card (pmm_free (vm_pmm s1)))"
    using f(1,2) pool.finite_frees card by (simp add: s1 card_Suc_Diff1)
qed

lemma get_next_level_fresh:
  assumes "\<not> pte_present (pt_mem s (entry_at t i))" "create_page_table s = (f, s1)"
    and "pt_mem s1 (entry_at t i) = 0"
  shows "get_next_level t i True s =
    (pte_address (table_entry f), s1\<lparr>pt_mem := (pt_mem s1)(entry_at t i := table_entry f)\<rparr>)"
proof -
  have "pte_present (table_entry f)" by (simp add: table_entry_leaf)
  with assms show ?thesis by (simp add: get_next_level_def Let_def table_entry_def)
qed

lemma get_next_level_extend:
  assumes ok: "vm_ok s" and p: "valid_path (p @ [i])" "vm_table s p = Some t"
    and clear: "vm_clear s (p @ [i])" and card: "1 \<le> card (pmm_free (vm_pmm s))"
    and call: "get_next_level t i True s = (t', s')"
  shows "vm_ext 1 s s' \<and> vm_table s' (p @ [i]) = Some t' \<and> t' \<noteq> 0"
proof (cases "next_table (pt_mem s) t i")
  case (Some u)
  then have "t' = u" "s' = s" "u \<noteq> 0"
    using get_next_level_present(1) [OF Some, of True] get_next_level_present(2) [OF Some] call by auto
  with Some p(2) ok show ?thesis
    by (simp add: vm_ext_refl vm_table_def table_at_snoc)
next
  case None
  let ?mem = "pt_mem s" and ?root = "m_pml4 s" and ?F = "vm_used s"
  have tree: "tree_ok ?mem ?root ?F" using ok by (simp add: vm_ok_def)
  note fr = frames_ok_used [OF ok]
  have pv: "valid_path p" "i < 512" "length p \<le> 2" and pt: "table_at ?mem ?root p = Some t"
    using p by (simp_all add: vm_table_def)
  have absent: "\<not> pte_present (?mem (entry_at t i))"
    using clear pt None by (auto simp: vm_clear_def path_clear_def dest: spec [of _ "length p"])
  obtain f s1 where cr: "create_page_table s = (f, s1)" by fastforce
  note f = create_page_table_spec [OF ok card cr]
  note fF = f(1,2)
  have tF: "t \<in> ?F" by (rule tree_okD(1) [OF tree pv(1) pt])
  have "zero_entries f 512 ?mem (entry_at t i) = ?mem (entry_at t i)"
    using tF fF fr pv(2) by (intro zero_entries_other) (auto simp: frames_ok_def)
  with tree_okD(2) [OF tree pv(1) pt pv(2) absent]
  have z: "pt_mem s1 (entry_at t i) = 0" by (simp add: f(4))
  define mem' where "mem' = (zero_entries f 512 ?mem)(entry_at t i := table_entry f)"
  have res: "t' = f" "s' = s1\<lparr>pt_mem := mem'\<rparr>"
    using get_next_level_fresh [OF absent cr z] call fF(2)
    by (simp_all add: mem'_def f(4) table_entry_leaf leaf_entry_address_frame frames_ok_def)
  note ext = extend_tree [OF tree fr p(1) pt None fF(1,2), folded mem'_def]
  have used: "vm_used s' = insert f ?F"
    using f(3) by (simp add: vm_used_def res)
  have ok': "vm_ok s'"
    using ok tree_ok_extend [OF tree fr p(1) pt None fF(1,2), folded mem'_def] used f(5-8)
    by (simp add: vm_ok_def res)
  have leaf: "vm_leaf s' va = vm_leaf s va" for va
  proof -
    have v: "valid_path (leaf_path va)" "length (leaf_path va) = 3"
      by (simp_all add: leaf_path_def [of va] valid_path_def)
    consider (new) "leaf_path va = p @ [i]" | (below) "strict_prefix (p @ [i]) (leaf_path va)"
      | (old) "\<not> prefix (p @ [i]) (leaf_path va)"
      using prefix_trichotomy by blast
    then show ?thesis
    proof cases
      case new
      then show ?thesis
        using ext(1) ext(5) [of "pt_index va"] pt None
        by (simp add: vm_leaf_def vm_table_def res f(5) table_at_snoc)
    next
      case below
      with ext(3) [OF v(1)] show ?thesis by (simp add: vm_leaf_def vm_table_def res f(5))
    next
      case old
      have "mem' (entry_at u (pt_index va)) = ?mem (entry_at u (pt_index va))"
        if "table_at ?mem ?root (leaf_path va) = Some u" for u
      proof (rule ext(4) [OF v(1) that])
        show "(leaf_path va, pt_index va) \<noteq> (p, i)" using v(2) pv(3) by auto
      qed simp
      with ext(2) [OF v(1) old] show ?thesis
        by (intro vm_leaf_cong) (simp_all add: vm_table_def res f(5))
    qed
  qed
  have "vm_clear s' r" if "valid_path r" "vm_clear s r" for r
    using path_clear_extend [OF tree fr p(1) pt None fF(1,2) that(1), folded mem'_def] that(2)
    by (simp add: vm_clear_def res f(5))
  moreover have "card (pmm_free (vm_pmm s)) \<le> card (pmm_free (vm_pmm s')) + 1"
    using f(9) by (simp add: res)
  moreover have "vm_keeps s s'"
    unfolding vm_keeps_def
  proof (intro conjI ballI allI impI)
    show "m_pml4 s' = m_pml4 s" "vm_used s \<subseteq> vm_used s'" using f(5) used by (auto simp: res(2))
    fix u j assume u: "u \<in> ?F" "j < 512" "pte_present (?mem (entry_at u j))"
    then have "entry_at u j \<noteq> entry_at t i" using absent by auto
    moreover have "zero_entries f 512 ?mem (entry_at u j) = ?mem (entry_at u j)"
      using u fF fr by (intro zero_entries_other) (auto simp: frames_ok_def)
    ultimately show "pt_mem s' (entry_at u j) = ?mem (entry_at u j)" by (simp add: res(2) mem'_def)
  qed
  ultimately show ?thesis
    using ok' leaf ext(1) fF(2) f(5) by (simp add: vm_ext_def res vm_table_def frames_ok_def)
qed

lemma vm_clear_take:
  "vm_clear s q \<Longrightarrow> vm_clear s (take n q)"
  by (auto simp: vm_clear_def path_clear_def min_def)

lemma vm_ext_card: "vm_ext n s s' \<Longrightarrow> m + n \<le> card (pmm_free (vm_pmm s)) \<Longrightarrow>
    m \<le> card (pmm_free (vm_pmm s'))"
  by (simp add: vm_ext_def)

lemma vm_table_Nil [simp]: "vm_table s [] = Some (m_pml4 s)"
  by (simp add: vm_table_def)

text \<open>The three levels together: what \<open>map_page\<close> has when it reaches the last-level table.\<close>

lemma walk_create:
  assumes ok: "vm_ok s" and clear: "vm_clear s (leaf_path va)"
    and free: "3 \<le> card (pmm_free (vm_pmm s))"
    and l1: "get_next_level (m_pml4 s) (pml4_index va) True s = (t1, s1)"
    and l2: "get_next_level t1 (pdpt_index va) True s1 = (t2, s2)"
    and l3: "get_next_level t2 (pd_index va) True s2 = (t3, s3)"
  shows "t1 \<noteq> 0 \<and> t2 \<noteq> 0 \<and> t3 \<noteq> 0 \<and> vm_ext 3 s s3 \<and> vm_table s3 (leaf_path va) = Some t3"
proof -
  let ?a = "pml4_index va" and ?b = "pdpt_index va" and ?c = "pd_index va"
  have v: "valid_path ([] @ [?a])" "valid_path ([?a] @ [?b])" "valid_path ([?a, ?b] @ [?c])"
    by (simp_all add: valid_path_def)
  have cl: "vm_clear s ([] @ [?a])" "vm_clear s ([?a] @ [?b])" "vm_clear s ([?a, ?b] @ [?c])"
    using vm_clear_take [OF clear, of 1] vm_clear_take [OF clear, of 2] clear
    by (simp_all add: leaf_path_def numeral_2_eq_2)
  have 1: "vm_ext 1 s s1" "vm_table s1 [?a] = Some t1" "t1 \<noteq> 0"
    using get_next_level_extend [OF ok v(1) vm_table_Nil cl(1) _ l1] free by simp_all
  have ok1: "vm_ok s1" and c1: "vm_clear s1 ([?a] @ [?b])" "vm_clear s1 ([?a, ?b] @ [?c])"
    using 1(1) v cl unfolding vm_ext_def by blast+
  have f1: "2 \<le> card (pmm_free (vm_pmm s1))" using vm_ext_card [OF 1(1), of 2] free by simp
  have 2: "vm_ext 1 s1 s2" "vm_table s2 [?a, ?b] = Some t2" "t2 \<noteq> 0"
    using get_next_level_extend [OF ok1 v(2) 1(2) c1(1) _ l2] f1 by simp_all
  have ok2: "vm_ok s2" and c2: "vm_clear s2 ([?a, ?b] @ [?c])"
    using 2(1) v c1 unfolding vm_ext_def by blast+
  have f2: "1 \<le> card (pmm_free (vm_pmm s2))" using vm_ext_card [OF 2(1), of 1] f1 by simp
  have 3: "vm_ext 1 s2 s3" "vm_table s3 ([?a, ?b] @ [?c]) = Some t3" "t3 \<noteq> 0"
    using get_next_level_extend [OF ok2 v(3) 2(2) c2 _ l3] f2 by simp_all
  have "vm_ext 3 s s3"
    using vm_ext_trans [OF vm_ext_trans [OF 1(1) 2(1)] 3(1)] by (simp add: numeral_3_eq_3)
  with 1 2 3 show ?thesis by (simp add: leaf_path_def)
qed

text \<open>Writing the entry of one page: only the addresses of that page see it.\<close>

definition same_page :: "u64 \<Rightarrow> u64 \<Rightarrow> bool" where
  "same_page a b \<longleftrightarrow> leaf_path a = leaf_path b \<and> pt_index a = pt_index b"

lemma write_leaf:
  assumes ok: "vm_ok s" and t: "vm_table s (leaf_path va) = Some t"
    and v: "\<not> pte_present v \<Longrightarrow> v = 0"
    and s': "s' = s\<lparr>pt_mem := (pt_mem s)(entry_at t (pt_index va) := v)\<rparr>"
  shows "vm_ok s'"
    and "vm_leaf s' a = (if same_page a va then if pte_present v then Some v else None else vm_leaf s a)"
    and "vm_clear s q \<Longrightarrow> valid_path q \<Longrightarrow> vm_clear s' q"
proof -
  have tree: "tree_ok (pt_mem s) (m_pml4 s) (vm_used s)" using ok by (simp add: vm_ok_def)
  have p: "valid_path (leaf_path va)" "length (leaf_path va) = 3"
    "table_at (pt_mem s) (m_pml4 s) (leaf_path va) = Some t" "pt_index va < 512"
    using t by (simp_all add: vm_table_def leaf_path_def [of va] valid_path_def)
  note fr = frames_ok_used [OF ok]
  show "vm_ok s'"
    using ok tree_ok_leaf [OF tree fr p v] by (simp add: s' vm_ok_def vm_used_def)
  show "vm_clear s' q" if "vm_clear s q" "valid_path q"
    using path_clear_leaf [OF tree fr p that(2)] that(1) by (simp add: s' vm_clear_def)
  have tab: "vm_table s' (leaf_path a) = vm_table s (leaf_path a)"
    using table_at_leaf [OF tree fr p, of "leaf_path a"] by (simp add: s' vm_table_def)
  show "vm_leaf s' a = (if same_page a va then if pte_present v then Some v else None else vm_leaf s a)"
  proof (cases "same_page a va")
    case True
    with tab t show ?thesis by (simp add: vm_leaf_def same_page_def) (simp add: s')
  next
    case False
    have "entry_at u (pt_index a) \<noteq> entry_at t (pt_index va)"
      if "vm_table s (leaf_path a) = Some u" for u
      using tree_ok_entry_inj [OF tree fr _ _ p(1,3) _ p(4), of "leaf_path a" u "pt_index a"]
        that False by (auto simp: vm_table_def same_page_def)
    then show ?thesis
      using False by (subst vm_leaf_cong [OF tab]) (simp_all add: s')
  qed
qed

lemma eq_and_iff:
  "(x :: u64) AND m = y AND m \<longleftrightarrow> (\<forall>n. bit m n \<longrightarrow> (bit x n \<longleftrightarrow> bit y n))"
proof
  assume eq: "x AND m = y AND m"
  show "\<forall>n. bit m n \<longrightarrow> (bit x n \<longleftrightarrow> bit y n)"
  proof (intro allI impI)
    fix n assume "bit m n"
    moreover have "bit (x AND m) n \<longleftrightarrow> bit (y AND m) n" by (simp only: eq)
    ultimately show "bit x n \<longleftrightarrow> bit y n" by (simp add: bit_and_iff)
  qed
next
  assume "\<forall>n. bit m n \<longrightarrow> (bit x n \<longleftrightarrow> bit y n)"
  then show "x AND m = y AND m" by (intro bit_word_eqI) (auto simp: bit_and_iff)
qed

lemma index_eq_iff:
  "unat (drop_bit k a AND 0x1FF) = unat (drop_bit k b AND 0x1FF) \<longleftrightarrow>
     (\<forall>n < 9. bit (a :: u64) (k + n) \<longleftrightarrow> bit (b :: u64) (k + n))"
proof -
  have m: "bit (0x1FF :: u64) n \<longleftrightarrow> n < 9" for n
  proof -
    have "(0x1FF :: u64) = mask 9" by (simp add: mask_eq_exp_minus_1)
    then show ?thesis by (simp only: bit_mask_iff) (auto simp: exp_eq_0_imp_not_bit)
  qed
  have "unat (drop_bit k a AND 0x1FF) = unat (drop_bit k b AND 0x1FF) \<longleftrightarrow>
      drop_bit k a AND 0x1FF = drop_bit k b AND 0x1FF"
    by (simp only: word_unat_eq_iff)
  then show ?thesis by (simp only: eq_and_iff m bit_drop_bit_eq comp_def)
qed

lemma same_page_iff: "same_page a b \<longleftrightarrow> a AND 0xFFFFFFFFF000 = b AND 0xFFFFFFFFF000"
proof -
  have "bit (0xFFFFFFFFF000 :: u64) n \<longleftrightarrow> 12 \<le> n \<and> n < 48" for n
    unfolding pte_masks by (auto simp: bit_simps)
  then have "a AND 0xFFFFFFFFF000 = b AND 0xFFFFFFFFF000 \<longleftrightarrow>
      (\<forall>n. 12 \<le> n \<and> n < 48 \<longrightarrow> (bit a n \<longleftrightarrow> bit b n))"
    by (simp only: eq_and_iff)
  also have "\<dots> \<longleftrightarrow> (\<forall>n < 9. bit a (39 + n) \<longleftrightarrow> bit b (39 + n)) \<and>
      (\<forall>n < 9. bit a (30 + n) \<longleftrightarrow> bit b (30 + n)) \<and>
      (\<forall>n < 9. bit a (21 + n) \<longleftrightarrow> bit b (21 + n)) \<and>
      (\<forall>n < 9. bit a (12 + n) \<longleftrightarrow> bit b (12 + n))" (is "_ \<longleftrightarrow> ?R")
  proof
    assume R: ?R
    show "\<forall>n. 12 \<le> n \<and> n < 48 \<longrightarrow> (bit a n \<longleftrightarrow> bit b n)"
    proof (intro allI impI)
      fix n :: nat assume n: "12 \<le> n \<and> n < 48"
      consider "n < 21" | "21 \<le> n" "n < 30" | "30 \<le> n" "n < 39" | "39 \<le> n" by linarith
      then show "bit a n \<longleftrightarrow> bit b n"
      proof cases
        case 1 then show ?thesis using R [THEN conjunct2, THEN conjunct2, THEN conjunct2, rule_format, of "n - 12"] n by simp
      next
        case 2 then show ?thesis using R [THEN conjunct2, THEN conjunct2, THEN conjunct1, rule_format, of "n - 21"] n by simp
      next
        case 3 then show ?thesis using R [THEN conjunct2, THEN conjunct1, rule_format, of "n - 30"] n by simp
      next
        case 4 then show ?thesis using R [THEN conjunct1, rule_format, of "n - 39"] n by simp
      qed
    qed
  qed simp
  also have "\<dots> \<longleftrightarrow> same_page a b"
    by (simp add: same_page_def leaf_path_def pml4_index_def pdpt_index_def pd_index_def
        pt_index_def index_eq_iff)
  finally show ?thesis by blast
qed

lemma same_page_refl [simp]: "same_page a a"
  by (simp add: same_page_def)

lemma vm_leaf_same_page: "same_page a b \<Longrightarrow> vm_leaf s a = vm_leaf s b"
  by (simp add: vm_leaf_def same_page_def split: option.split)

lemma map_page_spec:
  assumes ok: "vm_ok s" and clear: "vm_clear s (leaf_path va)"
    and free: "3 \<le> card (pmm_free (vm_pmm s))"
  shows "vm_ok (map_page va pa w s)"
    and "m_pml4 (map_page va pa w s) = m_pml4 s"
    and "vm_leaf (map_page va pa w s) a =
      (if same_page a va \<and> vm_leaf s va = None then Some (leaf_entry (pa AND PAGE_MASK) w)
       else vm_leaf s a)"
    and "vm_clear s q \<Longrightarrow> valid_path q \<Longrightarrow> vm_clear (map_page va pa w s) q"
    and "card (pmm_free (vm_pmm s)) \<le> card (pmm_free (vm_pmm (map_page va pa w s))) + 3"
    and "vm_keeps s (map_page va pa w s)"
proof -
  obtain t1 s1 where l1: "get_next_level (m_pml4 s) (pml4_index va) True s = (t1, s1)" by fastforce
  obtain t2 s2 where l2: "get_next_level t1 (pdpt_index va) True s1 = (t2, s2)" by fastforce
  obtain t3 s3 where l3: "get_next_level t2 (pd_index va) True s2 = (t3, s3)" by fastforce
  note w = walk_create [OF ok clear free l1 l2 l3]
  then have ext: "vm_ext 3 s s3" and t3: "vm_table s3 (leaf_path va) = Some t3" by simp_all
  have ok3: "vm_ok s3" using ext by (simp add: vm_ext_def)
  let ?e = "entry_at t3 (pt_index va)" and ?le = "leaf_entry (pa AND PAGE_MASK) w"
  have step: "map_page va pa w s = (if pte_present (pt_mem s3 ?e) then s3
      else s3\<lparr>pt_mem := (pt_mem s3)(?e := ?le)\<rparr>)"
  proof -
    have "pt_mem s3 ?e = 0" if "\<not> pte_present (pt_mem s3 ?e)"
      using ok3 tree_okD(2) [of "pt_mem s3" "m_pml4 s3" "vm_used s3" "leaf_path va" t3] t3 that
      by (simp add: vm_ok_def vm_table_def)
    then show ?thesis
      using w by (auto simp: map_page_def Let_def l1 l2 l3 leaf_entry_def)
  qed
  have "vm_leaf s va = vm_leaf s3 va" using ext by (simp add: vm_ext_def)
  then have some: "vm_leaf s va = None \<longleftrightarrow> \<not> pte_present (pt_mem s3 ?e)"
    using t3 by (simp add: vm_leaf_def [of s3] Let_def)
  note wr = write_leaf [OF ok3 t3, of ?le "s3\<lparr>pt_mem := (pt_mem s3)(?e := ?le)\<rparr>", simplified]
  show "vm_ok (map_page va pa w s)" using step wr(1) ok3 by simp
  show "m_pml4 (map_page va pa w s) = m_pml4 s" using step ext by (simp add: vm_ext_def)
  show "vm_leaf (map_page va pa w s) a =
      (if same_page a va \<and> vm_leaf s va = None then Some ?le else vm_leaf s a)"
    using step some wr(2) ext by (simp add: vm_ext_def)
  show "vm_clear (map_page va pa w s) q" if "vm_clear s q" "valid_path q"
    using step that wr(3) ext by (auto simp: vm_ext_def)
  show "card (pmm_free (vm_pmm s)) \<le> card (pmm_free (vm_pmm (map_page va pa w s))) + 3"
    using step ext by (simp add: vm_ext_def)
  have "vm_keeps s3 (s3\<lparr>pt_mem := (pt_mem s3)(?e := ?le)\<rparr>)" if "\<not> pte_present (pt_mem s3 ?e)"
    using that by (auto simp: vm_keeps_def vm_used_def)
  then show "vm_keeps s (map_page va pa w s)"
    using step ext by (auto simp: vm_ext_def intro: vm_keeps_trans)
qed

text \<open>A page whose last-level table is there costs no frame.\<close>

lemma map_page_in_table:
  assumes "vm_table s (leaf_path va) = Some t"
  shows "vm_pmm (map_page va pa w s) = vm_pmm s"
proof -
  obtain t1 t2 where 1: "next_table (pt_mem s) (m_pml4 s) (pml4_index va) = Some t1"
      "next_table (pt_mem s) t1 (pdpt_index va) = Some t2" "next_table (pt_mem s) t2 (pd_index va) = Some t"
    using assms by (auto simp: vm_table_def leaf_path_def split: option.splits)
  show ?thesis
    using get_next_level_present [OF 1(1)] get_next_level_present [OF 1(2)] get_next_level_present [OF 1(3)]
    by (simp add: map_page_def Let_def)
qed

lemma vm_clear_step:
  assumes "vm_clear s (leaf_path va)" "n < 3" "vm_table s (take n (leaf_path va)) = Some t"
  shows "get_next_level t (leaf_path va ! n) False s =
    (case vm_table s (take (Suc n) (leaf_path va)) of None \<Rightarrow> nullptr | Some t' \<Rightarrow> t', s)"
proof -
  have l: "n < length (leaf_path va)" using assms(2) by (simp add: leaf_path_def)
  have "pte_present (pt_mem s (entry_at t (leaf_path va ! n))) \<Longrightarrow>
      next_table (pt_mem s) t (leaf_path va ! n) \<noteq> None"
    using assms l by (simp add: vm_clear_def path_clear_def vm_table_def)
  from get_next_level_lookup [OF this] show ?thesis
    using assms(3) l by (simp add: vm_table_def take_Suc_conv_app_nth table_at_snoc)
qed

lemma next_table_nonnull: "next_table mem t i = Some t' \<Longrightarrow> t' \<noteq> 0"
  by (auto simp: next_table_def Let_def split: if_splits)

text \<open>The walk without creation, as \<open>unmap_page\<close> and \<open>get_physical_address\<close> do it.\<close>

lemma walk_lookup:
  assumes clear: "vm_clear s (leaf_path va)"
    and l1: "get_next_level (m_pml4 s) (pml4_index va) False s = (t1, s1)"
    and l2: "t1 \<noteq> 0 \<Longrightarrow> get_next_level t1 (pdpt_index va) False s1 = (t2, s2)"
    and l3: "t1 \<noteq> 0 \<Longrightarrow> t2 \<noteq> 0 \<Longrightarrow> get_next_level t2 (pd_index va) False s2 = (t3, s3)"
  shows "s1 = s \<and> (t1 \<noteq> 0 \<longrightarrow> s2 = s) \<and> (t1 \<noteq> 0 \<and> t2 \<noteq> 0 \<longrightarrow> s3 = s) \<and>
    vm_table s (leaf_path va) = (if t1 \<noteq> 0 \<and> t2 \<noteq> 0 \<and> t3 \<noteq> 0 then Some t3 else None)"
proof -
  let ?a = "pml4_index va" and ?b = "pdpt_index va" and ?c = "pd_index va"
  note path = leaf_path_def [of va]
  have 1: "(t1, s1) = (case vm_table s [?a] of None \<Rightarrow> nullptr | Some t' \<Rightarrow> t', s)"
    using vm_clear_step [OF clear, of 0] l1 by (simp add: path)
  then have s1: "s1 = s" and t1: "t1 \<noteq> 0 \<Longrightarrow> vm_table s [?a] = Some t1"
    "t1 = 0 \<Longrightarrow> vm_table s [?a] = None"
    by (auto simp: vm_table_def dest: next_table_nonnull split: option.splits)
  show ?thesis
  proof (cases "t1 = 0")
    case True
    with t1(2) s1 show ?thesis by (simp add: path vm_table_def split: option.splits)
  next
    case False
    have 2: "(t2, s2) = (case vm_table s [?a, ?b] of None \<Rightarrow> nullptr | Some t' \<Rightarrow> t', s)"
      using vm_clear_step [OF clear, of 1 t1] t1(1) [OF False] l2 [OF False] s1
      by (auto simp: path numeral_2_eq_2)
    then have s2: "s2 = s" and t2: "t2 \<noteq> 0 \<Longrightarrow> vm_table s [?a, ?b] = Some t2"
      "t2 = 0 \<Longrightarrow> vm_table s [?a, ?b] = None"
      by (auto simp: vm_table_def dest: next_table_nonnull split: option.splits)
    show ?thesis
    proof (cases "t2 = 0")
      case True
      with t2(2) s1 s2 False show ?thesis by (auto simp: path vm_table_def split: option.splits)
    next
      case F: False
      have 3: "(t3, s3) = (case vm_table s [?a, ?b, ?c] of None \<Rightarrow> nullptr | Some t' \<Rightarrow> t', s)"
        using vm_clear_step [OF clear, of 2 t2] t2(1) [OF F] l3 [OF False F] s2
        by (auto simp: path numeral_3_eq_3 numeral_2_eq_2)
      then have "s3 = s" "t3 \<noteq> 0 \<Longrightarrow> vm_table s [?a, ?b, ?c] = Some t3"
        "t3 = 0 \<Longrightarrow> vm_table s [?a, ?b, ?c] = None"
        by (auto simp: vm_table_def dest: next_table_nonnull split: option.splits)
      with False F s1 s2 show ?thesis by (auto simp: path)
    qed
  qed
qed

lemma masked_offset [simp]: "(va AND PAGE_MASK) AND NOT PAGE_MASK = 0"
  by (rule bit_word_eqI) (simp add: bit_simps)

lemma get_physical_address_spec:
  assumes "vm_clear s (leaf_path va)"
  shows "get_physical_address va s =
    (case vm_leaf s va of None \<Rightarrow> 0 | Some v \<Rightarrow> pte_address v AND PAGE_MASK)"
proof -
  obtain t1 s1 where l1: "get_next_level (m_pml4 s) (pml4_index va) False s = (t1, s1)" by fastforce
  obtain t2 s2 where l2: "get_next_level t1 (pdpt_index va) False s1 = (t2, s2)" by fastforce
  obtain t3 s3 where l3: "get_next_level t2 (pd_index va) False s2 = (t3, s3)" by fastforce
  have "get_physical_address va s =
      (if t1 = 0 \<or> t2 = 0 \<or> t3 = 0 then 0
       else let v = pt_mem s3 (entry_at t3 (pt_index va))
            in if \<not> pte_present v then 0 else pte_address v AND PAGE_MASK)"
    by (simp add: get_physical_address_def l1 l2 l3 Let_def)
  then show ?thesis
    using walk_lookup [OF assms l1 l2 l3] by (auto simp: vm_leaf_def Let_def)
qed

lemma unmap_page_spec:
  assumes ok: "vm_ok s" and clear: "vm_clear s (leaf_path va)"
  shows "vm_ok (unmap_page va s)"
    and "vm_leaf (unmap_page va s) a = (if same_page a va then None else vm_leaf s a)"
    and "vm_clear s q \<Longrightarrow> valid_path q \<Longrightarrow> vm_clear (unmap_page va s) q"
    and "vm_pmm (unmap_page va s) = vm_pmm s" "m_pml4 (unmap_page va s) = m_pml4 s"
proof -
  obtain t1 s1 where l1: "get_next_level (m_pml4 s) (pml4_index va) False s = (t1, s1)" by fastforce
  obtain t2 s2 where l2: "get_next_level t1 (pdpt_index va) False s1 = (t2, s2)" by fastforce
  obtain t3 s3 where l3: "get_next_level t2 (pd_index va) False s2 = (t3, s3)" by fastforce
  have step: "unmap_page va s = (case vm_table s (leaf_path va) of None \<Rightarrow> s
      | Some t \<Rightarrow> s\<lparr>pt_mem := (pt_mem s)(entry_at t (pt_index va) := 0)\<rparr>)"
  proof -
    have "unmap_page va s =
        (if t1 = 0 then s1 else if t2 = 0 then s2 else if t3 = 0 then s3
         else s3\<lparr>pt_mem := (pt_mem s3)(entry_at t3 (pt_index va) := 0)\<rparr>)"
      by (simp add: unmap_page_def l1 l2 l3 Let_def)
    then show ?thesis using walk_lookup [OF clear l1 l2 l3] by auto
  qed
  have none: "vm_leaf s a = None" if "same_page a va" "vm_table s (leaf_path va) = None"
    using that by (simp add: vm_leaf_def same_page_def)
  have some: "vm_ok s'" "vm_leaf s' a = (if same_page a va then None else vm_leaf s a)"
    "vm_clear s q \<Longrightarrow> valid_path q \<Longrightarrow> vm_clear s' q"
    if "vm_table s (leaf_path va) = Some t"
      "s' = s\<lparr>pt_mem := (pt_mem s)(entry_at t (pt_index va) := 0)\<rparr>" for t s'
    using write_leaf [OF ok that(1) _ that(2)] by simp_all
  show "vm_ok (unmap_page va s)"
    "vm_leaf (unmap_page va s) a = (if same_page a va then None else vm_leaf s a)"
    "vm_clear s q \<Longrightarrow> valid_path q \<Longrightarrow> vm_clear (unmap_page va s) q"
    "vm_pmm (unmap_page va s) = vm_pmm s" "m_pml4 (unmap_page va s) = m_pml4 s"
    using step some none ok by (simp_all split: option.splits)
qed

section \<open>The interface: an address space\<close>

text \<open>
  What the clients of paging rely on (shared memory, executable loading): a page that has no
  mapping gets one, other pages keep theirs, three frames per page are enough. \<open>pages\<close> is the
  abstract content, one entry per virtual page; \<open>usable s va\<close> says that no huge page and no
  dead table entry lies on the way to \<open>va\<close>.
\<close>

fun map_all :: "(u64 \<Rightarrow> u64 \<Rightarrow> bool \<Rightarrow> 's \<Rightarrow> 's) \<Rightarrow> (u64 \<times> u64) list \<Rightarrow> bool \<Rightarrow> 's \<Rightarrow> 's" where
  "map_all m [] w s = s"
| "map_all m ((va, pa) # ps) w s = map_all m ps w (m va pa w s)"

locale address_space =
  fixes mapp :: "u64 \<Rightarrow> u64 \<Rightarrow> bool \<Rightarrow> 's \<Rightarrow> 's"
    and unmap :: "u64 \<Rightarrow> 's \<Rightarrow> 's"
    and lookup :: "u64 \<Rightarrow> 's \<Rightarrow> u64"
    and pages :: "'s \<Rightarrow> u64 \<Rightarrow> pte option"
    and usable :: "'s \<Rightarrow> u64 \<Rightarrow> bool"
    and budget :: "'s \<Rightarrow> nat"
    and inv :: "'s \<Rightarrow> bool"
  assumes pages_same: "same_page a b \<Longrightarrow> pages s a = pages s b"
    and inv_map: "inv s \<Longrightarrow> usable s va \<Longrightarrow> 3 \<le> budget s \<Longrightarrow> inv (mapp va pa w s)"
    and usable_map: "inv s \<Longrightarrow> usable s va \<Longrightarrow> 3 \<le> budget s \<Longrightarrow> usable s a \<Longrightarrow>
      usable (mapp va pa w s) a"
    and budget_map: "inv s \<Longrightarrow> usable s va \<Longrightarrow> 3 \<le> budget s \<Longrightarrow> budget s \<le> budget (mapp va pa w s) + 3"
    and pages_map: "inv s \<Longrightarrow> usable s va \<Longrightarrow> 3 \<le> budget s \<Longrightarrow>
      pages (mapp va pa w s) a =
        (if same_page a va \<and> pages s va = None then Some (leaf_entry (pa AND PAGE_MASK) w)
         else pages s a)"
    and inv_unmap: "inv s \<Longrightarrow> usable s va \<Longrightarrow> inv (unmap va s)"
    and usable_unmap: "inv s \<Longrightarrow> usable s va \<Longrightarrow> usable s a \<Longrightarrow> usable (unmap va s) a"
    and pages_unmap: "inv s \<Longrightarrow> usable s va \<Longrightarrow>
      pages (unmap va s) a = (if same_page a va then None else pages s a)"
    and lookup_pages: "usable s va \<Longrightarrow>
      lookup va s = (case pages s va of None \<Rightarrow> 0 | Some v \<Rightarrow> pte_address v AND PAGE_MASK)"
begin

lemma unmap_map:
  assumes "inv s" "usable s va" "3 \<le> budget s" "pages s va = None"
  shows "pages (unmap va (mapp va pa w s)) = pages s"
proof
  fix a
  have "same_page a va \<Longrightarrow> pages s a = None" using assms(4) pages_same [of a va s] by simp
  then show "pages (unmap va (mapp va pa w s)) a = pages s a"
    using pages_unmap [OF inv_map usable_map] pages_map assms by auto
qed

lemma map_all_spec:
  assumes "inv s" "3 * length ps \<le> budget s" "\<forall>(va, pa) \<in> set ps. usable s va \<and> pages s va = None"
    and "pairwise (\<lambda>a b. \<not> same_page a b) (set (map fst ps))" "distinct (map fst ps)"
  shows "inv (map_all mapp ps w s) \<and>
    (\<forall>(va, pa) \<in> set ps. pages (map_all mapp ps w s) va = Some (leaf_entry (pa AND PAGE_MASK) w)) \<and>
    (\<forall>a. (\<forall>va \<in> set (map fst ps). \<not> same_page a va) \<longrightarrow> pages (map_all mapp ps w s) a = pages s a) \<and>
    (\<forall>a. usable s a \<longrightarrow> usable (map_all mapp ps w s) a)"
  using assms
proof (induction ps arbitrary: s)
  case Nil
  then show ?case by simp
next
  case (Cons p ps)
  obtain va pa where p: "p = (va, pa)" by fastforce
  have 1: "inv s" "usable s va" "3 \<le> budget s" "pages s va = None" using Cons.prems p by auto
  let ?s = "mapp va pa w s"
  have sep: "\<not> same_page b va" "\<not> same_page va b" if "b \<in> set (map fst ps)" for b
    using Cons.prems(4,5) that p by (auto simp: pairwise_def)
  have keep: "pages ?s b = pages s b" if "\<not> same_page b va" for b
    using pages_map [OF 1(1-3)] that by simp
  have IH: "inv (map_all mapp ps w ?s) \<and>
    (\<forall>(va, pa) \<in> set ps. pages (map_all mapp ps w ?s) va = Some (leaf_entry (pa AND PAGE_MASK) w)) \<and>
    (\<forall>a. (\<forall>va \<in> set (map fst ps). \<not> same_page a va) \<longrightarrow> pages (map_all mapp ps w ?s) a = pages ?s a) \<and>
    (\<forall>a. usable ?s a \<longrightarrow> usable (map_all mapp ps w ?s) a)"
  proof (rule Cons.IH)
    show "inv ?s" by (rule inv_map [OF 1(1-3)])
    show "3 * length ps \<le> budget ?s" using budget_map [OF 1(1-3), of pa w] Cons.prems(2) by simp
    show "\<forall>(b, pa) \<in> set ps. usable ?s b \<and> pages ?s b = None"
      using Cons.prems(3) usable_map [OF 1(1-3)] keep sep(1) by fastforce
    show "pairwise (\<lambda>a b. \<not> same_page a b) (set (map fst ps))"
      using Cons.prems(4) by (auto simp: pairwise_insert)
    show "distinct (map fst ps)" using Cons.prems(5) by simp
  qed
  moreover have "pages (map_all mapp ps w ?s) va = Some (leaf_entry (pa AND PAGE_MASK) w)"
    using IH sep(2) pages_map [OF 1(1-3), of pa w va] 1(4) by simp
  ultimately show ?case
    using keep usable_map [OF 1(1-3)] by (auto simp: p)
qed

end

definition vm_usable :: "vmm \<Rightarrow> u64 \<Rightarrow> bool" where
  "vm_usable s va = vm_clear s (leaf_path va)"

definition vm_budget :: "vmm \<Rightarrow> nat" where
  "vm_budget s = card (pmm_free (vm_pmm s))"

interpretation space: address_space map_page unmap_page get_physical_address vm_leaf vm_usable
  vm_budget vm_ok
  by unfold_locales
    (simp_all add: vm_usable_def vm_budget_def vm_leaf_same_page map_page_spec unmap_page_spec
      get_physical_address_spec)

section \<open>The boot tables\<close>

text \<open>
  The translation the processor performs with a table tree: four levels, with 2 MiB pages at
  the third.
\<close>

definition translate :: "vmm \<Rightarrow> u64 \<Rightarrow> u64 option" where
  "translate s va =
    (case vm_table s [pml4_index va, pdpt_index va] of
       None \<Rightarrow> None
     | Some pd \<Rightarrow>
         let v = pt_mem s (entry_at pd (pd_index va))
         in if pte_present v \<and> pte_huge_page v then Some (pte_address v OR (va AND 0x1FFFFF))
            else case vm_leaf s va of
                   None \<Rightarrow> None
                 | Some w \<Rightarrow> Some (pte_address w OR (va AND 0xFFF)))"

definition huge_entry :: "nat \<Rightarrow> pte" where
  "huge_entry i = set_user False (set_writable True (set_present True
     (set_address (of_nat i * 0x200000) (set_huge_page True 0))))"

lemma bit_huge_entry:
  "bit (huge_entry i) k \<longleftrightarrow>
     (if k = 0 \<or> k = 1 \<or> k = 7 then True else if k < 21 then False else bit (of_nat i * 0x200000 :: u64) k)"
  by (auto simp: huge_entry_def set_user_def set_writable_def set_present_def set_huge_page_def
      bit_pte_set_flag bit_set_address)

lemma huge_entry_flags [simp]: "pte_present (huge_entry i)" "pte_huge_page (huge_entry i)"
  "pte_writable (huge_entry i)" "\<not> pte_user (huge_entry i)"
  by (simp_all add: pte_flag_defs pte_flag_bit bit_huge_entry)

lemma huge_entry_address: "i < 8 \<Longrightarrow> pte_address (huge_entry i) = of_nat i * 0x200000"
proof -
  assume i: "i < 8"
  have sh: "(of_nat i * 0x200000 :: u64) = push_bit 21 (of_nat i)"
    by (simp add: push_bit_eq_mult)
  have "k < 52" if "bit i (k - 21)" for k
  proof (rule ccontr)
    assume "\<not> k < 52"
    then have "(2 :: nat) ^ 3 \<le> 2 ^ (k - 21)" by (intro power_increasing) simp_all
    with i that show False by (simp add: bit_iff_odd)
  qed
  then show ?thesis
    by (intro bit_word_eqI) (auto simp: bit_pte_address bit_huge_entry sh bit_simps)
qed

lemma pdpt_entry_order:
  "set_address a (set_accessed False (set_pcd False (set_pwt False (set_user False
     (set_writable True (set_present True 0)))))) = table_entry a"
  by (rule bit_word_eqI)
    (auto simp: table_entry_leaf bit_leaf_entry bit_set_address set_accessed_def set_pcd_def
      set_pwt_def set_user_def set_writable_def set_present_def bit_pte_set_flag)

text \<open>Hanging a new table below an empty entry, as \<open>initialize\<close> does step by step.\<close>

lemma hang_table:
  assumes ok: "vm_ok s" and card: "1 \<le> card (pmm_free (vm_pmm s))"
    and p: "valid_path (p @ [i])" "vm_table s p = Some t"
    and empty: "pt_mem s (entry_at t i) = 0"
    and call: "create_page_table s = (f, s1)" and g: "g 0 = table_entry f"
    and s2: "s2 = set_entry t i g s1"
  shows "f \<noteq> 0" "vm_ok s2" "vm_table s2 (p @ [i]) = Some f" "m_pml4 s2 = m_pml4 s"
    "\<And>q. valid_path q \<Longrightarrow> \<not> prefix (p @ [i]) q \<Longrightarrow> vm_table s2 q = vm_table s q"
    "\<And>q u j. valid_path q \<Longrightarrow> vm_table s q = Some u \<Longrightarrow> j < 512 \<Longrightarrow> (q, j) \<noteq> (p, i) \<Longrightarrow>
      pt_mem s2 (entry_at u j) = pt_mem s (entry_at u j)"
    "\<And>j. j < 512 \<Longrightarrow> pt_mem s2 (entry_at f j) = 0"
    "card (pmm_free (vm_pmm s)) = Suc (card (pmm_free (vm_pmm s2)))"
proof -
  let ?mem = "pt_mem s" and ?root = "m_pml4 s" and ?F = "vm_used s"
  note f = create_page_table_spec [OF ok card call]
  have tree: "tree_ok ?mem ?root ?F" using ok by (simp add: vm_ok_def)
  note fr = frames_ok_used [OF ok]
  have pv: "valid_path p" "i < 512" and pt: "table_at ?mem ?root p = Some t"
    using p by (simp_all add: vm_table_def)
  have none: "next_table ?mem t i = None" using empty by (simp add: next_table_def)
  have "t \<in> ?F" by (rule tree_okD(1) [OF tree pv(1) pt])
  then have "zero_entries f 512 ?mem (entry_at t i) = 0"
    using f(1,2) fr pv(2) empty by (subst zero_entries_other) (auto simp: frames_ok_def)
  then have s2': "s2 = s1\<lparr>pt_mem := (zero_entries f 512 ?mem)(entry_at t i := table_entry f)\<rparr>"
    by (simp add: s2 set_entry_def f(4) g)
  note ext = extend_tree [OF tree fr p(1) pt none f(1,2)]
  show "f \<noteq> 0" using f(2) by (simp add: frames_ok_def)
  have used: "vm_used s2 = insert f ?F" using f(3) by (simp add: vm_used_def s2')
  show "vm_ok s2"
    using ok tree_ok_extend [OF tree fr p(1) pt none f(1,2)] f(5-8) used
    by (simp add: vm_ok_def s2')
  show "vm_table s2 (p @ [i]) = Some f" "m_pml4 s2 = m_pml4 s"
    using ext(1) f(5) by (simp_all add: vm_table_def s2')
  show "vm_table s2 q = vm_table s q" if "valid_path q" "\<not> prefix (p @ [i]) q" for q
    using ext(2) [OF that] f(5) by (simp add: vm_table_def s2')
  show "pt_mem s2 (entry_at u j) = pt_mem s (entry_at u j)"
    if "valid_path q" "vm_table s q = Some u" "j < 512" "(q, j) \<noteq> (p, i)" for q u j
    using ext(4) [OF that(1) _ that(3,4)] that(2) by (simp add: s2' vm_table_def)
  show "pt_mem s2 (entry_at f j) = 0" if "j < 512" for j
    using ext(5) [OF that] by (simp add: s2')
  show "card (pmm_free (vm_pmm s)) = Suc (card (pmm_free (vm_pmm s2)))"
    using f(9) by (simp add: s2')
qed

text \<open>A 2 MiB entry below an existing directory adds no table.\<close>

lemma write_huge:
  assumes ok: "vm_ok s" and p: "valid_path (p @ [i])" "vm_table s p = Some t"
    and empty: "pt_mem s (entry_at t i) = 0" and v: "pte_present v" "pte_huge_page v"
    and s': "s' = set_entry t i (\<lambda>_. v) s"
  shows "vm_ok s'" "valid_path q \<Longrightarrow> vm_table s' q = vm_table s q"
    "vm_table s q = Some u \<Longrightarrow> valid_path q \<Longrightarrow> j < 512 \<Longrightarrow>
      pt_mem s' (entry_at u j) = (if (q, j) = (p, i) then v else pt_mem s (entry_at u j))"
    "m_pml4 s' = m_pml4 s" "vm_pmm s' = vm_pmm s"
proof -
  let ?mem = "pt_mem s" and ?root = "m_pml4 s" and ?F = "vm_used s"
  let ?mem' = "?mem(entry_at t i := v)"
  have tree: "tree_ok ?mem ?root ?F" using ok by (simp add: vm_ok_def)
  note fr = frames_ok_used [OF ok]
  have pv: "valid_path p" "i < 512" and pt: "table_at ?mem ?root p = Some t"
    using p by (simp_all add: vm_table_def)
  have old: "table_at ?mem' ?root q = table_at ?mem ?root q"
    if "valid_path q" "\<not> prefix (p @ [i]) q" for q
    using table_at_upd_entry [OF tree fr pv(1) pt pv(2) that] .
  have "\<not> prefix (p @ [i]) p" by (simp add: prefix_def)
  then have "table_at ?mem' ?root (p @ [i]) = None" "table_at ?mem ?root (p @ [i]) = None"
    using old [OF pv(1)] pt empty v by (simp_all add: table_at_snoc next_table_def)
  then have same: "table_at ?mem' ?root q = table_at ?mem ?root q" if "valid_path q" for q
    using old [OF that] table_at_prefix_None by (cases "prefix (p @ [i]) q") fastforce+
  have ent: "?mem' (entry_at u j) = (if (q, j) = (p, i) then v else ?mem (entry_at u j))"
    if "table_at ?mem ?root q = Some u" "valid_path q" "j < 512" for q u j
    using tree_ok_entry_inj [OF tree fr that(2,1) pv(1) pt that(3) pv(2)] that(1) pt by auto
  have "tree_ok ?mem' ?root ?F"
    using tree v(1) unfolding tree_ok_def by (auto simp: same ent simp del: fun_upd_apply)
  with ok show "vm_ok s'" by (simp add: s' set_entry_def vm_ok_def vm_used_def)
  show "valid_path q \<Longrightarrow> vm_table s' q = vm_table s q"
    by (simp add: vm_table_def s' set_entry_def same)
  show "vm_table s q = Some u \<Longrightarrow> valid_path q \<Longrightarrow> j < 512 \<Longrightarrow>
      pt_mem s' (entry_at u j) = (if (q, j) = (p, i) then v else pt_mem s (entry_at u j))"
    using ent [of q u j] by (simp add: vm_table_def s' set_entry_def del: fun_upd_apply)
  show "m_pml4 s' = m_pml4 s" "vm_pmm s' = vm_pmm s" by (simp_all add: s' set_entry_def)
qed

lemma map_first_16mb_spec:
  assumes ok: "vm_ok s" and p: "valid_path p" "length p = 2" "vm_table s p = Some pd"
    and zero: "\<And>j. j < 512 \<Longrightarrow> pt_mem s (entry_at pd j) = 0"
    and n: "n \<le> 8" and s': "s' = fold (\<lambda>i. set_entry pd i (\<lambda>_. huge_entry i)) [0..<n] s"
  shows "vm_ok s' \<and> m_pml4 s' = m_pml4 s \<and> vm_pmm s' = vm_pmm s \<and>
    (\<forall>q. valid_path q \<longrightarrow> vm_table s' q = vm_table s q) \<and>
    (\<forall>q u j. valid_path q \<longrightarrow> vm_table s q = Some u \<longrightarrow> j < 512 \<longrightarrow>
      pt_mem s' (entry_at u j) = (if q = p \<and> j < n then huge_entry j else pt_mem s (entry_at u j)))"
  using n s'
proof (induction n arbitrary: s')
  case 0
  then show ?case using ok by simp
next
  case (Suc n)
  define r where "r = fold (\<lambda>i. set_entry pd i (\<lambda>_. huge_entry i)) [0..<n] s"
  note IH = Suc.IH [OF _ r_def]
  have s': "s' = set_entry pd n (\<lambda>_. huge_entry n) r"
    using Suc.prems(2) by (simp add: r_def)
  have rok: "vm_ok r" and rp: "vm_table r p = Some pd" and vp: "valid_path (p @ [n])"
    using IH Suc.prems(1) p by auto
  have rz: "pt_mem r (entry_at pd n) = 0"
    using IH Suc.prems(1) p zero [of n] by auto
  note w = write_huge [OF rok vp rp rz _ _ s']
  show ?case
    using w IH Suc.prems(1) by (auto simp: less_Suc_eq)
qed

lemma fresh_root:
  assumes mem: "\<And>i. i < 512 \<Longrightarrow> mem (entry_at t i) = 0" and t: "t \<in> F"
  shows "tree_ok mem t F"
proof -
  have "q = [] \<and> u = t" if "valid_path q" "table_at mem t q = Some u" for q u
    using that mem by (cases q) (auto simp: valid_path_def next_table_def)
  then show ?thesis using mem t unfolding tree_ok_def by blast
qed

lemma gib_index:
  assumes "va < 0x40000000"
  shows "pml4_index va = 0" "pdpt_index va = 0" "pd_index va = unat va div 0x200000" "unat va div 0x200000 < 512"
proof -
  have va: "unat va < 1073741824" using assms by (simp add: word_less_nat_alt)
  have m: "unat (w AND 0x1FF :: u64) = unat w mod 512" for w :: u64
  proof -
    have "(0x1FF :: u64) = mask 9" by (simp add: mask_eq_exp_minus_1)
    then have "unat (w AND 0x1FF) = take_bit 9 (unat w)"
      by (simp only: take_bit_eq_mask [symmetric] unsigned_take_bit_eq)
    then show ?thesis by (simp add: take_bit_eq_mod)
  qed
  show "unat va div 0x200000 < 512" using va by (simp add: less_mult_imp_div_less)
  then show "pml4_index va = 0" "pdpt_index va = 0" "pd_index va = unat va div 0x200000"
    using va by (simp_all add: pml4_index_def pdpt_index_def pd_index_def m unat_drop_bit)
qed

lemma low_index:
  assumes "va < 0x1000000"
  shows "pml4_index va = 0" "pdpt_index va = 0" "pd_index va = unat va div 0x200000"
    "unat va div 0x200000 < 8"
proof -
  have va: "unat va < 16777216" using assms by (simp add: word_less_nat_alt)
  then have "va < 0x40000000" by (simp add: word_less_nat_alt)
  from gib_index [OF this] show "pml4_index va = 0" "pdpt_index va = 0" "pd_index va = unat va div 0x200000" by simp_all
  show "unat va div 0x200000 < 8" using va by (simp add: less_mult_imp_div_less)
qed

lemma huge_translation: "va < 0x1000000 \<Longrightarrow>
    pte_address (huge_entry (unat va div 0x200000)) OR (va AND 0x1FFFFF) = va"
proof -
  assume va: "va < 0x1000000"
  have "of_nat (unat va div 0x200000) = drop_bit 21 va"
    using of_nat_div_word [of va 21] by simp
  then have "pte_address (huge_entry (unat va div 0x200000)) = push_bit 21 (drop_bit 21 va)"
    using huge_entry_address [OF low_index(4) [OF va]] by (simp add: push_bit_eq_mult)
  then show ?thesis
    by (simp add: pte_masks) (rule bit_word_eqI, auto simp: bit_simps)
qed

text \<open>Mapping below a 2 MiB entry for address 0: the walk reads address 0 and gives up.\<close>

lemma map_page_huge_zero:
  assumes "vm_table s [pml4_index va, pdpt_index va] = Some pd"
    and "pt_mem s (entry_at pd (pd_index va)) = huge_entry 0"
  shows "map_page va pa w s = s"
proof -
  obtain t where t: "next_table (pt_mem s) (m_pml4 s) (pml4_index va) = Some t"
    and pd: "next_table (pt_mem s) t (pdpt_index va) = Some pd"
    using assms(1) by (auto simp: vm_table_def split: option.splits)
  have "get_next_level pd (pd_index va) True s = (0, s)"
    using assms(2) huge_entry_address [of 0] by (simp add: get_next_level_def)
  with get_next_level_present(1) [OF t, of True] get_next_level_present(1) [OF pd, of True]
    get_next_level_present(2) [OF t] get_next_level_present(2) [OF pd]
  show ?thesis by (simp add: map_page_def)
qed

lemma boot_root:
  assumes p: "pmm_ok p" "page_aligned (m_memory_start p)"
      "unat (m_memory_start p) + n_frames p * 4096 \<le> 2 ^ 48" "pmm_free p \<noteq> {}"
    and al: "allocate_frame p = (pml4, q)"
    and s': "s' = s\<lparr>vm_pmm := q, m_pml4 := pml4, pt_mem := zero_entries pml4 512 mem\<rparr>"
  shows "vm_ok s'" "pml4 \<noteq> 0" "\<And>j. j < 512 \<Longrightarrow> pt_mem s' (entry_at pml4 j) = 0"
    "card (pmm_free p) = Suc (card (pmm_free q))"
proof -
  have f: "pml4 \<in> pmm_free p" "pmm_free q = pmm_free p - {pml4}" "pmm_frames q = pmm_frames p"
    "pmm_ok q" "m_memory_start q = m_memory_start p" "n_frames q = n_frames p"
    using pool.alloc_frame [OF p(1,4)] pool.alloc_frames [OF p(1)] pool.inv_alloc [OF p(1)]
      allocate_frame_fixed [OF p(1)] al by auto
  have fr: "pml4 \<in> pmm_frames p" using f(1) pmm_free_subset by (rule subsetD [rotated])
  then show "pml4 \<noteq> 0" using frames_ok_pool [OF p(1-3)] by (auto simp: frames_ok_def)
  show z: "pt_mem s' (entry_at pml4 j) = 0" if "j < 512" for j
    using that by (simp add: s' zero_entries_in)
  have "tree_ok (pt_mem s') pml4 (vm_used s')"
    by (rule fresh_root) (use z f fr in \<open>auto simp: vm_used_def s'\<close>)
  then show "vm_ok s'" using f p by (simp add: vm_ok_def s')
  show "card (pmm_free p) = Suc (card (pmm_free q))"
    unfolding f(2) using card_Suc_Diff1 [OF pool.finite_frees f(1)] by (rule sym)
qed

text \<open>From the empty root to the directory of 2 MiB pages.\<close>

lemma boot_directory:
  assumes ok: "vm_ok s2" and root: "m_pml4 s2 = pml4" and c: "2 \<le> card (pmm_free (vm_pmm s2))"
    and z: "\<And>j. j < 512 \<Longrightarrow> pt_mem s2 (entry_at pml4 j) = 0"
    and cr3: "create_page_table s2 = (pdpt, s3)"
    and s4: "s4 = set_entry pml4 0 (\<lambda>_. table_entry pdpt) s3"
    and cr5: "create_page_table s4 = (pd, s5)"
    and s7: "s7 = map_first_16mb pd (set_entry pdpt 0 (\<lambda>_. table_entry pd) s5)"
  shows "pdpt \<noteq> 0 \<and> pd \<noteq> 0 \<and> vm_ok s7 \<and> m_pml4 s7 = pml4 \<and> vm_table s7 [0, 0] = Some pd \<and>
    pt_mem s7 (entry_at pml4 511) = 0 \<and>
    (\<forall>j < 512. pt_mem s7 (entry_at pd j) = (if j < 8 then huge_entry j else 0)) \<and>
    card (pmm_free (vm_pmm s2)) = Suc (Suc (card (pmm_free (vm_pmm s7))))"
proof -
  have v: "valid_path ([] @ [0])" "valid_path ([0] @ [0])" "valid_path [0, 0]" "length [0 :: nat, 0] = 2"
    by (simp_all add: valid_path_def)
  have r2: "vm_table s2 [] = Some pml4" by (simp add: root)
  have c2: "1 \<le> card (pmm_free (vm_pmm s2))" and z2: "pt_mem s2 (entry_at pml4 0) = 0"
    using c z by simp_all
  note h4 = hang_table [OF ok c2 v(1) r2 z2 cr3 refl s4]
  define s6 where "s6 = set_entry pdpt 0 (\<lambda>_. table_entry pd) s5"
  have c4: "1 \<le> card (pmm_free (vm_pmm s4))" using h4(8) c by simp
  have t4: "vm_table s4 [0] = Some pdpt" "vm_table s4 [] = Some pml4"
    using h4(3,4) root by simp_all
  have z4: "pt_mem s4 (entry_at pdpt 0) = 0" "pt_mem s4 (entry_at pml4 511) = 0"
    using h4(7) h4(6) [OF valid_path_Nil r2, of 511] z by simp_all
  note h6 = hang_table [OF h4(2) c4 v(2) t4(1) z4(1) cr5 refl s6_def]
  have t6: "vm_table s6 [0, 0] = Some pd" "vm_table s6 [] = Some pml4"
    using h6(3,4) t4(2) by simp_all
  have z6: "pt_mem s6 (entry_at pml4 511) = 0"
    using h6(6) [OF valid_path_Nil t4(2), of 511] z4(2) by simp
  have "s7 = fold (\<lambda>i. set_entry pd i (\<lambda>_. huge_entry i)) [0..<8] s6"
    unfolding s7 s6_def map_first_16mb_def huge_entry_def ..
  note h7 = map_first_16mb_spec [OF h6(2) v(3,4) t6(1) h6(7) order.refl this]
  have "m_pml4 s7 = pml4" using h7 h6(4) h4(4) root by simp
  moreover have "card (pmm_free (vm_pmm s2)) = Suc (Suc (card (pmm_free (vm_pmm s7))))"
    using h7 h6(8) h4(8) by simp
  moreover have "pt_mem s7 (entry_at pml4 511) = 0"
    using h7 t6(2) z6 by (auto dest: spec [of _ "[]"])
  moreover have "pt_mem s7 (entry_at pd j) = (if j < 8 then huge_entry j else 0)" if "j < 512" for j
    using h7 t6(1) v(3) h6(7) [OF that] that by auto
  ultimately show ?thesis using h7 t6(1) v(3) h6(1) h4(1) by auto
qed

lemma vm_initialize_tables:
  assumes p: "pmm_ok p" "page_aligned (m_memory_start p)"
      "unat (m_memory_start p) + n_frames p * 4096 \<le> 2 ^ 48" "4 \<le> card (pmm_free p)"
    and s0: "vm_pmm s0 = p"
  obtains s pd where "vm_initialize s0 = s" "vm_ok s" "m_pml4 s \<noteq> 0"
    "card (pmm_free p) = card (pmm_free (vm_pmm s)) + 4" "vm_table s [0, 0] = Some pd"
    "\<And>j. j < 512 \<Longrightarrow> pt_mem s (entry_at pd j) = (if j < 8 then huge_entry j else 0)"
proof -
  obtain pml4 q where al: "allocate_frame p = (pml4, q)" by fastforce
  define s2 where "s2 = s0\<lparr>vm_pmm := q, m_pml4 := pml4, pt_mem := zero_entries pml4 512 (pt_mem s0)\<rparr>"
  have free: "pmm_free p \<noteq> {}" using p(4) by auto
  note r = boot_root [OF p(1-3) free al s2_def]
  have root: "m_pml4 s2 = pml4" "card (pmm_free p) = Suc (card (pmm_free (vm_pmm s2)))"
    using r(4) by (simp_all add: s2_def)
  obtain pdpt s3 where cr3: "create_page_table s2 = (pdpt, s3)" by fastforce
  define s4 where "s4 = set_entry pml4 0 (\<lambda>_. table_entry pdpt) s3"
  obtain pd s5 where cr5: "create_page_table s4 = (pd, s5)" by fastforce
  define s7 where "s7 = map_first_16mb pd (set_entry pdpt 0 (\<lambda>_. table_entry pd) s5)"
  have "2 \<le> card (pmm_free (vm_pmm s2))" using root(2) p(4) by simp
  note d = boot_directory [OF r(1) root(1) this r(3) cr3 s4_def cr5 s7_def]
  obtain kp s8 where cr8: "create_page_table s7 = (kp, s8)" by fastforce
  define s9 where "s9 = set_entry pml4 511 (\<lambda>v. set_user False (set_writable True
                            (set_present True (set_address kp v)))) s8"
  have v: "valid_path ([] @ [511])" "valid_path [0, 0]" "\<not> prefix ([] @ [511]) [0 :: nat, 0]"
    by (simp_all add: valid_path_def)
  have c7: "1 \<le> card (pmm_free (vm_pmm s7))" and ok7: "vm_ok s7" and r7: "vm_table s7 [] = Some pml4"
    and z7: "pt_mem s7 (entry_at pml4 511) = 0" and pd7: "vm_table s7 [0, 0] = Some pd"
    using d root(2) p(4) by simp_all
  note h = hang_table [OF ok7 c7 v(1) r7 z7 cr8 _ s9_def, unfolded table_entry_def, OF refl]
  have t9: "vm_table s9 [0, 0] = Some pd" using h(5) [OF v(2,3)] pd7 by simp
  have e9: "pt_mem s9 (entry_at pd j) = (if j < 8 then huge_entry j else 0)" if "j < 512" for j
    using h(6) [OF v(2) pd7 that] d that by simp
  have noop: "map_page 0xB8000 0xB8000 True s9 = s9"
    using map_page_huge_zero [of s9 "0xB8000" pd] t9 e9 [of 0] low_index [of "0xB8000"] by simp
  have "vm_initialize s0 = map_page 0xB8000 0xB8000 True s9"
    using d r(2) h(1) al cr3 cr5 cr8
    by (simp add: vm_initialize_def s0 ENTRIES_PER_TABLE_def Let_def s2_def [symmetric] s4_def
        s7_def s9_def pdpt_entry_order table_entry_def)
  then have init: "vm_initialize s0 = s9" by (simp only: noop)
  show thesis
    using that [OF init h(2) _ _ t9 e9] h(4,8) d r(2) root(2) by simp
qed

section \<open>A small address space\<close>

text \<open>\<open>n\<close> frames from address 4096 on; the first holds an empty root table.\<close>

definition pmm_fresh :: "u64 \<Rightarrow> pmm" where
  "pmm_fresh n = \<lparr>m_bitmap = (\<lambda>i. 0), m_total_frames = n, m_free_frames = n, m_memory_start = 4096\<rparr>"

definition vm_fresh :: "u64 \<Rightarrow> vmm" where
  "vm_fresh n = \<lparr>vm_pmm = mark_frame 0 (pmm_fresh n), pt_mem = (\<lambda>_. 0), m_pml4 = 4096\<rparr>"

lemma pmm_fresh_free: "free_indices (pmm_fresh n) = {..<unat n}"
  by (auto simp: free_indices_def frame_used_def n_frames_def pmm_fresh_def)

lemma pmm_fresh_ok:
  assumes "unat n \<le> 2 ^ 19"
  shows "pmm_ok (pmm_fresh n)" "page_aligned (m_memory_start (pmm_fresh n))"
    "unat (m_memory_start (pmm_fresh n)) + n_frames (pmm_fresh n) * 4096 \<le> 2 ^ 48"
  using assms
  by (simp_all add: pmm_ok_def pmm_fresh_free n_frames_def BITMAP_WORDS_def page_aligned_def)
    (simp_all add: pmm_fresh_def)

lemma pmm_fresh_card: "unat n \<le> 2 ^ 19 \<Longrightarrow> card (pmm_free (pmm_fresh n)) = unat n"
  using card_pmm_free [OF pmm_fresh_ok(1)] by (simp add: pmm_fresh_def)

lemma zero_entries_zero: "zero_entries t n (\<lambda>_. 0) = (\<lambda>_. 0)"
  by (induction n) auto

lemma vm_fresh_ok:
  assumes n: "0 < unat n" "unat n \<le> 2 ^ 19"
  shows "vm_ok (vm_fresh n)" "card (pmm_free (vm_pmm (vm_fresh n))) = unat n - 1"
proof -
  have "Min {..<unat n} = 0" using n(1) by (intro Min_eqI) auto
  moreover have "{..<unat n} \<noteq> {}" using n(1) by (simp add: lessThan_empty_iff)
  ultimately have al: "allocate_frame (pmm_fresh n) = (4096, mark_frame 0 (pmm_fresh n))"
    using allocate_frame_eq [OF pmm_fresh_ok(1) [OF n(2)]]
    by (simp add: pmm_fresh_free frame_addr_def) (simp add: pmm_fresh_def)
  have ne: "pmm_free (pmm_fresh n) \<noteq> {}" using pmm_fresh_card [OF n(2)] n(1) by auto
  have eq: "vm_fresh n = (vm_fresh n)\<lparr>vm_pmm := mark_frame 0 (pmm_fresh n), m_pml4 := 4096,
      pt_mem := zero_entries 4096 512 (\<lambda>_. 0)\<rparr>"
    unfolding zero_entries_zero by (simp add: vm_fresh_def)
  note r = boot_root [OF pmm_fresh_ok [OF n(2)] ne al eq]
  show "vm_ok (vm_fresh n)" by (rule r(1))
  show "card (pmm_free (vm_pmm (vm_fresh n))) = unat n - 1"
    using r(4) pmm_fresh_card [OF n(2)] by (simp add: vm_fresh_def)
qed

lemma vm_fresh_table: "vm_table (vm_fresh n) q = (if q = [] then Some 4096 else None)"
  by (cases q) (simp_all add: vm_table_def vm_fresh_def next_table_def)

lemma vm_fresh_clear: "vm_clear (vm_fresh n) q"
  by (simp add: vm_clear_def path_clear_def vm_fresh_def)

lemma vm_fresh_leaf: "vm_leaf (vm_fresh n) va = None"
  by (simp add: vm_leaf_def vm_fresh_table leaf_path_def)

definition pmm_small :: pmm where "pmm_small = pmm_fresh 8"
definition vm_example :: vmm where "vm_example = vm_fresh 8"

lemma pmm_small_ok: "pmm_ok pmm_small" "page_aligned (m_memory_start pmm_small)"
  "unat (m_memory_start pmm_small) + n_frames pmm_small * 4096 \<le> 2 ^ 48"
  unfolding pmm_small_def by (rule pmm_fresh_ok, simp)+

lemma vm_example_ok: "vm_ok vm_example"
  unfolding vm_example_def by (rule vm_fresh_ok) simp_all

lemmas vm_example_clear = vm_fresh_clear [of 8, folded vm_example_def]
lemmas vm_example_leaf = vm_fresh_leaf [of 8, folded vm_example_def]
lemmas small_defs = vm_example_def vm_fresh_def pmm_small_def pmm_fresh_def

section \<open>Properties of paging\<close>

text \<open>
  the accessors of a page-table entry are independent fields. Setting a flag makes that flag
  read back and changes no other bit; setting the address keeps the flags, and for an entry
  that is not a huge page it reads back as the page number within 48 bits.
\<close>

theorem pte_fields_roundtrip:
  assumes "n < 9" "k < 9" "\<not> pte_huge_page v"
  shows "pte_flag n (pte_set_flag k x v) = (if n = k then x else pte_flag n v) \<and>
         (k \<noteq> 7 \<longrightarrow> pte_address (pte_set_flag k x v) = pte_address v) \<and>
         pte_flag n (set_address a v) = pte_flag n v \<and>
         pte_address (set_address a v) = a AND 0xFFFFFFFFF000"
proof (intro conjI impI)
  have h: "\<not> bit v 7" using assms(3) by (simp add: pte_huge_page_def pte_flag_bit)
  show "pte_flag n (pte_set_flag k x v) = (if n = k then x else pte_flag n v)"
    using assms by (simp add: pte_flag_bit bit_pte_set_flag)
  show "pte_address (pte_set_flag k x v) = pte_address v" if "k \<noteq> 7"
    using assms(2) that by (intro bit_word_eqI) (auto simp: bit_pte_address bit_pte_set_flag)
  show "pte_flag n (set_address a v) = pte_flag n v"
    using assms(1) by (simp add: pte_flag_bit bit_set_address)
  show "pte_address (set_address a v) = a AND 0xFFFFFFFFF000"
    using h by (intro bit_word_eqI)
      (auto simp: bit_pte_address bit_set_address pte_masks bit_simps)
qed

theorem pte_fields_roundtrip_witness:
  "pte_address (set_address 0x12345678 3) = 0x12345000 \<and> pte_flag 1 (set_address 0x12345678 3)"
  using pte_fields_roundtrip [of 1 0 3 True "0x12345678"]
  by (simp add: pte_huge_page_def pte_flag_def)

text \<open>
  C4: with three free frames and no huge page or dead entry on the way, \<open>map_page\<close> keeps the
  table tree sound, gives an unmapped page exactly the requested entry, never overrides an
  existing mapping, leaves every other page alone, and spends at most three frames.
\<close>

theorem map_page_correct:
  assumes "vm_ok s" "vm_usable s va" "3 \<le> unat (get_free_frames (vm_pmm s))"
  shows "vm_ok (map_page va pa w s) \<and>
         (\<forall>a. vm_leaf (map_page va pa w s) a =
            (if same_page a va \<and> vm_leaf s va = None then Some (leaf_entry (pa AND PAGE_MASK) w)
             else vm_leaf s a)) \<and>
         (\<forall>a. vm_usable s a \<longrightarrow> vm_usable (map_page va pa w s) a) \<and>
         unat (get_free_frames (vm_pmm s)) \<le> unat (get_free_frames (vm_pmm (map_page va pa w s))) + 3"
proof -
  have b: "vm_budget t = unat (get_free_frames (vm_pmm t))" if "vm_ok t" for t
    using that card_pmm_free [of "vm_pmm t"] by (simp add: vm_budget_def get_free_frames_def vm_ok_def)
  have 3: "3 \<le> vm_budget s" using assms(3) b [OF assms(1)] by simp
  note spec = assms(1,2) 3
  show ?thesis
    using space.inv_map [OF spec] space.pages_map [OF spec] space.usable_map [OF spec]
      space.budget_map [OF spec, of pa w] b [OF assms(1)] b [OF space.inv_map [OF spec]]
    by simp
qed

theorem map_page_correct_witness:
  "vm_leaf (map_page 0x40000000 0x5123 True vm_example) 0x40000FFF = Some (leaf_entry 0x5000 True)"
proof -
  have "3 \<le> unat (get_free_frames (vm_pmm vm_example))"
    by (simp add: small_defs get_free_frames_def)
  moreover have "same_page 0x40000FFF 0x40000000" by (simp add: same_page_iff)
  ultimately show ?thesis
    using map_page_correct [of vm_example "0x40000000" "0x5123" True]
    by (simp add: vm_example_ok vm_usable_def vm_example_clear vm_example_leaf PAGE_MASK_def)
qed

text \<open>
  C10: lookup after mapping and unmapping. A page that had no mapping is found at the physical
  page it was mapped to; unmapping it again restores every page's entry and lookup returns 0;
  looking up other pages gives what it gave before. The offset within the page never reaches
  the result.
\<close>

theorem map_lookup_unmap:
  assumes "vm_ok s" "vm_usable s va" "3 \<le> unat (get_free_frames (vm_pmm s))" "vm_leaf s va = None"
  shows "get_physical_address va (map_page va pa w s) = pa AND 0xFFFFFFFFF000 \<and>
         get_physical_address va (unmap_page va (map_page va pa w s)) = 0 \<and>
         vm_leaf (unmap_page va (map_page va pa w s)) = vm_leaf s \<and>
         (\<forall>a. vm_usable s a \<and> \<not> same_page a va \<longrightarrow>
            get_physical_address a (map_page va pa w s) = get_physical_address a s) \<and>
         (\<forall>a. get_physical_address a s = get_physical_address (a AND PAGE_MASK) s)"
proof -
  have "vm_budget s = unat (get_free_frames (vm_pmm s))"
    using card_pmm_free [of "vm_pmm s"] assms(1)
    by (simp add: vm_budget_def get_free_frames_def vm_ok_def)
  then have 3: "3 \<le> vm_budget s" using assms(3) by simp
  note spec = assms(1,2) 3
  note u = space.usable_map [OF spec] and i = space.inv_map [OF spec]
  have addr: "pte_address (leaf_entry (pa AND PAGE_MASK) w) AND PAGE_MASK = pa AND 0xFFFFFFFFF000"
    by (rule bit_word_eqI)
      (auto simp: leaf_entry_address PAGE_MASK_def pte_masks bit_simps)
  show ?thesis
  proof (intro conjI allI impI)
    show "get_physical_address va (map_page va pa w s) = pa AND 0xFFFFFFFFF000"
      using addr assms(4) by (simp add: space.lookup_pages [OF u [OF assms(2)]] space.pages_map [OF spec])
    show "get_physical_address va (unmap_page va (map_page va pa w s)) = 0"
      using space.usable_unmap [OF i u [OF assms(2)] u [OF assms(2)]]
        space.pages_unmap [OF i u [OF assms(2)]] by (simp add: space.lookup_pages)
    show "vm_leaf (unmap_page va (map_page va pa w s)) = vm_leaf s"
      by (rule space.unmap_map [OF spec assms(4)])
    show "get_physical_address a (map_page va pa w s) = get_physical_address a s"
      if "vm_usable s a \<and> \<not> same_page a va" for a
      using that space.lookup_pages [OF u] space.lookup_pages [of s a]
      by (simp add: space.pages_map [OF spec])
    show "get_physical_address a s = get_physical_address (a AND PAGE_MASK) s" for a
      by (simp add: get_physical_address_def and.assoc)
  qed
qed

theorem map_lookup_unmap_witness:
  "get_physical_address 0x40000000 (map_page 0x40000000 0x5123 True vm_example) = 0x5000"
  using map_lookup_unmap [of vm_example "0x40000000" "0x5123" True]
  by (simp add: vm_example_ok vm_usable_def vm_example_clear vm_example_leaf)
    (simp add: small_defs get_free_frames_def)

text \<open>
  mapping a whole range, as the clients do page by page: with three free frames per page every
  page of the range is mapped as asked, and all other pages keep their entries.
\<close>

theorem map_range_correct:
  assumes "vm_ok s" "3 * length ps \<le> unat (get_free_frames (vm_pmm s))"
    and "\<forall>(va, pa) \<in> set ps. vm_usable s va \<and> vm_leaf s va = None"
    and "pairwise (\<lambda>a b. \<not> same_page a b) (set (map fst ps))" "distinct (map fst ps)"
  shows "vm_ok (map_all map_page ps w s) \<and>
    (\<forall>(va, pa) \<in> set ps. vm_leaf (map_all map_page ps w s) va = Some (leaf_entry (pa AND PAGE_MASK) w)) \<and>
    (\<forall>a. (\<forall>va \<in> set (map fst ps). \<not> same_page a va) \<longrightarrow>
       vm_leaf (map_all map_page ps w s) a = vm_leaf s a)"
proof -
  have "vm_budget s = unat (get_free_frames (vm_pmm s))"
    using card_pmm_free [of "vm_pmm s"] assms(1)
    by (simp add: vm_budget_def get_free_frames_def vm_ok_def)
  then have "3 * length ps \<le> vm_budget s" using assms(2) by simp
  from space.map_all_spec [OF assms(1) this assms(3-5)] show ?thesis by simp
qed

theorem map_range_correct_witness:
  "vm_leaf (map_all map_page [(0x40000000, 0x5000), (0x40001000, 0x6000)] True vm_example) 0x40001000
     = Some (leaf_entry 0x6000 True)"
proof -
  have "pairwise (\<lambda>a b. \<not> same_page a b) {0x40000000, 0x40001000}"
    by (simp add: pairwise_insert same_page_iff)
  then show ?thesis
    using map_range_correct [of vm_example "[(0x40000000, 0x5000), (0x40001000, 0x6000)]" True]
    by (simp add: vm_example_ok vm_usable_def vm_example_clear vm_example_leaf PAGE_MASK_def)
      (simp add: small_defs get_free_frames_def)
qed

text \<open>
  the boot tables. With four free frames, \<open>initialize\<close> builds a sound tree of four tables in
  which the processor translates every address below 16 MiB to itself, through writable
  2 MiB pages. The final \<^verbatim>\<open>map_page(0xB8000, 0xB8000)\<close> changes nothing: the walk takes the 2 MiB
  page at address 0 for a missing table, and no 4 KiB entry for the VGA page exists.
\<close>

theorem vm_initialize_identity:
  assumes "pmm_ok p" "page_aligned (m_memory_start p)"
      "unat (m_memory_start p) + n_frames p * 4096 \<le> 2 ^ 48" "4 \<le> unat (get_free_frames p)"
    and "vm_pmm s0 = p"
  shows "vm_ok (vm_initialize s0) \<and> m_pml4 (vm_initialize s0) \<noteq> nullptr \<and>
         unat (get_free_frames p) = unat (get_free_frames (vm_pmm (vm_initialize s0))) + 4 \<and>
         (\<forall>va. va < 0x1000000 \<longrightarrow> translate (vm_initialize s0) va = Some va) \<and>
         vm_leaf (vm_initialize s0) 0xB8000 = None"
proof -
  have "4 \<le> card (pmm_free p)"
    using assms(4) card_pmm_free [OF assms(1)] by (simp add: get_free_frames_def)
  from vm_initialize_tables [OF assms(1-3) this assms(5)] obtain s pd where
    s: "vm_initialize s0 = s" and ok: "vm_ok s" and nz: "m_pml4 s \<noteq> 0"
    and c: "card (pmm_free p) = card (pmm_free (vm_pmm s)) + 4" and t: "vm_table s [0, 0] = Some pd"
    and e: "\<And>j. j < 512 \<Longrightarrow> pt_mem s (entry_at pd j) = (if j < 8 then huge_entry j else 0)"
    by metis
  have c': "unat (get_free_frames p) = unat (get_free_frames (vm_pmm s)) + 4"
    using c card_pmm_free [OF assms(1)] card_pmm_free [of "vm_pmm s"] ok
    by (simp add: get_free_frames_def vm_ok_def)
  have tr: "translate s va = Some va" if "va < 0x1000000" for va
    using low_index [OF that] e [of "pd_index va"] huge_translation [OF that] t
    by (simp add: translate_def)
  have "leaf_path 0xB8000 = [0, 0] @ [0]"
    using low_index [of "0xB8000"] by (simp add: leaf_path_def)
  then have "vm_table s (leaf_path 0xB8000) = None"
    using t e [of 0] unfolding vm_table_def by (simp only: table_at_snoc) (simp add: next_table_def)
  then have "vm_leaf s 0xB8000 = None" by (simp add: vm_leaf_def)
  with ok nz c' tr show ?thesis by (simp add: s)
qed

theorem vm_initialize_identity_witness:
  "translate (vm_initialize (vm_example\<lparr>vm_pmm := pmm_small\<rparr>)) 0xB8123 = Some 0xB8123"
  using vm_initialize_identity [OF pmm_small_ok, of "vm_example\<lparr>vm_pmm := pmm_small\<rparr>"]
  by (simp add: small_defs get_free_frames_def)

text \<open>
  out of frames. When the pool is empty and the root entry is missing, \<open>map_page\<close> clears the
  4 KiB of memory at address 0 and leaves the root entry present with address 0; from then on no
  page below that entry can be mapped, however many frames become free.
\<close>

theorem map_page_out_of_frames:
  fixes s va pa w
  defines "e \<equiv> entry_at (m_pml4 s) (pml4_index va)" and "s' \<equiv> map_page va pa w s"
  assumes "get_free_frames (vm_pmm s) = 0" "pt_mem s e = 0"
  shows "pte_present (pt_mem s' e) \<and> pte_address (pt_mem s' e) = nullptr \<and>
         (\<forall>i < 512. entry_at 0 i \<noteq> e \<longrightarrow> pt_mem s' (entry_at 0 i) = 0) \<and>
         (\<forall>p b v. pml4_index b = pml4_index va \<longrightarrow> map_page b p v (s'\<lparr>vm_pmm := q\<rparr>) = s'\<lparr>vm_pmm := q\<rparr>)"
proof -
  let ?m = "zero_entries 0 512 (pt_mem s)"
  have cr: "create_page_table s = (0, s\<lparr>pt_mem := ?m\<rparr>)"
    using assms(3) by (simp add: create_page_table_def allocate_frame_def get_free_frames_def
        ENTRIES_PER_TABLE_def)
  have "?m e = 0"
  proof (cases "\<exists>i < 512. e = entry_at 0 i")
    case True
    then show ?thesis by (auto simp: zero_entries_in)
  next
    case False
    then show ?thesis using assms(4) by (subst zero_entries_notin) auto
  qed
  then have "get_next_level (m_pml4 s) (pml4_index va) True s =
      (0, s\<lparr>pt_mem := ?m(e := table_entry 0)\<rparr>)"
    using get_next_level_fresh [of s "m_pml4 s" "pml4_index va", OF _ cr] assms(4)
    by (simp add: e_def table_entry_leaf leaf_entry_address)
  then have s': "s' = s\<lparr>pt_mem := ?m(e := table_entry 0)\<rparr>"
    by (simp add: s'_def map_page_def)
  have dead: "get_next_level (m_pml4 s) (pml4_index va) True (s'\<lparr>vm_pmm := q\<rparr>) = (0, s'\<lparr>vm_pmm := q\<rparr>)"
    by (simp add: get_next_level_def e_def [symmetric] s' table_entry_leaf leaf_entry_address)
  then have "map_page b p v (s'\<lparr>vm_pmm := q\<rparr>) = s'\<lparr>vm_pmm := q\<rparr>" if "pml4_index b = pml4_index va" for b p v
    using that by (simp add: map_page_def s')
  then show ?thesis
    by (simp add: s' table_entry_leaf leaf_entry_address zero_entries_in)
qed

theorem map_page_out_of_frames_witness:
  "pte_present (pt_mem (map_page 0x40000000 0x5000 True
      (vm_example\<lparr>vm_pmm := pmm_small\<lparr>m_free_frames := 0\<rparr>\<rparr>)) 4096)"
proof -
  have "pml4_index 0x40000000 = 0" by (simp add: pml4_index_def)
  then show ?thesis
    using map_page_out_of_frames [of "vm_example\<lparr>vm_pmm := pmm_small\<lparr>m_free_frames := 0\<rparr>\<rparr>" "0x40000000"]
    by (simp add: small_defs get_free_frames_def entry_at_def)
qed

text \<open>
  \<open>map_page\<close> does not look at the huge-page flag. For an address in one of the 2 MiB pages at
  2 to 16 MiB it takes the page's data for a last-level table and writes the entry into it.
\<close>

theorem map_page_into_huge_page:
  assumes "vm_table s [pml4_index va, pdpt_index va] = Some pd" "0 < i" "i < 8"
    and "pt_mem s (entry_at pd (pd_index va)) = huge_entry i"
    and "\<not> pte_present (pt_mem s (entry_at (of_nat i * 0x200000) (pt_index va)))"
  shows "map_page va pa w s =
    set_entry (of_nat i * 0x200000) (pt_index va)
      (\<lambda>v. set_user False (set_writable w (set_present True (set_address (pa AND PAGE_MASK) v)))) s"
proof -
  obtain t where t: "next_table (pt_mem s) (m_pml4 s) (pml4_index va) = Some t"
    and pd: "next_table (pt_mem s) t (pdpt_index va) = Some pd"
    using assms(1) by (auto simp: vm_table_def split: option.splits)
  have "unat (of_nat i * 0x200000 :: u64) = i * 0x200000"
    using assms(3) by (subst unat_mult_u64) (simp_all add: unat_of_nat_u64)
  then have nz: "(of_nat i * 0x200000 :: u64) \<noteq> 0"
    using assms(2) by (auto simp: unat_eq_zero [symmetric] simp del: unat_eq_zero)
  have "get_next_level pd (pd_index va) True s = (of_nat i * 0x200000, s)"
    using assms(3,4) huge_entry_address [of i] by (simp add: get_next_level_def)
  with get_next_level_present(1) [OF t, of True] get_next_level_present(1) [OF pd, of True]
    get_next_level_present(2) [OF t] get_next_level_present(2) [OF pd] nz assms(5)
  show ?thesis by (simp add: map_page_def set_entry_def Let_def)
qed

text \<open>A tree with one 2 MiB page, at 2 MiB.\<close>

definition vm_huge_example :: vmm where
  "vm_huge_example = vm_example\<lparr>pt_mem := (\<lambda>_. 0)(4096 := table_entry 8192, 8192 := table_entry 12288,
     12296 := huge_entry 1)\<rparr>"

theorem map_page_into_huge_page_witness:
  "pte_present (pt_mem (map_page 0x200000 0x5000 True vm_huge_example) 0x200000)"
proof -
  have idx: "pml4_index 0x200000 = 0" "pdpt_index 0x200000 = 0" "pd_index 0x200000 = 1"
    "pt_index 0x200000 = 0"
    by (simp_all add: pml4_index_def pdpt_index_def pd_index_def pt_index_def)
  have a: "pte_address (table_entry 8192) = 8192" "pte_address (table_entry 12288) = 12288"
    by (simp_all add: table_entry_leaf leaf_entry_address)
  have "vm_table vm_huge_example [0, 0] = Some 12288"
    by (simp add: vm_table_def vm_huge_example_def small_defs next_table_def entry_at_def
        table_entry_leaf a [unfolded table_entry_leaf])
  then show ?thesis
    using map_page_into_huge_page [of vm_huge_example "0x200000" 12288 1 "0x5000" True]
    by (simp add: idx vm_huge_example_def small_defs entry_at_def set_entry_def
        set_user_def set_writable_def set_present_def pte_present_def pte_flag_bit bit_pte_set_flag)
qed

section \<open>Page numbers\<close>

text \<open>Pages as numbers modulo the 36 bits of page number the walk looks at.\<close>

definition page_no :: "u64 \<Rightarrow> nat" where
  "page_no a = (unat a div 4096) mod 2 ^ 36"

lemma same_page_no: "same_page a b \<longleftrightarrow> page_no a = page_no b"
proof -
  have m: "bit (0xFFFFFFFFF000 :: u64) n \<longleftrightarrow> 12 \<le> n \<and> n < 48" for n
    unfolding pte_masks by (auto simp: bit_simps)
  have p: "page_no x = unat (drop_bit 12 x AND mask 36)" for x
    by (simp add: page_no_def unat_and_mask unat_drop_bit)
  have b: "bit (mask 36 :: u64) n \<longleftrightarrow> n < 36" for n by (simp add: bit_mask_iff) linarith
  have "page_no a = page_no b \<longleftrightarrow> drop_bit 12 a AND mask 36 = drop_bit 12 b AND mask 36"
    by (simp only: p word_unat_eq_iff)
  also have "\<dots> \<longleftrightarrow> (\<forall>n < 36. bit a (12 + n) \<longleftrightarrow> bit b (12 + n))"
    by (simp only: eq_and_iff b bit_drop_bit_eq comp_def)
  also have "\<dots> \<longleftrightarrow> (\<forall>n. 12 \<le> n \<and> n < 48 \<longrightarrow> (bit a n \<longleftrightarrow> bit b n))"
  proof
    assume l: "\<forall>n < 36. bit a (12 + n) \<longleftrightarrow> bit b (12 + n)"
    show "\<forall>n. 12 \<le> n \<and> n < 48 \<longrightarrow> (bit a n \<longleftrightarrow> bit b n)"
    proof (intro allI impI)
      fix n :: nat assume "12 \<le> n \<and> n < 48"
      then have "n - 12 < 36" "12 + (n - 12) = n" by linarith+
      then show "bit a n \<longleftrightarrow> bit b n" using l by metis
    qed
  qed simp
  also have "\<dots> \<longleftrightarrow> same_page a b" by (simp only: same_page_iff eq_and_iff m)
  finally show ?thesis by blast
qed

lemma page_no_add: "page_no (a + of_nat k * 4096) = (page_no a + k) mod 2 ^ 36"
proof -
  have "unat (of_nat k * 4096 :: u64) = (k * 4096) mod 2 ^ 64"
  proof -
    have "(of_nat k * 4096 :: u64) = of_nat (k * 4096)" by simp
    then show ?thesis by (simp only: unat_of_nat) (simp add: take_bit_eq_mod)
  qed
  then have u: "unat (a + of_nat k * 4096) = (unat a + k * 4096) mod 2 ^ 64"
    by (simp add: unat_word_ariths mod_simps)
  have d: "(x mod 2 ^ 64) div 4096 mod 2 ^ 36 = (x div 4096) mod 2 ^ 36" for x :: nat
  proof -
    have "x mod (4096 * 2 ^ 52) = 4096 * (x div 4096 mod 2 ^ 52) + x mod 4096" by (rule mod_mult2_eq)
    then have "(x mod 2 ^ 64) div 4096 = x div 4096 mod 2 ^ 52" by simp
    then show ?thesis by (simp add: mod_mod_cancel)
  qed
  show ?thesis
    unfolding page_no_def u d by (simp add: mod_simps add.commute)
qed

lemma consecutive_pages:
  assumes "k < l" "l < 2 ^ 36"
  shows "\<not> same_page (a + of_nat k * 4096) (a + of_nat l * 4096)"
proof
  assume "same_page (a + of_nat k * 4096) (a + of_nat l * 4096)"
  then have "(page_no a + k) mod 2 ^ 36 = (page_no a + l) mod 2 ^ 36"
    by (simp only: same_page_no page_no_add)
  then have "2 ^ 36 dvd (page_no a + l) - (page_no a + k)"
    using assms(1) by (subst mod_eq_dvd_iff_nat [symmetric]) simp_all
  then have "2 ^ 36 dvd l - k" by simp
  moreover have "0 < l - k" "l - k < 2 ^ 36" using assms by auto
  ultimately show False using nat_dvd_not_less by blast
qed

end
