(* ===== verification/Heap_Allocator.thy ===== *)
theory Heap_Allocator
  imports Physical_Memory "HOL-Library.Monad_Syntax"
begin

text \<open>
  The kernel heap, \<open>memory/heap.cpp\<close>: a first-fit allocator over a list of block headers that
  tile the heap region, with splitting on allocation and merging on release.

  \<open>hp_mem\<close> holds the header found at an address; \<^verbatim>\<open>sizeof(HeapBlock)\<close> is 24 (a \<open>size_t\<close>, a
  \<open>bool\<close> with its padding, a pointer). The list may be cyclic in a damaged heap, so the loops
  over it are partial functions whose value \<open>None\<close> is a loop that never ends; the theorems show
  that they return on every heap that satisfies the representation \<open>heap_rep\<close>.
\<close>

section \<open>State and operations\<close>

record heap_block =
  blk_size :: u64
  blk_free :: bool
  blk_next :: u64

record heap =
  hp_mem :: "u64 \<Rightarrow> heap_block"
  hp_pmm :: pmm
  m_first_block :: u64
  m_total_size :: u64
  m_used_memory :: u64

definition sizeof_HeapBlock :: u64 where
  "sizeof_HeapBlock = 24"

definition hp_update :: "u64 \<Rightarrow> (heap_block \<Rightarrow> heap_block) \<Rightarrow> heap \<Rightarrow> heap" where
  "hp_update a f s = s\<lparr>hp_mem := (hp_mem s)(a := f (hp_mem s a))\<rparr>"

definition heap_initialize :: "u64 \<Rightarrow> u64 \<Rightarrow> heap \<Rightarrow> heap" where
  "heap_initialize heap_start heap_size s =
     (hp_update heap_start
        (\<lambda>_. \<lparr>blk_size = heap_size - sizeof_HeapBlock, blk_free = True, blk_next = nullptr\<rparr>)
        (s\<lparr>m_first_block := heap_start\<rparr>))
     \<lparr>m_total_size := heap_size, m_used_memory := sizeof_HeapBlock\<rparr>"

partial_function (option) find_from :: "(u64 \<Rightarrow> heap_block) \<Rightarrow> u64 \<Rightarrow> u64 \<Rightarrow> u64 option" where
  [code]: "find_from mem sz current =
     (if current = nullptr then Some nullptr
      else if blk_free (mem current) \<and> sz \<le> blk_size (mem current) then Some current
      else find_from mem sz (blk_next (mem current)))"

definition find_free_block :: "u64 \<Rightarrow> heap \<Rightarrow> u64 option" where
  "find_free_block sz s = find_from (hp_mem s) sz (m_first_block s)"

definition split_block :: "u64 \<Rightarrow> u64 \<Rightarrow> heap \<Rightarrow> heap" where
  "split_block block sz s =
    (let b = hp_mem s block
     in if sz + sizeof_HeapBlock + 32 \<le> blk_size b then
          let new_block = block + sizeof_HeapBlock + sz;
              s1 = hp_update new_block
                     (\<lambda>_. \<lparr>blk_size = blk_size b - sz - sizeof_HeapBlock, blk_free = True,
                          blk_next = blk_next b\<rparr>) s;
              s2 = hp_update block (\<lambda>c. c\<lparr>blk_size := sz, blk_next := new_block\<rparr>) s1
          in s2\<lparr>m_used_memory := m_used_memory s2 + sizeof_HeapBlock\<rparr>
        else s)"

text \<open>
  The frame loop of \<open>allocate\<close>: on the first failure the frames at \<open>block + j * PAGE_SIZE\<close> are
  released, for every \<open>j\<close> below the number of frames taken so far.
\<close>

definition free_pages :: "u64 \<Rightarrow> nat \<Rightarrow> pmm \<Rightarrow> pmm" where
  "free_pages block n p = fold (\<lambda>j. free_frame (block + of_nat j * PAGE_SIZE)) [0..<n] p"

function alloc_pages :: "u64 \<Rightarrow> nat \<Rightarrow> nat \<Rightarrow> pmm \<Rightarrow> bool \<times> pmm" where
  "alloc_pages block i n p =
     (if i < n then
        let (frame, p') = allocate_frame p
        in if frame = nullptr then (False, free_pages block i p')
           else alloc_pages block (Suc i) n p'
      else (True, p))"
  by pat_completeness auto
termination
  by (relation "measure (\<lambda>(b, i, n, p). n - i)") auto

declare alloc_pages.simps [simp del]

definition num_pages :: "u64 \<Rightarrow> nat" where
  "num_pages sz = unat ((sz + PAGE_SIZE - 1) div PAGE_SIZE)"

definition round_up :: "u64 \<Rightarrow> u64" where
  "round_up sz = (sz + 15) AND NOT 15"

definition heap_allocate :: "u64 \<Rightarrow> heap \<Rightarrow> (u64 \<times> heap) option" where
  "heap_allocate sz0 s =
    (if sz0 = 0 then Some (nullptr, s)
     else
       let sz = round_up sz0
       in do {
            block \<leftarrow> find_free_block sz s;
            if block = nullptr then Some (nullptr, s)
            else
              let s1 = split_block block sz s;
                  s2 = hp_update block (\<lambda>b. b\<lparr>blk_free := False\<rparr>) s1;
                  s3 = s2\<lparr>m_used_memory := m_used_memory s2 + sz\<rparr>;
                  (done, p) = alloc_pages block 0 (num_pages sz) (hp_pmm s3);
                  s4 = s3\<lparr>hp_pmm := p\<rparr>
              in Some (if done then block + sizeof_HeapBlock else nullptr, s4)
          })"

partial_function (option) merge_from :: "u64 \<Rightarrow> heap \<Rightarrow> heap option" where
  [code]: "merge_from current s =
     (if current = nullptr \<or> blk_next (hp_mem s current) = nullptr then Some s
      else
        let c = hp_mem s current; n = hp_mem s (blk_next c)
        in if blk_free c \<and> blk_free n
           then merge_from current
                  ((hp_update current (\<lambda>b. b\<lparr>blk_size := blk_size b + (sizeof_HeapBlock + blk_size n),
                       blk_next := blk_next n\<rparr>) s)
                   \<lparr>m_used_memory := m_used_memory s - sizeof_HeapBlock\<rparr>)
           else merge_from (blk_next c) s)"

definition merge_free_blocks :: "heap \<Rightarrow> heap option" where
  "merge_free_blocks s = merge_from (m_first_block s) s"

definition heap_free :: "u64 \<Rightarrow> heap \<Rightarrow> heap option" where
  "heap_free ptr s =
    (if ptr = nullptr then Some s
     else
       let block = ptr - sizeof_HeapBlock;
           s1 = s\<lparr>hp_pmm := free_pages block (num_pages (blk_size (hp_mem s block))) (hp_pmm s)\<rparr>;
           s2 = hp_update block (\<lambda>b. b\<lparr>blk_free := True\<rparr>) s1;
           s3 = s2\<lparr>m_used_memory := m_used_memory s2 - blk_size (hp_mem s2 block)\<rparr>
       in merge_free_blocks s3)"

definition get_free_memory :: "heap \<Rightarrow> u64" where
  "get_free_memory s = m_total_size s - m_used_memory s"

definition get_used_memory :: "heap \<Rightarrow> u64" where
  "get_used_memory s = m_used_memory s"

section \<open>The heap as a list of blocks\<close>

text \<open>
  A block seen from outside: address of its header, payload size, free flag. \<open>seg\<close> relates a
  stretch of the linked list to such a list, \<open>tiles\<close> says that the blocks follow each other
  without gap from one address to another.
\<close>

type_synonym blk = "u64 \<times> u64 \<times> bool"

fun seg :: "(u64 \<Rightarrow> heap_block) \<Rightarrow> u64 \<Rightarrow> blk list \<Rightarrow> u64 \<Rightarrow> bool" where
  "seg mem p [] q \<longleftrightarrow> p = q"
| "seg mem p ((a, z, f) # L) q \<longleftrightarrow>
     p = a \<and> a \<noteq> nullptr \<and> blk_size (mem a) = z \<and> blk_free (mem a) = f \<and> seg mem (blk_next (mem a)) L q"

fun tiles :: "nat \<Rightarrow> blk list \<Rightarrow> nat \<Rightarrow> bool" where
  "tiles b [] e \<longleftrightarrow> b = e"
| "tiles b ((a, z, f) # L) e \<longleftrightarrow> unat a = b \<and> tiles (b + 24 + unat z) L e"

definition heap_rep :: "heap \<Rightarrow> blk list \<Rightarrow> bool" where
  "heap_rep s L \<longleftrightarrow>
     seg (hp_mem s) (m_first_block s) L nullptr \<and> L \<noteq> [] \<and> 0 < unat (m_first_block s) \<and>
     tiles (unat (m_first_block s)) L (unat (m_first_block s) + unat (m_total_size s)) \<and>
     unat (m_first_block s) + unat (m_total_size s) < 2 ^ 63"

abbreviation addrs :: "blk list \<Rightarrow> u64 set" where
  "addrs L \<equiv> fst ` set L"

lemma seg_append: "seg mem p (K @ L) q \<longleftrightarrow> (\<exists>r. seg mem p K r \<and> seg mem r L q)"
  by (induction K arbitrary: p) auto

lemma seg_start: "seg mem p ((a, z, f) # L) q \<Longrightarrow> p = a"
  by simp

lemma seg_cong: "(\<And>a. a \<in> addrs L \<Longrightarrow> mem a = mem' a) \<Longrightarrow> seg mem p L q \<longleftrightarrow> seg mem' p L q"
proof (induction L arbitrary: p)
  case (Cons b L)
  then show ?case by (cases b) auto
qed simp

lemma seg_upd_notin [simp]: "a \<notin> addrs L \<Longrightarrow> seg (mem(a := v)) p L q \<longleftrightarrow> seg mem p L q"
  by (rule seg_cong) auto

lemma tiles_append: "tiles b (K @ L) e \<longleftrightarrow> (\<exists>m. tiles b K m \<and> tiles m L e)"
proof (induction K arbitrary: b)
  case (Cons x K)
  then show ?case by (cases x) auto
qed simp

lemma tiles_bounds: "tiles b L e \<Longrightarrow> b \<le> e"
proof (induction L arbitrary: b)
  case (Cons x L)
  then show ?case by (cases x) fastforce
qed simp

lemma tiles_mem: "tiles b L e \<Longrightarrow> (a, z, f) \<in> set L \<Longrightarrow> b \<le> unat a \<and> unat a + 24 + unat z \<le> e"
proof (induction L arbitrary: b)
  case (Cons x L)
  obtain a' z' f' where x: "x = (a', z', f')" by (cases x)
  with Cons.prems have t: "unat a' = b" "tiles (b + 24 + unat z') L e" by simp_all
  show ?case
  proof (cases "(a, z, f) \<in> set L")
    case True
    with Cons.IH [OF t(2)] show ?thesis by simp
  next
    case False
    with Cons.prems x t tiles_bounds [OF t(2)] show ?thesis by auto
  qed
qed simp

lemma tiles_distinct: "tiles b L e \<Longrightarrow> distinct (map fst L)"
proof (induction L arbitrary: b)
  case (Cons x L)
  obtain a z f where x: "x = (a, z, f)" by (cases x)
  with Cons.prems have t: "unat a = b" "tiles (b + 24 + unat z) L e" by simp_all
  have "a \<notin> fst ` set L"
  proof
    assume "a \<in> fst ` set L"
    then obtain y where "(a, y) \<in> set L" by force
    then have "b + 24 + unat z \<le> unat a"
      using tiles_mem [OF t(2), of a "fst y" "snd y"] by simp
    with t(1) show False by simp
  qed
  with Cons.IH [OF t(2)] x show ?case by simp
qed simp

text \<open>Two blocks of a tiled region do not overlap.\<close>

lemma tiles_disjoint:
  "tiles b L e \<Longrightarrow> (a, z, f) \<in> set L \<Longrightarrow> (a', z', f') \<in> set L \<Longrightarrow> a \<noteq> a' \<Longrightarrow>
     unat a + 24 + unat z \<le> unat a' \<or> unat a' + 24 + unat z' \<le> unat a"
proof (induction L arbitrary: b)
  case (Cons x L)
  obtain c y g where x: "x = (c, y, g)" by (cases x)
  with Cons.prems have t: "unat c = b" "tiles (b + 24 + unat y) L e" by simp_all
  from Cons.prems(2,3) consider (both) "(a, z, f) \<in> set L" "(a', z', f') \<in> set L"
    | (one) "(a, z, f) = x" "(a', z', f') \<in> set L" | (two) "(a, z, f) \<in> set L" "(a', z', f') = x"
    | (eq) "(a, z, f) = x" "(a', z', f') = x"
    by auto
  then show ?case
  proof cases
    case both
    show ?thesis by (rule Cons.IH [OF t(2) both Cons.prems(4)])
  next
    case one
    with x t tiles_mem [OF t(2) one(2)] show ?thesis by auto
  next
    case two
    with x t tiles_mem [OF t(2) two(1)] show ?thesis by auto
  qed (use Cons.prems(4) in auto)
qed simp

lemma seg_unique: "seg mem p K 0 \<Longrightarrow> seg mem p L 0 \<Longrightarrow> K = L"
proof (induction K arbitrary: p L)
  case Nil
  then show ?case by (cases L) auto
next
  case (Cons x K)
  then show ?case by (cases x; cases L) auto
qed

lemma heap_rep_unique: "heap_rep s K \<Longrightarrow> heap_rep s L \<Longrightarrow> K = L"
  by (auto simp: heap_rep_def intro: seg_unique)

section \<open>Search\<close>

definition fits :: "u64 \<Rightarrow> blk \<Rightarrow> bool" where
  "fits sz b \<longleftrightarrow> snd (snd b) \<and> sz \<le> fst (snd b)"

lemma find_from_seg:
  "seg mem p L 0 \<Longrightarrow>
     find_from mem sz p = Some (case find (fits sz) L of None \<Rightarrow> 0 | Some b \<Rightarrow> fst b)"
proof (induction L arbitrary: p)
  case Nil
  then show ?case by (simp add: find_from.simps)
next
  case (Cons x L)
  obtain a z f where x: "x = (a, z, f)" by (cases x)
  with Cons.prems have p: "p = a" "a \<noteq> 0" "blk_size (mem a) = z" "blk_free (mem a) = f"
    "seg mem (blk_next (mem a)) L 0" by simp_all
  show ?case
    using p Cons.IH [OF p(5)] by (auto simp: x find_from.simps [of mem sz a] fits_def)
qed

section \<open>Splitting and marking\<close>

definition place :: "u64 \<Rightarrow> blk \<Rightarrow> blk list" where
  "place sz b =
    (let (a, z, f) = b
     in if unat sz + 56 \<le> unat z then [(a, sz, False), (a + 24 + sz, z - sz - 24, True)]
        else [(a, z, False)])"

lemma heap_rep_split:
  assumes "heap_rep s (K @ (a, z, f) # M)"
  obtains m where "seg (hp_mem s) (m_first_block s) K a" "seg (hp_mem s) (blk_next (hp_mem s a)) M 0"
    "hp_mem s a = \<lparr>blk_size = z, blk_free = f, blk_next = blk_next (hp_mem s a)\<rparr>"
    "tiles (unat (m_first_block s)) K (unat a)"
    "tiles (unat a + 24 + unat z) M (unat (m_first_block s) + unat (m_total_size s))"
    "unat a + 24 + unat z < 2 ^ 63" "a \<noteq> 0" "a \<notin> addrs K" "a \<notin> addrs M"
proof -
  have sg: "seg (hp_mem s) (m_first_block s) (K @ (a, z, f) # M) 0"
    and t: "tiles (unat (m_first_block s)) (K @ (a, z, f) # M) (unat (m_first_block s) + unat (m_total_size s))"
    and b: "unat (m_first_block s) + unat (m_total_size s) < 2 ^ 63"
    using assms by (simp_all add: heap_rep_def)
  have "distinct (map fst (K @ (a, z, f) # M))" by (rule tiles_distinct [OF t])
  then have "a \<notin> addrs K" "a \<notin> addrs M" by auto
  moreover have "unat a + 24 + unat z < 2 ^ 63"
    using tiles_mem [OF t, of a z f] b by simp
  ultimately show thesis
    using sg t that by (auto simp: seg_append tiles_append)
qed

lemma split_size:
  assumes "unat a + 24 + unat z < 2 ^ 63" "sz \<le> (z :: u64)"
  shows "sz + sizeof_HeapBlock + 32 \<le> z \<longleftrightarrow> unat sz + 56 \<le> unat z"
    "unat (a + sizeof_HeapBlock + sz) = unat (a :: u64) + 24 + unat sz"
    "unat sz + 56 \<le> unat z \<Longrightarrow> unat (z - sz - sizeof_HeapBlock) = unat z - unat sz - 24"
proof -
  have sz: "unat sz \<le> unat z" using assms(2) by (simp add: word_le_nat_alt)
  have "unat (sz + 24) = unat sz + 24"
    using sz assms(1) by (subst unat_plus_u64) simp_all
  then have "unat (sz + 24 + 32) = unat sz + 24 + 32"
    using sz assms(1) by (subst unat_plus_u64) simp_all
  then show "sz + sizeof_HeapBlock + 32 \<le> z \<longleftrightarrow> unat sz + 56 \<le> unat z"
    by (simp add: sizeof_HeapBlock_def word_le_nat_alt add.commute)
  have "unat (a + 24) = unat a + 24" using assms(1) by (subst unat_plus_u64) simp_all
  then show "unat (a + sizeof_HeapBlock + sz) = unat a + 24 + unat sz"
    unfolding sizeof_HeapBlock_def using sz assms(1) by (subst unat_plus_u64) simp_all
  show "unat (z - sz - sizeof_HeapBlock) = unat z - unat sz - 24" if "unat sz + 56 \<le> unat z"
  proof -
    have d: "unat (z - sz) = unat z - unat sz" by (rule unat_minus_u64 [OF assms(2)])
    then have "24 \<le> z - sz" using that by (simp add: word_le_nat_alt)
    then show ?thesis by (simp add: sizeof_HeapBlock_def unat_minus_u64 d)
  qed
qed

lemma split_and_mark:
  assumes rep: "heap_rep s (K @ (a, z, True) # M)" and sz: "sz \<le> z"
  defines "s' \<equiv> hp_update a (\<lambda>b. b\<lparr>blk_free := False\<rparr>) (split_block a sz s)"
  shows "heap_rep s' (K @ place sz (a, z, True) @ M)"
    and "m_first_block s' = m_first_block s" "m_total_size s' = m_total_size s" "hp_pmm s' = hp_pmm s"
    and "m_used_memory s' = m_used_memory s + (if unat sz + 56 \<le> unat z then 24 else 0)"
proof -
  from rep show "heap_rep s' (K @ place sz (a, z, True) @ M)"
  proof (rule heap_rep_split)
    assume h: "seg (hp_mem s) (m_first_block s) K a" "seg (hp_mem s) (blk_next (hp_mem s a)) M 0"
      "hp_mem s a = \<lparr>blk_size = z, blk_free = True, blk_next = blk_next (hp_mem s a)\<rparr>"
      "tiles (unat (m_first_block s)) K (unat a)"
      "tiles (unat a + 24 + unat z) M (unat (m_first_block s) + unat (m_total_size s))"
      "unat a + 24 + unat z < 2 ^ 63" "a \<noteq> 0" "a \<notin> addrs K" "a \<notin> addrs M"
    note sp = split_size [OF h(6) sz]
    have a: "blk_size (hp_mem s a) = z" "blk_free (hp_mem s a)" by (subst h(3), simp)+
    have fb: "0 < unat (m_first_block s)" "unat (m_first_block s) + unat (m_total_size s) < 2 ^ 63"
      using rep by (simp_all add: heap_rep_def)
    show ?thesis
    proof (cases "unat sz + 56 \<le> unat z")
      case False
      then have "split_block a sz s = s" by (simp add: split_block_def a sp)
      with False h a fb show ?thesis
        by (auto simp: heap_rep_def s'_def hp_update_def place_def seg_append tiles_append
            intro!: exI [of _ a] exI [of _ "unat a"])
    next
        case True
      define n where "n = a + 24 + sz"
      define w where "w = z - sz - 24"
      have n: "unat n = unat a + 24 + unat sz" and w: "unat w = unat z - unat sz - 24"
        using sp(2) sp(3) [OF True] by (simp_all add: n_def w_def sizeof_HeapBlock_def)
      then have nz: "n \<noteq> 0" "n \<noteq> a" by (auto simp: unat_eq_0)
      have nK: "n \<notin> addrs K" and nM: "n \<notin> addrs M"
        using tiles_mem [OF h(4)] tiles_mem [OF h(5)] n True by fastforce+
      have upd: "hp_mem s' = (hp_mem s)(n := \<lparr>blk_size = w, blk_free = True, blk_next = blk_next (hp_mem s a)\<rparr>,
          a := \<lparr>blk_size = sz, blk_free = False, blk_next = n\<rparr>)"
        using nz iffD2 [OF sp(1) True]
        by (auto simp: s'_def split_block_def Let_def a(1) hp_update_def n_def w_def
            sizeof_HeapBlock_def fun_eq_iff intro: heap_block.equality)
      have fx: "m_first_block s' = m_first_block s" "m_total_size s' = m_total_size s"
        by (simp_all add: s'_def split_block_def Let_def hp_update_def)
      have "seg (hp_mem s') (m_first_block s) (K @ [(a, sz, False), (n, w, True)] @ M) 0"
        unfolding upd using h nz nK nM by (auto simp: seg_append intro!: exI [of _ a])
      moreover have "tiles (unat a) ([(a, sz, False), (n, w, True)] @ M)
          (unat (m_first_block s) + unat (m_total_size s))"
        using h(5) n w True by (simp add: ac_simps)
      then have "tiles (unat (m_first_block s)) (K @ [(a, sz, False), (n, w, True)] @ M)
          (unat (m_first_block s) + unat (m_total_size s))"
        using h(4) unfolding tiles_append by blast
      ultimately show ?thesis
        using True fb by (simp add: heap_rep_def fx place_def n_def w_def)
    qed
  qed
  show "m_first_block s' = m_first_block s" "m_total_size s' = m_total_size s" "hp_pmm s' = hp_pmm s"
    by (simp_all add: s'_def split_block_def Let_def hp_update_def)
  from rep show "m_used_memory s' = m_used_memory s + (if unat sz + 56 \<le> unat z then 24 else 0)"
  proof (rule heap_rep_split)
    assume h: "hp_mem s a = \<lparr>blk_size = z, blk_free = True, blk_next = blk_next (hp_mem s a)\<rparr>"
      "unat a + 24 + unat z < 2 ^ 63"
    have "blk_size (hp_mem s a) = z" by (subst h(1)) simp
    then show ?thesis
      using split_size(1) [OF h(2) sz]
      by (simp add: s'_def split_block_def Let_def hp_update_def) (simp add: sizeof_HeapBlock_def)
  qed
qed

section \<open>The frame loop\<close>

text \<open>Each allocation also takes frames from the physical pool, one per started page.\<close>

lemma alloc_pages_enough:
  "pmm_ok p \<Longrightarrow> n \<le> i + card (pmm_free p) \<Longrightarrow>
     fst (alloc_pages b i n p) \<and> pmm_ok (snd (alloc_pages b i n p)) \<and>
     pmm_free (snd (alloc_pages b i n p)) \<subseteq> pmm_free p \<and>
     card (pmm_free (snd (alloc_pages b i n p))) + (n - i) = card (pmm_free p)"
proof (induction b i n p rule: alloc_pages.induct)
  case (1 b i n p)
  show ?case
  proof (cases "i < n")
    case False
    with 1 show ?thesis by (simp add: alloc_pages.simps [of b i n])
  next
    case True
    with "1.prems" have free: "pmm_free p \<noteq> {}" by auto
    obtain f q where al: "allocate_frame p = (f, q)" by fastforce
    have q: "f \<in> pmm_free p" "pmm_free q = pmm_free p - {f}" "pmm_ok q" "f \<noteq> 0"
      using pool.alloc_frame [OF "1.prems"(1) free] pool.inv_alloc [OF "1.prems"(1)]
        pool.alloc_null_iff [OF "1.prems"(1)] free al by auto
    have c: "card (pmm_free p) = Suc (card (pmm_free q))"
      unfolding q(2) using card_Suc_Diff1 [OF pool.finite_frees q(1)] by (rule sym)
    have step: "alloc_pages b i n p = alloc_pages b (Suc i) n q"
      using True q(4) al by (simp add: alloc_pages.simps [of b i n])
    show ?thesis
      using "1.IH" [OF True al [symmetric] refl q(4) q(3)] "1.prems"(2) c q(2) True
      by (auto simp: step)
  qed
qed

lemma alloc_pages_short:
  "pmm_ok p \<Longrightarrow> i + card (pmm_free p) < n \<Longrightarrow>
     \<not> fst (alloc_pages b i n p)"
proof (induction b i n p rule: alloc_pages.induct)
  case (1 b i n p)
  from "1.prems" have i: "i < n" by simp
  obtain f q where al: "allocate_frame p = (f, q)" by fastforce
  show ?case
  proof (cases "f = 0")
    case True
    with i al show ?thesis by (simp add: alloc_pages.simps [of b i n])
  next
    case False
    then have free: "pmm_free p \<noteq> {}"
      using pool.alloc_null_iff [OF "1.prems"(1)] al by auto
    have q: "f \<in> pmm_free p" "pmm_free q = pmm_free p - {f}" "pmm_ok q"
      using pool.alloc_frame [OF "1.prems"(1) free] pool.inv_alloc [OF "1.prems"(1)] al by auto
    have "card (pmm_free p) = Suc (card (pmm_free q))"
      unfolding q(2) using card_Suc_Diff1 [OF pool.finite_frees q(1)] by (rule sym)
    then show ?thesis
      using "1.IH" [OF i al [symmetric] refl False q(3)] "1.prems"(2) i al False
      by (simp add: alloc_pages.simps [of b i n])
  qed
qed

lemma free_pages_ok: "pmm_ok p \<Longrightarrow> pmm_ok (free_pages b n p)"
  unfolding free_pages_def by (induction n) (auto intro: pool.inv_free)

section \<open>Allocation on the list of blocks\<close>

lemma find_skip: "\<forall>y \<in> set K. \<not> P y \<Longrightarrow> P x \<Longrightarrow> find P (K @ x # M) = Some x"
  by (induction K) auto

lemma find_split:
  assumes "find P L = Some x"
  obtains K M where "L = K @ x # M" "P x" "\<forall>y \<in> set K. \<not> P y"
proof -
  from assms obtain i where i: "i < length L" "P (L ! i)" "x = L ! i" "\<forall>j < i. \<not> P (L ! j)"
    unfolding find_Some_iff by blast
  have "L = take i L @ x # drop (Suc i) L" unfolding i(3) by (rule id_take_nth_drop [OF i(1)])
  moreover have "\<forall>y \<in> set (take i L). \<not> P y"
    using i by (auto simp: in_set_conv_nth)
  ultimately show thesis using that i by blast
qed

lemma heap_allocate_none:
  assumes "heap_rep s L" "sz \<noteq> 0" "\<forall>b \<in> set L. \<not> fits (round_up sz) b"
  shows "heap_allocate sz s = Some (nullptr, s)"
proof -
  have "find (fits (round_up sz)) L = None" using assms(3) by (simp add: find_None_iff)
  then have "find_free_block (round_up sz) s = Some 0"
    using find_from_seg [of "hp_mem s" "m_first_block s" L] assms(1)
    by (simp add: find_free_block_def heap_rep_def)
  then show ?thesis using assms(2) by (simp add: heap_allocate_def Let_def)
qed

lemma heap_allocate_fit:
  assumes rep: "heap_rep s (K @ (a, z, True) # M)" and nz: "sz \<noteq> 0"
    and K: "\<forall>b \<in> set K. \<not> fits (round_up sz) b" and fit: "round_up sz \<le> z"
    and pg: "alloc_pages a 0 (num_pages (round_up sz)) (hp_pmm s) = (ok, p)"
  obtains s' where "heap_allocate sz s = Some (if ok then a + 24 else nullptr, s')"
    "heap_rep s' (K @ place (round_up sz) (a, z, True) @ M)" "hp_pmm s' = p"
    "m_first_block s' = m_first_block s" "m_total_size s' = m_total_size s"
    "m_used_memory s' =
       m_used_memory s + (if unat (round_up sz) + 56 \<le> unat z then 24 else 0) + round_up sz"
proof -
  let ?n = "round_up sz"
  have "find (fits ?n) (K @ (a, z, True) # M) = Some (a, z, True)"
    using K fit by (intro find_skip) (simp_all add: fits_def)
  moreover have "a \<noteq> 0" using rep by (rule heap_rep_split)
  ultimately have f: "find_free_block ?n s = Some a" "a \<noteq> 0"
    using find_from_seg [of "hp_mem s" "m_first_block s" "K @ (a, z, True) # M"] rep
    by (simp_all add: find_free_block_def heap_rep_def)
  define t where "t = hp_update a (\<lambda>b. b\<lparr>blk_free := False\<rparr>) (split_block a ?n s)"
  note t = split_and_mark [OF rep fit, folded t_def]
  define s' where "s' = t\<lparr>m_used_memory := m_used_memory t + ?n, hp_pmm := p\<rparr>"
  have "heap_allocate sz s = Some (if ok then a + 24 else nullptr, s')"
    using nz f pg t(4)
    by (simp add: heap_allocate_def Let_def t_def [symmetric] s'_def
        sizeof_HeapBlock_def)
  moreover have "heap_rep s' (K @ place ?n (a, z, True) @ M)"
    using t(1) by (simp add: s'_def heap_rep_def)
  ultimately show thesis using that t(2-5) by (simp add: s'_def)
qed

section \<open>Release on the list of blocks\<close>

text \<open>What merging does to the list: runs of free blocks become one block.\<close>

fun coalesce :: "blk list \<Rightarrow> blk list" where
  "coalesce ((a, z, f) # (b, y, g) # L) =
     (if f \<and> g then coalesce ((a, z + (24 + y), True) # L)
      else (a, z, f) # coalesce ((b, y, g) # L))"
| "coalesce L = L"

lemma merge_step:
  assumes rep: "heap_rep s (K @ (a, z, True) # (b, y, True) # L)"
  defines "s' \<equiv> (hp_update a (\<lambda>c. c\<lparr>blk_size := blk_size c + (sizeof_HeapBlock + y),
                       blk_next := blk_next (hp_mem s b)\<rparr>) s)
                   \<lparr>m_used_memory := m_used_memory s - sizeof_HeapBlock\<rparr>"
  shows "heap_rep s' (K @ (a, z + (24 + y), True) # L)"
  using rep
proof (rule heap_rep_split)
  assume h: "seg (hp_mem s) (m_first_block s) K a"
    "seg (hp_mem s) (blk_next (hp_mem s a)) ((b, y, True) # L) 0"
    "hp_mem s a = \<lparr>blk_size = z, blk_free = True, blk_next = blk_next (hp_mem s a)\<rparr>"
    "tiles (unat (m_first_block s)) K (unat a)"
    "tiles (unat a + 24 + unat z) ((b, y, True) # L) (unat (m_first_block s) + unat (m_total_size s))"
    "unat a + 24 + unat z < 2 ^ 63" "a \<noteq> 0" "a \<notin> addrs K" "a \<notin> addrs ((b, y, True) # L)"
  have fb: "0 < unat (m_first_block s)" "unat (m_first_block s) + unat (m_total_size s) < 2 ^ 63"
    using rep by (simp_all add: heap_rep_def)
  have a: "blk_size (hp_mem s a) = z" "blk_free (hp_mem s a)" by (subst h(3), simp)+
  have "unat b + 24 + unat y < 2 ^ 63" "unat b = unat a + 24 + unat z"
    using tiles_mem [OF h(5), of b y True] h(5) fb(2) by simp_all
  then have "unat (z + (24 + y)) = unat z + (24 + unat y)"
    by (subst unat_plus_u64; subst unat_plus_u64) simp_all
  then have "tiles (unat a + 24 + unat (z + (24 + y))) L (unat (m_first_block s) + unat (m_total_size s))"
    using h(5) by (simp add: ac_simps)
  moreover have "seg (hp_mem s') (m_first_block s) (K @ (a, z + (24 + y), True) # L) 0"
    using h(1,2,7-9) a by (auto simp: seg_append s'_def hp_update_def sizeof_HeapBlock_def intro!: exI [of _ a])
  ultimately show ?thesis
    using h(4) fb by (auto simp: heap_rep_def s'_def hp_update_def tiles_append)
qed

lemma merge_from_last:
  assumes "heap_rep s (K @ [v])"
  shows "merge_from (fst v) s = Some s"
proof -
  obtain a z f where v: "v = (a, z, f)" by (cases v)
  with assms show ?thesis by (auto simp: heap_rep_def seg_append merge_from.simps [of a s])
qed

lemma merge_from_coalesce:
  "heap_rep s (K @ L) \<Longrightarrow> L \<noteq> [] \<Longrightarrow>
     \<exists>s'. merge_from (fst (hd L)) s = Some s' \<and> heap_rep s' (K @ coalesce L) \<and>
       hp_pmm s' = hp_pmm s \<and> m_first_block s' = m_first_block s \<and>
       m_total_size s' = m_total_size s \<and>
       m_used_memory s' = m_used_memory s - 24 * of_nat (length L - length (coalesce L))"
proof (induction L arbitrary: K s rule: coalesce.induct)
  case (1 a z f b y g L)
  from "1.prems"(1) have sg: "seg (hp_mem s) a ((a, z, f) # (b, y, g) # L) 0"
    by (auto simp: heap_rep_def seg_append)
  then have a: "a \<noteq> 0" "blk_size (hp_mem s a) = z" "blk_free (hp_mem s a) = f"
    "blk_next (hp_mem s a) = b" "b \<noteq> 0" "blk_size (hp_mem s b) = y" "blk_free (hp_mem s b) = g"
    by auto
  show ?case
  proof (cases "f \<and> g")
    case True
    define t where "t = (hp_update a (\<lambda>c. c\<lparr>blk_size := blk_size c + (sizeof_HeapBlock + y),
                       blk_next := blk_next (hp_mem s b)\<rparr>) s)
                   \<lparr>m_used_memory := m_used_memory s - sizeof_HeapBlock\<rparr>"
    have step: "merge_from a s = merge_from a t"
      using a True by (simp add: merge_from.simps [of a s] t_def Let_def)
    have "heap_rep t (K @ (a, z + (24 + y), True) # L)"
      using merge_step [of s K a z b y L] "1.prems"(1) True by (simp add: t_def)
    from "1.IH"(1) [OF True this] obtain s' where s': "merge_from a t = Some s'"
      "heap_rep s' (K @ coalesce ((a, z + (24 + y), True) # L))" "hp_pmm s' = hp_pmm t"
      "m_first_block s' = m_first_block t" "m_total_size s' = m_total_size t"
      "m_used_memory s' = m_used_memory t - 24 * of_nat (Suc (length L) - length (coalesce ((a, z + (24 + y), True) # L)))"
      by auto
    have le: "length (coalesce M) \<le> length M" for M by (induction M rule: coalesce.induct) auto
    have "Suc (Suc (length L)) - length (coalesce ((a, z + (24 + y), True) # L)) =
        Suc (Suc (length L) - length (coalesce ((a, z + (24 + y), True) # L)))"
      using le [of "(a, z + (24 + y), True) # L"] by simp
    then show ?thesis
      using s' step True
      by (simp add: t_def hp_update_def sizeof_HeapBlock_def algebra_simps)
  next
    case False
    have step: "merge_from a s = merge_from b s"
      using a False by (auto simp: merge_from.simps [of a s] Let_def)
    have "heap_rep s ((K @ [(a, z, f)]) @ (b, y, g) # L)" using "1.prems"(1) by simp
    from "1.IH"(2) [OF False this] show ?thesis using step False by auto
  qed
next
  case "2_2"
  then show ?case using merge_from_last by simp
qed simp

lemma heap_free_spec:
  assumes rep: "heap_rep s (K @ (a, z, False) # M)"
  obtains s' where "heap_free (a + 24) s = Some s'" "heap_rep s' (coalesce (K @ (a, z, True) # M))"
    "hp_pmm s' = free_pages a (num_pages z) (hp_pmm s)"
    "m_used_memory s' = m_used_memory s - z -
       24 * of_nat (length (K @ (a, z, True) # M) - length (coalesce (K @ (a, z, True) # M)))"
  using rep
proof (rule heap_rep_split)
  assume h: "seg (hp_mem s) (m_first_block s) K a" "seg (hp_mem s) (blk_next (hp_mem s a)) M 0"
    "hp_mem s a = \<lparr>blk_size = z, blk_free = False, blk_next = blk_next (hp_mem s a)\<rparr>"
    "unat a + 24 + unat z < 2 ^ 63" "a \<noteq> 0" "a \<notin> addrs K" "a \<notin> addrs M"
  have a: "blk_size (hp_mem s a) = z" by (subst h(3), simp)
  have "unat (a + 24) = unat a + 24" using h(4) by (subst unat_plus_u64) simp_all
  then have p: "a + 24 \<noteq> 0" by (auto simp: unat_eq_0)
  define t where "t = (hp_update a (\<lambda>b. b\<lparr>blk_free := True\<rparr>)
      (s\<lparr>hp_pmm := free_pages a (num_pages z) (hp_pmm s)\<rparr>))\<lparr>m_used_memory := m_used_memory s - z\<rparr>"
  have rt: "heap_rep t (K @ (a, z, True) # M)"
    using rep h a by (auto simp: heap_rep_def t_def hp_update_def seg_append tiles_append
        intro!: exI [of _ a])
  have "heap_free (a + 24) s = merge_from (m_first_block t) t"
    using p a by (simp add: heap_free_def sizeof_HeapBlock_def Let_def merge_free_blocks_def t_def
        hp_update_def)
  moreover have "m_first_block t = fst (hd (K @ (a, z, True) # M))"
    using rt by (cases K) (auto simp: heap_rep_def)
  ultimately show thesis
    using merge_from_coalesce [of t "[]" "K @ (a, z, True) # M"] rt that
    by (auto simp: t_def hp_update_def)
qed

section \<open>The interface: disjoint live regions\<close>

fun merged :: "blk list \<Rightarrow> bool" where
  "merged ((a, z, f) # (b, y, g) # L) \<longleftrightarrow> \<not> (f \<and> g) \<and> merged ((b, y, g) # L)"
| "merged L \<longleftrightarrow> True"

definition busy :: "blk list \<Rightarrow> blk list" where
  "busy L = filter (\<lambda>b. \<not> snd (snd b)) L"

lemma busy_simps [simp]:
  "busy [] = []" "busy ((a, z, f) # L) = (if f then busy L else (a, z, f) # busy L)"
  "busy (K @ L) = busy K @ busy L"
  by (simp_all add: busy_def)

lemma busy_coalesce [simp]: "busy (coalesce L) = busy L"
  by (induction L rule: coalesce.induct) auto

lemma hd_coalesce: "L \<noteq> [] \<Longrightarrow> \<exists>z M. coalesce L = (fst (hd L), z, snd (snd (hd L))) # M"
  by (induction L rule: coalesce.induct) auto

lemma merged_coalesce: "merged (coalesce L)"
proof (induction L rule: coalesce.induct)
  case (1 a z f b y g L)
  then show ?case
    using hd_coalesce [of "(b, y, g) # L"] by (cases "f \<and> g") auto
qed simp_all

lemma busy_place: "busy (place sz (a, z, f)) = [(a, if unat sz + 56 \<le> unat z then sz else z, False)]"
  by (simp add: place_def)

definition heap_live :: "heap \<Rightarrow> (u64 \<times> u64) set" where
  "heap_live s = {(a + 24, z) | a z. \<exists>L. heap_rep s L \<and> (a, z, False) \<in> set L}"

definition heap_inv :: "heap \<Rightarrow> bool" where
  "heap_inv s \<longleftrightarrow> (\<exists>L. heap_rep s L) \<and> pmm_ok (hp_pmm s)"

lemma heap_live_eq: "heap_rep s L \<Longrightarrow> heap_live s = (\<lambda>b. (fst b + 24, fst (snd b))) ` set (busy L)"
proof -
  assume "heap_rep s L"
  then have "heap_rep s K \<longleftrightarrow> K = L" for K using heap_rep_unique by blast
  then have "heap_live s = {(a + 24, z) | a z. (a, z, False) \<in> set L}" by (simp add: heap_live_def)
  also have "\<dots> = (\<lambda>b. (fst b + 24, fst (snd b))) ` {b \<in> set L. \<not> snd (snd b)}"
    by (auto simp: image_iff)
  finally show ?thesis by (simp add: busy_def)
qed

lemma unat_payload:
  assumes "heap_rep s L" "(a, z, f) \<in> set L"
  shows "unat (a + 24) = unat a + 24" "unat a + 24 + unat z < 2 ^ 63"
proof -
  have b: "unat a + 24 + unat z < 2 ^ 63"
    using assms tiles_mem [of "unat (m_first_block s)" L _ a z f] unfolding heap_rep_def by fastforce
  then show "unat a + 24 + unat z < 2 ^ 63" .
  then show "unat (a + 24) = unat a + 24" by (subst unat_plus_u64) simp_all
qed

lemma heap_live_disjoint:
  assumes "(p, z) \<in> heap_live s" "(q, y) \<in> heap_live s" "p \<noteq> q"
  shows "unat p + unat z \<le> unat q \<or> unat q + unat y \<le> unat p"
proof -
  from assms obtain a b L where rep: "heap_rep s L" and a: "p = a + 24" "(a, z, False) \<in> set L"
    and b: "q = b + 24" "(b, y, False) \<in> set L"
    unfolding heap_live_def by (auto dest: heap_rep_unique)
  have "tiles (unat (m_first_block s)) L (unat (m_first_block s) + unat (m_total_size s))"
    using rep by (simp add: heap_rep_def)
  from tiles_disjoint [OF this a(2) b(2)] show ?thesis
    using assms(3) a b unat_payload [OF rep a(2)] unat_payload [OF rep b(2)] by auto
qed

lemma alloc_pages_ok: "pmm_ok p \<Longrightarrow> pmm_ok (snd (alloc_pages b i n p))"
proof (induction b i n p rule: alloc_pages.induct)
  case (1 b i n p)
  then show ?case
    using pool.inv_alloc [OF "1.prems"]
    by (auto simp: alloc_pages.simps [of b i n p] free_pages_ok split: prod.splits)
qed

lemma round_up_ge:
  assumes "unat sz < 2 ^ 64 - 15"
  shows "unat sz \<le> unat (round_up sz)"
proof -
  have u: "unat (sz + 15) = unat sz + 15" using assms by (subst unat_plus_u64) simp_all
  have m: "(15 :: u64) = mask 4" by (simp add: mask_eq_exp_minus_1)
  have "unat ((sz + 15) AND mask 4) = (unat sz + 15) mod 16"
    using unat_and_mask [of "sz + 15" 4] u by simp
  moreover have "(sz + 15) AND NOT (mask 4) = (sz + 15) - ((sz + 15) AND mask 4)"
  proof -
    have "((sz + 15) AND mask 4) + ((sz + 15) AND NOT (mask 4)) =
        ((sz + 15) AND mask 4) OR ((sz + 15) AND NOT (mask 4))"
      by (rule disjunctive_add_eq_or) (rule bit_word_eqI, auto simp: bit_simps)
    also have "\<dots> = sz + 15" by (rule bit_word_eqI) (auto simp: bit_simps)
    finally show ?thesis by (simp add: algebra_simps)
  qed
  then have "round_up sz = (sz + 15) - ((sz + 15) AND mask 4)"
    by (simp only: round_up_def m)
  moreover have "unat ((sz + 15) - ((sz + 15) AND mask 4)) = unat (sz + 15) - unat ((sz + 15) AND mask 4)"
    by (rule unat_sub) (rule word_and_le2)
  ultimately have "unat (round_up sz) = unat sz + 15 - (unat sz + 15) mod 16" using u by simp
  moreover have "(unat sz + 15) mod 16 < 16" by simp
  ultimately show ?thesis by linarith
qed

text \<open>
  The contract the rest of the kernel has with the heap. \<open>live\<close> is the set of regions handed out
  and not yet released, as pairs of payload address and size.
\<close>

fun alloc_seq :: "(u64 \<Rightarrow> 's \<Rightarrow> (u64 \<times> 's) option) \<Rightarrow> u64 list \<Rightarrow> 's \<Rightarrow> (u64 list \<times> 's) option" where
  "alloc_seq alloc [] s = Some ([], s)"
| "alloc_seq alloc (n # ns) s =
     do { (p, s1) \<leftarrow> alloc n s; (ps, s2) \<leftarrow> alloc_seq alloc ns s1; Some (p # ps, s2) }"

fun free_seq :: "(u64 \<Rightarrow> 's \<Rightarrow> 's option) \<Rightarrow> u64 list \<Rightarrow> 's \<Rightarrow> 's option" where
  "free_seq free [] s = Some s"
| "free_seq free (p # ps) s = do { s1 \<leftarrow> free p s; free_seq free ps s1 }"

locale region_heap =
  fixes alloc :: "u64 \<Rightarrow> 's \<Rightarrow> (u64 \<times> 's) option"
    and free :: "u64 \<Rightarrow> 's \<Rightarrow> 's option"
    and live :: "'s \<Rightarrow> (u64 \<times> u64) set"
    and inv :: "'s \<Rightarrow> bool"
  assumes alloc_returns: "inv s \<Longrightarrow> \<exists>p s'. alloc n s = Some (p, s') \<and> inv s' \<and> live s \<subseteq> live s'"
    and alloc_live: "inv s \<Longrightarrow> alloc n s = Some (p, s') \<Longrightarrow> p \<noteq> 0 \<Longrightarrow> unat n < 2 ^ 64 - 15 \<Longrightarrow>
      \<exists>z. unat n \<le> unat z \<and> live s' = insert (p, z) (live s) \<and> p \<notin> fst ` live s"
    and free_live: "inv s \<Longrightarrow> (p, z) \<in> live s \<Longrightarrow>
      \<exists>s'. free p s = Some s' \<and> inv s' \<and> live s' = live s - {(p, z)}"
    and live_disjoint: "inv s \<Longrightarrow> (p, y) \<in> live s \<Longrightarrow> (q, z) \<in> live s \<Longrightarrow> p \<noteq> q \<Longrightarrow>
      unat p + unat y \<le> unat q \<or> unat q + unat z \<le> unat p"
    and live_inj: "inv s \<Longrightarrow> (p, y) \<in> live s \<Longrightarrow> (p, z) \<in> live s \<Longrightarrow> y = z"
begin

lemma alloc_seq_spec:
  "inv s \<Longrightarrow> \<forall>n \<in> set ns. unat n < 2 ^ 64 - 15 \<Longrightarrow>
    \<exists>ps s'. alloc_seq alloc ns s = Some (ps, s') \<and> inv s' \<and> live s \<subseteq> live s' \<and>
      length ps = length ns \<and> distinct (filter (\<lambda>p. p \<noteq> 0) ps) \<and>
      (\<forall>(p, n) \<in> set (zip ps ns). p \<noteq> 0 \<longrightarrow>
         p \<notin> fst ` live s \<and> (\<exists>z. (p, z) \<in> live s' \<and> unat n \<le> unat z))"
proof (induction ns arbitrary: s)
  case Nil
  then show ?case by simp
next
  case (Cons n ns)
  from alloc_returns [OF Cons.prems(1), of n] obtain p s1 where
    a: "alloc n s = Some (p, s1)" "inv s1" "live s \<subseteq> live s1" by blast
  from Cons.IH [OF a(2)] Cons.prems(2) obtain ps s' where
    r: "alloc_seq alloc ns s1 = Some (ps, s')" "inv s'" "live s1 \<subseteq> live s'" "length ps = length ns"
      "distinct (filter (\<lambda>p. p \<noteq> 0) ps)"
      "\<forall>(p, n) \<in> set (zip ps ns). p \<noteq> 0 \<longrightarrow>
         p \<notin> fst ` live s1 \<and> (\<exists>z. (p, z) \<in> live s' \<and> unat n \<le> unat z)" by auto
  have p: "\<exists>z. unat n \<le> unat z \<and> live s1 = insert (p, z) (live s) \<and> p \<notin> fst ` live s" if "p \<noteq> 0"
    using alloc_live [OF Cons.prems(1) a(1) that] Cons.prems(2) by simp
  have "p \<notin> set ps" if "p \<noteq> 0"
  proof
    assume "p \<in> set ps"
    then obtain m where "(p, m) \<in> set (zip ps ns)"
      using r(4) by (metis in_set_conv_nth in_set_zip fst_conv snd_conv)
    with r(6) that have "p \<notin> fst ` live s1" by blast
    with p [OF that] show False by force
  qed
  then have "distinct (filter (\<lambda>p. p \<noteq> 0) (p # ps))" using r(5) by simp
  moreover have sub: "fst ` live s \<subseteq> fst ` live s1" using a(3) by (rule image_mono)
  have "q \<notin> fst ` live s \<and> (\<exists>z. (q, z) \<in> live s' \<and> unat m \<le> unat z)"
    if "(q, m) \<in> set (zip (p # ps) (n # ns))" "q \<noteq> 0" for q m
  proof (cases "(q, m) \<in> set (zip ps ns)")
    case True
    with r(6) that(2) sub show ?thesis by blast
  next
    case False
    with that have q: "q = p" "m = n" by auto
    with p that(2) r(3) show ?thesis by blast
  qed
  moreover have "alloc_seq alloc (n # ns) s = Some (p # ps, s')" using a(1) r(1) by simp
  moreover have "live s \<subseteq> live s'" using a(3) r(3) by (rule order.trans)
  ultimately show ?case using r(2,4) by (intro exI [of _ "p # ps"] exI [of _ s']) auto
qed

lemma free_seq_spec:
  "inv s \<Longrightarrow> distinct ps \<Longrightarrow> set ps \<subseteq> fst ` live s \<Longrightarrow>
    \<exists>s'. free_seq free ps s = Some s' \<and> inv s' \<and> live s' = {r \<in> live s. fst r \<notin> set ps}"
proof (induction ps arbitrary: s)
  case Nil
  then show ?case by auto
next
  case (Cons p ps)
  from Cons.prems(3) obtain z where z: "(p, z) \<in> live s" by auto
  from free_live [OF Cons.prems(1) this] obtain s1 where
    s1: "free p s = Some s1" "inv s1" "live s1 = live s - {(p, z)}" by blast
  have "set ps \<subseteq> fst ` live s1" using Cons.prems(2,3) s1(3) by force
  from Cons.IH [OF s1(2) _ this] Cons.prems(2) obtain s' where
    s': "free_seq free ps s1 = Some s'" "inv s'" "live s' = {r \<in> live s1. fst r \<notin> set ps}" by auto
  have "live s' = {r \<in> live s. fst r \<notin> set (p # ps)}"
  proof -
    have "r \<noteq> (p, z) \<longleftrightarrow> fst r \<noteq> p" if "r \<in> live s" for r
      using live_inj [OF Cons.prems(1) z, of "snd r"] that by (cases r) auto
    then show ?thesis unfolding s'(3) s1(3) by auto
  qed
  with s1 s' show ?case by simp
qed

end

lemma heap_allocate_zero: "heap_allocate 0 s = Some (nullptr, s)"
  by (simp add: heap_allocate_def)

lemma heap_allocate_cases:
  assumes rep: "heap_rep s L" and nz: "sz \<noteq> 0"
  obtains (none) "heap_allocate sz s = Some (nullptr, s)" "\<forall>b \<in> set L. \<not> fits (round_up sz) b"
  | (fit) K a z M ok p s' where "L = K @ (a, z, True) # M" "round_up sz \<le> z"
      "\<forall>b \<in> set K. \<not> fits (round_up sz) b"
      "alloc_pages a 0 (num_pages (round_up sz)) (hp_pmm s) = (ok, p)"
      "heap_allocate sz s = Some (if ok then a + 24 else nullptr, s')"
      "heap_rep s' (K @ place (round_up sz) (a, z, True) @ M)" "hp_pmm s' = p"
proof (cases "find (fits (round_up sz)) L")
  case None
  with rep nz show ?thesis by (intro none heap_allocate_none) (auto simp: find_None_iff)
next
  case (Some x)
  then obtain K M where L: "L = K @ x # M" "fits (round_up sz) x" "\<forall>y \<in> set K. \<not> fits (round_up sz) y"
    by (rule find_split)
  obtain a z where x: "x = (a, z, True)" "round_up sz \<le> z" using L(2) by (cases x) (auto simp: fits_def)
  obtain ok p where pg: "alloc_pages a 0 (num_pages (round_up sz)) (hp_pmm s) = (ok, p)" by fastforce
  show ?thesis
    by (rule heap_allocate_fit [OF rep [unfolded L(1) x(1)] nz L(3) x(2) pg])
      (rule fit [OF L(1) [unfolded x(1)] x(2) L(3) pg])
qed

interpretation kheap: region_heap heap_allocate heap_free heap_live heap_inv
proof
  fix s n
  assume "heap_inv s"
  then obtain L where rep: "heap_rep s L" and ok: "pmm_ok (hp_pmm s)" by (auto simp: heap_inv_def)
  show "\<exists>p s'. heap_allocate n s = Some (p, s') \<and> heap_inv s' \<and> heap_live s \<subseteq> heap_live s'"
  proof (cases "n = 0")
    case True
    with \<open>heap_inv s\<close> show ?thesis by (simp add: heap_allocate_zero)
  next
    case False
    with rep show ?thesis
    proof (cases rule: heap_allocate_cases)
      case none
      with \<open>heap_inv s\<close> show ?thesis by simp
    next
      case (fit K a z M d p s')
      have "pmm_ok p" using alloc_pages_ok [OF ok, of a 0] fit(4) by (metis snd_conv)
      with fit rep show ?thesis
        by (auto simp: heap_inv_def heap_live_eq busy_place)
    qed
  qed
next
  fix s n p s'
  assume inv: "heap_inv s" and call: "heap_allocate n s = Some (p, s')" and p: "p \<noteq> 0"
    and n: "unat n < 2 ^ 64 - 15"
  from inv obtain L where rep: "heap_rep s L" by (auto simp: heap_inv_def)
  have nz: "n \<noteq> 0" using call p heap_allocate_zero [of s] by auto
  from rep nz show "\<exists>z. unat n \<le> unat z \<and> heap_live s' = insert (p, z) (heap_live s) \<and> p \<notin> fst ` heap_live s"
  proof (cases rule: heap_allocate_cases)
    case none
    with call p show ?thesis by simp
  next
    case (fit K a z M d q t)
    have t: "t = s'" "d" "p = a + 24" using fit(5) call p by (auto split: if_splits)
    have "tiles (unat (m_first_block s)) L (unat (m_first_block s) + unat (m_total_size s))"
      using rep by (simp add: heap_rep_def)
    then have "distinct (map fst L)" by (rule tiles_distinct)
    then have fresh: "a \<notin> addrs K" "a \<notin> addrs M" using fit(1) by auto
    let ?y = "if unat (round_up n) + 56 \<le> unat z then round_up n else z"
    have "heap_live s' = insert (p, ?y) (heap_live s)"
      using fit(1,6) rep t by (auto simp: heap_live_eq busy_place)
    moreover have "unat n \<le> unat ?y"
      using round_up_ge [OF n] fit(2) by (simp add: word_le_nat_alt)
    moreover have "p \<notin> fst ` heap_live s"
      using fresh t fit(1) rep by (auto simp: heap_live_eq) (auto simp: busy_def image_iff)
    ultimately show ?thesis by blast
  qed
next
  fix s p z
  assume inv: "heap_inv s" and p: "(p, z) \<in> heap_live s"
  from inv p obtain a L where rep: "heap_rep s L" and a: "p = a + 24" "(a, z, False) \<in> set L"
    and ok: "pmm_ok (hp_pmm s)"
    by (auto simp: heap_inv_def heap_live_def)
  then obtain K M where L: "L = K @ (a, z, False) # M" by (auto simp: in_set_conv_decomp)
  have "distinct (map fst L)" using rep tiles_distinct by (auto simp: heap_rep_def)
  then have fresh: "a \<notin> addrs K" "a \<notin> addrs M" using L by auto
  from heap_free_spec [OF rep [unfolded L]] obtain s' where s': "heap_free (a + 24) s = Some s'"
    "heap_rep s' (coalesce (K @ (a, z, True) # M))" "hp_pmm s' = free_pages a (num_pages z) (hp_pmm s)"
    by blast
  have "heap_live s' = heap_live s - {(p, z)}"
    using fresh by (auto simp: heap_live_eq [OF s'(2)] heap_live_eq [OF rep] L a(1))
      (auto simp: busy_def image_iff)
  with s' free_pages_ok [OF ok] show "\<exists>s'. heap_free p s = Some s' \<and> heap_inv s' \<and> heap_live s' = heap_live s - {(p, z)}"
    by (auto simp: heap_inv_def a(1))
next
  fix s p y z
  assume "(p, y) \<in> heap_live s" "(p, z) \<in> heap_live s"
  then obtain L where rep: "heap_rep s L" "(p - 24, y, False) \<in> set L" "(p - 24, z, False) \<in> set L"
    by (auto simp: heap_live_def dest: heap_rep_unique)
  moreover have "distinct (map fst L)" using rep tiles_distinct by (auto simp: heap_rep_def)
  ultimately show "y = z" by (metis Pair_inject eq_key_imp_eq_value)
qed (rule heap_live_disjoint)

section \<open>Properties of the heap\<close>

text \<open>A heap of the given size in the first, reserved frame of the small machine.\<close>

definition heap_example :: "u64 \<Rightarrow> heap" where
  "heap_example sz = heap_initialize 4096 sz
     \<lparr>hp_mem = (\<lambda>_. \<lparr>blk_size = 0, blk_free = False, blk_next = 0\<rparr>), hp_pmm = pmm_example,
      m_first_block = 0, m_total_size = 0, m_used_memory = 0\<rparr>"


text \<open>
  \<open>initialize\<close> turns the region into a single free block and accounts for its header.
\<close>

theorem heap_initialize_correct:
  assumes "24 \<le> unat sz" "0 < unat start" "unat start + unat sz < 2 ^ 63"
  shows "heap_rep (heap_initialize start sz s) [(start, sz - 24, True)] \<and>
         heap_live (heap_initialize start sz s) = {} \<and>
         unat (get_free_memory (heap_initialize start sz s)) = unat sz - 24"
proof -
  have u: "unat (sz - 24) = unat sz - 24"
    using assms(1) by (subst unat_minus_u64) (simp_all add: word_le_nat_alt)
  then have rep: "heap_rep (heap_initialize start sz s) [(start, sz - 24, True)]"
    using assms by (auto simp: heap_rep_def heap_initialize_def hp_update_def sizeof_HeapBlock_def)
  then show ?thesis
    using u by (simp add: heap_live_eq) (simp add: get_free_memory_def heap_initialize_def hp_update_def sizeof_HeapBlock_def)
qed

theorem heap_initialize_correct_witness:
  "heap_rep (heap_example 256) [(4096, 232, True)]"
  using heap_initialize_correct [of 256 4096] by (simp add: heap_example_def)

lemma heap_example_rep: "24 \<le> unat sz \<Longrightarrow> 4096 + unat sz < 2 ^ 63 \<Longrightarrow>
    heap_rep (heap_example sz) [(4096, sz - 24, True)]"
proof -
  assume sz: "24 \<le> unat sz" "4096 + unat sz < 2 ^ 63"
  have "unat (sz - 24) = unat sz - 24"
    using sz(1) by (subst unat_minus_u64) (simp_all add: word_le_nat_alt)
  with sz show ?thesis
    by (auto simp: heap_rep_def heap_example_def heap_initialize_def hp_update_def sizeof_HeapBlock_def)
qed

lemma heap_example_inv: "24 \<le> unat sz \<Longrightarrow> 4096 + unat sz < 2 ^ 63 \<Longrightarrow> heap_inv (heap_example sz)"
  using heap_example_rep [of sz] pmm_example_ok
  by (auto simp: heap_inv_def) (simp add: heap_example_def heap_initialize_def hp_update_def)

text \<open>
  \<open>allocate\<close> is first fit. It refuses only when no free block is long enough (and then changes
  nothing) or when the frame pool has too few frames; otherwise it returns the payload of the
  first free block that is long enough, cut to the rounded size when at least 32 bytes and a
  header would remain, and no other block changes.
\<close>

theorem heap_allocate_first_fit:
  assumes rep: "heap_rep s L" and ok: "pmm_ok (hp_pmm s)" and nz: "sz \<noteq> 0"
    and frames: "num_pages (round_up sz) \<le> unat (get_free_frames (hp_pmm s))"
  shows "((\<forall>b \<in> set L. \<not> fits (round_up sz) b) \<longrightarrow> heap_allocate sz s = Some (nullptr, s)) \<and>
         (\<forall>K a z M. L = K @ (a, z, True) # M \<and> round_up sz \<le> z \<and> (\<forall>b \<in> set K. \<not> fits (round_up sz) b) \<longrightarrow>
            (\<exists>s'. heap_allocate sz s = Some (a + 24, s') \<and>
               heap_rep s' (K @ place (round_up sz) (a, z, True) @ M) \<and>
               unat (get_free_frames (hp_pmm s')) + num_pages (round_up sz) = unat (get_free_frames (hp_pmm s))))"
proof (intro conjI impI allI)
  show "heap_allocate sz s = Some (nullptr, s)" if "\<forall>b \<in> set L. \<not> fits (round_up sz) b"
    using rep nz that by (rule heap_allocate_none)
next
  fix K a z M
  assume h: "L = K @ (a, z, True) # M \<and> round_up sz \<le> z \<and> (\<forall>b \<in> set K. \<not> fits (round_up sz) b)"
  obtain d p where pg: "alloc_pages a 0 (num_pages (round_up sz)) (hp_pmm s) = (d, p)" by fastforce
  have "num_pages (round_up sz) \<le> 0 + card (pmm_free (hp_pmm s))"
    using frames card_pmm_free [OF ok] by (simp add: get_free_frames_def)
  from alloc_pages_enough [OF ok this, of a] pg card_pmm_free [OF ok]
  have d: "d" and c: "unat (get_free_frames p) + num_pages (round_up sz) = unat (get_free_frames (hp_pmm s))"
    using card_pmm_free [of p] by (simp_all add: get_free_frames_def)
  from h have h': "heap_rep s (K @ (a, z, True) # M)" "\<forall>b \<in> set K. \<not> fits (round_up sz) b" "round_up sz \<le> z"
    using rep by simp_all
  obtain s' where s': "heap_allocate sz s = Some (if d then a + 24 else nullptr, s')"
    "heap_rep s' (K @ place (round_up sz) (a, z, True) @ M)" "hp_pmm s' = p"
    by (rule heap_allocate_fit [OF h'(1) nz h'(2,3) pg])
  with d c show "\<exists>s'. heap_allocate sz s = Some (a + 24, s') \<and>
      heap_rep s' (K @ place (round_up sz) (a, z, True) @ M) \<and>
      unat (get_free_frames (hp_pmm s')) + num_pages (round_up sz) = unat (get_free_frames (hp_pmm s))"
    by auto
qed

theorem heap_allocate_first_fit_witness:
  "\<exists>s'. heap_allocate 20 (heap_example 256) = Some (4120, s') \<and>
        heap_rep s' [(4096, 32, False), (4152, 176, True)]"
proof -
  have r: "round_up 20 = 32" "num_pages 32 = 1" by (simp_all add: round_up_def num_pages_def PAGE_SIZE_def)
  have p: "hp_pmm (heap_example 256) = pmm_example"
    by (simp add: heap_example_def heap_initialize_def hp_update_def)
  have f: "unat (get_free_frames pmm_example) = 2" by (simp add: get_free_frames_def pmm_example_def)
  have rep: "heap_rep (heap_example 256) [(4096, 232, True)]" using heap_example_rep [of 256] by simp
  have pl: "place 32 (4096, 232, True) = [(4096, 32, False), (4152, 176, True)]"
    by (simp add: place_def)
  have h: "pmm_ok (hp_pmm (heap_example 256))" "(20 :: u64) \<noteq> 0"
    "num_pages (round_up 20) \<le> unat (get_free_frames (hp_pmm (heap_example 256)))"
    by (simp_all add: p f r pmm_example_ok)
  have "\<exists>s'. heap_allocate 20 (heap_example 256) = Some (4096 + 24, s') \<and>
      heap_rep s' ([] @ place 32 (4096, 232, True) @ [])"
    using conjunct2 [OF heap_allocate_first_fit [OF rep h], rule_format, of "[]" 4096 232 "[]"]
    by (auto simp: r)
  then show ?thesis by (simp add: pl)
qed

lemma heap_example_alloc:
  "\<exists>s'. heap_allocate 20 (heap_example 256) = Some (4120, s')"
proof -
  have r: "round_up 20 = 32" "num_pages 32 = 1" by (simp_all add: round_up_def num_pages_def PAGE_SIZE_def)
  have p: "hp_pmm (heap_example 256) = pmm_example"
    by (simp add: heap_example_def heap_initialize_def hp_update_def)
  have rep: "heap_rep (heap_example 256) ([] @ (4096, 232, True) # [])"
    using heap_example_rep [of 256] by simp
  obtain d q where pg: "alloc_pages 4096 0 (num_pages (round_up 20)) (hp_pmm (heap_example 256)) = (d, q)"
    by fastforce
  have "fst (alloc_pages 4096 0 1 pmm_example)"
    using alloc_pages_enough [OF pmm_example_ok, of 1 0] card_pmm_free [OF pmm_example_ok]
    by (simp add: pmm_example_def)
  then have d using pg by (simp add: r p)
  then show ?thesis
    using heap_allocate_fit [OF rep _ _ _ pg] by (auto simp: r)
qed


text \<open>
  \<open>free\<close> of a block returns, marks exactly that block free, merges until no two neighbouring
  blocks are both free, and keeps every other allocated block where it is, with its size.
\<close>

theorem heap_free_correct:
  assumes "heap_rep s (K @ (a, z, False) # M)"
  shows "\<exists>s' L. heap_free (a + 24) s = Some s' \<and> heap_rep s' L \<and> merged L \<and>
           busy L = busy K @ busy M \<and> hp_pmm s' = free_pages a (num_pages z) (hp_pmm s)"
proof -
  obtain s' where "heap_free (a + 24) s = Some s'" "heap_rep s' (coalesce (K @ (a, z, True) # M))"
    "hp_pmm s' = free_pages a (num_pages z) (hp_pmm s)"
    by (rule heap_free_spec [OF assms])
  then show ?thesis
    using merged_coalesce [of "K @ (a, z, True) # M"] busy_coalesce [of "K @ (a, z, True) # M"] by auto
qed

theorem heap_free_correct_witness:
  "\<exists>s. heap_rep s ([] @ (4096, 32, False) # [(4152, 176, True)]) \<and>
       (\<exists>s'. heap_free 4120 s = Some s' \<and> heap_live s' = {})"
proof -
  let ?s = "\<lparr>hp_mem = (\<lambda>a. if a = 4096 then \<lparr>blk_size = 32, blk_free = False, blk_next = 4152\<rparr>
      else \<lparr>blk_size = 176, blk_free = True, blk_next = 0\<rparr>), hp_pmm = pmm_example,
      m_first_block = 4096, m_total_size = 256, m_used_memory = 80\<rparr>"
  have rep: "heap_rep ?s ([] @ (4096, 32, False) # [(4152, 176, True)])" by (simp add: heap_rep_def)
  from heap_free_correct [OF rep] obtain s' L where
    s': "heap_free (4096 + 24) ?s = Some s'" "heap_rep s' L" "busy L = busy [] @ busy [(4152, 176, True)]"
    by blast
  then have "heap_free 4120 ?s = Some s'" "heap_live s' = {}" by (simp_all add: heap_live_eq)
  with rep show ?thesis by blast
qed

text \<open>
  a request that finds a block but not enough frames is refused with \<open>nullptr\<close>, yet the block
  stays marked as allocated: no pointer to it was handed out, so it can never be released.
\<close>

theorem heap_allocate_leaks_block:
  assumes rep: "heap_rep s (K @ (a, z, True) # M)" and ok: "pmm_ok (hp_pmm s)" and nz: "sz \<noteq> 0"
    and K: "\<forall>b \<in> set K. \<not> fits (round_up sz) b" and fit: "round_up sz \<le> z"
    and frames: "unat (get_free_frames (hp_pmm s)) < num_pages (round_up sz)"
  shows "\<exists>s'. heap_allocate sz s = Some (nullptr, s') \<and>
           (a + 24, if unat (round_up sz) + 56 \<le> unat z then round_up sz else z) \<in> heap_live s'"
proof -
  obtain d p where pg: "alloc_pages a 0 (num_pages (round_up sz)) (hp_pmm s) = (d, p)" by fastforce
  have "0 + card (pmm_free (hp_pmm s)) < num_pages (round_up sz)"
    using frames card_pmm_free [OF ok] by (simp add: get_free_frames_def)
  from alloc_pages_short [OF ok this, of a] pg have d: "\<not> d" by simp
  obtain s' where "heap_allocate sz s = Some (if d then a + 24 else nullptr, s')"
    "heap_rep s' (K @ place (round_up sz) (a, z, True) @ M)"
    by (rule heap_allocate_fit [OF rep nz K fit pg])
  then show ?thesis using d by (auto simp: heap_live_eq busy_place)
qed

theorem heap_allocate_leaks_block_witness:
  "\<exists>s'. heap_allocate 12289 (heap_example 20000) = Some (nullptr, s') \<and> (4120, 12304) \<in> heap_live s'"
proof -
  have r: "round_up 12289 = 12304" "num_pages 12304 = 4"
    by (simp_all add: round_up_def num_pages_def PAGE_SIZE_def)
  have p: "hp_pmm (heap_example 20000) = pmm_example"
    by (simp add: heap_example_def heap_initialize_def hp_update_def)
  have f: "unat (get_free_frames pmm_example) = 2" by (simp add: get_free_frames_def pmm_example_def)
  have rep: "heap_rep (heap_example 20000) ([] @ (4096, 19976, True) # [])"
    using heap_example_rep [of 20000] by simp
  from heap_allocate_leaks_block [OF rep, of 12289] show ?thesis by (simp add: r p f pmm_example_ok)
qed

text \<open>
  the used-memory counter drifts. When a block is handed out whole, \<open>allocate\<close> adds the rounded
  request but \<open>free\<close> subtracts the block's size, so one allocation and its release lower the
  counter by the difference; a heap that is empty again can report more free memory than it has.
\<close>

theorem heap_used_memory_drift:
  assumes rep: "heap_rep s [(a, z, True)]" and ok: "pmm_ok (hp_pmm s)" and nz: "sz \<noteq> 0"
    and fit: "round_up sz \<le> z" "unat z < unat (round_up sz) + 56"
    and frames: "num_pages (round_up sz) \<le> unat (get_free_frames (hp_pmm s))"
  shows "\<exists>s1 s2. heap_allocate sz s = Some (a + 24, s1) \<and> heap_free (a + 24) s1 = Some s2 \<and>
           heap_rep s2 [(a, z, True)] \<and>
           get_used_memory s2 = get_used_memory s - (z - round_up sz)"
proof -
  obtain d p where pg: "alloc_pages a 0 (num_pages (round_up sz)) (hp_pmm s) = (d, p)" by fastforce
  have "num_pages (round_up sz) \<le> 0 + card (pmm_free (hp_pmm s))"
    using frames card_pmm_free [OF ok] by (simp add: get_free_frames_def)
  from alloc_pages_enough [OF ok this, of a] pg have d: "d" by simp
  have rep': "heap_rep s ([] @ (a, z, True) # [])" using rep by simp
  obtain s1 where s1: "heap_allocate sz s = Some (if d then a + 24 else nullptr, s1)"
    "heap_rep s1 ([] @ place (round_up sz) (a, z, True) @ [])"
    "m_used_memory s1 = m_used_memory s + (if unat (round_up sz) + 56 \<le> unat z then 24 else 0) + round_up sz"
    by (rule heap_allocate_fit [OF rep' nz _ fit(1) pg]) simp
  then have "heap_rep s1 ([] @ (a, z, False) # [])" using fit(2) by (simp add: place_def)
  then obtain s2 where s2: "heap_free (a + 24) s1 = Some s2" "heap_rep s2 (coalesce ([] @ (a, z, True) # []))"
    "m_used_memory s2 = m_used_memory s1 - z -
       24 * of_nat (length ([] @ (a, z, True) # []) - length (coalesce ([] @ (a, z, True) # [])))"
    by (rule heap_free_spec)
  show ?thesis
    using s1 s2 d fit(2) by (auto simp: get_used_memory_def)
qed

theorem heap_used_memory_drift_witness:
  "\<exists>s1 s2. heap_allocate 16 (heap_example 88) = Some (4120, s1) \<and> heap_free 4120 s1 = Some s2 \<and>
     heap_rep s2 [(4096, 64, True)] \<and> get_used_memory s2 = - 24"
proof -
  have r: "round_up 16 = 16" "num_pages 16 = 1" by (simp_all add: round_up_def num_pages_def PAGE_SIZE_def)
  have p: "hp_pmm (heap_example 88) = pmm_example" "get_used_memory (heap_example 88) = 24"
    by (simp_all add: heap_example_def heap_initialize_def hp_update_def get_used_memory_def sizeof_HeapBlock_def)
  have f: "unat (get_free_frames pmm_example) = 2" by (simp add: get_free_frames_def pmm_example_def)
  have rep: "heap_rep (heap_example 88) [(4096, 64, True)]" using heap_example_rep [of 88] by simp
  from heap_used_memory_drift [OF rep, of 16] show ?thesis by (simp add: r p f pmm_example_ok)
qed

text \<open>
  \<open>free\<close> gives the heap's own memory to the frame allocator. The frames taken by \<open>allocate\<close> are
  anonymous, the frames released by \<open>free\<close> are those the block lies in: after the release of a
  non-empty block the frame holding its header is free, and \<open>allocate_frame\<close> may hand it out
  while the heap keeps using it.
\<close>

theorem heap_free_releases_heap_frame:
  assumes rep: "heap_rep s (K @ (a, z, False) # M)" and ok: "pmm_ok (hp_pmm s)" and z: "0 < unat z"
    and i: "i < n_frames (hp_pmm s)" "unat a = unat (m_memory_start (hp_pmm s)) + i * 4096 + off" "off < 4096"
  shows "\<exists>s'. heap_free (a + 24) s = Some s' \<and> i \<in> free_indices (hp_pmm s') \<and>
              (\<exists>L. heap_rep s' L \<and> L \<noteq> [] \<and> fst (hd L) = m_first_block s')"
proof -
  obtain s' where s': "heap_free (a + 24) s = Some s'" "heap_rep s' (coalesce (K @ (a, z, True) # M))"
    "hp_pmm s' = free_pages a (num_pages z) (hp_pmm s)"
    by (rule heap_free_spec [OF rep])
  have "unat a + 24 + unat z < 2 ^ 63" using rep by (rule heap_rep_split)
  then have "unat (z + 4095) = unat z + 4095" by (subst unat_plus_u64) simp_all
  then have "unat (z + PAGE_SIZE - 1) = unat z + 4095" by (simp add: PAGE_SIZE_def add.commute)
  then have n: "num_pages z = (unat z + 4095) div 4096" by (simp add: num_pages_def unat_div PAGE_SIZE_def)
  have "1 \<le> (unat z + 4095) div 4096" using z by (simp add: div_greater_zero_iff Suc_le_eq)
  then obtain m where m: "num_pages z = Suc m" unfolding n [symmetric] by (cases "num_pages z") auto
  have keep: "i \<in> free_indices (fold (\<lambda>j. free_frame (a + of_nat j * PAGE_SIZE)) js p)"
    if "pmm_ok p" "i \<in> free_indices p" for js p
    using that
  proof (induction js arbitrary: p)
    case (Cons j js)
    then show ?case using free_frame_mono pool.inv_free by simp
  qed simp
  have "i \<in> free_indices (free_frame a (hp_pmm s))"
    using free_indices_free_frame [OF ok i] by simp
  moreover have "[0..<Suc m] = 0 # [Suc 0..<Suc m]" by (simp add: upt_rec)
  ultimately have "i \<in> free_indices (hp_pmm s')"
    using keep pool.inv_free [OF ok] by (simp add: s'(3) m free_pages_def del: upt_Suc)
  moreover have "\<exists>L. heap_rep s' L \<and> L \<noteq> [] \<and> fst (hd L) = m_first_block s'"
    using s'(2) by (cases "coalesce (K @ (a, z, True) # M)") (auto simp: heap_rep_def)
  ultimately show ?thesis using s'(1) by blast
qed

theorem heap_free_releases_heap_frame_witness:
  "\<exists>s s'. heap_free 4120 s = Some s' \<and> 0 \<notin> free_indices (hp_pmm s) \<and> 0 \<in> free_indices (hp_pmm s')"
proof -
  let ?s = "\<lparr>hp_mem = (\<lambda>a. if a = 4096 then \<lparr>blk_size = 32, blk_free = False, blk_next = 4152\<rparr>
      else \<lparr>blk_size = 176, blk_free = True, blk_next = 0\<rparr>), hp_pmm = pmm_example,
      m_first_block = 4096, m_total_size = 256, m_used_memory = 80\<rparr>"
  have rep: "heap_rep ?s ([] @ (4096, 32, False) # [(4152, 176, True)])" by (simp add: heap_rep_def)
  have "n_frames pmm_example = 3" "m_memory_start pmm_example = 4096"
    by (simp_all add: n_frames_def pmm_example_def)
  then have "\<exists>s'. heap_free (4096 + 24) ?s = Some s' \<and> 0 \<in> free_indices (hp_pmm s')"
    using heap_free_releases_heap_frame [OF rep, of 0 0] by (auto simp: pmm_example_ok)
  then obtain s' where "heap_free 4120 ?s = Some s'" "0 \<in> free_indices (hp_pmm s')" by auto
  moreover have "0 \<notin> free_indices (hp_pmm ?s)" by (simp add: pmm_example_free)
  ultimately show ?thesis by blast
qed

text \<open>
  rounding wraps around. A request within 15 bytes of the largest \<open>size_t\<close> is rounded to 0 and
  served from any free block: the caller receives a pointer to a region of length 0.
\<close>

theorem heap_allocate_wraps:
  assumes rep: "heap_rep s (K @ (a, z, True) # M)" and sz: "2 ^ 64 - 15 \<le> unat sz"
    and K: "\<forall>b \<in> set K. \<not> snd (snd b)" and z: "56 \<le> unat z"
  shows "\<exists>s'. heap_allocate sz s = Some (a + 24, s') \<and> (a + 24, 0) \<in> heap_live s'"
proof -
  have lt: "unat sz - 18446744073709551601 < 18446744073709551616"
    using unat_u64_lt [of sz] by linarith
  have "unat (sz + 15) = (unat sz + 15) mod 18446744073709551616"
    by (simp add: unat_word_ariths)
  also have "\<dots> = unat sz + 15 - 18446744073709551616"
    using sz by (simp add: le_mod_geq mod_less [OF lt])
  finally have "unat (sz + 15) < 16" using unat_u64_lt [of sz] by linarith
  then have low: "(sz + 15) AND mask 4 = sz + 15"
    by (simp add: word_unat_eq_iff unat_and_mask)
  have "(15 :: u64) = mask 4" by (simp add: mask_eq_exp_minus_1)
  then have "round_up sz = (sz + 15) AND NOT (mask 4)" by (simp only: round_up_def)
  also have "\<dots> = ((sz + 15) AND mask 4) AND NOT (mask 4)" by (simp only: low)
  also have "\<dots> = 0" by (rule bit_word_eqI) (simp add: bit_simps)
  finally have r: "round_up sz = 0" .
  have n: "num_pages 0 = 0" by (simp add: num_pages_def PAGE_SIZE_def)
  have nz: "sz \<noteq> 0" using sz by auto
  have pg: "alloc_pages a 0 (num_pages (round_up sz)) (hp_pmm s) = (True, hp_pmm s)"
    by (simp add: r n alloc_pages.simps)
  have K': "\<forall>b \<in> set K. \<not> fits (round_up sz) b" using K by (simp add: fits_def)
  obtain s' where "heap_allocate sz s = Some (if True then a + 24 else nullptr, s')"
    "heap_rep s' (K @ place (round_up sz) (a, z, True) @ M)"
    by (rule heap_allocate_fit [OF rep nz K' _ pg]) (simp_all add: r)
  then show ?thesis using z by (auto simp: heap_live_eq busy_place r)
qed

theorem heap_allocate_wraps_witness:
  "\<exists>s'. heap_allocate 0xFFFFFFFFFFFFFFFF (heap_example 256) = Some (4120, s') \<and> (4120, 0) \<in> heap_live s'"
proof -
  have rep: "heap_rep (heap_example 256) ([] @ (4096, 232, True) # [])"
    using heap_example_rep [of 256] by simp
  show ?thesis using heap_allocate_wraps [OF rep, of "0xFFFFFFFFFFFFFFFF"] by simp
qed

end
