(* ===== verification/Kernel_State.thy ===== *)
theory Kernel_State
  imports Virtual_Memory "HOL-Library.Monad_Syntax"
begin

text \<open>
  The state the process manager, the scheduler and IPC share (\<open>core/process.hpp\<close>,
  \<open>core/scheduler.hpp\<close>), with the two process-manager operations the scheduler calls: the search
  by pid and the switch to another process, down to the register save and restore of
  \<open>asm/context.asm\<close>.

  A \<^verbatim>\<open>Process*\<close> is an address; \<open>procs\<close> is the memory holding the process objects. The process
  table is the list linked through \<open>p_next\<close>. A process's own list of memory regions is only
  pushed to and traversed by its owner and is modelled as a list. The processor the code runs
  on, which the code reads from the APIC, is an argument.
\<close>

type_synonym pid_t = "32 word"

datatype proc_state = Running | Stopped | Zombie | Ready | Waiting

record register_state =
  rax :: u64
  rbx :: u64
  rcx :: u64
  rdx :: u64
  rsi :: u64
  rdi :: u64
  rbp :: u64
  rsp :: u64
  r8 :: u64
  r9 :: u64
  r10 :: u64
  r11 :: u64
  r12 :: u64
  r13 :: u64
  r14 :: u64
  r15 :: u64
  rip :: u64
  rflags :: u64
  cs :: u64
  ss :: u64

record memory_region =
  mr_start :: u64
  mr_size :: u64
  mr_writable :: bool
  mr_executable :: bool

record process =
  p_pid :: pid_t
  p_ppid :: pid_t
  p_name :: bytes
  p_state :: proc_state
  p_next :: u64
  p_entry_point :: u64
  p_memory_regions :: "memory_region list"
  p_brk :: u64
  p_program_break :: u64
  p_registers :: register_state
  p_kernel_stack :: u64
  p_user_stack :: u64
  p_argv :: "bytes list option"
  p_envp :: "bytes list option"
  p_argc :: nat
  p_priority :: u8
  p_total_runtime :: u64
  p_last_run :: u64
  p_waiting_on :: u64

datatype policy = RoundRobin | Priority

record runqueue =
  process_queue :: "u64 list"
  current_index :: nat
  current_time_slice :: u64
  rq_current :: u64
  rq_cpu_id :: u32
  needs_resched :: bool

record kernel =
  k_vm :: vmm
  procs :: "u64 \<Rightarrow> process"
  m_first_process :: u64
  m_current_process :: u64
  m_next_pid :: pid_t
  m_runqueues :: "runqueue list"
  m_policy :: policy
  m_load_balance_counter :: u64
  timer_ticks :: u64
  cpu_regs :: register_state
  sent_ipis :: "(u32 \<times> u8) list"

text \<open>\<open>zero_regs\<close> and \<open>new_process\<close> are the member initialisers of the two structs.\<close>

definition zero_regs :: register_state where
  "zero_regs = \<lparr>rax = 0, rbx = 0, rcx = 0, rdx = 0, rsi = 0, rdi = 0, rbp = 0, rsp = 0, r8 = 0,
     r9 = 0, r10 = 0, r11 = 0, r12 = 0, r13 = 0, r14 = 0, r15 = 0, rip = 0, rflags = 0, cs = 0, ss = 0\<rparr>"

definition new_process :: process where
  "new_process = \<lparr>p_pid = 0, p_ppid = 0, p_name = [], p_state = Stopped, p_next = nullptr,
     p_entry_point = 0, p_memory_regions = [], p_brk = 0, p_program_break = 0,
     p_registers = zero_regs, p_kernel_stack = 0, p_user_stack = 0, p_argv = None, p_envp = None,
     p_argc = 0, p_priority = 5, p_total_runtime = 0, p_last_run = 0, p_waiting_on = nullptr\<rparr>"

definition upd_proc :: "u64 \<Rightarrow> (process \<Rightarrow> process) \<Rightarrow> kernel \<Rightarrow> kernel" where
  "upd_proc p f s = s\<lparr>procs := (procs s)(p := f (procs s p))\<rparr>"

abbreviation set_state :: "u64 \<Rightarrow> proc_state \<Rightarrow> kernel \<Rightarrow> kernel" where
  "set_state p st \<equiv> upd_proc p (\<lambda>q. q\<lparr>p_state := st\<rparr>)"

abbreviation state_of :: "kernel \<Rightarrow> u64 \<Rightarrow> proc_state" where
  "state_of s p \<equiv> p_state (procs s p)"

section \<open>The process table\<close>

partial_function (option) find_pid :: "(u64 \<Rightarrow> process) \<Rightarrow> pid_t \<Rightarrow> u64 \<Rightarrow> u64 option" where
  [code]: "find_pid ps pid current =
     (if current = nullptr then Some nullptr
      else if p_pid (ps current) = pid then Some current
      else find_pid ps pid (p_next (ps current)))"

definition get_process :: "pid_t \<Rightarrow> kernel \<Rightarrow> u64 option" where
  "get_process pid s = find_pid (procs s) pid (m_first_process s)"

definition get_first_process :: "kernel \<Rightarrow> u64" where
  "get_first_process s = m_first_process s"

definition get_current_process :: "kernel \<Rightarrow> u64" where
  "get_current_process s = m_current_process s"

definition set_current_process :: "u64 \<Rightarrow> kernel \<Rightarrow> kernel" where
  "set_current_process p s = s\<lparr>m_current_process := p\<rparr>"

section \<open>Switching\<close>

text \<open>
  \<open>switch_context\<close> of \<open>asm/context.asm\<close>. \<open>cpu\<close> is the register file on entry; its \<open>rip\<close> is the return
  address on the stack. The save copies it; the load takes every register of the new state
  except that \<open>rax\<close> ends up holding the new instruction pointer (it carries it to the stack for
  the final \<open>ret\<close>) and \<open>cs\<close> is not loaded.
\<close>

definition switch_context :: "register_state \<Rightarrow> register_state \<Rightarrow> register_state \<times> register_state" where
  "switch_context cpu new = (cpu, new\<lparr>rax := rip new, cs := cs cpu\<rparr>)"

definition switch_to_process :: "u64 \<Rightarrow> kernel \<Rightarrow> kernel" where
  "switch_to_process process s =
    (if process = nullptr \<or> (state_of s process \<noteq> Running \<and> state_of s process \<noteq> Ready) then s
     else if m_current_process s \<noteq> process then
       let old = m_current_process s;
           s1 = s\<lparr>m_current_process := process\<rparr>;
           s2 = (if old \<noteq> nullptr \<and> state_of s1 old = Running then set_state old Ready s1 else s1);
           s3 = set_state process Running s2;
           (saved, loaded) = switch_context (cpu_regs s3) (p_registers (procs s3 process));
           s4 = (if old \<noteq> nullptr then upd_proc old (\<lambda>q. q\<lparr>p_registers := saved\<rparr>) s3 else s3)
       in s4\<lparr>cpu_regs := loaded\<rparr>
     else s)"

section \<open>Lemmas\<close>

abbreviation next_of :: "kernel \<Rightarrow> u64 \<Rightarrow> u64" where
  "next_of s \<equiv> (\<lambda>p. p_next (procs s p))"

definition proc_list :: "kernel \<Rightarrow> u64 list \<Rightarrow> bool" where
  "proc_list s ps \<longleftrightarrow> chain (next_of s) (m_first_process s) ps"

lemma find_pid_chain:
  "chain (\<lambda>p. p_next (m p)) p xs \<Longrightarrow>
     find_pid m pid p = Some (case find (\<lambda>x. p_pid (m x) = pid) xs of None \<Rightarrow> nullptr | Some x \<Rightarrow> x)"
proof (induction xs arbitrary: p)
  case Nil
  then show ?case by (simp add: find_pid.simps)
next
  case (Cons x xs)
  then show ?case by (auto simp: find_pid.simps [of m pid x])
qed

lemma get_process_list:
  "proc_list s ps \<Longrightarrow>
     get_process pid s = Some (case find (\<lambda>x. p_pid (procs s x) = pid) ps of None \<Rightarrow> nullptr | Some x \<Rightarrow> x)"
  by (simp add: get_process_def proc_list_def find_pid_chain)

lemma upd_proc_simps [simp]:
  "procs (upd_proc p f s) q = (if q = p then f (procs s p) else procs s q)"
  "k_vm (upd_proc p f s) = k_vm s" "m_first_process (upd_proc p f s) = m_first_process s"
  "m_current_process (upd_proc p f s) = m_current_process s"
  "m_next_pid (upd_proc p f s) = m_next_pid s" "m_runqueues (upd_proc p f s) = m_runqueues s"
  "m_policy (upd_proc p f s) = m_policy s" "timer_ticks (upd_proc p f s) = timer_ticks s"
  "m_load_balance_counter (upd_proc p f s) = m_load_balance_counter s"
  "cpu_regs (upd_proc p f s) = cpu_regs s" "sent_ipis (upd_proc p f s) = sent_ipis s"
  by (simp_all add: upd_proc_def)

lemma switch_to_process_frame [simp]:
  "m_runqueues (switch_to_process p s) = m_runqueues s" "m_policy (switch_to_process p s) = m_policy s"
  "k_vm (switch_to_process p s) = k_vm s" "m_first_process (switch_to_process p s) = m_first_process s"
  "m_next_pid (switch_to_process p s) = m_next_pid s"
  "next_of (switch_to_process p s) = next_of s"
  "p_pid (procs (switch_to_process p s) q) = p_pid (procs s q)"
  "p_priority (procs (switch_to_process p s) q) = p_priority (procs s q)"
  by (auto simp: switch_to_process_def Let_def switch_context_def)

text \<open>
  the switch saves and restores a process. Switching from process \<open>p\<close> to \<open>q\<close> and back leaves \<open>p\<close>
  current and running with all callee-saved registers and the flags as they were on entry.
  Two registers are not as a return would leave them: \<open>rax\<close> holds the return address, and \<open>rsp\<close>
  still points at the return address, 8 bytes below where \<open>ret\<close> would put it.
\<close>

theorem switch_roundtrip:
  assumes "m_current_process s = p" "p \<noteq> 0" "q \<noteq> 0" "p \<noteq> q" "state_of s p = Running" "state_of s q = Ready"
    and "s2 = switch_to_process p ((switch_to_process q s)\<lparr>cpu_regs := regs\<rparr>)"
  shows "m_current_process (switch_to_process q s) = q \<and> state_of (switch_to_process q s) q = Running \<and>
         state_of (switch_to_process q s) p = Ready \<and>
         m_current_process s2 = p \<and> state_of s2 p = Running \<and> state_of s2 q = Ready \<and>
         cpu_regs s2 = (cpu_regs s)\<lparr>rax := rip (cpu_regs s), cs := cs regs\<rparr> \<and>
         p_registers (procs s2 q) = regs"
  using assms by (simp add: switch_to_process_def switch_context_def Let_def)

definition kernel_example :: kernel where
  "kernel_example = \<lparr>k_vm = vm_example, procs = (\<lambda>p. new_process\<lparr>p_pid := ucast p,
      p_state := (if p = 1 then Running else Ready)\<rparr>), m_first_process = 0, m_current_process = 1,
      m_next_pid = 5, m_runqueues = [], m_policy = RoundRobin, m_load_balance_counter = 0,
      timer_ticks = 0, cpu_regs = zero_regs, sent_ipis = []\<rparr>"

theorem switch_roundtrip_witness:
  "m_current_process (switch_to_process 2 kernel_example) = 2 \<and>
   state_of (switch_to_process 2 kernel_example) 1 = Ready"
  using switch_roundtrip [of kernel_example 1 2 _ zero_regs] by (simp add: kernel_example_def)

end
