(* ===== verification/Scheduler.thy ===== *)
theory Scheduler
  imports Kernel_State "HOL-Library.Multiset"
begin

text \<open>
  The scheduler, \<open>core/scheduler.cpp\<close>: one run queue per processor, round robin or priority
  selection, time slices, load balancing. Queue indices are naturals: they stay below the
  queue length, which the invariant \<open>queue_ok\<close> records.

  \<open>cpu\<close> is the processor the code runs on (\<open>SMPManager::get_current_cpu_id\<close>), \<open>iflag\<close> the interrupt
  flag the tick handler reads from the flags register; an IPI is recorded in \<open>sent_ipis\<close>.
\<close>

section \<open>Operations\<close>

definition DEFAULT_TIME_SLICE :: u64 where
  "DEFAULT_TIME_SLICE = 5"

definition LOAD_BALANCE_PERIOD :: u64 where
  "LOAD_BALANCE_PERIOD = 100"

definition IPI_VECTOR :: u8 where
  "IPI_VECTOR = 0x40"

definition new_runqueue :: "u32 \<Rightarrow> runqueue" where
  "new_runqueue i = \<lparr>process_queue = [], current_index = 0, current_time_slice = DEFAULT_TIME_SLICE,
     rq_current = nullptr, rq_cpu_id = i, needs_resched = False\<rparr>"

definition sched_initialize :: "policy \<Rightarrow> u32 \<Rightarrow> kernel \<Rightarrow> kernel" where
  "sched_initialize policy cpu_count s =
     s\<lparr>m_policy := policy, m_load_balance_counter := 0,
       m_runqueues := map (\<lambda>i. new_runqueue (of_nat i)) [0..<unat cpu_count]\<rparr>"

text \<open>\<open>get_runqueue\<close> returns a pointer into the vector: here the position, \<open>None\<close> for \<open>nullptr\<close>.\<close>

definition get_runqueue :: "u32 \<Rightarrow> kernel \<Rightarrow> nat option" where
  "get_runqueue cpu_id s = find_index (\<lambda>q. rq_cpu_id q = cpu_id) (m_runqueues s)"

abbreviation rq :: "kernel \<Rightarrow> nat \<Rightarrow> runqueue" where
  "rq s i \<equiv> m_runqueues s ! i"

definition upd_rq :: "nat \<Rightarrow> (runqueue \<Rightarrow> runqueue) \<Rightarrow> kernel \<Rightarrow> kernel" where
  "upd_rq i f s = s\<lparr>m_runqueues := (m_runqueues s)[i := f (rq s i)]\<rparr>"

text \<open>The target of \<open>add_process\<close>: the first queue of minimal length; 0 when there is no queue.\<close>

fun min_queue :: "runqueue list \<Rightarrow> nat \<Rightarrow> u32 \<Rightarrow> u32" where
  "min_queue [] m target = target"
| "min_queue (q # qs) m target =
     (if length (process_queue q) < m then min_queue qs (length (process_queue q)) (rq_cpu_id q)
      else min_queue qs m target)"

definition SIZE_MAX :: nat where
  "SIZE_MAX = 2 ^ 64 - 1"

definition add_process :: "u64 \<Rightarrow> kernel \<Rightarrow> kernel" where
  "add_process process s =
    (if process = nullptr then s
     else case get_runqueue (min_queue (m_runqueues s) SIZE_MAX 0) s of
            None \<Rightarrow> s
          | Some i \<Rightarrow>
              if process \<in> set (process_queue (rq s i)) then s
              else upd_rq i (\<lambda>q. q\<lparr>process_queue := process_queue q @ [process]\<rparr>)
                     (set_state process Ready s))"

text \<open>Taking element \<open>j\<close> out of a queue, with the adjustment of the current index.\<close>

definition rq_erase :: "nat \<Rightarrow> runqueue \<Rightarrow> runqueue" where
  "rq_erase j q =
     q\<lparr>current_index := (if current_index q \<ge> j \<and> current_index q > 0 then current_index q - 1
                          else current_index q),
       process_queue := erase_at j (process_queue q)\<rparr>"

fun remove_from :: "u64 \<Rightarrow> runqueue list \<Rightarrow> runqueue list" where
  "remove_from p [] = []"
| "remove_from p (q # qs) =
     (case find_index (\<lambda>x. x = p) (process_queue q) of
        None \<Rightarrow> q # remove_from p qs
      | Some j \<Rightarrow>
          let q' = rq_erase j q
          in (if rq_current q' = p then q'\<lparr>rq_current := nullptr, needs_resched := True\<rparr> else q') # qs)"

definition remove_process :: "u64 \<Rightarrow> kernel \<Rightarrow> kernel" where
  "remove_process process s =
    (if process = nullptr then s else s\<lparr>m_runqueues := remove_from process (m_runqueues s)\<rparr>)"

text \<open>The do-while loop of round robin: advance, stop at a ready process or back at the start.\<close>

partial_function (option) rr_scan ::
    "(u64 \<Rightarrow> process) \<Rightarrow> u64 list \<Rightarrow> nat \<Rightarrow> nat \<Rightarrow> (u64 \<times> nat) option" where
  [code]: "rr_scan ps qs start idx =
     (let idx' = (idx + 1) mod length qs
      in if p_state (ps (qs ! idx')) = Ready then Some (qs ! idx', idx')
         else if idx' = start then Some (nullptr, idx')
         else rr_scan ps qs start idx')"

text \<open>The for loop of priority selection: best priority so far, selected process and its index.\<close>

fun prio_scan :: "(u64 \<Rightarrow> process) \<Rightarrow> u64 list \<Rightarrow> nat \<Rightarrow> u8 \<times> u64 \<times> nat \<Rightarrow> u8 \<times> u64 \<times> nat" where
  "prio_scan ps [] i acc = acc"
| "prio_scan ps (p # qs) i (highest, selected, index) =
     prio_scan ps qs (Suc i)
       (if p_state (ps p) = Ready \<and> p_priority (ps p) > highest then (p_priority (ps p), p, i)
        else (highest, selected, index))"

definition select_next_process :: "nat \<Rightarrow> kernel \<Rightarrow> (u64 \<times> kernel) option" where
  "select_next_process i s =
    (let q = rq s i
     in if process_queue q = [] then Some (nullptr, s)
        else case m_policy s of
               RoundRobin \<Rightarrow> do {
                 (selected, idx) \<leftarrow> rr_scan (procs s) (process_queue q) (current_index q) (current_index q);
                 Some (selected, upd_rq i (\<lambda>q. q\<lparr>current_index := idx\<rparr>) s)
               }
             | Priority \<Rightarrow>
                 let (_, selected, index) = prio_scan (procs s) (process_queue q) 0 (0, nullptr, 0)
                 in Some (selected,
                      if selected \<noteq> nullptr then upd_rq i (\<lambda>q. q\<lparr>current_index := index\<rparr>) s else s))"

definition schedule_on_cpu :: "u32 \<Rightarrow> kernel \<Rightarrow> kernel option" where
  "schedule_on_cpu cpu_id s =
    (case get_runqueue cpu_id s of
       None \<Rightarrow> Some s
     | Some i \<Rightarrow> do {
         (next_process, s1) \<leftarrow> select_next_process i s;
         if next_process = nullptr then Some s1
         else
           let current = rq_current (rq s1 i)
           in if current = next_process then Some s1
              else
                let s2 = upd_rq i (\<lambda>q. q\<lparr>current_time_slice := DEFAULT_TIME_SLICE, rq_current := next_process\<rparr>) s1;
                    s3 = upd_proc next_process (\<lambda>p. p\<lparr>p_last_run := timer_ticks s2\<rparr>) s2;
                    s4 = (if current \<noteq> nullptr then set_state current Ready s3 else s3);
                    s5 = set_state next_process Running s4
                in Some (switch_to_process next_process s5)
       })"

definition schedule :: "u32 \<Rightarrow> kernel \<Rightarrow> kernel option" where
  "schedule cpu s = schedule_on_cpu cpu s"

definition tick_on_cpu :: "bool \<Rightarrow> u32 \<Rightarrow> u32 \<Rightarrow> kernel \<Rightarrow> kernel option" where
  "tick_on_cpu iflag cpu cpu_id s =
    (if \<not> iflag then Some s
     else case get_runqueue cpu_id s of
            None \<Rightarrow> Some s
          | Some i \<Rightarrow>
              let current = rq_current (rq s i)
              in if current = nullptr then Some s
                 else
                   let s1 = upd_proc current (\<lambda>p. p\<lparr>p_total_runtime := p_total_runtime p + 1\<rparr>) s
                   in if p_priority (procs s1 current) \<ge> 9 then Some s1
                      else
                        let s2 = (if current_time_slice (rq s1 i) > 0
                                  then upd_rq i (\<lambda>q. q\<lparr>current_time_slice := current_time_slice q - 1\<rparr>) s1
                                  else s1)
                        in if current_time_slice (rq s2 i) = 0 then
                             let s3 = upd_rq i (\<lambda>q. q\<lparr>needs_resched := True\<rparr>) s2
                             in if cpu_id = cpu then schedule_on_cpu cpu_id s3
                                else Some (s3\<lparr>sent_ipis := (cpu_id, IPI_VECTOR) # sent_ipis s3\<rparr>)
                           else Some s2)"

definition set_process_priority :: "pid_t \<Rightarrow> u8 \<Rightarrow> kernel \<Rightarrow> kernel option" where
  "set_process_priority pid priority s = do {
     process \<leftarrow> get_process pid s;
     if process \<noteq> nullptr
     then Some (upd_proc process (\<lambda>p. p\<lparr>p_priority := (if priority > 10 then 10 else priority)\<rparr>) s)
     else Some s
   }"

definition can_migrate_process :: "u64 \<Rightarrow> u32 \<Rightarrow> kernel \<Rightarrow> bool" where
  "can_migrate_process process to_cpu s \<longleftrightarrow>
     process \<noteq> nullptr \<and> state_of s process \<noteq> Running \<and> \<not> p_priority (procs s process) \<ge> 8 \<and>
     get_runqueue to_cpu s \<noteq> None"

definition migrate_process :: "u64 \<Rightarrow> u32 \<Rightarrow> u32 \<Rightarrow> kernel \<Rightarrow> kernel" where
  "migrate_process process from_cpu to_cpu s =
    (if process = nullptr \<or> from_cpu = to_cpu then s
     else case (get_runqueue from_cpu s, get_runqueue to_cpu s) of
            (Some f, Some t) \<Rightarrow>
              let s1 = (case find_index (\<lambda>x. x = process) (process_queue (rq s f)) of
                          None \<Rightarrow> s
                        | Some j \<Rightarrow> upd_rq f (rq_erase j) s)
              in upd_rq t (\<lambda>q. q\<lparr>process_queue := process_queue q @ [process]\<rparr>) s1
          | _ \<Rightarrow> s)"

text \<open>
  The extremes \<open>load_balance\<close> computes: longest queue and its processor, shortest queue and its
  processor. With no queue at all the code's difference wraps around to 1, here it is 0; both
  end the call.
\<close>

fun balance_scan :: "runqueue list \<Rightarrow> nat \<times> u32 \<times> nat \<times> u32 \<Rightarrow> nat \<times> u32 \<times> nat \<times> u32" where
  "balance_scan [] acc = acc"
| "balance_scan (q # qs) (mx, mxc, mn, mnc) =
     (let n = length (process_queue q);
          (mx', mxc') = (if n > mx then (n, rq_cpu_id q) else (mx, mxc));
          (mn', mnc') = (if n < mn then (n, rq_cpu_id q) else (mn, mnc))
      in balance_scan qs (mx', mxc', mn', mnc'))"

text \<open>The loop leaves \<open>i\<close> where it is after a migration (\<^verbatim>\<open>i--\<close> and then \<^verbatim>\<open>i++\<close>).\<close>

function balance_loop :: "nat \<Rightarrow> u32 \<Rightarrow> u32 \<Rightarrow> nat \<Rightarrow> nat \<Rightarrow> nat \<Rightarrow> kernel \<Rightarrow> kernel" where
  "balance_loop f max_cpu min_cpu i moved to_move s =
    (if i < length (process_queue (rq s f)) \<and> moved < to_move then
       let process = process_queue (rq s f) ! i
       in if can_migrate_process process min_cpu s
          then balance_loop f max_cpu min_cpu i (Suc moved) to_move (migrate_process process max_cpu min_cpu s)
          else balance_loop f max_cpu min_cpu (Suc i) moved to_move s
     else s)"
  by pat_completeness auto
termination
  by (relation "measures [\<lambda>(f, mx, mn, i, moved, to_move, s). to_move - moved,
        \<lambda>(f, mx, mn, i, moved, to_move, s). length (process_queue (rq s f)) - i]") auto

declare balance_loop.simps [simp del]

definition load_balance :: "kernel \<Rightarrow> kernel" where
  "load_balance s =
    (let (max_processes, max_cpu, min_processes, min_cpu) =
           balance_scan (m_runqueues s) (0, 0, SIZE_MAX, 0)
     in if max_processes - min_processes \<le> 1 then s
        else
          let to_move = (max_processes - min_processes) div 2
          in case (get_runqueue max_cpu s, get_runqueue min_cpu s) of
               (Some f, Some t) \<Rightarrow> balance_loop f max_cpu min_cpu 0 0 to_move s
             | _ \<Rightarrow> s)"

definition tick :: "bool \<Rightarrow> u32 \<Rightarrow> kernel \<Rightarrow> kernel option" where
  "tick iflag cpu s = do {
     s1 \<leftarrow> tick_on_cpu iflag cpu cpu s;
     let s2 = s1\<lparr>m_load_balance_counter := m_load_balance_counter s1 + 1\<rparr>;
     if m_load_balance_counter s2 \<ge> LOAD_BALANCE_PERIOD then
       let s3 = s2\<lparr>m_load_balance_counter := 0\<rparr>
       in Some (if cpu = 0 then load_balance s3 else s3)
     else Some s2
   }"

section \<open>The queue invariant\<close>

definition queue_ok :: "runqueue \<Rightarrow> bool" where
  "queue_ok q \<longleftrightarrow> current_index q = 0 \<or> current_index q < length (process_queue q)"

definition sched_ok :: "kernel \<Rightarrow> bool" where
  "sched_ok s \<longleftrightarrow>
     (\<forall>q \<in> set (m_runqueues s). queue_ok q \<and> nullptr \<notin> set (process_queue q)) \<and>
     distinct (concat (map process_queue (m_runqueues s))) \<and>
     distinct (map rq_cpu_id (m_runqueues s))"

definition queued :: "kernel \<Rightarrow> u64 multiset" where
  "queued s = mset (concat (map process_queue (m_runqueues s)))"

lemma length_upd_rq [simp]: "length (m_runqueues (upd_rq i f s)) = length (m_runqueues s)"
  by (simp add: upd_rq_def)

lemma upd_rq_simps [simp]:
  "procs (upd_rq i f s) = procs s" "k_vm (upd_rq i f s) = k_vm s"
  "m_first_process (upd_rq i f s) = m_first_process s" "m_policy (upd_rq i f s) = m_policy s"
  "m_current_process (upd_rq i f s) = m_current_process s" "timer_ticks (upd_rq i f s) = timer_ticks s"
  "m_next_pid (upd_rq i f s) = m_next_pid s"
  by (simp_all add: upd_rq_def)

lemma rq_upd [simp]:
  "i < length (m_runqueues s) \<Longrightarrow> rq (upd_rq i f s) j = (if i = j then f (rq s i) else rq s j)"
  by (simp add: upd_rq_def)

lemma get_runqueue_Some: "get_runqueue c s = Some i \<Longrightarrow> i < length (m_runqueues s) \<and> rq_cpu_id (rq s i) = c"
  by (auto simp: get_runqueue_def find_index_Some)

lemma queue_ok_erase:
  assumes "queue_ok q" "j < length (process_queue q)"
  shows "queue_ok (rq_erase j q)"
  using assms by (auto simp: queue_ok_def rq_erase_def)

section \<open>Round robin\<close>

text \<open>
  Specification: the \<open>k\<close>-th process after the current one, for the least \<open>k\<close> from 1 to the queue
  length at which it is ready.
\<close>

definition ready_at :: "(u64 \<Rightarrow> process) \<Rightarrow> u64 list \<Rightarrow> nat \<Rightarrow> bool" where
  "ready_at ps qs i \<longleftrightarrow> p_state (ps (qs ! (i mod length qs))) = Ready"

lemma rr_scan_some:
  assumes "start < length qs" "idx < length qs" "0 < k" "k \<le> length qs"
    and "(idx + k) mod length qs = start \<or> ready_at ps qs (idx + k)"
    and "\<forall>j. 0 < j \<and> j < k \<longrightarrow> \<not> ready_at ps qs (idx + j) \<and> (idx + j) mod length qs \<noteq> start"
  shows "rr_scan ps qs start idx =
    Some (if ready_at ps qs (idx + k) then qs ! ((idx + k) mod length qs) else nullptr, (idx + k) mod length qs)"
  using assms
proof (induction k arbitrary: idx)
  case 0
  then show ?case by simp
next
  case (Suc k)
  let ?n = "length qs" and ?i = "(idx + 1) mod length qs"
  show ?case
  proof (cases k)
    case 0
    then show ?thesis
      using Suc.prems by (auto simp: rr_scan.simps [of ps qs start idx] ready_at_def Let_def)
  next
    case (Suc m)
    have n1: "\<not> ready_at ps qs (idx + 1)" "?i \<noteq> start"
      using Suc.prems(6) Suc by auto
    have shift: "(?i + j) mod ?n = (idx + Suc j) mod ?n" for j by (simp add: mod_simps)
    have rs: "ready_at ps qs (?i + j) \<longleftrightarrow> ready_at ps qs (idx + Suc j)" for j
      by (simp only: ready_at_def shift)
    have "rr_scan ps qs start idx = rr_scan ps qs start ?i"
      using n1 by (simp add: rr_scan.simps [of ps qs start idx] ready_at_def Let_def)
    also have "\<dots> = Some (if ready_at ps qs (?i + k) then qs ! ((?i + k) mod ?n) else nullptr, (?i + k) mod ?n)"
    proof (rule Suc.IH)
      show "?i < ?n" using Suc.prems(1) by (intro mod_less_divisor) linarith
      show "(?i + k) mod ?n = start \<or> ready_at ps qs (?i + k)"
        unfolding shift rs using Suc.prems(5) .
      show "\<forall>j. 0 < j \<and> j < k \<longrightarrow> \<not> ready_at ps qs (?i + j) \<and> (?i + j) mod ?n \<noteq> start"
        unfolding shift rs using Suc.prems(6) by (metis Suc_less_eq zero_less_Suc)
    qed (use Suc.prems Suc in auto)
    finally show ?thesis unfolding shift rs .
  qed
qed

lemma mod_add_ne: "0 < j \<Longrightarrow> j < n \<Longrightarrow> i < n \<Longrightarrow> (i + j) mod n \<noteq> (i :: nat)"
  by (cases "i + j < n") (auto simp: mod_if)

lemma rr_scan_ready:
  assumes "idx < length qs" "0 < k" "k \<le> length qs" "ready_at ps qs (idx + k)"
    and "\<forall>j. 0 < j \<and> j < k \<longrightarrow> \<not> ready_at ps qs (idx + j)"
  shows "rr_scan ps qs idx idx = Some (qs ! ((idx + k) mod length qs), (idx + k) mod length qs)"
proof -
  have "rr_scan ps qs idx idx = Some (if ready_at ps qs (idx + k) then qs ! ((idx + k) mod length qs)
      else nullptr, (idx + k) mod length qs)"
    by (rule rr_scan_some) (use assms mod_add_ne [of _ "length qs" idx] in auto)
  with assms(4) show ?thesis by simp
qed

lemma rr_scan_none:
  assumes "idx < length qs" "\<forall>p \<in> set qs. p_state (ps p) \<noteq> Ready"
  shows "rr_scan ps qs idx idx = Some (nullptr, idx)"
proof -
  have no: "\<not> ready_at ps qs j" for j
  proof -
    have "j mod length qs < length qs" using assms(1) by (intro mod_less_divisor) linarith
    then show ?thesis using assms(2) by (simp add: ready_at_def)
  qed
  have "rr_scan ps qs idx idx = Some (if ready_at ps qs (idx + length qs) then qs ! ((idx + length qs) mod length qs)
      else nullptr, (idx + length qs) mod length qs)"
    by (rule rr_scan_some) (use assms(1) no mod_add_ne [of _ "length qs" idx] in auto)
  with no assms(1) show ?thesis by simp
qed

lemma ready_distance:
  assumes "idx < length qs" "\<exists>p \<in> set qs. p_state (ps p) = Ready"
  obtains k where "0 < k" "k \<le> length qs" "ready_at ps qs (idx + k)"
    "\<forall>j. 0 < j \<and> j < k \<longrightarrow> \<not> ready_at ps qs (idx + j)"
proof -
  let ?n = "length qs"
  obtain i where i: "i < ?n" "p_state (ps (qs ! i)) = Ready"
    using assms(2) by (auto simp: in_set_conv_nth)
  define d where "d = (if idx < i then i - idx else i + ?n - idx)"
  have d: "0 < d" "d \<le> ?n" "(idx + d) mod ?n = i"
    using i(1) assms(1) by (auto simp: d_def)
  let ?P = "\<lambda>k. 0 < k \<and> ready_at ps qs (idx + k)"
  have Pd: "?P d" using d i(2) by (simp add: ready_at_def)
  show thesis
  proof (rule that [of "LEAST k. ?P k"])
    have L: "?P (LEAST k. ?P k)" using Pd by (rule LeastI)
    then show "0 < (LEAST k. ?P k)" "ready_at ps qs (idx + (LEAST k. ?P k))" by simp_all
    have "(LEAST k. ?P k) \<le> d" using Pd by (rule Least_le)
    then show "(LEAST k. ?P k) \<le> ?n" using d(2) by simp
    show "\<forall>j. 0 < j \<and> j < (LEAST k. ?P k) \<longrightarrow> \<not> ready_at ps qs (idx + j)"
      using not_less_Least by blast
  qed
qed

lemma select_round_robin:
  assumes pol: "m_policy s = RoundRobin" and i: "i < length (m_runqueues s)"
    and ok: "queue_ok (rq s i)" and ne: "process_queue (rq s i) \<noteq> []"
  defines "qs \<equiv> process_queue (rq s i)" and "idx \<equiv> current_index (rq s i)"
  obtains (none) "\<forall>p \<in> set qs. state_of s p \<noteq> Ready"
      "select_next_process i s = Some (nullptr, upd_rq i (\<lambda>q. q\<lparr>current_index := idx\<rparr>) s)"
  | (found) k where "0 < k" "k \<le> length qs" "ready_at (procs s) qs (idx + k)"
      "\<forall>j. 0 < j \<and> j < k \<longrightarrow> \<not> ready_at (procs s) qs (idx + j)"
      "select_next_process i s =
         Some (qs ! ((idx + k) mod length qs), upd_rq i (\<lambda>q. q\<lparr>current_index := (idx + k) mod length qs\<rparr>) s)"
proof (cases "\<exists>p \<in> set qs. state_of s p = Ready")
  case False
  have "idx < length qs" using ok ne by (auto simp: queue_ok_def qs_def idx_def)
  from rr_scan_none [OF this, of "procs s"] False
  show ?thesis
    using pol ne by (intro none) (auto simp: select_next_process_def Let_def qs_def [symmetric] idx_def [symmetric])
next
  case True
  have lt: "idx < length qs" using ok ne by (auto simp: queue_ok_def qs_def idx_def)
  from ready_distance [OF lt True] obtain k where k: "0 < k" "k \<le> length qs"
    "ready_at (procs s) qs (idx + k)" "\<forall>j. 0 < j \<and> j < k \<longrightarrow> \<not> ready_at (procs s) qs (idx + j)" .
  from rr_scan_ready [OF lt k] show ?thesis
    using pol ne by (intro found [OF k])
      (simp add: select_next_process_def Let_def qs_def [symmetric] idx_def [symmetric])
qed

section \<open>Priorities\<close>

lemma prio_scan_spec:
  assumes "prio_scan ps qs i (h, sel, idx) = (h', sel', idx')"
  shows "h \<le> h' \<and>
    (\<forall>p \<in> set qs. p_state (ps p) = Ready \<longrightarrow> p_priority (ps p) \<le> h') \<and>
    (if h' = h then sel' = sel \<and> idx' = idx
     else i \<le> idx' \<and> idx' < i + length qs \<and> sel' = qs ! (idx' - i) \<and>
          p_state (ps sel') = Ready \<and> p_priority (ps sel') = h' \<and>
          (\<forall>j < idx' - i. p_state (ps (qs ! j)) = Ready \<longrightarrow> p_priority (ps (qs ! j)) < h'))"
  using assms
proof (induction qs arbitrary: i h sel idx)
  case Nil
  then show ?case by simp
next
  case (Cons p qs)
  show ?case
  proof (cases "p_state (ps p) = Ready \<and> p_priority (ps p) > h")
    case True
    with Cons.prems have "prio_scan ps qs (Suc i) (p_priority (ps p), p, i) = (h', sel', idx')" by simp
    note IH = Cons.IH [OF this]
    show ?thesis
    proof (cases "h' = p_priority (ps p)")
      case T: True
      with IH True show ?thesis by auto
    next
      case F: False
      with IH have r: "Suc i \<le> idx'" "idx' < Suc i + length qs" "sel' = qs ! (idx' - Suc i)"
        "p_state (ps sel') = Ready" "p_priority (ps sel') = h'" "p_priority (ps p) < h'" "h < h'"
        "\<forall>j < idx' - Suc i. p_state (ps (qs ! j)) = Ready \<longrightarrow> p_priority (ps (qs ! j)) < h'"
        using True by auto
      have s: "idx' - i = Suc (idx' - Suc i)" using r(1) by simp
      have "p_priority (ps ((p # qs) ! j)) < h'" if "j < idx' - i" "p_state (ps ((p # qs) ! j)) = Ready" for j
        using that r(6,8) s by (cases j) auto
      then show ?thesis using IH r True s by auto
    qed
  next
    case False
    with Cons.prems have "prio_scan ps qs (Suc i) (h, sel, idx) = (h', sel', idx')" by auto
    note IH = Cons.IH [OF this]
    have p: "p_state (ps p) = Ready \<longrightarrow> p_priority (ps p) \<le> h" using False by (auto simp: not_less)
    show ?thesis
    proof (cases "h' = h")
      case True
      with IH p show ?thesis by auto
    next
      case F: False
      with IH have r: "Suc i \<le> idx'" "idx' < Suc i + length qs" "sel' = qs ! (idx' - Suc i)" "h < h'"
        "\<forall>j < idx' - Suc i. p_state (ps (qs ! j)) = Ready \<longrightarrow> p_priority (ps (qs ! j)) < h'"
        by auto
      have s: "idx' - i = Suc (idx' - Suc i)" using r(1) by simp
      have "p_priority (ps ((p # qs) ! j)) < h'" if "j < idx' - i" "p_state (ps ((p # qs) ! j)) = Ready" for j
        using that r(4,5) s p by (cases j) auto
      then show ?thesis using IH F r s p by auto
    qed
  qed
qed

section \<open>Properties of selection\<close>

text \<open>
  C7: round robin. On a queue that satisfies the invariant the search always ends. It returns the
  first ready process strictly after the current position in cyclic order (the current process
  itself coming last) and moves the position there; it returns \<open>nullptr\<close>, leaving the position,
  exactly when no process of the queue is ready.
\<close>

theorem round_robin_correct:
  assumes "m_policy s = RoundRobin" "i < length (m_runqueues s)" "queue_ok (rq s i)"
    and "process_queue (rq s i) = qs" "qs \<noteq> []" "current_index (rq s i) = idx" "nullptr \<notin> set qs"
  shows "\<exists>p s'. select_next_process i s = Some (p, s') \<and> queue_ok (rq s' i) \<and> procs s' = procs s \<and>
    (p = nullptr \<longleftrightarrow> (\<forall>q \<in> set qs. state_of s q \<noteq> Ready)) \<and>
    (p = nullptr \<longrightarrow> current_index (rq s' i) = idx) \<and>
    (p \<noteq> nullptr \<longrightarrow> (\<exists>k. 0 < k \<and> k \<le> length qs \<and> p = qs ! ((idx + k) mod length qs) \<and>
       state_of s p = Ready \<and> current_index (rq s' i) = (idx + k) mod length qs \<and>
       (\<forall>j. 0 < j \<and> j < k \<longrightarrow> state_of s (qs ! ((idx + j) mod length qs)) \<noteq> Ready)))"
proof -
  have ne: "process_queue (rq s i) \<noteq> []" using assms(4,5) by simp
  have m: "x mod length qs < length qs" for x using assms(5) by (intro mod_less_divisor) simp
  from assms(1,2,3) ne show ?thesis
  proof (cases rule: select_round_robin)
    case none
    with assms show ?thesis by (auto simp: queue_ok_def)
  next
    case (found k)
    have "qs ! ((idx + k) mod length qs) \<in> set qs" using m by simp
    then have "qs ! ((idx + k) mod length qs) \<noteq> nullptr" using assms(7) by metis
    moreover have "state_of s (qs ! ((idx + k) mod length qs)) = Ready"
      using found(3) assms(4,6) by (simp add: ready_at_def)
    ultimately show ?thesis
      using found assms m [of "idx + k"] \<open>_ \<in> set qs\<close>
      by (auto simp: queue_ok_def ready_at_def intro!: exI [of _ k])
  qed
qed

text \<open>Two ready processes on processor 0.\<close>

definition sched_example :: kernel where
  "sched_example = kernel_example\<lparr>m_current_process := 0, procs := (\<lambda>p. new_process\<lparr>p_state := Ready\<rparr>),
     m_runqueues := [(new_runqueue 0)\<lparr>process_queue := [16, 32]\<rparr>]\<rparr>"

lemma sched_example_simps [simp]:
  "m_policy sched_example = RoundRobin" "length (m_runqueues sched_example) = 1"
  "rq sched_example 0 = (new_runqueue 0)\<lparr>process_queue := [16, 32]\<rparr>" "state_of sched_example p = Ready"
  by (simp_all add: sched_example_def kernel_example_def)

theorem round_robin_correct_witness:
  "\<exists>s'. select_next_process 0 sched_example = Some (32, s')"
proof -
  let ?qs = "[16, 32] :: u64 list"
  have "\<exists>p s'. select_next_process 0 sched_example = Some (p, s') \<and> queue_ok (rq s' 0) \<and>
    procs s' = procs sched_example \<and>
    (p = nullptr \<longleftrightarrow> (\<forall>q \<in> set ?qs. state_of sched_example q \<noteq> Ready)) \<and>
    (p = nullptr \<longrightarrow> current_index (rq s' 0) = 0) \<and>
    (p \<noteq> nullptr \<longrightarrow> (\<exists>k. 0 < k \<and> k \<le> length ?qs \<and> p = ?qs ! ((0 + k) mod length ?qs) \<and>
       state_of sched_example p = Ready \<and> current_index (rq s' 0) = (0 + k) mod length ?qs \<and>
       (\<forall>j. 0 < j \<and> j < k \<longrightarrow> state_of sched_example (?qs ! ((0 + j) mod length ?qs)) \<noteq> Ready)))"
    by (rule round_robin_correct) (simp_all add: queue_ok_def new_runqueue_def)
  then obtain p s' k where *: "select_next_process 0 sched_example = Some (p, s')"
    "0 < k" "p = ?qs ! ((0 + k) mod length ?qs)" "\<forall>j. \<not> (0 < j \<and> j < k)" by auto
  then have "k = 1" by (metis One_nat_def less_one linorder_neqE_nat)
  with * show ?thesis by simp
qed

text \<open>The processes chosen by \<open>n\<close> successive selections.\<close>

fun picks :: "nat \<Rightarrow> nat \<Rightarrow> kernel \<Rightarrow> (u64 list \<times> kernel) option" where
  "picks 0 i s = Some ([], s)"
| "picks (Suc n) i s = do {
     (p, s1) \<leftarrow> select_next_process i s;
     (ps, s2) \<leftarrow> picks n i s1;
     Some (p # ps, s2)
   }"

lemma picks_rotation:
  assumes "m_policy s = RoundRobin" "i < length (m_runqueues s)" "queue_ok (rq s i)"
    and "process_queue (rq s i) = qs" "qs \<noteq> []" "\<forall>p \<in> set qs. state_of s p = Ready"
  shows "\<exists>s'. picks n i s = Some (map (\<lambda>k. qs ! ((current_index (rq s i) + Suc k) mod length qs)) [0..<n], s')"
  using assms
proof (induction n arbitrary: s)
  case 0
  then show ?case by simp
next
  case (Suc n)
  let ?l = "length qs" and ?c = "current_index (rq s i)"
  have m: "x mod ?l < ?l" for x using Suc.prems(5) by (intro mod_less_divisor) simp
  have ready: "ready_at (procs s) qs x" for x
    using Suc.prems(6) m by (simp add: ready_at_def)
  have ne: "process_queue (rq s i) \<noteq> []" using Suc.prems(4,5) by simp
  have lt: "?c < ?l" using Suc.prems(3,4,5) by (auto simp: queue_ok_def)
  define s1 where "s1 = upd_rq i (\<lambda>q. q\<lparr>current_index := (?c + 1) mod ?l\<rparr>) s"
  have "rr_scan (procs s) qs ?c ?c = Some (qs ! ((?c + 1) mod ?l), (?c + 1) mod ?l)"
    by (rule rr_scan_ready) (use lt ready Suc.prems(5) in \<open>auto simp: Suc_le_eq\<close>)
  then have sel: "select_next_process i s = Some (qs ! ((?c + 1) mod ?l), s1)"
    using Suc.prems(1,4,5) by (simp add: select_next_process_def Let_def s1_def)
  have s1: "rq s1 i = (rq s i)\<lparr>current_index := (?c + 1) mod ?l\<rparr>"
    using Suc.prems(2) by (simp add: s1_def)
  have "\<exists>s'. picks n i s1 = Some (map (\<lambda>k. qs ! ((current_index (rq s1 i) + Suc k) mod ?l)) [0..<n], s')"
    by (rule Suc.IH) (use Suc.prems m s1 in \<open>auto simp: s1_def queue_ok_def\<close>)
  moreover have "map (\<lambda>k. qs ! ((current_index (rq s1 i) + Suc k) mod ?l)) [0..<n] =
      map (\<lambda>k. qs ! ((?c + Suc k) mod ?l)) [1..<Suc n]"
  proof -
    have "((?c + 1) mod ?l + Suc k) mod ?l = (?c + Suc (Suc k)) mod ?l" for k
      using mod_add_left_eq [of "?c + 1" ?l "Suc k"] by simp
    then show ?thesis unfolding One_nat_def map_Suc_upt [symmetric] by (simp add: s1 comp_def)
  qed
  ultimately show ?case
    using sel by (auto simp: upt_conv_Cons simp del: upt_Suc)
qed

lemma rotation_set:
  assumes "c < length qs"
  shows "set (map (\<lambda>k. qs ! ((c + Suc k) mod length qs)) [0..<length qs]) = set qs"
proof -
  let ?n = "length qs"
  have "qs ! i \<in> (\<lambda>k. qs ! ((c + Suc k) mod ?n)) ` {0..<?n}" if i: "i < ?n" for i
  proof (cases "c < i")
    case True
    with i have "(c + Suc (i - c - 1)) mod ?n = i" "i - c - 1 < ?n" by auto
    then show ?thesis by (metis (mono_tags, lifting) atLeastLessThan_iff image_eqI zero_le)
  next
    case False
    with i assms have e: "c + Suc (i + ?n - c - 1) = i + ?n" "i + ?n - c - 1 < ?n" by auto
    then have "(c + Suc (i + ?n - c - 1)) mod ?n = i" using i by (simp only: e mod_add_self2 mod_less)
    with e(2) show ?thesis by (metis (mono_tags, lifting) atLeastLessThan_iff image_eqI zero_le)
  qed
  then have "set qs \<subseteq> (\<lambda>k. qs ! ((c + Suc k) mod ?n)) ` {0..<?n}" by (auto simp: in_set_conv_nth)
  moreover have "x mod ?n < ?n" for x using assms by (intro mod_less_divisor) linarith
  ultimately show ?thesis by auto
qed

text \<open>
  C35: round robin is fair. When all processes of a queue are ready, as many selections as the queue
  is long choose every process exactly once.
\<close>

theorem round_robin_fair:
  assumes "m_policy s = RoundRobin" "i < length (m_runqueues s)" "queue_ok (rq s i)"
    and "process_queue (rq s i) = qs" "qs \<noteq> []" "\<forall>p \<in> set qs. state_of s p = Ready" "distinct qs"
  shows "\<exists>ps s'. picks (length qs) i s = Some (ps, s') \<and> distinct ps \<and> set ps = set qs"
proof -
  have lt: "current_index (rq s i) < length qs" using assms(3,4,5) by (auto simp: queue_ok_def)
  let ?ps = "map (\<lambda>k. qs ! ((current_index (rq s i) + Suc k) mod length qs)) [0..<length qs]"
  have "card (set ?ps) = length ?ps"
    unfolding rotation_set [OF lt] using assms(7) by (simp add: distinct_card)
  then have "distinct ?ps" by (rule card_distinct)
  with picks_rotation [OF assms(1-6), of "length qs"] rotation_set [OF lt] show ?thesis by blast
qed

theorem round_robin_fair_witness:
  "\<exists>ps s'. picks (Suc (Suc 0)) 0 sched_example = Some (ps, s') \<and> distinct ps \<and> set ps = {16, 32}"
proof -
  have "\<exists>ps s'. picks (length [16, 32 :: u64]) 0 sched_example = Some (ps, s') \<and> distinct ps \<and>
      set ps = set [16, 32]"
    by (rule round_robin_fair) (simp_all add: queue_ok_def new_runqueue_def)
  then show ?thesis by simp
qed

text \<open>
  priority selection returns, among the ready processes of priority at least 1, the first one of
  the highest priority, and \<open>nullptr\<close> exactly when there is none; a ready process of priority 0 is
  never chosen, even when it is the only one.
\<close>

theorem priority_correct:
  assumes "m_policy s = Priority" "i < length (m_runqueues s)" "process_queue (rq s i) = qs" "nullptr \<notin> set qs"
  shows "\<exists>p s'. select_next_process i s = Some (p, s') \<and>
    (p = nullptr \<longleftrightarrow> (\<forall>q \<in> set qs. state_of s q = Ready \<longrightarrow> p_priority (procs s q) = 0)) \<and>
    (p \<noteq> nullptr \<longrightarrow> (\<exists>j < length qs. p = qs ! j \<and> state_of s p = Ready \<and> 0 < p_priority (procs s p) \<and>
       current_index (rq s' i) = j \<and>
       (\<forall>q \<in> set qs. state_of s q = Ready \<longrightarrow> p_priority (procs s q) \<le> p_priority (procs s p)) \<and>
       (\<forall>k < j. state_of s (qs ! k) = Ready \<longrightarrow> p_priority (procs s (qs ! k)) < p_priority (procs s p))))"
proof (cases "qs = []")
  case True
  with assms show ?thesis by (simp add: select_next_process_def)
next
  case False
  obtain h p j where r: "prio_scan (procs s) qs 0 (0, nullptr, 0) = (h, p, j)" by (metis prod_cases3)
  note sp = prio_scan_spec [OF r]
  have sel: "select_next_process i s =
      Some (p, if p \<noteq> nullptr then upd_rq i (\<lambda>q. q\<lparr>current_index := j\<rparr>) s else s)"
    using assms(1,3) False r by (simp add: select_next_process_def Let_def)
  show ?thesis
  proof (cases "h = 0")
    case True
    with sp sel show ?thesis by auto
  next
    case False
    with sp have f: "j < length qs" "p = qs ! j" "state_of s p = Ready" "p_priority (procs s p) = h"
      "\<forall>q \<in> set qs. state_of s q = Ready \<longrightarrow> p_priority (procs s q) \<le> h"
      "\<forall>k < j. state_of s (qs ! k) = Ready \<longrightarrow> p_priority (procs s (qs ! k)) < h" by auto
    have "p \<in> set qs" using f(1,2) by simp
    then have "p \<noteq> nullptr" using assms(4) by auto
    moreover have "0 < h" using False by (simp add: word_gt_0)
    ultimately show ?thesis
      using sel f assms(2) False \<open>p \<in> set qs\<close> by (auto intro!: exI [of _ j])
  qed
qed

theorem priority_correct_witness:
  "\<exists>p s'. select_next_process 0 (sched_example\<lparr>m_policy := Priority\<rparr>) = Some (p, s') \<and> p \<noteq> nullptr"
proof -
  let ?s = "sched_example\<lparr>m_policy := Priority\<rparr>"
  have "p_priority (procs ?s 16) = 5" by (simp add: sched_example_def new_process_def)
  then show ?thesis
    using priority_correct [of ?s 0 "[16, 32]"] by (auto simp: sched_example_def)
qed

section \<open>Queue contents\<close>

lemma mset_concat_update:
  "i < length xss \<Longrightarrow> mset (concat (xss[i := ys])) + mset (xss ! i) = mset (concat xss) + mset ys"
proof (induction xss arbitrary: i)
  case (Cons xs xss)
  show ?case
  proof (cases i)
    case 0
    then show ?thesis by (simp add: ac_simps)
  next
    case (Suc k)
    with Cons show ?thesis by (simp add: add.assoc)
  qed
qed simp

lemma queued_upd:
  assumes "i < length (m_runqueues s)"
  shows "queued (upd_rq i f s) + mset (process_queue (rq s i)) = queued s + mset (process_queue (f (rq s i)))"
  using mset_concat_update [of i "map process_queue (m_runqueues s)" "process_queue (f (rq s i))"] assms
  by (simp add: queued_def upd_rq_def map_update)

lemma distinct_queued: "distinct (concat (map process_queue (m_runqueues s))) \<longleftrightarrow> (\<forall>p. count (queued s) p \<le> 1)"
  unfolding queued_def distinct_count_atmost_1 by (simp add: le_Suc_eq count_eq_zero_iff) (metis One_nat_def count_eq_zero_iff not_in_iff)

lemma mset_erase_at:
  assumes "j < length xs"
  shows "mset (erase_at j xs) + {#xs ! j#} = mset xs"
proof -
  have "mset xs = mset (take j xs @ xs ! j # drop (Suc j) xs)" using id_take_nth_drop [OF assms] by simp
  then show ?thesis using assms by (simp add: erase_at_eq)
qed

lemma rq_erase_simps [simp]:
  "process_queue (rq_erase j q) = erase_at j (process_queue q)" "rq_cpu_id (rq_erase j q) = rq_cpu_id q"
  "rq_current (rq_erase j q) = rq_current q"
  by (simp_all add: rq_erase_def)

lemma cpu_ids_upd:
  assumes "i < length (m_runqueues s)" "\<And>q. rq_cpu_id (f q) = rq_cpu_id q"
  shows "map rq_cpu_id (m_runqueues (upd_rq i f s)) = map rq_cpu_id (m_runqueues s)"
  using assms by (simp add: upd_rq_def map_update list_update_same_conv)

lemma find_index_map: "find_index P (map f xs) = find_index (\<lambda>x. P (f x)) xs"
  by (induction xs) auto

lemma get_runqueue_cong:
  "map rq_cpu_id (m_runqueues s') = map rq_cpu_id (m_runqueues s) \<Longrightarrow> get_runqueue c s' = get_runqueue c s"
proof -
  have "get_runqueue c t = find_index (\<lambda>x. x = c) (map rq_cpu_id (m_runqueues t))" for t
    by (simp add: get_runqueue_def find_index_map)
  then show "map rq_cpu_id (m_runqueues s') = map rq_cpu_id (m_runqueues s) \<Longrightarrow> ?thesis" by simp
qed

lemma min_queue_spec:
  assumes "\<forall>q \<in> set qs. length (process_queue q) < m" "qs \<noteq> []"
  shows "\<exists>q \<in> set qs. min_queue qs m t = rq_cpu_id q \<and>
    (\<forall>r \<in> set qs. length (process_queue q) \<le> length (process_queue r))"
proof -
  have gen: "(\<exists>q \<in> set qs. length (process_queue q) < m) \<Longrightarrow>
      \<exists>q \<in> set qs. min_queue qs m t = rq_cpu_id q \<and> length (process_queue q) < m \<and>
        (\<forall>r \<in> set qs. length (process_queue q) \<le> length (process_queue r))"
    and none: "(\<forall>q \<in> set qs. m \<le> length (process_queue q)) \<Longrightarrow> min_queue qs m t = t" for qs m t
  proof (induction qs arbitrary: m t)
    case (Cons x qs)
    {
      case 1
      let ?n = "length (process_queue x)"
      show ?case
      proof (cases "?n < m")
        case True
        show ?thesis
        proof (cases "\<exists>q \<in> set qs. length (process_queue q) < ?n")
          case T: True
          from Cons.IH(1) [OF T, of "rq_cpu_id x"] True show ?thesis by fastforce
        next
          case F: False
          then have "min_queue qs ?n (rq_cpu_id x) = rq_cpu_id x"
            using Cons.IH(2) [of ?n "rq_cpu_id x"] by (auto simp: not_less)
          with True F show ?thesis by (auto simp: not_less)
        qed
      next
        case False
        with 1 have "\<exists>q \<in> set qs. length (process_queue q) < m" by auto
        from Cons.IH(1) [OF this, of t] False show ?thesis by fastforce
      qed
    next
      case 2
      then show ?case using Cons.IH(2) [of m t] by simp
    }
  qed simp_all
  have "\<exists>q \<in> set qs. length (process_queue q) < m" using assms by (cases qs) auto
  from gen [OF this, of t] show ?thesis by blast
qed

lemma get_runqueue_id:
  assumes "distinct (map rq_cpu_id (m_runqueues s))" "i < length (m_runqueues s)"
  shows "get_runqueue (rq_cpu_id (rq s i)) s = Some i"
  unfolding get_runqueue_def find_index_Some
  using assms by (auto simp: distinct_conv_nth)

lemma sched_okI:
  assumes "\<forall>q \<in> set (m_runqueues s). queue_ok q \<and> nullptr \<notin> set (process_queue q)"
    "\<forall>p. count (queued s) p \<le> 1" "distinct (map rq_cpu_id (m_runqueues s))"
  shows "sched_ok s"
  using assms by (simp add: sched_ok_def distinct_queued)

lemma set_runqueues_upd:
  assumes "i < length (m_runqueues s)" "\<forall>q \<in> set (m_runqueues s). P q" "P (f (rq s i))"
  shows "\<forall>q \<in> set (m_runqueues (upd_rq i f s)). P q"
  using assms set_update_subset_insert [of "m_runqueues s" i "f (rq s i)"] by (auto simp: upd_rq_def)

lemma add_process_spec:
  assumes ok: "sched_ok s" and p: "p \<noteq> nullptr" "p \<notin># queued s" and ne: "m_runqueues s \<noteq> []"
    and len: "\<forall>q \<in> set (m_runqueues s). length (process_queue q) < SIZE_MAX"
  shows "\<exists>i < length (m_runqueues s).
           (\<forall>j < length (m_runqueues s). length (process_queue (rq s i)) \<le> length (process_queue (rq s j))) \<and>
           m_runqueues (add_process p s) =
             (m_runqueues s)[i := (rq s i)\<lparr>process_queue := process_queue (rq s i) @ [p]\<rparr>] \<and>
           state_of (add_process p s) p = Ready \<and> sched_ok (add_process p s) \<and>
           queued (add_process p s) = add_mset p (queued s)"
proof -
  obtain q where q: "q \<in> set (m_runqueues s)" "min_queue (m_runqueues s) SIZE_MAX 0 = rq_cpu_id q"
    "\<forall>r \<in> set (m_runqueues s). length (process_queue q) \<le> length (process_queue r)"
    using min_queue_spec [OF len ne] by blast
  then obtain i where i: "i < length (m_runqueues s)" "q = rq s i" by (auto simp: in_set_conv_nth)
  have dist: "distinct (map rq_cpu_id (m_runqueues s))" using ok by (simp add: sched_ok_def)
  have g: "get_runqueue (min_queue (m_runqueues s) SIZE_MAX 0) s = Some i"
    using get_runqueue_id [OF dist i(1)] q(2) i(2) by simp
  have "p \<notin> set (process_queue (rq s i))"
    using p(2) i(1) by (auto simp: queued_def in_multiset_in_set)
  then have a: "add_process p s = upd_rq i (\<lambda>q. q\<lparr>process_queue := process_queue q @ [p]\<rparr>) (set_state p Ready s)"
    using p(1) g by (simp add: add_process_def)
  let ?t = "set_state p Ready s"
  have tq: "queued ?t = queued s" by (simp add: queued_def)
  have "queued (add_process p s) + mset (process_queue (rq s i)) =
      queued s + mset (process_queue (rq s i) @ [p])"
    unfolding a using queued_upd [of i ?t] i(1) tq by simp
  then have qd: "queued (add_process p s) = add_mset p (queued s)" by simp
  have "\<forall>q \<in> set (m_runqueues (add_process p s)). queue_ok q \<and> nullptr \<notin> set (process_queue q)"
    unfolding a using ok i(1) p(1)
    by (intro set_runqueues_upd) (auto simp: sched_ok_def queue_ok_def)
  moreover have "\<forall>x. count (queued (add_process p s)) x \<le> 1"
    using ok p(2) unfolding qd sched_ok_def distinct_queued by (auto simp: not_in_iff)
  moreover have "distinct (map rq_cpu_id (m_runqueues (add_process p s)))"
    unfolding a using dist i(1) by (subst cpu_ids_upd) simp_all
  ultimately have "sched_ok (add_process p s)" by (rule sched_okI)
  moreover have "m_runqueues (add_process p s) =
      (m_runqueues s)[i := (rq s i)\<lparr>process_queue := process_queue (rq s i) @ [p]\<rparr>]"
    by (simp add: a upd_rq_def)
  moreover have "state_of (add_process p s) p = Ready" by (simp add: a)
  ultimately show ?thesis using q(3) i qd by (intro exI [of _ i]) auto
qed

text \<open>
  \<open>add_process\<close> marks a process that is in no queue ready and appends it to a shortest queue;
  every other queue is unchanged, no process is lost or doubled, and the invariant is kept.
\<close>

theorem add_process_correct:
  assumes ok: "sched_ok s" and p: "p \<noteq> nullptr" "p \<notin># queued s" and ne: "m_runqueues s \<noteq> []"
    and len: "\<forall>q \<in> set (m_runqueues s). length (process_queue q) < SIZE_MAX"
  shows "\<exists>i < length (m_runqueues s).
           (\<forall>j < length (m_runqueues s). length (process_queue (rq s i)) \<le> length (process_queue (rq s j))) \<and>
           m_runqueues (add_process p s) =
             (m_runqueues s)[i := (rq s i)\<lparr>process_queue := process_queue (rq s i) @ [p]\<rparr>] \<and>
           state_of (add_process p s) p = Ready \<and> sched_ok (add_process p s) \<and>
           queued (add_process p s) = add_mset p (queued s)"
  using assms by (rule add_process_spec)

theorem add_process_correct_witness:
  "queued (add_process 48 sched_example) = {#16, 32, 48#}"
proof -
  have q: "queued sched_example = {#16, 32#}" by (simp add: queued_def sched_example_def new_runqueue_def)
  have "sched_ok sched_example"
    by (simp add: sched_ok_def sched_example_def new_runqueue_def queue_ok_def)
  moreover have "m_runqueues sched_example \<noteq> []" by (simp add: sched_example_def)
  ultimately show ?thesis
    using add_process_correct [of sched_example 48] q
    by (auto simp: SIZE_MAX_def) (simp_all add: sched_example_def new_runqueue_def)
qed

text \<open>
  \<open>add_process\<close> only looks for the process in the queue it is about to use. A process that waits
  in another, longer queue ends up in two queues at once and can be selected by two processors.
\<close>

theorem add_process_duplicates:
  assumes "p \<noteq> nullptr" "get_runqueue (min_queue (m_runqueues s) SIZE_MAX 0) s = Some i"
    and "j < length (m_runqueues s)" "j \<noteq> i" "p \<in> set (process_queue (rq s j))" "p \<notin> set (process_queue (rq s i))"
  shows "p \<in> set (process_queue (rq (add_process p s) i)) \<and> p \<in> set (process_queue (rq (add_process p s) j)) \<and>
         \<not> sched_ok (add_process p s)"
proof -
  have i: "i < length (m_runqueues s)" using assms(2) get_runqueue_Some by blast
  have a: "add_process p s = upd_rq i (\<lambda>q. q\<lparr>process_queue := process_queue q @ [p]\<rparr>) (set_state p Ready s)"
    using assms by (simp add: add_process_def)
  have b: "p \<in> set (process_queue (rq (add_process p s) i))" "p \<in> set (process_queue (rq (add_process p s) j))"
    using i assms by (simp_all add: a)
  let ?t = "set_state p Ready s"
  have "queued (add_process p s) + mset (process_queue (rq s i)) = queued s + mset (process_queue (rq s i) @ [p])"
    unfolding a using queued_upd [of i ?t] i by (simp add: queued_def)
  then have "queued (add_process p s) = add_mset p (queued s)" by simp
  moreover have "p \<in># queued s" using assms(3,5) by (auto simp: queued_def in_multiset_in_set)
  ultimately have "count (queued (add_process p s)) p \<noteq> 0 \<and> \<not> count (queued (add_process p s)) p \<le> 1"
    by (simp add: count_eq_zero_iff [symmetric] Suc_le_eq)
  with b show ?thesis by (auto simp: sched_ok_def distinct_queued)
qed

theorem add_process_duplicates_witness:
  "let s = sched_example\<lparr>m_runqueues := [(new_runqueue 0)\<lparr>process_queue := [16]\<rparr>, new_runqueue 1]\<rparr>
   in 16 \<in> set (process_queue (rq (add_process 16 s) 0)) \<and> 16 \<in> set (process_queue (rq (add_process 16 s) 1))"
  using add_process_duplicates [of 16 "sched_example\<lparr>m_runqueues := [(new_runqueue 0)\<lparr>process_queue := [16]\<rparr>,
      new_runqueue 1]\<rparr>" 1 0]
  by (simp add: get_runqueue_def new_runqueue_def SIZE_MAX_def)

lemma diff_add_notin: "p \<notin># A \<Longrightarrow> A + (B - {#p#}) = A + B - {#p#}"
  by (rule multiset_eqI) (auto simp: not_in_iff)

lemma remove_from_spec:
  assumes "\<forall>q \<in> set qs. queue_ok q \<and> nullptr \<notin> set (process_queue q)"
  shows "mset (concat (map process_queue (remove_from p qs))) = mset (concat (map process_queue qs)) - {#p#}"
    and "map rq_cpu_id (remove_from p qs) = map rq_cpu_id qs"
    and "\<forall>q \<in> set (remove_from p qs). queue_ok q \<and> nullptr \<notin> set (process_queue q)"
    and "p \<in># mset (concat (map process_queue qs)) \<Longrightarrow> distinct (concat (map process_queue qs)) \<Longrightarrow>
      (\<forall>q \<in> set qs. rq_current q = p \<longrightarrow> p \<in> set (process_queue q)) \<Longrightarrow> p \<noteq> nullptr \<Longrightarrow>
      \<forall>q \<in> set (remove_from p qs). rq_current q \<noteq> p"
proof -
  have "mset (concat (map process_queue (remove_from p qs))) = mset (concat (map process_queue qs)) - {#p#} \<and>
    map rq_cpu_id (remove_from p qs) = map rq_cpu_id qs \<and>
    (\<forall>q \<in> set (remove_from p qs). queue_ok q \<and> nullptr \<notin> set (process_queue q)) \<and>
    (p \<in># mset (concat (map process_queue qs)) \<longrightarrow> distinct (concat (map process_queue qs)) \<longrightarrow>
      (\<forall>q \<in> set qs. rq_current q = p \<longrightarrow> p \<in> set (process_queue q)) \<longrightarrow> p \<noteq> nullptr \<longrightarrow>
      (\<forall>q \<in> set (remove_from p qs). rq_current q \<noteq> p))"
    using assms
  proof (induction qs)
    case (Cons q qs)
    show ?case
    proof (cases "find_index (\<lambda>x. x = p) (process_queue q)")
      case None
      then have "p \<notin> set (process_queue q)" by (auto simp: find_index_None)
      then have "mset (process_queue q) + (mset (concat (map process_queue qs)) - {#p#}) =
          mset (process_queue q) + mset (concat (map process_queue qs)) - {#p#}"
        by (intro diff_add_notin) simp
      with None Cons \<open>p \<notin> _\<close> show ?thesis by auto
    next
      case (Some j)
      then have j: "j < length (process_queue q)" "process_queue q ! j = p"
        by (auto dest: find_index_SomeD)
      have m: "mset (process_queue q) = add_mset p (mset (erase_at j (process_queue q)))"
        using mset_erase_at [OF j(1)] j(2) by simp
      define q' where "q' = (if rq_current q = p then (rq_erase j q)\<lparr>rq_current := nullptr, needs_resched := True\<rparr>
          else rq_erase j q)"
      have rf: "remove_from p (q # qs) = q' # qs" using Some by (simp add: q'_def Let_def)
      have q': "process_queue q' = erase_at j (process_queue q)" "rq_cpu_id q' = rq_cpu_id q"
        "p \<noteq> nullptr \<Longrightarrow> rq_current q' \<noteq> p" by (simp_all add: q'_def)
      have "queue_ok (rq_erase j q)" using queue_ok_erase [OF _ j(1)] Cons.prems by simp
      then have ok': "queue_ok q'" by (simp add: q'_def queue_ok_def)
      have n': "nullptr \<notin> set (process_queue q')"
        using Cons.prems set_erase_at_subset [OF j(1)] by (auto simp: q')
      have pq: "p \<in> set (process_queue q)" using j by (metis nth_mem)
      have others: "rq_current r \<noteq> p" if r: "r \<in> set qs" and d: "distinct (concat (map process_queue (q # qs)))"
        and c: "\<forall>q \<in> set (q # qs). rq_current q = p \<longrightarrow> p \<in> set (process_queue q)" for r
      proof
        assume "rq_current r = p"
        with c r have "p \<in> set (concat (map process_queue qs))" by auto
        with d pq show False by (auto simp del: set_concat)
      qed
      show ?thesis
      proof (intro conjI impI)
        show "mset (concat (map process_queue (remove_from p (q # qs)))) =
            mset (concat (map process_queue (q # qs))) - {#p#}" unfolding rf by (simp add: q' m)
        show "map rq_cpu_id (remove_from p (q # qs)) = map rq_cpu_id (q # qs)" unfolding rf by (simp add: q')
        show "\<forall>r \<in> set (remove_from p (q # qs)). queue_ok r \<and> nullptr \<notin> set (process_queue r)"
          unfolding rf using ok' n' Cons.prems by simp
        assume "distinct (concat (map process_queue (q # qs)))"
          "\<forall>q \<in> set (q # qs). rq_current q = p \<longrightarrow> p \<in> set (process_queue q)" "p \<noteq> nullptr"
        then show "\<forall>r \<in> set (remove_from p (q # qs)). rq_current r \<noteq> p"
          using others q'(3) unfolding rf by simp
      qed
    qed
  qed simp
  then show "mset (concat (map process_queue (remove_from p qs))) = mset (concat (map process_queue qs)) - {#p#}"
    "map rq_cpu_id (remove_from p qs) = map rq_cpu_id qs"
    "\<forall>q \<in> set (remove_from p qs). queue_ok q \<and> nullptr \<notin> set (process_queue q)"
    "p \<in># mset (concat (map process_queue qs)) \<Longrightarrow> distinct (concat (map process_queue qs)) \<Longrightarrow>
      (\<forall>q \<in> set qs. rq_current q = p \<longrightarrow> p \<in> set (process_queue q)) \<Longrightarrow> p \<noteq> nullptr \<Longrightarrow>
      \<forall>q \<in> set (remove_from p qs). rq_current q \<noteq> p"
    by blast+
qed

lemma queued_remove:
  assumes "sched_ok s" "p \<noteq> nullptr"
  shows "queued (remove_process p s) = queued s - {#p#}"
  using remove_from_spec(1) [of "m_runqueues s" p] assms
  by (simp add: remove_process_def queued_def sched_ok_def)

text \<open>
  \<open>remove_process\<close> takes the process out of its queue and keeps everything else queued, the
  invariant and the validity of every current index; afterwards no processor has it as its
  current process, provided current processes were queued on their own processor.
\<close>

theorem remove_process_correct:
  assumes ok: "sched_ok s" and p: "p \<noteq> nullptr" "p \<in># queued s"
    and cur: "\<forall>q \<in> set (m_runqueues s). rq_current q = p \<longrightarrow> p \<in> set (process_queue q)"
  shows "sched_ok (remove_process p s) \<and> queued (remove_process p s) = queued s - {#p#} \<and>
         p \<notin># queued (remove_process p s) \<and> (\<forall>q \<in> set (m_runqueues (remove_process p s)). rq_current q \<noteq> p)"
proof -
  have q: "\<forall>q \<in> set (m_runqueues s). queue_ok q \<and> nullptr \<notin> set (process_queue q)"
    and d: "distinct (concat (map process_queue (m_runqueues s)))" using ok by (auto simp: sched_ok_def)
  have one: "\<forall>x. count (queued s) x \<le> 1" using d by (simp add: distinct_queued)
  have eq: "queued (remove_process p s) = queued s - {#p#}" by (rule queued_remove [OF ok p(1)])
  have "sched_ok (remove_process p s)"
  proof (rule sched_okI)
    show "\<forall>x. count (queued (remove_process p s)) x \<le> 1"
      unfolding eq using one by (meson diff_subset_eq_self mset_subset_eq_count order_trans)
  qed (use remove_from_spec(2,3) [OF q, of p] ok p(1) in \<open>auto simp: remove_process_def sched_ok_def\<close>)
  moreover have "p \<notin># queued s - {#p#}"
    using one [rule_format, of p] by (simp add: not_in_iff)
  ultimately show ?thesis
    using eq remove_from_spec(4) [OF q _ d cur p(1)] p by (simp add: remove_process_def queued_def)
qed

theorem remove_process_correct_witness:
  "queued (remove_process 16 sched_example) = {#32#} \<and> sched_ok (remove_process 16 sched_example)"
proof -
  have q: "queued sched_example = {#16, 32#}" by (simp add: queued_def sched_example_def new_runqueue_def)
  have "sched_ok sched_example"
    by (simp add: sched_ok_def sched_example_def new_runqueue_def queue_ok_def)
  then show ?thesis
    using remove_process_correct [of sched_example 16] q
    by (auto simp: sched_example_def new_runqueue_def)
qed

section \<open>Balancing\<close>

text \<open>A migration between two different queues.\<close>

lemma migrate_spec:
  assumes ok: "sched_ok s" and f: "get_runqueue fc s = Some f" and t: "get_runqueue tc s = Some t" "f \<noteq> t"
    and p: "p \<in> set (process_queue (rq s f))"
  defines "s' \<equiv> migrate_process p fc tc s"
  shows "sched_ok s'" "queued s' = queued s" "procs s' = procs s"
    "map rq_cpu_id (m_runqueues s') = map rq_cpu_id (m_runqueues s)"
    "length (process_queue (rq s' f)) = length (process_queue (rq s f)) - 1"
    "length (process_queue (rq s' t)) = Suc (length (process_queue (rq s t)))"
    "\<And>i. i \<noteq> f \<Longrightarrow> i \<noteq> t \<Longrightarrow> rq s' i = rq s i"
    "set (process_queue (rq s' f)) \<subseteq> set (process_queue (rq s f))"
proof -
  have lf: "f < length (m_runqueues s)" "rq_cpu_id (rq s f) = fc" and lt: "t < length (m_runqueues s)" "rq_cpu_id (rq s t) = tc"
    using get_runqueue_Some [OF f] get_runqueue_Some [OF t(1)] by auto
  have q: "\<forall>q \<in> set (m_runqueues s). queue_ok q \<and> nullptr \<notin> set (process_queue q)"
    using ok by (simp add: sched_ok_def)
  have "fc \<noteq> tc" using f t by auto
  have pn: "p \<noteq> nullptr" using p q lf(1) by (metis nth_mem)
  obtain j where fi: "find_index (\<lambda>x. x = p) (process_queue (rq s f)) = Some j"
    using p find_index_None [of "\<lambda>x. x = p" "process_queue (rq s f)"] by (cases "find_index (\<lambda>x. x = p) (process_queue (rq s f))") auto
  then have j: "j < length (process_queue (rq s f))" "process_queue (rq s f) ! j = p"
    by (auto dest: find_index_SomeD)
  define s1 where "s1 = upd_rq f (rq_erase j) s"
  have s': "s' = upd_rq t (\<lambda>q. q\<lparr>process_queue := process_queue q @ [p]\<rparr>) s1"
    using pn \<open>fc \<noteq> tc\<close> f t(1) fi by (simp add: s'_def migrate_process_def s1_def)
  have l1: "f < length (m_runqueues s1)" "t < length (m_runqueues s1)" using lf lt by (simp_all add: s1_def)
  have r1: "rq s1 f = rq_erase j (rq s f)" "rq s1 t = rq s t" using lf t(2) by (simp_all add: s1_def)
  have "queued s1 + mset (process_queue (rq s f)) = queued s + mset (erase_at j (process_queue (rq s f)))"
    unfolding s1_def using queued_upd [OF lf(1), of "rq_erase j"] by simp
  moreover have "mset (process_queue (rq s f)) = add_mset p (mset (erase_at j (process_queue (rq s f))))"
    using mset_erase_at [OF j(1)] j(2) by simp
  ultimately have "add_mset p (queued s1) = queued s" by simp
  moreover have "queued s' + mset (process_queue (rq s1 t)) = queued s1 + mset (process_queue (rq s1 t) @ [p])"
    unfolding s' using queued_upd [OF l1(2)] by simp
  ultimately show qd: "queued s' = queued s" by simp
  show "procs s' = procs s" by (simp add: s' s1_def)
  show ids: "map rq_cpu_id (m_runqueues s') = map rq_cpu_id (m_runqueues s)"
    unfolding s' s1_def using lf lt by (subst cpu_ids_upd; simp add: cpu_ids_upd)
  show "sched_ok s'"
  proof (rule sched_okI)
    have "\<forall>q \<in> set (m_runqueues s1). queue_ok q \<and> nullptr \<notin> set (process_queue q)"
      unfolding s1_def using q lf(1) queue_ok_erase [OF _ j(1)] set_erase_at_subset [OF j(1)]
      by (intro set_runqueues_upd) auto
    then show "\<forall>q \<in> set (m_runqueues s'). queue_ok q \<and> nullptr \<notin> set (process_queue q)"
      unfolding s' using l1(2) pn by (intro set_runqueues_upd) (auto simp: queue_ok_def)
    show "\<forall>x. count (queued s') x \<le> 1" unfolding qd using ok by (simp add: sched_ok_def distinct_queued)
    show "distinct (map rq_cpu_id (m_runqueues s'))" unfolding ids using ok by (simp add: sched_ok_def)
  qed
  show "length (process_queue (rq s' f)) = length (process_queue (rq s f)) - 1"
    "length (process_queue (rq s' t)) = Suc (length (process_queue (rq s t)))"
    using l1 t(2) r1 by (simp_all add: s')
  show "rq s' i = rq s i" if "i \<noteq> f" "i \<noteq> t" for i
    using that lf lt by (simp add: s' s1_def)
  show "set (process_queue (rq s' f)) \<subseteq> set (process_queue (rq s f))"
    using l1 t(2) r1 set_erase_at_subset [OF j(1)] by (simp add: s')
qed

lemma balance_scan_spec:
  assumes "balance_scan qs (mx, mxc, mn, mnc) = (mx', mxc', mn', mnc')"
  shows "mx \<le> mx' \<and> (\<forall>q \<in> set qs. length (process_queue q) \<le> mx') \<and>
    (mx' = mx \<and> mxc' = mxc \<or> (\<exists>q \<in> set qs. length (process_queue q) = mx' \<and> rq_cpu_id q = mxc')) \<and>
    mn' \<le> mn \<and> (\<forall>q \<in> set qs. mn' \<le> length (process_queue q)) \<and>
    (mn' = mn \<and> mnc' = mnc \<or> (\<exists>q \<in> set qs. length (process_queue q) = mn' \<and> rq_cpu_id q = mnc'))"
  using assms
proof (induction qs arbitrary: mx mxc mn mnc)
  case Nil
  then show ?case by simp
next
  case (Cons q qs)
  let ?n = "length (process_queue q)"
  have step: "balance_scan qs (if ?n > mx then ?n else mx, if ?n > mx then rq_cpu_id q else mxc,
      if ?n < mn then ?n else mn, if ?n < mn then rq_cpu_id q else mnc) = (mx', mxc', mn', mnc')"
    using Cons.prems by (auto simp: Let_def split: if_splits)
  from Cons.IH [OF step] show ?case by (auto split: if_splits)
qed

text \<open>What the loop keeps: the two queues it works on and everything \<open>migrate_process\<close> keeps.\<close>

lemma balance_loop_spec:
  fixes i :: nat
  assumes "sched_ok s" "get_runqueue mxc s = Some f" "get_runqueue mnc s = Some t" "f \<noteq> t" "moved \<le> to_move"
  defines "s' \<equiv> balance_loop f mxc mnc i moved to_move s"
  shows "sched_ok s' \<and> queued s' = queued s \<and> procs s' = procs s \<and>
    (\<exists>d. d + moved \<le> to_move \<and> length (process_queue (rq s' f)) + d = length (process_queue (rq s f)) \<and>
       length (process_queue (rq s' t)) = length (process_queue (rq s t)) + d \<and>
       ((\<forall>p \<in> set (process_queue (rq s f)). can_migrate_process p mnc s) \<and> i = 0 \<and>
          to_move - moved \<le> length (process_queue (rq s f)) \<longrightarrow> d + moved = to_move)) \<and>
    (\<forall>j. j \<noteq> f \<and> j \<noteq> t \<longrightarrow> rq s' j = rq s j)"
  using assms(1-5) unfolding s'_def
proof (induction f mxc mnc i moved to_move s rule: balance_loop.induct)
  case (1 f mxc mnc i moved to_move s)
  let ?q = "process_queue (rq s f)"
  show ?case
  proof (cases "i < length ?q \<and> moved < to_move")
    case False
    with "1.prems" show ?thesis
      by (subst (1 2 3 4 5 6) balance_loop.simps) (auto intro!: exI [of _ 0])
  next
    case True
    let ?p = "?q ! i"
    show ?thesis
    proof (cases "can_migrate_process ?p mnc s")
      case C: True
      let ?s = "migrate_process ?p mxc mnc s"
      have p: "?p \<in> set ?q" using True by simp
      note mg = migrate_spec [OF "1.prems"(1,2,3,4) p]
      have g: "get_runqueue mxc ?s = Some f" "get_runqueue mnc ?s = Some t"
        using get_runqueue_cong [OF mg(4)] "1.prems"(2,3) by simp_all
      have step: "balance_loop f mxc mnc i moved to_move s = balance_loop f mxc mnc i (Suc moved) to_move ?s"
        using True C by (simp add: balance_loop.simps [of f mxc mnc i moved to_move s] Let_def)
      have cm: "can_migrate_process x mnc ?s \<longleftrightarrow> can_migrate_process x mnc s" for x
        using mg(3) g(2) "1.prems"(3) by (simp add: can_migrate_process_def)
      have le: "Suc moved \<le> to_move" using True by simp
      from "1.IH"(1) [OF True refl C mg(1) g "1.prems"(4) le] obtain d where
        d: "d + Suc moved \<le> to_move" and
        l: "length (process_queue (rq (balance_loop f mxc mnc i (Suc moved) to_move ?s) f)) + d = length ?q - 1"
          "length (process_queue (rq (balance_loop f mxc mnc i (Suc moved) to_move ?s) t)) =
             Suc (length (process_queue (rq s t))) + d" and
        all: "(\<forall>p \<in> set (process_queue (rq ?s f)). can_migrate_process p mnc ?s) \<and> i = 0 \<and>
          to_move - Suc moved \<le> length ?q - 1 \<longrightarrow> d + Suc moved = to_move" and
        rest: "sched_ok (balance_loop f mxc mnc i (Suc moved) to_move ?s)"
          "queued (balance_loop f mxc mnc i (Suc moved) to_move ?s) = queued ?s"
          "procs (balance_loop f mxc mnc i (Suc moved) to_move ?s) = procs ?s"
          "\<forall>j. j \<noteq> f \<and> j \<noteq> t \<longrightarrow> rq (balance_loop f mxc mnc i (Suc moved) to_move ?s) j = rq ?s j"
        using mg(5,6) by auto
      have "(\<forall>p \<in> set ?q. can_migrate_process p mnc s) \<and> i = 0 \<and> to_move - moved \<le> length ?q \<longrightarrow>
          Suc d + moved = to_move"
        using all mg(8) cm True by auto
      then show ?thesis
        using d l rest mg(2,3,7) True unfolding step by (auto intro!: exI [of _ "Suc d"])
    next
      case C: False
      have step: "balance_loop f mxc mnc i moved to_move s = balance_loop f mxc mnc (Suc i) moved to_move s"
        using True C by (simp add: balance_loop.simps [of f mxc mnc i moved to_move s] Let_def)
      have "\<not> (\<forall>p \<in> set ?q. can_migrate_process p mnc s)" using C True nth_mem by blast
      with "1.IH"(2) [OF True refl C "1.prems"] show ?thesis unfolding step by auto
    qed
  qed
qed

lemma load_balance_cases:
  assumes ok: "sched_ok s" and len: "\<forall>q \<in> set (m_runqueues s). length (process_queue q) < SIZE_MAX"
  obtains (idle) "load_balance s = s"
      "\<forall>q \<in> set (m_runqueues s). \<forall>r \<in> set (m_runqueues s). length (process_queue q) \<le> length (process_queue r) + 1"
  | (move) f t mxc mnc where "f < length (m_runqueues s)" "t < length (m_runqueues s)" "f \<noteq> t"
      "get_runqueue mxc s = Some f" "get_runqueue mnc s = Some t"
      "\<forall>q \<in> set (m_runqueues s). length (process_queue (rq s t)) \<le> length (process_queue q) \<and>
         length (process_queue q) \<le> length (process_queue (rq s f))"
      "load_balance s = balance_loop f mxc mnc 0 0
         ((length (process_queue (rq s f)) - length (process_queue (rq s t))) div 2) s"
proof -
  obtain mx mxc mn mnc where sc: "balance_scan (m_runqueues s) (0, 0, SIZE_MAX, 0) = (mx, mxc, mn, mnc)"
    by (metis prod_cases4)
  note sp = balance_scan_spec [OF sc]
  show thesis
  proof (cases "mx - mn \<le> 1")
    case True
    then have "load_balance s = s" by (simp add: load_balance_def sc)
    moreover have "length (process_queue q) \<le> length (process_queue r) + 1"
      if "q \<in> set (m_runqueues s)" "r \<in> set (m_runqueues s)" for q r
    proof -
      have "length (process_queue q) \<le> mx" "mn \<le> length (process_queue r)" using sp that by blast+
      with True show ?thesis by linarith
    qed
    ultimately show ?thesis using idle by blast
  next
    case False
    have dist: "distinct (map rq_cpu_id (m_runqueues s))" using ok by (simp add: sched_ok_def)
    from False sp obtain q where q: "q \<in> set (m_runqueues s)" "length (process_queue q) = mx" "rq_cpu_id q = mxc"
      by auto
    then obtain f where f: "f < length (m_runqueues s)" "rq s f = q" by (auto simp: in_set_conv_nth)
    have "mn \<noteq> SIZE_MAX" using sp q(1) len by fastforce
    with sp obtain r where r: "r \<in> set (m_runqueues s)" "length (process_queue r) = mn" "rq_cpu_id r = mnc"
      by auto
    then obtain t where t: "t < length (m_runqueues s)" "rq s t = r" by (auto simp: in_set_conv_nth)
    have g: "get_runqueue mxc s = Some f" "get_runqueue mnc s = Some t"
      using get_runqueue_id [OF dist f(1)] get_runqueue_id [OF dist t(1)] f t q r by auto
    have "f \<noteq> t" using False f t q r by auto
    moreover have "load_balance s = balance_loop f mxc mnc 0 0
         ((length (process_queue (rq s f)) - length (process_queue (rq s t))) div 2) s"
      using False g by (simp add: load_balance_def sc f t q r)
    ultimately show ?thesis using move [OF f(1) t(1) _ g] sp by (simp add: f t q r)
  qed
qed

text \<open>
  C34: \<open>load_balance\<close> loses and doubles no process, touches no process object and keeps the
  invariant; no queue leaves the range of lengths the queues had. On two processors, when every
  queued process may be moved, the two queues end up within one of each other.
\<close>

theorem load_balance_correct:
  assumes ok: "sched_ok s" and len: "\<forall>q \<in> set (m_runqueues s). length (process_queue q) < SIZE_MAX"
  shows "sched_ok (load_balance s) \<and> queued (load_balance s) = queued s \<and> procs (load_balance s) = procs s \<and>
    (\<forall>lo hi. (\<forall>i < length (m_runqueues s). lo \<le> length (process_queue (rq s i)) \<and> length (process_queue (rq s i)) \<le> hi) \<longrightarrow>
       (\<forall>i < length (m_runqueues s). lo \<le> length (process_queue (rq (load_balance s) i)) \<and>
          length (process_queue (rq (load_balance s) i)) \<le> hi)) \<and>
    (length (m_runqueues s) = 2 \<and> (\<forall>p \<in># queued s. state_of s p \<noteq> Running \<and> p_priority (procs s p) < 8) \<longrightarrow>
       (\<forall>i < 2. \<forall>j < 2. length (process_queue (rq (load_balance s) i)) \<le> length (process_queue (rq (load_balance s) j)) + 1))"
  using ok len
proof (cases rule: load_balance_cases)
  case idle
  then show ?thesis using ok by auto
next
  case (move f t mxc mnc)
  define L where "L = (\<lambda>u i. length (process_queue (rq u i)))"
  let ?m = "(L s f - L s t) div 2"
  have lb: "load_balance s = balance_loop f mxc mnc 0 0 ?m s" using move(7) by (simp add: L_def)
  from balance_loop_spec [OF ok move(4,5,3), of 0 ?m 0]
  obtain d where d: "d \<le> ?m" "L (load_balance s) f + d = L s f" "L (load_balance s) t = L s t + d"
    "(\<forall>p \<in> set (process_queue (rq s f)). can_migrate_process p mnc s) \<and> ?m \<le> L s f \<longrightarrow> d = ?m"
    and keep: "sched_ok (load_balance s)" "queued (load_balance s) = queued s" "procs (load_balance s) = procs s"
      "\<forall>j. j \<noteq> f \<and> j \<noteq> t \<longrightarrow> L (load_balance s) j = L s j"
    unfolding lb L_def by auto
  have range: "L s t \<le> L s i \<and> L s i \<le> L s f" if "i < length (m_runqueues s)" for i
    using move(6) that by (simp add: L_def)
  have rng: "lo \<le> L (load_balance s) i \<and> L (load_balance s) i \<le> hi"
    if "\<forall>i < length (m_runqueues s). lo \<le> L s i \<and> L s i \<le> hi" "i < length (m_runqueues s)" for lo hi i
  proof -
    have "lo \<le> L s t" "L s f \<le> hi" "lo \<le> L s i" "L s i \<le> hi" using that move(1,2) by auto
    moreover have "L s t \<le> L s f" using range [OF move(1)] by simp
    ultimately show ?thesis
      using d keep(4) by (cases "i = f"; cases "i = t") auto
  qed
  have two: "L (load_balance s) i \<le> L (load_balance s) j + 1"
    if n: "length (m_runqueues s) = 2" and mv: "\<forall>p \<in># queued s. state_of s p \<noteq> Running \<and> p_priority (procs s p) < 8"
      and ij: "i < 2" "j < 2" for i j
  proof -
    have "can_migrate_process p mnc s" if "p \<in> set (process_queue (rq s f))" for p
    proof -
      have "p \<in># queued s" using that move(1) by (auto simp: queued_def)
      moreover have "p \<noteq> nullptr" using that ok move(1) nth_mem by (fastforce simp: sched_ok_def)
      ultimately show ?thesis using mv move(5) by (simp add: can_migrate_process_def not_le)
    qed
    moreover have "?m \<le> L s f" by simp
    ultimately have "d = ?m" using d(4) by blast
    moreover have "i = f \<or> i = t" "j = f \<or> j = t" using ij n move(1,2,3) by auto
    moreover have "L s t \<le> L s f" using range [OF move(1)] by simp
    ultimately show ?thesis using d(2,3) by auto
  qed
  show ?thesis
    using keep(1-3) rng two unfolding L_def by blast
qed

theorem load_balance_correct_witness:
  "let s = sched_example\<lparr>m_runqueues := [(new_runqueue 0)\<lparr>process_queue := [16, 32, 48]\<rparr>, new_runqueue 1]\<rparr>
   in queued (load_balance s) = {#16, 32, 48#} \<and>
      length (process_queue (rq (load_balance s) 0)) \<le> length (process_queue (rq (load_balance s) 1)) + 1"
proof -
  let ?s = "sched_example\<lparr>m_runqueues := [(new_runqueue 0)\<lparr>process_queue := [16, 32, 48]\<rparr>, new_runqueue 1]\<rparr>"
  have q: "queued ?s = {#16, 32, 48#}" by (simp add: queued_def new_runqueue_def)
  have ok: "sched_ok ?s" by (simp add: sched_ok_def new_runqueue_def queue_ok_def)
  have "\<forall>q \<in> set (m_runqueues ?s). length (process_queue q) < SIZE_MAX" by (simp add: new_runqueue_def SIZE_MAX_def)
  from load_balance_correct [OF ok this] show ?thesis
    by (simp add: q) (simp add: sched_example_def new_process_def)
qed

section \<open>Dispatching\<close>

lemma sched_ok_cong:
  assumes "sched_ok s" "map process_queue (m_runqueues s') = map process_queue (m_runqueues s)"
    "map rq_cpu_id (m_runqueues s') = map rq_cpu_id (m_runqueues s)" "\<forall>q \<in> set (m_runqueues s'). queue_ok q"
  shows "sched_ok s'"
proof -
  have "set (map process_queue (m_runqueues s')) = set (map process_queue (m_runqueues s))"
    by (simp only: assms(2))
  then have "\<forall>q \<in> set (m_runqueues s'). \<exists>r \<in> set (m_runqueues s). process_queue q = process_queue r"
    by (simp only: set_map) (metis (no_types, opaque_lifting) imageE imageI)
  then have "\<forall>q \<in> set (m_runqueues s'). nullptr \<notin> set (process_queue q)"
    using assms(1) by (fastforce simp: sched_ok_def)
  with assms show ?thesis by (simp add: sched_ok_def)
qed

text \<open>
  a dispatch on a processor with a ready process always returns. It selects a ready process of
  that processor's queue, and unless that one is already current makes it the running process of
  the processor with a full time slice, and puts the previous one back to ready, whatever state
  it was in. The contents of the queues and the invariant do not change.
\<close>

theorem schedule_on_cpu_correct:
  assumes ok: "sched_ok s" and pol: "m_policy s = RoundRobin" and i: "get_runqueue cpu s = Some i"
    and ready: "\<exists>p \<in> set (process_queue (rq s i)). state_of s p = Ready"
  shows "\<exists>p s'. schedule_on_cpu cpu s = Some s' \<and> p \<in> set (process_queue (rq s i)) \<and> state_of s p = Ready \<and>
    rq_current (rq s' i) = p \<and> sched_ok s' \<and> queued s' = queued s \<and>
    (rq_current (rq s i) \<noteq> p \<longrightarrow>
       state_of s' p = Running \<and> m_current_process s' = p \<and>
       current_time_slice (rq s' i) = DEFAULT_TIME_SLICE \<and> p_last_run (procs s' p) = timer_ticks s \<and>
       (rq_current (rq s i) \<noteq> nullptr \<longrightarrow> state_of s' (rq_current (rq s i)) = Ready))"
proof -
  have il: "i < length (m_runqueues s)" using get_runqueue_Some [OF i] by simp
  then have q: "queue_ok (rq s i)" "nullptr \<notin> set (process_queue (rq s i))"
    using ok by (simp_all add: sched_ok_def)
  have ne: "process_queue (rq s i) \<noteq> []" using ready by auto
  let ?qs = "process_queue (rq s i)" and ?idx = "current_index (rq s i)" and ?c = "rq_current (rq s i)"
  from pol il q(1) ne obtain p k where sel: "p = ?qs ! ((?idx + k) mod length ?qs)" "state_of s p = Ready"
    "select_next_process i s = Some (p, upd_rq i (\<lambda>q. q\<lparr>current_index := (?idx + k) mod length ?qs\<rparr>) s)"
    using ready by (cases rule: select_round_robin) (auto simp: ready_at_def)
  have m: "(?idx + k) mod length ?qs < length ?qs" using ne by (intro mod_less_divisor) simp
  then have p: "p \<in> set ?qs" "p \<noteq> nullptr" using sel(1) q(2) by (auto intro: nth_mem) (metis nth_mem)
  define s1 where "s1 = upd_rq i (\<lambda>q. q\<lparr>current_index := (?idx + k) mod length ?qs\<rparr>) s"
  define s2 where "s2 = upd_rq i (\<lambda>q. q\<lparr>current_time_slice := DEFAULT_TIME_SLICE, rq_current := p\<rparr>) s1"
  define s5 where "s5 = set_state p Running ((if ?c \<noteq> nullptr then set_state ?c Ready else id)
      (upd_proc p (\<lambda>q. q\<lparr>p_last_run := timer_ticks s2\<rparr>) s2))"
  have r1: "rq s1 i = (rq s i)\<lparr>current_index := (?idx + k) mod length ?qs\<rparr>" using il by (simp add: s1_def)
  have call: "schedule_on_cpu cpu s = Some (if ?c = p then s1 else switch_to_process p s5)"
    using p(2) sel(3) by (simp add: schedule_on_cpu_def i Let_def s1_def [symmetric] r1 s2_def s5_def)
  have qs1: "m_runqueues s1 = (m_runqueues s)[i := (rq s i)\<lparr>current_index := (?idx + k) mod length ?qs\<rparr>]"
    by (simp add: s1_def upd_rq_def)
  have pq1: "map process_queue (m_runqueues s1) = map process_queue (m_runqueues s)"
    "map rq_cpu_id (m_runqueues s1) = map rq_cpu_id (m_runqueues s)"
    using il by (simp_all add: qs1 map_update list_update_same_conv)
  have ok1: "sched_ok s1"
  proof (rule sched_ok_cong [OF ok pq1])
    show "\<forall>q \<in> set (m_runqueues s1). queue_ok q"
      unfolding s1_def using il ok m by (intro set_runqueues_upd) (auto simp: sched_ok_def queue_ok_def)
  qed
  have l2: "i < length (m_runqueues s1)" using il by (simp add: s1_def)
  have r2: "rq s2 i = (rq s1 i)\<lparr>current_time_slice := DEFAULT_TIME_SLICE, rq_current := p\<rparr>"
    using l2 by (simp add: s2_def)
  have pq2: "map process_queue (m_runqueues s2) = map process_queue (m_runqueues s1)"
    "map rq_cpu_id (m_runqueues s2) = map rq_cpu_id (m_runqueues s1)"
    using l2 by (simp_all add: s2_def upd_rq_def map_update list_update_same_conv)
  have ok2: "sched_ok s2"
  proof (rule sched_ok_cong [OF ok1 pq2])
    show "\<forall>q \<in> set (m_runqueues s2). queue_ok q"
      unfolding s2_def using l2 ok1 by (intro set_runqueues_upd) (auto simp: sched_ok_def queue_ok_def)
  qed
  have r5: "m_runqueues s5 = m_runqueues s2" by (simp add: s5_def)
  have ok5: "sched_ok (switch_to_process p s5)" using ok2 by (simp add: sched_ok_def r5)
  have st: "state_of (switch_to_process p s5) p = Running" "m_current_process (switch_to_process p s5) = p"
    "p_last_run (procs (switch_to_process p s5) p) = timer_ticks s"
    "?c \<noteq> nullptr \<and> ?c \<noteq> p \<longrightarrow> state_of (switch_to_process p s5) ?c = Ready"
    using p(2) by (auto simp: switch_to_process_def switch_context_def Let_def s5_def s2_def s1_def)
  show ?thesis
  proof (cases "?c = p")
    case True
    then show ?thesis
      using call p sel(2) ok1 pq1 r1 by (intro exI [of _ p] exI [of _ s1]) (simp add: queued_def)
  next
    case False
    then show ?thesis
      using call p sel(2) ok5 st pq1 pq2 r2 r5
      by (intro exI [of _ p] exI [of _ "switch_to_process p s5"]) (simp add: queued_def)
  qed
qed

theorem schedule_on_cpu_correct_witness:
  "\<exists>p s'. schedule_on_cpu 0 sched_example = Some s' \<and> p \<in> {16, 32} \<and> state_of s' p = Running"
proof -
  have ok: "sched_ok sched_example"
    by (simp add: sched_ok_def sched_example_def new_runqueue_def queue_ok_def)
  have g: "get_runqueue 0 sched_example = Some 0"
    by (simp add: get_runqueue_def sched_example_def new_runqueue_def)
  have "\<exists>p \<in> set (process_queue (rq sched_example 0)). state_of sched_example p = Ready" by auto
  from schedule_on_cpu_correct [OF ok sched_example_simps(1) g this] obtain p s' where
    "schedule_on_cpu 0 sched_example = Some s'" "p \<in> set (process_queue (rq sched_example 0))"
    "rq_current (rq sched_example 0) \<noteq> p \<longrightarrow> state_of s' p = Running" by blast
  then show ?thesis by (auto simp: new_runqueue_def)
qed

section \<open>The interface: a pool of schedulable processes\<close>

text \<open>What the process manager and IPC rely on when they add and remove processes.\<close>

locale ready_pool =
  fixes add :: "u64 \<Rightarrow> 's \<Rightarrow> 's"
    and remove :: "u64 \<Rightarrow> 's \<Rightarrow> 's"
    and contents :: "'s \<Rightarrow> u64 multiset"
    and room :: "'s \<Rightarrow> bool"
    and inv :: "'s \<Rightarrow> bool"
  assumes add_contents: "inv s \<Longrightarrow> room s \<Longrightarrow> p \<noteq> 0 \<Longrightarrow> p \<notin># contents s \<Longrightarrow>
      contents (add p s) = add_mset p (contents s) \<and> inv (add p s)"
    and remove_contents: "inv s \<Longrightarrow> p \<noteq> 0 \<Longrightarrow> contents (remove p s) = contents s - {#p#} \<and> inv (remove p s)"
begin

lemma remove_add:
  "inv s \<Longrightarrow> room s \<Longrightarrow> p \<noteq> 0 \<Longrightarrow> p \<notin># contents s \<Longrightarrow>
     contents (remove p (add p s)) = contents s \<and> inv (remove p (add p s))"
  using add_contents [of s p] remove_contents [of "add p s" p] by simp

lemma remove_all:
  "inv s \<Longrightarrow> 0 \<notin> set ps \<Longrightarrow> contents (fold remove ps s) = contents s - mset ps \<and> inv (fold remove ps s)"
proof (induction ps arbitrary: s)
  case (Cons p ps)
  then have "inv (remove p s)" "contents (remove p s) = contents s - {#p#}"
    using remove_contents [of s p] by auto
  with Cons show ?case by (simp add: diff_diff_add_mset)
qed simp

end

definition sched_room :: "kernel \<Rightarrow> bool" where
  "sched_room s \<longleftrightarrow> m_runqueues s \<noteq> [] \<and> (\<forall>q \<in> set (m_runqueues s). length (process_queue q) < SIZE_MAX)"

lemma sched_ok_remove: "sched_ok s \<Longrightarrow> p \<noteq> nullptr \<Longrightarrow> sched_ok (remove_process p s)"
proof (rule sched_okI)
  assume ok: "sched_ok s" and p: "p \<noteq> nullptr"
  then have q: "\<forall>q \<in> set (m_runqueues s). queue_ok q \<and> nullptr \<notin> set (process_queue q)"
    by (simp add: sched_ok_def)
  show "\<forall>x. count (queued (remove_process p s)) x \<le> 1"
    unfolding queued_remove [OF ok p] using ok
    by (simp add: sched_ok_def distinct_queued)
  show "\<forall>q \<in> set (m_runqueues (remove_process p s)). queue_ok q \<and> nullptr \<notin> set (process_queue q)"
    "distinct (map rq_cpu_id (m_runqueues (remove_process p s)))"
    using remove_from_spec(2,3) [OF q, of p] ok p by (auto simp: remove_process_def sched_ok_def)
qed

interpretation ready: ready_pool add_process remove_process queued sched_room sched_ok
proof
  fix s p
  assume "sched_ok s" "sched_room s" "p \<noteq> 0" "p \<notin># queued s"
  then show "queued (add_process p s) = add_mset p (queued s) \<and> sched_ok (add_process p s)"
    using add_process_spec [of s p] by (auto simp: sched_room_def)
qed (simp add: queued_remove sched_ok_remove)

end
