(* ===== verification/Process_Manager.thy ===== *)
theory Process_Manager
  imports Scheduler
begin

text \<open>
  The process manager, \<open>core/process.cpp\<close>: creation with a kernel stack, the initial user stack,
  release of a process's memory, termination.

  The address \<^verbatim>\<open>new Process\<close> returns is an argument; so are the addresses \<open>strdup\<close> returns for the
  argument strings, which end up on the user stack. Objects that the code deletes stay in
  \<open>procs\<close> but leave the table. Words written to the new user stack are returned as a list of
  address-value pairs.
\<close>

section \<open>Page loops\<close>

text \<open>
  \<^verbatim>\<open>for (addr = start; addr < end; addr += 4096)\<close>; \<open>None\<close> when the address wraps around and the loop
  does not end.
\<close>

partial_function (option) page_loop :: "(u64 \<Rightarrow> 's \<Rightarrow> 's) \<Rightarrow> u64 \<Rightarrow> u64 \<Rightarrow> 's \<Rightarrow> 's option" where
  [code]: "page_loop f addr end_addr s =
     (if addr < end_addr then page_loop f (addr + 4096) end_addr (f addr s) else Some s)"

definition release_page :: "u64 \<Rightarrow> vmm \<Rightarrow> vmm" where
  "release_page addr v =
    (let phys_addr = get_physical_address addr v
     in if phys_addr \<noteq> 0 then unmap_page addr (v\<lparr>vm_pmm := free_frame phys_addr (vm_pmm v)\<rparr>) else v)"

text \<open>The loop that backs \<open>n\<close> consecutive pages, from page \<open>i\<close> on; \<open>False\<close> when a frame is missing.\<close>

function claim_pages :: "u64 \<Rightarrow> bool \<Rightarrow> nat \<Rightarrow> nat \<Rightarrow> vmm \<Rightarrow> bool \<times> vmm" where
  "claim_pages base w i n v =
     (if i < n then
        let addr = base + of_nat i * 4096;
            (phys_page, p) = allocate_frame (vm_pmm v);
            v1 = v\<lparr>vm_pmm := p\<rparr>
        in if phys_page = 0 then (False, v1)
           else claim_pages base w (Suc i) n (map_page addr phys_page w v1)
      else (True, v))"
  by pat_completeness auto
termination
  by (relation "measure (\<lambda>(base, w, i, n, v). n - i)") auto

declare claim_pages.simps [simp del]

section \<open>Operations\<close>

definition KERNEL_STACK_SIZE :: u64 where "KERNEL_STACK_SIZE = 16 * 1024"
definition USER_STACK_SIZE :: u64 where "USER_STACK_SIZE = 8 * 1024 * 1024"
definition USER_STACK_TOP :: u64 where "USER_STACK_TOP = 0x7FFFFFFFFFFF"

definition add_memory_region :: "u64 \<Rightarrow> u64 \<Rightarrow> u64 \<Rightarrow> bool \<Rightarrow> bool \<Rightarrow> kernel \<Rightarrow> kernel" where
  "add_memory_region process start sz writable executable =
     upd_proc process (\<lambda>p. p\<lparr>p_memory_regions :=
       \<lparr>mr_start = start, mr_size = sz, mr_writable = writable, mr_executable = executable\<rparr> # p_memory_regions p\<rparr>)"

fun release_regions :: "memory_region list \<Rightarrow> vmm \<Rightarrow> vmm option" where
  "release_regions [] v = Some v"
| "release_regions (r # rs) v =
     do { v1 \<leftarrow> page_loop release_page (mr_start r) (mr_start r + mr_size r) v; release_regions rs v1 }"

definition cleanup_process_memory :: "u64 \<Rightarrow> kernel \<Rightarrow> kernel option" where
  "cleanup_process_memory process s = do {
     v1 \<leftarrow> release_regions (p_memory_regions (procs s process)) (k_vm s);
     let s1 = upd_proc process (\<lambda>p. p\<lparr>p_memory_regions := [], p_brk := 0, p_program_break := 0\<rparr>) (s\<lparr>k_vm := v1\<rparr>);
     if p_kernel_stack (procs s1 process) \<noteq> 0 then
       let kernel_stack_pages = unat ((KERNEL_STACK_SIZE + 4095) div 4096);
           kernel_stack_base = p_kernel_stack (procs s1 process) - KERNEL_STACK_SIZE;
           v2 = fold (\<lambda>i. release_page (kernel_stack_base + of_nat i * 4096)) [0..<kernel_stack_pages] (k_vm s1)
       in Some (upd_proc process (\<lambda>p. p\<lparr>p_kernel_stack := 0\<rparr>) (s1\<lparr>k_vm := v2\<rparr>))
     else Some s1
   }"

definition kernel_stack_base :: "pid_t \<Rightarrow> u64" where
  "kernel_stack_base pid = 0xFFFFFFFF80000000 + scast pid * KERNEL_STACK_SIZE"

definition create_process :: "u64 \<Rightarrow> bytes \<Rightarrow> pid_t \<Rightarrow> kernel \<Rightarrow> (pid_t \<times> kernel) option" where
  "create_process process name ppid s =
    (let pid = m_next_pid s;
         s1 = upd_proc process (\<lambda>_. new_process\<lparr>p_pid := pid, p_ppid := ppid, p_name := name,
                p_state := Ready, p_next := m_first_process s\<rparr>) (s\<lparr>m_next_pid := m_next_pid s + 1\<rparr>);
         kernel_stack_pages = unat ((KERNEL_STACK_SIZE + 4095) div 4096);
         base = kernel_stack_base pid;
         (mapped, v) = claim_pages base True 0 kernel_stack_pages (k_vm s1);
         s2 = s1\<lparr>k_vm := v\<rparr>
     in if \<not> mapped then do { s3 \<leftarrow> cleanup_process_memory process s2; Some (-1, s3) }
        else
          let s3 = upd_proc process (\<lambda>p. p\<lparr>p_kernel_stack := base + KERNEL_STACK_SIZE\<rparr>) s2;
              s4 = s3\<lparr>m_first_process := process\<rparr>;
              s5 = (if m_current_process s4 = nullptr then s4\<lparr>m_current_process := process\<rparr> else s4)
          in Some (pid, add_process process s5))"

text \<open>The body of \<open>terminate_process\<close> once the process has been found behind \<open>prev\<close>.\<close>

definition terminate_found :: "u32 \<Rightarrow> u64 \<Rightarrow> u64 \<Rightarrow> kernel \<Rightarrow> kernel option" where
  "terminate_found cpu prev current s =
    (let nxt = p_next (procs s current);
         s1 = (if prev \<noteq> nullptr then upd_proc prev (\<lambda>p. p\<lparr>p_next := nxt\<rparr>) s else s\<lparr>m_first_process := nxt\<rparr>);
         s2 = remove_process current s1
     in do {
          s3 \<leftarrow> cleanup_process_memory current s2;
          if m_current_process s3 = current then
            let s4 = s3\<lparr>m_current_process := m_first_process s3\<rparr>
            in if m_current_process s4 \<noteq> nullptr then schedule cpu s4 else Some s4
          else Some s3
        })"

partial_function (option) terminate_from :: "u32 \<Rightarrow> pid_t \<Rightarrow> u64 \<Rightarrow> u64 \<Rightarrow> kernel \<Rightarrow> kernel option" where
  [code]: "terminate_from cpu pid prev current s =
     (if current = nullptr then Some s
      else if p_pid (procs s current) = pid then terminate_found cpu prev current s
      else terminate_from cpu pid current (p_next (procs s current)) s)"

definition terminate_process :: "u32 \<Rightarrow> pid_t \<Rightarrow> kernel \<Rightarrow> kernel option" where
  "terminate_process cpu pid s = terminate_from cpu pid nullptr (m_first_process s) s"

text \<open>
  The words of the initial stack, in the order they are written: the argument count, the argument
  pointers and their terminator, the environment pointers and theirs.
\<close>

definition stack_words :: "u64 list \<Rightarrow> u64 list option \<Rightarrow> u64 list" where
  "stack_words aptrs eptrs =
     of_nat (length aptrs) # aptrs @ [0] @ (case eptrs of None \<Rightarrow> [] | Some es \<Rightarrow> es @ [0])"

definition setup_process_stack ::
    "u64 \<Rightarrow> (bytes \<times> u64) list option \<Rightarrow> (bytes \<times> u64) list option \<Rightarrow> kernel \<Rightarrow>
       (bool \<times> (u64 \<times> u64) list \<times> kernel) option" where
  "setup_process_stack process argv envp s =
    (let stack_pages = unat ((USER_STACK_SIZE + 4095) div 4096);
         stack_bottom = USER_STACK_TOP - USER_STACK_SIZE;
         (mapped, v) = claim_pages stack_bottom True 0 stack_pages (k_vm s);
         s1 = s\<lparr>k_vm := v\<rparr>
     in if \<not> mapped then do { s2 \<leftarrow> cleanup_process_memory process s1; Some (False, [], s2) }
        else
          let args = (case argv of None \<Rightarrow> [] | Some as \<Rightarrow> as);
              argc = length args;
              s2 = upd_proc process (\<lambda>p. p\<lparr>p_user_stack := USER_STACK_TOP, p_argc := argc\<rparr>) s1;
              required_space = 8 + (of_nat argc + 1) * 8 +
                (case envp of None \<Rightarrow> 0 | Some es \<Rightarrow> (of_nat (length es) + 1) * 8) :: u64
          in if required_space > USER_STACK_SIZE
             then do { s3 \<leftarrow> cleanup_process_memory process s2; Some (False, [], s3) }
             else
               let s3 = upd_proc process (\<lambda>p. p\<lparr>p_argv := Some (map fst args),
                          p_envp := (case envp of None \<Rightarrow> p_envp p | Some es \<Rightarrow> Some (map fst es))\<rparr>) s2;
                   sp = USER_STACK_TOP - required_space;
                   ws = stack_words (map snd args) (map_option (map snd) envp);
                   writes = zip (map (\<lambda>i. sp + of_nat i * 8) [0..<length ws]) ws;
                   s4 = upd_proc process (\<lambda>p. p\<lparr>p_registers := (p_registers p)\<lparr>rsp := sp, rbp := sp,
                          rip := p_entry_point p, cs := 0x23, ss := 0x1B, rflags := 0x202\<rparr>\<rparr>) s3
               in Some (True, writes,
                    add_memory_region process (USER_STACK_TOP - USER_STACK_SIZE) USER_STACK_SIZE True False s4))"

section \<open>Backing pages\<close>

lemma vm_ok_alloc:
  assumes ok: "vm_ok v" and card: "1 \<le> vm_budget v" and al: "allocate_frame (vm_pmm v) = (f, p)"
  defines "v' \<equiv> v\<lparr>vm_pmm := p\<rparr>"
  shows "vm_ok v'" "f \<noteq> 0" "f \<in> pmm_free (vm_pmm v)" "vm_leaf v' = vm_leaf v" "vm_usable v' = vm_usable v"
    "vm_budget v = Suc (vm_budget v')" "pmm_free p = pmm_free (vm_pmm v) - {f}"
proof -
  have pok: "pmm_ok (vm_pmm v)" using ok by (simp add: vm_ok_def)
  have free: "pmm_free (vm_pmm v) \<noteq> {}" using card by (auto simp: vm_budget_def)
  have f: "f \<in> pmm_free (vm_pmm v)" "pmm_free p = pmm_free (vm_pmm v) - {f}"
    "pmm_frames p = pmm_frames (vm_pmm v)" "pmm_ok p"
    using pool.alloc_frame [OF pok free] pool.alloc_frames [OF pok] pool.inv_alloc [OF pok] al by auto
  show "f \<in> pmm_free (vm_pmm v)" "pmm_free p = pmm_free (vm_pmm v) - {f}" using f by simp_all
  show "f \<noteq> 0" using pool.alloc_null_iff [OF pok] free al by auto
  have fx: "m_memory_start p = m_memory_start (vm_pmm v)" "n_frames p = n_frames (vm_pmm v)"
    using allocate_frame_fixed [OF pok] al by simp_all
  have "vm_used v \<subseteq> vm_used v'" using f by (auto simp: vm_used_def v'_def)
  then have "tree_ok (pt_mem v) (m_pml4 v) (vm_used v')"
    using ok unfolding vm_ok_def tree_ok_def by blast
  then show "vm_ok v'" using ok f(4) fx by (simp add: vm_ok_def v'_def)
  show "vm_leaf v' = vm_leaf v" "vm_usable v' = vm_usable v"
    by (simp_all add: fun_eq_iff v'_def vm_leaf_def vm_table_def vm_usable_def vm_clear_def
        split: option.split)
  show "vm_budget v = Suc (vm_budget v')"
    unfolding vm_budget_def v'_def using card_Suc_Diff1 [OF pool.finite_frees f(1)] f(2) by simp
qed

lemma claim_pages_spec:
  assumes "vm_ok v" "4 * (n - i) \<le> vm_budget v"
    and "\<forall>k. i \<le> k \<and> k < n \<longrightarrow> vm_usable v (base + of_nat k * 4096) \<and> vm_leaf v (base + of_nat k * 4096) = None"
    and "\<forall>k l. i \<le> k \<and> k < l \<and> l < n \<longrightarrow> \<not> same_page (base + of_nat k * 4096) (base + of_nat l * 4096)"
  shows "\<exists>v'. claim_pages base w i n v = (True, v') \<and> vm_ok v' \<and> vm_budget v \<le> vm_budget v' + 4 * (n - i) \<and>
    (\<forall>k. i \<le> k \<and> k < n \<longrightarrow> (\<exists>f. vm_leaf v' (base + of_nat k * 4096) = Some (leaf_entry (f AND PAGE_MASK) w))) \<and>
    (\<forall>a. (\<forall>k. i \<le> k \<and> k < n \<longrightarrow> \<not> same_page a (base + of_nat k * 4096)) \<longrightarrow> vm_leaf v' a = vm_leaf v a) \<and>
    (\<forall>a. vm_usable v a \<longrightarrow> vm_usable v' a)"
  using assms
proof (induction base w i n v rule: claim_pages.induct)
  case (1 base w i n v)
  let ?a = "\<lambda>k. base + of_nat k * 4096 :: u64"
  show ?case
  proof (cases "i < n")
    case False
    with "1.prems" show ?thesis by (simp add: claim_pages.simps [of base w i n v])
  next
    case True
    obtain f p where al: "allocate_frame (vm_pmm v) = (f, p)" by fastforce
    have b1: "1 \<le> vm_budget v" using "1.prems"(2) True by simp
    let ?v1 = "v\<lparr>vm_pmm := p\<rparr>"
    note a = vm_ok_alloc [OF "1.prems"(1) b1 al]
    have u: "vm_usable ?v1 (?a i)" "vm_leaf ?v1 (?a i) = None" and b3: "3 \<le> vm_budget ?v1"
      using "1.prems"(2,3) True a(4-6) by auto
    let ?v2 = "map_page (?a i) f w ?v1"
    note ok2 = space.inv_map [OF a(1) u(1) b3, of f w] and us2 = space.usable_map [OF a(1) u(1) b3]
      and bu2 = space.budget_map [OF a(1) u(1) b3, of f w] and pg2 = space.pages_map [OF a(1) u(1) b3]
    have step: "claim_pages base w i n v = claim_pages base w (Suc i) n ?v2"
      using True a(2) al by (simp add: claim_pages.simps [of base w i n v])
    have sep: "\<not> same_page (?a k) (?a i)" if "Suc i \<le> k" "k < n" for k
      using "1.prems"(4) that same_page_iff [of "?a k" "?a i"] same_page_iff [of "?a i" "?a k"] by auto
    have bud: "4 * (n - Suc i) \<le> vm_budget ?v2" using bu2 a(6) "1.prems"(2) True by simp
    have nxt: "\<forall>k. Suc i \<le> k \<and> k < n \<longrightarrow> vm_usable ?v2 (?a k) \<and> vm_leaf ?v2 (?a k) = None"
      using "1.prems"(3) us2 pg2 a(4,5) sep by auto
    have dis: "\<forall>k l. Suc i \<le> k \<and> k < l \<and> l < n \<longrightarrow> \<not> same_page (?a k) (?a l)"
      using "1.prems"(4) by auto
    from "1.IH" [OF True refl refl al [symmetric] refl a(2) ok2 bud nxt dis] obtain v' where
      v': "claim_pages base w (Suc i) n ?v2 = (True, v')" "vm_ok v'" "vm_budget ?v2 \<le> vm_budget v' + 4 * (n - Suc i)"
        "\<forall>k. Suc i \<le> k \<and> k < n \<longrightarrow> (\<exists>f. vm_leaf v' (?a k) = Some (leaf_entry (f AND PAGE_MASK) w))"
        "\<forall>b. (\<forall>k. Suc i \<le> k \<and> k < n \<longrightarrow> \<not> same_page b (?a k)) \<longrightarrow> vm_leaf v' b = vm_leaf ?v2 b"
        "\<forall>b. vm_usable ?v2 b \<longrightarrow> vm_usable v' b" by auto
    have "\<not> same_page (?a i) (?a k)" if "Suc i \<le> k" "k < n" for k
      using "1.prems"(4) that by auto
    then have head: "vm_leaf v' (?a i) = Some (leaf_entry (f AND PAGE_MASK) w)"
      using v'(5) pg2 u(2) by simp
    have all: "\<exists>f. vm_leaf v' (?a k) = Some (leaf_entry (f AND PAGE_MASK) w)" if "i \<le> k" "k < n" for k
      using head v'(4) that by (cases "k = i") auto
    have other: "vm_leaf v' b = vm_leaf v b" if "\<forall>k. i \<le> k \<and> k < n \<longrightarrow> \<not> same_page b (?a k)" for b
      using v'(5) that True pg2 a(4) by auto
    have "vm_budget v \<le> vm_budget v' + 4 * (n - i)" using v'(3) bu2 a(6) True by simp
    then show ?thesis using v'(1,2,6) all other us2 a(5) unfolding step by auto
  qed
qed

section \<open>The process table\<close>

lemma proc_list_cong:
  "proc_list s ps \<Longrightarrow> m_first_process s' = m_first_process s \<Longrightarrow>
     (\<And>p. p \<in> set ps \<Longrightarrow> p_next (procs s' p) = p_next (procs s p)) \<Longrightarrow> proc_list s' ps"
  unfolding proc_list_def by (subst chain_cong [of ps _ "next_of s"]) simp_all

lemma add_process_frame [simp]:
  "m_first_process (add_process p s) = m_first_process s" "k_vm (add_process p s) = k_vm s"
  "p_next (procs (add_process p s) q) = p_next (procs s q)" "p_pid (procs (add_process p s) q) = p_pid (procs s q)"
  "m_current_process (add_process p s) = m_current_process s"
  "p_kernel_stack (procs (add_process p s) q) = p_kernel_stack (procs s q)"
  "p_memory_regions (procs (add_process p s) q) = p_memory_regions (procs s q)"
  by (auto simp: add_process_def split: option.splits)

lemma remove_process_frame [simp]:
  "m_first_process (remove_process p s) = m_first_process s" "k_vm (remove_process p s) = k_vm s"
  "procs (remove_process p s) = procs s" "m_current_process (remove_process p s) = m_current_process s"
  "m_next_pid (remove_process p s) = m_next_pid s"
  by (simp_all add: remove_process_def)

lemma queued_cong: "m_runqueues s' = m_runqueues s \<Longrightarrow> queued s' = queued s \<and> sched_ok s' = sched_ok s \<and> sched_room s' = sched_room s"
  by (simp add: queued_def sched_ok_def sched_room_def)

lemma kernel_stack_pages [simp]: "unat ((KERNEL_STACK_SIZE + 4095) div 4096) = 4"
  by (simp add: KERNEL_STACK_SIZE_def)

lemma find_map_pid: "find (\<lambda>x. p_pid (procs s x) = pid) ps = Some x \<Longrightarrow> x \<in> set ps \<and> p_pid (procs s x) = pid"
  by (auto simp: find_Some_iff)

lemma create_process_spec:
  assumes tab: "proc_list s ps" "p \<notin> set ps" "p \<noteq> nullptr" "\<forall>q \<in> set ps. p_pid (procs s q) \<noteq> m_next_pid s"
    and sch: "sched_ok s" "sched_room s" "p \<notin># queued s"
    and vm: "vm_ok (k_vm s)" "16 \<le> vm_budget (k_vm s)"
      "\<forall>k < 4. vm_usable (k_vm s) (kernel_stack_base (m_next_pid s) + of_nat k * 4096) \<and>
               vm_leaf (k_vm s) (kernel_stack_base (m_next_pid s) + of_nat k * 4096) = None"
  shows "\<exists>s'. create_process p name ppid s = Some (m_next_pid s, s') \<and> proc_list s' (p # ps) \<and>
    get_process (m_next_pid s) s' = Some p \<and> (\<forall>pid. pid \<noteq> m_next_pid s \<longrightarrow> get_process pid s' = get_process pid s) \<and>
    queued s' = add_mset p (queued s) \<and> sched_ok s' \<and> vm_ok (k_vm s') \<and>
    p_kernel_stack (procs s' p) = kernel_stack_base (m_next_pid s) + KERNEL_STACK_SIZE \<and>
    (\<forall>k < 4. vm_leaf (k_vm s') (kernel_stack_base (m_next_pid s) + of_nat k * 4096) \<noteq> None) \<and>
    (\<forall>a. (\<forall>k < 4. \<not> same_page a (kernel_stack_base (m_next_pid s) + of_nat k * 4096)) \<longrightarrow>
       vm_leaf (k_vm s') a = vm_leaf (k_vm s) a) \<and>
    vm_budget (k_vm s) \<le> vm_budget (k_vm s') + 16 \<and> p_memory_regions (procs s' p) = [] \<and>
    (\<forall>q. q \<noteq> p \<longrightarrow> p_memory_regions (procs s' q) = p_memory_regions (procs s q) \<and> p_pid (procs s' q) = p_pid (procs s q)) \<and>
    p_pid (procs s' p) = m_next_pid s \<and> (m_current_process s \<noteq> nullptr \<longrightarrow> m_current_process s' = m_current_process s)"
proof -
  let ?pid = "m_next_pid s" and ?b = "kernel_stack_base (m_next_pid s)"
  have "\<exists>v'. claim_pages ?b True 0 4 (k_vm s) = (True, v') \<and> vm_ok v' \<and> vm_budget (k_vm s) \<le> vm_budget v' + 4 * (4 - 0) \<and>
    (\<forall>k. 0 \<le> k \<and> k < 4 \<longrightarrow> (\<exists>f. vm_leaf v' (?b + of_nat k * 4096) = Some (leaf_entry (f AND PAGE_MASK) True))) \<and>
    (\<forall>a. (\<forall>k. 0 \<le> k \<and> k < 4 \<longrightarrow> \<not> same_page a (?b + of_nat k * 4096)) \<longrightarrow> vm_leaf v' a = vm_leaf (k_vm s) a) \<and>
    (\<forall>a. vm_usable (k_vm s) a \<longrightarrow> vm_usable v' a)"
    by (rule claim_pages_spec) (use vm consecutive_pages [of _ _ ?b] in auto)
  then obtain v' where cl: "claim_pages ?b True 0 4 (k_vm s) = (True, v')" and
    lf: "\<forall>k < 4. \<exists>f. vm_leaf v' (?b + of_nat k * 4096) = Some (leaf_entry (f AND PAGE_MASK) True)" and
    bud: "vm_budget (k_vm s) \<le> vm_budget v' + 16" and v': "vm_ok v'" "\<forall>a. (\<forall>k < 4. \<not> same_page a (?b + of_nat k * 4096)) \<longrightarrow> vm_leaf v' a = vm_leaf (k_vm s) a" by auto
  from lf have lf': "\<forall>k < 4. vm_leaf v' (?b + of_nat k * 4096) \<noteq> None" by fastforce
  define s1 where "s1 = upd_proc p (\<lambda>_. new_process\<lparr>p_pid := ?pid, p_ppid := ppid, p_name := name,
      p_state := Ready, p_next := m_first_process s\<rparr>) (s\<lparr>m_next_pid := ?pid + 1\<rparr>)"
  define s5 where "s5 = (let s4 = (upd_proc p (\<lambda>q. q\<lparr>p_kernel_stack := ?b + KERNEL_STACK_SIZE\<rparr>)
      (s1\<lparr>k_vm := v'\<rparr>))\<lparr>m_first_process := p\<rparr>
    in if m_current_process s4 = nullptr then s4\<lparr>m_current_process := p\<rparr> else s4)"
  have call: "create_process p name ppid s = Some (?pid, add_process p s5)"
    using cl by (simp add: create_process_def Let_def s1_def s5_def)
  have s5: "m_runqueues s5 = m_runqueues s" "m_first_process s5 = p" "k_vm s5 = v'"
    "procs s5 p = new_process\<lparr>p_pid := ?pid, p_ppid := ppid, p_name := name, p_state := Ready,
       p_next := m_first_process s, p_kernel_stack := ?b + KERNEL_STACK_SIZE\<rparr>"
    "\<And>q. q \<noteq> p \<Longrightarrow> procs s5 q = procs s q"
    "m_current_process s \<noteq> nullptr \<Longrightarrow> m_current_process s5 = m_current_process s"
    by (simp_all add: s5_def s1_def Let_def)
  note q = queued_cong [OF s5(1)]
  have add: "queued (add_process p s5) = add_mset p (queued s) \<and> sched_ok (add_process p s5)"
    using ready.add_contents [of s5 p] q sch tab(3) by simp
  have keep: "procs s5 x = procs s x" if "x \<in> set ps" for x using s5(5) tab(2) that by metis
  have "chain (next_of (add_process p s5)) (m_first_process s) ps \<longleftrightarrow> chain (next_of s) (m_first_process s) ps"
    by (rule chain_cong) (simp add: keep)
  then have pl: "proc_list (add_process p s5) (p # ps)"
    using tab s5 by (simp add: proc_list_def)
  have fnd: "find (\<lambda>x. p_pid (procs (add_process p s5) x) = pid) ps = find (\<lambda>x. p_pid (procs s x) = pid) ps" for pid
    by (rule find_cong) (auto simp: keep)
  have pidp: "p_pid (procs (add_process p s5) p) = ?pid" by (simp add: s5)
  have "get_process ?pid (add_process p s5) = Some p"
    using get_process_list [OF pl, of ?pid] pidp by simp
  moreover have "get_process pid (add_process p s5) = get_process pid s" if "pid \<noteq> ?pid" for pid
    using get_process_list [OF pl, of pid] get_process_list [OF tab(1), of pid] pidp that fnd by simp
  ultimately show ?thesis
    using call pl add v' lf' bud s5 by (intro exI [of _ "add_process p s5"]) (simp add: new_process_def)
qed


text \<open>A kernel with no process, one processor and 63 free frames.\<close>

definition boot_example :: kernel where
  "boot_example = kernel_example\<lparr>k_vm := vm_fresh 64, m_current_process := 0, m_first_process := 0,
     m_next_pid := 1, m_runqueues := [new_runqueue 0]\<rparr>"

lemma boot_example_simps [simp]:
  "k_vm boot_example = vm_fresh 64" "m_next_pid boot_example = 1" "queued boot_example = {#}"
  "proc_list boot_example []" "sched_ok boot_example" "sched_room boot_example"
  by (simp_all add: boot_example_def kernel_example_def queued_def new_runqueue_def proc_list_def
      sched_ok_def queue_ok_def sched_room_def SIZE_MAX_def)

lemma vm_fresh_64: "vm_ok (vm_fresh 64)" "vm_budget (vm_fresh 64) = 63" "vm_usable (vm_fresh 64) a"
  "vm_leaf (vm_fresh 64) a = None"
  using vm_fresh_ok [of 64] by (simp_all add: vm_budget_def vm_usable_def vm_fresh_clear vm_fresh_leaf)


text \<open>
  a failed \<open>create_process\<close> reports -1 and leaves the table and the queues alone, but releases
  nothing: the frames already taken stay mapped, because the new process has no kernel stack
  recorded yet when its memory is cleaned up.
\<close>

theorem create_process_failure:
  assumes "claim_pages (kernel_stack_base (m_next_pid s)) True 0 4 (k_vm s) = (False, v)"
    and "proc_list s ps" "p \<notin> set ps"
  shows "\<exists>s'. create_process p name ppid s = Some (-1, s') \<and> k_vm s' = v \<and> proc_list s' ps \<and>
           m_runqueues s' = m_runqueues s \<and> m_next_pid s' = m_next_pid s + 1"
proof -
  let ?f = "\<lambda>_. new_process\<lparr>p_pid := m_next_pid s, p_ppid := ppid, p_name := name,
      p_state := Ready, p_next := m_first_process s\<rparr>"
  define s1 where "s1 = (upd_proc p ?f (s\<lparr>m_next_pid := m_next_pid s + 1\<rparr>))\<lparr>k_vm := v\<rparr>"
  define s2 where "s2 = upd_proc p (\<lambda>p. p\<lparr>p_memory_regions := [], p_brk := 0, p_program_break := 0\<rparr>) (s1\<lparr>k_vm := v\<rparr>)"
  have "p_memory_regions (procs s1 p) = []" "p_kernel_stack (procs s1 p) = 0" "k_vm s1 = v"
    by (simp_all add: s1_def new_process_def)
  then have "cleanup_process_memory p s1 = Some s2"
    by (simp add: cleanup_process_memory_def s2_def Let_def)
  then have "create_process p name ppid s = Some (-1, s2)"
    using assms(1) by (simp add: create_process_def Let_def s1_def [symmetric])
  moreover have "proc_list s2 ps"
    using assms(2) by (rule proc_list_cong) (use assms(3) in \<open>auto simp: s2_def s1_def\<close>)
  ultimately show ?thesis by (simp add: s2_def s1_def)
qed

theorem create_process_failure_witness:
  "\<exists>s'. create_process 0x1000 [] 0 (boot_example\<lparr>k_vm := (vm_fresh 64)\<lparr>vm_pmm := (pmm_fresh 8)\<lparr>m_free_frames := 0\<rparr>\<rparr>\<rparr>)
     = Some (-1, s')"
proof -
  let ?v = "(vm_fresh 64)\<lparr>vm_pmm := (pmm_fresh 8)\<lparr>m_free_frames := 0\<rparr>\<rparr>"
  have "claim_pages b True 0 4 ?v = (False, ?v)" for b
    by (simp add: claim_pages.simps [of b True 0 4] allocate_frame_def)
  moreover have "proc_list (boot_example\<lparr>k_vm := ?v\<rparr>) []"
    by (simp add: proc_list_def boot_example_def)
  ultimately show ?thesis
    using create_process_failure [of "boot_example\<lparr>k_vm := ?v\<rparr>" ?v "[]" "0x1000" "[]" 0] by auto
qed

text \<open>
  kernel stacks. Up to pid 131071 the 16 KiB stacks lie above \<^verbatim>\<open>0xFFFFFFFF80000000\<close>, one after
  the other, so two live processes never share a stack page. The next pid wraps around to
  address 0.
\<close>

theorem kernel_stacks_disjoint:
  assumes "0 < a" "a < b" "b < 131072"
  shows "unat (kernel_stack_base (of_nat a)) = 0xFFFFFFFF80000000 + a * 16384 \<and>
         unat (kernel_stack_base (of_nat a)) + 16384 \<le> unat (kernel_stack_base (of_nat b)) \<and>
         (\<forall>i < 4. \<forall>j < 4. \<not> same_page (kernel_stack_base (of_nat a) + of_nat i * 4096)
            (kernel_stack_base (of_nat b) + of_nat j * 4096)) \<and>
         kernel_stack_base 131072 = 0"
proof -
  have base: "unat (kernel_stack_base (of_nat n)) = 0xFFFFFFFF80000000 + n * 16384"
    and base': "kernel_stack_base (of_nat n) = kernel_stack_base 0 + of_nat (4 * n) * 4096" if n: "n < 131072" for n
  proof -
    have "(scast (of_nat n :: pid_t) :: u64) = of_nat n" using n by (intro scast_of_nat_32) simp
    then have e: "kernel_stack_base (of_nat n) = 0xFFFFFFFF80000000 + of_nat (n * 16384)"
      by (simp add: kernel_stack_base_def KERNEL_STACK_SIZE_def)
    have "unat (of_nat (n * 16384) :: u64) = n * 16384" using n by (intro unat_of_nat_u64) simp
    then show "unat (kernel_stack_base (of_nat n)) = 0xFFFFFFFF80000000 + n * 16384"
      unfolding e using n by (subst unat_plus_u64) simp_all
    show "kernel_stack_base (of_nat n) = kernel_stack_base 0 + of_nat (4 * n) * 4096"
      unfolding e by (simp add: kernel_stack_base_def KERNEL_STACK_SIZE_def)
  qed
  have sep: "\<not> same_page (kernel_stack_base (of_nat a) + of_nat i * 4096) (kernel_stack_base (of_nat b) + of_nat j * 4096)"
    if "i < 4" "j < 4" for i j
  proof -
    have a: "kernel_stack_base (of_nat a) + of_nat i * 4096 = kernel_stack_base 0 + of_nat (4 * a + i) * 4096"
      "kernel_stack_base (of_nat b) + of_nat j * 4096 = kernel_stack_base 0 + of_nat (4 * b + j) * 4096"
      using base' [of a] base' [of b] assms by (simp_all add: algebra_simps)
    show ?thesis unfolding a by (rule consecutive_pages) (use that assms in auto)
  qed
  have "kernel_stack_base 131072 = 0" by (simp add: kernel_stack_base_def KERNEL_STACK_SIZE_def)
  with base [of a] base [of b] sep assms show ?thesis by auto
qed

theorem kernel_stacks_disjoint_witness:
  "unat (kernel_stack_base (of_nat 1)) + 16384 \<le> unat (kernel_stack_base (of_nat 2))"
  using kernel_stacks_disjoint [of 1 2] by simp

section \<open>Termination\<close>

lemma page_loop_returns:
  assumes "unat e + 4096 \<le> 2 ^ 64"
  shows "\<exists>s'. page_loop f a e s = Some s'"
proof (induction "unat e - unat a" arbitrary: a s rule: less_induct)
  case less
  show ?case
  proof (cases "a < e")
    case False
    then show ?thesis by (simp add: page_loop.simps [of f a])
  next
    case True
    then have lt: "unat a < unat e" by (simp add: word_less_nat_alt)
    then have "unat (a + 4096) = unat a + 4096" using assms by (subst unat_plus_u64) simp_all
    then have "unat e - unat (a + 4096) < unat e - unat a" using lt by linarith
    from less [OF this, of "f a s"] True show ?thesis by (simp add: page_loop.simps [of f a])
  qed
qed

lemma release_regions_returns:
  "\<forall>r \<in> set rs. unat (mr_start r + mr_size r) + 4096 \<le> 2 ^ 64 \<Longrightarrow> \<exists>v'. release_regions rs v = Some v'"
proof (induction rs arbitrary: v)
  case (Cons r rs)
  have "unat (mr_start r + mr_size r) + 4096 \<le> 2 ^ 64" using Cons.prems by (metis list.set_intros(1))
  from page_loop_returns [OF this, of release_page "mr_start r" v]
  obtain v1 where v1: "page_loop release_page (mr_start r) (mr_start r + mr_size r) v = Some v1" by blast
  obtain v' where "release_regions rs v1 = Some v'" using Cons.IH Cons.prems by (metis list.set_intros(2))
  with v1 show ?case by simp
qed simp

text \<open>What cleaning up leaves alone.\<close>

lemma cleanup_returns:
  assumes "\<forall>r \<in> set (p_memory_regions (procs s p)). unat (mr_start r + mr_size r) + 4096 \<le> 2 ^ 64"
  obtains s' where "cleanup_process_memory p s = Some s'" "m_runqueues s' = m_runqueues s"
    "m_first_process s' = m_first_process s" "m_current_process s' = m_current_process s"
    "\<And>q. p_next (procs s' q) = p_next (procs s q)" "\<And>q. p_pid (procs s' q) = p_pid (procs s q)"
    "p_memory_regions (procs s' p) = []" "p_kernel_stack (procs s' p) = 0"
proof -
  obtain v1 where v1: "release_regions (p_memory_regions (procs s p)) (k_vm s) = Some v1"
    using release_regions_returns [OF assms] by blast
  define s1 where "s1 = upd_proc p (\<lambda>p. p\<lparr>p_memory_regions := [], p_brk := 0, p_program_break := 0\<rparr>) (s\<lparr>k_vm := v1\<rparr>)"
  define s2 where "s2 = (let v2 = fold (\<lambda>i. release_page (p_kernel_stack (procs s p) - KERNEL_STACK_SIZE + of_nat i * 4096))
         [0..<unat ((KERNEL_STACK_SIZE + 4095) div 4096)] v1
       in upd_proc p (\<lambda>p. p\<lparr>p_kernel_stack := 0\<rparr>) (s1\<lparr>k_vm := v2\<rparr>))"
  have k: "p_kernel_stack (procs s1 p) = p_kernel_stack (procs s p)" "k_vm s1 = v1" by (simp_all add: s1_def)
  have c: "cleanup_process_memory p s = Some (if p_kernel_stack (procs s p) \<noteq> 0 then s2 else s1)"
    unfolding cleanup_process_memory_def v1 bind.bind_lunit Let_def s1_def [symmetric] k s2_def by simp
  show thesis
  proof (rule that)
    show "cleanup_process_memory p s = Some (if p_kernel_stack (procs s p) \<noteq> 0 then s2 else s1)" by (rule c)
  qed (auto simp add: s1_def s2_def Let_def simp del: upt_rec_numeral)
qed

lemma terminate_from_found:
  "chain (next_of s) cur (xs @ p # ys) \<Longrightarrow> \<forall>x \<in> set xs. p_pid (procs s x) \<noteq> pid \<Longrightarrow> p_pid (procs s p) = pid \<Longrightarrow>
     terminate_from cpu pid prev cur s = terminate_found cpu (last (prev # xs)) p s"
proof (induction xs arbitrary: prev cur)
  case Nil
  then show ?case by (simp add: terminate_from.simps [of cpu pid prev p])
next
  case (Cons x xs)
  then show ?case by (simp add: terminate_from.simps [of cpu pid prev x])
qed

lemma terminate_from_missing:
  "chain (next_of s) cur xs \<Longrightarrow> \<forall>x \<in> set xs. p_pid (procs s x) \<noteq> pid \<Longrightarrow> terminate_from cpu pid prev cur s = Some s"
proof (induction xs arbitrary: prev cur)
  case Nil
  then show ?case by (simp add: terminate_from.simps [of cpu pid prev nullptr])
next
  case (Cons x xs)
  then show ?case by (simp add: terminate_from.simps [of cpu pid prev x])
qed

lemma terminate_process_spec:
  assumes tab: "proc_list s (xs @ p # ys)" "p_pid (procs s p) = pid"
      "\<forall>x \<in> set (xs @ ys). p_pid (procs s x) \<noteq> pid" "m_current_process s \<noteq> p"
    and sch: "sched_ok s"
    and reg: "\<forall>r \<in> set (p_memory_regions (procs s p)). unat (mr_start r + mr_size r) + 4096 \<le> 2 ^ 64"
  shows "\<exists>s'. terminate_process cpu pid s = Some s' \<and> proc_list s' (xs @ ys) \<and> queued s' = queued s - {#p#} \<and>
    sched_ok s' \<and> p_memory_regions (procs s' p) = [] \<and> p_kernel_stack (procs s' p) = 0 \<and>
    get_process pid s' = Some nullptr \<and> (\<forall>pid'. pid' \<noteq> pid \<longrightarrow> get_process pid' s' = get_process pid' s) \<and>
    (\<forall>pid'. get_process pid' s = Some nullptr \<longrightarrow> terminate_process cpu pid' s = Some s)"
proof -
  have ch: "chain (next_of s) (m_first_process s) (xs @ p # ys)" using tab(1) by (simp add: proc_list_def)
  have pn: "p \<noteq> nullptr" "nullptr \<notin> set xs" using chain_nonzero [OF ch] by auto
  define s1 where "s1 = (if last (nullptr # xs) \<noteq> nullptr then upd_proc (last (nullptr # xs)) (\<lambda>q. q\<lparr>p_next := p_next (procs s p)\<rparr>) s
      else s\<lparr>m_first_process := p_next (procs s p)\<rparr>)"
  have lx: "last (nullptr # xs) \<noteq> nullptr \<longleftrightarrow> xs \<noteq> []" using pn(2) by (auto) (metis last_in_set)
  have pl1: "proc_list s1 (xs @ ys)"
  proof (cases "xs = []")
    case True
    with ch show ?thesis by (simp add: s1_def proc_list_def)
  next
    case False
    have "next_of s1 = (next_of s)(last xs := next_of s p)" using False lx by (auto simp: s1_def)
    then show ?thesis using chain_unlink [OF ch False] False lx by (simp add: s1_def proc_list_def)
  qed
  have s1: "m_runqueues s1 = m_runqueues s" "m_current_process s1 = m_current_process s"
    "\<And>q. p_pid (procs s1 q) = p_pid (procs s q)" "p_memory_regions (procs s1 q) = p_memory_regions (procs s q)" for q
    by (auto simp: s1_def)
  define s2 where "s2 = remove_process p s1"
  have q2: "queued s2 = queued s - {#p#} \<and> sched_ok s2"
    using ready.remove_contents [of s1 p] queued_cong [OF s1(1)] sch pn(1) by (simp add: s2_def)
  obtain s3 where s3: "cleanup_process_memory p s2 = Some s3" "m_runqueues s3 = m_runqueues s2"
    "m_first_process s3 = m_first_process s2" "m_current_process s3 = m_current_process s2"
    "\<And>q. p_next (procs s3 q) = p_next (procs s2 q)" "\<And>q. p_pid (procs s3 q) = p_pid (procs s2 q)"
    "p_memory_regions (procs s3 p) = []" "p_kernel_stack (procs s3 p) = 0"
    by (rule cleanup_returns [of s2 p]) (use reg s1(4) in \<open>auto simp: s2_def\<close>)
  have "terminate_process cpu pid s = terminate_found cpu (last (nullptr # xs)) p s"
    unfolding terminate_process_def by (rule terminate_from_found [OF ch]) (use tab in auto)
  also have "\<dots> = Some s3"
  proof -
    have "m_current_process s3 \<noteq> p" using s3(4) tab(4) s1(2) by (simp add: s2_def)
    then show ?thesis
      unfolding terminate_found_def Let_def s1_def [symmetric] s2_def [symmetric] s3(1) bind.bind_lunit by simp
  qed
  finally have call: "terminate_process cpu pid s = Some s3" .
  have pl3: "proc_list s3 (xs @ ys)"
    using pl1 by (rule proc_list_cong) (simp_all add: s3 s2_def)
  have pid3: "p_pid (procs s3 q) = p_pid (procs s q)" for q by (simp add: s3(6) s2_def s1(3))
  have "find (\<lambda>x. p_pid (procs s3 x) = pid) (xs @ ys) = None"
    using tab(3) by (auto simp: find_None_iff pid3)
  then have gone: "get_process pid s3 = Some nullptr" using get_process_list [OF pl3] by simp
  have others: "get_process pid' s3 = get_process pid' s" if "pid' \<noteq> pid" for pid'
  proof -
    have "find (\<lambda>x. p_pid (procs s x) = pid') (zs @ p # ys) = find (\<lambda>x. p_pid (procs s x) = pid') (zs @ ys)" for zs
      using that tab(2) by (induction zs) auto
    then show ?thesis using get_process_list [OF pl3, of pid'] get_process_list [OF tab(1), of pid'] by (simp add: pid3)
  qed
  have missing: "terminate_process cpu pid' s = Some s" if "get_process pid' s = Some nullptr" for pid'
  proof -
    have "nullptr \<notin> set (xs @ p # ys)" using chain_nonzero [OF ch] .
    then have "find (\<lambda>x. p_pid (procs s x) = pid') (xs @ p # ys) = None"
      using that get_process_list [OF tab(1), of pid'] find_map_pid [of s pid' "xs @ p # ys"]
      by (cases "find (\<lambda>x. p_pid (procs s x) = pid') (xs @ p # ys)") auto
    then show ?thesis
      unfolding terminate_process_def by (intro terminate_from_missing [OF ch]) (auto simp: find_None_iff)
  qed
  show ?thesis
    using call pl3 q2 queued_cong [OF s3(2)] s3(7,8) gone others missing by (intro exI [of _ s3]) simp
qed


text \<open>
  Three processes on one processor; the one with pid 3 at address 48 runs, its registers are
  marked by their instruction pointer.
\<close>

definition exit_example :: "nat \<Rightarrow> u64 list \<Rightarrow> kernel" where
  "exit_example i q = kernel_example\<lparr>
     procs := (\<lambda>p. if p = 16 then new_process\<lparr>p_pid := 1, p_state := Ready, p_next := 32, p_registers := zero_regs\<lparr>rip := 111\<rparr>\<rparr>
                   else if p = 32 then new_process\<lparr>p_pid := 2, p_state := Ready, p_next := 48, p_registers := zero_regs\<lparr>rip := 222\<rparr>\<rparr>
                   else new_process\<lparr>p_pid := 3, p_state := Running\<rparr>),
     cpu_regs := zero_regs\<lparr>rip := 333\<rparr>,
     m_first_process := 16, m_current_process := 48,
     m_runqueues := [(new_runqueue 0)\<lparr>process_queue := q, current_index := i, rq_current := 48\<rparr>]\<rparr>"

lemma exit_example_table: "proc_list (exit_example 2 [16, 32, 48]) ([16] @ 32 # [48])" "sched_ok (exit_example 2 [16, 32, 48])"
  by (simp_all add: exit_example_def kernel_example_def proc_list_def new_process_def sched_ok_def queue_ok_def
      new_runqueue_def)


text \<open>
  \<open>terminate_process\<close> on the running process. The current process is set to the head of the table
  before the scheduler runs, so the registers on the processor no longer match the current
  process: when the scheduler picks the head itself no switch happens and the processor keeps
  executing the terminated process; when it picks another one, the registers of the terminated
  process are saved over those of the head of the table.
\<close>

theorem terminate_current_process:
  "map_option (\<lambda>s. (m_current_process s, rip (cpu_regs s), rip (p_registers (procs s 16))))
     (terminate_process 0 3 (exit_example 2 [16, 32, 48])) = Some (16, 333, 111) \<and>
   map_option (\<lambda>s. (m_current_process s, rip (cpu_regs s), rip (p_registers (procs s 16))))
     (terminate_process 0 3 (exit_example 0 [48, 16, 32])) = Some (32, 222, 333)"
  by (intro conjI) code_simp+

section \<open>The user stack\<close>

lemma stack_words_length:
  "length (stack_words as es) = length as + 2 + (case es of None \<Rightarrow> 0 | Some e \<Rightarrow> length e + 1)"
  by (simp add: stack_words_def split: option.split)

lemma setup_process_stack_spec:
  assumes ok: "vm_ok (k_vm s)" "8192 \<le> vm_budget (k_vm s)"
    and fresh: "\<forall>k < 2048. vm_usable (k_vm s) (USER_STACK_TOP - USER_STACK_SIZE + of_nat k * 4096) \<and>
        vm_leaf (k_vm s) (USER_STACK_TOP - USER_STACK_SIZE + of_nat k * 4096) = None"
    and small: "length args + length envs < 1000000"
  shows "\<exists>ws s' sp. setup_process_stack p (Some args) (Some envs) s = Some (True, ws, s') \<and>
    map snd ws = of_nat (length args) # map snd args @ 0 # map snd envs @ [0] \<and>
    map fst ws = map (\<lambda>i. sp + of_nat i * 8) [0..<length ws] \<and> sp + of_nat (length ws) * 8 = USER_STACK_TOP \<and>
    rsp (p_registers (procs s' p)) = sp \<and> rip (p_registers (procs s' p)) = p_entry_point (procs s p) \<and>
    p_argv (procs s' p) = Some (map fst args) \<and> p_envp (procs s' p) = Some (map fst envs) \<and> vm_ok (k_vm s') \<and>
    (\<forall>k < 2048. \<exists>f. vm_leaf (k_vm s') (USER_STACK_TOP - USER_STACK_SIZE + of_nat k * 4096) =
        Some (leaf_entry (f AND PAGE_MASK) True)) \<and>
    vm_leaf (k_vm s') USER_STACK_TOP = vm_leaf (k_vm s) USER_STACK_TOP"
proof -
  let ?b = "USER_STACK_TOP - USER_STACK_SIZE" and ?v = "k_vm s"
  have pages: "unat ((USER_STACK_SIZE + 4095) div 4096) = 2048" by (simp add: USER_STACK_SIZE_def)
  have dis: "\<not> same_page (?b + of_nat k * 4096) (?b + of_nat l * 4096)" if "k < l" "l < 2048" for k l
    by (rule consecutive_pages) (use that in auto)
  obtain v' where v': "claim_pages ?b True 0 2048 ?v = (True, v')" "vm_ok v'"
      "\<forall>k < 2048. \<exists>f. vm_leaf v' (?b + of_nat k * 4096) = Some (leaf_entry (f AND PAGE_MASK) True)"
      "\<forall>a. (\<forall>k < 2048. \<not> same_page a (?b + of_nat k * 4096)) \<longrightarrow> vm_leaf v' a = vm_leaf ?v a"
    using claim_pages_spec [of ?v 2048 0 ?b True] ok fresh dis by auto
  have "\<not> same_page USER_STACK_TOP (?b + of_nat k * 4096)" if "k < 2048" for k
  proof -
    have top: "USER_STACK_TOP = ?b + of_nat 2048 * 4096" by (simp add: USER_STACK_TOP_def USER_STACK_SIZE_def)
    have "\<not> same_page (?b + of_nat k * 4096) (?b + of_nat 2048 * 4096)" by (rule consecutive_pages) (use that in auto)
    then show ?thesis unfolding top [symmetric] same_page_iff by metis
  qed
  then have top: "vm_leaf v' USER_STACK_TOP = vm_leaf ?v USER_STACK_TOP" using v'(4) by blast
  define req :: u64 where "req = 8 + (of_nat (length args) + 1) * 8 + (of_nat (length envs) + 1) * 8"
  have req: "req = of_nat ((length args + length envs + 3) * 8)" by (simp add: req_def algebra_simps)
  have "unat req = (length args + length envs + 3) * 8"
    unfolding req by (rule unat_of_nat_u64) (use small in simp)
  then have fits: "\<not> USER_STACK_SIZE < req" using small by (simp add: word_less_nat_alt USER_STACK_SIZE_def)
  define ws where "ws = stack_words (map snd args) (Some (map snd envs))"
  define wr where "wr = zip (map (\<lambda>i. USER_STACK_TOP - req + of_nat i * 8) [0..<length ws]) ws"
  have len: "length wr = length args + length envs + 3" by (simp add: wr_def ws_def stack_words_length)
  define s1 where "s1 = upd_proc p (\<lambda>p. p\<lparr>p_user_stack := USER_STACK_TOP, p_argc := length args\<rparr>) (s\<lparr>k_vm := v'\<rparr>)"
  define s2 where "s2 = upd_proc p (\<lambda>p. p\<lparr>p_argv := Some (map fst args), p_envp := Some (map fst envs)\<rparr>) s1"
  define s3 where "s3 = upd_proc p (\<lambda>p. p\<lparr>p_registers := (p_registers p)\<lparr>rsp := USER_STACK_TOP - req, rbp := USER_STACK_TOP - req,
      rip := p_entry_point p, cs := 0x23, ss := 0x1B, rflags := 0x202\<rparr>\<rparr>) s2"
  define s4 where "s4 = add_memory_region p ?b USER_STACK_SIZE True False s3"
  have "setup_process_stack p (Some args) (Some envs) s = Some (True, wr, s4)"
    unfolding setup_process_stack_def pages v'(1) Let_def prod.case option.case option.map s1_def [symmetric]
      req_def [symmetric] using fits by (simp add: s2_def s3_def s4_def wr_def ws_def del: upt_rec_numeral)
  moreover have "map snd wr = of_nat (length args) # map snd args @ 0 # map snd envs @ [0]"
    unfolding wr_def by (simp add: ws_def stack_words_def)
  moreover have "map fst wr = map (\<lambda>i. USER_STACK_TOP - req + of_nat i * 8) [0..<length wr]"
    unfolding wr_def by simp
  moreover have "USER_STACK_TOP - req + of_nat (length wr) * 8 = USER_STACK_TOP"
    unfolding len by (simp add: req_def algebra_simps)
  moreover have "rsp (p_registers (procs s4 p)) = USER_STACK_TOP - req" "rip (p_registers (procs s4 p)) = p_entry_point (procs s p)"
    "p_argv (procs s4 p) = Some (map fst args)" "p_envp (procs s4 p) = Some (map fst envs)" "k_vm s4 = v'"
    by (simp_all add: s4_def s3_def s2_def s1_def add_memory_region_def)
  ultimately show ?thesis using v'(2,3) top by (intro exI [of _ wr] exI [of _ s4] exI [of _ "USER_STACK_TOP - req"]) simp
qed



end
