(* ===== verification/Message_IPC.thy ===== *)
theory Message_IPC
  imports Process_Manager
begin

text \<open>
  Inter-process communication, \<open>core/ipc.cpp\<close>: named message queues with blocking receive, and
  shared memory regions.

  A \<^verbatim>\<open>MessageQueue*\<close> is an address and \<open>mqs\<close> holds the queue objects; the address \<^verbatim>\<open>new MessageQueue\<close>
  returns is an argument. A shared region is only reachable through the manager's vector, which is
  a list of regions here. Queue and region identifiers are \<^verbatim>\<open>int32_t\<close> counters, modelled as integers.
  The bytes a message carries are those the sender passes; the ranges \<open>memset\<close> clears are recorded
  in \<open>cleared\<close>. A blocking receive switches to another process: \<open>env\<close> is what the system does until the
  receiver runs again.
\<close>

section \<open>State\<close>

definition MAX_MESSAGE_SIZE :: nat where "MAX_MESSAGE_SIZE = 1024"
definition MAX_MESSAGES_PER_QUEUE :: nat where "MAX_MESSAGES_PER_QUEUE = 64"
definition MAX_SHARED_MEMORY_SIZE :: u64 where "MAX_SHARED_MEMORY_SIZE = 4 * 1024 * 1024"

record ipc_message =
  msg_sender :: pid_t
  msg_timestamp :: u64
  msg_data :: bytes

record message_queue =
  mq_owner :: pid_t
  mq_name :: bytes
  mq_messages :: "ipc_message list"
  mq_waiting :: "u64 list"

record shared_region =
  shm_id :: int
  shm_creator :: pid_t
  shm_size :: u64
  shm_address :: u64
  shm_attached :: "pid_t list"

record ipc =
  kern :: kernel
  mqs :: "u64 \<Rightarrow> message_queue"
  m_message_queues :: "u64 list"
  m_shared_memory_regions :: "shared_region list"
  m_next_queue_id :: int
  m_next_shared_memory_id :: int
  cleared :: "(u64 \<times> u64) list"

definition upd_mq :: "u64 \<Rightarrow> (message_queue \<Rightarrow> message_queue) \<Rightarrow> ipc \<Rightarrow> ipc" where
  "upd_mq q f s = s\<lparr>mqs := (mqs s)(q := f (mqs s q))\<rparr>"

definition upd_kern :: "(kernel \<Rightarrow> kernel) \<Rightarrow> ipc \<Rightarrow> ipc" where
  "upd_kern f s = s\<lparr>kern := f (kern s)\<rparr>"

section \<open>Message queues\<close>

definition new_queue :: "pid_t \<Rightarrow> bytes \<Rightarrow> message_queue" where
  "new_queue owner name = \<lparr>mq_owner = owner, mq_name = name, mq_messages = [], mq_waiting = []\<rparr>"

definition is_waiting_on :: "u64 \<Rightarrow> u64 \<Rightarrow> kernel \<Rightarrow> bool" where
  "is_waiting_on process resource k \<longleftrightarrow> state_of k process = Waiting \<and> p_waiting_on (procs k process) = resource"

definition wake :: "u64 \<Rightarrow> kernel \<Rightarrow> kernel" where
  "wake process = upd_proc process (\<lambda>p. p\<lparr>p_state := Ready, p_waiting_on := nullptr\<rparr>)"

text \<open>The destructor wakes the waiting processes; it does not put them on a run queue.\<close>

fun release_waiting :: "u64 \<Rightarrow> u64 list \<Rightarrow> kernel \<Rightarrow> kernel" where
  "release_waiting q [] k = k"
| "release_waiting q (p # ps) k = release_waiting q ps (if is_waiting_on p q k then wake p k else k)"

definition is_full :: "message_queue \<Rightarrow> bool" where
  "is_full q \<longleftrightarrow> length (mq_messages q) \<ge> MAX_MESSAGES_PER_QUEUE"

definition queue_send :: "u64 \<Rightarrow> pid_t \<Rightarrow> bytes \<Rightarrow> nat \<Rightarrow> ipc \<Rightarrow> bool \<times> ipc" where
  "queue_send q sender data sz s =
    (if is_full (mqs s q) \<or> sz > MAX_MESSAGE_SIZE then (False, s)
     else
       let message = \<lparr>msg_sender = sender, msg_timestamp = timer_ticks (kern s), msg_data = take sz data\<rparr>;
           s1 = upd_mq q (\<lambda>m. m\<lparr>mq_messages := mq_messages m @ [message]\<rparr>) s
       in case mq_waiting (mqs s1 q) of
            [] \<Rightarrow> (True, s1)
          | waiting_process # _ \<Rightarrow>
              if waiting_process \<noteq> nullptr \<and> is_waiting_on waiting_process q (kern s1)
              then (True, upd_kern (\<lambda>k. add_process waiting_process (wake waiting_process k))
                            (upd_mq q (\<lambda>m. m\<lparr>mq_waiting := erase_at 0 (mq_waiting m)\<rparr>) s1))
              else (True, s1))"

text \<open>Taking the oldest message; \<open>None\<close> is the result false.\<close>

definition take_message :: "u64 \<Rightarrow> ipc \<Rightarrow> ipc_message option \<times> ipc" where
  "take_message q s =
    (case mq_messages (mqs s q) of
       [] \<Rightarrow> (None, s)
     | message # _ \<Rightarrow> (Some message, upd_mq q (\<lambda>m. m\<lparr>mq_messages := erase_at 0 (mq_messages m)\<rparr>) s))"

definition block_on :: "u64 \<Rightarrow> ipc \<Rightarrow> ipc" where
  "block_on q s =
    (let current = m_current_process (kern s)
     in upd_mq q (\<lambda>m. m\<lparr>mq_waiting := mq_waiting m @ [current]\<rparr>)
          (upd_kern (upd_proc current (\<lambda>p. p\<lparr>p_state := Waiting, p_waiting_on := q\<rparr>)) s))"

definition queue_receive :: "(ipc \<Rightarrow> ipc) \<Rightarrow> u32 \<Rightarrow> u64 \<Rightarrow> bool \<Rightarrow> ipc \<Rightarrow> (ipc_message option \<times> ipc) option" where
  "queue_receive env cpu q wait s =
    (if mq_messages (mqs s q) = [] then
       if \<not> wait \<or> m_current_process (kern s) = nullptr then Some (None, s)
       else
         let s1 = block_on q s
         in do { k \<leftarrow> schedule cpu (kern s1); Some (take_message q (env (s1\<lparr>kern := k\<rparr>))) }
     else Some (take_message q s))"

section \<open>The table of queues\<close>

text \<open>\<^verbatim>\<open>strcmp\<close> on the names of the live queues; the position of the first match.\<close>

definition find_name :: "bytes \<Rightarrow> ipc \<Rightarrow> nat option" where
  "find_name name s = find_index (\<lambda>q. q \<noteq> nullptr \<and> mq_name (mqs s q) = name) (m_message_queues s)"

definition create_message_queue :: "u64 \<Rightarrow> pid_t \<Rightarrow> bytes \<Rightarrow> ipc \<Rightarrow> int \<times> ipc" where
  "create_message_queue queue owner name s =
    (if find_name name s \<noteq> None then (-1, s)
     else
       let s1 = upd_mq queue (\<lambda>_. new_queue owner name) s
       in case find_index (\<lambda>q. q = nullptr) (m_message_queues s1) of
            Some i \<Rightarrow> (int i + 1, s1\<lparr>m_message_queues := (m_message_queues s1)[i := queue]\<rparr>)
          | None \<Rightarrow> (m_next_queue_id s1,
              s1\<lparr>m_next_queue_id := m_next_queue_id s1 + 1, m_message_queues := m_message_queues s1 @ [queue]\<rparr>))"

text \<open>The range check the three operations on an identifier share; \<open>None\<close> when it fails or the slot is empty.\<close>

definition queue_of_id :: "int \<Rightarrow> ipc \<Rightarrow> u64 option" where
  "queue_of_id i s =
    (if i \<le> 0 \<or> i \<ge> m_next_queue_id s \<or> i > int (length (m_message_queues s)) then None
     else let queue = m_message_queues s ! nat (i - 1)
          in if queue = nullptr then None else Some queue)"

definition destroy_message_queue :: "int \<Rightarrow> ipc \<Rightarrow> bool \<times> ipc" where
  "destroy_message_queue i s =
    (case queue_of_id i s of
       None \<Rightarrow> (False, s)
     | Some queue \<Rightarrow>
         (True, (upd_kern (release_waiting queue (mq_waiting (mqs s queue))) s)
                  \<lparr>m_message_queues := (m_message_queues s)[nat (i - 1) := nullptr]\<rparr>))"

definition open_message_queue :: "bytes \<Rightarrow> ipc \<Rightarrow> int" where
  "open_message_queue name s = (case find_name name s of None \<Rightarrow> -1 | Some i \<Rightarrow> int i + 1)"

definition send_message :: "int \<Rightarrow> pid_t \<Rightarrow> bytes \<Rightarrow> nat \<Rightarrow> ipc \<Rightarrow> bool \<times> ipc" where
  "send_message i sender data sz s =
    (case queue_of_id i s of None \<Rightarrow> (False, s) | Some queue \<Rightarrow> queue_send queue sender data sz s)"

definition receive_message ::
    "(ipc \<Rightarrow> ipc) \<Rightarrow> u32 \<Rightarrow> int \<Rightarrow> bool \<Rightarrow> ipc \<Rightarrow> (ipc_message option \<times> ipc) option" where
  "receive_message env cpu i wait s =
    (case queue_of_id i s of None \<Rightarrow> Some (None, s) | Some queue \<Rightarrow> queue_receive env cpu queue wait s)"

section \<open>Shared memory\<close>

definition release_range :: "u64 \<Rightarrow> nat \<Rightarrow> vmm \<Rightarrow> vmm" where
  "release_range base n = fold (\<lambda>j. release_page (base + of_nat j * 4096)) [0..<n]"

text \<open>Backing the pages of a region; when frames run out the pages mapped so far are released.\<close>

function map_shared :: "u64 \<Rightarrow> nat \<Rightarrow> nat \<Rightarrow> vmm \<Rightarrow> bool \<times> vmm" where
  "map_shared base i n v =
     (if i < n then
        let addr = base + of_nat i * 4096;
            (phys_page, p) = allocate_frame (vm_pmm v);
            v1 = v\<lparr>vm_pmm := p\<rparr>
        in if phys_page = 0 then (False, release_range base i v1)
           else map_shared base (Suc i) n (map_page addr phys_page True v1)
      else (True, v))"
  by pat_completeness auto
termination
  by (relation "measure (\<lambda>(base, i, n, v). n - i)") auto

declare map_shared.simps [simp del]

definition shared_mem_base :: "int \<Rightarrow> u64" where
  "shared_mem_base i = 0x700000000000 + of_int (i - 1) * MAX_SHARED_MEMORY_SIZE"

definition create_shared_memory :: "pid_t \<Rightarrow> u64 \<Rightarrow> ipc \<Rightarrow> int \<times> ipc" where
  "create_shared_memory creator sz s =
    (if sz = 0 \<or> sz > MAX_SHARED_MEMORY_SIZE then (-1, s)
     else
       let sz = (sz + 4095) AND NOT 4095;
           i = m_next_shared_memory_id s;
           s1 = s\<lparr>m_next_shared_memory_id := i + 1\<rparr>;
           base = shared_mem_base i;
           num_pages = unat (sz div 4096);
           (mapped, v) = map_shared base 0 num_pages (k_vm (kern s1));
           s2 = upd_kern (\<lambda>k. k\<lparr>k_vm := v\<rparr>) s1
       in if \<not> mapped then (-1, s2)
          else (i, s2\<lparr>cleared := (base, sz) # cleared s2,
                      m_shared_memory_regions := m_shared_memory_regions s2 @
                        [\<lparr>shm_id = i, shm_creator = creator, shm_size = sz, shm_address = base, shm_attached = [creator]\<rparr>]\<rparr>))"

definition find_region :: "int \<Rightarrow> ipc \<Rightarrow> nat option" where
  "find_region i s = find_index (\<lambda>r. shm_id r = i) (m_shared_memory_regions s)"

definition destroy_shared_memory :: "int \<Rightarrow> ipc \<Rightarrow> bool \<times> ipc" where
  "destroy_shared_memory i s =
    (case find_region i s of
       None \<Rightarrow> (False, s)
     | Some j \<Rightarrow>
         let region = m_shared_memory_regions s ! j;
             num_pages = unat ((shm_size region + 4095) div 4096);
             s1 = (if shm_address region \<noteq> nullptr
                   then upd_kern (\<lambda>k. k\<lparr>k_vm := release_range (shm_address region) num_pages (k_vm k)\<rparr>) s
                   else s)
         in (True, s1\<lparr>m_shared_memory_regions := erase_at j (m_shared_memory_regions s1)\<rparr>))"

definition attach_shared_memory :: "int \<Rightarrow> pid_t \<Rightarrow> ipc \<Rightarrow> u64 \<times> ipc" where
  "attach_shared_memory i pid s =
    (if i \<le> 0 then (nullptr, s)
     else case find_region i s of
            None \<Rightarrow> (nullptr, s)
          | Some j \<Rightarrow>
              let region = m_shared_memory_regions s ! j
              in if pid \<in> set (shm_attached region) then (shm_address region, s)
                 else (shm_address region,
                       s\<lparr>m_shared_memory_regions := (m_shared_memory_regions s)
                           [j := region\<lparr>shm_attached := shm_attached region @ [pid]\<rparr>]\<rparr>))"

definition detach_shared_memory :: "int \<Rightarrow> pid_t \<Rightarrow> ipc \<Rightarrow> bool \<times> ipc" where
  "detach_shared_memory i pid s =
    (case find_region i s of
       None \<Rightarrow> (False, s)
     | Some j \<Rightarrow>
         let region = m_shared_memory_regions s ! j
         in case find_index (\<lambda>x. x = pid) (shm_attached region) of
              None \<Rightarrow> (False, s)
            | Some l \<Rightarrow> (True, s\<lparr>m_shared_memory_regions := (m_shared_memory_regions s)
                           [j := region\<lparr>shm_attached := erase_at l (shm_attached region)\<rparr>]\<rparr>))"

text \<open>The walk over the process table; the next pointer is read after the wake-up.\<close>

partial_function (option) wake_from :: "u64 \<Rightarrow> u64 \<Rightarrow> kernel \<Rightarrow> kernel option" where
  [code]: "wake_from resource current k =
     (if current = nullptr then Some k
      else
        let k1 = (if is_waiting_on current resource k then add_process current (wake current k) else k)
        in wake_from resource (p_next (procs k1 current)) k1)"

definition wake_waiting_processes :: "u64 \<Rightarrow> ipc \<Rightarrow> ipc option" where
  "wake_waiting_processes resource s = do {
     k \<leftarrow> wake_from resource (get_first_process (kern s)) (kern s);
     Some (s\<lparr>kern := k\<rparr>)
   }"

section \<open>A queue is a bounded FIFO\<close>

text \<open>
  The contract of a message queue, independent of how it is stored: \<open>contents\<close> is the list of pending
  items, \<open>rest\<close> what the operations must not touch. Inside the locale the interface is shown
  to behave like a list of at most \<open>cap\<close> items under every sequence of operations.
\<close>

datatype 'a fifo_op = Put 'a | Get

datatype 'm fifo_reply = Sent bool | Got "'m option"

fun run_ops :: "('o \<Rightarrow> 's \<Rightarrow> 'r \<times> 's) \<Rightarrow> 'o list \<Rightarrow> 's \<Rightarrow> 'r list \<times> 's" where
  "run_ops step [] s = ([], s)"
| "run_ops step (x # xs) s =
     (let (r, s1) = step x s; (rs, s2) = run_ops step xs s1 in (r # rs, s2))"

fun fifo_spec :: "nat \<Rightarrow> ('a \<Rightarrow> 'm option) \<Rightarrow> 'a fifo_op \<Rightarrow> 'm list \<Rightarrow> 'm fifo_reply \<times> 'm list" where
  "fifo_spec cap item (Put a) ms =
     (case item a of
        Some m \<Rightarrow> if length ms < cap then (Sent True, ms @ [m]) else (Sent False, ms)
      | None \<Rightarrow> (Sent False, ms))"
| "fifo_spec cap item Get [] = (Got None, [])"
| "fifo_spec cap item Get (m # ms) = (Got (Some m), ms)"

fun fifo_step :: "('a \<Rightarrow> 's \<Rightarrow> bool \<times> 's) \<Rightarrow> ('s \<Rightarrow> 'm option \<times> 's) \<Rightarrow> 'a fifo_op \<Rightarrow> 's \<Rightarrow> 'm fifo_reply \<times> 's" where
  "fifo_step put get (Put a) s = map_prod Sent id (put a s)"
| "fifo_step put get Get s = map_prod Got id (get s)"

locale bounded_fifo =
  fixes inv :: "'s \<Rightarrow> bool" and contents :: "'s \<Rightarrow> 'm list" and rest :: "'s \<Rightarrow> 'x"
    and cap :: nat and item :: "'a \<Rightarrow> 'm option"
    and put :: "'a \<Rightarrow> 's \<Rightarrow> bool \<times> 's" and get :: "'s \<Rightarrow> 'm option \<times> 's"
  assumes inv_put: "inv s \<Longrightarrow> inv (snd (put a s))" and inv_get: "inv s \<Longrightarrow> inv (snd (get s))"
    and rest_put: "inv s \<Longrightarrow> rest (snd (put a s)) = rest s" and rest_get: "inv s \<Longrightarrow> rest (snd (get s)) = rest s"
    and put_ok: "inv s \<Longrightarrow> item a = Some m \<Longrightarrow> length (contents s) < cap \<Longrightarrow>
      fst (put a s) \<and> contents (snd (put a s)) = contents s @ [m]"
    and put_full: "inv s \<Longrightarrow> item a = None \<or> cap \<le> length (contents s) \<Longrightarrow> put a s = (False, s)"
    and get_empty: "inv s \<Longrightarrow> contents s = [] \<Longrightarrow> get s = (None, s)"
    and get_head: "inv s \<Longrightarrow> contents s = m # ms \<Longrightarrow> fst (get s) = Some m \<and> contents (snd (get s)) = ms"
begin

abbreviation step :: "'a fifo_op \<Rightarrow> 's \<Rightarrow> 'm fifo_reply \<times> 's" where
  "step \<equiv> fifo_step put get"

lemma step_simulates:
  assumes "inv s"
  shows "inv (snd (step x s)) \<and> rest (snd (step x s)) = rest s \<and>
    fifo_spec cap item x (contents s) = map_prod id contents (step x s)"
proof (cases x)
  case (Put a)
  show ?thesis
  proof (cases "item a = None \<or> cap \<le> length (contents s)")
    case True
    then show ?thesis using put_full [OF assms True] Put assms by (auto split: option.split)
  next
    case False
    then obtain m where m: "item a = Some m" by auto
    with False have "length (contents s) < cap" by simp
    from put_ok [OF assms m this] show ?thesis
      using Put m False inv_put [OF assms, of a] rest_put [OF assms, of a] by (cases "put a s") auto
  qed
next
  case Get
  show ?thesis
  proof (cases "contents s")
    case Nil
    then show ?thesis using get_empty [OF assms Nil] Get assms by simp
  next
    case (Cons m ms)
    from get_head [OF assms Cons] show ?thesis
      using Get Cons inv_get [OF assms] rest_get [OF assms] by (cases "get s") auto
  qed
qed

lemma run_refines:
  "inv s \<Longrightarrow> inv (snd (run_ops step xs s)) \<and> rest (snd (run_ops step xs s)) = rest s \<and>
     run_ops (fifo_spec cap item) xs (contents s) = map_prod id contents (run_ops step xs s)"
proof (induction xs arbitrary: s)
  case (Cons x xs)
  obtain r s1 where st: "step x s = (r, s1)" by fastforce
  obtain rs s2 where rn: "run_ops step xs s1 = (rs, s2)" by fastforce
  from step_simulates [OF Cons.prems, of x] Cons.IH [of s1] show ?case by (simp add: st rn)
qed simp

end

lemma fifo_spec_bound:
  "length ms \<le> cap \<Longrightarrow> length (snd (run_ops (fifo_spec cap item) xs ms)) \<le> cap"
proof (induction xs arbitrary: ms)
  case (Cons x xs)
  obtain r ms1 where st: "fifo_spec cap item x ms = (r, ms1)" by fastforce
  have "length ms1 \<le> cap" using st Cons.prems
    by (cases "(cap, item, x, ms)" rule: fifo_spec.cases) (auto split: option.splits if_splits)
  with Cons.IH [of ms1] show ?case by (cases "run_ops (fifo_spec cap item) xs ms1") (simp add: st)
qed simp

subsection \<open>The kernel's queues provide it\<close>

lemma upd_mq_simps [simp]:
  "mqs (upd_mq q f s) x = (if x = q then f (mqs s q) else mqs s x)" "kern (upd_mq q f s) = kern s"
  "m_message_queues (upd_mq q f s) = m_message_queues s" "m_next_queue_id (upd_mq q f s) = m_next_queue_id s"
  "m_shared_memory_regions (upd_mq q f s) = m_shared_memory_regions s"
  by (simp_all add: upd_mq_def)

lemma upd_kern_simps [simp]:
  "mqs (upd_kern f s) = mqs s" "kern (upd_kern f s) = f (kern s)"
  "m_message_queues (upd_kern f s) = m_message_queues s" "m_next_queue_id (upd_kern f s) = m_next_queue_id s"
  "m_shared_memory_regions (upd_kern f s) = m_shared_memory_regions s"
  by (simp_all add: upd_kern_def)

lemma queue_of_id_upd [simp]:
  "queue_of_id i (upd_mq q f s) = queue_of_id i s" "queue_of_id i (upd_kern g s) = queue_of_id i s"
  by (simp_all add: queue_of_id_def)

text \<open>What a receiver sees of a message, and what a sender's arguments amount to.\<close>

definition payload :: "ipc_message \<Rightarrow> pid_t \<times> bytes" where
  "payload m = (msg_sender m, msg_data m)"

fun letter :: "pid_t \<times> bytes \<Rightarrow> (pid_t \<times> bytes) option" where
  "letter (sender, data) = (if length data \<le> MAX_MESSAGE_SIZE then Some (sender, data) else None)"

definition pending :: "u64 \<Rightarrow> ipc \<Rightarrow> (pid_t \<times> bytes) list" where
  "pending q s = map payload (mq_messages (mqs s q))"

fun post :: "int \<Rightarrow> pid_t \<times> bytes \<Rightarrow> ipc \<Rightarrow> bool \<times> ipc" where
  "post i (sender, data) s = send_message i sender data (length data) s"

text \<open>A receive that does not wait; it returns without switching, so \<open>env\<close> plays no part.\<close>

definition poll :: "int \<Rightarrow> ipc \<Rightarrow> (pid_t \<times> bytes) option \<times> ipc" where
  "poll i s = (case receive_message id 0 i False s of None \<Rightarrow> (None, s) | Some (m, s') \<Rightarrow> (map_option payload m, s'))"

lemma poll_returns: "\<exists>m s'. receive_message env cpu i False s = Some (m, s') \<and> poll i s = (map_option payload m, s')"
  by (auto simp: poll_def receive_message_def queue_receive_def take_message_def
      split: option.split list.split)

lemma queue_send_cases:
  assumes "length data \<le> MAX_MESSAGE_SIZE" "\<not> is_full (mqs s q)" "queue_send q sender data (length data) s = (b, s')"
  shows "b \<and> pending q s' = pending q s @ [(sender, data)] \<and> m_message_queues s' = m_message_queues s \<and>
    m_next_queue_id s' = m_next_queue_id s \<and> (\<forall>x. x \<noteq> q \<longrightarrow> mqs s' x = mqs s x)"
  using assms by (auto simp: queue_send_def Let_def pending_def payload_def split: list.splits if_splits)

text \<open>The contract for every live identifier, as one interpretation.\<close>

definition other_queues :: "u64 \<Rightarrow> ipc \<Rightarrow> u64 list \<times> (u64 \<Rightarrow> message_queue)" where
  "other_queues q s = (m_message_queues s, (mqs s)(q := new_queue 0 []))"

interpretation port: bounded_fifo "\<lambda>s. queue_of_id i s = Some q" "pending q" "other_queues q"
  MAX_MESSAGES_PER_QUEUE letter "post i" "poll i" for i q
proof (unfold_locales, goal_cases)
  case (1 s a)
  then show ?case
    by (cases a) (auto simp: send_message_def queue_send_def Let_def split: list.split)
next
  case (2 s)
  then show ?case
    by (auto simp: poll_def receive_message_def queue_receive_def take_message_def split: list.split)
next
  case (3 s a)
  then show ?case
    by (cases a) (auto simp: send_message_def queue_send_def Let_def other_queues_def split: list.split)
next
  case (4 s)
  then show ?case
    by (auto simp: poll_def receive_message_def queue_receive_def take_message_def other_queues_def split: list.split)
next
  case (5 s a m)
  obtain sender data where a: "a = (sender, data)" by fastforce
  obtain b s' where qs: "queue_send q sender data (length data) s = (b, s')" by fastforce
  have "\<not> is_full (mqs s q)" using 5 by (simp add: is_full_def pending_def)
  with queue_send_cases [OF _ this qs] 5 show ?case
    by (auto simp: a send_message_def qs split: if_splits)
next
  case (6 s a)
  then show ?case
    by (cases a) (auto simp: send_message_def queue_send_def is_full_def pending_def split: if_splits)
next
  case (7 s)
  then show ?case by (simp add: poll_def receive_message_def queue_receive_def pending_def)
next
  case (8 s m ms)
  then show ?case
    by (cases "mq_messages (mqs s q)")
      (auto simp: poll_def receive_message_def queue_receive_def take_message_def pending_def)
qed

text \<open>
  C8: a message queue is a bounded FIFO. Whatever sequence of sends and non-blocking receives is
  issued on a live identifier, the replies are those of a list of at most 64 messages: sends append until the
  list is full or the message exceeds 1024 bytes, receives take messages out in the order they were sent,
  and no other queue changes.
\<close>

theorem message_queue_fifo:
  assumes "queue_of_id i s = Some q" "length (pending q s) \<le> MAX_MESSAGES_PER_QUEUE"
  shows "\<exists>rs s'. run_ops (fifo_step (post i) (poll i)) xs s = (rs, s') \<and>
    run_ops (fifo_spec 64 letter) xs (pending q s) = (rs, pending q s') \<and> length (pending q s') \<le> 64 \<and>
    queue_of_id i s' = Some q \<and> m_message_queues s' = m_message_queues s \<and> (\<forall>x. x \<noteq> q \<longrightarrow> mqs s' x = mqs s x)"
proof -
  obtain rs s' where r: "run_ops (fifo_step (post i) (poll i)) xs s = (rs, s')" by fastforce
  have ref: "queue_of_id i s' = Some q" "other_queues q s' = other_queues q s"
    "run_ops (fifo_spec MAX_MESSAGES_PER_QUEUE letter) xs (pending q s) = (rs, pending q s')"
    using port.run_refines [OF assms(1), of xs] r by simp_all
  have "mqs s' x = mqs s x" if "x \<noteq> q" for x
    using ref(2) that unfolding other_queues_def by (metis fun_upd_apply prod.inject)
  moreover have "m_message_queues s' = m_message_queues s" using ref(2) by (simp add: other_queues_def)
  moreover have "length (pending q s') \<le> MAX_MESSAGES_PER_QUEUE"
    using fifo_spec_bound [OF assms(2), of letter xs] ref(3) by simp
  ultimately show ?thesis using r ref(1,3) by (simp add: MAX_MESSAGES_PER_QUEUE_def)
qed

section \<open>Identifiers\<close>

text \<open>
  The invariant of the table: identifiers are the positions from 1 on; two live queues are distinct objects
  with distinct names.
\<close>

definition ipc_ok :: "ipc \<Rightarrow> bool" where
  "ipc_ok s \<longleftrightarrow> m_next_queue_id s = int (length (m_message_queues s)) + 1 \<and>
     (\<forall>a b. a < b \<and> b < length (m_message_queues s) \<and> m_message_queues s ! a \<noteq> nullptr \<and> m_message_queues s ! b \<noteq> nullptr \<longrightarrow>
        m_message_queues s ! a \<noteq> m_message_queues s ! b \<and>
        mq_name (mqs s (m_message_queues s ! a)) \<noteq> mq_name (mqs s (m_message_queues s ! b)))"

lemma queue_of_id_ok:
  "ipc_ok s \<Longrightarrow> queue_of_id i s =
     (if 0 < i \<and> i \<le> int (length (m_message_queues s)) \<and> m_message_queues s ! nat (i - 1) \<noteq> nullptr
      then Some (m_message_queues s ! nat (i - 1)) else None)"
  by (auto simp: queue_of_id_def ipc_ok_def Let_def)

lemma find_name_unique:
  assumes "ipc_ok s" "a < length (m_message_queues s)" "m_message_queues s ! a \<noteq> nullptr"
  shows "find_name (mq_name (mqs s (m_message_queues s ! a))) s = Some a"
  using assms unfolding find_name_def find_index_Some ipc_ok_def by auto

text \<open>Putting a queue with a new name at position \<open>n\<close> of the table, an empty slot or the end.\<close>

lemma ipc_ok_insert:
  assumes ok: "ipc_ok s" and q: "q \<notin> set (m_message_queues s)" "q \<noteq> nullptr" and nm: "find_name (mq_name m) s = None"
    and n: "n < length (m_message_queues s) \<and> m_message_queues s ! n = nullptr \<and> qs = (m_message_queues s)[n := q] \<or>
            n = length (m_message_queues s) \<and> qs = m_message_queues s @ [q]"
    and s': "m_message_queues s' = qs" "mqs s' = (mqs s)(q := m)" "m_next_queue_id s' = int (length qs) + 1"
  shows "ipc_ok s'" "queue_of_id (int n + 1) s' = Some q" "open_message_queue (mq_name m) s' = int n + 1"
    "\<And>j. j \<noteq> int n + 1 \<Longrightarrow> queue_of_id j s' = queue_of_id j s"
proof -
  let ?q = "m_message_queues s"
  have old: "?q ! a \<noteq> q" if "a < length ?q" for a using q(1) that nth_mem by metis
  have nms: "mq_name (mqs s (?q ! a)) \<noteq> mq_name m" if "a < length ?q" "?q ! a \<noteq> nullptr" for a
    using nm that unfolding find_name_def find_index_None by auto
  have at: "qs ! a = (if a = n then q else ?q ! a)" if "a < length qs" for a
    using n that by (auto simp: nth_append)
  have len: "a < length qs \<Longrightarrow> a \<noteq> n \<Longrightarrow> a < length ?q" "n < length qs" for a using n by auto
  have "qs ! a \<noteq> qs ! b \<and> mq_name (mqs s' (qs ! a)) \<noteq> mq_name (mqs s' (qs ! b))"
    if ab: "a < b" "b < length qs" "qs ! a \<noteq> nullptr" "qs ! b \<noteq> nullptr" for a b
  proof -
    consider "a = n" "b \<noteq> n" "b < length ?q" | "b = n" "a \<noteq> n" "a < length ?q" | "a \<noteq> n" "b \<noteq> n" "b < length ?q"
      using ab(1,2) len(1) [of a] len(1) [of b] by fastforce
    then show ?thesis
    proof cases
      case 1
      then show ?thesis using that old [of b] nms [of b] at [of a] at [of b] s'(2) by auto
    next
      case 2
      then show ?thesis using that old [of a] nms [of a] at [of a] at [of b] s'(2) by auto
    next
      case 3
      then have "?q ! a \<noteq> ?q ! b \<and> mq_name (mqs s (?q ! a)) \<noteq> mq_name (mqs s (?q ! b))"
        using ok that at [of a] at [of b] unfolding ipc_ok_def by auto
      then show ?thesis using 3 that at [of a] at [of b] old [of a] old [of b] s'(2) by auto
    qed
  qed
  then show ok': "ipc_ok s'" unfolding ipc_ok_def s'(1,3) by blast
  show qid: "queue_of_id (int n + 1) s' = Some q"
    using queue_of_id_ok [OF ok'] at [OF len(2)] len(2) q(2) by (simp add: s')
  show "open_message_queue (mq_name m) s' = int n + 1"
    using find_name_unique [OF ok', of n] at [OF len(2)] len(2) q(2) by (simp add: s' open_message_queue_def)
  show "queue_of_id j s' = queue_of_id j s" if "j \<noteq> int n + 1" for j
    unfolding queue_of_id_ok [OF ok] queue_of_id_ok [OF ok'] s' using n that by (auto simp: nth_append split: if_splits)
qed

lemma create_message_queue_spec:
  assumes "ipc_ok s" "q \<notin> set (m_message_queues s)" "q \<noteq> nullptr" "find_name name s = None"
  obtains i s' where "create_message_queue q owner name s = (i, s')" "0 < i" "ipc_ok s'"
    "queue_of_id i s' = Some q" "mqs s' q = new_queue owner name" "open_message_queue name s' = i" "queue_of_id i s = None"
    "\<And>j. j \<noteq> i \<Longrightarrow> queue_of_id j s' = queue_of_id j s" "\<And>x. x \<noteq> q \<Longrightarrow> mqs s' x = mqs s x"
proof (cases "find_index (\<lambda>q. q = nullptr) (m_message_queues s)")
  case None
  define s' where "s' = (upd_mq q (\<lambda>_. new_queue owner name) s)
    \<lparr>m_next_queue_id := m_next_queue_id s + 1, m_message_queues := m_message_queues s @ [q]\<rparr>"
  have c: "create_message_queue q owner name s = (int (length (m_message_queues s)) + 1, s')"
    using assms(1,4) None by (simp add: create_message_queue_def Let_def s'_def ipc_ok_def)
  have f: "find_name (mq_name (new_queue owner name)) s = None" using assms(4) by (simp add: new_queue_def)
  note r = ipc_ok_insert [OF assms(1-3) f, of "length (m_message_queues s)" "m_message_queues s @ [q]" s']
  show thesis
    by (rule that [OF c]) (use r assms(1) in \<open>simp_all add: s'_def fun_eq_iff ipc_ok_def new_queue_def queue_of_id_def\<close>)
next
  case (Some n)
  define s' where "s' = (upd_mq q (\<lambda>_. new_queue owner name) s)\<lparr>m_message_queues := (m_message_queues s)[n := q]\<rparr>"
  have c: "create_message_queue q owner name s = (int n + 1, s')"
    using assms(1,4) Some by (simp add: create_message_queue_def Let_def s'_def)
  have f: "find_name (mq_name (new_queue owner name)) s = None" using assms(4) by (simp add: new_queue_def)
  have n: "n < length (m_message_queues s)" "m_message_queues s ! n = nullptr" using Some by (auto simp: find_index_Some)
  note r = ipc_ok_insert [OF assms(1-3) f, of n "(m_message_queues s)[n := q]" s']
  show thesis
    by (rule that [OF c]) (use r n assms(1) in \<open>simp_all add: s'_def fun_eq_iff ipc_ok_def new_queue_def queue_of_id_def\<close>)
qed

lemma destroy_message_queue_spec:
  assumes "ipc_ok s" "queue_of_id i s = Some q"
  obtains s' where "destroy_message_queue i s = (True, s')" "ipc_ok s'" "queue_of_id i s' = None" "mqs s' = mqs s"
    "\<And>j. j \<noteq> i \<Longrightarrow> queue_of_id j s' = queue_of_id j s" "find_name (mq_name (mqs s q)) s' = None"
proof -
  define n where "n = nat (i - 1)"
  define s' where "s' = (upd_kern (release_waiting q (mq_waiting (mqs s q))) s)\<lparr>m_message_queues := (m_message_queues s)[n := nullptr]\<rparr>"
  have n: "i = int n + 1" "n < length (m_message_queues s)" "m_message_queues s ! n = q" "q \<noteq> nullptr"
    using assms(2) unfolding queue_of_id_ok [OF assms(1)] n_def by (auto split: if_splits)
  have upd: "(m_message_queues s)[n := nullptr] ! a = (if a = n then nullptr else m_message_queues s ! a)" for a
    using n(2) by (cases "a = n") auto
  have ok': "ipc_ok s'"
    using assms(1) unfolding ipc_ok_def s'_def by (simp add: upd)
  show thesis
  proof (rule that [of s'])
    show "destroy_message_queue i s = (True, s')"
      using assms(2) by (simp add: destroy_message_queue_def s'_def n_def)
    show "ipc_ok s'" by (rule ok')
    show "queue_of_id i s' = None" unfolding queue_of_id_ok [OF ok'] using n by (simp add: s'_def)
    show "mqs s' = mqs s" by (simp add: s'_def)
    show "queue_of_id j s' = queue_of_id j s" if "j \<noteq> i" for j
      unfolding queue_of_id_ok [OF ok'] queue_of_id_ok [OF assms(1)] using n that
      by (auto simp: s'_def upd)
    have uniq: "find_name (mq_name (mqs s q)) s = Some n"
      using find_name_unique [OF assms(1) n(2)] n(3,4) by simp
    have others: "m_message_queues s ! a \<noteq> nullptr \<Longrightarrow> mq_name (mqs s (m_message_queues s ! a)) \<noteq> mq_name (mqs s q)"
      if "a < length (m_message_queues s)" "a \<noteq> n" for a
      using find_name_unique [OF assms(1) that(1)] uniq that(2) by auto
    show "find_name (mq_name (mqs s q)) s' = None"
      unfolding find_name_def find_index_None s'_def
    proof (clarsimp simp: in_set_conv_nth upd split: if_splits)
      fix a assume "a < length (m_message_queues s)" "a \<noteq> n" "m_message_queues s ! a \<noteq> nullptr"
        "mq_name (mqs s (m_message_queues s ! a)) = mq_name (mqs s q)"
      then show False using others by blast
    qed
  qed
qed

text \<open>
  the table of message queues. Creating a queue under a new name returns a positive identifier that was not in use;
  opening the name finds it, the queue is empty, and every other identifier denotes the
  same queue as before. Creating a name that exists is refused and changes nothing. Destroying it again makes
  the identifier and the name free and leaves the others alone; the invariant holds throughout.
\<close>

theorem message_queue_table:
  assumes "ipc_ok s" "q \<notin> set (m_message_queues s)" "q \<noteq> nullptr" "open_message_queue name s = -1"
  shows "\<exists>i s1 s2. create_message_queue q owner name s = (i, s1) \<and> 0 < i \<and> queue_of_id i s = None \<and> ipc_ok s1 \<and>
    open_message_queue name s1 = i \<and> queue_of_id i s1 = Some q \<and> pending q s1 = [] \<and>
    (\<forall>j. j \<noteq> i \<longrightarrow> queue_of_id j s1 = queue_of_id j s) \<and> (\<forall>x. x \<noteq> q \<longrightarrow> mqs s1 x = mqs s x) \<and>
    (\<forall>q' owner'. create_message_queue q' owner' name s1 = (-1, s1)) \<and>
    destroy_message_queue i s1 = (True, s2) \<and> ipc_ok s2 \<and> open_message_queue name s2 = -1 \<and>
    (\<forall>j. queue_of_id j s2 = queue_of_id j s) \<and> (\<forall>x. x \<noteq> q \<longrightarrow> mqs s2 x = mqs s x)"
proof -
  have "find_name name s = None" using assms(4) by (auto simp: open_message_queue_def split: option.splits)
  then obtain i s1 where 1: "create_message_queue q owner name s = (i, s1)" "0 < i" "ipc_ok s1" "queue_of_id i s = None"
    "queue_of_id i s1 = Some q" "mqs s1 q = new_queue owner name" "open_message_queue name s1 = i"
    "\<And>j. j \<noteq> i \<Longrightarrow> queue_of_id j s1 = queue_of_id j s" "\<And>x. x \<noteq> q \<Longrightarrow> mqs s1 x = mqs s x"
    by (rule create_message_queue_spec [OF assms(1-3), of name owner]) blast
  obtain s2 where 2: "destroy_message_queue i s1 = (True, s2)" "ipc_ok s2" "queue_of_id i s2 = None" "mqs s2 = mqs s1"
    "\<And>j. j \<noteq> i \<Longrightarrow> queue_of_id j s2 = queue_of_id j s1" "find_name (mq_name (mqs s1 q)) s2 = None"
    by (rule destroy_message_queue_spec [OF 1(3,5)]) blast
  have "open_message_queue name s2 = -1" using 2(6) 1(6) by (simp add: open_message_queue_def new_queue_def)
  moreover have "create_message_queue q' owner' name s1 = (-1, s1)" for q' owner'
    using 1(2,7) by (auto simp: create_message_queue_def open_message_queue_def split: option.splits)
  moreover have "queue_of_id j s2 = queue_of_id j s" for j using 1(4,8) 2(3,5) by (cases "j = i") auto
  moreover have "pending q s1 = []" using 1(6) by (simp add: pending_def new_queue_def)
  ultimately show ?thesis
    using 1 2(1,2,4) by (intro exI [of _ i] exI [of _ s1] exI [of _ s2]) simp
qed

definition ipc_example :: ipc where
  "ipc_example = \<lparr>kern = boot_example, mqs = (\<lambda>_. new_queue 0 []), m_message_queues = [], m_shared_memory_regions = [],
     m_next_queue_id = 1, m_next_shared_memory_id = 1, cleared = []\<rparr>"

theorem message_queue_table_witness:
  "\<exists>i s1. create_message_queue 0x1000 7 [97] ipc_example = (i, s1) \<and> open_message_queue [97] s1 = i"
  using message_queue_table [of ipc_example "0x1000" "[97]" 7]
  by (auto simp: ipc_example_def ipc_ok_def open_message_queue_def find_name_def)

text \<open>One live queue with identifier 1 at address 4096.\<close>

definition mq_example :: ipc where
  "mq_example = snd (create_message_queue 0x1000 7 [97] ipc_example)"

lemma mq_example_eq:
  "queue_of_id 1 mq_example = Some 0x1000" "mqs mq_example 0x1000 = new_queue 7 [97]"
  by (simp_all add: mq_example_def ipc_example_def create_message_queue_def find_name_def queue_of_id_def Let_def)

theorem message_queue_fifo_witness:
  "fst (run_ops (fifo_step (post 1) (poll 1)) [Put (7, [1]), Put (8, [2]), Get, Get, Get] mq_example) =
     [Sent True, Sent True, Got (Some (7, [1])), Got (Some (8, [2])), Got None]"
  using message_queue_fifo [OF mq_example_eq(1), of "[Put (7, [1]), Put (8, [2]), Get, Get, Get]"]
  by (auto simp: mq_example_eq pending_def new_queue_def MAX_MESSAGE_SIZE_def)

section \<open>Blocking\<close>

lemma select_next_keeps:
  assumes "select_next_process i k = Some (n, k')" "i < length (m_runqueues k)"
  shows "procs k' = procs k" "rq_current (rq k' i) = rq_current (rq k i)" "i < length (m_runqueues k')"
    "m_current_process k' = m_current_process k"
  using assms by (auto simp: select_next_process_def Let_def split: policy.splits if_splits prod.splits bind_splits)

text \<open>
  C40: a blocking receive is not kept waiting. When the receiver is the process its processor runs and the
  scheduler finds another one, the switch resets the receiver's state from waiting to ready. So it is
  scheduled again without a message and its receive returns false, its entry in the list of waiting processes is not removed
  by later sends, and a receiver queued behind it is never woken.
\<close>

theorem blocked_receiver_is_ready:
  assumes cur: "m_current_process (kern s) = c" "c \<noteq> nullptr" "get_runqueue cpu (kern s) = Some r"
      "rq_current (rq (kern s) r) = c"
    and nxt: "select_next_process r (kern (block_on q s)) = Some (n, k1)" "n \<noteq> nullptr" "n \<noteq> c"
    and empty: "mq_messages (mqs s q) = []" "mq_waiting (mqs s q) = ws"
    and room: "\<not> is_full (mqs s q)"
  shows "\<exists>k. schedule cpu (kern (block_on q s)) = Some k \<and> state_of k c = Ready \<and> p_waiting_on (procs k c) = q \<and>
    queue_receive id cpu q True s = Some (None, (block_on q s)\<lparr>kern := k\<rparr>) \<and>
    mq_waiting (mqs (block_on q s) q) = ws @ [c] \<and>
    (ws = [] \<longrightarrow> (\<forall>sender data sz. mq_waiting (mqs (snd (queue_send q sender data sz ((block_on q s)\<lparr>kern := k\<rparr>))) q) = [c]))"
proof -
  let ?k = "kern (block_on q s)"
  have k: "m_runqueues ?k = m_runqueues (kern s)" "p_waiting_on (procs ?k c) = q" "m_current_process ?k = c"
    using cur(1) by (simp_all add: block_on_def Let_def)
  have r: "r < length (m_runqueues ?k)" "get_runqueue cpu ?k = Some r"
    using get_runqueue_Some [OF cur(3)] cur(3) by (simp_all add: k get_runqueue_def)
  note sel = select_next_keeps [OF nxt(1) r(1)]
  define k2 where "k2 = set_state n Running (set_state c Ready (upd_proc n (\<lambda>p. p\<lparr>p_last_run := timer_ticks k1\<rparr>)
    (upd_rq r (\<lambda>q. q\<lparr>current_time_slice := DEFAULT_TIME_SLICE, rq_current := n\<rparr>) k1)))"
  have sch: "schedule cpu ?k = Some (switch_to_process n k2)"
    using r nxt sel cur(2,4) k(1) by (auto simp: schedule_def schedule_on_cpu_def Let_def k2_def)
  have k2: "m_current_process k2 = c" "state_of k2 c = Ready" "state_of k2 n = Running" "p_waiting_on (procs k2 c) = q"
    using nxt(3) sel(1,4) k(2,3) by (simp_all add: k2_def)
  then have st: "state_of (switch_to_process n k2) c = Ready \<and> p_waiting_on (procs (switch_to_process n k2) c) = q"
    using nxt(2,3) cur(2) by (simp add: switch_to_process_def Let_def switch_context_def)
  have mq: "mq_waiting (mqs (block_on q s) q) = ws @ [c]" "mq_messages (mqs (block_on q s) q) = []"
    using empty cur(1) by (simp_all add: block_on_def Let_def)
  have "queue_receive id cpu q True s = Some (None, (block_on q s)\<lparr>kern := switch_to_process n k2\<rparr>)"
    using empty(1) cur(1,2) sch mq(2) by (simp add: queue_receive_def Let_def take_message_def)
  moreover have "mq_waiting (mqs (snd (queue_send q sender data sz ((block_on q s)\<lparr>kern := switch_to_process n k2\<rparr>))) q) = [c]"
    if "ws = []" for sender data sz
    using that st mq(1) by (simp add: queue_send_def Let_def is_waiting_on_def)
  ultimately show ?thesis using sch st mq(1) by (intro exI [of _ "switch_to_process n k2"]) simp
qed

text \<open>Process 48 runs and receives on an empty queue; 16 and 32 are ready.\<close>

definition block_example :: ipc where
  "block_example = mq_example\<lparr>kern := exit_example 2 [16, 32, 48]\<rparr>"

theorem blocked_receiver_is_ready_witness:
  "\<exists>k. queue_receive id 0 0x1000 True block_example = Some (None, (block_on 0x1000 block_example)\<lparr>kern := k\<rparr>) \<and>
     state_of k 48 = Ready"
proof -
  have q: "mqs block_example 0x1000 = new_queue 7 [97]" by (simp add: block_example_def mq_example_eq)
  have "\<exists>k1. select_next_process 0 (kern (block_on 0x1000 block_example)) = Some (16, k1)"
    by (simp add: block_on_def block_example_def exit_example_def kernel_example_def select_next_process_def
        new_runqueue_def rr_scan.simps Let_def)
  then obtain k1 where k1: "select_next_process 0 (kern (block_on 0x1000 block_example)) = Some (16, k1)" by blast
  have k: "m_current_process (kern block_example) = 48" "get_runqueue 0 (kern block_example) = Some 0"
    "rq_current (rq (kern block_example) 0) = 48"
    by (simp_all add: block_example_def exit_example_def kernel_example_def get_runqueue_def new_runqueue_def)
  have m: "mq_messages (mqs block_example 0x1000) = []" "mq_waiting (mqs block_example 0x1000) = []"
    "\<not> is_full (mqs block_example 0x1000)"
    by (simp_all add: q new_queue_def is_full_def MAX_MESSAGES_PER_QUEUE_def)
  show ?thesis using blocked_receiver_is_ready [OF k(1) _ k(2,3) k1 _ _ m] by auto
qed

section \<open>Shared regions\<close>

lemma map_shared_claim:
  "claim_pages base True i n v = (True, v') \<Longrightarrow> map_shared base i n v = (True, v')"
proof (induction "n - i" arbitrary: i v)
  case 0
  then show ?case by (simp add: map_shared.simps [of base i n] claim_pages.simps [of base True i n])
next
  case (Suc m)
  obtain f p where al: "allocate_frame (vm_pmm v) = (f, p)" by fastforce
  have "i < n" "m = n - Suc i" using Suc.hyps(2) by simp_all
  with Suc.prems Suc.hyps(1) [of "Suc i"] show ?case
    by (simp add: map_shared.simps [of base i n] claim_pages.simps [of base True i n] al Let_def split: if_splits)
qed

lemma shared_mem_base_nat:
  assumes "0 < i" "i \<le> 4194304"
  shows "unat (shared_mem_base i) = 0x700000000000 + nat (i - 1) * 4194304"
proof -
  have e: "shared_mem_base i = 0x700000000000 + of_nat (nat (i - 1) * 4194304)"
    using assms by (simp add: shared_mem_base_def MAX_SHARED_MEMORY_SIZE_def)
  have "unat (of_nat (nat (i - 1) * 4194304) :: u64) = nat (i - 1) * 4194304"
    by (rule unat_of_nat_u64) (use assms in simp)
  then show ?thesis unfolding e using assms by (subst unat_plus_u64) simp_all
qed

lemma round_up_pages:
  assumes "sz \<noteq> 0" "sz \<le> MAX_SHARED_MEMORY_SIZE"
  shows "unat ((sz + 4095) AND NOT 4095) = (unat sz + 4095) div 4096 * 4096"
    and "unat ((sz + 4095 AND NOT 4095) div 4096) = (unat sz + 4095) div 4096"
proof -
  have "unat sz \<le> 4194304" using assms(2) by (simp add: word_le_nat_alt MAX_SHARED_MEMORY_SIZE_def)
  then have s: "unat (sz + 4095) = unat sz + 4095" by (subst unat_plus_u64) simp_all
  have "NOT 4095 = NOT (mask 12 :: u64)" by (simp add: mask_eq_exp_minus_1)
  then show "unat ((sz + 4095) AND NOT 4095) = (unat sz + 4095) div 4096 * 4096"
    by (simp only: unat_and_not_mask s) (simp add: minus_mod_eq_div_mult)
  then show "unat ((sz + 4095 AND NOT 4095) div 4096) = (unat sz + 4095) div 4096"
    by (simp add: unat_div)
qed

lemma find_index_append:
  "find_index P (xs @ ys) = (case find_index P xs of Some i \<Rightarrow> Some i | None \<Rightarrow> map_option (\<lambda>i. length xs + i) (find_index P ys))"
proof (induction xs)
  case Nil
  then show ?case by (cases "find_index P ys") simp_all
next
  case (Cons x xs)
  then show ?case by (cases "find_index P xs"; cases "find_index P ys") simp_all
qed

text \<open>
  shared memory. Every region occupies its own 4 MiB slot from \<^verbatim>\<open>0x700000000000\<close> on, so two regions never overlap.
  With enough frames, creating a region of 1 byte to 4 MiB returns the next identifier, backs exactly the pages of its
  rounded size with writable frames, clears that range, and leaves all other mappings alone; whoever
  attaches it gets that address, also twice, and the other regions stay attached where they were. A size
  outside the limits is refused.
\<close>

theorem create_shared_memory_correct:
  assumes ok: "vm_ok (k_vm (kern s))" "4 * n \<le> vm_budget (k_vm (kern s))"
    and sz: "sz \<noteq> 0" "sz \<le> MAX_SHARED_MEMORY_SIZE" "n = (unat sz + 4095) div 4096"
    and i: "m_next_shared_memory_id s = i" "0 < i" "i \<le> 4194304" "\<forall>r \<in> set (m_shared_memory_regions s). shm_id r \<noteq> i"
    and fresh: "\<forall>k < n. vm_usable (k_vm (kern s)) (shared_mem_base i + of_nat k * 4096) \<and>
        vm_leaf (k_vm (kern s)) (shared_mem_base i + of_nat k * 4096) = None"
  shows "\<exists>s'. create_shared_memory creator sz s = (i, s') \<and> vm_ok (k_vm (kern s')) \<and>
    (\<forall>k < n. \<exists>f. vm_leaf (k_vm (kern s')) (shared_mem_base i + of_nat k * 4096) = Some (leaf_entry (f AND PAGE_MASK) True)) \<and>
    (\<forall>a. (\<forall>k < n. \<not> same_page a (shared_mem_base i + of_nat k * 4096)) \<longrightarrow> vm_leaf (k_vm (kern s')) a = vm_leaf (k_vm (kern s)) a) \<and>
    (shared_mem_base i, of_nat (n * 4096)) \<in> set (cleared s') \<and>
    (\<forall>pid. fst (attach_shared_memory i pid s') = shared_mem_base i \<and>
       fst (attach_shared_memory i pid (snd (attach_shared_memory i pid s'))) = shared_mem_base i) \<and>
    (\<forall>j pid. j \<noteq> i \<longrightarrow> fst (attach_shared_memory j pid s') = fst (attach_shared_memory j pid s)) \<and>
    (\<forall>j. i < j \<and> j \<le> 4194304 \<longrightarrow> unat (shared_mem_base i) + 4194304 \<le> unat (shared_mem_base j)) \<and>
    create_shared_memory creator 0 s = (-1, s)"
proof -
  let ?b = "shared_mem_base i" and ?v = "k_vm (kern s)" and ?sz = "(sz + 4095) AND NOT 4095"
  have "unat sz \<le> 4194304" using sz(2) by (simp add: word_le_nat_alt MAX_SHARED_MEMORY_SIZE_def)
  then have n: "n \<le> 1024" using sz(3) by simp
  have dis: "\<not> same_page (?b + of_nat k * 4096) (?b + of_nat l * 4096)" if "k < l" "l < n" for k l
    by (rule consecutive_pages) (use that n in auto)
  obtain v' where v': "claim_pages ?b True 0 n ?v = (True, v')" "vm_ok v'"
      "\<forall>k < n. \<exists>f. vm_leaf v' (?b + of_nat k * 4096) = Some (leaf_entry (f AND PAGE_MASK) True)"
      "\<forall>a. (\<forall>k < n. \<not> same_page a (?b + of_nat k * 4096)) \<longrightarrow> vm_leaf v' a = vm_leaf ?v a"
    using claim_pages_spec [of ?v n 0 ?b True] ok fresh dis by auto
  have "?sz = of_nat (n * 4096)"
  proof -
    have "unat (of_nat (n * 4096) :: u64) = n * 4096" by (rule unat_of_nat_u64) (use n in simp)
    then show ?thesis unfolding word_unat_eq_iff using round_up_pages(1) [OF sz(1,2)] sz(3) by simp
  qed
  moreover have "unat (?sz div 4096) = n" using round_up_pages(2) [OF sz(1,2)] sz(3) by simp
  moreover define s' where "s' = (upd_kern (\<lambda>k. k\<lparr>k_vm := v'\<rparr>) (s\<lparr>m_next_shared_memory_id := i + 1\<rparr>))
    \<lparr>cleared := (?b, of_nat (n * 4096)) # cleared s, m_shared_memory_regions := m_shared_memory_regions s @
       [\<lparr>shm_id = i, shm_creator = creator, shm_size = of_nat (n * 4096), shm_address = ?b, shm_attached = [creator]\<rparr>]\<rparr>"
  ultimately have c: "create_shared_memory creator sz s = (i, s')"
    using sz(1) leD [OF sz(2)] i(1) map_shared_claim [OF v'(1)]
    by (simp add: create_shared_memory_def Let_def upd_kern_def)
  have fi: "find_region i s' = Some (length (m_shared_memory_regions s))" and fj: "j \<noteq> i \<Longrightarrow> find_region j s' = find_region j s" for j
    using i(4) find_index_None [of "\<lambda>r. shm_id r = i" "m_shared_memory_regions s"]
    by (auto simp: find_region_def s'_def find_index_append split: option.split)
  have "fst (attach_shared_memory i pid s') = ?b \<and> fst (attach_shared_memory i pid (snd (attach_shared_memory i pid s'))) = ?b" for pid
  proof -
    have "find_region i (s'\<lparr>m_shared_memory_regions := m_shared_memory_regions s @ [r]\<rparr>) = Some (length (m_shared_memory_regions s))"
      if "shm_id r = i" for r
      using that i(4) find_index_None [of "\<lambda>r. shm_id r = i" "m_shared_memory_regions s"]
      by (auto simp: find_region_def find_index_append split: option.split)
    with fi i(2) show ?thesis by (simp add: attach_shared_memory_def Let_def s'_def list_update_append)
  qed
  moreover have "fst (attach_shared_memory j pid s') = fst (attach_shared_memory j pid s)" if "j \<noteq> i" for j pid
  proof (cases "find_region j s")
    case (Some l)
    then have "l < length (m_shared_memory_regions s)" by (auto simp: find_region_def find_index_Some)
    then show ?thesis using fj [OF that] Some by (simp add: attach_shared_memory_def Let_def s'_def nth_append)
  qed (use fj [OF that] in \<open>simp add: attach_shared_memory_def\<close>)
  moreover have "unat ?b + 4194304 \<le> unat (shared_mem_base j)" if "i < j \<and> j \<le> 4194304" for j
  proof -
    have "Suc (nat (i - 1)) \<le> nat (j - 1)" using that i(2) by linarith
    then have "Suc (nat (i - 1)) * 4194304 \<le> nat (j - 1) * 4194304" by (rule mult_le_mono1)
    then show ?thesis using shared_mem_base_nat [of i] shared_mem_base_nat [of j] that i(2,3) by simp
  qed
  moreover have "create_shared_memory creator 0 s = (-1, s)" by (simp add: create_shared_memory_def)
  moreover have "k_vm (kern s') = v'" "(?b, of_nat (n * 4096)) \<in> set (cleared s')" by (simp_all add: s'_def)
  ultimately show ?thesis using c v'(2,3,4) by (intro exI [of _ s']) (simp del: of_nat_mult)
qed

theorem create_shared_memory_correct_witness:
  "\<exists>s'. create_shared_memory 7 5000 ipc_example = (1, s') \<and> fst (attach_shared_memory 1 9 s') = 0x700000000000"
proof -
  have e: "k_vm (kern ipc_example) = vm_fresh 64" "m_next_shared_memory_id ipc_example = 1" "m_shared_memory_regions ipc_example = []"
    by (simp_all add: ipc_example_def)
  have sz: "(5000 :: u64) \<le> MAX_SHARED_MEMORY_SIZE" by (simp add: MAX_SHARED_MEMORY_SIZE_def)
  have "\<exists>s'. create_shared_memory 7 5000 ipc_example = (1, s') \<and> (\<forall>pid. fst (attach_shared_memory 1 pid s') = shared_mem_base 1)"
    using create_shared_memory_correct [of ipc_example 2 5000 1 7, unfolded e, OF vm_fresh_64(1) _ _ sz] vm_fresh_64(2-4)
    by fastforce
  then show ?thesis by (auto simp: shared_mem_base_def)
qed

end
