(* ===== verification/Klib.thy ===== *)
theory Klib
  imports Prelude "HOL-Library.Monad_Syntax"
begin

text \<open>
  The kernel's C library, \<open>lib/lib.cpp\<close>: the \<open>mem\<close> and \<open>str\<close> functions over byte memory, the
  tokenizer and the wildcard match of the shell.

  Memory is a function from addresses to bytes and pointers are 64-bit addresses with wrap-around. Loops
  that run until they meet a terminator are partial: \<open>None\<close> means that they run on forever.
  A function that writes returns the memory; the pointer it returns is its first argument and is omitted.
\<close>

type_synonym mem = "u64 \<Rightarrow> u8"

section \<open>Memory\<close>

primrec memset :: "mem \<Rightarrow> u64 \<Rightarrow> u8 \<Rightarrow> nat \<Rightarrow> mem" where
  "memset m dest ch 0 = m"
| "memset m dest ch (Suc count) = memset (m(dest := ch)) (dest + 1) ch count"

primrec memcpy :: "mem \<Rightarrow> u64 \<Rightarrow> u64 \<Rightarrow> nat \<Rightarrow> mem" where
  "memcpy m d s 0 = m"
| "memcpy m d s (Suc count) = memcpy (m(d := m s)) (d + 1) (s + 1) count"

primrec copy_down :: "mem \<Rightarrow> u64 \<Rightarrow> u64 \<Rightarrow> nat \<Rightarrow> mem" where
  "copy_down m d s 0 = m"
| "copy_down m d s (Suc count) = copy_down (m(d - 1 := m (s - 1))) (d - 1) (s - 1) count"

definition memmove :: "mem \<Rightarrow> u64 \<Rightarrow> u64 \<Rightarrow> nat \<Rightarrow> mem" where
  "memmove m d s count =
     (if d < s then memcpy m d s count else copy_down m (d + of_nat count) (s + of_nat count) count)"

primrec memcmp :: "mem \<Rightarrow> u64 \<Rightarrow> u64 \<Rightarrow> nat \<Rightarrow> int" where
  "memcmp m p1 p2 0 = 0"
| "memcmp m p1 p2 (Suc n) =
     (if m p1 \<noteq> m p2 then uint (m p1) - uint (m p2) else memcmp m (p1 + 1) (p2 + 1) n)"

section \<open>Strings\<close>

partial_function (option) strlen_from :: "mem \<Rightarrow> u64 \<Rightarrow> u64 \<Rightarrow> u64 option" where
  [code]: "strlen_from m str len = (if m (str + len) \<noteq> 0 then strlen_from m str (len + 1) else Some len)"

definition strlen :: "mem \<Rightarrow> u64 \<Rightarrow> u64 option" where
  "strlen m str = strlen_from m str 0"

partial_function (option) strcmp :: "mem \<Rightarrow> u64 \<Rightarrow> u64 \<Rightarrow> int option" where
  [code]: "strcmp m s1 s2 =
     (if m s1 \<noteq> 0 \<and> m s1 = m s2 then strcmp m (s1 + 1) (s2 + 1)
      else Some (uint (m s1) - uint (m s2)))"

primrec strncmp :: "mem \<Rightarrow> u64 \<Rightarrow> u64 \<Rightarrow> nat \<Rightarrow> int" where
  "strncmp m s1 s2 0 = 0"
| "strncmp m s1 s2 (Suc n) =
     (if m s1 \<noteq> m s2 then uint (m s1) - uint (m s2)
      else if m s1 = 0 then 0
      else strncmp m (s1 + 1) (s2 + 1) n)"

partial_function (option) strcpy :: "mem \<Rightarrow> u64 \<Rightarrow> u64 \<Rightarrow> mem option" where
  [code]: "strcpy m d src =
     (let m' = m(d := m src) in if m src \<noteq> 0 then strcpy m' (d + 1) (src + 1) else Some m')"

primrec strncpy :: "mem \<Rightarrow> u64 \<Rightarrow> u64 \<Rightarrow> nat \<Rightarrow> mem" where
  "strncpy m d src 0 = m"
| "strncpy m d src (Suc count) =
     (if m src \<noteq> 0 then strncpy (m(d := m src)) (d + 1) (src + 1) count
      else memset m d 0 (Suc count))"

partial_function (option) strchr :: "mem \<Rightarrow> u64 \<Rightarrow> u8 \<Rightarrow> u64 option" where
  [code]: "strchr m str ch =
     (if m str \<noteq> 0 \<and> m str \<noteq> ch then strchr m (str + 1) ch
      else Some (if m str = ch then str else nullptr))"

partial_function (option) strrchr_from :: "mem \<Rightarrow> u64 \<Rightarrow> u8 \<Rightarrow> u64 \<Rightarrow> u64 option" where
  [code]: "strrchr_from m str ch found =
     (if m str \<noteq> 0 then strrchr_from m (str + 1) ch (if m str = ch then str else found) else Some found)"

definition strrchr :: "mem \<Rightarrow> u64 \<Rightarrow> u8 \<Rightarrow> u64 option" where
  "strrchr m str ch = strrchr_from m str ch nullptr"

partial_function (option) strcat :: "mem \<Rightarrow> u64 \<Rightarrow> u64 \<Rightarrow> mem option" where
  [code]: "strcat m d src = (if m d \<noteq> 0 then strcat m (d + 1) src else strcpy m d src)"

text \<open>\<open>snprintf\<close> takes variable arguments but copies the format only.\<close>

definition snprintf :: "mem \<Rightarrow> u64 \<Rightarrow> nat \<Rightarrow> u64 \<Rightarrow> (u64 \<times> mem) option" where
  "snprintf m str sz format =
    (if sz = 0 then Some (0, m)
     else
       let m1 = strncpy m str format (sz - 1);
           m2 = m1(str + of_nat (sz - 1) := 0)
       in do { n \<leftarrow> strlen m2 str; Some (n, m2) })"

section \<open>The tokenizer\<close>

text \<open>The two scans of \<open>strtok\<close>: over delimiters, and over other characters.\<close>

partial_function (option) skip_delimiters :: "mem \<Rightarrow> u64 \<Rightarrow> u64 \<Rightarrow> u64 option" where
  [code]: "skip_delimiters m delimiters pos =
     (if m pos = 0 then Some pos
      else do { hit \<leftarrow> strchr m delimiters (m pos);
                if hit \<noteq> nullptr then skip_delimiters m delimiters (pos + 1) else Some pos })"

partial_function (option) skip_token :: "mem \<Rightarrow> u64 \<Rightarrow> u64 \<Rightarrow> u64 option" where
  [code]: "skip_token m delimiters pos =
     (if m pos = 0 then Some pos
      else do { hit \<leftarrow> strchr m delimiters (m pos);
                if hit = nullptr then skip_token m delimiters (pos + 1) else Some pos })"

text \<open>The state is the memory and \<open>strtok_ptr\<close>; the result is the token's address or \<open>nullptr\<close>.\<close>

definition strtok :: "u64 \<Rightarrow> u64 \<Rightarrow> mem \<times> u64 \<Rightarrow> (u64 \<times> mem \<times> u64) option" where
  "strtok str delimiters st =
    (case st of (m, strtok_ptr) \<Rightarrow>
       let current_pos = (if str \<noteq> nullptr then str else strtok_ptr)
       in if current_pos = nullptr \<or> m current_pos = 0 then Some (nullptr, m, strtok_ptr)
          else do {
            token_start \<leftarrow> skip_delimiters m delimiters current_pos;
            if m token_start = 0 then Some (nullptr, m, token_start)
            else do {
              token_end \<leftarrow> skip_token m delimiters token_start;
              if m token_end \<noteq> 0 then Some (token_start, m(token_end := 0), token_end + 1)
              else Some (token_start, m, token_end)
            }
          })"

section \<open>Wildcards\<close>

text \<open>
  \<open>match_wildcard\<close> only reads its arguments, so the strings it walks over are byte lists, without their
  terminators. \<open>match_any\<close> is the inner loop: the rest of the pattern against every non-empty suffix.
\<close>

definition star :: u8 where "star = 42"

function match_wildcard :: "bytes \<Rightarrow> bytes \<Rightarrow> bool" and match_any :: "bytes \<Rightarrow> bytes \<Rightarrow> bool" where
  "match_wildcard p [] \<longleftrightarrow> dropWhile (\<lambda>c. c = star) p = []"
| "match_wildcard p (c # str) \<longleftrightarrow>
     (case p of
        [] \<Rightarrow> False
      | d # p' \<Rightarrow>
          if d = star then (if p' = [] then True else match_any p' (c # str))
          else if d \<noteq> c then False
          else match_wildcard p' str)"
| "match_any p [] \<longleftrightarrow> False"
| "match_any p (c # str) \<longleftrightarrow> match_wildcard p (c # str) \<or> match_any p str"
  by pat_completeness auto
termination
  by (relation "measures [\<lambda>x. case x of Inl (p, s) \<Rightarrow> length p + length s | Inr (p, s) \<Rightarrow> length p + length s,
        \<lambda>x. case x of Inl _ \<Rightarrow> 0 | Inr _ \<Rightarrow> 1]") auto

section \<open>Block copies\<close>

definition bytes_at :: "mem \<Rightarrow> u64 \<Rightarrow> nat \<Rightarrow> bytes" where
  "bytes_at m a n = map (\<lambda>i. m (a + of_nat i)) [0..<n]"

text \<open>An address \<open>x\<close> lies in the \<open>n\<close> bytes from \<open>d\<close> on exactly if \<^term>\<open>unat (x - d) < n\<close>.\<close>

lemma unat_pred: "y \<noteq> 0 \<Longrightarrow> unat (y - 1 :: u64) = unat y - 1"
  by (simp add: unat_minus_one)

lemma unat_max: "unat (- 1 :: u64) = 2 ^ 64 - 1"
  by (simp add: unsigned_minus_1_eq_mask mask_eq_exp_minus_1)

lemma memset_spec: "n \<le> 2 ^ 64 \<Longrightarrow> memset m d c n x = (if unat (x - d) < n then c else m x)"
proof (induction n arbitrary: m d)
  case (Suc n)
  then have IH: "memset m d c (Suc n) x = (if unat (x - (d + 1)) < n then c else (m(d := c)) x)" by simp
  show ?case
  proof (cases "x = d")
    case True
    then show ?thesis unfolding IH by simp
  next
    case False
    then have "unat (x - (d + 1)) = unat (x - d) - 1" "unat (x - d) \<noteq> 0"
      using unat_pred [of "x - d"] by (simp_all add: diff_diff_eq unat_eq_zero)
    then have "unat (x - (d + 1)) < n \<longleftrightarrow> unat (x - d) < Suc n" by linarith
    then show ?thesis unfolding IH using False by simp
  qed
qed simp

text \<open>Copying upwards is right unless the destination starts inside the source, above its first byte.\<close>

lemma memcpy_spec:
  "d = s \<or> n \<le> unat (d - s) \<Longrightarrow> n \<le> 2 ^ 64 \<Longrightarrow>
     memcpy m d s n x = (if unat (x - d) < n then m (s + (x - d)) else m x)"
proof (induction n arbitrary: m d s)
  case (Suc n)
  let ?m = "m(d := m s)"
  have IH: "memcpy m d s (Suc n) x = (if unat (x - (d + 1)) < n then ?m (s + 1 + (x - (d + 1))) else ?m x)"
    unfolding memcpy.simps by (rule Suc.IH) (use Suc.prems in auto)
  show ?case
  proof (cases "x = d")
    case True
    have "\<not> unat (x - (d + 1)) < n" using True unat_max Suc.prems(2) by simp
    with True show ?thesis unfolding IH by simp
  next
    case False
    then have u: "unat (x - (d + 1)) = unat (x - d) - 1" "unat (x - d) \<noteq> 0"
      using unat_pred [of "x - d"] by (simp_all add: diff_diff_eq unat_eq_zero)
    have "s + (x - d) \<noteq> d" if "unat (x - d) < Suc n" "d \<noteq> s"
    proof
      assume "s + (x - d) = d"
      then have "d - s = x - d" by (simp add: algebra_simps)
      with Suc.prems(1) that show False by simp
    qed
    then have "?m (s + (x - d)) = m (s + (x - d))" if "unat (x - d) < Suc n"
      using that False by (cases "d = s") simp_all
    moreover have "s + 1 + (x - (d + 1)) = s + (x - d)" by simp
    moreover have "unat (x - (d + 1)) < n \<longleftrightarrow> unat (x - d) < Suc n" using u by linarith
    ultimately show ?thesis unfolding IH using False by auto
  qed
qed simp

lemma copy_down_spec:
  "d = s \<or> n \<le> unat (s - d) \<Longrightarrow> n \<le> 2 ^ 64 \<Longrightarrow>
     copy_down m d s n x = (if unat (d - 1 - x) < n then m (s - (d - x)) else m x)"
proof (induction n arbitrary: m d s)
  case (Suc n)
  let ?m = "m(d - 1 := m (s - 1))"
  have IH: "copy_down m d s (Suc n) x = (if unat (d - 1 - 1 - x) < n then ?m (s - 1 - (d - 1 - x)) else ?m x)"
    unfolding copy_down.simps by (rule Suc.IH) (use Suc.prems in auto)
  show ?case
  proof (cases "x = d - 1")
    case True
    have "\<not> unat (d - 1 - 1 - x) < n" using True unat_max Suc.prems(2) by simp
    with True show ?thesis unfolding IH by simp
  next
    case False
    then have nz: "d - 1 - x \<noteq> 0" by (metis eq_iff_diff_eq_0)
    have u: "unat (d - 1 - 1 - x) = unat (d - 1 - x) - 1" "unat (d - 1 - x) \<noteq> 0"
      using unat_pred [OF nz] nz by (simp_all add: diff_right_commute unat_eq_zero)
    have "s - (d - x) \<noteq> d - 1" if "unat (d - 1 - x) < Suc n" "d \<noteq> s"
    proof
      assume "s - (d - x) = d - 1"
      then have "s - d = d - 1 - x" by (simp add: algebra_simps)
      with Suc.prems(1) that show False by simp
    qed
    then have "?m (s - (d - x)) = m (s - (d - x))" if "unat (d - 1 - x) < Suc n"
      using that False by (cases "d = s") simp_all
    moreover have e: "s - 1 - (d - 1 - x) = s - (d - x)" by simp
    moreover have "unat (d - 1 - 1 - x) < n \<longleftrightarrow> unat (d - 1 - x) < Suc n" using u by linarith
    ultimately show ?thesis unfolding IH e using False by (metis fun_upd_apply)
  qed
qed simp

lemma unat_mirror: "unat (a :: u64) = n - 1 \<Longrightarrow> n \<noteq> 0 \<Longrightarrow> unat (a - y) < n \<longleftrightarrow> unat y < n"
proof -
  assume a: "unat a = n - 1" "n \<noteq> 0"
  have y: "unat y < 18446744073709551616" using unsigned_less [of y, where ?'a = nat] by simp
  show ?thesis
  proof (cases "unat y \<le> unat a")
    case True
    then show ?thesis using a by (simp add: unat_sub_if_size)
  next
    case False
    then have "unat (a - y) = unat a + 18446744073709551616 - unat y" by (simp add: unat_sub_if_size word_size)
    then show ?thesis using a y False by linarith
  qed
qed

lemma memmove_spec:
  assumes "unat d + n \<le> 2 ^ 64" "unat s + n \<le> 2 ^ 64"
  shows "memmove m d s n x = (if unat (x - d) < n then m (s + (x - d)) else m x)"
proof (cases "d < s")
  case True
  then have "unat (d - s) = 2 ^ 64 - (unat s - unat d)"
    by (simp add: unat_sub_if_size word_less_nat_alt word_size)
  then have "n \<le> unat (d - s)" using assms by linarith
  from memcpy_spec [OF disjI2 [OF this]] assms(1) True show ?thesis by (simp add: memmove_def)
next
  case False
  let ?n = "of_nat n :: u64"
  show ?thesis
  proof (cases "n = 0")
    case True
    then show ?thesis by (simp add: memmove_def)
  next
    case n: False
    have "unat (s - d) = 2 ^ 64 - (unat d - unat s) \<or> d = s"
      using False by (auto simp: unat_sub_if_size word_less_nat_alt word_size word_unat_eq_iff)
    then have "d + ?n = s + ?n \<or> n \<le> unat (s + ?n - (d + ?n))" using assms by auto
    note c = copy_down_spec [OF this, of m x]
    have "unat (d + ?n - 1 - x) < n \<longleftrightarrow> unat (x - d) < n"
    proof -
      have e: "d + ?n - 1 - x = ?n - 1 - (x - d)" by simp
      have n1: "unat (?n - 1) = n - 1"
      proof (cases "n = 2 ^ 64")
        case False
        then have "unat ?n = n" using assms by (intro unat_of_nat_u64) simp
        with n show ?thesis using unat_pred [of ?n] by (metis unat_0)
      qed simp
      show ?thesis unfolding e by (rule unat_mirror [OF n1 n])
    qed
    then show ?thesis using c assms(1) False by (simp add: memmove_def algebra_simps)
  qed
qed

lemma unat_of_nat_le: "i < n \<Longrightarrow> n \<le> 2 ^ 64 \<Longrightarrow> unat (of_nat i :: u64) = i"
  by (rule unat_of_nat_u64) simp

lemma bytes_at_memmove:
  "unat d + n \<le> 2 ^ 64 \<Longrightarrow> unat s + n \<le> 2 ^ 64 \<Longrightarrow> bytes_at (memmove m d s n) d n = bytes_at m s n"
  by (auto simp: bytes_at_def memmove_spec unat_of_nat_le)

lemma memcpy_smear: "n \<le> 2 ^ 64 \<Longrightarrow> i < n \<Longrightarrow> memcpy m (s + 1) s n (s + 1 + of_nat i) = m s"
proof (induction n arbitrary: m s i)
  case (Suc n)
  let ?m = "m(s + 1 := m s)"
  have untouched: "memcpy f d e k x = f x" if "unat (x - d) \<ge> k" "k \<le> 2 ^ 64" for f d e k x
    using that
  proof (induction k arbitrary: f d e)
    case (Suc k)
    then have "x \<noteq> d" by auto
    then have "unat (x - (d + 1)) = unat (x - d) - 1" using unat_pred [of "x - d"] by (simp add: diff_diff_eq)
    with Suc.prems have "unat (x - (d + 1)) \<ge> k" "k \<le> 2 ^ 64" by simp_all
    from Suc.IH [OF this] \<open>x \<noteq> d\<close> show ?case by simp
  qed simp
  show ?case
  proof (cases i)
    case 0
    have "memcpy ?m (s + 1 + 1) (s + 1) n (s + 1) = ?m (s + 1)"
      by (rule untouched) (use unat_max Suc.prems in auto)
    with 0 show ?thesis by simp
  next
    case (Suc j)
    have "memcpy ?m (s + 1 + 1) (s + 1) n (s + 1 + 1 + of_nat j) = ?m (s + 1)"
      by (rule Suc.IH) (use Suc Suc.prems in auto)
    with Suc show ?thesis by (simp add: ac_simps)
  qed
qed simp

text \<open>
  \<open>memmove\<close> copies correctly even when source and destination overlap: the destination receives the bytes the
  source held before the call and nothing else changes. \<open>memcpy\<close> does the same when the
  destination starts at or below the source or the ranges are disjoint; started one byte above the source it
  fills the destination with the first byte of the source instead.
\<close>

theorem memmove_correct:
  assumes "unat d + n \<le> 2 ^ 64" "unat s + n \<le> 2 ^ 64"
  shows "bytes_at (memmove m d s n) d n = bytes_at m s n \<and>
    (\<forall>x. unat (x - d) \<ge> n \<longrightarrow> memmove m d s n x = m x) \<and>
    (unat d \<le> unat s \<or> unat s + n \<le> unat d \<longrightarrow> memcpy m d s n = memmove m d s n) \<and>
    (d = s + 1 \<longrightarrow> bytes_at (memcpy m d s n) d n = replicate n (m s))"
proof (intro conjI)
  show "bytes_at (memmove m d s n) d n = bytes_at m s n" by (rule bytes_at_memmove [OF assms])
  show "\<forall>x. unat (x - d) \<ge> n \<longrightarrow> memmove m d s n x = m x" using memmove_spec [OF assms, of m] by auto
  show "unat d \<le> unat s \<or> unat s + n \<le> unat d \<longrightarrow> memcpy m d s n = memmove m d s n"
  proof
    assume c: "unat d \<le> unat s \<or> unat s + n \<le> unat d"
    have "d = s \<or> n \<le> unat (d - s)"
      using c assms by (auto simp: unat_sub_if_size word_size word_unat_eq_iff)
    from memcpy_spec [OF this] assms(1) show "memcpy m d s n = memmove m d s n"
      by (simp add: fun_eq_iff memmove_spec [OF assms])
  qed
  show "d = s + 1 \<longrightarrow> bytes_at (memcpy m d s n) d n = replicate n (m s)"
    using memcpy_smear [of n _ m s] assms(1) by (auto simp: bytes_at_def list_eq_iff_nth_eq)
qed

theorem memmove_correct_witness:
  "bytes_at (memmove (\<lambda>a. ucast a) 11 10 3) 11 3 = bytes_at (\<lambda>a. ucast a) 10 3 \<and>
   bytes_at (memcpy (\<lambda>a. ucast a) 11 10 3) 11 3 = replicate 3 10"
proof -
  have "unat (11 :: u64) + 3 \<le> 2 ^ 64" "unat (10 :: u64) + 3 \<le> 2 ^ 64" "(11 :: u64) = 10 + 1" "(ucast (10 :: u64) :: u8) = 10"
    by simp_all
  from memmove_correct [OF this(1,2), of "\<lambda>a. ucast a"] this(3,4) show ?thesis by metis
qed

section \<open>C strings\<close>

text \<open>The bytes \<open>cs\<close>, none of them NUL, and a NUL behind them.\<close>

primrec str_at :: "mem \<Rightarrow> u64 \<Rightarrow> bytes \<Rightarrow> bool" where
  "str_at m a [] \<longleftrightarrow> m a = 0"
| "str_at m a (c # cs) \<longleftrightarrow> c \<noteq> 0 \<and> m a = c \<and> str_at m (a + 1) cs"

lemma strlen_from_spec: "str_at m (a + k) cs \<Longrightarrow> strlen_from m a k = Some (k + of_nat (length cs))"
proof (induction cs arbitrary: k)
  case Nil
  then show ?case by (simp add: strlen_from.simps [of m a k])
next
  case (Cons c cs)
  then have "strlen_from m a (k + 1) = Some (k + 1 + of_nat (length cs))" by (simp add: ac_simps)
  with Cons.prems show ?case by (simp add: strlen_from.simps [of m a k] ac_simps)
qed

lemma strlen_spec: "str_at m a cs \<Longrightarrow> strlen m a = Some (of_nat (length cs))"
  using strlen_from_spec [of m a 0 cs] by (simp add: strlen_def)

text \<open>Lexicographic comparison, as the sign of a difference.\<close>

fun compare :: "bytes \<Rightarrow> bytes \<Rightarrow> int" where
  "compare [] [] = 0"
| "compare (x # xs) [] = uint x"
| "compare [] (y # ys) = - uint y"
| "compare (x # xs) (y # ys) = (if x = y then compare xs ys else uint x - uint y)"

lemma strcmp_spec: "str_at m a xs \<Longrightarrow> str_at m b ys \<Longrightarrow> strcmp m a b = Some (compare xs ys)"
proof (induction xs ys arbitrary: a b rule: compare.induct)
  case (4 x xs y ys)
  then show ?case by (auto simp: strcmp.simps [of m a b])
qed (auto simp: strcmp.simps)

lemma strncmp_spec:
  "str_at m a xs \<Longrightarrow> str_at m b ys \<Longrightarrow> strncmp m a b n = compare (take n xs) (take n ys)"
proof (induction n arbitrary: a b xs ys)
  case (Suc n)
  then show ?case by (cases xs; cases ys) auto
qed simp

lemma uint_pos: "(x :: u8) \<noteq> 0 \<Longrightarrow> 0 < uint x"
  using uint_0_iff [of x] by (simp add: order_less_le)

lemma compare_order:
  "0 \<notin> set xs \<Longrightarrow> 0 \<notin> set ys \<Longrightarrow>
     (compare xs ys = 0 \<longleftrightarrow> xs = ys) \<and> (compare xs ys < 0 \<longleftrightarrow> (xs, ys) \<in> lexord {(x, y). x < y})"
proof (induction xs ys rule: compare.induct)
  case (2 x xs)
  then show ?case using uint_pos [of x] by auto
next
  case (3 y ys)
  then show ?case using uint_pos [of y] by auto
next
  case (4 x xs y ys)
  then show ?case by (auto simp: word_less_def word_uint_eq_iff)
qed simp

lemma str_at_nonzero: "str_at m a cs \<Longrightarrow> 0 \<notin> set cs"
  by (induction cs arbitrary: a) auto

text \<open>
  \<open>strcmp\<close> and \<open>strncmp\<close> on terminated strings return, with zero exactly for equal strings (for equal prefixes
  of length \<open>n\<close>) and a negative result exactly when the first precedes the second in the
  dictionary order of unsigned bytes; \<open>strlen\<close> returns the length.
\<close>

theorem strcmp_correct:
  assumes "str_at m a xs" "str_at m b ys"
  shows "\<exists>r. strcmp m a b = Some r \<and> (r = 0 \<longleftrightarrow> xs = ys) \<and> (r < 0 \<longleftrightarrow> (xs, ys) \<in> lexord {(x, y). x < y}) \<and>
    (strncmp m a b n = 0 \<longleftrightarrow> take n xs = take n ys) \<and>
    (strncmp m a b n < 0 \<longleftrightarrow> (take n xs, take n ys) \<in> lexord {(x, y). x < y}) \<and>
    strlen m a = Some (of_nat (length xs))"
proof -
  have nz: "0 \<notin> set xs" "0 \<notin> set ys" using assms str_at_nonzero by blast+
  then have "0 \<notin> set (take n xs)" "0 \<notin> set (take n ys)" by (meson in_set_takeD)+
  with nz show ?thesis
    using strcmp_spec [OF assms] strncmp_spec [OF assms, of n] strlen_spec [OF assms(1)]
      compare_order [of xs ys] compare_order [of "take n xs" "take n ys"] by simp
qed

text \<open>Memory holding a string at an address, zero elsewhere.\<close>

primrec place_string :: "u64 \<Rightarrow> bytes \<Rightarrow> mem \<Rightarrow> mem" where
  "place_string a [] m = m(a := 0)"
| "place_string a (c # cs) m = place_string (a + 1) cs (m(a := c))"

theorem strcmp_correct_witness:
  "\<exists>r. strcmp (place_string 20 [97, 99] (place_string 10 [97, 98] (\<lambda>_. 0))) 10 20 = Some r \<and> r < 0"
proof -
  let ?m = "place_string 20 [97, 99] (place_string 10 [97, 98] (\<lambda>_. 0))"
  have "str_at ?m 10 [97, 98]" "str_at ?m 20 [97, 99]" by simp_all
  from strcmp_correct [OF this, of 0] show ?thesis by fastforce
qed

section \<open>The wildcard match\<close>

text \<open>Specification: a star stands for any string, every other character for itself.\<close>

fun glob :: "bytes \<Rightarrow> bytes \<Rightarrow> bool" where
  "glob [] s \<longleftrightarrow> s = []"
| "glob (d # p) s \<longleftrightarrow>
     (if d = star then \<exists>k \<le> length s. glob p (drop k s)
      else case s of [] \<Rightarrow> False | c # s' \<Rightarrow> c = d \<and> glob p s')"

lemma glob_empty: "glob p [] \<longleftrightarrow> dropWhile (\<lambda>c. c = star) p = []"
  by (induction p) auto

lemma glob_stars: "dropWhile (\<lambda>c. c = star) p = [] \<Longrightarrow> p \<noteq> [] \<Longrightarrow> glob p s"
proof (induction p)
  case (Cons d p)
  then show ?case by (cases "p = []") (auto simp: split: if_splits)
qed simp

lemma glob_star_suffix:
  assumes "p \<noteq> []"
  shows "glob (star # p) s \<longleftrightarrow> (\<exists>k < length s. glob p (drop k s)) \<or> glob p []"
proof -
  have "(\<exists>k \<le> n. P k) \<longleftrightarrow> (\<exists>k < n. P k) \<or> P n" for P and n :: nat using le_less by auto
  then show ?thesis by simp
qed

lemma match_glob:
  "match_wildcard p s \<longleftrightarrow> glob p s"
  "p \<noteq> [] \<Longrightarrow> match_any p s \<longleftrightarrow> (\<exists>k < length s. glob p (drop k s))"
proof (induction p s and p s rule: match_wildcard_match_any.induct)
  case (1 p)
  then show ?case by (simp add: glob_empty)
next
  case (2 p c s)
  show ?case
  proof (cases p)
    case (Cons d p')
    consider "d \<noteq> star" | "d = star" "p' = []" | "d = star" "p' \<noteq> []" by blast
    then show ?thesis
    proof cases
      case 1
      with 2 Cons show ?thesis by auto
    next
      case 2
      with Cons show ?thesis by (auto intro: exI [of _ "Suc (length s)"])
    next
      case 3
      have "glob p' [] \<Longrightarrow> \<exists>k < length (c # s). glob p' (drop k (c # s))"
        using glob_stars [of p' "c # s"] 3(2) glob_empty by auto
      then have "glob p (c # s) \<longleftrightarrow> (\<exists>k < length (c # s). glob p' (drop k (c # s)))"
        using glob_star_suffix [OF 3(2), of "c # s"] Cons 3(1) by blast
      with "2.IH"(1) [OF Cons 3] Cons 3 show ?thesis by simp
    qed
  qed simp
next
  case (4 p c s)
  have "(\<exists>k < Suc n. P k) \<longleftrightarrow> P 0 \<or> (\<exists>k < n. P (Suc k))" for P and n :: nat by (auto simp: less_Suc_eq_0_disj)
  with 4 show ?case by simp
qed simp

text \<open>
  \<open>match_wildcard\<close> decides the wildcard relation: it returns (it is a total function), and it is true exactly when the string can be
  obtained from the pattern by replacing each star by some string.
\<close>

theorem match_wildcard_correct: "match_wildcard p s \<longleftrightarrow> glob p s"
  by (rule match_glob(1))

section \<open>Bounded copies and formatting\<close>

lemma str_at_cong: "(\<And>i. i \<le> length cs \<Longrightarrow> m' (a + of_nat i) = m (a + of_nat i)) \<Longrightarrow> str_at m' a cs = str_at m a cs"
proof (induction cs arbitrary: a)
  case Nil
  from Nil [of 0] show ?case by simp
next
  case (Cons c cs)
  have "str_at m' (a + 1) cs = str_at m (a + 1) cs"
    by (rule Cons.IH) (use Cons.prems [of "Suc i" for i] in \<open>simp add: ac_simps\<close>)
  moreover have "m' a = m a" using Cons.prems [of 0] by simp
  ultimately show ?case by simp
qed

text \<open>The string at \<open>s\<close>, terminator included, lies outside the \<open>n\<close> bytes from \<open>d\<close> on.\<close>

definition apart :: "u64 \<Rightarrow> nat \<Rightarrow> u64 \<Rightarrow> bytes \<Rightarrow> bool" where
  "apart d n s cs \<longleftrightarrow> (\<forall>i \<le> length cs. n \<le> unat (s + of_nat i - d))"

lemma apart_step: "apart d (Suc n) s (c # cs) \<Longrightarrow> apart (d + 1) n (s + 1) cs"
  unfolding apart_def
proof (intro allI impI)
  fix i assume a: "\<forall>i \<le> length (c # cs). Suc n \<le> unat (s + of_nat i - d)" and i: "i \<le> length cs"
  have e: "s + 1 + of_nat i - (d + 1) = s + of_nat i - d" by simp
  from a [rule_format, of i] i show "n \<le> unat (s + 1 + of_nat i - (d + 1))" unfolding e by simp
qed

lemma strncpy_spec:
  "str_at m s cs \<Longrightarrow> apart d n s cs \<Longrightarrow> n \<le> 2 ^ 64 \<Longrightarrow>
     strncpy m d s n x =
       (if unat (x - d) < n then (if unat (x - d) < length cs then cs ! unat (x - d) else 0) else m x)"
proof (induction n arbitrary: m d s cs)
  case (Suc n)
  show ?case
  proof (cases cs)
    case Nil
    with Suc.prems(1) have "strncpy m d s (Suc n) = memset m d 0 (Suc n)" by simp
    then show ?thesis using memset_spec [OF Suc.prems(3), of m d 0 x] Nil by (simp only: list.size) simp
  next
    case (Cons c cs')
    let ?m = "m(d := c)"
    have far: "s + of_nat i \<noteq> d" if "i \<le> length cs" for i
      using Suc.prems(2) that unfolding apart_def by force
    have "str_at ?m (s + 1) cs' = str_at m (s + 1) cs'"
      by (rule str_at_cong) (use far [of "Suc i" for i] Cons in \<open>auto simp: ac_simps\<close>)
    with Suc.prems(1) Cons have st: "str_at ?m (s + 1) cs'" by simp
    have IH: "strncpy m d s (Suc n) x =
      (if unat (x - (d + 1)) < n then (if unat (x - (d + 1)) < length cs' then cs' ! unat (x - (d + 1)) else 0) else ?m x)"
    proof -
      have "strncpy m d s (Suc n) = strncpy ?m (d + 1) (s + 1) n" using Suc.prems(1) Cons by auto
      then show ?thesis
        using Suc.IH [OF st apart_step [OF Suc.prems(2) [unfolded Cons]]] Suc.prems(3) by (simp only:)
    qed
    show ?thesis
    proof (cases "x = d")
      case True
      have "\<not> unat (x - (d + 1)) < n" using True unat_max Suc.prems(3) by simp
      with True Cons show ?thesis unfolding IH by simp
    next
      case False
      then obtain k where k: "unat (x - d) = Suc k" "unat (x - (d + 1)) = k"
        using unat_pred [of "x - d"] not0_implies_Suc [of "unat (x - d)"] by (auto simp: diff_diff_eq unat_eq_zero)
      with False Cons show ?thesis unfolding IH by simp
    qed
  qed
qed simp

lemma str_at_nth:
  "(\<And>i. i < length cs \<Longrightarrow> m (a + of_nat i) = cs ! i) \<Longrightarrow> 0 \<notin> set cs \<Longrightarrow> m (a + of_nat (length cs)) = 0 \<Longrightarrow> str_at m a cs"
proof (induction cs arbitrary: a)
  case (Cons c cs)
  have "str_at m (a + 1) cs"
    by (rule Cons.IH) (use Cons.prems(1) [of "Suc i" for i] Cons.prems(2,3) in \<open>auto simp: ac_simps\<close>)
  with Cons.prems(1) [of 0] Cons.prems(2) show ?case by simp
qed simp

text \<open>
  \<open>snprintf\<close> ignores its arguments: whatever they are, the buffer receives the format itself, cut to the
  buffer size, and the result is the length copied. The conversion specifications are copied like any other character.
\<close>

theorem snprintf_copies_format:
  assumes "str_at m fmt cs" "apart str sz fmt cs" "0 < sz" "sz \<le> 2 ^ 64"
  shows "\<exists>m'. snprintf m str sz fmt = Some (of_nat (min (sz - 1) (length cs)), m') \<and>
    str_at m' str (take (sz - 1) cs) \<and> (\<forall>x. unat (x - str) \<ge> sz \<longrightarrow> m' x = m x)"
proof -
  obtain n where n: "sz = Suc n" using assms(3) by (cases sz) auto
  have ap: "apart str n fmt cs" using assms(2) unfolding apart_def n using Suc_leD by blast
  define m' where "m' = (strncpy m str fmt n)(str + of_nat n := 0)"
  have val: "m' x = (if x = str + of_nat n then 0 else if unat (x - str) < n
      then (if unat (x - str) < length cs then cs ! unat (x - str) else 0) else m x)" for x
    using strncpy_spec [OF assms(1) ap, of x] assms(4) n by (simp add: m'_def)
  have un: "unat (of_nat i :: u64) = i" if "i \<le> n" for i
    by (rule unat_of_nat_le [of _ sz]) (use that n assms(4) in auto)
  have ne: "(of_nat i :: u64) \<noteq> of_nat n" if "i < n" for i
    using un [of i] un [of n] that by auto
  have st: "str_at m' str (take n cs)"
  proof (rule str_at_nth)
    show "m' (str + of_nat i) = take n cs ! i" if "i < length (take n cs)" for i
      using that val [of "str + of_nat i"] un [of i] ne [of i] by simp
    show "0 \<notin> set (take n cs)" using str_at_nonzero [OF assms(1)] by (meson in_set_takeD)
    show "m' (str + of_nat (length (take n cs))) = 0"
      using val [of "str + of_nat (length (take n cs))"] un [of "length (take n cs)"] by (auto simp: min_def)
  qed
  have "snprintf m str sz fmt = Some (of_nat (length (take n cs)), m')"
    using strlen_spec [OF st] n by (simp add: snprintf_def Let_def m'_def)
  moreover have "m' x = m x" if "unat (x - str) \<ge> sz" for x
  proof -
    have "x \<noteq> str + of_nat n" using that un [of n] n by auto
    then show ?thesis using val [of x] that n by simp
  qed
  ultimately show ?thesis using st n by (intro exI [of _ m']) (simp add: min.commute)
qed

theorem snprintf_copies_format_witness:
  "\<exists>m'. snprintf (place_string 100 [37, 115, 47, 37, 115] (\<lambda>_. 0)) 0 32 100 = Some (5, m') \<and> str_at m' 0 [37, 115, 47, 37, 115]"
proof -
  let ?m = "place_string 100 [37, 115, 47, 37, 115] (\<lambda>_. 0)" and ?cs = "[37, 115, 47, 37, 115] :: bytes"
  have "str_at ?m 100 ?cs" by simp
  moreover have "unat (100 + of_nat i - 0 :: u64) = 100 + i" if "i \<le> 5" for i
    using that unat_of_nat_u64 [of i] by (simp add: unat_plus_u64)
  then have "apart 0 32 100 ?cs" unfolding apart_def by simp
  ultimately show ?thesis using snprintf_copies_format [of ?m 100 ?cs 0 32] by auto
qed

end
