(* ===== verification/Printf.thy ===== *)
theory Printf
  imports Prelude "HOL-Library.Monad_Syntax"
begin

text \<open>
  Formatted output, \<open>lib/printf.cpp\<close>. The characters sent to \<open>terminal_putchar\<close> are the result.

  An argument of the variable list is a 64-bit slot or a string (\<open>None\<close> is a null pointer); taking an
  argument of the wrong kind, or one too many, is undefined behaviour and makes the result \<open>None\<close>, as does
  reading past the end of the format. \<open>print_float\<close> computes with doubles and is not modelled: \<open>pf\<close> stands for its
  output, given the precision and the slot.
\<close>

section \<open>Numbers\<close>

definition PRINT_BUFFER_SIZE :: nat where "PRINT_BUFFER_SIZE = 32"

definition digit_char :: "nat \<Rightarrow> u8" where
  "digit_char d = (if d < 10 then 48 + of_nat d else 97 + of_nat d - 10)"

text \<open>The digit loop: least significant digit first, at most \<open>fuel\<close> digits (the free room of the buffer).\<close>

fun digits :: "nat \<Rightarrow> nat \<Rightarrow> nat \<Rightarrow> bytes" where
  "digits base 0 num = []"
| "digits base (Suc fuel) num =
     (if num > 0 then digit_char (num mod base) # digits base fuel (num div base) else [])"

definition number_buffer :: "nat \<Rightarrow> nat \<Rightarrow> bytes" where
  "number_buffer base num = (if num = 0 then [48] else digits base (PRINT_BUFFER_SIZE - 1) num)"

definition padding :: "u8 \<Rightarrow> int \<Rightarrow> bytes" where
  "padding c n = replicate (nat n) c"

text \<open>
  \<open>print_number\<close> takes a 32-bit \<^verbatim>\<open>int\<close>. Negating the least one is left as it is by two's complement; the digit
  loop then does not run.
\<close>

definition print_number :: "32 word \<Rightarrow> nat \<Rightarrow> int \<Rightarrow> bool \<Rightarrow> bool \<Rightarrow> bytes" where
  "print_number num base width pad_zero left_justify =
    (let negative = num <s 0;
         num' = (if negative then - num else num);
         buffer = (if num' <s 0 then [] else number_buffer base (unat num'));
         content_width = int (length buffer) + (if negative then 1 else 0);
         pad = width - content_width;
         sgn = (if negative then [45] else [])
     in if left_justify then sgn @ rev buffer @ padding 32 pad
        else (if pad_zero then sgn else []) @ padding (if pad_zero then 48 else 32) pad @
             (if pad_zero then [] else sgn) @ rev buffer)"

definition print_unsigned :: "u64 \<Rightarrow> nat \<Rightarrow> int \<Rightarrow> bool \<Rightarrow> bool \<Rightarrow> bytes" where
  "print_unsigned num base width pad_zero left_justify =
    (let buffer = number_buffer base (unat num);
         pad = width - int (length buffer)
     in if left_justify then rev buffer @ padding 32 pad
        else padding (if pad_zero then 48 else 32) pad @ rev buffer)"

definition print_hex :: "u64 \<Rightarrow> int \<Rightarrow> bool \<Rightarrow> bool \<Rightarrow> bytes" where
  "print_hex num width pad_zero left_justify =
    (let buffer = number_buffer 16 (unat num);
         pad = width - int (length buffer) - 2
     in if left_justify then [48, 120] @ rev buffer @ padding 32 pad
        else padding (if pad_zero then 48 else 32) pad @ [48, 120] @ rev buffer)"

definition print_pointer :: "u64 \<Rightarrow> bytes" where
  "print_pointer ptr = print_hex ptr 0 False False"

section \<open>Formats\<close>

datatype arg = Slot u64 | Str "bytes option"

record fmt_spec =
  f_width :: int
  f_pad_zero :: bool
  f_left :: bool
  f_precision :: int
  f_size_t :: bool
  f_long :: bool
  f_long_long :: bool

definition is_digit :: "u8 \<Rightarrow> bool" where
  "is_digit c \<longleftrightarrow> 48 \<le> c \<and> c \<le> 57"

fun read_number :: "int \<Rightarrow> bytes \<Rightarrow> int \<times> bytes" where
  "read_number n [] = (n, [])"
| "read_number n (c # cs) = (if is_digit c then read_number (n * 10 + (uint c - 48)) cs else (n, c # cs))"

definition eat :: "u8 \<Rightarrow> bytes \<Rightarrow> bool \<times> bytes" where
  "eat ch cs = (case cs of c # cs' \<Rightarrow> if c = ch then (True, cs') else (False, cs) | [] \<Rightarrow> (False, []))"

definition parse_spec :: "bytes \<Rightarrow> fmt_spec \<times> bytes" where
  "parse_spec f0 =
    (let (left_justify, f1) = eat 45 f0;
         (pad_zero, f2) = eat 48 f1;
         (width, f3) = read_number 0 f2;
         (dot, f4) = eat 46 f3;
         (precision, f5) = (if dot then read_number 0 f4 else (-1, f4));
         (is_size_t, f6) = eat 122 f5;
         (l1, f7) = eat 108 f6;
         (l2, f8) = (if l1 then eat 108 f7 else (False, f7))
     in (\<lparr>f_width = width, f_pad_zero = pad_zero, f_left = left_justify, f_precision = precision,
          f_size_t = is_size_t, f_long = l1 \<and> \<not> l2, f_long_long = l2\<rparr>, f8))"

definition arg_slot :: "arg list \<Rightarrow> (u64 \<times> arg list) option" where
  "arg_slot as = (case as of Slot w # as' \<Rightarrow> Some (w, as') | _ \<Rightarrow> None)"

definition arg_str :: "arg list \<Rightarrow> (bytes option \<times> arg list) option" where
  "arg_str as = (case as of Str s # as' \<Rightarrow> Some (s, as') | _ \<Rightarrow> None)"

text \<open>
  The string case: the string is itself printed as a format, by \<open>pr\<close>. The length for the padding counts its characters.
\<close>

definition print_str :: "(bytes \<Rightarrow> bytes option) \<Rightarrow> fmt_spec \<Rightarrow> bytes option \<Rightarrow> bytes option" where
  "print_str pr sp s =
    (let str = (case s of None \<Rightarrow> cstr ''(null)'' | Some cs \<Rightarrow> cs)
     in do {
          text \<leftarrow> pr str;
          if f_width sp > 0 then
            let pad = padding 32 (f_width sp - int (length str))
            in Some (if f_left sp then text @ pad else pad @ text)
          else Some text
        })"

text \<open>One conversion: the text and the remaining arguments.\<close>

definition convert ::
    "(int \<Rightarrow> u64 \<Rightarrow> bytes) \<Rightarrow> (bytes \<Rightarrow> bytes option) \<Rightarrow> fmt_spec \<Rightarrow> u8 \<Rightarrow> arg list \<Rightarrow> (bytes \<times> arg list) option" where
  "convert pf pr sp c as =
    (if c = 102 then do { (w, as') \<leftarrow> arg_slot as; Some (pf (if f_precision sp < 0 then 6 else f_precision sp) w, as') }
     else if c = 100 then do {
       (w, as') \<leftarrow> arg_slot as;
       Some (if f_size_t sp then print_unsigned w 10 (f_width sp) (f_pad_zero sp) (f_left sp)
             else print_number (ucast w) 10 (f_width sp) (f_pad_zero sp) (f_left sp), as')
     }
     else if c = 117 then do {
       (w, as') \<leftarrow> arg_slot as;
       Some (print_unsigned (if f_size_t sp \<or> f_long_long sp \<or> f_long sp then w else ucast (ucast w :: 32 word)) 10
               (f_width sp) (f_pad_zero sp) (f_left sp), as')
     }
     else if c = 120 then do {
       (w, as') \<leftarrow> arg_slot as;
       Some (print_hex (if f_size_t sp \<or> f_long_long sp \<or> f_long sp then w else ucast (ucast w :: 32 word))
               (f_width sp) (f_pad_zero sp) (f_left sp), as')
     }
     else if c = 112 then do { (w, as') \<leftarrow> arg_slot as; Some (print_pointer w, as') }
     else if c = 115 then do { (s, as') \<leftarrow> arg_str as; text \<leftarrow> print_str pr sp s; Some (text, as') }
     else if c = 37 then Some ([37], as)
     else if c = 99 then do { (w, as') \<leftarrow> arg_slot as; Some ([ucast w], as') }
     else Some ([37, c], as))"

lemma length_read_number: "length (snd (read_number n cs)) \<le> length cs"
  by (induction n cs rule: read_number.induct) auto

lemma length_eat: "length (snd (eat c cs)) \<le> length cs"
  by (auto simp: eat_def split: list.split)

lemma length_parse_spec: "length (snd (parse_spec f)) \<le> length f"
proof -
  have e: "eat c xs = (b, ys) \<Longrightarrow> length ys \<le> length xs" for c xs b ys using length_eat [of c xs] by simp
  have r: "read_number n xs = (b, ys) \<Longrightarrow> length ys \<le> length xs" for n xs b ys using length_read_number [of n xs] by simp
  show ?thesis unfolding parse_spec_def Let_def
    by (auto split: prod.splits if_splits dest!: e r)
qed

text \<open>
  The main loop; the result carries the number of rounds. A format that ends inside a conversion
  makes the loop step over the terminator.
\<close>

function format_loop ::
    "(int \<Rightarrow> u64 \<Rightarrow> bytes) \<Rightarrow> (bytes \<Rightarrow> bytes option) \<Rightarrow> bytes \<Rightarrow> arg list \<Rightarrow> (bytes \<times> int) option" where
  "format_loop pf pr [] as = Some ([], 0)"
| "format_loop pf pr (c # fmt) as =
     (if c = 37 then
        case parse_spec fmt of
          (sp, []) \<Rightarrow> None
        | (sp, d # rest) \<Rightarrow>
            do { (text, as') \<leftarrow> convert pf pr sp d as;
                 (out, n) \<leftarrow> format_loop pf pr rest as';
                 Some (text @ out, n + 1) }
      else do { (out, n) \<leftarrow> format_loop pf pr fmt as; Some (c # out, n + 1) })"
  by pat_completeness auto
termination
proof (relation "measure (\<lambda>(pf, pr, fmt, as). length fmt)", goal_cases)
  case (2 pf pr c fmt as)
  then show ?case using length_parse_spec [of fmt] by (cases "parse_spec fmt") auto
qed auto

text \<open>\<^verbatim>\<open>printf(str)\<close> for a string argument passes no arguments of its own.\<close>

definition vprintf :: "(int \<Rightarrow> u64 \<Rightarrow> bytes) \<Rightarrow> bytes \<Rightarrow> arg list \<Rightarrow> (bytes \<times> int) option" where
  "vprintf pf fmt as =
     format_loop pf (\<lambda>str. map_option fst (format_loop pf (\<lambda>_. None) str [])) fmt as"

section \<open>Properties\<close>

text \<open>Reading back a printed number, most significant digit first.\<close>

definition digit_value :: "u8 \<Rightarrow> nat" where
  "digit_value c = (if c \<le> 57 then unat c - 48 else unat c - 87)"

definition read_back :: "nat \<Rightarrow> bytes \<Rightarrow> nat" where
  "read_back base cs = foldl (\<lambda>v c. v * base + digit_value c) 0 cs"

lemma unat_of_nat_u8: "n < 256 \<Longrightarrow> unat (of_nat n :: u8) = n"
  by (simp add: unat_of_nat take_bit_eq_mod)

lemma unat_digit_char: "d < 36 \<Longrightarrow> unat (digit_char d) = (if d < 10 then 48 + d else 87 + d)"
proof -
  assume d: "d < 36"
  have "digit_char d = of_nat (if d < 10 then 48 + d else 87 + d)" by (simp add: digit_char_def)
  then show ?thesis using d by (simp only:) (simp add: unat_of_nat take_bit_eq_mod)
qed

lemma digit_value_char: "d < 36 \<Longrightarrow> digit_value (digit_char d) = d"
  using unat_digit_char [of d] by (auto simp: digit_value_def word_le_nat_alt)

lemma read_back_digits:
  "2 \<le> base \<Longrightarrow> base \<le> 36 \<Longrightarrow> num < base ^ fuel \<Longrightarrow> read_back base (rev (digits base fuel num)) = num"
proof (induction base fuel num rule: digits.induct)
  case (2 base fuel num)
  have "num mod base < 36" using 2(2,3) using mod_less_divisor [of base num] by linarith
  then have "digit_value (digit_char (num mod base)) = num mod base" by (rule digit_value_char)
  moreover have "num div base < base ^ fuel" using 2(2,4) by (simp add: less_mult_imp_div_less mult.commute)
  ultimately show ?case using 2 by (simp add: read_back_def)
qed (simp add: read_back_def)

lemma digits_nonempty: "num > 0 \<Longrightarrow> fuel > 0 \<Longrightarrow> digits base fuel num \<noteq> []"
  by (cases fuel) auto

lemma last_digit_nonzero:
  "2 \<le> base \<Longrightarrow> base \<le> 36 \<Longrightarrow> 0 < num \<Longrightarrow> num < base ^ fuel \<Longrightarrow> last (digits base fuel num) \<noteq> 48"
proof (induction base fuel num rule: digits.induct)
  case (2 base fuel num)
  show ?case
  proof (cases "num div base = 0")
    case True
    then have "num < base" using 2(2,4) by (simp add: div_eq_0_iff)
    then have "digit_value (digit_char num) = num" using 2(3) by (intro digit_value_char) simp
    with 2(4) have "digit_char num \<noteq> 48" by (auto simp: digit_value_def)
    moreover have "digits base fuel (num div base) = []" using True by (cases fuel) auto
    ultimately show ?thesis using 2(4) \<open>num < base\<close> by simp
  next
    case False
    have lt: "num div base < base ^ fuel" using 2(2,5) by (simp add: less_mult_imp_div_less mult.commute)
    have "fuel > 0" using False lt by (cases fuel) auto
    then show ?thesis using 2 False lt digits_nonempty [of "num div base" fuel base] by simp
  qed
qed simp

lemma number_buffer_spec:
  assumes "2 \<le> base" "base \<le> 36" "num < base ^ 31"
  shows "read_back base (rev (number_buffer base num)) = num" "number_buffer base num \<noteq> []"
    "num \<noteq> 0 \<Longrightarrow> hd (rev (number_buffer base num)) \<noteq> 48"
  using assms read_back_digits [of base num 31] last_digit_nonzero [of base num 31] digits_nonempty [of num 31 base]
  by (auto simp: number_buffer_def PRINT_BUFFER_SIZE_def read_back_def digit_value_def hd_rev)

text \<open>
  numbers print correctly. Without padding, \<open>print_unsigned\<close> in base 10 and 16 and \<open>print_hex\<close> (behind its prefix) write
  digits that read back as the number, without a leading zero, for every 64-bit number: the 31 digits of the
  buffer always suffice. Padding only adds characters up to the width.
\<close>

theorem print_unsigned_roundtrip:
  assumes "base = 10 \<or> base = 16"
  shows "read_back base (print_unsigned num base 0 z l) = unat num \<and>
    (num \<noteq> 0 \<longrightarrow> hd (print_unsigned num base 0 z l) \<noteq> 48) \<and>
    print_hex num 0 z l = [48, 120] @ print_unsigned num 16 0 z l \<and>
    length (print_unsigned num base w z l) = max (nat w) (length (print_unsigned num base 0 z l)) \<and>
    print_unsigned num base w True False =
      replicate (nat w - length (print_unsigned num base 0 z l)) 48 @ print_unsigned num base 0 z l"
proof -
  have "unat num < 2 ^ 64" using unsigned_less [of num, where ?'a = nat] by simp
  also have "(2 :: nat) ^ 64 < base ^ 31" using assms by auto
  finally have lt: "unat num < base ^ 31" .
  have base: "2 \<le> base" "base \<le> 36" using assms by auto
  let ?b = "number_buffer base (unat num)"
  have p: "print_unsigned num base 0 z l = rev ?b"
    by (simp add: print_unsigned_def Let_def padding_def)
  have "num \<noteq> 0 \<longrightarrow> unat num \<noteq> 0" by (simp add: unat_eq_zero)
  then show ?thesis
    unfolding p using number_buffer_spec [OF base lt]
    by (auto simp: print_unsigned_def print_hex_def Let_def padding_def nat_diff_distrib' max_def)
qed

theorem print_unsigned_roundtrip_witness: "read_back 10 (print_unsigned 1984 10 0 False False) = 1984"
  using print_unsigned_roundtrip [of 10 1984 False False 0] by simp

lemma format_loop_text:
  "37 \<notin> set cs \<Longrightarrow> format_loop pf pr (cs @ fmt) as =
     map_option (\<lambda>(out, n). (cs @ out, n + int (length cs))) (format_loop pf pr fmt as)"
proof (induction cs)
  case Nil
  then show ?case by (cases "format_loop pf pr fmt as") auto
next
  case (Cons c cs)
  then show ?case by (cases "format_loop pf pr fmt as") auto
qed

lemma parse_spec_s: "parse_spec (115 # cs) = (\<lparr>f_width = 0, f_pad_zero = False, f_left = False, f_precision = -1,
    f_size_t = False, f_long = False, f_long_long = False\<rparr>, 115 # cs)"
  by (simp add: parse_spec_def eat_def is_digit_def)

text \<open>
  plain text and strings. A format without a percent sign is written unchanged; \<^verbatim>\<open>%s\<close> writes its argument
  unchanged if that contains no percent sign. But the argument is itself taken as a format: with the
  argument \<^verbatim>\<open>%d\<close> the call reads an argument that was never passed.
\<close>

theorem printf_strings:
  assumes "37 \<notin> set cs" "37 \<notin> set pre"
  shows "vprintf pf cs as = Some (cs, int (length cs)) \<and>
    vprintf pf (pre @ cstr ''%s'') [Str (Some cs)] = Some (pre @ cs, int (length pre) + 1) \<and>
    vprintf pf (cstr ''%s'') [Str (Some (cstr ''%d''))] = None"
proof -
  have plain: "format_loop pf pr cs as = Some (cs, int (length cs))" for pr as
    using format_loop_text [OF assms(1), of pf pr "[]"] by simp
  have s: "format_loop pf pr (cstr ''%s'') [Str (Some xs)] = map_option (\<lambda>t. (t, 1)) (pr xs)" for pr xs
    by (cases "pr xs") (simp_all add: cstr_def parse_spec_s convert_def arg_str_def print_str_def)
  have "format_loop pf pr (cstr ''%d'') [] = None" for pr
    by (simp add: cstr_def parse_spec_def eat_def is_digit_def convert_def arg_slot_def)
  then show ?thesis
    unfolding vprintf_def using plain s format_loop_text [OF assms(2), of pf _ "cstr ''%s''"] by simp
qed

theorem printf_strings_witness:
  "vprintf (\<lambda>_ _. []) (cstr ''%s'') [Str (Some (cstr ''ok''))] = Some (cstr ''ok'', 1)"
  using printf_strings [of "cstr ''ok''" "[]" "\<lambda>_ _. []"] by (simp add: cstr_def)

text \<open>
  \<^verbatim>\<open>%ld\<close> and \<^verbatim>\<open>%lld\<close> print only the low 32 bits of their argument, because \<open>print_number\<close> takes an \<open>int\<close>; and
  the least \<open>int\<close> is printed as a bare minus sign.
\<close>

theorem printf_long_truncated:
  "vprintf pf (cstr ''%lld'') [Slot w] = vprintf pf (cstr ''%d'') [Slot (ucast (ucast w :: 32 word))] \<and>
   vprintf pf (cstr ''%ld'') [Slot (2 ^ 32 + 5)] = Some (cstr ''5'', 1) \<and>
   vprintf pf (cstr ''%d'') [Slot (2 ^ 31)] = Some (cstr ''-'', 1)"
proof -
  have d: "format_loop pf pr (cstr ''%d'') [Slot v] = Some (print_number (ucast v) 10 0 False False, 1)"
    "format_loop pf pr (cstr ''%ld'') [Slot v] = Some (print_number (ucast v) 10 0 False False, 1)"
    "format_loop pf pr (cstr ''%lld'') [Slot v] = Some (print_number (ucast v) 10 0 False False, 1)" for pr v
    by (simp_all add: cstr_def parse_spec_def eat_def is_digit_def convert_def arg_slot_def)
  have p: "print_number 5 10 0 False False = cstr ''5''"
    by code_simp
  have m: "print_number 0x80000000 10 0 False False = cstr ''-''"
    by code_simp
  have u: "(ucast (2 ^ 32 + 5 :: u64) :: 32 word) = 5" "(ucast (2 ^ 31 :: u64) :: 32 word) = 0x80000000" by simp_all
  have "(ucast (ucast (ucast w :: 32 word) :: u64) :: 32 word) = ucast w"
    by (rule bit_word_eqI) (simp add: bit_simps)
  then show ?thesis unfolding vprintf_def d u p m by simp
qed

end
