(* ===== verification/Fat_Table.thy ===== *)
theory Fat_Table
  imports Prelude "HOL-Library.Monad_Syntax"
begin

text \<open>
  The FAT32 driver, \<open>fs/fat32.cpp\<close>, first part: the mounted volume, sector transfers, the allocation
  table, allocation of clusters, and reading and writing the data of a file along its cluster chain.

  The disk behind the ATA driver is a function from sector numbers to blocks of 512 bytes. \<open>disk_bad\<close>
  holds for the sectors on which a transfer times out, \<open>ata_present\<close> is the result of the driver's
  initialisation; \<open>Ata_Driver\<close> models \<open>drivers/ata.cpp\<close> port access by port access and proves that its transfers
  are the ones used here. Paths and names are byte lists without their terminator. Messages printed on the
  console are omitted.
\<close>

section \<open>State\<close>

record fat32_bpb =
  bytesPerSector :: u16
  sectorsPerCluster :: u8
  reservedSectorCount :: u16
  tableCount :: u8
  rootEntryCount :: u16
  totalSectors16 :: u16
  tableSize16 :: u16
  totalSectors32 :: u32
  tableSize32 :: u32
  bpb_fsInfo :: u16
  bootSignature :: u8

record dir_stack_entry =
  ds_name :: bytes
  ds_path :: bytes
  ds_cluster :: u32

record fatfs =
  m_bpb :: fat32_bpb
  m_freeCount :: u32
  m_nextFree :: u32
  m_firstDataSector :: u32
  m_dataSectors :: u32
  m_totalClusters :: u32
  m_firstFatSector :: u32
  m_currentPath :: bytes
  m_currentDirName :: bytes
  m_currentDirectoryCluster :: u32
  m_dirStack :: "dir_stack_entry list"
  disk :: "u32 \<Rightarrow> bytes"
  disk_bad :: "u32 \<Rightarrow> bool"
  ata_present :: bool

definition MAX_PATH :: nat where "MAX_PATH = 256"
definition MAX_DIR_STACK :: nat where "MAX_DIR_STACK = 32"
definition ROOT_CLUSTER :: u32 where "ROOT_CLUSTER = 2"

abbreviation bps :: "fatfs \<Rightarrow> nat" where "bps s \<equiv> unat (bytesPerSector (m_bpb s))"
abbreviation spc :: "fatfs \<Rightarrow> nat" where "spc s \<equiv> unat (sectorsPerCluster (m_bpb s))"

text \<open>What \<^verbatim>\<open>strncpy(buffer, s, MAX_PATH - 1)\<close> leaves in a zeroed buffer of \<open>MAX_PATH\<close> bytes.\<close>

definition clip_path :: "bytes \<Rightarrow> bytes" where
  "clip_path p = take (MAX_PATH - 1) p"

section \<open>Fields of a sector\<close>

definition get_byte :: "bytes \<Rightarrow> nat \<Rightarrow> u8" where
  "get_byte d k = (if k < length d then d ! k else 0)"

definition put_bytes :: "nat \<Rightarrow> bytes \<Rightarrow> bytes \<Rightarrow> bytes" where
  "put_bytes k bs d = take k d @ bs @ drop (k + length bs) d"

definition get_le16 :: "bytes \<Rightarrow> nat \<Rightarrow> u16" where
  "get_le16 d k = ucast (get_byte d k) OR push_bit 8 (ucast (get_byte d (k + 1)))"

definition get_le32 :: "bytes \<Rightarrow> nat \<Rightarrow> u32" where
  "get_le32 d k = ucast (get_byte d k) OR push_bit 8 (ucast (get_byte d (k + 1))) OR
     push_bit 16 (ucast (get_byte d (k + 2))) OR push_bit 24 (ucast (get_byte d (k + 3)))"

definition le16_bytes :: "u32 \<Rightarrow> bytes" where
  "le16_bytes v = [ucast v, ucast (drop_bit 8 v)]"

definition le32_bytes :: "u32 \<Rightarrow> bytes" where
  "le32_bytes v = [ucast v, ucast (drop_bit 8 v), ucast (drop_bit 16 v), ucast (drop_bit 24 v)]"

section \<open>Sector transfers\<close>

text \<open>The driver sends the low 28 bits of the sector number; it transfers sector after sector and stops at the first failure.\<close>

definition lba28 :: "u32 \<Rightarrow> u32" where
  "lba28 lba = lba AND 0x0FFFFFFF"

primrec ata_read :: "u32 \<Rightarrow> nat \<Rightarrow> fatfs \<Rightarrow> bytes option" where
  "ata_read lba 0 s = Some []"
| "ata_read lba (Suc n) s =
     (if disk_bad s lba then None
      else map_option (\<lambda>rest. disk s lba @ rest) (ata_read (lba + 1) n s))"

primrec ata_write :: "u32 \<Rightarrow> nat \<Rightarrow> bytes \<Rightarrow> fatfs \<Rightarrow> bool \<times> fatfs" where
  "ata_write lba 0 data s = (True, s)"
| "ata_write lba (Suc n) data s =
     (if disk_bad s lba then (False, s)
      else ata_write (lba + 1) n (drop 512 data) (s\<lparr>disk := (disk s)(lba := take 512 data)\<rparr>))"

definition units :: "nat \<Rightarrow> nat" where
  "units sz = (let sectors = unat (of_nat ((sz + 511) div 512) :: u8) in if sectors = 0 then 1 else sectors)"

definition diskRead :: "u32 \<Rightarrow> nat \<Rightarrow> fatfs \<Rightarrow> bytes option" where
  "diskRead sector sz s =
    (if sz = 0 \<or> \<not> ata_present s then None else ata_read (lba28 sector) (units sz) s)"

definition diskWrite :: "u32 \<Rightarrow> bytes \<Rightarrow> nat \<Rightarrow> fatfs \<Rightarrow> bool \<times> fatfs" where
  "diskWrite sector data sz s =
    (if sz = 0 \<or> \<not> ata_present s then (False, s) else ata_write (lba28 sector) (units sz) data s)"

definition readSector :: "u32 \<Rightarrow> fatfs \<Rightarrow> bytes option" where
  "readSector sectorNumber s = (if bps s = 0 then None else diskRead sectorNumber (bps s) s)"

section \<open>Mounting\<close>

text \<open>The fields of the boot sector the driver uses, at their offsets in the packed structure.\<close>

definition parse_bpb :: "bytes \<Rightarrow> fat32_bpb" where
  "parse_bpb d = \<lparr>bytesPerSector = get_le16 d 11, sectorsPerCluster = get_byte d 13, reservedSectorCount = get_le16 d 14,
     tableCount = get_byte d 16, rootEntryCount = get_le16 d 17, totalSectors16 = get_le16 d 19,
     tableSize16 = get_le16 d 22, totalSectors32 = get_le32 d 32, tableSize32 = get_le32 d 36,
     bpb_fsInfo = get_le16 d 48, bootSignature = get_byte d 66\<rparr>"

definition fatSize :: "fat32_bpb \<Rightarrow> u32" where
  "fatSize b = (if tableSize16 b \<noteq> 0 then ucast (tableSize16 b) else tableSize32 b)"

definition validateBootSector :: "fat32_bpb \<Rightarrow> bool" where
  "validateBootSector b \<longleftrightarrow>
     \<not> (bytesPerSector b = 0 \<or> bytesPerSector b AND (bytesPerSector b - 1) \<noteq> 0) \<and>
     \<not> (sectorsPerCluster b = 0 \<or> sectorsPerCluster b AND (sectorsPerCluster b - 1) \<noteq> 0) \<and>
     reservedSectorCount b \<noteq> 0 \<and> tableCount b \<noteq> 0 \<and> fatSize b \<noteq> 0 \<and>
     (bootSignature b = 0x28 \<or> bootSignature b = 0x29)"

definition fat_initialize :: "bytes option \<Rightarrow> fatfs \<Rightarrow> bool \<times> fatfs" where
  "fat_initialize bootSector s =
    (case bootSector of
       None \<Rightarrow> (False, s)
     | Some d \<Rightarrow>
         let b = parse_bpb d;
             s1 = s\<lparr>m_bpb := b\<rparr>
         in if \<not> validateBootSector b then (False, s1)
            else
              let rootDirSectors = of_nat ((unat (rootEntryCount b) * 32 + (unat (bytesPerSector b) - 1)) div unat (bytesPerSector b));
                  totalSectors = (if totalSectors16 b \<noteq> 0 then ucast (totalSectors16 b) else totalSectors32 b);
                  firstData = ucast (reservedSectorCount b) + ucast (tableCount b) * fatSize b + rootDirSectors;
                  dataSectors = totalSectors - firstData
              in (True, s1\<lparr>m_firstFatSector := ucast (reservedSectorCount b), m_firstDataSector := firstData,
                    m_dataSectors := dataSectors, m_totalClusters := dataSectors div ucast (sectorsPerCluster b)\<rparr>))"

definition readFSInfo :: "fatfs \<Rightarrow> bool \<times> fatfs" where
  "readFSInfo s =
    (if bpb_fsInfo (m_bpb s) = 0 then (True, s)
     else case readSector (ucast (bpb_fsInfo (m_bpb s))) s of
            None \<Rightarrow> (False, s)
          | Some d \<Rightarrow>
              if get_le32 d 0 \<noteq> 0x41615252 \<or> get_le32 d 484 \<noteq> 0x61417272 \<or> get_le32 d 508 \<noteq> 0xAA550000 then (False, s)
              else (True, s\<lparr>m_freeCount := get_le32 d 488, m_nextFree := get_le32 d 492\<rparr>))"

text \<open>A directory entry with an 11-byte name, attribute byte, low cluster word and size.\<close>

definition dir_entry :: "bytes \<Rightarrow> u8 \<Rightarrow> u32 \<Rightarrow> u32 \<Rightarrow> bytes" where
  "dir_entry name11 attributes cluster sz =
     name11 @ [attributes] @ replicate 14 0 @ le16_bytes cluster @ le32_bytes sz"

definition first_sector :: "u32 \<Rightarrow> fatfs \<Rightarrow> u32" where
  "first_sector cluster s = (cluster - 2) * ucast (sectorsPerCluster (m_bpb s)) + m_firstDataSector s"

definition mount :: "fatfs \<Rightarrow> bool \<times> fatfs" where
  "mount s =
    (if \<not> ata_present s then (False, s)
     else case ata_read 0 1 s of
       None \<Rightarrow> (False, s)
     | Some bootSector \<Rightarrow>
         let (ok, s1) = fat_initialize (Some bootSector) s
         in if \<not> ok then (False, s1)
            else
              let (ok, s2) = readFSInfo s1
              in if \<not> ok then (False, s2)
                 else
                   let rootSector = first_sector ROOT_CLUSTER s2
                   in case readSector rootSector s2 of
                        None \<Rightarrow> (False, s2)
                      | Some rootBuffer \<Rightarrow>
                          if get_byte rootBuffer 0 = 0 then
                            let d = dir_entry (46 # replicate 10 32) 0x10 ROOT_CLUSTER 0 @
                                    dir_entry ([46, 46] @ replicate 9 32) 0x10 ROOT_CLUSTER 0 @ replicate (bps s2 - 64) 0;
                                (ok, s3) = diskWrite rootSector d (bps s2) s2
                            in (ok, s3)
                          else (True, s2))"

definition empty_bpb :: fat32_bpb where
  "empty_bpb = \<lparr>bytesPerSector = 0, sectorsPerCluster = 0, reservedSectorCount = 0, tableCount = 0, rootEntryCount = 0,
     totalSectors16 = 0, tableSize16 = 0, totalSectors32 = 0, tableSize32 = 0, bpb_fsInfo = 0, bootSignature = 0\<rparr>"

definition unmount :: "fatfs \<Rightarrow> fatfs" where
  "unmount s = s\<lparr>m_firstDataSector := 0, m_dataSectors := 0, m_totalClusters := 0, m_firstFatSector := 0,
     m_bpb := empty_bpb, m_freeCount := 0, m_nextFree := 0\<rparr>"

section \<open>The allocation table\<close>

definition fat_sector :: "u32 \<Rightarrow> fatfs \<Rightarrow> u32" where
  "fat_sector cluster s = m_firstFatSector s + (cluster * 4) div ucast (bytesPerSector (m_bpb s))"

definition fat_offset :: "u32 \<Rightarrow> fatfs \<Rightarrow> nat" where
  "fat_offset cluster s = unat ((cluster * 4) mod ucast (bytesPerSector (m_bpb s)))"

definition readFatEntry :: "u32 \<Rightarrow> fatfs \<Rightarrow> u32" where
  "readFatEntry cluster s =
    (if bps s = 0 then 0x0FFFFFF7
     else case readSector (fat_sector cluster s) s of
            None \<Rightarrow> 0x0FFFFFF7
          | Some sectorData \<Rightarrow> get_le32 sectorData (fat_offset cluster s) AND 0x0FFFFFFF)"

text \<open>The loop over the copies of the table, from copy \<open>i\<close> on, \<open>n\<close> of them left.\<close>

primrec write_copies :: "u32 \<Rightarrow> bytes \<Rightarrow> nat \<Rightarrow> nat \<Rightarrow> fatfs \<Rightarrow> bool \<times> fatfs" where
  "write_copies fatSector d i 0 s = (True, s)"
| "write_copies fatSector d i (Suc n) s =
     (let (ok, s1) = diskWrite (fatSector + of_nat i * tableSize32 (m_bpb s)) d (bps s) s
      in if \<not> ok then (False, s1) else write_copies fatSector d (Suc i) n s1)"

definition updateFatEntry :: "u32 \<Rightarrow> u32 \<Rightarrow> fatfs \<Rightarrow> bool \<times> fatfs" where
  "updateFatEntry cluster val s =
    (case readSector (fat_sector cluster s) s of
       None \<Rightarrow> (False, s)
     | Some sectorData \<Rightarrow>
         write_copies (fat_sector cluster s) (put_bytes (fat_offset cluster s) (le32_bytes (val AND 0x0FFFFFFF)) sectorData)
           0 (unat (tableCount (m_bpb s))) s)"

function allocate_from :: "u32 \<Rightarrow> fatfs \<Rightarrow> u32 \<times> fatfs" where
  "allocate_from cluster s =
    (if cluster < m_totalClusters s then
       if readFatEntry cluster s = 0 then (cluster, snd (updateFatEntry cluster 0x0FFFFFF8 s))
       else allocate_from (cluster + 1) s
     else (0, s))"
  by pat_completeness auto
termination
proof (relation "measure (\<lambda>(c, s). unat (m_totalClusters s) - unat c)", goal_cases)
  case (2 c s)
  then show ?case using unat_Suc_less [of c "m_totalClusters s"] by (simp add: word_less_nat_alt)
qed simp

declare allocate_from.simps [simp del]

definition allocateCluster :: "fatfs \<Rightarrow> u32 \<times> fatfs" where
  "allocateCluster s = allocate_from 2 s"

definition freeCluster :: "u32 \<Rightarrow> fatfs \<Rightarrow> fatfs" where
  "freeCluster cluster s =
    (if cluster < 2 \<or> cluster \<ge> m_totalClusters s then s else snd (updateFatEntry cluster 0 s))"

text \<open>Releasing a chain, as the three delete operations do it.\<close>

partial_function (option) free_chain :: "u32 \<Rightarrow> fatfs \<Rightarrow> fatfs option" where
  [code]: "free_chain cluster s =
    (if cluster < 0x0FFFFFF8 then
       let nextCluster = readFatEntry cluster s;
           s1 = freeCluster cluster s
       in if nextCluster \<ge> 0x0FFFFFF8 \<or> nextCluster = 0x0FFFFFF7 then Some s1 else free_chain nextCluster s1
     else Some s)"

section \<open>File data\<close>

text \<open>
  The sectors of one cluster for \<open>readFile\<close>: the bytes read so far grow by at most a sector; \<open>None\<close> for a failed transfer,
  together with what was read before it.
\<close>

primrec read_cluster :: "u32 \<Rightarrow> nat \<Rightarrow> nat \<Rightarrow> bytes \<Rightarrow> fatfs \<Rightarrow> bool \<times> bytes" where
  "read_cluster sector 0 bufferSize acc s = (True, acc)"
| "read_cluster sector (Suc n) bufferSize acc s =
    (if length acc < bufferSize then
       case readSector sector s of
         None \<Rightarrow> (False, acc)
       | Some d \<Rightarrow> read_cluster (sector + 1) n bufferSize (acc @ take (min (bufferSize - length acc) (bps s)) d) s
     else (True, acc))"

partial_function (option) read_chain :: "u32 \<Rightarrow> nat \<Rightarrow> bytes \<Rightarrow> fatfs \<Rightarrow> bytes option" where
  [code]: "read_chain cluster bufferSize acc s =
    (if length acc < bufferSize then
       let (ok, acc1) = read_cluster (first_sector cluster s) (spc s) bufferSize acc s
       in if \<not> ok \<or> length acc1 \<ge> bufferSize then Some acc1
          else
            let nextCluster = readFatEntry cluster s
            in if nextCluster \<ge> 0x0FFFFFF8 \<or> nextCluster = 0x0FFFFFF7 then Some acc1
               else read_chain nextCluster bufferSize acc1 s
     else Some acc)"

text \<open>The part of the buffer that \<open>readFile\<close> fills; the rest keeps its contents.\<close>

definition readFile :: "u32 \<Rightarrow> nat \<Rightarrow> fatfs \<Rightarrow> bytes option" where
  "readFile startCluster bufferSize s =
    (if spc s = 0 \<or> bps s = 0 then Some [] else read_chain startCluster bufferSize [] s)"

text \<open>
  For \<open>writeFile\<close> the data is memory read through a pointer: \<open>data i\<close> is the byte at offset \<open>i\<close>. Whole
  sectors are transferred, so up to a sector less one byte beyond \<open>dataSize\<close> is read and written too.
\<close>

definition data_block :: "(nat \<Rightarrow> u8) \<Rightarrow> nat \<Rightarrow> nat \<Rightarrow> bytes" where
  "data_block data k n = map data [k..<k + n]"

primrec write_cluster :: "u32 \<Rightarrow> nat \<Rightarrow> (nat \<Rightarrow> u8) \<Rightarrow> nat \<Rightarrow> nat \<Rightarrow> fatfs \<Rightarrow> bool \<times> nat \<times> fatfs" where
  "write_cluster sector 0 data dataSize written s = (True, written, s)"
| "write_cluster sector (Suc n) data dataSize written s =
    (if written < dataSize then
       let (ok, s1) = diskWrite sector (data_block data written (512 * units (bps s))) (bps s) s
       in if \<not> ok then (False, written, s1)
          else write_cluster (sector + 1) n data dataSize (written + bps s) s1
     else (True, written, s))"

text \<open>The outer loop; the result is the cluster to be marked as the last one, or \<open>Inl\<close> for the result false.\<close>

partial_function (option) write_chain ::
    "u32 \<Rightarrow> (nat \<Rightarrow> u8) \<Rightarrow> nat \<Rightarrow> nat \<Rightarrow> fatfs \<Rightarrow> ((unit + u32) \<times> fatfs) option" where
  [code]: "write_chain cluster data dataSize written s =
    (if written < dataSize then
       let (ok, written1, s1) = write_cluster (first_sector cluster s) (spc s) data dataSize written s
       in if \<not> ok then Some (Inl (), s1)
          else
            let nextCluster = readFatEntry cluster s1
            in if nextCluster \<ge> 0x0FFFFFF8 then
                 if written1 < dataSize then
                   let (newCluster, s2) = allocateCluster s1
                   in if newCluster = 0 then Some (Inl (), s2)
                      else
                        let (ok, s3) = updateFatEntry cluster newCluster s2
                        in if \<not> ok then Some (Inl (), s3) else write_chain newCluster data dataSize written1 s3
                 else Some (Inr cluster, s1)
               else if nextCluster = 0x0FFFFFF7 then Some (Inl (), s1)
               else write_chain nextCluster data dataSize written1 s1
     else Some (Inr cluster, s))"

definition writeFile :: "u32 \<Rightarrow> (nat \<Rightarrow> u8) \<Rightarrow> nat \<Rightarrow> fatfs \<Rightarrow> (bool \<times> fatfs) option" where
  "writeFile startCluster data dataSize s =
    (if spc s = 0 \<or> bps s = 0 then Some (False, s)
     else do {
       (r, s1) \<leftarrow> write_chain startCluster data dataSize 0 s;
       Some (case r of Inl _ \<Rightarrow> (False, s1) | Inr last_cluster \<Rightarrow> updateFatEntry last_cluster 0x0FFFFFF8 s1)
     })"

end
