(* ===== verification/Fat_Directory.thy ===== *)
theory Fat_Directory
  imports Fat_Table
begin

text \<open>
  The FAT32 driver, \<open>fs/fat32.cpp\<close>, second part: directories, path lookup, and the operations on files and
  directories by name. Names and paths are byte lists without their terminator. Every loop over the cluster chain
  of a directory is an instance of \<open>walk_directory\<close>, whose result is \<open>None\<close> when the chain is cyclic and the
  loop never ends. The fixed buffers of \<open>MAX_PATH\<close> bytes for parts of a path are taken to be long enough.
\<close>

section \<open>The stack of directories\<close>

definition fat_construct :: "fatfs \<Rightarrow> fatfs" where
  "fat_construct s = s\<lparr>m_currentPath := [47], m_currentDirName := [47], m_currentDirectoryCluster := 2,
     m_dirStack := [\<lparr>ds_name = [47], ds_path = [47], ds_cluster = ROOT_CLUSTER\<rparr>]\<rparr>"

definition push_directory :: "bytes \<Rightarrow> bytes \<Rightarrow> u32 \<Rightarrow> fatfs \<Rightarrow> bool \<times> fatfs" where
  "push_directory name path cluster s =
    (if length (m_dirStack s) \<ge> MAX_DIR_STACK then (False, s)
     else (True, s\<lparr>m_dirStack := m_dirStack s @
            [\<lparr>ds_name = clip_path name, ds_path = clip_path path, ds_cluster = cluster\<rparr>]\<rparr>))"

definition pop_directory :: "fatfs \<Rightarrow> bool \<times> fatfs" where
  "pop_directory s =
    (if length (m_dirStack s) \<le> 1 then (False, s)
     else
       let st = butlast (m_dirStack s); e = last st
       in (True, s\<lparr>m_dirStack := st, m_currentPath := clip_path (ds_path e),
             m_currentDirName := clip_path (ds_name e), m_currentDirectoryCluster := ds_cluster e\<rparr>))"

definition get_current_dir_entry :: "fatfs \<Rightarrow> dir_stack_entry option" where
  "get_current_dir_entry s = (if m_dirStack s = [] then None else Some (last (m_dirStack s)))"

definition get_parent_dir_entry :: "fatfs \<Rightarrow> dir_stack_entry option" where
  "get_parent_dir_entry s =
    (if length (m_dirStack s) \<le> 1 then None else Some (m_dirStack s ! (length (m_dirStack s) - 2)))"

definition set_current_path :: "bytes option \<Rightarrow> fatfs \<Rightarrow> fatfs" where
  "set_current_path path s = s\<lparr>m_currentPath := (case path of None \<Rightarrow> [47] | Some p \<Rightarrow> clip_path p)\<rparr>"

definition set_current_dir_name :: "bytes option \<Rightarrow> fatfs \<Rightarrow> fatfs" where
  "set_current_dir_name name s = s\<lparr>m_currentDirName := (case name of None \<Rightarrow> [47] | Some p \<Rightarrow> clip_path p)\<rparr>"

definition set_current_directory_cluster :: "u32 \<Rightarrow> fatfs \<Rightarrow> fatfs" where
  "set_current_directory_cluster cluster s = s\<lparr>m_currentDirectoryCluster := cluster\<rparr>"

section \<open>Directory entries\<close>

text \<open>The name in a directory entry: eleven bytes, trailing blanks removed, up to the first zero byte.\<close>

definition entry_name :: "bytes \<Rightarrow> bytes" where
  "entry_name entry = takeWhile (\<lambda>c. c \<noteq> 0) (rev (dropWhile (\<lambda>c. c = 32) (rev (take 11 entry))))"

text \<open>The loop over the entries of a sector: the offset of the first live short entry with the name.\<close>

function match_entry :: "nat \<Rightarrow> bytes \<Rightarrow> bytes \<Rightarrow> nat \<Rightarrow> nat option" where
  "match_entry sz name sectorData j =
    (if j < sz then
       if get_byte sectorData j = 0 then None
       else if get_byte sectorData j = 0xE5 then match_entry sz name sectorData (j + 32)
       else if get_byte sectorData (j + 11) = 0x0F then match_entry sz name sectorData (j + 32)
       else if entry_name (drop j sectorData) = name then Some j
       else match_entry sz name sectorData (j + 32)
     else None)"
  by pat_completeness auto
termination by (relation "measure (\<lambda>(sz, name, d, j). sz - j)") auto

text \<open>
  The loops over the sectors of a cluster and over the clusters of a chain. A visitor may return from the
  function with a result; a failed read or a bad cluster returns \<open>fail\<close>, the end of the chain \<open>eoc\<close>.
\<close>

type_synonym 'r visitor = "u32 \<Rightarrow> bytes \<Rightarrow> fatfs \<Rightarrow> ('r option \<times> fatfs) option"

primrec walk_sectors :: "'r visitor \<Rightarrow> 'r \<Rightarrow> u32 \<Rightarrow> nat \<Rightarrow> fatfs \<Rightarrow> ('r option \<times> fatfs) option" where
  "walk_sectors visit fail sector 0 s = Some (None, s)"
| "walk_sectors visit fail sector (Suc n) s =
    (case readSector sector s of
       None \<Rightarrow> Some (Some fail, s)
     | Some sectorData \<Rightarrow> do {
         (r, s1) \<leftarrow> visit sector sectorData s;
         case r of Some x \<Rightarrow> Some (Some x, s1) | None \<Rightarrow> walk_sectors visit fail (sector + 1) n s1
       })"

partial_function (option) walk_directory :: "'r visitor \<Rightarrow> 'r \<Rightarrow> 'r \<Rightarrow> u32 \<Rightarrow> fatfs \<Rightarrow> ('r \<times> fatfs) option" where
  [code]: "walk_directory visit fail eoc currentCluster s =
    do {
      (r, s1) \<leftarrow> walk_sectors visit fail (first_sector currentCluster s) (spc s) s;
      case r of
        Some x \<Rightarrow> Some (x, s1)
      | None \<Rightarrow>
          let nextCluster = readFatEntry currentCluster s1
          in if nextCluster \<ge> 0x0FFFFFF8 then Some (eoc, s1)
             else if nextCluster = 0x0FFFFFF7 then Some (fail, s1)
             else walk_directory visit fail eoc nextCluster s1
    }"

text \<open>A visitor that changes the entry with a name, writes the sector back and then goes on or returns.\<close>

definition edit_entry :: "bytes \<Rightarrow> (nat \<Rightarrow> bytes \<Rightarrow> bytes) \<Rightarrow> bool option \<Rightarrow> bool visitor" where
  "edit_entry name edit after sector sectorData s =
    (case match_entry (bps s) name sectorData 0 of
       None \<Rightarrow> Some (None, s)
     | Some j \<Rightarrow>
         let (ok, s1) = diskWrite sector (edit j sectorData) (bps s) s
         in Some (if \<not> ok then Some False else after, s1))"

definition mark_deleted :: "nat \<Rightarrow> bytes \<Rightarrow> bytes" where
  "mark_deleted j sectorData = put_bytes j [0xE5] sectorData"

section \<open>Lookup\<close>

type_synonym file_info = "u32 \<times> u32 \<times> u8"

definition entry_info :: "bytes \<Rightarrow> nat \<Rightarrow> file_info" where
  "entry_info sectorData j = (ucast (get_le16 sectorData (j + 26)), get_le32 sectorData (j + 28), get_byte sectorData (j + 11))"

definition findFileInDirectory :: "u32 \<Rightarrow> bytes \<Rightarrow> fatfs \<Rightarrow> file_info option option" where
  "findFileInDirectory dirCluster name s =
     map_option fst (walk_directory
       (\<lambda>sector sectorData s'. Some (map_option (\<lambda>j. Some (entry_info sectorData j)) (match_entry (bps s') name sectorData 0), s'))
       None None dirCluster s)"

text \<open>The text before and after the first and the last slash.\<close>

definition first_slash :: "bytes \<Rightarrow> (bytes \<times> bytes) option" where
  "first_slash p = (if 47 \<in> set p then Some (takeWhile (\<lambda>c. c \<noteq> 47) p, tl (dropWhile (\<lambda>c. c \<noteq> 47) p)) else None)"

definition last_slash :: "bytes \<Rightarrow> (bytes \<times> bytes) option" where
  "last_slash p = map_option (\<lambda>(a, b). (rev b, rev a)) (first_slash (rev p))"

lemma first_slash_shorter [termination_simp]:
  assumes "first_slash p = Some (d, rest)"
  shows "length rest < length p"
proof -
  let ?t = "dropWhile (\<lambda>c. c \<noteq> 47) p"
  have m: "47 \<in> set p" and r: "rest = tl ?t" using assms by (auto simp: first_slash_def split: if_splits)
  from m have "?t \<noteq> []" by auto
  then have "length rest < length ?t" using r by simp
  also have "\<dots> \<le> length p" by (rule length_dropWhile_le)
  finally show ?thesis .
qed

fun findFileFrom :: "bytes \<Rightarrow> u32 \<Rightarrow> fatfs \<Rightarrow> file_info option option" where
  "findFileFrom name searchCluster s =
    (if name = [] then Some (Some (searchCluster, 0, 0x10))
     else case first_slash name of
       Some (dirname, rest) \<Rightarrow> do {
         r \<leftarrow> findFileInDirectory searchCluster dirname s;
         case r of
           None \<Rightarrow> Some None
         | Some (dirCluster, dirSize, dirAttrs) \<Rightarrow>
             if dirAttrs AND 0x10 = 0 then Some None
             else if rest \<noteq> [] then findFileFrom rest dirCluster s
             else Some (Some (dirCluster, dirSize, dirAttrs))
       }
     | None \<Rightarrow> findFileInDirectory searchCluster name s)"

definition root_or_current :: "bytes \<Rightarrow> fatfs \<Rightarrow> u32 \<times> bytes" where
  "root_or_current name s =
    (if name \<noteq> [] \<and> hd name = 47 then (ROOT_CLUSTER, tl name) else (m_currentDirectoryCluster s, name))"

definition findFile :: "bytes \<Rightarrow> fatfs \<Rightarrow> file_info option option" where
  "findFile name s =
    (let (searchCluster, name1) = root_or_current name s
     in if name1 = [] then Some (Some (searchCluster, 0, 0x10))
        else case first_slash name1 of
          Some (dirname, rest) \<Rightarrow> do {
            r \<leftarrow> findFileInDirectory searchCluster dirname s;
            case r of
              None \<Rightarrow> Some None
            | Some (dirCluster, dirSize, dirAttrs) \<Rightarrow>
                if dirAttrs AND 0x10 = 0 then Some None
                else if rest \<noteq> [] then findFileFrom rest dirCluster s
                else Some (Some (dirCluster, dirSize, dirAttrs))
          }
        | None \<Rightarrow> findFileInDirectory searchCluster name1 s)"

text \<open>
  The directory and the last name of a path, as \<open>deleteFile\<close>, \<open>deleteDirectory\<close>, \<open>renameFile\<close>, \<open>updateFileSize\<close> and
  \<open>deleteDirectoryRecursive\<close> compute it: the part before the last slash is looked up without the leading slash,
  hence from the current directory.
\<close>

definition parent_of :: "bytes \<Rightarrow> fatfs \<Rightarrow> (u32 \<times> bytes) option option" where
  "parent_of name s =
    (let (directoryCluster, fileName) = root_or_current name s
     in case last_slash fileName of
          None \<Rightarrow> Some (Some (directoryCluster, fileName))
        | Some (dirPath, base) \<Rightarrow> do {
            r \<leftarrow> findFile dirPath s;
            Some (case r of
                    None \<Rightarrow> None
                  | Some (tempCluster, _, tempAttributes) \<Rightarrow>
                      if tempAttributes AND 0x10 = 0 then None else Some (tempCluster, base))
          })"

section \<open>New entries\<close>

definition free_entry :: "nat \<Rightarrow> bytes \<Rightarrow> nat option" where
  "free_entry sz sectorData =
     find (\<lambda>j. get_byte sectorData j = 0 \<or> get_byte sectorData j = 0xE5) (map (\<lambda>i. i * 32) [0..<(sz + 31) div 32])"

definition findFreeDirectoryEntry :: "u32 \<Rightarrow> fatfs \<Rightarrow> nat option option" where
  "findFreeDirectoryEntry cluster s =
     map_option fst (walk_directory
       (\<lambda>sector sectorData s'. Some (map_option Some (free_entry (bps s') sectorData), s')) None None cluster s)"

definition short_name :: "bytes \<Rightarrow> bytes" where
  "short_name name = take 11 (name @ replicate 11 0)"

definition calculateShortNameChecksum :: "bytes \<Rightarrow> u8" where
  "calculateShortNameChecksum shortName =
     foldl (\<lambda>sum c. (if sum AND 1 \<noteq> 0 then 0x80 else 0) + drop_bit 1 sum + c) 0 (take 11 shortName)"

definition writeDirectoryEntry :: "u32 \<Rightarrow> bytes \<Rightarrow> u8 \<Rightarrow> u32 \<Rightarrow> u32 \<Rightarrow> fatfs \<Rightarrow> (bool \<times> fatfs) option" where
  "writeDirectoryEntry cluster name attributes fileCluster fileSize s =
    do {
      r \<leftarrow> findFreeDirectoryEntry cluster s;
      Some (case r of
        None \<Rightarrow> (False, s)
      | Some entryIndex \<Rightarrow>
          let sector = first_sector cluster s
          in case readSector sector s of
               None \<Rightarrow> (False, s)
             | Some sectorData \<Rightarrow>
                 diskWrite sector
                   (put_bytes entryIndex (dir_entry (short_name name) attributes fileCluster fileSize) sectorData) (bps s) s)
    }"

definition lfn_chars :: "bytes \<Rightarrow> nat \<Rightarrow> nat \<Rightarrow> bytes" where
  "lfn_chars longName k n = concat (map (\<lambda>i. [if i < length longName then longName ! i else 0, 0]) [k..<k + n])"

definition lfn_entry :: "bytes \<Rightarrow> u8 \<Rightarrow> nat \<Rightarrow> nat \<Rightarrow> bytes" where
  "lfn_entry longName checksum numEntries i =
     [if i = numEntries - 1 then 0x40 OR of_nat (i + 1) else of_nat (i + 1)] @ lfn_chars longName (i * 13) 5 @
     [0x0F, 0, checksum] @ lfn_chars longName (i * 13 + 5) 6 @ [0, 0] @ lfn_chars longName (i * 13 + 11) 2"

primrec lfn_loop :: "bytes \<Rightarrow> u8 \<Rightarrow> nat \<Rightarrow> nat \<Rightarrow> nat \<Rightarrow> nat \<Rightarrow> u32 \<Rightarrow> bytes \<Rightarrow> fatfs \<Rightarrow> (u32 \<times> bytes) option" where
  "lfn_loop longName checksum numEntries entryIndex i 0 sector sectorData s = Some (sector, sectorData)"
| "lfn_loop longName checksum numEntries entryIndex i (Suc n) sector sectorData s =
    (let off = int entryIndex - int ((numEntries - 1 - i) * 32)
     in if off < 0 \<or> off \<ge> int (bps s) then
          case readSector (sector + 1) s of
            None \<Rightarrow> None
          | Some d \<Rightarrow> lfn_loop longName checksum numEntries entryIndex (Suc i) n (sector + 1)
                        (put_bytes 0 (lfn_entry longName checksum numEntries i) d) s
        else lfn_loop longName checksum numEntries entryIndex (Suc i) n sector
               (put_bytes (nat off) (lfn_entry longName checksum numEntries i) sectorData) s)"

definition writeLFNEntries :: "u32 \<Rightarrow> bytes \<Rightarrow> u8 \<Rightarrow> fatfs \<Rightarrow> (bool \<times> fatfs) option" where
  "writeLFNEntries cluster longName checksum s =
    (let numEntries = (length longName + 12) div 13
     in if numEntries > 20 then Some (False, s)
        else do {
          r \<leftarrow> findFreeDirectoryEntry cluster s;
          Some (case r of
            None \<Rightarrow> (False, s)
          | Some entryIndex \<Rightarrow>
              let sector = first_sector cluster s
              in case readSector sector s of
                   None \<Rightarrow> (False, s)
                 | Some sectorData \<Rightarrow>
                     (case lfn_loop longName checksum numEntries entryIndex 0 numEntries sector sectorData s of
                        None \<Rightarrow> (False, s)
                      | Some (sector1, sectorData1) \<Rightarrow> diskWrite sector1 sectorData1 (bps s) s))
        })"

definition validateFileName :: "bytes \<Rightarrow> bool" where
  "validateFileName name \<longleftrightarrow>
     name \<noteq> [] \<and> length name \<le> 255 \<and> (\<forall>c \<in> set name. c \<notin> set [60, 62, 58, 34, 47, 92, 124, 63, 42])"

fun is_dot_entry :: "bytes \<Rightarrow> bool" where
  "is_dot_entry entry \<longleftrightarrow>
     takeWhile (\<lambda>c. c \<noteq> 0) (take 11 entry) = [46] \<or> takeWhile (\<lambda>c. c \<noteq> 0) (take 11 entry) = [46, 46]"

function empty_scan :: "nat \<Rightarrow> bytes \<Rightarrow> nat \<Rightarrow> bool option" where
  "empty_scan sz sectorData j =
    (if j < sz then
       if get_byte sectorData j = 0 then Some True
       else if get_byte sectorData j = 0xE5 then empty_scan sz sectorData (j + 32)
       else if \<not> is_dot_entry (drop j sectorData) then Some False
       else empty_scan sz sectorData (j + 32)
     else None)"
  by pat_completeness auto
termination by (relation "measure (\<lambda>(sz, d, j). sz - j)") auto

definition isDirectoryEmpty :: "u32 \<Rightarrow> fatfs \<Rightarrow> bool option" where
  "isDirectoryEmpty cluster s =
     map_option fst (walk_directory (\<lambda>sector sectorData s'. Some (empty_scan (bps s') sectorData 0, s')) False True cluster s)"

function clear_entries :: "nat \<Rightarrow> nat \<Rightarrow> bytes \<Rightarrow> bytes" where
  "clear_entries sz j sectorData =
    (if j < sz then
       if get_byte sectorData j = 0 then sectorData
       else if \<not> is_dot_entry (drop j sectorData) then clear_entries sz (j + 32) (mark_deleted j sectorData)
       else clear_entries sz (j + 32) sectorData
     else sectorData)"
  by pat_completeness auto
termination by (relation "measure (\<lambda>(sz, j, d). sz - j)") auto

definition clearDirectory :: "u32 \<Rightarrow> fatfs \<Rightarrow> fatfs" where
  "clearDirectory cluster s =
    (case readSector (first_sector cluster s) s of
       None \<Rightarrow> s
     | Some sectorData \<Rightarrow> snd (diskWrite (first_sector cluster s) (clear_entries (bps s) 0 sectorData) (bps s) s))"

section \<open>Creating files and directories\<close>

text \<open>The part the two operations share; the result is the new cluster, or 0 after a failure.\<close>

definition create_entry :: "u32 \<Rightarrow> bytes \<Rightarrow> u8 \<Rightarrow> fatfs \<Rightarrow> (u32 \<times> fatfs) option" where
  "create_entry parentCluster name attributes s =
    do {
      existing \<leftarrow> findFileInDirectory parentCluster name s;
      if existing \<noteq> None then Some (0, s)
      else
        let (cluster, s1) = allocateCluster s
        in if cluster = 0 then Some (0, s1)
           else do {
             (ok, s2) \<leftarrow> (if length name > 11
                then writeLFNEntries parentCluster name (calculateShortNameChecksum (short_name name)) s1
                else Some (True, s1));
             if \<not> ok then Some (0, freeCluster cluster s2)
             else do {
               (ok, s3) \<leftarrow> writeDirectoryEntry parentCluster (take 11 name) attributes cluster 0 s2;
               Some (if ok then (cluster, s3) else (0, freeCluster cluster s3))
             }
           }
    }"

definition createFile :: "bytes \<Rightarrow> u8 \<Rightarrow> fatfs \<Rightarrow> (bool \<times> fatfs) option" where
  "createFile name attributes s =
    (if \<not> validateFileName name then Some (False, s)
     else
       let (parentCluster, name1) = root_or_current name s
       in if name1 = [] then Some (False, s)
          else do {
            (cluster, s1) \<leftarrow> create_entry parentCluster name1 attributes s;
            Some (cluster \<noteq> 0, s1)
          })"

definition createDirectory :: "bytes \<Rightarrow> fatfs \<Rightarrow> (bool \<times> fatfs) option" where
  "createDirectory name s =
    (if \<not> validateFileName name then Some (False, s)
     else
       let (parentCluster, name1) = root_or_current name s
       in if name1 = [] then Some (False, s)
          else do {
            (cluster, s1) \<leftarrow> create_entry parentCluster name1 0x10 s;
            Some (if cluster = 0 then (False, s1)
                  else diskWrite (first_sector cluster s1)
                    (dir_entry (short_name [46]) 0x10 cluster 0 @ dir_entry (short_name [46, 46]) 0x10 parentCluster 0 @
                     replicate (bps s1 - 64) 0) (bps s1) s1)
          })"

section \<open>Deleting, renaming and resizing\<close>

definition deleteFile :: "bytes \<Rightarrow> fatfs \<Rightarrow> (bool \<times> fatfs) option" where
  "deleteFile name s =
    do {
      found \<leftarrow> findFile name s;
      case found of
        None \<Rightarrow> Some (False, s)
      | Some (cluster, _, attributes) \<Rightarrow>
          if attributes AND 0x10 \<noteq> 0 then Some (False, s)
          else do {
            parent \<leftarrow> parent_of name s;
            case parent of
              None \<Rightarrow> Some (False, s)
            | Some (directoryCluster, fileName) \<Rightarrow> do {
                (ok, s1) \<leftarrow> walk_directory (edit_entry fileName mark_deleted None) False True directoryCluster s;
                if \<not> ok then Some (False, s1)
                else do {
                  s2 \<leftarrow> free_chain cluster s1;
                  Some (True, s2)
                }
              }
          }
    }"

definition deleteDirectory :: "bytes \<Rightarrow> fatfs \<Rightarrow> (bool \<times> fatfs) option" where
  "deleteDirectory name s =
    do {
      found \<leftarrow> findFile name s;
      case found of
        None \<Rightarrow> Some (False, s)
      | Some (cluster, _, attributes) \<Rightarrow>
          if attributes AND 0x10 = 0 then Some (False, s)
          else do {
            is_empty \<leftarrow> isDirectoryEmpty cluster s;
            if \<not> is_empty then Some (False, s)
            else do {
              parent \<leftarrow> parent_of name s;
              case parent of
                None \<Rightarrow> Some (False, s)
              | Some (directoryCluster, dirName) \<Rightarrow> do {
                  (ok, s1) \<leftarrow> walk_directory (edit_entry dirName mark_deleted None) False True directoryCluster s;
                  if \<not> ok then Some (False, s1)
                  else do {
                    s2 \<leftarrow> free_chain cluster s1;
                    Some (True, s2)
                  }
                }
            }
          }
    }"

text \<open>\<open>strncpy\<close> with the length of the new name as its bound: nothing limits it to the eleven bytes of the field.\<close>

definition put_name :: "bytes \<Rightarrow> nat \<Rightarrow> bytes \<Rightarrow> bytes" where
  "put_name name j sectorData = put_bytes j name (put_bytes j (replicate 11 32) sectorData)"

definition rename_target :: "bytes \<Rightarrow> bytes \<Rightarrow> fatfs \<Rightarrow> (u32 \<times> bytes) option option" where
  "rename_target newName sourceFileName s =
    do {
      found \<leftarrow> findFile newName s;
      case found of
        Some (destCluster, _, destAttributes) \<Rightarrow>
          Some (if destAttributes AND 0x10 \<noteq> 0 then Some (destCluster, sourceFileName) else None)
      | None \<Rightarrow> parent_of newName s
    }"

definition renameFile :: "bytes \<Rightarrow> bytes \<Rightarrow> fatfs \<Rightarrow> (bool \<times> fatfs) option" where
  "renameFile oldName newName s =
    (if \<not> validateFileName newName then Some (False, s)
     else do {
       found \<leftarrow> findFile oldName s;
       case found of
         None \<Rightarrow> Some (False, s)
       | Some (sourceCluster, sourceSize, sourceAttributes) \<Rightarrow> do {
           source \<leftarrow> parent_of oldName s;
           case source of
             None \<Rightarrow> Some (False, s)
           | Some (sourceDirectoryCluster, sourceFileName) \<Rightarrow> do {
               dest \<leftarrow> rename_target newName sourceFileName s;
               case dest of
                 None \<Rightarrow> Some (False, s)
               | Some (destDirectoryCluster, destFileName) \<Rightarrow>
                   if sourceDirectoryCluster = destDirectoryCluster \<and> sourceFileName = destFileName then Some (True, s)
                   else if sourceDirectoryCluster = destDirectoryCluster then
                     walk_directory (edit_entry sourceFileName (put_name destFileName) (Some True)) False False
                       sourceDirectoryCluster s
                   else do {
                     (ok, s1) \<leftarrow> writeDirectoryEntry destDirectoryCluster destFileName sourceAttributes sourceCluster sourceSize s;
                     if \<not> ok then Some (False, s1)
                     else walk_directory (edit_entry sourceFileName mark_deleted (Some True)) False False sourceDirectoryCluster s1
                   }
             }
         }
     })"

definition put_size :: "u32 \<Rightarrow> nat \<Rightarrow> bytes \<Rightarrow> bytes" where
  "put_size newSize j sectorData = put_bytes (j + 28) (le32_bytes newSize) sectorData"

definition updateFileSize :: "bytes \<Rightarrow> u32 \<Rightarrow> fatfs \<Rightarrow> (bool \<times> fatfs) option" where
  "updateFileSize filename newSize s =
    do {
      parent \<leftarrow> parent_of filename s;
      case parent of
        None \<Rightarrow> Some (False, s)
      | Some (directoryCluster, fileName) \<Rightarrow>
          walk_directory (edit_entry fileName (put_size newSize) (Some True)) False False directoryCluster s
    }"

section \<open>Removing a directory tree\<close>

text \<open>
  The entries of a sector are removed one by one through the path built by \<open>snprintf\<close>. As \<open>snprintf\<close> copies its format
  and ignores its arguments (\<open>lib.cpp\<close>), that path is the text of the format for every entry.
\<close>

definition entry_path :: bytes where
  "entry_path = take (MAX_PATH - 2) [37, 115, 47, 37, 115]"

function remove_entries ::
    "(bytes \<Rightarrow> fatfs \<Rightarrow> (bool \<times> fatfs) option) \<Rightarrow> nat \<Rightarrow> bytes \<Rightarrow> nat \<Rightarrow> fatfs \<Rightarrow> fatfs option" where
  "remove_entries remove sz sectorData j s =
    (if j < sz then
       if get_byte sectorData j = 0 then Some s
       else if get_byte sectorData j = 0xE5 \<or> get_byte sectorData (j + 11) = 0x0F
       then remove_entries remove sz sectorData (j + 32) s
       else if entry_name (drop j sectorData) \<in> {[46], [46, 46]} then remove_entries remove sz sectorData (j + 32) s
       else do {
         (_, s1) \<leftarrow> (if get_byte sectorData (j + 11) AND 0x10 \<noteq> 0 then remove entry_path s else deleteFile entry_path s);
         remove_entries remove sz sectorData (j + 32) s1
       }
     else Some s)"
  by pat_completeness auto
termination by (relation "measure (\<lambda>(remove, sz, d, j, s). sz - j)") auto

text \<open>The entry of the directory itself goes last; its clusters are released when the entry has been found.\<close>

definition remove_own_entry :: "bytes \<Rightarrow> u32 \<Rightarrow> bool visitor" where
  "remove_own_entry dirName dirCluster sector entryData s =
    (case match_entry (bps s) dirName entryData 0 of
       None \<Rightarrow> Some (None, s)
     | Some j \<Rightarrow>
         let (ok, s1) = diskWrite sector (mark_deleted j entryData) (bps s) s
         in if \<not> ok then Some (Some False, s1)
            else do {
              s2 \<leftarrow> free_chain dirCluster s1;
              Some (Some True, s2)
            })"

text \<open>\<open>depth\<close> bounds the recursion; \<open>None\<close> stands for a recursion deeper than that, or one that never ends.\<close>

primrec deleteDirectoryRecursive :: "nat \<Rightarrow> bytes \<Rightarrow> fatfs \<Rightarrow> (bool \<times> fatfs) option" where
  "deleteDirectoryRecursive 0 name s = None"
| "deleteDirectoryRecursive (Suc depth) name s =
    do {
      found \<leftarrow> findFile name s;
      case found of
        None \<Rightarrow> Some (False, s)
      | Some (dirCluster, _, dirAttributes) \<Rightarrow>
          if dirAttributes AND 0x10 = 0 then Some (False, s)
          else do {
            (ok, s1) \<leftarrow> walk_directory
               (\<lambda>sector sectorData s'. map_option (\<lambda>t. (None, t))
                  (remove_entries (deleteDirectoryRecursive depth) (bps s') sectorData 0 s'))
               False True dirCluster s;
            if \<not> ok then Some (False, s1)
            else do {
              parent \<leftarrow> parent_of name s1;
              case parent of
                None \<Rightarrow> Some (False, s1)
              | Some (directoryCluster, dirName) \<Rightarrow>
                  walk_directory (remove_own_entry dirName dirCluster) False False directoryCluster s1
            }
          }
    }"

section \<open>Files by path\<close>

definition get_dir_name :: "bytes \<Rightarrow> bytes" where
  "get_dir_name path =
    (if path = [] \<or> path = [47] then [47]
     else
       let buffer = clip_path path;
           buffer1 = (if length buffer > 1 \<and> last buffer = 47 then butlast buffer else buffer)
       in case last_slash buffer1 of None \<Rightarrow> buffer1 | Some (_, base) \<Rightarrow> base)"

definition split_path :: "bytes \<Rightarrow> fatfs \<Rightarrow> bytes \<times> bytes" where
  "split_path path s =
    (case last_slash path of
       Some (dir_path, filename) \<Rightarrow> (if dir_path = [] then [47] else dir_path, filename)
     | None \<Rightarrow> (m_currentPath s, path))"

text \<open>The change of directory before the operation; for the root path nothing is changed.\<close>

definition enter_directory :: "bytes \<Rightarrow> fatfs \<Rightarrow> fatfs option option" where
  "enter_directory dir_path s =
    (if dir_path = [47] then Some (Some s)
     else do {
       r \<leftarrow> findFile dir_path s;
       Some (case r of
               None \<Rightarrow> None
             | Some (dir_cluster, _, attrs) \<Rightarrow>
                 if attrs AND 0x10 = 0 then None
                 else Some (set_current_dir_name (Some (get_dir_name dir_path))
                        (set_current_path (Some dir_path) (set_current_directory_cluster dir_cluster s))))
     })"

definition restore_directory :: "fatfs \<Rightarrow> fatfs \<Rightarrow> fatfs" where
  "restore_directory saved s =
     set_current_dir_name (Some (m_currentDirName saved))
       (set_current_path (Some (m_currentPath saved))
          (set_current_directory_cluster (m_currentDirectoryCluster saved) s))"

text \<open>Lookup, write and size update, the common end of the two writing operations.\<close>

definition store_content :: "bytes \<Rightarrow> (nat \<Rightarrow> u8) \<Rightarrow> nat \<Rightarrow> fatfs \<Rightarrow> (bool \<times> fatfs) option" where
  "store_content filename data dataSize s =
    do {
      r \<leftarrow> findFile filename s;
      case r of
        None \<Rightarrow> Some (False, s)
      | Some (file_cluster, _, _) \<Rightarrow> do {
          (ok, s1) \<leftarrow> writeFile file_cluster data dataSize s;
          if \<not> ok then Some (False, s1) else updateFileSize filename (of_nat dataSize) s1
        }
    }"

definition createFileWithContent :: "bytes \<Rightarrow> (nat \<Rightarrow> u8) \<Rightarrow> nat \<Rightarrow> u8 \<Rightarrow> fatfs \<Rightarrow> (bool \<times> fatfs) option" where
  "createFileWithContent path data dataSize attributes s =
    (let (dir_path, filename) = split_path path s
     in do {
       e \<leftarrow> enter_directory dir_path s;
       case e of
         None \<Rightarrow> Some (False, restore_directory s s)
       | Some s1 \<Rightarrow> do {
           (created, s2) \<leftarrow> createFile filename attributes s1;
           (result, s3) \<leftarrow> (if created then store_content filename data dataSize s2 else Some (False, s2));
           Some (result, restore_directory s s3)
         }
     })"

definition writeFileByPath :: "bytes \<Rightarrow> (nat \<Rightarrow> u8) \<Rightarrow> nat \<Rightarrow> fatfs \<Rightarrow> (bool \<times> fatfs) option" where
  "writeFileByPath path data dataSize s =
    (let (dir_path, filename) = split_path path s
     in do {
       e \<leftarrow> enter_directory dir_path s;
       case e of
         None \<Rightarrow> Some (False, restore_directory s s)
       | Some s1 \<Rightarrow> do {
           (result, s2) \<leftarrow> store_content filename data dataSize s1;
           Some (result, restore_directory s s2)
         }
     })"

definition readFileByPath :: "bytes \<Rightarrow> nat \<Rightarrow> fatfs \<Rightarrow> (bool \<times> bytes \<times> fatfs) option" where
  "readFileByPath path bufferSize s =
    (let (dir_path, filename) = split_path path s
     in do {
       e \<leftarrow> enter_directory dir_path s;
       case e of
         None \<Rightarrow> Some (False, [], restore_directory s s)
       | Some s1 \<Rightarrow> do {
           r \<leftarrow> findFile filename s1;
           case r of
             None \<Rightarrow> Some (False, [], restore_directory s s1)
           | Some (file_cluster, _, _) \<Rightarrow> do {
               buffer \<leftarrow> readFile file_cluster bufferSize s1;
               Some (True, buffer, restore_directory s s1)
             }
         }
     })"

section \<open>Listings\<close>

text \<open>
  The three diagnostic functions print a short name and a long name for each entry; here they return those pairs.
  Long names are collected in the order of the entries, as the code does.
\<close>

definition lfn_part :: "bytes \<Rightarrow> bytes" where
  "lfn_part entry = map (get_byte entry) [1, 3, 5, 7, 9, 14, 16, 18, 20, 22, 24, 28, 30]"

definition c_string :: "bytes \<Rightarrow> bytes" where
  "c_string = takeWhile (\<lambda>c. c \<noteq> 0)"

function list_entries :: "nat \<Rightarrow> bytes \<Rightarrow> nat \<Rightarrow> bytes \<Rightarrow> (bytes \<times> bytes) list \<times> bytes" where
  "list_entries sz d i longFileName =
    (if i < sz then
       if get_byte d i = 0 then ([], longFileName)
       else if get_byte d i = 0xE5 then list_entries sz d (i + 32) longFileName
       else if get_byte d (i + 11) = 0x0F then list_entries sz d (i + 32) (longFileName @ lfn_part (drop i d))
       else
         let (rest, l) = list_entries sz d (i + 32) []
         in ((c_string (take 11 (drop i d)), c_string longFileName) # rest, l)
     else ([], longFileName))"
  by pat_completeness auto
termination by (relation "measure (\<lambda>(sz, d, i, l). sz - i)") auto

definition parseDirectoryEntries :: "bytes \<Rightarrow> fatfs \<Rightarrow> (bytes \<times> bytes) list" where
  "parseDirectoryEntries sectorData s = fst (list_entries (bps s) sectorData 0 [])"

primrec load_cluster :: "u32 \<Rightarrow> nat \<Rightarrow> fatfs \<Rightarrow> bytes option" where
  "load_cluster sector 0 s = Some []"
| "load_cluster sector (Suc n) s =
    do {
      d \<leftarrow> readSector sector s;
      rest \<leftarrow> load_cluster (sector + 1) n s;
      Some (take (bps s) d @ rest)
    }"

partial_function (option) list_chain :: "u32 \<Rightarrow> bytes \<Rightarrow> (bytes \<times> bytes) list \<Rightarrow> fatfs \<Rightarrow> (bytes \<times> bytes) list option" where
  [code]: "list_chain currentCluster longFileName acc s =
    (case load_cluster (first_sector currentCluster s) (spc s) s of
       None \<Rightarrow> Some acc
     | Some clusterData \<Rightarrow>
         let (found, lfn) = list_entries (bps s * spc s) clusterData 0 longFileName;
             nextCluster = readFatEntry currentCluster s
         in if nextCluster \<ge> 0x0FFFFFF8 \<or> nextCluster = 0x0FFFFFF7 then Some (acc @ found)
            else list_chain nextCluster lfn (acc @ found) s)"

definition readDirectoryEntry :: "u32 \<Rightarrow> fatfs \<Rightarrow> (bytes \<times> bytes) list option" where
  "readDirectoryEntry startCluster s = list_chain startCluster [] [] s"

partial_function (option) follow_chain :: "u32 \<Rightarrow> (bytes \<times> bytes) list \<Rightarrow> fatfs \<Rightarrow> (bytes \<times> bytes) list option" where
  [code]: "follow_chain currentCluster acc s =
    (let nextCluster = readFatEntry currentCluster s
     in if nextCluster \<ge> 0x0FFFFFF8 \<or> nextCluster = 0x0FFFFFF7 then Some acc
        else case load_cluster (first_sector currentCluster s) (spc s) s of
               None \<Rightarrow> Some acc
             | Some clusterData \<Rightarrow> follow_chain nextCluster (acc @ parseDirectoryEntries clusterData s) s)"

definition followClusterChain :: "u32 \<Rightarrow> fatfs \<Rightarrow> (bytes \<times> bytes) list option" where
  "followClusterChain startCluster s = follow_chain startCluster [] s"

end
