(* ===== verification/Elf_Loader.thy ===== *)
theory Elf_Loader
  imports Process_Manager Fat_Directory Klib
begin

text \<open>
  Loading programs: \<open>core/elf.cpp\<close>, \<open>core/dynamic_linker.cpp\<close> and \<open>ProcessManager::load_program\<close>.

  An ELF image is read where the code reads it, in memory: the structures of \<open>elf.hpp\<close> are records with a reader that takes
  the memory and the address of the structure, so that a segment copied over the image changes what is read afterwards. Data memory is
  the byte memory of \<open>Klib\<close>, addressed by virtual addresses; the page tables are the state of
  \<open>Virtual_Memory\<close>. Names printed on the console are returned as the addresses of their strings.
\<close>

section \<open>Structures\<close>

definition get16 :: "mem \<Rightarrow> u64 \<Rightarrow> u16" where
  "get16 m a = ucast (m a) OR push_bit 8 (ucast (m (a + 1)))"

definition get32 :: "mem \<Rightarrow> u64 \<Rightarrow> u32" where
  "get32 m a = ucast (get16 m a) OR push_bit 16 (ucast (get16 m (a + 2)))"

definition get64 :: "mem \<Rightarrow> u64 \<Rightarrow> u64" where
  "get64 m a = ucast (get32 m a) OR push_bit 32 (ucast (get32 m (a + 4)))"

record elf64_ehdr =
  e_ident :: bytes
  e_type :: u16
  e_entry :: u64
  e_phoff :: u64
  e_shoff :: u64
  e_phnum :: u16
  e_shnum :: u16
  e_shstrndx :: u16

definition ehdr_at :: "mem \<Rightarrow> u64 \<Rightarrow> elf64_ehdr" where
  "ehdr_at m a = \<lparr>e_ident = map (\<lambda>i. m (a + of_nat i)) [0..<16], e_type = get16 m (a + 16), e_entry = get64 m (a + 24),
     e_phoff = get64 m (a + 32), e_shoff = get64 m (a + 40), e_phnum = get16 m (a + 56), e_shnum = get16 m (a + 60),
     e_shstrndx = get16 m (a + 62)\<rparr>"

record elf64_phdr =
  p_type :: u32
  p_flags :: u32
  p_offset :: u64
  p_vaddr :: u64
  p_filesz :: u64
  p_memsz :: u64

definition phdr_at :: "mem \<Rightarrow> u64 \<Rightarrow> elf64_phdr" where
  "phdr_at m a = \<lparr>p_type = get32 m a, p_flags = get32 m (a + 4), p_offset = get64 m (a + 8), p_vaddr = get64 m (a + 16),
     p_filesz = get64 m (a + 32), p_memsz = get64 m (a + 40)\<rparr>"

record elf64_shdr =
  sh_name :: u32
  sh_type :: u32
  sh_addr :: u64
  sh_offset :: u64
  sh_size :: u64

definition shdr_at :: "mem \<Rightarrow> u64 \<Rightarrow> elf64_shdr" where
  "shdr_at m a = \<lparr>sh_name = get32 m a, sh_type = get32 m (a + 4), sh_addr = get64 m (a + 16), sh_offset = get64 m (a + 24),
     sh_size = get64 m (a + 32)\<rparr>"

definition PT_LOAD :: u32 where "PT_LOAD = 1"
definition PF_X :: u32 where "PF_X = 1"
definition PF_W :: u32 where "PF_W = 2"
definition SHT_STRTAB :: u32 where "SHT_STRTAB = 3"
definition SHT_DYNAMIC :: u32 where "SHT_DYNAMIC = 6"
definition SHT_DYNSYM :: u32 where "SHT_DYNSYM = 11"
definition R_X86_64_JUMP_SLOT :: u64 where "R_X86_64_JUMP_SLOT = 7"

text \<open>The macros \<^verbatim>\<open>ELF64_R_SYM\<close> and \<^verbatim>\<open>ELF64_R_TYPE\<close>.\<close>

definition r_sym :: "u64 \<Rightarrow> u64" where "r_sym info = drop_bit 32 info"
definition r_type :: "u64 \<Rightarrow> u64" where "r_type info = info AND 0xFFFFFFFF"

section \<open>Sections\<close>

definition section_addr :: "mem \<Rightarrow> u64 \<Rightarrow> nat \<Rightarrow> u64" where
  "section_addr m header i = header + e_shoff (ehdr_at m header) + of_nat i * 64"

definition find_section_by_type :: "mem \<Rightarrow> u64 \<Rightarrow> u32 \<Rightarrow> elf64_shdr option" where
  "find_section_by_type m header ty =
     find (\<lambda>s. sh_type s = ty) (map (\<lambda>i. shdr_at m (section_addr m header i)) [0..<unat (e_shnum (ehdr_at m header))])"

text \<open>The name to look for is a string literal of the code; \<open>str_eq\<close> is \<open>strcmp\<close> against it.\<close>

fun str_eq :: "mem \<Rightarrow> u64 \<Rightarrow> bytes \<Rightarrow> bool" where
  "str_eq m a [] \<longleftrightarrow> m a = 0"
| "str_eq m a (c # rest) \<longleftrightarrow> m a = c \<and> str_eq m (a + 1) rest"

definition find_section_by_name :: "mem \<Rightarrow> u64 \<Rightarrow> bytes \<Rightarrow> elf64_shdr option" where
  "find_section_by_name m header name =
    (let strtab = header + sh_offset (shdr_at m (section_addr m header (unat (e_shstrndx (ehdr_at m header)))))
     in find (\<lambda>s. str_eq m (strtab + ucast (sh_name s)) name)
          (map (\<lambda>i. shdr_at m (section_addr m header i)) [0..<unat (e_shnum (ehdr_at m header))]))"

section \<open>The loader\<close>

definition validate_elf_header :: "mem \<Rightarrow> u64 \<Rightarrow> bool" where
  "validate_elf_header m header \<longleftrightarrow>
    (let h = ehdr_at m header
     in take 4 (e_ident h) = [0x7F, 0x45, 0x4C, 0x46] \<and> e_ident h ! 4 = 2 \<and> e_ident h ! 5 = 1 \<and>
        (e_type h = 2 \<or> e_type h = 3) \<and> e_shnum h \<noteq> 0)"

text \<open>The page loop of a segment; \<open>None\<close> when the address wraps around and the loop does not end.\<close>

partial_function (option) segment_pages :: "bool \<Rightarrow> u64 \<Rightarrow> u64 \<Rightarrow> vmm \<Rightarrow> (bool \<times> vmm) option" where
  [code]: "segment_pages writable addr vaddr_end v =
    (if addr < vaddr_end then
       let (phys_page, p) = allocate_frame (vm_pmm v);
           v1 = v\<lparr>vm_pmm := p\<rparr>
       in if phys_page = 0 then Some (False, v1)
          else segment_pages writable (addr + 4096) vaddr_end (map_page addr phys_page writable v1)
     else Some (True, v))"

definition segment_start :: "elf64_phdr \<Rightarrow> u64" where
  "segment_start ph = p_vaddr ph AND NOT 0xFFF"

definition segment_end :: "elf64_phdr \<Rightarrow> u64" where
  "segment_end ph = (p_vaddr ph + p_memsz ph + 0xFFF) AND NOT 0xFFF"

text \<open>The copy and the zero fill; the header is read again after the copy.\<close>

definition segment_data :: "u64 \<Rightarrow> u64 \<Rightarrow> mem \<Rightarrow> mem" where
  "segment_data phdr base m =
    (let ph = phdr_at m phdr;
         m1 = memcpy m (p_vaddr ph) (base + p_offset ph) (unat (p_filesz ph));
         ph1 = phdr_at m1 phdr
     in if p_memsz ph1 > p_filesz ph1
        then memset m1 (p_vaddr ph1 + p_filesz ph1) 0 (unat (p_memsz ph1 - p_filesz ph1)) else m1)"

definition map_segment :: "u64 \<Rightarrow> u64 \<Rightarrow> mem \<times> vmm \<Rightarrow> (bool \<times> mem \<times> vmm) option" where
  "map_segment phdr base st =
    (case st of (m, v) \<Rightarrow>
       let ph = phdr_at m phdr
       in if p_type ph \<noteq> PT_LOAD then Some (True, m, v)
          else do {
            (ok, v1) \<leftarrow> segment_pages (p_flags ph AND PF_W \<noteq> 0) (segment_start ph) (segment_end ph) v;
            Some (if \<not> ok then (False, m, v1) else (True, segment_data phdr base m, v1))
          })"

partial_function (option) load_headers_from :: "u64 \<Rightarrow> u64 \<Rightarrow> u64 \<Rightarrow> u16 \<Rightarrow> mem \<times> vmm \<Rightarrow> (bool \<times> mem \<times> vmm) option" where
  [code]: "load_headers_from header base phdr i st =
    (if i < e_phnum (ehdr_at (fst st) header) then do {
       (ok, st1) \<leftarrow> map_segment (phdr + ucast i * 56) base st;
       if \<not> ok then Some (False, st1) else load_headers_from header base phdr (i + 1) st1
     }
     else Some (True, st))"

definition load_program_headers :: "u64 \<Rightarrow> u64 \<Rightarrow> mem \<times> vmm \<Rightarrow> (bool \<times> mem \<times> vmm) option" where
  "load_program_headers header base st =
     load_headers_from header base (base + e_phoff (ehdr_at (fst st) header)) 0 st"

text \<open>\<open>process_relocations\<close> only reports the symbols of the jump slots.\<close>

definition rela_at :: "mem \<Rightarrow> u64 \<Rightarrow> u64 \<times> u64" where
  "rela_at m a = (get64 m a, get64 m (a + 8))"

definition jump_slots :: "mem \<Rightarrow> u64 \<Rightarrow> elf64_shdr \<Rightarrow> (u64 \<times> u64) list" where
  "jump_slots m base rela_plt =
     filter (\<lambda>(off, info). r_type info = R_X86_64_JUMP_SLOT)
       (map (\<lambda>i. rela_at m (base + sh_offset rela_plt + of_nat i * 24)) [0..<unat (sh_size rela_plt) div 24])"

definition symbol_name :: "mem \<Rightarrow> u64 \<Rightarrow> elf64_shdr \<Rightarrow> elf64_shdr \<Rightarrow> u64 \<Rightarrow> u64" where
  "symbol_name m base dynsym dynstr info =
     base + sh_offset dynstr + ucast (get32 m (base + sh_offset dynsym + r_sym info * 24))"

definition RELA_PLT :: bytes where
  "RELA_PLT = [46, 114, 101, 108, 97, 46, 112, 108, 116]"

definition elf_process_relocations :: "mem \<Rightarrow> u64 \<Rightarrow> u64 \<Rightarrow> bool \<times> u64 list" where
  "elf_process_relocations m header base =
    (case find_section_by_name m header RELA_PLT of
       None \<Rightarrow> (True, [])
     | Some rela_plt \<Rightarrow>
         (case find_section_by_type m header SHT_DYNSYM of
            None \<Rightarrow> (False, [])
          | Some dynsym \<Rightarrow>
              (case find_section_by_type m header SHT_STRTAB of
                 None \<Rightarrow> (False, [])
               | Some dynstr \<Rightarrow>
                   (True, map (\<lambda>(off, info). symbol_name m base dynsym dynstr info) (jump_slots m base rela_plt)))))"

text \<open>The loop over the dynamic entries, up to the null tag; the result is the list of the needed libraries.\<close>

partial_function (option) needed_from :: "mem \<Rightarrow> u64 \<Rightarrow> u64 \<Rightarrow> u64 list \<Rightarrow> u64 list option" where
  [code]: "needed_from m strtab entry acc =
    (if get64 m entry = 0 then Some acc
     else needed_from m strtab (entry + 16)
            (if get64 m entry = 1 then acc @ [strtab + get64 m (entry + 8)] else acc))"

definition elf_process_dynamic_section :: "mem \<Rightarrow> u64 \<Rightarrow> u64 \<Rightarrow> (bool \<times> u64 list) option" where
  "elf_process_dynamic_section m header base =
    (case find_section_by_type m header SHT_DYNAMIC of
       None \<Rightarrow> Some (True, [])
     | Some dyn_section \<Rightarrow>
         (case find_section_by_type m header SHT_STRTAB of
            None \<Rightarrow> Some (False, [])
          | Some strtab_section \<Rightarrow> do {
              libs \<leftarrow> needed_from m (base + sh_offset strtab_section) (base + sh_offset dyn_section) [];
              Some (True, libs)
            }))"

definition load_elf :: "u64 \<Rightarrow> mem \<times> vmm \<Rightarrow> (u64 option \<times> mem \<times> vmm) option" where
  "load_elf path st =
    (if \<not> validate_elf_header (fst st) path then Some (None, st)
     else do {
       (ok, st1) \<leftarrow> load_program_headers path path st;
       if \<not> ok then Some (None, st1)
       else do {
         (ok, _) \<leftarrow> elf_process_dynamic_section (fst st1) path path;
         if \<not> ok then Some (None, st1)
         else Some (if fst (elf_process_relocations (fst st1) path path) then Some (e_entry (ehdr_at (fst st1) path)) else None, st1)
       }
     })"

section \<open>Loading a process from a file\<close>

text \<open>The bytes that \<open>readFile\<close> stores into the buffer.\<close>

fun poke :: "mem \<Rightarrow> u64 \<Rightarrow> bytes \<Rightarrow> mem" where
  "poke m a [] = m"
| "poke m a (b # bs) = poke (m(a := b)) (a + 1) bs"

text \<open>A 64-bit store.\<close>

definition put64 :: "mem \<Rightarrow> u64 \<Rightarrow> u64 \<Rightarrow> mem" where
  "put64 m a v = poke m a (map (\<lambda>i. ucast (drop_bit (8 * i) v)) [0..<8])"

text \<open>One segment of \<open>load_program\<close>: pages, data and the region of the process; the flags of the region are read last.\<close>

definition load_segment :: "u64 \<Rightarrow> u64 \<Rightarrow> u64 \<Rightarrow> mem \<times> kernel \<Rightarrow> (bool \<times> mem \<times> kernel) option" where
  "load_segment process phdr base st =
    (case st of (m, k) \<Rightarrow>
       let ph = phdr_at m phdr
       in do {
         (ok, v) \<leftarrow> segment_pages (p_flags ph AND PF_W \<noteq> 0) (segment_start ph) (segment_end ph) (k_vm k);
         if \<not> ok then do {
           k1 \<leftarrow> cleanup_process_memory process (k\<lparr>k_vm := v\<rparr>);
           Some (False, m, k1)
         }
         else
           let m1 = segment_data phdr base m;
               flags = p_flags (phdr_at m1 phdr)
           in Some (True, m1, add_memory_region process (segment_start ph) (segment_end ph - segment_start ph)
                (flags AND PF_W \<noteq> 0) (flags AND PF_X \<noteq> 0) (k\<lparr>k_vm := v\<rparr>))
       })"

partial_function (option) load_segments ::
    "u64 \<Rightarrow> u64 \<Rightarrow> u64 \<Rightarrow> u16 \<Rightarrow> u64 \<Rightarrow> mem \<times> kernel \<Rightarrow> (u64 option \<times> mem \<times> kernel) option" where
  [code]: "load_segments process file_data phdr i highest_addr st =
    (if i < e_phnum (ehdr_at (fst st) file_data) then
       let a = phdr + ucast i * 56; ph = phdr_at (fst st) a
       in if p_type ph \<noteq> PT_LOAD then load_segments process file_data phdr (i + 1) highest_addr st
          else do {
            (ok, st1) \<leftarrow> load_segment process a file_data st;
            if \<not> ok then Some (None, st1)
            else load_segments process file_data phdr (i + 1) (if segment_end ph > highest_addr then segment_end ph else highest_addr) st1
          }
     else Some (Some highest_addr, st))"

text \<open>\<open>file_data\<close> is the address of the buffer obtained with \<open>new\<close>; memory behind the bytes read keeps its contents.\<close>

definition load_program :: "u64 \<Rightarrow> bytes \<Rightarrow> u64 \<Rightarrow> fatfs \<Rightarrow> mem \<times> kernel \<Rightarrow> (bool \<times> mem \<times> kernel) option" where
  "load_program process path file_data fs st =
    do {
      found \<leftarrow> findFile path fs;
      case found of
        None \<Rightarrow> Some (False, st)
      | Some (cluster, sz, attributes) \<Rightarrow>
          if attributes AND 0x10 \<noteq> 0 then Some (False, st)
          else do {
            data \<leftarrow> readFile cluster (unat sz) fs;
            let m = poke (fst st) file_data data
            in if \<not> validate_elf_header m file_data then Some (False, m, snd st)
               else
                 let h = ehdr_at m file_data;
                     k = upd_proc process (\<lambda>p. p\<lparr>p_entry_point := e_entry h\<rparr>) (snd st)
                 in do {
                   (r, m1, k1) \<leftarrow> load_segments process file_data (file_data + e_phoff h) 0 0 (m, k);
                   Some (case r of
                           None \<Rightarrow> (False, m1, k1)
                         | Some highest_addr \<Rightarrow>
                             (True, m1, upd_proc process (\<lambda>p. p\<lparr>p_brk := highest_addr, p_program_break := highest_addr\<rparr>) k1))
                 }
          }
    }"

end
