(* ===== verification/Syscall.thy ===== *)
theory Syscall
  imports Elf_Loader Message_IPC Printf
begin

text \<open>
  The system call layer, \<open>core/syscall.cpp\<close>: the dispatch on the call number and the handlers, composed from the
  process manager, the scheduler, IPC and the program loader.

  The state adds to that of IPC the byte memory the calls read and write through their pointers, the volume
  programs are loaded from, and the characters printed so far. Results are \<^verbatim>\<open>int64_t\<close> values, as 64-bit words;
  arguments narrower than a register are cut as the call does. What the allocator returns is an argument: \<open>obj\<close>
  for the one object a call creates (a process, a queue or the file buffer), \<open>dup\<close> for the copies of the argument strings.
\<close>

record system =
  sys_ipc :: ipc
  sys_mem :: mem
  sys_fs :: fatfs
  console :: bytes

record syscall_context =
  c_rax :: u64
  c_rdi :: u64
  c_rsi :: u64
  c_rdx :: u64
  c_r10 :: u64
  c_r8 :: u64
  c_r9 :: u64

abbreviation sys_kern :: "system \<Rightarrow> kernel" where
  "sys_kern s \<equiv> kern (sys_ipc s)"

definition set_kern :: "kernel \<Rightarrow> system \<Rightarrow> system" where
  "set_kern k s = s\<lparr>sys_ipc := (sys_ipc s)\<lparr>kern := k\<rparr>\<rparr>"

abbreviation current :: "system \<Rightarrow> u64" where
  "current s \<equiv> get_current_process (sys_kern s)"

text \<open>A C string and a null-terminated array of pointers to strings; \<open>None\<close> when there is no terminator.\<close>

partial_function (option) string_at :: "mem \<Rightarrow> u64 \<Rightarrow> bytes option" where
  [code]: "string_at m a = (if m a = 0 then Some [] else do { rest \<leftarrow> string_at m (a + 1); Some (m a # rest) })"

partial_function (option) strings_at :: "mem \<Rightarrow> u64 \<Rightarrow> bytes list option" where
  [code]: "strings_at m a =
    (if get64 m a = 0 then Some []
     else do { str \<leftarrow> string_at m (get64 m a); rest \<leftarrow> strings_at m (a + 8); Some (str # rest) })"

section \<open>Files and memory\<close>

definition sys_read :: "u32 \<Rightarrow> u64 \<Rightarrow> u64 \<Rightarrow> u64" where
  "sys_read fd buf n = - 1"

text \<open>One character through \<^verbatim>\<open>printf("%c", c)\<close>.\<close>

definition print_char :: "u8 \<Rightarrow> bytes option" where
  "print_char c = map_option fst (vprintf (\<lambda>_ _. []) (cstr ''%c'') [Slot (scast c)])"

fun write_chars :: "bytes \<Rightarrow> bytes \<Rightarrow> bytes option" where
  "write_chars out [] = Some out"
| "write_chars out (c # rest) = do { t \<leftarrow> print_char c; write_chars (out @ t) rest }"

definition sys_write :: "u32 \<Rightarrow> u64 \<Rightarrow> u64 \<Rightarrow> system \<Rightarrow> (u64 \<times> system) option" where
  "sys_write fd buf n s =
    (if fd = 1 \<or> fd = 2 then do {
       out \<leftarrow> write_chars (console s) (bytes_at (sys_mem s) buf (unat n));
       Some (n, s\<lparr>console := out\<rparr>)
     }
     else Some (- 1, s))"

definition sys_open :: "u64 \<Rightarrow> u32 \<Rightarrow> u32 \<Rightarrow> u64" where
  "sys_open pathname flags mode = - 1"

definition sys_close :: "u32 \<Rightarrow> u64" where
  "sys_close fd = - 1"

definition sys_mmap :: "u64 \<Rightarrow> u64 \<Rightarrow> u32 \<Rightarrow> u32 \<Rightarrow> u32 \<Rightarrow> u64 \<Rightarrow> u64" where
  "sys_mmap addr len prot flags fd offset = nullptr"

definition sys_munmap :: "u64 \<Rightarrow> u64 \<Rightarrow> u64" where
  "sys_munmap addr len = - 1"

definition sys_brk :: "u64 \<Rightarrow> system \<Rightarrow> u64 \<times> system" where
  "sys_brk addr s =
    (let process = current s
     in if process = nullptr then (- 1, s)
        else if addr = nullptr then (p_brk (procs (sys_kern s) process), s)
        else if addr < p_program_break (procs (sys_kern s) process) then (- 1, s)
        else (addr, set_kern (upd_proc process (\<lambda>p. p\<lparr>p_brk := addr\<rparr>) (sys_kern s)) s))"

section \<open>Processes\<close>

definition sys_exit :: "u32 \<Rightarrow> system \<Rightarrow> system option" where
  "sys_exit cpu s =
    (let process = current s
     in if process \<noteq> nullptr then do {
          let k = set_state process Zombie (sys_kern s);
          k1 \<leftarrow> terminate_process cpu (p_pid (procs k process)) k;
          Some (set_kern k1 s)
        }
        else Some s)"

text \<open>
  The pages of one region: a frame for each, mapped at the same address in the one address space there is,
  and then filled from wherever that address leads. \<open>False\<close> when a frame is missing.
\<close>

partial_function (option) fork_pages :: "bool \<Rightarrow> u64 \<Rightarrow> u64 \<Rightarrow> vmm \<times> mem \<Rightarrow> (bool \<times> vmm \<times> mem) option" where
  [code]: "fork_pages writable addr region_end st =
    (if addr < region_end then
       let (new_phys, p) = allocate_frame (vm_pmm (fst st));
           v1 = (fst st)\<lparr>vm_pmm := p\<rparr>
       in if new_phys = 0 then Some (False, v1, snd st)
          else
            let v2 = map_page addr new_phys writable v1;
                parent_phys = get_physical_address addr v2
            in fork_pages writable (addr + 4096) region_end (v2, memcpy (snd st) new_phys parent_phys 4096)
     else Some (True, st))"

fun fork_regions :: "u64 \<Rightarrow> memory_region list \<Rightarrow> kernel \<times> mem \<Rightarrow> (bool \<times> kernel \<times> mem) option" where
  "fork_regions child [] st = Some (True, st)"
| "fork_regions child (r # rs) st = do {
     (ok, v, m) \<leftarrow> fork_pages (mr_writable r) (mr_start r) (mr_start r + mr_size r) (k_vm (fst st), snd st);
     let k = (fst st)\<lparr>k_vm := v\<rparr>;
     if \<not> ok then Some (False, k, m)
     else fork_regions child rs (add_memory_region child (mr_start r) (mr_size r) (mr_writable r) (mr_executable r) k, m)
   }"

definition inherit :: "u64 \<Rightarrow> u64 \<Rightarrow> pid_t \<Rightarrow> kernel \<Rightarrow> kernel" where
  "inherit parent child child_pid k =
    (let q = procs k parent;
         k1 = upd_proc child (\<lambda>p. p\<lparr>p_brk := p_brk q, p_program_break := p_program_break q, p_entry_point := p_entry_point q,
                p_registers := (p_registers q)\<lparr>rax := 0\<rparr>\<rparr>) k;
         k2 = upd_proc parent (\<lambda>p. p\<lparr>p_registers := (p_registers p)\<lparr>rax := scast child_pid\<rparr>\<rparr>) k1;
         k3 = (case p_argv q of None \<Rightarrow> k2
               | Some args \<Rightarrow> upd_proc child (\<lambda>p. p\<lparr>p_argc := p_argc q, p_argv := Some (take (p_argc q) args)\<rparr>) k2)
     in case p_envp q of None \<Rightarrow> k3 | Some es \<Rightarrow> upd_proc child (\<lambda>p. p\<lparr>p_envp := Some es\<rparr>) k3)"

definition sys_fork :: "u64 \<Rightarrow> u32 \<Rightarrow> system \<Rightarrow> (pid_t \<times> system) option" where
  "sys_fork obj cpu s =
    (let parent = current s
     in if parent = nullptr then Some (- 1, s)
        else do {
          let q = procs (sys_kern s) parent;
          (child_pid, k) \<leftarrow> create_process obj (p_name q) (p_pid q) (sys_kern s);
          child \<leftarrow> get_process child_pid k;
          if child = nullptr then Some (- 1, set_kern k s)
          else do {
            (ok, k1, m) \<leftarrow> fork_regions child (p_memory_regions (procs k parent)) (k, sys_mem s);
            if \<not> ok then do {
              k2 \<leftarrow> terminate_process cpu child_pid k1;
              Some (- 1, set_kern k2 (s\<lparr>sys_mem := m\<rparr>))
            }
            else Some (child_pid, set_kern (inherit parent child child_pid k1) (s\<lparr>sys_mem := m\<rparr>))
          }
        })"

text \<open>The strings of an argument array with the addresses of their copies.\<close>

definition copies :: "(nat \<Rightarrow> u64) \<Rightarrow> nat \<Rightarrow> mem \<Rightarrow> u64 \<Rightarrow> (bytes \<times> u64) list option option" where
  "copies dup n m a =
    (if a = nullptr then Some None
     else do { strs \<leftarrow> strings_at m a; Some (Some (zip strs (map dup [n..<n + length strs]))) })"

definition store_words :: "(u64 \<times> u64) list \<Rightarrow> mem \<Rightarrow> mem" where
  "store_words ws m = fold (\<lambda>(a, v) m. put64 m a v) ws m"

definition sys_execve :: "u64 \<Rightarrow> (nat \<Rightarrow> u64) \<Rightarrow> u32 \<Rightarrow> u64 \<Rightarrow> u64 \<Rightarrow> u64 \<Rightarrow> system \<Rightarrow> (u64 \<times> system) option" where
  "sys_execve obj dup cpu filename argv envp s =
    (let process = current s
     in if process = nullptr then Some (- 1, s)
        else do {
          let old_regions = p_memory_regions (procs (sys_kern s) process);
          let k = upd_proc process (\<lambda>p. p\<lparr>p_memory_regions := []\<rparr>) (sys_kern s);
          path \<leftarrow> string_at (sys_mem s) filename;
          (loaded, m, k1) \<leftarrow> load_program process path obj (sys_fs s) (sys_mem s, k);
          if \<not> loaded
          then Some (- 1, set_kern (upd_proc process (\<lambda>p. p\<lparr>p_memory_regions := old_regions\<rparr>) k1) (s\<lparr>sys_mem := m\<rparr>))
          else do {
            args \<leftarrow> copies dup 0 m argv;
            envs \<leftarrow> copies dup (case args of None \<Rightarrow> 0 | Some as \<Rightarrow> length as) m envp;
            (ready, ws, k2) \<leftarrow> setup_process_stack process args envs k1;
            if \<not> ready then do {
              k3 \<leftarrow> terminate_process cpu (p_pid (procs k2 process)) k2;
              Some (- 1, set_kern k3 (s\<lparr>sys_mem := m\<rparr>))
            }
            else Some (0, set_kern (switch_to_process process k2) (s\<lparr>sys_mem := store_words ws m\<rparr>))
          }
        })"

section \<open>Messages and shared memory\<close>

text \<open>
  Identifiers are \<^verbatim>\<open>int32_t\<close>; the result of a call that returns one is widened to 64 bits. A blocking receive runs other processes
  meanwhile: \<open>env\<close> is their effect on the state of IPC and \<open>env_mem\<close> on memory.
\<close>

definition id_arg :: "u64 \<Rightarrow> int" where
  "id_arg r = sint (ucast r :: 32 word)"

definition sys_msg_create :: "u64 \<Rightarrow> u64 \<Rightarrow> system \<Rightarrow> (int \<times> system) option" where
  "sys_msg_create obj name s =
    (let process = current s
     in if process = nullptr then Some (- 1, s)
        else do {
          str \<leftarrow> string_at (sys_mem s) name;
          let (i, x) = create_message_queue obj (p_pid (procs (sys_kern s) process)) str (sys_ipc s);
          Some (i, s\<lparr>sys_ipc := x\<rparr>)
        })"

definition sys_msg_destroy :: "int \<Rightarrow> system \<Rightarrow> u64 \<times> system" where
  "sys_msg_destroy i s =
    (if current s = nullptr then (- 1, s)
     else let (ok, x) = destroy_message_queue i (sys_ipc s) in (if ok then 0 else - 1, s\<lparr>sys_ipc := x\<rparr>))"

definition sys_msg_open :: "u64 \<Rightarrow> system \<Rightarrow> int option" where
  "sys_msg_open name s =
    (if current s = nullptr then Some (- 1)
     else do { str \<leftarrow> string_at (sys_mem s) name; Some (open_message_queue str (sys_ipc s)) })"

definition sys_msg_send :: "int \<Rightarrow> u64 \<Rightarrow> u64 \<Rightarrow> system \<Rightarrow> u64 \<times> system" where
  "sys_msg_send i data sz s =
    (let process = current s
     in if process = nullptr then (- 1, s)
        else
          let (ok, x) = send_message i (p_pid (procs (sys_kern s) process)) (bytes_at (sys_mem s) data (unat sz)) (unat sz) (sys_ipc s)
          in (if ok then 0 else - 1, s\<lparr>sys_ipc := x\<rparr>))"

definition sys_msg_receive ::
    "(ipc \<Rightarrow> ipc) \<Rightarrow> (mem \<Rightarrow> mem) \<Rightarrow> u32 \<Rightarrow> int \<Rightarrow> u64 \<Rightarrow> u64 \<Rightarrow> bool \<Rightarrow> system \<Rightarrow> (u64 \<times> system) option" where
  "sys_msg_receive env env_mem cpu i data max_size wait s =
    (let process = current s
     in if process = nullptr then Some (- 1, s)
        else do {
          (r, x) \<leftarrow> receive_message env cpu i wait (sys_ipc s);
          let blocked = (case queue_of_id i (sys_ipc s) of None \<Rightarrow> False
                         | Some q \<Rightarrow> wait \<and> mq_messages (mqs (sys_ipc s) q) = []);
          let m = (if blocked then env_mem (sys_mem s) else sys_mem s);
          Some (case r of
                  None \<Rightarrow> (- 1, s\<lparr>sys_ipc := x, sys_mem := m\<rparr>)
                | Some message \<Rightarrow>
                    let msize = of_nat (length (msg_data message)) :: u64;
                        copy_size = (if msize < max_size then msize else max_size)
                    in (push_bit 32 (scast (msg_sender message)) OR copy_size,
                        s\<lparr>sys_ipc := x, sys_mem := poke m data (take (unat copy_size) (msg_data message))\<rparr>))
        })"

text \<open>The region is cleared by \<open>memset\<close> when it is created.\<close>

definition sys_shm_create :: "u64 \<Rightarrow> system \<Rightarrow> int \<times> system" where
  "sys_shm_create sz s =
    (let process = current s
     in if process = nullptr then (- 1, s)
        else
          let (i, x) = create_shared_memory (p_pid (procs (sys_kern s) process)) sz (sys_ipc s);
              fresh = take (length (cleared x) - length (cleared (sys_ipc s))) (cleared x)
          in (i, s\<lparr>sys_ipc := x, sys_mem := fold (\<lambda>(a, n) m. memset m a 0 (unat n)) fresh (sys_mem s)\<rparr>))"

definition sys_shm_destroy :: "int \<Rightarrow> system \<Rightarrow> u64 \<times> system" where
  "sys_shm_destroy i s =
    (if current s = nullptr then (- 1, s)
     else let (ok, x) = destroy_shared_memory i (sys_ipc s) in (if ok then 0 else - 1, s\<lparr>sys_ipc := x\<rparr>))"

definition sys_shm_attach :: "int \<Rightarrow> system \<Rightarrow> u64 \<times> system" where
  "sys_shm_attach i s =
    (let process = current s
     in if process = nullptr then (nullptr, s)
        else let (a, x) = attach_shared_memory i (p_pid (procs (sys_kern s) process)) (sys_ipc s) in (a, s\<lparr>sys_ipc := x\<rparr>))"

definition sys_shm_detach :: "int \<Rightarrow> system \<Rightarrow> u64 \<times> system" where
  "sys_shm_detach i s =
    (let process = current s
     in if process = nullptr then (- 1, s)
        else let (ok, x) = detach_shared_memory i (p_pid (procs (sys_kern s) process)) (sys_ipc s)
             in (if ok then 0 else - 1, s\<lparr>sys_ipc := x\<rparr>))"

section \<open>Scheduling\<close>

definition sys_sched_yield :: "u32 \<Rightarrow> system \<Rightarrow> (u64 \<times> system) option" where
  "sys_sched_yield cpu s = do { k \<leftarrow> schedule cpu (sys_kern s); Some (0, set_kern k s) }"

definition sys_sched_set_priority :: "pid_t \<Rightarrow> u8 \<Rightarrow> system \<Rightarrow> (u64 \<times> system) option" where
  "sys_sched_set_priority pid priority s =
    (let process = current s; own = p_pid (procs (sys_kern s) process)
     in if process = nullptr \<or> (pid \<noteq> own \<and> own \<noteq> 1) then Some (- 1, s)
        else do { k \<leftarrow> set_process_priority pid priority (sys_kern s); Some (0, set_kern k s) })"

definition sys_sched_get_priority :: "pid_t \<Rightarrow> system \<Rightarrow> u64 option" where
  "sys_sched_get_priority pid s = do {
     process \<leftarrow> get_process pid (sys_kern s);
     Some (if process = nullptr then - 1 else ucast (p_priority (procs (sys_kern s) process)))
   }"

section \<open>The dispatch\<close>

datatype syscall_number =
  Read | Write | Open | Close | Mmap | Munmap | Brk | Exit | Fork | Execve |
  MsgCreate | MsgDestroy | MsgOpen | MsgSend | MsgReceive | ShmCreate | ShmDestroy | ShmAttach | ShmDetach |
  SchedYield | SchedSetPriority | SchedGetPriority

text \<open>The numbers the switch names; every other number goes to its default case.\<close>

definition syscall_table :: "(u64 \<times> syscall_number) list" where
  "syscall_table = [(0, Read), (1, Write), (2, Open), (3, Close), (9, Mmap), (11, Munmap), (12, Brk), (60, Exit), (57, Fork), (59, Execve),
     (100, MsgCreate), (101, MsgDestroy), (102, MsgOpen), (103, MsgSend), (104, MsgReceive), (105, ShmCreate), (106, ShmDestroy),
     (107, ShmAttach), (108, ShmDetach), (120, SchedYield), (121, SchedSetPriority), (122, SchedGetPriority)]"

definition widen :: "int \<times> system \<Rightarrow> u64 \<times> system" where
  "widen r = (of_int (fst r), snd r)"

definition dispatch ::
    "u64 \<Rightarrow> (nat \<Rightarrow> u64) \<Rightarrow> (ipc \<Rightarrow> ipc) \<Rightarrow> (mem \<Rightarrow> mem) \<Rightarrow> u32 \<Rightarrow> syscall_number \<Rightarrow> syscall_context \<Rightarrow> system \<Rightarrow> (u64 \<times> system) option" where
  "dispatch obj dup env env_mem cpu call ctx s =
    (case call of
       Read \<Rightarrow> Some (sys_read (ucast (c_rdi ctx)) (c_rsi ctx) (c_rdx ctx), s)
     | Write \<Rightarrow> sys_write (ucast (c_rdi ctx)) (c_rsi ctx) (c_rdx ctx) s
     | Open \<Rightarrow> Some (sys_open (c_rdi ctx) (ucast (c_rsi ctx)) (ucast (c_rdx ctx)), s)
     | Close \<Rightarrow> Some (sys_close (ucast (c_rdi ctx)), s)
     | Mmap \<Rightarrow> Some (sys_mmap (c_rdi ctx) (c_rsi ctx) (ucast (c_rdx ctx)) (ucast (c_r10 ctx)) (ucast (c_r8 ctx)) (c_r9 ctx), s)
     | Munmap \<Rightarrow> Some (sys_munmap (c_rdi ctx) (c_rsi ctx), s)
     | Brk \<Rightarrow> Some (sys_brk (c_rdi ctx) s)
     | Exit \<Rightarrow> do { s1 \<leftarrow> sys_exit cpu s; Some (0, s1) }
     | Fork \<Rightarrow> do { (pid, s1) \<leftarrow> sys_fork obj cpu s; Some (scast pid, s1) }
     | Execve \<Rightarrow> sys_execve obj dup cpu (c_rdi ctx) (c_rsi ctx) (c_rdx ctx) s
     | MsgCreate \<Rightarrow> map_option widen (sys_msg_create obj (c_rdi ctx) s)
     | MsgDestroy \<Rightarrow> Some (sys_msg_destroy (id_arg (c_rdi ctx)) s)
     | MsgOpen \<Rightarrow> do { i \<leftarrow> sys_msg_open (c_rdi ctx) s; Some (of_int i, s) }
     | MsgSend \<Rightarrow> Some (sys_msg_send (id_arg (c_rdi ctx)) (c_rsi ctx) (c_rdx ctx) s)
     | MsgReceive \<Rightarrow> sys_msg_receive env env_mem cpu (id_arg (c_rdi ctx)) (c_rsi ctx) (c_rdx ctx) (c_r10 ctx \<noteq> 0) s
     | ShmCreate \<Rightarrow> Some (widen (sys_shm_create (c_rdi ctx) s))
     | ShmDestroy \<Rightarrow> Some (sys_shm_destroy (id_arg (c_rdi ctx)) s)
     | ShmAttach \<Rightarrow> Some (sys_shm_attach (id_arg (c_rdi ctx)) s)
     | ShmDetach \<Rightarrow> Some (sys_shm_detach (id_arg (c_rdi ctx)) s)
     | SchedYield \<Rightarrow> sys_sched_yield cpu s
     | SchedSetPriority \<Rightarrow> sys_sched_set_priority (ucast (c_rdi ctx)) (ucast (c_rsi ctx)) s
     | SchedGetPriority \<Rightarrow> do { r \<leftarrow> sys_sched_get_priority (ucast (c_rdi ctx)) s; Some (r, s) })"

definition handle ::
    "u64 \<Rightarrow> (nat \<Rightarrow> u64) \<Rightarrow> (ipc \<Rightarrow> ipc) \<Rightarrow> (mem \<Rightarrow> mem) \<Rightarrow> u32 \<Rightarrow> syscall_context \<Rightarrow> system \<Rightarrow> (u64 \<times> system) option" where
  "handle obj dup env env_mem cpu ctx s =
    (case map_of syscall_table (c_rax ctx) of
       None \<Rightarrow> Some (- 1, s)
     | Some call \<Rightarrow> dispatch obj dup env env_mem cpu call ctx s)"

end
