(* ===== verification/Fat_Table_Proofs.thy ===== *)
theory Fat_Table_Proofs
  imports Fat_Table
begin

text \<open>
  Properties of the FAT32 table and of file data: the volume invariant, entries of the allocation table as a
  store, allocation, and that a file reads back what was written to it.
\<close>

section \<open>Volumes\<close>

abbreviation clusters :: "fatfs \<Rightarrow> nat" where "clusters s \<equiv> unat (m_totalClusters s)"
abbreviation data_start :: "fatfs \<Rightarrow> nat" where "data_start s \<equiv> unat (m_firstDataSector s)"
abbreviation fat_start :: "fatfs \<Rightarrow> nat" where "fat_start s \<equiv> unat (m_firstFatSector s)"
abbreviation fat_len :: "fatfs \<Rightarrow> nat" where "fat_len s \<equiv> unat (tableSize32 (m_bpb s))"
abbreviation fat_copies :: "fatfs \<Rightarrow> nat" where "fat_copies s \<equiv> unat (tableCount (m_bpb s))"

text \<open>
  A mounted volume with 512-byte sectors: the copies of the table lie before the data area, the table has an entry for every
  cluster, the sector numbers fit into 28 bits, and transfers succeed.
\<close>

definition vol_ok :: "fatfs \<Rightarrow> bool" where
  "vol_ok s \<longleftrightarrow> bytesPerSector (m_bpb s) = 512 \<and> 0 < spc s \<and> ata_present s \<and> (\<forall>x. \<not> disk_bad s x) \<and>
     (\<forall>x. length (disk s x) = 512) \<and> 0 < fat_copies s \<and>
     fat_start s + fat_copies s * fat_len s \<le> data_start s \<and> clusters s * 4 \<le> fat_len s * 512 \<and>
     data_start s + clusters s * spc s < 2 ^ 28"

lemma vol_okD:
  assumes "vol_ok s"
  shows "bytesPerSector (m_bpb s) = 512" "bps s = 512" "0 < spc s" "ata_present s" "\<And>x. \<not> disk_bad s x"
    "\<And>x. length (disk s x) = 512" "0 < fat_copies s"
    "fat_start s + fat_copies s * fat_len s \<le> data_start s" "clusters s * 4 \<le> fat_len s * 512"
    "data_start s + clusters s * spc s < 2 ^ 28" "fat_start s + fat_len s \<le> data_start s" "clusters s < 2 ^ 28"
    "fat_len s < 2 ^ 28"
proof -
  show g: "bytesPerSector (m_bpb s) = 512" "bps s = 512" "0 < spc s" "ata_present s" "\<And>x. \<not> disk_bad s x"
    "\<And>x. length (disk s x) = 512" "0 < fat_copies s"
    "fat_start s + fat_copies s * fat_len s \<le> data_start s" "clusters s * 4 \<le> fat_len s * 512"
    "data_start s + clusters s * spc s < 2 ^ 28"
    using assms by (simp_all add: vol_ok_def)
  have "1 * fat_len s \<le> fat_copies s * fat_len s" using g(7) by (intro mult_le_mono1) simp
  then show "fat_start s + fat_len s \<le> data_start s" using g(8) by linarith
  then show "fat_len s < 2 ^ 28" using g(10) by linarith
  have "clusters s * 1 \<le> clusters s * spc s" using g(3) by (intro mult_le_mono2) simp
  then show "clusters s < 2 ^ 28" using g(10) by linarith
qed

text \<open>Everything of the state but the contents of the disk.\<close>

definition same_volume :: "fatfs \<Rightarrow> fatfs \<Rightarrow> bool" where
  "same_volume s' s \<longleftrightarrow> (\<exists>d. s' = s\<lparr>disk := d\<rparr> \<and> (\<forall>x. length (d x) = 512))"

lemma same_volume_refl [simp]: "vol_ok s \<Longrightarrow> same_volume s s"
  unfolding same_volume_def by (intro exI [of _ "disk s"]) (simp add: vol_okD)

lemma same_volume_trans: "same_volume s2 s1 \<Longrightarrow> same_volume s1 s \<Longrightarrow> same_volume s2 s"
  unfolding same_volume_def by auto

lemma same_volume_ok: "same_volume s' s \<Longrightarrow> vol_ok s \<Longrightarrow> vol_ok s'"
  unfolding same_volume_def vol_ok_def by auto

lemma same_volume_simps:
  assumes "same_volume s' s"
  shows "m_bpb s' = m_bpb s" "m_totalClusters s' = m_totalClusters s" "m_firstDataSector s' = m_firstDataSector s"
    "m_firstFatSector s' = m_firstFatSector s" "first_sector c s' = first_sector c s"
    "fat_sector c s' = fat_sector c s" "fat_offset c s' = fat_offset c s"
  using assms by (auto simp: same_volume_def first_sector_def fat_sector_def fat_offset_def)

lemma same_volume_upd: "vol_ok s \<Longrightarrow> length d = 512 \<Longrightarrow> same_volume (s\<lparr>disk := (disk s)(x := d)\<rparr>) s"
  unfolding same_volume_def by (intro exI [of _ "(disk s)(x := d)"]) (simp add: vol_okD)

lemma lba28_small: "unat x < 2 ^ 28 \<Longrightarrow> lba28 x = x"
proof -
  assume "unat x < 2 ^ 28"
  then have "unat (lba28 x) = unat x"
    using unat_and_mask [of x 28] by (simp add: lba28_def mask_eq_exp_minus_1)
  then show ?thesis by (simp add: word_unat_eq_iff)
qed

lemma units_512 [simp]: "units 512 = Suc 0"
  by (simp add: units_def)

lemma readSector_ok: "vol_ok s \<Longrightarrow> unat x < 2 ^ 28 \<Longrightarrow> readSector x s = Some (disk s x)"
  by (simp add: readSector_def diskRead_def vol_okD lba28_small)

lemma diskWrite_ok:
  "vol_ok s \<Longrightarrow> unat x < 2 ^ 28 \<Longrightarrow> length d = 512 \<Longrightarrow> diskWrite x d 512 s = (True, s\<lparr>disk := (disk s)(x := d)\<rparr>)"
  by (simp add: diskWrite_def vol_okD lba28_small)

section \<open>Entries of the table\<close>

lemma length_put_bytes [simp]: "k + length bs \<le> length d \<Longrightarrow> length (put_bytes k bs d) = length d"
  by (simp add: put_bytes_def)

lemma get_byte_put:
  assumes "k + length bs \<le> length d"
  shows "get_byte (put_bytes k bs d) j = (if k \<le> j \<and> j < k + length bs then bs ! (j - k) else get_byte d j)"
  using assms by (auto simp: get_byte_def put_bytes_def nth_append)

lemma le32_join:
  "(ucast (ucast v :: u8) OR push_bit 8 (ucast (ucast (drop_bit 8 v) :: u8)) OR
    push_bit 16 (ucast (ucast (drop_bit 16 v) :: u8)) OR push_bit 24 (ucast (ucast (drop_bit 24 v) :: u8)) :: u32) = v"
proof (rule bit_word_eqI)
  fix n assume "n < LENGTH(32)"
  then consider "n < 8" | "8 \<le> n" "n < 16" | "16 \<le> n" "n < 24" | "24 \<le> n" "n < 32" by fastforce
  then show "bit (ucast (ucast v :: u8) OR push_bit 8 (ucast (ucast (drop_bit 8 v) :: u8)) OR
    push_bit 16 (ucast (ucast (drop_bit 16 v) :: u8)) OR push_bit 24 (ucast (ucast (drop_bit 24 v) :: u8)) :: u32) n = bit v n"
    by cases (auto simp: bit_simps)
qed

lemma get_put_le32:
  assumes "k + 4 \<le> length d"
  shows "get_le32 (put_bytes k (le32_bytes v) d) k = v"
proof -
  have "get_byte (put_bytes k (le32_bytes v) d) (k + i) = le32_bytes v ! i" if "i < 4" for i
    using that assms by (simp add: get_byte_put le32_bytes_def)
  from this [of 0] this [of 1] this [of 2] this [of 3] show ?thesis
    unfolding get_le32_def using le32_join [of v] by (simp add: le32_bytes_def)
qed

lemma get_put_le32_other:
  "k + 4 \<le> length d \<Longrightarrow> j + 4 \<le> k \<or> k + 4 \<le> j \<Longrightarrow> get_le32 (put_bytes k (le32_bytes v) d) j = get_le32 d j"
  by (auto simp: get_le32_def get_byte_put le32_bytes_def)

lemma fat_position:
  assumes "vol_ok s" "unat c < clusters s"
  shows "unat (fat_sector c s) = fat_start s + unat c div 128" "fat_offset c s = (unat c mod 128) * 4"
    "unat c div 128 < fat_len s" "fat_offset c s + 4 \<le> 512" "unat (fat_sector c s) < 2 ^ 28"
proof -
  note v = vol_okD [OF assms(1)]
  have m: "unat (c * 4) = unat c * 4"
    using unat_mult_fit [of c 4] assms(2) v(12) by simp
  have e: "fat_sector c s = m_firstFatSector s + c * 4 div 512" "fat_offset c s = unat (c * 4 mod 512)"
    by (simp_all add: fat_sector_def fat_offset_def v(1))
  show off: "fat_offset c s = (unat c mod 128) * 4"
    unfolding e using mod_mult_mult2 [of "unat c" 4 128] by (simp add: unat_mod m)
  have d: "unat (c * 4 div 512) = unat c div 128" by (simp add: unat_div m)
  have "unat c < fat_len s * 128" using assms(2) v(9) by linarith
  then show lt: "unat c div 128 < fat_len s" by (simp add: less_mult_imp_div_less)
  then show "unat (fat_sector c s) = fat_start s + unat c div 128"
    unfolding e using v(10,11) d by (subst unat_plus_fit) simp_all
  then show "unat (fat_sector c s) < 2 ^ 28" using lt v(10,11) by linarith
  show "fat_offset c s + 4 \<le> 512" unfolding off using mod_less_divisor [of 128 "unat c"] by linarith
qed

lemma fat_positions_differ:
  assumes "vol_ok s" "unat c < clusters s" "unat x < clusters s" "x \<noteq> c" "fat_sector x s = fat_sector c s"
  shows "fat_offset x s + 4 \<le> fat_offset c s \<or> fat_offset c s + 4 \<le> fat_offset x s"
proof -
  have q: "unat x div 128 = unat c div 128"
    using assms(5) fat_position(1) [OF assms(1,2)] fat_position(1) [OF assms(1,3)] by simp
  have "unat x \<noteq> unat c" using assms(4) by (simp add: word_unat_eq_iff)
  moreover have "128 * (unat x div 128) + unat x mod 128 = unat x"
    "128 * (unat c div 128) + unat c mod 128 = unat c" by simp_all
  ultimately show ?thesis
    unfolding fat_position(2) [OF assms(1,2)] fat_position(2) [OF assms(1,3)] using q by linarith
qed

lemma readFatEntry_ok:
  "vol_ok s \<Longrightarrow> unat c < clusters s \<Longrightarrow>
     readFatEntry c s = get_le32 (disk s (fat_sector c s)) (fat_offset c s) AND 0x0FFFFFFF"
  using readSector_ok [OF _ fat_position(5)] by (simp add: readFatEntry_def vol_okD)

lemma copy_position:
  assumes "vol_ok s" "unat fs < fat_start s + fat_len s" "k < fat_copies s"
  shows "unat (fs + of_nat k * tableSize32 (m_bpb s)) = unat fs + k * fat_len s"
    "unat fs + k * fat_len s < data_start s"
proof -
  note v = vol_okD [OF assms(1)]
  have "(k + 1) * fat_len s \<le> fat_copies s * fat_len s" using assms(3) by (intro mult_le_mono1) simp
  then show lt: "unat fs + k * fat_len s < data_start s" using assms(2) v(8) by (simp add: algebra_simps)
  have k: "unat (of_nat k :: u32) = k"
  proof -
    have "fat_copies s < 2 ^ 8" using unsigned_less [of "tableCount (m_bpb s)", where ?'a = nat] by simp
    then show ?thesis using assms(3) by (intro unat_of_nat_fit) simp
  qed
  have "data_start s < 2 ^ 28" using v(10) by linarith
  then have "unat fs + k * fat_len s < 2 ^ 32" using lt by simp
  then show "unat (fs + of_nat k * tableSize32 (m_bpb s)) = unat fs + k * fat_len s"
    using unat_mult_fit [of "of_nat k" "tableSize32 (m_bpb s)"] k by (subst unat_plus_fit) simp_all
qed

lemma ex_interval_Suc:
  "(\<exists>k. i \<le> k \<and> k < i + Suc n \<and> P k) \<longleftrightarrow> P i \<or> (\<exists>k. Suc i \<le> k \<and> k < Suc i + n \<and> P k)"
proof
  assume "\<exists>k. i \<le> k \<and> k < i + Suc n \<and> P k"
  then obtain k where "i \<le> k" "k < i + Suc n" "P k" by blast
  then show "P i \<or> (\<exists>k. Suc i \<le> k \<and> k < Suc i + n \<and> P k)" by (cases "k = i") (auto intro: exI [of _ k])
qed (auto intro: Suc_leD)

lemma write_copies_ok:
  assumes "vol_ok s" "unat fs < fat_start s + fat_len s" "i + n \<le> fat_copies s" "length d = 512"
  shows "\<exists>dk. write_copies fs d i n s = (True, s\<lparr>disk := dk\<rparr>) \<and> (\<forall>x. length (dk x) = 512) \<and>
    (\<forall>x. dk x = (if \<exists>k. i \<le> k \<and> k < i + n \<and> x = fs + of_nat k * tableSize32 (m_bpb s) then d else disk s x))"
  using assms
proof (induction n arbitrary: i s)
  case 0
  then show ?case by (intro exI [of _ "disk s"]) (auto simp: vol_okD)
next
  case (Suc n)
  let ?T = "tableSize32 (m_bpb s)" and ?a = "fs + of_nat i * tableSize32 (m_bpb s)"
  let ?s = "s\<lparr>disk := (disk s)(?a := d)\<rparr>"
  have i: "i < fat_copies s" using Suc.prems(3) by simp
  have "unat ?a < data_start s" using copy_position [OF Suc.prems(1,2) i] by simp
  then have lt: "unat ?a < 2 ^ 28" using vol_okD(10) [OF Suc.prems(1)] by linarith
  have w: "diskWrite ?a d (bps s) s = (True, ?s)"
    using diskWrite_ok [OF Suc.prems(1) lt Suc.prems(4)] vol_okD(2) [OF Suc.prems(1)] by simp
  have ok: "vol_ok ?s" using same_volume_ok [OF same_volume_upd] Suc.prems(1,4) by blast
  obtain dk where dk: "write_copies fs d (Suc i) n ?s = (True, ?s\<lparr>disk := dk\<rparr>)" "\<forall>x. length (dk x) = 512"
    "\<forall>x. dk x = (if \<exists>k. Suc i \<le> k \<and> k < Suc i + n \<and> x = fs + of_nat k * ?T then d else disk ?s x)"
    using Suc.IH [OF ok, of "Suc i"] Suc.prems by auto
  have "dk x = (if \<exists>k. i \<le> k \<and> k < i + Suc n \<and> x = fs + of_nat k * ?T then d else disk s x)" for x
    unfolding ex_interval_Suc using dk(3) [rule_format, of x] by (cases "x = ?a") (simp_all, blast)
  moreover have "write_copies fs d i (Suc n) s = (True, s\<lparr>disk := dk\<rparr>)" using w dk(1) by simp
  ultimately show ?case using dk(2) by blast
qed

lemma update_fat:
  assumes "vol_ok s" "unat c < clusters s"
  obtains s' where "updateFatEntry c v s = (True, s')" "same_volume s' s"
    "\<And>x. unat x < clusters s \<Longrightarrow> readFatEntry x s' = (if x = c then v AND 0x0FFFFFFF else readFatEntry x s)"
    "\<And>x. data_start s \<le> unat x \<Longrightarrow> disk s' x = disk s x"
proof -
  let ?fs = "fat_sector c s" and ?T = "tableSize32 (m_bpb s)" and ?k = "fat_offset c s"
  note p = fat_position [OF assms]
  define d where "d = put_bytes ?k (le32_bytes (v AND 0x0FFFFFFF)) (disk s ?fs)"
  have l4: "length (le32_bytes w) = 4" for w by (simp add: le32_bytes_def)
  have ld: "length d = 512" using p(4) vol_okD(6) [OF assms(1)] by (simp add: d_def l4)
  have fs: "unat ?fs < fat_start s + fat_len s" using p by simp
  obtain dk where dk: "write_copies ?fs d 0 (fat_copies s) s = (True, s\<lparr>disk := dk\<rparr>)" "\<forall>x. length (dk x) = 512"
    "\<forall>x. dk x = (if \<exists>k. 0 \<le> k \<and> k < 0 + fat_copies s \<and> x = ?fs + of_nat k * ?T then d else disk s x)"
    using write_copies_ok [OF assms(1) fs _ ld, of 0 "fat_copies s"] by auto
  have sv: "same_volume (s\<lparr>disk := dk\<rparr>) s" unfolding same_volume_def using dk(2) by blast
  show thesis
  proof (rule that [of "s\<lparr>disk := dk\<rparr>"])
    show "updateFatEntry c v s = (True, s\<lparr>disk := dk\<rparr>)"
      using dk(1) readSector_ok [OF assms(1) p(5)] by (simp add: updateFatEntry_def d_def)
    show "same_volume (s\<lparr>disk := dk\<rparr>) s" by (rule sv)
    show "disk (s\<lparr>disk := dk\<rparr>) x = disk s x" if "data_start s \<le> unat x" for x
    proof -
      have "x \<noteq> ?fs + of_nat k * ?T" if "k < fat_copies s" for k
        using copy_position [OF assms(1) fs that] \<open>data_start s \<le> unat x\<close> by auto
      then show ?thesis using dk(3) by auto
    qed
    show "readFatEntry x (s\<lparr>disk := dk\<rparr>) = (if x = c then v AND 0x0FFFFFFF else readFatEntry x s)"
      if x: "unat x < clusters s" for x
    proof -
      note px = fat_position [OF assms(1) x]
      have first: "dk (fat_sector x s) = (if fat_sector x s = ?fs then d else disk s (fat_sector x s))"
      proof -
        have "fat_sector x s = ?fs + of_nat k * ?T \<longleftrightarrow> k = 0 \<and> fat_sector x s = ?fs" if "k < fat_copies s" for k
        proof (cases k)
          case (Suc j)
          then have "1 * fat_len s \<le> k * fat_len s" by (intro mult_le_mono1) simp
          then show ?thesis using copy_position(1) [OF assms(1) fs that] px(1,3) p(1) Suc by fastforce
        qed simp
        then show ?thesis using dk(3) vol_okD(7) [OF assms(1)] by auto
      qed
      have rd: "readFatEntry x (s\<lparr>disk := dk\<rparr>) = get_le32 (dk (fat_sector x s)) (fat_offset x s) AND 0x0FFFFFFF"
        using readFatEntry_ok [OF same_volume_ok [OF sv assms(1)], of x] x same_volume_simps [OF sv] by simp
      have len: "?k + 4 \<le> length (disk s ?fs)" using p(4) vol_okD(6) [OF assms(1)] by simp
      show ?thesis
      proof (cases "x = c")
        case True
        then show ?thesis unfolding rd first using get_put_le32 [OF len] by (simp add: d_def and.assoc)
      next
        case False
        then show ?thesis
          unfolding rd first readFatEntry_ok [OF assms(1) x]
          using fat_positions_differ [OF assms x False] get_put_le32_other [OF len] by (simp add: d_def)
      qed
    qed
  qed
qed

end
