(* ===== verification/Fat_Files.thy ===== *)
theory Fat_Files
  imports Fat_Table_Proofs
begin

text \<open>
  Files on a FAT32 volume: allocation of clusters, chains, and the theorem that a file reads back what was
  written to it, growing as needed.
\<close>

section \<open>Clusters\<close>

lemma unat_ucast_up:
  "LENGTH('a) \<le> LENGTH('b) \<Longrightarrow> unat (ucast (w :: 'a :: len word) :: 'b :: len word) = unat w"
proof -
  assume le: "LENGTH('a) \<le> LENGTH('b)"
  have "unat w < 2 ^ LENGTH('a)" by (rule unsigned_less)
  also have "(2 :: nat) ^ LENGTH('a) \<le> 2 ^ LENGTH('b)" using le by (intro power_increasing) simp_all
  finally show ?thesis by (simp add: unsigned_ucast_eq take_bit_nat_eq_self)
qed

definition valid :: "fatfs \<Rightarrow> u32 \<Rightarrow> bool" where
  "valid s c \<longleftrightarrow> 2 \<le> unat c \<and> unat c < clusters s"

lemma valid_word: "valid s c \<longleftrightarrow> 2 \<le> c \<and> c < m_totalClusters s"
  by (simp add: valid_def word_le_nat_alt word_less_nat_alt)

lemma valid_cong: "same_volume s' s \<Longrightarrow> valid s' c = valid s c"
  by (simp add: valid_def same_volume_simps)

lemma validD: "valid s c \<Longrightarrow> unat c < clusters s"
  by (simp add: valid_def)

text \<open>Cluster numbers of a volume stay below the reserved values of the table.\<close>

lemma valid_small:
  assumes "vol_ok s" "valid s c"
  shows "c < 0x0FFFFFF7" "c < 0x0FFFFFF8" "c AND 0x0FFFFFFF = c" "c \<noteq> 0"
proof -
  note v = vol_okD [OF assms(1)]
  have "clusters s * 1 \<le> clusters s * spc s" using v(3) by (intro mult_le_mono2) simp
  then have "fat_len s + clusters s < 2 ^ 28" using v(10,11) by linarith
  moreover have "clusters s \<le> fat_len s * 128" using v(9) by simp
  ultimately have lt: "unat c < 0x0FFFFFF7" using validD [OF assms(2)] by simp
  then show "c < 0x0FFFFFF7" "c < 0x0FFFFFF8" by (simp_all add: word_less_nat_alt)
  have "unat (c AND 0x0FFFFFFF) = unat c" using lt unat_and_mask [of c 28] by (simp add: mask_eq_exp_minus_1)
  then show "c AND 0x0FFFFFFF = c" by (simp add: word_unat_eq_iff)
  show "c \<noteq> 0" using assms(2) by (auto simp: valid_def)
qed

definition free_clusters :: "fatfs \<Rightarrow> u32 set" where
  "free_clusters s = {c. valid s c \<and> readFatEntry c s = 0}"

lemma finite_free [simp]: "finite (free_clusters s)"
  by simp

text \<open>First fit over the table.\<close>

lemma allocate_from_spec:
  "(\<exists>x. c \<le> x \<and> x < m_totalClusters s \<and> readFatEntry x s = 0 \<and> (\<forall>y. c \<le> y \<and> y < x \<longrightarrow> readFatEntry y s \<noteq> 0) \<and>
       allocate_from c s = (x, snd (updateFatEntry x 0x0FFFFFF8 s))) \<or>
   (\<forall>x. c \<le> x \<and> x < m_totalClusters s \<longrightarrow> readFatEntry x s \<noteq> 0) \<and> allocate_from c s = (0, s)"
proof (induction c s rule: allocate_from.induct)
  case (1 c s)
  show ?case
  proof (cases "c < m_totalClusters s")
    case False
    then show ?thesis by (auto simp: allocate_from.simps [of c s])
  next
    case lt: True
    show ?thesis
    proof (cases "readFatEntry c s = 0")
      case True
      then show ?thesis using lt by (intro disjI1 exI [of _ c]) (auto simp: allocate_from.simps [of c s])
    next
      case False
      have step: "allocate_from c s = allocate_from (c + 1) s" using lt False by (simp add: allocate_from.simps [of c s])
      have le: "c \<le> y \<longleftrightarrow> y = c \<or> c + 1 \<le> y" for y
        using unat_Suc_less [OF lt] by (auto simp: word_le_nat_alt word_unat_eq_iff)
      show ?thesis using "1.IH" [OF lt False] False unfolding step le by blast
    qed
  qed
qed

lemma allocateCluster_spec:
  assumes "vol_ok s"
  shows "free_clusters s = {} \<Longrightarrow> allocateCluster s = (0, s)"
    and "free_clusters s \<noteq> {} \<Longrightarrow> \<exists>c s'. allocateCluster s = (c, s') \<and> c \<in> free_clusters s \<and>
      (\<forall>x \<in> free_clusters s. c \<le> x) \<and> same_volume s' s \<and>
      (\<forall>x. valid s x \<longrightarrow> readFatEntry x s' = (if x = c then 0x0FFFFFF8 else readFatEntry x s)) \<and>
      (\<forall>x. data_start s \<le> unat x \<longrightarrow> disk s' x = disk s x)"
proof -
  note sp = allocate_from_spec [of 2 s]
  have fr: "x \<in> free_clusters s \<longleftrightarrow> 2 \<le> x \<and> x < m_totalClusters s \<and> readFatEntry x s = 0" for x
    by (auto simp: free_clusters_def valid_word)
  show "allocateCluster s = (0, s)" if "free_clusters s = {}"
    using sp that fr unfolding allocateCluster_def by blast
  assume ne: "free_clusters s \<noteq> {}"
  then obtain c where c: "c \<in> free_clusters s" "\<forall>y. 2 \<le> y \<and> y < c \<longrightarrow> readFatEntry y s \<noteq> 0"
    "allocateCluster s = (c, snd (updateFatEntry c 0x0FFFFFF8 s))"
    using sp fr unfolding allocateCluster_def by blast
  have v: "valid s c" using c(1) by (simp add: free_clusters_def)
  obtain s' where s': "updateFatEntry c 0x0FFFFFF8 s = (True, s')" "same_volume s' s"
    "\<And>x. unat x < clusters s \<Longrightarrow> readFatEntry x s' = (if x = c then 0x0FFFFFF8 AND 0x0FFFFFFF else readFatEntry x s)"
    "\<And>x. data_start s \<le> unat x \<Longrightarrow> disk s' x = disk s x"
    by (rule update_fat [OF assms validD [OF v], of "0x0FFFFFF8"]) blast
  have "\<forall>x \<in> free_clusters s. c \<le> x" using c(2) fr by (meson not_le_imp_less)
  then show "\<exists>c s'. allocateCluster s = (c, s') \<and> c \<in> free_clusters s \<and>
      (\<forall>x \<in> free_clusters s. c \<le> x) \<and> same_volume s' s \<and>
      (\<forall>x. valid s x \<longrightarrow> readFatEntry x s' = (if x = c then 0x0FFFFFF8 else readFatEntry x s)) \<and>
      (\<forall>x. data_start s \<le> unat x \<longrightarrow> disk s' x = disk s x)"
    using c(1,3) s' by (intro exI [of _ c] exI [of _ s']) (auto simp: validD)
qed

section \<open>Chains\<close>

text \<open>The clusters of a file in order; the entry of the last one marks the end.\<close>

fun fchain :: "fatfs \<Rightarrow> u32 list \<Rightarrow> bool" where
  "fchain s [] \<longleftrightarrow> False"
| "fchain s [c] \<longleftrightarrow> valid s c \<and> 0x0FFFFFF8 \<le> readFatEntry c s"
| "fchain s (c # d # cs) \<longleftrightarrow> valid s c \<and> readFatEntry c s = d \<and> fchain s (d # cs)"

lemma fchain_valid: "fchain s cs \<Longrightarrow> c \<in> set cs \<Longrightarrow> valid s c"
  by (induction s cs rule: fchain.induct) auto

lemma fchain_cong:
  "same_volume s' s \<Longrightarrow> (\<And>c. c \<in> set cs \<Longrightarrow> readFatEntry c s' = readFatEntry c s) \<Longrightarrow> fchain s' cs = fchain s cs"
  by (induction s cs rule: fchain.induct) (auto simp: valid_cong)

lemma fchain_append: "fchain s (xs @ y # ys) \<Longrightarrow> fchain s (y # ys)"
proof (induction xs)
  case (Cons x xs)
  then show ?case by (cases xs) auto
qed simp

lemma fchain_nonfree: "vol_ok s \<Longrightarrow> fchain s cs \<Longrightarrow> c \<in> set cs \<Longrightarrow> readFatEntry c s \<noteq> 0"
proof (induction s cs rule: fchain.induct)
  case (3 s c d cs)
  then show ?case using valid_small(4) fchain_valid [of s "d # cs" d] by auto
qed auto

lemma fchain_next:
  assumes "vol_ok s" "fchain s (c # cs)"
  shows "cs = [] \<longleftrightarrow> 0x0FFFFFF8 \<le> readFatEntry c s" "cs \<noteq> [] \<Longrightarrow> readFatEntry c s \<noteq> 0x0FFFFFF7"
    "cs \<noteq> [] \<Longrightarrow> readFatEntry c s = hd cs"
proof -
  have "valid s (hd cs)" if "cs \<noteq> []" using assms(2) that fchain_valid by (cases cs) fastforce+
  then have small: "cs \<noteq> [] \<Longrightarrow> hd cs < 0x0FFFFFF7 \<and> hd cs < 0x0FFFFFF8" using valid_small [OF assms(1)] by blast
  then show "cs = [] \<longleftrightarrow> 0x0FFFFFF8 \<le> readFatEntry c s" "cs \<noteq> [] \<Longrightarrow> readFatEntry c s \<noteq> 0x0FFFFFF7"
    "cs \<noteq> [] \<Longrightarrow> readFatEntry c s = hd cs"
    using assms(2) by (cases cs; auto simp: not_le)+
qed

lemma fchain_unique: "vol_ok s \<Longrightarrow> fchain s (c # xs) \<Longrightarrow> fchain s (c # ys) \<Longrightarrow> xs = ys"
proof (induction xs arbitrary: c ys)
  case Nil
  then show ?case using fchain_next(1) by blast
next
  case (Cons x xs)
  then have "ys \<noteq> []" using fchain_next(1) by blast
  then obtain y zs where ys: "ys = y # zs" by (cases ys) auto
  with Cons.prems have "x = y" by auto
  with Cons ys show ?case by auto
qed

lemma fchain_distinct: "vol_ok s \<Longrightarrow> fchain s cs \<Longrightarrow> distinct cs"
proof (induction cs)
  case (Cons c cs)
  have "c \<notin> set cs"
  proof
    assume "c \<in> set cs"
    then obtain us vs where cs: "cs = us @ c # vs" by (meson split_list)
    have "fchain s (c # vs)" using Cons.prems(2) fchain_append [of s "c # us" c vs] cs by simp
    from fchain_unique [OF Cons.prems(1) this Cons.prems(2)] have "length vs = length cs" by simp
    with cs show False by simp
  qed
  moreover have "distinct cs"
  proof (cases cs)
    case (Cons d ds)
    then show ?thesis using Cons.IH Cons.prems by simp
  qed simp
  ultimately show ?case by simp
qed simp


text \<open>A small empty volume: one reserved sector, two tables of one sector, 100 clusters of one sector.\<close>

definition fat_example :: fatfs where
  "fat_example = \<lparr>m_bpb = empty_bpb\<lparr>bytesPerSector := 512, sectorsPerCluster := 1, reservedSectorCount := 1, tableCount := 2,
      tableSize32 := 1\<rparr>, m_freeCount = 0, m_nextFree = 0, m_firstDataSector = 3, m_dataSectors = 100, m_totalClusters = 100,
      m_firstFatSector = 1, m_currentPath = [47], m_currentDirName = [47], m_currentDirectoryCluster = 2, m_dirStack = [],
      disk = (\<lambda>_. replicate 512 0), disk_bad = (\<lambda>_. False), ata_present = True\<rparr>"

lemma fat_example_ok: "vol_ok fat_example"
  by (simp add: vol_ok_def fat_example_def)

lemma fat_example_fat: "valid fat_example c \<Longrightarrow> readFatEntry c fat_example = 0"
proof -
  assume "valid fat_example c"
  note v = validD [OF this] and p = fat_position [OF fat_example_ok validD [OF this]]
  have "get_byte (replicate 512 0) k = 0" for k by (simp add: get_byte_def)
  then show ?thesis
    unfolding readFatEntry_ok [OF fat_example_ok v] by (simp add: fat_example_def get_le32_def)
qed

lemma fat_example_free: "2 \<in> free_clusters fat_example"
proof -
  have "valid fat_example 2" by (simp add: valid_def fat_example_def)
  then show ?thesis by (simp add: free_clusters_def fat_example_fat)
qed


section \<open>The data of a cluster\<close>

lemma sector_position:
  assumes "vol_ok s" "valid s c" "i < spc s"
  shows "unat (first_sector c s + of_nat i) = data_start s + (unat c - 2) * spc s + i"
    "unat (first_sector c s + of_nat i) < 2 ^ 28"
proof -
  note v = vol_okD [OF assms(1)]
  have "(unat c - 2 + 1) * spc s \<le> clusters s * spc s"
    using assms(2) by (intro mult_le_mono1) (auto simp: valid_def)
  then have b: "data_start s + (unat c - 2) * spc s + i < 2 ^ 28" using v(10) assms(3) by (simp add: algebra_simps)
  have c2: "unat (c - 2) = unat c - 2"
    using assms(2) unat_minus_fit [of 2 c] by (simp add: valid_def word_le_nat_alt)
  have sp: "unat (ucast (sectorsPerCluster (m_bpb s)) :: u32) = spc s" by (rule unat_ucast_up) simp
  have m: "unat ((c - 2) * ucast (sectorsPerCluster (m_bpb s)) :: u32) = (unat c - 2) * spc s"
    using unat_mult_fit [of "c - 2" "ucast (sectorsPerCluster (m_bpb s))"] b by (simp add: c2 sp)
  have f: "unat (first_sector c s) = data_start s + (unat c - 2) * spc s"
    unfolding first_sector_def using b m by (subst unat_plus_fit) simp_all
  have "unat (of_nat i :: u32) = i" using b by (intro unat_of_nat_fit) simp
  then show "unat (first_sector c s + of_nat i) = data_start s + (unat c - 2) * spc s + i"
    using f b by (subst unat_plus_fit) simp_all
  then show "unat (first_sector c s + of_nat i) < 2 ^ 28" using b by simp
qed

lemma sectors_differ:
  assumes "vol_ok s" "valid s c" "valid s d" "i < spc s" "j < spc s"
    "first_sector c s + of_nat i = first_sector d s + of_nat j"
  shows "c = d \<and> i = j"
proof -
  have e: "(unat c - 2) * spc s + i = (unat d - 2) * spc s + j"
    using sector_position(1) [OF assms(1,2,4)] sector_position(1) [OF assms(1,3,5)] assms(6) by simp
  have "((unat c - 2) * spc s + i) div spc s = unat c - 2" "((unat d - 2) * spc s + j) div spc s = unat d - 2"
    using assms(4,5) by auto
  with e have "unat c - 2 = unat d - 2" by metis
  moreover have "2 \<le> unat c" "2 \<le> unat d" using assms(2,3) by (auto simp: valid_def)
  ultimately show ?thesis using e by (simp add: word_unat_eq_iff)
qed

definition cluster_data :: "fatfs \<Rightarrow> u32 \<Rightarrow> bytes" where
  "cluster_data s c = concat (map (\<lambda>i. disk s (first_sector c s + of_nat i)) [0..<spc s])"

definition file_bytes :: "fatfs \<Rightarrow> u32 list \<Rightarrow> bytes" where
  "file_bytes s cs = concat (map (cluster_data s) cs)"

lemma length_concat_blocks: "(\<And>x. x \<in> set xs \<Longrightarrow> length (f x) = n) \<Longrightarrow> length (concat (map f xs)) = length xs * n"
  by (induction xs) auto

lemma length_cluster_data: "vol_ok s \<Longrightarrow> length (cluster_data s c) = spc s * 512"
  unfolding cluster_data_def by (subst length_concat_blocks [where n = 512]) (simp_all add: vol_okD(6))

lemma nth_concat_blocks:
  "(\<And>x. x \<in> set xs \<Longrightarrow> length (f x) = n) \<Longrightarrow> i < length xs * n \<Longrightarrow>
     concat (map f xs) ! i = f (xs ! (i div n)) ! (i mod n)"
proof (induction xs arbitrary: i)
  case (Cons x xs)
  have n: "0 < n" using Cons.prems(2) by (cases n) auto
  show ?case
  proof (cases "i < n")
    case True
    then show ?thesis using Cons.prems(1) [of x] by (simp add: nth_append)
  next
    case False
    then obtain j where j: "i = n + j" by (metis le_Suc_ex not_le)
    with Cons.prems n have "concat (map f xs) ! j = f (xs ! (j div n)) ! (j mod n)" by (intro Cons.IH) auto
    then show ?thesis using j n Cons.prems(1) [of x] by (simp add: nth_append div_add_self1)
  qed
qed simp

lemma cluster_data_nth:
  assumes "vol_ok s" "j < spc s * 512"
  shows "cluster_data s c ! j = disk s (first_sector c s + of_nat (j div 512)) ! (j mod 512)"
proof -
  have "j div 512 < spc s" using assms(2) by (simp add: less_mult_imp_div_less)
  then show ?thesis
    unfolding cluster_data_def using nth_concat_blocks [of "[0..<spc s]" "\<lambda>i. disk s (first_sector c s + of_nat i)" 512 j]
      vol_okD(6) [OF assms(1)] assms(2) by simp
qed

lemma cluster_data_cong:
  "same_volume s' s \<Longrightarrow> (\<And>i. i < spc s \<Longrightarrow> disk s' (first_sector c s + of_nat i) = disk s (first_sector c s + of_nat i)) \<Longrightarrow>
     cluster_data s' c = cluster_data s c"
  unfolding cluster_data_def by (auto simp: same_volume_simps intro!: arg_cong [where f = concat])

lemma cluster_data_fat_update:
  assumes "vol_ok s" "valid s c" "same_volume s' s" "\<And>x. data_start s \<le> unat x \<Longrightarrow> disk s' x = disk s x"
  shows "cluster_data s' c = cluster_data s c"
  by (rule cluster_data_cong [OF assms(3)]) (use sector_position(1) [OF assms(1,2)] assms(4) in simp)

section \<open>Reading\<close>

lemma read_cluster_ok:
  assumes "vol_ok s" "\<And>k. k < n \<Longrightarrow> unat (sec + of_nat k) < 2 ^ 28" "length acc \<le> b"
  shows "read_cluster sec n b acc s = (True, take b (acc @ concat (map (\<lambda>k. disk s (sec + of_nat k)) [0..<n])))"
  using assms
proof (induction n arbitrary: sec acc)
  case (Suc n)
  note v = vol_okD [OF Suc.prems(1)]
  show ?case
  proof (cases "length acc < b")
    case False
    then show ?thesis using Suc.prems(3) by simp
  next
    case True
    have rd: "readSector sec s = Some (disk s sec)" using readSector_ok [OF Suc.prems(1)] Suc.prems(2) [of 0] by simp
    let ?acc = "acc @ take (min (b - length acc) (bps s)) (disk s sec)"
    have acc: "?acc = take b (acc @ disk s sec)" using True v(2) v(6) [of sec] by (simp add: min_def)
    have "read_cluster (sec + 1) n b ?acc s =
        (True, take b (?acc @ concat (map (\<lambda>k. disk s (sec + 1 + of_nat k)) [0..<n])))"
      by (rule Suc.IH) (use Suc.prems(1) Suc.prems(2) [of "Suc k" for k] True in \<open>auto simp: ac_simps\<close>)
    also have "take b (?acc @ rest) = take b (acc @ disk s sec @ rest)" for rest
      unfolding acc by (simp add: min_def)
    finally show ?thesis
      using True rd by (simp add: upt_conv_Cons map_Suc_upt [symmetric] comp_def ac_simps del: upt_Suc)
  qed
qed simp

lemma read_cluster_data:
  "vol_ok s \<Longrightarrow> valid s c \<Longrightarrow> length acc \<le> b \<Longrightarrow>
     read_cluster (first_sector c s) (spc s) b acc s = (True, take b (acc @ cluster_data s c))"
  unfolding cluster_data_def by (rule read_cluster_ok) (rule sector_position(2) | assumption)+

lemma read_chain_ok:
  assumes "vol_ok s" "fchain s (c # cs)" "length acc \<le> b"
  shows "read_chain c b acc s = Some (take b (acc @ file_bytes s (c # cs)))"
  using assms(2,3)
proof (induction cs arbitrary: c acc)
  case Nil
  have v: "valid s c" and e: "0x0FFFFFF8 \<le> readFatEntry c s" using Nil.prems(1) by auto
  show ?case
    using read_cluster_data [OF assms(1) v Nil.prems(2)] e Nil.prems(2)
    by (auto simp: read_chain.simps [of c] file_bytes_def Let_def)
next
  case (Cons d ds)
  let ?acc = "take b (acc @ cluster_data s c)"
  have v: "valid s c" and f: "fchain s (d # ds)" "readFatEntry c s = d" using Cons.prems(1) by auto
  note nx = fchain_next [OF assms(1) Cons.prems(1)]
  have rc: "read_cluster (first_sector c s) (spc s) b acc s = (True, ?acc)"
    by (rule read_cluster_data [OF assms(1) v Cons.prems(2)])
  show ?case
  proof (cases "length acc < b \<and> length ?acc < b")
    case True
    have "read_chain c b acc s = read_chain d b ?acc s"
      using True rc nx f(2) unfolding read_chain.simps [of c b acc s] Let_def by auto
    also have "\<dots> = Some (take b (?acc @ file_bytes s (d # ds)))" by (rule Cons.IH [OF f(1)]) simp
    also have "?acc = acc @ cluster_data s c" using True by (auto simp: min_def split: if_splits)
    finally show ?thesis by (simp add: file_bytes_def)
  next
    case False
    then have "read_chain c b acc s = Some ?acc" using rc Cons.prems(2) by (auto simp: read_chain.simps [of c] Let_def)
    moreover have "take b (acc @ file_bytes s (c # d # ds)) = ?acc" using False Cons.prems(2) by (auto simp: file_bytes_def)
    ultimately show ?thesis by simp
  qed
qed

lemma readFile_ok:
  "vol_ok s \<Longrightarrow> fchain s (c # cs) \<Longrightarrow> readFile c n s = Some (take n (file_bytes s (c # cs)))"
  using read_chain_ok [of s c cs "[]" n] vol_okD(2,3) [of s] by (simp add: readFile_def)

section \<open>Writing\<close>

lemma length_data_block [simp]: "length (data_block data k n) = n"
  by (simp add: data_block_def)

lemma nth_data_block: "i < n \<Longrightarrow> data_block data k n ! i = data (k + i)"
  by (simp add: data_block_def)

text \<open>The number of blocks of \<open>k\<close> bytes that hold \<open>n\<close> bytes.\<close>

definition blocks :: "nat \<Rightarrow> nat \<Rightarrow> nat" where
  "blocks k n = (n + (k - 1)) div k"

lemma blocks_0 [simp]: "0 < k \<Longrightarrow> blocks k 0 = 0"
  by (simp add: blocks_def)

lemma blocks_step:
  assumes "0 < k" "0 < n"
  shows "blocks k n = Suc (blocks k (n - k))"
proof (cases "k < n")
  case True
  then have e: "n + (k - 1) = (n - k + (k - 1)) + k" by simp
  show ?thesis unfolding blocks_def e using div_add_self2 [of k "n - k + (k - 1)"] assms(1) by simp
next
  case False
  then have "k \<le> n + (k - 1)" "n + (k - 1) < k + k" using assms by linarith+
  then have "(n + (k - 1)) div k = 1" by (intro div_nat_eqI) simp_all
  then show ?thesis using assms(1) False by (simp add: blocks_def)
qed

lemma blocks_cover: "0 < k \<Longrightarrow> n \<le> blocks k n * k"
proof (induction n rule: less_induct)
  case (less n)
  show ?case
  proof (cases "n = 0")
    case False
    then have "n - k \<le> blocks k (n - k) * k" using less by simp
    then show ?thesis using blocks_step [OF less.prems, of n] False by simp
  qed simp
qed

lemma write_cluster_ok:
  assumes "vol_ok s" "\<And>k. k < n \<Longrightarrow> unat (sec + of_nat k) = unat sec + k" "unat sec + n \<le> 2 ^ 28"
  shows "\<exists>s'. write_cluster sec n data sz w s = (True, w + 512 * min n (blocks 512 (sz - w)), s') \<and> same_volume s' s \<and>
    (\<forall>k < min n (blocks 512 (sz - w)). disk s' (sec + of_nat k) = data_block data (w + 512 * k) 512) \<and>
    (\<forall>x. (\<forall>k < n. x \<noteq> sec + of_nat k) \<longrightarrow> disk s' x = disk s x)"
  using assms
proof (induction n arbitrary: sec w s)
  case 0
  then show ?case by simp
next
  case (Suc n)
  note v = vol_okD [OF Suc.prems(1)]
  show ?case
  proof (cases "w < sz")
    case False
    then show ?thesis using Suc.prems(1) by (intro exI [of _ s]) simp
  next
    case True
    let ?d = "data_block data w 512"
    let ?s = "s\<lparr>disk := (disk s)(sec := ?d)\<rparr>"
    have lt: "unat sec < 2 ^ 28" using Suc.prems(3) by simp
    have w: "diskWrite sec (data_block data w (512 * units (bps s))) (bps s) s = (True, ?s)"
      using diskWrite_ok [OF Suc.prems(1) lt, of ?d] by (simp add: v(2))
    have sv: "same_volume ?s s" by (rule same_volume_upd [OF Suc.prems(1)]) simp
    have shift: "sec + 1 + of_nat k = sec + of_nat (Suc k)" for k by simp
    have nx: "unat (sec + 1) = Suc (unat sec)" if "0 < n" using Suc.prems(2) [of 1] that by simp
    have pos: "unat (sec + 1 + of_nat k) = unat (sec + 1) + k" if "k < n" for k
      unfolding shift using Suc.prems(2) [of "Suc k"] that nx by (simp del: of_nat_Suc)
    have bound: "unat (sec + 1) + n \<le> 2 ^ 28"
    proof (cases "n = 0")
      case True
      then show ?thesis using Suc.prems(3) unat_plus_fit [of sec 1] by simp
    qed (use Suc.prems(3) nx in simp)
    obtain s' where s': "write_cluster (sec + 1) n data sz (w + 512) ?s = (True, w + 512 + 512 * min n (blocks 512 (sz - (w + 512))), s')"
      "same_volume s' ?s" "\<forall>k < min n (blocks 512 (sz - (w + 512))). disk s' (sec + 1 + of_nat k) = data_block data (w + 512 + 512 * k) 512"
      "\<forall>x. (\<forall>k < n. x \<noteq> sec + 1 + of_nat k) \<longrightarrow> disk s' x = disk ?s x"
      using Suc.IH [OF same_volume_ok [OF sv Suc.prems(1)] pos bound] by blast
    have m: "min (Suc n) (blocks 512 (sz - w)) = Suc (min n (blocks 512 (sz - (w + 512))))"
      using blocks_step [of 512 "sz - w"] True by simp
    have sec: "sec \<noteq> sec + 1 + of_nat k" if "k < n" for k
      unfolding shift using Suc.prems(2) [of "Suc k"] that by (auto simp del: of_nat_Suc)
    have "disk s' (sec + of_nat k) = data_block data (w + 512 * k) 512" if "k < Suc (min n (blocks 512 (sz - (w + 512))))" for k
    proof (cases k)
      case 0
      then show ?thesis using s'(4) sec by simp
    next
      case (Suc j)
      then show ?thesis using s'(3) [unfolded shift] that by (simp del: of_nat_Suc add: ac_simps)
    qed
    moreover have "disk s' x = disk s x" if x: "\<forall>k < Suc n. x \<noteq> sec + of_nat k" for x
    proof -
      have "x \<noteq> sec" using x [rule_format, of 0] by simp
      moreover have "x \<noteq> sec + 1 + of_nat k" if "k < n" for k unfolding shift using x that by blast
      ultimately show ?thesis using s'(4) by simp
    qed
    moreover have "write_cluster sec (Suc n) data sz w s = (True, w + 512 * Suc (min n (blocks 512 (sz - (w + 512)))), s')"
      using True w s'(1) v(2) by (simp add: Let_def)
    ultimately show ?thesis unfolding m using same_volume_trans [OF s'(2) sv] by blast
  qed
qed

abbreviation csize :: "fatfs \<Rightarrow> nat" where "csize s \<equiv> spc s * 512"

text \<open>Writing to the data area leaves the table alone.\<close>

lemma readFatEntry_data:
  assumes "vol_ok s" "same_volume s' s" "unat c < clusters s" "\<And>x. unat x < data_start s \<Longrightarrow> disk s' x = disk s x"
  shows "readFatEntry c s' = readFatEntry c s"
proof -
  note p = fat_position [OF assms(1,3)] and v = vol_okD [OF assms(1)]
  have "unat (fat_sector c s) < data_start s" using p(1,3) v(11) by linarith
  then have "disk s' (fat_sector c s) = disk s (fat_sector c s)" using assms(4) by blast
  then show ?thesis
    using readFatEntry_ok [OF assms(1,3)] readFatEntry_ok [OF same_volume_ok [OF assms(2,1)], of c] assms(3)
      same_volume_simps [OF assms(2)] by simp
qed

lemma write_cluster_data:
  assumes "vol_ok s" "valid s c" "w < sz"
  obtains w1 s' where "write_cluster (first_sector c s) (spc s) data sz w s = (True, w1, s')" "same_volume s' s"
    "w1 < sz \<longleftrightarrow> w + csize s < sz" "w1 < sz \<Longrightarrow> w1 = w + csize s"
    "\<And>j. j < csize s \<Longrightarrow> w + j < sz \<Longrightarrow> cluster_data s' c ! j = data (w + j)"
    "\<And>d. valid s d \<Longrightarrow> d \<noteq> c \<Longrightarrow> cluster_data s' d = cluster_data s d"
    "\<And>x. unat x < clusters s \<Longrightarrow> readFatEntry x s' = readFatEntry x s"
proof -
  let ?sec = "first_sector c s" and ?m = "min (spc s) (blocks 512 (sz - w))"
  note v = vol_okD [OF assms(1)]
  have pos: "unat (?sec + of_nat k) = unat ?sec + k" if "k < spc s" for k
    using sector_position(1) [OF assms(1,2) that] sector_position(1) [OF assms(1,2) v(3)] by simp
  have lastpos: "unat (?sec + of_nat (spc s - 1)) < 2 ^ 28" using sector_position(2) [OF assms(1,2), of "spc s - 1"] v(3) by simp
  have bound: "unat ?sec + spc s \<le> 2 ^ 28" using pos [of "spc s - 1"] lastpos v(3) by linarith
  obtain s' where s': "write_cluster ?sec (spc s) data sz w s = (True, w + 512 * ?m, s')" "same_volume s' s"
    "\<forall>k < ?m. disk s' (?sec + of_nat k) = data_block data (w + 512 * k) 512"
    "\<forall>x. (\<forall>k < spc s. x \<noteq> ?sec + of_nat k) \<longrightarrow> disk s' x = disk s x"
    using write_cluster_ok [OF assms(1) pos bound] by blast
  have cov: "sz - w \<le> blocks 512 (sz - w) * 512" by (rule blocks_cover) simp
  have full: "w + 512 * ?m < sz \<Longrightarrow> ?m = spc s" using cov by (cases "spc s \<le> blocks 512 (sz - w)") auto
  show thesis
  proof (rule that [of "w + 512 * ?m" s'])
    show "w + 512 * ?m < sz \<longleftrightarrow> w + csize s < sz" using full cov by (cases "spc s \<le> blocks 512 (sz - w)") auto
    show "w + 512 * ?m < sz \<Longrightarrow> w + 512 * ?m = w + csize s" using full by simp
    show "cluster_data s' c ! j = data (w + j)" if j: "j < csize s" "w + j < sz" for j
    proof -
      have q: "j div 512 < spc s" using j(1) by (simp add: less_mult_imp_div_less)
      have "j div 512 * 512 \<le> j" by simp
      then have "j div 512 * 512 < blocks 512 (sz - w) * 512" using j(2) cov by linarith
      then have m: "j div 512 < ?m" using q by simp
      have "cluster_data s' c ! j = disk s' (?sec + of_nat (j div 512)) ! (j mod 512)"
        using cluster_data_nth [OF same_volume_ok [OF s'(2) assms(1)], of j c] j(1) same_volume_simps [OF s'(2)] by simp
      also have "\<dots> = data_block data (w + 512 * (j div 512)) 512 ! (j mod 512)" using s'(3) m by simp
      also have "\<dots> = data (w + 512 * (j div 512) + j mod 512)" by (simp add: nth_data_block)
      finally show ?thesis by (simp add: add.assoc)
    qed
    show "cluster_data s' d = cluster_data s d" if "valid s d" "d \<noteq> c" for d
    proof (rule cluster_data_cong [OF s'(2)])
      fix i assume i: "i < spc s"
      have "first_sector d s + of_nat i \<noteq> ?sec + of_nat k" if "k < spc s" for k
        using sectors_differ [OF assms(1) \<open>valid s d\<close> assms(2) i that] \<open>d \<noteq> c\<close> by blast
      then show "disk s' (first_sector d s + of_nat i) = disk s (first_sector d s + of_nat i)" using s'(4) by blast
    qed
    show "readFatEntry x s' = readFatEntry x s" if "unat x < clusters s" for x
    proof (rule readFatEntry_data [OF assms(1) s'(2) that])
      fix y :: u32 assume y: "unat y < data_start s"
      have "y \<noteq> ?sec + of_nat k" if "k < spc s" for k using sector_position(1) [OF assms(1,2) that] y by auto
      then show "disk s' y = disk s y" using s'(4) by blast
    qed
  qed (use s' in auto)
qed

text \<open>
  What a run of the write loop from offset \<open>w\<close> on has achieved: the clusters \<open>xs\<close> hold the data and are linked,
  \<open>l\<close> is the cluster to be marked as the last, and all other clusters are as before.
\<close>

definition wrote :: "fatfs \<Rightarrow> fatfs \<Rightarrow> (nat \<Rightarrow> u8) \<Rightarrow> nat \<Rightarrow> nat \<Rightarrow> u32 list \<Rightarrow> u32 \<Rightarrow> bool" where
  "wrote s s' data sz w xs l \<longleftrightarrow> same_volume s' s \<and> distinct xs \<and> xs \<noteq> [] \<and> (\<forall>x \<in> set xs. valid s x) \<and> valid s l \<and>
     (\<forall>i j. i < length xs \<and> j < csize s \<and> w + i * csize s + j < sz \<longrightarrow>
        cluster_data s' (xs ! i) ! j = data (w + i * csize s + j)) \<and>
     (\<forall>i. Suc i < length xs \<longrightarrow> readFatEntry (xs ! i) s' = xs ! Suc i) \<and>
     (l = last xs \<and> 0x0FFFFFF8 \<le> readFatEntry l s' \<or> readFatEntry (last xs) s' = l \<and> l \<notin> set xs) \<and>
     (\<forall>x. valid s x \<and> x \<notin> set xs \<longrightarrow> cluster_data s' x = cluster_data s x \<and> readFatEntry x s' = readFatEntry x s)"

lemma wrote_step:
  assumes IH: "wrote s1 s' data sz (w + csize s) xs l" and sv: "same_volume s1 s"
    and c: "valid s c" "c \<notin> insert l (set xs)" "readFatEntry c s1 = hd xs"
    and dat: "\<And>j. j < csize s \<Longrightarrow> w + j < sz \<Longrightarrow> cluster_data s1 c ! j = data (w + j)"
    and oth: "\<And>x. valid s x \<Longrightarrow> x \<noteq> c \<Longrightarrow> x \<notin> set xs \<Longrightarrow>
      cluster_data s1 x = cluster_data s x \<and> readFatEntry x s1 = readFatEntry x s"
  shows "wrote s s' data sz w (c # xs) l"
proof -
  have i: "same_volume s' s1" "distinct xs" "xs \<noteq> []" "\<forall>x \<in> set xs. valid s x" "valid s l"
    "\<forall>i j. i < length xs \<and> j < csize s \<and> w + csize s + i * csize s + j < sz \<longrightarrow>
        cluster_data s' (xs ! i) ! j = data (w + csize s + i * csize s + j)"
    "\<forall>i. Suc i < length xs \<longrightarrow> readFatEntry (xs ! i) s' = xs ! Suc i"
    "l = last xs \<and> 0x0FFFFFF8 \<le> readFatEntry l s' \<or> readFatEntry (last xs) s' = l \<and> l \<notin> set xs"
    "\<forall>x. valid s x \<and> x \<notin> set xs \<longrightarrow> cluster_data s' x = cluster_data s1 x \<and> readFatEntry x s' = readFatEntry x s1"
    using IH unfolding wrote_def valid_cong [OF sv] same_volume_simps(1) [OF sv] by blast+
  have c': "cluster_data s' c = cluster_data s1 c" "readFatEntry c s' = hd xs" using i(9) c by auto
  have d: "cluster_data s' ((c # xs) ! k) ! j = data (w + k * csize s + j)"
    if "k < length (c # xs)" "j < csize s" "w + k * csize s + j < sz" for k j
  proof (cases k)
    case 0
    then show ?thesis using dat that c'(1) by simp
  next
    case (Suc m)
    then show ?thesis using i(6) [rule_format, of m j] that by (simp add: algebra_simps)
  qed
  have lk: "readFatEntry ((c # xs) ! k) s' = (c # xs) ! Suc k" if "Suc k < length (c # xs)" for k
    using i(3,7) c'(2) that by (cases k) (auto simp: hd_conv_nth)
  have o: "cluster_data s' x = cluster_data s x \<and> readFatEntry x s' = readFatEntry x s" if "valid s x" "x \<notin> set (c # xs)" for x
    using i(9) oth [of x] that by auto
  show ?thesis
    unfolding wrote_def using same_volume_trans [OF i(1) sv] i(2-5,8) c(1,2) d lk o by auto
qed

lemma write_chain_ok:
  assumes "vol_ok s" "fchain s (c # cs)" "w < sz"
    "blocks (csize s) (sz - w) \<le> length (c # cs) + card (free_clusters s)"
  shows "\<exists>ds l s'. write_chain c data sz w s = Some (Inr l, s') \<and> wrote s s' data sz w (c # ds) l \<and>
    length (c # ds) = blocks (csize s) (sz - w) \<and> insert l (set (c # ds)) \<subseteq> set (c # cs) \<union> free_clusters s"
  using assms
proof (induction "sz - w" arbitrary: s c cs w rule: less_induct)
  case less
  note v = vol_okD [OF less.prems(1)]
  have vc: "valid s c" using fchain_valid [OF less.prems(2)] by simp
  note nx = fchain_next [OF less.prems(1,2)]
  obtain w1 s1 where 1: "write_cluster (first_sector c s) (spc s) data sz w s = (True, w1, s1)" "same_volume s1 s"
    "w1 < sz \<longleftrightarrow> w + csize s < sz" "w1 < sz \<Longrightarrow> w1 = w + csize s"
    "\<And>j. j < csize s \<Longrightarrow> w + j < sz \<Longrightarrow> cluster_data s1 c ! j = data (w + j)"
    "\<And>d. valid s d \<Longrightarrow> d \<noteq> c \<Longrightarrow> cluster_data s1 d = cluster_data s d"
    "\<And>x. unat x < clusters s \<Longrightarrow> readFatEntry x s1 = readFatEntry x s"
    by (rule write_cluster_data [OF less.prems(1) vc less.prems(3), of data]) blast
  have fat1: "readFatEntry x s1 = readFatEntry x s" if "valid s x" for x using 1(7) that by (simp add: validD)
  have step: "blocks (csize s) (sz - w) = Suc (blocks (csize s) (sz - (w + csize s)))"
    using blocks_step [of "csize s" "sz - w"] v(3) less.prems(3) by simp
  have ok1: "vol_ok s1" by (rule same_volume_ok [OF 1(2) less.prems(1)])
  show ?case
  proof (cases "w1 < sz")
    case False
    have need: "blocks (csize s) (sz - w) = 1" using step False 1(3) v(3) by simp
    define l where "l = (if cs = [] then c else hd cs)"
    have call: "write_chain c data sz w s = Some (Inr l, s1)"
      using less.prems(3) 1(1) False fat1 [OF vc] nx
      by (auto simp: write_chain.simps [of c] write_chain.simps [of "hd cs"] Let_def l_def)
    have l: "l \<in> set (c # cs)" by (auto simp: l_def)
    have "c \<noteq> hd cs" if "cs \<noteq> []" using fchain_distinct [OF less.prems(1,2)] that by (cases cs) auto
    then have "wrote s s1 data sz w [c] l"
      unfolding wrote_def using 1(2,5,6) fat1 vc nx fchain_valid [OF less.prems(2) l] by (auto simp: l_def)
    then show ?thesis using call need l by (intro exI [of _ "[]"] exI [of _ l] exI [of _ s1]) auto
  next
    case True
    then have w1: "w1 = w + csize s" by (rule 1(4))
    have dec: "sz - w1 < sz - w" using w1 v(3) less.prems(3) by simp
    have free1: "free_clusters s1 = free_clusters s"
      by (auto simp: free_clusters_def valid_cong [OF 1(2)] fat1)
    have cs_s1: "csize s1 = csize s" using same_volume_simps(1) [OF 1(2)] by simp
    show ?thesis
    proof (cases cs)
      case (Cons d cs')
      have fc: "fchain s1 (d # cs')"
        using less.prems(2) Cons fchain_cong [OF 1(2), of "d # cs'"] fat1 fchain_valid by auto
      obtain ds l s' where IH: "write_chain d data sz w1 s1 = Some (Inr l, s')" "wrote s1 s' data sz w1 (d # ds) l"
        "length (d # ds) = blocks (csize s) (sz - w1)" "insert l (set (d # ds)) \<subseteq> set (d # cs') \<union> free_clusters s"
        using less.hyps [OF dec ok1 fc True] less.prems(4) step w1 free1 cs_s1 Cons by auto
      have c: "c \<notin> insert l (set (d # ds))"
        using IH(4) fchain_distinct [OF less.prems(1,2)] Cons fchain_nonfree [OF less.prems(1,2), of c]
        by (auto simp: free_clusters_def)
      have "readFatEntry c s = d" using less.prems(2) Cons by simp
      then have "wrote s s' data sz w (c # d # ds) l"
        using 1(5,6) fat1 vc by (intro wrote_step [OF IH(2) [unfolded w1] 1(2) vc c]) auto
      moreover have "write_chain c data sz w s = Some (Inr l, s')"
        using less.prems(3) 1(1) fat1 [OF vc] nx Cons IH(1) by (simp add: write_chain.simps [of c] Let_def)
      ultimately show ?thesis
        using IH(3,4) step w1 Cons by (intro exI [of _ "d # ds"] exI [of _ l] exI [of _ s']) auto
    next
      case Nil
      have "blocks (csize s) (sz - w1) \<noteq> 0" using blocks_step [of "csize s" "sz - w1"] True v(3) by simp
      then have ne: "free_clusters s1 \<noteq> {}" using less.prems(4) step w1 Nil free1 by auto
      obtain n s2 where 2: "allocateCluster s1 = (n, s2)" "n \<in> free_clusters s1" "same_volume s2 s1"
        "\<forall>x. valid s1 x \<longrightarrow> readFatEntry x s2 = (if x = n then 0x0FFFFFF8 else readFatEntry x s1)"
        "\<forall>x. data_start s1 \<le> unat x \<longrightarrow> disk s2 x = disk s1 x"
        using allocateCluster_spec(2) [OF ok1 ne] by blast
      have vn: "valid s n" and nc: "n \<noteq> c"
        using 2(2) [unfolded free1] fchain_nonfree [OF less.prems(1,2), of c] by (auto simp: free_clusters_def)
      have ok2: "vol_ok s2" by (rule same_volume_ok [OF 2(3) ok1])
      have sv2: "same_volume s2 s" by (rule same_volume_trans [OF 2(3) 1(2)])
      obtain s3 where 3: "updateFatEntry c n s2 = (True, s3)" "same_volume s3 s2"
        "\<And>x. unat x < clusters s2 \<Longrightarrow> readFatEntry x s3 = (if x = c then n AND 0x0FFFFFFF else readFatEntry x s2)"
        "\<And>x. data_start s2 \<le> unat x \<Longrightarrow> disk s3 x = disk s2 x"
        by (rule update_fat [OF ok2, of c n]) (use vc sv2 in \<open>auto simp: same_volume_simps validD\<close>)
      have sv3: "same_volume s3 s" by (rule same_volume_trans [OF 3(2) sv2])
      have ok3: "vol_ok s3" by (rule same_volume_ok [OF sv3 less.prems(1)])
      have fat3: "readFatEntry x s3 = (if x = c then n else if x = n then 0x0FFFFFF8 else readFatEntry x s)" if "valid s x" for x
        using 3(3) [of x] 2(4) fat1 [OF that] that valid_small(3) [OF less.prems(1) vn]
        by (auto simp: same_volume_simps [OF sv2] validD valid_cong [OF 1(2)])
      have data3: "cluster_data s3 x = cluster_data s1 x" if "valid s x" for x
      proof -
        have "cluster_data s3 x = cluster_data s2 x"
          by (rule cluster_data_fat_update [OF ok2 _ 3(2,4)]) (use that valid_cong [OF sv2] in auto)
        also have "\<dots> = cluster_data s1 x"
          by (rule cluster_data_fat_update [OF ok1 _ 2(3)]) (use that valid_cong [OF 1(2)] 2(5) in auto)
        finally show ?thesis .
      qed
      have fc: "fchain s3 [n]" using fat3 [OF vn] nc vn valid_cong [OF sv3] by simp
      have free3: "free_clusters s3 = free_clusters s - {n}"
        using nc valid_small(4) [OF less.prems(1) vn] fchain_nonfree [OF less.prems(1,2), of c]
        by (auto simp: free_clusters_def valid_cong [OF sv3] fat3 split: if_splits)
      have cs_s3: "csize s3 = csize s" using same_volume_simps(1) [OF sv3] by simp
      have "card (free_clusters s) = Suc (card (free_clusters s3))"
        unfolding free3 using 2(2) free1 card_Suc_Diff1 [of "free_clusters s" n] by simp
      then have bud: "blocks (csize s3) (sz - w1) \<le> length [n] + card (free_clusters s3)"
        using less.prems(4) step w1 Nil cs_s3 by simp
      obtain ds l s' where IH: "write_chain n data sz w1 s3 = Some (Inr l, s')" "wrote s3 s' data sz w1 (n # ds) l"
        "length (n # ds) = blocks (csize s) (sz - w1)" "insert l (set (n # ds)) \<subseteq> set [n] \<union> free_clusters s3"
        using less.hyps [OF dec ok3 fc True bud] cs_s3 by auto
      have c: "c \<notin> insert l (set (n # ds))"
        using IH(4) nc fchain_nonfree [OF less.prems(1,2), of c] unfolding free3 by (auto simp: free_clusters_def)
      have "wrote s s' data sz w (c # n # ds) l"
        using 1(5,6) fat3 data3 vc vn by (intro wrote_step [OF IH(2) [unfolded w1] sv3 vc c]) auto
      moreover have "write_chain c data sz w s = Some (Inr l, s')"
      proof -
        have "0x0FFFFFF8 \<le> readFatEntry c s1" using fat1 [OF vc] nx Nil by simp
        then show ?thesis
          unfolding write_chain.simps [of c data sz w s] Let_def
          using less.prems(3) 1(1) True 2(1) 3(1) IH(1) valid_small(4) [OF less.prems(1) vn] by simp
      qed
      moreover have "insert l (set (c # n # ds)) \<subseteq> set (c # cs) \<union> free_clusters s"
        using IH(4) 2(2) free1 free3 by auto
      ultimately show ?thesis
        using IH(3) step w1 by (intro exI [of _ "n # ds"] exI [of _ l] exI [of _ s']) auto
    qed
  qed
qed

lemma fchain_links:
  "xs \<noteq> [] \<Longrightarrow> \<forall>x \<in> set xs. valid s x \<Longrightarrow> \<forall>i. Suc i < length xs \<longrightarrow> readFatEntry (xs ! i) s = xs ! Suc i \<Longrightarrow>
     0x0FFFFFF8 \<le> readFatEntry (last xs) s \<Longrightarrow> fchain s xs"
proof (induction s xs rule: fchain.induct)
  case (3 s c d cs)
  have "readFatEntry ((d # cs) ! i) s = (d # cs) ! Suc i" if "Suc i < length (d # cs)" for i
    using 3(4) [rule_format, of "Suc i"] that by simp
  then have "fchain s (d # cs)" using 3 by simp
  moreover have "readFatEntry c s = d" using 3(4) [rule_format, of 0] by simp
  ultimately show ?case using 3 by simp
qed auto

lemma file_bytes_take:
  assumes "vol_ok s" "n \<le> length xs * csize s" "0 < csize s"
    "\<And>i j. i < length xs \<Longrightarrow> j < csize s \<Longrightarrow> i * csize s + j < n \<Longrightarrow> cluster_data s (xs ! i) ! j = data (i * csize s + j)"
  shows "take n (file_bytes s (xs @ ys)) = map data [0..<n]"
proof (rule nth_equalityI)
  have len: "length (file_bytes s zs) = length zs * csize s" for zs
    unfolding file_bytes_def using length_cluster_data [OF assms(1)] by (simp add: length_concat_blocks)
  have l: "n \<le> length (file_bytes s (xs @ ys))" using assms(2) by (simp only: len) (simp add: algebra_simps)
  then show "length (take n (file_bytes s (xs @ ys))) = length (map data [0..<n])" by simp
  fix k assume "k < length (take n (file_bytes s (xs @ ys)))"
  then have k: "k < n" by simp
  then have lt: "k < length xs * csize s" using assms(2) by simp
  have "file_bytes s (xs @ ys) ! k = file_bytes s xs ! k"
    using lt len [of xs] by (simp add: file_bytes_def nth_append)
  also have "\<dots> = cluster_data s (xs ! (k div csize s)) ! (k mod csize s)"
    unfolding file_bytes_def using lt length_cluster_data [OF assms(1)] by (intro nth_concat_blocks) auto
  also have "\<dots> = data (k div csize s * csize s + k mod csize s)"
    using assms(3) lt k by (intro assms(4)) (simp_all only: div_mult_mod_eq less_mult_imp_div_less mod_less_divisor)
  also have "\<dots> = data k" by (simp only: div_mult_mod_eq)
  finally show "take n (file_bytes s (xs @ ys)) ! k = map data [0..<n] ! k" using k by simp
qed

lemma writeFile_spec:
  assumes "vol_ok s" "fchain s (c # cs)" "0 < sz" "blocks (csize s) sz \<le> length (c # cs) + card (free_clusters s)"
  obtains s' xs where "writeFile c data sz s = Some (True, s')" "same_volume s' s" "fchain s' (c # xs)"
    "readFile c sz s' = Some (map data [0..<sz])" "set (c # xs) \<subseteq> set (c # cs) \<union> free_clusters s"
    "\<And>x. valid s x \<Longrightarrow> x \<notin> set (c # cs) \<Longrightarrow> x \<notin> free_clusters s \<Longrightarrow>
        cluster_data s' x = cluster_data s x \<and> readFatEntry x s' = readFatEntry x s"
proof -
  note v = vol_okD [OF assms(1)]
  obtain ds l s1 where 1: "write_chain c data sz 0 s = Some (Inr l, s1)" "wrote s s1 data sz 0 (c # ds) l"
    "length (c # ds) = blocks (csize s) sz" "insert l (set (c # ds)) \<subseteq> set (c # cs) \<union> free_clusters s"
    using write_chain_ok [OF assms(1,2,3), of data] assms(4) by auto
  let ?xs = "c # ds"
  have w: "same_volume s1 s" "\<forall>x \<in> set ?xs. valid s x" "valid s l" "distinct ?xs"
    "\<forall>i j. i < length ?xs \<and> j < csize s \<and> i * csize s + j < sz \<longrightarrow> cluster_data s1 (?xs ! i) ! j = data (i * csize s + j)"
    "\<forall>i. Suc i < length ?xs \<longrightarrow> readFatEntry (?xs ! i) s1 = ?xs ! Suc i"
    "l = last ?xs \<and> 0x0FFFFFF8 \<le> readFatEntry l s1 \<or> readFatEntry (last ?xs) s1 = l \<and> l \<notin> set ?xs"
    "\<forall>x. valid s x \<and> x \<notin> set ?xs \<longrightarrow> cluster_data s1 x = cluster_data s x \<and> readFatEntry x s1 = readFatEntry x s"
    using 1(2) unfolding wrote_def by simp_all
  have ok1: "vol_ok s1" by (rule same_volume_ok [OF w(1) assms(1)])
  have vl: "unat l < clusters s1" using w(3) validD same_volume_simps(2) [OF w(1)] by simp
  obtain s2 where 2: "updateFatEntry l 0x0FFFFFF8 s1 = (True, s2)" "same_volume s2 s1"
    "\<And>x. unat x < clusters s1 \<Longrightarrow> readFatEntry x s2 = (if x = l then 0x0FFFFFF8 AND 0x0FFFFFFF else readFatEntry x s1)"
    "\<And>x. data_start s1 \<le> unat x \<Longrightarrow> disk s2 x = disk s1 x"
    by (rule update_fat [OF ok1 vl, of "0x0FFFFFF8"]) blast
  have sv2: "same_volume s2 s" by (rule same_volume_trans [OF 2(2) w(1)])
  have ok2: "vol_ok s2" by (rule same_volume_ok [OF sv2 assms(1)])
  have fat2: "readFatEntry x s2 = (if x = l then 0x0FFFFFF8 else readFatEntry x s1)" if "valid s x" for x
    using 2(3) [of x] that same_volume_simps(2) [OF w(1)] by (simp add: validD)
  have data2: "cluster_data s2 x = cluster_data s1 x" if "valid s x" for x
    by (rule cluster_data_fat_update [OF ok1 _ 2(2,4)]) (use that valid_cong [OF w(1)] in auto)
  have idx: "?xs ! i \<noteq> l" if "Suc i < length ?xs" for i
  proof
    assume e: "?xs ! i = l"
    then have "l \<in> set ?xs" using nth_mem [of i ?xs] that by simp
    then have "?xs ! i = ?xs ! (length ?xs - 1)" using w(7) e last_conv_nth [of ?xs] by simp
    then show False using nth_eq_iff_index_eq [OF w(4), of i "length ?xs - 1"] that by simp
  qed
  define ys where "ys = (if l = last ?xs then [] else [l])"
  have lnk: "readFatEntry (?xs ! i) s2 = ?xs ! Suc i" if "Suc i < length ?xs" for i
    using w(2,6) that idx [OF that] fat2 [of "?xs ! i"] nth_mem [of i ?xs] by auto
  have fc: "fchain s2 (?xs @ ys)"
  proof (rule fchain_links)
    show "\<forall>x \<in> set (?xs @ ys). valid s2 x" using w(2,3) by (auto simp: ys_def valid_cong [OF sv2])
    show "0x0FFFFFF8 \<le> readFatEntry (last (?xs @ ys)) s2" using fat2 [OF w(3)] by (auto simp: ys_def)
    show "\<forall>i. Suc i < length (?xs @ ys) \<longrightarrow> readFatEntry ((?xs @ ys) ! i) s2 = (?xs @ ys) ! Suc i"
    proof (intro allI impI)
      fix i assume i: "Suc i < length (?xs @ ys)"
      show "readFatEntry ((?xs @ ys) ! i) s2 = (?xs @ ys) ! Suc i"
      proof (cases "Suc i < length ?xs")
        case True
        have "(?xs @ ys) ! j = ?xs ! j" if "j < length ?xs" for j using that by (simp only: nth_append if_True)
        then show ?thesis using lnk [OF True] True by (simp only: Suc_lessD)
      next
        case False
        then have "ys = [l]" "l \<noteq> last ?xs" and e: "i = length ds" using i by (auto simp: ys_def split: if_splits)
        then have "readFatEntry (last ?xs) s2 = l" using w(2,7) fat2 [of "last ?xs"] last_in_set [of ?xs] by auto
        moreover have "(?xs @ [l]) ! i = last ?xs" "(?xs @ [l]) ! Suc i = l"
          unfolding e last_conv_nth [OF list.simps(3)] by (simp_all only: nth_append length_Cons) simp_all
        ultimately show ?thesis using \<open>ys = [l]\<close> by (simp only:)
      qed
    qed
  qed simp
  have "take sz (file_bytes s2 (?xs @ ys)) = map data [0..<sz]"
  proof (rule file_bytes_take [OF ok2])
    have cz: "csize s2 = csize s" using same_volume_simps(1) [OF sv2] by simp
    show "0 < csize s2" using v(3) cz by simp
    show "sz \<le> length ?xs * csize s2" using blocks_cover [of "csize s" sz] v(3) 1(3) cz by simp
    show "cluster_data s2 (?xs ! i) ! j = data (i * csize s2 + j)"
      if "i < length ?xs" "j < csize s2" "i * csize s2 + j < sz" for i j
    proof -
      have "cluster_data s2 (?xs ! i) = cluster_data s1 (?xs ! i)" using w(2) data2 nth_mem [OF that(1)] by blast
      then show ?thesis using w(5) that cz by simp
    qed
  qed
  then have rd: "readFile c sz s2 = Some (map data [0..<sz])" using readFile_ok [OF ok2] fc by simp
  have sub: "set (?xs @ ys) \<subseteq> set (c # cs) \<union> free_clusters s" using 1(4) by (auto simp: ys_def)
  show thesis
  proof (rule that [of s2 "ds @ ys"])
    show "writeFile c data sz s = Some (True, s2)" using 1(1) 2(1) v(2,3) by (simp add: writeFile_def)
    show "cluster_data s2 x = cluster_data s x \<and> readFatEntry x s2 = readFatEntry x s"
      if "valid s x" "x \<notin> set (c # cs)" "x \<notin> free_clusters s" for x
      using w(8) 1(4) fat2 [of x] data2 [of x] that by auto
  qed (use sv2 fc rd sub in auto)
qed

text \<open>
  C2: a file reads back what was written to it. For a file with chain \<open>c # cs\<close> on a sound volume and
  data that fits into the chain and the free clusters, \<open>writeFile\<close> returns true (the loop ends), extends
  the chain as needed, and \<open>readFile\<close> then returns exactly the data. Every other file, and every cluster neither free nor
  of this file, keeps its chain and its contents.
\<close>

theorem writeFile_readFile:
  assumes "vol_ok s" "fchain s (c # cs)" "0 < sz" "blocks (csize s) sz \<le> length (c # cs) + card (free_clusters s)"
  shows "\<exists>s' xs. writeFile c data sz s = Some (True, s') \<and> vol_ok s' \<and> fchain s' (c # xs) \<and>
    readFile c sz s' = Some (map data [0..<sz]) \<and>
    (\<forall>zs n. fchain s zs \<and> set zs \<inter> set (c # cs) = {} \<longrightarrow>
       fchain s' zs \<and> file_bytes s' zs = file_bytes s zs \<and> readFile (hd zs) n s' = readFile (hd zs) n s)"
proof -
  obtain s' xs where 1: "writeFile c data sz s = Some (True, s')" "same_volume s' s" "fchain s' (c # xs)"
    "readFile c sz s' = Some (map data [0..<sz])"
    "\<And>x. valid s x \<Longrightarrow> x \<notin> set (c # cs) \<Longrightarrow> x \<notin> free_clusters s \<Longrightarrow>
        cluster_data s' x = cluster_data s x \<and> readFatEntry x s' = readFatEntry x s"
    by (rule writeFile_spec [OF assms, of data]) blast
  have ok': "vol_ok s'" by (rule same_volume_ok [OF 1(2) assms(1)])
  have "fchain s' zs \<and> file_bytes s' zs = file_bytes s zs \<and> readFile (hd zs) n s' = readFile (hd zs) n s"
    if z: "fchain s zs" "set zs \<inter> set (c # cs) = {}" for zs n
  proof -
    have same: "cluster_data s' x = cluster_data s x \<and> readFatEntry x s' = readFatEntry x s" if "x \<in> set zs" for x
      using 1(5) [of x] that z(2) fchain_valid [OF z(1) that] fchain_nonfree [OF assms(1) z(1) that]
      by (auto simp: free_clusters_def)
    have f: "fchain s' zs" using fchain_cong [OF 1(2)] same z(1) by blast
    have b: "file_bytes s' zs = file_bytes s zs" unfolding file_bytes_def using same by (metis (no_types, lifting) map_eq_conv)
    obtain y ys where "zs = y # ys" using z(1) by (cases zs) auto
    with f b z(1) show ?thesis using readFile_ok [OF assms(1), of y ys n] readFile_ok [OF ok', of y ys n] by simp
  qed
  with 1 ok' show ?thesis by blast
qed

theorem writeFile_readFile_witness:
  "\<exists>s s'. writeFile 2 (\<lambda>i. of_nat i) 1000 s = Some (True, s') \<and> readFile 2 1000 s' = Some (map (\<lambda>i. of_nat i) [0..<1000])"
proof -
  obtain c s1 where 1: "allocateCluster fat_example = (c, s1)" "c \<in> free_clusters fat_example"
    "\<forall>x \<in> free_clusters fat_example. c \<le> x" "same_volume s1 fat_example"
    "\<forall>x. valid fat_example x \<longrightarrow> readFatEntry x s1 = (if x = c then 0x0FFFFFF8 else readFatEntry x fat_example)"
    using allocateCluster_spec(2) [OF fat_example_ok] fat_example_free by blast
  have v: "valid fat_example c" using 1(2) by (simp add: free_clusters_def)
  have "unat c \<le> 2" using 1(3) fat_example_free by (auto simp: word_le_nat_alt)
  then have c: "c = 2" using v by (auto simp: valid_def word_unat_eq_iff)
  have v3: "valid fat_example 3" by (simp add: valid_def fat_example_def)
  have "fchain s1 [2]" using 1(5) v c valid_cong [OF 1(4)] by simp
  moreover have "3 \<in> free_clusters s1"
    using 1(5) v3 c fat_example_fat [OF v3] by (simp add: free_clusters_def valid_cong [OF 1(4)])
  then have "1 \<le> card (free_clusters s1)" by (metis One_nat_def Suc_leI card_gt_0_iff empty_iff finite_free)
  moreover have "csize s1 = 512" using same_volume_simps(1) [OF 1(4)] by (simp add: fat_example_def)
  ultimately show ?thesis
    using writeFile_readFile [OF same_volume_ok [OF 1(4) fat_example_ok], of 2 "[]" 1000 "\<lambda>i. of_nat i"]
    by (auto simp: blocks_def)
qed

end
