(* ===== verification/Fat_Directory_Proofs.thy ===== *)
theory Fat_Directory_Proofs
  imports Fat_Directory Fat_Files
begin

text \<open>
  Directories on a sound volume. The loops over sectors and clusters of a directory visit the sectors of its
  chain in order; a directory is therefore the list of its live entries, lookup is a lookup in that list, and the
  operations by name are updates of it. Path lookup is a fold over the components of the path.
\<close>

declare match_entry.simps [simp del] findFileFrom.simps [simp del]

section \<open>The sectors of a directory\<close>

definition dir_sectors :: "fatfs \<Rightarrow> u32 list \<Rightarrow> u32 list" where
  "dir_sectors s cs = concat (map (\<lambda>c. map (\<lambda>i. first_sector c s + of_nat i) [0..<spc s]) cs)"

lemma dir_sectors_simps [simp]:
  "dir_sectors s [] = []"
  "dir_sectors s (c # cs) = map (\<lambda>i. first_sector c s + of_nat i) [0..<spc s] @ dir_sectors s cs"
  by (simp_all add: dir_sectors_def)

lemma dir_sectors_cong: "same_volume s' s \<Longrightarrow> dir_sectors s' cs = dir_sectors s cs"
  by (simp add: dir_sectors_def same_volume_simps)

lemma dir_sector_obtain:
  assumes "x \<in> set (dir_sectors s cs)"
  obtains c i where "c \<in> set cs" "i < spc s" "x = first_sector c s + of_nat i"
  using assms by (auto simp: dir_sectors_def)

lemma dir_sector_position:
  assumes "vol_ok s" "fchain s cs" "x \<in> set (dir_sectors s cs)"
  shows "data_start s \<le> unat x" "unat x < 2 ^ 28"
proof -
  obtain c i where c: "c \<in> set cs" "i < spc s" "x = first_sector c s + of_nat i"
    by (rule dir_sector_obtain [OF assms(3)])
  note p = sector_position [OF assms(1) fchain_valid [OF assms(2) c(1)] c(2)]
  show "data_start s \<le> unat x" "unat x < 2 ^ 28" using p c(3) by simp_all
qed

lemma distinct_dir_sectors:
  assumes "vol_ok s" "\<And>c. c \<in> set cs \<Longrightarrow> valid s c" "distinct cs"
  shows "distinct (dir_sectors s cs)"
  using assms(2,3)
proof (induction cs)
  case (Cons c cs)
  have "distinct (map (\<lambda>i. first_sector c s + of_nat i) [0..<spc s])"
    using sectors_differ [OF assms(1), of c c] Cons.prems(1) by (auto simp: distinct_map inj_on_def)
  moreover have "x \<notin> set (dir_sectors s cs)" if "x = first_sector c s + of_nat i" "i < spc s" for x i
  proof
    assume "x \<in> set (dir_sectors s cs)"
    then obtain d j where d: "d \<in> set cs" "j < spc s" "x = first_sector d s + of_nat j" by (rule dir_sector_obtain)
    have "c = d" using sectors_differ [OF assms(1), of c d i j] Cons.prems(1) d that by auto
    with d(1) Cons.prems(2) show False by simp
  qed
  ultimately show ?case using Cons by auto
qed simp

section \<open>The walk\<close>

text \<open>The visitor run over a list of sectors; the walk over a chain is this run over the sectors of the chain.\<close>

fun walk_list :: "'r visitor \<Rightarrow> u32 list \<Rightarrow> fatfs \<Rightarrow> ('r option \<times> fatfs) option" where
  "walk_list visit [] s = Some (None, s)"
| "walk_list visit (x # xs) s =
    do {
      (r, s1) \<leftarrow> visit x (disk s x) s;
      case r of Some y \<Rightarrow> Some (Some y, s1) | None \<Rightarrow> walk_list visit xs s1
    }"

text \<open>Same volume, same table.\<close>

definition same_fat :: "fatfs \<Rightarrow> fatfs \<Rightarrow> bool" where
  "same_fat s' s \<longleftrightarrow> same_volume s' s \<and> (\<forall>c. valid s c \<longrightarrow> readFatEntry c s' = readFatEntry c s)"

lemma same_fat_refl [simp]: "vol_ok s \<Longrightarrow> same_fat s s"
  by (simp add: same_fat_def)

lemma same_fat_trans: "same_fat s2 s1 \<Longrightarrow> same_fat s1 s \<Longrightarrow> same_fat s2 s"
  unfolding same_fat_def using same_volume_trans valid_cong by metis

lemma same_fatD: "same_fat s' s \<Longrightarrow> same_volume s' s" "same_fat s' s \<Longrightarrow> valid s c \<Longrightarrow> readFatEntry c s' = readFatEntry c s"
  by (simp_all add: same_fat_def)

lemma same_fat_chain: "same_fat s' s \<Longrightarrow> fchain s cs \<Longrightarrow> fchain s' cs"
  using fchain_cong [OF same_fatD(1)] same_fatD(2) fchain_valid by metis

lemma same_fat_free: "same_fat s' s \<Longrightarrow> free_clusters s' = free_clusters s"
  unfolding free_clusters_def using same_fatD valid_cong by metis

lemma same_fat_data:
  assumes "vol_ok s" "length d = 512" "data_start s \<le> unat x"
  shows "same_fat (s\<lparr>disk := (disk s)(x := d)\<rparr>) s"
  unfolding same_fat_def
proof (intro conjI allI impI)
  show sv: "same_volume (s\<lparr>disk := (disk s)(x := d)\<rparr>) s" by (rule same_volume_upd [OF assms(1,2)])
  fix c assume "valid s c"
  then show "readFatEntry c (s\<lparr>disk := (disk s)(x := d)\<rparr>) = readFatEntry c s"
    using assms(3) by (intro readFatEntry_data [OF assms(1) sv]) (auto simp: validD)
qed

definition tame :: "'r visitor \<Rightarrow> u32 list \<Rightarrow> fatfs \<Rightarrow> bool" where
  "tame visit xs s \<longleftrightarrow> (\<forall>t. \<forall>x \<in> set xs. same_fat t s \<longrightarrow> (\<exists>r t'. visit x (disk t x) t = Some (r, t') \<and> same_fat t' s))"

lemma tameD: "tame visit xs s \<Longrightarrow> x \<in> set xs \<Longrightarrow> same_fat t s \<Longrightarrow> \<exists>r t'. visit x (disk t x) t = Some (r, t') \<and> same_fat t' s"
  by (simp add: tame_def)

lemma tame_append [simp]: "tame visit (xs @ ys) s \<longleftrightarrow> tame visit xs s \<and> tame visit ys s"
  by (auto simp: tame_def)

lemma walk_list_tame:
  "tame visit xs s \<Longrightarrow> same_fat t s \<Longrightarrow> \<exists>r t'. walk_list visit xs t = Some (r, t') \<and> same_fat t' s"
proof (induction xs arbitrary: t)
  case (Cons x xs)
  obtain r t' where v: "visit x (disk t x) t = Some (r, t')" "same_fat t' s" using tameD [OF Cons.prems(1)] Cons.prems(2) by force
  have "tame visit xs s" using Cons.prems(1) by (simp add: tame_def)
  from Cons.IH [OF this v(2)] v show ?case by (cases r) auto
qed auto

lemma walk_list_append:
  "walk_list visit (xs @ ys) s =
     do { (r, s1) \<leftarrow> walk_list visit xs s; case r of Some y \<Rightarrow> Some (Some y, s1) | None \<Rightarrow> walk_list visit ys s1 }"
  by (induction xs arbitrary: s) (auto simp: bind_eq_Some_conv split: option.splits prod.splits Option.bind_splits)

lemma walk_sectors_list:
  assumes "vol_ok s" "tame visit (map (\<lambda>i. x + of_nat i) [0..<n]) s" "same_fat t s" "\<And>i. i < n \<Longrightarrow> unat (x + of_nat i) < 2 ^ 28"
  shows "walk_sectors visit fail x n t = walk_list visit (map (\<lambda>i. x + of_nat i) [0..<n]) t"
  using assms(2-4)
proof (induction n arbitrary: x t)
  case (Suc n)
  have up: "map (\<lambda>i. x + of_nat i) [0..<Suc n] = x # map (\<lambda>i. x + 1 + of_nat i) [0..<n]"
    by (simp add: upt_conv_Cons map_Suc_upt [symmetric] comp_def ac_simps del: upt_Suc)
  have okt: "vol_ok t" by (rule same_volume_ok [OF same_fatD(1) [OF Suc.prems(2)] assms(1)])
  have rd: "readSector x t = Some (disk t x)" using readSector_ok [OF okt] Suc.prems(3) [of 0] by simp
  obtain r t' where v: "visit x (disk t x) t = Some (r, t')" "same_fat t' s"
    using tameD [OF Suc.prems(1) [unfolded up]] Suc.prems(2) by force
  have tm: "tame visit (map (\<lambda>i. x + 1 + of_nat i) [0..<n]) s" using Suc.prems(1) unfolding up by (simp add: tame_def)
  have "walk_sectors visit fail (x + 1) n t' = walk_list visit (map (\<lambda>i. x + 1 + of_nat i) [0..<n]) t'"
    by (rule Suc.IH [OF tm v(2)]) (use Suc.prems(3) [of "Suc i" for i] in \<open>simp add: ac_simps\<close>)
  then show ?case unfolding up using rd v(1) by (cases r) auto
qed simp

lemma walk_directory_list:
  assumes "vol_ok s" "fchain s (c # cs)" "tame visit (dir_sectors s (c # cs)) s" "same_fat t s"
  shows "walk_directory visit fail eoc c t =
    map_option (\<lambda>(r, t'). (case r of Some y \<Rightarrow> y | None \<Rightarrow> eoc, t')) (walk_list visit (dir_sectors s (c # cs)) t)"
  using assms(2-4)
proof (induction cs arbitrary: c t)
  case Nil
  let ?xs = "map (\<lambda>i. first_sector c s + of_nat i) [0..<spc s]"
  have vc: "valid s c" using Nil.prems(1) by simp
  note sv = same_fatD(1) [OF Nil.prems(3)]
  have w: "walk_sectors visit fail (first_sector c t) (spc t) t = walk_list visit ?xs t"
    unfolding same_volume_simps(1,5) [OF sv]
    by (rule walk_sectors_list [OF assms(1) _ Nil.prems(3)]) (use Nil.prems(2) sector_position(2) [OF assms(1) vc] in auto)
  obtain r t' where r: "walk_list visit ?xs t = Some (r, t')" "same_fat t' s"
    using walk_list_tame [of visit ?xs s t] Nil.prems(2,3) by auto
  have "0x0FFFFFF8 \<le> readFatEntry c t'" using same_fatD(2) [OF r(2) vc] Nil.prems(1) by simp
  then show ?case unfolding walk_directory.simps [of visit fail eoc c t] w using r(1) by (cases r) (auto simp: Let_def)
next
  case (Cons d ds)
  let ?xs = "map (\<lambda>i. first_sector c s + of_nat i) [0..<spc s]"
  have vc: "valid s c" and fd: "fchain s (d # ds)" and tm: "tame visit ?xs s" "tame visit (dir_sectors s (d # ds)) s"
    using Cons.prems(1,2) by auto
  note sv = same_fatD(1) [OF Cons.prems(3)]
  have w: "walk_sectors visit fail (first_sector c t) (spc t) t = walk_list visit ?xs t"
    unfolding same_volume_simps(1,5) [OF sv]
    by (rule walk_sectors_list [OF assms(1) tm(1) Cons.prems(3)]) (rule sector_position(2) [OF assms(1) vc])
  obtain r t' where r: "walk_list visit ?xs t = Some (r, t')" "same_fat t' s"
    using walk_list_tame [OF tm(1) Cons.prems(3)] by auto
  have nx: "readFatEntry c t' = d" "\<not> 0x0FFFFFF8 \<le> d" "d \<noteq> 0x0FFFFFF7"
    using same_fatD(2) [OF r(2) vc] fchain_next [OF assms(1) Cons.prems(1)] Cons.prems(1) by auto
  have ap: "walk_list visit (dir_sectors s (c # d # ds)) t =
      (case r of Some y \<Rightarrow> Some (Some y, t') | None \<Rightarrow> walk_list visit (dir_sectors s (d # ds)) t')"
    unfolding dir_sectors_simps(2) [of s c] walk_list_append r(1) by simp
  show ?case unfolding walk_directory.simps [of visit fail eoc c t] w r(1) ap
    using Cons.IH [OF fd tm(2) r(2)] nx by (cases r) (simp_all add: Let_def)
qed

declare dir_sectors_simps(2) [simp del]

section \<open>The entries of a sector\<close>

definition live :: "bytes \<Rightarrow> nat \<Rightarrow> bool" where
  "live d j \<longleftrightarrow> get_byte d j \<noteq> 0xE5 \<and> get_byte d (j + 11) \<noteq> 0x0F"

definition slots :: "nat list" where
  "slots = map (\<lambda>i. i * 32) [0..<16]"

definition live_offsets :: "bytes \<Rightarrow> nat list" where
  "live_offsets d = filter (live d) (takeWhile (\<lambda>j. get_byte d j \<noteq> 0) slots)"

definition name_at :: "bytes \<Rightarrow> nat \<Rightarrow> bytes" where
  "name_at d j = entry_name (drop j d)"

lemma slots_mem: "j \<in> set slots \<longleftrightarrow> j < 512 \<and> 32 dvd j"
proof -
  have "j \<in> set slots \<longleftrightarrow> (\<exists>i < 16. j = i * 32)" by (auto simp: slots_def)
  also have "\<dots> \<longleftrightarrow> j < 512 \<and> 32 dvd j" by (auto elim!: dvdE)
  finally show ?thesis .
qed

lemma live_offsets_slot: "j \<in> set (live_offsets d) \<Longrightarrow> j < 512 \<and> 32 dvd j \<and> live d j \<and> get_byte d j \<noteq> 0"
  using slots_mem by (auto simp: live_offsets_def dest: set_takeWhileD)

lemma match_entry_from:
  assumes "n \<le> 16"
  shows "match_entry 512 name d ((16 - n) * 32) =
    find (\<lambda>j. name_at d j = name) (filter (live d) (takeWhile (\<lambda>j. get_byte d j \<noteq> 0) (map (\<lambda>i. i * 32) [16 - n..<16])))"
  using assms
proof (induction n)
  case (Suc n)
  let ?j = "(16 - Suc n) * 32"
  have j: "?j < 512" "?j + 32 = (16 - n) * 32" using Suc.prems by simp_all
  have up: "[16 - Suc n..<16] = (16 - Suc n) # [16 - n..<16]"
    using Suc.prems upt_conv_Cons [of "16 - Suc n" 16] Suc_diff_le [of "Suc n" 16] by (simp add: Suc_diff_Suc del: diff_Suc_Suc)
  show ?case
    unfolding match_entry.simps [of 512 name d ?j] up using Suc j
    by (simp add: live_def name_at_def)
qed (simp add: match_entry.simps)

lemma match_entry_find: "match_entry 512 name d 0 = find (\<lambda>j. name_at d j = name) (live_offsets d)"
  using match_entry_from [of 16 name d] by (simp add: live_offsets_def slots_def)

section \<open>Lookup in the list of entries\<close>

definition sector_list :: "bytes \<Rightarrow> (bytes \<times> file_info) list" where
  "sector_list d = map (\<lambda>j. (name_at d j, entry_info d j)) (live_offsets d)"

definition dir_list :: "fatfs \<Rightarrow> u32 list \<Rightarrow> (bytes \<times> file_info) list" where
  "dir_list s cs = concat (map (\<lambda>x. sector_list (disk s x)) (dir_sectors s cs))"

lemma map_of_find: "map_of (map (\<lambda>j. (f j, g j)) js) n = map_option g (find (\<lambda>j. f j = n) js)"
  by (induction js) auto

lemma map_of_sector_list: "map_of (sector_list d) name = map_option (entry_info d) (match_entry 512 name d 0)"
  unfolding sector_list_def match_entry_find by (rule map_of_find)

abbreviation lookup_visit :: "bytes \<Rightarrow> file_info option visitor" where
  "lookup_visit name \<equiv> \<lambda>sector sectorData s'.
     Some (map_option (\<lambda>j. Some (entry_info sectorData j)) (match_entry (bps s') name sectorData 0), s')"

lemma walk_list_lookup:
  "bps s = 512 \<Longrightarrow> walk_list (lookup_visit name) xs s =
     Some (map_option Some (map_of (concat (map (\<lambda>x. sector_list (disk s x)) xs)) name), s)"
proof (induction xs)
  case (Cons x xs)
  then show ?case
    by (cases "match_entry 512 name (disk s x) 0") (simp_all add: map_of_sector_list map_add_def)
qed simp

lemma findFileInDirectory_spec:
  assumes "vol_ok s" "fchain s (c # cs)"
  shows "findFileInDirectory c name s = Some (map_of (dir_list s (c # cs)) name)"
proof -
  have "tame (lookup_visit name) (dir_sectors s (c # cs)) s" by (auto simp: tame_def)
  from walk_directory_list [OF assms this same_fat_refl [OF assms(1)], of None None] show ?thesis
    unfolding findFileInDirectory_def walk_list_lookup [OF vol_okD(2) [OF assms(1)]] dir_list_def
    by (cases "map_of (concat (map (\<lambda>x. sector_list (disk s x)) (dir_sectors s (c # cs)))) name")
       (simp_all del: dir_sectors_simps)
qed

text \<open>
  C12: lookup in a directory. On a sound volume the search through the cluster chain of a directory always
  ends, and its answer is the first entry with the name among the live entries of the directory: per sector, the entries before
  the first unused one, less deleted entries and parts of long names.
\<close>

theorem findFileInDirectory_correct:
  assumes "vol_ok s" "fchain s (c # cs)"
  shows "findFileInDirectory c name s = Some (map_of (dir_list s (c # cs)) name)"
  by (rule findFileInDirectory_spec [OF assms])

section \<open>Paths\<close>

fun join_path :: "bytes list \<Rightarrow> bytes" where
  "join_path [] = []"
| "join_path [n] = n"
| "join_path (n # m # ns) = n @ 47 # join_path (m # ns)"

text \<open>The reference: every component but the last must be a directory in the directory before it.\<close>

fun resolve :: "fatfs \<Rightarrow> u32 \<Rightarrow> bytes list \<Rightarrow> file_info option option" where
  "resolve s c [] = Some (Some (c, 0, 0x10))"
| "resolve s c [n] = findFileInDirectory c n s"
| "resolve s c (n # m # ns) =
    do {
      r \<leftarrow> findFileInDirectory c n s;
      case r of
        None \<Rightarrow> Some None
      | Some (d, _, attrs) \<Rightarrow> if attrs AND 0x10 = 0 then Some None else resolve s d (m # ns)
    }"

definition component :: "bytes \<Rightarrow> bool" where
  "component n \<longleftrightarrow> n \<noteq> [] \<and> 47 \<notin> set n"

lemma component_hd: "component n \<Longrightarrow> n \<noteq> [] \<and> hd n \<noteq> 47"
  unfolding component_def using hd_in_set by metis

lemma first_slash_none: "47 \<notin> set n \<Longrightarrow> first_slash n = None"
  by (simp add: first_slash_def)

lemma first_slash_join: "47 \<notin> set n \<Longrightarrow> first_slash (n @ 47 # r) = Some (n, r)"
  unfolding first_slash_def by (induction n) auto

lemma last_slash_none: "47 \<notin> set n \<Longrightarrow> last_slash n = None"
  by (simp add: last_slash_def first_slash_none)

lemma last_slash_join: "47 \<notin> set n \<Longrightarrow> last_slash (p @ 47 # n) = Some (p, n)"
  using first_slash_join [of "rev n" "rev p"] by (simp add: last_slash_def)

lemma join_path_nonempty: "ns \<noteq> [] \<Longrightarrow> \<forall>n \<in> set ns. component n \<Longrightarrow> join_path ns \<noteq> []"
  by (cases ns rule: join_path.cases) (auto simp: component_def)

lemma findFileFrom_resolve:
  "ns \<noteq> [] \<Longrightarrow> \<forall>n \<in> set ns. component n \<Longrightarrow> findFileFrom (join_path ns) c s = resolve s c ns"
proof (induction ns arbitrary: c rule: join_path.induct)
  case (2 n)
  then show ?case by (subst findFileFrom.simps) (auto simp: component_def first_slash_none)
next
  case (3 n m ns)
  have "join_path (m # ns) \<noteq> []" using 3 by (intro join_path_nonempty) auto
  then show ?case
    using 3 by (cases "findFileInDirectory c n s"; subst findFileFrom.simps)
      (auto simp: component_def first_slash_join split: option.splits)
qed simp

lemma findFile_from:
  "findFile name s = (let (c, name1) = root_or_current name s in findFileFrom name1 c s)"
proof (cases "root_or_current name s")
  case (Pair c name1)
  then show ?thesis unfolding findFile_def by (simp add: findFileFrom.simps [of name1])
qed

lemma root_or_current_component:
  "name \<noteq> [] \<Longrightarrow> hd name \<noteq> 47 \<Longrightarrow> root_or_current name s = (m_currentDirectoryCluster s, name)"
  "root_or_current (47 # name) s = (ROOT_CLUSTER, name)"
  by (simp_all add: root_or_current_def)

lemma findFile_plain: "component name \<Longrightarrow> findFile name s = findFileInDirectory (m_currentDirectoryCluster s) name s"
  unfolding findFile_from using findFileFrom_resolve [of "[name]"] root_or_current_component(1) [of name s]
  by (cases name) (auto simp: component_def)


section \<open>Changing one entry\<close>

lemma take_drop_bytes: "i + n \<le> length d \<Longrightarrow> take n (drop i d) = map (get_byte d) [i..<i + n]"
  by (rule nth_equalityI) (auto simp: get_byte_def)

lemma name_at_bytes: "i + 32 \<le> length d \<Longrightarrow>
    name_at d i = takeWhile (\<lambda>c. c \<noteq> 0) (rev (dropWhile (\<lambda>c. c = 32) (rev (map (get_byte d) [i..<i + 11]))))"
  by (simp add: name_at_def entry_name_def take_drop_bytes)

text \<open>A sector that differs only inside one slot has the same entries in the others.\<close>

definition slot_update :: "nat \<Rightarrow> bytes \<Rightarrow> bytes \<Rightarrow> bool" where
  "slot_update j d d' \<longleftrightarrow> length d = 512 \<and> length d' = 512 \<and> j \<in> set slots \<and>
     (\<forall>k. k < j \<or> j + 32 \<le> k \<longrightarrow> get_byte d' k = get_byte d k)"

lemma slots_apart: "i \<in> set slots \<Longrightarrow> j \<in> set slots \<Longrightarrow> i \<noteq> j \<Longrightarrow> i + 32 \<le> j \<or> j + 32 \<le> i"
  unfolding slots_def by auto

lemma slots_bound: "i \<in> set slots \<Longrightarrow> i + 32 \<le> 512"
  unfolding slots_def by auto

lemma slot_update_other:
  assumes "slot_update j d d'" "i \<in> set slots" "i \<noteq> j"
  shows "get_byte d' i = get_byte d i" "live d' i = live d i" "name_at d' i = name_at d i" "entry_info d' i = entry_info d i"
proof -
  have eq: "get_byte d' (i + k) = get_byte d (i + k)" if "k < 32" for k
    using assms slots_apart [of i j] that by (auto simp: slot_update_def)
  show "get_byte d' i = get_byte d i" using eq [of 0] by simp
  show "live d' i = live d i" using eq [of 0] eq [of 11] by (simp add: live_def)
  have "get_byte d' x = get_byte d x" if "i \<le> x" "x < i + 11" for x using eq [of "x - i"] that by simp
  then have "map (get_byte d') [i..<i + 11] = map (get_byte d) [i..<i + 11]" by simp
  then show "name_at d' i = name_at d i"
    using assms(1) slots_bound [OF assms(2)] name_at_bytes [of i d] name_at_bytes [of i d'] unfolding slot_update_def by metis
  show "entry_info d' i = entry_info d i"
    using eq [of 11] eq [of 26] eq [of 27] eq [of 28] eq [of 29] eq [of 30] eq [of 31]
    by (simp add: entry_info_def get_le16_def get_le32_def ac_simps)
qed

lemma takeWhile_cong_set: "(\<And>x. x \<in> set xs \<Longrightarrow> P x = Q x) \<Longrightarrow> takeWhile P xs = takeWhile Q xs"
  by (rule takeWhile_cong) auto

lemma live_offsets_used:
  assumes "slot_update j d d'" "get_byte d j \<noteq> 0" "get_byte d' j \<noteq> 0"
  shows "live_offsets d' = filter (\<lambda>i. if i = j then live d' j else live d i) (takeWhile (\<lambda>i. get_byte d i \<noteq> 0) slots)"
proof -
  have "takeWhile (\<lambda>i. get_byte d' i \<noteq> 0) slots = takeWhile (\<lambda>i. get_byte d i \<noteq> 0) slots"
    using slot_update_other(1) [OF assms(1)] assms(2,3) by (intro takeWhile_cong_set) metis
  moreover have "live d' i = (if i = j then live d' j else live d i)" if "i \<in> set slots" for i
    using slot_update_other(2) [OF assms(1) that] by simp
  ultimately show ?thesis unfolding live_offsets_def by (auto intro!: filter_cong dest: set_takeWhileD)
qed

text \<open>Updates that keep the name of a live entry, and deletions.\<close>

lemma sector_list_update:
  assumes "slot_update j d d'" "match_entry 512 name d 0 = Some j" "get_byte d' j \<noteq> 0" "live d' j" "name_at d' j = name"
  shows "map_of (sector_list d') m = (if m = name then Some (entry_info d' j) else map_of (sector_list d) m)"
proof -
  have j: "j \<in> set (live_offsets d)" "name_at d j = name"
    using assms(2) unfolding match_entry_find by (auto simp: find_Some_iff)
  note l = live_offsets_slot [OF j(1)]
  have "live_offsets d' = live_offsets d"
    unfolding live_offsets_used [OF assms(1) _ assms(3)] live_offsets_def using l assms(4) live_offsets_used [OF assms(1) _ assms(3)]
    by (auto intro!: filter_cong simp: live_offsets_def)
  moreover have nm: "name_at d' i = name_at d i" if "i \<in> set (live_offsets d)" for i
    using slot_update_other(3) [OF assms(1), of i] live_offsets_slot [OF that] assms(5) j(2) slots_mem by (cases "i = j") auto
  ultimately have me: "match_entry 512 m d' 0 = match_entry 512 m d 0"
    unfolding match_entry_find by (intro find_cong) auto
  have "entry_info d' i = entry_info d i" if "match_entry 512 m d 0 = Some i" "m \<noteq> name" for i
  proof -
    have "i \<in> set (live_offsets d)" "name_at d i = m"
      using that(1) unfolding match_entry_find by (auto simp: find_Some_iff)
    then have "i \<in> set slots" "i \<noteq> j" using live_offsets_slot slots_mem j(2) that(2) by auto
    then show ?thesis using slot_update_other(4) [OF assms(1)] by blast
  qed
  then show ?thesis unfolding map_of_sector_list me using assms(2) by (cases "match_entry 512 m d 0") auto
qed

lemma find_filter_skip: "(\<And>x. x \<in> set xs \<Longrightarrow> P x \<Longrightarrow> Q x) \<Longrightarrow> find P (filter Q xs) = find P xs"
  by (induction xs) auto

lemma sector_list_delete:
  assumes "slot_update j d d'" "match_entry 512 name d 0 = Some j" "get_byte d' j = 0xE5" "m \<noteq> name"
  shows "map_of (sector_list d') m = map_of (sector_list d) m"
proof -
  have j: "j \<in> set (live_offsets d)" "name_at d j = name"
    using assms(2) unfolding match_entry_find by (auto simp: find_Some_iff)
  note l = live_offsets_slot [OF j(1)]
  have lo: "live_offsets d' = filter (\<lambda>i. i \<noteq> j) (live_offsets d)"
    using live_offsets_used [OF assms(1)] l assms(3)
    by (auto simp: live_offsets_def live_def intro!: filter_cong)
  have same: "name_at d' i = name_at d i" "entry_info d' i = entry_info d i" if "i \<in> set (live_offsets d')" for i
    using that slot_update_other [OF assms(1), of i] live_offsets_slot slots_mem unfolding lo by auto
  have "match_entry 512 m d' 0 = find (\<lambda>i. name_at d i = m) (live_offsets d')"
    unfolding match_entry_find using same by (intro find_cong) auto
  also have "\<dots> = match_entry 512 m d 0"
    unfolding match_entry_find lo using j(2) assms(4) by (intro find_filter_skip) auto
  finally have me: "match_entry 512 m d' 0 = match_entry 512 m d 0" .
  have "entry_info d' i = entry_info d i" if "match_entry 512 m d' 0 = Some i" for i
    using that same(2) unfolding match_entry_find by (auto simp: find_Some_iff)
  then show ?thesis unfolding map_of_sector_list using me by (cases "match_entry 512 m d 0") auto
qed

section \<open>Changing a directory\<close>

definition keeps_length :: "(nat \<Rightarrow> bytes \<Rightarrow> bytes) \<Rightarrow> bool" where
  "keeps_length edit \<longleftrightarrow> (\<forall>j d. j \<in> set slots \<and> length d = 512 \<longrightarrow> length (edit j d) = 512)"

lemma match_entry_slot: "match_entry 512 name d 0 = Some j \<Longrightarrow> j \<in> set slots \<and> live d j \<and> get_byte d j \<noteq> 0 \<and> name_at d j = name"
proof -
  assume "match_entry 512 name d 0 = Some j"
  then have "j \<in> set (live_offsets d)" "name_at d j = name" unfolding match_entry_find by (auto simp: find_Some_iff)
  then show ?thesis using live_offsets_slot slots_mem by blast
qed

lemma edit_entry_hit:
  assumes "vol_ok t" "unat x < 2 ^ 28" "keeps_length edit" "match_entry 512 name (disk t x) 0 = Some j"
  shows "edit_entry name edit after x (disk t x) t = Some (after, t\<lparr>disk := (disk t)(x := edit j (disk t x))\<rparr>)"
  using assms match_entry_slot [OF assms(4)] vol_okD(2,6) [OF assms(1)]
  by (simp add: edit_entry_def keeps_length_def diskWrite_ok)

lemma edit_entry_tame:
  assumes "vol_ok s" "fchain s cs" "keeps_length edit"
  shows "tame (edit_entry name edit after) (dir_sectors s cs) s"
  unfolding tame_def
proof (intro allI ballI impI)
  fix t x assume x: "x \<in> set (dir_sectors s cs)" and t: "same_fat t s"
  note sv = same_fatD(1) [OF t] and p = dir_sector_position [OF assms(1,2) x]
  have ok: "vol_ok t" by (rule same_volume_ok [OF sv assms(1)])
  show "\<exists>r t'. edit_entry name edit after x (disk t x) t = Some (r, t') \<and> same_fat t' s"
  proof (cases "match_entry 512 name (disk t x) 0")
    case None
    then show ?thesis using t vol_okD(2) [OF ok] by (simp add: edit_entry_def)
  next
    case (Some j)
    have "length (edit j (disk t x)) = 512"
      using assms(3) match_entry_slot [OF Some] vol_okD(6) [OF ok] by (simp add: keeps_length_def)
    then have "same_fat (t\<lparr>disk := (disk t)(x := edit j (disk t x))\<rparr>) t"
      using p(1) same_volume_simps(3) [OF sv] by (intro same_fat_data [OF ok]) simp_all
    then show ?thesis using edit_entry_hit [OF ok p(2) assms(3) Some] same_fat_trans [OF _ t] by blast
  qed
qed

lemma walk_list_skip:
  "(\<And>y. y \<in> set ys \<Longrightarrow> visit y (disk s y) s = Some (None, s)) \<Longrightarrow> walk_list visit (ys @ zs) s = walk_list visit zs s"
  by (induction ys) auto

lemma edit_entry_miss:
  "bps s = 512 \<Longrightarrow> match_entry 512 name d 0 = None \<Longrightarrow> edit_entry name edit after x d s = Some (None, s)"
  by (simp add: edit_entry_def)

lemma map_of_concat_None: "map_of (concat xss) n = None \<longleftrightarrow> (\<forall>xs \<in> set xss. map_of xs n = None)"
  by (induction xss) (auto simp: map_add_None)

lemma dir_hit:
  assumes "map_of (dir_list s cs) name = Some info"
  obtains ys x zs j where "dir_sectors s cs = ys @ x # zs" "\<And>y. y \<in> set ys \<Longrightarrow> match_entry 512 name (disk s y) 0 = None"
    "match_entry 512 name (disk s x) 0 = Some j" "info = entry_info (disk s x) j"
proof -
  have "\<exists>x \<in> set (dir_sectors s cs). match_entry 512 name (disk s x) 0 \<noteq> None"
  proof (rule ccontr)
    assume "\<not> ?thesis"
    then have "map_of (dir_list s cs) name = None"
      unfolding dir_list_def map_of_concat_None by (auto simp: map_of_sector_list)
    with assms show False by simp
  qed
  then obtain ys x zs where xs: "dir_sectors s cs = ys @ x # zs" "match_entry 512 name (disk s x) 0 \<noteq> None"
    "\<forall>y \<in> set ys. \<not> match_entry 512 name (disk s y) 0 \<noteq> None"
    using split_list_first_propE [of "dir_sectors s cs" "\<lambda>x. match_entry 512 name (disk s x) 0 \<noteq> None"] by metis
  then obtain j where j: "match_entry 512 name (disk s x) 0 = Some j" by auto
  have "map_of (concat (map (\<lambda>x. sector_list (disk s x)) ys)) name = None"
    unfolding map_of_concat_None using xs(3) by (auto simp: map_of_sector_list)
  then have "info = entry_info (disk s x) j"
    using assms j unfolding dir_list_def xs(1) by (simp add: map_add_def map_of_sector_list)
  with xs j show thesis by (intro that) auto
qed

lemma dir_list_replace:
  assumes "distinct (dir_sectors s cs)" "dir_sectors s cs = ys @ x # zs" "same_volume (s\<lparr>disk := (disk s)(x := d)\<rparr>) s"
  shows "dir_list (s\<lparr>disk := (disk s)(x := d)\<rparr>) cs =
    concat (map (\<lambda>x. sector_list (disk s x)) ys) @ sector_list d @ concat (map (\<lambda>x. sector_list (disk s x)) zs)"
proof -
  have "y \<noteq> x" if "y \<in> set ys \<union> set zs" for y using assms(1,2) that by auto
  then have "map (\<lambda>y. sector_list (((disk s)(x := d)) y)) ws = map (\<lambda>y. sector_list (disk s y)) ws" if "set ws \<subseteq> set ys \<union> set zs" for ws
    using that by auto
  from this [of ys] this [of zs] show ?thesis
    unfolding dir_list_def dir_sectors_cong [OF assms(3)] assms(2) by (simp add: fun_upd_same del: fun_upd_apply map_eq_conv)
qed

text \<open>A walk that changes the first entry with a name and then returns.\<close>

lemma edit_first:
  assumes "vol_ok s" "fchain s (c # cs)" "keeps_length edit" "map_of (dir_list s (c # cs)) name = Some info"
  obtains ys x zs j where "dir_sectors s (c # cs) = ys @ x # zs" "\<And>y. y \<in> set ys \<Longrightarrow> match_entry 512 name (disk s y) 0 = None"
    "match_entry 512 name (disk s x) 0 = Some j" "info = entry_info (disk s x) j"
    "same_fat (s\<lparr>disk := (disk s)(x := edit j (disk s x))\<rparr>) s"
    "walk_directory (edit_entry name edit (Some True)) fail eoc c s = Some (True, s\<lparr>disk := (disk s)(x := edit j (disk s x))\<rparr>)"
proof -
  obtain ys x zs j where h: "dir_sectors s (c # cs) = ys @ x # zs" "\<And>y. y \<in> set ys \<Longrightarrow> match_entry 512 name (disk s y) 0 = None"
    "match_entry 512 name (disk s x) 0 = Some j" "info = entry_info (disk s x) j" by (rule dir_hit [OF assms(4)]) blast
  have p: "data_start s \<le> unat x" "unat x < 2 ^ 28" using dir_sector_position [OF assms(1,2), of x] h(1) by auto
  have ln: "length (edit j (disk s x)) = 512"
    using assms(3) match_entry_slot [OF h(3)] vol_okD(6) [OF assms(1)] by (simp add: keeps_length_def)
  let ?v = "edit_entry name edit (Some True)"
  have "walk_list ?v (ys @ x # zs) s = walk_list ?v (x # zs) s"
    by (rule walk_list_skip) (use h(2) vol_okD(2) [OF assms(1)] edit_entry_miss in blast)
  also have "\<dots> = Some (Some True, s\<lparr>disk := (disk s)(x := edit j (disk s x))\<rparr>)"
    using edit_entry_hit [OF assms(1) p(2) assms(3) h(3), of "Some True"] by simp
  finally have "walk_directory ?v fail eoc c s = Some (True, s\<lparr>disk := (disk s)(x := edit j (disk s x))\<rparr>)"
    using walk_directory_list [OF assms(1,2) edit_entry_tame [OF assms(1-3)] same_fat_refl [OF assms(1)]]
    unfolding h(1) by simp
  with h same_fat_data [OF assms(1) ln p(1)] show thesis by (intro that)
qed

lemma map_of_replace:
  assumes "\<And>y. y \<in> set ys \<Longrightarrow> match_entry 512 name (disk s y) 0 = None"
    "\<And>m. map_of (sector_list d) m = (if m = name then Some info else map_of (sector_list (disk s x)) m)"
    "dir_sectors s cs = ys @ x # zs"
  shows "map_of (concat (map (\<lambda>x. sector_list (disk s x)) ys) @ sector_list d @ concat (map (\<lambda>x. sector_list (disk s x)) zs)) m =
    (if m = name then Some info else map_of (dir_list s cs) m)"
proof (cases "m = name")
  case True
  have "map_of (concat (map (\<lambda>x. sector_list (disk s x)) ys)) name = None"
    unfolding map_of_concat_None using assms(1) by (auto simp: map_of_sector_list)
  then show ?thesis using True assms(2) by (simp add: map_add_def)
next
  case False
  then show ?thesis using assms(2) [of m] unfolding dir_list_def assms(3) by (simp add: map_add_def split: option.split)
qed

lemma slot_update_put:
  assumes "j \<in> set slots" "length d = 512" "j \<le> k" "k + length bs \<le> j + 32"
  shows "slot_update j d (put_bytes k bs d)"
proof -
  have b: "k + length bs \<le> 512" using assms(4) slots_bound [OF assms(1)] by simp
  then show ?thesis using assms by (auto simp: slot_update_def get_byte_put)
qed

lemma put_size_slot:
  assumes "j \<in> set slots" "length d = 512"
  shows "slot_update j d (put_size n j d)" "get_byte (put_size n j d) j = get_byte d j" "live (put_size n j d) j = live d j"
    "name_at (put_size n j d) j = name_at d j"
    "entry_info (put_size n j d) j = (fst (entry_info d j), n, snd (snd (entry_info d j)))"
proof -
  have l: "length (le32_bytes n) = 4" by (simp add: le32_bytes_def)
  have b: "j + 28 + 4 \<le> length d" using slots_bound [OF assms(1)] assms(2) by simp
  show su: "slot_update j d (put_size n j d)"
    unfolding put_size_def using assms l by (intro slot_update_put) simp_all
  have eq: "get_byte (put_size n j d) (j + k) = get_byte d (j + k)" if "k < 28" for k
    unfolding put_size_def using that b l by (simp add: get_byte_put)
  show "get_byte (put_size n j d) j = get_byte d j" using eq [of 0] by simp
  show "live (put_size n j d) j = live d j" using eq [of 0] eq [of 11] by (simp add: live_def)
  have "get_byte (put_size n j d) x = get_byte d x" if "j \<le> x" "x < j + 11" for x using eq [of "x - j"] that by simp
  then have "map (get_byte (put_size n j d)) [j..<j + 11] = map (get_byte d) [j..<j + 11]" by simp
  then show "name_at (put_size n j d) j = name_at d j"
    using su slots_bound [OF assms(1)] name_at_bytes [of j d] name_at_bytes [of j "put_size n j d"] unfolding slot_update_def by metis
  have "get_le32 (put_size n j d) (j + 28) = n" unfolding put_size_def by (rule get_put_le32 [OF b])
  then show "entry_info (put_size n j d) j = (fst (entry_info d j), n, snd (snd (entry_info d j)))"
    using eq [of 11] eq [of 26] eq [of 27] by (simp add: entry_info_def get_le16_def ac_simps)
qed

lemma put_size_keeps: "keeps_length (put_size n)"
  using put_size_slot(1) by (auto simp: keeps_length_def slot_update_def)

text \<open>A plain name is looked up, and its size changed, in the current directory.\<close>

lemma parent_of_plain: "component name \<Longrightarrow> parent_of name s = Some (Some (m_currentDirectoryCluster s, name))"
  using component_hd [of name] by (simp add: parent_of_def root_or_current_component last_slash_none component_def)

lemma updateFileSize_spec:
  assumes "vol_ok s" "component name" "fchain s (m_currentDirectoryCluster s # ds)"
    "map_of (dir_list s (m_currentDirectoryCluster s # ds)) name = Some (c, old, attrs)"
  obtains x d where "updateFileSize name n s = Some (True, s\<lparr>disk := (disk s)(x := d)\<rparr>)"
    "same_fat (s\<lparr>disk := (disk s)(x := d)\<rparr>) s" "x \<in> set (dir_sectors s (m_currentDirectoryCluster s # ds))"
    "\<And>m. map_of (dir_list (s\<lparr>disk := (disk s)(x := d)\<rparr>) (m_currentDirectoryCluster s # ds)) m =
       (if m = name then Some (c, n, attrs) else map_of (dir_list s (m_currentDirectoryCluster s # ds)) m)"
proof -
  let ?cs = "m_currentDirectoryCluster s # ds"
  obtain ys x zs j where h: "dir_sectors s ?cs = ys @ x # zs" "\<And>y. y \<in> set ys \<Longrightarrow> match_entry 512 name (disk s y) 0 = None"
    "match_entry 512 name (disk s x) 0 = Some j" "(c, old, attrs) = entry_info (disk s x) j"
    "same_fat (s\<lparr>disk := (disk s)(x := put_size n j (disk s x))\<rparr>) s"
    "walk_directory (edit_entry name (put_size n) (Some True)) False False (m_currentDirectoryCluster s) s =
       Some (True, s\<lparr>disk := (disk s)(x := put_size n j (disk s x))\<rparr>)"
    by (rule edit_first [OF assms(1,3) put_size_keeps [of n] assms(4), where fail = False and eoc = False]) blast
  note sl = match_entry_slot [OF h(3)] and ps = put_size_slot [of j "disk s x" n]
  have len: "length (disk s x) = 512" by (rule vol_okD(6) [OF assms(1)])
  have info: "entry_info (put_size n j (disk s x)) j = (c, n, attrs)" using ps(5) sl len h(4) by (metis fst_conv snd_conv)
  have sector: "map_of (sector_list (put_size n j (disk s x))) m = (if m = name then Some (c, n, attrs) else map_of (sector_list (disk s x)) m)" for m
    using sector_list_update [OF ps(1) h(3), of m] sl ps len info by simp
  have dist: "distinct (dir_sectors s ?cs)"
    by (rule distinct_dir_sectors [OF assms(1)]) (use fchain_valid [OF assms(3)] fchain_distinct [OF assms(1,3)] in auto)
  show thesis
  proof (rule that [of x "put_size n j (disk s x)"])
    show "updateFileSize name n s = Some (True, s\<lparr>disk := (disk s)(x := put_size n j (disk s x))\<rparr>)"
      using h(6) by (simp add: updateFileSize_def parent_of_plain [OF assms(2)])
    show "x \<in> set (dir_sectors s ?cs)" unfolding h(1) by simp
    show "map_of (dir_list (s\<lparr>disk := (disk s)(x := put_size n j (disk s x))\<rparr>) ?cs) m =
       (if m = name then Some (c, n, attrs) else map_of (dir_list s ?cs) m)" for m
      unfolding dir_list_replace [OF dist h(1) same_fatD(1) [OF h(5)]] by (rule map_of_replace [OF h(2) sector h(1)])
  qed (rule h(5))
qed

section \<open>Writing and reading a file by name\<close>

lemma cluster_data_sector:
  assumes "vol_ok s" "vol_ok s'" "same_volume s' s" "cluster_data s' c = cluster_data s c" "i < spc s"
  shows "disk s' (first_sector c s + of_nat i) = disk s (first_sector c s + of_nat i)"
proof (rule nth_equalityI)
  note l = vol_okD(6) [OF assms(1)] vol_okD(6) [OF assms(2)]
  then show "length (disk s' (first_sector c s + of_nat i)) = length (disk s (first_sector c s + of_nat i))" by simp
  fix k assume "k < length (disk s' (first_sector c s + of_nat i))"
  then have k: "k < 512" using l by simp
  have "(i + 1) * 512 \<le> spc s * 512" using assms(5) by (intro mult_le_mono1) simp
  then have b: "i * 512 + k < spc s * 512" using k by simp
  have dm: "(i * 512 + k) div 512 = i" "(i * 512 + k) mod 512 = k" using k by simp_all
  have "spc s' = spc s" using same_volume_simps(1) [OF assms(3)] by simp
  then show "disk s' (first_sector c s + of_nat i) ! k = disk s (first_sector c s + of_nat i) ! k"
    using cluster_data_nth [OF assms(1) b, of c] cluster_data_nth [OF assms(2), of "i * 512 + k" c] b dm assms(4)
      same_volume_simps(5) [OF assms(3), of c] by simp
qed

lemma dir_list_data_cong:
  assumes "vol_ok s" "same_volume s' s" "\<And>c. c \<in> set cs \<Longrightarrow> cluster_data s' c = cluster_data s c"
  shows "dir_list s' cs = dir_list s cs"
proof -
  have "disk s' x = disk s x" if x: "x \<in> set (dir_sectors s cs)" for x
  proof -
    obtain c i where "c \<in> set cs" "i < spc s" "x = first_sector c s + of_nat i" by (rule dir_sector_obtain [OF x])
    then show ?thesis using cluster_data_sector [OF assms(1) same_volume_ok [OF assms(2,1)] assms(2)] assms(3) by blast
  qed
  then show ?thesis unfolding dir_list_def dir_sectors_cong [OF assms(2)] by (auto intro!: arg_cong [where f = concat])
qed

text \<open>A write to a sector of a directory leaves the data of the other clusters alone.\<close>

lemma cluster_data_dir_write:
  assumes "vol_ok s" "fchain s cs" "x \<in> set (dir_sectors s cs)" "same_volume (s\<lparr>disk := (disk s)(x := d)\<rparr>) s" "valid s y" "y \<notin> set cs"
  shows "cluster_data (s\<lparr>disk := (disk s)(x := d)\<rparr>) y = cluster_data s y"
proof (rule cluster_data_cong [OF assms(4)])
  fix i assume i: "i < spc s"
  obtain c k where c: "c \<in> set cs" "k < spc s" "x = first_sector c s + of_nat k" by (rule dir_sector_obtain [OF assms(3)])
  have "first_sector y s + of_nat i \<noteq> x"
    using sectors_differ [OF assms(1,5) fchain_valid [OF assms(2) c(1)] i c(2)] c(1,3) assms(6) by blast
  then show "disk (s\<lparr>disk := (disk s)(x := d)\<rparr>) (first_sector y s + of_nat i) = disk s (first_sector y s + of_nat i)" by simp
qed

lemma file_bytes_cong: "(\<And>y. y \<in> set zs \<Longrightarrow> cluster_data s' y = cluster_data s y) \<Longrightarrow> file_bytes s' zs = file_bytes s zs"
  unfolding file_bytes_def by (metis (no_types, lifting) map_eq_conv)

lemma store_content_spec:
  assumes "vol_ok s" "component name" "m_currentDirectoryCluster s = dc" "fchain s (dc # ds)"
    "map_of (dir_list s (dc # ds)) name = Some (c, old, attrs)"
    "fchain s (c # cs)" "set (c # cs) \<inter> set (dc # ds) = {}"
    "0 < sz" "blocks (csize s) sz \<le> length (c # cs) + card (free_clusters s)"
  obtains s' xs where "store_content name data sz s = Some (True, s')" "same_volume s' s" "fchain s' (dc # ds)"
    "fchain s' (c # xs)" "set (c # xs) \<inter> set (dc # ds) = {}" "readFile c sz s' = Some (map data [0..<sz])"
    "\<And>m. map_of (dir_list s' (dc # ds)) m = (if m = name then Some (c, of_nat sz, attrs) else map_of (dir_list s (dc # ds)) m)"
    "\<And>zs. fchain s zs \<Longrightarrow> set zs \<inter> (set (c # cs) \<union> set (dc # ds)) = {} \<Longrightarrow> fchain s' zs \<and> file_bytes s' zs = file_bytes s zs"
proof -
  obtain s1 xs where w: "writeFile c data sz s = Some (True, s1)" "same_volume s1 s" "fchain s1 (c # xs)"
    "readFile c sz s1 = Some (map data [0..<sz])" "set (c # xs) \<subseteq> set (c # cs) \<union> free_clusters s"
    "\<And>x. valid s x \<Longrightarrow> x \<notin> set (c # cs) \<Longrightarrow> x \<notin> free_clusters s \<Longrightarrow>
        cluster_data s1 x = cluster_data s x \<and> readFatEntry x s1 = readFatEntry x s"
    by (rule writeFile_spec [OF assms(1,6,8,9), of data]) blast
  have ok1: "vol_ok s1" by (rule same_volume_ok [OF w(2) assms(1)])
  have keep: "cluster_data s1 x = cluster_data s x \<and> readFatEntry x s1 = readFatEntry x s"
    if "fchain s zs" "x \<in> set zs" "x \<notin> set (c # cs)" for x zs
    using w(6) fchain_valid [OF that(1,2)] that(3) fchain_nonfree [OF assms(1) that(1,2)] by (auto simp: free_clusters_def)
  have d1: "dir_list s1 (dc # ds) = dir_list s (dc # ds)"
    by (rule dir_list_data_cong [OF assms(1) w(2)]) (use keep [OF assms(4)] assms(7) in blast)
  have f1: "fchain s1 (dc # ds)" using fchain_cong [OF w(2)] keep [OF assms(4)] assms(4,7) by blast
  have cur: "m_currentDirectoryCluster s1 = dc" using w(2) assms(3) by (auto simp: same_volume_def)
  have disj: "set (c # xs) \<inter> set (dc # ds) = {}"
    using w(5) assms(7) fchain_nonfree [OF assms(1,4)] unfolding free_clusters_def by blast
  obtain x d where u: "updateFileSize name (of_nat sz) s1 = Some (True, s1\<lparr>disk := (disk s1)(x := d)\<rparr>)"
    "same_fat (s1\<lparr>disk := (disk s1)(x := d)\<rparr>) s1" "x \<in> set (dir_sectors s1 (dc # ds))"
    "\<And>m. map_of (dir_list (s1\<lparr>disk := (disk s1)(x := d)\<rparr>) (dc # ds)) m =
       (if m = name then Some (c, of_nat sz, attrs) else map_of (dir_list s1 (dc # ds)) m)"
    using updateFileSize_spec [OF ok1 assms(2), of ds c old attrs "of_nat sz"] f1 assms(5) d1 cur by metis
  let ?s = "s1\<lparr>disk := (disk s1)(x := d)\<rparr>"
  note sf = same_fatD(1) [OF u(2)]
  have data2: "cluster_data ?s y = cluster_data s1 y" if "valid s1 y" "y \<notin> set (dc # ds)" for y
    by (rule cluster_data_dir_write [OF ok1 f1 u(3) sf that])
  have fx: "fchain ?s (c # xs)" by (rule same_fat_chain [OF u(2) w(3)])
  have "file_bytes ?s (c # xs) = file_bytes s1 (c # xs)"
    by (rule file_bytes_cong) (use data2 fchain_valid [OF w(3)] disj in blast)
  then have rd: "readFile c sz ?s = Some (map data [0..<sz])"
    using readFile_ok [OF same_volume_ok [OF sf ok1] fx, of sz] readFile_ok [OF ok1 w(3), of sz] w(4) by simp
  show thesis
  proof (rule that [of ?s xs])
    have "findFile name s = Some (Some (c, old, attrs))"
      using findFile_plain [OF assms(2), of s] findFileInDirectory_spec [OF assms(1,4)] assms(3,5) by simp
    then show "store_content name data sz s = Some (True, ?s)" using w(1) u(1) by (simp add: store_content_def)
    show "fchain ?s zs \<and> file_bytes ?s zs = file_bytes s zs" if z: "fchain s zs" "set zs \<inter> (set (c # cs) \<union> set (dc # ds)) = {}" for zs
    proof
      have k: "cluster_data s1 y = cluster_data s y \<and> readFatEntry y s1 = readFatEntry y s" if "y \<in> set zs" for y
        using keep [OF z(1) that] z(2) that by blast
      then have "fchain s1 zs" using fchain_cong [OF w(2)] z(1) by blast
      then show "fchain ?s zs" by (rule same_fat_chain [OF u(2)])
      have "cluster_data ?s y = cluster_data s y" if "y \<in> set zs" for y
        using k [OF that] data2 [of y] fchain_valid [OF \<open>fchain s1 zs\<close> that] z(2) that by auto
      then show "file_bytes ?s zs = file_bytes s zs" by (rule file_bytes_cong)
    qed
  qed (use same_volume_trans [OF sf w(2)] same_fat_chain [OF u(2) f1] fx disj rd u(4) d1 in auto)
qed

lemma restore_same:
  "same_volume s' s \<Longrightarrow> length (m_currentPath s) < MAX_PATH \<Longrightarrow> length (m_currentDirName s) < MAX_PATH \<Longrightarrow> restore_directory s s' = s'"
  by (cases s) (auto simp: same_volume_def restore_directory_def set_current_dir_name_def set_current_path_def
      set_current_directory_cluster_def clip_path_def MAX_PATH_def)


text \<open>A volume with one file \<^verbatim>\<open>A\<close> in its root directory.\<close>

definition dir_example :: fatfs where
  "dir_example = fat_example\<lparr>disk := (\<lambda>_. replicate 512 0)
     (1 := put_bytes 12 (le32_bytes 0x0FFFFFF8) (put_bytes 8 (le32_bytes 0x0FFFFFF8) (replicate 512 0)),
      3 := put_bytes 0 (dir_entry (short_name [65]) 0x20 3 7) (replicate 512 0))\<rparr>"

lemma length_dir_entry [simp]: "length n = 11 \<Longrightarrow> length (dir_entry n a c z) = 32"
  by (simp add: dir_entry_def le16_bytes_def le32_bytes_def)

lemma length_short_name [simp]: "length (short_name n) = 11"
  by (simp add: short_name_def)

lemma le32_length [simp]: "length (le32_bytes n) = 4"
  by (simp add: le32_bytes_def)

lemma dir_example_volume: "same_volume dir_example fat_example"
  unfolding same_volume_def dir_example_def by (rule exI, rule conjI, rule refl) (simp add: put_bytes_def)

lemma dir_example_ok: "vol_ok dir_example"
  by (rule same_volume_ok [OF dir_example_volume fat_example_ok])

lemma dir_example_fat:
  assumes "valid dir_example c"
  shows "readFatEntry c dir_example = (if c = 2 \<or> c = 3 then 0x0FFFFFF8 else 0)"
proof -
  have v: "unat c < 100" using validD [OF assms] by (simp add: dir_example_def fat_example_def)
  have lt: "unat c < clusters dir_example" by (rule validD [OF assms])
  note p = fat_position [OF dir_example_ok lt]
  have fs: "fat_sector c dir_example = 1"
    using p(1) v by (simp add: word_unat_eq_iff dir_example_def fat_example_def)
  have off: "fat_offset c dir_example = unat c * 4" using p(2) v by simp
  have z: "get_le32 (replicate 512 0) k = 0" for k by (simp add: get_le32_def get_byte_def)
  have d: "disk dir_example 1 = put_bytes 12 (le32_bytes 0x0FFFFFF8) (put_bytes 8 (le32_bytes 0x0FFFFFF8) (replicate 512 0))"
    by (simp add: dir_example_def)
  consider "c = 2" | "c = 3" | "c \<noteq> 2" "c \<noteq> 3" by blast
  then show ?thesis
  proof cases
    case 1
    then show ?thesis unfolding readFatEntry_ok [OF dir_example_ok lt] fs off d
      by (simp add: get_put_le32_other get_put_le32)
  next
    case 2
    then show ?thesis unfolding readFatEntry_ok [OF dir_example_ok lt] fs off d
      by (simp add: get_put_le32)
  next
    case 3
    then have "unat c \<noteq> 2" "unat c \<noteq> 3" by (auto simp: word_unat_eq_iff)
    then have "unat c * 4 + 4 \<le> 8 \<or> 12 \<le> unat c * 4" "unat c * 4 + 4 \<le> 12 \<or> 16 \<le> unat c * 4" by linarith+
    then show ?thesis unfolding readFatEntry_ok [OF dir_example_ok lt] fs off d
      using 3 by (simp add: get_put_le32_other z)
  qed
qed

lemma dir_example_valid: "valid dir_example c \<longleftrightarrow> 2 \<le> unat c \<and> unat c < 100"
  by (simp add: valid_def dir_example_def fat_example_def)

lemma dir_example_chains: "fchain dir_example [2]" "fchain dir_example [3]" "m_currentDirectoryCluster dir_example = 2"
  by (simp_all add: dir_example_fat dir_example_valid) (simp add: dir_example_def fat_example_def)

lemma dir_example_list: "dir_list dir_example [2] = [([65], 3, 7, 0x20)]"
proof -
  have "sector_list (put_bytes 0 (dir_entry (short_name [65]) 0x20 3 7) (replicate 512 0)) = [([65], 3, 7, 0x20)]"
    by code_simp
  moreover have "dir_sectors dir_example [2] = [3]"
    by (simp add: dir_sectors_def first_sector_def dir_example_def fat_example_def)
  ultimately show ?thesis by (simp add: dir_list_def dir_example_def)
qed

theorem findFileInDirectory_correct_witness: "findFileInDirectory 2 [65] dir_example = Some (Some (3, 7, 0x20))"
  using findFileInDirectory_correct [OF dir_example_ok dir_example_chains(1), of "[65]"] by (simp add: dir_example_list)



end
