(* ===== verification/Fat_Operations.thy ===== *)
theory Fat_Operations
  imports Fat_Directory_Proofs
begin

text \<open>
  Creating and deleting files in the current directory of a sound volume: what the two operations do to the list of
  entries, to the allocation table and to the files around.
\<close>

section \<open>Releasing a chain\<close>

lemma free_chain_ok:
  assumes "vol_ok s" "fchain s (c # cs)"
  obtains s' where "free_chain c s = Some s'" "same_volume s' s"
    "\<And>x. valid s x \<Longrightarrow> readFatEntry x s' = (if x \<in> set (c # cs) then 0 else readFatEntry x s)"
    "\<And>x. data_start s \<le> unat x \<Longrightarrow> disk s' x = disk s x"
  using assms
proof (induction cs arbitrary: c s thesis)
  case Nil
  have v: "valid s c" using Nil.prems(3) by simp
  obtain s' where u: "updateFatEntry c 0 s = (True, s')" "same_volume s' s"
    "\<And>x. unat x < clusters s \<Longrightarrow> readFatEntry x s' = (if x = c then 0 AND 0x0FFFFFFF else readFatEntry x s)"
    "\<And>x. data_start s \<le> unat x \<Longrightarrow> disk s' x = disk s x"
    by (rule update_fat [OF Nil.prems(2) validD [OF v], of 0]) blast
  have "freeCluster c s = s'" using u(1) v by (auto simp: freeCluster_def valid_word)
  then have fr: "free_chain c s = Some s'"
    using Nil.prems(3) valid_small(2) [OF Nil.prems(2) v] by (simp add: free_chain.simps [of c s] Let_def)
  show ?case by (rule Nil.prems(1) [OF fr u(2)]) (use u(3,4) validD in auto)
next
  case (Cons d ds)
  have v: "valid s c" and fd: "fchain s (d # ds)" using Cons.prems(3) by auto
  obtain s1 where u: "updateFatEntry c 0 s = (True, s1)" "same_volume s1 s"
    "\<And>x. unat x < clusters s \<Longrightarrow> readFatEntry x s1 = (if x = c then 0 AND 0x0FFFFFFF else readFatEntry x s)"
    "\<And>x. data_start s \<le> unat x \<Longrightarrow> disk s1 x = disk s x"
    by (rule update_fat [OF Cons.prems(2) validD [OF v], of 0]) blast
  have c: "c \<notin> set (d # ds)" using fchain_distinct [OF Cons.prems(2,3)] by simp
  have "readFatEntry x s1 = readFatEntry x s" if "x \<in> set (d # ds)" for x
    using u(3) [of x] validD [OF fchain_valid [OF fd that]] c that by auto
  then have f1: "fchain s1 (d # ds)" using fchain_cong [OF u(2)] fd by blast
  obtain s' where r: "free_chain d s1 = Some s'" "same_volume s' s1"
    "\<And>x. valid s1 x \<Longrightarrow> readFatEntry x s' = (if x \<in> set (d # ds) then 0 else readFatEntry x s1)"
    "\<And>x. data_start s1 \<le> unat x \<Longrightarrow> disk s' x = disk s1 x"
    by (rule Cons.IH [OF _ same_volume_ok [OF u(2) Cons.prems(2)] f1]) blast
  have "freeCluster c s = s1" using u(1) v by (auto simp: freeCluster_def valid_word)
  moreover note fchain_next [OF Cons.prems(2,3)]
  ultimately have "free_chain c s = Some s'"
    unfolding free_chain.simps [of c s] Let_def using r(1) valid_small(2) [OF Cons.prems(2) v] by auto
  then show ?case
  proof (rule Cons.prems(1))
    show "readFatEntry x s' = (if x \<in> set (c # d # ds) then 0 else readFatEntry x s)" if "valid s x" for x
      using r(3) [of x] u(3) [of x] that validD [OF that] c by (auto simp: valid_cong [OF u(2)])
    show "disk s' x = disk s x" if "data_start s \<le> unat x" for x
      using r(4) u(4) that by (simp add: same_volume_simps [OF u(2)])
  qed (rule same_volume_trans [OF r(2) u(2)])
qed

section \<open>Deleting\<close>

lemma mark_deleted_slot:
  assumes "j \<in> set slots" "length d = 512"
  shows "slot_update j d (mark_deleted j d)" "get_byte (mark_deleted j d) j = 0xE5"
  unfolding mark_deleted_def using assms slots_bound [OF assms(1)]
  by (auto intro!: slot_update_put simp: get_byte_put)

lemma mark_deleted_keeps: "keeps_length mark_deleted"
  using mark_deleted_slot(1) by (auto simp: keeps_length_def slot_update_def)

lemma sector_list_gone:
  assumes "slot_update j d d'" "match_entry 512 name d 0 = Some j" "get_byte d' j = 0xE5" "distinct (map fst (sector_list d))"
  shows "map_of (sector_list d') name = None"
proof -
  have j: "j \<in> set (live_offsets d)" "name_at d j = name"
    using assms(2) unfolding match_entry_find by (auto simp: find_Some_iff)
  note l = live_offsets_slot [OF j(1)]
  have lo: "live_offsets d' = filter (\<lambda>i. i \<noteq> j) (live_offsets d)"
    using live_offsets_used [OF assms(1)] l assms(3) by (auto simp: live_offsets_def live_def intro!: filter_cong)
  have inj: "inj_on (name_at d) (set (live_offsets d))"
    using assms(4) by (simp add: sector_list_def comp_def distinct_map)
  have "name_at d' i \<noteq> name" if "i \<in> set (live_offsets d')" for i
  proof -
    have i: "i \<in> set (live_offsets d)" "i \<noteq> j" using that unfolding lo by auto
    then have "i \<in> set slots" using live_offsets_slot slots_mem by blast
    then have "name_at d' i = name_at d i" using slot_update_other(3) [OF assms(1)] i(2) by blast
    then show ?thesis using inj_onD [OF inj _ i(1) j(1)] i(2) j(2) by metis
  qed
  then show ?thesis unfolding map_of_sector_list match_entry_find by (auto simp: find_None_iff)
qed

lemma deleteFile_spec:
  assumes "vol_ok s" "component name" "m_currentDirectoryCluster s = dc" "fchain s (dc # ds)"
    "distinct (map fst (dir_list s (dc # ds)))" "map_of (dir_list s (dc # ds)) name = Some (c, sz, attrs)"
    "attrs AND 0x10 = 0" "fchain s (c # cs)" "set (c # cs) \<inter> set (dc # ds) = {}"
  obtains s' where "deleteFile name s = Some (True, s')" "same_volume s' s"
    "\<And>x. valid s x \<Longrightarrow> readFatEntry x s' = (if x \<in> set (c # cs) then 0 else readFatEntry x s)"
    "\<And>m. map_of (dir_list s' (dc # ds)) m = (if m = name then None else map_of (dir_list s (dc # ds)) m)"
    "\<And>y. valid s y \<Longrightarrow> y \<notin> set (dc # ds) \<Longrightarrow> cluster_data s' y = cluster_data s y"
proof -
  let ?D = "dc # ds" and ?v = "edit_entry name mark_deleted None"
  obtain ys x zs j where h: "dir_sectors s ?D = ys @ x # zs" "\<And>y. y \<in> set ys \<Longrightarrow> match_entry 512 name (disk s y) 0 = None"
    "match_entry 512 name (disk s x) 0 = Some j" "(c, sz, attrs) = entry_info (disk s x) j"
    by (rule dir_hit [OF assms(6)]) blast
  define s1 where "s1 = s\<lparr>disk := (disk s)(x := mark_deleted j (disk s x))\<rparr>"
  note sl = match_entry_slot [OF h(3)]
  have ln: "length (disk s x) = 512" by (rule vol_okD(6) [OF assms(1)])
  have md: "slot_update j (disk s x) (mark_deleted j (disk s x))" "get_byte (mark_deleted j (disk s x)) j = 0xE5"
    using mark_deleted_slot sl ln by blast+
  have x: "x \<in> set (dir_sectors s ?D)" unfolding h(1) by simp
  note p = dir_sector_position [OF assms(1,4) x]
  have sf: "same_fat s1 s"
    unfolding s1_def using md(1) by (intro same_fat_data [OF assms(1) _ p(1)]) (simp add: slot_update_def)
  have dist: "distinct (ys @ x # zs)"
    unfolding h(1) [symmetric]
    by (rule distinct_dir_sectors [OF assms(1)]) (use fchain_valid [OF assms(4)] fchain_distinct [OF assms(1,4)] in auto)
  have dl: "dir_list s ?D = concat (map (\<lambda>x. sector_list (disk s x)) ys) @ sector_list (disk s x) @
      concat (map (\<lambda>x. sector_list (disk s x)) zs)" unfolding dir_list_def h(1) by simp
  have "name \<in> fst ` set (sector_list (disk s x))"
    using h(3) map_of_sector_list [of "disk s x" name] map_of_eq_None_iff [of "sector_list (disk s x)" name] by auto
  then have "name \<notin> fst ` set (concat (map (\<lambda>x. sector_list (disk s x)) zs))"
    and ds: "distinct (map fst (sector_list (disk s x)))"
    using assms(5) unfolding dl by auto
  then have mz: "map_of (concat (map (\<lambda>x. sector_list (disk s x)) zs)) name = None" by (simp add: map_of_eq_None_iff)
  then have nz: "match_entry 512 name (disk s z) 0 = None" if "z \<in> set zs" for z
    using that unfolding map_of_concat_None by (auto simp: map_of_sector_list)
  have b: "bps s = 512" "bps s1 = 512" using vol_okD(2) [OF assms(1)] by (simp_all add: s1_def)
  have "walk_list ?v (ys @ x # zs) s = walk_list ?v (x # zs) s"
    by (rule walk_list_skip) (use h(2) b edit_entry_miss in blast)
  also have "\<dots> = walk_list ?v (zs @ []) s1"
    using edit_entry_hit [OF assms(1) p(2) mark_deleted_keeps h(3), of None] by (simp add: s1_def)
  also have "\<dots> = walk_list ?v [] s1"
  proof (rule walk_list_skip)
    fix z assume z: "z \<in> set zs"
    then have "disk s1 z = disk s z" using dist by (auto simp: s1_def)
    then show "?v z (disk s1 z) s1 = Some (None, s1)" using nz [OF z] b edit_entry_miss by simp
  qed
  finally have wk: "walk_directory ?v False True dc s = Some (True, s1)"
    using walk_directory_list [OF assms(1,4) edit_entry_tame [OF assms(1,4) mark_deleted_keeps] same_fat_refl [OF assms(1)]]
    unfolding h(1) by simp
  have ok1: "vol_ok s1" by (rule same_volume_ok [OF same_fatD(1) [OF sf] assms(1)])
  obtain s' where r: "free_chain c s1 = Some s'" "same_volume s' s1"
    "\<And>x. valid s1 x \<Longrightarrow> readFatEntry x s' = (if x \<in> set (c # cs) then 0 else readFatEntry x s1)"
    "\<And>x. data_start s1 \<le> unat x \<Longrightarrow> disk s' x = disk s1 x"
    by (rule free_chain_ok [OF ok1 same_fat_chain [OF sf assms(8)]]) blast
  have cd: "cluster_data s' y = cluster_data s1 y" if "valid s y" for y
    by (rule cluster_data_fat_update [OF ok1 _ r(2,4)]) (use that valid_cong [OF same_fatD(1) [OF sf]] in auto)
  have dl': "dir_list s' ?D = dir_list s1 ?D"
    by (rule dir_list_data_cong [OF ok1 r(2)]) (use cd fchain_valid [OF assms(4)] in blast)
  show thesis
  proof (rule that [of s'])
    have "findFile name s = Some (Some (c, sz, attrs))"
      using findFile_plain [OF assms(2), of s] findFileInDirectory_spec [OF assms(1,4)] assms(3,6) by simp
    then show "deleteFile name s = Some (True, s')"
      using wk r(1) assms(3,7) by (simp add: deleteFile_def parent_of_plain [OF assms(2)])
    show "same_volume s' s" by (rule same_volume_trans [OF r(2) same_fatD(1) [OF sf]])
    show "readFatEntry x s' = (if x \<in> set (c # cs) then 0 else readFatEntry x s)" if "valid s x" for x
      using r(3) [of x] same_fatD(2) [OF sf that] that valid_cong [OF same_fatD(1) [OF sf]] by simp
    show "cluster_data s' y = cluster_data s y" if "valid s y" "y \<notin> set ?D" for y
      using cd [OF that(1)] cluster_data_dir_write [OF assms(1,4) x same_fatD(1) [OF sf [unfolded s1_def]] that] by (simp add: s1_def)
    have dls: "dir_list s1 ?D = concat (map (\<lambda>x. sector_list (disk s x)) ys) @ sector_list (mark_deleted j (disk s x)) @
        concat (map (\<lambda>x. sector_list (disk s x)) zs)"
      unfolding s1_def by (rule dir_list_replace [OF dist [folded h(1)] h(1) same_fatD(1) [OF sf [unfolded s1_def]]])
    show "map_of (dir_list s' ?D) m = (if m = name then None else map_of (dir_list s ?D) m)" for m
    proof (cases "m = name")
      case True
      have "map_of (concat (map (\<lambda>x. sector_list (disk s x)) ys)) name = None"
        unfolding map_of_concat_None using h(2) by (auto simp: map_of_sector_list)
      then show ?thesis unfolding dl' dls using True mz sector_list_gone [OF md(1) h(3) md(2) ds] by (simp add: map_add_def)
    next
      case False
      then show ?thesis unfolding dl' dls dl using sector_list_delete [OF md(1) h(3) md(2) False]
        by (simp add: map_add_def split: option.split)
    qed
  qed
qed

text \<open>
  C14: deleting a file of the current directory. With the names of the directory distinct, \<open>deleteFile\<close> returns true, the
  name is no longer found while every other name is found as before, exactly the clusters of the file have become free,
  and every other chain that is not part of the directory keeps its clusters and contents.
\<close>

theorem deleteFile_correct:
  assumes "vol_ok s" "component name" "m_currentDirectoryCluster s = dc" "fchain s (dc # ds)"
    "distinct (map fst (dir_list s (dc # ds)))" "map_of (dir_list s (dc # ds)) name = Some (c, sz, attrs)"
    "attrs AND 0x10 = 0" "fchain s (c # cs)" "set (c # cs) \<inter> set (dc # ds) = {}"
  shows "\<exists>s'. deleteFile name s = Some (True, s') \<and> vol_ok s' \<and> findFile name s' = Some None \<and>
    (\<forall>m. component m \<and> m \<noteq> name \<longrightarrow> findFile m s' = findFile m s) \<and>
    free_clusters s' = free_clusters s \<union> set (c # cs) \<and>
    (\<forall>zs. fchain s zs \<and> set zs \<inter> (set (c # cs) \<union> set (dc # ds)) = {} \<longrightarrow> fchain s' zs \<and> file_bytes s' zs = file_bytes s zs)"
proof -
  obtain s' where 1: "deleteFile name s = Some (True, s')" "same_volume s' s"
    "\<And>x. valid s x \<Longrightarrow> readFatEntry x s' = (if x \<in> set (c # cs) then 0 else readFatEntry x s)"
    "\<And>m. map_of (dir_list s' (dc # ds)) m = (if m = name then None else map_of (dir_list s (dc # ds)) m)"
    "\<And>y. valid s y \<Longrightarrow> y \<notin> set (dc # ds) \<Longrightarrow> cluster_data s' y = cluster_data s y"
    by (rule deleteFile_spec [OF assms]) blast
  have ok: "vol_ok s'" and cur: "m_currentDirectoryCluster s' = dc"
    using same_volume_ok [OF 1(2) assms(1)] 1(2) assms(3) by (auto simp: same_volume_def)
  have keep: "fchain s' zs" if "fchain s zs" "set zs \<inter> set (c # cs) = {}" for zs
  proof -
    have "readFatEntry x s' = readFatEntry x s" if "x \<in> set zs" for x
      using 1(3) [OF fchain_valid [OF \<open>fchain s zs\<close> that]] that \<open>set zs \<inter> set (c # cs) = {}\<close> by auto
    then show ?thesis using fchain_cong [OF 1(2)] that(1) by blast
  qed
  have fd: "fchain s' (dc # ds)" using keep [OF assms(4)] assms(9) by blast
  have find: "findFile m s' = Some (if m = name then None else map_of (dir_list s (dc # ds)) m)" if "component m" for m
    using findFile_plain [OF that, of s'] findFileInDirectory_spec [OF ok fd] 1(4) cur by simp
  have old: "findFile m s = Some (map_of (dir_list s (dc # ds)) m)" if "component m" for m
    using findFile_plain [OF that, of s] findFileInDirectory_spec [OF assms(1,4)] assms(3) by simp
  have free: "free_clusters s' = free_clusters s \<union> set (c # cs)"
    using 1(3) fchain_valid [OF assms(8)] by (auto simp: free_clusters_def valid_cong [OF 1(2)] split: if_splits)
  have other: "fchain s' zs \<and> file_bytes s' zs = file_bytes s zs"
    if "fchain s zs" "set zs \<inter> (set (c # cs) \<union> set (dc # ds)) = {}" for zs
  proof
    show "fchain s' zs" using keep that by blast
    show "file_bytes s' zs = file_bytes s zs"
      by (rule file_bytes_cong) (use 1(5) fchain_valid [OF that(1)] that(2) in blast)
  qed
  show ?thesis
    by (intro exI [of _ s'] conjI allI impI) (use 1(1) ok find assms(2) old free other in auto)
qed

theorem deleteFile_correct_witness:
  "\<exists>s'. deleteFile [65] dir_example = Some (True, s') \<and> findFile [65] s' = Some None \<and> 3 \<in> free_clusters s'"
  using deleteFile_correct [OF dir_example_ok _ dir_example_chains(3,1) _ _ _ dir_example_chains(2), of "[65]" 7 "0x20"]
  by (auto simp: component_def dir_example_list)

section \<open>Creating\<close>

lemma le16_join: "get_le16 [ucast v, ucast (drop_bit 8 v)] 0 = (ucast (v :: u32) :: u16)"
proof (rule bit_word_eqI)
  fix n assume "n < LENGTH(16)"
  then consider "n < 8" | "8 \<le> n" "n < 16" by fastforce
  then show "bit (get_le16 [ucast v, ucast (drop_bit 8 v)] 0) n = bit (ucast v :: u16) n"
    by cases (auto simp: get_le16_def get_byte_def bit_simps)
qed

text \<open>The entry written for a short name reads back.\<close>

lemma dir_entry_bytes:
  assumes "j \<in> set slots" "length d = 512" "length n = 11" "k < 32"
  shows "get_byte (put_bytes j (dir_entry n a c z) d) (j + k) = dir_entry n a c z ! k"
  using slots_bound [OF assms(1)] assms by (simp add: get_byte_put)

lemma dir_entry_nth:
  assumes "length n = 11"
  shows "k < 11 \<Longrightarrow> dir_entry n a c z ! k = n ! k" "dir_entry n a c z ! 11 = a" "dir_entry n a c z ! 26 = ucast c"
    "dir_entry n a c z ! 27 = ucast (drop_bit 8 c)" "dir_entry n a c z ! 28 = ucast z" "dir_entry n a c z ! 29 = ucast (drop_bit 8 z)"
    "dir_entry n a c z ! 30 = ucast (drop_bit 16 z)" "dir_entry n a c z ! 31 = ucast (drop_bit 24 z)"
  using assms by (simp_all add: dir_entry_def le16_bytes_def le32_bytes_def nth_append)

lemma entry_name_short:
  assumes "length name \<le> 11" "0 \<notin> set name" "name \<noteq> []" "last name \<noteq> 32"
  shows "takeWhile (\<lambda>c. c \<noteq> 0) (rev (dropWhile (\<lambda>c. c = 32) (rev (short_name name)))) = name"
proof -
  have sn: "short_name name = name @ replicate (11 - length name) 0"
    using assms(1) by (simp add: short_name_def min_def)
  have "dropWhile (\<lambda>c. c = 32) (rev (short_name name)) = rev (short_name name)"
  proof (cases "length name = 11")
    case True
    then show ?thesis using assms(3,4) unfolding sn by (cases name rule: rev_cases) auto
  next
    case False
    then obtain k where "11 - length name = Suc k" using assms(1) by (metis Suc_diff_Suc le_neq_implies_less)
    then show ?thesis unfolding sn by (simp add: replicate_app_Cons_same)
  qed
  then show ?thesis unfolding sn using assms(2) by (auto simp: takeWhile_append takeWhile_replicate)
qed

definition plain_name :: "bytes \<Rightarrow> bool" where
  "plain_name name \<longleftrightarrow> validateFileName name \<and> length name \<le> 11 \<and> 0 \<notin> set name \<and> last name \<noteq> 32 \<and> hd name \<noteq> 0xE5"

lemma plain_name_component: "plain_name name \<Longrightarrow> component name"
  by (auto simp: plain_name_def validateFileName_def component_def)

lemma new_entry_slot:
  fixes c :: u32
  assumes "j \<in> set slots" "length d = 512" "plain_name name" "a \<noteq> 0x0F"
  defines "d' \<equiv> put_bytes j (dir_entry (short_name name) a c 0) d"
  shows "slot_update j d d'" "get_byte d' j \<noteq> 0" "live d' j" "name_at d' j = name"
    "entry_info d' j = (ucast (ucast c :: u16), 0, a)"
proof -
  have pn: "length name \<le> 11" "0 \<notin> set name" "name \<noteq> []" "last name \<noteq> 32" "hd name \<noteq> 0xE5"
    using assms(3) by (auto simp: plain_name_def validateFileName_def)
  show su: "slot_update j d d'" unfolding d'_def using assms(1,2) by (intro slot_update_put) simp_all
  have bt: "get_byte d' (j + k) = dir_entry (short_name name) a c 0 ! k" if "k < 32" for k
    unfolding d'_def by (rule dir_entry_bytes [OF assms(1,2) length_short_name that])
  note nt = dir_entry_nth [OF length_short_name [of name]]
  have h: "short_name name ! 0 = hd name" using pn(3) by (cases name) (simp_all add: short_name_def)
  have b0: "get_byte d' j = hd name" using bt [of 0] nt(1) [of 0] h by simp
  moreover have "hd name \<noteq> 0" using pn(2,3) hd_in_set by metis
  ultimately show "get_byte d' j \<noteq> 0" by simp
  show "live d' j" using b0 pn(5) bt [of 11] nt(2) assms(4) by (simp add: live_def)
  have "map (get_byte d') [j..<j + 11] = short_name name"
  proof (rule nth_equalityI)
    fix i assume "i < length (map (get_byte d') [j..<j + 11])"
    then have i: "i < 11" by simp
    then show "map (get_byte d') [j..<j + 11] ! i = short_name name ! i" using bt [of i] nt(1) [OF i] by simp
  qed simp
  then show "name_at d' j = name"
    using su slots_bound [OF assms(1)] name_at_bytes [of j d'] entry_name_short [OF pn(1-4)] by (simp add: slot_update_def)
  have e16: "get_le16 d' (j + 26) = ucast c"
    using le16_join [of c] bt [of 26] bt [of 27] nt(3,4) by (simp add: get_le16_def get_byte_def ac_simps)
  have e32: "get_le32 d' (j + 28) = 0"
    using bt [of 28] bt [of 29] bt [of 30] bt [of 31] nt(5-8) by (simp add: get_le32_def ac_simps)
  show "entry_info d' j = (ucast (ucast c :: u16), 0, a)"
    using e16 e32 bt [of 11] nt(2) by (simp add: entry_info_def)
qed

text \<open>Behind the first unused slot of a sector all slots are unused.\<close>

definition clean :: "bytes \<Rightarrow> bool" where
  "clean d \<longleftrightarrow> (\<forall>i \<in> set slots. \<forall>k \<in> set slots. i \<le> k \<and> get_byte d i = 0 \<longrightarrow> get_byte d k = 0)"

lemma slots_sorted: "sorted_wrt (<) slots"
  by (auto simp: slots_def sorted_wrt_iff_nth_less)

lemma find_first: "(\<And>i. i \<in> set us \<Longrightarrow> \<not> P i) \<Longrightarrow> P x \<Longrightarrow> find P (us @ x # vs) = Some x"
  by (induction us) auto

lemma free_slot:
  assumes "free_entry 512 d = Some j"
  obtains us vs where "slots = us @ j # vs" "\<And>i. i \<in> set us \<Longrightarrow> get_byte d i \<noteq> 0 \<and> get_byte d i \<noteq> 0xE5"
    "get_byte d j = 0 \<or> get_byte d j = 0xE5" "\<And>k. k \<in> set vs \<Longrightarrow> j \<le> k" "j \<notin> set us" "j \<notin> set vs"
proof -
  let ?P = "\<lambda>i. get_byte d i = 0 \<or> get_byte d i = 0xE5"
  have f: "find ?P slots = Some j" using assms by (simp add: free_entry_def slots_def)
  then have j: "j \<in> set slots" "?P j" by (auto simp: find_Some_iff)
  then have "\<exists>x \<in> set slots. ?P x" by (rule bexI [rotated])
  then obtain us x vs where s: "slots = us @ x # vs" "?P x" "\<forall>i \<in> set us. \<not> ?P i"
    by (rule split_list_first_propE)
  have "find ?P (us @ x # vs) = Some x" by (rule find_first) (use s(2,3) in auto)
  then have x: "x = j" using f s(1) by simp
  have "sorted_wrt (<) (us @ j # vs)" using slots_sorted s(1) x by simp
  then have "\<forall>k \<in> set vs. j \<le> k" "j \<notin> set us" "j \<notin> set vs" by (auto simp: sorted_wrt_append)
  with s x show thesis by (intro that [of us vs]) auto
qed

lemma live_offsets_insert:
  assumes "free_entry 512 d = Some j" "clean d" "slot_update j d d'" "get_byte d' j \<noteq> 0" "live d' j"
  shows "j \<in> set (live_offsets d')" "filter (\<lambda>i. i \<noteq> j) (live_offsets d') = live_offsets d"
proof -
  obtain us vs where s: "slots = us @ j # vs" "\<And>i. i \<in> set us \<Longrightarrow> get_byte d i \<noteq> 0 \<and> get_byte d i \<noteq> 0xE5"
    "get_byte d j = 0 \<or> get_byte d j = 0xE5" "\<And>k. k \<in> set vs \<Longrightarrow> j \<le> k" "j \<notin> set us" "j \<notin> set vs"
    by (rule free_slot [OF assms(1)]) blast
  have mem: "i \<in> set slots" if "i \<in> set us \<union> set vs" for i using that unfolding s(1) by auto
  have oth: "get_byte d' i = get_byte d i" "live d' i = live d i" if "i \<in> set us \<union> set vs" for i
    using slot_update_other [OF assms(3) mem [OF that]] that s(5,6) by auto
  let ?T = "takeWhile (\<lambda>i. get_byte d i \<noteq> 0) vs"
  have vs': "takeWhile (\<lambda>i. get_byte d' i \<noteq> 0) vs = ?T" using oth by (intro takeWhile_cong_set) auto
  have tw: "takeWhile (\<lambda>i. get_byte d i \<noteq> 0) (us @ xs) = us @ takeWhile (\<lambda>i. get_byte d i \<noteq> 0) xs"
    "takeWhile (\<lambda>i. get_byte d' i \<noteq> 0) (us @ xs) = us @ takeWhile (\<lambda>i. get_byte d' i \<noteq> 0) xs" for xs
    using s(2) oth(1) by (auto simp: takeWhile_append)
  have new: "live_offsets d' = filter (live d) us @ j # filter (live d) ?T"
  proof -
    have "filter (live d') us = filter (live d) us" "filter (live d') ?T = filter (live d) ?T"
      using oth(2) by (auto intro!: filter_cong dest: set_takeWhileD)
    then show ?thesis unfolding live_offsets_def s(1) tw using assms(4,5) vs' by simp
  qed
  then show "j \<in> set (live_offsets d')" by simp
  have flt: "filter (\<lambda>i. i \<noteq> j) (filter (live d) us) = filter (live d) us" "filter (\<lambda>i. i \<noteq> j) (filter (live d) ?T) = filter (live d) ?T"
    using s(5,6) by (auto simp: filter_filter intro!: filter_cong dest: set_takeWhileD)
  have "live_offsets d = filter (live d) us @ filter (live d) ?T"
  proof (cases "get_byte d j = 0")
    case True
    have "j \<in> set slots" unfolding s(1) by simp
    then have "get_byte d k = 0" if "k \<in> set vs" for k
      using assms(2) True s(4) [OF that] mem [of k] that unfolding clean_def by blast
    then have "?T = []" by (cases vs) auto
    then show ?thesis unfolding live_offsets_def s(1) tw using True by simp
  next
    case False
    then have "\<not> live d j" using s(3) by (simp add: live_def)
    then show ?thesis unfolding live_offsets_def s(1) tw using False by simp
  qed
  then show "filter (\<lambda>i. i \<noteq> j) (live_offsets d') = live_offsets d" unfolding new using flt by simp
qed

lemma find_unique:
  assumes "j \<in> set xs" "P j" "\<And>x. x \<in> set xs \<Longrightarrow> P x \<Longrightarrow> x = j"
  shows "find P xs = Some j"
proof -
  have "find P xs \<noteq> None" using assms(1,2) unfolding find_None_iff by blast
  then obtain k where k: "find P xs = Some k" by auto
  then have "k \<in> set xs" "P k" by (auto simp: find_Some_iff)
  then show ?thesis using assms(3) k by simp
qed

lemma sector_list_insert:
  assumes "free_entry 512 d = Some j" "clean d" "slot_update j d d'" "get_byte d' j \<noteq> 0" "live d' j" "name_at d' j = name"
    "match_entry 512 name d 0 = None"
  shows "map_of (sector_list d') m = (if m = name then Some (entry_info d' j) else map_of (sector_list d) m)"
proof -
  note lo = live_offsets_insert [OF assms(1-5)]
  have oth: "name_at d' i = name_at d i" "entry_info d' i = entry_info d i" "i \<in> set (live_offsets d)"
    if "i \<in> set (live_offsets d')" "i \<noteq> j" for i
  proof -
    have "i \<in> set slots" using live_offsets_slot [OF that(1)] slots_mem by blast
    then show "name_at d' i = name_at d i" "entry_info d' i = entry_info d i" using slot_update_other [OF assms(3)] that(2) by blast+
    have "i \<in> set (filter (\<lambda>i. i \<noteq> j) (live_offsets d'))" using that by simp
    then show "i \<in> set (live_offsets d)" unfolding lo(2) .
  qed
  show ?thesis
  proof (cases "m = name")
    case True
    have none: "name_at d i \<noteq> name" if "i \<in> set (live_offsets d)" for i
      using assms(7) that unfolding match_entry_find by (auto simp: find_None_iff)
    have "match_entry 512 name d' 0 = Some j" unfolding match_entry_find
      by (rule find_unique [where P = "\<lambda>i. name_at d' i = name", OF lo(1) assms(6)]) (use oth none in metis)
    then show ?thesis using True by (simp add: map_of_sector_list)
  next
    case False
    have "match_entry 512 m d' 0 = find (\<lambda>i. name_at d' i = m) (filter (\<lambda>i. i \<noteq> j) (live_offsets d'))"
      unfolding match_entry_find by (rule find_filter_skip [symmetric]) (use assms(6) False in auto)
    also have "\<dots> = find (\<lambda>i. name_at d i = m) (filter (\<lambda>i. i \<noteq> j) (live_offsets d'))"
      using oth(1) by (intro find_cong) auto
    also have "\<dots> = match_entry 512 m d 0" unfolding lo(2) match_entry_find ..
    finally have me: "match_entry 512 m d' 0 = match_entry 512 m d 0" .
    have "entry_info d' i = entry_info d i" if "match_entry 512 m d' 0 = Some i" for i
    proof -
      have "i \<in> set (live_offsets d')" "name_at d' i = m" using that unfolding match_entry_find by (auto simp: find_Some_iff)
      then show ?thesis using oth(2) assms(6) False by metis
    qed
    then show ?thesis using False me by (cases "match_entry 512 m d 0") (auto simp: map_of_sector_list)
  qed
qed

text \<open>The first sector of a directory comes first; its free slot is the one that is found and filled.\<close>

lemma dir_sectors_first:
  assumes "vol_ok s"
  obtains zs where "dir_sectors s (dc # ds) = first_sector dc s # zs"
proof -
  obtain n where "spc s = Suc n" using vol_okD(3) [OF assms] by (cases "spc s") auto
  then have "[0..<spc s] = 0 # [1..<spc s]" by (simp add: upt_conv_Cons del: upt_Suc)
  then show thesis by (intro that) (simp add: dir_sectors_simps(2))
qed

lemma findFreeDirectoryEntry_first:
  assumes "vol_ok s" "fchain s (dc # ds)" "free_entry 512 (disk s (first_sector dc s)) = Some j"
  shows "findFreeDirectoryEntry dc s = Some (Some j)"
proof -
  let ?v = "\<lambda>sector sectorData s'. Some (map_option Some (free_entry (bps s') sectorData), s' :: fatfs)"
  obtain zs where z: "dir_sectors s (dc # ds) = first_sector dc s # zs" by (rule dir_sectors_first [OF assms(1)])
  have "tame ?v (dir_sectors s (dc # ds)) s" by (auto simp: tame_def)
  from walk_directory_list [OF assms(1,2) this same_fat_refl [OF assms(1)], of None None]
  show ?thesis unfolding findFreeDirectoryEntry_def z using assms(3) vol_okD(2) [OF assms(1)] by simp
qed

lemma create_entry_spec:
  assumes "vol_ok s" "plain_name name" "attrs \<noteq> 0x0F" "fchain s (dc # ds)" "map_of (dir_list s (dc # ds)) name = None"
    "free_clusters s \<noteq> {}" "free_entry 512 (disk s (first_sector dc s)) = Some j" "clean (disk s (first_sector dc s))"
  obtains c s' where "create_entry dc name attrs s = Some (c, s')" "same_volume s' s" "c \<in> free_clusters s"
    "\<And>x. valid s x \<Longrightarrow> readFatEntry x s' = (if x = c then 0x0FFFFFF8 else readFatEntry x s)"
    "\<And>m. map_of (dir_list s' (dc # ds)) m = (if m = name then Some (ucast (ucast c :: u16), 0, attrs) else map_of (dir_list s (dc # ds)) m)"
    "\<And>y. valid s y \<Longrightarrow> y \<notin> set (dc # ds) \<Longrightarrow> cluster_data s' y = cluster_data s y" "\<forall>x \<in> free_clusters s. c \<le> x"
proof -
  let ?x = "first_sector dc s" and ?D = "dc # ds"
  have pn: "length name \<le> 11" using assms(2) by (simp add: plain_name_def)
  obtain c s1 where a: "allocateCluster s = (c, s1)" "c \<in> free_clusters s" "\<forall>x \<in> free_clusters s. c \<le> x" "same_volume s1 s"
    "\<forall>x. valid s x \<longrightarrow> readFatEntry x s1 = (if x = c then 0x0FFFFFF8 else readFatEntry x s)"
    "\<forall>x. data_start s \<le> unat x \<longrightarrow> disk s1 x = disk s x"
    using allocateCluster_spec(2) [OF assms(1,6)] by blast
  have vc: "valid s c" using a(2) by (simp add: free_clusters_def)
  have c0: "c \<noteq> 0" by (rule valid_small(4) [OF assms(1) vc])
  have ok1: "vol_ok s1" by (rule same_volume_ok [OF a(4) assms(1)])
  have ncD: "c \<notin> set ?D" using a(2) fchain_nonfree [OF assms(1,4)] unfolding free_clusters_def by blast
  have f1: "fchain s1 ?D"
  proof -
    have "readFatEntry x s1 = readFatEntry x s" if "x \<in> set ?D" for x using a(5) fchain_valid [OF assms(4) that] ncD that by auto
    then show ?thesis using fchain_cong [OF a(4)] assms(4) by blast
  qed
  have cd: "cluster_data s1 y = cluster_data s y" if "valid s y" for y
    by (rule cluster_data_fat_update [OF assms(1) that a(4)]) (use a(6) in blast)
  have dl: "dir_list s1 ?D = dir_list s ?D"
    by (rule dir_list_data_cong [OF assms(1) a(4)]) (use cd fchain_valid [OF assms(4)] in blast)
  obtain zs where z: "dir_sectors s1 ?D = ?x # zs"
    using dir_sectors_first [OF ok1, of dc ds] same_volume_simps(5) [OF a(4)] by metis
  have z': "dir_sectors s1 ?D = [] @ ?x # zs" using z by simp
  have x: "?x \<in> set (dir_sectors s1 ?D)" unfolding z by simp
  note p = dir_sector_position [OF ok1 f1 x]
  have dx: "disk s1 ?x = disk s ?x" using p(1) a(6) same_volume_simps(3) [OF a(4)] by simp
  obtain us vs where "slots = us @ j # vs" by (rule free_slot [OF assms(7)]) blast
  then have j: "j \<in> set slots" by (metis in_set_conv_decomp)
  let ?d = "disk s ?x"
  let ?d' = "put_bytes j (dir_entry (short_name name) attrs c 0) ?d"
  have ld: "length ?d = 512" by (rule vol_okD(6) [OF assms(1)])
  note ne = new_entry_slot [OF j ld assms(2,3), of c]
  define s' where "s' = s1\<lparr>disk := (disk s1)(?x := ?d')\<rparr>"
  have ld': "length ?d' = 512" using ne(1) by (simp add: slot_update_def)
  have sf: "same_fat s' s1" unfolding s'_def by (rule same_fat_data [OF ok1 ld' p(1)])
  have sn: "short_name (take 11 name) = short_name name" using pn by (simp add: short_name_def)
  have wr: "writeDirectoryEntry dc (take 11 name) attrs c 0 s1 = Some (True, s')"
    using findFreeDirectoryEntry_first [OF ok1 f1, of j] assms(7) dx readSector_ok [OF ok1 p(2)] diskWrite_ok [OF ok1 p(2) ld']
      vol_okD(2) [OF ok1] same_volume_simps(5) [OF a(4)] by (simp add: writeDirectoryEntry_def s'_def sn Let_def)
  have miss: "match_entry 512 name ?d 0 = None"
  proof -
    have "map_of (dir_list s1 ?D) name = None" using assms(5) dl by simp
    then show ?thesis unfolding dir_list_def z using dx by (simp add: map_add_None map_of_sector_list)
  qed
  show thesis
  proof (rule that [of c s'])
    show "create_entry dc name attrs s = Some (c, s')"
      using findFileInDirectory_spec [OF assms(1,4), of name] assms(5) a(1) c0 pn wr by (simp add: create_entry_def)
    show "same_volume s' s" by (rule same_volume_trans [OF same_fatD(1) [OF sf] a(4)])
    show "readFatEntry x s' = (if x = c then 0x0FFFFFF8 else readFatEntry x s)" if "valid s x" for x
      using same_fatD(2) [OF sf, of x] a(5) that valid_cong [OF a(4)] by simp
    have dist: "distinct (dir_sectors s1 ?D)"
      by (rule distinct_dir_sectors [OF ok1]) (use fchain_valid [OF f1] fchain_distinct [OF ok1 f1] in auto)
    have sec: "map_of (sector_list ?d') m = (if m = name then Some (ucast (ucast c :: u16), 0, attrs) else map_of (sector_list (disk s1 ?x)) m)" for m
      using sector_list_insert [OF assms(7,8) ne(1-4) miss, of m] ne(5) dx by simp
    show "map_of (dir_list s' ?D) m = (if m = name then Some (ucast (ucast c :: u16), 0, attrs) else map_of (dir_list s ?D) m)" for m
      unfolding dl [symmetric] s'_def dir_list_replace [OF dist z' same_fatD(1) [OF sf [unfolded s'_def]]]
      by (rule map_of_replace [OF _ sec z']) simp
    show "cluster_data s' y = cluster_data s y" if "valid s y" "y \<notin> set ?D" for y
      using cluster_data_dir_write [OF ok1 f1 x same_fatD(1) [OF sf [unfolded s'_def]], of y] that cd [OF that(1)] valid_cong [OF a(4)]
      by (simp add: s'_def)
  qed (use a in auto)
qed

text \<open>
  C13: creating a file. For a new name that fits the eleven bytes of an entry, with a free slot in the first sector of
  the current directory and a free cluster, \<open>createFile\<close> returns true. The name is then found with size 0 and the
  given attributes, its cluster is the lowest free one (cut to the sixteen bits an entry stores), that cluster is a chain of its own and no
  longer free, and every other name, chain and content is as before.
\<close>

theorem createFile_correct:
  assumes "vol_ok s" "plain_name name" "attrs \<noteq> 0x0F" "m_currentDirectoryCluster s = dc" "fchain s (dc # ds)"
    "findFile name s = Some None" "free_clusters s \<noteq> {}"
    "free_entry 512 (disk s (first_sector dc s)) = Some j" "clean (disk s (first_sector dc s))"
  shows "\<exists>c s'. createFile name attrs s = Some (True, s') \<and> vol_ok s' \<and> c = Min (free_clusters s) \<and>
    findFile name s' = Some (Some (ucast (ucast c :: u16), 0, attrs)) \<and> fchain s' [c] \<and>
    free_clusters s' = free_clusters s - {c} \<and>
    (\<forall>m. component m \<and> m \<noteq> name \<longrightarrow> findFile m s' = findFile m s) \<and>
    (\<forall>zs. fchain s zs \<longrightarrow> fchain s' zs \<and> (set zs \<inter> set (dc # ds) = {} \<longrightarrow> file_bytes s' zs = file_bytes s zs))"
proof -
  note cn = plain_name_component [OF assms(2)]
  have old: "findFile m s = Some (map_of (dir_list s (dc # ds)) m)" if "component m" for m
    using findFile_plain [OF that, of s] findFileInDirectory_spec [OF assms(1,5)] assms(4) by simp
  have none: "map_of (dir_list s (dc # ds)) name = None" using old [OF cn] assms(6) by simp
  obtain c s' where 1: "create_entry dc name attrs s = Some (c, s')" "same_volume s' s" "c \<in> free_clusters s"
    "\<And>x. valid s x \<Longrightarrow> readFatEntry x s' = (if x = c then 0x0FFFFFF8 else readFatEntry x s)"
    "\<And>m. map_of (dir_list s' (dc # ds)) m = (if m = name then Some (ucast (ucast c :: u16), 0, attrs) else map_of (dir_list s (dc # ds)) m)"
    "\<And>y. valid s y \<Longrightarrow> y \<notin> set (dc # ds) \<Longrightarrow> cluster_data s' y = cluster_data s y" "\<forall>x \<in> free_clusters s. c \<le> x"
    by (rule create_entry_spec [OF assms(1-3,5) none assms(7-9)]) blast
  have vc: "valid s c" using 1(3) by (simp add: free_clusters_def)
  have ok: "vol_ok s'" and cur: "m_currentDirectoryCluster s' = dc"
    using same_volume_ok [OF 1(2) assms(1)] 1(2) assms(4) by (auto simp: same_volume_def)
  have keep: "fchain s' zs" if z: "fchain s zs" for zs
  proof -
    have "readFatEntry x s' = readFatEntry x s" if "x \<in> set zs" for x
      using 1(3,4) fchain_valid [OF z that] fchain_nonfree [OF assms(1) z that] by (auto simp: free_clusters_def)
    then show ?thesis using fchain_cong [OF 1(2)] z by blast
  qed
  have find: "findFile m s' = Some (if m = name then Some (ucast (ucast c :: u16), 0, attrs) else map_of (dir_list s (dc # ds)) m)"
    if "component m" for m
    using findFile_plain [OF that, of s'] findFileInDirectory_spec [OF ok keep [OF assms(5)]] 1(5) cur by simp
  have valid: "validateFileName name" "name \<noteq> []" using assms(2) by (auto simp: plain_name_def validateFileName_def)
  have cr: "createFile name attrs s = Some (True, s')"
    using 1(1) valid component_hd [OF cn] valid_small(4) [OF assms(1) vc] assms(4)
    by (simp add: createFile_def root_or_current_component)
  have free: "free_clusters s' = free_clusters s - {c}"
    using 1(4) by (auto simp: free_clusters_def valid_cong [OF 1(2)] split: if_splits)
  have "c = Min (free_clusters s)" using 1(3,7) by (metis Min_eqI finite_free)
  moreover have "fchain s' [c]" using 1(4) [OF vc] vc by (simp add: valid_cong [OF 1(2)])
  moreover have "file_bytes s' zs = file_bytes s zs" if "fchain s zs" "set zs \<inter> set (dc # ds) = {}" for zs
    by (rule file_bytes_cong) (use 1(6) fchain_valid [OF that(1)] that(2) in blast)
  ultimately show ?thesis
    by (intro exI [of _ c] exI [of _ s'] conjI allI impI) (use cr ok find cn old free keep in auto)
qed

theorem createFile_correct_witness:
  "\<exists>s' c. createFile [66] 0x20 dir_example = Some (True, s') \<and> findFile [66] s' = Some (Some (c, 0, 0x20)) \<and>
     findFile [65] s' = Some (Some (3, 7, 0x20))"
proof -
  let ?d = "put_bytes 0 (dir_entry (short_name [65]) 0x20 3 7) (replicate 512 0)"
  have x: "disk dir_example (first_sector 2 dir_example) = ?d"
    by (simp add: first_sector_def dir_example_def fat_example_def)
  have d: "free_entry 512 ?d = Some 32" "clean ?d" "plain_name [66]" by code_simp+
  have A: "component [65]" "component [66]" by (simp_all add: component_def)
  have old: "findFile m dir_example = Some (map_of [([65], 3, 7, 0x20)] m)" if "component m" for m
    using findFile_plain [OF that, of dir_example] findFileInDirectory_spec [OF dir_example_ok dir_example_chains(1)]
    by (simp add: dir_example_chains(3) dir_example_list)
  have "4 \<in> free_clusters dir_example" by (simp add: free_clusters_def dir_example_fat dir_example_valid)
  then have ne: "free_clusters dir_example \<noteq> {}" by blast
  obtain s' c where "createFile [66] 0x20 dir_example = Some (True, s')" "findFile [66] s' = Some (Some (c, 0, 0x20))"
    "findFile [65] s' = findFile [65] dir_example"
    using createFile_correct [OF dir_example_ok d(3) _ dir_example_chains(3,1) _ ne _ , of "0x20" 32] d(1,2) old [OF A(2)] A
    unfolding x by auto
  then show ?thesis using old [OF A(1)] by auto
qed

end
