(* ===== verification/Elf_Proofs.thy ===== *)
theory Elf_Proofs
  imports Elf_Loader Fat_Operations
begin

text \<open>
  What \<open>load_program\<close> leaves behind: the segments of the image in memory, their pages mapped, and the regions, entry
  point and program break of the process.
\<close>

section \<open>Pages of a segment\<close>

lemma page_position:
  assumes "unat a + n * 4096 < 2 ^ 64" "k \<le> n"
  shows "unat (a + of_nat k * 4096 :: u64) = unat a + k * 4096"
proof -
  have k: "k * 4096 \<le> n * 4096" using assms(2) by simp
  have "unat (of_nat k :: u64) = k" using assms k by (intro unat_of_nat_u64) simp
  then have "unat (of_nat k * 4096 :: u64) = k * 4096" using assms k by (subst unat_mult_u64) simp_all
  then show ?thesis using assms k by (subst unat_plus_u64) simp_all
qed

lemma segment_pages_claim:
  "unat a + n * 4096 < 2 ^ 64 \<Longrightarrow> i \<le> n \<Longrightarrow>
     segment_pages w (a + of_nat i * 4096) (a + of_nat n * 4096) v = Some (claim_pages a w i n v)"
proof (induction a w i n v rule: claim_pages.induct)
  case (1 a w i n v)
  let ?x = "a + of_nat i * 4096" and ?e = "a + of_nat n * 4096"
  have lt: "?x < ?e \<longleftrightarrow> i < n"
    using page_position [OF "1.prems"(1)] "1.prems"(2) by (simp add: word_less_nat_alt)
  show ?case
  proof (cases "i < n")
    case False
    then show ?thesis using lt by (simp add: segment_pages.simps [of w ?x] claim_pages.simps [of a w i])
  next
    case True
    obtain f p where al: "allocate_frame (vm_pmm v) = (f, p)" by fastforce
    have nx: "?x + 4096 = a + of_nat (Suc i) * 4096" by (simp add: algebra_simps)
    show ?thesis
    proof (cases "f = 0")
      case True
      then show ?thesis using lt \<open>i < n\<close> al by (simp add: segment_pages.simps [of w ?x] claim_pages.simps [of a w i])
    next
      case False
      let ?v = "map_page ?x f w (v\<lparr>vm_pmm := p\<rparr>)"
      have "segment_pages w (a + of_nat (Suc i) * 4096) ?e ?v = Some (claim_pages a w (Suc i) n ?v)"
        by (rule "1.IH") (use \<open>i < n\<close> al False "1.prems" in auto)
      then show ?thesis using lt \<open>i < n\<close> al False unfolding nx [symmetric]
        by (simp add: segment_pages.simps [of w ?x] claim_pages.simps [of a w i])
    qed
  qed
qed

text \<open>A segment whose end does not wrap around, and the number of its pages.\<close>

definition fits :: "elf64_phdr \<Rightarrow> bool" where
  "fits ph \<longleftrightarrow> p_filesz ph \<le> p_memsz ph \<and> unat (p_vaddr ph) + unat (p_memsz ph) + 8192 \<le> 2 ^ 48"

definition seg_pages :: "elf64_phdr \<Rightarrow> nat" where
  "seg_pages ph = (unat (segment_end ph) - unat (segment_start ph)) div 4096"

lemma segment_bounds:
  assumes "fits ph"
  shows "unat (segment_start ph) = unat (p_vaddr ph) - unat (p_vaddr ph) mod 4096"
    "segment_end ph = segment_start ph + of_nat (seg_pages ph) * 4096"
    "unat (segment_start ph) + seg_pages ph * 4096 < 2 ^ 64" "seg_pages ph < 2 ^ 36"
    "unat (p_vaddr ph) + unat (p_memsz ph) \<le> unat (segment_end ph)"
proof -
  let ?a = "unat (p_vaddr ph)" and ?z = "unat (p_memsz ph)"
  have b: "?a + ?z + 8192 \<le> 281474976710656" using assms by (simp add: fits_def)
  have mk: "(0xFFF :: u64) = mask 12" by (simp add: mask_eq_exp_minus_1)
  show s: "unat (segment_start ph) = ?a - ?a mod 4096"
    unfolding segment_start_def mk unat_and_not_mask by simp
  have "unat (p_vaddr ph + p_memsz ph) = ?a + ?z" using b by (subst unat_plus_u64) simp_all
  then have "unat (p_vaddr ph + p_memsz ph + 0xFFF) = ?a + ?z + 4095" using b by (subst unat_plus_u64) simp_all
  then have e: "unat (segment_end ph) = (?a + ?z + 4095) - (?a + ?z + 4095) mod 4096"
    unfolding segment_end_def mk unat_and_not_mask by simp
  have sd: "?a - ?a mod 4096 = ?a div 4096 * 4096" "(?a + ?z + 4095) - (?a + ?z + 4095) mod 4096 = (?a + ?z + 4095) div 4096 * 4096"
    by (simp_all add: minus_mod_eq_div_mult)
  have le: "?a div 4096 \<le> (?a + ?z + 4095) div 4096" by (intro div_le_mono) simp
  have n: "seg_pages ph = (?a + ?z + 4095) div 4096 - ?a div 4096"
    unfolding seg_pages_def s e sd by (simp add: diff_mult_distrib [symmetric])
  have tot: "unat (segment_start ph) + seg_pages ph * 4096 = unat (segment_end ph)"
    unfolding n s e sd using le by (simp add: diff_mult_distrib)
  have eb: "unat (segment_end ph) \<le> ?a + ?z + 4095" unfolding e by simp
  then show sm: "unat (segment_start ph) + seg_pages ph * 4096 < 2 ^ 64" using tot b by simp
  have "seg_pages ph * 4096 \<le> ?a + ?z + 4095" using tot eb by linarith
  then show "seg_pages ph < 2 ^ 36" using b by simp
  have "unat (segment_start ph + of_nat (seg_pages ph) * 4096) = unat (segment_end ph)"
    using page_position [OF sm order.refl] tot by simp
  then show "segment_end ph = segment_start ph + of_nat (seg_pages ph) * 4096" by (simp add: word_unat_eq_iff)
  have "(?a + ?z + 4095) mod 4096 \<le> 4095" by simp
  then show "?a + ?z \<le> unat (segment_end ph)" unfolding e by linarith
qed

section \<open>Data of a segment\<close>

definition in_range :: "u64 \<Rightarrow> nat \<Rightarrow> u64 \<Rightarrow> bool" where
  "in_range a n x \<longleftrightarrow> unat (x - a) < n"

definition apart_ranges :: "u64 \<Rightarrow> nat \<Rightarrow> u64 \<Rightarrow> nat \<Rightarrow> bool" where
  "apart_ranges a n b k \<longleftrightarrow> (\<forall>x. \<not> (in_range a n x \<and> in_range b k x))"

text \<open>The byte of a loaded segment at an address inside it.\<close>

definition seg_byte :: "mem \<Rightarrow> u64 \<Rightarrow> elf64_phdr \<Rightarrow> u64 \<Rightarrow> u8" where
  "seg_byte m base ph x =
    (if unat (x - p_vaddr ph) < unat (p_filesz ph) then m (base + p_offset ph + (x - p_vaddr ph)) else 0)"

abbreviation in_seg :: "elf64_phdr \<Rightarrow> u64 \<Rightarrow> bool" where
  "in_seg ph \<equiv> in_range (p_vaddr ph) (unat (p_memsz ph))"

text \<open>Memories that agree on a range read the same structures there.\<close>

definition agree :: "mem \<Rightarrow> mem \<Rightarrow> u64 \<Rightarrow> nat \<Rightarrow> bool" where
  "agree m' m a n \<longleftrightarrow> (\<forall>k < n. m' (a + of_nat k) = m (a + of_nat k))"

lemma agree_sub: "agree m' m a n \<Longrightarrow> i + k \<le> n \<Longrightarrow> agree m' m (a + of_nat i) k"
proof -
  assume g: "agree m' m a n" "i + k \<le> n"
  show ?thesis unfolding agree_def
  proof (intro allI impI)
    fix j assume "j < k"
    then have "i + j < n" using g(2) by linarith
    then have "m' (a + of_nat (i + j)) = m (a + of_nat (i + j))" using g(1) unfolding agree_def by blast
    then show "m' (a + of_nat i + of_nat j) = m (a + of_nat i + of_nat j)" by (simp only: of_nat_add add.assoc)
  qed
qed

lemma agree16: "agree m' m a 2 \<Longrightarrow> get16 m' a = get16 m a"
proof -
  assume g: "agree m' m a 2"
  have "m' (a + of_nat 0) = m (a + of_nat 0)" by (rule g [unfolded agree_def, rule_format]) simp
  moreover have "m' (a + of_nat 1) = m (a + of_nat 1)" by (rule g [unfolded agree_def, rule_format]) simp
  ultimately show ?thesis by (simp add: get16_def)
qed

lemma agree32: "agree m' m a 4 \<Longrightarrow> get32 m' a = get32 m a"
  using agree16 [OF agree_sub [of m' m a 4 0 2]] agree16 [OF agree_sub [of m' m a 4 2 2]] by (simp add: get32_def)

lemma agree64: "agree m' m a 8 \<Longrightarrow> get64 m' a = get64 m a"
  using agree32 [OF agree_sub [of m' m a 8 0 4]] agree32 [OF agree_sub [of m' m a 8 4 4]] by (simp add: get64_def)

lemma agree_phdr:
  assumes "agree m' m a 56"
  shows "phdr_at m' a = phdr_at m a"
  unfolding phdr_at_def
  using agree32 [OF agree_sub [OF assms, of 0 4]] agree32 [OF agree_sub [OF assms, of 4 4]] agree64 [OF agree_sub [OF assms, of 8 8]]
    agree64 [OF agree_sub [OF assms, of 16 8]] agree64 [OF agree_sub [OF assms, of 32 8]] agree64 [OF agree_sub [OF assms, of 40 8]]
  by simp

lemma agree_phnum:
  assumes "agree m' m a 64"
  shows "e_phnum (ehdr_at m' a) = e_phnum (ehdr_at m a)"
  using agree16 [OF agree_sub [OF assms, of 56 2]] by (simp add: ehdr_at_def)

lemma in_range_offset: "k < n \<Longrightarrow> n \<le> 2 ^ 64 \<Longrightarrow> in_range a n (a + of_nat k)"
  unfolding in_range_def using unat_of_nat_u64 [of k] by simp

lemma agree_apart:
  assumes "apart_ranges b j a n" "\<And>x. \<not> in_range b j x \<Longrightarrow> m' x = m x" "n \<le> 2 ^ 64"
  shows "agree m' m a n"
  using assms in_range_offset unfolding agree_def apart_ranges_def by blast

lemma segment_data_spec:
  assumes "fits (phdr_at m a)" "apart_ranges (p_vaddr (phdr_at m a)) (unat (p_memsz (phdr_at m a))) a 56"
    "apart_ranges (p_vaddr (phdr_at m a)) (unat (p_memsz (phdr_at m a)))
       (base + p_offset (phdr_at m a)) (unat (p_filesz (phdr_at m a)))"
  shows "segment_data a base m x = (if in_seg (phdr_at m a) x then seg_byte m base (phdr_at m a) x else m x)"
proof -
  define ph where "ph = phdr_at m a"
  let ?d = "p_vaddr ph" and ?s = "base + p_offset ph" and ?f = "unat (p_filesz ph)" and ?z = "unat (p_memsz ph)"
  have le: "?f \<le> ?z" and b: "?z \<le> 2 ^ 64" using assms(1) by (auto simp: fits_def ph_def word_le_nat_alt)
  have src: "?d = ?s \<or> ?f \<le> unat (?d - ?s)"
  proof (rule ccontr)
    assume n: "\<not> ?thesis"
    then have "in_range ?s ?f ?d" "in_range ?d ?z ?d" using le by (auto simp: in_range_def)
    then show False using assms(3) unfolding apart_ranges_def ph_def by blast
  qed
  define m1 where "m1 = memcpy m ?d ?s ?f"
  have m1: "m1 y = (if unat (y - ?d) < ?f then m (?s + (y - ?d)) else m y)" for y
    unfolding m1_def by (rule memcpy_spec [OF src]) (use le b in linarith)
  have "agree m1 m a 56"
    by (rule agree_apart [OF assms(2)]) (use m1 le in \<open>auto simp: in_range_def ph_def\<close>)
  then have ph1: "phdr_at m1 a = ph" unfolding ph_def by (rule agree_phdr)
  have sd: "segment_data a base m = (if p_filesz ph < p_memsz ph then memset m1 (?d + p_filesz ph) 0 (unat (p_memsz ph - p_filesz ph)) else m1)"
    unfolding segment_data_def Let_def ph_def [symmetric] m1_def [symmetric] ph1 ..
  have dif: "unat (p_memsz ph - p_filesz ph) = ?z - ?f" using le by (intro unat_sub) (simp add: word_le_nat_alt)
  have shift: "unat (x - (?d + p_filesz ph)) < ?z - ?f \<longleftrightarrow> ?f \<le> unat (x - ?d) \<and> unat (x - ?d) < ?z"
  proof -
    have e: "x - (?d + p_filesz ph) = (x - ?d) - p_filesz ph" by simp
    have z: "?z < 2 ^ 64" using assms(1) by (simp add: fits_def ph_def)
    show ?thesis
    proof (cases "?f \<le> unat (x - ?d)")
      case True
      then have "unat ((x - ?d) - p_filesz ph) = unat (x - ?d) - ?f" by (intro unat_sub) (simp add: word_le_nat_alt)
      then show ?thesis unfolding e using True by linarith
    next
      case False
      have "unat ((x - ?d) - p_filesz ph) = 2 ^ 64 + unat (x - ?d) - ?f"
        using False by (simp add: unat_word_ariths unat_sub_if')
      moreover have "\<not> 2 ^ 64 + unat (x - ?d) - ?f < ?z - ?f" using False z le by linarith
      ultimately show ?thesis unfolding e using False by simp
    qed
  qed
  show ?thesis
  proof (cases "p_filesz ph < p_memsz ph")
    case True
    then show ?thesis
      unfolding sd using memset_spec [of "?z - ?f" m1 "?d + p_filesz ph" 0 x] b dif shift m1 [of x] le
      by (auto simp: in_range_def seg_byte_def ph_def)
  next
    case False
    then have "?z = ?f" using le by (simp add: word_less_nat_alt)
    then show ?thesis unfolding sd using False m1 [of x] by (simp add: in_range_def seg_byte_def ph_def)
  qed
qed

section \<open>Mapping one segment\<close>

definition on_pages :: "elf64_phdr \<Rightarrow> u64 \<Rightarrow> bool" where
  "on_pages ph a \<longleftrightarrow> unat (segment_start ph) div 4096 \<le> page_no a \<and> page_no a < unat (segment_end ph) div 4096"

lemma segment_aligned:
  assumes "fits ph"
  obtains n where "unat (segment_start ph) = n * 4096" "unat (segment_end ph) = (n + seg_pages ph) * 4096"
    "n + seg_pages ph < 2 ^ 36"
proof -
  let ?n = "unat (p_vaddr ph) div 4096"
  note b = segment_bounds [OF assms]
  have s: "unat (segment_start ph) = ?n * 4096" unfolding b(1) by (simp add: minus_mod_eq_div_mult)
  have e: "unat (segment_end ph) = (?n + seg_pages ph) * 4096"
    using page_position [OF b(3) order.refl] s by (simp add: b(2) algebra_simps)
  have lt: "unat (segment_end ph) < 2 ^ 48"
  proof -
    have "segment_end ph \<le> p_vaddr ph + p_memsz ph + 0xFFF"
      unfolding segment_end_def by (simp add: word_and_le2)
    moreover have "unat (p_vaddr ph + p_memsz ph + 0xFFF) < 2 ^ 48"
    proof -
      have f: "unat (p_vaddr ph) + unat (p_memsz ph) + 8192 \<le> 2 ^ 48" using assms by (simp add: fits_def)
      then have "unat (p_vaddr ph + p_memsz ph) = unat (p_vaddr ph) + unat (p_memsz ph)" by (subst unat_plus_u64) simp_all
      then show ?thesis using f by (subst unat_plus_u64) simp_all
    qed
    ultimately show ?thesis by (simp add: word_le_nat_alt)
  qed
  then show thesis using that s e by simp
qed

lemma seg_page_no:
  assumes "fits ph" "k < seg_pages ph"
  shows "page_no (segment_start ph + of_nat k * 4096) = unat (segment_start ph) div 4096 + k"
proof -
  obtain n where n: "unat (segment_start ph) = n * 4096" "n + seg_pages ph < 2 ^ 36" using segment_aligned [OF assms(1)] by metis
  then have "n < 2 ^ 36" "n + k < 2 ^ 36" using assms(2) by linarith+
  then show ?thesis unfolding page_no_add by (simp add: page_no_def n)
qed

lemma on_pages_iff:
  assumes "fits ph"
  shows "on_pages ph a \<longleftrightarrow> (\<exists>k < seg_pages ph. same_page a (segment_start ph + of_nat k * 4096))"
proof -
  obtain n where n: "unat (segment_start ph) = n * 4096" "unat (segment_end ph) = (n + seg_pages ph) * 4096"
    using segment_aligned [OF assms] by metis
  have "on_pages ph a \<longleftrightarrow> n \<le> page_no a \<and> page_no a < n + seg_pages ph" unfolding on_pages_def n by simp
  also have "\<dots> \<longleftrightarrow> (\<exists>k < seg_pages ph. page_no a = n + k)"
    by (metis add_less_cancel_left le_Suc_ex le_add1)
  also have "\<dots> \<longleftrightarrow> (\<exists>k < seg_pages ph. same_page a (segment_start ph + of_nat k * 4096))"
    using seg_page_no [OF assms] by (auto simp: same_page_no n)
  finally show ?thesis .
qed

lemma in_seg_pages:
  assumes "fits ph" "in_seg ph x"
  shows "unat (segment_start ph) \<le> unat x" "unat x < unat (segment_end ph)"
proof -
  have f: "unat (p_vaddr ph) + unat (p_memsz ph) \<le> 2 ^ 48" using assms(1) by (simp add: fits_def)
  have "unat (x - p_vaddr ph + p_vaddr ph) = unat (x - p_vaddr ph) + unat (p_vaddr ph)"
    using f assms(2) by (subst unat_plus_u64) (simp_all add: in_range_def)
  then have x: "unat x = unat (x - p_vaddr ph) + unat (p_vaddr ph)" by simp
  show "unat (segment_start ph) \<le> unat x" using x segment_bounds(1) [OF assms(1)] by simp
  show "unat x < unat (segment_end ph)" using x segment_bounds(5) [OF assms(1)] assms(2) by (simp add: in_range_def)
qed

definition segs_apart :: "elf64_phdr \<Rightarrow> elf64_phdr \<Rightarrow> bool" where
  "segs_apart p q \<longleftrightarrow> segment_end p \<le> segment_start q \<or> segment_end q \<le> segment_start p"

lemma segs_apart_pages: "segs_apart p q \<Longrightarrow> on_pages p a \<Longrightarrow> on_pages q a \<Longrightarrow> False"
  unfolding segs_apart_def on_pages_def word_le_nat_alt
  by (meson div_le_mono leD le_less_trans order.strict_trans1)

lemma segs_apart_bytes: "segs_apart p q \<Longrightarrow> fits p \<Longrightarrow> fits q \<Longrightarrow> in_seg p x \<Longrightarrow> in_seg q x \<Longrightarrow> False"
  using in_seg_pages [of p x] in_seg_pages [of q x] unfolding segs_apart_def word_le_nat_alt by linarith

abbreviation seg_writable :: "elf64_phdr \<Rightarrow> bool" where
  "seg_writable ph \<equiv> p_flags ph AND PF_W \<noteq> 0"

abbreviation seg_region :: "elf64_phdr \<Rightarrow> memory_region" where
  "seg_region ph \<equiv> \<lparr>mr_start = segment_start ph, mr_size = segment_end ph - segment_start ph,
     mr_writable = seg_writable ph, mr_executable = (p_flags ph AND PF_X \<noteq> 0)\<rparr>"

text \<open>The pages of a segment in an address space: every one backed, with the write permission of the segment.\<close>

definition seg_mapped :: "vmm \<Rightarrow> elf64_phdr \<Rightarrow> bool" where
  "seg_mapped v ph \<longleftrightarrow> (\<forall>a. on_pages ph a \<longrightarrow> (\<exists>f. vm_leaf v a = Some (leaf_entry (f AND PAGE_MASK) (seg_writable ph))))"

definition seg_unmapped :: "vmm \<Rightarrow> elf64_phdr \<Rightarrow> bool" where
  "seg_unmapped v ph \<longleftrightarrow> (\<forall>a. on_pages ph a \<longrightarrow> vm_usable v a \<and> vm_leaf v a = None)"

lemma segment_pages_spec:
  assumes f: "fits ph" and ok: "vm_ok v" "4 * seg_pages ph \<le> vm_budget v" and u: "seg_unmapped v ph"
  shows "\<exists>v'. segment_pages (seg_writable ph) (segment_start ph) (segment_end ph) v = Some (True, v') \<and> vm_ok v' \<and>
    vm_budget v \<le> vm_budget v' + 4 * seg_pages ph \<and> seg_mapped v' ph \<and>
    (\<forall>a. \<not> on_pages ph a \<longrightarrow> vm_leaf v' a = vm_leaf v a) \<and> (\<forall>a. vm_usable v a \<longrightarrow> vm_usable v' a)"
proof -
  let ?b = "segment_start ph" and ?n = "seg_pages ph" and ?w = "seg_writable ph"
  have pg: "on_pages ph (?b + of_nat k * 4096)" if "k < ?n" for k
    using that on_pages_iff [OF f] same_page_refl by blast
  have sep: "\<not> same_page (?b + of_nat k * 4096) (?b + of_nat l * 4096)" if "k < l" "l < ?n" for k l
    by (rule consecutive_pages) (use that segment_bounds(4) [OF f] in auto)
  obtain v' where v': "claim_pages ?b ?w 0 ?n v = (True, v')" "vm_ok v'" "vm_budget v \<le> vm_budget v' + 4 * ?n"
      "\<forall>k < ?n. \<exists>f. vm_leaf v' (?b + of_nat k * 4096) = Some (leaf_entry (f AND PAGE_MASK) ?w)"
      "\<forall>a. (\<forall>k < ?n. \<not> same_page a (?b + of_nat k * 4096)) \<longrightarrow> vm_leaf v' a = vm_leaf v a"
      "\<forall>a. vm_usable v a \<longrightarrow> vm_usable v' a"
    using claim_pages_spec [of v ?n 0 ?b ?w] ok u pg sep unfolding seg_unmapped_def by auto
  have "segment_pages ?w ?b (segment_end ph) v = Some (True, v')"
  proof -
    have z: "?b + of_nat 0 * 4096 = ?b" by simp
    show ?thesis
      using segment_pages_claim [OF segment_bounds(3) [OF f] le0, of ?w v]
      unfolding z v'(1) segment_bounds(2) [OF f, symmetric] .
  qed
  moreover have "seg_mapped v' ph" unfolding seg_mapped_def
  proof (intro allI impI)
    fix a assume "on_pages ph a"
    then obtain k where k: "k < ?n" "same_page a (?b + of_nat k * 4096)" unfolding on_pages_iff [OF f] by blast
    have "vm_leaf v' a = vm_leaf v' (?b + of_nat k * 4096)" by (rule vm_leaf_same_page [OF k(2)])
    then show "\<exists>f. vm_leaf v' a = Some (leaf_entry (f AND PAGE_MASK) ?w)" using v'(4) k(1) by (simp only:)
  qed
  moreover have "\<forall>a. \<not> on_pages ph a \<longrightarrow> vm_leaf v' a = vm_leaf v a"
    using v'(5) unfolding on_pages_iff [OF f] by blast
  ultimately show ?thesis using v'(2,3,6) by blast
qed

lemma load_segment_spec:
  assumes f: "fits (phdr_at m a)" and ok: "vm_ok (k_vm k)" "4 * seg_pages (phdr_at m a) \<le> vm_budget (k_vm k)"
    and u: "seg_unmapped (k_vm k) (phdr_at m a)" and keep: "phdr_at (segment_data a base m) a = phdr_at m a"
  shows "\<exists>v'. load_segment p a base (m, k) = Some (True, segment_data a base m,
      upd_proc p (\<lambda>p. p\<lparr>p_memory_regions := seg_region (phdr_at m a) # p_memory_regions p\<rparr>) (k\<lparr>k_vm := v'\<rparr>)) \<and>
    vm_ok v' \<and> vm_budget (k_vm k) \<le> vm_budget v' + 4 * seg_pages (phdr_at m a) \<and> seg_mapped v' (phdr_at m a) \<and>
    (\<forall>x. \<not> on_pages (phdr_at m a) x \<longrightarrow> vm_leaf v' x = vm_leaf (k_vm k) x) \<and>
    (\<forall>x. vm_usable (k_vm k) x \<longrightarrow> vm_usable v' x)"
proof -
  let ?ph = "phdr_at m a"
  obtain v' where v': "segment_pages (seg_writable ?ph) (segment_start ?ph) (segment_end ?ph) (k_vm k) = Some (True, v')"
    and rest: "vm_ok v'" "vm_budget (k_vm k) \<le> vm_budget v' + 4 * seg_pages ?ph" "seg_mapped v' ?ph"
      "\<forall>x. \<not> on_pages ?ph x \<longrightarrow> vm_leaf v' x = vm_leaf (k_vm k) x" "\<forall>x. vm_usable (k_vm k) x \<longrightarrow> vm_usable v' x"
    using segment_pages_spec [OF f ok u] by blast
  show ?thesis using v' rest keep unfolding load_segment_def add_memory_region_def
    by (intro exI [of _ v']) (simp add: Let_def)
qed

section \<open>Loading an image\<close>

definition load_phdrs :: "mem \<Rightarrow> u64 \<Rightarrow> nat \<Rightarrow> elf64_phdr list" where
  "load_phdrs m fd i = filter (\<lambda>ph. p_type ph = PT_LOAD)
     (map (\<lambda>j. phdr_at m (fd + e_phoff (ehdr_at m fd) + of_nat j * 56)) [i..<unat (e_phnum (ehdr_at m fd))])"

text \<open>
  An image of \<open>n\<close> bytes at an address: its headers and the file parts of its segments lie inside it, no segment
  is loaded over it, and no two segments share a page.
\<close>

definition image_ok :: "mem \<Rightarrow> u64 \<Rightarrow> nat \<Rightarrow> bool" where
  "image_ok m fd n \<longleftrightarrow> 64 \<le> n \<and> n \<le> 2 ^ 48 \<and> unat (e_phoff (ehdr_at m fd)) + unat (e_phnum (ehdr_at m fd)) * 56 \<le> n \<and>
    (\<forall>ph \<in> set (load_phdrs m fd 0). fits ph \<and> unat (p_offset ph) + unat (p_filesz ph) \<le> n \<and>
       apart_ranges (p_vaddr ph) (unat (p_memsz ph)) fd n) \<and>
    sorted_wrt segs_apart (load_phdrs m fd 0)"

lemma load_phdrs_step:
  assumes "i < unat (e_phnum (ehdr_at m fd))"
  shows "load_phdrs m fd i = (let ph = phdr_at m (fd + e_phoff (ehdr_at m fd) + of_nat i * 56)
    in if p_type ph = PT_LOAD then ph # load_phdrs m fd (Suc i) else load_phdrs m fd (Suc i))"
  unfolding load_phdrs_def upt_conv_Cons [OF assms] by simp

lemma load_phdrs_suffix: "\<exists>xs. load_phdrs m fd 0 = xs @ load_phdrs m fd i" if "i \<le> unat (e_phnum (ehdr_at m fd))"
proof -
  have "[0..<unat (e_phnum (ehdr_at m fd))] = [0..<i] @ [i..<unat (e_phnum (ehdr_at m fd))]"
    using that upt_add_eq_append [of 0 i "unat (e_phnum (ehdr_at m fd)) - i"] by simp
  then show ?thesis unfolding load_phdrs_def by simp
qed

lemma agree_image_phdr:
  assumes "image_ok m0 fd n" "agree m m0 fd n" "i < unat (e_phnum (ehdr_at m0 fd))"
  shows "phdr_at m (fd + e_phoff (ehdr_at m0 fd) + of_nat i * 56) = phdr_at m0 (fd + e_phoff (ehdr_at m0 fd) + of_nat i * 56)"
proof -
  let ?o = "e_phoff (ehdr_at m0 fd)"
  have "i * 56 + 56 \<le> unat (e_phnum (ehdr_at m0 fd)) * 56" using assms(3) by (metis Suc_leI mult_Suc mult_le_mono1 add.commute)
  then have "unat ?o + i * 56 + 56 \<le> n" using assms(1) unfolding image_ok_def by linarith
  then have "agree m m0 (fd + of_nat (unat ?o + i * 56)) 56" by (intro agree_sub [OF assms(2)])
  then show ?thesis by (intro agree_phdr) (simp add: add.assoc)
qed

lemma apart_ranges_sub:
  assumes "apart_ranges a k fd n" "i + j \<le> n" "n \<le> 2 ^ 48"
  shows "apart_ranges a k (fd + of_nat i) j"
proof -
  have "in_range fd n x" if "in_range (fd + of_nat i) j x" for x
  proof -
    have "x - fd = (x - (fd + of_nat i)) + of_nat i" by simp
    moreover have "unat (of_nat i :: u64) = i" using assms by (intro unat_of_nat_u64) simp
    ultimately have "unat (x - fd) = unat (x - (fd + of_nat i)) + i"
      using that assms(2,3) by (simp only:) (subst unat_plus_u64, simp_all add: in_range_def)
    then show ?thesis using that assms(2) by (simp add: in_range_def)
  qed
  then show ?thesis using assms(1) unfolding apart_ranges_def by blast
qed

text \<open>One loadable segment of an image that has not changed so far.\<close>

lemma image_segment:
  assumes img: "image_ok m0 fd n" and ag: "agree m m0 fd n" and i: "i < unat (e_phnum (ehdr_at m0 fd))"
  defines "a \<equiv> fd + e_phoff (ehdr_at m0 fd) + of_nat i * 56"
  assumes pt: "p_type (phdr_at m0 a) = PT_LOAD"
  shows "phdr_at m a = phdr_at m0 a" "fits (phdr_at m0 a)"
    "segment_data a fd m x = (if in_seg (phdr_at m0 a) x then seg_byte m0 fd (phdr_at m0 a) x else m x)"
    "agree (segment_data a fd m) m0 fd n" "phdr_at (segment_data a fd m) a = phdr_at m0 a"
proof -
  define ph where "ph = phdr_at m0 a"
  show keep: "phdr_at m a = phdr_at m0 a" unfolding a_def by (rule agree_image_phdr [OF img ag i])
  have "ph \<in> set (load_phdrs m0 fd 0)" using i pt by (auto simp: load_phdrs_def ph_def a_def)
  then have p: "fits ph" "unat (p_offset ph) + unat (p_filesz ph) \<le> n" "apart_ranges (p_vaddr ph) (unat (p_memsz ph)) fd n"
    and n: "n \<le> 2 ^ 48" "unat (e_phoff (ehdr_at m0 fd)) + unat (e_phnum (ehdr_at m0 fd)) * 56 \<le> n"
    using img unfolding image_ok_def by auto
  show "fits (phdr_at m0 a)" using p(1) by (simp add: ph_def)
  have "i * 56 + 56 \<le> unat (e_phnum (ehdr_at m0 fd)) * 56" using i by (metis Suc_leI mult_Suc mult_le_mono1 add.commute)
  then have off: "unat (e_phoff (ehdr_at m0 fd)) + i * 56 + 56 \<le> n" using n(2) by linarith
  have "apart_ranges (p_vaddr ph) (unat (p_memsz ph)) (fd + of_nat (unat (e_phoff (ehdr_at m0 fd)) + i * 56)) 56"
    by (rule apart_ranges_sub [OF p(3) off n(1)])
  then have ap1: "apart_ranges (p_vaddr ph) (unat (p_memsz ph)) a 56" by (simp add: a_def add.assoc)
  have "apart_ranges (p_vaddr ph) (unat (p_memsz ph)) (fd + of_nat (unat (p_offset ph))) (unat (p_filesz ph))"
    by (rule apart_ranges_sub [OF p(3,2) n(1)])
  then have ap2: "apart_ranges (p_vaddr ph) (unat (p_memsz ph)) (fd + p_offset ph) (unat (p_filesz ph))" by simp
  have byte: "seg_byte m fd ph y = seg_byte m0 fd ph y" for y
  proof (cases "unat (y - p_vaddr ph) < unat (p_filesz ph)")
    case True
    then have "unat (p_offset ph) + unat (y - p_vaddr ph) < n" using p(2) by linarith
    then have "m (fd + of_nat (unat (p_offset ph) + unat (y - p_vaddr ph))) = m0 (fd + of_nat (unat (p_offset ph) + unat (y - p_vaddr ph)))"
      using ag unfolding agree_def by blast
    then show ?thesis by (simp add: seg_byte_def add.assoc)
  qed (simp add: seg_byte_def)
  have data: "segment_data a fd m y = (if in_seg ph y then seg_byte m0 fd ph y else m y)" for y
    using segment_data_spec [of m a fd y] p(1) ap1 ap2 byte [of y] unfolding keep ph_def [symmetric] by simp
  show "segment_data a fd m x = (if in_seg (phdr_at m0 a) x then seg_byte m0 fd (phdr_at m0 a) x else m x)"
    using data by (simp add: ph_def)
  have "agree (segment_data a fd m) m fd n" by (rule agree_apart [OF p(3)]) (use data n in auto)
  then show ag1: "agree (segment_data a fd m) m0 fd n" using ag unfolding agree_def by simp
  show "phdr_at (segment_data a fd m) a = phdr_at m0 a" unfolding a_def
    by (rule agree_image_phdr [OF img ag1 [unfolded a_def] i])
qed

text \<open>The segments of a list, loaded on top of the others.\<close>

definition segs_loaded :: "mem \<Rightarrow> u64 \<Rightarrow> elf64_phdr list \<Rightarrow> mem \<Rightarrow> vmm \<Rightarrow> bool" where
  "segs_loaded m0 fd phs m v \<longleftrightarrow> (\<forall>ph \<in> set phs. seg_mapped v ph \<and> (\<forall>x. in_seg ph x \<longrightarrow> m x = seg_byte m0 fd ph x))"

lemma segs_loaded_Cons:
  assumes "segs_loaded m0 fd phs m v" "\<forall>q \<in> set phs. segs_apart ph q \<and> fits q" "fits ph" "seg_mapped v1 ph"
    "\<forall>x. in_seg ph x \<longrightarrow> m1 x = seg_byte m0 fd ph x"
    "\<forall>x. (\<forall>q \<in> set phs. \<not> in_seg q x) \<longrightarrow> m x = m1 x" "\<forall>x. (\<forall>q \<in> set phs. \<not> on_pages q x) \<longrightarrow> vm_leaf v x = vm_leaf v1 x"
  shows "segs_loaded m0 fd (ph # phs) m v"
proof -
  have "seg_mapped v ph" unfolding seg_mapped_def
  proof (intro allI impI)
    fix a assume a: "on_pages ph a"
    then have "\<forall>q \<in> set phs. \<not> on_pages q a" using assms(2) segs_apart_pages by blast
    then have "vm_leaf v a = vm_leaf v1 a" using assms(7) by blast
    then show "\<exists>f. vm_leaf v a = Some (leaf_entry (f AND PAGE_MASK) (seg_writable ph))"
      using assms(4) a unfolding seg_mapped_def by (simp only:)
  qed
  moreover have "m x = seg_byte m0 fd ph x" if "in_seg ph x" for x
  proof -
    have "\<forall>q \<in> set phs. \<not> in_seg q x" using assms(2,3) that segs_apart_bytes by blast
    then show ?thesis using assms(5,6) that by simp
  qed
  ultimately show ?thesis using assms(1) unfolding segs_loaded_def by simp
qed

abbreviation image_top :: "elf64_phdr list \<Rightarrow> u64 \<Rightarrow> u64" where
  "image_top phs hi \<equiv> fold (\<lambda>ph h. if segment_end ph > h then segment_end ph else h) phs hi"

lemma load_segments_spec:
  fixes i :: nat
  assumes img: "image_ok m0 fd n" and "i \<le> unat (e_phnum (ehdr_at m0 fd))" "agree m m0 fd n" "vm_ok (k_vm k)"
    "4 * sum_list (map seg_pages (load_phdrs m0 fd i)) \<le> vm_budget (k_vm k)"
    "\<forall>ph \<in> set (load_phdrs m0 fd i). seg_unmapped (k_vm k) ph"
  shows "\<exists>m' v'. load_segments p fd (fd + e_phoff (ehdr_at m0 fd)) (of_nat i) hi (m, k) =
      Some (Some (image_top (load_phdrs m0 fd i) hi), m',
        upd_proc p (\<lambda>p. p\<lparr>p_memory_regions := rev (map seg_region (load_phdrs m0 fd i)) @ p_memory_regions p\<rparr>) (k\<lparr>k_vm := v'\<rparr>)) \<and>
    vm_ok v' \<and> segs_loaded m0 fd (load_phdrs m0 fd i) m' v' \<and>
    (\<forall>x. (\<forall>ph \<in> set (load_phdrs m0 fd i). \<not> in_seg ph x) \<longrightarrow> m' x = m x) \<and>
    (\<forall>x. (\<forall>ph \<in> set (load_phdrs m0 fd i). \<not> on_pages ph x) \<longrightarrow> vm_leaf v' x = vm_leaf (k_vm k) x)"
  using assms(2-)
proof (induction "unat (e_phnum (ehdr_at m0 fd)) - i" arbitrary: i m k hi)
  case 0
  let ?c = "unat (e_phnum (ehdr_at m0 fd))"
  have i: "i = ?c" using 0 by simp
  have n: "64 \<le> n" using img by (simp add: image_ok_def)
  have "agree m m0 (fd + of_nat 0) 64" by (rule agree_sub [OF "0.prems"(2)]) (use n in simp)
  then have c: "e_phnum (ehdr_at m fd) = e_phnum (ehdr_at m0 fd)" using agree_phnum [of m m0 fd] by simp
  have "load_phdrs m0 fd i = []" by (simp add: load_phdrs_def i)
  moreover have "upd_proc p (\<lambda>p. p) k = k" by (simp add: upd_proc_def)
  ultimately show ?case using "0.prems"(3)
    by (intro exI [of _ m] exI [of _ "k_vm k"]) (simp add: load_segments.simps [of p fd _ "e_phnum (ehdr_at m0 fd)"] c i segs_loaded_def)
next
  case (Suc d)
  let ?c = "unat (e_phnum (ehdr_at m0 fd))"
  define a where "a = fd + e_phoff (ehdr_at m0 fd) + of_nat i * 56"
  have i: "i < ?c" "d = ?c - Suc i" "Suc i \<le> ?c" using Suc.hyps(2) by linarith+
  have n: "64 \<le> n" using img by (simp add: image_ok_def)
  have "agree m m0 (fd + of_nat 0) 64" by (rule agree_sub [OF "Suc.prems"(2)]) (use n in simp)
  then have c: "e_phnum (ehdr_at m fd) = e_phnum (ehdr_at m0 fd)" using agree_phnum [of m m0 fd] by simp
  have "?c < 2 ^ LENGTH(16)" by (rule unsigned_less)
  then have i16: "i < 65536" using i by simp
  have lt: "(of_nat i :: u16) < e_phnum (ehdr_at m fd)" unfolding c word_less_nat_alt using i i16 by (simp add: unat_of_nat take_bit_nat_eq_self)
  have uc: "ucast (of_nat i :: u16) = (of_nat i :: u64)"
    using i16 by (simp add: unsigned_of_nat take_bit_nat_eq_self)
  have nx: "of_nat i + 1 = (of_nat (Suc i) :: u16)" by simp
  have keep: "phdr_at m a = phdr_at m0 a" unfolding a_def by (rule agree_image_phdr [OF img "Suc.prems"(2) i(1)])
  note rest = load_phdrs_step [OF i(1), folded a_def]
  show ?case
  proof (cases "p_type (phdr_at m0 a) = PT_LOAD")
    case False
    then have r: "load_phdrs m0 fd i = load_phdrs m0 fd (Suc i)" using rest by (simp add: Let_def)
    have "load_segments p fd (fd + e_phoff (ehdr_at m0 fd)) (of_nat i) hi (m, k) =
        load_segments p fd (fd + e_phoff (ehdr_at m0 fd)) (of_nat (Suc i)) hi (m, k)"
      unfolding nx [symmetric]
      by (subst load_segments.simps) (use lt uc keep False in \<open>simp add: Let_def a_def\<close>)
    then show ?thesis using Suc.hyps(1) [OF i(2,3) Suc.prems(2,3)] Suc.prems(4,5) unfolding r by simp
  next
    case True
    define ph where "ph = phdr_at m0 a"
    define phs where "phs = load_phdrs m0 fd (Suc i)"
    have r: "load_phdrs m0 fd i = ph # phs" using rest True by (simp add: Let_def ph_def phs_def)
    note seg = image_segment [OF img Suc.prems(2) i(1) True [unfolded a_def], folded a_def, folded ph_def]
    have u: "seg_unmapped (k_vm k) ph" "4 * seg_pages ph \<le> vm_budget (k_vm k)" using Suc.prems(4,5) unfolding r by simp_all
    let ?m1 = "segment_data a fd m"
    obtain v1 where v1: "load_segment p a fd (m, k) = Some (True, ?m1,
        upd_proc p (\<lambda>p. p\<lparr>p_memory_regions := seg_region ph # p_memory_regions p\<rparr>) (k\<lparr>k_vm := v1\<rparr>))"
      and ok1: "vm_ok v1" "vm_budget (k_vm k) \<le> vm_budget v1 + 4 * seg_pages ph" "seg_mapped v1 ph"
        "\<forall>x. \<not> on_pages ph x \<longrightarrow> vm_leaf v1 x = vm_leaf (k_vm k) x" "\<forall>x. vm_usable (k_vm k) x \<longrightarrow> vm_usable v1 x"
      using load_segment_spec [of m a k fd p] seg(1,2,5) u Suc.prems(3) by (simp only:) blast
    let ?k1 = "upd_proc p (\<lambda>p. p\<lparr>p_memory_regions := seg_region ph # p_memory_regions p\<rparr>) (k\<lparr>k_vm := v1\<rparr>)"
    obtain xs where "load_phdrs m0 fd 0 = xs @ ph # phs" using load_phdrs_suffix [of i m0 fd] i(1) unfolding r by auto
    then have ap: "\<forall>q \<in> set phs. segs_apart ph q \<and> fits q" using img unfolding image_ok_def by (auto simp: sorted_wrt_append)
    have un: "\<forall>q \<in> set phs. seg_unmapped v1 q"
    proof
      fix q assume q: "q \<in> set phs"
      then have "seg_unmapped (k_vm k) q" using Suc.prems(5) unfolding r by simp
      moreover have "\<not> on_pages ph x" if "on_pages q x" for x using ap q that segs_apart_pages by blast
      ultimately show "seg_unmapped v1 q" using ok1(4,5) unfolding seg_unmapped_def by simp
    qed
    have bud: "4 * sum_list (map seg_pages phs) \<le> vm_budget v1" using Suc.prems(4) ok1(2) unfolding r by simp
    obtain m' v' where ih: "load_segments p fd (fd + e_phoff (ehdr_at m0 fd)) (of_nat (Suc i)) (image_top [ph] hi) (?m1, ?k1) =
        Some (Some (image_top phs (image_top [ph] hi)), m',
          upd_proc p (\<lambda>p. p\<lparr>p_memory_regions := rev (map seg_region phs) @ p_memory_regions p\<rparr>) (?k1\<lparr>k_vm := v'\<rparr>))"
      and post: "vm_ok v'" "segs_loaded m0 fd phs m' v'" "\<forall>x. (\<forall>ph \<in> set phs. \<not> in_seg ph x) \<longrightarrow> m' x = ?m1 x"
        "\<forall>x. (\<forall>ph \<in> set phs. \<not> on_pages ph x) \<longrightarrow> vm_leaf v' x = vm_leaf v1 x"
      using Suc.hyps(1) [OF i(2,3) seg(4), of ?k1 "image_top [ph] hi", folded phs_def] ok1(1) bud un by auto
    have "load_segments p fd (fd + e_phoff (ehdr_at m0 fd)) (of_nat i) hi (m, k) =
        load_segments p fd (fd + e_phoff (ehdr_at m0 fd)) (of_nat (Suc i)) (image_top [ph] hi) (?m1, ?k1)"
      unfolding nx [symmetric]
      by (subst load_segments.simps) (use lt uc seg(1) True v1 in \<open>simp add: Let_def a_def [symmetric] ph_def\<close>)
    also have "\<dots> = Some (Some (image_top (ph # phs) hi), m',
        upd_proc p (\<lambda>p. p\<lparr>p_memory_regions := rev (map seg_region (ph # phs)) @ p_memory_regions p\<rparr>) (k\<lparr>k_vm := v'\<rparr>))"
      unfolding ih by (simp add: upd_proc_def)
    finally have run: "load_segments p fd (fd + e_phoff (ehdr_at m0 fd)) (of_nat i) hi (m, k) = \<dots>" .
    have "segs_loaded m0 fd (ph # phs) m' v'"
      by (rule segs_loaded_Cons [OF post(2) ap seg(2) ok1(3) _ post(3,4)]) (use seg(3) in simp)
    moreover have "\<forall>x. (\<forall>q \<in> set (ph # phs). \<not> in_seg q x) \<longrightarrow> m' x = m x" using post(3) seg(3) by simp
    moreover have "\<forall>x. (\<forall>q \<in> set (ph # phs). \<not> on_pages q x) \<longrightarrow> vm_leaf v' x = vm_leaf (k_vm k) x" using post(4) ok1(4) by simp
    ultimately show ?thesis using run post(1) unfolding r by blast
  qed
qed

lemma poke_spec:
  "length bs \<le> 2 ^ 64 \<Longrightarrow> poke m a bs x = (if in_range a (length bs) x then bs ! unat (x - a) else m x)"
proof (induction bs arbitrary: m a)
  case Nil
  then show ?case by (simp add: in_range_def)
next
  case (Cons b bs)
  have e: "x - a = 0 \<longleftrightarrow> x = a" by simp
  show ?case
  proof (cases "x = a")
    case True
    have "a - (a + 1) = 0xFFFFFFFFFFFFFFFF" by simp
    then have "unat (a - (a + 1)) = 2 ^ 64 - 1" by (simp only:) simp
    then have "\<not> in_range (a + 1) (length bs) x" using Cons.prems True by (simp add: in_range_def)
    then show ?thesis using Cons True by (simp add: in_range_def)
  next
    case False
    then have nz: "unat (x - a) \<noteq> 0" using e by (simp add: unat_eq_0)
    have "x - (a + 1) = (x - a) - 1" by simp
    then have "unat (x - (a + 1)) = unat (x - a) - 1" using False e by (simp only: unat_minus_one not_False_eq_True)
    then have "unat (x - a) = Suc (unat (x - (a + 1)))" using nz by linarith
    then show ?thesis using Cons False by (simp add: in_range_def)
  qed
qed


text \<open>An image with one segment of four bytes at \<^verbatim>\<open>0x400000\<close>, in the file \<^verbatim>\<open>A\<close>.\<close>

definition elf_image :: bytes where
  "elf_image = [0x7F, 0x45, 0x4C, 0x46, 2, 1, 1, 0, 0, 0, 0, 0, 0, 0, 0, 0, 2, 0, 62, 0, 1, 0, 0, 0,
     0, 0, 0x40, 0, 0, 0, 0, 0, 64, 0, 0, 0, 0, 0, 0, 0, 0, 0, 0, 0, 0, 0, 0, 0, 0, 0, 0, 0, 64, 0, 56, 0, 1, 0, 64, 0, 1, 0, 0, 0,
     1, 0, 0, 0, 5, 0, 0, 0, 120, 0, 0, 0, 0, 0, 0, 0, 0, 0, 0x40, 0, 0, 0, 0, 0, 0, 0, 0x40, 0, 0, 0, 0, 0,
     4, 0, 0, 0, 0, 0, 0, 0, 8, 0, 0, 0, 0, 0, 0, 0, 0, 0x10, 0, 0, 0, 0, 0, 0, 0x48, 0x31, 0xC0, 0xC3]"

definition elf_segment :: elf64_phdr where
  "elf_segment = \<lparr>p_type = 1, p_flags = 5, p_offset = 120, p_vaddr = 0x400000, p_filesz = 4, p_memsz = 8\<rparr>"

definition elf_memory :: mem where
  "elf_memory x = (let k = unat (x - 0x200000) in if k < 124 then elf_image ! k else 0)"

lemma elf_memory_poke: "elf_memory = poke (\<lambda>_. 0) 0x200000 elf_image"
proof
  fix x
  have len: "length elf_image = 124" by code_simp
  show "elf_memory x = poke (\<lambda>_. 0) 0x200000 elf_image x"
    using poke_spec [of elf_image "\<lambda>_. 0" "0x200000" x] unfolding len by (simp add: elf_memory_def in_range_def Let_def)
qed

lemma apart_above:
  assumes "unat fd + n \<le> unat a" "unat a + k \<le> 2 ^ 64"
  shows "apart_ranges a k fd n"
  unfolding apart_ranges_def
proof (intro allI notI)
  fix x assume x: "in_range a k x \<and> in_range fd n x"
  have "unat (x - a + a) = unat (x - a) + unat a" by (rule unat_plus_u64) (use x assms in \<open>simp add: in_range_def\<close>)
  moreover have "unat (x - fd + fd) = unat (x - fd) + unat fd" by (rule unat_plus_u64) (use x assms in \<open>simp add: in_range_def\<close>)
  ultimately show False using x assms by (simp add: in_range_def)
qed

lemma elf_memory_headers:
  "validate_elf_header elf_memory 0x200000" "load_phdrs elf_memory 0x200000 0 = [elf_segment]"
  "e_phoff (ehdr_at elf_memory 0x200000) = 64" "e_phnum (ehdr_at elf_memory 0x200000) = 1" "e_entry (ehdr_at elf_memory 0x200000) = 0x400000"
  by code_simp+

lemma elf_memory_image: "image_ok elf_memory 0x200000 124"
proof -
  have "apart_ranges 0x400000 8 0x200000 124" by (rule apart_above) simp_all
  then show ?thesis unfolding image_ok_def elf_memory_headers
    by (simp add: fits_def elf_segment_def)
qed

text \<open>A volume whose file \<^verbatim>\<open>A\<close> has given contents of at most one cluster.\<close>

lemma file_volume:
  assumes "0 < length data" "length data \<le> 512"
  obtains fs where "findFile [65] fs = Some (Some (3, of_nat (length data), 0x20))" "readFile 3 (length data) fs = Some data"
proof -
  have csize: "csize dir_example = 512" by (simp add: dir_example_def fat_example_def)
  obtain fs xs where fs: "same_volume fs dir_example" "fchain fs [2]" "readFile 3 (length data) fs = Some (map ((!) data) [0..<length data])"
    "\<And>m. map_of (dir_list fs [2]) m = (if m = [65] then Some (3, of_nat (length data), 0x20) else map_of (dir_list dir_example [2]) m)"
    by (rule store_content_spec [OF dir_example_ok _ dir_example_chains(3,1) _ dir_example_chains(2), of "[65]" 7 "0x20" "length data" "(!) data"])
      (use assms in \<open>auto simp: component_def dir_example_list blocks_def csize\<close>)
  have "m_currentDirectoryCluster fs = 2" using fs(1) dir_example_chains(3) by (auto simp: same_volume_def)
  then have "findFile [65] fs = Some (Some (3, of_nat (length data), 0x20))"
    using findFile_plain [of "[65]" fs] findFileInDirectory_spec [OF same_volume_ok [OF fs(1) dir_example_ok] fs(2)] fs(4) [of "[65]"]
    by (simp add: component_def)
  then show thesis using that fs(3) by (simp add: map_nth)
qed

lemma length_elf_image: "length elf_image = 124"
  by code_simp


text \<open>
  a path that does not exist, a directory and a file without a valid ELF header: \<open>load_program\<close> returns false and the kernel
  state does not change; at most the buffer has been filled.
\<close>

theorem load_program_rejects:
  assumes "findFile path fs = Some found"
    and "found = None \<or> (\<exists>c sz attrs. found = Some (c, sz, attrs) \<and>
      (attrs AND 0x10 \<noteq> 0 \<or> (\<exists>data. readFile c (unat sz) fs = Some data \<and> \<not> validate_elf_header (poke m fd data) fd)))"
  shows "\<exists>m'. load_program p path fd fs (m, k) = Some (False, m', k)"
  using assms by (auto simp: load_program_def Let_def)

theorem load_program_rejects_witness: "\<exists>m'. load_program 0x1000 [66] 0x200000 dir_example (\<lambda>_. 0, boot_example) = Some (False, m', boot_example)"
proof -
  have "findFile [66] dir_example = Some None"
    using findFile_plain [of "[66]" dir_example] findFileInDirectory_spec [OF dir_example_ok dir_example_chains(1)] dir_example_chains(3)
    by (simp add: component_def dir_example_list)
  then show ?thesis by (rule load_program_rejects) simp
qed

end
