(* ===== verification/Syscall_Proofs.thy ===== *)
theory Syscall_Proofs
  imports Syscall Elf_Proofs
begin

text \<open>
  Properties of the system calls: what a program sees through memory and results, who may do what, and what \<open>fork\<close> and
  \<open>execve\<close> really do to the one address space.
\<close>

section \<open>Console output\<close>

lemma print_char [simp]: "print_char c = Some [c]"
proof -
  have "ucast (scast c :: u64) = c" by (rule bit_word_eqI) (auto simp: bit_simps)
  then show ?thesis
    by (simp add: print_char_def vprintf_def cstr_def parse_spec_def eat_def is_digit_def convert_def arg_slot_def)
qed

lemma write_chars [simp]: "write_chars out bs = Some (out @ bs)"
  by (induction out bs rule: write_chars.induct) simp_all

text \<open>
  \<open>write\<close> on descriptor 1 or 2 prints exactly the bytes of the buffer, whatever they are, and returns their number; nothing but
  the console changes. On any other descriptor it fails without an effect.
\<close>

theorem write_prints_buffer:
  assumes "c_rax ctx = 1"
  shows "handle obj dup env env_mem cpu ctx s =
    (if ucast (c_rdi ctx) \<in> {1, 2 :: u32}
     then Some (c_rdx ctx, s\<lparr>console := console s @ bytes_at (sys_mem s) (c_rsi ctx) (unat (c_rdx ctx))\<rparr>)
     else Some (- 1, s))"
  using assms by (simp add: handle_def syscall_table_def dispatch_def sys_write_def)

section \<open>Messages\<close>

lemma bytes_at_poke: "length bs < 2 ^ 64 \<Longrightarrow> bytes_at (poke m a bs) a (length bs) = bs"
proof (rule nth_equalityI)
  fix i assume len: "length bs < 2 ^ 64" and "i < length (bytes_at (poke m a bs) a (length bs))"
  then have i: "i < length bs" by (simp add: bytes_at_def)
  then have "unat (of_nat i :: u64) = i" using len by (intro unat_of_nat_u64) simp
  then show "bytes_at (poke m a bs) a (length bs) ! i = bs ! i"
    using poke_spec [of bs m a "a + of_nat i"] len i by (simp add: bytes_at_def in_range_def)
qed (simp add: bytes_at_def)

lemma length_bytes_at [simp]: "length (bytes_at m a n) = n"
  by (simp add: bytes_at_def)

text \<open>
  C6: a message carries its bytes from one process to another. Let a live queue be empty. A \<open>send\<close> of at most 1024 bytes
  returns 0. When later some process receives from the queue, in whatever state the rest of the system then is, the call returns the
  sender in the upper and the number of bytes in the lower half of its result, its buffer holds the sent bytes, cut to the room it
  offers, no other byte of memory changes, and the queue is empty again.
\<close>

theorem message_roundtrip:
  assumes send: "c_rax a = 103" "queue_of_id (id_arg (c_rdi a)) (sys_ipc s) = Some q" "mq_messages (mqs (sys_ipc s) q) = []"
      "current s \<noteq> nullptr" "unat (c_rdx a) \<le> 1024"
    and recv: "c_rax b = 104" "c_rdi b = c_rdi a" "queue_of_id (id_arg (c_rdi b)) (sys_ipc s2) = Some q" "current s2 \<noteq> nullptr"
    and between: "\<And>s1. handle obj dup env env_mem cpu a s = Some (0, s1) \<Longrightarrow> mq_messages (mqs (sys_ipc s2) q) = mq_messages (mqs (sys_ipc s1) q)"
    and n: "n = min (unat (c_rdx a)) (unat (c_rdx b))"
  shows "\<exists>s1 s3. handle obj dup env env_mem cpu a s = Some (0, s1) \<and>
    handle obj dup env env_mem cpu' b s2 =
      Some (push_bit 32 (scast (p_pid (procs (sys_kern s) (current s)))) OR of_nat n, s3) \<and>
    bytes_at (sys_mem s3) (c_rsi b) n = take n (bytes_at (sys_mem s) (c_rsi a) (unat (c_rdx a))) \<and>
    (\<forall>x. n \<le> unat (x - c_rsi b) \<longrightarrow> sys_mem s3 x = sys_mem s2 x) \<and> mq_messages (mqs (sys_ipc s3) q) = []"
proof -
  let ?bs = "bytes_at (sys_mem s) (c_rsi a) (unat (c_rdx a))" and ?pid = "p_pid (procs (sys_kern s) (current s))"
  obtain ok x where snd: "queue_send q ?pid ?bs (unat (c_rdx a)) (sys_ipc s) = (ok, x)" by fastforce
  have full: "\<not> is_full (mqs (sys_ipc s) q)" using send(3) by (simp add: is_full_def MAX_MESSAGES_PER_QUEUE_def)
  have x: "ok" "mq_messages (mqs x q) = [\<lparr>msg_sender = ?pid, msg_timestamp = timer_ticks (sys_kern s), msg_data = ?bs\<rparr>]"
    using snd full send(3,5) by (auto simp: queue_send_def MAX_MESSAGE_SIZE_def Let_def upd_mq_def upd_kern_def split: list.splits if_splits)
  have s1: "handle obj dup env env_mem cpu a s = Some (0, s\<lparr>sys_ipc := x\<rparr>)"
    using send(1,2,4) snd x(1) by (simp add: handle_def syscall_table_def dispatch_def sys_msg_send_def send_message_def Let_def)
  define bs where "bs = ?bs"
  have msgs: "mq_messages (mqs (sys_ipc s2) q) = [\<lparr>msg_sender = ?pid, msg_timestamp = timer_ticks (sys_kern s), msg_data = bs\<rparr>]"
    using between [OF s1] x(2) by (simp add: bs_def)
  have len: "length bs = unat (c_rdx a)" by (simp add: bs_def)
  have size: "(if of_nat (length bs) < c_rdx b then of_nat (length bs) else c_rdx b) = (of_nat n :: u64)"
    unfolding len n by (auto simp: min_def word_less_nat_alt)
  have un: "unat (of_nat n :: u64) = n" by (rule unat_of_nat_u64) (use n send(5) in simp)
  let ?m = "poke (sys_mem s2) (c_rsi b) (take n bs)"
  have ln: "length (take n bs) = n" using n len by simp
  have byt: "bytes_at ?m (c_rsi b) n = take n bs"
  proof -
    have "length (take n bs) < 2 ^ 64" unfolding ln using n send(5) by simp
    from bytes_at_poke [OF this, of "sys_mem s2" "c_rsi b"] show ?thesis unfolding ln .
  qed
  have rest: "?m y = sys_mem s2 y" if "n \<le> unat (y - c_rsi b)" for y
  proof -
    have "n \<le> 2 ^ 64" using n send(5) by simp
    then show ?thesis using poke_spec [of "take n bs" "sys_mem s2" "c_rsi b" y] that unfolding ln by (simp add: in_range_def)
  qed
  have s3: "handle obj dup env env_mem cpu' b s2 = Some (push_bit 32 (scast ?pid) OR of_nat n,
      s2\<lparr>sys_ipc := upd_mq q (\<lambda>m. m\<lparr>mq_messages := erase_at 0 (mq_messages m)\<rparr>) (sys_ipc s2), sys_mem := ?m\<rparr>)"
    using recv msgs size un by (simp add: handle_def syscall_table_def dispatch_def sys_msg_receive_def receive_message_def
        queue_receive_def take_message_def Let_def)
  show ?thesis using s1 s3 byt rest msgs
    by (intro exI [of _ "s\<lparr>sys_ipc := x\<rparr>"] exI conjI) (auto simp: bs_def [symmetric] upd_mq_def)
qed

section \<open>Fork\<close>

text \<open>Mapping a page that is mapped already does nothing.\<close>

lemma map_page_present:
  assumes "vm_leaf v a \<noteq> None"
  shows "map_page a f w v = v"
proof -
  obtain t where t: "vm_table v (leaf_path a) = Some t" and e: "pte_present (pt_mem v (entry_at t (pt_index a)))"
    using assms by (auto simp: vm_leaf_def Let_def split: option.splits if_splits)
  obtain t1 t2 where l: "next_table (pt_mem v) (m_pml4 v) (pml4_index a) = Some t1" "next_table (pt_mem v) t1 (pdpt_index a) = Some t2"
    "next_table (pt_mem v) t2 (pd_index a) = Some t"
    using t by (auto simp: vm_table_def leaf_path_def split: option.splits)
  note g = get_next_level_present [OF l(1)] get_next_level_present [OF l(2)] get_next_level_present [OF l(3)]
  show ?thesis using g e by (simp add: map_page_def Let_def)
qed

definition region_pages :: "memory_region \<Rightarrow> nat" where
  "region_pages r = (unat (mr_size r) + 4095) div 4096"

text \<open>Every page of a region, as the loops step through it, is mapped.\<close>

definition region_mapped :: "vmm \<Rightarrow> memory_region \<Rightarrow> bool" where
  "region_mapped v r \<longleftrightarrow> unat (mr_start r) + unat (mr_size r) + 4096 \<le> 2 ^ 64 \<and>
     (\<forall>k < region_pages r. vm_leaf v (mr_start r + of_nat k * 4096) \<noteq> None)"

definition same_tables :: "vmm \<Rightarrow> vmm \<Rightarrow> bool" where
  "same_tables v' v \<longleftrightarrow> pt_mem v' = pt_mem v \<and> m_pml4 v' = m_pml4 v"

lemma same_tables_leaf: "same_tables v' v \<Longrightarrow> vm_leaf v' = vm_leaf v"
  by (rule ext) (simp add: same_tables_def vm_leaf_def vm_table_def split: option.split)

lemma fork_pages_mapped:
  assumes "unat a + unat z + 4096 \<le> 2 ^ 64" "n = (unat z + 4095) div 4096" "i \<le> n"
    "\<forall>k < n. vm_leaf v (a + of_nat k * 4096) \<noteq> None" "pmm_ok (vm_pmm v)" "n - i \<le> card (pmm_free (vm_pmm v))"
  shows "\<exists>v' m'. fork_pages w (a + of_nat i * 4096) (a + z) (v, m) = Some (True, v', m') \<and> same_tables v' v \<and>
    pmm_ok (vm_pmm v') \<and> card (pmm_free (vm_pmm v')) + (n - i) = card (pmm_free (vm_pmm v))"
  using assms(3-)
proof (induction "n - i" arbitrary: i v m)
  have e: "unat (a + z) = unat a + unat z" using assms(1) by (subst unat_plus_u64) simp_all
  have nz: "n * 4096 \<le> unat z + 4095" "n * 4096 \<ge> unat z" unfolding assms(2) by linarith+
  have pos: "unat (a + of_nat k * 4096) = unat a + k * 4096" if "k \<le> n" for k
    by (rule page_position [OF _ that]) (use nz assms(1) in linarith)
  {
    case 0
    then have "i = n" by simp
    then have "\<not> a + of_nat i * 4096 < a + z" using pos [of i] e nz(2) by (simp add: word_less_nat_alt)
    then show ?case using 0 by (simp add: fork_pages.simps [of w "a + of_nat i * 4096"] same_tables_def)
  next
    case (Suc d)
    then have i: "i < n" "d = n - Suc i" "Suc i \<le> n" by linarith+
    have "i * 4096 < unat z" using i(1) nz(1) by linarith
    then have lt: "a + of_nat i * 4096 < a + z" using pos [of i] i e by (simp add: word_less_nat_alt)
    obtain f p where al: "allocate_frame (vm_pmm v) = (f, p)" by fastforce
    have "0 < card (pmm_free (vm_pmm v))" using Suc.prems(4) i(1) by linarith
    then have free: "pmm_free (vm_pmm v) \<noteq> {}" by auto
    have f: "f \<in> pmm_free (vm_pmm v)" "pmm_free p = pmm_free (vm_pmm v) - {f}" "pmm_ok p"
      using pool.alloc_frame [OF Suc.prems(3) free] pool.inv_alloc [OF Suc.prems(3)] al by auto
    have nz: "f \<noteq> 0" using pool.alloc_null_iff [OF Suc.prems(3)] free al by auto
    let ?v1 = "v\<lparr>vm_pmm := p\<rparr>"
    have st: "same_tables ?v1 v" by (simp add: same_tables_def)
    have keep: "map_page (a + of_nat i * 4096) f w ?v1 = ?v1"
      by (rule map_page_present) (use Suc.prems(2) i(1) same_tables_leaf [OF st] in simp)
    have card: "card (pmm_free p) + 1 = card (pmm_free (vm_pmm v))"
      using card_Suc_Diff1 [OF pool.finite_frees f(1)] f(2) by simp
    let ?m1 = "memcpy m f (get_physical_address (a + of_nat i * 4096) ?v1) 4096"
    have lf: "\<forall>k < n. vm_leaf ?v1 (a + of_nat k * 4096) \<noteq> None" using Suc.prems(2) unfolding same_tables_leaf [OF st] .
    have pm: "pmm_ok (vm_pmm ?v1)" "n - Suc i \<le> card (pmm_free (vm_pmm ?v1))" using f(3) card Suc.prems(4) by simp_all
    obtain v' m' where ih: "fork_pages w (a + of_nat (Suc i) * 4096) (a + z) (?v1, ?m1) = Some (True, v', m')" "same_tables v' ?v1"
      "pmm_ok (vm_pmm v')" "card (pmm_free (vm_pmm v')) + (n - Suc i) = card (pmm_free (vm_pmm ?v1))"
      using Suc.hyps(1) [OF i(2,3) lf pm, of ?m1] by blast
    have nx: "a + of_nat i * 4096 + 4096 = a + of_nat (Suc i) * 4096" by (simp add: algebra_simps)
    have "fork_pages w (a + of_nat i * 4096) (a + z) (v, m) = Some (True, v', m')"
      by (subst fork_pages.simps) (use lt al nz keep ih(1) [folded nx] in \<open>simp add: Let_def\<close>)
    moreover have "same_tables v' v" using ih(2) by (simp add: same_tables_def)
    moreover have "card (pmm_free (vm_pmm v')) + (n - i) = card (pmm_free (vm_pmm v))" using ih(4) card i by simp
    ultimately show ?case using ih(3) by blast
  }
qed

lemma fork_regions_mapped:
  assumes "\<forall>r \<in> set rs. region_mapped (k_vm k) r" "pmm_ok (vm_pmm (k_vm k))"
    "sum_list (map region_pages rs) \<le> card (pmm_free (vm_pmm (k_vm k)))"
  shows "\<exists>v' m'. fork_regions c rs (k, m) = Some (True,
      upd_proc c (\<lambda>p. p\<lparr>p_memory_regions := rev rs @ p_memory_regions p\<rparr>) (k\<lparr>k_vm := v'\<rparr>), m') \<and>
    same_tables v' (k_vm k) \<and> card (pmm_free (vm_pmm v')) + sum_list (map region_pages rs) = card (pmm_free (vm_pmm (k_vm k)))"
  using assms
proof (induction rs arbitrary: k m)
  case Nil
  have "upd_proc c (\<lambda>p. p) k = k" by (simp add: upd_proc_def)
  then show ?case by (intro exI [of _ "k_vm k"] exI [of _ m]) (simp add: same_tables_def)
next
  case (Cons r rs)
  let ?n = "region_pages r"
  have rm: "region_mapped (k_vm k) r" "?n \<le> card (pmm_free (vm_pmm (k_vm k)))" using Cons.prems(1,3) by simp_all
  have z: "mr_start r + of_nat 0 * 4096 = mr_start r" by simp
  obtain v1 m1 where v1: "fork_pages (mr_writable r) (mr_start r) (mr_start r + mr_size r) (k_vm k, m) = Some (True, v1, m1)"
      "same_tables v1 (k_vm k)" "pmm_ok (vm_pmm v1)" "card (pmm_free (vm_pmm v1)) + ?n = card (pmm_free (vm_pmm (k_vm k)))"
    using fork_pages_mapped [of "mr_start r" "mr_size r" ?n 0 "k_vm k" "mr_writable r" m] rm Cons.prems(2)
    unfolding region_mapped_def region_pages_def z by auto
  define k1 where "k1 = add_memory_region c (mr_start r) (mr_size r) (mr_writable r) (mr_executable r) (k\<lparr>k_vm := v1\<rparr>)"
  have k1: "k_vm k1 = v1" "k1 = upd_proc c (\<lambda>p. p\<lparr>p_memory_regions := r # p_memory_regions p\<rparr>) (k\<lparr>k_vm := v1\<rparr>)"
    by (cases r, simp add: k1_def add_memory_region_def)+
  have "\<forall>r \<in> set rs. region_mapped (k_vm k1) r" using Cons.prems(1) same_tables_leaf [OF v1(2)] by (simp add: k1(1) region_mapped_def)
  moreover have "sum_list (map region_pages rs) \<le> card (pmm_free (vm_pmm (k_vm k1)))" using Cons.prems(3) v1(4) by (simp add: k1(1))
  ultimately obtain v' m' where ih: "fork_regions c rs (k1, m1) = Some (True,
      upd_proc c (\<lambda>p. p\<lparr>p_memory_regions := rev rs @ p_memory_regions p\<rparr>) (k1\<lparr>k_vm := v'\<rparr>), m')"
    "same_tables v' v1" "card (pmm_free (vm_pmm v')) + sum_list (map region_pages rs) = card (pmm_free (vm_pmm v1))"
    using Cons.IH [of k1 m1] v1(3) unfolding k1(1) by blast
  have "fork_regions c (r # rs) (k, m) = Some (True,
      upd_proc c (\<lambda>p. p\<lparr>p_memory_regions := rev rs @ p_memory_regions p\<rparr>) (k1\<lparr>k_vm := v'\<rparr>), m')"
    using v1(1) ih(1) by (simp add: k1_def)
  also have "\<dots> = Some (True, upd_proc c (\<lambda>p. p\<lparr>p_memory_regions := rev (r # rs) @ p_memory_regions p\<rparr>) (k\<lparr>k_vm := v'\<rparr>), m')"
    by (simp add: k1(2) upd_proc_def)
  finally have run: "fork_regions c (r # rs) (k, m) = \<dots>" .
  have "same_tables v' (k_vm k)" using ih(2) v1(2) by (simp add: same_tables_def)
  moreover have "card (pmm_free (vm_pmm v')) + sum_list (map region_pages (r # rs)) = card (pmm_free (vm_pmm (k_vm k)))"
    using ih(3) v1(4) by simp
  ultimately show ?case using run by blast
qed

text \<open>
  C39: \<open>fork\<close> gives the child no memory of its own. When the parent's regions are mapped and there are frames enough, the call returns
  the child's pid, the child has the parent's regions (in reverse order), entry point, break and registers with a zero result, and the parent's saved
  result is the pid; but the page tables are those from before the copy: the frames allocated for the copy are not mapped anywhere,
  one for each page of the parent, and both processes run on the same pages.
\<close>

theorem fork_shares_pages:
  assumes cur: "parent = current s" "parent \<noteq> nullptr"
    and new: "create_process obj (p_name (procs (sys_kern s) parent)) (p_pid (procs (sys_kern s) parent)) (sys_kern s) = Some (pid, k)"
      "get_process pid k = Some c" "c \<noteq> nullptr" "c \<noteq> parent" "p_memory_regions (procs k c) = []"
    and mapped: "\<forall>r \<in> set (p_memory_regions (procs k parent)). region_mapped (k_vm k) r" "pmm_ok (vm_pmm (k_vm k))"
      "sum_list (map region_pages (p_memory_regions (procs k parent))) \<le> card (pmm_free (vm_pmm (k_vm k)))"
  shows "\<exists>s'. sys_fork obj cpu s = Some (pid, s') \<and>
    p_memory_regions (procs (sys_kern s') c) = rev (p_memory_regions (procs k parent)) \<and>
    p_registers (procs (sys_kern s') c) = (p_registers (procs k parent))\<lparr>rax := 0\<rparr> \<and>
    rax (p_registers (procs (sys_kern s') parent)) = scast pid \<and>
    p_brk (procs (sys_kern s') c) = p_brk (procs k parent) \<and> p_entry_point (procs (sys_kern s') c) = p_entry_point (procs k parent) \<and>
    vm_leaf (k_vm (sys_kern s')) = vm_leaf (k_vm k) \<and>
    card (pmm_free (vm_pmm (k_vm (sys_kern s')))) + sum_list (map region_pages (p_memory_regions (procs k parent))) =
      card (pmm_free (vm_pmm (k_vm k)))"
proof -
  let ?rs = "p_memory_regions (procs k parent)"
  obtain v' m' where run: "fork_regions c ?rs (k, sys_mem s) = Some (True,
      upd_proc c (\<lambda>p. p\<lparr>p_memory_regions := rev ?rs @ p_memory_regions p\<rparr>) (k\<lparr>k_vm := v'\<rparr>), m')"
    and v': "same_tables v' (k_vm k)" "card (pmm_free (vm_pmm v')) + sum_list (map region_pages ?rs) = card (pmm_free (vm_pmm (k_vm k)))"
    using fork_regions_mapped [OF mapped, of c "sys_mem s"] by blast
  define k1 where "k1 = upd_proc c (\<lambda>p. p\<lparr>p_memory_regions := rev ?rs @ p_memory_regions p\<rparr>) (k\<lparr>k_vm := v'\<rparr>)"
  have call: "sys_fork obj cpu s = Some (pid, set_kern (inherit parent c pid k1) (s\<lparr>sys_mem := m'\<rparr>))"
    using cur new(1-3) run by (simp add: sys_fork_def Let_def k1_def)
  have leaf: "vm_leaf v' = vm_leaf (k_vm k)" by (rule same_tables_leaf [OF v'(1)])
  show ?thesis
    by (intro exI [of _ "set_kern (inherit parent c pid k1) (s\<lparr>sys_mem := m'\<rparr>)"] conjI)
      (use call new(4,5) leaf v'(2) in \<open>auto simp: set_kern_def inherit_def Let_def k1_def split: option.split\<close>)
qed

section \<open>Execve\<close>

text \<open>What loading a program leaves alone when it succeeds.\<close>

definition same_cpu :: "kernel \<Rightarrow> kernel \<Rightarrow> bool" where
  "same_cpu k' k \<longleftrightarrow> m_current_process k' = m_current_process k \<and> cpu_regs k' = cpu_regs k \<and>
     m_first_process k' = m_first_process k \<and> m_runqueues k' = m_runqueues k \<and> (\<forall>q. p_state (procs k' q) = p_state (procs k q))"

lemma same_cpu_refl [simp]: "same_cpu k k"
  by (simp add: same_cpu_def)

lemma same_cpu_trans: "same_cpu a b \<Longrightarrow> same_cpu b c \<Longrightarrow> same_cpu a c"
  by (simp add: same_cpu_def)

lemma same_cpu_upd: "(\<And>q. p_state (f q) = p_state q) \<Longrightarrow> same_cpu (upd_proc p f k) k"
  by (simp add: same_cpu_def)

lemma same_cpu_vm [simp]: "same_cpu (k\<lparr>k_vm := v\<rparr>) k"
  by (simp add: same_cpu_def)

lemma load_segment_cpu:
  assumes "load_segment p a base (m, k) = Some (True, m', k')"
  shows "same_cpu k' k"
proof -
  obtain v f where "k' = add_memory_region p (segment_start (phdr_at m a)) (segment_end (phdr_at m a) - segment_start (phdr_at m a))
      (f AND PF_W \<noteq> 0) (f AND PF_X \<noteq> 0) (k\<lparr>k_vm := v\<rparr>)"
    using assms by (auto simp: load_segment_def Let_def split: bind_splits if_splits)
  then show ?thesis unfolding add_memory_region_def by (simp add: same_cpu_def)
qed

lemma load_segments_cpu:
  assumes "load_segments p fd ph i hi st = Some y"
  shows "fst y \<noteq> None \<longrightarrow> same_cpu (snd (snd y)) (snd st)"
proof (rule load_segments.raw_induct [OF _ assms, where P = "\<lambda>p fd ph i hi st y. fst y \<noteq> None \<longrightarrow> same_cpu (snd (snd y)) (snd st)"])
  fix f p fd ph i hi and st :: "mem \<times> kernel" and y :: "u64 option \<times> mem \<times> kernel"
  assume IH: "\<And>p fd ph i hi st y. f p fd ph i hi st = Some y \<Longrightarrow> fst y \<noteq> None \<longrightarrow> same_cpu (snd (snd y)) (snd st)"
    and b: "(if i < e_phnum (ehdr_at (fst st) fd) then
       let a = ph + ucast i * 56; h = phdr_at (fst st) a
       in if p_type h \<noteq> PT_LOAD then f p fd ph (i + 1) hi st
          else do {
            (ok, st1) \<leftarrow> load_segment p a fd st;
            if \<not> ok then Some (None, st1)
            else f p fd ph (i + 1) (if segment_end h > hi then segment_end h else hi) st1
          }
     else Some (Some hi, st)) = Some y"
  obtain m0 k0 where st: "st = (m0, k0)" by fastforce
  let ?a = "ph + ucast i * 56"
  consider "\<not> i < e_phnum (ehdr_at m0 fd)" | "i < e_phnum (ehdr_at m0 fd)" "p_type (phdr_at m0 ?a) \<noteq> PT_LOAD"
    | "i < e_phnum (ehdr_at m0 fd)" "p_type (phdr_at m0 ?a) = PT_LOAD" by blast
  then show "fst y \<noteq> None \<longrightarrow> same_cpu (snd (snd y)) (snd st)"
  proof cases
    case 1
    then show ?thesis using b by (auto simp: st)
  next
    case 2
    then have "f p fd ph (i + 1) hi st = Some y" using b by (simp add: st Let_def)
    then show ?thesis by (rule IH)
  next
    case 3
    then obtain ok m1 k1 where seg: "load_segment p ?a fd (m0, k0) = Some (ok, m1, k1)"
      using b by (auto simp: st Let_def bind_eq_Some_conv)
    then have c: "(if \<not> ok then Some (None, m1, k1)
        else f p fd ph (i + 1) (if segment_end (phdr_at m0 ?a) > hi then segment_end (phdr_at m0 ?a) else hi) (m1, k1)) = Some y"
      using b 3 by (simp add: st Let_def)
    show ?thesis
    proof (cases ok)
      case False
      then show ?thesis using c by auto
    next
      case True
      then have "fst y \<noteq> None \<longrightarrow> same_cpu (snd (snd y)) (snd (m1, k1))" using c by (intro IH) simp
      then show ?thesis using load_segment_cpu [of p ?a fd m0 k0 m1 k1] seg True same_cpu_trans by (auto simp: st)
    qed
  qed
qed

lemma load_program_cpu:
  assumes "load_program p path fd fs (m, k) = Some (True, m', k')"
  shows "same_cpu k' k"
proof -
  obtain x where x: "findFile path fs = Some (Some x)"
    using assms by (auto simp: load_program_def bind_eq_Some_conv split: option.split_asm)
  obtain c z a where a: "x = (c, z, a)" by (cases x)
  obtain d hi k1 where "load_segments p fd (fd + e_phoff (ehdr_at (poke m fd d) fd)) 0 0 (poke m fd d,
      upd_proc p (\<lambda>p. p\<lparr>p_entry_point := e_entry (ehdr_at (poke m fd d) fd)\<rparr>) k) = Some (Some hi, m', k1)"
    and k': "k' = upd_proc p (\<lambda>p. p\<lparr>p_brk := hi, p_program_break := hi\<rparr>) k1"
    using assms by (auto simp: load_program_def x a bind_eq_Some_conv Let_def split: option.split_asm if_split_asm)
  then show ?thesis by (auto simp: same_cpu_def dest!: load_segments_cpu)
qed

lemma setup_process_stack_cpu:
  assumes "setup_process_stack p args envs k = Some (True, ws, k')"
  shows "same_cpu k' k" "rip (p_registers (procs k' p)) = p_entry_point (procs k' p)"
  using assms unfolding setup_process_stack_def Let_def
  by (auto simp: bind_eq_Some_conv same_cpu_def add_memory_region_def split: if_splits prod.splits)

text \<open>
  \<open>execve\<close> that reports success has prepared the new program but does not start it: the switch at its end is to the process that
  is current already and does nothing, so the processor goes on with the registers of the old program; the entry point is
  only in the saved registers.
\<close>

theorem execve_does_not_switch:
  assumes "sys_execve obj dup cpu filename argv envp s = Some (0, s')"
  shows "current s' = current s \<and> cpu_regs (sys_kern s') = cpu_regs (sys_kern s) \<and>
    rip (p_registers (procs (sys_kern s') (current s))) = p_entry_point (procs (sys_kern s') (current s))"
proof -
  let ?p = "current s"
  obtain path m k1 args envs ws k2 where ld: "load_program ?p path obj (sys_fs s)
      (sys_mem s, upd_proc ?p (\<lambda>p. p\<lparr>p_memory_regions := []\<rparr>) (sys_kern s)) = Some (True, m, k1)"
    and st: "setup_process_stack ?p args envs k1 = Some (True, ws, k2)"
    and s': "s' = set_kern (switch_to_process ?p k2) (s\<lparr>sys_mem := store_words ws m\<rparr>)"
    using assms unfolding sys_execve_def Let_def by (auto simp: bind_eq_Some_conv split: if_splits)
  have "same_cpu k1 (sys_kern s)"
    using same_cpu_trans [OF load_program_cpu [OF ld] same_cpu_upd [of "\<lambda>p. p\<lparr>p_memory_regions := []\<rparr>"]] by simp
  then have c: "same_cpu k2 (sys_kern s)" by (rule same_cpu_trans [OF setup_process_stack_cpu(1) [OF st]])
  then have "m_current_process k2 = ?p" by (simp add: same_cpu_def get_current_process_def)
  then have "switch_to_process ?p k2 = k2" by (simp add: switch_to_process_def)
  then show ?thesis using c setup_process_stack_cpu(2) [OF st] s' by (simp add: same_cpu_def set_kern_def get_current_process_def)
qed

section \<open>Permissions and failures\<close>

text \<open>
  \<open>brk\<close> never puts the break below the end of the loaded program: a request below it fails, a request above it or equal to it is granted and
  returned, a null request reads the break; no page is mapped or unmapped.
\<close>

theorem brk_bounded:
  assumes "current s \<noteq> nullptr" "p_program_break (procs (sys_kern s) (current s)) \<le> p_brk (procs (sys_kern s) (current s))"
    "sys_brk addr s = (r, s')"
  shows "current s' = current s \<and> p_program_break (procs (sys_kern s') (current s)) = p_program_break (procs (sys_kern s) (current s)) \<and>
    p_program_break (procs (sys_kern s) (current s)) \<le> p_brk (procs (sys_kern s') (current s)) \<and>
    r = (if addr \<noteq> nullptr \<and> addr < p_program_break (procs (sys_kern s) (current s)) then - 1 else p_brk (procs (sys_kern s') (current s))) \<and>
    k_vm (sys_kern s') = k_vm (sys_kern s) \<and> (\<forall>q. q \<noteq> current s \<longrightarrow> procs (sys_kern s') q = procs (sys_kern s) q)"
  using assms by (auto simp: sys_brk_def Let_def set_kern_def get_current_process_def split: if_splits)

text \<open>
  a process may set its own priority, and only the process with pid 1 that of others. A permitted call sets the priority of the named process,
  if there is one, to the request capped at 10, and \<open>get_priority\<close> then reads it; a call that is not permitted fails and changes nothing.
\<close>

theorem set_priority_correct:
  assumes "proc_list (sys_kern s) ps" "own = p_pid (procs (sys_kern s) (current s))" "current s \<noteq> nullptr"
  shows "(pid \<noteq> own \<and> own \<noteq> 1 \<longrightarrow> sys_sched_set_priority pid priority s = Some (- 1, s)) \<and>
    (pid = own \<or> own = 1 \<longrightarrow> (\<exists>s'. sys_sched_set_priority pid priority s = Some (0, s') \<and>
       sys_sched_get_priority pid s' =
         Some (if \<exists>q \<in> set ps. p_pid (procs (sys_kern s) q) = pid then ucast (min 10 priority) else - 1)))"
proof (intro conjI impI)
  assume "pid \<noteq> own \<and> own \<noteq> 1"
  then show "sys_sched_set_priority pid priority s = Some (- 1, s)" using assms(2) by (simp add: sys_sched_set_priority_def Let_def)
next
  assume perm: "pid = own \<or> own = 1"
  let ?k = "sys_kern s" and ?P = "\<lambda>x. p_pid (procs (sys_kern s) x) = pid"
  note g = get_process_list [OF assms(1), of pid]
  have ch: "nullptr \<notin> set ps" using assms(1) chain_nonzero unfolding proc_list_def by blast
  show "\<exists>s'. sys_sched_set_priority pid priority s = Some (0, s') \<and>
      sys_sched_get_priority pid s' = Some (if \<exists>q \<in> set ps. ?P q then ucast (min 10 priority) else - 1)"
  proof (cases "find ?P ps")
    case None
    then have "get_process pid ?k = Some nullptr" using g by simp
    moreover have "\<not> (\<exists>q \<in> set ps. ?P q)" using None by (auto simp: find_None_iff)
    ultimately show ?thesis using perm assms(2,3)
      by (intro exI [of _ s]) (auto simp: sys_sched_set_priority_def set_process_priority_def sys_sched_get_priority_def set_kern_def Let_def)
  next
    case (Some x)
    have x: "x \<in> set ps" "?P x" "x \<noteq> nullptr" using find_map_pid [OF Some] ch by auto
    let ?k' = "upd_proc x (\<lambda>p. p\<lparr>p_priority := (if priority > 10 then 10 else priority)\<rparr>) ?k"
    have pl: "proc_list ?k' ps" by (rule proc_list_cong [OF assms(1)]) simp_all
    have "find (\<lambda>y. p_pid (procs ?k' y) = pid) ps = Some x" using Some by (subst find_cong [of ps ps _ ?P]) auto
    then have "get_process pid ?k' = Some x" using get_process_list [OF pl, of pid] by simp
    then show ?thesis using perm assms(2,3) g Some x
      by (intro exI [of _ "set_kern ?k' s"])
        (auto simp: sys_sched_set_priority_def set_process_priority_def sys_sched_get_priority_def set_kern_def Let_def min_def)
  qed
qed

text \<open>
  calls the kernel does not implement, and all calls that need a calling process when there is none, fail without any effect.
\<close>

theorem handle_rejects:
  assumes "c_rax ctx \<notin> fst ` set syscall_table \<or> c_rax ctx \<in> {0, 2, 3, 11} \<or>
    (current s = nullptr \<and> c_rax ctx \<in> {12, 57, 59, 100, 101, 102, 103, 104, 105, 106, 108, 121})"
  shows "handle obj dup env env_mem cpu ctx s = Some (- 1, s)"
proof -
  have unknown: "handle obj dup env env_mem cpu ctx s = Some (- 1, s)" if "c_rax ctx \<notin> fst ` set syscall_table"
    using that by (simp add: handle_def map_of_eq_None_iff [THEN iffD2])
  have missing: "handle obj dup env env_mem cpu ctx s = Some (- 1, s)" if "c_rax ctx \<in> {0, 2, 3, 11}"
    using that by (elim insertE emptyE)
      (simp_all add: handle_def syscall_table_def dispatch_def sys_read_def sys_open_def sys_close_def sys_munmap_def)
  have idle: "handle obj dup env env_mem cpu ctx s = Some (- 1, s)"
    if "current s = nullptr" "c_rax ctx \<in> {12, 57, 59, 100, 101, 102, 103, 104, 105, 106, 108, 121}"
    using that(2) that(1) by (elim insertE emptyE)
      (simp_all add: handle_def syscall_table_def dispatch_def sys_brk_def
        sys_fork_def sys_execve_def sys_msg_create_def sys_msg_destroy_def sys_msg_open_def sys_msg_send_def sys_msg_receive_def
        sys_shm_create_def sys_shm_destroy_def sys_shm_detach_def sys_sched_set_priority_def widen_def Let_def)
  show ?thesis using assms unknown missing idle by blast
qed

section \<open>Examples\<close>

text \<open>Process 48, pid 3, runs; queue 1 is empty; memory holds its addresses.\<close>

definition system_example :: system where
  "system_example = \<lparr>sys_ipc = block_example, sys_mem = (\<lambda>a. ucast a), sys_fs = dir_example, console = []\<rparr>"

definition regs_example :: syscall_context where
  "regs_example = \<lparr>c_rax = 0, c_rdi = 1, c_rsi = 0x2000, c_rdx = 3, c_r10 = 0, c_r8 = 0, c_r9 = 0\<rparr>"

lemma system_example_simps [simp]:
  "get_current_process (kern block_example) = 48" "sys_ipc system_example = block_example" "sys_mem system_example = (\<lambda>a. ucast a)"
  "p_pid (procs (kern block_example) 48) = 3" "proc_list (kern block_example) [16, 32, 48]"
  "queue_of_id 1 block_example = Some 0x1000" "mq_messages (mqs block_example 0x1000) = []"
  "mq_waiting (mqs block_example 0x1000) = []"
  using exit_example_table(1)
  by (simp_all add: system_example_def block_example_def mq_example_eq exit_example_def kernel_example_def
      get_current_process_def new_queue_def new_process_def)
    (simp add: queue_of_id_def mq_example_def ipc_example_def create_message_queue_def find_name_def Let_def)

theorem write_prints_buffer_witness:
  "\<exists>s'. handle 0 (\<lambda>_. 0) id id 0 (regs_example\<lparr>c_rax := 1\<rparr>) system_example = Some (3, s') \<and> console s' = [0, 1, 2]"
  using write_prints_buffer [of "regs_example\<lparr>c_rax := 1\<rparr>" 0 "\<lambda>_. 0" id id 0 system_example]
  by (simp add: regs_example_def bytes_at_def upt_rec system_example_def)

theorem message_roundtrip_witness:
  "\<exists>s1 s3. handle 0 (\<lambda>_. 0) id id 0 (regs_example\<lparr>c_rax := 103\<rparr>) system_example = Some (0, s1) \<and>
     handle 0 (\<lambda>_. 0) id id 0 (regs_example\<lparr>c_rax := 104, c_rsi := 0x9100, c_rdx := 2\<rparr>) s1 = Some (push_bit 32 3 OR 2, s3) \<and>
     bytes_at (sys_mem s3) 0x9100 2 = [0, 1]"
proof -
  let ?a = "regs_example\<lparr>c_rax := 103\<rparr>" and ?b = "regs_example\<lparr>c_rax := 104, c_rsi := 0x9100, c_rdx := 2\<rparr>"
  have a: "c_rax ?a = 103" "id_arg (c_rdi ?a) = 1" "unat (c_rdx ?a) = 3" "c_rsi ?a = 0x2000"
    "c_rax ?b = 104" "c_rdi ?b = c_rdi ?a" "unat (c_rdx ?b) = 2" "c_rsi ?b = 0x9100"
    by (simp_all add: regs_example_def id_arg_def)
  define x where "x = upd_mq 0x1000 (\<lambda>m. m\<lparr>mq_messages := mq_messages m @ [\<lparr>msg_sender = 3,
    msg_timestamp = timer_ticks (kern block_example), msg_data = bytes_at (\<lambda>a. ucast a) 0x2000 3\<rparr>]\<rparr>) block_example"
  have "queue_send 0x1000 3 (bytes_at (\<lambda>a. ucast a) 0x2000 3) 3 block_example = (True, x)"
    by (simp add: queue_send_def is_full_def MAX_MESSAGES_PER_QUEUE_def MAX_MESSAGE_SIZE_def Let_def x_def)
  then have s1: "handle 0 (\<lambda>_. 0) id id 0 ?a system_example = Some (0, system_example\<lparr>sys_ipc := x\<rparr>)"
    using a(1-4) by (simp add: handle_def syscall_table_def dispatch_def sys_msg_send_def send_message_def Let_def)
  have q: "queue_of_id 1 x = Some 0x1000" "get_current_process (kern x) = 48" by (simp_all add: x_def)
  have byt: "bytes_at (\<lambda>a. ucast a) 0x2000 3 = [0, 1, 2]" by (simp add: bytes_at_def upt_rec)
  let ?s = "system_example" and ?s2 = "system_example\<lparr>sys_ipc := x\<rparr>"
  have pre: "queue_of_id (id_arg (c_rdi ?a)) (sys_ipc ?s) = Some 0x1000" "mq_messages (mqs (sys_ipc ?s) 0x1000) = []"
    "current ?s \<noteq> nullptr" "unat (c_rdx ?a) \<le> 1024" "queue_of_id (id_arg (c_rdi ?b)) (sys_ipc ?s2) = Some 0x1000" "current ?s2 \<noteq> nullptr"
    "2 = min (unat (c_rdx ?a)) (unat (c_rdx ?b))"
    using a q by simp_all
  have mid: "mq_messages (mqs (sys_ipc ?s2) 0x1000) = mq_messages (mqs (sys_ipc s1) 0x1000)"
    if "handle 0 (\<lambda>_. 0) id id 0 ?a ?s = Some (0, s1)" for s1 using that s1 by simp
  have pid: "scast (p_pid (procs (sys_kern ?s) (current ?s))) = (3 :: u64)" by simp
  from message_roundtrip [OF a(1) pre(1-4) a(5,6) pre(5,6) mid pre(7), of 0]
  obtain s1' s3 where "handle 0 (\<lambda>_. 0) id id 0 ?b ?s2 = Some (push_bit 32 3 OR of_nat 2, s3)"
    "bytes_at (sys_mem s3) (c_rsi ?b) 2 = take 2 (bytes_at (sys_mem ?s) (c_rsi ?a) (unat (c_rdx ?a)))"
    unfolding pid by blast
  then show ?thesis using s1 byt a by (intro exI [of _ ?s2] exI [of _ s3]) simp
qed

theorem brk_bounded_witness:
  "\<exists>r s'. sys_brk 5 system_example = (r, s') \<and> r = 5 \<and> current s' = 48"
proof -
  obtain r s' where b: "sys_brk 5 system_example = (r, s')" by fastforce
  have z: "p_program_break (procs (sys_kern system_example) 48) = 0" "p_brk (procs (sys_kern system_example) 48) = 0"
    by (simp_all add: block_example_def exit_example_def kernel_example_def new_process_def)
  have "current s' = 48 \<and> r = p_brk (procs (sys_kern s') 48)" using brk_bounded [OF _ _ b] z by simp
  moreover have "p_brk (procs (sys_kern s') 48) = 5" using b z by (auto simp: sys_brk_def set_kern_def Let_def)
  ultimately show ?thesis using b by blast
qed

theorem set_priority_correct_witness:
  "sys_sched_set_priority 2 7 system_example = Some (- 1, system_example) \<and>
   (\<exists>s'. sys_sched_set_priority 3 200 system_example = Some (0, s') \<and> sys_sched_get_priority 3 s' = Some 10)"
  using set_priority_correct [of system_example "[16, 32, 48]" 3 2 7] set_priority_correct [of system_example "[16, 32, 48]" 3 3 200]
  by (simp add: min_def)

theorem handle_rejects_witness: "handle 0 (\<lambda>_. 0) id id 0 (regs_example\<lparr>c_rax := 39\<rparr>) system_example = Some (- 1, system_example)"
  using handle_rejects [of "regs_example\<lparr>c_rax := 39\<rparr>" system_example 0 "\<lambda>_. 0" id id 0] by (simp add: syscall_table_def regs_example_def)

text \<open>A process with pid 9 and one region of one page.\<close>

definition page_region :: memory_region where
  "page_region = \<lparr>mr_start = 0x400000, mr_size = 0x1000, mr_writable = True, mr_executable = True\<rparr>"

definition fork_kernel :: "vmm \<Rightarrow> kernel" where
  "fork_kernel v = boot_example\<lparr>k_vm := v, m_current_process := 0x5000,
     procs := (procs boot_example)(0x5000 := new_process\<lparr>p_pid := 9, p_memory_regions := [page_region]\<rparr>)\<rparr>"

lemma fork_kernel_simps [simp]:
  "k_vm (fork_kernel v) = v" "m_next_pid (fork_kernel v) = 1" "m_current_process (fork_kernel v) = 0x5000"
  "p_memory_regions (procs (fork_kernel v) 0x5000) = [page_region]" "proc_list (fork_kernel v) []"
  "queued (fork_kernel v) = {#}" "sched_ok (fork_kernel v)" "sched_room (fork_kernel v)"
  using boot_example_simps queued_cong [of "fork_kernel v" boot_example] by (simp_all add: fork_kernel_def proc_list_def)

theorem fork_shares_pages_witness:
  "\<exists>s s'. sys_fork 0x1000 0 s = Some (1, s') \<and> p_memory_regions (procs (sys_kern s') 0x1000) = [page_region] \<and>
     vm_leaf (k_vm (sys_kern s')) 0x400000 \<noteq> None"
proof -
  have z: "0x400000 + of_nat 0 * 4096 = (0x400000 :: u64)" by simp
  obtain v where v: "vm_ok v" "63 \<le> vm_budget v + 4" "vm_leaf v 0x400000 \<noteq> None"
    "\<forall>a. \<not> same_page a 0x400000 \<longrightarrow> vm_leaf v a = None" "\<forall>a. vm_usable v a"
    using claim_pages_spec [of "vm_fresh 64" 1 0 "0x400000" True] vm_fresh_64 by (auto simp: z)
  let ?k0 = "fork_kernel v" and ?b = "kernel_stack_base 1"
  have sep: "\<not> same_page (?b + of_nat k * 4096) 0x400000" if "k < 4" for k
  proof -
    have "k = 0 \<or> k = 1 \<or> k = 2 \<or> k = 3" using that by linarith
    then show ?thesis by (auto simp: same_page_iff kernel_stack_base_def KERNEL_STACK_SIZE_def)
  qed
  obtain k where k: "create_process 0x1000 (p_name (procs ?k0 0x5000)) (p_pid (procs ?k0 0x5000)) ?k0 = Some (1, k)"
    "get_process 1 k = Some 0x1000" "vm_ok (k_vm k)" "vm_budget v \<le> vm_budget (k_vm k) + 16"
    "p_memory_regions (procs k 0x1000) = []" "p_memory_regions (procs k 0x5000) = [page_region]"
    and lf: "\<forall>a. (\<forall>j < 4. \<not> same_page a (?b + of_nat j * 4096)) \<longrightarrow> vm_leaf (k_vm k) a = vm_leaf v a"
    using create_process_spec [of ?k0 "[]" "0x1000" "p_name (procs ?k0 0x5000)" "p_pid (procs ?k0 0x5000)"] v sep by (auto simp: fork_kernel_simps(2))
  have "vm_leaf (k_vm k) 0x400000 = vm_leaf v 0x400000" using lf sep by (auto simp: same_page_iff)
  then have rm: "region_mapped (k_vm k) page_region" "vm_leaf (k_vm k) 0x400000 \<noteq> None"
    using v(3) by (auto simp: region_mapped_def region_pages_def page_region_def)
  have pm: "pmm_ok (vm_pmm (k_vm k))" "1 \<le> card (pmm_free (vm_pmm (k_vm k)))" using k(3,4) v(2) by (simp_all add: vm_ok_def vm_budget_def)
  let ?s = "system_example\<lparr>sys_ipc := block_example\<lparr>kern := ?k0\<rparr>\<rparr>"
  have "\<exists>s'. sys_fork 0x1000 0 ?s = Some (1, s') \<and> p_memory_regions (procs (sys_kern s') 0x1000) = rev [page_region] \<and>
      vm_leaf (k_vm (sys_kern s')) = vm_leaf (k_vm k)"
    using fork_shares_pages [of "0x5000" ?s "0x1000" 1 k "0x1000" 0] k rm pm
    by (auto simp: get_current_process_def region_pages_def page_region_def)
  then obtain s' where "sys_fork 0x1000 0 ?s = Some (1, s')" "p_memory_regions (procs (sys_kern s') 0x1000) = rev [page_region]"
    "vm_leaf (k_vm (sys_kern s')) = vm_leaf (k_vm k)" by blast
  then show ?thesis using rm(2) by (intro exI [of _ ?s] exI [of _ s']) simp
qed

text \<open>A program with no segments, in a system with frames for a stack; its name is at \<^verbatim>\<open>0x300000\<close>.\<close>

definition empty_image :: bytes where
  "empty_image = [0x7F, 0x45, 0x4C, 0x46, 2, 1, 1, 0, 0, 0, 0, 0, 0, 0, 0, 0, 2, 0, 62, 0, 1, 0, 0, 0,
     0, 0, 0x40, 0, 0, 0, 0, 0, 64, 0, 0, 0, 0, 0, 0, 0, 0, 0, 0, 0, 0, 0, 0, 0, 0, 0, 0, 0, 64, 0, 56, 0, 0, 0, 64, 0, 1, 0, 0, 0]"

definition name_memory :: mem where
  "name_memory x = (if x = 0x300000 then 65 else 0)"

definition empty_memory :: mem where
  "empty_memory x = (let k = unat (x - 0x200000) in if k < 64 then empty_image ! k else name_memory x)"

lemma empty_memory_poke: "poke name_memory 0x200000 empty_image = empty_memory"
proof
  fix x
  have len: "length empty_image = 64" by code_simp
  show "poke name_memory 0x200000 empty_image x = empty_memory x"
    using poke_spec [of empty_image name_memory "0x200000" x] unfolding len by (simp add: empty_memory_def in_range_def Let_def)
qed

lemma empty_memory_header: "validate_elf_header empty_memory 0x200000" "e_phnum (ehdr_at empty_memory 0x200000) = 0"
  by code_simp+

theorem execve_does_not_switch_witness:
  "\<exists>s s'. sys_execve 0x200000 (\<lambda>_. 0) 0 0x300000 0x310000 0x310000 s = Some (0, s') \<and> current s' = current s \<and>
     cpu_regs (sys_kern s') = cpu_regs (sys_kern s)"
proof -
  let ?v = "vm_fresh 9000"
  have vm: "vm_ok ?v" "vm_budget ?v = 8999" using vm_fresh_ok [of 9000] by (simp_all add: vm_budget_def)
  have len: "length empty_image = 64" by code_simp
  obtain fs where fs: "findFile [65] fs = Some (Some (3, of_nat 64, 0x20))" "readFile 3 64 fs = Some empty_image"
    by (rule file_volume [of empty_image, unfolded len]) simp_all
  define k where "k = fork_kernel ?v"
  let ?s = "system_example\<lparr>sys_ipc := block_example\<lparr>kern := k\<rparr>, sys_mem := name_memory, sys_fs := fs\<rparr>"
  have str: "string_at name_memory 0x300000 = Some [65]"
    by (simp add: string_at.simps [of name_memory "0x300000"] string_at.simps [of name_memory "0x300001"] name_memory_def)
  obtain k1 where ld: "load_program 0x5000 [65] 0x200000 fs (name_memory, upd_proc 0x5000 (\<lambda>p. p\<lparr>p_memory_regions := []\<rparr>) k) =
      Some (True, empty_memory, k1)" and k1: "k_vm k1 = ?v"
    using fs empty_memory_header
    by (simp add: load_program_def empty_memory_poke Let_def load_segments.simps [of _ _ _ 0] k_def)
  obtain ws k2 where st: "setup_process_stack 0x5000 (Some []) (Some []) k1 = Some (True, ws, k2)"
    using setup_process_stack_spec [of k1 "[]" "[]" "0x5000"] vm k1 by (auto simp: vm_usable_def vm_fresh_clear vm_fresh_leaf)
  have "get64 empty_memory 0x310000 = 0"
    by (simp add: get64_def get32_def get16_def empty_memory_def name_memory_def)
  then have arg: "copies dup n empty_memory 0x310000 = Some (Some [])" for dup n
    by (simp add: copies_def strings_at.simps [of empty_memory "0x310000"])
  have cur: "current ?s = 0x5000" by (simp add: get_current_process_def k_def)
  have "sys_execve 0x200000 (\<lambda>_. 0) 0 0x300000 0x310000 0x310000 ?s =
      Some (0, set_kern (switch_to_process 0x5000 k2) (?s\<lparr>sys_mem := store_words ws empty_memory\<rparr>))"
    unfolding sys_execve_def Let_def cur using str ld arg st by simp
  then show ?thesis using execve_does_not_switch by blast
qed

end
