(* ===== verification/Dynamic_Linker.thy ===== *)
theory Dynamic_Linker
  imports Elf_Loader Heap_Allocator
begin

text \<open>
  The dynamic linker, \<open>core/dynamic_linker.cpp\<close>: the table of loaded libraries, the walk over the dynamic section, symbol
  lookup and the relocation of jump slots. Its own copies of the section searches are the functions of \<open>Elf_Loader\<close>.
\<close>

section \<open>State and operations\<close>

record loaded_library =
  lib_name :: u64
  lib_header :: u64
  lib_base :: u64
  lib_got_base :: u64

definition no_library :: loaded_library where
  "no_library = \<lparr>lib_name = nullptr, lib_header = nullptr, lib_base = nullptr, lib_got_base = 0\<rparr>"

definition MAX_LOADED_LIBRARIES :: nat where "MAX_LOADED_LIBRARIES = 16"

record linker =
  lk_mem :: mem
  lk_heap :: heap
  loaded_libraries :: "loaded_library list"
  num_loaded_libraries :: nat
  main_executable :: loaded_library

text \<open>The static variables before the first call.\<close>

definition linker_init :: "mem \<Rightarrow> heap \<Rightarrow> linker" where
  "linker_init m h = \<lparr>lk_mem = m, lk_heap = h, loaded_libraries = replicate MAX_LOADED_LIBRARIES no_library,
     num_loaded_libraries = 0, main_executable = no_library\<rparr>"

definition linker_initialize :: "linker \<Rightarrow> bool \<times> linker" where
  "linker_initialize s = (True, s\<lparr>num_loaded_libraries := 0, main_executable := no_library\<rparr>)"

definition load_shared_library :: "u64 \<Rightarrow> linker \<Rightarrow> (bool \<times> linker) option" where
  "load_shared_library path s =
    (if num_loaded_libraries s \<ge> MAX_LOADED_LIBRARIES then Some (False, s)
     else do {
       len \<leftarrow> strlen (lk_mem s) path;
       (p, h) \<leftarrow> heap_allocate (len + 1) (lk_heap s);
       let n = num_loaded_libraries s;
           s1 = s\<lparr>lk_heap := h, loaded_libraries := (loaded_libraries s)[n := (loaded_libraries s ! n)\<lparr>lib_name := p\<rparr>]\<rparr>
       in if p = nullptr then Some (False, s1)
          else do {
            m \<leftarrow> strcpy (lk_mem s1) p path;
            Some (True, s1\<lparr>lk_mem := m, num_loaded_libraries := n + 1\<rparr>)
          }
     })"

definition GOT_PLT :: bytes where
  "GOT_PLT = [46, 103, 111, 116, 46, 112, 108, 116]"

definition locate_got :: "mem \<Rightarrow> u64 \<Rightarrow> u64 option" where
  "locate_got m ehdr = map_option sh_addr (find_section_by_name m ehdr GOT_PLT)"

partial_function (option) load_needed :: "u64 \<Rightarrow> u64 \<Rightarrow> linker \<Rightarrow> (bool \<times> linker) option" where
  [code]: "load_needed strtab entry s =
    (if get64 (lk_mem s) entry = 0 then Some (True, s)
     else if get64 (lk_mem s) entry = 1 then do {
       (ok, s1) \<leftarrow> load_shared_library (strtab + get64 (lk_mem s) (entry + 8)) s;
       if \<not> ok then Some (False, s1) else load_needed strtab (entry + 16) s1
     }
     else load_needed strtab (entry + 16) s)"

definition linker_process_dynamic_section :: "u64 \<Rightarrow> u64 \<Rightarrow> linker \<Rightarrow> (bool \<times> linker) option" where
  "linker_process_dynamic_section ehdr base s =
    (case find_section_by_type (lk_mem s) ehdr SHT_DYNAMIC of
       None \<Rightarrow> Some (False, s)
     | Some dyn_section \<Rightarrow>
         (case find_section_by_type (lk_mem s) ehdr SHT_STRTAB of
            None \<Rightarrow> Some (False, s)
          | Some strtab_section \<Rightarrow> load_needed (base + sh_offset strtab_section) (base + sh_offset dyn_section) s))"

text \<open>The symbols with a name are compared one by one; \<open>None\<close> when a comparison never ends.\<close>

fun lookup_in :: "mem \<Rightarrow> u64 \<Rightarrow> u64 \<Rightarrow> u64 \<Rightarrow> u64 list \<Rightarrow> u64 option" where
  "lookup_in m base strings name [] = Some nullptr"
| "lookup_in m base strings name (sy # rest) =
    (if get32 m sy \<noteq> 0 then do {
       c \<leftarrow> strcmp m (strings + ucast (get32 m sy)) name;
       if c = 0 then Some (base + get64 m (sy + 8)) else lookup_in m base strings name rest
     }
     else lookup_in m base strings name rest)"

definition lookup_symbol :: "mem \<Rightarrow> u64 \<Rightarrow> u64 \<Rightarrow> u64 option" where
  "lookup_symbol m name lib_ehdr =
    (case find_section_by_type m lib_ehdr SHT_DYNSYM of
       None \<Rightarrow> Some nullptr
     | Some symtab \<Rightarrow>
         (case find_section_by_type m lib_ehdr SHT_STRTAB of
            None \<Rightarrow> Some nullptr
          | Some strtab \<Rightarrow>
              lookup_in m lib_ehdr (lib_ehdr + sh_offset strtab) name
                (map (\<lambda>i. lib_ehdr + sh_offset symtab + of_nat i * 24) [0..<unat (sh_size symtab) div 24])))"

fun resolve_in :: "mem \<Rightarrow> u64 \<Rightarrow> loaded_library list \<Rightarrow> u64 option" where
  "resolve_in m symbol [] = Some nullptr"
| "resolve_in m symbol (lib # libs) =
    (if lib_header lib \<noteq> nullptr then do {
       addr \<leftarrow> lookup_symbol m symbol (lib_header lib);
       if addr \<noteq> nullptr then Some addr else resolve_in m symbol libs
     }
     else resolve_in m symbol libs)"

definition resolve_symbol :: "u64 \<Rightarrow> linker \<Rightarrow> u64 option" where
  "resolve_symbol symbol s =
     resolve_in (lk_mem s) symbol (main_executable s # take (num_loaded_libraries s) (loaded_libraries s))"

fun relocate :: "u64 \<Rightarrow> elf64_shdr \<Rightarrow> elf64_shdr \<Rightarrow> u64 list \<Rightarrow> linker \<Rightarrow> (bool \<times> linker) option" where
  "relocate base dynsym dynstr [] s = Some (True, s)"
| "relocate base dynsym dynstr (rel # rels) s =
    (let (off, info) = rela_at (lk_mem s) rel
     in if r_type info \<noteq> R_X86_64_JUMP_SLOT then relocate base dynsym dynstr rels s
        else do {
          addr \<leftarrow> resolve_symbol (symbol_name (lk_mem s) base dynsym dynstr info) s;
          if addr \<noteq> nullptr then relocate base dynsym dynstr rels (s\<lparr>lk_mem := put64 (lk_mem s) off addr\<rparr>)
          else Some (False, s)
        })"

definition linker_process_relocations :: "u64 \<Rightarrow> u64 \<Rightarrow> linker \<Rightarrow> (bool \<times> linker) option" where
  "linker_process_relocations ehdr base s =
    (case find_section_by_name (lk_mem s) ehdr RELA_PLT of
       None \<Rightarrow> Some (False, s)
     | Some rela_plt \<Rightarrow>
         (case find_section_by_type (lk_mem s) ehdr SHT_DYNSYM of
            None \<Rightarrow> Some (False, s)
          | Some dynsym \<Rightarrow>
              (case find_section_by_type (lk_mem s) ehdr SHT_STRTAB of
                 None \<Rightarrow> Some (False, s)
               | Some dynstr \<Rightarrow>
                   (case locate_got (lk_mem s) ehdr of
                      None \<Rightarrow> Some (False, s)
                    | Some _ \<Rightarrow>
                        relocate base dynsym dynstr
                          (map (\<lambda>i. base + sh_offset rela_plt + of_nat i * 24) [0..<unat (sh_size rela_plt) div 24]) s))))"

section \<open>Reachable states\<close>

text \<open>What the operations do to the linker, from the initial state on.\<close>

inductive linker_step :: "linker \<Rightarrow> linker \<Rightarrow> bool" where
  step_initialize: "linker_initialize s = (r, s') \<Longrightarrow> linker_step s s'"
| step_load: "load_shared_library path s = Some (r, s') \<Longrightarrow> linker_step s s'"
| step_dynamic: "linker_process_dynamic_section ehdr base s = Some (r, s') \<Longrightarrow> linker_step s s'"
| step_relocate: "linker_process_relocations ehdr base s = Some (r, s') \<Longrightarrow> linker_step s s'"

inductive linker_reachable :: "linker \<Rightarrow> bool" where
  start: "linker_reachable (linker_init m h)"
| step: "linker_reachable s \<Longrightarrow> linker_step s s' \<Longrightarrow> linker_reachable s'"

definition no_headers :: "linker \<Rightarrow> bool" where
  "no_headers s \<longleftrightarrow> lib_header (main_executable s) = nullptr \<and> (\<forall>lib \<in> set (loaded_libraries s). lib_header lib = nullptr) \<and>
     length (loaded_libraries s) = MAX_LOADED_LIBRARIES"

lemma no_headers_mem [simp]: "no_headers (s\<lparr>lk_mem := m\<rparr>) = no_headers s" "no_headers (s\<lparr>num_loaded_libraries := n\<rparr>) = no_headers s"
  by (simp_all add: no_headers_def)

lemma load_shared_library_headers:
  assumes "load_shared_library path s = Some (r, s')" "no_headers s"
  shows "no_headers s'"
proof (cases "num_loaded_libraries s \<ge> MAX_LOADED_LIBRARIES")
  case True
  then show ?thesis using assms by (simp add: load_shared_library_def)
next
  case False
  let ?n = "num_loaded_libraries s"
  have keep: "no_headers (s\<lparr>lk_heap := h, loaded_libraries := (loaded_libraries s)[?n := (loaded_libraries s ! ?n)\<lparr>lib_name := p\<rparr>]\<rparr>)" for h p
  proof -
    have "lib_header (loaded_libraries s ! ?n) = nullptr" using assms(2) False by (simp add: no_headers_def)
    moreover have "lib = y \<or> lib \<in> set (loaded_libraries s)" if "lib \<in> set ((loaded_libraries s)[?n := y])" for lib y
      using that set_update_subset_insert [of "loaded_libraries s" ?n y] by blast
    ultimately show ?thesis using assms(2) unfolding no_headers_def by fastforce
  qed
  obtain len p h where 1: "strlen (lk_mem s) path = Some len" "heap_allocate (len + 1) (lk_heap s) = Some (p, h)"
    using assms(1) False by (auto simp: load_shared_library_def bind_eq_Some_conv)
  show ?thesis
    using assms(1) False 1 keep
    by (auto simp: load_shared_library_def Let_def bind_eq_Some_conv split: if_splits)
qed

lemma load_needed_headers:
  assumes "load_needed strtab entry s = Some (r, s')" "no_headers s"
  shows "no_headers s'"
proof -
  have "no_headers s \<longrightarrow> no_headers (snd (r, s'))"
  proof (rule load_needed.raw_induct [OF _ assms(1), where P = "\<lambda>strtab entry s y. no_headers s \<longrightarrow> no_headers (snd y)"])
    fix f strtab entry and s :: linker and y
    assume IH: "\<And>strtab entry s y. f strtab entry s = Some y \<Longrightarrow> no_headers s \<longrightarrow> no_headers (snd y)"
      and b: "(if get64 (lk_mem s) entry = 0 then Some (True, s)
        else if get64 (lk_mem s) entry = 1 then do {
          (ok, s1) \<leftarrow> load_shared_library (strtab + get64 (lk_mem s) (entry + 8)) s;
          if \<not> ok then Some (False, s1) else f strtab (entry + 16) s1
        } else f strtab (entry + 16) s) = Some y"
    show "no_headers s \<longrightarrow> no_headers (snd y)"
      using b IH load_shared_library_headers by (cases y) (fastforce simp: bind_eq_Some_conv split: if_splits)
  qed
  with assms(2) show ?thesis by simp
qed

lemma resolve_in_none: "\<forall>lib \<in> set libs. lib_header lib = nullptr \<Longrightarrow> resolve_in m symbol libs = Some nullptr"
  by (induction libs) auto

lemma resolve_none: "no_headers s \<Longrightarrow> resolve_symbol symbol s = Some nullptr"
  unfolding resolve_symbol_def by (rule resolve_in_none) (auto simp: no_headers_def dest: in_set_takeD)

lemma relocate_none:
  "no_headers s \<Longrightarrow> relocate base dynsym dynstr rels s =
     Some (\<forall>rel \<in> set rels. r_type (snd (rela_at (lk_mem s) rel)) \<noteq> R_X86_64_JUMP_SLOT, s)"
  by (induction rels) (auto simp: resolve_none split: prod.splits)

lemma reachable_no_headers: "linker_reachable s \<Longrightarrow> no_headers s"
proof (induction rule: linker_reachable.induct)
  case (start m h)
  show ?case by (simp add: no_headers_def linker_init_def no_library_def)
next
  case (step s s')
  from step.hyps(2) step.IH show ?case
  proof cases
    case (step_relocate ehdr base r)
    then show ?thesis using step.IH relocate_none
      by (auto simp: linker_process_relocations_def split: option.splits)
  next
    case (step_initialize r)
    then show ?thesis using step.IH by (auto simp: linker_initialize_def no_headers_def no_library_def)
  next
    case (step_load path r)
    then show ?thesis using step.IH load_shared_library_headers by blast
  next
    case (step_dynamic ehdr base r)
    then show ?thesis using step.IH load_needed_headers
      by (fastforce simp: linker_process_dynamic_section_def split: option.splits)
  qed
qed

text \<open>
  no symbol is ever resolved. No operation of the linker sets the header of the main executable or of a
  library, so in every state it can reach \<open>resolve_symbol\<close> returns null for every name, and \<open>process_relocations\<close> succeeds
  only on an object that has the required sections and not a single jump slot; it never changes anything.
\<close>

theorem no_symbol_resolved:
  assumes "linker_reachable s"
  shows "resolve_symbol symbol s = Some nullptr \<and>
    (linker_process_relocations ehdr base s = Some (r, s') \<longrightarrow> s' = s \<and>
      (r \<longrightarrow> (\<exists>rela_plt. find_section_by_name (lk_mem s) ehdr RELA_PLT = Some rela_plt \<and> jump_slots (lk_mem s) base rela_plt = [])))"
proof
  have nh: "no_headers s" by (rule reachable_no_headers [OF assms])
  show "resolve_symbol symbol s = Some nullptr" by (rule resolve_none [OF nh])
  show "linker_process_relocations ehdr base s = Some (r, s') \<longrightarrow> s' = s \<and>
      (r \<longrightarrow> (\<exists>rela_plt. find_section_by_name (lk_mem s) ehdr RELA_PLT = Some rela_plt \<and> jump_slots (lk_mem s) base rela_plt = []))"
    using relocate_none [OF nh]
    by (auto simp: linker_process_relocations_def jump_slots_def filter_empty_conv split: option.splits)
qed

theorem no_symbol_resolved_witness:
  "\<forall>h. resolve_symbol 4096 (linker_init (\<lambda>_. 0) h) = Some nullptr"
  using no_symbol_resolved [OF linker_reachable.start] by blast

end
