(* ===== verification/Vector_Class.thy ===== *)
theory Vector_Class
  imports Prelude "HOL-Library.Monad_Syntax"
begin

text \<open>
  The growable array \<open>lib/vector.hpp\<close>, with the lifetimes of its elements. A slot of the buffer is \<open>None\<close> while it holds
  no object; \<^verbatim>\<open>new (&slot) T(x)\<close> needs an empty slot, \<^verbatim>\<open>slot.~T()\<close> and reading need a living object. An operation that
  breaks this, or leaves the buffer, has the result \<open>None\<close>. The buffer is null exactly when its capacity is 0, and \<^verbatim>\<open>operator new\<close> is taken
  to succeed.
\<close>

section \<open>Slots\<close>

definition construct :: "nat \<Rightarrow> 'a \<Rightarrow> 'a option list \<Rightarrow> 'a option list option" where
  "construct i x d = (if i < length d \<and> d ! i = None then Some (d[i := Some x]) else None)"

definition destroy :: "nat \<Rightarrow> 'a option list \<Rightarrow> 'a option list option" where
  "destroy i d = (if i < length d \<and> d ! i \<noteq> None then Some (d[i := None]) else None)"

definition fetch :: "nat \<Rightarrow> 'a option list \<Rightarrow> 'a option" where
  "fetch i d = (if i < length d then d ! i else None)"

primrec for_each :: "(nat \<Rightarrow> 's \<Rightarrow> 's option) \<Rightarrow> nat list \<Rightarrow> 's \<Rightarrow> 's option" where
  "for_each f [] s = Some s"
| "for_each f (i # is) s = do { s1 \<leftarrow> f i s; for_each f is s1 }"

section \<open>Operations\<close>

record 'a vec =
  v_data :: "'a option list"
  v_size :: nat

definition capacity :: "'a vec \<Rightarrow> nat" where
  "capacity v = length (v_data v)"

definition vec_empty :: "'a vec" where
  "vec_empty = \<lparr>v_data = [], v_size = 0\<rparr>"

definition vec_with_capacity :: "nat \<Rightarrow> 'a vec" where
  "vec_with_capacity n = \<lparr>v_data = replicate n None, v_size = 0\<rparr>"

definition vec_clear :: "'a vec \<Rightarrow> 'a vec option" where
  "vec_clear v = do { d \<leftarrow> for_each destroy [0..<v_size v] (v_data v); Some \<lparr>v_data = d, v_size = 0\<rparr> }"

text \<open>Constructing copies of the elements of another vector.\<close>

definition copy_slots :: "'a vec \<Rightarrow> 'a option list \<Rightarrow> 'a option list option" where
  "copy_slots other = for_each (\<lambda>i d. do { x \<leftarrow> fetch i (v_data other); construct i x d }) [0..<v_size other]"

definition vec_copy :: "'a vec \<Rightarrow> 'a vec option" where
  "vec_copy other =
    (if capacity other > 0 then do {
       d \<leftarrow> copy_slots other (replicate (capacity other) None);
       Some \<lparr>v_data = d, v_size = v_size other\<rparr>
     }
     else Some \<lparr>v_data = [], v_size = v_size other\<rparr>)"

text \<open>The new vector and the one moved from.\<close>

definition vec_move :: "'a vec \<Rightarrow> 'a vec \<times> 'a vec" where
  "vec_move other = (other, vec_empty)"

definition vec_assign :: "'a vec \<Rightarrow> 'a vec \<Rightarrow> 'a vec option" where
  "vec_assign v other = do {
     v1 \<leftarrow> vec_clear v;
     let d = (if capacity v1 < v_size other then replicate (capacity other) None else v_data v1);
     d1 \<leftarrow> copy_slots other d;
     Some \<lparr>v_data = d1, v_size = v_size other\<rparr>
   }"

definition vec_move_assign :: "'a vec \<Rightarrow> 'a vec \<Rightarrow> ('a vec \<times> 'a vec) option" where
  "vec_move_assign v other = do { v1 \<leftarrow> vec_clear v; Some (other, vec_empty) }"

definition move_slot :: "nat \<Rightarrow> 'a option list \<times> 'a option list \<Rightarrow> ('a option list \<times> 'a option list) option" where
  "move_slot i st = do {
     x \<leftarrow> fetch i (fst st);
     new_data \<leftarrow> construct i x (snd st);
     d \<leftarrow> destroy i (fst st);
     Some (d, new_data)
   }"

definition vec_reserve :: "nat \<Rightarrow> 'a vec \<Rightarrow> 'a vec option" where
  "vec_reserve new_capacity v =
    (if new_capacity \<le> capacity v then Some v
     else do {
       (d, new_data) \<leftarrow> for_each move_slot [0..<v_size v] (v_data v, replicate new_capacity None);
       Some (v\<lparr>v_data := new_data\<rparr>)
     })"

definition push_back :: "'a \<Rightarrow> 'a vec \<Rightarrow> 'a vec option" where
  "push_back x v = do {
     v1 \<leftarrow> (if v_size v \<ge> capacity v then vec_reserve (if capacity v = 0 then 1 else capacity v * 2) v else Some v);
     d \<leftarrow> construct (v_size v1) x (v_data v1);
     Some \<lparr>v_data = d, v_size = v_size v1 + 1\<rparr>
   }"

definition pop_back :: "'a vec \<Rightarrow> 'a vec option" where
  "pop_back v =
    (if v_size v > 0 then do { d \<leftarrow> destroy (v_size v - 1) (v_data v); Some \<lparr>v_data = d, v_size = v_size v - 1\<rparr> }
     else Some v)"

definition vec_resize :: "'a \<Rightarrow> nat \<Rightarrow> 'a vec \<Rightarrow> 'a vec option" where
  "vec_resize dflt new_size v = do {
     v1 \<leftarrow> (if new_size > capacity v then vec_reserve new_size v else Some v);
     d1 \<leftarrow> for_each (\<lambda>i. construct i dflt) [v_size v1..<new_size] (v_data v1);
     d2 \<leftarrow> for_each destroy [new_size..<v_size v1] d1;
     Some \<lparr>v_data = d2, v_size = new_size\<rparr>
   }"

definition vec_at :: "nat \<Rightarrow> 'a vec \<Rightarrow> 'a option" where
  "vec_at i v = fetch i (v_data v)"

definition vec_front :: "'a vec \<Rightarrow> 'a option" where
  "vec_front v = fetch 0 (v_data v)"

definition vec_back :: "'a vec \<Rightarrow> 'a option" where
  "vec_back v = (if v_size v = 0 then None else fetch (v_size v - 1) (v_data v))"

text \<open>The position is given by its distance from \<open>begin()\<close>.\<close>

definition shift_slot :: "nat \<Rightarrow> 'a option list \<Rightarrow> 'a option list option" where
  "shift_slot i d = do { x \<leftarrow> fetch (i + 1) d; d1 \<leftarrow> construct i x d; destroy (i + 1) d1 }"

definition vec_erase :: "int \<Rightarrow> 'a vec \<Rightarrow> 'a vec option" where
  "vec_erase position v =
    (if position < 0 \<or> position \<ge> int (v_size v) then Some v
     else do {
       let index = nat position;
       d \<leftarrow> destroy index (v_data v);
       d1 \<leftarrow> for_each shift_slot [index..<v_size v - 1] d;
       Some \<lparr>v_data = d1, v_size = v_size v - 1\<rparr>
     })"

section \<open>Meaning\<close>

definition contents :: "'a vec \<Rightarrow> 'a list" where
  "contents v = map the (take (v_size v) (v_data v))"

text \<open>The objects of a vector are exactly its first elements.\<close>

definition vec_ok :: "'a vec \<Rightarrow> bool" where
  "vec_ok v \<longleftrightarrow> v_size v \<le> capacity v \<and> v_data v = map Some (contents v) @ replicate (capacity v - v_size v) None"

lemma vec_okE:
  assumes "vec_ok v"
  obtains k where "v_data v = map Some (contents v) @ replicate k None" "v_size v = length (contents v)" "capacity v = v_size v + k"
proof -
  have "length (contents v) = v_size v" using assms by (simp add: contents_def vec_ok_def capacity_def)
  moreover have "capacity v = v_size v + (capacity v - v_size v)" using assms by (simp add: vec_ok_def)
  ultimately show thesis using that assms unfolding vec_ok_def by metis
qed

lemma vec_okI:
  assumes "v_data v = map Some xs @ replicate k None" "v_size v = length xs"
  shows "vec_ok v" "contents v = xs" "capacity v = length xs + k"
proof -
  show c: "contents v = xs" by (simp add: contents_def assms comp_def)
  show "capacity v = length xs + k" by (simp add: capacity_def assms)
  then show "vec_ok v" using c assms by (simp add: vec_ok_def)
qed

section \<open>The loops\<close>

lemma upt_first: "[a..<Suc (a + n)] = a # [Suc a..<Suc (a + n)]"
  by (simp add: upt_conv_Cons del: upt_Suc)

lemma for_each_append: "for_each f (is @ js) s = do { s1 \<leftarrow> for_each f is s; for_each f js s1 }"
  by (induction "is" arbitrary: s) (simp_all add: Option.bind_assoc)

lemma construct_at [simp]: "construct (length p) x (p @ None # r) = Some (p @ Some x # r)"
  by (simp add: construct_def)

lemma destroy_at [simp]: "destroy (length p) (p @ Some x # r) = Some (p @ None # r)"
  by (simp add: destroy_def)

lemma fetch_at [simp]: "fetch (length p) (p @ s # r) = s"
  by (simp add: fetch_def)

lemma destroy_loop:
  "for_each destroy [length p..<length p + length ys] (p @ map Some ys @ r) = Some (p @ replicate (length ys) None @ r)"
proof (induction ys arbitrary: p)
  case (Cons y ys)
  have "[length p..<length p + length (y # ys)] = length p # [length (p @ [None])..<length (p @ [None]) + length ys]"
    by (simp add: upt_first del: upt_Suc)
  moreover have "destroy (length p) (p @ map Some (y # ys) @ r) = Some ((p @ [None]) @ map Some ys @ r)" by simp
  ultimately show ?case using Cons [of "p @ [None]"] by simp
qed simp

lemma move_loop:
  "length q = length p \<Longrightarrow> length ys \<le> k \<Longrightarrow>
   for_each move_slot [length p..<length p + length ys] (p @ map Some ys @ r, q @ replicate k None) =
     Some (p @ replicate (length ys) None @ r, q @ map Some ys @ replicate (k - length ys) None)"
proof (induction ys arbitrary: p q k)
  case (Cons y ys)
  obtain j where j: "k = Suc j" using Cons.prems(2) by (cases k) simp_all
  have "[length p..<length p + length (y # ys)] = length p # [length (p @ [None])..<length (p @ [None]) + length ys]"
    by (simp add: upt_first del: upt_Suc)
  moreover have "move_slot (length p) (p @ map Some (y # ys) @ r, q @ replicate k None) =
      Some ((p @ [None]) @ map Some ys @ r, (q @ [Some y]) @ replicate j None)"
    using Cons.prems(1) construct_at [of q y "replicate j None"] by (simp add: move_slot_def j)
  ultimately show ?case using Cons.IH [of "q @ [Some y]" "p @ [None]" j] Cons.prems by (simp add: j)
qed simp

lemma construct_loop:
  "n \<le> k \<Longrightarrow> for_each (\<lambda>i. construct i (g i)) [length p..<length p + n] (p @ replicate k None) =
     Some (p @ map (Some \<circ> g) [length p..<length p + n] @ replicate (k - n) None)"
proof (induction n arbitrary: p k)
  case (Suc n)
  obtain j where j: "k = Suc j" using Suc.prems by (cases k) simp_all
  have u: "[length p..<length p + Suc n] = length p # [length (p @ [Some (g (length p))])..<length (p @ [Some (g (length p))]) + n]"
    by (simp add: upt_first del: upt_Suc)
  show ?case using Suc.IH [of j "p @ [Some (g (length p))]"] Suc.prems unfolding u by (simp add: j)
qed simp

lemma copy_loop:
  "length q = length p \<Longrightarrow> length ys \<le> k \<Longrightarrow>
   for_each (\<lambda>i d. do { x \<leftarrow> fetch i (p @ map Some ys @ r); construct i x d }) [length p..<length p + length ys] (q @ replicate k None) =
     Some (q @ map Some ys @ replicate (k - length ys) None)"
proof (induction ys arbitrary: p q k)
  case (Cons y ys)
  obtain j where j: "k = Suc j" using Cons.prems(2) by (cases k) simp_all
  have "[length p..<length p + length (y # ys)] = length p # [length (p @ [Some y])..<length (p @ [Some y]) + length ys]"
    by (simp add: upt_first del: upt_Suc)
  moreover have "construct (length p) y (q @ replicate k None) = Some ((q @ [Some y]) @ replicate j None)"
    using Cons.prems(1) construct_at [of q y "replicate j None"] by (simp add: j)
  ultimately show ?case using Cons.IH [of "q @ [Some y]" "p @ [Some y]" j] Cons.prems by (simp add: j)
qed simp

lemma shift_loop:
  "for_each shift_slot [length p..<length p + length ys] (p @ None # map Some ys @ r) = Some (p @ map Some ys @ None # r)"
proof (induction ys arbitrary: p)
  case (Cons y ys)
  have "[length p..<length p + length (y # ys)] = length p # [length (p @ [Some y])..<length (p @ [Some y]) + length ys]"
    by (simp add: upt_first del: upt_Suc)
  moreover have "shift_slot (length p) (p @ None # map Some (y # ys) @ r) = Some ((p @ [Some y]) @ None # map Some ys @ r)"
    using fetch_at [of "p @ [None]" "Some y" "map Some ys @ r"] destroy_at [of "p @ [Some y]" y "map Some ys @ r"]
    by (simp add: shift_slot_def)
  ultimately show ?case using Cons [of "p @ [Some y]"] by simp
qed simp

section \<open>Every operation is the list operation\<close>

lemma vec_clear_spec:
  assumes "vec_ok v"
  shows "\<exists>v'. vec_clear v = Some v' \<and> vec_ok v' \<and> contents v' = [] \<and> capacity v' = capacity v"
proof -
  obtain k where k: "v_data v = map Some (contents v) @ replicate k None" "v_size v = length (contents v)" "capacity v = v_size v + k"
    by (rule vec_okE [OF assms])
  let ?v = "\<lparr>v_data = replicate (length (contents v)) None @ replicate k None, v_size = 0\<rparr>"
  have "vec_clear v = Some ?v" using destroy_loop [of "[]" "contents v"] by (simp add: vec_clear_def k)
  moreover have "vec_ok ?v" "contents ?v = []" "capacity ?v = capacity v"
    using vec_okI [of ?v "[]" "length (contents v) + k"] k by (simp_all add: replicate_add)
  ultimately show ?thesis by blast
qed

lemma vec_reserve_spec:
  assumes "vec_ok v"
  shows "\<exists>v'. vec_reserve n v = Some v' \<and> vec_ok v' \<and> contents v' = contents v \<and> capacity v' = max n (capacity v)"
proof (cases "n \<le> capacity v")
  case True
  then show ?thesis using assms by (simp add: vec_reserve_def max_def)
next
  case False
  obtain k where k: "v_data v = map Some (contents v) @ replicate k None" "v_size v = length (contents v)" "capacity v = v_size v + k"
    by (rule vec_okE [OF assms])
  let ?v = "v\<lparr>v_data := map Some (contents v) @ replicate (n - length (contents v)) None\<rparr>"
  have le: "length (contents v) \<le> n" using False k by simp
  have "vec_reserve n v = Some ?v" using False move_loop [of "[]" "[]" "contents v" n "replicate k None"] le
    by (simp add: vec_reserve_def k(1,2))
  moreover have "vec_ok ?v" "contents ?v = contents v" "capacity ?v = n"
    using vec_okI [of ?v "contents v" "n - length (contents v)"] k(2) le by simp_all
  ultimately show ?thesis using False by (simp add: max_def)
qed

lemma push_back_spec:
  assumes "vec_ok v"
  shows "\<exists>v'. push_back x v = Some v' \<and> vec_ok v' \<and> contents v' = contents v @ [x]"
proof -
  let ?n = "if capacity v = 0 then 1 else capacity v * 2"
  obtain v1 where v1: "(if v_size v \<ge> capacity v then vec_reserve ?n v else Some v) = Some v1" "vec_ok v1" "contents v1 = contents v"
    "v_size v1 < capacity v1"
  proof (cases "v_size v \<ge> capacity v")
    case True
    obtain v1 where "vec_reserve ?n v = Some v1" "vec_ok v1" "contents v1 = contents v" "capacity v1 = max ?n (capacity v)"
      using vec_reserve_spec [OF assms] by blast
    moreover have "v_size v1 = v_size v" using vec_okE [OF assms] vec_okE [OF \<open>vec_ok v1\<close>] \<open>contents v1 = contents v\<close> by metis
    moreover have "v_size v = capacity v" using True assms by (simp add: vec_ok_def)
    ultimately show thesis using that [of v1] True by (auto split: if_splits)
  next
    case False
    then show thesis using that [of v] assms by simp
  qed
  obtain k where k: "v_data v1 = map Some (contents v) @ replicate k None" "v_size v1 = length (contents v)" "capacity v1 = v_size v1 + k"
    using vec_okE [OF v1(2)] v1(3) by metis
  then obtain j where j: "k = Suc j" using v1(4) by (cases k) simp_all
  let ?v = "\<lparr>v_data = map Some (contents v @ [x]) @ replicate j None, v_size = length (contents v @ [x])\<rparr>"
  have "construct (length (contents v)) x (map Some (contents v) @ None # replicate j None) = Some (map Some (contents v @ [x]) @ replicate j None)"
    using construct_at [of "map Some (contents v)" x "replicate j None"] by simp
  then have "push_back x v = Some ?v" unfolding push_back_def v1(1) by (simp add: k j)
  moreover have "vec_ok ?v" "contents ?v = contents v @ [x]" using vec_okI [of ?v "contents v @ [x]" j] by simp_all
  ultimately show ?thesis by blast
qed

lemma pop_back_spec:
  assumes "vec_ok v"
  shows "\<exists>v'. pop_back v = Some v' \<and> vec_ok v' \<and> contents v' = butlast (contents v)"
proof (cases "contents v" rule: rev_cases)
  case Nil
  then have "v_size v = 0" using vec_okE [OF assms] by (metis list.size(3))
  then show ?thesis using assms Nil by (simp add: pop_back_def)
next
  case (snoc ys y)
  obtain k where k: "v_data v = map Some ys @ Some y # replicate k None" "v_size v = Suc (length ys)"
    using vec_okE [OF assms] snoc by auto
  let ?v = "\<lparr>v_data = map Some ys @ replicate (Suc k) None, v_size = length ys\<rparr>"
  have "pop_back v = Some ?v" using destroy_at [of "map Some ys" y "replicate k None"] by (simp add: pop_back_def k)
  moreover have "vec_ok ?v" "contents ?v = ys" using vec_okI [of ?v ys "Suc k"] by simp_all
  ultimately show ?thesis using snoc by auto
qed

lemma vec_resize_spec:
  assumes "vec_ok v"
  shows "\<exists>v'. vec_resize d n v = Some v' \<and> vec_ok v' \<and> contents v' = take n (contents v) @ replicate (n - length (contents v)) d"
proof -
  obtain v1 where v1: "(if n > capacity v then vec_reserve n v else Some v) = Some v1" "vec_ok v1" "contents v1 = contents v" "n \<le> capacity v1"
    using vec_reserve_spec [OF assms, of n] assms by (cases "n > capacity v") auto
  obtain k where k: "v_data v1 = map Some (contents v) @ replicate k None" "v_size v1 = length (contents v)" "capacity v1 = v_size v1 + k"
    using vec_okE [OF v1(2)] v1(3) by metis
  let ?l = "length (contents v)"
  show ?thesis
  proof (cases "?l \<le> n")
    case True
    let ?xs = "contents v @ replicate (n - ?l) d" and ?j = "k - (n - ?l)"
    let ?v = "\<lparr>v_data = map Some ?xs @ replicate ?j None, v_size = n\<rparr>"
    have "n - ?l \<le> k" using v1(4) k by simp
    then have "for_each (\<lambda>i. construct i d) [?l..<n] (map Some (contents v) @ replicate k None) = Some (map Some ?xs @ replicate ?j None)"
      using construct_loop [of "n - ?l" k "\<lambda>_. d" "map Some (contents v)"] True by (simp add: map_replicate_const comp_def)
    then have "vec_resize d n v = Some ?v" unfolding vec_resize_def v1(1) using True by (simp add: k)
    moreover have "vec_ok ?v" "contents ?v = ?xs" using vec_okI [of ?v ?xs ?j] True by simp_all
    ultimately show ?thesis using True by (intro exI [of _ ?v]) simp
  next
    case False
    let ?xs = "take n (contents v)"
    let ?v = "\<lparr>v_data = map Some ?xs @ replicate (?l - n) None @ replicate k None, v_size = n\<rparr>"
    have split: "map Some (contents v) = map Some ?xs @ map Some (drop n (contents v))" by (simp flip: map_append)
    have "for_each destroy [n..<?l] (map Some (contents v) @ replicate k None) = Some (map Some ?xs @ replicate (?l - n) None @ replicate k None)"
      using destroy_loop [of "map Some ?xs" "drop n (contents v)" "replicate k None"] False unfolding split by simp
    then have "vec_resize d n v = Some ?v" unfolding vec_resize_def v1(1) using False by (simp add: k)
    moreover have e: "v_data ?v = map Some ?xs @ replicate (?l - n + k) None" by (simp only: vec.simps replicate_add)
    moreover have "vec_ok ?v" "contents ?v = ?xs" using vec_okI [OF e] False by simp_all
    ultimately show ?thesis using False by (intro exI [of _ ?v]) simp
  qed
qed

lemma vec_erase_spec:
  assumes "vec_ok v"
  shows "\<exists>v'. vec_erase i v = Some v' \<and> vec_ok v' \<and>
    contents v' = (if 0 \<le> i \<and> i < int (length (contents v)) then take (nat i) (contents v) @ drop (Suc (nat i)) (contents v) else contents v)"
proof -
  obtain k where k: "v_data v = map Some (contents v) @ replicate k None" "v_size v = length (contents v)" by (rule vec_okE [OF assms])
  show ?thesis
  proof (cases "0 \<le> i \<and> i < int (length (contents v))")
    case False
    then show ?thesis using assms k(2) by (auto simp: vec_erase_def)
  next
    case True
    define j where "j = nat i"
    have j: "j < length (contents v)" "\<not> (i < 0 \<or> i \<ge> int (v_size v))" using True k(2) by (auto simp: j_def)
    let ?p = "take j (contents v)" and ?q = "drop (Suc j) (contents v)"
    have c: "contents v = ?p @ contents v ! j # ?q" by (rule id_take_nth_drop [OF j(1)])
    have len: "length (map Some ?p) = j" using j by simp
    have d: "v_data v = map Some ?p @ Some (contents v ! j) # map Some ?q @ replicate k None"
      using k(1) arg_cong [OF c, of "map Some"] by (metis Cons_eq_appendI append_assoc list.simps(9) map_append)
    let ?v = "\<lparr>v_data = map Some (?p @ ?q) @ replicate (Suc k) None, v_size = length (?p @ ?q)\<rparr>"
    have "destroy j (v_data v) = Some (map Some ?p @ None # map Some ?q @ replicate k None)"
      using destroy_at [of "map Some ?p" "contents v ! j"] unfolding d len .
    moreover have "for_each shift_slot [j..<v_size v - 1] (map Some ?p @ None # map Some ?q @ replicate k None) =
        Some (map Some (?p @ ?q) @ replicate (Suc k) None)"
      using shift_loop [of "map Some ?p" ?q "replicate k None"] j(1) k(2) unfolding len by simp
    ultimately have "vec_erase i v = Some ?v"
      using j k(2) by (simp add: vec_erase_def j_def [symmetric])
    moreover have "vec_ok ?v" "contents ?v = ?p @ ?q" using vec_okI [of ?v "?p @ ?q" "Suc k"] by simp_all
    ultimately show ?thesis using True by (simp add: j_def)
  qed
qed

lemma copy_slots_spec:
  assumes "vec_ok other" "v_size other \<le> k"
  shows "copy_slots other (replicate k None) = Some (map Some (contents other) @ replicate (k - v_size other) None)"
proof -
  obtain j where j: "v_data other = map Some (contents other) @ replicate j None" "v_size other = length (contents other)"
    by (rule vec_okE [OF assms(1)])
  show ?thesis using copy_loop [of "[]" "[]" "contents other" k "replicate j None"] assms(2) unfolding copy_slots_def j by simp
qed

lemma vec_copy_spec:
  assumes "vec_ok other"
  shows "\<exists>v'. vec_copy other = Some v' \<and> vec_ok v' \<and> contents v' = contents other \<and> capacity v' = capacity other"
proof (cases "capacity other > 0")
  case True
  obtain k where k: "v_size other = length (contents other)" "capacity other = v_size other + k" by (rule vec_okE [OF assms])
  let ?v = "\<lparr>v_data = map Some (contents other) @ replicate k None, v_size = v_size other\<rparr>"
  have "vec_copy other = Some ?v" using True copy_slots_spec [OF assms, of "capacity other"] k(2) by (simp add: vec_copy_def)
  moreover have "vec_ok ?v" "contents ?v = contents other" "capacity ?v = capacity other"
    using vec_okI [of ?v "contents other" k] k by simp_all
  ultimately show ?thesis by blast
next
  case False
  obtain k where k: "v_size other = length (contents other)" "capacity other = v_size other + k" by (rule vec_okE [OF assms])
  then have "contents other = []" "v_size other = 0" using False by simp_all
  then show ?thesis using False by (auto simp: vec_copy_def vec_ok_def contents_def capacity_def)
qed

lemma vec_assign_spec:
  assumes "vec_ok v" "vec_ok other"
  shows "\<exists>v'. vec_assign v other = Some v' \<and> vec_ok v' \<and> contents v' = contents other"
proof -
  obtain v1 where v1: "vec_clear v = Some v1" "vec_ok v1" "contents v1 = []" using vec_clear_spec [OF assms(1)] by blast
  obtain k where s: "v_size other = length (contents other)" "capacity other = v_size other + k" by (rule vec_okE [OF assms(2)])
  have d1: "v_data v1 = replicate (capacity v1) None" using v1(2,3) by (auto simp: vec_ok_def contents_def capacity_def)
  let ?n = "if capacity v1 < v_size other then capacity other else capacity v1"
  let ?v = "\<lparr>v_data = map Some (contents other) @ replicate (?n - v_size other) None, v_size = v_size other\<rparr>"
  have "(if capacity v1 < v_size other then replicate (capacity other) None else v_data v1) = replicate ?n None" using d1 by simp
  moreover have "v_size other \<le> ?n" using s(2) by simp
  ultimately have "vec_assign v other = Some ?v"
    unfolding vec_assign_def v1(1) using copy_slots_spec [OF assms(2), of ?n] by simp
  moreover have "vec_ok ?v" "contents ?v = contents other" using vec_okI [of ?v "contents other" "?n - v_size other"] s(1) by simp_all
  ultimately show ?thesis by blast
qed

section \<open>Sequences of operations\<close>

primrec run_all :: "('o \<Rightarrow> 's \<Rightarrow> 's option) \<Rightarrow> 'o list \<Rightarrow> 's \<Rightarrow> 's option" where
  "run_all step [] s = Some s"
| "run_all step (x # xs) s = do { s1 \<leftarrow> step x s; run_all step xs s1 }"

text \<open>A container whose operations always succeed on well-formed states and do what their specification says.\<close>

locale container =
  fixes inv :: "'s \<Rightarrow> bool" and elems :: "'s \<Rightarrow> 'x list" and step :: "'o \<Rightarrow> 's \<Rightarrow> 's option"
    and admissible :: "'o \<Rightarrow> bool" and spec :: "'o \<Rightarrow> 'x list \<Rightarrow> 'x list"
  assumes step_ok: "inv s \<Longrightarrow> admissible x \<Longrightarrow> \<exists>s'. step x s = Some s' \<and> inv s' \<and> elems s' = spec x (elems s)"
begin

lemma run_refines:
  "inv s \<Longrightarrow> \<forall>x \<in> set xs. admissible x \<Longrightarrow> \<exists>s'. run_all step xs s = Some s' \<and> inv s' \<and> elems s' = fold spec xs (elems s)"
proof (induction xs arbitrary: s)
  case (Cons x xs)
  obtain s1 where s1: "step x s = Some s1" "inv s1" "elems s1 = spec x (elems s)" using step_ok [OF Cons.prems(1)] Cons.prems(2) by auto
  then show ?case using Cons.IH [OF s1(2)] Cons.prems(2) by simp
qed simp

end

datatype 'a vec_op = PushBack 'a | PopBack | Erase int | Resize nat | Reserve nat | Clear | Assign "'a vec"

fun vec_step :: "'a \<Rightarrow> 'a vec_op \<Rightarrow> 'a vec \<Rightarrow> 'a vec option" where
  "vec_step d (PushBack x) v = push_back x v"
| "vec_step d PopBack v = pop_back v"
| "vec_step d (Erase i) v = vec_erase i v"
| "vec_step d (Resize n) v = vec_resize d n v"
| "vec_step d (Reserve n) v = vec_reserve n v"
| "vec_step d Clear v = vec_clear v"
| "vec_step d (Assign other) v = vec_assign v other"

fun list_step :: "'a \<Rightarrow> 'a vec_op \<Rightarrow> 'a list \<Rightarrow> 'a list" where
  "list_step d (PushBack x) xs = xs @ [x]"
| "list_step d PopBack xs = butlast xs"
| "list_step d (Erase i) xs = (if 0 \<le> i \<and> i < int (length xs) then take (nat i) xs @ drop (Suc (nat i)) xs else xs)"
| "list_step d (Resize n) xs = take n xs @ replicate (n - length xs) d"
| "list_step d (Reserve n) xs = xs"
| "list_step d Clear xs = []"
| "list_step d (Assign other) xs = contents other"

fun vec_arg_ok :: "'a vec_op \<Rightarrow> bool" where
  "vec_arg_ok (Assign other) \<longleftrightarrow> vec_ok other"
| "vec_arg_ok _ \<longleftrightarrow> True"

interpretation vector: container vec_ok contents "vec_step d" vec_arg_ok "list_step d" for d
proof
  fix v :: "'a vec" and x :: "'a vec_op" assume ok: "vec_ok v" and arg: "vec_arg_ok x"
  show "\<exists>v'. vec_step d x v = Some v' \<and> vec_ok v' \<and> contents v' = list_step d x (contents v)"
  proof (cases x)
    case (PushBack a)
    then show ?thesis using push_back_spec [OF ok, of a] by simp
  next
    case PopBack
    then show ?thesis using pop_back_spec [OF ok] by simp
  next
    case (Erase i)
    then show ?thesis using vec_erase_spec [OF ok, of i] by simp
  next
    case (Resize n)
    then show ?thesis using vec_resize_spec [OF ok, of d n] by simp
  next
    case (Reserve n)
    then show ?thesis using vec_reserve_spec [OF ok, of n] by auto
  next
    case Clear
    then show ?thesis using vec_clear_spec [OF ok] by auto
  next
    case (Assign other)
    then show ?thesis using vec_assign_spec [OF ok, of other] arg by simp
  qed
qed

lemma vec_at_spec:
  assumes "vec_ok v"
  shows "i < length (contents v) \<Longrightarrow> vec_at i v = Some (contents v ! i)"
    "contents v \<noteq> [] \<Longrightarrow> vec_front v = Some (hd (contents v)) \<and> vec_back v = Some (last (contents v))"
proof -
  obtain k where k: "v_data v = map Some (contents v) @ replicate k None" "v_size v = length (contents v)" by (rule vec_okE [OF assms])
  show at: "vec_at i v = Some (contents v ! i)" if "i < length (contents v)" for i using that by (simp add: vec_at_def fetch_def k nth_append)
  show "vec_front v = Some (hd (contents v)) \<and> vec_back v = Some (last (contents v))" if "contents v \<noteq> []"
    using that at [of 0] at [of "length (contents v) - 1"] k(2)
    by (simp add: vec_at_def vec_front_def vec_back_def hd_conv_nth last_conv_nth)
qed



end
