(* ===== verification/String_Class.thy ===== *)
theory String_Class
  imports Vector_Class
begin

text \<open>
  The string class \<open>lib/string.hpp\<close>. A byte of the buffer is \<open>None\<close> until it has been written; copying moves such bytes along, looking at one, and
  leaving the buffer, gives the result \<open>None\<close>. The buffer is null exactly when its capacity is 0. C strings are the bytes in front of
  the terminator; a null pointer is \<open>None\<close>. \<^verbatim>\<open>strstr\<close> is the function of the C library.
\<close>

section \<open>Operations\<close>

record kstring =
  s_buf :: "u8 option list"
  s_size :: nat

definition copy_cells :: "u8 option list \<Rightarrow> nat \<Rightarrow> u8 option list \<Rightarrow> nat \<Rightarrow> nat \<Rightarrow> u8 option list option" where
  "copy_cells src so dst d n =
    (if so + n \<le> length src \<and> d + n \<le> length dst then Some (take d dst @ take n (drop so src) @ drop (d + n) dst) else None)"

fun cstring_of :: "u8 option list \<Rightarrow> bytes option" where
  "cstring_of [] = None"
| "cstring_of (None # r) = None"
| "cstring_of (Some c # r) = (if c = 0 then Some [] else map_option (Cons c) (cstring_of r))"

definition str_empty :: kstring where
  "str_empty = \<lparr>s_buf = [], s_size = 0\<rparr>"

definition str_of :: "bytes option \<Rightarrow> kstring" where
  "str_of str = (case str of None \<Rightarrow> str_empty | Some bs \<Rightarrow> \<lparr>s_buf = map Some bs @ [Some 0], s_size = length bs\<rparr>)"

definition str_copy :: "kstring \<Rightarrow> kstring option" where
  "str_copy other =
    (if length (s_buf other) > 0 then do {
       b \<leftarrow> copy_cells (s_buf other) 0 (replicate (length (s_buf other)) None) 0 (s_size other + 1);
       Some \<lparr>s_buf = b, s_size = s_size other\<rparr>
     }
     else Some \<lparr>s_buf = [], s_size = s_size other\<rparr>)"

text \<open>Assignment deletes the old buffer and copies; moving leaves the empty string behind.\<close>

definition str_assign :: "kstring \<Rightarrow> kstring \<Rightarrow> kstring option" where
  "str_assign s other = str_copy other"

definition str_assign_cstr :: "kstring \<Rightarrow> bytes option \<Rightarrow> kstring" where
  "str_assign_cstr s str = str_of str"

definition str_move :: "kstring \<Rightarrow> kstring \<times> kstring" where
  "str_move other = (other, str_empty)"

text \<open>The buffer for a result of \<open>new_size\<close> bytes.\<close>

definition str_grow :: "nat \<Rightarrow> kstring \<Rightarrow> u8 option list option" where
  "str_grow new_size s =
    (if new_size + 1 > length (s_buf s)
     then if s_buf s \<noteq> [] then copy_cells (s_buf s) 0 (replicate (new_size + 1) None) 0 (s_size s)
          else Some (replicate (new_size + 1) None)
     else Some (s_buf s))"

definition str_append :: "kstring \<Rightarrow> kstring \<Rightarrow> kstring option" where
  "str_append other s =
    (if s_size other = 0 then Some s
     else do {
       let new_size = s_size s + s_size other;
       b \<leftarrow> str_grow new_size s;
       b1 \<leftarrow> copy_cells (s_buf other) 0 b (s_size s) (s_size other + 1);
       Some \<lparr>s_buf = b1, s_size = new_size\<rparr>
     })"

text \<open>\<^verbatim>\<open>s += s\<close>: source and destination are the same buffer, and the bytes are copied one after the other.\<close>

definition copy_within :: "nat \<Rightarrow> nat \<Rightarrow> u8 option list \<Rightarrow> u8 option list option" where
  "copy_within d n b = (if d + n \<le> length b then Some (fold (\<lambda>i b. b[d + i := b ! i]) [0..<n] b) else None)"

definition str_append_self :: "kstring \<Rightarrow> kstring option" where
  "str_append_self s =
    (if s_size s = 0 then Some s
     else do {
       let new_size = s_size s + s_size s;
       b \<leftarrow> str_grow new_size s;
       b1 \<leftarrow> copy_within (s_size s) (s_size s + 1) b;
       Some \<lparr>s_buf = b1, s_size = new_size\<rparr>
     })"

definition str_append_cstr :: "bytes option \<Rightarrow> kstring \<Rightarrow> kstring option" where
  "str_append_cstr str s =
    (case str of
       None \<Rightarrow> Some s
     | Some bs \<Rightarrow>
         if bs = [] then Some s
         else do {
           let new_size = s_size s + length bs;
           b \<leftarrow> str_grow new_size s;
           b1 \<leftarrow> copy_cells (map Some bs @ [Some 0]) 0 b (s_size s) (length bs + 1);
           Some \<lparr>s_buf = b1, s_size = new_size\<rparr>
         })"

definition cells :: "nat \<Rightarrow> u8 option list \<Rightarrow> bytes option" where
  "cells n b = (if n \<le> length b \<and> None \<notin> set (take n b) then Some (map the (take n b)) else None)"

definition str_equal :: "kstring \<Rightarrow> kstring \<Rightarrow> bool option" where
  "str_equal a b =
    (if s_size a \<noteq> s_size b then Some False
     else if s_size a = 0 then Some True
     else do { x \<leftarrow> cells (s_size a) (s_buf a); y \<leftarrow> cells (s_size a) (s_buf b); Some (x = y) })"

definition str_equal_cstr :: "kstring \<Rightarrow> bytes option \<Rightarrow> bool option" where
  "str_equal_cstr s str =
    (case str of
       None \<Rightarrow> Some (s_size s = 0)
     | Some bs \<Rightarrow> if s_buf s = [] then Some (bs = []) else do { x \<leftarrow> cstring_of (s_buf s); Some (x = bs) })"

definition str_c_str :: "kstring \<Rightarrow> bytes option" where
  "str_c_str s = (if s_buf s = [] then Some [] else cstring_of (s_buf s))"

definition str_reserve :: "nat \<Rightarrow> kstring \<Rightarrow> kstring option" where
  "str_reserve new_capacity s =
    (if new_capacity \<le> length (s_buf s) then Some s
     else do {
       b \<leftarrow> (if s_buf s \<noteq> [] then copy_cells (s_buf s) 0 (replicate new_capacity None) 0 (s_size s + 1)
             else Some ((replicate new_capacity None)[0 := Some 0]));
       Some (s\<lparr>s_buf := b\<rparr>)
     })"

definition str_clear :: "kstring \<Rightarrow> kstring" where
  "str_clear s = \<lparr>s_buf = (if s_buf s \<noteq> [] then (s_buf s)[0 := Some 0] else []), s_size = 0\<rparr>"

text \<open>\<open>None\<close> as the length is \<open>npos\<close>.\<close>

definition substr :: "nat \<Rightarrow> nat option \<Rightarrow> kstring \<Rightarrow> kstring option" where
  "substr pos len s =
    (if pos \<ge> s_size s then Some str_empty
     else do {
       let n = (case len of None \<Rightarrow> s_size s - pos | Some l \<Rightarrow> if pos + l > s_size s then s_size s - pos else l);
       result \<leftarrow> str_reserve (n + 1) str_empty;
       b \<leftarrow> copy_cells (s_buf s) pos (s_buf result) 0 n;
       Some \<lparr>s_buf = b[n := Some 0], s_size = n\<rparr>
     })"

fun strstr :: "bytes \<Rightarrow> bytes \<Rightarrow> nat option" where
  "strstr [] str = (if str = [] then Some 0 else None)"
| "strstr (c # r) str = (if take (length str) (c # r) = str then Some 0 else map_option Suc (strstr r str))"

text \<open>The outer \<open>None\<close> is a bad access, the inner one \<open>npos\<close>.\<close>

definition str_find :: "bytes option \<Rightarrow> nat \<Rightarrow> kstring \<Rightarrow> nat option option" where
  "str_find str pos s =
    (case str of
       None \<Rightarrow> Some None
     | Some bs \<Rightarrow>
         if s_buf s = [] \<or> pos \<ge> s_size s then Some None
         else do { x \<leftarrow> cstring_of (drop pos (s_buf s)); Some (map_option ((+) pos) (strstr x bs)) })"

section \<open>Meaning\<close>

definition chars :: "kstring \<Rightarrow> bytes" where
  "chars s = map the (take (s_size s) (s_buf s))"

text \<open>The empty string without a buffer, or its bytes without NUL, a terminator, and anything behind it.\<close>

definition str_ok :: "kstring \<Rightarrow> bool" where
  "str_ok s \<longleftrightarrow> 0 \<notin> set (chars s) \<and> length (chars s) = s_size s \<and>
     (s_buf s \<noteq> [] \<longrightarrow> (\<exists>r. s_buf s = map Some (chars s) @ Some 0 # r))"

lemma str_okI:
  assumes "s_buf s = map Some bs @ Some 0 # r" "s_size s = length bs" "0 \<notin> set bs"
  shows "str_ok s" "chars s = bs"
proof -
  show c: "chars s = bs" by (simp add: chars_def assms comp_def)
  then show "str_ok s" using assms by (simp add: str_ok_def)
qed

lemma str_empty_ok [simp]: "str_ok str_empty" "chars str_empty = []"
  by (simp_all add: str_ok_def str_empty_def chars_def)

lemma str_null:
  assumes "str_ok s" "s_buf s = []"
  shows "chars s = []" "s_size s = 0"
  using assms by (auto simp: str_ok_def chars_def)

lemma str_okE:
  assumes "str_ok s" "s_buf s \<noteq> []"
  obtains r where "s_buf s = map Some (chars s) @ Some 0 # r" "s_size s = length (chars s)" "0 \<notin> set (chars s)"
  using assms unfolding str_ok_def by metis

lemma cstring_of_chars: "0 \<notin> set bs \<Longrightarrow> cstring_of (map Some bs @ Some 0 # r) = Some bs"
  by (induction bs) auto

section \<open>Every operation is the operation on bytes\<close>

lemma str_grow_spec:
  assumes "str_ok s" "s_size s \<le> n"
  shows "\<exists>b. str_grow n s = Some b \<and> take (s_size s) b = map Some (chars s) \<and> n + 1 \<le> length b"
proof (cases "s_buf s = []")
  case True
  then show ?thesis using str_null [OF assms(1)] by (simp add: str_grow_def)
next
  case False
  obtain r where r: "s_buf s = map Some (chars s) @ Some 0 # r" "s_size s = length (chars s)" by (rule str_okE [OF assms(1) False])
  show ?thesis
  proof (cases "n + 1 > length (s_buf s)")
    case True
    have "copy_cells (s_buf s) 0 (replicate (n + 1) None) 0 (s_size s) = Some (map Some (chars s) @ replicate (n + 1 - s_size s) None)"
      using r assms(2) by (simp add: copy_cells_def Suc_diff_le del: replicate_Suc)
    then show ?thesis using True False r assms(2) by (simp add: str_grow_def)
  next
    case False
    then show ?thesis using r by (simp add: str_grow_def)
  qed
qed

lemma append_cells:
  assumes "take d b = map Some xs" "d = length xs" "d + length ys + 1 \<le> length b"
  shows "copy_cells (map Some ys @ Some 0 # r) 0 b d (length ys + 1) = Some (map Some (xs @ ys) @ Some 0 # drop (d + (length ys + 1)) b)"
proof -
  have "take (length ys + 1) (map Some ys @ Some 0 # r) = map Some ys @ [Some 0]" by simp
  then show ?thesis using assms by (simp add: copy_cells_def)
qed

text \<open>Appending \<open>bs\<close>, from a C string or from another string object.\<close>

lemma append_spec:
  assumes "str_ok s" "0 \<notin> set bs"
  shows "\<exists>b s'. str_grow (s_size s + length bs) s = Some b \<and>
    copy_cells (map Some bs @ Some 0 # r) 0 b (s_size s) (length bs + 1) = Some (s_buf s') \<and>
    s_size s' = s_size s + length bs \<and> str_ok s' \<and> chars s' = chars s @ bs"
proof -
  obtain b where b: "str_grow (s_size s + length bs) s = Some b" "take (s_size s) b = map Some (chars s)" "s_size s + length bs + 1 \<le> length b"
    using str_grow_spec [OF assms(1), of "s_size s + length bs"] by auto
  have n: "s_size s = length (chars s)" "0 \<notin> set (chars s)" using assms(1) by (simp_all add: str_ok_def)
  let ?s = "\<lparr>s_buf = map Some (chars s @ bs) @ Some 0 # drop (s_size s + (length bs + 1)) b, s_size = s_size s + length bs\<rparr>"
  have "copy_cells (map Some bs @ Some 0 # r) 0 b (s_size s) (length bs + 1) = Some (s_buf ?s)"
    using append_cells [OF b(2) n(1) b(3)] by simp
  moreover have "str_ok ?s" "chars ?s = chars s @ bs"
    using str_okI [of ?s "chars s @ bs"] n assms(2) by simp_all
  ultimately show ?thesis using b(1) by (intro exI [of _ b] exI [of _ ?s]) simp
qed

lemma str_append_spec:
  assumes "str_ok s" "str_ok t"
  shows "\<exists>s'. str_append t s = Some s' \<and> str_ok s' \<and> chars s' = chars s @ chars t"
proof (cases "s_size t = 0")
  case True
  then have "chars t = []" using assms(2) by (simp add: str_ok_def)
  then show ?thesis using True assms(1) by (simp add: str_append_def)
next
  case False
  then have "s_buf t \<noteq> []" using str_null [OF assms(2)] by auto
  then obtain r where r: "s_buf t = map Some (chars t) @ Some 0 # r" "s_size t = length (chars t)" "0 \<notin> set (chars t)"
    by (rule str_okE [OF assms(2)])
  obtain b s' where "str_grow (s_size s + length (chars t)) s = Some b"
    "copy_cells (map Some (chars t) @ Some 0 # r) 0 b (s_size s) (length (chars t) + 1) = Some (s_buf s')"
    "s_size s' = s_size s + length (chars t)" "str_ok s'" "chars s' = chars s @ chars t"
    using append_spec [OF assms(1) r(3)] by blast
  then show ?thesis using False r by (intro exI [of _ s']) (simp add: str_append_def Let_def)
qed

lemma str_append_cstr_spec:
  assumes "str_ok s" "0 \<notin> set bs"
  shows "\<exists>s'. str_append_cstr (Some bs) s = Some s' \<and> str_ok s' \<and> chars s' = chars s @ bs"
proof (cases "bs = []")
  case True
  then show ?thesis using assms(1) by (simp add: str_append_cstr_def)
next
  case False
  obtain b s' where "str_grow (s_size s + length bs) s = Some b"
    "copy_cells (map Some bs @ [Some 0]) 0 b (s_size s) (length bs + 1) = Some (s_buf s')"
    "s_size s' = s_size s + length bs" "str_ok s'" "chars s' = chars s @ bs"
    using append_spec [OF assms, of "[]"] by blast
  then show ?thesis using False by (intro exI [of _ s']) (simp add: str_append_cstr_def Let_def)
qed

lemma str_of_spec: "0 \<notin> set bs \<Longrightarrow> str_ok (str_of (Some bs)) \<and> chars (str_of (Some bs)) = bs"
  using str_okI [of "str_of (Some bs)" bs "[]"] by (simp add: str_of_def)

lemma str_copy_spec:
  assumes "str_ok s"
  shows "\<exists>s'. str_copy s = Some s' \<and> str_ok s' \<and> chars s' = chars s"
proof (cases "s_buf s = []")
  case True
  then show ?thesis using assms str_null [OF assms True] by (auto simp: str_copy_def str_ok_def chars_def)
next
  case False
  obtain r where r: "s_buf s = map Some (chars s) @ Some 0 # r" "s_size s = length (chars s)" "0 \<notin> set (chars s)"
    by (rule str_okE [OF assms False])
  let ?s = "\<lparr>s_buf = map Some (chars s) @ Some 0 # replicate (length r) None, s_size = s_size s\<rparr>"
  have "take (s_size s + 1) (s_buf s) = map Some (chars s) @ [Some 0]" using r(1,2) by simp
  moreover have "s_size s + 1 \<le> length (s_buf s)" "length (s_buf s) - (s_size s + 1) = length r" using r(1,2) by simp_all
  ultimately have "str_copy s = Some ?s" using False by (simp add: str_copy_def copy_cells_def del: replicate_Suc)
  moreover have "str_ok ?s" "chars ?s = chars s" using str_okI [of ?s "chars s"] r by simp_all
  ultimately show ?thesis by blast
qed

lemma str_reserve_spec:
  assumes "str_ok s"
  shows "\<exists>s'. str_reserve n s = Some s' \<and> str_ok s' \<and> chars s' = chars s"
proof (cases "n \<le> length (s_buf s)")
  case True
  then show ?thesis using assms by (simp add: str_reserve_def)
next
  case n: False
  show ?thesis
  proof (cases "s_buf s = []")
    case True
    obtain k where k: "n = Suc k" using n True by (cases n) simp_all
    let ?s = "s\<lparr>s_buf := Some 0 # replicate k None\<rparr>"
    have "str_reserve n s = Some ?s" using True n by (simp add: str_reserve_def k)
    moreover have "str_ok ?s" "chars ?s = []" using str_okI [of ?s "[]"] str_null [OF assms True] by simp_all
    ultimately show ?thesis using str_null [OF assms True] by simp
  next
    case False
    obtain r where r: "s_buf s = map Some (chars s) @ Some 0 # r" "s_size s = length (chars s)" "0 \<notin> set (chars s)"
      by (rule str_okE [OF assms False])
    let ?s = "s\<lparr>s_buf := map Some (chars s) @ Some 0 # replicate (n - (s_size s + 1)) None\<rparr>"
    have "take (s_size s + 1) (s_buf s) = map Some (chars s) @ [Some 0]" "s_size s + 1 \<le> length (s_buf s)" using r(1,2) by simp_all
    then have "str_reserve n s = Some ?s" using False n by (simp add: str_reserve_def copy_cells_def)
    moreover have "str_ok ?s" "chars ?s = chars s" using str_okI [of ?s "chars s"] r by simp_all
    ultimately show ?thesis by blast
  qed
qed

lemma str_clear_spec:
  assumes "str_ok s"
  shows "str_ok (str_clear s) \<and> chars (str_clear s) = []"
proof (cases "s_buf s = []")
  case True
  then show ?thesis by (simp add: str_clear_def str_ok_def chars_def)
next
  case False
  then obtain c r where "s_buf s = c # r" by (cases "s_buf s") simp_all
  then show ?thesis using str_okI [of "str_clear s" "[]" r] by (simp add: str_clear_def)
qed

lemma substr_spec:
  assumes "str_ok s"
  shows "\<exists>s'. substr pos len s = Some s' \<and> str_ok s' \<and>
    chars s' = (case len of None \<Rightarrow> drop pos (chars s) | Some l \<Rightarrow> take l (drop pos (chars s)))"
proof (cases "pos \<ge> s_size s")
  case True
  then have "drop pos (chars s) = []" using assms by (simp add: str_ok_def)
  then show ?thesis using True by (simp add: substr_def split: option.split)
next
  case False
  define n where "n = (case len of None \<Rightarrow> s_size s - pos | Some l \<Rightarrow> if pos + l > s_size s then s_size s - pos else l)"
  have n: "pos + n \<le> s_size s" using False by (auto simp: n_def split: option.split)
  have "s_buf s \<noteq> []" using False str_null [OF assms] by auto
  then obtain r where r: "s_buf s = map Some (chars s) @ Some 0 # r" "s_size s = length (chars s)" "0 \<notin> set (chars s)"
    by (rule str_okE [OF assms])
  let ?bs = "take n (drop pos (chars s))"
  have len: "length ?bs = n" using n r(2) by simp
  have cp: "take n (drop pos (s_buf s)) = map Some ?bs" using n r(1,2) by (simp add: drop_map take_map)
  have res: "str_reserve (n + 1) str_empty = Some \<lparr>s_buf = Some 0 # replicate n None, s_size = 0\<rparr>"
    by (simp add: str_reserve_def str_empty_def)
  have "length (drop n (Some 0 # replicate n (None :: u8 option))) = Suc 0" by simp
  then obtain x where x: "drop n (Some 0 # replicate n None) = [x :: u8 option]" by (metis length_0_conv length_Suc_conv)
  have "copy_cells (s_buf s) pos (Some 0 # replicate n None) 0 n = Some (map Some ?bs @ [x])"
    using n r(1,2) cp x by (simp add: copy_cells_def)
  moreover have "(map Some ?bs @ [x])[n := Some 0] = map Some ?bs @ [Some 0]" using len by (simp add: list_update_append)
  ultimately have "substr pos len s = Some \<lparr>s_buf = map Some ?bs @ [Some 0], s_size = n\<rparr>"
    using False res unfolding substr_def n_def [symmetric] by simp
  moreover have "?bs = (case len of None \<Rightarrow> drop pos (chars s) | Some l \<Rightarrow> take l (drop pos (chars s)))"
    using r(2) by (auto simp: n_def split: option.split)
  moreover have "0 \<notin> set ?bs" using r(3) by (meson in_set_dropD in_set_takeD)
  ultimately show ?thesis using str_okI [of "\<lparr>s_buf = map Some ?bs @ [Some 0], s_size = n\<rparr>" ?bs "[]"] len by auto
qed

lemma str_equal_spec:
  assumes "str_ok s" "str_ok t"
  shows "str_equal s t = Some (chars s = chars t)"
proof -
  have len: "s_size s = length (chars s)" "s_size t = length (chars t)" using assms by (simp_all add: str_ok_def)
  have cell: "cells (s_size u) (s_buf u) = Some (chars u)" if u: "str_ok u" "s_size u \<noteq> 0" for u
  proof -
    have "s_buf u \<noteq> []" using u str_null [OF u(1)] by auto
    then obtain r where "s_buf u = map Some (chars u) @ Some 0 # r" "s_size u = length (chars u)" by (rule str_okE [OF u(1)])
    then show ?thesis by (simp add: cells_def comp_def)
  qed
  show ?thesis
  proof (cases "s_size s = s_size t \<and> s_size s \<noteq> 0")
    case True
    then show ?thesis using cell [OF assms(1)] cell [OF assms(2)] by (simp add: str_equal_def)
  next
    case False
    then show ?thesis using len by (auto simp: str_equal_def)
  qed
qed

lemma str_c_str_spec:
  assumes "str_ok s"
  shows "str_c_str s = Some (chars s)" "str_equal_cstr s (Some bs) = Some (chars s = bs)"
proof -
  show c: "str_c_str s = Some (chars s)"
  proof (cases "s_buf s = []")
    case True
    then show ?thesis using str_null [OF assms] by (simp add: str_c_str_def)
  next
    case False
    then obtain r where "s_buf s = map Some (chars s) @ Some 0 # r" "0 \<notin> set (chars s)" by (rule str_okE [OF assms])
    then show ?thesis using False cstring_of_chars [of "chars s" r] by (simp add: str_c_str_def)
  qed
  then show "str_equal_cstr s (Some bs) = Some (chars s = bs)"
    using str_null(1) [OF assms] by (auto simp: str_equal_cstr_def str_c_str_def)
qed

lemma strstr_spec:
  "(case strstr x bs of
      None \<Rightarrow> \<forall>j \<le> length x. take (length bs) (drop j x) \<noteq> bs
    | Some k \<Rightarrow> k \<le> length x \<and> take (length bs) (drop k x) = bs \<and> (\<forall>j < k. take (length bs) (drop j x) \<noteq> bs))"
proof (induction x bs rule: strstr.induct)
  case (2 c r bs)
  show ?case
  proof (cases "take (length bs) (c # r) = bs")
    case False
    have all: "(\<forall>j < Suc k. P j) \<longleftrightarrow> P 0 \<and> (\<forall>j < k. P (Suc j))" for P k by (auto simp: less_Suc_eq_0_disj)
    have all': "(\<forall>j \<le> Suc k. P j) \<longleftrightarrow> P 0 \<and> (\<forall>j \<le> k. P (Suc j))" for P k
      by (metis Suc_le_mono le0 not0_implies_Suc)
    show ?thesis using 2 False by (auto simp: all all' split: option.split)
  qed simp
qed simp

lemma str_find_spec:
  assumes "str_ok s" "pos < s_size s"
  shows "str_find (Some bs) pos s = Some (map_option ((+) pos) (strstr (drop pos (chars s)) bs))"
proof -
  have "s_buf s \<noteq> []" using assms str_null [OF assms(1)] by auto
  then obtain r where r: "s_buf s = map Some (chars s) @ Some 0 # r" "s_size s = length (chars s)" "0 \<notin> set (chars s)"
    by (rule str_okE [OF assms(1)])
  have "drop pos (s_buf s) = map Some (drop pos (chars s)) @ Some 0 # r" using r assms(2) by (simp add: drop_map)
  moreover have "0 \<notin> set (drop pos (chars s))" using r(3) by (meson in_set_dropD)
  ultimately show ?thesis using assms(2) \<open>s_buf s \<noteq> []\<close> cstring_of_chars by (simp add: str_find_def)
qed

section \<open>Properties\<close>

datatype str_op = Append kstring | AppendC "bytes option" | AssignS kstring | AssignC "bytes option" | ReserveS nat | ClearS | Substr nat "nat option"

fun str_step :: "str_op \<Rightarrow> kstring \<Rightarrow> kstring option" where
  "str_step (Append t) s = str_append t s"
| "str_step (AppendC str) s = str_append_cstr str s"
| "str_step (AssignS t) s = str_assign s t"
| "str_step (AssignC str) s = Some (str_assign_cstr s str)"
| "str_step (ReserveS n) s = str_reserve n s"
| "str_step ClearS s = Some (str_clear s)"
| "str_step (Substr pos len) s = substr pos len s"

fun bytes_step :: "str_op \<Rightarrow> bytes \<Rightarrow> bytes" where
  "bytes_step (Append t) bs = bs @ chars t"
| "bytes_step (AppendC str) bs = bs @ (case str of None \<Rightarrow> [] | Some cs \<Rightarrow> cs)"
| "bytes_step (AssignS t) bs = chars t"
| "bytes_step (AssignC str) bs = (case str of None \<Rightarrow> [] | Some cs \<Rightarrow> cs)"
| "bytes_step (ReserveS n) bs = bs"
| "bytes_step ClearS bs = []"
| "bytes_step (Substr pos len) bs = (case len of None \<Rightarrow> drop pos bs | Some l \<Rightarrow> take l (drop pos bs))"

definition no_nul :: "bytes option \<Rightarrow> bool" where
  "no_nul str \<longleftrightarrow> (case str of None \<Rightarrow> True | Some bs \<Rightarrow> 0 \<notin> set bs)"

fun str_arg_ok :: "str_op \<Rightarrow> bool" where
  "str_arg_ok (Append t) \<longleftrightarrow> str_ok t"
| "str_arg_ok (AppendC str) \<longleftrightarrow> no_nul str"
| "str_arg_ok (AssignS t) \<longleftrightarrow> str_ok t"
| "str_arg_ok (AssignC str) \<longleftrightarrow> no_nul str"
| "str_arg_ok _ \<longleftrightarrow> True"

interpretation kstr: container str_ok chars str_step str_arg_ok bytes_step
proof
  fix s x assume ok: "str_ok s" and arg: "str_arg_ok x"
  show "\<exists>s'. str_step x s = Some s' \<and> str_ok s' \<and> chars s' = bytes_step x (chars s)"
  proof (cases x)
    case (Append t)
    then show ?thesis using str_append_spec [OF ok, of t] arg by simp
  next
    case (AppendC str)
    then show ?thesis using str_append_cstr_spec [OF ok] ok arg
      by (cases str) (simp_all add: no_nul_def str_append_cstr_def [of None])
  next
    case (AssignS t)
    then show ?thesis using str_copy_spec [of t] arg by (simp add: str_assign_def)
  next
    case (AssignC str)
    then show ?thesis using str_of_spec arg
      by (cases str) (simp_all add: no_nul_def str_assign_cstr_def str_of_def [of None])
  next
    case (ReserveS n)
    then show ?thesis using str_reserve_spec [OF ok, of n] by simp
  next
    case ClearS
    then show ?thesis using str_clear_spec [OF ok] by simp
  next
    case (Substr pos len)
    then show ?thesis using substr_spec [OF ok, of pos len] by simp
  qed
qed



text \<open>
  Searching: the result is the least position at or behind the start where the bytes occur.
\<close>

theorem string_find_correct:
  assumes "str_ok s" "pos < s_size s" "str_find (Some bs) pos s = Some r"
  shows "case r of
      None \<Rightarrow> \<forall>j. pos \<le> j \<and> j \<le> length (chars s) \<longrightarrow> take (length bs) (drop j (chars s)) \<noteq> bs
    | Some k \<Rightarrow> pos \<le> k \<and> take (length bs) (drop k (chars s)) = bs \<and> (\<forall>j. pos \<le> j \<and> j < k \<longrightarrow> take (length bs) (drop j (chars s)) \<noteq> bs)"
proof -
  let ?x = "drop pos (chars s)"
  have r: "r = map_option ((+) pos) (strstr ?x bs)" using str_find_spec [OF assms(1,2)] assms(3) by simp
  have le: "pos \<le> length (chars s)" using assms(1,2) by (simp add: str_ok_def)
  have at: "take (length bs) (drop j (chars s)) = take (length bs) (drop (j - pos) ?x)" if "pos \<le> j" for j using that by simp
  show ?thesis
  proof (cases "strstr ?x bs")
    case None
    have "take (length bs) (drop j (chars s)) \<noteq> bs" if j: "pos \<le> j" "j \<le> length (chars s)" for j
    proof -
      have "j - pos \<le> length ?x" using j by simp
      then show ?thesis using strstr_spec [of ?x bs] unfolding None at [OF j(1)] option.case by blast
    qed
    then show ?thesis using r None by simp
  next
    case (Some k)
    have "take (length bs) (drop j (chars s)) \<noteq> bs" if j: "pos \<le> j" "j < pos + k" for j
    proof -
      have "j - pos < k" using j by linarith
      then show ?thesis using strstr_spec [of ?x bs] unfolding Some at [OF j(1)] option.case by blast
    qed
    moreover have "take (length bs) (drop (pos + k) (chars s)) = bs" using strstr_spec [of ?x bs] Some at [of "pos + k"] by simp
    ultimately show ?thesis using r Some by simp
  qed
qed

theorem string_find_correct_witness: "\<exists>r. str_find (Some [2, 3]) 1 (str_of (Some [2, 3, 1, 2, 3])) = Some r \<and> r = Some 3"
proof -
  have s: "str_ok (str_of (Some [2, 3, 1, 2, 3]))" using str_of_spec [of "[2, 3, 1, 2, 3]"] by simp
  have f: "str_find (Some [2, 3]) 1 (str_of (Some [2, 3, 1, 2, 3])) = Some (Some 3)" by code_simp
  show ?thesis using string_find_correct [OF s _ f] f by (auto simp: str_of_def)
qed

lemma copy_within_loop:
  assumes "take d b = map Some xs" "d = length xs" "i \<le> d" "2 * d < length b"
  shows "fold (\<lambda>i b. b[d + i := b ! i]) [0..<i] b = map Some xs @ map Some (take i xs) @ drop (d + i) b"
  using assms(3)
proof (induction i)
  case 0
  then show ?case using assms(1) by (metis append_take_drop_id add_0_right fold_simps(1) list.simps(8) self_append_conv2 take0 upt_0)
next
  case (Suc i)
  let ?b = "map Some xs @ map Some (take i xs) @ drop (d + i) b"
  have ih: "fold (\<lambda>i b. b[d + i := b ! i]) [0..<i] b = ?b" using Suc by simp
  have dr: "drop (d + i) b = b ! (d + i) # drop (d + Suc i) b" using Suc.prems assms(4) by (simp add: Cons_nth_drop_Suc)
  have up: "(drop (length xs + i) b)[0 := y] = y # drop (Suc (length xs + i)) b" for y using dr assms(2) by simp
  have "?b ! i = Some (xs ! i)" using Suc.prems assms(2) by (simp add: nth_append)
  moreover have "?b[d + i := Some (xs ! i)] = map Some xs @ map Some (take i xs) @ Some (xs ! i) # drop (d + Suc i) b"
    using Suc.prems assms(2) by (simp add: up list_update_append)
  moreover have "map Some (take (Suc i) xs) = map Some (take i xs) @ [Some (xs ! i)]"
    using Suc.prems assms(2) by (simp add: take_Suc_conv_app_nth)
  ultimately show ?case by (simp add: ih)
qed

text \<open>
  a string must not be appended to itself. The copy includes the terminator of the source, which by then is the first byte of the copy: the result has
  the right bytes and no terminator.
\<close>

theorem self_append_unterminated:
  assumes "str_ok s" "chars s \<noteq> []"
  shows "\<exists>s'. str_append_self s = Some s' \<and> chars s' = chars s @ chars s \<and>
    s_buf s' ! s_size s' = Some (hd (chars s)) \<and> \<not> str_ok s'"
proof -
  let ?d = "s_size s"
  have d: "?d = length (chars s)" "0 \<notin> set (chars s)" using assms(1) by (simp_all add: str_ok_def)
  obtain b where b: "str_grow (?d + ?d) s = Some b" "take ?d b = map Some (chars s)" "?d + ?d + 1 \<le> length b"
    using str_grow_spec [OF assms(1), of "?d + ?d"] by auto
  let ?c = "map Some (chars s) @ map Some (chars s) @ drop (?d + ?d) b"
  have "fold (\<lambda>i b. b[?d + i := b ! i]) [0..<?d] b = ?c"
    using copy_within_loop [OF b(2) d(1), of ?d] b(3) d(1) by simp
  moreover have "?c ! ?d = Some (hd (chars s))" using assms(2) d(1) by (simp add: nth_append hd_conv_nth)
  ultimately have cp: "copy_within ?d (?d + 1) b = Some (?c[?d + ?d := Some (hd (chars s))])" using b(3) by (simp add: copy_within_def)
  let ?s = "\<lparr>s_buf = ?c[?d + ?d := Some (hd (chars s))], s_size = ?d + ?d\<rparr>"
  have dr: "drop (?d + ?d) b = b ! (?d + ?d) # drop (Suc (?d + ?d)) b" using b(3) by (simp add: Cons_nth_drop_Suc)
  have buf: "s_buf ?s = map Some (chars s @ chars s) @ Some (hd (chars s)) # drop (Suc (?d + ?d)) b"
  proof -
    have "(drop (length (chars s) + length (chars s)) b)[0 := y] = y # drop (Suc (length (chars s) + length (chars s))) b" for y
      using dr d(1) by simp
    then show ?thesis using d(1) by (simp add: list_update_append)
  qed
  have run: "str_append_self s = Some ?s" using assms(2) d(1) b(1) cp by (simp add: str_append_self_def Let_def)
  have "take (s_size ?s) (s_buf ?s) = map Some (chars s @ chars s)" unfolding buf using d(1) by simp
  then have ch: "chars ?s = chars s @ chars s" unfolding chars_def [of ?s] by (simp add: comp_def)
  have at: "s_buf ?s ! s_size ?s = Some (hd (chars s))" unfolding buf using d(1) by (simp add: nth_append)
  have "hd (chars s) \<noteq> 0" using d(2) assms(2) by (metis hd_in_set)
  then have "\<not> str_ok ?s" unfolding str_ok_def ch buf by simp
  then show ?thesis using run ch at by blast
qed

theorem self_append_unterminated_witness:
  "\<exists>s'. str_append_self (str_of (Some [104, 105])) = Some s' \<and> \<not> str_ok s'"
  using self_append_unterminated [of "str_of (Some [104, 105])"] str_of_spec [of "[104, 105]"] by auto

end
