(* ===== verification/Console.thy ===== *)
theory Console
  imports Printf
begin

text \<open>
  The text console: the VGA text buffer and its cursor registers, \<open>shell/vga.cpp\<close>, the terminal on top
  of it, \<open>shell/terminal.cpp\<close>, the saved screen of \<open>shell/screen_state.cpp\<close>, and the colour helpers of
  \<open>shell/shell.cpp\<close>.

  \<open>vga\<close> holds the 16-bit cells from address 0xB8000 on; a cell is reached with the 16-bit index that the code
  computes, wrap-around included. The controller behind ports 0x3D4 and 0x3D5 is its index register and the
  registers it selects. The main theorem says what is on the screen after any output: the last 25 lines of
  the text, broken at newlines and at 80 columns, with the cursor behind the last character.
\<close>

section \<open>State\<close>

record console =
  vga :: "u16 \<Rightarrow> u16"
  crtc_index :: u8
  crtc :: "u8 \<Rightarrow> u8"
  terminal_row :: u16
  terminal_column :: u16
  terminal_color :: u8
  saved_screen :: "u16 \<Rightarrow> u16"
  saved_terminal_row :: u16
  saved_terminal_column :: u16
  saved_terminal_color :: u8
  shell_saved_color :: u8

definition VGA_WIDTH :: u16 where "VGA_WIDTH = 80"
definition VGA_HEIGHT :: u16 where "VGA_HEIGHT = 25"
definition VGA_COLOR_BLACK :: u8 where "VGA_COLOR_BLACK = 0"
definition VGA_COLOR_LIGHT_GREY :: u8 where "VGA_COLOR_LIGHT_GREY = 7"
definition VGA_COLOR_WHITE :: u8 where "VGA_COLOR_WHITE = 15"
definition VGA_COLOR_RED :: u8 where "VGA_COLOR_RED = 4"
definition VGA_COLOR_GREEN :: u8 where "VGA_COLOR_GREEN = 2"
definition VGA_COLOR_BLUE :: u8 where "VGA_COLOR_BLUE = 1"
definition SCREEN_SIZE :: u16 where "SCREEN_SIZE = VGA_WIDTH * VGA_HEIGHT"

lemmas console_defs = VGA_WIDTH_def VGA_HEIGHT_def VGA_COLOR_BLACK_def VGA_COLOR_WHITE_def SCREEN_SIZE_def

section \<open>The VGA controller\<close>

text \<open>
  The character is a signed \<^verbatim>\<open>char\<close>: the cast to 16 bits extends its sign, so a byte from 128 on sets all bits of
  the attribute.
\<close>

definition vga_entry :: "u8 \<Rightarrow> u8 \<Rightarrow> u16" where
  "vga_entry c color = (scast c :: u16) OR push_bit 8 (ucast color)"

definition vga_color :: "u8 \<Rightarrow> u8 \<Rightarrow> u8" where
  "vga_color fg bg = fg OR push_bit 4 bg"

definition write_crtc :: "u8 \<Rightarrow> u8 \<Rightarrow> console \<Rightarrow> console" where
  "write_crtc r v t = t\<lparr>crtc_index := r, crtc := (crtc t)(r := v)\<rparr>"

definition set_cell :: "u16 \<Rightarrow> u16 \<Rightarrow> console \<Rightarrow> console" where
  "set_cell i e t = t\<lparr>vga := (vga t)(i := e)\<rparr>"

definition cursor_initialize :: "console \<Rightarrow> console" where
  "cursor_initialize t = write_crtc 0x0B 0x0F (write_crtc 0x0A 0x0E t)"

definition hide_cursor :: "console \<Rightarrow> console" where
  "hide_cursor t = write_crtc 0x0A 0x20 t"

definition show_cursor :: "console \<Rightarrow> console" where
  "show_cursor t = cursor_initialize t"

definition set_cursor_address :: "u16 \<Rightarrow> console \<Rightarrow> console" where
  "set_cursor_address pos t = write_crtc 15 (ucast (pos AND 0xFF)) (write_crtc 14 (ucast (drop_bit 8 pos)) t)"

definition update_cursor :: "console \<Rightarrow> console" where
  "update_cursor t =
    (let pos = terminal_row t * VGA_WIDTH + terminal_column t;
         t = set_cell pos ((vga t pos AND 0x0FFF) OR push_bit 12 (ucast VGA_COLOR_BLACK)) t
     in write_crtc 0x0B 0x0F (write_crtc 0x0A 0x0E (set_cursor_address pos t)))"

text \<open>The arguments are 64-bit; each is cut to 16 bits first.\<close>

definition update_cursor_position :: "nat \<Rightarrow> nat \<Rightarrow> console \<Rightarrow> console" where
  "update_cursor_position x y t = set_cursor_address (of_nat y * VGA_WIDTH + of_nat x) t"

section \<open>The terminal\<close>

definition terminal_putchar_at :: "u8 \<Rightarrow> u8 \<Rightarrow> u16 \<Rightarrow> u16 \<Rightarrow> console \<Rightarrow> console" where
  "terminal_putchar_at c color x y t = set_cell (y * VGA_WIDTH + x) (vga_entry c color) t"

definition clear_row :: "u16 \<Rightarrow> nat \<Rightarrow> console \<Rightarrow> console" where
  "clear_row e y t = fold (\<lambda>x t. set_cell (of_nat y * VGA_WIDTH + of_nat x) e t) [0..<80] t"

definition terminal_initialize :: "console \<Rightarrow> console" where
  "terminal_initialize t =
    (let color = vga_color VGA_COLOR_WHITE VGA_COLOR_BLACK;
         t = t\<lparr>terminal_row := 0, terminal_column := 0, terminal_color := color\<rparr>;
         t = fold (\<lambda>y. clear_row (vga_entry 32 color) y) [0..<25] t
     in update_cursor (cursor_initialize t))"

definition copy_row_up :: "nat \<Rightarrow> console \<Rightarrow> console" where
  "copy_row_up y t = fold (\<lambda>x t. set_cell (of_nat y * VGA_WIDTH + of_nat x)
     (vga t (of_nat (y + 1) * VGA_WIDTH + of_nat x)) t) [0..<80] t"

definition scroll :: "console \<Rightarrow> console" where
  "scroll t =
    (let color = vga_color VGA_COLOR_WHITE VGA_COLOR_BLACK;
         t = fold copy_row_up [0..<24] t;
         t = clear_row (vga_entry 32 color) 24 t
     in t\<lparr>terminal_row := VGA_HEIGHT - 1\<rparr>)"

definition next_row :: "console \<Rightarrow> console" where
  "next_row t =
    (let t = t\<lparr>terminal_column := 0, terminal_row := terminal_row t + 1\<rparr>
     in if terminal_row t = VGA_HEIGHT then scroll t else t)"

definition terminal_putchar :: "u8 \<Rightarrow> console \<Rightarrow> console" where
  "terminal_putchar c t =
    (if c = 10 then update_cursor (next_row t)
     else let t = terminal_putchar_at c (terminal_color t) (terminal_column t) (terminal_row t) t;
              t = t\<lparr>terminal_column := terminal_column t + 1\<rparr>;
              t = (if terminal_column t = VGA_WIDTH then next_row t else t)
          in update_cursor t)"

definition terminal_clear :: "console \<Rightarrow> console" where
  "terminal_clear t = terminal_initialize t"

abbreviation put_text :: "bytes \<Rightarrow> console \<Rightarrow> console" where
  "put_text bs t \<equiv> fold terminal_putchar bs t"

section \<open>The saved screen\<close>

definition screen_init :: "console \<Rightarrow> console" where
  "screen_init t = t\<lparr>saved_screen := (\<lambda>i. if i < SCREEN_SIZE then 0 else saved_screen t i),
     saved_terminal_row := 0, saved_terminal_column := 0, saved_terminal_color := 0\<rparr>"

definition screen_save :: "console \<Rightarrow> console" where
  "screen_save t = t\<lparr>saved_screen := (\<lambda>i. if i < SCREEN_SIZE then vga t i else saved_screen t i),
     saved_terminal_row := terminal_row t, saved_terminal_column := terminal_column t,
     saved_terminal_color := terminal_color t\<rparr>"

definition screen_restore :: "console \<Rightarrow> console" where
  "screen_restore t = update_cursor (t\<lparr>vga := (\<lambda>i. if i < SCREEN_SIZE then saved_screen t i else vga t i),
     terminal_row := saved_terminal_row t, terminal_column := saved_terminal_column t,
     terminal_color := saved_terminal_color t\<rparr>)"

section \<open>Colours of the shell\<close>

definition set_color :: "u8 \<Rightarrow> console \<Rightarrow> console" where
  "set_color fg t = t\<lparr>shell_saved_color := terminal_color t, terminal_color := vga_color fg VGA_COLOR_BLACK\<rparr>"

definition set_red :: "console \<Rightarrow> console" where "set_red = set_color VGA_COLOR_RED"
definition set_green :: "console \<Rightarrow> console" where "set_green = set_color VGA_COLOR_GREEN"
definition set_blue :: "console \<Rightarrow> console" where "set_blue = set_color VGA_COLOR_BLUE"
definition set_gray :: "console \<Rightarrow> console" where "set_gray = set_color VGA_COLOR_LIGHT_GREY"
definition set_white :: "console \<Rightarrow> console" where "set_white = set_color VGA_COLOR_WHITE"

definition reset_color :: "console \<Rightarrow> console" where
  "reset_color t = t\<lparr>terminal_color := shell_saved_color t\<rparr>"

section \<open>Cells\<close>

definition cell :: "console \<Rightarrow> nat \<Rightarrow> nat \<Rightarrow> u16" where
  "cell t x y = vga t (of_nat y * VGA_WIDTH + of_nat x)"

abbreviation white_on_black :: u8 where
  "white_on_black \<equiv> vga_color VGA_COLOR_WHITE VGA_COLOR_BLACK"

abbreviation blank :: u16 where
  "blank \<equiv> vga_entry 32 white_on_black"

lemma blank_value: "blank = 0x0F20"
  by (simp add: vga_entry_def vga_color_def console_defs)

lemma index_nat: "of_nat y * VGA_WIDTH + of_nat x = (of_nat (y * 80 + x) :: u16)"
  by (simp add: VGA_WIDTH_def)

lemma of_nat_u16_eq: "a < 65536 \<Longrightarrow> b < 65536 \<Longrightarrow> (of_nat a :: u16) = of_nat b \<longleftrightarrow> a = b"
  by (simp add: word_of_nat_eq_iff take_bit_eq_mod)

lemma index_inj:
  assumes "x < 80" "y < 25" "x' < 80" "y' < 25"
  shows "(of_nat y * VGA_WIDTH + of_nat x = (of_nat y' * VGA_WIDTH + of_nat x' :: u16)) \<longleftrightarrow> x = x' \<and> y = y'"
proof -
  have b: "y * 80 + x < 65536" "y' * 80 + x' < 65536" using assms by linarith+
  have "(of_nat (y * 80 + x) :: u16) = of_nat (y' * 80 + x') \<longleftrightarrow> y * 80 + x = y' * 80 + x'"
    using b by (rule of_nat_u16_eq)
  also have "\<dots> \<longleftrightarrow> x = x' \<and> y = y'"
  proof
    assume e: "y * 80 + x = y' * 80 + x'"
    have "y = (y * 80 + x) div 80" "y' = (y' * 80 + x') div 80" using assms(1,3) by simp_all
    then have "y = y'" using e by simp
    then show "x = x' \<and> y = y'" using e by simp
  qed simp
  finally show ?thesis by (simp only: index_nat)
qed

lemma cell_set_cell:
  assumes "x < 80" "y < 25" "x' < 80" "y' < 25"
  shows "cell (set_cell (of_nat y * VGA_WIDTH + of_nat x) e t) x' y' = (if x' = x \<and> y' = y then e else cell t x' y')"
  using index_inj [OF assms(3,4,1,2)] by (simp add: cell_def set_cell_def)

lemma fold_set_cell_frame:
  "\<exists>v. fold (\<lambda>x t. set_cell (i x) (e x t) t) xs t = t\<lparr>vga := v\<rparr>"
proof (induction xs arbitrary: t)
  case Nil
  show ?case by (rule exI [of _ "vga t"]) simp
next
  case (Cons x xs)
  obtain v where "fold (\<lambda>x t. set_cell (i x) (e x t) t) xs (set_cell (i x) (e x t) t) = (set_cell (i x) (e x t) t)\<lparr>vga := v\<rparr>"
    using Cons by blast
  then show ?case by (auto simp: set_cell_def)
qed

lemma clear_row_frame: "\<exists>v. clear_row e y t = t\<lparr>vga := v\<rparr>"
  unfolding clear_row_def by (rule fold_set_cell_frame)

lemma copy_row_up_frame: "\<exists>v. copy_row_up y t = t\<lparr>vga := v\<rparr>"
  unfolding copy_row_up_def by (rule fold_set_cell_frame)

lemma fold_frame:
  assumes "\<And>y t. \<exists>v. f y t = t\<lparr>vga := v\<rparr>"
  shows "\<exists>v. fold f ys t = t\<lparr>vga := v\<rparr>"
proof (induction ys arbitrary: t)
  case Nil
  show ?case by (rule exI [of _ "vga t"]) simp
next
  case (Cons y ys)
  obtain v where "f y t = t\<lparr>vga := v\<rparr>" using assms by blast
  then show ?case using Cons [of "f y t"] by auto
qed

lemma clear_row_loop:
  assumes "y < 25" "n \<le> 80" "x' < 80" "y' < 25"
  shows "cell (fold (\<lambda>x t. set_cell (of_nat y * VGA_WIDTH + of_nat x) e t) [0..<n] t) x' y' =
    (if y' = y \<and> x' < n then e else cell t x' y')"
  using assms(2) by (induction n) (auto simp: cell_set_cell assms)

lemma cell_clear_row:
  assumes "y < 25" "x' < 80" "y' < 25"
  shows "cell (clear_row e y t) x' y' = (if y' = y then e else cell t x' y')"
  using clear_row_loop [of y 80 x' y' e t] assms by (simp add: clear_row_def)

lemma clear_rows_loop:
  assumes "n \<le> 25" "x' < 80" "y' < 25"
  shows "cell (fold (\<lambda>y. clear_row e y) [0..<n] t) x' y' = (if y' < n then e else cell t x' y')"
  using assms(1) by (induction n) (auto simp: cell_clear_row assms)

lemma copy_row_up_loop:
  assumes "y < 24" "n \<le> 80"
  shows "\<forall>x' < 80. \<forall>y' < 25. cell (fold (\<lambda>x t. set_cell (of_nat y * VGA_WIDTH + of_nat x)
      (vga t (of_nat (y + 1) * VGA_WIDTH + of_nat x)) t) [0..<n] t) x' y' =
    (if y' = y \<and> x' < n then cell t x' (y + 1) else cell t x' y')"
  using assms(2)
proof (induction n)
  case 0
  show ?case by simp
next
  case (Suc n)
  define f where "f = (\<lambda>x t. set_cell (of_nat y * VGA_WIDTH + of_nat x) (vga t (of_nat (y + 1) * VGA_WIDTH + of_nat x)) t)"
  define u where "u = fold f [0..<n] t"
  have ih: "cell u x' y' = (if y' = y \<and> x' < n then cell t x' (y + 1) else cell t x' y')" if "x' < 80" "y' < 25" for x' y'
    using Suc that unfolding u_def f_def by simp
  have "vga u (of_nat (y + 1) * VGA_WIDTH + of_nat n) = cell t n (y + 1)"
    using ih [of n "y + 1"] Suc.prems assms(1) by (simp add: cell_def)
  then have "f n u = set_cell (of_nat y * VGA_WIDTH + of_nat n) (cell t n (y + 1)) u" by (simp only: f_def)
  then have "cell (f n u) x' y' = (if y' = y \<and> x' < Suc n then cell t x' (y + 1) else cell t x' y')" if "x' < 80" "y' < 25" for x' y'
    using that Suc.prems assms(1) by (auto simp: cell_set_cell ih)
  then show ?case unfolding f_def [symmetric] by (simp add: u_def)
qed

lemma cell_copy_row_up:
  assumes "y < 24" "x' < 80" "y' < 25"
  shows "cell (copy_row_up y t) x' y' = (if y' = y then cell t x' (y + 1) else cell t x' y')"
  using copy_row_up_loop [of y 80 t] assms by (simp add: copy_row_up_def)

lemma copy_rows_loop:
  assumes "n \<le> 24"
  shows "\<forall>x' < 80. \<forall>y' < 25. cell (fold copy_row_up [0..<n] t) x' y' = (if y' < n then cell t x' (y' + 1) else cell t x' y')"
  using assms
proof (induction n)
  case 0
  show ?case by simp
next
  case (Suc n)
  then show ?case by (auto simp: cell_copy_row_up less_Suc_eq)
qed

lemma cell_scroll:
  assumes "x < 80" "y < 25"
  shows "cell (scroll t) x y = (if y < 24 then cell t x (y + 1) else blank)"
  using assms copy_rows_loop [of 24 t] by (simp add: scroll_def cell_clear_row [unfolded cell_def] cell_def Let_def)

lemma scroll_fields [simp]:
  "terminal_row (scroll t) = 24" "terminal_column (scroll t) = terminal_column t" "terminal_color (scroll t) = terminal_color t"
proof -
  obtain v where 1: "fold copy_row_up [0..<24] t = t\<lparr>vga := v\<rparr>" using fold_frame [of copy_row_up "[0..<24]" t] copy_row_up_frame by blast
  obtain w where 2: "clear_row blank 24 (t\<lparr>vga := v\<rparr>) = t\<lparr>vga := v, vga := w\<rparr>" using clear_row_frame [of blank 24 "t\<lparr>vga := v\<rparr>"] by blast
  show "terminal_row (scroll t) = 24" "terminal_column (scroll t) = terminal_column t" "terminal_color (scroll t) = terminal_color t"
    unfolding scroll_def Let_def 1 2 by (simp_all add: VGA_HEIGHT_def)
qed

lemma update_cursor_fields [simp]:
  "terminal_row (update_cursor t) = terminal_row t" "terminal_column (update_cursor t) = terminal_column t"
  "terminal_color (update_cursor t) = terminal_color t"
  by (simp_all add: update_cursor_def set_cursor_address_def write_crtc_def set_cell_def Let_def)

definition cursor_address :: "console \<Rightarrow> nat" where
  "cursor_address t = unat (crtc t 14) * 256 + unat (crtc t 15)"

lemma u16_halves: "unat (ucast (drop_bit 8 p) :: u8) * 256 + unat (ucast (p AND 0xFF) :: u8) = unat (p :: u16)"
proof -
  have a: "p AND 0xFF = take_bit 8 p" by (simp add: take_bit_eq_mask mask_eq_exp_minus_1)
  have 1: "unat (ucast (drop_bit 8 p) :: u8) = unat p div 256"
    using unsigned_less [of p, where 'a = nat] by (simp add: unsigned_ucast_eq unsigned_drop_bit_eq drop_bit_eq_div take_bit_eq_mod unat_div_distrib less_mult_imp_div_less)
  have 2: "unat (ucast (p AND 0xFF) :: u8) = unat p mod 256"
    unfolding a by (simp add: unsigned_ucast_eq unsigned_take_bit_eq take_bit_eq_mod unat_mod_distrib)
  show ?thesis unfolding 1 2 by simp
qed

lemma update_cursor_address: "cursor_address (update_cursor t) = unat (terminal_row t * VGA_WIDTH + terminal_column t)"
  by (simp add: cursor_address_def update_cursor_def set_cursor_address_def write_crtc_def set_cell_def Let_def u16_halves)

lemma update_cursor_cell:
  assumes "terminal_row t = of_nat r" "terminal_column t = of_nat k" "r < 25" "k < 80" "x < 80" "y < 25"
  shows "cell (update_cursor t) x y = (if x = k \<and> y = r then cell t x y AND 0x0FFF else cell t x y)"
  using index_inj [OF assms(5,6,4,3)] assms(1,2)
  by (simp add: cell_def update_cursor_def set_cursor_address_def write_crtc_def set_cell_def Let_def VGA_COLOR_BLACK_def)

section \<open>What the screen shows\<close>

text \<open>
  The output so far as lines of cells: the last line is the one the cursor is on. A character goes behind
  the last line, which is ended by a newline or when it has 80 characters.
\<close>

definition type_char :: "u8 \<Rightarrow> u8 \<Rightarrow> u16 list list \<Rightarrow> u16 list list" where
  "type_char color c L =
    (if c = 10 then L @ [[]]
     else let l = last L @ [vga_entry c color]
          in butlast L @ (if length l = 80 then [l, []] else [l]))"

definition line_cell :: "u16 list list \<Rightarrow> nat \<Rightarrow> nat \<Rightarrow> u16" where
  "line_cell L j x = (if j < length L \<and> x < length (L ! j) then L ! j ! x else blank)"

definition well_broken :: "u16 list list \<Rightarrow> bool" where
  "well_broken L \<longleftrightarrow> L \<noteq> [] \<and> length (last L) < 80"

text \<open>The lines from \<open>k\<close> on are on the screen; the cursor is in row \<open>r\<close>, behind the last line.\<close>

definition cells_show :: "u16 list list \<Rightarrow> nat \<Rightarrow> console \<Rightarrow> bool" where
  "cells_show L k t \<longleftrightarrow> (\<forall>x < 80. \<forall>y < 25. cell t x y = line_cell L (k + y) x)"

definition laid_out :: "u16 list list \<Rightarrow> console \<Rightarrow> bool" where
  "laid_out L t \<longleftrightarrow> well_broken L \<and>
    cells_show L (length L - 25) t \<and>
    terminal_row t = of_nat (min (length L) 25 - 1) \<and> terminal_column t = of_nat (length (last L))"

definition displays :: "u16 list list \<Rightarrow> console \<Rightarrow> bool" where
  "displays L t \<longleftrightarrow> laid_out L t \<and>
    cursor_address t = (min (length L) 25 - 1) * 80 + length (last L)"

lemma line_cell_cursor: "L \<noteq> [] \<Longrightarrow> line_cell L (length L - 1) (length (last L)) = blank"
  by (simp add: line_cell_def last_conv_nth)

text \<open>Placing the cursor keeps the cells: the cursor is on a blank.\<close>

lemma update_cursor_displays:
  assumes "well_broken L" "cells_show L (length L - 25) t"
    and "terminal_row t = of_nat (min (length L) 25 - 1)" "terminal_column t = of_nat (length (last L))"
  shows "displays L (update_cursor t)"
proof -
  let ?r = "min (length L) 25 - 1" and ?k = "length L - 25"
  have ne: "L \<noteq> []" and c: "length (last L) < 80" using assms(1) by (auto simp: well_broken_def)
  have r: "?r < 25" "?k + ?r = length L - 1" using ne by (cases L; simp; linarith)+
  have "cell (update_cursor t) x y = line_cell L (?k + y) x" if "x < 80" "y < 25" for x y
  proof -
    have "line_cell L (?k + y) x AND 0x0FFF = line_cell L (?k + y) x" if "x = length (last L)" "y = ?r"
      using line_cell_cursor [OF ne] r that by (simp add: blank_value)
    moreover have "cell t x y = line_cell L (?k + y) x" using assms(2) that by (simp add: cells_show_def)
    ultimately show ?thesis using update_cursor_cell [OF assms(3,4) r(1) c that] by auto
  qed
  moreover have "cursor_address (update_cursor t) = ?r * 80 + length (last L)"
  proof -
    have "terminal_row t * VGA_WIDTH + terminal_column t = of_nat (?r * 80 + length (last L))"
      unfolding assms(3,4) by (rule index_nat)
    moreover have "?r * 80 + length (last L) < 65536" using r(1) c by linarith
    ultimately show ?thesis by (simp only: update_cursor_address unsigned_of_nat take_bit_eq_mod) simp
  qed
  ultimately show ?thesis using assms by (simp add: displays_def laid_out_def cells_show_def)
qed

lemma line_cell_append_nil: "line_cell (L @ [[]]) j x = line_cell L j x"
  by (auto simp: line_cell_def nth_append less_Suc_eq)

text \<open>Ending a line: a new row, or the rows move up by one.\<close>

lemma next_row_shows:
  assumes "L \<noteq> []" "cells_show L (length L - 25) t" "terminal_row t = of_nat (min (length L) 25 - 1)"
  shows "cells_show (L @ [[]]) (length (L @ [[]]) - 25) (next_row t)"
    and "terminal_row (next_row t) = of_nat (min (length (L @ [[]])) 25 - 1)"
    and "terminal_column (next_row t) = 0" "terminal_color (next_row t) = terminal_color t"
proof -
  define u where "u = t\<lparr>terminal_column := 0, terminal_row := terminal_row t + 1\<rparr>"
  have row: "terminal_row u = of_nat (min (length L) 25)"
    using assms(1,3) by (cases L) (simp_all add: u_def of_nat_diff)
  have cu: "cell u x y = line_cell L (length L - 25 + y) x" if "x < 80" "y < 25" for x y
    using assms(2) that by (simp add: u_def cells_show_def cell_def)
  have eq: "terminal_row u = VGA_HEIGHT \<longleftrightarrow> length L \<ge> 25"
    unfolding row VGA_HEIGHT_def using of_nat_u16_eq [of "min (length L) 25" 25] by auto
  have nx: "next_row t = (if length L \<ge> 25 then scroll u else u)" unfolding next_row_def Let_def u_def [symmetric] eq by simp
  show "cells_show (L @ [[]]) (length (L @ [[]]) - 25) (next_row t)"
  proof (cases "length L \<ge> 25")
    case True
    have "cell (scroll u) x y = line_cell L (length L + 1 - 25 + y) x" if "x < 80" "y < 25" for x y
    proof (cases "y < 24")
      case y: True
      then have "length L - 25 + (y + 1) = length L + 1 - 25 + y" using True by simp
      then show ?thesis using y that cu [of x "y + 1"] by (simp only: cell_scroll) simp
    next
      case False
      then have "length L + 1 - 25 + y = length L" using True that by simp
      then show ?thesis using False that by (simp add: cell_scroll line_cell_def)
    qed
    then show ?thesis using True by (simp add: cells_show_def nx line_cell_append_nil)
  next
    case False
    then show ?thesis using cu by (simp add: cells_show_def nx line_cell_append_nil)
  qed
  show "terminal_row (next_row t) = of_nat (min (length (L @ [[]])) 25 - 1)" using row by (simp add: nx)
  show "terminal_column (next_row t) = 0" "terminal_color (next_row t) = terminal_color t" by (simp_all add: nx u_def)
qed

text \<open>Printing a character behind the last line.\<close>

lemma line_cell_extend:
  assumes "L \<noteq> []"
  shows "line_cell (butlast L @ [last L @ [e]]) j x =
    (if j = length L - 1 \<and> x = length (last L) then e else line_cell L j x)"
proof -
  obtain B l where "L = B @ [l]" using assms by (metis append_butlast_last_id)
  then show ?thesis by (auto simp: line_cell_def nth_append less_Suc_eq)
qed

lemma putchar_at_shows:
  fixes L :: "u16 list list" and c :: u8
  assumes "laid_out L t"
  defines "L' \<equiv> butlast L @ [last L @ [vga_entry c (terminal_color t)]]"
  defines "u \<equiv> terminal_putchar_at c (terminal_color t) (terminal_column t) (terminal_row t) t"
  shows "cells_show L' (length L' - 25) u" "length L' = length L"
proof -
  let ?r = "min (length L) 25 - 1" and ?k = "length L - 25"
  have ne: "L \<noteq> []" and w: "length (last L) < 80" using assms(1) by (auto simp: well_broken_def laid_out_def)
  have r: "?r < 25" "?k + ?r = length L - 1" using ne by (cases L; simp; linarith)+
  show len: "length L' = length L" using ne by (simp add: L'_def)
  have u: "u = set_cell (of_nat ?r * VGA_WIDTH + of_nat (length (last L))) (vga_entry c (terminal_color t)) t"
    using assms(1) unfolding laid_out_def by (simp add: u_def terminal_putchar_at_def)
  have "cell u x y = line_cell L' (?k + y) x" if "x < 80" "y < 25" for x y
  proof -
    have "?k + y = length L - 1 \<longleftrightarrow> y = ?r" using r(2) by linarith
    moreover have "cell t x y = line_cell L (?k + y) x" using assms(1) that by (simp add: laid_out_def cells_show_def)
    ultimately show ?thesis unfolding L'_def line_cell_extend [OF ne] u cell_set_cell [OF w r(1) that] by auto
  qed
  then show "cells_show L' (length L' - 25) u" by (simp add: cells_show_def len)
qed

lemma terminal_putchar_displays:
  assumes "laid_out L t"
  shows "displays (type_char (terminal_color t) c L) (terminal_putchar c t)" "terminal_color (terminal_putchar c t) = terminal_color t"
proof -
  have ne: "L \<noteq> []" and w: "length (last L) < 80" and row: "terminal_row t = of_nat (min (length L) 25 - 1)"
    and col: "terminal_column t = of_nat (length (last L))" and cells: "cells_show L (length L - 25) t"
    using assms by (auto simp: well_broken_def laid_out_def)
  let ?goal = "displays (type_char (terminal_color t) c L) (terminal_putchar c t) \<and> terminal_color (terminal_putchar c t) = terminal_color t"
  have ?goal
  proof (cases "c = 10")
    case True
    note n = next_row_shows [OF ne cells row]
    show ?thesis using update_cursor_displays [of "L @ [[]]" "next_row t"] n True
      by (simp add: terminal_putchar_def type_char_def well_broken_def)
  next
    case False
    define L' where "L' = butlast L @ [last L @ [vga_entry c (terminal_color t)]]"
    define u where "u = terminal_putchar_at c (terminal_color t) (terminal_column t) (terminal_row t) t"
    define v where "v = u\<lparr>terminal_column := terminal_column u + 1\<rparr>"
    have u: "cells_show L' (length L' - 25) u" "length L' = length L"
      using putchar_at_shows [OF assms] by (simp_all add: L'_def u_def)
    have v: "cells_show L' (length L' - 25) v" using u(1) by (simp add: v_def cells_show_def cell_def)
    have f: "terminal_row v = of_nat (min (length L') 25 - 1)" "terminal_column v = of_nat (length (last L'))" "terminal_color v = terminal_color t"
      using row col u(2) by (simp_all add: v_def u_def terminal_putchar_at_def set_cell_def L'_def)
    have full: "terminal_column v = VGA_WIDTH \<longleftrightarrow> length (last L') = 80"
      unfolding f(2) VGA_WIDTH_def using of_nat_u16_eq [of "length (last L')" 80] w by (simp add: L'_def)
    have ne': "L' \<noteq> []" by (simp add: L'_def)
    have p: "terminal_putchar c t = update_cursor (if length (last L') = 80 then next_row v else v)"
      using False full by (simp add: terminal_putchar_def u_def v_def Let_def)
    show ?thesis
    proof (cases "length (last L') = 80")
      case True
      note n = next_row_shows [OF ne' v f(1)]
      have "type_char (terminal_color t) c L = L' @ [[]]" using False True by (simp add: type_char_def L'_def)
      then show ?thesis using update_cursor_displays [of "L' @ [[]]" "next_row v"] n True p f(3) by (simp add: well_broken_def)
    next
      case nf: False
      have "type_char (terminal_color t) c L = L'" using False nf by (simp add: type_char_def L'_def)
      moreover have "well_broken L'" using nf w ne' by (simp add: well_broken_def L'_def)
      ultimately show ?thesis using update_cursor_displays [OF _ v f(1,2)] nf p f(3) by simp
    qed
  qed
  then show "displays (type_char (terminal_color t) c L) (terminal_putchar c t)" "terminal_color (terminal_putchar c t) = terminal_color t" by auto
qed

lemma displays_laid_out: "displays L t \<Longrightarrow> laid_out L t"
  by (simp add: displays_def)

lemma put_text_displays:
  assumes "displays L t"
  shows "displays (fold (type_char (terminal_color t)) bs L) (put_text bs t) \<and> terminal_color (put_text bs t) = terminal_color t"
  using assms
proof (induction bs arbitrary: L t)
  case (Cons c bs)
  then show ?case using Cons.IH [of "type_char (terminal_color t) c L" "terminal_putchar c t"] terminal_putchar_displays [OF displays_laid_out [OF Cons.prems], of c]
    by simp
qed simp

lemma terminal_initialize_displays:
  "displays [[]] (terminal_initialize t)" "terminal_color (terminal_initialize t) = white_on_black"
proof -
  define u where "u = t\<lparr>terminal_row := 0, terminal_column := 0, terminal_color := white_on_black\<rparr>"
  define v where "v = fold (\<lambda>y. clear_row blank y) [0..<25] u"
  obtain w where w: "v = u\<lparr>vga := w\<rparr>" using fold_frame [of "\<lambda>y. clear_row blank y" "[0..<25]" u] clear_row_frame unfolding v_def by blast
  have "cell v x y = blank" if "x < 80" "y < 25" for x y using clear_rows_loop [of 25 x y blank u] that by (simp add: v_def)
  then have c: "cells_show [[]] (length [[]] - 25) (cursor_initialize v)"
    by (simp add: cells_show_def line_cell_def cell_def cursor_initialize_def write_crtc_def)
  have i: "terminal_initialize t = update_cursor (cursor_initialize v)" by (simp add: terminal_initialize_def u_def v_def Let_def)
  show "terminal_color (terminal_initialize t) = white_on_black"
    by (simp add: i cursor_initialize_def write_crtc_def w u_def)
  show "displays [[]] (terminal_initialize t)"
    unfolding i using c by (intro update_cursor_displays) (simp_all add: well_broken_def cursor_initialize_def write_crtc_def w u_def)
qed

text \<open>
  C19: after a clear, whatever is printed, the screen shows the end of it: the text broken into lines at newlines and at 80
  columns, its last 25 lines from the top of the screen, blanks elsewhere, and the hardware cursor behind the last character.
\<close>

theorem terminal_shows_output:
  "displays (fold (type_char white_on_black) bs [[]]) (put_text bs (terminal_initialize t))"
  using put_text_displays [OF terminal_initialize_displays(1), of t bs] by (simp add: terminal_initialize_displays(2))

section \<open>The saved screen comes back\<close>

definition saved_state :: "console \<Rightarrow> (u16 \<Rightarrow> u16) \<times> u16 \<times> u16 \<times> u8" where
  "saved_state t = (saved_screen t, saved_terminal_row t, saved_terminal_column t, saved_terminal_color t)"

text \<open>What the terminal itself never writes: the saved screen and the colour that the shell keeps.\<close>

definition kept :: "console \<Rightarrow> ((u16 \<Rightarrow> u16) \<times> u16 \<times> u16 \<times> u8) \<times> u8" where
  "kept t = (saved_state t, shell_saved_color t)"

lemma of_nat_u16_less: "n < m \<Longrightarrow> m < 65536 \<Longrightarrow> (of_nat n :: u16) < of_nat m"
  by (simp add: word_less_nat_alt unsigned_of_nat take_bit_eq_mod)

lemma index_on_screen: "x < 80 \<Longrightarrow> y < 25 \<Longrightarrow> of_nat y * VGA_WIDTH + of_nat x < SCREEN_SIZE"
proof -
  assume a: "x < 80" "y < 25"
  have "y * 80 + x < 2000" using a by linarith
  then have "(of_nat (y * 80 + x) :: u16) < of_nat 2000" by (rule of_nat_u16_less) simp
  then show ?thesis unfolding index_nat by (simp add: console_defs)
qed

lemma kept_vga [simp]: "kept (t\<lparr>vga := v\<rparr>) = kept t"
  by (simp add: kept_def saved_state_def)

lemma kept_simps [simp]:
  "kept (write_crtc r v t) = kept t" "kept (set_cell i e t) = kept t"
  "kept (t\<lparr>terminal_row := a\<rparr>) = kept t" "kept (t\<lparr>terminal_column := b\<rparr>) = kept t"
  "kept (t\<lparr>terminal_color := d\<rparr>) = kept t"
  by (simp_all add: kept_def saved_state_def write_crtc_def set_cell_def)

lemma kept_update_cursor [simp]: "kept (update_cursor t) = kept t"
  by (simp add: update_cursor_def set_cursor_address_def Let_def)

lemma kept_scroll [simp]: "kept (scroll t) = kept t"
proof -
  obtain v where 1: "fold copy_row_up [0..<24] t = t\<lparr>vga := v\<rparr>" using fold_frame [of copy_row_up "[0..<24]" t] copy_row_up_frame by blast
  obtain w where 2: "clear_row blank 24 (t\<lparr>vga := v\<rparr>) = t\<lparr>vga := v, vga := w\<rparr>" using clear_row_frame [of blank 24 "t\<lparr>vga := v\<rparr>"] by blast
  show ?thesis unfolding scroll_def Let_def 1 2 by simp
qed

lemma kept_putchar [simp]: "kept (terminal_putchar c t) = kept t"
  by (simp add: terminal_putchar_def next_row_def terminal_putchar_at_def Let_def)

lemma kept_put_text [simp]: "kept (put_text bs t) = kept t"
  by (induction bs arbitrary: t) simp_all

lemma kept_initialize [simp]: "kept (terminal_initialize t) = kept t"
proof -
  let ?u = "t\<lparr>terminal_row := 0, terminal_column := 0, terminal_color := white_on_black\<rparr>"
  obtain w where w: "fold (\<lambda>y. clear_row blank y) [0..<25] ?u = ?u\<lparr>vga := w\<rparr>"
    using fold_frame [of "\<lambda>y. clear_row blank y" "[0..<25]" ?u] clear_row_frame by blast
  show ?thesis unfolding terminal_initialize_def Let_def w by (simp add: cursor_initialize_def)
qed

lemma kept_put_text_fields: "saved_state (put_text bs t) = saved_state t" "shell_saved_color (put_text bs t) = shell_saved_color t"
  using kept_put_text [of bs t] by (simp_all add: kept_def)

lemma kept_putchar_fields: "saved_state (terminal_putchar c t) = saved_state t"
  using kept_putchar [of c t] by (simp add: kept_def)

lemma kept_initialize_fields: "saved_state (terminal_initialize t) = saved_state t"
  using kept_initialize [of t] by (simp add: kept_def)

text \<open>
  a full-screen program that saves the screen, draws what it likes without saving again, and restores it, leaves the
  screen, the position and the colour as they were.
\<close>

theorem screen_save_restore:
  assumes "displays L t" "saved_state (draw (screen_save t)) = saved_state (screen_save t)"
  shows "displays L (screen_restore (draw (screen_save t))) \<and> terminal_color (screen_restore (draw (screen_save t))) = terminal_color t"
proof -
  define u where "u = draw (screen_save t)"
  define v where "v = u\<lparr>vga := (\<lambda>i. if i < SCREEN_SIZE then saved_screen u i else vga u i),
     terminal_row := saved_terminal_row u, terminal_column := saved_terminal_column u, terminal_color := saved_terminal_color u\<rparr>"
  have s: "saved_screen u = (\<lambda>i. if i < SCREEN_SIZE then vga t i else saved_screen t i)" "saved_terminal_row u = terminal_row t"
    "saved_terminal_column u = terminal_column t" "saved_terminal_color u = terminal_color t"
    using assms(2) by (simp_all add: u_def saved_state_def screen_save_def)
  have "cell v x y = cell t x y" if "x < 80" "y < 25" for x y
    using index_on_screen [OF that] by (simp add: v_def cell_def s)
  then have "cells_show L (length L - 25) v" using assms(1) by (simp add: displays_def laid_out_def cells_show_def)
  moreover have "terminal_row v = terminal_row t" "terminal_column v = terminal_column t" "terminal_color v = terminal_color t"
    by (simp_all add: v_def s)
  moreover have "screen_restore u = update_cursor v" by (simp add: screen_restore_def v_def)
  ultimately show ?thesis using assms(1) update_cursor_displays [of L v] unfolding u_def [symmetric] by (simp add: displays_def laid_out_def)
qed

theorem screen_save_restore_witness:
  "\<forall>t. displays (fold (type_char white_on_black) [104, 105] [[]])
     (screen_restore (put_text [120, 10, 121] (terminal_clear (screen_save (put_text [104, 105] (terminal_initialize t))))))"
proof
  fix t :: console
  show "displays (fold (type_char white_on_black) [104, 105] [[]])
     (screen_restore (put_text [120, 10, 121] (terminal_clear (screen_save (put_text [104, 105] (terminal_initialize t))))))"
    using screen_save_restore [OF put_text_displays [OF terminal_initialize_displays(1), of t "[104, 105]", THEN conjunct1],
      of "\<lambda>u. put_text [120, 10, 121] (terminal_clear u)"]
    by (simp add: terminal_initialize_displays(2) terminal_clear_def kept_putchar_fields kept_initialize_fields)
qed

end
