(* ===== verification/Prompt.thy ===== *)
theory Prompt
  imports Console Fat_Directory
begin

text \<open>
  Printing on the console and the prompt of the shell, \<open>print_prompt\<close> of \<open>shell/shell.cpp\<close>, which the shell, the
  editor and the pager end with. The name of the current directory comes from the file system.
\<close>

text \<open>
  No call below passes a floating-point argument, so the conversion of one is never asked for and is left out.
\<close>

definition printf :: "bytes \<Rightarrow> arg list \<Rightarrow> console \<Rightarrow> console option" where
  "printf fmt args t = map_option (\<lambda>(bs, _). put_text bs t) (vprintf (\<lambda>_ _. []) fmt args)"

definition print_prompt :: "console \<times> fatfs \<Rightarrow> (console \<times> fatfs) option" where
  "print_prompt = (\<lambda>(t, s).
    let s = (if m_currentDirName s = [] then set_current_dir_name (Some (cstr ''/'')) s else s);
        dir_name = (if m_currentDirName s = [] then cstr ''/'' else m_currentDirName s)
    in do {
      t \<leftarrow> printf (cstr ''['') [] (set_white t);
      t \<leftarrow> printf (cstr ''kernel'') [] (set_gray t);
      t \<leftarrow> printf (cstr '' '') [] (set_white t);
      t \<leftarrow> printf (cstr ''%s'') [Str (Some dir_name)] (set_gray t);
      t \<leftarrow> printf (cstr '']'') [] (set_white t);
      t \<leftarrow> printf (cstr ''$'') [] (set_gray t);
      t \<leftarrow> printf (cstr '' '') [] (reset_color t);
      Some (t, s)
    })"

section \<open>Plain text\<close>

text \<open>A text without a percent sign is printed as it is.\<close>

lemma format_loop_plain: "37 \<notin> set fmt \<Longrightarrow> format_loop pf pr fmt as = Some (fmt, int (length fmt))"
  by (induction fmt) auto

lemma printf_plain: "37 \<notin> set fmt \<Longrightarrow> printf fmt args t = Some (put_text fmt t)"
  by (simp add: printf_def vprintf_def format_loop_plain)

lemma printf_string: "37 \<notin> set bs \<Longrightarrow> printf (cstr ''%s'') [Str (Some bs)] t = Some (put_text bs t)"
proof -
  assume p: "37 \<notin> set bs"
  have c: "cstr ''%s'' = [37, 115]" by code_simp
  have s: "parse_spec [115] = (\<lparr>f_width = 0, f_pad_zero = False, f_left = False, f_precision = -1, f_size_t = False, f_long = False, f_long_long = False\<rparr>, [115])"
    by code_simp
  show ?thesis unfolding c
    by (simp add: printf_def vprintf_def s convert_def arg_str_def print_str_def format_loop_plain [OF p])
qed

abbreviation gray_on_black :: u8 where
  "gray_on_black \<equiv> vga_color VGA_COLOR_LIGHT_GREY VGA_COLOR_BLACK"

lemma set_color_displays [simp]:
  "displays L (set_color fg t) = displays L t" "terminal_color (set_color fg t) = vga_color fg VGA_COLOR_BLACK"
  by (simp_all add: set_color_def displays_def laid_out_def cells_show_def cell_def cursor_address_def)

lemma put_text_colored:
  "displays L t \<Longrightarrow> displays (fold (type_char (vga_color fg VGA_COLOR_BLACK)) bs L) (put_text bs (set_color fg t))"
  using put_text_displays [of L "set_color fg t" bs] by simp

definition prompt_lines :: "bytes \<Rightarrow> u16 list list \<Rightarrow> u16 list list" where
  "prompt_lines dir L =
    (let W = (\<lambda>bs. fold (type_char white_on_black) bs); G = (\<lambda>bs. fold (type_char gray_on_black) bs)
     in W (cstr '' '') (G (cstr ''$'') (W (cstr '']'') (G dir (W (cstr '' '') (G (cstr ''kernel'') (W (cstr ''['') L)))))))"

text \<open>
  the prompt is \<^verbatim>\<open>[kernel dir]$\<close> and a space behind whatever the screen showed, with the words and the dollar sign in grey
  and the rest in white; printing goes on in white.
\<close>

theorem print_prompt_displays:
  assumes "displays L t" "m_currentDirName s \<noteq> []" "37 \<notin> set (m_currentDirName s)"
  shows "\<exists>t'. print_prompt (t, s) = Some (t', s) \<and> displays (prompt_lines (m_currentDirName s) L) t' \<and> terminal_color t' = white_on_black"
proof -
  let ?d = "m_currentDirName s"
  define t1 where "t1 = put_text (cstr ''['') (set_white t)"
  define t2 where "t2 = put_text (cstr ''kernel'') (set_gray t1)"
  define t3 where "t3 = put_text (cstr '' '') (set_white t2)"
  define t4 where "t4 = put_text ?d (set_gray t3)"
  define t5 where "t5 = put_text (cstr '']'') (set_white t4)"
  define t6 where "t6 = put_text (cstr ''$'') (set_gray t5)"
  define t7 where "t7 = put_text (cstr '' '') (reset_color t6)"
  have plain: "37 \<notin> set (cstr ''['')" "37 \<notin> set (cstr ''kernel'')" "37 \<notin> set (cstr '' '')" "37 \<notin> set (cstr '']'')" "37 \<notin> set (cstr ''$'')"
    by code_simp+
  have run: "print_prompt (t, s) = Some (t7, s)"
    using assms(2,3) by (simp add: print_prompt_def Let_def printf_plain [OF plain(1)] printf_plain [OF plain(2)] printf_plain [OF plain(3)]
      printf_plain [OF plain(4)] printf_plain [OF plain(5)] printf_string t1_def t2_def t3_def t4_def t5_def t6_def t7_def)
  note c = put_text_colored
  define G where "G = (\<lambda>bs. fold (type_char gray_on_black) bs)"
  define W where "W = (\<lambda>bs. fold (type_char white_on_black) bs)"
  have 1: "displays (W (cstr ''['') L) t1" unfolding t1_def set_white_def W_def by (rule c [OF assms(1)])
  have 2: "displays (G (cstr ''kernel'') (W (cstr ''['') L)) t2" unfolding t2_def set_gray_def G_def by (rule c [OF 1])
  have 3: "displays (W (cstr '' '') (G (cstr ''kernel'') (W (cstr ''['') L))) t3" unfolding t3_def set_white_def W_def by (rule c [OF 2 [unfolded W_def]])
  have 4: "displays (G ?d (W (cstr '' '') (G (cstr ''kernel'') (W (cstr ''['') L)))) t4" unfolding t4_def set_gray_def G_def by (rule c [OF 3 [unfolded G_def]])
  have 5: "displays (W (cstr '']'') (G ?d (W (cstr '' '') (G (cstr ''kernel'') (W (cstr ''['') L))))) t5"
    unfolding t5_def set_white_def W_def by (rule c [OF 4 [unfolded W_def]])
  have 6: "displays (G (cstr ''$'') (W (cstr '']'') (G ?d (W (cstr '' '') (G (cstr ''kernel'') (W (cstr ''['') L)))))) t6"
    unfolding t6_def set_gray_def G_def by (rule c [OF 5 [unfolded G_def]])
  have w5: "terminal_color t5 = white_on_black" using put_text_displays [of _ "set_white t4"] 4 unfolding t5_def set_white_def by simp
  have "shell_saved_color t6 = white_on_black" unfolding t6_def set_gray_def by (simp add: kept_put_text_fields set_color_def w5)
  then have r: "terminal_color (reset_color t6) = white_on_black" by (simp add: reset_color_def)
  have d6: "displays M (reset_color t6) = displays M t6" for M
    by (simp add: reset_color_def displays_def laid_out_def cells_show_def cell_def cursor_address_def)
  have "displays (W (cstr '' '') (G (cstr ''$'') (W (cstr '']'') (G ?d (W (cstr '' '') (G (cstr ''kernel'') (W (cstr ''['') L))))))) t7 \<and> terminal_color t7 = white_on_black"
    using put_text_displays [OF 6 [folded d6], of "cstr '' ''"] unfolding t7_def W_def r .
  then show ?thesis using run by (simp add: prompt_lines_def G_def W_def Let_def)
qed

theorem print_prompt_displays_witness:
  "\<forall>t s. \<exists>t'. print_prompt (terminal_initialize t, s\<lparr>m_currentDirName := [47]\<rparr>) = Some (t', s\<lparr>m_currentDirName := [47]\<rparr>) \<and>
     displays (prompt_lines [47] [[]]) t'"
proof (intro allI)
  fix t :: console and s :: fatfs
  show "\<exists>t'. print_prompt (terminal_initialize t, s\<lparr>m_currentDirName := [47]\<rparr>) = Some (t', s\<lparr>m_currentDirName := [47]\<rparr>) \<and>
     displays (prompt_lines [47] [[]]) t'"
    using print_prompt_displays [OF terminal_initialize_displays(1), of "s\<lparr>m_currentDirName := [47]\<rparr>" t] by auto
qed

end
