(* ===== verification/Editor.thy ===== *)
theory Editor
  imports Prompt
begin

text \<open>
  The text editor, \<open>shell/editor.cpp\<close>: the buffer with its cursor and selection, every key in the three modes, opening
  and saving a file, and drawing the screen.

  \<open>m_buffer\<close> gives the cells of the array; its size is \<open>MAX_BUFFER_SIZE\<close>. The
  \<open>size_t\<close> members are naturals and the places where the code can leave the range are written with the
  wrap-around of 64 bits: \<open>inc\<close>, \<open>dec\<close>, \<open>sub_wrap\<close>. An access outside the array is \<open>Buffer_Overrun\<close>, a status line longer than its array
  of 81 bytes is \<open>Status_Overflow\<close>; both are undefined behaviour. \<open>Volume_Failure\<close> stands for a file system call that
  does not return, \<open>Prompt_Failure\<close> for text that is printed as a format and asks for arguments.
\<close>

section \<open>State\<close>

datatype editor_mode = NORMAL | INSERT | VISUAL

datatype editor_error = Buffer_Overrun | Status_Overflow | Volume_Failure | Prompt_Failure

record editor =
  m_buffer :: "nat \<Rightarrow> u8"
  m_filename :: bytes
  m_buffer_size :: nat
  m_cursor_pos :: nat
  m_cursor_row :: nat
  m_cursor_col :: nat
  m_screen_row :: nat
  m_screen_col :: nat
  m_screen_offset :: nat
  m_active :: bool
  m_modified :: bool
  m_mode :: editor_mode
  m_has_selection :: bool
  m_selection_start_row :: nat
  m_selection_end_row :: nat

definition MAX_BUFFER_SIZE :: nat where "MAX_BUFFER_SIZE = 32768"
definition MAX_FILENAME_LENGTH :: nat where "MAX_FILENAME_LENGTH = 256"
definition STATUS_TEXT_COLOR :: u8 where "STATUS_TEXT_COLOR = 0xF0"
definition TEXT_COLOR :: u8 where "TEXT_COLOR = 0x0F"
definition LINE_NUMBER_CURRENT_COLOR :: u8 where "LINE_NUMBER_CURRENT_COLOR = 0x0F"
definition LINE_NUMBER_COLOR :: u8 where "LINE_NUMBER_COLOR = 0x08"
definition SELECTION_COLOR :: u8 where "SELECTION_COLOR = 0x70"
definition TERMINAL_WIDTH :: nat where "TERMINAL_WIDTH = 80"
definition TERMINAL_HEIGHT :: nat where "TERMINAL_HEIGHT = 25"
definition STATUS_LINE :: nat where "STATUS_LINE = TERMINAL_HEIGHT - 1"
definition LINE_NUMBER_WIDTH :: nat where "LINE_NUMBER_WIDTH = 3"

lemmas editor_defs = MAX_BUFFER_SIZE_def MAX_FILENAME_LENGTH_def TERMINAL_WIDTH_def TERMINAL_HEIGHT_def STATUS_LINE_def LINE_NUMBER_WIDTH_def

definition SIZE_MAX :: nat where "SIZE_MAX = 18446744073709551615"
definition inc :: "nat \<Rightarrow> nat" where "inc a = (a + 1) mod (SIZE_MAX + 1)"
definition dec :: "nat \<Rightarrow> nat" where "dec a = (a + SIZE_MAX) mod (SIZE_MAX + 1)"
definition sub_wrap :: "nat \<Rightarrow> nat \<Rightarrow> nat" where "sub_wrap a b = (a + (SIZE_MAX + 1 - b)) mod (SIZE_MAX + 1)"

definition bind_ok :: "'e + 'a \<Rightarrow> ('a \<Rightarrow> 'e + 'b) \<Rightarrow> 'e + 'b" where
  "bind_ok r f = (case r of Inl e \<Rightarrow> Inl e | Inr x \<Rightarrow> f x)"

definition need :: "'e \<Rightarrow> 'a option \<Rightarrow> 'e + 'a" where
  "need e r = (case r of None \<Rightarrow> Inl e | Some x \<Rightarrow> Inr x)"

definition is_ctrl_key :: "u8 \<Rightarrow> u8 \<Rightarrow> bool" where
  "is_ctrl_key c key \<longleftrightarrow> c = key AND 0x1F"

text \<open>The bytes in use. The loops over them are recursions on this list.\<close>

definition text_of :: "editor \<Rightarrow> bytes" where
  "text_of e = map (m_buffer e) [0..<m_buffer_size e]"

section \<open>Lines\<close>

fun line_scan :: "nat \<Rightarrow> nat \<Rightarrow> bytes \<Rightarrow> nat" where
  "line_scan row current_row [] = SIZE_MAX"
| "line_scan row current_row (c # cs) =
     (if current_row = row then length (takeWhile (\<lambda>c. c \<noteq> 10) (c # cs))
      else line_scan row (if c = 10 then current_row + 1 else current_row) cs)"

definition get_line_length :: "nat \<Rightarrow> editor \<Rightarrow> nat" where
  "get_line_length row e = line_scan row 0 (text_of e)"

fun cursor_scan :: "nat \<Rightarrow> nat \<Rightarrow> nat \<Rightarrow> nat \<Rightarrow> nat \<Rightarrow> bytes \<Rightarrow> nat" where
  "cursor_scan row col pos current_row current_col [] = pos"
| "cursor_scan row col pos current_row current_col (c # cs) =
     (if current_row = row \<and> current_col = col then pos
      else if c = 10 then cursor_scan row col (pos + 1) (current_row + 1) 0 cs
      else cursor_scan row col (pos + 1) current_row (current_col + 1) cs)"

definition update_cursor_pos :: "editor \<Rightarrow> editor" where
  "update_cursor_pos e = e\<lparr>m_cursor_pos := cursor_scan (m_cursor_row e) (m_cursor_col e) 0 0 0 (text_of e)\<rparr>"

text \<open>\<^verbatim>\<open>while (p > 0 && m_buffer[p - 1] != '\n') p--;\<close>\<close>

primrec line_start :: "(nat \<Rightarrow> u8) \<Rightarrow> nat \<Rightarrow> nat" where
  "line_start b 0 = 0"
| "line_start b (Suc p) = (if b p \<noteq> 10 then line_start b p else Suc p)"

section \<open>The buffer\<close>

definition get_char :: "nat \<Rightarrow> editor \<Rightarrow> editor_error + u8" where
  "get_char p e = (if p < MAX_BUFFER_SIZE then Inr (m_buffer e p) else Inl Buffer_Overrun)"

definition put_char :: "nat \<Rightarrow> u8 \<Rightarrow> editor \<Rightarrow> editor_error + editor" where
  "put_char p c e = (if p < MAX_BUFFER_SIZE then Inr (e\<lparr>m_buffer := (m_buffer e)(p := c)\<rparr>) else Inl Buffer_Overrun)"

text \<open>\<^verbatim>\<open>memmove(&m_buffer[dst], &m_buffer[src], n)\<close>\<close>

definition move_bytes :: "nat \<Rightarrow> nat \<Rightarrow> nat \<Rightarrow> editor \<Rightarrow> editor_error + editor" where
  "move_bytes dst src n e =
    (if dst + n \<le> MAX_BUFFER_SIZE \<and> src + n \<le> MAX_BUFFER_SIZE then
       Inr (e\<lparr>m_buffer := (\<lambda>i. if dst \<le> i \<and> i < dst + n then m_buffer e (src + (i - dst)) else m_buffer e i)\<rparr>)
     else Inl Buffer_Overrun)"

definition delete_char :: "editor \<Rightarrow> editor_error + editor" where
  "delete_char e =
    (if m_cursor_pos e \<ge> m_buffer_size e then Inr e
     else bind_ok (move_bytes (m_cursor_pos e) (m_cursor_pos e + 1) (m_buffer_size e - m_cursor_pos e) e)
       (\<lambda>e. Inr (e\<lparr>m_buffer_size := m_buffer_size e - 1, m_modified := True\<rparr>)))"

section \<open>Drawing\<close>

definition set_cursor_shape :: "u8 \<Rightarrow> u8 \<Rightarrow> console \<Rightarrow> console" where
  "set_cursor_shape first last_line t =
    (let t = write_crtc 0x0A ((crtc t 0x0A AND 0xC0) OR first) t
     in write_crtc 0x0B ((crtc t 0x0B AND 0xE0) OR last_line) t)"

definition mode_cursor :: "editor_mode \<Rightarrow> console \<Rightarrow> console" where
  "mode_cursor m t = (case m of INSERT \<Rightarrow> set_cursor_shape 14 15 t | VISUAL \<Rightarrow> set_cursor_shape 15 0 t | NORMAL \<Rightarrow> set_cursor_shape 0 15 t)"

definition editor_update_cursor :: "editor \<Rightarrow> console \<Rightarrow> console" where
  "editor_update_cursor e t =
    (if m_mode e = VISUAL then set_cursor_shape 15 0 t
     else let screen_y = sub_wrap (m_cursor_row e) (m_screen_row e);
              screen_x = (m_cursor_col e + LINE_NUMBER_WIDTH + 1) mod (SIZE_MAX + 1);
              screen_y = (if screen_y \<ge> TERMINAL_HEIGHT - 1 then TERMINAL_HEIGHT - 2 else screen_y);
              screen_x = (if screen_x \<ge> TERMINAL_WIDTH then TERMINAL_WIDTH - 1 else screen_x)
          in update_cursor_position screen_x screen_y t)"

definition is_line_selected :: "nat \<Rightarrow> editor \<Rightarrow> bool" where
  "is_line_selected row e \<longleftrightarrow> m_has_selection e \<and>
    (if m_selection_start_row e \<le> m_selection_end_row e
     then m_selection_start_row e \<le> row \<and> row \<le> m_selection_end_row e
     else m_selection_end_row e \<le> row \<and> row \<le> m_selection_start_row e)"

text \<open>The digits of a number, least significant first, by the do-while loops of the status line and the line numbers.\<close>

fun dec_digits :: "nat \<Rightarrow> bytes" where
  "dec_digits n = (48 + of_nat (n mod 10)) # (if n div 10 > 0 then dec_digits (n div 10) else [])"

declare dec_digits.simps [simp del]

lemma length_dec_digits: "n < 10 ^ k \<Longrightarrow> 0 < k \<Longrightarrow> length (dec_digits n) \<le> k"
proof (induction k arbitrary: n)
  case (Suc k)
  show ?case
  proof (cases "n div 10 > 0")
    case True
    have "n div 10 < 10 ^ k" using Suc.prems(1) by (simp add: less_mult_imp_div_less mult.commute)
    moreover have "0 < k" using True Suc.prems(1) by (cases k) auto
    ultimately show ?thesis using Suc.IH [of "n div 10"] by (subst dec_digits.simps) simp
  next
    case False
    then show ?thesis by (subst dec_digits.simps) simp
  qed
qed simp

definition put_at :: "u8 \<Rightarrow> u8 \<Rightarrow> nat \<Rightarrow> nat \<Rightarrow> console \<Rightarrow> console" where
  "put_at c color x y t = terminal_putchar_at c color (of_nat x) (of_nat y) t"

text \<open>
  The array that takes the digits of a row has 16 bytes; the message array 81. The text is put together first and checked
  once: each \<^verbatim>\<open>strcat\<close> makes it longer.
\<close>

definition status_number :: "editor \<Rightarrow> nat" where
  "status_number e =
    (if m_mode e = VISUAL \<and> m_has_selection e then
       if m_selection_start_row e \<le> m_selection_end_row e then m_selection_end_row e - m_selection_start_row e + 1
       else m_selection_start_row e - m_selection_end_row e + 1
     else inc (m_cursor_row e))"

definition status_text :: "editor \<Rightarrow> bytes" where
  "status_text e =
    cstr '' '' @ m_filename e @ cstr '' '' @ (if m_modified e then cstr ''[modified]'' else []) @ cstr '' '' @
    (case m_mode e of NORMAL \<Rightarrow> cstr ''[NORMAL]'' | INSERT \<Rightarrow> cstr ''[INSERT]'' | VISUAL \<Rightarrow> cstr ''[VISUAL]'') @
    (if m_mode e = VISUAL \<and> m_has_selection e then
       cstr '' | Selected: '' @ rev (dec_digits (status_number e)) @ cstr '' lines''
     else cstr '' | line: '' @ rev (dec_digits (status_number e))) @
    (case m_mode e of
       NORMAL \<Rightarrow> cstr '' | Ctrl-S: Save | Ctrl-Q: Quit''
     | VISUAL \<Rightarrow> cstr '' | Shift-J/K: Select | Esc: Exit selection''
     | INSERT \<Rightarrow> cstr '' | Esc: Normal mode'')"

definition draw_status :: "u8 \<Rightarrow> bytes \<Rightarrow> console \<Rightarrow> console" where
  "draw_status color status t =
     fold (\<lambda>i. put_at (if i < length status then status ! i else 32) color i STATUS_LINE) [0..<TERMINAL_WIDTH] t"

definition display_status_line :: "editor \<Rightarrow> console \<Rightarrow> editor_error + console" where
  "display_status_line e t =
    (if length (dec_digits (status_number e)) < 16 \<and> length (status_text e) < TERMINAL_WIDTH + 1 then
       Inr (editor_update_cursor e (draw_status STATUS_TEXT_COLOR (status_text e) t))
     else Inl Status_Overflow)"

text \<open>The offset of the first line on the screen.\<close>

fun first_visible :: "nat \<Rightarrow> nat \<Rightarrow> nat \<Rightarrow> bytes \<Rightarrow> nat" where
  "first_visible 0 i start cs = start"
| "first_visible (Suc r) i start [] = start"
| "first_visible (Suc r) i start (c # cs) =
     (if c = 10 then first_visible r (i + 1) (i + 1) cs else first_visible (Suc r) (i + 1) start cs)"

text \<open>Does the text from the first visible line on reach row \<open>y\<close>?\<close>

fun has_row :: "nat \<Rightarrow> bytes \<Rightarrow> bool" where
  "has_row 0 cs = (cs \<noteq> [])"
| "has_row (Suc y) [] = False"
| "has_row (Suc y) (c # cs) = has_row (if c = 10 then y else Suc y) cs"

definition draw_line_number :: "editor \<Rightarrow> bytes \<Rightarrow> nat \<Rightarrow> console \<Rightarrow> console" where
  "draw_line_number e visible y t =
    (let abs_row = m_screen_row e + y;
         t = (if has_row y visible \<or> abs_row = m_cursor_row e then
                let color = (if abs_row = m_cursor_row e then LINE_NUMBER_CURRENT_COLOR else LINE_NUMBER_COLOR)
                in if abs_row < 999 then
                     let ds = dec_digits (abs_row + 1);
                         t = fold (\<lambda>i. put_at 32 color i y) [0..<LINE_NUMBER_WIDTH - length ds] t
                     in fold (\<lambda>i. put_at (ds ! i) color (LINE_NUMBER_WIDTH - i - 1) y) [0..<length ds] t
                   else t
              else fold (\<lambda>i. put_at 32 TEXT_COLOR i y) [0..<LINE_NUMBER_WIDTH] t)
     in put_at 32 TEXT_COLOR LINE_NUMBER_WIDTH y t)"

definition fill_row :: "nat \<Rightarrow> nat \<Rightarrow> console \<Rightarrow> console" where
  "fill_row col row t = fold (\<lambda>x. put_at 32 TEXT_COLOR x row) [col..<TERMINAL_WIDTH] t"

fun draw_text :: "editor \<Rightarrow> bytes \<Rightarrow> nat \<Rightarrow> nat \<Rightarrow> nat \<Rightarrow> console \<Rightarrow> nat \<times> nat \<times> console" where
  "draw_text e [] col row abs_row t = (col, row, t)"
| "draw_text e (c # cs) col row abs_row t =
    (if row < TERMINAL_HEIGHT - 1 then
       if c = 10 then draw_text e cs (LINE_NUMBER_WIDTH + 1) (row + 1) (abs_row + 1) (fill_row col row t)
       else let t = put_at c (if is_line_selected abs_row e then SELECTION_COLOR else TEXT_COLOR) col row t
            in if col + 1 \<ge> TERMINAL_WIDTH then draw_text e cs (LINE_NUMBER_WIDTH + 1) (row + 1) abs_row t
               else draw_text e cs (col + 1) row abs_row t
     else (col, row, t))"

definition fill_rest :: "nat \<Rightarrow> nat \<Rightarrow> console \<Rightarrow> console" where
  "fill_rest col row t =
    (if row < TERMINAL_HEIGHT - 1
     then fold (\<lambda>y. fill_row (LINE_NUMBER_WIDTH + 1) y) [row + 1..<TERMINAL_HEIGHT - 1] (fill_row col row t) else t)"

definition render :: "editor \<Rightarrow> console \<Rightarrow> editor_error + console" where
  "render e t =
    (if \<not> m_active e then Inr t
     else
       let t = fold (\<lambda>y. fold (\<lambda>x. put_at 32 TEXT_COLOR x y) [0..<TERMINAL_WIDTH]) [0..<TERMINAL_HEIGHT] t;
           t = t\<lparr>terminal_row := 0, terminal_column := 0\<rparr>;
           visible = drop (first_visible (m_screen_row e) 0 0 (text_of e)) (text_of e);
           t = fold (draw_line_number e visible) [0..<TERMINAL_HEIGHT - 1] t;
           (col, row, t) = draw_text e visible (LINE_NUMBER_WIDTH + 1) 0 (m_screen_row e) t;
           t = fill_rest col row t
       in bind_ok (display_status_line e t) (\<lambda>t. Inr (editor_update_cursor e (mode_cursor (m_mode e) t))))"

section \<open>Opening, saving, closing\<close>

type_synonym desk = "editor \<times> console \<times> fatfs"

definition draw :: "editor \<Rightarrow> console \<Rightarrow> fatfs \<Rightarrow> editor_error + desk" where
  "draw e t s = bind_ok (render e t) (\<lambda>t. Inr (e, t, s))"

text \<open>
  Opening takes over the name before it looks at the file. A read that fails leaves part of the new buffer
  as the heap left it: \<open>junk\<close>.
\<close>

definition editor_open :: "(nat \<Rightarrow> u8) \<Rightarrow> bytes option \<Rightarrow> desk \<Rightarrow> editor_error + (bool \<times> desk)" where
  "editor_open junk filename = (\<lambda>(e, t, s).
    case filename of
      None \<Rightarrow> Inr (False, e, t, s)
    | Some [] \<Rightarrow> Inr (False, e, t, s)
    | Some name \<Rightarrow>
        let e = e\<lparr>m_filename := take (MAX_FILENAME_LENGTH - 1) name\<rparr>;
            start = (\<lambda>e. let e = e\<lparr>m_cursor_pos := 0, m_cursor_row := 0, m_cursor_col := 0, m_screen_row := 0, m_screen_col := 0,
                               m_screen_offset := 0, m_active := True, m_modified := False, m_mode := NORMAL\<rparr>
                         in bind_ok (draw e (set_cursor_shape 0 15 (terminal_clear t)) s) (\<lambda>d. Inr (True, d)))
        in bind_ok (need Volume_Failure (findFile name s)) (\<lambda>found.
             case found of
               None \<Rightarrow> start (e\<lparr>m_buffer_size := 0, m_buffer := (m_buffer e)(0 := 0)\<rparr>)
             | Some (cluster, sz, attributes) \<Rightarrow>
                 if attributes AND 0x10 \<noteq> 0 then Inr (False, e, t, s)
                 else if unat sz \<ge> MAX_BUFFER_SIZE then Inr (False, e, t, s)
                 else bind_ok (if unat sz > 0 then need Volume_Failure (readFile cluster (unat sz) s) else Inr []) (\<lambda>data.
                   let n = unat sz;
                       b = (\<lambda>i. if i < n then (if i < length data then data ! i else junk i) else if i = n then 0 else m_buffer e i)
                   in start (e\<lparr>m_buffer_size := n, m_buffer := b\<rparr>))))"

primrec strip_newlines :: "(nat \<Rightarrow> u8) \<Rightarrow> nat \<Rightarrow> nat" where
  "strip_newlines b 0 = 0"
| "strip_newlines b (Suc n) = (if b n = 10 then strip_newlines b n else Suc n)"

definition write_back :: "u32 \<Rightarrow> desk \<Rightarrow> editor_error + (bool \<times> desk)" where
  "write_back cluster = (\<lambda>(e, t, s).
     bind_ok (need Volume_Failure (writeFile cluster (m_buffer e) (m_buffer_size e) s)) (\<lambda>(ok, s).
       if \<not> ok then Inr (False, e, t, s)
       else bind_ok (need Volume_Failure (updateFileSize (m_filename e) (of_nat (m_buffer_size e)) s)) (\<lambda>(ok, s).
         if \<not> ok then Inr (False, e, t, s)
         else let e = e\<lparr>m_modified := False\<rparr>;
                  e = (if m_cursor_pos e > m_buffer_size e then update_cursor_pos (e\<lparr>m_cursor_pos := m_buffer_size e\<rparr>) else e)
              in bind_ok (draw e t s) (\<lambda>d. Inr (True, d)))))"

definition editor_save :: "desk \<Rightarrow> editor_error + (bool \<times> desk)" where
  "editor_save = (\<lambda>(e, t, s).
    if \<not> m_active e then Inr (False, e, t, s)
    else
      let e = e\<lparr>m_buffer_size := strip_newlines (m_buffer e) (m_buffer_size e)\<rparr>
      in bind_ok (need Volume_Failure (findFile (m_filename e) s)) (\<lambda>found.
           case found of
             Some (cluster, _, _) \<Rightarrow> write_back cluster (e, t, s)
           | None \<Rightarrow>
               bind_ok (need Volume_Failure (createFile (m_filename e) 0 s)) (\<lambda>(created, s).
                 if \<not> created then Inr (False, e, t, s)
                 else bind_ok (need Volume_Failure (findFile (m_filename e) s)) (\<lambda>found.
                   case found of None \<Rightarrow> Inr (False, e, t, s) | Some (cluster, _, _) \<Rightarrow> write_back cluster (e, t, s)))))"

definition editor_close :: "desk \<Rightarrow> editor_error + desk" where
  "editor_close = (\<lambda>(e, t, s).
    if \<not> m_active e then Inr (e, t, s)
    else
      let t = screen_restore (set_cursor_shape 14 15 t);
          e = e\<lparr>m_active := False, m_buffer_size := 0, m_cursor_pos := 0, m_cursor_row := 0, m_cursor_col := 0, m_screen_row := 0,
                m_screen_col := 0, m_screen_offset := 0, m_mode := NORMAL, m_filename := [], m_modified := False\<rparr>
      in bind_ok (need Prompt_Failure (print_prompt (t, s))) (\<lambda>(t, s). Inr (e, t, s)))"

section \<open>Modes\<close>

definition switch_to_visual_mode :: "desk \<Rightarrow> editor_error + desk" where
  "switch_to_visual_mode = (\<lambda>(e, t, s).
     draw (e\<lparr>m_mode := VISUAL, m_has_selection := True, m_selection_start_row := m_cursor_row e, m_selection_end_row := m_cursor_row e\<rparr>)
       (set_cursor_shape 15 0 t) s)"

definition switch_to_normal_mode :: "desk \<Rightarrow> editor_error + desk" where
  "switch_to_normal_mode = (\<lambda>(e, t, s). draw (e\<lparr>m_mode := NORMAL, m_has_selection := False\<rparr>) (set_cursor_shape 0 15 t) s)"

definition switch_to_insert_mode :: "desk \<Rightarrow> editor_error + desk" where
  "switch_to_insert_mode = (\<lambda>(e, t, s). draw (e\<lparr>m_mode := INSERT, m_has_selection := False\<rparr>) (set_cursor_shape 14 15 t) s)"

section \<open>Keys\<close>

text \<open>
  Moving to the line above or below; \<open>select\<close> carries the end of the selection along.
\<close>

definition scroll_down :: "editor \<Rightarrow> editor" where
  "scroll_down e = (if m_cursor_row e \<ge> m_screen_row e + TERMINAL_HEIGHT - 1
     then e\<lparr>m_screen_row := m_cursor_row e + 2 - TERMINAL_HEIGHT\<rparr> else e)"

definition cursor_to_line :: "nat \<Rightarrow> nat \<Rightarrow> editor \<Rightarrow> editor" where
  "cursor_to_line row len e =
     update_cursor_pos (e\<lparr>m_cursor_row := row, m_cursor_col := (if m_cursor_col e > len then len else m_cursor_col e)\<rparr>)"

definition line_up :: "bool \<Rightarrow> desk \<Rightarrow> editor_error + desk" where
  "line_up select = (\<lambda>(e, t, s).
    if m_cursor_row e > 0 then
      let prev_line_length = get_line_length (m_cursor_row e - 1) e
      in if prev_line_length \<noteq> SIZE_MAX then
           let e = cursor_to_line (m_cursor_row e - 1) prev_line_length e;
               e = (if select then e\<lparr>m_selection_end_row := m_cursor_row e\<rparr> else e);
               e = (if m_cursor_row e < m_screen_row e then e\<lparr>m_screen_row := m_cursor_row e\<rparr> else e)
           in draw e t s
         else Inr (e, t, s)
    else Inr (e, t, s))"

definition line_down :: "bool \<Rightarrow> desk \<Rightarrow> editor_error + desk" where
  "line_down select = (\<lambda>(e, t, s).
    let next_line_length = get_line_length (inc (m_cursor_row e)) e
    in if next_line_length \<noteq> SIZE_MAX then
         let e = cursor_to_line (inc (m_cursor_row e)) next_line_length e;
             e = (if select then e\<lparr>m_selection_end_row := m_cursor_row e\<rparr> else e)
         in draw (scroll_down e) t s
       else Inr (e, t, s))"

definition save_key :: "desk \<Rightarrow> editor_error + desk" where
  "save_key d =
    bind_ok (editor_save d) (\<lambda>(ok, e, t, s).
      if ok then bind_ok (display_status_line e t) (\<lambda>t. Inr (e, t, s))
      else Inr (e, editor_update_cursor e (draw_status 0x4F (cstr ''ERROR: Failed to save file'') t), s))"

definition normal_key :: "u8 \<Rightarrow> desk \<Rightarrow> editor_error + desk" where
  "normal_key c = (\<lambda>(e, t, s).
    if c = 105 \<or> c = 97 then switch_to_insert_mode (e, t, s)
    else if c = 115 then
      bind_ok (if m_cursor_pos e < m_buffer_size e
               then bind_ok (delete_char e) (\<lambda>e. Inr (e\<lparr>m_modified := True\<rparr>)) else Inr e)
        (\<lambda>e. switch_to_insert_mode (e, t, s))
    else if c = 74 \<or> c = 75 then switch_to_visual_mode (e, t, s)
    else if is_ctrl_key c 83 then save_key (e, t, s)
    else if is_ctrl_key c 81 then editor_close (e, t, s)
    else if c = 104 \<and> m_cursor_col e > 0 then
      draw (e\<lparr>m_cursor_col := m_cursor_col e - 1, m_cursor_pos := dec (m_cursor_pos e)\<rparr>) t s
    else if c = 108 \<and> m_cursor_col e < get_line_length (m_cursor_row e) e then
      draw (e\<lparr>m_cursor_col := inc (m_cursor_col e), m_cursor_pos := inc (m_cursor_pos e)\<rparr>) t s
    else if c = 107 \<and> m_cursor_row e > 0 then line_up False (e, t, s)
    else if c = 106 then line_down False (e, t, s)
    else Inr (e, t, s))"

text \<open>The offset behind the last newline in front of \<open>p\<close>, by the forward loop of the backspace key.\<close>

definition last_line_start :: "(nat \<Rightarrow> u8) \<Rightarrow> nat \<Rightarrow> nat" where
  "last_line_start b p = fold (\<lambda>i start. if b i = 10 then Suc i else start) [0..<p] 0"

definition backspace_key :: "desk \<Rightarrow> editor_error + desk" where
  "backspace_key = (\<lambda>(e, t, s).
    bind_ok (get_char (m_cursor_pos e - 1) e) (\<lambda>ch.
    bind_ok (move_bytes (m_cursor_pos e - 1) (m_cursor_pos e) (sub_wrap (m_buffer_size e) (m_cursor_pos e)) e) (\<lambda>e.
      let e = e\<lparr>m_buffer_size := dec (m_buffer_size e), m_cursor_pos := m_cursor_pos e - 1\<rparr>;
          e = (if ch = 10 then
                 let e = e\<lparr>m_cursor_row := dec (m_cursor_row e)\<rparr>
                 in e\<lparr>m_cursor_col := m_cursor_pos e - last_line_start (m_buffer e) (m_cursor_pos e)\<rparr>
               else if m_cursor_col e > 0 then e\<lparr>m_cursor_col := m_cursor_col e - 1\<rparr> else e)
      in draw (e\<lparr>m_modified := True\<rparr>) t s)))"

definition insert_byte :: "u8 \<Rightarrow> editor \<Rightarrow> editor_error + editor" where
  "insert_byte c e =
    bind_ok (move_bytes (inc (m_cursor_pos e)) (m_cursor_pos e) (sub_wrap (m_buffer_size e) (m_cursor_pos e)) e) (\<lambda>e.
    bind_ok (put_char (m_cursor_pos e) c e) (\<lambda>e.
      Inr (e\<lparr>m_buffer_size := m_buffer_size e + 1, m_cursor_pos := inc (m_cursor_pos e)\<rparr>)))"

definition insert_key :: "u8 \<Rightarrow> desk \<Rightarrow> editor_error + desk" where
  "insert_key c = (\<lambda>(e, t, s).
    if is_ctrl_key c 83 then Inr (e, t, s)
    else if is_ctrl_key c 81 then Inr (e, t, s)
    else if c = 8 \<and> m_cursor_pos e > 0 then backspace_key (e, t, s)
    else if 32 \<le> c \<and> c < 127 \<and> m_buffer_size e < MAX_BUFFER_SIZE - 1 then
      bind_ok (insert_byte c e) (\<lambda>e. draw (e\<lparr>m_cursor_col := inc (m_cursor_col e), m_modified := True\<rparr>) t s)
    else if (c = 13 \<or> c = 10) \<and> m_buffer_size e < MAX_BUFFER_SIZE - 1 then
      bind_ok (insert_byte 10 e) (\<lambda>e.
        draw (scroll_down (e\<lparr>m_cursor_row := inc (m_cursor_row e), m_cursor_col := 0, m_modified := True\<rparr>)) t s)
    else Inr (e, t, s))"

text \<open>The start of the selection: \<open>n\<close> lines are skipped; then the end, in front of the newline of the last line.\<close>

fun skip_lines :: "nat \<Rightarrow> nat \<Rightarrow> bytes \<Rightarrow> nat" where
  "skip_lines 0 pos cs = pos"
| "skip_lines (Suc n) pos [] = pos"
| "skip_lines (Suc n) pos (c # cs) = skip_lines (if c = 10 then n else Suc n) (pos + 1) cs"

fun selection_end :: "nat \<Rightarrow> nat \<Rightarrow> nat \<Rightarrow> bytes \<Rightarrow> nat" where
  "selection_end current_row end_row pos [] = pos"
| "selection_end current_row end_row pos (c # cs) =
     (if current_row \<le> end_row then
        if c = 10 then (if current_row + 1 > end_row then pos else selection_end (current_row + 1) end_row (pos + 1) cs)
        else selection_end current_row end_row (pos + 1) cs
      else pos)"

definition delete_selection :: "editor \<Rightarrow> editor_error + editor" where
  "delete_selection e =
    (let start_row = min (m_selection_start_row e) (m_selection_end_row e);
         end_row = max (m_selection_start_row e) (m_selection_end_row e);
         start_pos = line_start (m_buffer e) (skip_lines start_row 0 (text_of e));
         end_pos = selection_end start_row end_row start_pos (drop start_pos (text_of e))
     in if end_pos > start_pos then
          bind_ok (move_bytes start_pos end_pos (m_buffer_size e - end_pos) e) (\<lambda>e.
            let e = e\<lparr>m_buffer_size := m_buffer_size e - (end_pos - start_pos), m_cursor_pos := start_pos, m_cursor_row := start_row\<rparr>
            in Inr (e\<lparr>m_cursor_col := m_cursor_pos e - line_start (m_buffer e) start_pos, m_modified := True\<rparr>))
        else Inr e)"

definition visual_key :: "u8 \<Rightarrow> desk \<Rightarrow> editor_error + desk" where
  "visual_key c = (\<lambda>(e, t, s).
    if c = 97 then switch_to_insert_mode (e, t, s)
    else if c = 115 then bind_ok (delete_selection e) (\<lambda>e. switch_to_insert_mode (e, t, s))
    else if c = 74 then line_down True (e, t, s)
    else if c = 75 then line_up True (e, t, s)
    else Inr (e, t, s))"

definition editor_process_keypress :: "u8 \<Rightarrow> desk \<Rightarrow> editor_error + desk" where
  "editor_process_keypress c = (\<lambda>(e, t, s).
    if \<not> m_active e then Inr (e, t, s)
    else if c = 0x1B then switch_to_normal_mode (e, t, s)
    else case m_mode e of
      NORMAL \<Rightarrow> normal_key c (e, t, s)
    | INSERT \<Rightarrow> insert_key c (e, t, s)
    | VISUAL \<Rightarrow> visual_key c (e, t, s))"

section \<open>Movements without a key\<close>

text \<open>
  Private operations of the class that no key reaches; they keep the window on the cursor themselves. The second
  part of the result of \<open>update_screen_position\<close> is the console.
\<close>

definition update_screen_position :: "editor \<times> console \<Rightarrow> editor \<times> console" where
  "update_screen_position = (\<lambda>(e, t).
    let e = (if m_cursor_row e < m_screen_row e then e\<lparr>m_screen_row := m_cursor_row e\<rparr> else scroll_down e);
        e = e\<lparr>m_screen_col := (if m_cursor_col e \<ge> TERMINAL_WIDTH then TERMINAL_WIDTH - 1 else m_cursor_col e)\<rparr>
    in (e, editor_update_cursor e t))"

definition move_cursor_left :: "editor \<times> console \<Rightarrow> editor_error + (editor \<times> console)" where
  "move_cursor_left = (\<lambda>(e, t).
    if m_cursor_pos e > 0 then
      let e = e\<lparr>m_cursor_pos := m_cursor_pos e - 1\<rparr>
      in bind_ok (get_char (m_cursor_pos e) e) (\<lambda>ch.
           let e = (if ch = 10 then e\<lparr>m_cursor_row := dec (m_cursor_row e),
                        m_cursor_col := m_cursor_pos e - line_start (m_buffer e) (m_cursor_pos e)\<rparr>
                    else e\<lparr>m_cursor_col := dec (m_cursor_col e)\<rparr>)
           in Inr (update_screen_position (e, t)))
    else Inr (e, t))"

definition move_cursor_right :: "editor \<times> console \<Rightarrow> editor_error + (editor \<times> console)" where
  "move_cursor_right = (\<lambda>(e, t).
    if m_cursor_pos e < m_buffer_size e then
      bind_ok (get_char (m_cursor_pos e) e) (\<lambda>ch.
        let e = (if ch = 10 then e\<lparr>m_cursor_row := inc (m_cursor_row e), m_cursor_col := 0\<rparr> else e\<lparr>m_cursor_col := inc (m_cursor_col e)\<rparr>)
        in Inr (update_screen_position (e\<lparr>m_cursor_pos := m_cursor_pos e + 1\<rparr>, t)))
    else Inr (e, t))"

definition move_cursor_up :: "editor \<times> console \<Rightarrow> editor \<times> console" where
  "move_cursor_up = (\<lambda>(e, t).
    let start = line_start (m_buffer e) (m_cursor_pos e)
    in if start = 0 then (e, t)
       else let prev_line_start = line_start (m_buffer e) (start - 1);
                prev_line_length = start - prev_line_start - 1;
                target_col = (if m_cursor_col e > prev_line_length then prev_line_length else m_cursor_col e)
            in update_screen_position (e\<lparr>m_cursor_pos := prev_line_start + target_col, m_cursor_row := dec (m_cursor_row e),
                 m_cursor_col := target_col\<rparr>, t))"

definition line_end :: "nat \<Rightarrow> editor \<Rightarrow> nat" where
  "line_end p e = p + length (takeWhile (\<lambda>c. c \<noteq> 10) (drop p (text_of e)))"

definition move_cursor_down :: "editor \<times> console \<Rightarrow> editor \<times> console" where
  "move_cursor_down = (\<lambda>(e, t).
    let last_pos = line_end (m_cursor_pos e) e
    in if last_pos \<ge> m_buffer_size e then (e, t)
       else let next_line_start = last_pos + 1;
                next_line_length = line_end next_line_start e - next_line_start;
                target_col = (if m_cursor_col e > next_line_length then next_line_length else m_cursor_col e)
            in update_screen_position (e\<lparr>m_cursor_pos := next_line_start + target_col, m_cursor_row := inc (m_cursor_row e),
                 m_cursor_col := target_col\<rparr>, t))"

definition insert_char :: "u8 \<Rightarrow> editor \<times> console \<Rightarrow> editor_error + (editor \<times> console)" where
  "insert_char c = (\<lambda>(e, t).
    if m_buffer_size e \<ge> MAX_BUFFER_SIZE - 1 then Inr (e, t)
    else bind_ok (move_bytes (inc (m_cursor_pos e)) (m_cursor_pos e) (inc (sub_wrap (m_buffer_size e) (m_cursor_pos e))) e) (\<lambda>e.
         bind_ok (put_char (m_cursor_pos e) c e) (\<lambda>e.
           let e = e\<lparr>m_buffer_size := m_buffer_size e + 1\<rparr>;
               e = (if c = 10 then e\<lparr>m_cursor_row := inc (m_cursor_row e), m_cursor_col := 0\<rparr> else e\<lparr>m_cursor_col := inc (m_cursor_col e)\<rparr>)
           in Inr (update_screen_position (e\<lparr>m_cursor_pos := inc (m_cursor_pos e), m_modified := True\<rparr>, t)))))"

definition editor_backspace :: "editor \<times> console \<Rightarrow> editor_error + (editor \<times> console)" where
  "editor_backspace = (\<lambda>(e, t).
    if m_cursor_pos e = 0 then Inr (e, t)
    else bind_ok (move_cursor_left (e, t)) (\<lambda>(e, t). bind_ok (delete_char e) (\<lambda>e. Inr (e, t))))"

section \<open>The command\<close>

definition cmd_edit :: "(nat \<Rightarrow> u8) \<Rightarrow> bytes option \<Rightarrow> desk \<Rightarrow> editor_error + desk" where
  "cmd_edit junk filename = (\<lambda>(e, t, s).
    if filename = None \<or> filename = Some [] then
      bind_ok (need Prompt_Failure (printf (cstr ''Usage: edit <filename>'' @ [10]) [] t)) (\<lambda>t.
      bind_ok (need Prompt_Failure (print_prompt (t, s))) (\<lambda>(t, s). Inr (e, t, s)))
    else
      let t = update_cursor ((screen_save t)\<lparr>terminal_row := 0, terminal_column := 0\<rparr>)
      in bind_ok (editor_open junk filename (e, t, s)) (\<lambda>(ok, e, t, s).
           if ok then Inr (e, t, s)
           else bind_ok (need Prompt_Failure (do {
                  t \<leftarrow> printf (cstr ''Failed to open file: '') [] (screen_restore t);
                  t \<leftarrow> printf (the filename) [] t;
                  t \<leftarrow> printf [10] [] t;
                  print_prompt (t, s)
                })) (\<lambda>(t, s). Inr (e, t, s))))"

end
