(* ===== verification/Editor_Proofs.thy ===== *)
theory Editor_Proofs
  imports Editor Fat_Directory_Proofs
begin

text \<open>
  Properties of the text editor. The reference for the loops over the buffer is the text split into lines;
  \<open>locate\<close> gives the row and column behind a prefix of the text. The invariant \<open>editor_ok\<close> says that the cursor is
  inside the text and that its row and column are those of its position.
\<close>

section \<open>Lines and positions\<close>

fun split_lines :: "bytes \<Rightarrow> bytes list" where
  "split_lines [] = [[]]"
| "split_lines (c # cs) = (if c = 10 then [] # split_lines cs else (c # hd (split_lines cs)) # tl (split_lines cs))"

fun step :: "u8 \<Rightarrow> nat \<times> nat \<Rightarrow> nat \<times> nat" where
  "step c (r, k) = (if c = 10 then (r + 1, 0) else (r, k + 1))"

definition locate :: "bytes \<Rightarrow> nat \<times> nat" where
  "locate xs = fold step xs (0, 0)"

definition offset :: "bytes list \<Rightarrow> nat \<Rightarrow> nat \<Rightarrow> nat" where
  "offset L r k = sum_list (map (\<lambda>l. length l + 1) (take r L)) + k"

lemma offset_simps [simp]: "offset L 0 k = k" "offset (l # L) (Suc r) k = length l + 1 + offset L r k"
  by (simp_all add: offset_def)

lemma split_lines_nonempty [simp]: "split_lines xs \<noteq> []"
  by (cases xs) auto

lemma split_lines_cons: "split_lines xs = hd (split_lines xs) # tl (split_lines xs)"
  by simp

lemma fold_step_increases:
  "fold step xs (r, k) = (r', k') \<Longrightarrow> r < r' \<or> (r = r' \<and> k' = k + length xs)"
proof (induction xs arbitrary: r k)
  case (Cons c xs)
  from Cons.prems have "fold step xs (step c (r, k)) = (r', k')" by simp
  then show ?case using Cons.IH [of "fst (step c (r, k))" "snd (step c (r, k))"] by (auto simp: split: if_splits)
qed simp

lemma fold_step_shift:
  "fold step xs (r, k) = (if fst (locate xs) = 0 then (r, k + snd (locate xs)) else (r + fst (locate xs), snd (locate xs)))"
proof (induction xs arbitrary: r k)
  case Nil
  show ?case by (simp add: locate_def)
next
  case (Cons c xs)
  show ?case
  proof (cases "c = 10")
    case True
    then show ?thesis using Cons [of "r + 1" 0] Cons [of 1 0] by (auto simp: locate_def)
  next
    case False
    then show ?thesis using Cons [of r "k + 1"] Cons [of 0 1] by (auto simp: locate_def)
  qed
qed

lemma locate_Nil [simp]: "locate [] = (0, 0)"
  by (simp add: locate_def)

lemma locate_Cons:
  "locate (c # xs) = (if c = 10 then (fst (locate xs) + 1, snd (locate xs))
     else if fst (locate xs) = 0 then (0, snd (locate xs) + 1) else locate xs)"
  using fold_step_shift [of xs 1 0] fold_step_shift [of xs 0 1] by (auto simp: locate_def)

lemma locate_snoc: "locate (xs @ [c]) = step c (locate xs)"
  by (simp add: locate_def)

text \<open>The row and column of a position are those of a place in the lines, and give the position back.\<close>

lemma locate_in_lines:
  assumes "p \<le> length xs" "locate (take p xs) = (r, k)"
  shows "r < length (split_lines xs) \<and> k \<le> length (split_lines xs ! r) \<and> offset (split_lines xs) r k = p"
  using assms
proof (induction xs arbitrary: p r k)
  case Nil
  then show ?case by simp
next
  case (Cons c cs)
  show ?case
  proof (cases p)
    case 0
    then show ?thesis using Cons.prems by (cases "c = 10") auto
  next
    case (Suc q)
    obtain r' k' where l: "locate (take q cs) = (r', k')" by fastforce
    then have ih: "r' < length (split_lines cs)" "k' \<le> length (split_lines cs ! r')" "offset (split_lines cs) r' k' = q"
      using Cons.IH [of q r' k'] Cons.prems(1) Suc by auto
    obtain h L where sl: "split_lines cs = h # L" using split_lines_cons by metis
    have rk: "(r, k) = (if c = 10 then (r' + 1, k') else if r' = 0 then (0, k' + 1) else (r', k'))"
      using Cons.prems(2) l unfolding Suc take_Suc_Cons locate_Cons by (auto split: if_splits)
    show ?thesis using rk Suc ih by (cases "c = 10"; cases r') (auto simp: sl)
  qed
qed

text \<open>Every place in the lines has a position.\<close>

lemma locate_offset:
  assumes "r < length (split_lines xs)" "k \<le> length (split_lines xs ! r)"
  shows "offset (split_lines xs) r k \<le> length xs \<and> locate (take (offset (split_lines xs) r k) xs) = (r, k)"
  using assms
proof (induction xs arbitrary: r k)
  case Nil
  then show ?case by simp
next
  case (Cons c cs)
  obtain h L where sl: "split_lines cs = h # L" using split_lines_cons by metis
  show ?case
  proof (cases "c = 10")
    case True
    then show ?thesis using Cons.prems Cons.IH [of "r - 1" k]
      by (cases r) (auto simp: sl locate_Cons)
  next
    case nl: False
    show ?thesis
    proof (cases r)
      case 0
      show ?thesis
      proof (cases k)
        case 0
        then show ?thesis using \<open>r = 0\<close> by simp
      next
        case (Suc j)
        then show ?thesis using \<open>r = 0\<close> nl Cons.prems Cons.IH [of 0 j] by (auto simp: sl locate_Cons)
      qed
    next
      case (Suc q)
      then show ?thesis using nl Cons.prems Cons.IH [of r k] by (auto simp: sl locate_Cons)
    qed
  qed
qed

lemma locate_inj:
  assumes "p \<le> length xs" "q \<le> length xs" "locate (take p xs) = locate (take q xs)"
  shows "p = q"
  using locate_in_lines [OF assms(1)] locate_in_lines [OF assms(2)] assms(3) by (metis prod.collapse)

lemma number_of_lines: "length (split_lines xs) = fst (locate xs) + 1"
  by (induction xs) (auto simp: locate_Cons)

section \<open>The loops over the text\<close>

text \<open>The scan for a row and a column finds their position.\<close>

lemma cursor_scan_finds:
  assumes "p \<le> length xs" "fold step (take p xs) (r, k) = (row, col)"
  shows "cursor_scan row col pos r k xs = pos + p"
  using assms
proof (induction xs arbitrary: p pos r k)
  case (Cons c cs)
  show ?case
  proof (cases p)
    case 0
    then show ?thesis using Cons.prems by simp
  next
    case (Suc q)
    have f: "fold step (take q cs) (step c (r, k)) = (row, col)" using Cons.prems(2) Suc by simp
    have "\<not> (r = row \<and> k = col)" using fold_step_increases [OF Cons.prems(2)] Suc by auto
    then show ?thesis using f Suc Cons.prems(1) Cons.IH [of q "fst (step c (r, k))" "snd (step c (r, k))" "pos + 1"]
      by (cases "c = 10") auto
  qed
qed simp

lemma line_scan_lines:
  assumes "r \<le> row"
  shows "line_scan row r xs =
    (let L = split_lines xs; j = row - r
     in if j < length L \<and> \<not> (j = length L - 1 \<and> L ! j = []) then length (L ! j) else SIZE_MAX)"
  using assms
proof (induction xs arbitrary: r)
  case (Cons c cs)
  obtain h L where sl: "split_lines cs = h # L" using split_lines_cons by metis
  have hd: "takeWhile (\<lambda>c. c \<noteq> 10) xs = hd (split_lines xs)" for xs by (induction xs) auto
  show ?case
  proof (cases "r = row")
    case True
    then show ?thesis using hd [of cs] by (auto simp: Let_def sl)
  next
    case False
    then have "r < row" using Cons.prems by simp
    then obtain j where j: "row = Suc (r + j)" by (auto simp: less_iff_Suc_add)
    show ?thesis using Cons.IH [of "r + 1"] Cons.IH [of r] unfolding j by (cases "c = 10") (auto simp: Let_def sl nth_Cons')
  qed
qed (simp add: Let_def)

lemma get_line_length_lines:
  "get_line_length row e =
    (let L = split_lines (text_of e)
     in if row < length L \<and> \<not> (row = length L - 1 \<and> last L = []) then length (L ! row) else SIZE_MAX)"
  unfolding get_line_length_def line_scan_lines [OF le0] by (auto simp: Let_def last_conv_nth)

text \<open>
  the length of a line: the number of characters in front of its newline; for the last line when it is empty, and
  for a row behind it, the result is the greatest \<^verbatim>\<open>size_t\<close>.
\<close>

theorem get_line_length_correct:
  "get_line_length row e =
    (let L = split_lines (text_of e)
     in if row < length L \<and> \<not> (row = length L - 1 \<and> last L = []) then length (L ! row) else SIZE_MAX)"
  by (rule get_line_length_lines)

lemma length_text_of [simp]: "length (text_of e) = m_buffer_size e"
  by (simp add: text_of_def)

lemma nth_text_of [simp]: "i < m_buffer_size e \<Longrightarrow> text_of e ! i = m_buffer e i"
  by (simp add: text_of_def)

section \<open>Cutting the text at a place\<close>

lemma split_take_offset:
  assumes "r < length (split_lines xs)" "k \<le> length (split_lines xs ! r)"
  shows "split_lines (take (offset (split_lines xs) r k) xs) = take r (split_lines xs) @ [take k (split_lines xs ! r)] \<and>
    split_lines (drop (offset (split_lines xs) r k) xs) = drop k (split_lines xs ! r) # drop (r + 1) (split_lines xs)"
  using assms
proof (induction xs arbitrary: r k)
  case Nil
  then show ?case by simp
next
  case (Cons c cs)
  obtain h L where sl: "split_lines cs = h # L" using split_lines_cons by metis
  show ?case
  proof (cases "c = 10")
    case True
    then show ?thesis using Cons.prems Cons.IH [of "r - 1" k] by (cases r) (auto simp: sl)
  next
    case nl: False
    show ?thesis
    proof (cases r)
      case 0
      then show ?thesis using nl Cons.prems Cons.IH [of 0 "k - 1"] by (cases k) (auto simp: sl)
    next
      case (Suc q)
      then show ?thesis using nl Cons.prems Cons.IH [of r k] by (auto simp: sl)
    qed
  qed
qed

lemma split_append:
  "split_lines (xs @ ys) = butlast (split_lines xs) @ (last (split_lines xs) @ hd (split_lines ys)) # tl (split_lines ys)"
proof (induction xs)
  case (Cons c xs)
  obtain h L where "split_lines xs = h # L" using split_lines_cons by metis
  then show ?case using Cons by (cases L) auto
qed simp

lemma skip_lines_offset: "r < length (split_lines xs) \<Longrightarrow> skip_lines r pos xs = pos + offset (split_lines xs) r 0"
proof (induction xs arbitrary: r pos)
  case Nil
  then show ?case by simp
next
  case (Cons c cs)
  obtain h L where sl: "split_lines cs = h # L" using split_lines_cons by metis
  show ?case using Cons.prems Cons.IH [of "r - 1" "pos + 1"] Cons.IH [of r "pos + 1"]
    by (cases r; cases "c = 10") (auto simp: sl)
qed

lemma selection_end_offset:
  "n < length (split_lines xs) \<Longrightarrow> selection_end r (r + n) pos xs = pos + offset (split_lines xs) n (length (split_lines xs ! n))"
proof (induction xs arbitrary: r n pos)
  case Nil
  then show ?case by simp
next
  case (Cons c cs)
  obtain h L where sl: "split_lines cs = h # L" using split_lines_cons by metis
  show ?case
  proof (cases "c = 10")
    case True
    then show ?thesis using Cons.prems Cons.IH [of "n - 1" "r + 1" "pos + 1"] by (cases n) (auto simp: sl)
  next
    case False
    then show ?thesis using Cons.prems Cons.IH [of n r "pos + 1"] by (cases n) (auto simp: sl)
  qed
qed

lemma offset_add: "r + n < length L \<Longrightarrow> offset L (r + n) k = offset L r 0 + offset (drop r L) n k"
  by (simp add: offset_def take_add)

lemma take_text_of: "p \<le> m_buffer_size e \<Longrightarrow> take p (text_of e) = map (m_buffer e) [0..<p]"
  by (simp add: text_of_def take_map)

text \<open>The walk back to the start of the line goes back by the column.\<close>

lemma line_start_column: "line_start b p + snd (locate (map b [0..<p])) = p"
proof (induction p)
  case (Suc p)
  then show ?case by (cases "locate (map b [0..<p])") (simp add: locate_snoc)
qed simp

lemma last_line_start_eq: "last_line_start b p = line_start b p"
  unfolding last_line_start_def by (induction p) simp_all

section \<open>The invariant\<close>

definition cursor_ok :: "editor \<Rightarrow> bool" where
  "cursor_ok e \<longleftrightarrow> m_buffer_size e < MAX_BUFFER_SIZE \<and> m_cursor_pos e \<le> m_buffer_size e \<and>
     locate (take (m_cursor_pos e) (text_of e)) = (m_cursor_row e, m_cursor_col e)"

definition editor_ok :: "editor \<Rightarrow> bool" where
  "editor_ok e \<longleftrightarrow> cursor_ok e \<and>
     (m_mode e = VISUAL \<longrightarrow> m_selection_start_row e < length (split_lines (text_of e)) \<and> m_selection_end_row e = m_cursor_row e)"

lemma inc_small: "a < SIZE_MAX \<Longrightarrow> inc a = a + 1"
  by (simp add: inc_def)

lemma dec_small: "0 < a \<Longrightarrow> a \<le> SIZE_MAX \<Longrightarrow> dec a = a - 1"
proof -
  assume a: "0 < a" "a \<le> SIZE_MAX"
  then have "a + SIZE_MAX = (a - 1) + (SIZE_MAX + 1)" by simp
  then have "dec a = (a - 1) mod (SIZE_MAX + 1)" unfolding dec_def by (simp only: mod_add_self2)
  then show ?thesis using a by simp
qed

lemma sub_wrap_small: "b \<le> a \<Longrightarrow> a \<le> SIZE_MAX \<Longrightarrow> sub_wrap a b = a - b"
proof -
  assume a: "b \<le> a" "a \<le> SIZE_MAX"
  then have "a + (SIZE_MAX + 1 - b) = (a - b) + (SIZE_MAX + 1)" by simp
  then have "sub_wrap a b = (a - b) mod (SIZE_MAX + 1)" unfolding sub_wrap_def by (simp only: mod_add_self2)
  then show ?thesis using a by simp
qed

lemma locate_bound: "fst (locate xs) + snd (locate xs) \<le> length xs"
  by (induction xs) (auto simp: locate_Cons)

lemma cursor_ok_bounds:
  assumes "cursor_ok e"
  shows "m_cursor_pos e < SIZE_MAX" "m_cursor_row e < SIZE_MAX" "m_cursor_col e < SIZE_MAX" "m_buffer_size e < SIZE_MAX"
    "m_cursor_row e + m_cursor_col e \<le> m_cursor_pos e"
  using locate_bound [of "take (m_cursor_pos e) (text_of e)"] assms
  by (auto simp: cursor_ok_def SIZE_MAX_def MAX_BUFFER_SIZE_def)

lemma text_of_frame [simp]:
  "text_of (e\<lparr>m_cursor_pos := p\<rparr>) = text_of e" "text_of (e\<lparr>m_cursor_row := r\<rparr>) = text_of e" "text_of (e\<lparr>m_cursor_col := k\<rparr>) = text_of e"
  "text_of (e\<lparr>m_screen_row := w\<rparr>) = text_of e" "text_of (e\<lparr>m_modified := m\<rparr>) = text_of e" "text_of (e\<lparr>m_mode := md\<rparr>) = text_of e"
  "text_of (e\<lparr>m_has_selection := b\<rparr>) = text_of e" "text_of (e\<lparr>m_selection_start_row := a\<rparr>) = text_of e"
  "text_of (e\<lparr>m_selection_end_row := z\<rparr>) = text_of e"
  by (simp_all add: text_of_def)

lemma cursor_ok_frame [simp]:
  "cursor_ok (e\<lparr>m_screen_row := w\<rparr>) = cursor_ok e" "cursor_ok (e\<lparr>m_modified := m\<rparr>) = cursor_ok e" "cursor_ok (e\<lparr>m_mode := md\<rparr>) = cursor_ok e"
  "cursor_ok (e\<lparr>m_has_selection := b\<rparr>) = cursor_ok e" "cursor_ok (e\<lparr>m_selection_start_row := a\<rparr>) = cursor_ok e"
  "cursor_ok (e\<lparr>m_selection_end_row := z\<rparr>) = cursor_ok e"
  by (simp_all add: cursor_ok_def)

text \<open>Where the cursor is in the lines.\<close>

lemma cursor_ok_place:
  assumes "cursor_ok e"
  shows "m_cursor_row e < length (split_lines (text_of e))" "m_cursor_col e \<le> length (split_lines (text_of e) ! m_cursor_row e)"
    "offset (split_lines (text_of e)) (m_cursor_row e) (m_cursor_col e) = m_cursor_pos e"
  using locate_in_lines [of "m_cursor_pos e" "text_of e"] assms by (auto simp: cursor_ok_def)

lemma cursor_at_place:
  assumes "m_buffer_size e < MAX_BUFFER_SIZE" "r < length (split_lines (text_of e))" "k \<le> length (split_lines (text_of e) ! r)"
  shows "cursor_ok (e\<lparr>m_cursor_row := r, m_cursor_col := k, m_cursor_pos := offset (split_lines (text_of e)) r k\<rparr>)"
  using locate_offset [OF assms(2,3)] assms(1) by (simp add: cursor_ok_def)

lemma update_cursor_pos_place:
  assumes "m_cursor_row e < length (split_lines (text_of e))" "m_cursor_col e \<le> length (split_lines (text_of e) ! m_cursor_row e)"
  shows "update_cursor_pos e = e\<lparr>m_cursor_pos := offset (split_lines (text_of e)) (m_cursor_row e) (m_cursor_col e)\<rparr>"
  using locate_offset [OF assms] cursor_scan_finds [of "offset (split_lines (text_of e)) (m_cursor_row e) (m_cursor_col e)" "text_of e" 0 0 "m_cursor_row e" "m_cursor_col e" 0]
  by (simp add: update_cursor_pos_def locate_def)

lemma cursor_to_line_ok:
  assumes "cursor_ok e" "row < length (split_lines (text_of e))"
  defines "e' \<equiv> cursor_to_line row (length (split_lines (text_of e) ! row)) e"
  shows "cursor_ok e'" "m_cursor_row e' = row" "m_cursor_col e' = min (m_cursor_col e) (length (split_lines (text_of e) ! row))"
    "text_of e' = text_of e" "m_mode e' = m_mode e" "m_selection_start_row e' = m_selection_start_row e" "m_selection_end_row e' = m_selection_end_row e"
    "m_buffer_size e' = m_buffer_size e"
proof -
  let ?k = "min (m_cursor_col e) (length (split_lines (text_of e) ! row))"
  have e': "e' = e\<lparr>m_cursor_row := row, m_cursor_col := ?k, m_cursor_pos := offset (split_lines (text_of e)) row ?k\<rparr>"
    unfolding e'_def cursor_to_line_def by (subst update_cursor_pos_place) (use assms(2) in \<open>auto simp: min_def\<close>)
  show "cursor_ok e'" unfolding e' using cursor_at_place assms(1,2) by (simp add: cursor_ok_def)
  show "m_cursor_row e' = row" "m_cursor_col e' = ?k" "text_of e' = text_of e" "m_mode e' = m_mode e"
    "m_selection_start_row e' = m_selection_start_row e" "m_selection_end_row e' = m_selection_end_row e" "m_buffer_size e' = m_buffer_size e"
    by (simp_all add: e')
qed

lemma scroll_down_frame [simp]:
  "cursor_ok (scroll_down e) = cursor_ok e" "text_of (scroll_down e) = text_of e" "m_mode (scroll_down e) = m_mode e"
  "m_cursor_row (scroll_down e) = m_cursor_row e" "m_cursor_col (scroll_down e) = m_cursor_col e" "m_cursor_pos (scroll_down e) = m_cursor_pos e"
  "m_selection_start_row (scroll_down e) = m_selection_start_row e" "m_selection_end_row (scroll_down e) = m_selection_end_row e"
  by (simp_all add: scroll_down_def)

section \<open>Changing the text\<close>

lemma moved_text:
  assumes "a \<le> b" "b \<le> m_buffer_size e" "m_buffer_size e - b \<le> n"
  shows "map (\<lambda>i. if a \<le> i \<and> i < a + n then m_buffer e (b + (i - a)) else m_buffer e i) [0..<m_buffer_size e - (b - a)] =
    take a (text_of e) @ drop b (text_of e)"
proof (rule nth_equalityI)
  show "length (map (\<lambda>i. if a \<le> i \<and> i < a + n then m_buffer e (b + (i - a)) else m_buffer e i) [0..<m_buffer_size e - (b - a)]) =
    length (take a (text_of e) @ drop b (text_of e))" using assms by simp
next
  fix i assume i: "i < length (map (\<lambda>i. if a \<le> i \<and> i < a + n then m_buffer e (b + (i - a)) else m_buffer e i) [0..<m_buffer_size e - (b - a)])"
  then show "map (\<lambda>i. if a \<le> i \<and> i < a + n then m_buffer e (b + (i - a)) else m_buffer e i) [0..<m_buffer_size e - (b - a)] ! i =
    (take a (text_of e) @ drop b (text_of e)) ! i"
    using assms by (cases "i < a") (auto simp: nth_append)
qed

lemma move_bytes_text:
  assumes "a \<le> b" "b \<le> m_buffer_size e" "m_buffer_size e < MAX_BUFFER_SIZE" "m_buffer_size e - b \<le> n" "b + n \<le> MAX_BUFFER_SIZE"
  shows "\<exists>buf. move_bytes a b n e = Inr (e\<lparr>m_buffer := buf\<rparr>) \<and>
    text_of (e\<lparr>m_buffer := buf, m_buffer_size := m_buffer_size e - (b - a)\<rparr>) = take a (text_of e) @ drop b (text_of e)"
  using assms moved_text [OF assms(1,2,4)] by (auto simp: move_bytes_def text_of_def)

lemma insert_byte_text:
  assumes "cursor_ok e" "m_buffer_size e < MAX_BUFFER_SIZE - 1"
  shows "\<exists>buf. insert_byte c e = Inr (e\<lparr>m_buffer := buf, m_buffer_size := m_buffer_size e + 1, m_cursor_pos := m_cursor_pos e + 1\<rparr>) \<and>
    text_of (e\<lparr>m_buffer := buf, m_buffer_size := m_buffer_size e + 1\<rparr>) =
      take (m_cursor_pos e) (text_of e) @ c # drop (m_cursor_pos e) (text_of e)"
proof -
  let ?p = "m_cursor_pos e" and ?n = "m_buffer_size e - m_cursor_pos e"
  have p: "?p \<le> m_buffer_size e" using assms(1) by (simp add: cursor_ok_def)
  note b = cursor_ok_bounds [OF assms(1)]
  define buf where "buf = (\<lambda>i. if Suc ?p \<le> i \<and> i < Suc ?p + ?n then m_buffer e (?p + (i - Suc ?p)) else m_buffer e i)(?p := c)"
  have "insert_byte c e = Inr (e\<lparr>m_buffer := buf, m_buffer_size := m_buffer_size e + 1, m_cursor_pos := m_cursor_pos e + 1\<rparr>)"
    unfolding insert_byte_def inc_small [OF b(1)] sub_wrap_small [OF p less_imp_le [OF b(4)]]
    using p assms(2) by (simp add: move_bytes_def put_char_def bind_ok_def buf_def inc_small [OF b(1)])
  moreover have "map buf [0..<m_buffer_size e + 1] = take ?p (text_of e) @ c # drop ?p (text_of e)"
  proof (rule nth_equalityI)
    show "length (map buf [0..<m_buffer_size e + 1]) = length (take ?p (text_of e) @ c # drop ?p (text_of e))" using p by simp
    fix i assume "i < length (map buf [0..<m_buffer_size e + 1])"
    then show "map buf [0..<m_buffer_size e + 1] ! i = (take ?p (text_of e) @ c # drop ?p (text_of e)) ! i"
      using p by (cases "i < ?p"; cases "i = ?p") (auto simp: nth_append buf_def nth_Cons' simp del: upt_Suc)
  qed
  ultimately show ?thesis by (intro exI [of _ buf]) (simp add: text_of_def)
qed

lemma cursor_okI:
  assumes "text_of e' = take p xs @ ys" "p \<le> length xs" "p + length ys < MAX_BUFFER_SIZE" "m_cursor_pos e' = p"
    "locate (take p xs) = (m_cursor_row e', m_cursor_col e')"
  shows "cursor_ok e'"
proof -
  have "m_buffer_size e' = p + length ys" using arg_cong [OF assms(1), of length] assms(2) by simp
  then show ?thesis using assms by (simp add: cursor_ok_def)
qed

lemma delete_char_ok:
  assumes "cursor_ok e" "m_cursor_pos e < m_buffer_size e"
  shows "\<exists>e'. delete_char e = Inr e' \<and> cursor_ok e' \<and> m_cursor_pos e' = m_cursor_pos e \<and>
    text_of e' = take (m_cursor_pos e) (text_of e) @ drop (m_cursor_pos e + 1) (text_of e) \<and> m_modified e'"
proof -
  let ?p = "m_cursor_pos e"
  have s: "m_buffer_size e < MAX_BUFFER_SIZE" using assms(1) by (simp add: cursor_ok_def)
  obtain buf where b: "move_bytes ?p (?p + 1) (m_buffer_size e - ?p) e = Inr (e\<lparr>m_buffer := buf\<rparr>)"
    "text_of (e\<lparr>m_buffer := buf, m_buffer_size := m_buffer_size e - (?p + 1 - ?p)\<rparr>) = take ?p (text_of e) @ drop (?p + 1) (text_of e)"
    using move_bytes_text [of ?p "?p + 1" e "m_buffer_size e - ?p"] assms(2) s diff_le_mono2 [of ?p "?p + 1" "m_buffer_size e"] by auto
  let ?e = "e\<lparr>m_buffer := buf, m_buffer_size := m_buffer_size e - 1, m_modified := True\<rparr>"
  have t: "text_of ?e = take ?p (text_of e) @ drop (?p + 1) (text_of e)" using b(2) by simp
  moreover have "delete_char e = Inr ?e" using b(1) assms(2) by (simp add: delete_char_def bind_ok_def)
  moreover have "cursor_ok ?e"
    by (rule cursor_okI [OF t]) (use assms s in \<open>simp_all add: cursor_ok_def\<close>)
  ultimately show ?thesis by (intro exI [of _ ?e]) simp
qed

lemma locate_before:
  assumes "cursor_ok e" "m_cursor_pos e > 0"
  shows "step (m_buffer e (m_cursor_pos e - 1)) (locate (take (m_cursor_pos e - 1) (text_of e))) = (m_cursor_row e, m_cursor_col e)"
proof -
  have p: "m_cursor_pos e \<le> m_buffer_size e" "m_cursor_pos e = Suc (m_cursor_pos e - 1)" using assms by (auto simp: cursor_ok_def)
  have "take (m_cursor_pos e) (text_of e) = take (m_cursor_pos e - 1) (text_of e) @ [m_buffer e (m_cursor_pos e - 1)]"
    using p take_Suc_conv_app_nth [of "m_cursor_pos e - 1" "text_of e"] by simp
  then show ?thesis using assms(1) by (simp add: cursor_ok_def locate_snoc)
qed

lemma backspace_key_ok:
  assumes "cursor_ok e" "m_cursor_pos e > 0"
  shows "\<exists>e'. backspace_key (e, t, s) = draw e' t s \<and> cursor_ok e' \<and> m_cursor_pos e' = m_cursor_pos e - 1 \<and> m_mode e' = m_mode e \<and>
    text_of e' = take (m_cursor_pos e - 1) (text_of e) @ drop (m_cursor_pos e) (text_of e) \<and> m_modified e'"
proof -
  let ?p = "m_cursor_pos e - 1" and ?ch = "m_buffer e (m_cursor_pos e - 1)"
  have sz: "m_buffer_size e < MAX_BUFFER_SIZE" "m_cursor_pos e \<le> m_buffer_size e" using assms(1) by (simp_all add: cursor_ok_def)
  note b = cursor_ok_bounds [OF assms(1)] and lb = locate_before [OF assms]
  obtain r k where rk: "locate (take ?p (text_of e)) = (r, k)" by fastforce
  obtain buf where m: "move_bytes ?p (m_cursor_pos e) (m_buffer_size e - m_cursor_pos e) e = Inr (e\<lparr>m_buffer := buf\<rparr>)"
    "text_of (e\<lparr>m_buffer := buf, m_buffer_size := m_buffer_size e - (m_cursor_pos e - ?p)\<rparr>) = take ?p (text_of e) @ drop (m_cursor_pos e) (text_of e)"
    using move_bytes_text [of ?p "m_cursor_pos e" e "m_buffer_size e - m_cursor_pos e"] sz by auto
  have one: "m_cursor_pos e - ?p = 1" "?p < MAX_BUFFER_SIZE" using assms(2) sz by simp_all
  let ?e = "e\<lparr>m_buffer := buf, m_buffer_size := m_buffer_size e - 1, m_cursor_pos := ?p, m_cursor_row := r, m_cursor_col := k, m_modified := True\<rparr>"
  have t: "text_of ?e = take ?p (text_of e) @ drop (m_cursor_pos e) (text_of e)" using m(2) unfolding one(1) by (simp add: text_of_def)
  have ok: "cursor_ok ?e" by (rule cursor_okI [OF t]) (use sz assms(2) rk in simp_all)
  have col: "?p - last_line_start buf ?p = k"
  proof -
    have "map buf [0..<?p] = take ?p (text_of e)" using take_text_of [of ?p ?e] t sz by simp
    then show ?thesis using line_start_column [of buf ?p] rk by (simp add: last_line_start_eq)
  qed
  have "backspace_key (e, t, s) = draw ?e t s"
  proof (cases "?ch = 10")
    case True
    have "m_cursor_row e = r + 1" using lb rk True by simp
    then show ?thesis using True m(1) sz assms(2) b col one(2)
      by (simp add: backspace_key_def get_char_def bind_ok_def sub_wrap_small dec_small Let_def)
  next
    case False
    have "m_cursor_row e = r" "m_cursor_col e = k + 1" using lb rk False by simp_all
    then show ?thesis using False m(1) sz assms(2) b one(2)
      by (cases e) (simp add: backspace_key_def get_char_def bind_ok_def sub_wrap_small dec_small Let_def)
  qed
  then show ?thesis using ok t by (intro exI [of _ ?e]) simp
qed

lemma insert_key_ok:
  assumes "cursor_ok e" "m_buffer_size e < MAX_BUFFER_SIZE - 1" "32 \<le> c \<and> c < 127 \<or> c = 13 \<or> c = 10"
  shows "\<exists>e'. insert_key c (e, t, s) = draw e' t s \<and> cursor_ok e' \<and> m_cursor_pos e' = m_cursor_pos e + 1 \<and> m_mode e' = m_mode e \<and> m_active e' = m_active e \<and>
    text_of e' = take (m_cursor_pos e) (text_of e) @ (if c = 13 then 10 else c) # drop (m_cursor_pos e) (text_of e) \<and> m_modified e'"
proof -
  let ?p = "m_cursor_pos e" and ?c = "if c = 13 then 10 else c"
  have sz: "m_cursor_pos e \<le> m_buffer_size e" "locate (take ?p (text_of e)) = (m_cursor_row e, m_cursor_col e)" using assms(1) by (simp_all add: cursor_ok_def)
  note b = cursor_ok_bounds [OF assms(1)]
  obtain buf where i: "insert_byte ?c e = Inr (e\<lparr>m_buffer := buf, m_buffer_size := m_buffer_size e + 1, m_cursor_pos := ?p + 1\<rparr>)"
    "text_of (e\<lparr>m_buffer := buf, m_buffer_size := m_buffer_size e + 1\<rparr>) = take ?p (text_of e) @ ?c # drop ?p (text_of e)"
    using insert_byte_text [OF assms(1,2), of ?c] by auto
  let ?e = "e\<lparr>m_buffer := buf, m_buffer_size := m_buffer_size e + 1, m_cursor_pos := ?p + 1, m_cursor_row := fst (step ?c (m_cursor_row e, m_cursor_col e)),
    m_cursor_col := snd (step ?c (m_cursor_row e, m_cursor_col e)), m_modified := True\<rparr>"
  have t: "text_of ?e = take ?p (text_of e) @ ?c # drop ?p (text_of e)" using i(2) by (simp add: text_of_def)
  have t': "text_of ?e = take (?p + 1) (take ?p (text_of e) @ [?c]) @ drop ?p (text_of e)" using t sz(1) by simp
  have ok: "cursor_ok ?e"
  proof (rule cursor_okI [OF t'])
    show "locate (take (?p + 1) (take ?p (text_of e) @ [?c])) = (m_cursor_row ?e, m_cursor_col ?e)"
      using sz by (simp add: locate_snoc)
  qed (use sz assms(2) in simp_all)
  have nc: "\<not> is_ctrl_key c 83" "\<not> is_ctrl_key c 81" "c \<noteq> 8"
    using assms(3) by (auto simp: is_ctrl_key_def)
  show ?thesis
  proof (cases "c = 13 \<or> c = 10")
    case True
    have "insert_key c (e, t, s) = draw (scroll_down ?e) t s"
      using True nc i(1) b assms(2) by (auto simp: insert_key_def bind_ok_def inc_small)
    then show ?thesis using ok t by (intro exI [of _ "scroll_down ?e"]) (simp add: scroll_down_def)
  next
    case False
    have "insert_key c (e, t, s) = draw ?e t s"
      using False nc i(1) b assms(2,3) by (auto simp: insert_key_def bind_ok_def inc_small)
    then show ?thesis using ok t by (intro exI [of _ ?e]) simp
  qed
qed

section \<open>Deleting the selected lines\<close>

lemma selection_range:
  fixes e :: editor
  assumes "z < length (split_lines (text_of e))" "a \<le> z"
  defines "L \<equiv> split_lines (text_of e)"
  shows "line_start (m_buffer e) (skip_lines a 0 (text_of e)) = offset L a 0"
    and "selection_end a z (offset L a 0) (drop (offset L a 0) (text_of e)) = offset L z (length (L ! z))"
proof -
  have a: "a < length L" using assms by simp
  then have s: "skip_lines a 0 (text_of e) = offset L a 0" using skip_lines_offset [of a "text_of e" 0] by (simp add: L_def)
  have lo: "offset L a 0 \<le> m_buffer_size e" "locate (take (offset L a 0) (text_of e)) = (a, 0)"
    using locate_offset [of a "text_of e" 0] a by (simp_all add: L_def)
  show "line_start (m_buffer e) (skip_lines a 0 (text_of e)) = offset L a 0"
    unfolding s using line_start_column [of "m_buffer e" "offset L a 0"] lo by (simp add: take_text_of)
  have d: "split_lines (drop (offset L a 0) (text_of e)) = drop a L"
    using split_take_offset [of a "text_of e" 0] a by (simp add: L_def Cons_nth_drop_Suc)
  have "a + (z - a) = z" using assms(2) by simp
  moreover have "z - a < length (drop a L)" using assms by (simp add: L_def)
  ultimately show "selection_end a z (offset L a 0) (drop (offset L a 0) (text_of e)) = offset L z (length (L ! z))"
    using selection_end_offset [of "z - a" "drop (offset L a 0) (text_of e)" a "offset L a 0"] offset_add [of a "z - a" L] assms(1) d
    by (simp add: L_def)
qed

lemma lines_without:
  assumes "z < length (split_lines xs)" "a \<le> z"
  defines "L \<equiv> split_lines xs"
  shows "split_lines (take (offset L a 0) xs @ drop (offset L z (length (L ! z))) xs) = take a L @ [] # drop (z + 1) L"
  using split_take_offset [of a xs 0] split_take_offset [of z xs "length (L ! z)"] assms by (simp add: split_append)

lemma offset_mono:
  assumes "a \<le> z" "z < length L"
  shows "offset L a 0 \<le> offset L z (length (L ! z))"
  using offset_add [of a "z - a" L "length (L ! z)"] assms by simp

lemma delete_selection_ok:
  assumes "cursor_ok e" "m_selection_start_row e < length (split_lines (text_of e))" "m_selection_end_row e = m_cursor_row e"
  defines "L \<equiv> split_lines (text_of e)" and "a \<equiv> min (m_selection_start_row e) (m_selection_end_row e)"
    and "z \<equiv> max (m_selection_start_row e) (m_selection_end_row e)"
  shows "\<exists>e'. delete_selection e = Inr e' \<and> cursor_ok e' \<and> split_lines (text_of e') = take a L @ [] # drop (z + 1) L \<and>
    m_cursor_row e' = a \<and> m_cursor_col e' = 0"
proof -
  have z: "z < length L" "a \<le> z" "a < length L" using cursor_ok_place(1) [OF assms(1)] assms by (auto simp: L_def a_def z_def)
  let ?p = "offset L a 0" and ?q = "offset L z (length (L ! z))"
  note r = selection_range [OF z(1) [unfolded L_def] z(2), folded L_def]
  have sz: "m_buffer_size e < MAX_BUFFER_SIZE" using assms(1) by (simp add: cursor_ok_def)
  have pq: "?p \<le> ?q" "?q \<le> m_buffer_size e" using offset_mono [OF z(2,1)] locate_offset [of z "text_of e" "length (L ! z)"] z by (simp_all add: L_def)
  have lp: "locate (take ?p (text_of e)) = (a, 0)" using locate_offset [of a "text_of e" 0] z by (simp add: L_def)
  have lines: "split_lines (take ?p (text_of e) @ drop ?q (text_of e)) = take a L @ [] # drop (z + 1) L"
    using lines_without [of z "text_of e" a] z by (simp add: L_def)
  show ?thesis
  proof (cases "?p < ?q")
    case True
    obtain buf where m: "move_bytes ?p ?q (m_buffer_size e - ?q) e = Inr (e\<lparr>m_buffer := buf\<rparr>)"
      "text_of (e\<lparr>m_buffer := buf, m_buffer_size := m_buffer_size e - (?q - ?p)\<rparr>) = take ?p (text_of e) @ drop ?q (text_of e)"
      using move_bytes_text [of ?p ?q e "m_buffer_size e - ?q"] pq sz by auto
    let ?e = "e\<lparr>m_buffer := buf, m_buffer_size := m_buffer_size e - (?q - ?p), m_cursor_pos := ?p, m_cursor_row := a, m_cursor_col := 0, m_modified := True\<rparr>"
    have t: "text_of ?e = take ?p (text_of e) @ drop ?q (text_of e)" using m(2) by (simp add: text_of_def)
    have "map buf [0..<?p] = take ?p (text_of e)" using take_text_of [of ?p ?e] t pq by simp
    then have ls: "line_start buf ?p = ?p" using line_start_column [of buf ?p] lp by simp
    have "delete_selection e = Inr ?e"
      unfolding delete_selection_def Let_def a_def [symmetric] z_def [symmetric] r using m(1) True ls by (simp add: bind_ok_def)
    moreover have "cursor_ok ?e" by (rule cursor_okI [OF t]) (use sz pq lp in simp_all)
    ultimately show ?thesis using lines t by (intro exI [of _ ?e]) simp
  next
    case False
    then have eq: "?p = ?q" using pq(1) by simp
    have "delete_selection e = Inr e"
      unfolding delete_selection_def Let_def a_def [symmetric] z_def [symmetric] r using False by simp
    moreover have lq: "locate (take ?q (text_of e)) = (z, length (L ! z))" using locate_offset [of z "text_of e" "length (L ! z)"] z by (simp add: L_def)
    have "(a, 0) = (z, length (L ! z))" using lp lq eq by metis
    then have az: "a = z" "L ! z = []" by simp_all
    moreover have "m_cursor_row e = z" using az(1) assms(3) by (simp add: a_def z_def)
    moreover have "m_cursor_col e = 0" using cursor_ok_place(2) [OF assms(1)] az(2) \<open>m_cursor_row e = z\<close> by (simp add: L_def)
    moreover have "L = take a L @ [] # drop (z + 1) L" using az z(1) id_take_nth_drop [of z L] by simp
    ultimately show ?thesis using assms(1) by (intro exI [of _ e]) (simp add: L_def)
  qed
qed

section \<open>Every key\<close>

definition keeps :: "editor_error + desk \<Rightarrow> bool" where
  "keeps r \<longleftrightarrow> (case r of Inl err \<Rightarrow> err \<noteq> Buffer_Overrun | Inr (e, t, s) \<Rightarrow> editor_ok e)"

lemma keeps_simps [simp]: "keeps (Inl err) = (err \<noteq> Buffer_Overrun)" "keeps (Inr (e, t, s)) = editor_ok e"
  by (simp_all add: keeps_def)

lemma display_status_line_result: "display_status_line e t = Inl err \<Longrightarrow> err = Status_Overflow"
  by (simp add: display_status_line_def split: if_splits)

lemma render_result: "render e t = Inl err \<Longrightarrow> err = Status_Overflow"
  by (auto simp: render_def bind_ok_def Let_def split: if_splits prod.splits sum.splits dest: display_status_line_result)

lemma draw_keeps: "editor_ok e \<Longrightarrow> keeps (draw e t s)"
  by (auto simp: draw_def bind_ok_def split: sum.split dest: render_result)

lemma need_keeps: "keeps (bind_ok (need err r) f) \<longleftrightarrow> (case r of None \<Rightarrow> err \<noteq> Buffer_Overrun | Some x \<Rightarrow> keeps (f x))"
  by (simp add: need_def bind_ok_def split: option.split)

lemma not_visual: "cursor_ok e \<Longrightarrow> m_mode e \<noteq> VISUAL \<Longrightarrow> editor_ok e"
  by (simp add: editor_ok_def)

lemma switch_keeps:
  assumes "cursor_ok e"
  shows "keeps (switch_to_normal_mode (e, t, s))" "keeps (switch_to_insert_mode (e, t, s))" "keeps (switch_to_visual_mode (e, t, s))"
  using assms cursor_ok_place(1) [OF assms]
  by (auto simp: switch_to_normal_mode_def switch_to_insert_mode_def switch_to_visual_mode_def editor_ok_def intro!: draw_keeps)

lemma line_up_keeps:
  assumes "editor_ok e" "m_mode e = VISUAL \<longrightarrow> select"
  shows "keeps (line_up select (e, t, s))"
proof (cases "m_cursor_row e > 0 \<and> get_line_length (m_cursor_row e - 1) e \<noteq> SIZE_MAX")
  case True
  let ?L = "split_lines (text_of e)" and ?r = "m_cursor_row e - 1"
  have ok: "cursor_ok e" using assms(1) by (simp add: editor_ok_def)
  have len: "get_line_length ?r e = length (?L ! ?r)" "?r < length ?L"
    using True unfolding get_line_length_lines by (auto simp: Let_def split: if_splits)
  define e1 where "e1 = cursor_to_line ?r (length (?L ! ?r)) e"
  note c = cursor_to_line_ok [OF ok len(2), folded e1_def]
  define e2 where "e2 = (if select then e1\<lparr>m_selection_end_row := m_cursor_row e1\<rparr> else e1)"
  have ok2: "editor_ok e2" using c assms by (cases select) (auto simp: e2_def editor_ok_def)
  have "line_up select (e, t, s) = draw (if m_cursor_row e2 < m_screen_row e2 then e2\<lparr>m_screen_row := m_cursor_row e2\<rparr> else e2) t s"
    using True unfolding line_up_def split_conv Let_def len(1) e1_def [symmetric] e2_def by (simp cong del: if_weak_cong)
  then show ?thesis using ok2 by (auto simp: editor_ok_def intro!: draw_keeps)
next
  case False
  then show ?thesis using assms(1) by (auto simp: line_up_def Let_def)
qed

lemma line_down_keeps:
  assumes "editor_ok e" "m_mode e = VISUAL \<longrightarrow> select"
  shows "keeps (line_down select (e, t, s))"
proof (cases "get_line_length (inc (m_cursor_row e)) e \<noteq> SIZE_MAX")
  case True
  let ?L = "split_lines (text_of e)" and ?r = "inc (m_cursor_row e)"
  have ok: "cursor_ok e" using assms(1) by (simp add: editor_ok_def)
  have len: "get_line_length ?r e = length (?L ! ?r)" "?r < length ?L"
    using True unfolding get_line_length_lines by (auto simp: Let_def split: if_splits)
  define e1 where "e1 = cursor_to_line ?r (length (?L ! ?r)) e"
  note c = cursor_to_line_ok [OF ok len(2), folded e1_def]
  define e2 where "e2 = (if select then e1\<lparr>m_selection_end_row := m_cursor_row e1\<rparr> else e1)"
  have ok2: "editor_ok e2" using c assms by (cases select) (auto simp: e2_def editor_ok_def)
  have "line_down select (e, t, s) = draw (scroll_down e2) t s"
    using True unfolding line_down_def split_conv Let_def len(1) e1_def [symmetric] e2_def by (simp cong del: if_weak_cong)
  then show ?thesis using ok2 by (auto simp: editor_ok_def intro!: draw_keeps)
next
  case False
  then show ?thesis using assms(1) by (auto simp: line_down_def Let_def)
qed

lemma strip_newlines_le: "strip_newlines b n \<le> n"
  by (induction n) auto

lemma write_back_keeps:
  assumes "editor_ok e"
  shows "keeps (bind_ok (write_back cluster (e, t, s)) (\<lambda>(ok, e, t, s).
      if ok then bind_ok (display_status_line e t) (\<lambda>t. Inr (e, t, s))
      else Inr (e, editor_update_cursor e (draw_status 0x4F (cstr ''ERROR: Failed to save file'') t), s)))"
proof -
  have p: "\<not> m_cursor_pos e > m_buffer_size e" using assms by (simp add: editor_ok_def cursor_ok_def)
  have ok: "editor_ok (e\<lparr>m_modified := False\<rparr>)" using assms by (simp add: editor_ok_def)
  show ?thesis using assms p ok
    by (auto simp: write_back_def bind_ok_def need_def draw_def Let_def split: option.split prod.split sum.split
        dest: display_status_line_result render_result)
qed

lemma save_key_keeps:
  assumes "editor_ok e" "m_mode e = NORMAL" "m_cursor_pos e \<le> strip_newlines (m_buffer e) (m_buffer_size e)"
  shows "keeps (save_key (e, t, s))"
proof -
  let ?n = "strip_newlines (m_buffer e) (m_buffer_size e)"
  define e1 where "e1 = e\<lparr>m_buffer_size := ?n\<rparr>"
  have n: "?n \<le> m_buffer_size e" by (rule strip_newlines_le)
  have "text_of e1 = take ?n (text_of e)" using n by (simp add: e1_def text_of_def take_map)
  then have ok: "editor_ok e1" using assms n by (auto simp: editor_ok_def cursor_ok_def e1_def min_def)
  have w: "keeps (bind_ok (write_back cluster (e1, t, s)) (\<lambda>(ok, e, t, s).
      if ok then bind_ok (display_status_line e t) (\<lambda>t. Inr (e, t, s))
      else Inr (e, editor_update_cursor e (draw_status 0x4F (cstr ''ERROR: Failed to save file'') t), s)))" for cluster s
    by (rule write_back_keeps [OF ok])
  show ?thesis using assms(1) ok w unfolding save_key_def editor_save_def e1_def [symmetric]
    by (auto simp: Let_def e1_def [symmetric] bind_ok_def need_def split: option.split prod.split)
qed

lemma editor_close_keeps: "editor_ok e \<Longrightarrow> keeps (editor_close (e, t, s))"
  by (auto simp: editor_close_def Let_def bind_ok_def need_def editor_ok_def cursor_ok_def text_of_def MAX_BUFFER_SIZE_def
      split: option.split)

lemma normal_key_keeps:
  assumes "editor_ok e" "m_mode e = NORMAL" "\<not> (c = 108 \<and> get_line_length (m_cursor_row e) e = SIZE_MAX)"
    "\<not> (is_ctrl_key c 83 \<and> m_cursor_pos e > strip_newlines (m_buffer e) (m_buffer_size e))"
  shows "keeps (normal_key c (e, t, s))"
proof -
  have ok: "cursor_ok e" using assms(1) by (simp add: editor_ok_def)
  note b = cursor_ok_bounds [OF ok] and pl = cursor_ok_place [OF ok]
  have sub: "keeps (bind_ok (if m_cursor_pos e < m_buffer_size e then bind_ok (delete_char e) (\<lambda>e. Inr (e\<lparr>m_modified := True\<rparr>)) else Inr e)
        (\<lambda>e. switch_to_insert_mode (e, t, s)))"
    using delete_char_ok [OF ok] switch_keeps(2) ok by (auto simp: bind_ok_def)
  have left: "keeps (draw (e\<lparr>m_cursor_col := m_cursor_col e - 1, m_cursor_pos := dec (m_cursor_pos e)\<rparr>) t s)" if "m_cursor_col e > 0"
  proof (rule draw_keeps, rule not_visual)
    have o: "offset (split_lines (text_of e)) (m_cursor_row e) (m_cursor_col e - 1) = m_cursor_pos e - 1" using pl(3) that by (simp add: offset_def)
    have "dec (m_cursor_pos e) = m_cursor_pos e - 1" using b that by (intro dec_small) auto
    then show "cursor_ok (e\<lparr>m_cursor_col := m_cursor_col e - 1, m_cursor_pos := dec (m_cursor_pos e)\<rparr>)"
      using cursor_at_place [of e "m_cursor_row e" "m_cursor_col e - 1"] ok pl o by (simp add: cursor_ok_def)
  qed (simp add: assms(2))
  have right: "keeps (draw (e\<lparr>m_cursor_col := inc (m_cursor_col e), m_cursor_pos := inc (m_cursor_pos e)\<rparr>) t s)"
    if "m_cursor_col e < get_line_length (m_cursor_row e) e" "c = 108"
  proof (rule draw_keeps, rule not_visual)
    have "m_cursor_col e + 1 \<le> length (split_lines (text_of e) ! m_cursor_row e)"
      using that assms(3) unfolding get_line_length_lines by (auto simp: Let_def split: if_splits)
    moreover have o: "offset (split_lines (text_of e)) (m_cursor_row e) (m_cursor_col e + 1) = m_cursor_pos e + 1" using pl(3) by (simp add: offset_def)
    ultimately show "cursor_ok (e\<lparr>m_cursor_col := inc (m_cursor_col e), m_cursor_pos := inc (m_cursor_pos e)\<rparr>)"
      using cursor_at_place [of e "m_cursor_row e" "m_cursor_col e + 1"] ok pl b by (simp add: cursor_ok_def inc_small)
  qed (simp add: assms(2))
  show ?thesis
    using sub left right switch_keeps [OF ok] save_key_keeps [OF assms(1,2)] editor_close_keeps [OF assms(1)]
      line_up_keeps [OF assms(1), of False] line_down_keeps [OF assms(1), of False] assms
    unfolding normal_key_def by (auto simp: not_less)
qed

lemma insert_mode_keeps:
  assumes "editor_ok e" "m_mode e = INSERT"
  shows "keeps (insert_key c (e, t, s))"
proof -
  have ok: "cursor_ok e" using assms(1) by (simp add: editor_ok_def)
  consider (del) "c = 8" "m_cursor_pos e > 0" | (ins) "m_buffer_size e < MAX_BUFFER_SIZE - 1" "32 \<le> c \<and> c < 127 \<or> c = 13 \<or> c = 10"
    | (none) "insert_key c (e, t, s) = Inr (e, t, s)"
    unfolding insert_key_def split_conv by argo
  then show ?thesis
  proof cases
    case del
    then have "insert_key c (e, t, s) = backspace_key (e, t, s)" by (simp add: insert_key_def is_ctrl_key_def)
    then show ?thesis using backspace_key_ok [OF ok del(2), of t s] assms(2) draw_keeps not_visual by auto
  next
    case ins
    show ?thesis using insert_key_ok [OF ok ins, of t s] assms(2) draw_keeps not_visual by auto
  next
    case none
    then show ?thesis using assms(1) by simp
  qed
qed

lemma visual_key_keeps:
  assumes "editor_ok e" "m_mode e = VISUAL"
  shows "keeps (visual_key c (e, t, s))"
proof -
  have ok: "cursor_ok e" and sel: "m_selection_start_row e < length (split_lines (text_of e))" "m_selection_end_row e = m_cursor_row e"
    using assms by (simp_all add: editor_ok_def)
  show ?thesis
    using delete_selection_ok [OF ok sel] switch_keeps(2) ok line_up_keeps [OF assms(1), of True] line_down_keeps [OF assms(1), of True] assms(1)
    unfolding visual_key_def by (auto simp: bind_ok_def)
qed

lemma keypress_keeps:
  assumes "editor_ok e" "\<not> (m_mode e = NORMAL \<and> c = 108 \<and> get_line_length (m_cursor_row e) e = SIZE_MAX)"
    "\<not> (m_mode e = NORMAL \<and> is_ctrl_key c 83 \<and> m_cursor_pos e > strip_newlines (m_buffer e) (m_buffer_size e))"
  shows "keeps (editor_process_keypress c (e, t, s))"
proof -
  have ok: "cursor_ok e" using assms(1) by (simp add: editor_ok_def)
  show ?thesis
    using switch_keeps(1) [OF ok] normal_key_keeps [OF assms(1)] insert_mode_keeps [OF assms(1)] visual_key_keeps [OF assms(1)] assms
    unfolding editor_process_keypress_def by (auto split: editor_mode.split)
qed


text \<open>The editor with the text \<open>xs\<close> in it and the cursor at its start.\<close>

definition editor_with :: "bytes \<Rightarrow> bytes \<Rightarrow> editor_mode \<Rightarrow> editor" where
  "editor_with name xs m = \<lparr>m_buffer = (\<lambda>i. if i < length xs then xs ! i else 0), m_filename = name, m_buffer_size = length xs,
     m_cursor_pos = 0, m_cursor_row = 0, m_cursor_col = 0, m_screen_row = 0, m_screen_col = 0, m_screen_offset = 0,
     m_active = True, m_modified = False, m_mode = m, m_has_selection = False, m_selection_start_row = 0, m_selection_end_row = 0\<rparr>"

lemma text_of_editor_with [simp]: "text_of (editor_with name xs m) = xs"
  by (rule nth_equalityI) (simp_all add: text_of_def editor_with_def)

lemma editor_with_ok: "length xs < MAX_BUFFER_SIZE \<Longrightarrow> editor_ok (editor_with name xs NORMAL)" "length xs < MAX_BUFFER_SIZE \<Longrightarrow> editor_ok (editor_with name xs INSERT)"
  by (simp_all add: editor_ok_def cursor_ok_def) (simp_all add: editor_with_def)


text \<open>
  typing a character puts it at the cursor and moves on; backspace takes it away again: the text, the position, the row and the column
  are as before. A carriage return is stored as a newline.
\<close>

theorem typing_roundtrip:
  assumes "editor_ok e" "m_active e" "m_mode e = INSERT" "m_buffer_size e < MAX_BUFFER_SIZE - 1" "32 \<le> c \<and> c < 127 \<or> c = 13 \<or> c = 10"
  shows "\<exists>e1. editor_process_keypress c (e, t, s) = draw e1 t s \<and>
    text_of e1 = take (m_cursor_pos e) (text_of e) @ (if c = 13 then 10 else c) # drop (m_cursor_pos e) (text_of e) \<and>
    m_cursor_pos e1 = m_cursor_pos e + 1 \<and>
    (\<exists>e2. editor_process_keypress 8 (e1, t, s) = draw e2 t s \<and> text_of e2 = text_of e \<and> m_cursor_pos e2 = m_cursor_pos e \<and>
       m_cursor_row e2 = m_cursor_row e \<and> m_cursor_col e2 = m_cursor_col e)"
proof -
  have ok: "cursor_ok e" using assms(1) by (simp add: editor_ok_def)
  have nz: "c \<noteq> 0x1B" using assms(5) by auto
  obtain e1 where 1: "insert_key c (e, t, s) = draw e1 t s" "cursor_ok e1" "m_cursor_pos e1 = m_cursor_pos e + 1" "m_mode e1 = INSERT" "m_active e1"
    "text_of e1 = take (m_cursor_pos e) (text_of e) @ (if c = 13 then 10 else c) # drop (m_cursor_pos e) (text_of e)"
    using insert_key_ok [OF ok assms(4,5), of t s] assms(2,3) by auto
  obtain e2 where 2: "backspace_key (e1, t, s) = draw e2 t s" "cursor_ok e2" "m_cursor_pos e2 = m_cursor_pos e1 - 1"
    "text_of e2 = take (m_cursor_pos e1 - 1) (text_of e1) @ drop (m_cursor_pos e1) (text_of e1)"
    using backspace_key_ok [OF 1(2), of t s] 1(3) by auto
  have p: "m_cursor_pos e \<le> m_buffer_size e" using ok by (simp add: cursor_ok_def)
  have t2: "text_of e2 = text_of e" using 2(4) 1(3,6) p by simp
  then have "(m_cursor_row e2, m_cursor_col e2) = (m_cursor_row e, m_cursor_col e)" using ok 2(2,3) 1(3) by (simp add: cursor_ok_def)
  moreover have "editor_process_keypress 8 (e1, t, s) = draw e2 t s"
    using 1(3,4,5) 2(1) by (simp add: editor_process_keypress_def insert_key_def is_ctrl_key_def)
  moreover have "editor_process_keypress c (e, t, s) = draw e1 t s" using assms(2,3) 1(1) nz by (simp add: editor_process_keypress_def)
  ultimately show ?thesis using 1 2 t2 by (intro exI [of _ e1]) auto
qed

theorem typing_roundtrip_witness:
  "\<forall>t s. \<exists>e1. editor_process_keypress 120 (editor_with [97] [104, 105] INSERT, t, s) = draw e1 t s \<and> text_of e1 = [120, 104, 105] \<and>
     (\<exists>e2. editor_process_keypress 8 (e1, t, s) = draw e2 t s \<and> text_of e2 = [104, 105])"
proof (intro allI)
  fix t s
  have "editor_ok (editor_with [97] [104, 105] INSERT)" by (rule editor_with_ok) (simp add: MAX_BUFFER_SIZE_def)
  from typing_roundtrip [OF this, of 120 t s]
  show "\<exists>e1. editor_process_keypress 120 (editor_with [97] [104, 105] INSERT, t, s) = draw e1 t s \<and> text_of e1 = [120, 104, 105] \<and>
     (\<exists>e2. editor_process_keypress 8 (e1, t, s) = draw e2 t s \<and> text_of e2 = [104, 105])"
    unfolding text_of_editor_with by (auto simp: editor_with_def MAX_BUFFER_SIZE_def)
qed

text \<open>
  deleting a selection in visual mode replaces the selected lines by one empty line, on which the cursor is left, and goes to
  insert mode.
\<close>

theorem visual_delete_correct:
  assumes "editor_ok e" "m_active e" "m_mode e = VISUAL"
  defines "L \<equiv> split_lines (text_of e)" and "a \<equiv> min (m_selection_start_row e) (m_selection_end_row e)"
    and "z \<equiv> max (m_selection_start_row e) (m_selection_end_row e)"
  shows "\<exists>e'. editor_process_keypress 115 (e, t, s) = switch_to_insert_mode (e', t, s) \<and> cursor_ok e' \<and>
    split_lines (text_of e') = take a L @ [] # drop (z + 1) L \<and> m_cursor_row e' = a \<and> m_cursor_col e' = 0"
proof -
  have ok: "cursor_ok e" "m_selection_start_row e < length (split_lines (text_of e))" "m_selection_end_row e = m_cursor_row e"
    using assms(1,3) by (simp_all add: editor_ok_def)
  obtain e' where "delete_selection e = Inr e'" "cursor_ok e'" "split_lines (text_of e') = take a L @ [] # drop (z + 1) L"
    "m_cursor_row e' = a" "m_cursor_col e' = 0"
    using delete_selection_ok [OF ok] unfolding L_def a_def z_def by auto
  then show ?thesis using assms(2,3) by (intro exI [of _ e']) (simp add: editor_process_keypress_def visual_key_def bind_ok_def)
qed

theorem visual_delete_correct_witness:
  "\<forall>t s. \<exists>e'. editor_process_keypress 115 ((editor_with [97] [104, 105, 10, 106, 10, 107] VISUAL)\<lparr>m_selection_start_row := 1\<rparr>, t, s) =
     switch_to_insert_mode (e', t, s) \<and> split_lines (text_of e') = [[], [107]]"
proof (intro allI)
  fix t s
  let ?e = "(editor_with [97] [104, 105, 10, 106, 10, 107] VISUAL)\<lparr>m_selection_start_row := 1\<rparr>"
  have x: "text_of ?e = [104, 105, 10, 106, 10, 107]" by simp
  have f: "m_cursor_pos ?e = 0" "m_cursor_row ?e = 0" "m_cursor_col ?e = 0" "m_buffer_size ?e = 6" "m_mode ?e = VISUAL" "m_active ?e"
    "m_selection_start_row ?e = 1" "m_selection_end_row ?e = 0" by (simp_all add: editor_with_def)
  have "editor_ok ?e" unfolding editor_ok_def cursor_ok_def x f by (simp add: MAX_BUFFER_SIZE_def)
  from visual_delete_correct [OF this f(6,5), of t s]
  show "\<exists>e'. editor_process_keypress 115 (?e, t, s) = switch_to_insert_mode (e', t, s) \<and> split_lines (text_of e') = [[], [107]]"
    unfolding x f by auto
qed

section \<open>The status line\<close>

lemma dec_digits_nonempty: "0 < length (dec_digits n)"
  by (subst dec_digits.simps) simp

lemma length_cstr: "length (cstr s) = length s"
  by (simp add: cstr_def)

lemma render_total:
  assumes "m_mode e \<noteq> VISUAL" "inc (m_cursor_row e) < 10 ^ 5" "length (m_filename e) \<le> 15"
  shows "\<exists>t'. render e t = Inr t'"
proof -
  have d: "length (dec_digits (status_number e)) \<le> 5"
    using length_dec_digits [of "inc (m_cursor_row e)" 5] assms(1,2) by (simp add: status_number_def)
  have "length (status_text e) \<le> 80"
    using d assms(1,3) by (cases "m_mode e") (simp_all add: status_text_def length_cstr)
  then have "\<exists>t'. display_status_line e u = Inr t'" for u using d by (simp add: display_status_line_def TERMINAL_WIDTH_def)
  then show ?thesis by (auto simp: render_def bind_ok_def Let_def split: prod.split sum.split) (metis Inl_Inr_False)
qed

text \<open>
  outside visual mode the status line fits its array of 81 bytes when the file name has at most 15 characters, whatever the text and
  the cursor are, so drawing succeeds.
\<close>

theorem status_line_fits:
  assumes "cursor_ok e" "m_mode e \<noteq> VISUAL" "length (m_filename e) \<le> 15"
  shows "\<exists>t'. render e t = Inr t'"
proof (rule render_total [OF assms(2) _ assms(3)])
  have "m_cursor_row e + 1 < 10 ^ 5" using cursor_ok_bounds(5) [OF assms(1)] assms(1) by (simp add: cursor_ok_def MAX_BUFFER_SIZE_def)
  then show "inc (m_cursor_row e) < 10 ^ 5" using inc_small [OF cursor_ok_bounds(2) [OF assms(1)]] by simp
qed

theorem status_line_fits_witness: "\<forall>t. \<exists>t'. render (editor_with [110, 111, 116, 101, 115] [104, 105] INSERT) t = Inr t'"
proof
  fix t
  have "cursor_ok (editor_with [110, 111, 116, 101, 115] [104, 105] INSERT)"
    using editor_with_ok(2) [of "[104, 105]"] by (simp add: editor_ok_def MAX_BUFFER_SIZE_def)
  then show "\<exists>t'. render (editor_with [110, 111, 116, 101, 115] [104, 105] INSERT) t = Inr t'"
    by (rule status_line_fits) (simp_all add: editor_with_def)
qed

text \<open>
  with a modified text, the status line of visual mode never fits its array: its fixed parts alone have more than 80 characters.
\<close>

theorem visual_status_overflows:
  assumes "m_active e" "m_mode e = VISUAL" "m_has_selection e" "m_modified e"
  shows "render e t = Inl Status_Overflow"
proof -
  have "length (status_text e) > 80"
    using assms(2-4) dec_digits_nonempty [of "status_number e"] by (simp add: status_text_def length_cstr)
  then have "display_status_line e u = Inl Status_Overflow" for u by (simp add: display_status_line_def TERMINAL_WIDTH_def)
  then show ?thesis using assms(1) by (simp add: render_def bind_ok_def Let_def split: prod.split)
qed

theorem visual_status_overflows_witness:
  "\<forall>t. render ((editor_with [97] [104] VISUAL)\<lparr>m_modified := True, m_has_selection := True\<rparr>) t = Inl Status_Overflow"
proof
  fix t
  show "render ((editor_with [97] [104] VISUAL)\<lparr>m_modified := True, m_has_selection := True\<rparr>) t = Inl Status_Overflow"
    by (rule visual_status_overflows) (simp_all add: editor_with_def)
qed

section \<open>Leaving the text\<close>

primrec run_keys :: "bytes \<Rightarrow> desk \<Rightarrow> editor_error + desk" where
  "run_keys [] d = Inr d"
| "run_keys (c # cs) d = bind_ok (editor_process_keypress c d) (run_keys cs)"

text \<open>
  in a new file the keys \<^verbatim>\<open>l\<close>, \<^verbatim>\<open>i\<close> and then a letter destroy memory: the line of the cursor has the length
  \<^verbatim>\<open>size_t(-1)\<close>, so \<^verbatim>\<open>l\<close> moves behind the end of the text, and the number of bytes that the insertion moves wraps around.
\<close>

theorem new_file_overrun:
  assumes "m_active e" "m_mode e = NORMAL" "m_buffer_size e = 0" "m_cursor_pos e = 0" "m_cursor_row e = 0" "m_cursor_col e = 0"
    "length (m_filename e) \<le> 15"
  shows "run_keys [108, 105, 120] (e, t, s) = Inl Buffer_Overrun"
proof -
  define e1 where "e1 = e\<lparr>m_cursor_col := 1, m_cursor_pos := 1\<rparr>"
  define e2 where "e2 = e1\<lparr>m_mode := INSERT, m_has_selection := False\<rparr>"
  have i: "inc 0 = 1" "inc 1 = 2" "sub_wrap 0 1 = SIZE_MAX" by (simp_all add: inc_def sub_wrap_def SIZE_MAX_def)
  have "get_line_length 0 e = SIZE_MAX" using assms(3) by (simp add: get_line_length_def text_of_def)
  then have k1: "editor_process_keypress 108 (e, t, s) = draw e1 t s"
    using assms i by (simp add: editor_process_keypress_def normal_key_def is_ctrl_key_def e1_def SIZE_MAX_def)
  obtain t1 where d1: "render e1 t = Inr t1" using render_total [of e1 t] assms i by (auto simp: e1_def)
  have k2: "editor_process_keypress 105 (e1, t1, s) = draw e2 (set_cursor_shape 14 15 t1) s"
    using assms by (simp add: editor_process_keypress_def normal_key_def switch_to_insert_mode_def e1_def e2_def)
  obtain t2 where d2: "render e2 (set_cursor_shape 14 15 t1) = Inr t2"
    using render_total [of e2 "set_cursor_shape 14 15 t1"] assms i by (auto simp: e1_def e2_def)
  have "insert_byte 120 e2 = Inl Buffer_Overrun"
    using assms i by (simp add: insert_byte_def e1_def e2_def move_bytes_def bind_ok_def SIZE_MAX_def MAX_BUFFER_SIZE_def)
  then have k3: "editor_process_keypress 120 (e2, t2, s) = Inl Buffer_Overrun"
    using assms by (simp add: editor_process_keypress_def insert_key_def is_ctrl_key_def e1_def e2_def bind_ok_def MAX_BUFFER_SIZE_def)
  show ?thesis using k1 d1 k2 d2 k3 by (simp add: bind_ok_def draw_def)
qed

theorem new_file_overrun_witness:
  "\<forall>t s. run_keys [108, 105, 120] (editor_with [97] [] NORMAL, t, s) = Inl Buffer_Overrun"
proof (intro allI)
  fix t s
  show "run_keys [108, 105, 120] (editor_with [97] [] NORMAL, t, s) = Inl Buffer_Overrun"
    by (rule new_file_overrun) (simp_all add: editor_with_def)
qed

section \<open>Saving and opening\<close>

text \<open>The text without the newlines at its end.\<close>

definition trimmed :: "bytes \<Rightarrow> bytes" where
  "trimmed xs = rev (dropWhile (\<lambda>c. c = 10) (rev xs))"

lemma strip_newlines_trimmed: "map b [0..<strip_newlines b n] = trimmed (map b [0..<n])"
  by (induction n) (simp_all add: trimmed_def)

lemma write_back_store:
  assumes "store_content (m_filename e) (m_buffer e) (m_buffer_size e) s = Some (True, s')" "findFile (m_filename e) s = Some (Some (c, sz, attrs))"
    "m_cursor_pos e \<le> m_buffer_size e"
  shows "write_back c (e, t, s) = bind_ok (draw (e\<lparr>m_modified := False\<rparr>) t s') (\<lambda>d. Inr (True, d))"
  using assms by (auto simp: store_content_def write_back_def need_def bind_ok_def Let_def bind_eq_Some_conv split: if_split_asm)

lemma open_existing:
  assumes "findFile name s = Some (Some (c, of_nat (length xs), attrs))" "attrs AND 0x10 = 0" "name \<noteq> []" "length name < MAX_FILENAME_LENGTH"
    "0 < length xs" "length xs < MAX_BUFFER_SIZE" "readFile c (length xs) s = Some xs"
  shows "\<exists>e2. editor_open junk (Some name) (e0, t0, s) = bind_ok (draw e2 (set_cursor_shape 0 15 (terminal_clear t0)) s) (\<lambda>d. Inr (True, d)) \<and>
    text_of e2 = xs \<and> m_filename e2 = name \<and> m_cursor_pos e2 = 0 \<and> editor_ok e2"
proof -
  have n: "unat (of_nat (length xs) :: u32) = length xs" using assms(6) by (simp add: unsigned_of_nat take_bit_eq_mod MAX_BUFFER_SIZE_def)
  obtain a as where nm: "name = a # as" using assms(3) by (cases name) auto
  let ?b = "\<lambda>i. if i < length xs then (if i < length xs then xs ! i else junk i) else if i = length xs then 0 else m_buffer e0 i"
  let ?e = "e0\<lparr>m_filename := take (MAX_FILENAME_LENGTH - 1) name, m_buffer_size := length xs, m_buffer := ?b,
    m_cursor_pos := 0, m_cursor_row := 0, m_cursor_col := 0, m_screen_row := 0, m_screen_col := 0, m_screen_offset := 0, m_active := True, m_modified := False, m_mode := NORMAL\<rparr>"
  have tx: "text_of ?e = xs" by (rule nth_equalityI) (simp_all add: text_of_def)
  have run: "editor_open junk (Some name) (e0, t0, s) = bind_ok (draw ?e (set_cursor_shape 0 15 (terminal_clear t0)) s) (\<lambda>d. Inr (True, d))"
    using assms n by (simp add: editor_open_def nm need_def bind_ok_def Let_def not_le cong: if_cong)
  have "editor_ok ?e" using assms(6) tx by (simp add: editor_ok_def cursor_ok_def)
  then show ?thesis using run tx assms(4) by (intro exI [of _ ?e]) simp
qed

text \<open>
  C18: saving a text writes it, without the newlines at its end, to the file it came from, and opening that file again, in any state of the
  editor, shows exactly this text with the cursor at its start.
\<close>

theorem save_open_roundtrip:
  assumes "editor_ok e" "m_active e" "component (m_filename e)" "length (m_filename e) < MAX_FILENAME_LENGTH"
    and "vol_ok s" "m_currentDirectoryCluster s = dc" "fchain s (dc # ds)"
    and "map_of (dir_list s (dc # ds)) (m_filename e) = Some (c, old, attrs)" "attrs AND 0x10 = 0" "fchain s (c # cs)" "set (c # cs) \<inter> set (dc # ds) = {}"
    and "trimmed (text_of e) \<noteq> []" "m_cursor_pos e \<le> length (trimmed (text_of e))"
    and "blocks (csize s) (length (trimmed (text_of e))) \<le> length (c # cs) + card (free_clusters s)"
  shows "\<exists>e1 s'. editor_save (e, t, s) = bind_ok (draw e1 t s') (\<lambda>d. Inr (True, d)) \<and> vol_ok s' \<and>
    text_of e1 = trimmed (text_of e) \<and> \<not> m_modified e1 \<and>
    (\<forall>junk e0 t0. \<exists>e2. editor_open junk (Some (m_filename e)) (e0, t0, s') =
        bind_ok (draw e2 (set_cursor_shape 0 15 (terminal_clear t0)) s') (\<lambda>d. Inr (True, d)) \<and>
      text_of e2 = trimmed (text_of e) \<and> m_filename e2 = m_filename e \<and> m_cursor_pos e2 = 0 \<and> editor_ok e2)"
proof -
  let ?name = "m_filename e" and ?xs = "trimmed (text_of e)" and ?n = "strip_newlines (m_buffer e) (m_buffer_size e)"
  have map: "map (m_buffer e) [0..<?n] = ?xs" using strip_newlines_trimmed [of "m_buffer e" "m_buffer_size e"] by (simp add: text_of_def)
  then have len: "length ?xs = ?n" by (metis diff_zero length_map length_upt)
  define e1 where "e1 = e\<lparr>m_buffer_size := ?n\<rparr>"
  have small: "?n < MAX_BUFFER_SIZE" using strip_newlines_le [of "m_buffer e" "m_buffer_size e"] assms(1) by (simp add: editor_ok_def cursor_ok_def)
  have pos: "0 < ?n" using assms(12) len by (metis length_greater_0_conv)
  obtain s' xs where 1: "store_content ?name (m_buffer e) ?n s = Some (True, s')" "same_volume s' s" "fchain s' (dc # ds)"
    "fchain s' (c # xs)" "readFile c ?n s' = Some (map (m_buffer e) [0..<?n])"
    "\<And>m. map_of (dir_list s' (dc # ds)) m = (if m = ?name then Some (c, of_nat ?n, attrs) else map_of (dir_list s (dc # ds)) m)"
    by (rule store_content_spec [OF assms(5,3,6,7,8,10,11) pos assms(14) [unfolded len], of "m_buffer e"]) blast
  have old: "findFile ?name s = Some (Some (c, old, attrs))"
    using findFile_plain [OF assms(3), of s] findFileInDirectory_spec [OF assms(5,7)] assms(6,8) by simp
  have ok: "vol_ok s'" by (rule same_volume_ok [OF 1(2) assms(5)])
  have cur: "m_currentDirectoryCluster s' = dc" using 1(2) assms(6) by (auto simp: same_volume_def)
  have new: "findFile ?name s' = Some (Some (c, of_nat (length ?xs), attrs))"
    using findFile_plain [OF assms(3), of s'] findFileInDirectory_spec [OF ok 1(3)] 1(6) cur len by simp
  have wb: "write_back c (e1, t, s) = bind_ok (draw (e1\<lparr>m_modified := False\<rparr>) t s') (\<lambda>d. Inr (True, d))"
    by (rule write_back_store [of e1 s s' c old attrs]) (use 1(1) old assms(13) len in \<open>simp_all add: e1_def\<close>)
  have "editor_save (e, t, s) = write_back c (e1, t, s)"
    using assms(2) old by (simp add: editor_save_def e1_def Let_def need_def bind_ok_def)
  moreover have "text_of (e1\<lparr>m_modified := False\<rparr>) = ?xs" using map by (simp add: e1_def text_of_def)
  moreover have "\<exists>e2. editor_open junk (Some ?name) (e0, t0, s') = bind_ok (draw e2 (set_cursor_shape 0 15 (terminal_clear t0)) s') (\<lambda>d. Inr (True, d)) \<and>
      text_of e2 = ?xs \<and> m_filename e2 = ?name \<and> m_cursor_pos e2 = 0 \<and> editor_ok e2" for junk e0 t0
    by (rule open_existing [OF new assms(9)]) (use assms(3,4,12) small pos 1(5) map len in \<open>auto simp: component_def\<close>)
  ultimately show ?thesis using wb ok by (intro exI [of _ "e1\<lparr>m_modified := False\<rparr>"] exI [of _ s']) simp
qed

theorem save_open_roundtrip_witness:
  "\<forall>t junk e0 t0. \<exists>e1 s' e2. editor_save (editor_with [65] [104, 105, 10, 10] NORMAL, t, dir_example) = bind_ok (draw e1 t s') (\<lambda>d. Inr (True, d)) \<and>
     editor_open junk (Some [65]) (e0, t0, s') = bind_ok (draw e2 (set_cursor_shape 0 15 (terminal_clear t0)) s') (\<lambda>d. Inr (True, d)) \<and>
     text_of e2 = [104, 105]"
proof (intro allI)
  fix t junk e0 t0
  let ?e = "editor_with [65] [104, 105, 10, 10] NORMAL"
  have tr: "trimmed (text_of ?e) = [104, 105]" by (simp add: trimmed_def)
  have ok: "editor_ok ?e" by (rule editor_with_ok) (simp add: MAX_BUFFER_SIZE_def)
  have f: "m_filename ?e = [65]" "m_active ?e" "m_cursor_pos ?e = 0" by (simp_all add: editor_with_def)
  have c: "csize dir_example = 512" by (simp add: dir_example_def fat_example_def)
  obtain e1 s' where 1: "editor_save (?e, t, dir_example) = bind_ok (draw e1 t s') (\<lambda>d. Inr (True, d))"
    "\<forall>junk e0 t0. \<exists>e2. editor_open junk (Some [65]) (e0, t0, s') =
        bind_ok (draw e2 (set_cursor_shape 0 15 (terminal_clear t0)) s') (\<lambda>d. Inr (True, d)) \<and> text_of e2 = [104, 105] \<and> m_filename e2 = [65] \<and> m_cursor_pos e2 = 0 \<and> editor_ok e2"
    using save_open_roundtrip [OF ok f(2) _ _ dir_example_ok dir_example_chains(3,1) _ _ dir_example_chains(2), of 7 "0x20" t] unfolding f tr c
    by (auto simp: component_def MAX_FILENAME_LENGTH_def dir_example_list blocks_def)
  then show "\<exists>e1 s' e2. editor_save (?e, t, dir_example) = bind_ok (draw e1 t s') (\<lambda>d. Inr (True, d)) \<and>
     editor_open junk (Some [65]) (e0, t0, s') = bind_ok (draw e2 (set_cursor_shape 0 15 (terminal_clear t0)) s') (\<lambda>d. Inr (True, d)) \<and> text_of e2 = [104, 105]"
    by blast
qed

end
