(* ===== verification/Pager.thy ===== *)
theory Pager
  imports Prompt
begin

text \<open>
  The pager, \<open>shell/pager.cpp\<close>: splitting a text into lines, the page on the screen, and the keys that move it.

  \<open>lines\<close> are the completed rows of the array of the same name as strings; \<open>line_count\<close> is their number. A
  row that was begun but not completed is never printed. \<open>None\<close> stands for a line that is printed as a format and asks for
  arguments.
\<close>

record pager =
  lines :: "bytes list"
  current_line :: nat
  pager_active :: bool

definition MAX_LINES :: nat where "MAX_LINES = 1000"
definition MAX_LINE_LENGTH :: nat where "MAX_LINE_LENGTH = 256"

abbreviation line_count :: "pager \<Rightarrow> nat" where
  "line_count p \<equiv> length (lines p)"

text \<open>\<open>ls\<close> are the completed lines, \<open>cur\<close> the line in progress.\<close>

function split_text :: "bytes \<Rightarrow> bytes \<Rightarrow> bytes list \<Rightarrow> bytes list" where
  "split_text [] cur ls = (if cur \<noteq> [] \<and> length ls < MAX_LINES then ls @ [cur] else ls)"
| "split_text (c # cs) cur ls =
    (if length ls < MAX_LINES then
       if c = 10 then split_text cs [] (ls @ [cur])
       else if length cur = MAX_LINE_LENGTH - 1 then split_text (c # cs) [] (ls @ [cur])
       else split_text cs (cur @ [c]) ls
     else ls)"
  by pat_completeness auto
termination
  by (relation "measures [\<lambda>(cs, cur, ls). length cs, \<lambda>(cs, cur, ls). length cur]") (auto simp: MAX_LINE_LENGTH_def)

primrec print_lines :: "bytes list \<Rightarrow> console \<Rightarrow> console option" where
  "print_lines [] t = Some t"
| "print_lines (l # ls) t = do { t \<leftarrow> printf (cstr ''%s'' @ [10]) [Str (Some l)] t; print_lines ls t }"

definition page_rows :: nat where "page_rows = 24"

definition print_status :: "pager \<Rightarrow> console \<Rightarrow> console option" where
  "print_status p t =
    (if line_count p \<le> page_rows then printf (cstr ''(END) q:quit'') [] t
     else let percent = (current_line p * 100) div (line_count p - page_rows + 1)
          in if current_line p + page_rows \<ge> line_count p then printf (cstr ''(END %lu%%) q:quit'') [Slot (of_nat percent)] t
             else printf (cstr ''(%lu%%) j/%c:down k/%c:up q:quit'') [Slot (of_nat percent), Slot 25, Slot 24] t)"

definition display_current_page :: "pager \<Rightarrow> console \<Rightarrow> console option" where
  "display_current_page p t =
    do {
      t \<leftarrow> print_lines (take page_rows (drop (current_line p) (lines p))) (terminal_clear t);
      let old_color = terminal_color t;
      t \<leftarrow> print_status p (t\<lparr>terminal_color := vga_color VGA_COLOR_BLACK VGA_COLOR_WHITE, terminal_row := VGA_HEIGHT - 1, terminal_column := 0\<rparr>);
      Some (update_cursor_position 79 24 (t\<lparr>terminal_color := old_color\<rparr>))
    }"

type_synonym reading = "pager \<times> console \<times> fatfs"

definition init_pager :: "pager \<Rightarrow> pager" where
  "init_pager p = \<lparr>lines = [], current_line = 0, pager_active = False\<rparr>"

definition show_text :: "bytes \<Rightarrow> reading \<Rightarrow> reading option" where
  "show_text str = (\<lambda>(p, t, s).
    let t = hide_cursor (screen_save t);
        p = p\<lparr>lines := split_text str [] [], current_line := 0, pager_active := True\<rparr>
    in do { t \<leftarrow> display_current_page p t; Some (p, hide_cursor t, s) })"

definition pager_clear :: "reading \<Rightarrow> reading option" where
  "pager_clear = (\<lambda>(p, t, s).
    do { (t, s) \<leftarrow> print_prompt (show_cursor (screen_restore t), s); Some (p\<lparr>pager_active := False\<rparr>, t, s) })"

text \<open>The new first line; \<open>None\<close> when the page stays as it is.\<close>

definition new_line :: "u8 \<Rightarrow> pager \<Rightarrow> nat option" where
  "new_line c p =
    (let k = current_line p; n = line_count p
     in if c = 106 \<or> c = 0x1B then (if k + page_rows < n then Some (k + 1) else None)
        else if c = 107 then (if k > 0 then Some (k - 1) else None)
        else if c = 32 \<or> c = 0x04 then
          (if k + page_rows < n then Some (if k + page_rows + page_rows > n then n - page_rows else k + page_rows) else None)
        else if c = 0x15 then (if k > 0 then Some (if k \<ge> page_rows then k - page_rows else 0) else None)
        else if c = 103 then (if k > 0 then Some 0 else None)
        else if c = 71 then (if k + page_rows < n then Some (n - page_rows) else None)
        else None)"

definition pager_process_keypress :: "u8 \<Rightarrow> reading \<Rightarrow> reading option" where
  "pager_process_keypress c = (\<lambda>(p, t, s).
    if \<not> pager_active p then Some (p, t, s)
    else if c = 113 then pager_clear (p, t, s)
    else case new_line c p of
      None \<Rightarrow> Some (p, t, s)
    | Some k \<Rightarrow> let p = p\<lparr>current_line := k\<rparr> in do { t \<leftarrow> display_current_page p t; Some (p, hide_cursor t, s) })"

section \<open>Splitting\<close>

text \<open>The lines of the text, each cut into pieces of at most 255 characters.\<close>

function chunk :: "bytes \<Rightarrow> bytes list" where
  "chunk l = (if length l \<le> 255 then [l] else take 255 l # chunk (drop 255 l))"
  by pat_completeness auto
termination by (relation "measure length") auto

declare chunk.simps [simp del]

function text_lines :: "bytes \<Rightarrow> bytes list" where
  "text_lines xs =
    (if xs = [] then []
     else chunk (takeWhile (\<lambda>c. c \<noteq> 10) xs) @
          (case dropWhile (\<lambda>c. c \<noteq> 10) xs of [] \<Rightarrow> [] | _ # r \<Rightarrow> text_lines r))"
  by pat_completeness auto
termination
proof (relation "measure length", goal_cases)
  case (2 xs x21 x22)
  then show ?case using length_dropWhile_le [of "\<lambda>c. c \<noteq> 10" xs] by simp
qed simp

declare text_lines.simps [simp del]

lemma takeWhile_line:
  "10 \<notin> set cur \<Longrightarrow> takeWhile (\<lambda>c. c \<noteq> 10) (cur @ ys) = cur @ takeWhile (\<lambda>c. c \<noteq> (10 :: u8)) ys"
  "10 \<notin> set cur \<Longrightarrow> dropWhile (\<lambda>c. c \<noteq> 10) (cur @ ys) = dropWhile (\<lambda>c. c \<noteq> (10 :: u8)) ys"
  by (induction cur) auto

lemma text_lines_newline:
  assumes "10 \<notin> set cur" "length cur \<le> 255"
  shows "text_lines (cur @ 10 # cs) = cur # text_lines cs"
proof -
  show ?thesis using assms(2) by (subst text_lines.simps) (simp add: takeWhile_line [OF assms(1)] chunk.simps [of cur])
qed

lemma text_lines_cut:
  assumes "10 \<notin> set cur" "length cur = 255" "c \<noteq> 10"
  shows "text_lines (cur @ c # cs) = cur # text_lines (c # cs)"
proof -
  have t: "takeWhile (\<lambda>c. c \<noteq> 10) (cur @ c # cs) = cur @ takeWhile (\<lambda>c. c \<noteq> 10) (c # cs)"
    "dropWhile (\<lambda>c. c \<noteq> 10) (cur @ c # cs) = dropWhile (\<lambda>c. c \<noteq> 10) (c # cs)"
    by (rule takeWhile_line [OF assms(1)])+
  have "chunk (cur @ takeWhile (\<lambda>c. c \<noteq> 10) (c # cs)) = cur # chunk (takeWhile (\<lambda>c. c \<noteq> 10) (c # cs))"
    using assms(2,3) by (subst chunk.simps) simp
  then show ?thesis by (subst (1 2) text_lines.simps) (simp only: t, simp)
qed

lemma text_lines_rest:
  assumes "10 \<notin> set cur" "length cur \<le> 255"
  shows "text_lines cur = (if cur = [] then [] else [cur])"
proof -
  have t: "takeWhile (\<lambda>c. c \<noteq> 10) cur = cur" "dropWhile (\<lambda>c. c \<noteq> 10) cur = []" using takeWhile_line [OF assms(1), of "[]"] by simp_all
  show ?thesis using assms(2) by (subst text_lines.simps) (simp add: t chunk.simps [of cur] del: takeWhile_eq_all_conv dropWhile_eq_Nil_conv)
qed

lemma split_text_lines:
  assumes "10 \<notin> set cur" "length cur \<le> 255" "length ls \<le> MAX_LINES"
  shows "split_text cs cur ls = ls @ take (MAX_LINES - length ls) (text_lines (cur @ cs))"
  using assms
proof (induction cs cur ls rule: split_text.induct)
  case (1 cur ls)
  then show ?case by (auto simp: text_lines_rest)
next
  case (2 c cs cur ls)
  show ?case
  proof (cases "length ls < MAX_LINES")
    case True
    then have s: "MAX_LINES - length ls = Suc (MAX_LINES - length (ls @ [cur]))" by simp
    consider "c = 10" | "c \<noteq> 10" "length cur = 255" | "c \<noteq> 10" "length cur < 255" using 2(5) by linarith
    then show ?thesis
    proof cases
      case 1
      then show ?thesis using True 2 s by (simp add: text_lines_newline)
    next
      case c2: 2
      then show ?thesis using True 2 s by (simp add: text_lines_cut MAX_LINE_LENGTH_def)
    next
      case 3
      then show ?thesis using True 2 by (simp add: MAX_LINE_LENGTH_def)
    qed
  next
    case False
    then show ?thesis using 2 by simp
  qed
qed

text \<open>
  the pager splits a text into its lines, cuts longer ones into pieces of 255 characters, and keeps the first 1000.
\<close>

theorem split_text_correct: "split_text str [] [] = take 1000 (text_lines str)"
  using split_text_lines [of "[]" "[]" str] by (simp add: MAX_LINES_def)

section \<open>Moving\<close>

definition page_ok :: "pager \<Rightarrow> bool" where
  "page_ok p \<longleftrightarrow> current_line p \<le> line_count p - page_rows"

text \<open>The line a key asks for, when the last page that may be reached starts with line \<open>n\<close>.\<close>

definition target_line :: "u8 \<Rightarrow> nat \<Rightarrow> nat \<Rightarrow> nat" where
  "target_line c n k =
    (if c = 106 \<or> c = 0x1B then min (k + 1) n else if c = 107 then k - 1
     else if c = 32 \<or> c = 0x04 then min (k + 24) n else if c = 0x15 then k - 24
     else if c = 103 then 0 else if c = 71 then n else k)"

lemma new_line_target:
  assumes "page_ok p"
  shows "(case new_line c p of None \<Rightarrow> current_line p | Some k \<Rightarrow> k) = target_line c (line_count p - 24) (current_line p)"
  using assms by (auto simp: new_line_def target_line_def page_ok_def page_rows_def Let_def)

lemma new_line_changes: "page_ok p \<Longrightarrow> new_line c p = Some k \<Longrightarrow> k \<noteq> current_line p"
  by (auto simp: new_line_def page_ok_def page_rows_def Let_def split: if_splits)

text \<open>
  each key of the pager moves to the line it names, clipped so that the last page is full, and the page is drawn again only
  when the line changes. The first line shown always leaves a full page, or is the first line of the text.
\<close>

theorem pager_keys_correct:
  assumes "pager_active p" "page_ok p" "c \<noteq> 113"
  defines "k \<equiv> target_line c (line_count p - 24) (current_line p)"
  shows "page_ok (p\<lparr>current_line := k\<rparr>) \<and>
    pager_process_keypress c (p, t, s) =
      (if k = current_line p then Some (p, t, s)
       else map_option (\<lambda>t. (p\<lparr>current_line := k\<rparr>, hide_cursor t, s)) (display_current_page (p\<lparr>current_line := k\<rparr>) t))"
proof
  show "page_ok (p\<lparr>current_line := k\<rparr>)" using assms(2) by (auto simp: k_def page_ok_def target_line_def page_rows_def)
  have k: "(case new_line c p of None \<Rightarrow> current_line p | Some k \<Rightarrow> k) = k" unfolding k_def by (rule new_line_target [OF assms(2)])
  show "pager_process_keypress c (p, t, s) =
      (if k = current_line p then Some (p, t, s)
       else map_option (\<lambda>t. (p\<lparr>current_line := k\<rparr>, hide_cursor t, s)) (display_current_page (p\<lparr>current_line := k\<rparr>) t))"
  proof (cases "new_line c p")
    case None
    then show ?thesis using k assms(1,3) by (simp add: pager_process_keypress_def)
  next
    case (Some j)
    then have "j = k" "k \<noteq> current_line p" using k new_line_changes [OF assms(2) Some] by simp_all
    then show ?thesis using Some assms(1,3) by (cases "display_current_page (p\<lparr>current_line := k\<rparr>) t") (simp_all add: pager_process_keypress_def Let_def)
  qed
qed

theorem pager_keys_correct_witness:
  "\<forall>t s. pager_process_keypress 71 (\<lparr>lines = replicate 30 [], current_line = 0, pager_active = True\<rparr>, t, s) =
     map_option (\<lambda>t. (\<lparr>lines = replicate 30 [], current_line = 6, pager_active = True\<rparr>, hide_cursor t, s))
       (display_current_page \<lparr>lines = replicate 30 [], current_line = 6, pager_active = True\<rparr> t)"
proof (intro allI)
  fix t s
  show "pager_process_keypress 71 (\<lparr>lines = replicate 30 [], current_line = 0, pager_active = True\<rparr>, t, s) =
     map_option (\<lambda>t. (\<lparr>lines = replicate 30 [], current_line = 6, pager_active = True\<rparr>, hide_cursor t, s))
       (display_current_page \<lparr>lines = replicate 30 [], current_line = 6, pager_active = True\<rparr> t)"
    using pager_keys_correct [of "\<lparr>lines = replicate 30 [], current_line = 0, pager_active = True\<rparr>" 71 t s]
    by (simp add: target_line_def page_ok_def)
qed

section \<open>The page\<close>

lemma type_line:
  assumes "10 \<notin> set l" "length l < 80"
  shows "fold (type_char color) (l @ [10]) (B @ [[]]) = B @ [map (\<lambda>c. vga_entry c color) l, []]"
proof -
  have "fold (type_char color) l (B @ [k]) = B @ [k @ map (\<lambda>c. vga_entry c color) l]" if "length k + length l < 80" "10 \<notin> set l" for k l
    using that
  proof (induction l arbitrary: k)
    case (Cons c l)
    then have "type_char color c (B @ [k]) = B @ [k @ [vga_entry c color]]" by (simp add: type_char_def Let_def)
    then show ?case using Cons by simp
  qed simp
  from this [of "[]" l] show ?thesis using assms by (simp add: type_char_def)
qed

lemma print_line_text: "37 \<notin> set l \<Longrightarrow> printf (cstr ''%s'' @ [10]) [Str (Some l)] t = Some (put_text (l @ [10]) t)"
proof -
  assume p: "37 \<notin> set l"
  have c: "cstr ''%s'' @ [10] = [37, 115, 10]" by code_simp
  have s: "parse_spec [115, 10] = (\<lparr>f_width = 0, f_pad_zero = False, f_left = False, f_precision = -1, f_size_t = False, f_long = False, f_long_long = False\<rparr>, [115, 10])"
    by code_simp
  show ?thesis unfolding c by (simp add: printf_def vprintf_def s convert_def arg_str_def print_str_def format_loop_plain [OF p])
qed

lemma print_lines_displays:
  assumes "displays (B @ [[]]) t" "\<forall>l \<in> set ls. 10 \<notin> set l \<and> 37 \<notin> set l \<and> length l < 80"
  shows "\<exists>t'. print_lines ls t = Some t' \<and> displays (B @ map (map (\<lambda>c. vga_entry c (terminal_color t))) ls @ [[]]) t' \<and> terminal_color t' = terminal_color t"
  using assms
proof (induction ls arbitrary: B t)
  case (Cons l ls)
  let ?t = "put_text (l @ [10]) t" and ?e = "map (\<lambda>c. vga_entry c (terminal_color t)) l"
  have d: "displays ((B @ [?e]) @ [[]]) ?t" "terminal_color ?t = terminal_color t"
    using put_text_displays [OF Cons.prems(1), of "l @ [10]"] type_line [of l "terminal_color t" B] Cons.prems(2) by simp_all
  have "printf (cstr ''%s'' @ [10]) [Str (Some l)] t = Some ?t" using Cons.prems(2) by (intro print_line_text) simp
  moreover obtain t' where "print_lines ls ?t = Some t'"
    "displays ((B @ [?e]) @ map (map (\<lambda>c. vga_entry c (terminal_color t))) ls @ [[]]) t'" "terminal_color t' = terminal_color t"
    using Cons.IH [OF d(1)] Cons.prems(2) d(2) by auto
  ultimately show ?case by simp
qed simp

text \<open>Going to the last row: the rows in between are blank.\<close>

lemma laid_out_last_row:
  assumes "displays (B @ [[]]) t" "length B \<le> 24"
  shows "laid_out (B @ replicate (24 - length B) [] @ [[]]) (t\<lparr>terminal_color := color, terminal_row := VGA_HEIGHT - 1, terminal_column := 0\<rparr>)"
proof -
  let ?L = "B @ replicate (24 - length B) [] @ [[]]"
  have l: "length ?L = 25" using assms(2) by simp
  have "line_cell ?L j x = line_cell (B @ [[]]) j x" for j x
    by (cases "j < length B") (auto simp: line_cell_def nth_append nth_Cons')
  then have "cells_show ?L 0 t" using assms by (simp add: displays_def laid_out_def cells_show_def)
  then show ?thesis unfolding laid_out_def l by (simp add: cells_show_def cell_def well_broken_def VGA_HEIGHT_def)
qed

abbreviation black_on_white :: u8 where
  "black_on_white \<equiv> vga_color VGA_COLOR_BLACK VGA_COLOR_WHITE"

definition percent_text :: "pager \<Rightarrow> bytes" where
  "percent_text p = print_unsigned (of_nat ((current_line p * 100) div (line_count p - 24 + 1))) 10 0 False False"

definition pager_status :: "pager \<Rightarrow> bytes" where
  "pager_status p =
    (if line_count p \<le> 24 then cstr ''(END) q:quit''
     else if current_line p + 24 \<ge> line_count p then cstr ''(END '' @ percent_text p @ cstr ''%) q:quit''
     else cstr ''('' @ percent_text p @ cstr ''%) j/'' @ [25] @ cstr '':down k/'' @ [24] @ cstr '':up q:quit'')"

lemma print_status_text: "print_status p t = Some (put_text (pager_status p) t)"
proof -
  have c: "cstr ''(END %lu%%) q:quit'' = [40, 69, 78, 68, 32, 37, 108, 117, 37, 37, 41, 32, 113, 58, 113, 117, 105, 116]"
    "cstr ''(%lu%%) j/%c:down k/%c:up q:quit'' = [40, 37, 108, 117, 37, 37, 41, 32, 106, 47, 37, 99, 58, 100, 111, 119, 110, 32, 107, 47, 37, 99, 58, 117, 112, 32, 113, 58, 113, 117, 105, 116]"
    "cstr ''(END '' = [40, 69, 78, 68, 32]" "cstr ''%) q:quit'' = [37, 41, 32, 113, 58, 113, 117, 105, 116]" "cstr ''('' = [40]"
    "cstr ''%) j/'' = [37, 41, 32, 106, 47]" "cstr '':down k/'' = [58, 100, 111, 119, 110, 32, 107, 47]" "cstr '':up q:quit'' = [58, 117, 112, 32, 113, 58, 113, 117, 105, 116]"
    by code_simp+
  have e: "37 \<notin> set (cstr ''(END) q:quit'')" by code_simp
  note f = printf_def vprintf_def parse_spec_def eat_def is_digit_def convert_def arg_slot_def Let_def
  show ?thesis
    unfolding print_status_def pager_status_def page_rows_def percent_text_def Let_def c
    by (simp add: printf_plain [OF e]) (simp add: f)
qed

text \<open>
  C31: a page shows its lines from the top of the screen, one to a row, and the status in black on white in the last row, provided the lines
  are shorter than the screen is wide and contain no percent sign.
\<close>

theorem page_shows_lines:
  assumes "page = take 24 (drop (current_line p) (lines p))" "\<forall>l \<in> set page. 10 \<notin> set l \<and> 37 \<notin> set l \<and> length l < 80"
  shows "\<exists>t'. display_current_page p t = Some t' \<and>
    laid_out (fold (type_char black_on_white) (pager_status p)
      (map (map (\<lambda>c. vga_entry c white_on_black)) page @ replicate (24 - length page) [] @ [[]])) t'"
proof -
  have i: "displays ([] @ [[]]) (terminal_clear t)" "terminal_color (terminal_clear t) = white_on_black"
    using terminal_initialize_displays [of t] by (simp_all add: terminal_clear_def)
  let ?B = "map (map (\<lambda>c. vga_entry c white_on_black)) page"
  obtain t1 where 1: "print_lines page (terminal_clear t) = Some t1" "displays (?B @ [[]]) t1"
    using print_lines_displays [OF i(1) assms(2)] i(2) by auto
  define u where "u = t1\<lparr>terminal_color := black_on_white, terminal_row := VGA_HEIGHT - 1, terminal_column := 0\<rparr>"
  have l: "laid_out (?B @ replicate (24 - length page) [] @ [[]]) u" "terminal_color u = black_on_white"
    using laid_out_last_row [OF 1(2), of black_on_white] assms(1) by (simp_all add: u_def)
  define t2 where "t2 = put_text (pager_status p) u"
  have ne: "pager_status p \<noteq> []" by (auto simp: pager_status_def cstr_def)
  then obtain c cs where st: "pager_status p = c # cs" by (cases "pager_status p") auto
  have "laid_out (fold (type_char black_on_white) (pager_status p) (?B @ replicate (24 - length page) [] @ [[]])) t2"
    using put_text_displays [OF terminal_putchar_displays(1) [OF l(1), of c], of cs] terminal_putchar_displays(2) [OF l(1), of c] l(2)
    by (simp add: t2_def st displays_laid_out)
  moreover have "display_current_page p t = Some (update_cursor_position 79 24 (t2\<lparr>terminal_color := terminal_color t1\<rparr>))"
    using 1(1) unfolding display_current_page_def page_rows_def assms(1) [symmetric]
    by (simp add: Let_def print_status_text u_def t2_def)
  moreover have "laid_out L (update_cursor_position x y (v\<lparr>terminal_color := d\<rparr>)) = laid_out L v" for L x y v d
    by (simp add: laid_out_def cells_show_def cell_def update_cursor_position_def set_cursor_address_def write_crtc_def)
  ultimately show ?thesis by auto
qed

theorem page_shows_lines_witness:
  "\<forall>t. \<exists>t'. display_current_page \<lparr>lines = [[104, 105]], current_line = 0, pager_active = True\<rparr> t = Some t' \<and>
     laid_out (fold (type_char black_on_white) (cstr ''(END) q:quit'')
       (map (\<lambda>c. vga_entry c white_on_black) [104, 105] # replicate 23 [] @ [[]])) t'"
proof
  fix t
  show "\<exists>t'. display_current_page \<lparr>lines = [[104, 105]], current_line = 0, pager_active = True\<rparr> t = Some t' \<and>
     laid_out (fold (type_char black_on_white) (cstr ''(END) q:quit'')
       (map (\<lambda>c. vga_entry c white_on_black) [104, 105] # replicate 23 [] @ [[]])) t'"
    using page_shows_lines [of "[[104, 105]]" "\<lparr>lines = [[104, 105]], current_line = 0, pager_active = True\<rparr>" t]
    by (simp add: pager_status_def)
qed

end
