(* ===== verification/Shell_Commands.thy ===== *)
theory Shell_Commands
  imports Pager Editor Process_Manager Klib
begin

text \<open>
  The commands of the shell, \<open>shell/commands/\<close>: files, directories, aliases, the history and the process commands, composed
  from the file system, the process manager, the console, the pager and the editor.

  \<open>world\<close> is the state the commands share. What they take from outside the model is in \<open>platform\<close>: the processor they run on,
  the address at which \<^verbatim>\<open>operator new\<close> puts a process, the bytes that lie in a fresh buffer on the stack or the heap,
  and a bound for the recursion of the directory removal. The messages of the file system driver about disk errors are not part
  of the console here. \<open>None\<close> stands for undefined behaviour or a call that does not return.
\<close>

section \<open>State\<close>

record platform =
  pl_cpu :: u32
  pl_new :: "kernel \<Rightarrow> u64"
  pl_junk :: "nat \<Rightarrow> u8"
  pl_depth :: nat

record world =
  krn :: kernel
  con :: console
  vol :: fatfs
  edt :: editor
  pgr :: pager
  shell_pid :: pid_t
  aliases :: "(bytes \<times> bytes) list"
  last_file_size :: u32

definition say :: "bytes \<Rightarrow> arg list \<Rightarrow> world \<Rightarrow> world option" where
  "say fmt args w = map_option (\<lambda>t. w\<lparr>con := t\<rparr>) (printf fmt args (con w))"

definition put :: "bytes \<Rightarrow> world \<Rightarrow> world" where
  "put bs w = w\<lparr>con := put_text bs (con w)\<rparr>"

text \<open>Every command runs inside a process of its name, which is ended when the command returns.\<close>

definition in_process :: "platform \<Rightarrow> bytes \<Rightarrow> (world \<Rightarrow> world option) \<Rightarrow> world \<Rightarrow> world option" where
  "in_process pl name body w =
    do {
      (pid, k) \<leftarrow> create_process (pl_new pl (krn w)) name (shell_pid w) (krn w);
      w \<leftarrow> body (w\<lparr>krn := k\<rparr>);
      k \<leftarrow> terminate_process (pl_cpu pl) pid (krn w);
      Some (w\<lparr>krn := k\<rparr>)
    }"

text \<open>An operation of the file system whose result is ignored.\<close>

definition on_volume :: "(fatfs \<Rightarrow> (bool \<times> fatfs) option) \<Rightarrow> world \<Rightarrow> world option" where
  "on_volume f w = map_option (\<lambda>(_, s). w\<lparr>vol := s\<rparr>) (f (vol w))"

section \<open>Directory listings\<close>

text \<open>\<^verbatim>\<open>uint8_t buffer[1024]\<close> filled by \<open>readFile\<close>; what it does not reach keeps the bytes of the stack.\<close>

definition read_buffer :: "platform \<Rightarrow> u32 \<Rightarrow> nat \<Rightarrow> fatfs \<Rightarrow> bytes option" where
  "read_buffer pl cluster n s =
    map_option (\<lambda>data. map (\<lambda>i. if i < length data then data ! i else pl_junk pl i) [0..<n]) (readFile cluster n s)"

text \<open>The loop over the 32 entries: it ends at a zero byte and skips deleted entries.\<close>

definition live_entries :: "bytes \<Rightarrow> bytes list" where
  "live_entries buffer = filter (\<lambda>e. get_byte e 0 \<noteq> 0xE5)
     (takeWhile (\<lambda>e. get_byte e 0 \<noteq> 0) (map (\<lambda>i. take 32 (drop (32 * i) buffer)) [0..<32]))"

definition raw_name :: "bytes \<Rightarrow> bytes" where
  "raw_name e = takeWhile (\<lambda>c. c \<noteq> 0) (take 11 e)"

definition list_callback :: "bytes \<Rightarrow> u8 \<Rightarrow> u32 \<Rightarrow> world \<Rightarrow> world option" where
  "list_callback name attributes sz w =
    (if name = [46] \<or> name = [46, 46] then Some w
     else do {
       w \<leftarrow> (if attributes AND 0x10 \<noteq> 0 then say (cstr ''d '') [] w
             else do {
               w \<leftarrow> say (cstr ''f '') [] w;
               if sz < 1024 then say (cstr ''(%u B) '') [Slot (ucast sz)] w
               else if sz < 1024 * 1024 then say (cstr ''(%u KB) '') [Slot (ucast (sz div 1024))] w
               else say (cstr ''(%u MB) '') [Slot (ucast (sz div (1024 * 1024)))] w
             });
       say (cstr ''%s'' @ [10]) [Str (Some name)] w
     })"

fun for_all :: "('a \<Rightarrow> world \<Rightarrow> world option) \<Rightarrow> 'a list \<Rightarrow> world \<Rightarrow> world option" where
  "for_all f [] w = Some w"
| "for_all f (x # xs) w = do { w \<leftarrow> f x w; for_all f xs w }"

definition list_entry :: "bytes \<Rightarrow> world \<Rightarrow> world option" where
  "list_entry e w =
    (if entry_name e = [] then Some w else list_callback (entry_name e) (get_byte e 11) (get_le32 e 28) w)"

definition list_cluster :: "platform \<Rightarrow> u32 \<Rightarrow> world \<Rightarrow> world option" where
  "list_cluster pl cluster w = do { buffer \<leftarrow> read_buffer pl cluster 1024 (vol w); for_all list_entry (live_entries buffer) w }"

definition given :: "bytes option \<Rightarrow> bool" where
  "given path \<longleftrightarrow> path \<noteq> None \<and> path \<noteq> Some []"

definition ls_body :: "platform \<Rightarrow> bytes option \<Rightarrow> world \<Rightarrow> world option" where
  "ls_body pl path w =
    (if given path then do {
      found \<leftarrow> findFile (the path) (vol w);
      case found of
        None \<Rightarrow> say (cstr ''Directory not found: %s'' @ [10]) [Str path] w
      | Some (cluster, _, attributes) \<Rightarrow>
          if attributes AND 0x10 = 0 then say (cstr ''Not a directory: %s'' @ [10]) [Str path] w
          else list_cluster pl cluster w
    }
    else list_cluster pl (m_currentDirectoryCluster (vol w)) w)"

definition cmd_ls :: "platform \<Rightarrow> bytes option \<Rightarrow> world \<Rightarrow> world option" where
  "cmd_ls pl path = in_process pl (cstr ''ls'') (ls_body pl path)"

section \<open>Files and directories\<close>

definition mkdir_body :: "platform \<Rightarrow> bytes option \<Rightarrow> world \<Rightarrow> world option" where
  "mkdir_body pl path w =
    (if \<not> given path then say (cstr ''mkdir: missing operand'' @ [10]) [] w
    else do {
      found \<leftarrow> findFile (the path) (vol w);
      if found \<noteq> None then say (cstr ''%s already exists'' @ [10]) [Str path] w
      else on_volume (createDirectory (the path)) w
    })"

definition cmd_mkdir :: "platform \<Rightarrow> bytes option \<Rightarrow> world \<Rightarrow> world option" where
  "cmd_mkdir pl path = in_process pl (cstr ''mkdir'') (mkdir_body pl path)"

definition touch_body :: "platform \<Rightarrow> bytes option \<Rightarrow> world \<Rightarrow> world option" where
  "touch_body pl path w =
    (if \<not> given path then say (cstr ''touch: missing operand'' @ [10]) [] w
    else do {
      found \<leftarrow> findFile (the path) (vol w);
      if found \<noteq> None then say (cstr ''%s already exists'' @ [10]) [Str path] w
      else on_volume (createFile (the path) 0x20) w
    })"

definition cmd_touch :: "platform \<Rightarrow> bytes option \<Rightarrow> world \<Rightarrow> world option" where
  "cmd_touch pl path = in_process pl (cstr ''touch'') (touch_body pl path)"

text \<open>The two operands of \<^verbatim>\<open>mv\<close>: up to the first blank, and behind the blanks that follow. A null pointer is not checked.\<close>

definition split_operands :: "bytes \<Rightarrow> bytes \<times> bytes" where
  "split_operands args =
    (takeWhile (\<lambda>c. c \<noteq> 32) args, dropWhile (\<lambda>c. c = 32) (dropWhile (\<lambda>c. c \<noteq> 32) args))"

definition mv_body :: "platform \<Rightarrow> bytes option \<Rightarrow> world \<Rightarrow> world option" where
  "mv_body pl args w =
    (case args of
      None \<Rightarrow> None
    | Some as \<Rightarrow>
        let (source, dest) = split_operands as
        in if source = [] \<or> dest = [] then say (cstr ''mv: missing source or destination operand'' @ [10]) [] w
           else do {
             found \<leftarrow> findFile source (vol w);
             if found = None then say (cstr ''mv: cannot stat '' @ [39] @ cstr ''%s'' @ [39] @ cstr '': No such file or directory'' @ [10]) [Str (Some source)] w
             else on_volume (renameFile source dest) w
           })"

definition cmd_mv :: "platform \<Rightarrow> bytes option \<Rightarrow> world \<Rightarrow> world option" where
  "cmd_mv pl args = in_process pl (cstr ''mv'') (mv_body pl args)"

definition remove_found :: "platform \<Rightarrow> bytes \<Rightarrow> u8 \<Rightarrow> world \<Rightarrow> world option" where
  "remove_found pl name attributes w =
    (if attributes AND 0x10 \<noteq> 0 then on_volume (deleteDirectoryRecursive (pl_depth pl) name) w
     else on_volume (deleteFile name) w)"

text \<open>With a star in the operand, the names of the root directory that match are removed, each looked up in the current directory.\<close>

definition remove_match :: "platform \<Rightarrow> bytes \<Rightarrow> bytes \<Rightarrow> world \<Rightarrow> world option" where
  "remove_match pl pattern e w =
    (if match_wildcard pattern (raw_name e) then do {
       found \<leftarrow> findFile (raw_name e) (vol w);
       case found of None \<Rightarrow> Some w | Some (_, _, attributes) \<Rightarrow> remove_found pl (raw_name e) attributes w
     } else Some w)"

definition rm_body :: "platform \<Rightarrow> bytes option \<Rightarrow> world \<Rightarrow> world option" where
  "rm_body pl path w =
    (if \<not> given path then say (cstr ''rm: missing operand'' @ [10]) [] w
    else if star \<in> set (the path) then do {
      buffer \<leftarrow> read_buffer pl ROOT_CLUSTER 1024 (vol w);
      for_all (remove_match pl (the path)) (live_entries buffer) w
    }
    else do {
      found \<leftarrow> findFile (the path) (vol w);
      case found of
        None \<Rightarrow> say (cstr ''%s: no such file or directory'' @ [10]) [Str path] w
      | Some (_, _, attributes) \<Rightarrow> remove_found pl (the path) attributes w
    })"

definition cmd_rm :: "platform \<Rightarrow> bytes option \<Rightarrow> world \<Rightarrow> world option" where
  "cmd_rm pl path = in_process pl (cstr ''rm'') (rm_body pl path)"

definition go_root :: "fatfs \<Rightarrow> fatfs" where
  "go_root s = set_current_directory_cluster ROOT_CLUSTER (set_current_dir_name (Some [47]) (set_current_path (Some [47]) s))"

text \<open>The new path is made by \<open>snprintf\<close>, which copies its format.\<close>

definition new_path :: "fatfs \<Rightarrow> bytes" where
  "new_path s = (if m_currentPath s = [47] then cstr ''/%s'' else cstr ''%s/%s'')"

definition enter :: "bytes \<Rightarrow> bytes \<Rightarrow> fatfs \<Rightarrow> fatfs" where
  "enter path e s =
    (if get_byte e 11 AND 0x10 = 0 then s
     else let dir_cluster = ucast (get_le16 e 26); p = new_path s
          in set_current_directory_cluster dir_cluster (set_current_dir_name (Some path) (set_current_path (Some p)
               (snd (push_directory path p dir_cluster s)))))"

definition cd :: "platform \<Rightarrow> bytes option \<Rightarrow> fatfs \<Rightarrow> fatfs option" where
  "cd pl path s =
    (if \<not> given path \<or> path = Some [47] then Some (go_root s)
     else if path = Some [46, 46] then (case pop_directory s of (True, s) \<Rightarrow> Some s | (False, s) \<Rightarrow> Some (go_root s))
     else do {
       buffer \<leftarrow> read_buffer pl (m_currentDirectoryCluster s) 1024 s;
       Some (case find (\<lambda>e. entry_name e = the path) (live_entries buffer) of None \<Rightarrow> s | Some e \<Rightarrow> enter (the path) e s)
     })"

definition cd_body :: "platform \<Rightarrow> bytes option \<Rightarrow> world \<Rightarrow> world option" where
  "cd_body pl path w =
    (map_option (\<lambda>s. w\<lparr>vol := s\<rparr>) (cd pl path (vol w)))"

definition cmd_cd :: "platform \<Rightarrow> bytes option \<Rightarrow> world \<Rightarrow> world option" where
  "cmd_cd pl path = in_process pl (cstr ''cd'') (cd_body pl path)"

section \<open>Showing files\<close>

text \<open>The buffers that \<^verbatim>\<open>cat\<close> and \<^verbatim>\<open>less\<close> take from the heap are assumed to be available.\<close>

definition shown :: "u8 \<Rightarrow> u8" where
  "shown b = (if b = 10 \<or> 32 \<le> b \<and> b \<le> 126 then b else 46)"

text \<open>Each round reads from the start of the file again: \<open>offset\<close> is counted but never used.\<close>

function cat_rounds :: "platform \<Rightarrow> u32 \<Rightarrow> nat \<Rightarrow> bool \<Rightarrow> world \<Rightarrow> (bool \<times> world) option" where
  "cat_rounds pl cluster remaining ends_with_newline w =
    (if remaining > 0 then
       let n = min remaining 4096
       in do {
            buffer \<leftarrow> read_buffer pl cluster n (vol w);
            cat_rounds pl cluster (remaining - n) (last buffer = 10) (put (map shown buffer) w)
          }
     else Some (ends_with_newline, w))"
  by pat_completeness auto
termination by (relation "measure (\<lambda>(pl, cluster, remaining, b, w). remaining)") auto

declare cat_rounds.simps [simp del]

definition cat_file :: "platform \<Rightarrow> u32 \<Rightarrow> u32 \<Rightarrow> world \<Rightarrow> world option" where
  "cat_file pl cluster sz w =
    (if sz = 0 then Some w
     else do {
       (ends_with_newline, w) \<leftarrow> cat_rounds pl cluster (unat sz) False w;
       Some (if ends_with_newline then w else put [10] w)
     })"

definition cat_body :: "platform \<Rightarrow> bytes option \<Rightarrow> world \<Rightarrow> world option" where
  "cat_body pl path w =
    (if \<not> given path then say (cstr ''cat: missing operand'' @ [10]) [] w
    else do {
      found \<leftarrow> findFile (the path) (vol w);
      case found of
        None \<Rightarrow> say (cstr ''File not found: %s'' @ [10]) [Str path] w
      | Some (cluster, sz, attributes) \<Rightarrow>
          if attributes AND 0x10 \<noteq> 0 then say (cstr ''%s is a directory'' @ [10]) [Str path] w
          else cat_file pl cluster sz w
    })"

definition cmd_cat :: "platform \<Rightarrow> bytes option \<Rightarrow> world \<Rightarrow> world option" where
  "cmd_cat pl path = in_process pl (cstr ''cat'') (cat_body pl path)"

definition show_in_pager :: "bytes \<Rightarrow> world \<Rightarrow> world option" where
  "show_in_pager str w =
    do { (p, t, s) \<leftarrow> show_text str (pgr w, con w, vol w); Some (w\<lparr>pgr := p, con := t, vol := s\<rparr>) }"

text \<open>For the largest size the length of the buffer wraps around to 0.\<close>

definition less_body :: "platform \<Rightarrow> bytes option \<Rightarrow> world \<Rightarrow> world option" where
  "less_body pl path w =
    (case path of
      None \<Rightarrow> say (cstr ''Usage: less <path>'' @ [10]) [] w
    | Some name \<Rightarrow> do {
        buffer \<leftarrow> read_buffer pl ROOT_CLUSTER 1024 (vol w);
        case find (\<lambda>e. raw_name e = name) (live_entries buffer) of
          None \<Rightarrow> say (cstr ''less: cannot read '' @ [39] @ cstr ''%s'' @ [39] @ cstr '': No such file'' @ [10]) [Str path] w
        | Some e \<Rightarrow> if get_le32 e 28 = 0xFFFFFFFF then None else do {
            str \<leftarrow> read_buffer pl (ucast (get_le16 e 26)) (unat (get_le32 e 28)) (vol w);
            show_in_pager (takeWhile (\<lambda>c. c \<noteq> 0) str) w
          }
      })"

definition cmd_less :: "platform \<Rightarrow> bytes option \<Rightarrow> world \<Rightarrow> world option" where
  "cmd_less pl path = in_process pl (cstr ''less'') (less_body pl path)"

text \<open>The argument is printed as a format; without one the code reads through a null pointer.\<close>

definition echo_body :: "platform \<Rightarrow> bytes option \<Rightarrow> world \<Rightarrow> world option" where
  "echo_body pl args w =
    (case args of None \<Rightarrow> None | Some as \<Rightarrow> do { w \<leftarrow> say as [] w; say [10] [] w })"

definition cmd_echo :: "platform \<Rightarrow> bytes option \<Rightarrow> world \<Rightarrow> world option" where
  "cmd_echo pl args = in_process pl (cstr ''echo'') (echo_body pl args)"

definition edit_body :: "platform \<Rightarrow> bytes \<Rightarrow> world \<Rightarrow> world option" where
  "edit_body pl path w =
    (case Editor.cmd_edit (pl_junk pl) (Some path) (edt w, con w, vol w) of
      Inl _ \<Rightarrow> None
    | Inr (e, t, s) \<Rightarrow> Some (w\<lparr>edt := e, con := t, vol := s\<rparr>))"

definition edit_command :: "platform \<Rightarrow> bytes \<Rightarrow> world \<Rightarrow> world option" where
  "edit_command pl path = in_process pl (cstr ''edit'') (edit_body pl path)"

section \<open>Processes\<close>

fun parse_pid :: "pid_t \<Rightarrow> bytes \<Rightarrow> pid_t option" where
  "parse_pid n [] = Some n"
| "parse_pid n (c # rest) = (if c < 48 \<or> c > 57 then None else parse_pid (n * 10 + (ucast c - 48)) rest)"

definition cmd_pkill :: "platform \<Rightarrow> bytes option \<Rightarrow> world \<Rightarrow> world option" where
  "cmd_pkill pl args = in_process pl (cstr ''pkill'') (\<lambda>w.
    case args of
      None \<Rightarrow> say (cstr ''pkill: missing process id'' @ [10]) [] w
    | Some as \<Rightarrow>
        (case parse_pid 0 as of
           None \<Rightarrow> say (cstr ''pkill: invalid process id'' @ [10]) [] w
         | Some target_pid \<Rightarrow>
             if target_pid = shell_pid w then say (cstr ''pkill: cannot kill shell process'' @ [10]) [] w
             else do {
               target \<leftarrow> get_process target_pid (krn w);
               if target = nullptr then say (cstr ''pkill: no such process'' @ [10]) [] w
               else map_option (\<lambda>k. w\<lparr>krn := k\<rparr>) (terminate_process (pl_cpu pl) target_pid (krn w))
             }))"

definition state_name :: "proc_state \<Rightarrow> bytes" where
  "state_name st = (case st of Running \<Rightarrow> cstr ''Running  '' | Stopped \<Rightarrow> cstr ''Stopped  '' | Zombie \<Rightarrow> cstr ''Zombie   ''
     | Ready \<Rightarrow> cstr ''Ready    '' | Waiting \<Rightarrow> cstr ''Waiting  '')"

definition ps_line :: "process \<Rightarrow> world \<Rightarrow> world option" where
  "ps_line p w = do {
     w \<leftarrow> say (cstr ''%5d %5d  '') [Slot (ucast (p_pid p)), Slot (ucast (p_ppid p))] w;
     w \<leftarrow> say (state_name (p_state p)) [] w;
     w \<leftarrow> say (p_name p) [] w;
     say [10] [] w
   }"

partial_function (option) ps_from :: "u64 \<Rightarrow> world \<Rightarrow> world option" where
  [code]: "ps_from current w =
    (if current = nullptr then Some w
     else do { w \<leftarrow> ps_line (procs (krn w) current) w; ps_from (p_next (procs (krn w) current)) w })"

definition ps_body :: "platform \<Rightarrow> world \<Rightarrow> world option" where
  "ps_body pl w =
    (do {
     w \<leftarrow> say (cstr ''  PID  PPID  STATE    NAME'' @ [10]) [] w;
     ps_from (get_first_process (krn w)) w
   })"

definition cmd_ps :: "platform \<Rightarrow> world \<Rightarrow> world option" where
  "cmd_ps pl = in_process pl (cstr ''ps'') (ps_body pl)"

text \<open>The interrupt key: the first running process that is not the shell is ended.\<close>

partial_function (option) interrupt_from :: "platform \<Rightarrow> u64 \<Rightarrow> world \<Rightarrow> world option" where
  [code]: "interrupt_from pl current w =
    (if current = nullptr then Some w
     else if p_state (procs (krn w) current) = Running \<and> p_pid (procs (krn w) current) \<noteq> shell_pid w then do {
       w \<leftarrow> say ([10] @ cstr ''Command interrupted'' @ [10]) [] w;
       map_option (\<lambda>k. w\<lparr>krn := k\<rparr>) (terminate_process (pl_cpu pl) (p_pid (procs (krn w) current)) (krn w))
     }
     else interrupt_from pl (p_next (procs (krn w) current)) w)"

definition interrupt_command :: "platform \<Rightarrow> world \<Rightarrow> world option" where
  "interrupt_command pl w = interrupt_from pl (get_first_process (krn w)) w"

section \<open>Lines of the shell's own files\<close>

text \<open>The lines of a text in front of its terminator; the last one may lack its newline.\<close>

function lines_of :: "bytes \<Rightarrow> bytes list" where
  "lines_of xs =
    (if xs = [] then []
     else takeWhile (\<lambda>c. c \<noteq> 10) xs # (case dropWhile (\<lambda>c. c \<noteq> 10) xs of [] \<Rightarrow> [] | _ # r \<Rightarrow> lines_of r))"
  by pat_completeness auto
termination
proof (relation "measure length", goal_cases)
  case (2 xs x21 x22)
  then show ?case using length_dropWhile_le [of "\<lambda>c. c \<noteq> 10" xs] by simp
qed simp

declare lines_of.simps [simp del]

definition c_text :: "bytes \<Rightarrow> bytes" where
  "c_text bs = takeWhile (\<lambda>c. c \<noteq> 0) bs"

abbreviation history_path :: bytes where "history_path \<equiv> cstr ''/shell/history''"
abbreviation config_path :: bytes where "config_path \<equiv> cstr ''/shell/config''"

section \<open>Aliases\<close>

definition parse_alias :: "bytes \<Rightarrow> (bytes \<times> bytes) option" where
  "parse_alias l =
    (case dropWhile (\<lambda>c. c \<noteq> 61) l of [] \<Rightarrow> None | _ # v \<Rightarrow> Some (take 63 (takeWhile (\<lambda>c. c \<noteq> 61) l), take 255 v))"

fun parse_aliases :: "bytes list \<Rightarrow> (bytes \<times> bytes) list \<Rightarrow> (bytes \<times> bytes) list" where
  "parse_aliases [] as = as"
| "parse_aliases (l # ls) as =
     (if length as < 100 then parse_aliases ls (case parse_alias l of None \<Rightarrow> as | Some a \<Rightarrow> as @ [a]) else as)"

definition default_aliases :: bytes where
  "default_aliases = cstr ''c=clear'' @ [10] @ cstr ''..=cd ..'' @ [10]"

definition bytes_fun :: "bytes \<Rightarrow> nat \<Rightarrow> u8" where
  "bytes_fun bs i = (if i < length bs then bs ! i else 0)"

definition load_aliases :: "world \<Rightarrow> world option" where
  "load_aliases w = do {
     dir \<leftarrow> findFile (cstr ''/shell'') (vol w);
     w \<leftarrow> (if dir = None then on_volume (createDirectory (cstr ''shell'')) w else Some w);
     file \<leftarrow> findFile config_path (vol w);
     w \<leftarrow> (if file = None then on_volume (createFileWithContent config_path (bytes_fun default_aliases) (length default_aliases) 0) w
           else Some w);
     (ok, buffer, s) \<leftarrow> readFileByPath config_path 4095 (vol w);
     let w = w\<lparr>vol := s\<rparr>;
     Some (if ok then w\<lparr>aliases := parse_aliases (lines_of (c_text buffer)) []\<rparr> else w)
   }"

definition get_alias :: "bytes \<Rightarrow> world \<Rightarrow> (bytes option \<times> world) option" where
  "get_alias name w = do {
     found \<leftarrow> findFile config_path (vol w);
     w \<leftarrow> (case found of
             Some (_, sz, _) \<Rightarrow> if sz \<noteq> last_file_size w then map_option (\<lambda>w. w\<lparr>last_file_size := sz\<rparr>) (load_aliases w) else Some w
           | None \<Rightarrow> Some w);
     Some (map_option snd (find (\<lambda>a. fst a = name) (aliases w)), w)
   }"

definition cmd_alias :: "world \<Rightarrow> world option" where
  "cmd_alias w = for_all (\<lambda>(name, v) w. say (cstr ''%s='' @ [39] @ cstr ''%s'' @ [39, 10]) [Str (Some name), Str (Some v)] w) (aliases w) w"

section \<open>History\<close>

text \<open>The buffer has 4096 bytes, of which the last stays zero.\<close>

definition append_to_history_file :: "bytes \<Rightarrow> world \<Rightarrow> world option" where
  "append_to_history_file command w = do {
     dir \<leftarrow> findFile (cstr ''/shell'') (vol w);
     w \<leftarrow> (if dir = None then on_volume (createDirectory (cstr ''shell'')) w else Some w);
     file \<leftarrow> findFile history_path (vol w);
     w \<leftarrow> (if file = None then on_volume (createFileWithContent history_path (bytes_fun []) 0 0) w else Some w);
     (_, buffer, s) \<leftarrow> readFileByPath history_path 4095 (vol w);
     let w = w\<lparr>vol := s\<rparr>;
     let old = c_text buffer;
     if length old + length command + 2 < 4096 then
       let new = old @ command @ [10] in on_volume (writeFileByPath history_path (bytes_fun new) (length new)) w
     else Some w
   }"

fun print_history :: "nat \<Rightarrow> bytes list \<Rightarrow> world \<Rightarrow> world option" where
  "print_history n [] w = Some w"
| "print_history n (l # ls) w =
    (if l = [] then print_history n ls w
     else do {
       w \<leftarrow> say (cstr ''  %s'' @ [10]) [Str (Some l)] (put (print_number (of_nat n) 10 4 False False) w);
       print_history (n + 1) ls w
     })"

definition history_body :: "platform \<Rightarrow> world \<Rightarrow> world option" where
  "history_body pl w =
    (do {
     found \<leftarrow> findFile history_path (vol w);
     if found = None then say (cstr ''No history file found'' @ [10]) [] w
     else do {
       (ok, buffer, s) \<leftarrow> readFileByPath history_path 4095 (vol w);
       let w = w\<lparr>vol := s\<rparr>;
       if ok then print_history 1 (lines_of (c_text buffer)) w else say (cstr ''Failed to read history file'' @ [10]) [] w
     }
   })"

definition cmd_history :: "platform \<Rightarrow> world \<Rightarrow> world option" where
  "cmd_history pl = in_process pl (cstr ''history'') (history_body pl)"

end
