(* ===== verification/Shell.thy ===== *)
theory Shell
  imports Shell_Commands
begin

text \<open>
  The shell, \<open>shell/shell.cpp\<close>: the input line, completion of names with the tab key, splitting a line into commands, expansion of
  aliases, the dispatch, and the start of the shell.

  The input buffer is the array of 256 bytes; positions in it are offsets. Reading or writing outside the array gives \<open>None\<close>, as does
  undefined behaviour in a command. \<open>other\<close> stands for the commands that read the hardware or start tests (\<^verbatim>\<open>crash\<close>, \<^verbatim>\<open>shutdown\<close>,
  \<^verbatim>\<open>memory\<close>, \<^verbatim>\<open>uptime\<close>, \<^verbatim>\<open>time\<close>, \<^verbatim>\<open>ipctest\<close>, \<^verbatim>\<open>cores\<close>).
\<close>

section \<open>State\<close>

record shell =
  wld :: world
  input_buffer :: bytes
  input_pos :: nat
  current_tab_match :: nat
  current_tab_prefix :: bytes
  tab_matches :: "bytes list"

definition input_size :: nat where "input_size = 256"

definition put_cells :: "nat \<Rightarrow> bytes \<Rightarrow> bytes \<Rightarrow> bytes option" where
  "put_cells i bs buf = (if i + length bs \<le> length buf then Some (put_bytes i bs buf) else None)"

definition cell_at :: "nat \<Rightarrow> bytes \<Rightarrow> u8 option" where
  "cell_at i buf = (if i < length buf then Some (buf ! i) else None)"

definition string_from :: "nat \<Rightarrow> bytes \<Rightarrow> bytes option" where
  "string_from i buf = (if 0 \<in> set (drop i buf) then Some (c_text (drop i buf)) else None)"

definition clear_input :: "shell \<Rightarrow> shell" where
  "clear_input sh = sh\<lparr>input_buffer := replicate input_size 0, input_pos := 0\<rparr>"

definition prompt :: "shell \<Rightarrow> shell option" where
  "prompt sh = map_option (\<lambda>(t, s). sh\<lparr>wld := (wld sh)\<lparr>con := t, vol := s\<rparr>\<rparr>) (print_prompt (con (wld sh), vol (wld sh)))"

section \<open>Completion\<close>

definition last_blank :: "bytes \<Rightarrow> nat option" where
  "last_blank l = (if 32 \<in> set l then Some (length l - 1 - length (takeWhile (\<lambda>c. c \<noteq> 32) (rev l))) else None)"

definition complete_names :: "platform \<Rightarrow> bytes \<Rightarrow> bytes \<Rightarrow> fatfs \<Rightarrow> bytes list option" where
  "complete_names pl command pre s = do {
     found \<leftarrow> findFile [46] s;
     let current_cluster = (case found of None \<Rightarrow> ROOT_CLUSTER | Some (cluster, _, _) \<Rightarrow> cluster);
     buffer \<leftarrow> read_buffer pl current_cluster 1024 s;
     Some (take 16 (map raw_name (filter (\<lambda>e. take (length pre) (raw_name e) = pre \<and>
             \<not> (command = cstr ''cd'' \<and> get_byte e 11 AND 0x10 = 0)) (live_entries buffer))))
   }"

definition erase_row :: "console \<Rightarrow> console" where
  "erase_row t = (fold (\<lambda>i. terminal_putchar_at 32 (terminal_color t) (of_nat i) (terminal_row t)) [0..<unat (terminal_column t)] t)
     \<lparr>terminal_column := 0\<rparr>"

definition show_match :: "nat option \<Rightarrow> shell \<Rightarrow> shell option" where
  "show_match blank_at sh =
    (if tab_matches sh = [] then Some sh
     else let name = tab_matches sh ! current_tab_match sh in do {
       t \<leftarrow> printf [13] [] (con (wld sh));
       let sh = sh\<lparr>wld := (wld sh)\<lparr>con := erase_row t\<rparr>\<rparr>;
       buf \<leftarrow> put_cells (case blank_at of None \<Rightarrow> 0 | Some b \<Rightarrow> b + 1) (name @ [0]) (input_buffer sh);
       str \<leftarrow> string_from 0 buf;
       sh \<leftarrow> prompt (sh\<lparr>input_buffer := buf, input_pos := length str\<rparr>);
       w \<leftarrow> say (cstr ''%s'') [Str (Some str)] (wld sh);
       Some (sh\<lparr>wld := w, current_tab_match := (current_tab_match sh + 1) mod length (tab_matches sh)\<rparr>)
     })"

definition handle_tab_completion :: "platform \<Rightarrow> shell \<Rightarrow> shell option" where
  "handle_tab_completion pl sh = do {
     line \<leftarrow> string_from 0 (input_buffer sh);
     let blank_at = last_blank line;
     let last_word = (case blank_at of None \<Rightarrow> line | Some b \<Rightarrow> drop (b + 1) line);
     if last_word = [] then Some sh
     else if tab_matches sh \<noteq> [] then show_match blank_at sh
     else do {
       let command = (case blank_at of None \<Rightarrow> line | Some b \<Rightarrow> take b line);
       names \<leftarrow> complete_names pl command last_word (vol (wld sh));
       show_match blank_at (sh\<lparr>current_tab_match := 0, current_tab_prefix := last_word, tab_matches := names\<rparr>)
     }
   }"

section \<open>Commands\<close>

definition help_text :: bytes where
  "help_text = concat (map (\<lambda>l. cstr l @ [10])
    [''Available commands:'', '''',
     ''  help     - Display this help message'', ''  echo     - Echo arguments'', ''  clear    - Clear the screen'',
     ''  crash    - Trigger a kernel panic (for testing)'', ''  shutdown - Power off the system'',
     ''  memory   - Display memory usage information'', ''  ls       - List directory contents'',
     ''  mkdir    - Create a new directory'', ''  cd       - Change current directory'', ''  cat      - Display file contents'',
     ''  mv       - Move or rename a file'', ''  rm       - Remove a file or directory'', ''  touch    - Create an empty file'',
     ''  edit     - Edit a file'', ''  history  - Display command history'', ''  uptime   - Display system uptime'',
     ''  time     - Display system time'', ''  ps       - List running processes'', ''  pkill    - Kill a process'',
     ''  ipctest  - Run IPC test'', ''  cores    - List CPU cores''])"

definition cmd_help :: "platform \<Rightarrow> world \<Rightarrow> world option" where
  "cmd_help pl = in_process pl (cstr ''help'') (show_in_pager help_text)"

definition unknown_command :: "bytes \<Rightarrow> world \<Rightarrow> world option" where
  "unknown_command cmd w = do {
     w \<leftarrow> say (cstr ''Unknown command: %s'' @ [10]) [Str (Some cmd)] (w\<lparr>con := set_red (con w)\<rparr>);
     Some (w\<lparr>con := reset_color (con w)\<rparr>)
   }"

definition dispatch_command :: "(bytes \<Rightarrow> world \<Rightarrow> world option) \<Rightarrow> platform \<Rightarrow> bytes \<Rightarrow> bytes option \<Rightarrow> world \<Rightarrow> world option" where
  "dispatch_command other pl cmd args w =
    (if cmd = cstr ''help'' then cmd_help pl w
     else if cmd = cstr ''echo'' then cmd_echo pl args w
     else if cmd = cstr ''clear'' then Some (w\<lparr>con := terminal_clear (con w)\<rparr>)
     else if cmd = cstr ''ls'' then cmd_ls pl args w
     else if cmd = cstr ''mkdir'' then cmd_mkdir pl args w
     else if cmd = cstr ''cd'' then cmd_cd pl args w
     else if cmd = cstr ''cat'' then cmd_cat pl args w
     else if cmd = cstr ''mv'' then cmd_mv pl args w
     else if cmd = cstr ''rm'' then cmd_rm pl args w
     else if cmd = cstr ''touch'' then cmd_touch pl args w
     else if cmd = cstr ''history'' then cmd_history pl w
     else if cmd = cstr ''ps'' then cmd_ps pl w
     else if cmd = cstr ''pkill'' then cmd_pkill pl args w
     else if cmd = cstr ''less'' then cmd_less pl args w
     else if cmd = cstr ''alias'' then cmd_alias w
     else if cmd \<in> set (map cstr [''crash'', ''shutdown'', ''poweroff'', ''memory'', ''uptime'', ''time'', ''ipctest'', ''cores'']) then other cmd w
     else unknown_command cmd w)"

text \<open>
  The first word of the string at \<open>cur\<close> is cut off with a zero byte in place of the first blank; the arguments start behind it.
\<close>

definition cut_word :: "nat \<Rightarrow> bytes \<Rightarrow> (bytes \<times> nat option \<times> bytes) option" where
  "cut_word cur buf = do {
     str \<leftarrow> string_from cur buf;
     let cmd = takeWhile (\<lambda>c. c \<noteq> 32) str;
     Some (if 32 \<in> set str then (cmd, Some (cur + length cmd + 1), buf[cur + length cmd := 0]) else (cmd, None, buf))
   }"

text \<open>
  An alias is written over the command in place. With arguments, \<open>snprintf\<close> puts the text of its format there.
\<close>

definition expand_alias :: "nat \<Rightarrow> bytes \<Rightarrow> nat option \<Rightarrow> bytes \<Rightarrow> bytes option" where
  "expand_alias cur alias_value args buf =
    (let expanded_cmd = (if args \<noteq> None then cstr ''%s %s'' else take 511 alias_value)
     in put_cells cur expanded_cmd buf)"

definition argument :: "nat option \<Rightarrow> bytes \<Rightarrow> bytes option option" where
  "argument args buf = (case args of None \<Rightarrow> Some None | Some a \<Rightarrow> map_option Some (string_from a buf))"

text \<open>The word, its arguments and the buffer after the expansion of an alias.\<close>

definition prepare_command :: "nat \<Rightarrow> shell \<Rightarrow> (bytes \<times> bytes option \<times> shell) option" where
  "prepare_command cur sh = do {
     (cmd, args, buf) \<leftarrow> cut_word cur (input_buffer sh);
     (alias_value, w) \<leftarrow> get_alias cmd (wld sh);
     (cmd, args, buf) \<leftarrow> (case alias_value of
        None \<Rightarrow> Some (cmd, args, buf)
      | Some v \<Rightarrow> do { buf \<leftarrow> expand_alias cur v args buf; cut_word cur buf });
     a \<leftarrow> argument args buf;
     Some (cmd, a, sh\<lparr>wld := w, input_buffer := buf\<rparr>)
   }"

definition skip_blanks :: "nat \<Rightarrow> bytes \<Rightarrow> nat" where
  "skip_blanks cur buf = cur + length (takeWhile (\<lambda>c. c = 32 \<or> c = 9) (drop cur buf))"

text \<open>One command of a line: \<open>True\<close> when the editor was started and the rest of the line is dropped.\<close>

definition run_piece :: "(bytes \<Rightarrow> world \<Rightarrow> world option) \<Rightarrow> platform \<Rightarrow> nat \<Rightarrow> shell \<Rightarrow> (bool \<times> shell) option" where
  "run_piece other pl cur sh = do {
     let cur = skip_blanks cur (input_buffer sh);
     first \<leftarrow> cell_at cur (input_buffer sh);
     if first = 0 then Some (False, sh)
     else do {
       (cmd, args, sh) \<leftarrow> prepare_command cur sh;
       if cmd = cstr ''edit'' then do {
         let sh = clear_input sh;
         w \<leftarrow> edit_command pl (case args of None \<Rightarrow> [] | Some a \<Rightarrow> a) (wld sh);
         Some (True, sh\<lparr>wld := w\<rparr>)
       }
       else do {
         w \<leftarrow> dispatch_command other pl cmd args (wld sh);
         Some (False, sh\<lparr>wld := w\<rparr>)
       }
     }
   }"

text \<open>The next semicolon is replaced by a zero byte.\<close>

definition cut_semicolon :: "nat \<Rightarrow> bytes \<Rightarrow> (nat option \<times> bytes) option" where
  "cut_semicolon cur buf = do {
     str \<leftarrow> string_from cur buf;
     let semicolon = cur + length (takeWhile (\<lambda>c. c \<noteq> 59) str);
     Some (if 59 \<in> set str then (Some (semicolon + 1), buf[semicolon := 0]) else (None, buf))
   }"

partial_function (option) run_commands ::
    "(bytes \<Rightarrow> world \<Rightarrow> world option) \<Rightarrow> platform \<Rightarrow> nat \<Rightarrow> shell \<Rightarrow> (bool \<times> shell) option" where
  [code]: "run_commands other pl cur sh = do {
     c \<leftarrow> cell_at cur (input_buffer sh);
     if c = 0 then Some (False, sh)
     else do {
       (next_cmd, buf) \<leftarrow> cut_semicolon cur (input_buffer sh);
       (editing, sh) \<leftarrow> run_piece other pl cur (sh\<lparr>input_buffer := buf\<rparr>);
       if editing then Some (True, sh)
       else (case next_cmd of None \<Rightarrow> Some (False, sh) | Some n \<Rightarrow> run_commands other pl n sh)
     }
   }"

fun trim_input :: "nat \<Rightarrow> bytes \<Rightarrow> nat \<times> bytes" where
  "trim_input 0 buf = (0, buf)"
| "trim_input (Suc p) buf = (if buf ! p = 32 \<or> buf ! p = 9 then trim_input p (buf[p := 0]) else (Suc p, buf))"

definition process_command :: "(bytes \<Rightarrow> world \<Rightarrow> world option) \<Rightarrow> platform \<Rightarrow> shell \<Rightarrow> shell option" where
  "process_command other pl sh =
    (let (p, buf) = trim_input (input_pos sh) (input_buffer sh);
         sh = sh\<lparr>input_pos := p, input_buffer := buf\<rparr>
     in if p = 0 then prompt sh
        else do {
          line \<leftarrow> string_from 0 buf;
          w \<leftarrow> append_to_history_file line (wld sh);
          (editing, sh) \<leftarrow> run_commands other pl 0 (sh\<lparr>wld := w\<rparr>);
          if editing then Some sh
          else let sh = clear_input sh in if pager_active (pgr (wld sh)) then Some sh else prompt sh
        })"

section \<open>Paths and redirection\<close>

text \<open>Two functions that no command calls. The redirection writes its text over the first cluster of the root directory.\<close>

definition shell_get_dir_name :: "bytes option \<Rightarrow> bytes" where
  "shell_get_dir_name path = (case path of None \<Rightarrow> [47] | Some p \<Rightarrow> get_dir_name p)"

fun trim_end :: "bytes \<Rightarrow> bytes" where
  "trim_end (c # r) = c # rev (dropWhile (\<lambda>c. c = 32) (rev r))"
| "trim_end [] = []"

definition redirected :: "platform \<Rightarrow> bytes \<Rightarrow> nat \<Rightarrow> u8" where
  "redirected pl str i = (if i < length str then str ! i else if i < 256 then 0 else pl_junk pl i)"

definition handle_redirection :: "platform \<Rightarrow> bytes \<Rightarrow> shell \<Rightarrow> shell option" where
  "handle_redirection pl command sh =
    (if 62 \<notin> set command then Some sh
     else
       let str = takeWhile (\<lambda>c. c \<noteq> 62) command;
           filename = trim_end (dropWhile (\<lambda>c. c = 32) (tl (dropWhile (\<lambda>c. c \<noteq> 62) command)))
       in if length str > 255 \<or> length (dropWhile (\<lambda>c. c = 32) (tl (dropWhile (\<lambda>c. c \<noteq> 62) command))) > 255 then None
          else if filename = [] then map_option (\<lambda>w. sh\<lparr>wld := w\<rparr>) (say (cstr ''No output file specified'' @ [10]) [] (wld sh))
          else do {
            w \<leftarrow> on_volume (writeFile ROOT_CLUSTER (redirected pl str) (length str)) (wld sh);
            Some (clear_input (sh\<lparr>wld := w\<rparr>))
          })"

section \<open>Keys\<close>

definition erase_char :: "console \<Rightarrow> console" where
  "erase_char t = (let t = t\<lparr>terminal_column := terminal_column t - 1\<rparr>
     in update_cursor (terminal_putchar_at 32 (terminal_color t) (terminal_column t) (terminal_row t) t))"

definition line_key :: "u8 \<Rightarrow> shell \<Rightarrow> shell" where
  "line_key c sh =
    (if c = 8 then
       if input_pos sh > 0 then
         sh\<lparr>input_pos := input_pos sh - 1, input_buffer := (input_buffer sh)[input_pos sh - 1 := 0],
            wld := (wld sh)\<lparr>con := erase_char (con (wld sh))\<rparr>\<rparr>
       else sh
     else if input_pos sh < input_size - 1 then
       sh\<lparr>input_buffer := (input_buffer sh)[input_pos sh := c, input_pos sh + 1 := 0], input_pos := input_pos sh + 1,
          wld := (wld sh)\<lparr>con := terminal_putchar c (con (wld sh))\<rparr>\<rparr>
     else sh)"

definition process_keypress :: "(bytes \<Rightarrow> world \<Rightarrow> world option) \<Rightarrow> platform \<Rightarrow> u8 \<Rightarrow> shell \<Rightarrow> shell option" where
  "process_keypress other pl c sh =
    (let w = wld sh
     in if m_active (edt w) then
          (case editor_process_keypress c (edt w, con w, vol w) of
             Inl _ \<Rightarrow> None
           | Inr (e, t, s) \<Rightarrow> Some (sh\<lparr>wld := w\<lparr>edt := e, con := t, vol := s\<rparr>\<rparr>))
        else if pager_active (pgr w) then
          map_option (\<lambda>(p, t, s). sh\<lparr>wld := w\<lparr>pgr := p, con := t, vol := s\<rparr>\<rparr>) (pager_process_keypress c (pgr w, con w, vol w))
        else if c = 9 then handle_tab_completion pl sh
        else let sh = sh\<lparr>tab_matches := []\<rparr>
             in if c = 10 then process_command other pl (sh\<lparr>wld := w\<lparr>con := terminal_putchar 10 (con w)\<rparr>\<rparr>)
                else Some (line_key c sh))"

definition init_shell :: "platform \<Rightarrow> shell \<Rightarrow> shell option" where
  "init_shell pl sh =
    (let sh = clear_input sh; w = wld sh; welcome_msg = cstr ''Welcome to the kernel!'' @ [10]
     in do {
       (pid, k) \<leftarrow> create_process (pl_new pl (krn w)) (cstr ''shell'') 0 (krn w);
       let w = w\<lparr>krn := k, shell_pid := pid, pgr := init_pager (pgr w), con := screen_init (con w), vol := go_root (vol w)\<rparr>;
       found \<leftarrow> findFile (cstr ''tmp'') (vol w);
       w \<leftarrow> (if found = None then on_volume (createDirectory (cstr ''tmp'')) w else Some w);
       w \<leftarrow> on_volume (createFileWithContent (cstr ''tmp/welcome'') (bytes_fun welcome_msg) (length welcome_msg) 0) w;
       w \<leftarrow> load_aliases w;
       w \<leftarrow> say [10] [] w;
       prompt (sh\<lparr>wld := w\<rparr>)
     })"

end
