(* ===== verification/Shell_Proofs.thy ===== *)
theory Shell_Proofs
  imports Shell Fat_Operations
begin

text \<open>
  What the shell does with a line: the line that is typed, the commands it is split into, and the process that every command
  runs in.
\<close>

section \<open>The input line\<close>

text \<open>The line a sequence of keys gives: a backspace takes the last character, the line never has more than 255.\<close>

definition edit_line :: "u8 \<Rightarrow> bytes \<Rightarrow> bytes" where
  "edit_line c l = (if c = 8 then butlast l else if length l < 255 then l @ [c] else l)"

definition holds_line :: "bytes \<Rightarrow> shell \<Rightarrow> bool" where
  "holds_line l sh \<longleftrightarrow> length l \<le> 255 \<and> input_pos sh = length l \<and> input_buffer sh = l @ replicate (256 - length l) 0"

lemma append_update_at: "(l @ replicate (Suc n) 0)[length l := c] = (l @ [c]) @ replicate n 0"
  by (simp add: list_update_append)

lemma line_key_holds:
  assumes "holds_line l sh"
  shows "holds_line (edit_line c l) (line_key c sh)"
proof -
  have b: "input_pos sh = length l" "input_buffer sh = l @ replicate (256 - length l) 0" "length l \<le> 255"
    using assms by (simp_all add: holds_line_def)
  show ?thesis
  proof (cases "c = 8")
    case True
    show ?thesis
    proof (cases "l = []")
      case True
      with assms \<open>c = 8\<close> show ?thesis by (simp add: holds_line_def edit_line_def line_key_def)
    next
      case False
      then obtain m x where l: "l = m @ [x]" by (metis rev_exhaust)
      have "256 - length m = Suc (256 - length l)" using b(3) l by simp
      with l b True show ?thesis by (simp add: holds_line_def edit_line_def line_key_def list_update_append)
    qed
  next
    case False
    show ?thesis
    proof (cases "length l < 255")
      case True
      then have n: "256 - length l = Suc (Suc (254 - length l))" "255 - length l = Suc (254 - length l)" by arith+
      show ?thesis using True False b unfolding n(1) by (simp add: holds_line_def edit_line_def line_key_def input_size_def list_update_append n(2))
    next
      case False
      with b \<open>c \<noteq> 8\<close> show ?thesis by (simp add: holds_line_def edit_line_def line_key_def input_size_def)
    qed
  qed
qed

lemma clear_input_holds [simp]: "holds_line [] (clear_input sh)"
  by (simp add: holds_line_def clear_input_def input_size_def)

primrec press_keys :: "(bytes \<Rightarrow> world \<Rightarrow> world option) \<Rightarrow> platform \<Rightarrow> bytes \<Rightarrow> shell \<Rightarrow> shell option" where
  "press_keys other pl [] sh = Some sh"
| "press_keys other pl (c # keys) sh = do { sh \<leftarrow> process_keypress other pl c sh; press_keys other pl keys sh }"

definition at_prompt :: "shell \<Rightarrow> bool" where
  "at_prompt sh \<longleftrightarrow> \<not> m_active (edt (wld sh)) \<and> \<not> pager_active (pgr (wld sh))"

lemma line_key_frame:
  "edt (wld (line_key c sh)) = edt (wld sh)" "pgr (wld (line_key c sh)) = pgr (wld sh)"
  "(wld (line_key c sh))\<lparr>con := t\<rparr> = (wld sh)\<lparr>con := t\<rparr>"
  by (simp_all add: line_key_def)

lemma press_keys_line:
  assumes "at_prompt sh" "holds_line l sh" "9 \<notin> set keys" "10 \<notin> set keys"
  shows "\<exists>sh'. press_keys other pl keys sh = Some sh' \<and> at_prompt sh' \<and> holds_line (fold edit_line keys l) sh' \<and>
    (\<forall>t. (wld sh')\<lparr>con := t\<rparr> = (wld sh)\<lparr>con := t\<rparr>)"
  using assms
proof (induction keys arbitrary: sh l)
  case (Cons c keys)
  let ?s = "line_key c (sh\<lparr>tab_matches := []\<rparr>)"
  have "process_keypress other pl c sh = Some ?s" using Cons.prems by (simp add: process_keypress_def at_prompt_def Let_def)
  moreover have "at_prompt ?s" using Cons.prems(1) by (simp add: at_prompt_def line_key_frame)
  moreover have "holds_line (edit_line c l) ?s" using Cons.prems(2) by (intro line_key_holds) (simp add: holds_line_def)
  ultimately show ?case using Cons.IH [of ?s "edit_line c l"] Cons.prems(3,4) by (auto simp: line_key_frame)
qed simp

section \<open>Splitting a line\<close>

text \<open>
  The meaning of a line: it is split at the semicolons, blanks in front are dropped, and each piece is a word and the text
  behind the first blank. \<open>None\<close> stands here also for a word that has an alias and for the editor, which ends the line.
\<close>

fun pieces :: "bytes \<Rightarrow> bytes list" where
  "pieces [] = [[]]"
| "pieces (c # r) = (if c = 59 then [] # pieces r else (c # hd (pieces r)) # tl (pieces r))"

definition parse_piece :: "bytes \<Rightarrow> (bytes \<times> bytes option) option" where
  "parse_piece piece =
    (case dropWhile (\<lambda>c. c = 32 \<or> c = 9) piece of
       [] \<Rightarrow> None
     | q \<Rightarrow> Some (takeWhile (\<lambda>c. c \<noteq> 32) q, if 32 \<in> set q then Some (tl (dropWhile (\<lambda>c. c \<noteq> 32) q)) else None))"

fun commands_spec :: "(bytes \<Rightarrow> world \<Rightarrow> world option) \<Rightarrow> platform \<Rightarrow> bytes list \<Rightarrow> world \<Rightarrow> world option" where
  "commands_spec other pl [] w = Some w"
| "commands_spec other pl (p # ps) w =
    (case parse_piece p of
       None \<Rightarrow> commands_spec other pl ps w
     | Some (cmd, args) \<Rightarrow> do {
         (alias_value, w) \<leftarrow> get_alias cmd w;
         if alias_value \<noteq> None \<or> cmd = cstr ''edit'' then None
         else do { w \<leftarrow> dispatch_command other pl cmd args w; commands_spec other pl ps w }
       })"

lemma pieces_plain: "59 \<notin> set p \<Longrightarrow> pieces p = [p]"
  by (induction p) auto

lemma pieces_split: "59 \<notin> set p \<Longrightarrow> pieces (p @ 59 # r) = p # pieces r"
  by (induction p) auto

lemma c_text_append [simp]: "0 \<notin> set q \<Longrightarrow> c_text (q @ 0 # zs) = q"
  by (induction q) (auto simp: c_text_def)

lemma string_from_append [simp]: "0 \<notin> set q \<Longrightarrow> length pre = n \<Longrightarrow> string_from n (pre @ q @ 0 # zs) = Some q"
  by (simp add: string_from_def)

lemma split_at_first: "x \<in> set q \<Longrightarrow> \<exists>b. q = takeWhile (\<lambda>c. c \<noteq> x) q @ x # b \<and> dropWhile (\<lambda>c. c \<noteq> x) q = x # b"
  by (induction q) auto

lemma prepare_plain:
  assumes buf: "input_buffer sh = pre @ q @ 0 # zs" and q: "0 \<notin> set q"
    and al: "get_alias (takeWhile (\<lambda>c. c \<noteq> 32) q) (wld sh) = Some (None, w1)"
  shows "\<exists>q'. length q' = length q \<and> prepare_command (length pre) sh =
    Some (takeWhile (\<lambda>c. c \<noteq> 32) q, if 32 \<in> set q then Some (tl (dropWhile (\<lambda>c. c \<noteq> 32) q)) else None,
      sh\<lparr>wld := w1, input_buffer := pre @ q' @ 0 # zs\<rparr>)"
proof (cases "32 \<in> set q")
  case False
  then have "cut_word (length pre) (input_buffer sh) = Some (takeWhile (\<lambda>c. c \<noteq> 32) q, None, pre @ q @ 0 # zs)"
    by (simp add: cut_word_def buf q)
  with False al show ?thesis by (intro exI [of _ q]) (simp add: prepare_command_def argument_def)
next
  case True
  define a where "a = takeWhile (\<lambda>c. c \<noteq> 32) q"
  obtain b where b: "q = a @ 32 # b" "dropWhile (\<lambda>c. c \<noteq> 32) q = 32 # b" using split_at_first [OF True] by (auto simp: a_def)
  have "cut_word (length pre) (input_buffer sh) = Some (a, Some (length pre + length a + 1), pre @ (a @ 0 # b) @ 0 # zs)"
    using True q by (simp add: cut_word_def buf a_def [symmetric]) (simp add: b(1) list_update_append)
  moreover have "string_from (length pre + length a + 1) (pre @ (a @ 0 # b) @ 0 # zs) = Some b"
    using string_from_append [of b "pre @ a @ [0]" "length pre + length a + 1" zs] q b(1) by simp
  ultimately show ?thesis using True al b unfolding a_def [symmetric]
    by (intro exI [of _ "a @ 0 # b"]) (simp add: prepare_command_def argument_def)
qed

lemma skip_blanks_append:
  assumes "\<forall>c \<in> set bl. c = 32 \<or> c = 9" "q = [] \<or> \<not> (hd q = 32 \<or> hd q = 9)" "length pre = n"
  shows "skip_blanks n (pre @ bl @ q @ 0 # zs) = n + length bl"
proof -
  have "takeWhile (\<lambda>c. c = 32 \<or> c = 9) (bl @ q @ 0 # zs) = bl"
    using assms(1,2) by (induction bl) (cases q; auto)+
  then show ?thesis using assms(3) by (simp add: skip_blanks_def)
qed

lemma run_piece_spec:
  assumes buf: "input_buffer sh = pre @ p @ 0 # zs" and p: "0 \<notin> set p"
    and spec: "commands_spec other pl (p # ps) (wld sh) = Some w'"
  shows "\<exists>sh1 p1. length p1 = length p \<and> input_buffer sh1 = pre @ p1 @ 0 # zs \<and> commands_spec other pl ps (wld sh1) = Some w' \<and>
    run_piece other pl (length pre) sh = Some (False, sh1)"
proof -
  define bl where "bl = takeWhile (\<lambda>c. c = 32 \<or> c = 9) p"
  define q where "q = dropWhile (\<lambda>c. c = 32 \<or> c = 9) p"
  have pq: "p = bl @ q" unfolding bl_def q_def by (rule takeWhile_dropWhile_id [symmetric])
  have hq: "q = [] \<or> \<not> (hd q = 32 \<or> hd q = 9)" unfolding q_def using hd_dropWhile [of "\<lambda>c. c = 32 \<or> c = 9" p] by blast
  have bl: "\<forall>c \<in> set bl. c = 32 \<or> c = 9" unfolding bl_def by (blast dest: set_takeWhileD)
  have skip: "skip_blanks (length pre) (input_buffer sh) = length (pre @ bl)"
    using skip_blanks_append [OF bl hq, of pre "length pre" zs] buf pq by simp
  have q0: "0 \<notin> set q" using p pq by simp
  show ?thesis
  proof (cases "q = []")
    case True
    then have "cell_at (length (pre @ bl)) (input_buffer sh) = Some 0" using buf pq by (simp add: cell_at_def nth_append)
    moreover have "commands_spec other pl ps (wld sh) = Some w'" using spec True by (simp add: parse_piece_def q_def [symmetric])
    ultimately show ?thesis using buf skip by (intro exI [of _ sh] exI [of _ p]) (simp add: run_piece_def)
  next
    case False
    let ?cmd = "takeWhile (\<lambda>c. c \<noteq> 32) q" and ?args = "if 32 \<in> set q then Some (tl (dropWhile (\<lambda>c. c \<noteq> 32) q)) else None"
    have pp: "parse_piece p = Some (?cmd, ?args)" using False by (simp add: parse_piece_def q_def [symmetric] split: list.split)
    obtain w1 w2 where w: "get_alias ?cmd (wld sh) = Some (None, w1)" "?cmd \<noteq> cstr ''edit''"
      "dispatch_command other pl ?cmd ?args w1 = Some w2" "commands_spec other pl ps w2 = Some w'"
      using spec unfolding commands_spec.simps pp by (auto simp: bind_eq_Some_conv split: if_split_asm prod.split_asm)
    obtain q' where q': "length q' = length q" "prepare_command (length (pre @ bl)) sh = Some (?cmd, ?args, sh\<lparr>wld := w1, input_buffer := (pre @ bl) @ q' @ 0 # zs\<rparr>)"
      using prepare_plain [of sh "pre @ bl" q zs w1] buf pq q0 w(1) by auto
    have "cell_at (length (pre @ bl)) (input_buffer sh) = Some (hd q)" "hd q \<noteq> 0"
      using buf pq False q0 by (cases q; auto simp: cell_at_def nth_append)+
    then have "run_piece other pl (length pre) sh = Some (False, sh\<lparr>input_buffer := pre @ (bl @ q') @ 0 # zs, wld := w2\<rparr>)"
      using skip q'(2) w(2,3) by (simp add: run_piece_def Let_def)
    then show ?thesis using q'(1) pq w(4)
      by (intro exI [of _ "sh\<lparr>input_buffer := pre @ (bl @ q') @ 0 # zs, wld := w2\<rparr>"] exI [of _ "bl @ q'"]) simp
  qed
qed

lemma run_commands_spec:
  assumes "input_buffer sh = pre @ rest @ 0 # zs" "0 \<notin> set rest" "commands_spec other pl (pieces rest) (wld sh) = Some w'"
  shows "\<exists>sh'. run_commands other pl (length pre) sh = Some (False, sh') \<and> wld sh' = w'"
  using assms
proof (induction "length rest" arbitrary: rest pre sh rule: less_induct)
  case less
  show ?case
  proof (cases "rest = []")
    case True
    then have "cell_at (length pre) (input_buffer sh) = Some 0" using less.prems(1) by (simp add: cell_at_def nth_append)
    then show ?thesis using True less.prems(3) by (simp add: run_commands.simps [of other pl "length pre" sh] parse_piece_def)
  next
    case False
    then have c: "cell_at (length pre) (input_buffer sh) = Some (hd rest)" "hd rest \<noteq> 0"
      using less.prems(1,2) by (cases rest; auto simp: cell_at_def nth_append)+
    have str: "string_from (length pre) (input_buffer sh) = Some rest" using less.prems(1,2) by simp
    show ?thesis
    proof (cases "59 \<in> set rest")
      case True
      define p where "p = takeWhile (\<lambda>c. c \<noteq> 59) rest"
      obtain r where r: "rest = p @ 59 # r" using split_at_first [OF True] by (auto simp: p_def)
      have p: "59 \<notin> set p" unfolding p_def using set_takeWhileD by fastforce
      let ?sh = "sh\<lparr>input_buffer := pre @ p @ 0 # r @ 0 # zs\<rparr>"
      have cut: "cut_semicolon (length pre) (input_buffer sh) = Some (Some (length pre + length p + 1), pre @ p @ 0 # r @ 0 # zs)"
        using True str by (simp add: cut_semicolon_def p_def [symmetric]) (simp add: less.prems(1) r list_update_append)
      have "commands_spec other pl (p # pieces r) (wld ?sh) = Some w'" using less.prems(3) unfolding r pieces_split [OF p] by simp
      then obtain sh1 p1 where 1: "length p1 = length p" "input_buffer sh1 = pre @ p1 @ 0 # r @ 0 # zs" "commands_spec other pl (pieces r) (wld sh1) = Some w'"
        "run_piece other pl (length pre) ?sh = Some (False, sh1)"
        using run_piece_spec [of ?sh pre p "r @ 0 # zs" other pl "pieces r" w'] less.prems(2) r by auto
      have "\<exists>sh'. run_commands other pl (length (pre @ p1 @ [0])) sh1 = Some (False, sh') \<and> wld sh' = w'"
        by (rule less.hyps [OF _ _ _ 1(3)]) (use 1(2) r less.prems(2) in auto)
      then show ?thesis using c cut 1(1,4) by (simp add: run_commands.simps [of other pl "length pre" sh])
    next
      case f: False
      then have "commands_spec other pl [rest] (wld sh) = Some w'" using less.prems(3) by (simp add: pieces_plain)
      from run_piece_spec [OF less.prems(1,2) this] obtain sh1 where "run_piece other pl (length pre) sh = Some (False, sh1)" "wld sh1 = w'" by auto
      then show ?thesis using c str f by (simp add: run_commands.simps [of other pl "length pre" sh] cut_semicolon_def)
    qed
  qed
qed

definition without_blanks :: "bytes \<Rightarrow> bytes" where
  "without_blanks l = rev (dropWhile (\<lambda>c. c = 32 \<or> c = 9) (rev l))"

lemma trim_input_spec:
  "trim_input (length l) (l @ replicate k 0) = (length (without_blanks l), without_blanks l @ replicate (length l + k - length (without_blanks l)) 0)"
proof (induction l arbitrary: k rule: rev_induct)
  case (snoc c l)
  have "length (without_blanks l) \<le> length l" using length_dropWhile_le [of _ "rev l"] by (simp add: without_blanks_def)
  moreover have "(l @ [c])[length l := 0] @ replicate k 0 = l @ replicate (Suc k) 0" by (simp add: list_update_append)
  ultimately show ?case using snoc.IH [of "Suc k"] by (simp add: nth_append list_update_append without_blanks_def)
qed (simp add: without_blanks_def)

lemma without_blanks_subset: "set (without_blanks l) \<subseteq> set l" "length (without_blanks l) \<le> length l"
  using set_dropWhileD [of _ _ "rev l"] length_dropWhile_le [of _ "rev l"] by (auto simp: without_blanks_def)

definition newline :: "world \<Rightarrow> world" where
  "newline w = w\<lparr>con := terminal_putchar 10 (con w)\<rparr>"

lemma enter_runs_line:
  assumes "at_prompt sh" "holds_line l sh" "0 \<notin> set l" "without_blanks l \<noteq> []"
    and "append_to_history_file (without_blanks l) (newline (wld sh)) = Some w1" "commands_spec other pl (pieces (without_blanks l)) w1 = Some w'"
  shows "\<exists>sh'. wld sh' = w' \<and> holds_line [] sh' \<and> process_keypress other pl 10 sh = (if pager_active (pgr w') then Some sh' else prompt sh')"
proof -
  let ?t = "without_blanks l"
  define z where "z = 256 - length ?t"
  have z: "0 < z" "length l \<le> 255" "input_pos sh = length l" "input_buffer sh = l @ replicate (256 - length l) 0"
    using assms(2) without_blanks_subset(2) [of l] by (auto simp: holds_line_def z_def)
  have tr: "trim_input (length l) (l @ replicate (256 - length l) 0) = (length ?t, ?t @ replicate z 0)"
    unfolding z_def trim_input_spec using z(2) by simp
  obtain z' where z': "replicate z (0 :: u8) = 0 # z'" using z(1) by (cases z) auto
  let ?sh = "sh\<lparr>tab_matches := [], input_pos := length ?t, input_buffer := ?t @ 0 # z', wld := w1\<rparr>"
  have nz: "0 \<notin> set ?t" using assms(3) without_blanks_subset(1) by blast
  obtain sh2 where 2: "run_commands other pl 0 ?sh = Some (False, sh2)" "wld sh2 = w'"
    using run_commands_spec [of ?sh "[]" ?t z' other pl w'] nz assms(6) by auto
  have str: "string_from 0 (?t @ 0 # z') = Some ?t" using string_from_append [OF nz, of "[]" 0 z'] by simp
  have "process_keypress other pl 10 sh = process_command other pl (sh\<lparr>tab_matches := [], wld := newline (wld sh)\<rparr>)"
    using assms(1) by (simp add: process_keypress_def at_prompt_def Let_def newline_def)
  also have "\<dots> = (let sh = clear_input sh2 in if pager_active (pgr (wld sh)) then Some sh else prompt sh)"
    using assms(4,5) 2(1) str z(3,4) tr unfolding z' by (simp add: process_command_def Let_def)
  finally show ?thesis using 2(2) by (intro exI [of _ "clear_input sh2"]) (simp add: Let_def clear_input_def holds_line_def input_size_def)
qed


text \<open>A machine without a disk: every operation of the file system fails and leaves it as it is.\<close>

definition no_disk :: fatfs where
  "no_disk = fat_example\<lparr>ata_present := False, m_totalClusters := 0\<rparr>"

lemma no_disk_find: "findFileInDirectory c n no_disk = Some None"
proof -
  have "readSector x no_disk = None" "spc no_disk = Suc 0" for x
    by (simp_all add: readSector_def diskRead_def no_disk_def fat_example_def)
  then show ?thesis unfolding findFileInDirectory_def by (subst walk_directory.simps) simp
qed

lemma no_disk_paths:
  "findFile (cstr ''/shell'') no_disk = Some None" "findFile history_path no_disk = Some None" "findFile config_path no_disk = Some None"
  "split_path history_path no_disk = (cstr ''/shell'', cstr ''history'')"
proof -
  have 1: "root_or_current (cstr ''/shell'') no_disk = (2, cstr ''shell'')" "first_slash (cstr ''shell'') = None" "cstr ''shell'' \<noteq> []"
    "root_or_current history_path no_disk = (2, cstr ''shell/history'')" "first_slash (cstr ''shell/history'') = Some (cstr ''shell'', cstr ''history'')"
    "cstr ''shell/history'' \<noteq> []" "root_or_current config_path no_disk = (2, cstr ''shell/config'')"
    "first_slash (cstr ''shell/config'') = Some (cstr ''shell'', cstr ''config'')" "cstr ''shell/config'' \<noteq> []"
    by code_simp+
  show "findFile (cstr ''/shell'') no_disk = Some None" "findFile history_path no_disk = Some None" "findFile config_path no_disk = Some None"
    by (simp_all add: findFile_def 1 no_disk_find)
  show "split_path history_path no_disk = (cstr ''/shell'', cstr ''history'')" by code_simp
qed

lemma no_disk_history: "vol w = no_disk \<Longrightarrow> append_to_history_file line w = Some w"
proof -
  assume w: "vol w = no_disk"
  have e: "enter_directory (cstr ''/shell'') no_disk = Some None"
  proof -
    have "cstr ''/shell'' \<noteq> [47]" by code_simp
    then show ?thesis by (simp add: enter_directory_def no_disk_paths)
  qed
  have c: "createDirectory (cstr ''shell'') no_disk = Some (False, no_disk)"
  proof -
    have "validateFileName (cstr ''shell'')" "root_or_current (cstr ''shell'') no_disk = (2, cstr ''shell'')" "cstr ''shell'' \<noteq> []"
      "fst (allocateCluster no_disk) = 0" by code_simp+
    moreover have "snd (allocateCluster no_disk) = no_disk" by (simp add: allocateCluster_def no_disk_def allocate_from.simps)
    ultimately have "allocateCluster no_disk = (0, no_disk)" "validateFileName (cstr ''shell'')"
      "root_or_current (cstr ''shell'') no_disk = (2, cstr ''shell'')" "cstr ''shell'' \<noteq> []" by (simp_all add: prod_eq_iff)
    then show ?thesis by (simp add: createDirectory_def create_entry_def no_disk_find)
  qed
  have r: "restore_directory no_disk no_disk = no_disk" by (simp add: restore_directory_def no_disk_def fat_example_def
      set_current_dir_name_def set_current_path_def set_current_directory_cluster_def clip_path_def MAX_PATH_def)
  have v: "w\<lparr>vol := no_disk\<rparr> = w" using w by (cases w) simp
  show ?thesis using w
    by (simp add: append_to_history_file_def on_volume_def no_disk_paths c createFileWithContent_def writeFileByPath_def readFileByPath_def e r v Let_def)
qed

definition shell_example :: "world \<Rightarrow> shell" where
  "shell_example w = clear_input \<lparr>wld = w\<lparr>edt := (edt w)\<lparr>m_active := False\<rparr>, pgr := (pgr w)\<lparr>pager_active := False\<rparr>, vol := no_disk, aliases := []\<rparr>,
     input_buffer = [], input_pos = 0, current_tab_match = 0, current_tab_prefix = [], tab_matches = []\<rparr>"

lemma no_disk_clear:
  assumes "vol w = no_disk" "aliases w = []"
  shows "commands_spec other pl (pieces (cstr ''clear ;clear'')) w = Some (w\<lparr>con := terminal_clear (terminal_clear (con w))\<rparr>)"
proof -
  have "pieces (cstr ''clear ;clear'') = [cstr ''clear '', cstr ''clear'']" "parse_piece (cstr ''clear '') = Some (cstr ''clear'', Some [])"
    "parse_piece (cstr ''clear'') = Some (cstr ''clear'', None)" "cstr ''clear'' \<noteq> cstr ''edit''" "cstr ''clear'' \<noteq> cstr ''help''"
    "cstr ''clear'' \<noteq> cstr ''echo''" by code_simp+
  then show ?thesis using assms by (simp add: get_alias_def no_disk_paths dispatch_command_def)
qed


section \<open>Aliases\<close>

lemma lines_of_line: "10 \<notin> set l \<Longrightarrow> lines_of (l @ 10 # r) = l # lines_of r"
proof -
  assume "10 \<notin> set l"
  then have "takeWhile (\<lambda>c. c \<noteq> 10) (l @ 10 # r) = l" "dropWhile (\<lambda>c. c \<noteq> 10) (l @ 10 # r) = 10 # r" by (induction l) auto
  then show ?thesis by (subst lines_of.simps) simp
qed

lemma parse_alias_line: "61 \<notin> set n \<Longrightarrow> length n < 64 \<Longrightarrow> length v < 256 \<Longrightarrow> parse_alias (n @ 61 # v) = Some (n, v)"
proof -
  assume n: "61 \<notin> set n" and len: "length n < 64" "length v < 256"
  from n have "takeWhile (\<lambda>c. c \<noteq> 61) (n @ 61 # v) = n" "dropWhile (\<lambda>c. c \<noteq> 61) (n @ 61 # v) = 61 # v" by (induction n) auto
  then show ?thesis using len by (simp add: parse_alias_def)
qed

definition alias_line :: "bytes \<times> bytes \<Rightarrow> bytes" where
  "alias_line = (\<lambda>(n, v). n @ 61 # v)"

definition alias_ok :: "bytes \<times> bytes \<Rightarrow> bool" where
  "alias_ok = (\<lambda>(n, v). 61 \<notin> set n \<and> 10 \<notin> set n \<and> length n < 64 \<and> 10 \<notin> set v \<and> length v < 256)"

lemma lines_of_aliases: "list_all alias_ok as \<Longrightarrow> lines_of (concat (map (\<lambda>a. alias_line a @ [10]) as)) = map alias_line as"
proof (induction as)
  case (Cons a as)
  then have "10 \<notin> set (alias_line a)" by (auto simp: alias_line_def alias_ok_def)
  then show ?case using Cons lines_of_line [of "alias_line a"] by simp
qed (simp add: lines_of.simps)

lemma parse_aliases_lines:
  "list_all alias_ok as \<Longrightarrow> length acc + length as \<le> 100 \<Longrightarrow> parse_aliases (map alias_line as) acc = acc @ as"
  by (induction as arbitrary: acc) (auto simp: parse_alias_line alias_line_def alias_ok_def)

text \<open>
  The alias file round trip: a file with one line \<^verbatim>\<open>name=value\<close> for each of up to 100 aliases is parsed into those aliases, in order.
\<close>

theorem alias_file_roundtrip:
  assumes "list_all alias_ok as" "length as \<le> 100"
  shows "parse_aliases (lines_of (concat (map (\<lambda>a. alias_line a @ [10]) as))) [] = as"
  using assms by (simp add: lines_of_aliases parse_aliases_lines)

theorem alias_file_roundtrip_witness:
  "parse_aliases (lines_of default_aliases) [] = [(cstr ''c'', cstr ''clear''), (cstr ''..'', cstr ''cd ..'')]"
proof -
  let ?as = "[(cstr ''c'', cstr ''clear''), (cstr ''..'', cstr ''cd ..'')]"
  have "list_all alias_ok ?as" "default_aliases = concat (map (\<lambda>a. alias_line a @ [10]) ?as)" by code_simp+
  then show ?thesis using alias_file_roundtrip [of ?as] by simp
qed

text \<open>
  Expansion in place. For the line \<^verbatim>\<open>c;ls\<close> the value \<^verbatim>\<open>clear\<close> is written over the command behind the semicolon, of which \<^verbatim>\<open>ear\<close>
  is left; and with arguments the command becomes the format of the call to \<open>snprintf\<close>.
\<close>

theorem alias_overwrites_line:
  "expand_alias 0 (cstr ''clear'') None (cstr ''c'' @ [0] @ cstr ''ls'' @ [0, 0, 0]) = Some (cstr ''clear'' @ [0, 0]) \<and>
   string_from 2 (cstr ''clear'' @ [0, 0]) = Some (cstr ''ear'') \<and>
   expand_alias 0 (cstr ''clear'') (Some 2) (cstr ''c'' @ [0] @ cstr ''now'' @ [0, 0, 0]) = Some (cstr ''%s %s'' @ [0, 0, 0])"
  by (intro conjI) code_simp+

end
