(* ===== verification/Command_Proofs.thy ===== *)
theory Command_Proofs
  imports Shell Fat_Operations
begin

text \<open>
  Commands as processes: a command whose body leaves the kernel alone leaves the process table, the run queues and every other
  process as it found them. On top of that, what \<^verbatim>\<open>cat\<close> shows of a file, and where \<^verbatim>\<open>cd\<close> leads.
\<close>

section \<open>The process of a command\<close>

definition can_start :: "platform \<Rightarrow> u64 list \<Rightarrow> kernel \<Rightarrow> bool" where
  "can_start pl ps k \<longleftrightarrow> (let p = pl_new pl k; pid = m_next_pid k; stack = kernel_stack_base pid in
     proc_list k ps \<and> p \<notin> set ps \<and> p \<noteq> nullptr \<and> (\<forall>q \<in> set ps. p_pid (procs k q) \<noteq> pid) \<and>
     sched_ok k \<and> sched_room k \<and> p \<notin># queued k \<and> vm_ok (k_vm k) \<and> 16 \<le> vm_budget (k_vm k) \<and>
     (\<forall>i < 4. vm_usable (k_vm k) (stack + of_nat i * 4096) \<and> vm_leaf (k_vm k) (stack + of_nat i * 4096) = None) \<and>
     m_current_process k \<noteq> nullptr \<and> m_current_process k \<noteq> p)"

text \<open>The table, the queues and the lookup are as before.\<close>

definition same_processes :: "u64 list \<Rightarrow> kernel \<Rightarrow> kernel \<Rightarrow> bool" where
  "same_processes ps k k' \<longleftrightarrow> proc_list k' ps \<and> queued k' = queued k \<and> sched_ok k' \<and> (\<forall>pid. get_process pid k' = get_process pid k)"

lemma start_and_end:
  assumes "can_start pl ps k"
  shows "\<exists>k1 k2. create_process (pl_new pl k) name ppid k = Some (m_next_pid k, k1) \<and>
    terminate_process cpu (m_next_pid k) k1 = Some k2 \<and> same_processes ps k k2"
proof -
  let ?p = "pl_new pl k" and ?pid = "m_next_pid k"
  have a: "proc_list k ps" "?p \<notin> set ps" "?p \<noteq> nullptr" "\<forall>q \<in> set ps. p_pid (procs k q) \<noteq> ?pid" "sched_ok k" "sched_room k" "?p \<notin># queued k"
    "vm_ok (k_vm k)" "16 \<le> vm_budget (k_vm k)"
    "\<forall>i < 4. vm_usable (k_vm k) (kernel_stack_base ?pid + of_nat i * 4096) \<and> vm_leaf (k_vm k) (kernel_stack_base ?pid + of_nat i * 4096) = None"
    "m_current_process k \<noteq> nullptr" "m_current_process k \<noteq> ?p"
    using assms by (simp_all add: can_start_def Let_def)
  obtain k1 where 1: "create_process ?p name ppid k = Some (?pid, k1)" "proc_list k1 (?p # ps)" "queued k1 = add_mset ?p (queued k)" "sched_ok k1"
    "\<forall>pid. pid \<noteq> ?pid \<longrightarrow> get_process pid k1 = get_process pid k" "p_memory_regions (procs k1 ?p) = []"
    "\<forall>q. q \<noteq> ?p \<longrightarrow> p_pid (procs k1 q) = p_pid (procs k q)" "p_pid (procs k1 ?p) = ?pid" "m_current_process k1 = m_current_process k"
    using create_process_spec [OF a(1-10), of name ppid] a(11) by blast
  have fresh: "\<forall>x \<in> set ([] @ ps). p_pid (procs k1 x) \<noteq> ?pid" using 1(7) a(2,4) by (metis append_Nil)
  have t: "proc_list k1 ([] @ ?p # ps)" "m_current_process k1 \<noteq> ?p" using 1(2,9) a(12) by simp_all
  obtain k2 where 2: "terminate_process cpu ?pid k1 = Some k2" "proc_list k2 ps" "queued k2 = queued k1 - {#?p#}" "sched_ok k2"
    "get_process ?pid k2 = Some nullptr" "\<forall>pid. pid \<noteq> ?pid \<longrightarrow> get_process pid k2 = get_process pid k1"
    using terminate_process_spec [OF t(1) 1(8) fresh t(2) 1(4), of cpu] 1(6) by auto
  have "find (\<lambda>x. p_pid (procs k x) = ?pid) ps = None" using a(4) by (simp add: find_None_iff)
  then have "get_process ?pid k = Some nullptr" using get_process_list [OF a(1), of ?pid] by simp
  then have "get_process pid k2 = get_process pid k" for pid using 1(5) 2(5,6) by (cases "pid = ?pid") simp_all
  then show ?thesis using 1(1,3) 2(1-4) by (auto simp: same_processes_def)
qed

text \<open>The contract of a command's body and what the frame around it gives.\<close>

locale command_body =
  fixes body :: "world \<Rightarrow> world option"
  assumes keeps_kernel: "body w = Some w' \<Longrightarrow> krn w' = krn w"
begin

lemma runs_as_process:
  assumes "can_start pl ps (krn w)" "\<And>k1. body (w\<lparr>krn := k1\<rparr>) = map_option (\<lambda>w. w\<lparr>krn := k1\<rparr>) r"
  shows "\<exists>k2. in_process pl name body w = map_option (\<lambda>w. w\<lparr>krn := k2\<rparr>) r \<and> same_processes ps (krn w) k2"
proof -
  obtain k1 k2 where k: "create_process (pl_new pl (krn w)) name (shell_pid w) (krn w) = Some (m_next_pid (krn w), k1)"
    "terminate_process (pl_cpu pl) (m_next_pid (krn w)) k1 = Some k2" "same_processes ps (krn w) k2"
    using start_and_end [OF assms(1)] by blast
  then show ?thesis using assms(2) [of k1] by (intro exI [of _ k2]) (cases r; simp add: in_process_def)
qed

lemma ends_its_process:
  assumes "can_start pl ps (krn w)" "in_process pl name body w = Some w'"
  shows "same_processes ps (krn w) (krn w')"
proof -
  obtain k1 k2 where k: "create_process (pl_new pl (krn w)) name (shell_pid w) (krn w) = Some (m_next_pid (krn w), k1)"
    "terminate_process (pl_cpu pl) (m_next_pid (krn w)) k1 = Some k2" "same_processes ps (krn w) k2"
    using start_and_end [OF assms(1)] by blast
  obtain w1 where w1: "body (w\<lparr>krn := k1\<rparr>) = Some w1" using assms(2) k(1) by (cases "body (w\<lparr>krn := k1\<rparr>)") (simp_all add: in_process_def)
  have "krn w1 = k1" using keeps_kernel [OF w1] by simp
  then have "in_process pl name body w = Some (w1\<lparr>krn := k2\<rparr>)" using k(1,2) w1 by (simp add: in_process_def)
  then show ?thesis using assms(2) k(3) by simp
qed

end

section \<open>Commands that leave the kernel alone\<close>

lemma say_kernel: "say fmt args w = Some w' \<Longrightarrow> krn w' = krn w"
  by (auto simp: say_def)

lemma on_volume_kernel: "on_volume f w = Some w' \<Longrightarrow> krn w' = krn w"
  by (auto simp: on_volume_def)

lemma put_kernel [simp]: "krn (put bs w) = krn w"
  by (simp add: put_def)

lemma for_all_kernel:
  assumes "\<And>x w w'. f x w = Some w' \<Longrightarrow> krn w' = krn w" "for_all f xs w = Some w'"
  shows "krn w' = krn w"
  using assms(2) by (induction xs arbitrary: w) (auto simp: bind_eq_Some_conv dest: assms(1))

lemma cat_rounds_kernel: "cat_rounds pl c n b w = Some (b', w') \<Longrightarrow> krn w' = krn w"
proof (induction pl c n b w rule: cat_rounds.induct)
  case (1 pl cluster remaining b w)
  then show ?case by (subst (asm) (2) cat_rounds.simps) (auto simp: Let_def bind_eq_Some_conv split: if_split_asm)
qed

lemma cat_file_kernel: "cat_file pl c sz w = Some w' \<Longrightarrow> krn w' = krn w"
  by (auto simp: cat_file_def bind_eq_Some_conv split: if_split_asm dest!: cat_rounds_kernel)

lemma show_in_pager_kernel: "show_in_pager str w = Some w' \<Longrightarrow> krn w' = krn w"
  by (auto simp: show_in_pager_def bind_eq_Some_conv)

lemma list_callback_kernel: "list_callback name attributes sz w = Some w' \<Longrightarrow> krn w' = krn w"
  unfolding list_callback_def by (auto simp: bind_eq_Some_conv split: if_split_asm dest!: say_kernel)

lemma list_entry_kernel: "list_entry e w = Some w' \<Longrightarrow> krn w' = krn w"
  by (auto simp: list_entry_def split: if_split_asm dest: list_callback_kernel)

lemma list_cluster_kernel: "list_cluster pl c w = Some w' \<Longrightarrow> krn w' = krn w"
  using for_all_kernel [of list_entry, OF list_entry_kernel] by (auto simp: list_cluster_def bind_eq_Some_conv)

lemma remove_found_kernel: "remove_found pl name attributes w = Some w' \<Longrightarrow> krn w' = krn w"
  by (auto simp: remove_found_def split: if_split_asm dest: on_volume_kernel)

lemma remove_match_kernel: "remove_match pl pat e w = Some w' \<Longrightarrow> krn w' = krn w"
  by (auto simp: remove_match_def bind_eq_Some_conv split: if_split_asm option.split_asm dest: remove_found_kernel)

lemma print_history_kernel: "print_history n ls w = Some w' \<Longrightarrow> krn w' = krn w"
  by (induction ls arbitrary: n w) (auto simp: bind_eq_Some_conv split: if_split_asm dest!: say_kernel)

lemmas body_kernel_rules = say_kernel on_volume_kernel show_in_pager_kernel cat_file_kernel list_cluster_kernel remove_found_kernel print_history_kernel

interpretation ls: command_body "ls_body pl path" for pl path
  by unfold_locales (auto simp: ls_body_def bind_eq_Some_conv split: if_split_asm option.split_asm dest: body_kernel_rules)

interpretation mkdir: command_body "mkdir_body pl path" for pl path
  by unfold_locales (auto simp: mkdir_body_def bind_eq_Some_conv split: if_split_asm dest: body_kernel_rules)

interpretation touch: command_body "touch_body pl path" for pl path
  by unfold_locales (auto simp: touch_body_def bind_eq_Some_conv split: if_split_asm dest: body_kernel_rules)

interpretation mv: command_body "mv_body pl args" for pl args
  by unfold_locales (auto simp: mv_body_def Let_def bind_eq_Some_conv split: if_split_asm option.split_asm prod.split_asm dest: body_kernel_rules)

interpretation rm: command_body "rm_body pl path" for pl path
  by unfold_locales
    (auto simp: rm_body_def bind_eq_Some_conv split: if_split_asm option.split_asm dest: body_kernel_rules for_all_kernel [rotated] intro: remove_match_kernel)

interpretation cd: command_body "cd_body pl path" for pl path
  by unfold_locales (auto simp: cd_body_def)

interpretation cat: command_body "cat_body pl path" for pl path
  by unfold_locales (auto simp: cat_body_def bind_eq_Some_conv split: if_split_asm option.split_asm dest: body_kernel_rules)

interpretation less: command_body "less_body pl path" for pl path
  by unfold_locales (auto simp: less_body_def bind_eq_Some_conv split: if_split_asm option.split_asm dest: body_kernel_rules)

interpretation echo: command_body "echo_body pl args" for pl args
  by unfold_locales (auto simp: echo_body_def bind_eq_Some_conv split: option.split_asm dest!: body_kernel_rules)

interpretation edit: command_body "edit_body pl path" for pl path
  by unfold_locales (auto simp: edit_body_def split: sum.split_asm)

interpretation history: command_body "history_body pl" for pl
  by unfold_locales (auto simp: history_body_def bind_eq_Some_conv Let_def split: if_split_asm dest: body_kernel_rules)

interpretation help_page: command_body "show_in_pager help_text"
  by unfold_locales (rule show_in_pager_kernel)

lemma ps_line_kernel: "ps_line p w = Some w' \<Longrightarrow> krn w' = krn w"
  by (auto simp: ps_line_def bind_eq_Some_conv dest!: say_kernel)

lemma ps_from_kernel: "ps_from p w = Some w' \<Longrightarrow> krn w' = krn w"
proof (induction rule: ps_from.raw_induct [rotated, consumes 1, case_names step])
  case (step f p w w')
  then show ?case by (fastforce simp: bind_eq_Some_conv split: if_split_asm dest: ps_line_kernel)
qed

interpretation ps: command_body "ps_body pl" for pl
  by unfold_locales (auto simp: ps_body_def bind_eq_Some_conv dest!: say_kernel ps_from_kernel)

lemma command_names:
  "distinct (rev (map cstr [''help'', ''echo'', ''clear'', ''ls'', ''mkdir'', ''cd'', ''cat'', ''mv'', ''rm'', ''touch'', ''history'', ''ps'', ''pkill'', ''less'']))"
  by code_simp

lemmas distinct_names = command_names [simplified]

lemma dispatch_simps:
  "dispatch_command other pl (cstr ''help'') args w = cmd_help pl w"
  "dispatch_command other pl (cstr ''echo'') args w = cmd_echo pl args w"
  "dispatch_command other pl (cstr ''ls'') args w = cmd_ls pl args w"
  "dispatch_command other pl (cstr ''mkdir'') args w = cmd_mkdir pl args w"
  "dispatch_command other pl (cstr ''cd'') args w = cmd_cd pl args w"
  "dispatch_command other pl (cstr ''cat'') args w = cmd_cat pl args w"
  "dispatch_command other pl (cstr ''mv'') args w = cmd_mv pl args w"
  "dispatch_command other pl (cstr ''rm'') args w = cmd_rm pl args w"
  "dispatch_command other pl (cstr ''touch'') args w = cmd_touch pl args w"
  "dispatch_command other pl (cstr ''history'') args w = cmd_history pl w"
  "dispatch_command other pl (cstr ''ps'') args w = cmd_ps pl w"
  "dispatch_command other pl (cstr ''less'') args w = cmd_less pl args w"
  unfolding dispatch_command_def by (simp_all only: distinct_names if_True if_False refl)

lemmas command_defs = cmd_help_def cmd_echo_def cmd_ls_def cmd_mkdir_def cmd_cd_def cmd_cat_def cmd_mv_def cmd_rm_def cmd_touch_def
  cmd_history_def cmd_ps_def cmd_less_def

lemmas commands_end = help_page.ends_its_process echo.ends_its_process ls.ends_its_process mkdir.ends_its_process cd.ends_its_process
  cat.ends_its_process mv.ends_its_process rm.ends_its_process touch.ends_its_process history.ends_its_process ps.ends_its_process less.ends_its_process


text \<open>A kernel that runs its first process outside the table, and the platform that places the next one.\<close>

definition idle_example :: kernel where
  "idle_example = boot_example\<lparr>m_current_process := 0x20\<rparr>"

definition platform_example :: platform where
  "platform_example = \<lparr>pl_cpu = 0, pl_new = (\<lambda>_. 0x1000), pl_junk = (\<lambda>_. 0), pl_depth = 0\<rparr>"

lemma idle_can_start: "can_start platform_example [] idle_example"
proof -
  have "k_vm idle_example = vm_fresh 64" "queued idle_example = {#}" "proc_list idle_example []" "sched_ok idle_example" "sched_room idle_example"
    "m_current_process idle_example = 0x20"
    using boot_example_simps by (simp_all add: idle_example_def queued_def proc_list_def sched_ok_def sched_room_def)
  then show ?thesis using vm_fresh_64 by (simp add: can_start_def Let_def platform_example_def)
qed


section \<open>Showing a file\<close>

text \<open>What \<^verbatim>\<open>cat\<close> prints of a content of \<open>n\<close> bytes: the first 4096 bytes again for every full round, then the first bytes once more.\<close>

definition cat_text :: "bytes \<Rightarrow> nat \<Rightarrow> bytes" where
  "cat_text content n = concat (replicate (n div 4096) (take 4096 content)) @ take (n mod 4096) content"

lemma cat_text_step:
  assumes "0 < n"
  shows "cat_text content n = take (min n 4096) content @ cat_text content (n - min n 4096)"
proof (cases "n < 4096")
  case True
  then show ?thesis by (simp add: cat_text_def)
next
  case False
  then have "n div 4096 = Suc ((n - 4096) div 4096)" "n mod 4096 = (n - 4096) mod 4096" by (simp_all add: le_div_geq le_mod_geq)
  then show ?thesis using False by (simp add: cat_text_def)
qed

lemma read_buffer_exact:
  assumes "readFile c n s = Some data" "length data = n"
  shows "read_buffer pl c n s = Some data"
  using assms by (auto simp: read_buffer_def intro: nth_equalityI)

lemma put_Nil [simp]: "put [] w = w"
  by (cases w) (simp add: put_def)

lemma put_append: "put (xs @ ys) w = put ys (put xs w)"
  by (simp add: put_def)

lemma cat_rounds_spec:
  assumes "\<And>m. m \<le> 4096 \<Longrightarrow> m \<le> length content \<Longrightarrow> readFile c m (vol w) = Some (take m content)" "n \<le> length content"
  shows "cat_rounds pl c n b w = Some (if n = 0 then b else last (cat_text content n) = 10, put (map shown (cat_text content n)) w)"
  using assms
proof (induction pl c n b w rule: cat_rounds.induct)
  case (1 pl c n b w)
  show ?case
  proof (cases "n = 0")
    case True
    then show ?thesis by (simp add: cat_rounds.simps [of pl c 0] cat_text_def put_def)
  next
    case False
    let ?m = "min n 4096" and ?t = "take (min n 4096) content" and ?w = "put (map shown (take (min n 4096) content)) w"
    have rd: "read_buffer pl c ?m (vol w) = Some ?t" by (rule read_buffer_exact) (use 1(2) [of ?m] 1(3) in auto)
    have ne: "?t \<noteq> []" using False 1(3) by auto
    have "cat_rounds pl c (n - ?m) (last ?t = 10) ?w =
        Some (if n - ?m = 0 then last ?t = 10 else last (cat_text content (n - ?m)) = 10, put (map shown (cat_text content (n - ?m))) ?w)"
      by (rule 1(1) [OF _ refl rd]) (use False 1(2,3) in \<open>auto simp: put_def\<close>)
    moreover have "cat_text content (n - ?m) \<noteq> []" if "n - ?m \<noteq> 0"
    proof -
      have "take (min (n - ?m) 4096) content \<noteq> []" using that 1(3) False by auto
      then show ?thesis using cat_text_step [of "n - ?m" content] that by simp
    qed
    ultimately show ?thesis using False rd cat_text_step [of n content]
      by (subst cat_rounds.simps) (auto simp: Let_def put_append [symmetric] cat_text_def)
  qed
qed

lemma cat_text_small: "length content = n \<Longrightarrow> n \<le> 4096 \<Longrightarrow> cat_text content n = content"
  by (cases "n = 4096") (simp_all add: cat_text_def)

text \<open>
  C23: \<^verbatim>\<open>cat\<close> on a file of the current directory prints, behind what the screen showed, the bytes of the file with a dot in place
  of every byte that cannot be printed, and a newline unless they end in one. Up to 4096 bytes these are the bytes of the file;
  of a longer file every round prints the first bytes again. Volume, process table and queues are left as they were.
\<close>

theorem cat_shows_file:
  assumes "can_start pl ps (krn w)" "displays L (con w)" "vol_ok (vol w)" "component path" "m_currentDirectoryCluster (vol w) = dc"
    and "fchain (vol w) (dc # ds)" "map_of (dir_list (vol w) (dc # ds)) path = Some (c, sz, attrs)" "attrs AND 0x10 = 0" "sz \<noteq> 0"
    and "fchain (vol w) (c # cl)" "content = take (unat sz) (file_bytes (vol w) (c # cl))" "length content = unat sz"
    and "out = cat_text content (unat sz)"
  shows "(unat sz \<le> 4096 \<longrightarrow> out = content) \<and>
    (\<exists>w'. cmd_cat pl (Some path) w = Some w' \<and> vol w' = vol w \<and> same_processes ps (krn w) (krn w') \<and>
      displays (fold (type_char (terminal_color (con w))) (map shown out @ (if last out = 10 then [] else [10])) L) (con w'))"
proof -
  let ?bs = "map shown out @ (if last out = 10 then [] else [10])"
  have find: "findFile path (vol w) = Some (Some (c, sz, attrs))"
    using findFile_plain [OF assms(4)] findFileInDirectory_spec [OF assms(3,6)] assms(5,7) by simp
  have rd: "readFile c m (vol w) = Some (take m content)" if "m \<le> length content" for m
    using readFile_ok [OF assms(3,10), of m] that assms(11,12) by (simp add: min_absorb1)
  have cat: "cat_file pl c sz (w\<lparr>krn := k\<rparr>) = Some (put ?bs (w\<lparr>krn := k\<rparr>))" for k
    using cat_rounds_spec [of content c "w\<lparr>krn := k\<rparr>" "unat sz" pl False] rd assms(9,12)
    by (simp add: cat_file_def assms(13) put_append unat_eq_0)
  have "cat_body pl (Some path) (w\<lparr>krn := k\<rparr>) = map_option (\<lambda>w. w\<lparr>krn := k\<rparr>) (Some (put ?bs w))" for k
    using assms(4,8) find cat [of k] by (simp add: cat_body_def given_def component_def put_def)
  then obtain k2 where "cmd_cat pl (Some path) w = Some ((put ?bs w)\<lparr>krn := k2\<rparr>)" "same_processes ps (krn w) k2"
    using cat.runs_as_process [OF assms(1), of pl "Some path" "Some (put ?bs w)" "cstr ''cat''"] by (auto simp: cmd_cat_def)
  then show ?thesis using put_text_displays [OF assms(2), of ?bs] cat_text_small [OF assms(12)] assms(13)
    by (intro conjI impI exI [of _ "(put ?bs w)\<lparr>krn := k2\<rparr>"]) (simp_all add: put_def)
qed

theorem cat_shows_file_witness:
  "\<forall>w t. \<exists>w'. cmd_cat platform_example (Some [65]) (w\<lparr>krn := idle_example, vol := dir_example, con := terminal_initialize t\<rparr>) = Some w' \<and>
     displays (fold (type_char white_on_black) [46, 46, 46, 46, 46, 46, 46, 10] [[]]) (con w')"
proof (intro allI)
  fix w :: world and t
  let ?w = "w\<lparr>krn := idle_example, vol := dir_example, con := terminal_initialize t\<rparr>"
  have b: "take 7 (file_bytes dir_example [3]) = replicate 7 0"
    by (simp add: file_bytes_def cluster_data_def first_sector_def dir_example_def fat_example_def)
  have o: "cat_text (replicate 7 0) 7 = replicate 7 0" by (rule cat_text_small) simp_all
  have m: "map shown (replicate 7 0) @ (if last (replicate 7 0 :: bytes) = 10 then [] else [10]) = [46, 46, 46, 46, 46, 46, 46, 10]" by code_simp
  have s: "displays [[]] (con ?w)" "terminal_color (con ?w) = white_on_black" "vol ?w = dir_example" "krn ?w = idle_example"
    using terminal_initialize_displays by simp_all
  show "\<exists>w'. cmd_cat platform_example (Some [65]) ?w = Some w' \<and>
     displays (fold (type_char white_on_black) [46, 46, 46, 46, 46, 46, 46, 10] [[]]) (con w')"
    using cat_shows_file [of platform_example "[]" ?w "[[]]" "[65]" 2 "[]" 3 7 "0x20" "[]" "replicate 7 0" "replicate 7 0"]
      idle_can_start dir_example_ok dir_example_chains dir_example_list b o
    unfolding s(2-4) m by (simp add: component_def) (use s(1) in auto)
qed

section \<open>Changing the directory\<close>

text \<open>The top of the directory stack is the current directory.\<close>

definition dir_top :: "fatfs \<Rightarrow> bool" where
  "dir_top s \<longleftrightarrow> m_dirStack s \<noteq> [] \<and> length (m_currentPath s) < 256 \<and> length (m_currentDirName s) < 256 \<and>
     last (m_dirStack s) = \<lparr>ds_name = m_currentDirName s, ds_path = m_currentPath s, ds_cluster = m_currentDirectoryCluster s\<rparr>"

lemma clip_path_idem [simp]: "clip_path (clip_path p) = clip_path p" "length (clip_path p) < 256" "length p < 256 \<Longrightarrow> clip_path p = p"
  by (simp_all add: clip_path_def MAX_PATH_def)


definition sub_example :: fatfs where
  "sub_example = fat_construct (dir_example\<lparr>disk := (disk dir_example)(3 := put_bytes 0 (dir_entry (short_name [68]) 0x10 3 0) (replicate 512 0))\<rparr>)"

lemma live_entries_one:
  assumes "length e = 32" "get_byte e 0 \<noteq> 0" "get_byte e 0 \<noteq> 0xE5"
  shows "live_entries (e @ 0 # r) = [e]"
proof -
  have u: "[0..<32 :: nat] = 0 # 1 # [2..<32]" by (simp add: upt_conv_Cons)
  have "get_byte (take 32 (drop 32 (e @ 0 # r))) 0 = 0" using assms(1) by (simp add: get_byte_def)
  then show ?thesis using assms unfolding live_entries_def u by simp
qed

lemma sub_example_ok: "vol_ok sub_example"
proof -
  have "vol_ok (fat_construct s) = vol_ok s" for s by (simp add: vol_ok_def fat_construct_def)
  moreover have "length (disk dir_example x) = 512" for x using dir_example_ok by (simp add: vol_ok_def)
  ultimately show ?thesis unfolding sub_example_def using dir_example_ok by (auto simp: vol_ok_def put_bytes_def)
qed

lemma sub_example_chain: "fchain sub_example [2]"
proof -
  have v: "clusters sub_example = clusters dir_example" "2 < clusters dir_example" by (simp_all add: sub_example_def fat_construct_def dir_example_def fat_example_def)
  have "fat_sector 2 dir_example = 1" using fat_position(1) [OF dir_example_ok, of 2] v(2) by (simp add: word_unat_eq_iff dir_example_def fat_example_def)
  moreover have "fat_sector 2 sub_example = fat_sector 2 dir_example" "fat_offset 2 sub_example = fat_offset 2 dir_example"
    by (simp_all add: fat_sector_def fat_offset_def sub_example_def fat_construct_def)
  moreover have "disk sub_example 1 = disk dir_example 1" by (simp add: sub_example_def fat_construct_def)
  ultimately have "readFatEntry 2 sub_example = readFatEntry 2 dir_example"
    using v by (simp add: readFatEntry_ok [OF sub_example_ok] readFatEntry_ok [OF dir_example_ok])
  moreover have "valid sub_example 2 \<longleftrightarrow> valid dir_example 2" using v by (simp add: valid_def)
  ultimately show ?thesis using dir_example_chains(1) by simp
qed

lemma sub_example_buffer: "\<exists>r. read_buffer platform_example 2 1024 sub_example = Some (dir_entry (short_name [68]) 0x10 3 0 @ 0 # r)"
proof -
  let ?e = "dir_entry (short_name [68]) 0x10 3 0"
  have "disk sub_example 3 = ?e @ replicate 480 0" by (simp add: sub_example_def fat_construct_def put_bytes_def)
  moreover have "first_sector 2 sub_example = 3" "spc sub_example = 1" by (simp_all add: first_sector_def sub_example_def fat_construct_def dir_example_def fat_example_def)
  ultimately have "readFile 2 1024 sub_example = Some (?e @ replicate 480 0)"
    using readFile_ok [OF sub_example_ok sub_example_chain, of 1024] by (simp add: file_bytes_def cluster_data_def)
  then have "read_buffer platform_example 2 1024 sub_example = Some (map (\<lambda>i. if i < 512 then (?e @ replicate 480 0) ! i else 0) [0..<1024])"
    by (simp add: read_buffer_def platform_example_def)
  also have "map (\<lambda>i. if i < 512 then (?e @ replicate 480 0) ! i else 0) [0..<1024] = ?e @ replicate 992 0"
    by (rule nth_equalityI) (auto simp: nth_append)
  finally show ?thesis by (intro exI [of _ "replicate 991 0"]) (simp add: replicate_Suc [symmetric] del: replicate_Suc)
qed


text \<open>
  Going to the root leaves the stack as it is, so two dots lead from there to the parent of the directory that was left, not to
  the root.
\<close>

theorem cd_root_keeps_stack:
  assumes "m_dirStack s = st @ [parent, d]"
  shows "\<exists>s1 s2. cd pl (Some [47]) s = Some s1 \<and> m_currentDirectoryCluster s1 = 2 \<and>
    cd pl (Some [46, 46]) s1 = Some s2 \<and> m_currentDirectoryCluster s2 = ds_cluster parent"
  using assms by (simp add: cd_def given_def go_root_def pop_directory_def set_current_directory_cluster_def set_current_dir_name_def set_current_path_def
      ROOT_CLUSTER_def butlast_append)

end
