(* ===== verification/Interrupts.thy ===== *)
theory Interrupts
  imports Shell
begin

text \<open>
  Descriptor tables and interrupts: \<open>hw/gdt.cpp\<close>, \<open>hw/idt.cpp\<close>, \<open>hw/pic.cpp\<close> and the keyboard driver, \<open>drivers/keyboard.cpp\<close>,
  whose callback is the shell.

  A write to a port is kept in the log \<open>outs\<close>, oldest first; the scan code that the keyboard controller delivers is an argument.
  The addresses of the assembly stubs \<^verbatim>\<open>isr0\<close> to \<^verbatim>\<open>isr47\<close> are given by a function. \<open>None\<close> stands for a read outside an array and for
  undefined behaviour in the callback.
\<close>

type_synonym outputs = "(u16 \<times> u8) list"

section \<open>Segment descriptors\<close>

record gdt_entry =
  limit_low :: u16
  base_low :: u16
  base_middle :: u8
  gdt_access :: u8
  limit_high_flags :: u8
  base_high :: u8

definition GDT_PRESENT :: u8 where "GDT_PRESENT = 0x80"
definition GDT_USER :: u8 where "GDT_USER = 0x60"
definition GDT_DESCRIPTOR :: u8 where "GDT_DESCRIPTOR = 0x10"
definition GDT_EXECUTABLE :: u8 where "GDT_EXECUTABLE = 0x08"
definition GDT_READWRITE :: u8 where "GDT_READWRITE = 0x02"
definition GDT_FLAGS_64BIT :: u8 where "GDT_FLAGS_64BIT = 0x20"
definition GDT_FLAGS_4K_GRAN :: u8 where "GDT_FLAGS_4K_GRAN = 0x80"

definition gdt_create_descriptor :: "u32 \<Rightarrow> u32 \<Rightarrow> u8 \<Rightarrow> u8 \<Rightarrow> gdt_entry" where
  "gdt_create_descriptor base limit access flags =
    \<lparr>limit_low = ucast (limit AND 0xFFFF), base_low = ucast (base AND 0xFFFF), base_middle = ucast (drop_bit 16 base AND 0xFF),
     gdt_access = access, limit_high_flags = ucast (drop_bit 16 limit AND 0x0F) OR (flags AND 0xF0),
     base_high = ucast (drop_bit 24 base AND 0xFF)\<rparr>"

record gdt_state =
  gdt :: "gdt_entry list"
  gdtr_offset :: u64
  gdt_loaded :: bool
  cr0 :: u32
  cr4 :: u32

text \<open>The marks that \<open>init_gdt\<close> puts on the screen are left out. \<open>addr\<close> is the address of the table.\<close>

definition init_gdt :: "u64 \<Rightarrow> gdt_state \<Rightarrow> gdt_state" where
  "init_gdt addr s = s\<lparr>
     gdt := [gdt_create_descriptor 0 0 0 0,
       gdt_create_descriptor 0 0 (GDT_PRESENT OR GDT_DESCRIPTOR OR GDT_EXECUTABLE OR GDT_READWRITE) (GDT_FLAGS_64BIT OR GDT_FLAGS_4K_GRAN),
       gdt_create_descriptor 0 0 (GDT_PRESENT OR GDT_DESCRIPTOR OR GDT_READWRITE) GDT_FLAGS_4K_GRAN,
       gdt_create_descriptor 0 0 (GDT_PRESENT OR GDT_DESCRIPTOR OR GDT_USER OR GDT_EXECUTABLE OR GDT_READWRITE) (GDT_FLAGS_64BIT OR GDT_FLAGS_4K_GRAN),
       gdt_create_descriptor 0 0 (GDT_PRESENT OR GDT_DESCRIPTOR OR GDT_USER OR GDT_READWRITE) GDT_FLAGS_4K_GRAN],
     gdtr_offset := addr, gdt_loaded := True,
     cr0 := (cr0 s AND NOT (push_bit 2 1)) OR push_bit 1 1,
     cr4 := cr4 s OR push_bit 9 1 OR push_bit 10 1\<rparr>"

section \<open>Gates\<close>

record idt_entry =
  offset_low :: u16
  gate_selector :: u16
  gate_ist :: u8
  type_attr :: u8
  offset_middle :: u16
  offset_high :: u32
  gate_zero :: u32

record idt_state =
  idt :: "idt_entry list"
  idtr_offset :: u64
  idt_loaded :: bool

definition IDT_ENTRIES :: nat where "IDT_ENTRIES = 256"
definition IDT_PRESENT :: u8 where "IDT_PRESENT = 0x80"
definition IDT_DPL0 :: u8 where "IDT_DPL0 = 0x00"
definition IDT_INTERRUPT_GATE :: u8 where "IDT_INTERRUPT_GATE = 0x0E"

definition no_gate :: idt_entry where
  "no_gate = \<lparr>offset_low = 0, gate_selector = 0, gate_ist = 0, type_attr = 0, offset_middle = 0, offset_high = 0, gate_zero = 0\<rparr>"

definition empty_idt :: idt_state where
  "empty_idt = \<lparr>idt = replicate IDT_ENTRIES no_gate, idtr_offset = 0, idt_loaded = False\<rparr>"

definition idt_create_descriptor :: "u64 \<Rightarrow> u16 \<Rightarrow> u8 \<Rightarrow> idt_entry" where
  "idt_create_descriptor addr selector flags =
    \<lparr>offset_low = ucast (addr AND 0xFFFF), gate_selector = selector, gate_ist = 0, type_attr = flags,
     offset_middle = ucast (drop_bit 16 addr AND 0xFFFF), offset_high = ucast (drop_bit 32 addr AND 0xFFFFFFFF), gate_zero = 0\<rparr>"

definition set_interrupt_handler :: "u8 \<Rightarrow> u64 \<Rightarrow> u8 \<Rightarrow> idt_state \<Rightarrow> idt_state" where
  "set_interrupt_handler vector handler flags s =
    (if handler \<noteq> nullptr then s\<lparr>idt := (idt s)[unat vector := idt_create_descriptor handler 0x08 flags]\<rparr> else s)"

text \<open>The two loops; \<open>isr v\<close> is the address of the stub that the switch selects for vector \<open>v\<close>.\<close>

definition kernel_gate :: u8 where
  "kernel_gate = IDT_PRESENT OR IDT_DPL0 OR IDT_INTERRUPT_GATE"

definition init_idt :: "(nat \<Rightarrow> u64) \<Rightarrow> u64 \<Rightarrow> idt_state \<Rightarrow> idt_state" where
  "init_idt isr addr s =
    (let s = fold (\<lambda>v. set_interrupt_handler (of_nat v) (isr v) kernel_gate) [0..<32] s;
         s = fold (\<lambda>irq. set_interrupt_handler (32 + of_nat irq) (isr (32 + irq)) kernel_gate) [0..<16] s
     in s\<lparr>idtr_offset := addr, idt_loaded := True\<rparr>)"

section \<open>The interrupt controllers\<close>

definition PIC1_COMMAND :: u16 where "PIC1_COMMAND = 0x20"
definition PIC1_DATA :: u16 where "PIC1_DATA = 0x21"
definition PIC2_COMMAND :: u16 where "PIC2_COMMAND = 0xA0"
definition PIC2_DATA :: u16 where "PIC2_DATA = 0xA1"

definition init_pic :: "outputs \<Rightarrow> outputs" where
  "init_pic outs = outs @ [(PIC1_COMMAND, 0x11), (PIC2_COMMAND, 0x11), (PIC1_DATA, 0x20), (PIC2_DATA, 0x28),
     (PIC1_DATA, 0x04), (PIC2_DATA, 0x02), (PIC1_DATA, 0x01), (PIC2_DATA, 0x01), (PIC1_DATA, 0xFC), (PIC2_DATA, 0xFF)]"

section \<open>The keyboard\<close>

definition scancode_to_ascii :: bytes where
  "scancode_to_ascii =
    [0, 27, 49, 50, 51, 52, 53, 54, 55, 56, 57, 48, 45, 61, 8, 9, 113, 119, 101, 114,
     116, 121, 117, 105, 111, 112, 91, 93, 10, 0, 97, 115, 100, 102, 103, 104, 106, 107, 108, 59,
     39, 96, 0, 92, 122, 120, 99, 118, 98, 110, 109, 44, 46, 47, 0, 42, 0, 32]"

definition scancode_to_ascii_shifted :: bytes where
  "scancode_to_ascii_shifted =
    [0, 27, 33, 64, 35, 36, 37, 94, 38, 42, 40, 41, 95, 43, 8, 9, 81, 87, 69, 82,
     84, 89, 85, 73, 79, 80, 123, 125, 10, 0, 65, 83, 68, 70, 71, 72, 74, 75, 76, 58,
     34, 126, 0, 124, 90, 88, 67, 86, 66, 78, 77, 60, 62, 63, 0, 42, 0, 32]"

type_synonym keyboard_callback = "u8 \<Rightarrow> shell \<Rightarrow> shell option"

record keyboard =
  keyboard_callback :: "keyboard_callback option"
  shift_pressed :: bool
  ctrl_pressed :: bool

definition init_keyboard :: "keyboard \<Rightarrow> keyboard" where
  "init_keyboard k = k\<lparr>keyboard_callback := None\<rparr>"

definition register_keyboard_handler :: "keyboard_callback \<Rightarrow> keyboard \<Rightarrow> keyboard" where
  "register_keyboard_handler handler k = k\<lparr>keyboard_callback := Some handler\<rparr>"

definition keyboard_read :: "u8 \<Rightarrow> u8" where
  "keyboard_read scancode = (if unat scancode \<ge> 58 then 0 else scancode_to_ascii ! unat scancode)"

record machine =
  mch_shell :: shell
  mch_kbd :: keyboard
  mch_outs :: outputs
  mch_halted :: bool

definition set_kbd :: "(keyboard \<Rightarrow> keyboard) \<Rightarrow> machine \<Rightarrow> machine" where
  "set_kbd f m = m\<lparr>mch_kbd := f (mch_kbd m)\<rparr>"

definition outb :: "u16 \<Rightarrow> u8 \<Rightarrow> machine \<Rightarrow> machine" where
  "outb port v m = m\<lparr>mch_outs := mch_outs m @ [(port, v)]\<rparr>"

definition control :: "bool \<Rightarrow> u8 \<Rightarrow> u8" where
  "control ctrl c =
    (if ctrl then if 97 \<le> c \<and> c \<le> 122 then c - 97 + 1 else if 65 \<le> c \<and> c \<le> 90 then c - 65 + 1 else c else c)"

text \<open>The tables have 58 entries, the code looks up every scan code below 60.\<close>

definition key_char :: "u8 \<Rightarrow> machine \<Rightarrow> machine option" where
  "key_char scancode m =
    (if scancode < 60 then
       let current_map = (if shift_pressed (mch_kbd m) then scancode_to_ascii_shifted else scancode_to_ascii)
       in if unat scancode \<ge> length current_map then None
          else let c = current_map ! unat scancode
               in case keyboard_callback (mch_kbd m) of
                    None \<Rightarrow> Some m
                  | Some callback \<Rightarrow>
                      if c \<noteq> 0 then map_option (\<lambda>sh. m\<lparr>mch_shell := sh\<rparr>) (callback (control (ctrl_pressed (mch_kbd m)) c) (mch_shell m))
                      else Some m
     else Some m)"

definition keyboard_handler :: "u8 \<Rightarrow> machine \<Rightarrow> machine option" where
  "keyboard_handler scancode m =
    (if scancode = 0x2A then Some (set_kbd (\<lambda>k. k\<lparr>shift_pressed := True\<rparr>) m)
     else if scancode = 0xAA then Some (set_kbd (\<lambda>k. k\<lparr>shift_pressed := False\<rparr>) m)
     else if scancode = 0x36 then Some (set_kbd (\<lambda>k. k\<lparr>shift_pressed := True\<rparr>) m)
     else if scancode = 0xB6 then Some (set_kbd (\<lambda>k. k\<lparr>shift_pressed := False\<rparr>) m)
     else if scancode = 0x1D then Some (set_kbd (\<lambda>k. k\<lparr>ctrl_pressed := True\<rparr>) m)
     else if scancode = 0x9D then Some (set_kbd (\<lambda>k. k\<lparr>ctrl_pressed := False\<rparr>) m)
     else map_option (outb PIC1_COMMAND 0x20) (key_char scancode m))"

section \<open>Dispatch\<close>

definition exception_messages :: "bytes list" where
  "exception_messages = map cstr (
    [''Division By Zero'', ''Debug'', ''Non Maskable Interrupt'', ''Breakpoint'', ''Into Detected Overflow'',
     ''Out of Bounds'', ''Invalid Opcode'', ''No Coprocessor'', ''Double Fault'', ''Coprocessor Segment Overrun'',
     ''Bad TSS'', ''Segment Not Present'', ''Stack Fault'', ''General Protection Fault'', ''Page Fault'',
     ''Unknown Interrupt'', ''Coprocessor Fault'', ''Alignment Check'', ''Machine Check'', ''SIMD Floating-Point'',
     ''Virtualization'', ''Control Protection''] @ replicate 10 ''Reserved'')"

record interrupt_frame =
  frame_regs :: register_state
  interrupt_number :: u64
  error_code :: u64

definition tell :: "string \<Rightarrow> arg \<Rightarrow> machine \<Rightarrow> machine option" where
  "tell fmt arg m =
    map_option (\<lambda>w. m\<lparr>mch_shell := (mch_shell m)\<lparr>wld := w\<rparr>\<rparr>) (say (cstr fmt @ [10]) [arg] (wld (mch_shell m)))"

text \<open>
  An exception is reported and the processor stops. The timer interrupt does nothing here: its gate leads to another stub.
\<close>

definition report_exception :: "interrupt_frame \<Rightarrow> machine \<Rightarrow> machine option" where
  "report_exception frame m = do {
     m \<leftarrow> tell ''Exception: %s'' (Str (Some (exception_messages ! unat (interrupt_number frame)))) m;
     m \<leftarrow> tell ''Error Code: %lu'' (Slot (error_code frame)) m;
     m \<leftarrow> tell ''RIP: 0x%lx'' (Slot (rip (frame_regs frame))) m;
     m \<leftarrow> tell ''CS: 0x%lx'' (Slot (cs (frame_regs frame))) m;
     m \<leftarrow> tell ''RFLAGS: 0x%lx'' (Slot (rflags (frame_regs frame))) m;
     m \<leftarrow> tell ''RSP: 0x%lx'' (Slot (rsp (frame_regs frame))) m;
     m \<leftarrow> tell ''SS: 0x%lx'' (Slot (ss (frame_regs frame))) m;
     Some (m\<lparr>mch_halted := True\<rparr>)
   }"

definition isr_handler :: "u8 \<Rightarrow> interrupt_frame \<Rightarrow> machine \<Rightarrow> machine option" where
  "isr_handler scancode frame m =
    (if interrupt_number frame < 32 then report_exception frame m
     else if interrupt_number frame < 48 then
       let irq = ucast (interrupt_number frame - 32) :: u8;
           m = (if irq \<ge> 8 then outb PIC2_COMMAND 0x20 m else m);
           m = outb PIC1_COMMAND 0x20 m
       in if irq = 1 then keyboard_handler scancode m else Some m
     else Some m)"

section \<open>The tables are right\<close>

definition gate_address :: "idt_entry \<Rightarrow> u64" where
  "gate_address e = ucast (offset_low e) OR push_bit 16 (ucast (offset_middle e)) OR push_bit 32 (ucast (offset_high e))"

lemma mask_numerals: "(0xFFFF :: u64) = mask 16" "(0xFFFFFFFF :: u64) = mask 32"
  by (simp_all add: mask_eq_exp_minus_1)

lemma gate_address_descriptor: "gate_address (idt_create_descriptor addr sel flags) = addr"
proof (rule bit_word_eqI)
  fix n :: nat
  assume "n < LENGTH(64)"
  then show "bit (gate_address (idt_create_descriptor addr sel flags)) n \<longleftrightarrow> bit addr n"
    unfolding gate_address_def idt_create_descriptor_def mask_numerals by (cases "n < 32") (auto simp: bit_simps)
qed

lemma fold_handlers:
  assumes "off + n \<le> 256" "\<forall>v. off \<le> v \<and> v < off + n \<longrightarrow> isr v \<noteq> nullptr" "length (idt s) = 256"
  shows "length (idt (fold (\<lambda>v. set_interrupt_handler (of_nat off + of_nat v) (isr (off + v)) flags) [0..<n] s)) = 256 \<and>
    (\<forall>i < 256. idt (fold (\<lambda>v. set_interrupt_handler (of_nat off + of_nat v) (isr (off + v)) flags) [0..<n] s) ! i =
      (if off \<le> i \<and> i < off + n then idt_create_descriptor (isr i) 8 flags else idt s ! i))"
  using assms
proof (induction n)
  case (Suc n)
  have "unat (of_nat off + of_nat n :: u8) = off + n" using Suc.prems(1)
    by (simp add: of_nat_add [symmetric] unsigned_of_nat take_bit_eq_mod del: of_nat_add)
  moreover have "isr (off + n) \<noteq> nullptr" using Suc.prems(2) by simp
  ultimately show ?case using Suc by (auto simp: set_interrupt_handler_def nth_list_update)
qed auto

text \<open>
  After \<open>init_idt\<close> the gates of the 32 exceptions and the 16 interrupt lines lead to their stubs, as present interrupt gates of the
  kernel in its code segment, the other 208 are as they were, and the table is loaded.
\<close>

theorem init_idt_correct:
  assumes "length (idt s) = 256" "\<forall>v < 48. isr v \<noteq> nullptr"
  shows "length (idt (init_idt isr addr s)) = 256 \<and>
    (\<forall>v < 48. gate_address (idt (init_idt isr addr s) ! v) = isr v \<and> gate_selector (idt (init_idt isr addr s) ! v) = 8 \<and>
       type_attr (idt (init_idt isr addr s) ! v) = 0x8E) \<and>
    (\<forall>v. 48 \<le> v \<and> v < 256 \<longrightarrow> idt (init_idt isr addr s) ! v = idt s ! v) \<and>
    idtr_offset (init_idt isr addr s) = addr \<and> idt_loaded (init_idt isr addr s)"
proof -
  let ?s1 = "fold (\<lambda>v. set_interrupt_handler (of_nat v) (isr v) kernel_gate) [0..<32] s"
  let ?s2 = "fold (\<lambda>v. set_interrupt_handler (32 + of_nat v) (isr (32 + v)) kernel_gate) [0..<16] ?s1"
  have 1: "length (idt ?s1) = 256 \<and> (\<forall>i < 256. idt ?s1 ! i = (if i < 32 then idt_create_descriptor (isr i) 8 kernel_gate else idt s ! i))"
    using fold_handlers [of 0 32 isr s kernel_gate] assms by simp
  have 2: "length (idt ?s2) = 256 \<and> (\<forall>i < 256. idt ?s2 ! i = (if 32 \<le> i \<and> i < 48 then idt_create_descriptor (isr i) 8 kernel_gate else idt ?s1 ! i))"
    using fold_handlers [of 32 16 isr ?s1 kernel_gate] assms 1 by simp
  have g: "kernel_gate = 0x8E" by code_simp
  have all: "idt ?s2 ! v = (if v < 48 then idt_create_descriptor (isr v) 8 0x8E else idt s ! v)" if "v < 256" for v
    using 1 2 that by (auto simp: g)
  have "init_idt isr addr s = ?s2\<lparr>idtr_offset := addr, idt_loaded := True\<rparr>" by (simp add: init_idt_def Let_def)
  then show ?thesis using all 2 by (simp add: gate_address_descriptor) (simp add: idt_create_descriptor_def)
qed

theorem init_idt_correct_witness:
  "gate_address (idt (init_idt (\<lambda>v. 0x100000 + of_nat v * 16) 0x5000 empty_idt) ! 14) = 0x1000E0 \<and>
   idt (init_idt (\<lambda>v. 0x100000 + of_nat v * 16) 0x5000 empty_idt) ! 200 = no_gate"
proof -
  have "\<forall>v < 48. 0x100000 + of_nat v * 16 \<noteq> (nullptr :: u64)"
  proof (intro allI impI)
    fix v :: nat
    assume "v < 48"
    then have "unat (0x100000 + of_nat v * 16 :: u64) = 0x100000 + v * 16"
      by (simp add: unat_word_ariths unsigned_of_nat take_bit_eq_mod)
    then show "0x100000 + of_nat v * 16 \<noteq> (nullptr :: u64)" by (metis add_is_0 unat_0 zero_neq_numeral)
  qed
  then show ?thesis using init_idt_correct [of empty_idt "\<lambda>v. 0x100000 + of_nat v * 16" "0x5000"]
    by (simp add: empty_idt_def IDT_ENTRIES_def)
qed

text \<open>
  A segment descriptor keeps its base and the low 20 bits of its limit.
\<close>

definition segment_base :: "gdt_entry \<Rightarrow> u32" where
  "segment_base e = ucast (base_low e) OR push_bit 16 (ucast (base_middle e)) OR push_bit 24 (ucast (base_high e))"

definition segment_limit :: "gdt_entry \<Rightarrow> u32" where
  "segment_limit e = ucast (limit_low e) OR push_bit 16 (ucast (limit_high_flags e AND 0x0F))"

lemma mask_numerals_32: "(0xFFFF :: u32) = mask 16" "(0xFF :: u32) = mask 8" "(0x0F :: u32) = mask 4" "(0x0F :: u8) = mask 4" "(0xF0 :: u8) = push_bit 4 (mask 4)"
  by (simp_all add: mask_eq_exp_minus_1)

theorem segment_descriptor_roundtrip:
  "segment_base (gdt_create_descriptor base limit access flags) = base \<and>
   segment_limit (gdt_create_descriptor base limit access flags) = take_bit 20 limit \<and>
   gdt_access (gdt_create_descriptor base limit access flags) = access \<and>
   limit_high_flags (gdt_create_descriptor base limit access flags) AND 0xF0 = flags AND 0xF0"
proof (intro conjI)
  show "segment_base (gdt_create_descriptor base limit access flags) = base"
  proof (rule bit_word_eqI)
    fix n :: nat
    assume "n < LENGTH(32)"
    then show "bit (segment_base (gdt_create_descriptor base limit access flags)) n \<longleftrightarrow> bit base n"
      unfolding segment_base_def gdt_create_descriptor_def mask_numerals_32 by (cases "n < 24") (auto simp: bit_simps)
  qed
  show "segment_limit (gdt_create_descriptor base limit access flags) = take_bit 20 limit"
    unfolding segment_limit_def gdt_create_descriptor_def mask_numerals_32
    by (rule bit_word_eqI) (auto simp: bit_simps)
  show "limit_high_flags (gdt_create_descriptor base limit access flags) AND 0xF0 = flags AND 0xF0"
    unfolding gdt_create_descriptor_def mask_numerals_32
    by (rule bit_word_eqI) (auto simp: bit_simps)
qed (simp add: gdt_create_descriptor_def)

end
