(* ===== verification/Interrupt_Proofs.thy ===== *)
theory Interrupt_Proofs
  imports Interrupts Shell_Proofs
begin

text \<open>
  From the scan codes of the keyboard to the line of the shell.
\<close>

text \<open>The key a character is on, with and without shift, and the scan codes of striking it.\<close>

definition key_of :: "u8 \<Rightarrow> (bool \<times> nat) option" where
  "key_of c =
    (if c \<in> set scancode_to_ascii then Some (False, length (takeWhile (\<lambda>d. d \<noteq> c) scancode_to_ascii))
     else if c \<in> set scancode_to_ascii_shifted then Some (True, length (takeWhile (\<lambda>d. d \<noteq> c) scancode_to_ascii_shifted))
     else None)"

definition strokes :: "u8 \<Rightarrow> bytes" where
  "strokes c =
    (case key_of c of
       None \<Rightarrow> []
     | Some (False, k) \<Rightarrow> [of_nat k, of_nat k + 0x80]
     | Some (True, k) \<Rightarrow> [0x2A, of_nat k, of_nat k + 0x80, 0xAA])"

primrec key_interrupts :: "interrupt_frame \<Rightarrow> bytes \<Rightarrow> machine \<Rightarrow> machine option" where
  "key_interrupts frame [] m = Some m"
| "key_interrupts frame (code # codes) m = do { m \<leftarrow> isr_handler code frame m; key_interrupts frame codes m }"

definition modifier :: "u8 \<Rightarrow> bool" where
  "modifier code \<longleftrightarrow> code \<in> {0x2A, 0xAA, 0x36, 0xB6, 0x1D, 0x9D}"

definition typable :: "u8 \<Rightarrow> bool" where
  "typable c \<longleftrightarrow> c \<noteq> 0 \<and> (c \<in> set scancode_to_ascii \<or> c \<in> set scancode_to_ascii_shifted)"

text \<open>The places of backspace, tab, newline, escape and the printable characters in the two tables, one behind the other.\<close>

definition key_places :: "nat list" where
  "key_places =
    [14, 15, 28, 1, 57, 60, 98, 62, 63, 64, 66, 40, 68, 69, 55, 71, 51, 12, 52, 53, 11, 2, 3, 4,
     5, 6, 7, 8, 9, 10, 97, 39, 109, 13, 110, 111, 61, 88, 106, 104, 90, 76, 91, 92, 93, 81, 94, 95,
     96, 108, 107, 82, 83, 74, 77, 89, 78, 80, 105, 75, 103, 79, 102, 26, 43, 27, 65, 70, 41, 30, 48, 46,
     32, 18, 33, 34, 35, 23, 36, 37, 38, 50, 49, 24, 25, 16, 19, 31, 20, 22, 47, 17, 45, 21, 44, 84,
     101, 85, 99]"

lemma key_places_correct: "map ((!) (scancode_to_ascii @ scancode_to_ascii_shifted)) key_places = [8, 9, 10, 27] @ map of_nat [32..<127]"
  by (simp add: key_places_def scancode_to_ascii_def scancode_to_ascii_shifted_def)

lemma printable_typable: "c \<in> {8, 9, 10, 27} \<or> 32 \<le> c \<and> c \<le> 126 \<Longrightarrow> typable c"
proof -
  assume c: "c \<in> {8, 9, 10, 27} \<or> 32 \<le> c \<and> c \<le> 126"
  have "c \<in> set (map of_nat [32..<127])" if "32 \<le> c" "c \<le> 126"
  proof -
    have "unat c \<in> set [32..<127]" unfolding set_upt using that by (simp add: word_le_nat_alt)
    then show ?thesis unfolding list.set_map by (rule image_eqI [rotated]) simp
  qed
  then have "c \<in> set ([8, 9, 10, 27] @ map of_nat [32..<127])" using c unfolding set_append by (metis UnCI list.simps(15) empty_set)
  then obtain k where k: "k \<in> set key_places" "c = (scancode_to_ascii @ scancode_to_ascii_shifted) ! k"
    unfolding key_places_correct [symmetric] by auto
  have "list_all (\<lambda>k. k < 116) key_places" "length (scancode_to_ascii @ scancode_to_ascii_shifted) = 116"
    by (simp_all add: key_places_def scancode_to_ascii_def scancode_to_ascii_shifted_def)
  then have "c \<in> set (scancode_to_ascii @ scancode_to_ascii_shifted)" using k by (metis list_all_iff nth_mem)
  moreover have "c \<noteq> 0" using c by auto
  ultimately show ?thesis by (simp add: typable_def)
qed

lemma typable_key:
  assumes "typable c"
  obtains shift k where "key_of c = Some (shift, k)" "(if shift then scancode_to_ascii_shifted else scancode_to_ascii) ! k = c"
    "(of_nat k :: u8) < 60" "unat (of_nat k :: u8) = k" "k < 58" "\<not> modifier (of_nat k)" "\<not> modifier (of_nat k + 0x80)" "\<not> (of_nat k + 0x80 :: u8) < 60"
proof -
  define shift where "shift \<longleftrightarrow> c \<notin> set scancode_to_ascii"
  define T where "T = (if shift then scancode_to_ascii_shifted else scancode_to_ascii)"
  define k where "k = length (takeWhile (\<lambda>d. d \<noteq> c) T)"
  have len: "length T = 58" and z: "T ! 29 = 0" "T ! 42 = 0" "T ! 54 = 0"
    by (simp_all add: T_def scancode_to_ascii_def scancode_to_ascii_shifted_def)
  have c: "c \<in> set T" "c \<noteq> 0" using assms by (auto simp: typable_def T_def shift_def)
  obtain b where b: "T = takeWhile (\<lambda>d. d \<noteq> c) T @ c # b" using split_at_first [OF c(1)] by (elim exE conjE)
  have at: "T ! k = c" unfolding k_def by (subst b) simp
  have k: "k < 58" using arg_cong [OF b, of length] len by (simp add: k_def)
  have n: "k \<noteq> 29" "k \<noteq> 42" "k \<noteq> 54" using at z c(2) by auto
  have u: "unat (of_nat k :: u8) = k" "unat (of_nat k + 0x80 :: u8) = k + 128"
    using k by (simp_all add: unat_word_ariths unsigned_of_nat take_bit_eq_mod)
  have mod: "\<not> modifier w" if "unat w \<notin> {42, 170, 54, 182, 29, 157}" for w using that by (auto simp: modifier_def)
  show ?thesis
  proof (rule that [of shift k])
    show "key_of c = Some (shift, k)" using assms by (auto simp: key_of_def shift_def k_def T_def typable_def)
    show "\<not> modifier (of_nat k)" "\<not> modifier (of_nat k + 0x80)" using u k n by (auto intro!: mod)
    show "(of_nat k :: u8) < 60" "\<not> (of_nat k + 0x80 :: u8) < 60" using u k by (simp_all add: word_less_nat_alt)
  qed (use at k u in \<open>simp_all add: T_def\<close>)
qed

definition ready_keyboard :: "keyboard_callback \<Rightarrow> keyboard \<Rightarrow> bool" where
  "ready_keyboard callback k \<longleftrightarrow> keyboard_callback k = Some callback \<and> \<not> shift_pressed k \<and> \<not> ctrl_pressed k"

lemma isr_keyboard:
  "interrupt_number frame = 33 \<Longrightarrow> isr_handler code frame m = keyboard_handler code (outb PIC1_COMMAND 0x20 m)"
  by (simp add: isr_handler_def Let_def word_le_nat_alt)

lemma plain_key: "\<not> modifier code \<Longrightarrow> keyboard_handler code m = map_option (outb PIC1_COMMAND 0x20) (key_char code m)"
  by (simp add: keyboard_handler_def modifier_def)

lemma outb_fields [simp]: "mch_kbd (outb p v m) = mch_kbd m" "mch_shell (outb p v m) = mch_shell m"
  by (simp_all add: outb_def)

lemma key_char_table:
  assumes "code < 60" "unat code = k" "k < 58" "(if shift_pressed (mch_kbd m) then scancode_to_ascii_shifted else scancode_to_ascii) ! k = c"
    "c \<noteq> 0" "keyboard_callback (mch_kbd m) = Some callback" "\<not> ctrl_pressed (mch_kbd m)"
  shows "key_char code m = map_option (\<lambda>sh. m\<lparr>mch_shell := sh\<rparr>) (callback c (mch_shell m))"
proof -
  have "length scancode_to_ascii = 58" "length scancode_to_ascii_shifted = 58" by code_simp+
  then show ?thesis using assms by (auto simp: key_char_def Let_def control_def)
qed

lemma key_char_release: "\<not> code < 60 \<Longrightarrow> key_char code m = Some m"
  by (simp add: key_char_def)

lemma strike:
  assumes "typable c" "interrupt_number frame = 33" "ready_keyboard callback (mch_kbd m)"
  shows "case callback c (mch_shell m) of
      None \<Rightarrow> key_interrupts frame (strokes c) m = None
    | Some sh \<Rightarrow> \<exists>m'. key_interrupts frame (strokes c) m = Some m' \<and> mch_shell m' = sh \<and> ready_keyboard callback (mch_kbd m')"
proof -
  obtain shift k where k: "key_of c = Some (shift, k)" and t: "(if shift then scancode_to_ascii_shifted else scancode_to_ascii) ! k = c"
    "(of_nat k :: u8) < 60" "unat (of_nat k :: u8) = k" "k < 58" "\<not> modifier (of_nat k)" "\<not> modifier (of_nat k + 0x80)" "\<not> (of_nat k + 0x80 :: u8) < 60"
    using typable_key [OF assms(1)] by blast
  have nz: "c \<noteq> 0" using assms(1) by (simp add: typable_def)
  note facts = isr_keyboard [OF assms(2)] plain_key key_char_release
  have kb: "keyboard_callback (mch_kbd m) = Some callback" "\<not> shift_pressed (mch_kbd m)" "\<not> ctrl_pressed (mch_kbd m)"
    using assms(3) by (simp_all add: ready_keyboard_def)
  show ?thesis
  proof (cases shift)
    case False
    have kc: "key_char (of_nat k) m' = map_option (\<lambda>sh. m'\<lparr>mch_shell := sh\<rparr>) (callback c (mch_shell m'))" if "mch_kbd m' = mch_kbd m" for m'
      by (rule key_char_table [of _ k]) (use t nz kb that False in auto)
    show ?thesis using False t k kb
      by (auto simp: strokes_def facts kc ready_keyboard_def split: option.split)
  next
    case True
    have sh: "keyboard_handler 0x2A m' = Some (set_kbd (\<lambda>k. k\<lparr>shift_pressed := True\<rparr>) m')"
      "keyboard_handler 0xAA m' = Some (set_kbd (\<lambda>k. k\<lparr>shift_pressed := False\<rparr>) m')" for m'
      by (simp_all add: keyboard_handler_def)
    have kc: "key_char (of_nat k) m' = map_option (\<lambda>sh. m'\<lparr>mch_shell := sh\<rparr>) (callback c (mch_shell m'))"
      if "mch_kbd m' = (mch_kbd m)\<lparr>shift_pressed := True\<rparr>" for m'
      by (rule key_char_table [of _ k]) (use t nz kb that True in auto)
    show ?thesis using True t k kb
      by (auto simp: strokes_def facts sh kc set_kbd_def ready_keyboard_def split: option.split)
  qed
qed



text \<open>
  The tables have 58 entries and the driver looks up the scan codes 58 and 59, which caps lock and F1 send, behind their end.
\<close>

theorem caps_lock_reads_outside:
  "keyboard_handler 58 m = None \<and> keyboard_handler 59 m = None"
proof -
  have "length scancode_to_ascii = 58" "length scancode_to_ascii_shifted = 58" by code_simp+
  then show ?thesis by (auto simp: keyboard_handler_def key_char_def Let_def)
qed

end
