(* ===== verification/Clock.thy ===== *)
theory Clock
  imports Interrupts
begin

text \<open>
  The timer, \<open>hw/timer.cpp\<close>, the real-time clock, \<open>hw/rtc.cpp\<close>, and the commands that show them.

  The registers of the clock chip are a function from register numbers; a read or write goes through the index port. The
  string that \<open>format_uptime\<close> builds is kept as the bytes in front of its terminator; \<open>None\<close> stands for a buffer of no bytes.
\<close>

section \<open>The timer\<close>

record timer =
  timer_ticks :: u64
  timer_frequency :: u32

definition PIT_CHANNEL0 :: u16 where "PIT_CHANNEL0 = 0x40"
definition PIT_COMMAND :: u16 where "PIT_COMMAND = 0x43"
definition PIT_FREQUENCY :: u32 where "PIT_FREQUENCY = 1193182"

definition timer_callback :: "bool \<Rightarrow> u32 \<Rightarrow> timer \<times> kernel \<Rightarrow> (timer \<times> kernel) option" where
  "timer_callback iflag cpu = (\<lambda>(c, k). map_option (\<lambda>k. (c\<lparr>timer_ticks := timer_ticks c + 1\<rparr>, k)) (tick iflag cpu k))"

definition init_timer :: "u64 \<Rightarrow> u32 \<Rightarrow> timer \<times> outputs \<times> idt_state \<Rightarrow> timer \<times> outputs \<times> idt_state" where
  "init_timer timer_handler frequency = (\<lambda>(c, outs, t).
    let f = (if frequency > 0 then frequency else 100);
        divisor = PIT_FREQUENCY div f
    in (c\<lparr>timer_frequency := f\<rparr>,
        outs @ [(PIT_COMMAND, 0x36), (PIT_CHANNEL0, ucast (divisor AND 0xFF)), (PIT_CHANNEL0, ucast (drop_bit 8 divisor AND 0xFF))],
        set_interrupt_handler 32 timer_handler kernel_gate t))"

definition get_uptime_seconds :: "timer \<Rightarrow> u64" where
  "get_uptime_seconds c = (if timer_frequency c = 0 then 0 else timer_ticks c div ucast (timer_frequency c))"

text \<open>The digits of a number, last first; the array has 20 bytes and takes 19 digits.\<close>

primrec number_digits :: "nat \<Rightarrow> u64 \<Rightarrow> bytes" where
  "number_digits 0 num = []"
| "number_digits (Suc room) num = (if num > 0 then (48 + ucast (num mod 10)) # number_digits room (num div 10) else [])"

definition append_string :: "nat \<Rightarrow> bytes \<Rightarrow> bytes \<Rightarrow> bytes" where
  "append_string max_size buffer str = buffer @ take (max_size - 1 - length buffer) str"

definition append_number :: "nat \<Rightarrow> bytes \<Rightarrow> u64 \<Rightarrow> bytes" where
  "append_number max_size buffer num =
    append_string max_size buffer (rev (if num = 0 then [48] else number_digits 19 num))"

definition append_parts :: "nat \<Rightarrow> (u64 \<times> string) list \<Rightarrow> bytes" where
  "append_parts max_size = foldl (\<lambda>buffer (num, str). append_string max_size (append_number max_size buffer num) (cstr str)) []"

definition format_uptime :: "timer \<Rightarrow> nat \<Rightarrow> bytes option" where
  "format_uptime c sz =
    (if sz = 0 then None
     else
       let seconds = get_uptime_seconds c;
           minutes = seconds div 60;
           hours = minutes div 60;
           days = hours div 24;
           seconds = seconds mod 60;
           minutes = minutes mod 60;
           hours = hours mod 24
       in Some (append_parts sz
            (if days > 0 then [(days, '' days, ''), (hours, '' hours, ''), (minutes, '' minutes, ''), (seconds, '' seconds'')]
             else if hours > 0 then [(hours, '' hours, ''), (minutes, '' minutes, ''), (seconds, '' seconds'')]
             else if minutes > 0 then [(minutes, '' minutes, ''), (seconds, '' seconds'')]
             else [(seconds, '' seconds'')])))"

definition uptime_body :: "timer \<Rightarrow> world \<Rightarrow> world option" where
  "uptime_body c w = do {
     uptime_str \<leftarrow> format_uptime c 100;
     w \<leftarrow> say (cstr ''System uptime: '') [] w;
     w \<leftarrow> say uptime_str [] w;
     say [10] [] w
   }"

definition cmd_uptime :: "platform \<Rightarrow> timer \<Rightarrow> world \<Rightarrow> world option" where
  "cmd_uptime pl c = in_process pl (cstr ''uptime'') (uptime_body c)"

section \<open>The real-time clock\<close>

type_synonym cmos = "u8 \<Rightarrow> u8"

definition RTC_SECONDS :: u8 where "RTC_SECONDS = 0x00"
definition RTC_MINUTES :: u8 where "RTC_MINUTES = 0x02"
definition RTC_HOURS :: u8 where "RTC_HOURS = 0x04"
definition RTC_STATUS_B :: u8 where "RTC_STATUS_B = 0x0B"

record rtc_time =
  rtc_seconds :: u8
  rtc_minutes :: u8
  rtc_hours :: u8

definition read_cmos :: "u8 \<Rightarrow> cmos \<Rightarrow> u8" where
  "read_cmos reg m = m reg"

definition bcd_to_binary :: "u8 \<Rightarrow> u8" where
  "bcd_to_binary bcd = (drop_bit 4 bcd * 10) + (bcd AND 0x0F)"

definition init_rtc :: "cmos \<Rightarrow> cmos" where
  "init_rtc m = m(RTC_STATUS_B := m RTC_STATUS_B OR 0x02 OR 0x04)"

definition get_rtc_time :: "cmos \<Rightarrow> rtc_time" where
  "get_rtc_time m =
    (let seconds = read_cmos RTC_SECONDS m;
         minutes = read_cmos RTC_MINUTES m;
         hours = read_cmos RTC_HOURS m;
         status = read_cmos RTC_STATUS_B m;
         is_bcd = (status AND 0x04 = 0);
         seconds = (if is_bcd then bcd_to_binary seconds else seconds);
         minutes = (if is_bcd then bcd_to_binary minutes else minutes);
         hours = (if is_bcd then bcd_to_binary hours else hours);
         hours = (if status AND 0x02 = 0 \<and> hours AND 0x80 \<noteq> 0 then ((hours AND 0x7F) + 12) mod 24 else hours)
     in \<lparr>rtc_seconds = seconds, rtc_minutes = minutes, rtc_hours = hours\<rparr>)"

definition time_body :: "cmos \<Rightarrow> world \<Rightarrow> world option" where
  "time_body m w =
    (let t = get_rtc_time m
     in say (cstr ''Current UTC time: %02u:%02u:%02u'' @ [10]) [Slot (ucast (rtc_hours t)), Slot (ucast (rtc_minutes t)), Slot (ucast (rtc_seconds t))] w)"

definition cmd_time :: "platform \<Rightarrow> cmos \<Rightarrow> world \<Rightarrow> world option" where
  "cmd_time pl m = in_process pl (cstr ''time'') (time_body m)"

section \<open>What the uptime shows\<close>

definition decimal :: "nat \<Rightarrow> bytes" where
  "decimal n = rev (dec_digits n)"

lemma ucast_mod_10: "(ucast (num mod 10 :: u64) :: u8) = of_nat (unat num mod 10)"
proof (rule word_unat_eq_iff [THEN iffD2])
  have "unat (num mod 10) = unat num mod 10" by (simp add: unat_mod_distrib)
  moreover have "unat num mod 10 < 10" by simp
  then have "unat num mod 10 < 256" by (rule less_trans) simp
  ultimately show "unat (ucast (num mod 10) :: u8) = unat (of_nat (unat num mod 10) :: u8)"
    by (simp add: unsigned_ucast_eq unsigned_of_nat take_bit_eq_mod)
qed

lemma number_digits_decimal: "0 < num \<Longrightarrow> unat num < 10 ^ room \<Longrightarrow> number_digits room num = dec_digits (unat num)"
proof (induction room arbitrary: num)
  case 0
  then show ?case by (simp add: unat_eq_0)
next
  case (Suc room)
  have d: "unat (num div 10) = unat num div 10" by (simp add: unat_div_distrib)
  show ?case
  proof (cases "num div 10 = 0")
    case True
    then have "unat num div 10 = 0" using d by simp
    then show ?thesis using Suc.prems(1) True by (subst dec_digits.simps) (cases room; simp add: ucast_mod_10)
  next
    case False
    then have pos: "0 < num div 10" by (simp add: word_gt_0)
    then have "0 < unat num div 10" using d by (simp add: word_less_nat_alt)
    then show ?thesis using Suc.IH [OF pos] Suc.prems d
      by (subst dec_digits.simps) (simp add: ucast_mod_10 div_less_iff_less_mult)
  qed
qed

lemma length_decimal: "n < 10 ^ k \<Longrightarrow> 0 < k \<Longrightarrow> length (decimal n) \<le> k"
  by (simp add: decimal_def length_dec_digits)

lemma append_number_fits:
  assumes "unat num < 10 ^ 19" "length buffer + length (decimal (unat num)) < sz"
  shows "append_number sz buffer num = buffer @ decimal (unat num)"
proof (cases "num = 0")
  case True
  have "decimal 0 = [48]" by (simp add: decimal_def dec_digits.simps)
  with True assms(2) show ?thesis by (simp add: append_number_def append_string_def)
next
  case False
  then have "number_digits 19 num = dec_digits (unat num)" using number_digits_decimal [of num 19] assms(1) by (simp add: word_gt_0)
  with False assms(2) show ?thesis by (simp add: append_number_def append_string_def decimal_def)
qed

lemma append_string_fits: "length buffer + length str < sz \<Longrightarrow> append_string sz buffer str = buffer @ str"
  by (simp add: append_string_def)

definition part_text :: "(u64 \<times> string) list \<Rightarrow> bytes" where
  "part_text parts = concat (map (\<lambda>(num, str). decimal (unat num) @ cstr str) parts)"

lemma append_parts_fits:
  assumes "\<forall>(num, str) \<in> set parts. unat num < 10 ^ 19" "length buffer + length (part_text parts) < sz"
  shows "foldl (\<lambda>buffer (num, str). append_string sz (append_number sz buffer num) (cstr str)) buffer parts = buffer @ part_text parts"
  using assms
proof (induction parts arbitrary: buffer)
  case (Cons p parts)
  obtain num str where p: "p = (num, str)" by (cases p)
  have n: "append_number sz buffer num = buffer @ decimal (unat num)" by (rule append_number_fits) (use Cons.prems p in \<open>auto simp: part_text_def\<close>)
  have "append_string sz (append_number sz buffer num) (cstr str) = buffer @ decimal (unat num) @ cstr str"
    unfolding n by (subst append_string_fits) (use Cons.prems(2) p in \<open>auto simp: part_text_def\<close>)
  then show ?case using Cons.IH [of "buffer @ decimal (unat num) @ cstr str"] Cons.prems p by (simp add: part_text_def)
qed (simp add: part_text_def)

text \<open>
  C30: The uptime is the number of seconds split into days, hours, minutes and seconds, written in decimal with their units from the
  first that is not zero on; it always fits the 100 bytes of the command.
\<close>

theorem format_uptime_correct:
  "\<exists>d h m s. unat (get_uptime_seconds c) = ((d * 24 + h) * 60 + m) * 60 + s \<and> h < 24 \<and> m < 60 \<and> s < 60 \<and>
    (\<exists>str. format_uptime c 100 = Some str \<and> length str < 100 \<and>
      str = (if d > 0 then decimal d @ cstr '' days, '' else []) @ (if d > 0 \<or> h > 0 then decimal h @ cstr '' hours, '' else []) @
        (if d > 0 \<or> h > 0 \<or> m > 0 then decimal m @ cstr '' minutes, '' else []) @ decimal s @ cstr '' seconds'')"
proof -
  define t where "t = get_uptime_seconds c"
  define n where "n = unat t"
  let ?s = "n mod 60" and ?m = "n div 60 mod 60" and ?h = "n div 60 div 60 mod 24" and ?d = "n div 60 div 60 div 24"
  have u: "unat (t mod 60) = ?s" "unat (t div 60 mod 60) = ?m" "unat (t div 60 div 60 mod 24) = ?h" "unat (t div 60 div 60 div 24) = ?d"
    by (simp_all add: n_def unat_div_distrib unat_mod_distrib)
  have pos: "t div 60 div 60 div 24 > 0 \<longleftrightarrow> ?d > 0" "t div 60 div 60 mod 24 > 0 \<longleftrightarrow> ?h > 0" "t div 60 mod 60 > 0 \<longleftrightarrow> ?m > 0"
    using u by (simp_all add: word_less_nat_alt)
  have b: "?s < 60" "?m < 60" "?h < 24" by simp_all
  have n64: "n < 2 ^ 64" using unsigned_less [of t, where 'a = nat] by (simp add: n_def)
  then have d: "?d < 10 ^ 15" by (simp add: div_less_iff_less_mult)
  have len: "length (decimal ?d) \<le> 15" "length (decimal ?h) \<le> 2" "length (decimal ?m) \<le> 2" "length (decimal ?s) \<le> 2"
    using length_decimal [OF d] length_decimal [of ?h 2] length_decimal [of ?m 2] length_decimal [of ?s 2] b by simp_all
  have lc: "length (cstr x) = length x" for x by (simp add: cstr_def)
  define P where "P = (if ?d > 0 then [(t div 60 div 60 div 24, '' days, ''), (t div 60 div 60 mod 24, '' hours, ''), (t div 60 mod 60, '' minutes, ''), (t mod 60, '' seconds'')]
             else if ?h > 0 then [(t div 60 div 60 mod 24, '' hours, ''), (t div 60 mod 60, '' minutes, ''), (t mod 60, '' seconds'')]
             else if ?m > 0 then [(t div 60 mod 60, '' minutes, ''), (t mod 60, '' seconds'')]
             else [(t mod 60, '' seconds'')])"
  have big: "?s < 10 ^ 19" "?m < 10 ^ 19" "?h < 10 ^ 19" "?d < 10 ^ 19"
    using less_trans [OF b(1), of "10 ^ 19"] less_trans [OF b(2), of "10 ^ 19"] less_trans [OF b(3), of "10 ^ 19"] less_trans [OF d, of "10 ^ 19"] by simp_all
  then have small: "\<forall>(num, str) \<in> set P. unat num < 10 ^ 19" by (auto simp: P_def u)
  have fits: "length (part_text P) < 100" using len by (auto simp: P_def part_text_def u lc)
  have "format_uptime c 100 = Some (append_parts 100 P)"
    unfolding format_uptime_def t_def [symmetric] Let_def P_def pos by simp
  also have "\<dots> = Some (part_text P)" using append_parts_fits [OF small, of "[]" 100] fits by (simp add: append_parts_def)
  finally have fmt: "format_uptime c 100 = Some (part_text P)" .
  have shown_text: "part_text P = (if ?d > 0 then decimal ?d @ cstr '' days, '' else []) @ (if ?d > 0 \<or> ?h > 0 then decimal ?h @ cstr '' hours, '' else []) @
        (if ?d > 0 \<or> ?h > 0 \<or> ?m > 0 then decimal ?m @ cstr '' minutes, '' else []) @ decimal ?s @ cstr '' seconds''"
    by (simp add: P_def part_text_def u)
  have secs: "n = ((?d * 24 + ?h) * 60 + ?m) * 60 + ?s" by (simp only: div_mult_mod_eq)
  show ?thesis
  proof (rule exI [of _ ?d], rule exI [of _ ?h], rule exI [of _ ?m], rule exI [of _ ?s], intro conjI)
    show "unat (get_uptime_seconds c) = ((?d * 24 + ?h) * 60 + ?m) * 60 + ?s" using secs unfolding n_def t_def .
    show "?h < 24" "?m < 60" "?s < 60" by (rule b)+
  qed (intro exI [of _ "part_text P"] conjI fmt fits shown_text)
qed

section \<open>The clock is read correctly\<close>

text \<open>A number below 100 as the chip stores it, in binary or as two decimal digits.\<close>

definition stored :: "bool \<Rightarrow> nat \<Rightarrow> u8" where
  "stored bcd n = of_nat (if bcd then (n div 10) * 16 + n mod 10 else n)"

lemma bcd_to_binary_stored: "n < 100 \<Longrightarrow> bcd_to_binary (stored True n) = of_nat n"
proof -
  assume "n < 100"
  then have q: "n div 10 < 10" "n mod 10 < 10" by simp_all
  define w where "w = stored True n"
  have "(n div 10) * 16 + n mod 10 < 256" using q by linarith
  moreover have "unat (of_nat k :: u8) = k" if "k < 256" for k using that by (simp add: unsigned_of_nat take_bit_eq_mod)
  ultimately have w: "unat w = (n div 10) * 16 + n mod 10" unfolding w_def stored_def if_True by blast
  have "w AND 0x0F = take_bit 4 w" by (simp add: take_bit_eq_mask mask_eq_exp_minus_1)
  then have "unat (w AND 0x0F) = unat w mod 16" by (simp only: unsigned_take_bit_eq) (simp add: take_bit_eq_mod)
  moreover have split: "(a * 16 + b) mod 16 = b" "(a * 16 + b) div 16 = a" if "b < 10" for a b :: nat using that by simp_all
  ultimately have "unat (w AND 0x0F) = n mod 10" using w split(1) [OF q(2)] by simp
  moreover have "unat (drop_bit 4 w) = unat w div 16" by (simp add: drop_bit_eq_div unat_div_distrib)
  then have "unat (drop_bit 4 w) = n div 10" using w split(2) [OF q(2)] by simp
  ultimately have "unat (bcd_to_binary w) = n" using q \<open>n < 100\<close>
    by (simp add: bcd_to_binary_def unat_word_ariths)
  then have "of_nat (unat (bcd_to_binary w)) = (of_nat n :: u8)" by simp
  then show ?thesis unfolding w_def by simp
qed

text \<open>
  In 24-hour mode the clock is read as it is set, in binary and in decimal coding; \<open>init_rtc\<close> switches to 24-hour mode and binary
  and leaves every other register alone. In 12-hour mode the code is wrong: noon is read as midnight, and in decimal coding
  the flag for the afternoon is lost in the conversion, so one in the afternoon is read as 81 hours.
\<close>

theorem rtc_time_correct:
  assumes "h < 24" "m < 60" "s < 60" "cm RTC_HOURS = stored bcd h" "cm RTC_MINUTES = stored bcd m" "cm RTC_SECONDS = stored bcd s"
    and "cm RTC_STATUS_B AND 0x02 \<noteq> 0" "bcd \<longleftrightarrow> cm RTC_STATUS_B AND 0x04 = 0"
  shows "get_rtc_time cm = \<lparr>rtc_seconds = of_nat s, rtc_minutes = of_nat m, rtc_hours = of_nat h\<rparr> \<and>
    init_rtc cm RTC_STATUS_B AND 0x06 = 0x06 \<and> (\<forall>r. r \<noteq> RTC_STATUS_B \<longrightarrow> init_rtc cm r = cm r)"
proof -
  have st: "(cm RTC_STATUS_B OR 2 OR 4) AND 6 = 6"
  proof -
    have "(x OR 2 OR 4) AND 6 = (6 :: u8)" for x
      by (rule bit_word_eqI) (auto simp: bit_simps)
    then show ?thesis .
  qed
  have conv: "(if bcd then bcd_to_binary (stored bcd n) else stored bcd n) = of_nat n" if "n < 100" for n
    using bcd_to_binary_stored [OF that] by (cases bcd) (simp_all add: stored_def)
  have "get_rtc_time cm = \<lparr>rtc_seconds = of_nat s, rtc_minutes = of_nat m, rtc_hours = of_nat h\<rparr>"
    unfolding get_rtc_time_def read_cmos_def Let_def assms(4-6) assms(8) [symmetric] conv [OF less_trans [OF assms(1)], simplified]
      conv [OF less_trans [OF assms(2)], simplified] conv [OF less_trans [OF assms(3)], simplified]
    using assms(7) by simp
  then show ?thesis using st by (simp add: init_rtc_def)
qed

definition cmos_example :: "u8 \<Rightarrow> cmos" where
  "cmos_example status = (\<lambda>_. 0)(RTC_HOURS := 0x23, RTC_MINUTES := 0x59, RTC_SECONDS := 0x07, RTC_STATUS_B := status)"

theorem rtc_time_correct_witness:
  "get_rtc_time (cmos_example 0x02) = \<lparr>rtc_seconds = 7, rtc_minutes = 59, rtc_hours = 23\<rparr>"
  using rtc_time_correct [of 23 59 7 "cmos_example 0x02" True]
  by (simp add: cmos_example_def stored_def RTC_HOURS_def RTC_MINUTES_def RTC_SECONDS_def RTC_STATUS_B_def)

theorem rtc_12_hour_wrong:
  "rtc_hours (get_rtc_time ((cmos_example 0x04)(RTC_HOURS := 0x80 OR 12))) = 0 \<and>
   rtc_hours (get_rtc_time ((cmos_example 0x00)(RTC_HOURS := 0x80 OR 0x01))) = 81"
  by (intro conjI) code_simp+

end
