(* ===== verification/Ata_Driver.thy ===== *)
theory Ata_Driver
  imports Fat_Table
begin

text \<open>
  The disk driver, \<open>drivers/ata.cpp\<close>. The controller is a parameter: the four port instructions of
  \<open>hw/io.cpp\<close> act on a controller state of any type, and the driver is written over them access by
  access. The locale \<open>pio_drive\<close> states what the ATA standard promises of a drive in programmed
  input/output mode, seen through a \<open>drive\<close> record; the lemmas in it show that on such a drive the
  driver is the sector transfer \<open>ata_read\<close> and \<open>ata_write\<close> of the file system model, time-outs included.
  The locale is interpreted on a drive with the behaviour written out. The messages of the driver are left out.
\<close>

section \<open>Ports and the driver\<close>

record 'c ports =
  inb_port :: "u16 \<Rightarrow> 'c \<Rightarrow> u8 \<times> 'c"
  outb_port :: "u16 \<Rightarrow> u8 \<Rightarrow> 'c \<Rightarrow> 'c"
  inw_port :: "u16 \<Rightarrow> 'c \<Rightarrow> u16 \<times> 'c"
  outw_port :: "u16 \<Rightarrow> u16 \<Rightarrow> 'c \<Rightarrow> 'c"

record ata_driver =
  m_initialized :: bool
  m_is_slave :: bool
  m_io_base :: u16
  m_sectors :: u32
  m_model :: bytes
  m_serial :: bytes

definition ATA_PRIMARY_IO :: u16 where "ATA_PRIMARY_IO = 0x1F0"
definition ATA_DATA :: u16 where "ATA_DATA = 0"
definition ATA_SECTOR_COUNT :: u16 where "ATA_SECTOR_COUNT = 2"
definition ATA_LBA_LOW :: u16 where "ATA_LBA_LOW = 3"
definition ATA_LBA_MID :: u16 where "ATA_LBA_MID = 4"
definition ATA_LBA_HIGH :: u16 where "ATA_LBA_HIGH = 5"
definition ATA_DRIVE_HEAD :: u16 where "ATA_DRIVE_HEAD = 6"
definition ATA_STATUS :: u16 where "ATA_STATUS = 7"
definition ATA_COMMAND :: u16 where "ATA_COMMAND = 7"

definition ATA_CMD_READ_SECTORS :: u8 where "ATA_CMD_READ_SECTORS = 0x20"
definition ATA_CMD_WRITE_SECTORS :: u8 where "ATA_CMD_WRITE_SECTORS = 0x30"
definition ATA_CMD_IDENTIFY :: u8 where "ATA_CMD_IDENTIFY = 0xEC"

definition ATA_STATUS_ERR :: u8 where "ATA_STATUS_ERR = 0x01"
definition ATA_STATUS_DRQ :: u8 where "ATA_STATUS_DRQ = 0x08"
definition ATA_STATUS_RDY :: u8 where "ATA_STATUS_RDY = 0x40"
definition ATA_STATUS_BSY :: u8 where "ATA_STATUS_BSY = 0x80"

text \<open>The member initialisers of the only instance; the two character arrays start zeroed.\<close>

definition ata_driver_new :: ata_driver where
  "ata_driver_new = \<lparr>m_initialized = False, m_is_slave = False, m_io_base = ATA_PRIMARY_IO, m_sectors = 0,
     m_model = replicate 41 0, m_serial = replicate 21 0\<rparr>"

text \<open>The two waiting loops: at most 100000 readings of the status, until one satisfies the condition.\<close>

function wait_loop :: "'c ports \<Rightarrow> u16 \<Rightarrow> (u8 \<Rightarrow> bool) \<Rightarrow> nat \<Rightarrow> 'c \<Rightarrow> bool \<times> 'c" where
  "wait_loop io port cond i c =
     (if i < 100000
      then case inb_port io port c of (status, c') \<Rightarrow>
             if cond status then (True, c') else wait_loop io port cond (i + 1) c'
      else (False, c))"
  by pat_completeness auto
termination
  by (relation "measure (\<lambda>(io, port, cond, i, c). 100000 - i)") auto

declare wait_loop.simps [simp del]

definition wait_not_busy :: "'c ports \<Rightarrow> ata_driver \<Rightarrow> 'c \<Rightarrow> bool \<times> 'c" where
  "wait_not_busy io d c = wait_loop io (m_io_base d + ATA_STATUS) (\<lambda>status. status AND ATA_STATUS_BSY = 0) 0 c"

definition wait_ready :: "'c ports \<Rightarrow> ata_driver \<Rightarrow> 'c \<Rightarrow> bool \<times> 'c" where
  "wait_ready io d c = wait_loop io (m_io_base d + ATA_STATUS) (\<lambda>status. status AND ATA_STATUS_RDY \<noteq> 0) 0 c"

primrec poll_status :: "'c ports \<Rightarrow> u16 \<Rightarrow> nat \<Rightarrow> 'c \<Rightarrow> 'c" where
  "poll_status io port 0 c = c"
| "poll_status io port (Suc n) c = poll_status io port n (snd (inb_port io port c))"

definition select_drive :: "'c ports \<Rightarrow> ata_driver \<Rightarrow> u8 \<Rightarrow> 'c \<Rightarrow> 'c" where
  "select_drive io d slave c =
     poll_status io (m_io_base d + ATA_STATUS) 10
       (outb_port io (m_io_base d + ATA_DRIVE_HEAD) (0xE0 OR push_bit 4 slave) c)"

text \<open>The two loops over the 256 words of a sector.\<close>

primrec read_words :: "'c ports \<Rightarrow> u16 \<Rightarrow> nat \<Rightarrow> 'c \<Rightarrow> u16 list \<times> 'c" where
  "read_words io port 0 c = ([], c)"
| "read_words io port (Suc n) c =
     (let (w, c1) = inw_port io port c; (ws, c2) = read_words io port n c1 in (w # ws, c2))"

primrec write_words :: "'c ports \<Rightarrow> u16 \<Rightarrow> u16 list \<Rightarrow> 'c \<Rightarrow> 'c" where
  "write_words io port [] c = c"
| "write_words io port (w # ws) c = write_words io port ws (outw_port io port w c)"

definition word_bytes :: "u16 \<Rightarrow> bytes" where
  "word_bytes data = [ucast (data AND 0xFF), ucast (drop_bit 8 data AND 0xFF)]"

definition bytes_word :: "u8 \<Rightarrow> u8 \<Rightarrow> u16" where
  "bytes_word a b = ucast a OR push_bit 8 (ucast b)"

text \<open>The 256 words the write loop forms from \<^verbatim>\<open>buffer[2 * i]\<close> and \<^verbatim>\<open>buffer[2 * i + 1]\<close>.\<close>

definition sector_words :: "bytes \<Rightarrow> u16 list" where
  "sector_words buf = map (\<lambda>i. bytes_word (buf ! (2 * i)) (buf ! (2 * i + 1))) [0..<256]"

text \<open>The task-file registers and the command, common to both transfers.\<close>

definition issue_command :: "'c ports \<Rightarrow> ata_driver \<Rightarrow> u32 \<Rightarrow> u8 \<Rightarrow> u8 \<Rightarrow> 'c \<Rightarrow> 'c" where
  "issue_command io d lba sectors cmd c =
    (let base = m_io_base d;
         c = outb_port io (base + ATA_SECTOR_COUNT) sectors c;
         c = outb_port io (base + ATA_LBA_LOW) (ucast (lba AND 0xFF)) c;
         c = outb_port io (base + ATA_LBA_MID) (ucast (drop_bit 8 lba AND 0xFF)) c;
         c = outb_port io (base + ATA_LBA_HIGH) (ucast (drop_bit 16 lba AND 0xFF)) c;
         c = outb_port io (base + ATA_DRIVE_HEAD) (0xE0 OR ucast (drop_bit 24 lba AND 0x0F)) c
     in outb_port io (base + ATA_COMMAND) cmd c)"

primrec read_loop :: "'c ports \<Rightarrow> ata_driver \<Rightarrow> nat \<Rightarrow> 'c \<Rightarrow> bool \<times> bytes \<times> 'c" where
  "read_loop io d 0 c = (True, [], c)"
| "read_loop io d (Suc n) c =
    (let (ok, c) = wait_not_busy io d c in
     if \<not> ok then (False, [], c)
     else let (ok, c) = wait_ready io d c in
     if \<not> ok then (False, [], c)
     else let (ws, c) = read_words io (m_io_base d + ATA_DATA) 256 c;
              (ok, bs, c) = read_loop io d n c
          in (ok, concat (map word_bytes ws) @ bs, c))"

primrec write_loop :: "'c ports \<Rightarrow> ata_driver \<Rightarrow> nat \<Rightarrow> bytes \<Rightarrow> 'c \<Rightarrow> bool \<times> 'c" where
  "write_loop io d 0 buf c = (True, c)"
| "write_loop io d (Suc n) buf c =
    (let (ok, c) = wait_not_busy io d c in
     if \<not> ok then (False, c)
     else let (ok, c) = wait_ready io d c in
     if \<not> ok then (False, c)
     else write_loop io d n (drop 512 buf) (write_words io (m_io_base d + ATA_DATA) (sector_words buf) c))"

text \<open>The second component is what has been stored in the buffer.\<close>

definition read_sectors :: "'c ports \<Rightarrow> u32 \<Rightarrow> u8 \<Rightarrow> ata_driver \<Rightarrow> 'c \<Rightarrow> bool \<times> bytes \<times> 'c" where
  "read_sectors io lba sectors d c =
    (if \<not> m_initialized d then (False, [], c)
     else let (ok, c) = wait_not_busy io d c in
     if \<not> ok then (False, [], c)
     else read_loop io d (unat sectors)
            (issue_command io d lba sectors ATA_CMD_READ_SECTORS
              (select_drive io d (of_bool (m_is_slave d)) c)))"

definition write_sectors :: "'c ports \<Rightarrow> u32 \<Rightarrow> u8 \<Rightarrow> bytes \<Rightarrow> ata_driver \<Rightarrow> 'c \<Rightarrow> bool \<times> 'c" where
  "write_sectors io lba sectors buf d c =
    (if \<not> m_initialized d then (False, c)
     else let (ok, c) = wait_not_busy io d c in
     if \<not> ok then (False, c)
     else write_loop io d (unat sectors) buf
            (issue_command io d lba sectors ATA_CMD_WRITE_SECTORS
              (select_drive io d (of_bool (m_is_slave d)) c)))"

text \<open>
  The loop of \<open>identify\<close> has no bound on its readings: it ends at an error (\<open>False\<close>) or with data to
  fetch (\<open>True\<close>), and does not return (\<open>None\<close>) while neither shows.
\<close>

partial_function (option) identify_wait :: "'c ports \<Rightarrow> u16 \<Rightarrow> 'c \<Rightarrow> (bool \<times> 'c) option" where
  "identify_wait io port c =
    (case inb_port io port c of (status, c') \<Rightarrow>
       if status AND ATA_STATUS_ERR \<noteq> 0 then Some (False, c')
       else if status AND ATA_STATUS_BSY = 0 \<and> status AND ATA_STATUS_DRQ \<noteq> 0 then Some (True, c')
       else identify_wait io port c')"

definition ident_char :: "u16 \<Rightarrow> u8" where
  "ident_char w = (let ch = ucast (drop_bit 8 w OR push_bit 8 w) :: u8 in if ch = 0x20 then 0x5F else ch)"

definition store_identity :: "u16 list \<Rightarrow> ata_driver \<Rightarrow> ata_driver" where
  "store_identity data d =
     d\<lparr>m_sectors := ucast (data ! 60) OR push_bit 16 (ucast (data ! 61)),
       m_serial := map (\<lambda>i. ident_char (data ! (10 + i))) [0..<20] @ drop 20 (m_serial d),
       m_model := map (\<lambda>i. ident_char (data ! (27 + i))) [0..<40] @ drop 40 (m_model d)\<rparr>"

definition identify :: "'c ports \<Rightarrow> ata_driver \<Rightarrow> 'c \<Rightarrow> (bool \<times> ata_driver \<times> 'c) option" where
  "identify io d c =
    (let base = m_io_base d;
         c = select_drive io d (of_bool (m_is_slave d)) c;
         c = outb_port io (base + ATA_SECTOR_COUNT) 0 c;
         c = outb_port io (base + ATA_LBA_LOW) 0 c;
         c = outb_port io (base + ATA_LBA_MID) 0 c;
         c = outb_port io (base + ATA_LBA_HIGH) 0 c;
         c = outb_port io (base + ATA_COMMAND) ATA_CMD_IDENTIFY c;
         (status, c) = inb_port io (base + ATA_STATUS) c
     in if status = 0 then Some (False, d, c)
        else case identify_wait io (base + ATA_STATUS) c of
          None \<Rightarrow> None
        | Some (False, c) \<Rightarrow> Some (False, d, c)
        | Some (True, c) \<Rightarrow>
            let (data, c) = read_words io (base + ATA_DATA) 256 c
            in Some (True, store_identity data d, c))"

definition ata_initialize :: "'c ports \<Rightarrow> ata_driver \<Rightarrow> 'c \<Rightarrow> (bool \<times> ata_driver \<times> 'c) option" where
  "ata_initialize io d c =
    (if m_initialized d then Some (True, d, c)
     else map_option (\<lambda>(ok, d, c). if ok then (True, d\<lparr>m_initialized := True\<rparr>, c) else (False, d, c))
            (identify io d c))"

lemmas ata_ports = ATA_PRIMARY_IO_def ATA_DATA_def ATA_SECTOR_COUNT_def ATA_LBA_LOW_def ATA_LBA_MID_def
  ATA_LBA_HIGH_def ATA_DRIVE_HEAD_def ATA_STATUS_def ATA_COMMAND_def

lemmas ata_bits = ATA_STATUS_ERR_def ATA_STATUS_DRQ_def ATA_STATUS_RDY_def ATA_STATUS_BSY_def

section \<open>Words and bytes of a sector\<close>

lemma byte_mask: "(0xFF :: u16) = mask 8"
  by (simp add: mask_eq_exp_minus_1)

lemma word_bytes_word [simp]: "word_bytes (bytes_word a b) = [a, b]"
proof -
  have "ucast (bytes_word a b AND 0xFF) = a"
    unfolding byte_mask by (rule bit_word_eqI) (simp add: bytes_word_def bit_simps)
  moreover have "ucast (drop_bit 8 (bytes_word a b) AND 0xFF) = b"
    unfolding byte_mask by (rule bit_word_eqI) (auto simp: bytes_word_def bit_simps dest: bit_imp_le_length)
  ultimately show ?thesis by (simp add: word_bytes_def)
qed

lemma length_sector_words [simp]: "length (sector_words bs) = 256"
  by (simp add: sector_words_def)

lemma pairs_of_bytes:
  "2 * n \<le> length bs \<Longrightarrow>
   concat (map (\<lambda>i. [bs ! (2 * i), bs ! (2 * i + 1)]) [0..<n]) = take (2 * n) bs"
proof (induction n)
  case (Suc n)
  then have "take (2 * Suc n) bs = take (2 * n) bs @ [bs ! (2 * n), bs ! (2 * n + 1)]"
    by (simp add: take_Suc_conv_app_nth)
  with Suc show ?case by simp
qed simp

lemma sector_words_bytes: "512 \<le> length bs \<Longrightarrow> concat (map word_bytes (sector_words bs)) = take 512 bs"
  using pairs_of_bytes [of 256 bs] by (simp add: sector_words_def comp_def del: upt_conv_Cons upt_rec_numeral)

section \<open>A drive in programmed input/output mode\<close>

text \<open>
  \<open>Data_in ws k\<close>: the words \<open>ws\<close> of the current sector wait in the data port and \<open>k\<close> sectors follow;
  \<open>Data_out ws k\<close>: the words \<open>ws\<close> of the current sector have arrived. \<open>dr_wait\<close> is the number of status
  readings for which the drive stays busy, \<open>dr_delay\<close> what it needs for a sector, \<open>dr_settle\<close> after the last
  sector of a write. The identification block is \<open>dr_ident\<close>.
\<close>

datatype drive_phase = Idle | Data_in "u16 list" nat | Data_out "u16 list" nat

record drive =
  dr_regs :: "u16 \<Rightarrow> u8"
  dr_phase :: drive_phase
  dr_lba :: u32
  dr_wait :: nat
  dr_media :: "u32 \<Rightarrow> bytes"
  dr_delay :: "u32 \<Rightarrow> nat"
  dr_settle :: nat
  dr_ident :: "u16 list"

definition drive_lba :: "drive \<Rightarrow> u32" where
  "drive_lba v = ucast (dr_regs v 3) OR push_bit 8 (ucast (dr_regs v 4)) OR push_bit 16 (ucast (dr_regs v 5)) OR
     push_bit 24 (ucast (dr_regs v 6 AND 0x0F))"

definition drive_count :: "drive \<Rightarrow> nat" where
  "drive_count v = (if dr_regs v 2 = 0 then 256 else unat (dr_regs v 2))"

definition start_read :: "drive \<Rightarrow> drive" where
  "start_read v = (let b = drive_lba v in
     v\<lparr>dr_phase := Data_in (sector_words (dr_media v b)) (drive_count v - 1), dr_lba := b, dr_wait := dr_delay v b\<rparr>)"

definition start_write :: "drive \<Rightarrow> drive" where
  "start_write v = (let b = drive_lba v in
     v\<lparr>dr_phase := Data_out [] (drive_count v - 1), dr_lba := b, dr_wait := dr_delay v b\<rparr>)"

definition start_identify :: "drive \<Rightarrow> drive" where
  "start_identify v = v\<lparr>dr_phase := Data_in (dr_ident v) 0, dr_wait := dr_settle v\<rparr>"

fun take_word :: "drive \<Rightarrow> drive" where
  "take_word v = (case dr_phase v of
     Data_in (w # ws) k \<Rightarrow>
       if ws \<noteq> [] then v\<lparr>dr_phase := Data_in ws k\<rparr>
       else if k = 0 then v\<lparr>dr_phase := Idle\<rparr>
       else let b = dr_lba v + 1 in
         v\<lparr>dr_phase := Data_in (sector_words (dr_media v b)) (k - 1), dr_lba := b, dr_wait := dr_delay v b\<rparr>
   | _ \<Rightarrow> v)"

fun give_word :: "u16 \<Rightarrow> drive \<Rightarrow> drive" where
  "give_word w v = (case dr_phase v of
     Data_out ws k \<Rightarrow>
       if length ws < 255 then v\<lparr>dr_phase := Data_out (ws @ [w]) k\<rparr>
       else let v = v\<lparr>dr_media := (dr_media v)(dr_lba v := concat (map word_bytes (ws @ [w])))\<rparr>; b = dr_lba v + 1 in
         if k = 0 then v\<lparr>dr_phase := Idle, dr_wait := dr_settle v\<rparr>
         else v\<lparr>dr_phase := Data_out [] (k - 1), dr_lba := b, dr_wait := dr_delay v b\<rparr>
   | _ \<Rightarrow> v)"

definition busy_tick :: "drive \<Rightarrow> drive" where
  "busy_tick v = v\<lparr>dr_wait := dr_wait v - 1\<rparr>"

lemma wait_self: "dr_wait v = k \<Longrightarrow> v\<lparr>dr_wait := k\<rparr> = v"
  by auto

lemma phase_self: "dr_phase v = p \<Longrightarrow> v\<lparr>dr_phase := p\<rparr> = v"
  by auto

locale pio_drive =
  fixes io :: "'c ports" and view :: "'c \<Rightarrow> drive"
  assumes status_view: "view (snd (inb_port io (ATA_PRIMARY_IO + ATA_STATUS) c)) = busy_tick (view c)"
    and status_busy: "fst (inb_port io (ATA_PRIMARY_IO + ATA_STATUS) c) AND ATA_STATUS_BSY \<noteq> 0 \<longleftrightarrow> dr_wait (view c) \<noteq> 0"
    and status_ready: "dr_wait (view c) = 0 \<Longrightarrow>
      fst (inb_port io (ATA_PRIMARY_IO + ATA_STATUS) c) AND ATA_STATUS_RDY \<noteq> 0"
    and status_data: "dr_wait (view c) = 0 \<Longrightarrow> dr_phase (view c) = Data_in ws k \<Longrightarrow>
      fst (inb_port io (ATA_PRIMARY_IO + ATA_STATUS) c) AND ATA_STATUS_DRQ \<noteq> 0"
    and status_no_error: "fst (inb_port io (ATA_PRIMARY_IO + ATA_STATUS) c) AND ATA_STATUS_ERR = 0"
    and register_view: "dr_phase (view c) = Idle \<Longrightarrow> dr_wait (view c) = 0 \<Longrightarrow> 2 \<le> r \<Longrightarrow> r \<le> 6 \<Longrightarrow>
      view (outb_port io (ATA_PRIMARY_IO + r) v c) = (view c)\<lparr>dr_regs := (dr_regs (view c))(r := v)\<rparr>"
    and read_command: "dr_phase (view c) = Idle \<Longrightarrow> dr_wait (view c) = 0 \<Longrightarrow>
      view (outb_port io (ATA_PRIMARY_IO + ATA_COMMAND) ATA_CMD_READ_SECTORS c) = start_read (view c)"
    and write_command: "dr_phase (view c) = Idle \<Longrightarrow> dr_wait (view c) = 0 \<Longrightarrow>
      view (outb_port io (ATA_PRIMARY_IO + ATA_COMMAND) ATA_CMD_WRITE_SECTORS c) = start_write (view c)"
    and identify_command: "dr_phase (view c) = Idle \<Longrightarrow> dr_wait (view c) = 0 \<Longrightarrow>
      view (outb_port io (ATA_PRIMARY_IO + ATA_COMMAND) ATA_CMD_IDENTIFY c) = start_identify (view c)"
    and data_in: "dr_phase (view c) = Data_in (w # ws) k \<Longrightarrow> dr_wait (view c) = 0 \<Longrightarrow>
      fst (inw_port io (ATA_PRIMARY_IO + ATA_DATA) c) = w \<and>
      view (snd (inw_port io (ATA_PRIMARY_IO + ATA_DATA) c)) = take_word (view c)"
    and data_out: "dr_phase (view c) = Data_out ws k \<Longrightarrow> dr_wait (view c) = 0 \<Longrightarrow>
      view (outw_port io (ATA_PRIMARY_IO + ATA_DATA) w c) = give_word w (view c)"
begin

lemma wait_loop_done:
  assumes "dr_wait (view c) + i < 100000"
  shows "\<exists>c'. wait_loop io (ATA_PRIMARY_IO + ATA_STATUS) (\<lambda>status. status AND ATA_STATUS_BSY = 0) i c = (True, c') \<and>
    view c' = (view c)\<lparr>dr_wait := 0\<rparr>"
  using assms
proof (induction "dr_wait (view c)" arbitrary: i c)
  case 0
  then show ?case
    using status_busy [of c] status_view [of c]
    by (simp add: wait_loop.simps [of _ _ _ i] busy_tick_def case_prod_beta)
next
  case (Suc n)
  let ?c = "snd (inb_port io (ATA_PRIMARY_IO + ATA_STATUS) c)"
  have v: "view ?c = (view c)\<lparr>dr_wait := n\<rparr>"
    using status_view [of c] Suc.hyps(2) by (simp add: busy_tick_def)
  have "\<exists>c'. wait_loop io (ATA_PRIMARY_IO + ATA_STATUS) (\<lambda>status. status AND ATA_STATUS_BSY = 0) (Suc i) ?c = (True, c') \<and>
      view c' = (view ?c)\<lparr>dr_wait := 0\<rparr>"
    using Suc.prems Suc.hyps(2) v by (intro Suc.hyps(1)) simp_all
  then show ?case
    using Suc.prems Suc.hyps(2) status_busy [of c] v
    by (simp add: wait_loop.simps [of _ _ _ i] case_prod_beta)
qed

lemma wait_loop_times_out:
  assumes "100000 \<le> dr_wait (view c) + i"
  shows "\<exists>c' k. wait_loop io (ATA_PRIMARY_IO + ATA_STATUS) (\<lambda>status. status AND ATA_STATUS_BSY = 0) i c = (False, c') \<and>
    view c' = (view c)\<lparr>dr_wait := k\<rparr>"
  using assms
proof (induction "100000 - i" arbitrary: i c)
  case 0
  then show ?case by (auto simp: wait_loop.simps [of _ _ _ i] intro!: exI [of _ "dr_wait (view c)"])
next
  case (Suc n)
  let ?c = "snd (inb_port io (ATA_PRIMARY_IO + ATA_STATUS) c)"
  have v: "view ?c = (view c)\<lparr>dr_wait := dr_wait (view c) - 1\<rparr>"
    using status_view [of c] by (simp add: busy_tick_def)
  have w: "dr_wait (view c) \<noteq> 0" using Suc.prems Suc.hyps(2) by linarith
  have "\<exists>c' k. wait_loop io (ATA_PRIMARY_IO + ATA_STATUS) (\<lambda>status. status AND ATA_STATUS_BSY = 0) (Suc i) ?c = (False, c') \<and>
      view c' = (view ?c)\<lparr>dr_wait := k\<rparr>"
    using Suc.prems Suc.hyps(2) v w by (intro Suc.hyps(1)) simp_all
  then show ?case
    using Suc.hyps(2) status_busy [of c] v w
    by (simp add: wait_loop.simps [of _ _ _ i] case_prod_beta)
qed

lemma wait_not_busy_view:
  assumes "m_io_base d = ATA_PRIMARY_IO"
  shows "\<exists>c' k. wait_not_busy io d c = (dr_wait (view c) < 100000, c') \<and> view c' = (view c)\<lparr>dr_wait := k\<rparr> \<and>
    (dr_wait (view c) < 100000 \<longrightarrow> k = 0)"
  using wait_loop_done [of c 0] wait_loop_times_out [of c 0] assms
  by (cases "dr_wait (view c) < 100000") (auto simp: wait_not_busy_def)

lemma wait_ready_view:
  assumes "m_io_base d = ATA_PRIMARY_IO" "dr_wait (view c) = 0"
  shows "\<exists>c'. wait_ready io d c = (True, c') \<and> view c' = view c"
  using assms status_ready [of c] status_view [of c]
  by (simp add: wait_ready_def wait_loop.simps [of _ _ _ 0] busy_tick_def case_prod_beta wait_self)

lemma poll_status_view:
  "view (poll_status io (ATA_PRIMARY_IO + ATA_STATUS) n c) = (view c)\<lparr>dr_wait := dr_wait (view c) - n\<rparr>"
  by (induction n arbitrary: c) (simp_all add: status_view busy_tick_def)

lemma read_words_view:
  assumes "dr_phase (view c) = Data_in ws k" "dr_wait (view c) = 0" "ws \<noteq> []"
  shows "\<exists>c'. read_words io (ATA_PRIMARY_IO + ATA_DATA) (length ws) c = (ws, c') \<and>
    view c' = take_word ((view c)\<lparr>dr_phase := Data_in [w] k\<rparr>)"
  using assms
proof (induction ws arbitrary: c)
  case (Cons x ws)
  obtain c1 where s: "inw_port io (ATA_PRIMARY_IO + ATA_DATA) c = (x, c1)" "view c1 = take_word (view c)"
    using data_in [OF Cons.prems(1,2)] by (cases "inw_port io (ATA_PRIMARY_IO + ATA_DATA) c") auto
  show ?case
  proof (cases "ws = []")
    case True
    then have "view c1 = take_word ((view c)\<lparr>dr_phase := Data_in [w] k\<rparr>)" using s Cons.prems by simp
    with True s(1) show ?thesis by (simp del: take_word.simps)
  next
    case False
    then have v: "view c1 = (view c)\<lparr>dr_phase := Data_in ws k\<rparr>" using s Cons.prems by simp
    then obtain c' where "read_words io (ATA_PRIMARY_IO + ATA_DATA) (length ws) c1 = (ws, c')"
        "view c' = take_word ((view c1)\<lparr>dr_phase := Data_in [w] k\<rparr>)"
      using Cons.IH [of c1] Cons.prems False by auto
    with s(1) v show ?thesis by (simp del: take_word.simps)
  qed
qed simp

lemma write_words_view:
  assumes "dr_phase (view c) = Data_out acc k" "dr_wait (view c) = 0" "ws \<noteq> []" "length acc + length ws = 256"
  shows "view (write_words io (ATA_PRIMARY_IO + ATA_DATA) ws c) =
    give_word (List.last ws) ((view c)\<lparr>dr_phase := Data_out (acc @ butlast ws) k\<rparr>)"
  using assms
proof (induction ws arbitrary: c acc)
  case (Cons x ws)
  let ?c = "outw_port io (ATA_PRIMARY_IO + ATA_DATA) x c"
  have s: "view ?c = give_word x (view c)" using data_out Cons.prems by blast
  show ?case
  proof (cases "ws = []")
    case True
    with s Cons.prems(1) show ?thesis by (simp add: phase_self)
  next
    case False
    then have "view ?c = (view c)\<lparr>dr_phase := Data_out (acc @ [x]) k\<rparr>" using s Cons.prems by (cases ws) simp_all
    then show ?thesis using Cons.IH [of ?c "acc @ [x]"] Cons.prems False by simp
  qed
qed simp

end

section \<open>The driver on such a drive\<close>

definition same_medium :: "drive \<Rightarrow> drive \<Rightarrow> bool" where
  "same_medium v v' \<longleftrightarrow> dr_delay v' = dr_delay v \<and> dr_settle v' = dr_settle v \<and> dr_ident v' = dr_ident v"

definition rested :: "drive \<Rightarrow> bool" where
  "rested v \<longleftrightarrow> dr_phase v = Idle \<and> dr_wait v < 100000 \<and> dr_settle v < 100000 \<and> (\<forall>b. length (dr_media v b) = 512)"

text \<open>The volume of the file system model whose sectors are those of the drive and time out where the drive takes too long.\<close>

definition shows_drive :: "fatfs \<Rightarrow> drive \<Rightarrow> bool" where
  "shows_drive s v \<longleftrightarrow> disk s = dr_media v \<and> (\<forall>b. disk_bad s b \<longleftrightarrow> 100000 \<le> dr_delay v b)"

lemma lba_bits: "ucast (lba AND 0xFF) = (ucast (lba :: u32) :: u8)" "ucast (lba AND 0x0F) = (ucast lba AND 0x0F :: u8)"
proof -
  have m: "(0xFF :: u32) = mask 8" "(0x0F :: u32) = mask 4" "(0x0F :: u8) = mask 4"
    by (simp_all add: mask_eq_exp_minus_1)
  show "ucast (lba AND 0xFF) = (ucast lba :: u8)"
    unfolding m by (rule bit_word_eqI) (simp add: bit_simps)
  show "ucast (lba AND 0x0F) = (ucast lba AND 0x0F :: u8)"
    unfolding m by (rule bit_word_eqI) (auto simp: bit_simps)
qed

lemma lba_from_registers:
  "ucast (ucast lba :: u8) OR push_bit 8 (ucast (ucast (drop_bit 8 lba) :: u8)) OR
   push_bit 16 (ucast (ucast (drop_bit 16 lba) :: u8)) OR
   push_bit 24 (ucast ((0xE0 OR (ucast (drop_bit 24 lba) AND 0x0F)) AND 0x0F :: u8)) = lba28 lba"
proof -
  have e: "(0xE0 OR (x AND 0x0F)) AND 0x0F = (x AND 0x0F :: u8)" for x
    by (subst and.commute, subst bit.conj_disj_distrib) (simp add: and.left_commute and.commute)
  have m: "(0x0F :: u8) = mask 4" "(0x0FFFFFFF :: u32) = mask 28"
    by (simp_all add: mask_eq_exp_minus_1)
  show ?thesis
    unfolding e lba28_def unfolding m
  proof (rule bit_word_eqI)
    fix n assume n: "n < LENGTH(32)"
    consider "n < 8" | "8 \<le> n" "n < 16" | "16 \<le> n" "n < 24" | "24 \<le> n" by linarith
    then show "bit ((ucast (ucast lba :: u8) :: u32) OR push_bit 8 (ucast (ucast (drop_bit 8 lba) :: u8)) OR
       push_bit 16 (ucast (ucast (drop_bit 16 lba) :: u8)) OR
       push_bit 24 (ucast (ucast (drop_bit 24 lba) AND mask 4 :: u8))) n = bit (lba AND mask 28) n"
      using n by cases (auto simp: bit_simps dest: bit_imp_le_length)
  qed
qed

context pio_drive
begin

lemma issue_command_view:
  assumes "m_io_base d = ATA_PRIMARY_IO" "dr_phase (view c) = Idle" "dr_wait (view c) = 0"
    and run: "\<And>c. dr_phase (view c) = Idle \<Longrightarrow> dr_wait (view c) = 0 \<Longrightarrow>
      view (outb_port io (ATA_PRIMARY_IO + ATA_COMMAND) cmd c) = start (view c)"
  shows "\<exists>r. view (issue_command io d lba sectors cmd c) = start ((view c)\<lparr>dr_regs := r\<rparr>) \<and> r 2 = sectors \<and>
    drive_lba ((view c)\<lparr>dr_regs := r\<rparr>) = lba28 lba"
proof -
  let ?r = "(dr_regs (view c))(2 := sectors, 3 := ucast lba, 4 := ucast (drop_bit 8 lba), 5 := ucast (drop_bit 16 lba),
    6 := 0xE0 OR (ucast (drop_bit 24 lba) AND 0x0F))"
  have "view (issue_command io d lba sectors cmd c) = start ((view c)\<lparr>dr_regs := ?r\<rparr>)"
    using assms(1-3)
    by (simp add: issue_command_def run register_view lba_bits ATA_SECTOR_COUNT_def ATA_LBA_LOW_def ATA_LBA_MID_def
        ATA_LBA_HIGH_def ATA_DRIVE_HEAD_def)
  moreover have "drive_lba ((view c)\<lparr>dr_regs := ?r\<rparr>) = lba28 lba"
    using lba_from_registers [of lba] by (simp add: drive_lba_def)
  ultimately show ?thesis by (intro exI [of _ ?r]) simp
qed

lemma select_drive_view:
  assumes "m_io_base d = ATA_PRIMARY_IO" "dr_phase (view c) = Idle" "dr_wait (view c) = 0"
  shows "\<exists>r. view (select_drive io d slave c) = (view c)\<lparr>dr_regs := r\<rparr>"
  using assms by (simp add: select_drive_def poll_status_view register_view ATA_DRIVE_HEAD_def wait_self) blast

lemma sector_wait:
  assumes "m_io_base d = ATA_PRIMARY_IO" "dr_wait (view c) < 100000"
  obtains c1 c2 where "wait_not_busy io d c = (True, c1)" "wait_ready io d c1 = (True, c2)"
    "view c2 = (view c)\<lparr>dr_wait := 0\<rparr>"
proof -
  obtain c1 where 1: "wait_not_busy io d c = (True, c1)" "view c1 = (view c)\<lparr>dr_wait := 0\<rparr>"
    using wait_not_busy_view [OF assms(1), of c] assms(2) by auto
  then obtain c2 where "wait_ready io d c1 = (True, c2)" "view c2 = view c1"
    using wait_ready_view [OF assms(1), of c1] by auto
  with 1 show ?thesis by (intro that [of c1 c2]) simp_all
qed

lemma sector_time_out:
  assumes "m_io_base d = ATA_PRIMARY_IO" "100000 \<le> dr_wait (view c)"
  obtains c1 k where "wait_not_busy io d c = (False, c1)" "view c1 = (view c)\<lparr>dr_wait := k\<rparr>"
  using wait_not_busy_view [OF assms(1), of c] assms(2) by auto

lemma sector_read:
  assumes "m_io_base d = ATA_PRIMARY_IO" "dr_wait (view c) < 100000" "dr_phase (view c) = Data_in ws k" "length ws = 256"
  obtains c' where
    "\<And>n. read_loop io d (Suc n) c =
       (let (ok, bs, c2) = read_loop io d n c' in (ok, concat (map word_bytes ws) @ bs, c2))"
    "view c' = take_word ((view c)\<lparr>dr_phase := Data_in [0] k, dr_wait := 0\<rparr>)"
proof -
  obtain c1 c2 where w: "wait_not_busy io d c = (True, c1)" "wait_ready io d c1 = (True, c2)"
      "view c2 = (view c)\<lparr>dr_wait := 0\<rparr>"
    using sector_wait [OF assms(1,2)] by blast
  have "ws \<noteq> []" using assms(4) by auto
  then obtain c' where r: "read_words io (ATA_PRIMARY_IO + ATA_DATA) 256 c2 = (ws, c')"
      "view c' = take_word ((view c2)\<lparr>dr_phase := Data_in [0] k\<rparr>)"
    using read_words_view [of c2 ws k 0] assms(3,4) w(3) by (auto simp del: take_word.simps)
  show ?thesis
  proof (rule that)
    show "read_loop io d (Suc n) c =
       (let (ok, bs, c2) = read_loop io d n c' in (ok, concat (map word_bytes ws) @ bs, c2))" for n
      using w r(1) assms(1) by simp
    show "view c' = take_word ((view c)\<lparr>dr_phase := Data_in [0] k, dr_wait := 0\<rparr>)"
      using r(2) w(3) by simp
  qed
qed

lemma read_loop_view:
  assumes "m_io_base d = ATA_PRIMARY_IO" "\<forall>b. length (dr_media (view c) b) = 512" "shows_drive s (view c)"
    "dr_phase (view c) = Data_in (sector_words (dr_media (view c) (dr_lba (view c)))) n"
    "dr_wait (view c) = dr_delay (view c) (dr_lba (view c))"
  shows "\<exists>bs c'. read_loop io d (Suc n) c = (ata_read (dr_lba (view c)) (Suc n) s \<noteq> None, bs, c') \<and>
    same_medium (view c) (view c') \<and> dr_media (view c') = dr_media (view c) \<and>
    (\<forall>r. ata_read (dr_lba (view c)) (Suc n) s = Some r \<longrightarrow>
       bs = r \<and> dr_phase (view c') = Idle \<and> dr_wait (view c') = 0)"
  using assms
proof (induction n arbitrary: c)
  case (0 c)
  show ?case
  proof (cases "dr_wait (view c) < 100000")
    case True
    obtain c' where "\<And>n. read_loop io d (Suc n) c = (let (ok, bs, c2) = read_loop io d n c' in
          (ok, concat (map word_bytes (sector_words (dr_media (view c) (dr_lba (view c))))) @ bs, c2))"
        "view c' = take_word ((view c)\<lparr>dr_phase := Data_in [0] 0, dr_wait := 0\<rparr>)"
      using sector_read [OF 0(1) True 0(4)] by auto
    with 0 True show ?thesis by (auto simp: sector_words_bytes shows_drive_def same_medium_def simp del: read_loop.simps(2))
  next
    case False
    then obtain c1 k where "wait_not_busy io d c = (False, c1)" "view c1 = (view c)\<lparr>dr_wait := k\<rparr>"
      using sector_time_out [OF 0(1), of c] by auto
    with 0 False show ?thesis by (auto simp: shows_drive_def same_medium_def)
  qed
next
  case (Suc n)
  let ?b = "dr_lba (view c)"
  show ?case
  proof (cases "dr_wait (view c) < 100000")
    case True
    obtain c1 where r: "\<And>n. read_loop io d (Suc n) c = (let (ok, bs, c2) = read_loop io d n c1 in
          (ok, concat (map word_bytes (sector_words (dr_media (view c) ?b))) @ bs, c2))"
        "view c1 = take_word ((view c)\<lparr>dr_phase := Data_in [0] (Suc n), dr_wait := 0\<rparr>)"
      using sector_read [OF Suc.prems(1) True Suc.prems(4)] by auto
    have v: "view c1 = (view c)\<lparr>dr_phase := Data_in (sector_words (dr_media (view c) (?b + 1))) n,
        dr_lba := ?b + 1, dr_wait := dr_delay (view c) (?b + 1)\<rparr>"
      using r(2) by (simp add: Let_def)
    obtain bs c' where IH: "read_loop io d (Suc n) c1 = (ata_read (?b + 1) (Suc n) s \<noteq> None, bs, c')"
        "same_medium (view c1) (view c')" "dr_media (view c') = dr_media (view c)"
        "\<forall>r. ata_read (?b + 1) (Suc n) s = Some r \<longrightarrow> bs = r \<and> dr_phase (view c') = Idle \<and> dr_wait (view c') = 0"
      using Suc.IH [of c1] Suc.prems v by (auto simp: shows_drive_def simp del: read_loop.simps(2) ata_read.simps(2))
    have e: "ata_read ?b (Suc (Suc n)) s = map_option (\<lambda>rest. dr_media (view c) ?b @ rest) (ata_read (?b + 1) (Suc n) s)"
      using True Suc.prems(3,5) by (simp add: shows_drive_def)
    show ?thesis
      using IH r(1) [of "Suc n"] Suc.prems(2) v e
      by (auto simp: sector_words_bytes same_medium_def simp del: read_loop.simps(2) ata_read.simps(2))
  next
    case False
    then obtain c1 k where "wait_not_busy io d c = (False, c1)" "view c1 = (view c)\<lparr>dr_wait := k\<rparr>"
      using sector_time_out [OF Suc.prems(1), of c] by auto
    with Suc.prems False show ?thesis by (auto simp: shows_drive_def same_medium_def)
  qed
qed

end

text \<open>The drive after the last word of a sector of a write.\<close>

definition after_sector :: "bytes \<Rightarrow> nat \<Rightarrow> drive \<Rightarrow> drive" where
  "after_sector buf k v =
    (let v = v\<lparr>dr_media := (dr_media v)(dr_lba v := take 512 buf)\<rparr> in
     if k = 0 then v\<lparr>dr_phase := Idle, dr_wait := dr_settle v\<rparr>
     else v\<lparr>dr_phase := Data_out [] (k - 1), dr_lba := dr_lba v + 1, dr_wait := dr_delay v (dr_lba v + 1)\<rparr>)"

lemma last_word_of_sector:
  assumes "512 \<le> length buf" "dr_phase v = Data_out [] k"
  shows "give_word (List.last (sector_words buf)) (v\<lparr>dr_phase := Data_out (butlast (sector_words buf)) k\<rparr>) =
    after_sector buf k v"
proof -
  have ne: "sector_words buf \<noteq> []" by (simp flip: length_0_conv)
  have "concat (map word_bytes (butlast (sector_words buf) @ [List.last (sector_words buf)])) = take 512 buf"
    unfolding append_butlast_last_id [OF ne] by (rule sector_words_bytes [OF assms(1)])
  then show ?thesis by (simp add: after_sector_def Let_def del: map_append concat_append)
qed

context pio_drive
begin

lemma sector_written:
  assumes "m_io_base d = ATA_PRIMARY_IO" "dr_wait (view c) < 100000" "dr_phase (view c) = Data_out [] k" "512 \<le> length buf"
  obtains c' where "\<And>n. write_loop io d (Suc n) buf c = write_loop io d n (drop 512 buf) c'"
    "view c' = after_sector buf k ((view c)\<lparr>dr_wait := 0\<rparr>)"
proof -
  obtain c1 c2 where w: "wait_not_busy io d c = (True, c1)" "wait_ready io d c1 = (True, c2)"
      "view c2 = (view c)\<lparr>dr_wait := 0\<rparr>"
    using sector_wait [OF assms(1,2)] by blast
  let ?c = "write_words io (ATA_PRIMARY_IO + ATA_DATA) (sector_words buf) c2"
  have "sector_words buf \<noteq> []" by (simp flip: length_0_conv)
  then have "view ?c = give_word (List.last (sector_words buf))
      ((view c2)\<lparr>dr_phase := Data_out (butlast (sector_words buf)) k\<rparr>)"
    using write_words_view [of c2 "[]" k "sector_words buf"] assms(3) w(3) by (simp del: give_word.simps)
  also have "\<dots> = after_sector buf k (view c2)"
    by (rule last_word_of_sector) (use assms(3,4) w(3) in simp_all)
  finally show ?thesis using w assms(1) by (intro that [of ?c]) simp_all
qed

lemma write_loop_view:
  assumes "m_io_base d = ATA_PRIMARY_IO" "512 * Suc n \<le> length buf" "shows_drive s (view c)"
    "dr_phase (view c) = Data_out [] n" "dr_wait (view c) = dr_delay (view c) (dr_lba (view c))"
  shows "\<exists>c'. write_loop io d (Suc n) buf c = (fst (ata_write (dr_lba (view c)) (Suc n) buf s), c') \<and>
    same_medium (view c) (view c') \<and> dr_media (view c') = disk (snd (ata_write (dr_lba (view c)) (Suc n) buf s)) \<and>
    (fst (ata_write (dr_lba (view c)) (Suc n) buf s) \<longrightarrow>
       dr_phase (view c') = Idle \<and> dr_wait (view c') = dr_settle (view c))"
  using assms
proof (induction n arbitrary: c s buf)
  case (0 c s buf)
  show ?case
  proof (cases "dr_wait (view c) < 100000")
    case True
    have "512 \<le> length buf" using 0(2) by simp
    from sector_written [OF 0(1) True 0(4) this] obtain c' where
        r: "\<And>n. write_loop io d (Suc n) buf c = write_loop io d n (drop 512 buf) c'"
        and v': "view c' = after_sector buf 0 ((view c)\<lparr>dr_wait := 0\<rparr>)" by blast
    have "view c' = (view c)\<lparr>dr_wait := dr_settle (view c), dr_media := (dr_media (view c))(dr_lba (view c) := take 512 buf),
        dr_phase := Idle\<rparr>"
      unfolding v' by (simp add: after_sector_def Let_def)
    with r 0 True show ?thesis by (auto simp: shows_drive_def same_medium_def simp del: write_loop.simps(2))
  next
    case False
    then obtain c1 k where "wait_not_busy io d c = (False, c1)" "view c1 = (view c)\<lparr>dr_wait := k\<rparr>"
      using sector_time_out [OF 0(1), of c] by auto
    with 0 False show ?thesis by (auto simp: shows_drive_def same_medium_def)
  qed
next
  case (Suc n)
  let ?b = "dr_lba (view c)"
  show ?case
  proof (cases "dr_wait (view c) < 100000")
    case True
    have "512 \<le> length buf" using Suc.prems(2) by simp
    from sector_written [OF Suc.prems(1) True Suc.prems(4) this] obtain c1 where
        r: "\<And>n. write_loop io d (Suc n) buf c = write_loop io d n (drop 512 buf) c1"
        and v': "view c1 = after_sector buf (Suc n) ((view c)\<lparr>dr_wait := 0\<rparr>)" by blast
    have v: "view c1 = (view c)\<lparr>dr_phase := Data_out [] n, dr_lba := ?b + 1, dr_wait := dr_delay (view c) (?b + 1),
        dr_media := (dr_media (view c))(?b := take 512 buf)\<rparr>"
      unfolding v' by (simp add: after_sector_def Let_def)
    let ?s = "s\<lparr>disk := (disk s)(?b := take 512 buf)\<rparr>"
    have e: "ata_write ?b (Suc (Suc n)) buf s = ata_write (?b + 1) (Suc n) (drop 512 buf) ?s"
      using True Suc.prems(3,5) by (simp add: shows_drive_def)
    have "shows_drive ?s (view c1)" using Suc.prems(3) v by (simp add: shows_drive_def)
    then have "\<exists>c'. write_loop io d (Suc n) (drop 512 buf) c1 = (fst (ata_write (?b + 1) (Suc n) (drop 512 buf) ?s), c') \<and>
        same_medium (view c1) (view c') \<and> dr_media (view c') = disk (snd (ata_write (?b + 1) (Suc n) (drop 512 buf) ?s)) \<and>
        (fst (ata_write (?b + 1) (Suc n) (drop 512 buf) ?s) \<longrightarrow>
           dr_phase (view c') = Idle \<and> dr_wait (view c') = dr_settle (view c1))"
      using Suc.IH [of "drop 512 buf" ?s c1] Suc.prems(1,2) v by (simp del: write_loop.simps(2) ata_write.simps(2))
    then show ?thesis unfolding e r [of "Suc n"] using v by (auto simp: same_medium_def)
  next
    case False
    then obtain c1 k where "wait_not_busy io d c = (False, c1)" "view c1 = (view c)\<lparr>dr_wait := k\<rparr>"
      using sector_time_out [OF Suc.prems(1), of c] by auto
    with Suc.prems False show ?thesis by (auto simp: shows_drive_def same_medium_def)
  qed
qed

lemma command_view:
  assumes "m_io_base d = ATA_PRIMARY_IO" "rested (view c)"
    and run: "\<And>c. dr_phase (view c) = Idle \<Longrightarrow> dr_wait (view c) = 0 \<Longrightarrow>
      view (outb_port io (ATA_PRIMARY_IO + ATA_COMMAND) cmd c) = start (view c)"
  obtains c1 v where "wait_not_busy io d c = (True, c1)"
    "view (issue_command io d lba sectors cmd (select_drive io d slave c1)) = start v"
    "dr_regs v 2 = sectors" "drive_lba v = lba28 lba" "same_medium (view c) v" "dr_media v = dr_media (view c)"
proof -
  obtain c1 where 1: "wait_not_busy io d c = (True, c1)" "view c1 = (view c)\<lparr>dr_wait := 0\<rparr>"
    using wait_not_busy_view [OF assms(1), of c] assms(2) by (auto simp: rested_def)
  obtain r where 2: "view (select_drive io d slave c1) = (view c1)\<lparr>dr_regs := r\<rparr>"
    using select_drive_view [OF assms(1), of c1] 1 assms(2) by (auto simp: rested_def)
  have "dr_phase (view (select_drive io d slave c1)) = Idle" "dr_wait (view (select_drive io d slave c1)) = 0"
    using 1 2 assms(2) by (simp_all add: rested_def)
  from issue_command_view [OF assms(1) this run, of lba sectors] obtain r'
    where "view (issue_command io d lba sectors cmd (select_drive io d slave c1)) =
        start ((view (select_drive io d slave c1))\<lparr>dr_regs := r'\<rparr>)" "r' 2 = sectors"
      "drive_lba ((view (select_drive io d slave c1))\<lparr>dr_regs := r'\<rparr>) = lba28 lba"
    by blast
  with 1 2 show ?thesis
    by (intro that [of c1 "(view (select_drive io d slave c1))\<lparr>dr_regs := r'\<rparr>"]) (simp_all add: same_medium_def)
qed

end

context pio_drive
begin

lemma read_sectors_spec:
  assumes d: "m_initialized d" "m_io_base d = ATA_PRIMARY_IO" and c: "rested (view c)" "shows_drive s (view c)"
    and "sectors \<noteq> 0"
  shows "\<exists>bs c'. read_sectors io lba sectors d c = (ata_read (lba28 lba) (unat sectors) s \<noteq> None, bs, c') \<and>
    dr_media (view c') = dr_media (view c) \<and>
    (\<forall>r. ata_read (lba28 lba) (unat sectors) s = Some r \<longrightarrow> bs = r \<and> rested (view c') \<and> shows_drive s (view c'))"
proof -
  obtain n where n: "unat sectors = Suc n" using assms(5) by (metis not0_implies_Suc unat_eq_zero)
  obtain c1 v where 1: "wait_not_busy io d c = (True, c1)"
      "view (issue_command io d lba sectors ATA_CMD_READ_SECTORS (select_drive io d (of_bool (m_is_slave d)) c1)) = start_read v"
      "dr_regs v 2 = sectors" "drive_lba v = lba28 lba" "same_medium (view c) v" "dr_media v = dr_media (view c)"
    using command_view [OF d(2) c(1) read_command] by blast
  let ?c = "issue_command io d lba sectors ATA_CMD_READ_SECTORS (select_drive io d (of_bool (m_is_slave d)) c1)"
  have v: "dr_phase (view ?c) = Data_in (sector_words (dr_media (view ?c) (dr_lba (view ?c)))) n"
      "dr_wait (view ?c) = dr_delay (view ?c) (dr_lba (view ?c))" "dr_lba (view ?c) = lba28 lba"
      "same_medium (view c) (view ?c)" "dr_media (view ?c) = dr_media (view c)"
    using 1 n assms(5) by (auto simp: start_read_def drive_count_def same_medium_def Let_def)
  have "\<forall>b. length (dr_media (view ?c) b) = 512" "shows_drive s (view ?c)"
    using v c by (simp_all add: rested_def shows_drive_def same_medium_def)
  from read_loop_view [OF d(2) this v(1,2)] obtain bs c' where
      "read_loop io d (Suc n) ?c = (ata_read (lba28 lba) (Suc n) s \<noteq> None, bs, c')"
      "same_medium (view ?c) (view c')" "dr_media (view c') = dr_media (view ?c)"
      "\<forall>r. ata_read (lba28 lba) (Suc n) s = Some r \<longrightarrow> bs = r \<and> dr_phase (view c') = Idle \<and> dr_wait (view c') = 0"
    unfolding v(3) by blast
  then show ?thesis
    using 1(1) n d v(4,5) c
    by (auto simp: read_sectors_def rested_def shows_drive_def same_medium_def simp del: read_loop.simps ata_read.simps)
qed

lemma write_sectors_spec:
  assumes d: "m_initialized d" "m_io_base d = ATA_PRIMARY_IO" and c: "rested (view c)" "shows_drive s (view c)"
    and "sectors \<noteq> 0" and len: "512 * unat sectors \<le> length buf"
  shows "\<exists>c'. write_sectors io lba sectors buf d c = (fst (ata_write (lba28 lba) (unat sectors) buf s), c') \<and>
    shows_drive (snd (ata_write (lba28 lba) (unat sectors) buf s)) (view c') \<and>
    (fst (ata_write (lba28 lba) (unat sectors) buf s) \<longrightarrow> rested (view c'))"
proof -
  obtain n where n: "unat sectors = Suc n" using assms(5) by (metis not0_implies_Suc unat_eq_zero)
  obtain c1 v where 1: "wait_not_busy io d c = (True, c1)"
      "view (issue_command io d lba sectors ATA_CMD_WRITE_SECTORS (select_drive io d (of_bool (m_is_slave d)) c1)) = start_write v"
      "dr_regs v 2 = sectors" "drive_lba v = lba28 lba" "same_medium (view c) v" "dr_media v = dr_media (view c)"
    using command_view [OF d(2) c(1) write_command] by blast
  let ?c = "issue_command io d lba sectors ATA_CMD_WRITE_SECTORS (select_drive io d (of_bool (m_is_slave d)) c1)"
  have v: "dr_phase (view ?c) = Data_out [] n"
      "dr_wait (view ?c) = dr_delay (view ?c) (dr_lba (view ?c))" "dr_lba (view ?c) = lba28 lba"
      "same_medium (view c) (view ?c)" "dr_media (view ?c) = dr_media (view c)"
    using 1 n assms(5) by (auto simp: start_write_def drive_count_def same_medium_def Let_def)
  have "512 * Suc n \<le> length buf" "shows_drive s (view ?c)"
    using v c len n by (simp_all add: shows_drive_def same_medium_def)
  from write_loop_view [OF d(2) this v(1,2)] obtain c' where
      "write_loop io d (Suc n) buf ?c = (fst (ata_write (lba28 lba) (Suc n) buf s), c')"
      "same_medium (view ?c) (view c')" "dr_media (view c') = disk (snd (ata_write (lba28 lba) (Suc n) buf s))"
      "fst (ata_write (lba28 lba) (Suc n) buf s) \<longrightarrow> dr_phase (view c') = Idle \<and> dr_wait (view c') = dr_settle (view ?c)"
    unfolding v(3) by blast
  moreover have "disk_bad (snd (ata_write b k buf' s')) = disk_bad s'" for b k buf' s'
    by (induction k arbitrary: b buf' s') simp_all
  moreover have "\<forall>b. length (disk (snd (ata_write b' k buf' s')) b) = 512"
    if "512 * k \<le> length buf'" "\<forall>b. length (disk s' b) = 512" for b' k buf' s'
    using that by (induction k arbitrary: b' buf' s') simp_all
  ultimately show ?thesis
    using 1(1) n d v(4,5) c len
    by (auto simp: write_sectors_def rested_def shows_drive_def same_medium_def simp del: write_loop.simps ata_write.simps)
qed

lemma identify_wait_view:
  assumes "dr_phase (view c) = Data_in ws k"
  shows "\<exists>c'. identify_wait io (ATA_PRIMARY_IO + ATA_STATUS) c = Some (True, c') \<and> view c' = (view c)\<lparr>dr_wait := 0\<rparr>"
  using assms
proof (induction "dr_wait (view c)" arbitrary: c)
  case 0
  then show ?case
    using status_busy [of c] status_view [of c] status_data [of c] status_no_error [of c]
    by (subst identify_wait.simps) (simp add: busy_tick_def case_prod_beta)
next
  case (Suc n)
  let ?c = "snd (inb_port io (ATA_PRIMARY_IO + ATA_STATUS) c)"
  have v: "view ?c = (view c)\<lparr>dr_wait := n\<rparr>"
    using status_view [of c] Suc.hyps(2) by (simp add: busy_tick_def)
  have "\<exists>c'. identify_wait io (ATA_PRIMARY_IO + ATA_STATUS) ?c = Some (True, c') \<and> view c' = (view ?c)\<lparr>dr_wait := 0\<rparr>"
    using Suc.prems v by (intro Suc.hyps(1)) simp_all
  then show ?case
    using Suc.hyps(2) status_busy [of c] status_no_error [of c] v
    by (subst identify_wait.simps) (simp add: case_prod_beta)
qed

lemma initialize_spec:
  assumes d: "\<not> m_initialized d" "m_io_base d = ATA_PRIMARY_IO"
    and c: "dr_phase (view c) = Idle" "dr_wait (view c) = 0" "length (dr_ident (view c)) = 256"
  shows "\<exists>c'. ata_initialize io d c = Some (True, (store_identity (dr_ident (view c)) d)\<lparr>m_initialized := True\<rparr>, c') \<and>
    dr_phase (view c') = Idle \<and> dr_wait (view c') = 0 \<and> same_medium (view c) (view c') \<and>
    dr_media (view c') = dr_media (view c)"
proof -
  obtain r where 1: "view (select_drive io d (of_bool (m_is_slave d)) c) = (view c)\<lparr>dr_regs := r\<rparr>"
    using select_drive_view [OF d(2) c(1,2)] by blast
  let ?P = ATA_PRIMARY_IO
  let ?c0 = "outb_port io (?P + ATA_LBA_HIGH) 0 (outb_port io (?P + ATA_LBA_MID) 0 (outb_port io (?P + ATA_LBA_LOW) 0
    (outb_port io (?P + ATA_SECTOR_COUNT) 0 (select_drive io d (of_bool (m_is_slave d)) c))))"
  let ?c1 = "outb_port io (?P + ATA_COMMAND) ATA_CMD_IDENTIFY ?c0"
  let ?c2 = "snd (inb_port io (?P + ATA_STATUS) ?c1)"
  have "view ?c0 = (view c)\<lparr>dr_regs := r(2 := 0, 3 := 0, 4 := 0, 5 := 0)\<rparr>"
    using 1 c by (simp add: register_view ATA_SECTOR_COUNT_def ATA_LBA_LOW_def ATA_LBA_MID_def ATA_LBA_HIGH_def)
  then have v1: "view ?c1 = (view c)\<lparr>dr_regs := r(2 := 0, 3 := 0, 4 := 0, 5 := 0), dr_phase := Data_in (dr_ident (view c)) 0,
      dr_wait := dr_settle (view c)\<rparr>"
    using c by (simp add: identify_command start_identify_def)
  have nz: "fst (inb_port io (?P + ATA_STATUS) ?c1) \<noteq> 0"
    using status_busy [of ?c1] status_ready [of ?c1] by auto
  obtain c3 where 3: "identify_wait io (?P + ATA_STATUS) ?c2 = Some (True, c3)" "view c3 = (view ?c2)\<lparr>dr_wait := 0\<rparr>"
    using identify_wait_view [of ?c2 "dr_ident (view c)" 0] v1 status_view [of ?c1] by (auto simp: busy_tick_def)
  have v3: "view c3 = (view ?c1)\<lparr>dr_wait := 0\<rparr>" using 3(2) status_view [of ?c1] by (simp add: busy_tick_def)
  have "dr_ident (view c) \<noteq> []" using c(3) by auto
  then obtain c4 where 4: "read_words io (?P + ATA_DATA) 256 c3 = (dr_ident (view c), c4)"
      "view c4 = take_word ((view c3)\<lparr>dr_phase := Data_in [0] 0\<rparr>)"
    using read_words_view [of c3 "dr_ident (view c)" 0 0] v3 v1 c(3) by (auto simp del: take_word.simps)
  have v4: "view c4 = (view c3)\<lparr>dr_phase := Idle\<rparr>" using 4(2) by simp
  have "ata_initialize io d c = Some (True, (store_identity (dr_ident (view c)) d)\<lparr>m_initialized := True\<rparr>, c4)"
    using d nz 3(1) 4(1) by (simp add: ata_initialize_def identify_def case_prod_beta Let_def)
  then show ?thesis using v4 v3 v1 by (simp add: same_medium_def)
qed

end

section \<open>A drive\<close>

definition drive_status :: "drive \<Rightarrow> u8" where
  "drive_status v = (if dr_wait v \<noteq> 0 then 0x80 else if dr_phase v = Idle then 0x40 else 0x48)"

definition drive_command :: "u8 \<Rightarrow> drive \<Rightarrow> drive" where
  "drive_command cmd v =
    (if dr_phase v \<noteq> Idle \<or> dr_wait v \<noteq> 0 then v
     else if cmd = ATA_CMD_READ_SECTORS then start_read v
     else if cmd = ATA_CMD_WRITE_SECTORS then start_write v
     else if cmd = ATA_CMD_IDENTIFY then start_identify v
     else v)"

definition drive_ports :: "drive ports" where
  "drive_ports = \<lparr>
     inb_port = (\<lambda>port v. if port = ATA_PRIMARY_IO + ATA_STATUS then (drive_status v, busy_tick v)
                          else (dr_regs v (port - ATA_PRIMARY_IO), v)),
     outb_port = (\<lambda>port b v. if port = ATA_PRIMARY_IO + ATA_COMMAND then drive_command b v
                             else if dr_phase v = Idle then v\<lparr>dr_regs := (dr_regs v)(port - ATA_PRIMARY_IO := b)\<rparr> else v),
     inw_port = (\<lambda>port v. case dr_phase v of Data_in (w # ws) k \<Rightarrow> (w, take_word v) | _ \<Rightarrow> (0, v)),
     outw_port = (\<lambda>port w v. give_word w v)\<rparr>"

lemma drive_is_pio: "pio_drive drive_ports (\<lambda>v. v)"
proof unfold_locales
  fix r v :: "16 word" and b :: u8 and c :: drive
  assume a: "dr_phase c = Idle" "dr_wait c = 0" "2 \<le> r" "r \<le> 6"
  have "ATA_PRIMARY_IO + r \<noteq> ATA_PRIMARY_IO + ATA_COMMAND" using a(4) by (auto simp: ATA_COMMAND_def)
  then show "outb_port drive_ports (ATA_PRIMARY_IO + r) b c = c\<lparr>dr_regs := (dr_regs c)(r := b)\<rparr>"
    using a(1) by (simp add: drive_ports_def)
qed (auto simp: drive_ports_def drive_status_def drive_command_def ata_bits ATA_CMD_READ_SECTORS_def
    ATA_CMD_WRITE_SECTORS_def ATA_CMD_IDENTIFY_def split: if_splits)

interpretation pd: pio_drive drive_ports "\<lambda>v. v"
  by (rule drive_is_pio)

section \<open>The driver behind the file system\<close>


definition blank_drive :: drive where
  "blank_drive = \<lparr>dr_regs = (\<lambda>_. 0), dr_phase = Idle, dr_lba = 0, dr_wait = 0, dr_media = (\<lambda>_. replicate 512 0),
     dr_delay = (\<lambda>b. if b = 9 then 100000 else 3), dr_settle = 5, dr_ident = replicate 256 0\<rparr>"

text \<open>Any volume with the sectors of a drive; only the disk matters here.\<close>

definition drive_volume :: "fatfs \<Rightarrow> drive \<Rightarrow> fatfs" where
  "drive_volume s v = s\<lparr>disk := dr_media v, disk_bad := (\<lambda>b. 100000 \<le> dr_delay v b)\<rparr>"


text \<open>
  Initialisation ends on a drive at rest, and takes the number of sectors from words 60 and 61 of the identification.
\<close>

theorem ata_initialize_correct:
  assumes "pio_drive io view" "dr_phase (view c) = Idle" "dr_wait (view c) = 0" "length (dr_ident (view c)) = 256"
  shows "\<exists>d c'. ata_initialize io ata_driver_new c = Some (True, d, c') \<and> m_initialized d \<and>
    m_sectors d = ucast (dr_ident (view c) ! 60) OR push_bit 16 (ucast (dr_ident (view c) ! 61)) \<and>
    dr_phase (view c') = Idle \<and> dr_wait (view c') = 0 \<and> dr_media (view c') = dr_media (view c)"
  using pio_drive.initialize_spec [OF assms(1) _ _ assms(2-4), of ata_driver_new]
  by (auto simp: ata_driver_new_def store_identity_def)

text \<open>
  The driver looks at neither the error nor the data-request bit after a command: on a controller whose
  status always shows ready and not busy, whatever else it shows, every read reports success.
\<close>

lemma wait_loop_at_once:
  "cond (fst (inb_port io port c)) \<Longrightarrow> wait_loop io port cond 0 c = (True, snd (inb_port io port c))"
  by (simp add: wait_loop.simps case_prod_beta)

theorem read_errors_ignored:
  assumes "\<And>port c. fst (inb_port io port c) AND 0xC0 = 0x40" "m_initialized d"
  shows "fst (read_sectors io lba sectors d c)"
proof -
  have w: "wait_not_busy io d c = (True, snd (inb_port io (m_io_base d + ATA_STATUS) c))"
      "wait_ready io d c = (True, snd (inb_port io (m_io_base d + ATA_STATUS) c))" for c
  proof -
    let ?st = "fst (inb_port io (m_io_base d + ATA_STATUS) c)"
    have "?st AND 0x80 = (?st AND 0xC0) AND 0x80" "?st AND 0x40 = (?st AND 0xC0) AND 0x40"
      by (simp_all add: and.assoc)
    then have "?st AND 0x80 = 0" "?st AND 0x40 \<noteq> 0"
      using assms(1) [of "m_io_base d + ATA_STATUS" c] by simp_all
    then show "wait_not_busy io d c = (True, snd (inb_port io (m_io_base d + ATA_STATUS) c))"
        "wait_ready io d c = (True, snd (inb_port io (m_io_base d + ATA_STATUS) c))"
      by (simp_all add: wait_not_busy_def wait_ready_def wait_loop_at_once ata_bits)
  qed
  have "fst (read_loop io d n c)" for n c
    by (induction n arbitrary: c) (simp_all add: w case_prod_beta)
  then show ?thesis using assms(2) by (simp add: read_sectors_def w)
qed

theorem read_errors_ignored_witness:
  "\<forall>d. fst (read_sectors \<lparr>inb_port = (\<lambda>_ c. (0x41, c)), outb_port = (\<lambda>_ _ c. c), inw_port = (\<lambda>_ c. (0, c)),
     outw_port = (\<lambda>_ _ c. c)\<rparr> 5 1 (d\<lparr>m_initialized := True\<rparr>) ())"
  by (intro allI read_errors_ignored) simp_all

end
