(* ===== verification/Multiboot.thy ===== *)
theory Multiboot
  imports Elf_Loader
begin

text \<open>
  What the kernel does with the boot loader's information block, \<open>core/multiboot2.cpp\<close>: the check of the block,
  the walk over its tags, and the messages on the top of the screen. The block is read from the byte memory of \<open>Klib\<close>;
  the screen memory the messages go to is a state of its own, so a block that overlaps it is outside the model.
  The walk of \<open>init_multiboot\<close> has no check of its own: that it ends rests on the validation before it.
\<close>

section \<open>Messages\<close>

record boot_info =
  multiboot_info_addr :: u64
  memory_map :: u64
  log_vga :: "nat \<Rightarrow> u16"
  log_y :: nat

primrec put_message :: "nat \<Rightarrow> bytes \<Rightarrow> (nat \<Rightarrow> u16) \<Rightarrow> nat \<Rightarrow> u16" where
  "put_message k [] vga = vga"
| "put_message k (c # msg) vga = put_message (k + 1) msg (vga(k := 0x0F00 OR ucast c))"

definition hex_char :: "u64 \<Rightarrow> u8" where
  "hex_char v = cstr ''0123456789ABCDEF'' ! unat (v AND 0xF)"

definition put_hex :: "nat \<Rightarrow> u64 \<Rightarrow> (nat \<Rightarrow> u16) \<Rightarrow> nat \<Rightarrow> u16" where
  "put_hex row value vga =
     fold (\<lambda>i vga. vga(row + (70 - i) := 0x0F00 OR ucast (hex_char (drop_bit (i * 4) value)))) [0..<16] vga"

definition early_print :: "bytes \<Rightarrow> u64 \<Rightarrow> boot_info \<Rightarrow> boot_info" where
  "early_print msg value s =
    (let y = log_y s;
         vga = put_message (y * 80) (take 80 msg) (log_vga s);
         vga = (if value \<noteq> 0 then put_hex (y * 80) value vga else vga);
         y = y + 1
     in s\<lparr>log_vga := vga, log_y := (if y \<ge> 25 then 0 else y)\<rparr>)"

section \<open>Validation\<close>

abbreviation tag_type :: "mem \<Rightarrow> u64 \<Rightarrow> u32" where "tag_type m a \<equiv> get32 m a"
abbreviation tag_size :: "mem \<Rightarrow> u64 \<Rightarrow> u32" where "tag_size m a \<equiv> get32 m (a + 4)"

definition end_tag :: "mem \<Rightarrow> u64 \<Rightarrow> bool" where
  "end_tag m a \<longleftrightarrow> tag_type m a = 0 \<and> tag_size m a = 8"

definition next_tag :: "mem \<Rightarrow> u64 \<Rightarrow> u64" where
  "next_tag m a = (a + ucast (tag_size m a) + 7) AND NOT 7"

lemma unat_ucast_u32 [simp]: "unat (ucast (w :: u32) :: u64) = unat w"
proof -
  have "unat w < 4294967296" by (rule unat_u32_lt)
  then have "unat w < 2 ^ 64" by (rule less_trans) simp
  then show ?thesis by (simp add: unsigned_ucast_eq take_bit_nat_eq_self)
qed

lemma unat_next_tag:
  assumes "a \<le> 0xFFFFFFF7"
  shows "unat (next_tag m a) = (unat a + unat (tag_size m a) + 7) div 8 * 8"
proof -
  have a: "unat a \<le> 0xFFFFFFF7" using assms by (simp add: word_le_nat_alt)
  have t: "unat a + unat (tag_size m a) < 0x200000000" using a unat_u32_lt [of "tag_size m a"] by linarith
  let ?w = "a + ucast (tag_size m a) + 7 :: u64"
  have "unat (a + ucast (tag_size m a)) = unat a + unat (tag_size m a)"
    using t by (subst unat_plus_u64) (simp_all del: unat_u32_lt)
  then have w: "unat ?w = unat a + unat (tag_size m a) + 7"
    using t by (subst unat_plus_u64) (simp_all del: unat_u32_lt)
  have "(7 :: u64) = mask 3" by (simp add: mask_eq_exp_minus_1)
  then have "next_tag m a = ?w AND NOT (mask 3)" by (simp only: next_tag_def)
  then have "unat (next_tag m a) = unat ?w - unat ?w mod 8" by (simp add: unat_and_not_mask)
  then show ?thesis unfolding w by (simp add: minus_mod_eq_div_mult)
qed

lemma next_tag_greater:
  assumes "\<not> a > 0xFFFFFFF7" "\<not> tag_size m a < 8"
  shows "unat a < unat (next_tag m a)"
proof -
  have "unat (next_tag m a) = (unat a + unat (tag_size m a) + 7) div 8 * 8"
    using assms(1) by (intro unat_next_tag) (simp add: not_less)
  moreover have "8 \<le> unat (tag_size m a)" using assms(2) by (simp add: word_less_nat_alt)
  ultimately show ?thesis by linarith
qed

text \<open>
  The loop over the tags; the flag is \<open>found_valid_tag\<close>. The comparison with \<^verbatim>\<open>0xFFFFFFFF - tag->size - 7\<close> is made in
  32 bits, which wraps for the largest sizes.
\<close>

function validate_tags :: "mem \<Rightarrow> u64 \<Rightarrow> u64 \<Rightarrow> bool \<Rightarrow> boot_info \<Rightarrow> bool \<times> boot_info" where
  "validate_tags m limit tag_addr found s =
    (if tag_addr < limit then
       if tag_addr > 0xFFFFFFF7 then (False, early_print (cstr ''FATAL: Tag address out of range:'') tag_addr s)
       else let s = early_print (cstr ''Tag type:'') (ucast (tag_type m tag_addr)) s in
       if tag_size m tag_addr < 8
       then (False, early_print (cstr ''ERROR: Invalid tag size, stopping'') (ucast (tag_size m tag_addr)) s)
       else let s = early_print (cstr ''Tag size:'') (ucast (tag_size m tag_addr)) s in
       if end_tag m tag_addr
       then (True, early_print (cstr ''Multiboot validation complete'') 0
                     (early_print (cstr ''Found end tag - valid structure'') 0 s))
       else if tag_addr > ucast (0xFFFFFFFF - tag_size m tag_addr - 7)
       then (False, early_print (cstr ''FATAL: Tag size overflow'') 0 s)
       else validate_tags m limit (next_tag m tag_addr) True s
     else if \<not> found then (False, early_print (cstr ''FATAL: No valid tags found'') 0 s)
     else (True, early_print (cstr ''Multiboot validation complete'') 0 s))"
  by pat_completeness auto
termination
proof (relation "measure (\<lambda>(m, limit, tag_addr, found, s). unat limit - unat tag_addr)"; simp)
  fix m :: mem and limit tag_addr :: u64
  assume a: "tag_addr < limit" "\<not> 4294967287 < tag_addr" and t: "\<not> tag_size m tag_addr < 8"
  have "unat tag_addr < unat (next_tag m tag_addr)" using a(2) t by (rule next_tag_greater)
  then show "unat limit - unat (next_tag m tag_addr) < unat limit - unat tag_addr"
    using a(1) by (simp add: word_less_nat_alt)
qed

declare validate_tags.simps [simp del]

definition validate_multiboot_info :: "mem \<Rightarrow> u64 \<Rightarrow> boot_info \<Rightarrow> bool \<times> boot_info" where
  "validate_multiboot_info m mb_info_addr s =
    (if mb_info_addr = 0 then (False, early_print (cstr ''FATAL: Multiboot info address is zero'') 0 s)
     else let s = early_print (cstr ''Multiboot info addr:'') mb_info_addr s in
     if mb_info_addr > 0xFFFFFFF7 then (False, early_print (cstr ''FATAL: Multiboot info address out of range'') 0 s)
     else let total_size = get32 m mb_info_addr in
     if total_size < 8 then (False, early_print (cstr ''FATAL: Invalid multiboot info size:'') (ucast total_size) s)
     else let s = early_print (cstr ''Multiboot info size:'') (ucast total_size) s in
     if mb_info_addr AND 7 \<noteq> 0 then (False, early_print (cstr ''FATAL: Multiboot info misaligned:'') mb_info_addr s)
     else let s = (if total_size > 0x10000
                   then early_print (cstr ''WARNING: Unusually large multiboot size:'') (ucast total_size) s else s)
     in validate_tags m (mb_info_addr + ucast total_size) (mb_info_addr + 8) False s)"

section \<open>Initialisation\<close>

definition MemoryMap :: u32 where "MemoryMap = 6"

definition note_memory_map :: "mem \<Rightarrow> u64 \<Rightarrow> boot_info \<Rightarrow> boot_info" where
  "note_memory_map m tag s =
    (if tag_type m tag = MemoryMap then
       let s = early_print (cstr ''Found memory map tag'') 0 (s\<lparr>memory_map := tag\<rparr>);
           entry_size = get32 m (tag + 8)
       in if entry_size > 0
          then early_print (cstr ''Memory map entry count:'') ((ucast (tag_size m tag) - 16) div ucast entry_size)
                 (early_print (cstr ''Memory map entry size:'') (ucast entry_size) s)
          else s
     else s)"

partial_function (option) scan_tags :: "mem \<Rightarrow> u64 \<Rightarrow> u64 \<Rightarrow> boot_info \<Rightarrow> boot_info option" where
  [code]: "scan_tags m limit tag_addr s =
    (if tag_addr < limit then
       if end_tag m tag_addr then Some s
       else scan_tags m limit (next_tag m tag_addr) (note_memory_map m tag_addr s)
     else Some s)"

definition init_multiboot :: "mem \<Rightarrow> u64 \<Rightarrow> boot_info \<Rightarrow> boot_info option" where
  "init_multiboot m mb_info_addr s =
    (let s = early_print (cstr ''Info address:'') mb_info_addr (early_print (cstr ''Initializing multiboot'') 0 s);
         s = s\<lparr>multiboot_info_addr := mb_info_addr\<rparr>
     in if mb_info_addr = 0 then Some (early_print (cstr ''FATAL: Null multiboot info address'') 0 s)
        else let (ok, s) = validate_multiboot_info m mb_info_addr s in
        if \<not> ok then Some (early_print (cstr ''FATAL: Multiboot validation failed'') 0 s)
        else map_option (early_print (cstr ''Multiboot init complete'') 0)
               (scan_tags m (mb_info_addr + ucast (get32 m mb_info_addr)) (mb_info_addr + 8) s))"

definition get_memory_map :: "boot_info \<Rightarrow> u64" where
  "get_memory_map s = memory_map s"

section \<open>The walk\<close>

text \<open>The tags from an address on, up to the end tag or the end of the block.\<close>

inductive tag_walk :: "mem \<Rightarrow> u64 \<Rightarrow> u64 \<Rightarrow> u64 list \<Rightarrow> bool" for m :: mem and limit :: u64 where
  walk_over: "limit \<le> a \<Longrightarrow> tag_walk m limit a []"
| walk_end: "a < limit \<Longrightarrow> end_tag m a \<Longrightarrow> tag_walk m limit a []"
| walk_tag: "a < limit \<Longrightarrow> \<not> end_tag m a \<Longrightarrow> tag_walk m limit (next_tag m a) as \<Longrightarrow> tag_walk m limit a (a # as)"

lemma tag_walk_unique: "tag_walk m limit a as \<Longrightarrow> tag_walk m limit a bs \<Longrightarrow> as = bs"
proof (induction arbitrary: bs rule: tag_walk.induct)
  case (walk_over a)
  from walk_over(2,1) show ?case by cases (simp_all add: leD)
next
  case (walk_end a)
  from walk_end(3,1,2) show ?case by cases simp_all
next
  case (walk_tag a as)
  from walk_tag.prems show ?case
  proof cases
    case walk_over
    with walk_tag.hyps(1) show ?thesis by (simp add: leD)
  next
    case walk_end
    with walk_tag.hyps(2) show ?thesis by simp
  next
    case (walk_tag cs)
    from walk_tag(4) have "as = cs" by (rule walk_tag.IH)
    with walk_tag(1) show ?thesis by simp
  qed
qed

lemma early_print_map [simp]: "memory_map (early_print msg v s) = memory_map s"
  by (simp add: early_print_def Let_def)

lemma early_print_addr [simp]: "multiboot_info_addr (early_print msg v s) = multiboot_info_addr s"
  by (simp add: early_print_def Let_def)

lemma validate_tags_map: "memory_map (snd (validate_tags m limit a found s)) = memory_map s"
proof (induction m limit a found s rule: validate_tags.induct)
  case (1 m limit a found s)
  show ?case
    using 1 by (subst validate_tags.simps) (simp add: Let_def)
qed

lemma and_7_unat: "(a :: u64) AND 7 = 0 \<longleftrightarrow> unat a mod 8 = 0"
proof -
  have m: "(7 :: u64) = mask 3" by (simp add: mask_eq_exp_minus_1)
  have "a AND 7 = 0 \<longleftrightarrow> unat (a AND mask 3) = 0" unfolding m by (rule unat_eq_zero [symmetric])
  then show ?thesis by (simp add: unat_and_mask)
qed

lemma add_8_aligned: "a AND 7 = 0 \<Longrightarrow> (a + 8 :: u64) AND 7 = 0"
  by (simp add: and_7_unat unat_word_ariths mod_mod_cancel)

lemma next_tag_aligned: "next_tag m a AND 7 = 0"
  by (simp add: next_tag_def and.assoc)

text \<open>What the validation has seen of a tag.\<close>

definition sound_tag :: "mem \<Rightarrow> u64 \<Rightarrow> bool" where
  "sound_tag m a \<longleftrightarrow> a \<le> 0xFFFFFFF7 \<and> a AND 7 = 0 \<and> 8 \<le> tag_size m a"

lemma validate_tags_walk:
  "fst (validate_tags m limit a found s) \<Longrightarrow> a AND 7 = 0 \<Longrightarrow>
   \<exists>as. tag_walk m limit a as \<and> (\<forall>b \<in> set as. a \<le> b \<and> b < limit \<and> sound_tag m b) \<and> sorted_wrt (<) as"
proof (induction m limit a found s rule: validate_tags.induct)
  case (1 m limit a found s)
  show ?case
  proof (cases "a < limit \<and> \<not> end_tag m a")
    case False
    then have "tag_walk m limit a []" by (cases "a < limit") (auto intro: walk_over walk_end simp: not_less)
    then show ?thesis by (intro exI [of _ "[]"]) simp
  next
    case True
    have ok: "\<not> a > 0xFFFFFFF7" "\<not> tag_size m a < 8" "\<not> a > ucast (0xFFFFFFFF - tag_size m a - 7)"
      using 1(2) True by (auto simp: validate_tags.simps [of m limit a] Let_def split: if_splits)
    let ?s = "early_print (cstr ''Tag size:'') (ucast (tag_size m a))
      (early_print (cstr ''Tag type:'') (ucast (tag_type m a)) s)"
    have "validate_tags m limit a found s = validate_tags m limit (next_tag m a) True ?s"
      using True ok by (simp add: validate_tags.simps [of m limit a] Let_def)
    then have v: "fst (validate_tags m limit (next_tag m a) True ?s)" using 1(2) by simp
    obtain as where as: "tag_walk m limit (next_tag m a) as" "sorted_wrt (<) as"
        "\<forall>b \<in> set as. next_tag m a \<le> b \<and> b < limit \<and> sound_tag m b"
      using 1(1) [OF _ ok(1) refl ok(2) refl _ ok(3) v next_tag_aligned] True by blast
    have "a < next_tag m a" using next_tag_greater [OF ok(1,2)] by (simp add: word_less_nat_alt)
    then have "\<forall>b \<in> set as. a < b" using as(3) by (meson order.strict_trans2)
    then have "\<forall>b \<in> set (a # as). a \<le> b \<and> b < limit \<and> sound_tag m b" "sorted_wrt (<) (a # as)"
      using as True ok 1(3) by (auto simp: sound_tag_def not_less)
    moreover have "tag_walk m limit a (a # as)" using True as(1) by (intro walk_tag) simp_all
    ultimately show ?thesis by blast
  qed
qed

lemma note_memory_map_map [simp]:
  "memory_map (note_memory_map m a s) = (if tag_type m a = MemoryMap then a else memory_map s)"
  by (simp add: note_memory_map_def Let_def)

lemma note_memory_map_addr [simp]: "multiboot_info_addr (note_memory_map m a s) = multiboot_info_addr s"
  by (simp add: note_memory_map_def Let_def)

text \<open>The address of the last element with a property, or the given address.\<close>

definition last_with :: "('a \<Rightarrow> bool) \<Rightarrow> 'a list \<Rightarrow> 'a \<Rightarrow> 'a" where
  "last_with P xs d = List.last (d # filter P xs)"

lemma scan_tags_walk:
  "tag_walk m limit a as \<Longrightarrow>
   \<exists>s'. scan_tags m limit a s = Some s' \<and> memory_map s' = last_with (\<lambda>b. tag_type m b = MemoryMap) as (memory_map s) \<and>
     multiboot_info_addr s' = multiboot_info_addr s"
proof (induction arbitrary: s rule: tag_walk.induct)
  case (walk_tag a as)
  then show ?case
    using walk_tag.IH [of "note_memory_map m a s"]
    by (subst scan_tags.simps) (auto simp: last_with_def)
next
  case (walk_over a)
  then show ?case by (subst scan_tags.simps) (simp add: last_with_def leD)
next
  case (walk_end a)
  then show ?case by (subst scan_tags.simps) (simp add: last_with_def)
qed

lemma validate_tags_log: "fst (validate_tags m limit a found s) = fst (validate_tags m limit a found t)"
proof (induction m limit a found s arbitrary: t rule: validate_tags.induct)
  case (1 m limit a found s)
  let ?f = "\<lambda>s. early_print (cstr ''Tag size:'') (ucast (tag_size m a)) (early_print (cstr ''Tag type:'') (ucast (tag_type m a)) s)"
  show ?case
  proof (cases "a < limit \<and> \<not> a > 0xFFFFFFF7 \<and> \<not> tag_size m a < 8 \<and> \<not> end_tag m a \<and> \<not> a > ucast (0xFFFFFFFF - tag_size m a - 7)")
    case True
    then have e: "validate_tags m limit a found r = validate_tags m limit (next_tag m a) True (?f r)" for r
      by (simp add: validate_tags.simps [of m limit a] Let_def)
    show ?thesis unfolding e by (rule 1) (use True in simp_all)
  next
    case False
    then show ?thesis by (auto simp: validate_tags.simps [of m limit a] Let_def)
  qed
qed

lemma validate_log: "fst (validate_multiboot_info m a s) = fst (validate_multiboot_info m a t)"
  unfolding validate_multiboot_info_def Let_def by auto (metis validate_tags_log)+

lemma validate_map: "memory_map (snd (validate_multiboot_info m a s)) = memory_map s"
  by (simp add: validate_multiboot_info_def Let_def validate_tags_map)

lemma validate_tags_addr: "multiboot_info_addr (snd (validate_tags m limit a found s)) = multiboot_info_addr s"
proof (induction m limit a found s rule: validate_tags.induct)
  case (1 m limit a found s)
  show ?case
    using 1 by (subst validate_tags.simps) (simp add: Let_def)
qed

lemma validate_addr: "multiboot_info_addr (snd (validate_multiboot_info m a s)) = multiboot_info_addr s"
  by (simp add: validate_multiboot_info_def Let_def validate_tags_addr)

lemma validated_walk:
  assumes "fst (validate_multiboot_info m a s)"
  shows "\<exists>as. tag_walk m (a + ucast (get32 m a)) (a + 8) as \<and>
    (\<forall>b \<in> set as. a + 8 \<le> b \<and> b < a + ucast (get32 m a) \<and> sound_tag m b) \<and> sorted_wrt (<) as"
proof -
  have "a AND 7 = 0" and v: "\<exists>t. fst (validate_tags m (a + ucast (get32 m a)) (a + 8) False t)"
    using assms by (auto simp: validate_multiboot_info_def Let_def split: if_splits)
  moreover have "(a + 8) AND 7 = 0" if "a AND 7 = 0"
    using that by (metis add_8_aligned)
  ultimately show ?thesis using validate_tags_walk by blast
qed


definition block_example :: mem where
  "block_example = poke (\<lambda>_. 0) 0x1000 [32,0,0,0, 0,0,0,0, 6,0,0,0, 16,0,0,0, 24,0,0,0, 0,0,0,0, 0,0,0,0, 8,0,0,0]"

lemma block_example_reads:
  "get32 block_example 0x1000 = 32" "get32 block_example 0x1008 = 6" "get32 block_example 0x100C = 16"
  "get32 block_example 0x1018 = 0" "get32 block_example 0x101C = 8"
  by (simp_all add: block_example_def get32_def get16_def)

lemma block_example_walk:
  "end_tag block_example 0x1018" "\<not> end_tag block_example 0x1008" "next_tag block_example 0x1008 = 0x1018"
  by (simp_all add: end_tag_def next_tag_def block_example_reads)

lemma block_example_valid: "fst (validate_multiboot_info block_example 0x1000 t)"
  by (simp add: validate_multiboot_info_def Let_def block_example_reads block_example_walk validate_tags.simps)


section \<open>The messages stay on the screen\<close>

lemma put_message_cell:
  "put_message k msg vga j = (if k \<le> j \<and> j < k + length msg then 0x0F00 OR ucast (msg ! (j - k)) else vga j)"
  by (induction msg arbitrary: k vga) (auto simp: nth_Cons')

lemma put_hex_cell:
  "put_hex row v vga j =
     (if row + 55 \<le> j \<and> j \<le> row + 70 then 0x0F00 OR ucast (hex_char (drop_bit ((row + 70 - j) * 4) v)) else vga j)"
proof -
  have "fold (\<lambda>i vga. vga(row + (70 - i) := 0x0F00 OR ucast (hex_char (drop_bit (i * 4) v)))) [0..<n] vga j =
      (if row + 70 < n + j \<and> j \<le> row + 70 then 0x0F00 OR ucast (hex_char (drop_bit ((row + 70 - j) * 4) v)) else vga j)"
    if "n \<le> 70" for n
    using that
  proof (induction n)
    case (Suc n)
    then have "j = row + (70 - n) \<longleftrightarrow> row + 70 - j = n \<and> j \<le> row + 70" by linarith
    with Suc show ?case by auto
  qed auto
  from this [of 16] show ?thesis by (auto simp: put_hex_def)
qed

text \<open>
  A message takes one row: its characters from the left, the digits of a non-zero value in columns 55 to 70 over them, and every
  other cell as it was; the next message goes to the row below, after the last row to the first.
\<close>

theorem early_print_correct:
  assumes "log_y s < 25"
  shows "log_y (early_print msg v s) = (log_y s + 1) mod 25 \<and>
    (\<forall>row < 25. \<forall>col < 80. log_vga (early_print msg v s) (row * 80 + col) =
       (if row \<noteq> log_y s then log_vga s (row * 80 + col)
        else if v \<noteq> 0 \<and> 55 \<le> col \<and> col \<le> 70 then 0x0F00 OR ucast (hex_char (drop_bit ((70 - col) * 4) v))
        else if col < length msg then 0x0F00 OR ucast (msg ! col)
        else log_vga s (row * 80 + col))) \<and>
    (\<forall>k \<ge> 2000. log_vga (early_print msg v s) k = log_vga s k)"
proof (intro conjI allI impI)
  show "log_y (early_print msg v s) = (log_y s + 1) mod 25"
    using assms by (auto simp: early_print_def Let_def mod_Suc)
  show "log_vga (early_print msg v s) k = log_vga s k" if "2000 \<le> k" for k
  proof -
    have "\<not> k < log_y s * 80 + min (length msg) 80" "\<not> k \<le> log_y s * 80 + 70" using assms that by linarith+
    then show ?thesis by (simp add: early_print_def Let_def put_message_cell put_hex_cell)
  qed
  fix row col :: nat
  assume rc: "row < 25" "col < 80"
  show "log_vga (early_print msg v s) (row * 80 + col) =
       (if row \<noteq> log_y s then log_vga s (row * 80 + col)
        else if v \<noteq> 0 \<and> 55 \<le> col \<and> col \<le> 70 then 0x0F00 OR ucast (hex_char (drop_bit ((70 - col) * 4) v))
        else if col < length msg then 0x0F00 OR ucast (msg ! col)
        else log_vga s (row * 80 + col))"
  proof (cases "row = log_y s")
    case True
    then show ?thesis using rc(2) by (simp add: early_print_def Let_def put_message_cell put_hex_cell)
  next
    case False
    then have "row * 80 + col < log_y s * 80 \<or> log_y s * 80 + 80 \<le> row * 80 + col" using rc(2) by linarith
    then show ?thesis using False by (auto simp: early_print_def Let_def put_message_cell put_hex_cell)
  qed
qed

theorem early_print_correct_witness:
  "log_y (early_print (cstr ''Tag size:'') 8 \<lparr>multiboot_info_addr = 0, memory_map = 0, log_vga = (\<lambda>_. 0), log_y = 24\<rparr>) = 0"
  using early_print_correct [of "\<lparr>multiboot_info_addr = 0, memory_map = 0, log_vga = (\<lambda>_. 0), log_y = 24\<rparr>"
    "cstr ''Tag size:''" 8] by simp

end
