(* ===== verification/Acpi.thy ===== *)
theory Acpi
  imports Multiboot
begin

text \<open>
  The search for the firmware tables, \<open>hw/acpi.cpp\<close>. Memory is the byte memory of \<open>Klib\<close>, read at the addresses the
  code reads; the tables themselves are read through the window at \<open>0xFFFF800000000000\<close>, into which \<open>map_and_verify_table\<close>
  maps them page by page with the paging model. The structures of \<open>acpi.hpp\<close> are not packed: their fields are read at the
  offsets the System V layout gives them, which for the pointers of the XSDT and the size of the RSDP are not those of
  the ACPI standard. Messages are left out.
\<close>

record acpi =
  g_rsdp :: u64
  g_rsdt :: u64
  g_xsdt :: u64
  g_madt :: u64
  g_mcfg :: u64

text \<open>The globals before \<open>init_acpi\<close>.\<close>

definition acpi_start :: acpi where
  "acpi_start = \<lparr>g_rsdp = nullptr, g_rsdt = nullptr, g_xsdt = nullptr, g_madt = nullptr, g_mcfg = nullptr\<rparr>"

section \<open>Structures\<close>

definition sizeof_rsdp :: nat where "sizeof_rsdp = 40"
definition sizeof_sdt_header :: u64 where "sizeof_sdt_header = 36"

definition rsdp_revision :: "mem \<Rightarrow> u64 \<Rightarrow> u8" where "rsdp_revision m a = m (a + 15)"
definition rsdp_rsdt_address :: "mem \<Rightarrow> u64 \<Rightarrow> u32" where "rsdp_rsdt_address m a = get32 m (a + 16)"
definition rsdp_xsdt_address :: "mem \<Rightarrow> u64 \<Rightarrow> u64" where "rsdp_xsdt_address m a = get64 m (a + 24)"

definition table_length :: "mem \<Rightarrow> u64 \<Rightarrow> u32" where "table_length m a = get32 m (a + 4)"
definition rsdt_pointer :: "mem \<Rightarrow> u64 \<Rightarrow> nat \<Rightarrow> u64" where
  "rsdt_pointer m a i = ucast (get32 m (a + 36 + 4 * of_nat i))"
definition xsdt_pointer :: "mem \<Rightarrow> u64 \<Rightarrow> nat \<Rightarrow> u64" where
  "xsdt_pointer m a i = get64 m (a + 40 + 8 * of_nat i)"

text \<open>\<open>memcmp\<close> of the bytes at an address with a literal.\<close>

definition signature_is :: "bytes \<Rightarrow> mem \<Rightarrow> u64 \<Rightarrow> bool" where
  "signature_is sig m a \<longleftrightarrow> bytes_at m a (length sig) = sig"

definition APIC_signature :: bytes where "APIC_signature = cstr ''APIC''"
definition MCFG_signature :: bytes where "MCFG_signature = cstr ''MCFG''"
definition RSDP_signature :: bytes where "RSDP_signature = cstr ''RSD PTR ''"

primrec byte_sum :: "mem \<Rightarrow> u64 \<Rightarrow> nat \<Rightarrow> u8" where
  "byte_sum m a 0 = 0"
| "byte_sum m a (Suc n) = byte_sum m a n + m (a + of_nat n)"

section \<open>The root pointer\<close>

definition rsdp_at :: "mem \<Rightarrow> u64 \<Rightarrow> bool" where
  "rsdp_at m a \<longleftrightarrow> signature_is RSDP_signature m a \<and> byte_sum m a 20 = 0 \<and>
     (rsdp_revision m a \<ge> 2 \<longrightarrow> byte_sum m a sizeof_rsdp = 0)"

text \<open>\<open>None\<close> when the address wraps around below the end.\<close>

partial_function (option) find_rsdp :: "mem \<Rightarrow> u64 \<Rightarrow> u64 \<Rightarrow> u64 option" where
  [code]: "find_rsdp m addr limit =
    (if addr < limit then if rsdp_at m addr then Some addr else find_rsdp m (addr + 16) limit
     else Some nullptr)"

section \<open>Tables\<close>

definition verify_table_checksum :: "mem \<Rightarrow> u64 \<Rightarrow> bool" where
  "verify_table_checksum m table \<longleftrightarrow> byte_sum m table (unat (table_length m table)) = 0"

definition window :: u64 where "window = 0xFFFF800000000000"

function map_rest :: "u64 \<Rightarrow> u64 \<Rightarrow> nat \<Rightarrow> nat \<Rightarrow> vmm \<Rightarrow> vmm" where
  "map_rest virt phys len offset v =
    (if offset < len
     then map_rest virt phys len (offset + 4096) (map_page (virt + of_nat offset) (phys + of_nat offset) True v)
     else v)"
  by pat_completeness auto
termination
  by (relation "measure (\<lambda>(virt, phys, len, offset, v). len - offset)") auto

declare map_rest.simps [simp del]

definition map_and_verify_table :: "mem \<Rightarrow> u64 \<Rightarrow> vmm \<Rightarrow> u64 \<times> vmm" where
  "map_and_verify_table m phys_addr v =
    (let virt_addr = phys_addr + window;
         v = map_page virt_addr phys_addr True v;
         v = map_rest virt_addr phys_addr (unat (table_length m virt_addr)) 4096 v
     in (if verify_table_checksum m virt_addr then virt_addr else nullptr, v))"

text \<open>The number of entries is an \<^verbatim>\<open>int\<close>: negative, and the loops do nothing, for a length below the header's.\<close>

definition table_entries :: "mem \<Rightarrow> u64 \<Rightarrow> u64 \<Rightarrow> nat" where
  "table_entries m table pointer_size =
     nat (sint (ucast ((ucast (table_length m table) - sizeof_sdt_header) div pointer_size) :: 32 word))"

definition note_table :: "mem \<Rightarrow> u64 \<Rightarrow> acpi \<Rightarrow> acpi" where
  "note_table m table s =
    (if table = nullptr then s
     else if signature_is APIC_signature m table then s\<lparr>g_madt := table\<rparr>
     else if signature_is MCFG_signature m table then s\<lparr>g_mcfg := table\<rparr>
     else s)"

definition scan_entry :: "mem \<Rightarrow> u64 \<Rightarrow> acpi \<times> vmm \<Rightarrow> acpi \<times> vmm" where
  "scan_entry m pointer st =
    (case st of (s, v) \<Rightarrow> let (table, v) = map_and_verify_table m pointer v in (note_table m table s, v))"

definition scan_pointers :: "mem \<Rightarrow> u64 list \<Rightarrow> acpi \<times> vmm \<Rightarrow> acpi \<times> vmm" where
  "scan_pointers m ps st = fold (scan_entry m) ps st"

definition rsdt_pointers :: "mem \<Rightarrow> u64 \<Rightarrow> u64 list" where
  "rsdt_pointers m table = map (rsdt_pointer m table) [0..<table_entries m table 4]"

definition xsdt_pointers :: "mem \<Rightarrow> u64 \<Rightarrow> u64 list" where
  "xsdt_pointers m table = map (xsdt_pointer m table) [0..<table_entries m table 8]"

definition ebda_address :: "mem \<Rightarrow> u64" where
  "ebda_address m =
    (let ebda_segment = get16 m 0x40E
     in if ebda_segment > 0 \<and> ebda_segment < 0xA000 then push_bit 4 (ucast ebda_segment) else 0)"

definition find_root :: "mem \<Rightarrow> u64 option" where
  "find_root m = do {
     r \<leftarrow> (if ebda_address m > 0 \<and> ebda_address m < 0x100000
         then find_rsdp m (ebda_address m) (ebda_address m + 1024) else Some nullptr);
     if r = nullptr then find_rsdp m 0xE0000 0x100000 else Some r
   }"

text \<open>The two branches of \<open>init_acpi\<close>, which differ in the global they set and in the size of the pointers.\<close>

definition take_root :: "mem \<Rightarrow> (u64 \<Rightarrow> acpi \<Rightarrow> acpi) \<Rightarrow> (mem \<Rightarrow> u64 \<Rightarrow> u64 list) \<Rightarrow> u64 \<Rightarrow> acpi \<times> vmm \<Rightarrow> bool \<times> acpi \<times> vmm" where
  "take_root m set_root pointers phys_addr st =
    (case st of (s, v) \<Rightarrow>
       let (t, v) = map_and_verify_table m phys_addr v;
           s = set_root t s
       in if t = nullptr then (False, s, v)
          else let (s, v) = scan_pointers m (pointers m t) (s, v) in (g_madt s \<noteq> nullptr, s, v))"

definition init_acpi :: "mem \<Rightarrow> acpi \<times> vmm \<Rightarrow> (bool \<times> acpi \<times> vmm) option" where
  "init_acpi m st =
    (case st of (s, v) \<Rightarrow> do {
       r \<leftarrow> find_root m;
       let s = s\<lparr>g_rsdp := r\<rparr>;
       Some (if r = nullptr then (False, s, v)
         else if rsdp_revision m r \<ge> 2 \<and> rsdp_xsdt_address m r \<noteq> 0
         then take_root m (\<lambda>t s. s\<lparr>g_xsdt := t\<rparr>) xsdt_pointers (rsdp_xsdt_address m r) (s, v)
         else take_root m (\<lambda>t s. s\<lparr>g_rsdt := t\<rparr>) rsdt_pointers (ucast (rsdp_rsdt_address m r)) (s, v))
     })"

primrec search_pointers :: "mem \<Rightarrow> bytes \<Rightarrow> u64 list \<Rightarrow> vmm \<Rightarrow> u64 \<times> vmm" where
  "search_pointers m sig [] v = (nullptr, v)"
| "search_pointers m sig (p # ps) v =
    (let (table, v) = map_and_verify_table m p v
     in if table \<noteq> nullptr \<and> signature_is sig m table then (table, v) else search_pointers m sig ps v)"

definition find_acpi_table :: "mem \<Rightarrow> bytes \<Rightarrow> acpi \<times> vmm \<Rightarrow> u64 \<times> vmm" where
  "find_acpi_table m sig st =
    (case st of (s, v) \<Rightarrow>
      if g_rsdt s = nullptr \<and> g_xsdt s = nullptr then (nullptr, v)
      else if g_xsdt s \<noteq> nullptr then search_pointers m sig (xsdt_pointers m (g_xsdt s)) v
      else search_pointers m sig (rsdt_pointers m (g_rsdt s)) v)"

definition get_madt :: "acpi \<Rightarrow> u64" where "get_madt s = g_madt s"
definition get_mcfg :: "acpi \<Rightarrow> u64" where "get_mcfg s = g_mcfg s"

section \<open>The search for the root pointer\<close>

lemma paragraph_step: "a < b \<Longrightarrow> (b - a + 15) div 16 = Suc ((b - (a + 16) + 15) div 16)"
  for a b :: nat
proof -
  assume "a < b"
  then obtain d where b: "b = a + Suc d" by (metis add_Suc_right less_imp_Suc_add)
  show ?thesis unfolding b by (cases "d < 15") (simp_all add: not_less)
qed

lemma find_rsdp_spec:
  assumes "unat limit \<le> 2 ^ 64 - 16"
  shows "find_rsdp m addr limit = Some (case find (rsdp_at m) (map (\<lambda>k. addr + 16 * of_nat k)
      [0..<(unat limit - unat addr + 15) div 16]) of None \<Rightarrow> nullptr | Some r \<Rightarrow> r)"
proof (induction "unat limit - unat addr" arbitrary: addr rule: less_induct)
  case less
  show ?case
  proof (cases "addr < limit")
    case False
    then have n: "unat limit - unat addr = 0" by (simp add: word_less_nat_alt)
    show ?thesis using False by (subst find_rsdp.simps) (simp add: n)
  next
    case True
    then have lt: "unat addr < unat limit" by (simp add: word_less_nat_alt)
    have "unat addr + unat (16 :: u64) < 18446744073709551616" using lt assms by simp
    then have s: "unat (addr + 16) = unat addr + 16" by (simp add: unat_plus_u64)
    let ?n = "(unat limit - unat (addr + 16) + 15) div 16"
    have n: "(unat limit - unat addr + 15) div 16 = Suc ?n" unfolding s by (rule paragraph_step [OF lt])
    have "map (\<lambda>k. addr + 16 * of_nat k) [0..<Suc ?n] = addr # map (\<lambda>k. (addr + 16) + 16 * of_nat k) [0..<?n]"
      unfolding upt_conv_Cons [OF zero_less_Suc] map_Suc_upt [symmetric] by (simp add: comp_def algebra_simps)
    moreover have "find_rsdp m (addr + 16) limit = Some (case find (rsdp_at m) (map (\<lambda>k. (addr + 16) + 16 * of_nat k)
        [0..<?n]) of None \<Rightarrow> nullptr | Some r \<Rightarrow> r)"
      using lt s by (intro less) linarith
    ultimately show ?thesis using True unfolding n by (subst find_rsdp.simps) simp
  qed
qed

lemma find_rsdp_result:
  assumes "unat limit \<le> 2 ^ 64 - 16"
  obtains r where "find_rsdp m addr limit = Some r" "r = nullptr \<or> rsdp_at m r"
  using find_rsdp_spec [OF assms, of m addr] by (auto split: option.splits simp: find_Some_iff)

lemma find_root_result: "\<exists>r. find_root m = Some r \<and> (r = nullptr \<or> rsdp_at m r)"
proof -
  obtain r2 where r2: "find_rsdp m 0xE0000 0x100000 = Some r2" "r2 = nullptr \<or> rsdp_at m r2"
    using find_rsdp_result [of "0x100000" m "0xE0000"] by auto
  have "\<exists>r. find_rsdp m a (a + 1024) = Some r \<and> (r = nullptr \<or> rsdp_at m r)" if "a < 0x100000" for a
  proof -
    have "unat a < 0x100000" using that by (simp add: word_less_nat_alt)
    then have "unat (a + 1024) \<le> 2 ^ 64 - 16" by (subst unat_plus_u64) simp_all
    then show ?thesis using find_rsdp_result by metis
  qed
  then obtain r1 where "(if ebda_address m > 0 \<and> ebda_address m < 0x100000
        then find_rsdp m (ebda_address m) (ebda_address m + 1024) else Some nullptr) = Some r1"
      "r1 = nullptr \<or> rsdp_at m r1"
    by (cases "ebda_address m > 0 \<and> ebda_address m < 0x100000") auto
  then show ?thesis unfolding find_root_def using r2 by (cases "r1 = nullptr") (simp_all del: if_split)
qed

section \<open>The tables\<close>

text \<open>The tables a list of pointers leads to: the window addresses whose checksum is right.\<close>

definition tables_of :: "mem \<Rightarrow> u64 list \<Rightarrow> u64 list" where
  "tables_of m ps = filter (\<lambda>t. t \<noteq> nullptr \<and> verify_table_checksum m t) (map (\<lambda>p. p + window) ps)"

lemma last_with_Nil [simp]: "last_with P [] d = d"
  by (simp add: last_with_def)

lemma last_with_Cons [simp]: "last_with P (x # xs) d = last_with P xs (if P x then x else d)"
  by (simp add: last_with_def)

lemma APIC_not_MCFG: "signature_is APIC_signature m t \<Longrightarrow> \<not> signature_is MCFG_signature m t"
  by (auto simp: signature_is_def APIC_signature_def MCFG_signature_def cstr_def)

lemma scan_pointers_spec:
  "g_madt (fst (scan_pointers m ps (s, v))) = last_with (signature_is APIC_signature m) (tables_of m ps) (g_madt s) \<and>
   g_mcfg (fst (scan_pointers m ps (s, v))) = last_with (signature_is MCFG_signature m) (tables_of m ps) (g_mcfg s) \<and>
   g_rsdp (fst (scan_pointers m ps (s, v))) = g_rsdp s \<and> g_rsdt (fst (scan_pointers m ps (s, v))) = g_rsdt s \<and>
   g_xsdt (fst (scan_pointers m ps (s, v))) = g_xsdt s"
proof (induction ps arbitrary: s v)
  case Nil
  then show ?case by (simp add: scan_pointers_def tables_of_def)
next
  case (Cons p ps)
  obtain v' where "map_and_verify_table m p v =
      (if verify_table_checksum m (p + window) then p + window else nullptr, v')"
    by (simp add: map_and_verify_table_def Let_def)
  then have "scan_pointers m (p # ps) (s, v) =
      scan_pointers m ps (note_table m (if verify_table_checksum m (p + window) then p + window else nullptr) s, v')"
    by (simp add: scan_pointers_def scan_entry_def)
  then show ?case
    using Cons.IH by (auto simp: tables_of_def note_table_def dest: APIC_not_MCFG)
qed

text \<open>The root table the code takes and the pointers it reads from it.\<close>

definition root_table :: "mem \<Rightarrow> u64 \<Rightarrow> u64 \<times> u64 list" where
  "root_table m r =
    (if rsdp_revision m r \<ge> 2 \<and> rsdp_xsdt_address m r \<noteq> 0
     then (rsdp_xsdt_address m r + window, xsdt_pointers m (rsdp_xsdt_address m r + window))
     else (ucast (rsdp_rsdt_address m r) + window, rsdt_pointers m (ucast (rsdp_rsdt_address m r) + window)))"

lemma map_and_verify_result:
  obtains v' where "map_and_verify_table m p v =
    (if verify_table_checksum m (p + window) then p + window else nullptr, v')"
  by (simp add: map_and_verify_table_def Let_def)

lemma take_root_spec:
  assumes "\<And>t s. g_madt (f t s) = g_madt s" "\<And>t s. g_mcfg (f t s) = g_mcfg s" "\<And>t s. g_rsdp (f t s) = g_rsdp s"
    and "g_madt s = nullptr" "g_mcfg s = nullptr"
  shows "\<exists>ok s' v'. take_root m f pointers p (s, v) = (ok, s', v') \<and> g_rsdp s' = g_rsdp s \<and> (ok \<longleftrightarrow> g_madt s' \<noteq> nullptr) \<and>
    (let ts = (if p + window = nullptr \<or> \<not> verify_table_checksum m (p + window) then [] else tables_of m (pointers m (p + window)))
     in g_madt s' = last_with (signature_is APIC_signature m) ts nullptr \<and>
        g_mcfg s' = last_with (signature_is MCFG_signature m) ts nullptr)"
proof -
  obtain v1 where v1: "map_and_verify_table m p v =
      (if verify_table_checksum m (p + window) then p + window else nullptr, v1)"
    by (rule map_and_verify_result)
  show ?thesis
  proof (cases "p + window = nullptr \<or> \<not> verify_table_checksum m (p + window)")
    case True
    then have "take_root m f pointers p (s, v) = (False, f nullptr s, v1)" using v1 by (auto simp: take_root_def)
    then show ?thesis using True assms by simp blast
  next
    case False
    obtain s2 v2 where 2: "scan_pointers m (pointers m (p + window)) (f (p + window) s, v1) = (s2, v2)" by fastforce
    with False have "take_root m f pointers p (s, v) = (g_madt s2 \<noteq> nullptr, s2, v2)"
      using v1 by (simp add: take_root_def)
    then show ?thesis
      using False assms scan_pointers_spec [of m "pointers m (p + window)" "f (p + window) s" v1] 2 by simp
  qed
qed

lemma init_acpi_spec:
  "\<exists>r ok s v'. find_root m = Some r \<and> (r = nullptr \<or> rsdp_at m r) \<and>
     init_acpi m (acpi_start, v) = Some (ok, s, v') \<and> g_rsdp s = r \<and> (ok \<longleftrightarrow> get_madt s \<noteq> nullptr) \<and>
     (case root_table m r of (root, ps) \<Rightarrow>
        let ts = (if r = nullptr \<or> root = nullptr \<or> \<not> verify_table_checksum m root then [] else tables_of m ps)
        in get_madt s = last_with (signature_is APIC_signature m) ts nullptr \<and>
           get_mcfg s = last_with (signature_is MCFG_signature m) ts nullptr)"
proof -
  obtain r where r: "find_root m = Some r" "r = nullptr \<or> rsdp_at m r" using find_root_result by blast
  show ?thesis
  proof (cases "r = nullptr")
    case True
    then show ?thesis
      using r by (simp add: init_acpi_def acpi_start_def get_madt_def get_mcfg_def case_prod_beta) blast
  next
    case False
    have fin: ?thesis
      if h: "init_acpi m (acpi_start, v) = Some (take_root m f pointers p (acpi_start\<lparr>g_rsdp := r\<rparr>, v))"
        "root_table m r = (p + window, pointers m (p + window))"
        "\<And>t s. g_madt (f t s) = g_madt s" "\<And>t s. g_mcfg (f t s) = g_mcfg s" "\<And>t s. g_rsdp (f t s) = g_rsdp s" for f pointers p
    proof -
      obtain ok s v' where "take_root m f pointers p (acpi_start\<lparr>g_rsdp := r\<rparr>, v) = (ok, s, v')" "g_rsdp s = r"
          "ok \<longleftrightarrow> g_madt s \<noteq> nullptr"
          "let ts = (if p + window = nullptr \<or> \<not> verify_table_checksum m (p + window) then []
             else tables_of m (pointers m (p + window)))
           in g_madt s = last_with (signature_is APIC_signature m) ts nullptr \<and>
              g_mcfg s = last_with (signature_is MCFG_signature m) ts nullptr"
        using take_root_spec [of f "acpi_start\<lparr>g_rsdp := r\<rparr>" m pointers p v, OF h(3-5)] by (auto simp: acpi_start_def)
      then show ?thesis
        using r False h(1,2) by (intro exI [of _ r] exI [of _ ok] exI [of _ s] exI [of _ v'])
          (simp add: get_madt_def get_mcfg_def Let_def)
    qed
    show ?thesis
    proof (cases "rsdp_revision m r \<ge> 2 \<and> rsdp_xsdt_address m r \<noteq> 0")
      case True
      then show ?thesis
        using r False by (intro fin [of "\<lambda>t s. s\<lparr>g_xsdt := t\<rparr>" xsdt_pointers "rsdp_xsdt_address m r"])
          (simp_all add: init_acpi_def root_table_def)
    next
      case other: False
      then show ?thesis
        using r False by (intro fin [of "\<lambda>t s. s\<lparr>g_rsdt := t\<rparr>" rsdt_pointers "ucast (rsdp_rsdt_address m r)"])
          (auto simp: init_acpi_def root_table_def)
    qed
  qed
qed


section \<open>Where the layout departs from the standard\<close>

text \<open>
  By the standard the XSDT holds its pointers from offset 36. The code reads from offset 40, so each of its pointers
  is the upper half of one entry followed by the lower half of the next: with all tables below 4 GiB it never sees a
  table at its own address.
\<close>

theorem xsdt_pointers_shifted:
  assumes "get32 m (a + 40 + 8 * of_nat i) = 0" "get32 m (a + 40 + 8 * of_nat (Suc i)) = 0"
  shows "xsdt_pointer m a i = push_bit 32 (get64 m (a + 36 + 8 * of_nat (Suc i)))"
proof -
  have e: "a + 40 + 8 * of_nat i + 4 = a + 36 + 8 * of_nat (Suc i)"
      "a + 36 + 8 * of_nat (Suc i) + 4 = a + 40 + 8 * of_nat (Suc i)"
    by (simp_all add: algebra_simps)
  have "get64 m (a + 36 + 8 * of_nat (Suc i)) = ucast (get32 m (a + 36 + 8 * of_nat (Suc i)))"
    unfolding get64_def e(2) assms by simp
  then show ?thesis unfolding xsdt_pointer_def get64_def [of m "a + 40 + 8 * of_nat i"] assms e(1) by simp
qed

theorem xsdt_pointers_shifted_witness:
  "xsdt_pointer (\<lambda>a. if a = 0x102C then 0x50 else 0) 0x1000 0 = 0x5000000000"
proof -
  let ?m = "\<lambda>a :: u64. if a = 0x102C then 0x50 else 0 :: u8"
  show ?thesis using xsdt_pointers_shifted [of ?m "0x1000" 0] by (simp add: get64_def get32_def get16_def)
qed

lemma byte_sum_add: "byte_sum m a (n + k) = byte_sum m a n + byte_sum m (a + of_nat n) k"
  by (induction k) (simp_all add: add.assoc)

text \<open>
  The extended checksum of the standard covers 36 bytes. The structure takes 40 with its padding, and the code adds up all of
  them: a correct root pointer is accepted only when the four bytes after it add up to zero.
\<close>

theorem rsdp_checksum_reads_past:
  assumes "rsdp_revision m a \<ge> 2" "byte_sum m a 36 = 0"
  shows "rsdp_at m a \<longleftrightarrow> signature_is RSDP_signature m a \<and> byte_sum m a 20 = 0 \<and>
    m (a + 36) + m (a + 37) + m (a + 38) + m (a + 39) = 0"
proof -
  have "byte_sum m a (36 + 4) = byte_sum m a 36 + byte_sum m (a + 36) 4" by (subst byte_sum_add) simp
  moreover have "byte_sum m (a + 36) 4 = m (a + 36) + m (a + 37) + m (a + 38) + m (a + 39)"
    by (simp add: eval_nat_numeral add.assoc)
  ultimately have "byte_sum m a 40 = m (a + 36) + m (a + 37) + m (a + 38) + m (a + 39)" using assms(2) by simp
  then show ?thesis using assms by (auto simp: rsdp_at_def sizeof_rsdp_def)
qed

text \<open>
  A table of at most one page is mapped with one call: the part of it behind the next page boundary stays
  as unmapped as it was, and computing its checksum faults.
\<close>

theorem table_across_pages_unmapped:
  assumes "vm_ok v" "vm_usable v (p + window)" "3 \<le> unat (get_free_frames (vm_pmm v))"
    and "unat (table_length m (p + window)) \<le> 4096"
    and "offset < unat (table_length m (p + window))" "\<not> same_page (p + window + of_nat offset) (p + window)"
    and "vm_leaf v (p + window + of_nat offset) = None"
  shows "vm_leaf (snd (map_and_verify_table m p v)) (p + window + of_nat offset) = None"
proof -
  have b: "3 \<le> vm_budget v"
    using assms(1,3) card_pmm_free [of "vm_pmm v"] by (simp add: vm_budget_def get_free_frames_def vm_ok_def)
  have "snd (map_and_verify_table m p v) = map_page (p + window) p True v"
    using assms(4) by (simp add: map_and_verify_table_def Let_def map_rest.simps)
  then show ?thesis using space.pages_map [OF assms(1,2) b] assms(6,7) by simp
qed

theorem rsdp_checksum_reads_past_witness:
  "\<not> rsdp_at ((\<lambda>_. 0)(0x200F := 2, 0x2010 := 0xFE, 0x2024 := 1)) 0x2000"
proof -
  let ?m = "(\<lambda>_. 0)(0x200F := 2, 0x2010 := 0xFE, 0x2024 := 1) :: mem"
  have "byte_sum ?m 0x2000 36 = 0" by code_simp
  then show ?thesis
    using rsdp_checksum_reads_past [of ?m "0x2000"] by (simp add: rsdp_revision_def)
qed

theorem table_across_pages_unmapped_witness:
  "vm_leaf (snd (map_and_verify_table (\<lambda>a. if a = 0xFFFF800000005FF4 then 44 else 0) 0x5FF0 vm_example)) 0xFFFF800000006010 = None"
proof -
  let ?m = "\<lambda>a :: u64. if a = 0xFFFF800000005FF4 then 44 else 0 :: u8"
  have "unat (table_length ?m (0x5FF0 + window)) = 44"
    by (simp add: table_length_def window_def get32_def get16_def)
  moreover have "3 \<le> unat (get_free_frames (vm_pmm vm_example))"
    by (simp add: small_defs get_free_frames_def)
  moreover have "\<not> same_page 0xFFFF800000006010 0xFFFF800000005FF0" by (simp add: same_page_iff)
  ultimately show ?thesis
    using table_across_pages_unmapped [of vm_example "0x5FF0" ?m 32]
    by (simp add: vm_example_ok vm_usable_def vm_example_clear vm_example_leaf window_def)
qed

end
