(* ===== verification/Smp.thy ===== *)
theory Smp
  imports Acpi
begin

text \<open>
  The processors, \<open>hw/smp.cpp\<close>: their detection from the MADT, the set-up of the interrupt controllers, the start of the
  application processors and interprocessor interrupts. The register \<^verbatim>\<open>IA32_APIC_BASE\<close> of the running processor, the
  answer of \<^verbatim>\<open>cpuid\<close> and which processors answer a start-up are inputs; writes to a local APIC are collected in order with the
  address they go to. Delays and messages are left out. The trampoline of \<open>asm/ap_boot.asm\<close> is a list of bytes; what an application processor
  does to the state is \<open>ap_main\<close>.
\<close>

record cpu_info =
  ci_id :: u32
  ci_lapic_id :: u32
  ci_is_bsp :: bool
  ci_local_apic_base :: u64
  ci_kernel_stack :: u64
  ci_tss_address :: u64
  ci_is_active :: bool

record smp =
  m_cpu_count :: u32
  m_cpus :: "cpu_info list"
  m_smp_enabled :: bool
  apic_msr :: u64
  lapic_writes :: "(u64 \<times> u32) list"
  smp_vm :: vmm
  smp_acpi :: acpi
  smp_mem :: mem
  g_ap_ready_count :: u32
  g_ap_lock :: u32
  g_ap_target_cpu :: u32

definition new_cpu :: cpu_info where
  "new_cpu = \<lparr>ci_id = 0, ci_lapic_id = 0, ci_is_bsp = False, ci_local_apic_base = nullptr, ci_kernel_stack = 0,
     ci_tss_address = 0, ci_is_active = False\<rparr>"

definition CPUID_FEAT_EDX_APIC :: u32 where "CPUID_FEAT_EDX_APIC = 0x200"
definition MSR_APIC_ENABLE :: u64 where "MSR_APIC_ENABLE = 0x800"
definition MSR_BSP_FLAG :: u64 where "MSR_BSP_FLAG = 0x100"
definition DEFAULT_LAPIC_BASE :: u64 where "DEFAULT_LAPIC_BASE = 0xFEE00000"
definition CPU_TRAMPOLINE_ADDR :: u64 where "CPU_TRAMPOLINE_ADDR = 0x8000"
definition AP_STARTUP_VECTOR :: u32 where "AP_STARTUP_VECTOR = 0x08"
definition LAPIC_ICR_LOW :: u64 where "LAPIC_ICR_LOW = 0x300"
definition LAPIC_ICR_HIGH :: u64 where "LAPIC_ICR_HIGH = 0x310"

definition lapic_write :: "u64 \<Rightarrow> u64 \<Rightarrow> u32 \<Rightarrow> smp \<Rightarrow> smp" where
  "lapic_write base reg value s = s\<lparr>lapic_writes := lapic_writes s @ [(base + reg, value)]\<rparr>"

definition lapic_run :: "u64 \<Rightarrow> (u64 \<times> u32) list \<Rightarrow> smp \<Rightarrow> smp" where
  "lapic_run base ws s = fold (\<lambda>(reg, value). lapic_write base reg value) ws s"

section \<open>The processor table\<close>

text \<open>A \<^verbatim>\<open>CPUInfo*\<close> is the index of the element in \<open>m_cpus\<close>.\<close>

definition get_cpu_info :: "u32 \<Rightarrow> smp \<Rightarrow> nat option" where
  "get_cpu_info i s = find_index (\<lambda>c. ci_id c = i) (m_cpus s)"

definition get_current_cpu_id :: "smp \<Rightarrow> u32" where
  "get_current_cpu_id s =
    (let current_lapic_id = ucast (drop_bit 24 (apic_msr s) AND 0xFF)
     in case find (\<lambda>c. ci_lapic_id c = current_lapic_id) (m_cpus s) of
          Some c \<Rightarrow> ci_id c
        | None \<Rightarrow> (case find ci_is_bsp (m_cpus s) of Some c \<Rightarrow> ci_id c | None \<Rightarrow> 0))"

definition get_current_cpu_info :: "smp \<Rightarrow> nat option" where
  "get_current_cpu_info s = get_cpu_info (get_current_cpu_id s) s"

definition upd_cpu :: "nat \<Rightarrow> (cpu_info \<Rightarrow> cpu_info) \<Rightarrow> smp \<Rightarrow> smp" where
  "upd_cpu i f s = s\<lparr>m_cpus := (m_cpus s)[i := f (m_cpus s ! i)]\<rparr>"

definition set_cpu_active :: "u32 \<Rightarrow> smp \<Rightarrow> smp" where
  "set_cpu_active lapic_id s =
    (case find_index (\<lambda>c. ci_lapic_id c = lapic_id) (m_cpus s) of
       None \<Rightarrow> s
     | Some i \<Rightarrow> upd_cpu i (\<lambda>c. c\<lparr>ci_is_active := True\<rparr>) s)"

definition detect_active_cores :: "smp \<Rightarrow> smp" where
  "detect_active_cores s =
    (if \<not> m_smp_enabled s \<or> m_cpu_count s \<le> 1 then s
     else case get_current_cpu_info s of
       None \<Rightarrow> s
     | Some i \<Rightarrow>
         if ci_local_apic_base (m_cpus s ! i) = nullptr then s
         else s\<lparr>m_cpus := map (\<lambda>c. c\<lparr>ci_is_active := ci_is_bsp c \<or> ci_kernel_stack c \<noteq> 0\<rparr>) (m_cpus s)\<rparr>)"

definition send_ipi :: "u32 \<Rightarrow> u8 \<Rightarrow> smp \<Rightarrow> smp" where
  "send_ipi cpu_id vector s =
    (case get_cpu_info cpu_id s of
       None \<Rightarrow> s
     | Some t \<Rightarrow> (case get_current_cpu_info s of
         None \<Rightarrow> s
       | Some i \<Rightarrow> lapic_run (ci_local_apic_base (m_cpus s ! i))
           [(LAPIC_ICR_HIGH, push_bit 24 (ci_lapic_id (m_cpus s ! t))), (LAPIC_ICR_LOW, 0x4000 OR ucast vector)] s))"

definition send_ipi_all_excluding_self :: "u8 \<Rightarrow> smp \<Rightarrow> smp" where
  "send_ipi_all_excluding_self vector s =
    (case get_current_cpu_info s of
       None \<Rightarrow> s
     | Some i \<Rightarrow> lapic_run (ci_local_apic_base (m_cpus s ! i)) [(LAPIC_ICR_HIGH, 0), (LAPIC_ICR_LOW, 0xC000 OR ucast vector)] s)"

section \<open>Detection\<close>

definition madt_local_apic_addr :: "mem \<Rightarrow> u64 \<Rightarrow> u32" where "madt_local_apic_addr m madt = get32 m (madt + 36)"
definition madt_first :: "u64 \<Rightarrow> u64" where "madt_first madt = madt + 44"
definition madt_limit :: "mem \<Rightarrow> u64 \<Rightarrow> u64" where "madt_limit m madt = madt + ucast (table_length m madt)"

text \<open>
  The loop over the entries of the MADT, shared by the detection and the I/O APIC; it does not end (\<open>None\<close>) at
  an entry of length zero.
\<close>

partial_function (option) walk_madt :: "mem \<Rightarrow> (u64 \<Rightarrow> 's \<Rightarrow> 's) \<Rightarrow> u64 \<Rightarrow> u64 \<Rightarrow> 's \<Rightarrow> 's option" where
  [code]: "walk_madt m body limit entry s =
    (if entry < limit then walk_madt m body limit (entry + ucast (m (entry + 1))) (body entry s) else Some s)"

definition bsp_only :: cpu_info where
  "bsp_only = new_cpu\<lparr>ci_is_bsp := True, ci_is_active := True, ci_local_apic_base := DEFAULT_LAPIC_BASE\<rparr>"

text \<open>Four frames are taken; the stack is where the first of them is, mapped as if the others followed it.\<close>

primrec take_frames :: "nat \<Rightarrow> pmm \<Rightarrow> u64 list \<times> pmm" where
  "take_frames 0 p = ([], p)"
| "take_frames (Suc n) p = (let (f, p) = allocate_frame p; (fs, p) = take_frames n p in (f # fs, p))"

definition cpu_stack :: "vmm \<Rightarrow> u64 \<times> vmm" where
  "cpu_stack v =
    (let (frames, p) = take_frames 4 (vm_pmm v);
         v = v\<lparr>vm_pmm := p\<rparr>;
         stack_start = frames ! 0;
         stack_virt = stack_start + window
     in if stack_start = 0 then (0, v)
        else (stack_virt + 16384,
              map_all map_page (map (\<lambda>i. (stack_virt + i, stack_start + i)) [0, 4096, 8192, 12288]) True v))"

definition is_bsp_lapic :: "u64 \<Rightarrow> u8 \<Rightarrow> bool" where
  "is_bsp_lapic msr apic_id \<longleftrightarrow> msr AND MSR_BSP_FLAG \<noteq> 0 \<and> (ucast apic_id :: u64) = drop_bit 24 msr"

definition add_cpu :: "mem \<Rightarrow> u64 \<Rightarrow> u64 \<Rightarrow> u32 \<times> smp \<Rightarrow> u32 \<times> smp" where
  "add_cpu m madt entry st =
    (case st of (cpu_count, s) \<Rightarrow>
       if m entry = 0 \<and> get32 m (entry + 4) AND 1 \<noteq> 0 then
         let bsp = is_bsp_lapic (apic_msr s) (m (entry + 3));
             (stack, v) = cpu_stack (smp_vm s);
             cpu = new_cpu\<lparr>ci_id := cpu_count, ci_lapic_id := ucast (m (entry + 3)), ci_is_bsp := bsp, ci_is_active := bsp,
               ci_local_apic_base := ucast (madt_local_apic_addr m madt), ci_kernel_stack := stack\<rparr>
         in (cpu_count + 1, s\<lparr>m_cpus := m_cpus s @ [cpu], smp_vm := v\<rparr>)
       else (cpu_count, s))"

definition detect_cpus :: "smp \<Rightarrow> smp option" where
  "detect_cpus s =
    (let madt = get_madt (smp_acpi s); m = smp_mem s in
     if madt = nullptr then Some (s\<lparr>m_cpus := m_cpus s @ [bsp_only], m_cpu_count := 1\<rparr>)
     else map_option
       (\<lambda>(cpu_count, s).
          let s = s\<lparr>m_cpu_count := (if cpu_count \<noteq> 0 then cpu_count else 1)\<rparr>
          in if m_cpus s = [] then s\<lparr>m_cpus := [bsp_only], m_cpu_count := 1\<rparr> else s)
       (walk_madt m (add_cpu m madt) (madt_limit m madt) (madt_first madt) (0, s)))"

section \<open>Interrupt controllers\<close>

definition LAPIC_SETUP :: "(u64 \<times> u32) list" where
  "LAPIC_SETUP = [(0xF0, 0x1FF), (0xE0, 0xFFFFFFFF), (0xD0, 0x01000000), (0x80, 0), (0x350, 0x700), (0x360, 0x400),
     (0x3E0, 0x3), (0x320, 0x10000)]"

definition init_local_apic :: "smp \<Rightarrow> smp" where
  "init_local_apic s =
    (let apic_base = apic_msr s;
         s = s\<lparr>apic_msr := apic_base OR MSR_APIC_ENABLE\<rparr>;
         apic_phys = apic_base AND 0xFFFFF000;
         apic_virt = apic_phys + window;
         s = s\<lparr>smp_vm := map_page apic_virt apic_phys True (smp_vm s)\<rparr>;
         s = (case get_current_cpu_info s of
                None \<Rightarrow> s
              | Some i \<Rightarrow> upd_cpu i (\<lambda>c. c\<lparr>ci_local_apic_base := apic_virt\<rparr>) s)
     in lapic_run apic_virt LAPIC_SETUP s)"

definition map_io_apic :: "mem \<Rightarrow> u64 \<Rightarrow> smp \<Rightarrow> smp" where
  "map_io_apic m entry s =
    (if m entry = 1
     then let ioapic_phys = ucast (get32 m (entry + 4))
          in s\<lparr>smp_vm := map_page (ioapic_phys + window) ioapic_phys True (smp_vm s)\<rparr>
     else s)"

definition init_io_apic :: "smp \<Rightarrow> smp option" where
  "init_io_apic s =
    (let madt = get_madt (smp_acpi s); m = smp_mem s
     in if madt = nullptr then Some s
        else walk_madt m (map_io_apic m) (madt_limit m madt) (madt_first madt) s)"

definition smp_initialize :: "u32 \<Rightarrow> smp \<Rightarrow> smp option" where
  "smp_initialize cpuid_edx s =
    (if cpuid_edx AND CPUID_FEAT_EDX_APIC = 0 then Some s
     else do {
       (ok, a, v) \<leftarrow> init_acpi (smp_mem s) (smp_acpi s, smp_vm s);
       let s = s\<lparr>smp_acpi := a, smp_vm := v\<rparr>;
       if \<not> ok then Some ((init_local_apic s)\<lparr>m_smp_enabled := False\<rparr>)
       else do {
         s \<leftarrow> detect_cpus s;
         s \<leftarrow> init_io_apic (init_local_apic s);
         Some (s\<lparr>m_smp_enabled := True\<rparr>)
       }
     })"

section \<open>Application processors\<close>

text \<open>What a started processor does before it halts.\<close>

definition ap_main :: "u32 \<Rightarrow> smp \<Rightarrow> smp" where
  "ap_main cpu_id s =
    (case get_cpu_info cpu_id s of
       None \<Rightarrow> s
     | Some i \<Rightarrow> (upd_cpu i (\<lambda>c. c\<lparr>ci_is_active := True\<rparr>) s)\<lparr>g_ap_ready_count := g_ap_ready_count s + 1\<rparr>)"

definition ap_sequence :: "u32 \<Rightarrow> (u64 \<times> u32) list" where
  "ap_sequence lapic_id =
    (let icr_high = push_bit 24 lapic_id; init = 0x4500; start = 0x4600 OR AP_STARTUP_VECTOR
     in [(LAPIC_ICR_HIGH, icr_high), (LAPIC_ICR_LOW, init), (LAPIC_ICR_HIGH, icr_high), (LAPIC_ICR_LOW, start),
         (LAPIC_ICR_HIGH, icr_high), (LAPIC_ICR_LOW, start)])"

definition start_cpu :: "(u32 \<Rightarrow> bool) \<Rightarrow> u64 \<Rightarrow> nat \<Rightarrow> smp \<Rightarrow> smp" where
  "start_cpu responds bsp_base i s =
    (let cpu = m_cpus s ! i
     in if ci_is_bsp cpu then s
        else let s = s\<lparr>g_ap_target_cpu := ci_id cpu\<rparr>;
                 s = lapic_run bsp_base (ap_sequence (ci_lapic_id cpu)) s
             in if responds (g_ap_target_cpu s) then ap_main (g_ap_target_cpu s) s else s)"

definition startup_application_processors :: "(u32 \<Rightarrow> bool) \<Rightarrow> bytes \<Rightarrow> smp \<Rightarrow> smp" where
  "startup_application_processors responds trampoline s =
    (if \<not> m_smp_enabled s \<or> m_cpu_count s \<le> 1 then s
     else let s = s\<lparr>g_ap_ready_count := 0, g_ap_lock := 0,
                    smp_vm := map_page CPU_TRAMPOLINE_ADDR CPU_TRAMPOLINE_ADDR True (smp_vm s),
                    smp_mem := poke (smp_mem s) CPU_TRAMPOLINE_ADDR trampoline\<rparr>
     in case find_index ci_is_bsp (m_cpus s) of
          None \<Rightarrow> s
        | Some b \<Rightarrow> detect_active_cores
            (fold (start_cpu responds (ci_local_apic_base (m_cpus s ! b))) [0..<length (m_cpus s)] s))"

section \<open>The walk over the MADT\<close>

inductive entry_walk :: "mem \<Rightarrow> u64 \<Rightarrow> u64 \<Rightarrow> u64 list \<Rightarrow> bool" for m :: mem and limit :: u64 where
  entries_over: "limit \<le> a \<Longrightarrow> entry_walk m limit a []"
| entries_next: "a < limit \<Longrightarrow> entry_walk m limit (a + ucast (m (a + 1))) es \<Longrightarrow> entry_walk m limit a (a # es)"

lemma walk_madt_entries: "entry_walk m limit a es \<Longrightarrow> walk_madt m body limit a s = Some (fold body es s)"
proof (induction arbitrary: s rule: entry_walk.induct)
  case (entries_over a)
  then show ?case by (subst walk_madt.simps) (simp add: leD)
next
  case (entries_next a es)
  then show ?case by (subst walk_madt.simps) simp
qed

lemma walk_madt_invariant:
  assumes "walk_madt m body limit a s = Some t" and step: "\<And>e s. P s \<Longrightarrow> P (body e s)" and "P s"
  shows "P t"
proof -
  have "body' = body \<longrightarrow> P s' \<longrightarrow> P t'" if "walk_madt m' body' limit' a' s' = Some t'" for m' body' limit' a' s' t'
  proof (rule walk_madt.raw_induct [of "\<lambda>m' body' limit' a' s' t'. body' = body \<longrightarrow> P s' \<longrightarrow> P t'", OF _ that])
    fix walk m' and body' :: "u64 \<Rightarrow> 'a \<Rightarrow> 'a" and limit' a s t
    assume IH: "\<And>m' body' limit' a s t. walk m' body' limit' a s = Some t \<Longrightarrow> body' = body \<longrightarrow> P s \<longrightarrow> P t"
      and w: "(if a < limit' then walk m' body' limit' (a + ucast (m' (a + 1))) (body' a s) else Some s) = Some t"
    show "body' = body \<longrightarrow> P s \<longrightarrow> P t"
      using w IH [of m' body' limit' "a + ucast (m' (a + 1))" "body' a s" t] step by (auto split: if_splits)
  qed
  with assms(1,3) show ?thesis by blast
qed

text \<open>An entry of length zero is the end of the boot: the walk does not return.\<close>

theorem zero_length_entry_loops:
  assumes "a < limit" "m (a + 1) = 0"
  shows "walk_madt m body limit a s = None"
proof -
  have "\<not> (a' < limit' \<and> m' (a' + 1) = 0)" if "walk_madt m' body' limit' a' s' = Some t" for m' limit' a' s' t and body' :: "u64 \<Rightarrow> 'a \<Rightarrow> 'a"
  proof (rule walk_madt.raw_induct [of "\<lambda>m' body' limit' a' s' t. \<not> (a' < limit' \<and> m' (a' + 1) = 0)", OF _ that])
    fix walk m' and body' :: "u64 \<Rightarrow> 'a \<Rightarrow> 'a" and limit' a s t
    assume IH: "\<And>m' body' limit' a s t. walk m' body' limit' a s = Some t \<Longrightarrow> \<not> (a < limit' \<and> m' (a + 1) = 0)"
      and w: "(if a < limit' then walk m' body' limit' (a + ucast (m' (a + 1))) (body' a s) else Some s) = Some t"
    show "\<not> (a < limit' \<and> m' (a + 1) = 0)" using w IH [of m' body' limit' a "body' a s" t] by auto
  qed
  with assms show ?thesis by (metis not_None_eq)
qed

section \<open>What is detected\<close>

definition enabled_apic :: "mem \<Rightarrow> u64 \<Rightarrow> bool" where
  "enabled_apic m e \<longleftrightarrow> m e = 0 \<and> get32 m (e + 4) AND 1 \<noteq> 0"

definition cpu_row :: "cpu_info \<Rightarrow> u32 \<times> u32 \<times> bool \<times> bool \<times> u64" where
  "cpu_row c = (ci_id c, ci_lapic_id c, ci_is_bsp c, ci_is_active c, ci_local_apic_base c)"

definition apic_row :: "mem \<Rightarrow> u64 \<Rightarrow> u64 \<Rightarrow> nat \<times> u64 \<Rightarrow> u32 \<times> u32 \<times> bool \<times> bool \<times> u64" where
  "apic_row m madt msr ne =
    (case ne of (n, e) \<Rightarrow> (of_nat n, ucast (m (e + 3)), is_bsp_lapic msr (m (e + 3)), is_bsp_lapic msr (m (e + 3)),
       ucast (madt_local_apic_addr m madt)))"

lemma add_cpu_rows:
  "fold (add_cpu m madt) es (of_nat n, s) = (k, s') \<Longrightarrow>
   k = of_nat (n + length (filter (enabled_apic m) es)) \<and> apic_msr s' = apic_msr s \<and>
   map cpu_row (m_cpus s') = map cpu_row (m_cpus s) @ map (apic_row m madt (apic_msr s)) (enumerate n (filter (enabled_apic m) es))"
proof (induction es arbitrary: n s)
  case Nil
  then show ?case by simp
next
  case (Cons e es)
  show ?case
  proof (cases "enabled_apic m e")
    case True
    obtain stack v where v: "cpu_stack (smp_vm s) = (stack, v)" by fastforce
    let ?b = "is_bsp_lapic (apic_msr s) (m (e + 3))"
    let ?c = "new_cpu\<lparr>ci_id := of_nat n, ci_lapic_id := ucast (m (e + 3)), ci_is_bsp := ?b, ci_is_active := ?b,
      ci_local_apic_base := ucast (madt_local_apic_addr m madt), ci_kernel_stack := stack\<rparr>"
    have "add_cpu m madt e (of_nat n, s) = (of_nat (Suc n), s\<lparr>m_cpus := m_cpus s @ [?c], smp_vm := v\<rparr>)"
      using True v by (simp add: add_cpu_def enabled_apic_def add.commute Let_def)
    with Cons.prems have "fold (add_cpu m madt) es (of_nat (Suc n), s\<lparr>m_cpus := m_cpus s @ [?c], smp_vm := v\<rparr>) = (k, s')"
      by simp
    from Cons.IH [OF this] True show ?thesis by (simp add: cpu_row_def apic_row_def)
  next
    case False
    then have "add_cpu m madt e (of_nat n, s) = (of_nat n, s)" by (auto simp: add_cpu_def enabled_apic_def)
    with Cons.prems False show ?thesis using Cons.IH by simp
  qed
qed

lemma detect_cpus_spec:
  assumes "entry_walk (smp_mem s) (madt_limit (smp_mem s) madt) (madt_first madt) es" "get_madt (smp_acpi s) = madt" "madt \<noteq> nullptr"
    "m_cpus s = []" "length (filter (enabled_apic (smp_mem s)) es) < 2 ^ 32"
  shows "\<exists>s'. detect_cpus s = Some s' \<and>
    (let ps = filter (enabled_apic (smp_mem s)) es
     in if ps = [] then m_cpus s' = [bsp_only] \<and> m_cpu_count s' = 1
        else map cpu_row (m_cpus s') = map (apic_row (smp_mem s) madt (apic_msr s)) (enumerate 0 ps) \<and>
             unat (m_cpu_count s') = length ps \<and> unat (m_cpu_count s') = length (m_cpus s'))"
proof -
  let ?ps = "filter (enabled_apic (smp_mem s)) es"
  obtain k s1 where f: "fold (add_cpu (smp_mem s) madt) es (0, s) = (k, s1)" by fastforce
  have r: "k = of_nat (length ?ps)" "map cpu_row (m_cpus s1) = map (apic_row (smp_mem s) madt (apic_msr s)) (enumerate 0 ?ps)"
    using add_cpu_rows [of "smp_mem s" madt es 0 s k s1] f assms(4) by simp_all
  have w: "walk_madt (smp_mem s) (add_cpu (smp_mem s) madt) (madt_limit (smp_mem s) madt) (madt_first madt) (0, s) = Some (k, s1)"
    by (simp add: walk_madt_entries [OF assms(1)] f)
  have n: "length (m_cpus s1) = length ?ps" using r(2) by (metis length_map length_enumerate)
  have u: "unat k = length ?ps" using r(1) assms(5) by (simp add: unat_of_nat_fit)
  show ?thesis
  proof (cases "?ps = []")
    case True
    then show ?thesis using w n assms(2,3) by (simp add: detect_cpus_def Let_def)
  next
    case False
    then have "k \<noteq> 0" using u by (metis length_0_conv unat_0)
    moreover have "m_cpus s1 \<noteq> []" using n False by auto
    ultimately show ?thesis using w r n u False assms(2,3) by (simp add: detect_cpus_def Let_def)
  qed
qed

text \<open>
  C28: With a MADT whose entries can be walked, detection numbers the enabled processors in the order of their entries, each with
  the identifier of its entry and the address of the table; without an enabled one the table holds the boot processor alone.
\<close>

theorem detect_cpus_correct:
  assumes "entry_walk (smp_mem s) (madt_limit (smp_mem s) madt) (madt_first madt) es" "get_madt (smp_acpi s) = madt" "madt \<noteq> nullptr"
    "m_cpus s = []" "length (filter (enabled_apic (smp_mem s)) es) < 2 ^ 32"
  shows "\<exists>s'. detect_cpus s = Some s' \<and>
    (let ps = filter (enabled_apic (smp_mem s)) es
     in if ps = [] then m_cpus s' = [bsp_only] \<and> m_cpu_count s' = 1
        else map cpu_row (m_cpus s') = map (apic_row (smp_mem s) madt (apic_msr s)) (enumerate 0 ps) \<and>
             unat (m_cpu_count s') = length ps \<and> unat (m_cpu_count s') = length (m_cpus s'))"
  using assms by (rule detect_cpus_spec)

section \<open>Starting the other processors\<close>

lemma lapic_run_writes:
  "lapic_run base ws s = s\<lparr>lapic_writes := lapic_writes s @ map (\<lambda>(reg, value). (base + reg, value)) ws\<rparr>"
  by (induction ws arbitrary: s) (auto simp: lapic_run_def lapic_write_def)

text \<open>The fields no start-up changes.\<close>

definition cpu_fixed :: "cpu_info \<Rightarrow> u32 \<times> u32 \<times> bool \<times> u64 \<times> u64" where
  "cpu_fixed c = (ci_id c, ci_lapic_id c, ci_is_bsp c, ci_local_apic_base c, ci_kernel_stack c)"

lemma upd_active_fixed:
  "map cpu_fixed ((m_cpus s)[i := (m_cpus s ! i)\<lparr>ci_is_active := x\<rparr>]) = map cpu_fixed (m_cpus s)"
  by (cases "i < length (m_cpus s)") (simp_all add: map_update cpu_fixed_def list_update_same_conv list_update_beyond)

lemma ap_main_fixed: "map cpu_fixed (m_cpus (ap_main i s)) = map cpu_fixed (m_cpus s)"
  "lapic_writes (ap_main i s) = lapic_writes s"
  by (simp_all add: ap_main_def upd_cpu_def upd_active_fixed split: option.split)

definition ap_writes :: "u64 \<Rightarrow> u32 \<times> u32 \<times> bool \<times> u64 \<times> u64 \<Rightarrow> (u64 \<times> u32) list" where
  "ap_writes base c = (case c of (i, lapic_id, bsp, b, st) \<Rightarrow>
     if bsp then [] else map (\<lambda>(reg, value). (base + reg, value)) (ap_sequence lapic_id))"

lemma start_cpu_effect:
  assumes "i < length (m_cpus s)"
  shows "map cpu_fixed (m_cpus (start_cpu responds base i s)) = map cpu_fixed (m_cpus s)"
    "lapic_writes (start_cpu responds base i s) = lapic_writes s @ ap_writes base (map cpu_fixed (m_cpus s) ! i)"
  using assms by (simp_all add: start_cpu_def ap_main_fixed lapic_run_writes ap_writes_def cpu_fixed_def Let_def)

lemma start_all_effect:
  "n \<le> length (m_cpus s) \<Longrightarrow>
   map cpu_fixed (m_cpus (fold (start_cpu responds base) [0..<n] s)) = map cpu_fixed (m_cpus s) \<and>
   lapic_writes (fold (start_cpu responds base) [0..<n] s) =
     lapic_writes s @ concat (map (ap_writes base) (take n (map cpu_fixed (m_cpus s))))"
proof (induction n)
  case (Suc n)
  let ?t = "fold (start_cpu responds base) [0..<n] s"
  have IH: "map cpu_fixed (m_cpus ?t) = map cpu_fixed (m_cpus s)"
      "lapic_writes ?t = lapic_writes s @ concat (map (ap_writes base) (take n (map cpu_fixed (m_cpus s))))"
    using Suc by simp_all
  have n: "n < length (m_cpus ?t)" using IH(1) Suc.prems by (metis Suc_le_lessD length_map)
  have t: "take (Suc n) (map cpu_fixed (m_cpus s)) = take n (map cpu_fixed (m_cpus s)) @ [map cpu_fixed (m_cpus s) ! n]"
    using Suc.prems by (intro take_Suc_conv_app_nth) simp
  show ?case
    using start_cpu_effect [OF n, of responds base] IH unfolding t by simp
qed simp

lemma detect_active_writes: "lapic_writes (detect_active_cores s) = lapic_writes s"
  by (simp add: detect_active_cores_def split: option.split)

text \<open>
  When the table names a boot processor, start-up sends every other processor, in the order of the table, the INIT and
  then twice the start-up interrupt for the page of the trampoline, all through the boot processor's APIC.
\<close>

theorem startup_sequence_correct:
  assumes "m_smp_enabled s" "1 < m_cpu_count s" "find_index ci_is_bsp (m_cpus s) = Some b"
  shows "lapic_writes (startup_application_processors responds trampoline s) = lapic_writes s @
    concat (map (\<lambda>c. map (\<lambda>(reg, value). (ci_local_apic_base (m_cpus s ! b) + reg, value)) (ap_sequence (ci_lapic_id c)))
      (filter (\<lambda>c. \<not> ci_is_bsp c) (m_cpus s)))"
proof -
  let ?s = "s\<lparr>g_ap_ready_count := 0, g_ap_lock := 0,
    smp_vm := map_page CPU_TRAMPOLINE_ADDR CPU_TRAMPOLINE_ADDR True (smp_vm s),
    smp_mem := poke (smp_mem s) CPU_TRAMPOLINE_ADDR trampoline\<rparr>"
  have "concat (map (ap_writes base) (map cpu_fixed xs)) =
      concat (map (\<lambda>c. map (\<lambda>(reg, value). (base + reg, value)) (ap_sequence (ci_lapic_id c))) (filter (\<lambda>c. \<not> ci_is_bsp c) xs))"
    for base xs
    by (induction xs) (simp_all add: ap_writes_def cpu_fixed_def)
  moreover have "startup_application_processors responds trampoline s = detect_active_cores
      (fold (start_cpu responds (ci_local_apic_base (m_cpus s ! b))) [0..<length (m_cpus s)] ?s)"
    using assms by (simp add: startup_application_processors_def Let_def not_le)
  ultimately show ?thesis
    using start_all_effect [of "length (m_cpus ?s)" ?s responds "ci_local_apic_base (m_cpus s ! b)"]
    by (simp add: detect_active_writes)
qed

section \<open>The boot processor is not recognised\<close>

text \<open>
  The code compares the identifier of a processor with the upper bits of \<^verbatim>\<open>IA32_APIC_BASE\<close>. They hold the address of
  the APIC, not its identifier.
\<close>

definition bsp_ids :: "u64 \<Rightarrow> cpu_info list \<Rightarrow> bool" where
  "bsp_ids hi xs \<longleftrightarrow> (\<forall>c \<in> set xs. ci_is_bsp c \<longrightarrow> ucast (ci_lapic_id c) = hi)"

lemma add_cpu_bsp:
  assumes "bsp_ids hi (m_cpus (snd st)) \<and> drop_bit 24 (apic_msr (snd st)) = hi"
  shows "bsp_ids hi (m_cpus (snd (add_cpu m madt e st))) \<and> drop_bit 24 (apic_msr (snd (add_cpu m madt e st))) = hi"
proof -
  have "(ucast (ucast (w :: u8) :: u32) :: u64) = ucast w" for w
    by (rule bit_word_eqI) (auto simp: bit_simps dest: bit_imp_le_length)
  then show ?thesis
    using assms by (cases st; cases "cpu_stack (smp_vm (snd st))")
      (auto simp: add_cpu_def bsp_ids_def is_bsp_lapic_def new_cpu_def Let_def)
qed

lemma detect_cpus_bsp:
  assumes "detect_cpus s = Some t" "get_madt (smp_acpi s) \<noteq> nullptr" "m_cpus s = []" "1 < m_cpu_count t"
  shows "bsp_ids (drop_bit 24 (apic_msr s)) (m_cpus t) \<and> apic_msr t = apic_msr s"
proof -
  let ?madt = "get_madt (smp_acpi s)" let ?m = "smp_mem s"
  obtain k s1 where w: "walk_madt ?m (add_cpu ?m ?madt) (madt_limit ?m ?madt) (madt_first ?madt) (0, s) = Some (k, s1)"
      and t: "t = (let s = s1\<lparr>m_cpu_count := (if k \<noteq> 0 then k else 1)\<rparr>
          in if m_cpus s = [] then s\<lparr>m_cpus := [bsp_only], m_cpu_count := 1\<rparr> else s)"
    using assms(1,2) by (auto simp: detect_cpus_def Let_def)
  have "bsp_ids (drop_bit 24 (apic_msr s)) (m_cpus (snd (k, s1))) \<and> drop_bit 24 (apic_msr (snd (k, s1))) = drop_bit 24 (apic_msr s)"
    by (rule walk_madt_invariant [OF w, where P = "\<lambda>st. bsp_ids (drop_bit 24 (apic_msr s)) (m_cpus (snd st)) \<and>
        drop_bit 24 (apic_msr (snd st)) = drop_bit 24 (apic_msr s)"])
      (use assms(3) in \<open>simp_all add: add_cpu_bsp bsp_ids_def [of _ "[]"]\<close>)
  moreover have "apic_msr (snd (k, s1)) = apic_msr s"
    by (rule walk_madt_invariant [OF w, where P = "\<lambda>st. apic_msr (snd st) = apic_msr s"])
      (auto simp: add_cpu_def Let_def split: prod.splits)
  ultimately show ?thesis using t assms(4) by (auto simp: Let_def split: if_splits)
qed

lemma take_root_madt: "take_root m f pointers p st = (True, a, v) \<Longrightarrow> get_madt a \<noteq> nullptr"
  by (auto simp: take_root_def get_madt_def Let_def split: if_splits prod.splits)

lemma init_acpi_madt: "init_acpi m (a0, v0) = Some (True, a, v) \<Longrightarrow> get_madt a \<noteq> nullptr"
  by (auto simp: init_acpi_def Let_def bind_eq_Some_conv split: if_splits dest: take_root_madt)

lemma init_local_apic_fields:
  "map (\<lambda>c. (ci_id c, ci_lapic_id c, ci_is_bsp c)) (m_cpus (init_local_apic s)) =
     map (\<lambda>c. (ci_id c, ci_lapic_id c, ci_is_bsp c)) (m_cpus s)"
  "apic_msr (init_local_apic s) = apic_msr s OR MSR_APIC_ENABLE" "m_cpu_count (init_local_apic s) = m_cpu_count s"
proof -
  have "map (\<lambda>c. (ci_id c, ci_lapic_id c, ci_is_bsp c)) (xs[i := (xs ! i)\<lparr>ci_local_apic_base := b\<rparr>]) =
      map (\<lambda>c. (ci_id c, ci_lapic_id c, ci_is_bsp c)) xs" for xs :: "cpu_info list" and i b
    by (cases "i < length xs") (simp_all add: map_update list_update_same_conv list_update_beyond)
  then show "map (\<lambda>c. (ci_id c, ci_lapic_id c, ci_is_bsp c)) (m_cpus (init_local_apic s)) =
      map (\<lambda>c. (ci_id c, ci_lapic_id c, ci_is_bsp c)) (m_cpus s)"
    by (simp add: init_local_apic_def lapic_run_writes upd_cpu_def Let_def split: option.split)
qed (simp_all add: init_local_apic_def lapic_run_writes upd_cpu_def Let_def split: option.split)

lemma init_io_apic_fields:
  assumes "init_io_apic s = Some t"
  shows "m_cpus t = m_cpus s \<and> apic_msr t = apic_msr s \<and> m_cpu_count t = m_cpu_count s"
proof (cases "get_madt (smp_acpi s) = nullptr")
  case True
  then show ?thesis using assms by (simp add: init_io_apic_def)
next
  case False
  then have w: "walk_madt (smp_mem s) (map_io_apic (smp_mem s)) (madt_limit (smp_mem s) (get_madt (smp_acpi s)))
      (madt_first (get_madt (smp_acpi s))) s = Some t"
    using assms by (simp add: init_io_apic_def Let_def)
  show ?thesis
    by (rule walk_madt_invariant [OF w, where P = "\<lambda>t. m_cpus t = m_cpus s \<and> apic_msr t = apic_msr s \<and> m_cpu_count t = m_cpu_count s"])
      (simp_all add: map_io_apic_def Let_def)
qed

lemma bsp_ids_fields:
  assumes "map (\<lambda>c. (ci_id c, ci_lapic_id c, ci_is_bsp c)) xs = map (\<lambda>c. (ci_id c, ci_lapic_id c, ci_is_bsp c)) ys" "bsp_ids hi ys"
  shows "bsp_ids hi xs"
proof -
  have e: "bsp_ids hi zs \<longleftrightarrow> (\<forall>(i, l, b) \<in> set (map (\<lambda>c. (ci_id c, ci_lapic_id c, ci_is_bsp c)) zs). b \<longrightarrow> ucast l = hi)" for zs :: "cpu_info list"
    by (auto simp: bsp_ids_def)
  show ?thesis unfolding e [of xs] assms(1) using assms(2) unfolding e [of ys] .
qed

lemma smp_initialize_bsp:
  assumes "smp_initialize edx s = Some t" "m_cpus s = []" "m_cpu_count s = 1" "1 < m_cpu_count t"
  shows "bsp_ids (drop_bit 24 (apic_msr s)) (m_cpus t) \<and> apic_msr t = apic_msr s OR MSR_APIC_ENABLE"
proof -
  have "edx AND CPUID_FEAT_EDX_APIC \<noteq> 0" using assms by (auto simp: smp_initialize_def)
  then obtain ok a v where i: "init_acpi (smp_mem s) (smp_acpi s, smp_vm s) = Some (ok, a, v)"
    using assms(1) by (auto simp: smp_initialize_def bind_eq_Some_conv)
  let ?s = "s\<lparr>smp_acpi := a, smp_vm := v\<rparr>"
  have ok
    using assms i \<open>edx AND CPUID_FEAT_EDX_APIC \<noteq> 0\<close>
    by (cases ok) (auto simp: smp_initialize_def init_local_apic_fields Let_def)
  with i assms(1) \<open>edx AND CPUID_FEAT_EDX_APIC \<noteq> 0\<close> obtain s1 s2 where 1: "detect_cpus ?s = Some s1"
      and 2: "init_io_apic (init_local_apic s1) = Some s2" and t: "t = s2\<lparr>m_smp_enabled := True\<rparr>"
    by (auto simp: smp_initialize_def bind_eq_Some_conv)
  have f: "m_cpus t = m_cpus (init_local_apic s1)" "apic_msr t = apic_msr s1 OR MSR_APIC_ENABLE" "m_cpu_count t = m_cpu_count s1"
    using init_io_apic_fields [OF 2] t by (simp_all add: init_local_apic_fields)
  have "bsp_ids (drop_bit 24 (apic_msr s)) (m_cpus s1) \<and> apic_msr s1 = apic_msr s"
  proof -
    have "get_madt (smp_acpi ?s) \<noteq> nullptr" using init_acpi_madt i \<open>ok\<close> by simp
    moreover have "m_cpus ?s = []" "1 < m_cpu_count s1" using assms(2,4) f(3) by simp_all
    ultimately show ?thesis using detect_cpus_bsp [OF 1] by simp
  qed
  then show ?thesis using f(1,2) bsp_ids_fields [OF init_local_apic_fields(1)] by simp
qed

text \<open>
  C29: With the APIC at its usual address, and no processor with the identifier 254, a machine with several processors ends
  up without a boot processor in its table: start-up sends nothing to anyone, and every processor takes itself for number 0.
\<close>

theorem other_processors_never_started:
  assumes "apic_msr s = 0xFEE00900" "m_cpus s = []" "m_cpu_count s = 1" "smp_initialize edx s = Some t"
    "1 < m_cpu_count t" "254 \<notin> ci_lapic_id ` set (m_cpus t)"
  shows "(\<forall>c \<in> set (m_cpus t). \<not> ci_is_bsp c) \<and> get_current_cpu_id t = 0 \<and>
    lapic_writes (startup_application_processors responds trampoline t) = lapic_writes t \<and>
    m_cpus (startup_application_processors responds trampoline t) = m_cpus t"
proof -
  have b: "bsp_ids 0xFE (m_cpus t)" "apic_msr t = 0xFEE00900"
    using smp_initialize_bsp [OF assms(4,2,3,5)] assms(1) by (simp_all add: MSR_APIC_ENABLE_def)
  have u: "x = 254" if "(ucast (x :: u32) :: u64) = 254" for x
    proof -
    have "unat (ucast x :: u64) = 254" using that by simp
    then show ?thesis by (simp add: word_unat_eq_iff)
  qed
  have no: "\<forall>c \<in> set (m_cpus t). \<not> ci_is_bsp c"
    using b(1) assms(6) u by (force simp: bsp_ids_def)
  then have "find ci_is_bsp (m_cpus t) = None" "find_index ci_is_bsp (m_cpus t) = None"
    by (auto simp: find_None_iff find_index_None)
  moreover have "find (\<lambda>c. ci_lapic_id c = 0xFE) (m_cpus t) = None"
    using assms(6) by (force simp: find_None_iff)
  ultimately show ?thesis
    using no b(2) by (simp add: get_current_cpu_id_def startup_application_processors_def Let_def)
qed

text \<open>Although nothing started them, \<open>detect_active_cores\<close> reports every processor with a stack as active.\<close>

theorem stack_counts_as_active:
  assumes "m_smp_enabled s" "1 < m_cpu_count s" "get_current_cpu_info s = Some i" "ci_local_apic_base (m_cpus s ! i) \<noteq> nullptr"
  shows "map ci_is_active (m_cpus (detect_active_cores s)) = map (\<lambda>c. ci_is_bsp c \<or> ci_kernel_stack c \<noteq> 0) (m_cpus s)"
  using assms(1,3,4) assms(2) [folded not_le] by (simp add: detect_active_cores_def comp_def)

section \<open>A machine with two processors\<close>

definition place :: "u64 \<Rightarrow> bytes \<Rightarrow> mem \<Rightarrow> mem" where
  "place base bs m a = (let k = unat (a - base) in if k < length bs then bs ! k else m a)"

definition madt_bytes :: bytes where
  "madt_bytes = [0x41,0x50,0x49,0x43, 60,0,0,0, 1,0xB4, 0,0,0,0,0,0, 0,0,0,0,0,0,0,0, 0,0,0,0, 0,0,0,0, 0,0,0,0,
     0,0,0xE0,0xFE, 0,0,0,0, 0,8,0,0,1,0,0,0, 0,8,1,1,1,0,0,0]"

definition rsdt_bytes :: bytes where
  "rsdt_bytes = [0x52,0x53,0x44,0x54, 40,0,0,0, 1,0x6A, 0,0,0,0,0,0, 0,0,0,0,0,0,0,0, 0,0,0,0, 0,0,0,0, 0,0,0,0, 0,0x30,0,0]"

definition rsdp_bytes :: bytes where
  "rsdp_bytes = [0x52,0x53,0x44,0x20,0x50,0x54,0x52,0x20, 0xC1, 0,0,0,0,0,0, 0, 0,0x20,0,0]"

definition firmware :: mem where
  "firmware = place 0xE0000 rsdp_bytes (place 0xFFFF800000002000 rsdt_bytes (place 0xFFFF800000003000 madt_bytes (\<lambda>_. 0)))"

definition two_cpus :: "vmm \<Rightarrow> smp" where
  "two_cpus v = \<lparr>m_cpu_count = 1, m_cpus = [], m_smp_enabled = False, apic_msr = 0xFEE00900, lapic_writes = [], smp_vm = v,
     smp_acpi = acpi_start, smp_mem = firmware, g_ap_ready_count = 0, g_ap_lock = 0, g_ap_target_cpu = 0\<rparr>"

definition holds :: "mem \<Rightarrow> u64 \<Rightarrow> bytes \<Rightarrow> bool" where
  "holds m base bs \<longleftrightarrow> bytes_at m base (length bs) = bs"

lemma holds_byte: "holds m base bs \<Longrightarrow> k < length bs \<Longrightarrow> m (base + of_nat k) = bs ! k"
proof -
  assume h: "holds m base bs" "k < length bs"
  have "bytes_at m base (length bs) ! k = m (base + of_nat k)" using h(2) by (simp add: bytes_at_def)
  with h(1) show ?thesis by (simp add: holds_def)
qed

lemma holds_get32:
  assumes "holds m base bs" "k + 3 < length bs"
  shows "get32 m (base + of_nat k) = ucast (bs ! k) OR push_bit 8 (ucast (bs ! (k + 1))) OR
    push_bit 16 (ucast (bs ! (k + 2))) OR push_bit 24 (ucast (bs ! (k + 3)))"
proof -
  have b: "m (base + of_nat k + of_nat j) = bs ! (k + j)" if "j \<le> 3" for j
    using holds_byte [OF assms(1), of "k + j"] assms(2) that by (simp add: add.assoc)
  have u: "(ucast (ucast (x :: u8) OR push_bit 8 (ucast y) :: u16) :: u32) = ucast x OR push_bit 8 (ucast (y :: u8))" for x y
    by (rule bit_word_eqI) (auto simp: bit_simps dest: bit_imp_le_length)
  show ?thesis
    using b [of 0] b [of 1] b [of 2] b [of 3]
    by (simp add: get32_def get16_def u push_bit_or add.assoc or.assoc push_bit_push_bit)
qed

lemma holds_place:
  assumes "length bs \<le> 2 ^ 32"
  shows "holds (place base bs m) base bs"
  using assms unat_of_nat_u64
  by (auto simp: holds_def bytes_at_def place_def Let_def intro!: nth_equalityI)

lemma holds_place_other:
  assumes "holds m base' bs'" "\<And>k. k < length bs' \<Longrightarrow> length bs \<le> unat (base' + of_nat k - base)"
  shows "holds (place base bs m) base' bs'"
proof -
  have "place base bs m (base' + of_nat k) = m (base' + of_nat k)" if "k < length bs'" for k
    using leD [OF assms(2) [OF that]] by (simp add: place_def)
  then have "bytes_at (place base bs m) base' (length bs') = bytes_at m base' (length bs')"
    by (simp add: bytes_at_def)
  then show ?thesis using assms(1) by (simp add: holds_def)
qed

lemma byte_sum_holds: "holds m base bs \<Longrightarrow> n = length bs \<Longrightarrow> byte_sum m base n = sum_list bs"
proof -
  have "byte_sum m base n = sum_list (bytes_at m base n)" for n
    by (induction n) (simp_all add: bytes_at_def)
  then show "holds m base bs \<Longrightarrow> n = length bs \<Longrightarrow> ?thesis" by (simp add: holds_def)
qed

lemma far_away:
  assumes "unat (base' - base) + n < 2 ^ 64" "length bs \<le> unat (base' - base)" "k < n"
  shows "length bs \<le> unat (base' + of_nat k - base :: u64)"
proof -
  have e: "base' + of_nat k - base = (base' - base) + of_nat k" by simp
  have "unat ((base' - base) + of_nat k) = unat (base' - base) + k"
    using assms(1,3) by (subst unat_plus_u64) (simp_all add: unat_of_nat_u64)
  then show ?thesis unfolding e using trans_le_add1 [OF assms(2), of k] by simp
qed

lemma firmware_holds:
  "holds firmware 0xE0000 rsdp_bytes" "holds firmware 0xFFFF800000002000 rsdt_bytes" "holds firmware 0xFFFF800000003000 madt_bytes"
proof -
  show "holds firmware 0xE0000 rsdp_bytes"
    unfolding firmware_def by (rule holds_place) (simp add: rsdp_bytes_def)
  have rsdt: "holds (place 0xFFFF800000002000 rsdt_bytes m) 0xFFFF800000002000 rsdt_bytes" for m
    by (rule holds_place) (simp add: rsdt_bytes_def)
  have madt: "holds (place 0xFFFF800000003000 madt_bytes m) 0xFFFF800000003000 madt_bytes" for m
    by (rule holds_place) (simp add: madt_bytes_def)
  show "holds firmware 0xFFFF800000002000 rsdt_bytes"
    unfolding firmware_def
    by (rule holds_place_other [OF rsdt], rule far_away [where n = 40]) (simp_all add: rsdp_bytes_def rsdt_bytes_def)
  show "holds firmware 0xFFFF800000003000 madt_bytes"
    unfolding firmware_def
  proof (rule holds_place_other [OF holds_place_other [OF madt]])
    fix k assume k: "k < length madt_bytes"
    show "length rsdt_bytes \<le> unat (0xFFFF800000003000 + of_nat k - 0xFFFF800000002000 :: u64)"
      by (rule far_away [where n = 60]) (use k in \<open>simp_all add: rsdt_bytes_def madt_bytes_def\<close>)
    show "length rsdp_bytes \<le> unat (0xFFFF800000003000 + of_nat k - 0xE0000 :: u64)"
      by (rule far_away [where n = 60]) (use k in \<open>simp_all add: rsdp_bytes_def madt_bytes_def\<close>)
  qed
qed

lemma holds_take: "holds m base bs \<Longrightarrow> n \<le> length bs \<Longrightarrow> bytes_at m base n = take n bs"
  by (rule nth_equalityI) (simp_all add: bytes_at_def holds_byte)

lemmas rsdp_reads = holds_get32 [OF firmware_holds(1), of 16] holds_byte [OF firmware_holds(1), of 15]
lemmas rsdt_reads = holds_get32 [OF firmware_holds(2), of 4] holds_get32 [OF firmware_holds(2), of 36]
lemmas madt_reads = holds_get32 [OF firmware_holds(3), of 4] holds_get32 [OF firmware_holds(3), of 48]
  holds_get32 [OF firmware_holds(3), of 56] holds_byte [OF firmware_holds(3), of 44] holds_byte [OF firmware_holds(3), of 45]
  holds_byte [OF firmware_holds(3), of 47] holds_byte [OF firmware_holds(3), of 52] holds_byte [OF firmware_holds(3), of 53]
  holds_byte [OF firmware_holds(3), of 55]

lemma firmware_root: "find_root firmware = Some 0xE0000"
proof -
  have "byte_sum firmware 0xE0000 20 = sum_list rsdp_bytes"
    by (rule byte_sum_holds [OF firmware_holds(1)]) (simp add: rsdp_bytes_def)
  then have "byte_sum firmware 0xE0000 20 = 0" by (simp add: rsdp_bytes_def)
  moreover have "rsdp_revision firmware 0xE0000 = 0"
    using rsdp_reads(2) by (simp add: rsdp_revision_def rsdp_bytes_def)
  moreover have "signature_is RSDP_signature firmware 0xE0000"
  proof -
    have "length RSDP_signature = 8" "take 8 rsdp_bytes = RSDP_signature"
      by (simp_all add: RSDP_signature_def cstr_def rsdp_bytes_def)
    then show ?thesis
      using holds_take [OF firmware_holds(1), of 8] by (simp add: signature_is_def rsdp_bytes_def)
  qed
  ultimately have "rsdp_at firmware 0xE0000" by (simp add: rsdp_at_def)
  moreover have "ebda_address firmware = 0"
    by (simp add: ebda_address_def get16_def firmware_def place_def Let_def rsdp_bytes_def rsdt_bytes_def madt_bytes_def)
  ultimately show ?thesis by (simp add: find_root_def find_rsdp.simps)
qed

lemma firmware_rsdt:
  "root_table firmware 0xE0000 = (0xFFFF800000002000, [0x3000])" "verify_table_checksum firmware 0xFFFF800000002000"
proof -
  have l: "table_length firmware 0xFFFF800000002000 = 40"
    using rsdt_reads(1) by (simp add: table_length_def rsdt_bytes_def)
  have "rsdp_revision firmware 0xE0000 = 0" "rsdp_rsdt_address firmware 0xE0000 = 0x2000"
    using rsdp_reads by (simp_all add: rsdp_revision_def rsdp_rsdt_address_def rsdp_bytes_def)
  moreover have "rsdt_pointers firmware 0xFFFF800000002000 = [0x3000]"
    using rsdt_reads(2) l
    by (simp add: rsdt_pointers_def rsdt_pointer_def table_entries_def sizeof_sdt_header_def rsdt_bytes_def)
  ultimately show "root_table firmware 0xE0000 = (0xFFFF800000002000, [0x3000])"
    by (simp add: root_table_def window_def)
  show "verify_table_checksum firmware 0xFFFF800000002000"
    using byte_sum_holds [OF firmware_holds(2), of 40] l by (simp add: verify_table_checksum_def rsdt_bytes_def)
qed

lemma firmware_madt:
  "table_length firmware 0xFFFF800000003000 = 60" "tables_of firmware [0x3000] = [0xFFFF800000003000]"
  "signature_is APIC_signature firmware 0xFFFF800000003000"
proof -
  show l: "table_length firmware 0xFFFF800000003000 = 60"
    using madt_reads(1) by (simp add: table_length_def madt_bytes_def)
  show "tables_of firmware [0x3000] = [0xFFFF800000003000]"
    using byte_sum_holds [OF firmware_holds(3), of 60] l
    by (simp add: tables_of_def window_def verify_table_checksum_def madt_bytes_def)
  show "signature_is APIC_signature firmware 0xFFFF800000003000"
  proof -
    have "length APIC_signature = 4" "take 4 madt_bytes = APIC_signature"
      by (simp_all add: APIC_signature_def cstr_def madt_bytes_def)
    then show ?thesis
      using holds_take [OF firmware_holds(3), of 4] by (simp add: signature_is_def madt_bytes_def)
  qed
qed

lemma firmware_acpi:
  "\<exists>a v'. init_acpi firmware (acpi_start, v) = Some (True, a, v') \<and> get_madt a = 0xFFFF800000003000"
  using init_acpi_spec [of firmware v] firmware_madt(2,3)
  by (auto simp: firmware_root firmware_rsdt)

lemma firmware_entries:
  "entry_walk firmware (madt_limit firmware 0xFFFF800000003000) (madt_first 0xFFFF800000003000) [0xFFFF80000000302C, 0xFFFF800000003034]"
  "enabled_apic firmware 0xFFFF80000000302C" "enabled_apic firmware 0xFFFF800000003034"
  "firmware 0xFFFF80000000302F = 0" "firmware 0xFFFF800000003037 = 1"
proof -
  show "entry_walk firmware (madt_limit firmware 0xFFFF800000003000) (madt_first 0xFFFF800000003000) [0xFFFF80000000302C, 0xFFFF800000003034]"
    using madt_reads(5,8) firmware_madt(1)
    by (auto simp: madt_limit_def madt_first_def madt_bytes_def intro!: entry_walk.intros)
qed (use madt_reads in \<open>simp_all add: enabled_apic_def madt_bytes_def\<close>)


definition with_madt :: "vmm \<Rightarrow> smp" where
  "with_madt v = (two_cpus v)\<lparr>smp_acpi := acpi_start\<lparr>g_madt := 0xFFFF800000003000\<rparr>\<rparr>"

theorem detect_cpus_correct_witness:
  "\<forall>v. \<exists>s'. detect_cpus (with_madt v) = Some s' \<and> map (\<lambda>c. (ci_id c, ci_lapic_id c)) (m_cpus s') = [(0, 0), (1, 1)]"
proof
  fix v
  have "\<exists>s'. detect_cpus (with_madt v) = Some s' \<and>
      map cpu_row (m_cpus s') = [apic_row firmware 0xFFFF800000003000 0xFEE00900 (0, 0xFFFF80000000302C),
        apic_row firmware 0xFFFF800000003000 0xFEE00900 (1, 0xFFFF800000003034)]"
    using detect_cpus_correct [of "with_madt v" "0xFFFF800000003000" "[0xFFFF80000000302C, 0xFFFF800000003034]"] firmware_entries
    by (auto simp: with_madt_def two_cpus_def get_madt_def)
  then show "\<exists>s'. detect_cpus (with_madt v) = Some s' \<and> map (\<lambda>c. (ci_id c, ci_lapic_id c)) (m_cpus s') = [(0, 0), (1, 1)]"
    using firmware_entries(4,5) by (auto simp: cpu_row_def apic_row_def map_eq_Cons_conv)
qed

lemma two_cpus_initialize:
  "\<exists>t. smp_initialize CPUID_FEAT_EDX_APIC (two_cpus v) = Some t \<and> map ci_lapic_id (m_cpus t) = [0, 1] \<and> m_cpu_count t = 2"
proof -
  obtain a v' where a: "init_acpi firmware (acpi_start, v) = Some (True, a, v')" "get_madt a = 0xFFFF800000003000"
    using firmware_acpi by blast
  let ?s = "(two_cpus v)\<lparr>smp_acpi := a, smp_vm := v'\<rparr>"
  obtain s1 where 1: "detect_cpus ?s = Some s1" "map cpu_row (m_cpus s1) =
        [apic_row firmware 0xFFFF800000003000 0xFEE00900 (0, 0xFFFF80000000302C),
         apic_row firmware 0xFFFF800000003000 0xFEE00900 (1, 0xFFFF800000003034)]" "unat (m_cpu_count s1) = 2"
    using detect_cpus_spec [of ?s "0xFFFF800000003000" "[0xFFFF80000000302C, 0xFFFF800000003034]"] firmware_entries a(2)
    by (auto simp: two_cpus_def)
  have n: "m_cpu_count s1 = 2" using 1(3) by (simp add: word_unat_eq_iff)
  have "\<exists>s2. init_io_apic (init_local_apic s1) = Some s2"
  proof (cases "get_madt (smp_acpi (init_local_apic s1)) = nullptr")
    case True
    then show ?thesis by (simp add: init_io_apic_def)
  next
    case False
    have keep: "smp_mem s1 = firmware \<and> smp_acpi s1 = a"
    proof -
      have "walk_madt firmware (add_cpu firmware 0xFFFF800000003000) (madt_limit firmware 0xFFFF800000003000)
          (madt_first 0xFFFF800000003000) (0, ?s) = Some st \<Longrightarrow> smp_mem (snd st) = firmware \<and> smp_acpi (snd st) = a" for st
        by (erule walk_madt_invariant [where P = "\<lambda>st. smp_mem (snd st) = firmware \<and> smp_acpi (snd st) = a"])
          (auto simp: add_cpu_def two_cpus_def Let_def split: prod.splits)
      then show ?thesis using 1(1) a(2)
        by (auto simp: detect_cpus_def two_cpus_def Let_def split: if_splits)
    qed
    have "smp_mem (init_local_apic s1) = firmware" "get_madt (smp_acpi (init_local_apic s1)) = 0xFFFF800000003000"
      using keep a(2) by (simp_all add: init_local_apic_def lapic_run_writes upd_cpu_def Let_def split: option.split)
    then show ?thesis by (simp add: init_io_apic_def walk_madt_entries [OF firmware_entries(1)])
  qed
  then obtain s2 where 2: "init_io_apic (init_local_apic s1) = Some s2" by blast
  have f: "m_cpus s2 = m_cpus (init_local_apic s1)" "m_cpu_count s2 = 2"
    using init_io_apic_fields [OF 2] n by (simp_all add: init_local_apic_fields)
  have "map ci_lapic_id (m_cpus s2) = map ci_lapic_id (m_cpus s1)"
    using arg_cong [OF init_local_apic_fields(1) [of s1], of "map (fst \<circ> snd)"] f(1) by (simp add: comp_def)
  also have "\<dots> = map (fst \<circ> snd) (map cpu_row (m_cpus s1))" by (simp add: cpu_row_def comp_def)
  finally have "map ci_lapic_id (m_cpus s2) = [0, 1]"
    unfolding 1(2) using firmware_entries(4,5) by (simp add: apic_row_def)
  moreover have "smp_initialize CPUID_FEAT_EDX_APIC (two_cpus v) = Some (s2\<lparr>m_smp_enabled := True\<rparr>)"
    using a(1) 1(1) 2 by (simp add: smp_initialize_def two_cpus_def CPUID_FEAT_EDX_APIC_def)
  ultimately show ?thesis using f(2) by simp
qed

theorem other_processors_never_started_witness:
  "\<forall>v responds trampoline. \<exists>t. smp_initialize CPUID_FEAT_EDX_APIC (two_cpus v) = Some t \<and> m_cpu_count t = 2 \<and>
     lapic_writes (startup_application_processors responds trampoline t) = lapic_writes t"
proof (intro allI)
  fix v responds trampoline
  obtain t where t: "smp_initialize CPUID_FEAT_EDX_APIC (two_cpus v) = Some t" "map ci_lapic_id (m_cpus t) = [0, 1]" "m_cpu_count t = 2"
    using two_cpus_initialize [of v] by (elim exE conjE)
  have "ci_lapic_id ` set (m_cpus t) = set [0, 1]" unfolding t(2) [symmetric] by simp
  then have "254 \<notin> ci_lapic_id ` set (m_cpus t)" by simp
  then have "lapic_writes (startup_application_processors responds trampoline t) = lapic_writes t"
    using other_processors_never_started [OF _ _ _ t(1)] t(3) by (simp add: two_cpus_def)
  then show "\<exists>t. smp_initialize CPUID_FEAT_EDX_APIC (two_cpus v) = Some t \<and> m_cpu_count t = 2 \<and>
     lapic_writes (startup_application_processors responds trampoline t) = lapic_writes t"
    using t by blast
qed

theorem startup_sequence_correct_witness:
  "\<forall>v. lapic_writes (startup_application_processors (\<lambda>_. True) [] ((two_cpus v)\<lparr>m_smp_enabled := True, m_cpu_count := 2,
       m_cpus := [bsp_only, new_cpu\<lparr>ci_id := 1, ci_lapic_id := 1\<rparr>]\<rparr>)) =
     [(0xFEE00310, 0x1000000), (0xFEE00300, 0x4500), (0xFEE00310, 0x1000000), (0xFEE00300, 0x4608),
      (0xFEE00310, 0x1000000), (0xFEE00300, 0x4608)]"
  using startup_sequence_correct [of "(two_cpus v)\<lparr>m_smp_enabled := True, m_cpu_count := 2,
       m_cpus := [bsp_only, new_cpu\<lparr>ci_id := 1, ci_lapic_id := 1\<rparr>]\<rparr>" 0 "\<lambda>_. True" "[]" for v]
  by (simp add: two_cpus_def bsp_only_def new_cpu_def ap_sequence_def LAPIC_ICR_HIGH_def LAPIC_ICR_LOW_def AP_STARTUP_VECTOR_def
      DEFAULT_LAPIC_BASE_def)

end
