(* ===== verification/System_Commands.thy ===== *)
theory System_Commands
  imports Command_Proofs Clock Smp Message_IPC
begin

text \<open>
  The commands about the machine: \<^verbatim>\<open>cores\<close>, \<^verbatim>\<open>memory\<close>, \<^verbatim>\<open>ipctest\<close>, \<^verbatim>\<open>shutdown\<close> and \<^verbatim>\<open>crash\<close>. They join the models of the
  processors, the frame allocator, message queues and shared memory with the console. The printed digits of a
  floating-point number are an argument, as in \<open>Printf\<close>. \<^verbatim>\<open>shutdown\<close> and \<^verbatim>\<open>crash\<close> do not return: their result is the machine when the
  processor has stopped.
\<close>

section \<open>Processors\<close>

definition yes_no :: "bool \<Rightarrow> arg" where
  "yes_no b = Str (Some (if b then cstr ''Yes'' else cstr ''No''))"

definition cores_line :: "smp \<Rightarrow> nat \<Rightarrow> world \<Rightarrow> world option" where
  "cores_line s i w =
    (case get_cpu_info (of_nat i) s of
       None \<Rightarrow> Some w
     | Some k \<Rightarrow>
         let c = m_cpus s ! k
         in say (cstr ''%2u | %7u | %3s | %6s | 0x%016lx'' @ [10])
              [Slot (ucast (ci_id c)), Slot (ucast (ci_lapic_id c)), yes_no (ci_is_bsp c), yes_no (ci_is_active c),
               Slot (ci_kernel_stack c)] w)"

definition cores_body :: "smp \<Rightarrow> world \<Rightarrow> world option" where
  "cores_body s w = do {
     w \<leftarrow> say (cstr ''ID | LAPIC ID | BSP | Active | Stack Address'' @ [10]) [] w;
     w \<leftarrow> say (cstr ''---+---------+-----+--------+-------------'' @ [10]) [] w;
     for_all (cores_line s) [0..<unat (m_cpu_count s)] w
   }"

definition cmd_cores :: "platform \<Rightarrow> smp \<times> world \<Rightarrow> (smp \<times> world) option" where
  "cmd_cores pl st =
    (case st of (s, w) \<Rightarrow>
       let s = detect_active_cores s in map_option (\<lambda>w. (s, w)) (in_process pl (cstr ''cores'') (cores_body s) w))"

section \<open>Memory\<close>

text \<open>\<open>pf\<close> gives the digits of a floating-point argument, \<open>mb\<close> the representation of a number of bytes in megabytes.\<close>

definition memory_error :: "string \<Rightarrow> world \<Rightarrow> world option" where
  "memory_error msg w = do {
     w \<leftarrow> say (cstr msg @ [10]) [] (w\<lparr>con := set_red (con w)\<rparr>);
     Some (w\<lparr>con := reset_color (con w)\<rparr>)
   }"

definition memory_body :: "(int \<Rightarrow> u64 \<Rightarrow> bytes) \<Rightarrow> (u64 \<Rightarrow> u64) \<Rightarrow> world \<Rightarrow> world option" where
  "memory_body pf mb w =
    (let p = vm_pmm (k_vm (krn w)); free_frames = get_free_frames p; total_frames = get_total_frames p in
     if total_frames = 0 \<or> free_frames > total_frames then memory_error ''Error: Invalid memory state'' w
     else
       let used_frames = total_frames - free_frames in
       if total_frames > 0xFFFFFFFFFFFFFFFF div 4096 then memory_error ''Error: Memory size too large to represent'' w
       else map_option (\<lambda>(bs, _). put bs w)
              (vprintf pf (cstr ''%.2f MB used of available %.2f MB'' @ [10])
                [Slot (mb (used_frames * 4096)), Slot (mb (total_frames * 4096))]))"

definition cmd_memory :: "(int \<Rightarrow> u64 \<Rightarrow> bytes) \<Rightarrow> (u64 \<Rightarrow> u64) \<Rightarrow> platform \<Rightarrow> world \<Rightarrow> world option" where
  "cmd_memory pf mb pl = in_process pl (cstr ''memory'') (memory_body pf mb)"

section \<open>The test of the interprocess communication\<close>

text \<open>An operation of the IPC manager on the kernel of the world.\<close>

definition on_ipc :: "(ipc \<Rightarrow> 'r \<times> ipc) \<Rightarrow> ipc \<times> world \<Rightarrow> 'r \<times> ipc \<times> world" where
  "on_ipc f st = (case st of (i, w) \<Rightarrow> let (r, i) = f (i\<lparr>kern := krn w\<rparr>) in (r, i, w\<lparr>krn := kern i\<rparr>))"

definition announce :: "bytes \<Rightarrow> arg list \<Rightarrow> ipc \<times> world \<Rightarrow> (ipc \<times> world) option" where
  "announce fmt args st = map_option (\<lambda>w. (fst st, w)) (say (fmt @ [10]) args (snd st))"

text \<open>\<open>snprintf\<close> of the kernel copies its format, so this is the name.\<close>

definition ipc_test_name :: bytes where "ipc_test_name = cstr ''test_queue_%d_%lu''"
definition ipc_test_message :: bytes where "ipc_test_message = cstr ''Hello from IPC test!''"
definition shm_test_message :: bytes where "shm_test_message = cstr ''Hello from shared memory!''"

definition int_slot :: "int \<Rightarrow> arg" where "int_slot i = Slot (ucast (of_int i :: 32 word))"
definition quoted :: "string \<Rightarrow> bytes" where "quoted s = cstr s @ [34] @ cstr ''%s'' @ [34]"

text \<open>A result that is only reported.\<close>

definition report :: "bool \<Rightarrow> string \<Rightarrow> string \<Rightarrow> ipc \<times> world \<Rightarrow> (ipc \<times> world) option" where
  "report ok failed done st = announce (cstr (if \<not> ok then failed else done)) [] st"

definition shm_part :: "int \<Rightarrow> pid_t \<Rightarrow> mem \<Rightarrow> ipc \<times> world \<Rightarrow> (mem \<times> ipc \<times> world) option" where
  "shm_part queue_id test_pid m st =
    (let (shm_id, st) = on_ipc (create_shared_memory test_pid 4096) st in
     if shm_id < 0 then do {
       st \<leftarrow> announce (cstr ''Failed to create shared memory'') [] st;
       Some (m, snd (on_ipc (destroy_message_queue queue_id) st))
     }
     else do {
       st \<leftarrow> announce (cstr ''Created shared memory with ID: %d'') [int_slot shm_id] st;
       let (shm_addr, st) = on_ipc (attach_shared_memory shm_id test_pid) st;
       if shm_addr = nullptr then do {
         st \<leftarrow> announce (cstr ''Failed to attach shared memory'') [] st;
         let st = snd (on_ipc (destroy_shared_memory shm_id) st);
         Some (m, snd (on_ipc (destroy_message_queue queue_id) st))
       }
       else do {
         st \<leftarrow> announce (cstr ''Attached shared memory at address: 0x%llx'') [Slot shm_addr] st;
         let m = poke m shm_addr (shm_test_message @ [0]);
         st \<leftarrow> announce (quoted ''Wrote to shared memory: '') [Str (Some shm_test_message)] st;
         st \<leftarrow> announce (quoted ''Read from shared memory: '')
                [Str (Some (takeWhile (\<lambda>c. c \<noteq> 0) (bytes_at m shm_addr (length shm_test_message + 1))))] st;
         let (ok, st) = on_ipc (detach_shared_memory shm_id test_pid) st;
         st \<leftarrow> report ok ''Failed to detach shared memory'' ''Detached shared memory'' st;
         let (ok, st) = on_ipc (destroy_shared_memory shm_id) st;
         st \<leftarrow> report ok ''Failed to destroy shared memory'' ''Destroyed shared memory'' st;
         let (ok, st) = on_ipc (destroy_message_queue queue_id) st;
         st \<leftarrow> report ok ''Failed to destroy message queue'' ''Destroyed message queue'' st;
         st \<leftarrow> announce (cstr ''IPC test completed successfully!'') [] st;
         Some (m, st)
       }
     })"

definition ipc_test_body :: "platform \<Rightarrow> u64 \<Rightarrow> pid_t \<Rightarrow> mem \<Rightarrow> ipc \<times> world \<Rightarrow> (mem \<times> ipc \<times> world) option" where
  "ipc_test_body pl queue test_pid m st =
    (let (queue_id, st) = on_ipc (create_message_queue queue test_pid ipc_test_name) st in
     if queue_id < 0 then map_option (\<lambda>st. (m, st)) (announce (cstr ''Failed to create message queue'') [] st)
     else do {
       st \<leftarrow> announce (cstr ''Created message queue with ID: %d'') [int_slot queue_id] st;
       let (ok, st) = on_ipc (send_message queue_id test_pid (ipc_test_message @ [0]) (length ipc_test_message + 1)) st;
       if \<not> ok then do {
         st \<leftarrow> announce (cstr ''Failed to send message'') [] st;
         Some (m, snd (on_ipc (destroy_message_queue queue_id) st))
       }
       else do {
         st \<leftarrow> announce (quoted ''Sent message: '') [Str (Some ipc_test_message)] st;
         (received, i) \<leftarrow> receive_message id (pl_cpu pl) queue_id False ((fst st)\<lparr>kern := krn (snd st)\<rparr>);
         let st = (i, (snd st)\<lparr>krn := kern i\<rparr>);
         case received of
           None \<Rightarrow> do {
             st \<leftarrow> announce (cstr ''Failed to receive message'') [] st;
             Some (m, snd (on_ipc (destroy_message_queue queue_id) st))
           }
         | Some msg \<Rightarrow> do {
             st \<leftarrow> announce (quoted ''Received message from PID %d: '')
                    [Slot (ucast (msg_sender msg)), Str (Some (takeWhile (\<lambda>c. c \<noteq> 0) (msg_data msg)))] st;
             shm_part queue_id test_pid m st
           }
       }
     })"

definition cmd_ipc_test :: "platform \<Rightarrow> u64 \<Rightarrow> mem \<times> ipc \<times> world \<Rightarrow> (mem \<times> ipc \<times> world) option" where
  "cmd_ipc_test pl queue st =
    (case st of (m, i, w) \<Rightarrow> do {
       (pid, k) \<leftarrow> create_process (pl_new pl (krn w)) (cstr ''ipc_test'') (shell_pid w) (krn w);
       (m, i, w) \<leftarrow> ipc_test_body pl queue pid m (i, w\<lparr>krn := k\<rparr>);
       k \<leftarrow> terminate_process (pl_cpu pl) pid (krn w);
       Some (m, i\<lparr>kern := k\<rparr>, w\<lparr>krn := k\<rparr>)
     })"

section \<open>Commands that do not return\<close>

definition on_world :: "(world \<Rightarrow> world option) \<Rightarrow> machine \<Rightarrow> machine option" where
  "on_world f mc = map_option (\<lambda>w. mc\<lparr>mch_shell := (mch_shell mc)\<lparr>wld := w\<rparr>\<rparr>) (f (wld (mch_shell mc)))"

definition start_process :: "platform \<Rightarrow> bytes \<Rightarrow> world \<Rightarrow> world option" where
  "start_process pl name w =
     map_option (\<lambda>(pid, k). w\<lparr>krn := k\<rparr>) (create_process (pl_new pl (krn w)) name (shell_pid w) (krn w))"

definition cmd_shutdown :: "platform \<Rightarrow> machine \<Rightarrow> machine option" where
  "cmd_shutdown pl mc = do {
     mc \<leftarrow> on_world (start_process pl (cstr ''shutdown'')) mc;
     mc \<leftarrow> on_world (say ([10] @ cstr ''Shutting down the system...'' @ [10]) []) mc;
     let mc = fold (\<lambda>(port, v). outb port v) [(0x604, 0x00), (0x604, 0x01), (0xB004, 0x00), (0x4004, 0x00), (0x64, 0xFE)] mc;
     mc \<leftarrow> on_world (say (cstr ''Shutdown failed.'' @ [10]) []) mc;
     Some (mc\<lparr>mch_halted := True\<rparr>)
   }"

text \<open>The undefined instruction raises exception 6, without an error code; the registers are those at the instruction.\<close>

definition cmd_crash :: "platform \<Rightarrow> register_state \<Rightarrow> machine \<Rightarrow> machine option" where
  "cmd_crash pl regs mc = do {
     mc \<leftarrow> on_world (start_process pl (cstr ''crash'')) mc;
     isr_handler 0 \<lparr>frame_regs = regs, interrupt_number = 6, error_code = 0\<rparr> mc
   }"

section \<open>The commands as processes\<close>

lemma cores_line_kernel: "cores_line s i w = Some w' \<Longrightarrow> krn w' = krn w"
  by (auto simp: cores_line_def Let_def split: option.split_asm dest: say_kernel)

lemma cores_lines_kernel: "for_all (cores_line s) xs w = Some w' \<Longrightarrow> krn w' = krn w"
  by (induction xs arbitrary: w) (auto simp: bind_eq_Some_conv dest: cores_line_kernel)

interpretation cores: command_body "cores_body s" for s
  by unfold_locales (auto simp: cores_body_def bind_eq_Some_conv dest!: say_kernel cores_lines_kernel)

lemma memory_error_kernel: "memory_error msg w = Some w' \<Longrightarrow> krn w' = krn w"
  by (auto simp: memory_error_def bind_eq_Some_conv dest!: say_kernel)

interpretation memory: command_body "memory_body pf mb" for pf mb
  by unfold_locales (auto simp: memory_body_def Let_def split: if_split_asm dest: memory_error_kernel)

text \<open>
  \<^verbatim>\<open>cores\<close> and \<^verbatim>\<open>memory\<close> leave the process table and the queues as they found them, and \<^verbatim>\<open>cores\<close> shows the table of the processors
  with the activity as \<open>detect_active_cores\<close> has just set it.
\<close>

theorem report_commands_leave_processes:
  assumes "can_start pl ps (krn w)"
  shows "(\<forall>s s' w'. cmd_cores pl (s, w) = Some (s', w') \<longrightarrow> s' = detect_active_cores s \<and> same_processes ps (krn w) (krn w')) \<and>
    (\<forall>pf mb w'. cmd_memory pf mb pl w = Some w' \<longrightarrow> same_processes ps (krn w) (krn w'))"
  using cores.ends_its_process [OF assms] memory.ends_its_process [OF assms]
  by (auto simp: cmd_cores_def cmd_memory_def Let_def)

text \<open>With a sound frame allocator \<^verbatim>\<open>memory\<close> never reports an error, and the two numbers are the frames in use and all frames.\<close>

theorem memory_reports_use:
  assumes "pmm_ok (vm_pmm (k_vm (krn w)))" "n_frames (vm_pmm (k_vm (krn w))) \<noteq> 0"
  shows "\<exists>used total. memory_body pf mb w = map_option (\<lambda>(bs, _). put bs w)
      (vprintf pf (cstr ''%.2f MB used of available %.2f MB'' @ [10]) [Slot (mb used), Slot (mb total)]) \<and>
    unat total = 4096 * n_frames (vm_pmm (k_vm (krn w))) \<and>
    unat used = 4096 * (n_frames (vm_pmm (k_vm (krn w))) - card (pmm_free (vm_pmm (k_vm (krn w)))))"
proof -
  let ?p = "vm_pmm (k_vm (krn w))"
  let ?t = "get_total_frames ?p" and ?f = "get_free_frames ?p"
  have t: "unat ?t = n_frames ?p" by (simp add: get_total_frames_def n_frames_def)
  have f: "unat ?f = card (pmm_free ?p)" using card_pmm_free [OF assms(1)] by (simp add: get_free_frames_def)
  have "card (free_indices ?p) \<le> card {..<n_frames ?p}"
    by (rule card_mono) (auto simp: free_indices_def)
  then have le: "card (pmm_free ?p) \<le> n_frames ?p"
    using assms(1) card_pmm_free [OF assms(1)] by (simp add: pmm_ok_def)
  have n: "n_frames ?p \<le> 524288" using assms(1) by (simp add: pmm_ok_def BITMAP_WORDS_def)
  have "?t \<noteq> 0" using t assms(2) by (metis unat_0)
  moreover have "\<not> ?f > ?t" using t f le by (simp add: word_less_nat_alt)
  moreover have "\<not> ?t > 0xFFFFFFFFFFFFFFFF div 4096" using t n by (simp add: word_less_nat_alt)
  ultimately have "memory_body pf mb w = map_option (\<lambda>(bs, _). put bs w)
      (vprintf pf (cstr ''%.2f MB used of available %.2f MB'' @ [10]) [Slot (mb ((?t - ?f) * 4096)), Slot (mb (?t * 4096))])"
    by (simp add: memory_body_def Let_def)
  moreover have "unat (?t * 4096) = 4096 * n_frames ?p"
    using t n by (subst unat_mult_u64) simp_all
  moreover have "unat ((?t - ?f) * 4096) = 4096 * (n_frames ?p - card (pmm_free ?p))"
  proof -
    have "unat (?t - ?f) = n_frames ?p - card (pmm_free ?p)"
      using t f le by (subst unat_minus_u64) (simp_all add: word_le_nat_alt)
    then show ?thesis using n by (subst unat_mult_u64) simp_all
  qed
  ultimately show ?thesis by blast
qed

section \<open>The IPC test\<close>

text \<open>
  The queue part of the test on a sound table: the message it sends is the one it receives, from its own pid, and the queue can be destroyed
  afterwards.
\<close>

theorem ipc_test_receives:
  assumes "ipc_ok s" "queue \<notin> set (m_message_queues s)" "queue \<noteq> nullptr" "find_name ipc_test_name s = None"
    and "create_message_queue queue pid ipc_test_name s = (i, s1)"
  shows "0 < i \<and> (\<exists>s2 msg s3. send_message i pid (ipc_test_message @ [0]) (length ipc_test_message + 1) s1 = (True, s2) \<and>
    receive_message env cpu i False s2 = Some (Some msg, s3) \<and> msg_sender msg = pid \<and>
    msg_data msg = ipc_test_message @ [0] \<and> fst (destroy_message_queue i s3))"
proof -
  let ?m = "ipc_test_message @ [0]"
  have len: "length ipc_test_message + 1 = length ?m" "length ?m \<le> MAX_MESSAGE_SIZE"
    by (simp_all add: ipc_test_message_def cstr_def MAX_MESSAGE_SIZE_def)
  have c: "0 < i \<and> queue_of_id i s1 = Some queue \<and> mqs s1 queue = new_queue pid ipc_test_name"
    using assms(5) by - (rule create_message_queue_spec [OF assms(1-4), of pid], simp)
  define message where "message = \<lparr>msg_sender = pid, msg_timestamp = kernel.timer_ticks (kern s1), msg_data = ?m\<rparr>"
  define s2 where "s2 = upd_mq queue (\<lambda>q. q\<lparr>mq_messages := mq_messages q @ [message]\<rparr>) s1"
  have 2: "send_message i pid ?m (length ipc_test_message + 1) s1 = (True, s2)"
    using c len by (simp add: send_message_def queue_send_def is_full_def MAX_MESSAGES_PER_QUEUE_def new_queue_def Let_def
        s2_def message_def upd_mq_def)
  have q2: "queue_of_id i s2 = Some queue" using c by (simp add: s2_def)
  have m2: "mq_messages (mqs s2 queue) = [message]" using c by (simp add: s2_def upd_mq_def new_queue_def)
  define s3 where "s3 = upd_mq queue (\<lambda>m. m\<lparr>mq_messages := erase_at 0 (mq_messages m)\<rparr>) s2"
  have 3: "receive_message env cpu i False s2 = Some (Some message, s3)"
    using q2 m2 by (simp add: receive_message_def queue_receive_def take_message_def s3_def)
  have "queue_of_id i s3 = Some queue" using q2 by (simp add: s3_def)
  then have "fst (destroy_message_queue i s3)" by (simp add: destroy_message_queue_def)
  then show ?thesis using c 2 3 by (auto simp: message_def)
qed

lemma on_world_fields:
  "on_world f mc = Some mc' \<Longrightarrow> mch_outs mc' = mch_outs mc \<and> mch_halted mc' = mch_halted mc"
  by (auto simp: on_world_def)

lemma report_exception_halts: "report_exception frame mc = Some mc' \<Longrightarrow> mch_halted mc'"
  by (auto simp: report_exception_def bind_eq_Some_conv)

section \<open>The machine stops\<close>

theorem shutdown_and_crash_halt:
  "(cmd_shutdown pl mc = Some mc' \<longrightarrow> mch_halted mc' \<and>
      mch_outs mc' = mch_outs mc @ [(0x604, 0x00), (0x604, 0x01), (0xB004, 0x00), (0x4004, 0x00), (0x64, 0xFE)]) \<and>
   (cmd_crash pl regs mc = Some mc' \<longrightarrow> mch_halted mc')"
proof (intro conjI impI)
  assume s: "cmd_shutdown pl mc = Some mc'"
  show "mch_halted mc'" using s by (auto simp: cmd_shutdown_def bind_eq_Some_conv)
  show "mch_outs mc' = mch_outs mc @ [(0x604, 0x00), (0x604, 0x01), (0xB004, 0x00), (0x4004, 0x00), (0x64, 0xFE)]"
    using s by (auto simp: cmd_shutdown_def bind_eq_Some_conv outb_def dest!: on_world_fields)
next
  assume "cmd_crash pl regs mc = Some mc'"
  then show "mch_halted mc'" by (auto simp: cmd_crash_def bind_eq_Some_conv isr_handler_def dest: report_exception_halts)
qed

end
