(* ===== verification/Boot.thy ===== *)
theory Boot
  imports Interrupts Clock Smp Dynamic_Linker
begin

text \<open>
  The entry of the kernel, \<open>core/kernel.cpp\<close>, and the constructors it is started with, \<open>core/init.cpp\<close>.

  The global objects of the kernel are the fields of one record. The frame allocator and the page tables are those of the process
  manager; the heap and the processor manager get them for their calls and give them back. What the linker and the firmware
  determine (addresses of tables and stubs, the trampoline, the answer of \<open>cpuid\<close>, which processors respond) is the record
  \<open>image\<close>. The Multiboot information has been read before, by the code that calls \<open>kernel_main\<close>. The result is \<open>True\<close> when the
  kernel idles with interrupts enabled and \<open>False\<close> when it has returned.
\<close>

section \<open>State\<close>

record image =
  im_gdt :: u64
  im_idt :: u64
  im_isr :: "nat \<Rightarrow> u64"
  im_timer_handler :: u64
  im_trampoline :: bytes
  im_cpuid_edx :: u32
  im_responds :: "u32 \<Rightarrow> bool"
  im_platform :: platform
  im_commands :: "bytes \<Rightarrow> world \<Rightarrow> world option"

record boot =
  bt_machine :: machine
  bt_gdt :: gdt_state
  bt_idt :: idt_state
  bt_info :: boot_info
  bt_regs :: control_regs
  bt_timer :: timer
  bt_cmos :: cmos
  bt_heap :: heap
  bt_smp :: smp
  bt_linker :: linker

definition bt_world :: "boot \<Rightarrow> world" where
  "bt_world b = wld (mch_shell (bt_machine b))"

definition upd_world :: "(world \<Rightarrow> world) \<Rightarrow> boot \<Rightarrow> boot" where
  "upd_world f b =
    (let mc = bt_machine b; sh = mch_shell mc in b\<lparr>bt_machine := mc\<lparr>mch_shell := sh\<lparr>wld := f (wld sh)\<rparr>\<rparr>\<rparr>)"

definition bt_vm :: "boot \<Rightarrow> vmm" where
  "bt_vm b = k_vm (krn (bt_world b))"

definition upd_krn :: "(kernel \<Rightarrow> kernel) \<Rightarrow> boot \<Rightarrow> boot" where
  "upd_krn f = upd_world (\<lambda>w. w\<lparr>krn := f (krn w)\<rparr>)"

definition upd_vm :: "(vmm \<Rightarrow> vmm) \<Rightarrow> boot \<Rightarrow> boot" where
  "upd_vm f = upd_krn (\<lambda>k. k\<lparr>k_vm := f (k_vm k)\<rparr>)"

text \<open>The constructors that the linker has collected, called in their order.\<close>

definition init_global_constructors :: "('s \<Rightarrow> 's) list \<Rightarrow> 's \<Rightarrow> 's" where
  "init_global_constructors ctors s = fold (\<lambda>ctor. ctor) ctors s"

section \<open>Run-time support\<close>

text \<open>
  \<open>lib/cxxabi.cpp\<close>: the guard words of local static objects. A call of a pure virtual function never returns. \<open>static_instance\<close> is
  what every \<open>instance\<close> function compiles to.
\<close>

definition cxa_guard_acquire :: "u64 \<Rightarrow> bool" where "cxa_guard_acquire g \<longleftrightarrow> g AND 1 = 0"
definition cxa_guard_release :: "u64 \<Rightarrow> u64" where "cxa_guard_release g = 1"
definition cxa_guard_abort :: "u64 \<Rightarrow> u64" where "cxa_guard_abort g = 0"
definition cxa_atexit :: int where "cxa_atexit = 0"
definition cxa_pure_virtual :: "'s \<Rightarrow> 's option" where "cxa_pure_virtual s = None"

definition static_instance :: "('s \<Rightarrow> 's) \<Rightarrow> u64 \<times> 's \<Rightarrow> u64 \<times> 's" where
  "static_instance ctor = (\<lambda>(g, s). if cxa_guard_acquire g then (cxa_guard_release g, ctor s) else (g, s))"

section \<open>Stages\<close>

text \<open>A mark in the screen memory.\<close>

definition boot_mark :: "nat \<Rightarrow> string \<Rightarrow> boot \<Rightarrow> boot" where
  "boot_mark k msg = upd_world (\<lambda>w. w\<lparr>con :=
     fold (\<lambda>(i, c). set_cell (of_nat (i + k)) (0x0F00 OR scast c)) (enumerate 0 (cstr msg)) (con w)\<rparr>)"

text \<open>\<open>init_gdt\<close> changes the low halves of two control registers.\<close>

definition boot_gdt :: "u64 \<Rightarrow> boot \<Rightarrow> boot" where
  "boot_gdt addr b =
    (let r = bt_regs b;
         g = init_gdt addr ((bt_gdt b)\<lparr>gdt_state.cr0 := ucast (control_regs.cr0 r), gdt_state.cr4 := ucast (control_regs.cr4 r)\<rparr>)
     in b\<lparr>bt_gdt := g, bt_regs := r\<lparr>control_regs.cr0 := ucast (gdt_state.cr0 g), control_regs.cr4 := ucast (gdt_state.cr4 g)\<rparr>\<rparr>)"

definition boot_tables :: "image \<Rightarrow> boot \<Rightarrow> boot" where
  "boot_tables im b =
    (let b = boot_mark 0 ''[1] Kernel Start'' b;
         b = boot_gdt (im_gdt im) b;
         b = boot_mark 80 ''[2] GDT Init Done'' b;
         b = b\<lparr>bt_machine := (bt_machine b)\<lparr>mch_outs := init_pic (mch_outs (bt_machine b))\<rparr>\<rparr>;
         b = boot_mark 160 ''[3] PIC Init Done'' b;
         b = b\<lparr>bt_idt := init_idt (im_isr im) (im_idt im) (bt_idt b)\<rparr>
     in boot_mark 240 ''[4] IDT Init Done'' b)"

definition MEMORY_START :: u64 where "MEMORY_START = 0x100000"
definition MEMORY_SIZE :: u64 where "MEMORY_SIZE = 64 * 1024 * 1024"
definition HEAP_SIZE :: u64 where "HEAP_SIZE = 16 * 1024 * 1024"
definition heap_start :: u64 where "heap_start = MEMORY_START + MEMORY_SIZE - HEAP_SIZE"

definition map_heap :: "vmm \<Rightarrow> vmm" where
  "map_heap = fold (\<lambda>i. let addr = heap_start + of_nat i * 4096 in map_page addr addr True) [0..<unat (HEAP_SIZE div 4096)]"

text \<open>The frame allocator is set up in the same way with and without a memory map.\<close>

definition boot_memory :: "boot \<Rightarrow> boot" where
  "boot_memory b =
    (let mb_memory_map = get_memory_map (bt_info b);
         b = (if mb_memory_map \<noteq> nullptr
              then upd_vm (\<lambda>v. v\<lparr>vm_pmm := initialize MEMORY_START MEMORY_SIZE (vm_pmm v)\<rparr>) b
              else upd_vm (\<lambda>v. v\<lparr>vm_pmm := initialize MEMORY_START MEMORY_SIZE (vm_pmm v)\<rparr>) b);
         b = boot_mark 320 ''[5] PMM Init Done'' b;
         b = upd_vm vm_initialize b;
         b = boot_mark 400 ''[6] VMM Init Done'' b;
         b = upd_vm map_heap b;
         b = boot_mark 480 ''[7] Heap Mapped'' b;
         b = b\<lparr>bt_regs := load_page_directory (bt_vm b) (bt_regs b)\<rparr>
     in boot_mark 560 ''[8] Page Tables Loaded'' b)"

definition boot_timer :: "image \<Rightarrow> boot \<Rightarrow> boot" where
  "boot_timer im b =
    (let (c, outs, t) = init_timer (im_timer_handler im) 100 (bt_timer b, mch_outs (bt_machine b), bt_idt b)
     in b\<lparr>bt_timer := c, bt_machine := (bt_machine b)\<lparr>mch_outs := outs\<rparr>, bt_idt := t\<rparr>)"

definition boot_devices :: "image \<Rightarrow> boot \<Rightarrow> boot" where
  "boot_devices im b =
    (let b = b\<lparr>bt_machine := set_kbd init_keyboard (bt_machine b)\<rparr>;
         b = boot_mark 640 ''[9] Keyboard Init Done'' b;
         b = b\<lparr>bt_machine := set_kbd (register_keyboard_handler (process_keypress (im_commands im) (im_platform im))) (bt_machine b)\<rparr>;
         b = boot_mark 720 ''[10] Keyboard Handler Registered'' b;
         b = boot_timer im b;
         b = boot_mark 800 ''[11] Timer Init Done'' b;
         b = b\<lparr>bt_cmos := init_rtc (bt_cmos b)\<rparr>;
         b = boot_mark 880 ''[12] RTC Init Done'' b
     in b\<lparr>bt_heap := heap_initialize heap_start HEAP_SIZE ((bt_heap b)\<lparr>hp_pmm := vm_pmm (bt_vm b)\<rparr>)\<rparr>)"

text \<open>An operation of the processor manager on the page tables of the kernel.\<close>

definition on_smp :: "(smp \<Rightarrow> smp option) \<Rightarrow> boot \<Rightarrow> boot option" where
  "on_smp f b = map_option (\<lambda>s. upd_vm (\<lambda>_. smp_vm s) (b\<lparr>bt_smp := s\<rparr>)) (f ((bt_smp b)\<lparr>smp_vm := bt_vm b\<rparr>))"

definition boot_processors :: "image \<Rightarrow> boot \<Rightarrow> boot option" where
  "boot_processors im b =
    (let b = upd_krn (sched_initialize RoundRobin (m_cpu_count (bt_smp b))) b;
         b = boot_mark 1120 ''[14] Scheduler Init Done'' b
     in do {
       b \<leftarrow> on_smp (smp_initialize (im_cpuid_edx im)) b;
       let b = boot_mark 1200 ''[15] SMP Init Done'' b;
       if m_smp_enabled (bt_smp b)
       then map_option (boot_mark 1280 ''[16] AP Startup Done'')
              (on_smp (\<lambda>s. Some (startup_application_processors (im_responds im) (im_trampoline im) s)) b)
       else Some b
     })"

definition kernel_main :: "image \<Rightarrow> boot \<Rightarrow> (bool \<times> boot) option" where
  "kernel_main im b =
    (let b = boot_devices im (boot_memory (boot_tables im b));
         (mounted, v) = mount (vol (bt_world b));
         b = upd_world (\<lambda>w. w\<lparr>vol := v\<rparr>) b
     in if \<not> mounted
        then map_option (\<lambda>w. (False, upd_world (\<lambda>_. w) b)) (say (cstr ''FAT32: Failed to mount filesystem'' @ [10]) [] (bt_world b))
        else do {
          b \<leftarrow> boot_processors im (boot_mark 960 ''[13] Filesystem Mounted'' b);
          let b = b\<lparr>bt_linker := snd (linker_initialize (bt_linker b))\<rparr>;
          let b = upd_world (\<lambda>w. w\<lparr>con := terminal_initialize (con w)\<rparr>) b;
          sh \<leftarrow> init_shell (im_platform im) (mch_shell (bt_machine b));
          Some (True, b\<lparr>bt_machine := (bt_machine b)\<lparr>mch_shell := sh\<rparr>\<rparr>)
        })"

section \<open>Frames are only taken\<close>

definition shrinks :: "pmm \<Rightarrow> pmm \<Rightarrow> bool" where
  "shrinks p p' \<longleftrightarrow> n_frames p' = n_frames p \<and> m_memory_start p' = m_memory_start p \<and> free_indices p' \<subseteq> free_indices p"

lemma shrinks_refl [simp]: "shrinks p p"
  by (simp add: shrinks_def)

lemma shrinks_trans: "shrinks p q \<Longrightarrow> shrinks q r \<Longrightarrow> shrinks p r"
  by (auto simp: shrinks_def)

lemma allocate_frame_shrinks: "shrinks p (snd (allocate_frame p))"
  by (auto simp: allocate_frame_def allocate_scan_spec shrinks_def free_indices_mark)

lemma create_page_table_shrinks: "create_page_table s = (t, s') \<Longrightarrow> shrinks (vm_pmm s) (vm_pmm s')"
  using allocate_frame_shrinks [of "vm_pmm s"] by (auto simp: create_page_table_def split: prod.split_asm)

lemma get_next_level_shrinks: "get_next_level t i c s = (t', s') \<Longrightarrow> shrinks (vm_pmm s) (vm_pmm s')"
  by (auto simp: get_next_level_def Let_def split: if_splits prod.split_asm dest: create_page_table_shrinks)

lemma map_page_shrinks: "shrinks (vm_pmm s) (vm_pmm (map_page va pa w s))"
proof -
  obtain t1 s1 where l1: "get_next_level (m_pml4 s) (pml4_index va) True s = (t1, s1)" by fastforce
  obtain t2 s2 where l2: "get_next_level t1 (pdpt_index va) True s1 = (t2, s2)" by fastforce
  obtain t3 s3 where l3: "get_next_level t2 (pd_index va) True s2 = (t3, s3)" by fastforce
  note g = get_next_level_shrinks [OF l1] get_next_level_shrinks [OF l2] get_next_level_shrinks [OF l3]
  then show ?thesis
    using shrinks_trans [OF g(1,2)] shrinks_trans [OF shrinks_trans [OF g(1,2)] g(3)]
    by (simp add: map_page_def Let_def l1 l2 l3)
qed

lemma map_first_16mb_pmm [simp]: "vm_pmm (map_first_16mb pd s) = vm_pmm s"
proof -
  have "vm_pmm (fold (\<lambda>i. set_entry pd i (f i)) xs s) = vm_pmm s" for f xs
    by (induction xs arbitrary: s) (simp_all add: set_entry_def)
  then show ?thesis by (simp add: map_first_16mb_def)
qed

lemma vm_initialize_shrinks: "shrinks (vm_pmm s) (vm_pmm (vm_initialize s))"
proof -
  have step: "shrinks p (vm_pmm s')" if "create_page_table s1 = (t, s')" "shrinks p (vm_pmm s1)" for p s1 t s'
    using create_page_table_shrinks [OF that(1)] that(2) shrinks_trans by blast
  have last: "shrinks p (vm_pmm (map_page va pa w s1))" if "shrinks p (vm_pmm s1)" for p va pa w s1
    using map_page_shrinks that shrinks_trans by blast
  have pmm: "vm_pmm (set_entry t i f s1) = vm_pmm s1" for t i f s1 by (simp add: set_entry_def)
  obtain a p where a: "allocate_frame (vm_pmm s) = (a, p)" by fastforce
  then have "shrinks (vm_pmm s) p" using allocate_frame_shrinks [of "vm_pmm s"] by simp
  then show ?thesis
    unfolding vm_initialize_def Let_def a
    by (auto simp: pmm intro!: last split: prod.split elim!: step)
qed

section \<open>The heap region\<close>

text \<open>The last-level tables a list of pages still needs.\<close>

definition missing :: "vmm \<Rightarrow> u64 list \<Rightarrow> nat list set" where
  "missing s vas = {q \<in> leaf_path ` set vas. vm_table s q = None}"

lemma finite_missing [simp]: "finite (missing s vas)"
  by (simp add: missing_def)

lemma missing_keeps:
  assumes "vm_keeps s s'" "vm_ok s"
  shows "missing s' vas \<subseteq> missing s (va # vas)"
proof
  fix q assume q: "q \<in> missing s' vas"
  then obtain a where a: "a \<in> set vas" "q = leaf_path a" by (auto simp: missing_def)
  have "vm_table s q = None" using vm_keeps_table [OF assms, of q] a(2) q by (fastforce simp: missing_def)
  with a show "q \<in> missing s (va # vas)" by (simp add: missing_def)
qed

text \<open>Mapping pages to themselves needs three frames for each missing table and three in reserve, however many pages there are.\<close>

lemma map_identity_spec:
  assumes "vm_ok s" "3 * card (missing s vas) + 3 \<le> vm_budget s"
    and "\<forall>va \<in> set vas. vm_usable s va \<and> vm_leaf s va = None"
    and "distinct vas" "pairwise (\<lambda>a b. \<not> same_page a b) (set vas)"
  shows "vm_ok (fold (\<lambda>va. map_page va va True) vas s) \<and> vm_keeps s (fold (\<lambda>va. map_page va va True) vas s) \<and>
    (\<forall>va \<in> set vas. vm_leaf (fold (\<lambda>va. map_page va va True) vas s) va = Some (leaf_entry (va AND PAGE_MASK) True)) \<and>
    (\<forall>a. (\<forall>va \<in> set vas. \<not> same_page a va) \<longrightarrow> vm_leaf (fold (\<lambda>va. map_page va va True) vas s) a = vm_leaf s a) \<and>
    vm_budget s \<le> vm_budget (fold (\<lambda>va. map_page va va True) vas s) + 3 * card (missing s vas)"
  using assms
proof (induction vas arbitrary: s)
  case Nil
  then show ?case by simp
next
  case (Cons va vas)
  let ?s = "map_page va va True s"
  have u: "vm_clear s (leaf_path va)" "vm_leaf s va = None" "3 \<le> card (pmm_free (vm_pmm s))"
    using Cons.prems by (simp_all add: vm_usable_def vm_budget_def)
  note mp = map_page_spec [OF Cons.prems(1) u(1,3)]
  have other: "\<not> same_page b va" if "b \<in> set vas" for b
    using Cons.prems(4,5) that by (auto simp: pairwise_def)
  have sub: "missing ?s vas \<subseteq> missing s (va # vas)" by (rule missing_keeps [OF mp(6) Cons.prems(1)])
  have cost: "vm_budget s + 3 * card (missing ?s vas) \<le> vm_budget ?s + 3 * card (missing s (va # vas))"
  proof (cases "vm_table s (leaf_path va)")
    case (Some t)
    then have "vm_budget ?s = vm_budget s" using map_page_in_table by (simp add: vm_budget_def)
    with card_mono [OF _ sub] show ?thesis by simp
  next
    case None
    have "vm_leaf ?s va \<noteq> None" using mp(3) [of va True va] u(2) by simp
    then have "vm_table ?s (leaf_path va) \<noteq> None" by (auto simp: vm_leaf_def split: option.splits)
    then have "leaf_path va \<notin> missing ?s vas" "leaf_path va \<in> missing s (va # vas)"
      using None by (simp_all add: missing_def)
    with sub have "missing ?s vas \<subset> missing s (va # vas)" by blast
    then have "card (missing ?s vas) < card (missing s (va # vas))" by (simp add: psubset_card_mono)
    with mp(5) [of va True] show ?thesis by (simp add: vm_budget_def)
  qed
  have IH: "vm_ok (fold (\<lambda>va. map_page va va True) vas ?s) \<and> vm_keeps ?s (fold (\<lambda>va. map_page va va True) vas ?s) \<and>
    (\<forall>va \<in> set vas. vm_leaf (fold (\<lambda>va. map_page va va True) vas ?s) va = Some (leaf_entry (va AND PAGE_MASK) True)) \<and>
    (\<forall>a. (\<forall>va \<in> set vas. \<not> same_page a va) \<longrightarrow> vm_leaf (fold (\<lambda>va. map_page va va True) vas ?s) a = vm_leaf ?s a) \<and>
    vm_budget ?s \<le> vm_budget (fold (\<lambda>va. map_page va va True) vas ?s) + 3 * card (missing ?s vas)"
  proof (rule Cons.IH)
    show "3 * card (missing ?s vas) + 3 \<le> vm_budget ?s" using cost Cons.prems(2) by linarith
    show "\<forall>b \<in> set vas. vm_usable ?s b \<and> vm_leaf ?s b = None"
      using Cons.prems(3) mp(3,4) other by (auto simp: vm_usable_def)
    show "pairwise (\<lambda>a b. \<not> same_page a b) (set vas)" using Cons.prems(5) by (auto simp: pairwise_insert)
  qed (use Cons.prems(4) mp(1) in simp_all)
  have new: "vm_leaf ?s va = Some (leaf_entry (va AND PAGE_MASK) True)" using mp(3) u(2) by simp
  have old: "vm_leaf ?s a = vm_leaf s a" if "\<not> same_page a va" for a using mp(3) that by simp
  have "\<forall>b \<in> set vas. \<not> same_page va b" using Cons.prems(4,5) by (auto simp: pairwise_def)
  then show ?case
    using IH cost new old vm_keeps_trans [OF mp(6)] by auto
qed

definition heap_pages :: "u64 list" where
  "heap_pages = map (\<lambda>i. heap_start + of_nat i * 4096) [0..<4096]"

lemma heap_start_eq: "heap_start = 0x3100000"
  by (simp add: heap_start_def MEMORY_START_def MEMORY_SIZE_def HEAP_SIZE_def)

lemma map_heap_pages: "map_heap = fold (\<lambda>va. map_page va va True) heap_pages"
proof -
  have "unat (HEAP_SIZE div 4096) = 4096" by (simp add: HEAP_SIZE_def)
  then show ?thesis by (simp only: map_heap_def heap_pages_def fold_map comp_def Let_def)
qed

lemma unat_heap_page: "i < 4096 \<Longrightarrow> unat (heap_start + of_nat i * 4096) = 0x3100000 + 4096 * i"
proof -
  assume i: "i < 4096"
  have "unat (of_nat i * 4096 :: u64) = 4096 * i"
    using i by (subst unat_mult_u64) (simp_all add: unat_of_nat_u64)
  then show ?thesis
    using i by (subst unat_plus_u64) (simp_all add: heap_start_eq)
qed

lemma heap_pages_distinct: "distinct heap_pages" "pairwise (\<lambda>a b. \<not> same_page a b) (set heap_pages)"
proof -
  have sep: "\<not> same_page (heap_start + of_nat i * 4096) (heap_start + of_nat j * 4096)" if "i < 4096" "j < 4096" "i \<noteq> j" for i j
    using consecutive_pages [of i j heap_start] consecutive_pages [of j i heap_start] that
    by (cases "i < j") (auto simp: same_page_def)
  show "distinct heap_pages"
    unfolding heap_pages_def distinct_map
  proof (intro conjI inj_onI)
    fix i j assume "i \<in> set [0..<4096]" "j \<in> set [0..<4096]" "heap_start + of_nat i * 4096 = heap_start + of_nat j * 4096"
    then show "i = j" using sep [of i j] by (auto simp del: add_left_cancel)
  qed simp
  show "pairwise (\<lambda>a b. \<not> same_page a b) (set heap_pages)"
    using sep by (fastforce simp: pairwise_def heap_pages_def)
qed

lemma heap_page_path:
  assumes "va \<in> set heap_pages"
  shows "\<exists>k \<in> {24..32}. leaf_path va = [0, 0] @ [k]"
proof -
  obtain i where i: "i < 4096" "va = heap_start + of_nat i * 4096" using assms by (auto simp: heap_pages_def)
  have u: "unat va = 0x3100000 + 4096 * i" using unat_heap_page [OF i(1)] i(2) by simp
  then have "va < 0x40000000" using i(1) by (simp add: word_less_nat_alt)
  from gib_index [OF this] have l: "leaf_path va = [0, 0, unat va div 0x200000]" by (simp add: leaf_path_def)
  have "24 \<le> unat va div 0x200000 \<and> unat va div 0x200000 \<le> 32" using u i(1) by auto
  with l show ?thesis by auto
qed

lemma missing_heap: "card (missing s heap_pages) \<le> 9"
proof -
  have "missing s heap_pages \<subseteq> (\<lambda>k. [0, 0] @ [k]) ` {24..32}"
    using heap_page_path by (fastforce simp: missing_def)
  then have "card (missing s heap_pages) \<le> card ((\<lambda>k. [0 :: nat, 0] @ [k]) ` {24..32})" by (intro card_mono) auto
  also have "\<dots> \<le> card {24 :: nat..32}" by (rule card_image_le) simp
  finally show ?thesis by simp
qed

text \<open>With the directory as the boot tables have it, the whole heap is mapped and nothing below 16 MiB changes.\<close>

lemma map_heap_spec:
  assumes ok: "vm_ok s" and b: "30 \<le> vm_budget s" and pd: "vm_table s [0, 0] = Some pd"
    and e: "\<And>j. j < 512 \<Longrightarrow> pt_mem s (entry_at pd j) = (if j < 8 then huge_entry j else 0)"
  shows "vm_ok (map_heap s) \<and> vm_keeps s (map_heap s) \<and> vm_budget s \<le> vm_budget (map_heap s) + 27 \<and>
    (\<forall>va \<in> set heap_pages. vm_leaf (map_heap s) va = Some (leaf_entry (va AND PAGE_MASK) True))"
proof -
  have free: "vm_usable s va \<and> vm_leaf s va = None" if va: "va \<in> set heap_pages" for va
  proof -
    obtain k where k: "24 \<le> k" "k \<le> 32" "leaf_path va = [0, 0] @ [k]" using heap_page_path [OF va] by auto
    have "pt_mem s (entry_at pd k) = 0" using e [of k] k by simp
    then have none: "vm_table s (leaf_path va) = None"
      using pd unfolding k(3) vm_table_def by (simp only: table_at_snoc) (simp add: next_table_def)
    obtain t where t: "next_table (pt_mem s) (m_pml4 s) 0 = Some t" "next_table (pt_mem s) t 0 = Some pd"
      using pd by (auto simp: vm_table_def split: option.splits)
    have "vm_usable s va"
      unfolding vm_usable_def vm_clear_def path_clear_def k(3)
      using t \<open>pt_mem s (entry_at pd k) = 0\<close> by (auto simp: less_Suc_eq)
    with none show ?thesis by (simp add: vm_leaf_def)
  qed
  have "3 * card (missing s heap_pages) + 3 \<le> vm_budget s" using missing_heap [of s] b by linarith
  note m = map_identity_spec [OF ok this _ heap_pages_distinct, folded map_heap_pages]
  have "vm_budget s \<le> vm_budget (map_heap s) + 3 * card (missing s heap_pages)" using m free by blast
  then have "vm_budget s \<le> vm_budget (map_heap s) + 27" using missing_heap [of s] by linarith
  then show ?thesis using m free by blast
qed

lemma translate_leaf:
  assumes "vm_leaf s va = Some v"
  shows "translate s va = Some (pte_address v OR (va AND 0xFFF))"
proof -
  obtain t where "vm_table s ([pml4_index va, pdpt_index va] @ [pd_index va]) = Some t"
    using assms by (auto simp: vm_leaf_def leaf_path_def split: option.splits)
  then obtain pd where pd: "vm_table s [pml4_index va, pdpt_index va] = Some pd" "next_table (pt_mem s) pd (pd_index va) = Some t"
    unfolding vm_table_def table_at_snoc by (auto split: option.splits)
  then show ?thesis
    using assms by (auto simp: translate_def next_table_def Let_def split: if_splits)
qed

lemma translate_identity:
  assumes "vm_leaf s p = Some (leaf_entry (p AND PAGE_MASK) w)" "p = va AND PAGE_MASK" "va < 2 ^ 48"
  shows "translate s va = Some va"
proof -
  have "unat (va AND mask 48) = unat va" using assms(3) by (subst unat_and_mask) (simp add: word_less_nat_alt)
  then have "va AND mask 48 = va" by (simp add: word_unat_eq_iff)
  then have high: "n < 48" if "bit va n" for n
    using that by (metis bit_and_iff bit_mask_iff)
  have "same_page va p"
    unfolding same_page_iff assms(2) PAGE_MASK_def pte_masks by (rule bit_word_eqI) (auto simp: bit_simps)
  then have "vm_leaf s va = Some (leaf_entry (p AND PAGE_MASK) w)" using assms(1) vm_leaf_same_page by simp
  moreover have "pte_address (leaf_entry (p AND PAGE_MASK) w) OR (va AND 0xFFF) = va"
    unfolding leaf_entry_address assms(2) PAGE_MASK_def pte_masks
    by (rule bit_word_eqI) (auto simp: bit_simps dest: high)
  ultimately show ?thesis by (simp add: translate_leaf)
qed

lemma unat_page: "unat (va AND PAGE_MASK) = unat va div 4096 * 4096"
proof -
  have d: "unat (drop_bit 12 va) = unat va div 4096" using unat_drop_bit [of 12 va] by simp
  have "unat va div 4096 * 4096 \<le> unat va" by simp
  then have l: "unat va div 4096 * 4096 < 18446744073709551616" using unat_u64_lt [of va] by (simp only: le_less_trans)
  have "va AND PAGE_MASK = push_bit 12 (drop_bit 12 va)"
    unfolding PAGE_MASK_def pte_masks by (rule bit_word_eqI) (auto simp: bit_simps)
  also have "\<dots> = drop_bit 12 va * 4096" by (simp add: push_bit_eq_mult)
  also have "unat \<dots> = unat (drop_bit 12 va) * 4096" using l d by (subst unat_mult_u64) simp_all
  finally show ?thesis by (simp add: d)
qed

lemma heap_address_page:
  assumes "heap_start \<le> va" "va < heap_start + HEAP_SIZE"
  shows "va AND PAGE_MASK \<in> set heap_pages" "va < 2 ^ 48"
proof -
  have u: "0x3100000 \<le> unat va" "unat va < 0x4100000"
    using assms by (simp_all add: heap_start_eq HEAP_SIZE_def word_le_nat_alt word_less_nat_alt)
  then show "va < 2 ^ 48" by (simp add: word_less_nat_alt)
  obtain d where d: "unat va = 4096 * 12544 + d" "d < 4096 * 4096"
    using u that [of "unat va - 0x3100000"] by simp
  have i: "d div 4096 < 4096" using d(2) by (simp add: less_mult_imp_div_less)
  have "unat (va AND PAGE_MASK) = 0x3100000 + 4096 * (d div 4096)"
    unfolding unat_page d(1) by (subst div_mult_self4) simp_all
  then have "va AND PAGE_MASK = heap_start + of_nat (d div 4096) * 4096"
    using unat_heap_page [OF i] by (simp only: word_unat_eq_iff)
  with i show "va AND PAGE_MASK \<in> set heap_pages" by (auto simp: heap_pages_def)
qed

section \<open>Memory after the boot\<close>

lemma bt_simps [simp]:
  "bt_world (upd_world f b) = f (bt_world b)" "bt_vm (upd_vm g b) = g (bt_vm b)"
  "bt_vm (boot_mark k msg b) = bt_vm b" "bt_regs (boot_mark k msg b) = bt_regs b" "bt_heap (boot_mark k msg b) = bt_heap b"
  "bt_regs (upd_vm g b) = bt_regs b" "bt_smp (boot_mark k msg b) = bt_smp b"
  "bt_vm (b\<lparr>bt_machine := set_kbd h (bt_machine b)\<rparr>) = bt_vm b" "bt_vm (boot_timer im b) = bt_vm b"
  "bt_regs (boot_timer im b) = bt_regs b" "bt_heap (boot_timer im b) = bt_heap b"
  "m_runqueues (krn (bt_world (upd_vm g b))) = m_runqueues (krn (bt_world b))"
  "krn (bt_world (boot_mark k msg b)) = krn (bt_world b)"
  "bt_vm (b\<lparr>bt_regs := r\<rparr>) = bt_vm b" "bt_vm (b\<lparr>bt_cmos := c\<rparr>) = bt_vm b" "bt_vm (b\<lparr>bt_heap := hp\<rparr>) = bt_vm b"
  by (simp_all add: bt_world_def upd_world_def bt_vm_def upd_vm_def upd_krn_def boot_mark_def Let_def set_kbd_def
      boot_timer_def init_timer_def)

text \<open>The two branches on the memory map are the same.\<close>

lemma boot_memory_vm:
  "bt_vm (boot_memory b) =
     map_heap (vm_initialize ((bt_vm b)\<lparr>vm_pmm := initialize MEMORY_START MEMORY_SIZE (vm_pmm (bt_vm b))\<rparr>))"
  by (simp add: boot_memory_def Let_def)

lemma boot_frames:
  "pmm_ok (initialize MEMORY_START MEMORY_SIZE p)" "n_frames (initialize MEMORY_START MEMORY_SIZE p) = 16384"
  "m_memory_start (initialize MEMORY_START MEMORY_SIZE p) = 0x100000"
  "free_indices (initialize MEMORY_START MEMORY_SIZE p) = {261..<12288}"
  "card (pmm_free (initialize MEMORY_START MEMORY_SIZE p)) = 12027"
proof -
  have "unat MEMORY_START = 1048576" "unat MEMORY_SIZE = 67108864" by (simp_all add: MEMORY_START_def MEMORY_SIZE_def)
  note i = initialize_correct [of MEMORY_SIZE MEMORY_START p, unfolded this, simplified BITMAP_WORDS_def, simplified]
  show ok: "pmm_ok (initialize MEMORY_START MEMORY_SIZE p)" and "free_indices (initialize MEMORY_START MEMORY_SIZE p) = {261..<12288}"
    using i by simp_all
  show "card (pmm_free (initialize MEMORY_START MEMORY_SIZE p)) = 12027"
    using i card_pmm_free [OF ok] by (simp add: get_free_frames_def)
  show "n_frames (initialize MEMORY_START MEMORY_SIZE p) = 16384" "m_memory_start (initialize MEMORY_START MEMORY_SIZE p) = 0x100000"
    unfolding initialize_def Let_def fold_mark_frame_fixed by (simp_all add: n_frames_def PAGE_SIZE_def MEMORY_SIZE_def MEMORY_START_def)
qed

lemma boot_memory_spec:
  fixes b :: boot
  defines "v \<equiv> bt_vm (boot_memory b)"
  shows "vm_ok v" "m_pml4 v \<noteq> nullptr" "11996 \<le> unat (get_free_frames (vm_pmm v))"
    and "free_indices (vm_pmm v) \<subseteq> {261..<12288}" "m_memory_start (vm_pmm v) = 0x100000"
    and "va < 0x1000000 \<Longrightarrow> translate v va = Some va"
    and "heap_start \<le> va \<Longrightarrow> va < heap_start + HEAP_SIZE \<Longrightarrow> translate v va = Some va"
proof -
  let ?p = "initialize MEMORY_START MEMORY_SIZE (vm_pmm (bt_vm b))"
  define s0 where "s0 = (bt_vm b)\<lparr>vm_pmm := ?p\<rparr>"
  note f = boot_frames [of "vm_pmm (bt_vm b)"]
  have p0: "vm_pmm s0 = ?p" by (simp add: s0_def)
  have "page_aligned (m_memory_start ?p)" "unat (m_memory_start ?p) + n_frames ?p * 4096 \<le> 2 ^ 48" "4 \<le> card (pmm_free ?p)"
    using f by (simp_all add: page_aligned_def)
  note tables = vm_initialize_tables [OF f(1) this p0]
  obtain s pd where
    s: "vm_initialize s0 = s" and ok: "vm_ok s" and nz: "m_pml4 s \<noteq> 0"
    and c: "card (pmm_free ?p) = card (pmm_free (vm_pmm s)) + 4" and t: "vm_table s [0, 0] = Some pd"
    and e: "\<And>j. j < 512 \<Longrightarrow> pt_mem s (entry_at pd j) = (if j < 8 then huge_entry j else 0)"
    by (rule tables, rule that) blast+
  have v: "v = map_heap s" using s by (simp add: v_def boot_memory_vm s0_def)
  have "vm_budget s = 12023" using c f(5) by (simp add: vm_budget_def)
  note h = map_heap_spec [OF ok _ t e, unfolded this, simplified, folded v]
  show vok: "vm_ok v" using h by blast
  show "m_pml4 v \<noteq> nullptr" using h nz by (simp add: vm_keeps_def)
  show "11996 \<le> unat (get_free_frames (vm_pmm v))"
    using h card_pmm_free [of "vm_pmm v"] vok by (simp add: vm_budget_def get_free_frames_def vm_ok_def)
  have "shrinks ?p (vm_pmm v)"
  proof -
    have "shrinks (vm_pmm s) (vm_pmm (fold (\<lambda>va. map_page va va True) vas s))" for vas s
      by (induction vas arbitrary: s) (auto intro: shrinks_trans map_page_shrinks)
    then have "shrinks (vm_pmm s) (vm_pmm v)" by (simp add: v map_heap_pages)
    moreover have "shrinks ?p (vm_pmm s)" using vm_initialize_shrinks [of s0] s by (simp add: s0_def)
    ultimately show ?thesis using shrinks_trans by blast
  qed
  then show "free_indices (vm_pmm v) \<subseteq> {261..<12288}" "m_memory_start (vm_pmm v) = 0x100000"
    using f(3,4) by (simp_all add: shrinks_def)
  show "translate v va = Some va" if va: "va < 0x1000000"
  proof -
    have "pd \<in> vm_used s"
      using tree_okD(1) [of "pt_mem s" "m_pml4 s" "vm_used s" "[0, 0]" pd] ok t by (simp add: vm_ok_def vm_table_def valid_path_def)
    then have "pt_mem v (entry_at pd (pd_index va)) = huge_entry (pd_index va)"
      using h e [of "pd_index va"] low_index [OF va] by (auto simp: vm_keeps_def)
    moreover have "vm_table v [0, 0] = Some pd"
      using vm_keeps_table [of s v "[0, 0]" pd] h ok t by (simp add: valid_path_def)
    ultimately show ?thesis
      using low_index [OF va] huge_translation [OF va] by (simp add: translate_def)
  qed
  show "translate v va = Some va" if "heap_start \<le> va" "va < heap_start + HEAP_SIZE"
    using h heap_address_page [OF that] translate_identity [of v "va AND PAGE_MASK" True va] by blast
qed

lemma boot_devices_keeps:
  "bt_vm (boot_devices im b) = bt_vm b" "bt_regs (boot_devices im b) = bt_regs b"
  "bt_heap (boot_devices im b) = heap_initialize heap_start HEAP_SIZE ((bt_heap b)\<lparr>hp_pmm := vm_pmm (bt_vm b)\<rparr>)"
  by (simp_all add: boot_devices_def Let_def)

section \<open>Properties\<close>

text \<open>
  C9: whatever memory holds before, when \<open>kernel_main\<close> has set up memory and devices the page tables are sound and loaded, the first
  16 MiB and the whole heap are mapped to themselves, every frame still free lies between the reserved first frames and the heap,
  so that neither page tables nor process pages are ever put into the kernel or the heap, almost 12000 frames are left, and the heap is
  one free block with a sound frame allocator behind it.
\<close>

theorem boot_memory_ready:
  "let b' = boot_devices im (boot_memory b); v = bt_vm b' in
     vm_ok v \<and> m_pml4 v \<noteq> nullptr \<and> cr3 (bt_regs b') = m_pml4 v \<and>
     (\<forall>va. va < 0x1000000 \<or> heap_start \<le> va \<and> va < heap_start + HEAP_SIZE \<longrightarrow> translate v va = Some va) \<and>
     (\<forall>f \<in> pmm_free (vm_pmm v). 0x205000 \<le> f \<and> f < heap_start) \<and>
     11996 \<le> unat (get_free_frames (vm_pmm v)) \<and>
     heap_inv (bt_heap b') \<and> heap_rep (bt_heap b') [(heap_start, HEAP_SIZE - 24, True)]"
proof -
  let ?v = "bt_vm (boot_memory b)" and ?h = "bt_heap (boot_devices im (boot_memory b))"
  note m = boot_memory_spec [where b = b]
  have "0x205000 \<le> f \<and> f < heap_start" if f: "f \<in> pmm_free (vm_pmm ?v)" for f
  proof -
    obtain i where i: "i \<in> free_indices (vm_pmm ?v)" "f = 0x100000 + of_nat i * PAGE_SIZE"
      using f m(5) by (auto simp: pmm_free_def frame_addr_def)
    then have "261 \<le> i" "i < 12288" using m(4) by auto
    moreover from this have "unat f = 0x100000 + i * 4096"
      unfolding i(2) PAGE_SIZE_def by (subst unat_plus_u64; subst unat_mult_u64) (simp_all add: unat_of_nat_u64)
    ultimately show ?thesis by (simp add: heap_start_eq word_le_nat_alt word_less_nat_alt)
  qed
  moreover have "heap_rep ?h [(heap_start, HEAP_SIZE - 24, True)]"
    using heap_initialize_correct [of HEAP_SIZE heap_start] by (simp add: boot_devices_keeps heap_start_eq HEAP_SIZE_def)
  moreover from this have "heap_inv ?h"
    using m(1) by (auto simp: heap_inv_def vm_ok_def boot_devices_keeps heap_initialize_def hp_update_def)
  moreover have "cr3 (bt_regs (boot_memory b)) = m_pml4 ?v"
    by (simp add: boot_memory_def Let_def load_page_directory_def)
  ultimately show ?thesis
    using m(1-3) m(6,7) by (auto simp: Let_def boot_devices_keeps)
qed

theorem boot_memory_ready_witness:
  "\<forall>im b. translate (bt_vm (boot_devices im (boot_memory b))) 0x3100008 = Some 0x3100008"
proof (intro allI)
  fix im :: image and b :: boot
  show "translate (bt_vm (boot_devices im (boot_memory b))) 0x3100008 = Some 0x3100008"
    using boot_memory_ready [of im b] by (simp add: Let_def heap_start_eq HEAP_SIZE_def)
qed

text \<open>
  The scheduler is set up before the processors are counted: it has a single run queue, whatever number of processors is detected and
  started afterwards.
\<close>

theorem one_run_queue:
  assumes "m_cpu_count (bt_smp b) = 1" "boot_processors im b = Some b'"
  shows "m_runqueues (krn (bt_world b')) = [new_runqueue 0]"
proof -
  have on: "m_runqueues (krn (bt_world c')) = m_runqueues (krn (bt_world c))" if "on_smp f c = Some c'" for f c c'
    using that by (auto simp: on_smp_def bt_world_def upd_vm_def upd_krn_def upd_world_def Let_def)
  let ?b = "upd_krn (sched_initialize RoundRobin (m_cpu_count (bt_smp b))) b"
  have "m_runqueues (krn (bt_world ?b)) = [new_runqueue 0]"
    using assms(1) by (simp add: upd_krn_def sched_initialize_def)
  then show ?thesis
    using assms(2) by (auto simp: boot_processors_def Let_def bind_eq_Some_conv dest!: on split: if_split_asm)
qed

text \<open>A volume that cannot be mounted ends the boot: \<open>kernel_main\<close> returns with interrupts disabled and no shell.\<close>

lemma boot_world_fields [simp]:
  "vol (bt_world (boot_mark k msg b)) = vol (bt_world b)" "shell_pid (bt_world (boot_mark k msg b)) = shell_pid (bt_world b)"
  "vol (bt_world (upd_vm g b)) = vol (bt_world b)" "shell_pid (bt_world (upd_vm g b)) = shell_pid (bt_world b)"
  "bt_world (b\<lparr>bt_machine := set_kbd h (bt_machine b)\<rparr>) = bt_world b" "bt_world (boot_timer im b) = bt_world b"
  "bt_world (b\<lparr>bt_machine := (bt_machine b)\<lparr>mch_outs := outs\<rparr>\<rparr>) = bt_world b" "bt_world (boot_gdt addr b) = bt_world b"
  "bt_world (b\<lparr>bt_regs := r\<rparr>) = bt_world b" "bt_world (b\<lparr>bt_cmos := c\<rparr>) = bt_world b" "bt_world (b\<lparr>bt_heap := hp\<rparr>) = bt_world b"
  "bt_world (b\<lparr>bt_idt := t\<rparr>) = bt_world b"
  by (simp_all add: bt_world_def upd_world_def upd_vm_def upd_krn_def boot_mark_def boot_gdt_def Let_def set_kbd_def
      boot_timer_def init_timer_def)

theorem boot_without_volume:
  assumes "\<not> ata_present (vol (bt_world b))"
  shows "\<exists>b'. kernel_main im b = Some (False, b') \<and> shell_pid (bt_world b') = shell_pid (bt_world b)"
proof -
  let ?b = "boot_devices im (boot_memory (boot_tables im b))"
  have w: "vol (bt_world ?b) = vol (bt_world b)" "shell_pid (bt_world ?b) = shell_pid (bt_world b)"
    by (simp_all add: boot_devices_def boot_memory_def boot_tables_def Let_def)
  then have "mount (vol (bt_world ?b)) = (False, vol (bt_world b))" using assms by (simp add: mount_def)
  moreover have "37 \<notin> set (cstr ''FAT32: Failed to mount filesystem'' @ [10])" by (simp add: cstr_def)
  ultimately show ?thesis
    using w(2) by (simp add: kernel_main_def Let_def say_def printf_plain)
qed

text \<open>The constructor of a local static object runs in the first call alone; an initialisation that was given up is tried again.\<close>

theorem static_constructed_once:
  "fold (\<lambda>_. static_instance ctor) [0..<Suc n] (0, s) = (1, ctor s)" "cxa_guard_acquire (cxa_guard_abort g)"
proof -
  have "static_instance ctor (0, s) = (1, ctor s)" for s
    by (simp add: static_instance_def cxa_guard_acquire_def cxa_guard_release_def)
  moreover have "static_instance ctor (1, s) = (1, s)" for s by (simp add: static_instance_def cxa_guard_acquire_def)
  ultimately show "fold (\<lambda>_. static_instance ctor) [0..<Suc n] (0, s) = (1, ctor s)" by (induction n) simp_all
  show "cxa_guard_acquire (cxa_guard_abort g)" by (simp add: cxa_guard_acquire_def cxa_guard_abort_def)
qed

end
