(* ===== verification/Spec2Isabelle.thy ===== *)
theory Spec2Isabelle
  imports Physical_Memory Virtual_Memory Heap_Allocator Kernel_State Scheduler Process_Manager Message_IPC Klib Printf Syscall_Proofs Dynamic_Linker String_Class Editor_Proofs Shell_Proofs Command_Proofs Interrupt_Proofs Clock
    Ata_Driver System_Commands Boot
begin

text \<open>
  Pocky, an x86-64 kernel in C++: a verification development. Source paths below are relative to \<^verbatim>\<open>src/kernel/src\<close>.

  \<^bold>\<open>The program.\<close> \<open>kernel_main\<close> sets up descriptor tables and interrupt gates, the frame allocator, the page tables and the
  kernel heap, the keyboard, timer and clock, mounts the FAT32 volume on the ATA disk, starts the scheduler and the processors
  that the ACPI tables list, and ends in a shell. From then on everything happens in interrupts: keys reach the shell, the editor or the
  pager through the keyboard handler, the timer drives the scheduler, programs enter through system calls. Processes live in a linked
  table of the process manager and in the run queues of the scheduler; message queues block and wake them; files, directories and
  programs come from the volume.

  \<^bold>\<open>Conventions.\<close> A class or struct is a record, its methods are functions from state to state, with the result in front. Integers
  keep their width as words wherever they can wrap; pointers are 64-bit words with 0 as \<open>nullptr\<close>. Strings are byte lists without the
  terminator. \<open>None\<close> as the outcome of an operation means that the C++ code has no defined outcome there (it reads or writes
  outside an array, follows a null pointer or divides by zero) or does not end: loops without an evident bound are partial functions whose
  value is then \<open>None\<close>. Theorems that say an operation works prove that the outcome is \<open>Some\<close>. The one recursion that only the stack
  bounds, the deletion of a directory tree, has its depth as an argument (\<open>pl_depth\<close>) and the outcome \<open>None\<close> when it is used up. What lies
  outside the source is an argument: the addresses \<open>new\<close> returns, the number of the executing processor, uninitialised stack bytes,
  port reads of a controller, the answers of \<open>cpuid\<close>, labels of assembly stubs, the digits of a floating-point number. Contracts
  between components are locales, each interpreted on the definitions of the component that provides it.

  \<^bold>\<open>Memory.\<close>
  \<^item> \<open>Prelude\<close>: word types, array idioms, shared lemmas.
  \<^item> \<open>Physical_Memory\<close> (\<^verbatim>\<open>memory/physical_memory.cpp\<close>): the frame bitmap. Every frame is handed out at most once until it is
    released; a locale of frame pools carries the round trip of allocation and release.
  \<^item> \<open>Virtual_Memory\<close> (\<^verbatim>\<open>memory/virtual_memory.cpp\<close>): entries and the four-level tree. The invariant \<open>vm_ok\<close> says that the tables form a
    tree inside frames in use; mapping, lookup and unmapping are those of an abstract map of pages (locale \<open>address_space\<close>), and present entries
    are never overwritten.
  \<^item> \<open>Heap_Allocator\<close> (\<^verbatim>\<open>memory/heap.cpp\<close>): first fit over a list of headers; blocks tile the region, live blocks are disjoint, and
    theorems about lost blocks, wrap-around and wrongly released frames describe what the code does beyond its contract.

  \<^bold>\<open>Processes.\<close>
  \<^item> \<open>Kernel_State\<close>: the state shared by the next three. \<open>Scheduler\<close> (\<^verbatim>\<open>core/scheduler.cpp\<close>): run queues, both policies, load
    balancing; choice, fairness and termination. \<open>Process_Manager\<close> (\<^verbatim>\<open>core/process.cpp\<close>): the table, creation, termination, stacks,
    context switch.
  \<^item> \<open>Message_IPC\<close> (\<^verbatim>\<open>core/ipc.cpp\<close>): queues refine FIFO channels; identifiers, waking of receivers, shared memory.
  \<^item> \<open>Elf_Loader\<close>, \<open>Elf_Proofs\<close> (\<^verbatim>\<open>core/elf.cpp\<close>) and \<open>Dynamic_Linker\<close> (\<^verbatim>\<open>core/dynamic_linker.cpp\<close>): loading programs, libraries and
    relocations. \<open>Syscall\<close>, \<open>Syscall_Proofs\<close> (\<^verbatim>\<open>core/syscall.cpp\<close>): the dispatch and every system call, among them the message round
    trip between two processes and what \<open>fork\<close> shares.

  \<^bold>\<open>Libraries.\<close> \<open>Klib\<close> (\<^verbatim>\<open>lib/lib.cpp\<close>), \<open>Printf\<close> (\<^verbatim>\<open>lib/printf.cpp\<close>), \<open>Vector_Class\<close> (\<^verbatim>\<open>lib/vector.hpp\<close>) and \<open>String_Class\<close>
  (\<^verbatim>\<open>lib/string.hpp\<close>); the two classes refine lists.

  \<^bold>\<open>Disk and file system.\<close>
  \<^item> \<open>Ata_Driver\<close> (\<^verbatim>\<open>drivers/ata.cpp\<close>, \<^verbatim>\<open>hw/io.cpp\<close>): the driver over an arbitrary controller; the locale \<open>pio_drive\<close> states the ATA
    protocol, and on every drive that keeps to it the transfers are those of the disk below.
  \<^item> \<open>Fat_Table\<close>, \<open>Fat_Directory\<close> (\<^verbatim>\<open>fs/fat32.cpp\<close>) and the proofs \<open>Fat_Table_Proofs\<close>, \<open>Fat_Files\<close>, \<open>Fat_Directory_Proofs\<close>,
    \<open>Fat_Operations\<close>: the invariant of a volume, the allocation table as a store of chains, files that read back what was written,
    directories as lists of entries, path lookup, creation and deletion.

  \<^bold>\<open>Console and shell.\<close>
  \<^item> \<open>Console\<close> (\<^verbatim>\<open>shell/vga.cpp\<close>, \<^verbatim>\<open>shell/terminal.cpp\<close>, \<^verbatim>\<open>shell/screen_state.cpp\<close>): the screen shows the last 25 lines of the output.
  \<^item> \<open>Editor\<close>, \<open>Editor_Proofs\<close> (\<^verbatim>\<open>shell/editor.cpp\<close>), \<open>Pager\<close> (\<^verbatim>\<open>shell/pager.cpp\<close>): the cursor stays in the text, saving and opening are
    inverse, a page shows its lines.
  \<^item> \<open>Prompt\<close>, \<open>Shell\<close>, \<open>Shell_Commands\<close> (\<^verbatim>\<open>shell/shell.cpp\<close>, \<^verbatim>\<open>shell/commands\<close>) with \<open>Shell_Proofs\<close> and \<open>Command_Proofs\<close>: line editing,
    completion, aliases, dispatch and the commands; a typed line runs its command, and commands leave the process table as they found it.
  \<^item> \<open>System_Commands\<close>: \<^verbatim>\<open>cores\<close>, \<^verbatim>\<open>memory\<close>, \<^verbatim>\<open>ipctest\<close>, \<^verbatim>\<open>shutdown\<close>, \<^verbatim>\<open>crash\<close>. They need state that the dispatch of \<open>Shell\<close> does not
    carry and are therefore its argument \<open>other\<close> there.

  \<^bold>\<open>Machine.\<close>
  \<^item> \<open>Interrupts\<close>, \<open>Interrupt_Proofs\<close> (\<^verbatim>\<open>hw/gdt.cpp\<close>, \<^verbatim>\<open>hw/idt.cpp\<close>, \<^verbatim>\<open>hw/pic.cpp\<close>, \<^verbatim>\<open>drivers/keyboard.cpp\<close>): the gates lead to their
    stubs, and striking the keys of a text types it into the shell. \<open>Clock\<close> (\<^verbatim>\<open>hw/timer.cpp\<close>, \<^verbatim>\<open>hw/rtc.cpp\<close>): ticks, uptime, time of day.
  \<^item> \<open>Multiboot\<close> (\<^verbatim>\<open>core/multiboot2.cpp\<close>), \<open>Acpi\<close> (\<^verbatim>\<open>hw/acpi.cpp\<close>), \<open>Smp\<close> (\<^verbatim>\<open>hw/smp.cpp\<close>): reading the tables of boot loader and
    firmware, detection and start of processors, with theorems about where the code departs from the formats it reads.
  \<^item> \<open>Boot\<close> (\<^verbatim>\<open>core/kernel.cpp\<close>, \<^verbatim>\<open>core/init.cpp\<close>, \<^verbatim>\<open>lib/cxxabi.cpp\<close>): \<open>kernel_main\<close> over all of the above; after it the invariants
    of frames, page tables and heap hold, which the other theories assume.

  \<^bold>\<open>Not modelled.\<close> The assembly stubs (\<^verbatim>\<open>asm\<close>): mode switches, register saving and table loads, of which only the register exchange of the
  context switch is part of the model. The digits that \<open>printf\<close> produces for floating-point arguments: they rest on double-precision
  arithmetic. Progress messages and debug marks inside the initialisers, delays, and memory caching. Interrupts that arrive in the
  middle of an operation and true parallelism of processors: operations are atomic steps, as on a single processor with interrupts
  disabled; the kernel never gets other processors to run (see \<open>other_processors_never_started\<close>).
\<close>

end
